(* ===== verification/Bash_Prelude.thy ===== *)
theory Bash_Prelude
  imports Main "HOL-Library.Word" "HOL-Library.Monad_Syntax" "HOL-Library.Multiset"
begin

text \<open>
  Shared vocabulary of the development: C strings and characters, bit flags, fixed-width
  integers, and the list lemmas that several components use.

  A C string is modelled as the list of its characters up to, and without, the terminating
  NUL. Reading \<open>s[i]\<close> is \<^verbatim>\<open>c_at s i\<close>, which yields NUL at the terminator. An \<open>int\<close>
  used as a set of flags is a \<open>nat\<close> read with \<open>AND\<close>.
\<close>

unbundle bit_operations_syntax

section \<open>C strings\<close>

type_synonym cstring = string

abbreviation NUL :: char where
  "NUL \<equiv> CHR 0x00"

definition c_at :: "cstring \<Rightarrow> nat \<Rightarrow> char" where
  "c_at s i = (if i < length s then s ! i else NUL)"

lemma c_at_Cons_0 [simp]: "c_at (c # cs) 0 = c"
  by (simp add: c_at_def)

lemma c_at_Cons_Suc [simp]: "c_at (c # cs) (Suc i) = c_at cs i"
  by (simp add: c_at_def)

lemma c_at_Nil [simp]: "c_at [] i = NUL"
  by (simp add: c_at_def)

definition c_string :: "cstring \<Rightarrow> bool" where
  "c_string s \<longleftrightarrow> NUL \<notin> set s"

lemma c_string_simps [simp]:
  "c_string []"
  "c_string (c # cs) \<longleftrightarrow> c \<noteq> NUL \<and> c_string cs"
  "c_string (xs @ ys) \<longleftrightarrow> c_string xs \<and> c_string ys"
  by (auto simp: c_string_def)

lemma c_at_length [simp]: "c_at s (length s) = NUL"
  by (simp add: c_at_def)

lemma c_at_NUL_iff: "c_string s \<Longrightarrow> c_at s i = NUL \<longleftrightarrow> length s \<le> i"
  by (auto simp: c_at_def c_string_def) (metis nth_mem)

text \<open>
  A routine that fills a buffer of \<open>cap\<close> bytes with \<open>out\<close> and a terminator stays inside the
  buffer iff \<open>length out < cap\<close>; otherwise it has written past the allocation and the model
  has no result.
\<close>

definition fill_buffer :: "nat \<Rightarrow> cstring \<Rightarrow> cstring option" where
  "fill_buffer cap out = (if length out < cap then Some out else None)"

text \<open>
  \<open>strcmp\<close> compares as \<^verbatim>\<open>unsigned char\<close>; only the sign of its result is used. A plain
  \<open>char\<close> in an arithmetic expression is signed.
\<close>

definition uchar :: "char \<Rightarrow> int" where
  "uchar c = int (of_char c :: nat)"

definition schar :: "char \<Rightarrow> int" where
  "schar c = (if uchar c < 128 then uchar c else uchar c - 256)"

fun strcmp :: "cstring \<Rightarrow> cstring \<Rightarrow> int" where
  "strcmp [] t = (case t of [] \<Rightarrow> 0 | _ \<Rightarrow> - 1)"
| "strcmp (c # s) t =
     (case t of [] \<Rightarrow> 1
      | d # t' \<Rightarrow> if c = d then strcmp s t' else uchar c - uchar d)"

lemma uchar_eq_iff [simp]: "uchar c = uchar d \<longleftrightarrow> c = d"
  by (simp add: uchar_def)

lemma schar_eq_iff [simp]: "schar c = schar d \<longleftrightarrow> c = d"
proof
  have "0 \<le> uchar x \<and> uchar x < 256" for x
    using mod_less_divisor [of 256 "of_char x :: nat"] by (simp add: uchar_def)
  then show "schar c = schar d \<Longrightarrow> c = d"
    using uchar_eq_iff [of c d] unfolding schar_def by (smt (verit))
qed simp

lemma uchar_NUL [simp]: "uchar NUL = 0"
  by (simp add: uchar_def)

lemma uchar_0_iff [simp]: "uchar c = 0 \<longleftrightarrow> c = NUL"
  using uchar_eq_iff [of c NUL] by simp

lemma uchar_nonneg [simp]: "0 \<le> uchar c"
  by (simp add: uchar_def)

lemma strcmp_refl [simp]: "strcmp s s = 0"
  by (induction s) auto

lemma strcmp_eq_0 [simp]: "strcmp s t = 0 \<longleftrightarrow> s = t"
  by (induction s t rule: strcmp.induct) (auto split: list.splits)

lemma strcmp_swap: "0 < strcmp s t \<longleftrightarrow> strcmp t s < 0"
  by (induction s t rule: strcmp.induct) (auto split: list.splits)

lemma strcmp_trans:
  "strcmp s t \<le> 0 \<Longrightarrow> strcmp t u \<le> 0 \<Longrightarrow> strcmp s u \<le> 0"
proof (induction s arbitrary: t u)
  case Nil
  then show ?case by (auto split: list.splits)
next
  case (Cons c s)
  show ?case
  proof (cases t)
    case Nil
    then show ?thesis using Cons.prems by auto
  next
    case t: (Cons d t')
    then show ?thesis
      using Cons.IH [of t'] Cons.prems uchar_eq_iff [of c d]
      by (cases u) (auto split: if_splits)
  qed
qed

section \<open>Character classes in the C locale\<close>

definition whitespace :: "char \<Rightarrow> bool" where
  "whitespace c \<longleftrightarrow> c = CHR '' '' \<or> c = CHR 0x09"

definition is_digit :: "char \<Rightarrow> bool" where
  "is_digit c \<longleftrightarrow> 48 \<le> (of_char c :: nat) \<and> (of_char c :: nat) \<le> 57"

definition is_upper :: "char \<Rightarrow> bool" where
  "is_upper c \<longleftrightarrow> 65 \<le> (of_char c :: nat) \<and> (of_char c :: nat) \<le> 90"

definition is_lower :: "char \<Rightarrow> bool" where
  "is_lower c \<longleftrightarrow> 97 \<le> (of_char c :: nat) \<and> (of_char c :: nat) \<le> 122"

definition is_alpha :: "char \<Rightarrow> bool" where
  "is_alpha c \<longleftrightarrow> is_upper c \<or> is_lower c"

section \<open>Fixed-width integers\<close>

definition INTMAX_MAX :: int where "INTMAX_MAX = 9223372036854775807"
definition INTMAX_MIN :: int where "INTMAX_MIN = - 9223372036854775808"
definition INT_MAX :: int where "INT_MAX = 2147483647"
definition INT_MIN :: int where "INT_MIN = - 2147483648"

definition intmax_ok :: "int \<Rightarrow> bool" where
  "intmax_ok x \<longleftrightarrow> INTMAX_MIN \<le> x \<and> x \<le> INTMAX_MAX"

text \<open>Conversion to \<open>int\<close> and two's complement wrap-around at 64 bits.\<close>

definition to_int32 :: "int \<Rightarrow> int" where
  "to_int32 x = (x + 2147483648) mod 4294967296 - 2147483648"

definition wrap64 :: "int \<Rightarrow> int" where
  "wrap64 x = (x + 9223372036854775808) mod 18446744073709551616 - 9223372036854775808"

lemmas int_limits = INTMAX_MAX_def INTMAX_MIN_def INT_MAX_def INT_MIN_def

lemma to_int32_id: "INT_MIN \<le> x \<Longrightarrow> x \<le> INT_MAX \<Longrightarrow> to_int32 x = x"
  by (simp add: to_int32_def int_limits)

lemma to_int32_bounds: "INT_MIN \<le> to_int32 x \<and> to_int32 x \<le> INT_MAX"
  using pos_mod_bound [of 4294967296 "x + 2147483648"] pos_mod_sign [of 4294967296 "x + 2147483648"]
  unfolding to_int32_def int_limits by linarith

lemma wrap64_id: "intmax_ok x \<Longrightarrow> wrap64 x = x"
  by (simp add: wrap64_def intmax_ok_def int_limits)

lemma wrap64_ok: "intmax_ok (wrap64 x)"
  using pos_mod_bound [of 18446744073709551616 "x + 9223372036854775808"]
    pos_mod_sign [of 18446744073709551616 "x + 9223372036854775808"]
  unfolding wrap64_def intmax_ok_def int_limits by linarith

lemma wrap64_mod: "wrap64 x = wrap64 y \<longleftrightarrow> x mod 2 ^ 64 = y mod 2 ^ 64"
  by (simp add: wrap64_def mod_eq_dvd_iff)

lemma wrap64_residue: "wrap64 x mod 2 ^ 64 = x mod 2 ^ 64"
  by (metis wrap64_id wrap64_mod wrap64_ok)

lemma wrap64_cong: "a mod 2 ^ 64 = b mod 2 ^ 64 \<Longrightarrow> wrap64 a = wrap64 b"
  by (simp only: wrap64_mod)

lemma wrap64_mult_add: "wrap64 (wrap64 x * b + d) = wrap64 (x * b + d)"
  by (rule wrap64_cong) (metis mod_add_left_eq mod_mult_left_eq wrap64_residue)

section \<open>Lists\<close>

text \<open>\<open>qsort\<close> with a comparison function, as an insertion sort.\<close>

fun insert_by :: "('a \<Rightarrow> 'a \<Rightarrow> int) \<Rightarrow> 'a \<Rightarrow> 'a list \<Rightarrow> 'a list" where
  "insert_by cmp x [] = [x]"
| "insert_by cmp x (y # ys) = (if cmp x y \<le> 0 then x # y # ys else y # insert_by cmp x ys)"

definition qsort :: "('a \<Rightarrow> 'a \<Rightarrow> int) \<Rightarrow> 'a list \<Rightarrow> 'a list" where
  "qsort cmp xs = foldr (insert_by cmp) xs []"

lemma mset_insert_by: "mset (insert_by cmp x ys) = add_mset x (mset ys)"
  by (induction ys) auto

lemma mset_qsort: "mset (qsort cmp xs) = mset xs"
  by (induction xs) (simp_all add: qsort_def mset_insert_by)

lemma sorted_insert_by:
  assumes "\<And>x y. \<not> cmp x y \<le> 0 \<Longrightarrow> cmp y x \<le> 0"
    and "\<And>x y z. cmp x y \<le> 0 \<Longrightarrow> cmp y z \<le> 0 \<Longrightarrow> cmp x z \<le> 0"
  shows "sorted_wrt (\<lambda>x y. cmp x y \<le> 0) ys \<Longrightarrow> sorted_wrt (\<lambda>x y. cmp x y \<le> 0) (insert_by cmp x ys)"
proof (induction ys)
  case Nil
  then show ?case by simp
next
  case (Cons y ys)
  have s: "set (insert_by cmp x ys) = insert x (set ys)"
    using mset_insert_by [of cmp x ys] by (metis set_mset_add_mset_insert set_mset_mset)
  show ?case
  proof (cases "cmp x y \<le> 0")
    case True
    have "cmp x z \<le> 0" if "z \<in> set ys" for z
      using Cons.prems that assms(2) [OF True] by simp
    with True Cons.prems show ?thesis by simp
  next
    case False
    then show ?thesis
      using Cons.IH Cons.prems assms(1) [OF False] by (simp add: s)
  qed
qed

lemma sorted_qsort:
  assumes "\<And>x y. \<not> cmp x y \<le> 0 \<Longrightarrow> cmp y x \<le> 0"
    and "\<And>x y z. cmp x y \<le> 0 \<Longrightarrow> cmp y z \<le> 0 \<Longrightarrow> cmp x z \<le> 0"
  shows "sorted_wrt (\<lambda>x y. cmp x y \<le> 0) (qsort cmp xs)"
proof (induction xs)
  case Nil
  then show ?case by (simp add: qsort_def)
next
  case (Cons x xs)
  have "sorted_wrt (\<lambda>x y. cmp x y \<le> 0) (insert_by cmp x (qsort cmp xs))"
    using assms Cons.IH by (rule sorted_insert_by)
  then show ?case by (simp add: qsort_def)
qed

lemma take_drop_join:
  assumes "a \<le> b" and "b \<le> c"
  shows "take (b - a) (drop a xs) @ take (c - b) (drop b xs) = take (c - a) (drop a xs)"
proof -
  have "take ((b - a) + (c - b)) (drop a xs) = take (b - a) (drop a xs) @ take (c - b) (drop (b - a) (drop a xs))"
    by (rule take_add)
  then show ?thesis using assms by simp
qed

lemma distinct_map_concat:
  assumes "\<And>i. i < length xss \<Longrightarrow> distinct (map f (xss ! i))"
    and "\<And>i x. i < length xss \<Longrightarrow> x \<in> set (xss ! i) \<Longrightarrow> g (f x) = n + i"
  shows "distinct (map f (concat xss))"
  using assms
proof (induction xss arbitrary: n)
  case Nil
  then show ?case by simp
next
  case (Cons xs xss)
  have "distinct (map f (concat xss))"
  proof (rule Cons.IH [of "Suc n"])
    show "distinct (map f (xss ! i))" if "i < length xss" for i
      using Cons.prems(1) [of "Suc i"] that by simp
    show "g (f x) = Suc n + i" if "i < length xss" "x \<in> set (xss ! i)" for i x
      using Cons.prems(2) [of "Suc i" x] that by simp
  qed
  moreover have "f x \<noteq> f y" if "x \<in> set xs" "ys \<in> set xss" "y \<in> set ys" for x y ys
  proof
    assume eq: "f x = f y"
    from that(2) obtain j where "j < length xss" "ys = xss ! j"
      by (auto simp: in_set_conv_nth)
    then show False
      using Cons.prems(2) [of 0 x] Cons.prems(2) [of "Suc j" y] that eq by simp
  qed
  ultimately show ?case
    using Cons.prems(1) [of 0] by fastforce
qed

lemma sum_list_length_update:
  "i < length xss \<Longrightarrow>
   length (concat (xss[i := ys])) + length (xss ! i) = length (concat xss) + length ys"
proof (induction xss arbitrary: i)
  case Nil
  then show ?case by simp
next
  case (Cons x xss)
  then show ?case by (cases i) (fastforce simp: add.assoc)+
qed

lemma set_concat_nth: "set (concat xss) = (\<Union>i<length xss. set (xss ! i))"
  by (auto simp: in_set_conv_nth [of _ xss]) (metis nth_mem)

end
