(* ===== verification/Interfaces.thy ===== *)
theory Interfaces
  imports Bash_Prelude
begin

text \<open>
  The contracts the components share, as locales. A keyed store is what the hash table, the
  associative arrays, the alias table and the indexed arrays all promise their callers: a
  partial map from keys to values under an invariant. A counted store adds the entry count
  (\<^verbatim>\<open>nentries\<close>, \<^verbatim>\<open>num_elements\<close>) that the code keeps beside the data.
\<close>

section \<open>Keyed stores\<close>

text \<open>A history of assignments and removals, and what it does to a partial map.\<close>

datatype ('k, 'v) store_op = Put 'k 'v | Del 'k

primrec map_op :: "('k, 'v) store_op \<Rightarrow> ('k \<rightharpoonup> 'v) \<Rightarrow> ('k \<rightharpoonup> 'v)" where
  "map_op (Put k v) m = m(k \<mapsto> v)"
| "map_op (Del k) m = m(k := None)"

primrec map_ops :: "('k, 'v) store_op list \<Rightarrow> ('k \<rightharpoonup> 'v) \<Rightarrow> ('k \<rightharpoonup> 'v)" where
  "map_ops [] m = m"
| "map_ops (x # xs) m = map_ops xs (map_op x m)"

primrec put_keys :: "('k, 'v) store_op list \<Rightarrow> 'k set" where
  "put_keys [] = {}"
| "put_keys (x # xs) = (case x of Put k v \<Rightarrow> {k} | Del k \<Rightarrow> {}) \<union> put_keys xs"

locale keyed_store =
  fixes inv :: "'t \<Rightarrow> bool"
    and ok :: "'k \<Rightarrow> bool"
    and look :: "'t \<Rightarrow> 'k \<Rightarrow> 'v option"
    and put :: "'k \<Rightarrow> 'v \<Rightarrow> 't \<Rightarrow> 't"
    and del :: "'k \<Rightarrow> 't \<Rightarrow> 't"
  assumes inv_put: "inv t \<Longrightarrow> ok k \<Longrightarrow> inv (put k v t)"
    and inv_del: "inv t \<Longrightarrow> inv (del k t)"
    and look_put: "inv t \<Longrightarrow> ok k \<Longrightarrow> look (put k v t) = (look t)(k \<mapsto> v)"
    and look_del: "inv t \<Longrightarrow> look (del k t) = (look t)(k := None)"
begin

text \<open>A sequence of assignments, as the shell performs them one after the other.\<close>

primrec put_all :: "('k \<times> 'v) list \<Rightarrow> 't \<Rightarrow> 't" where
  "put_all [] t = t"
| "put_all (kv # kvs) t = put_all kvs (put (fst kv) (snd kv) t)"

lemma inv_put_all: "inv t \<Longrightarrow> \<forall>kv\<in>set kvs. ok (fst kv) \<Longrightarrow> inv (put_all kvs t)"
  by (induction kvs arbitrary: t) (auto intro: inv_put)

lemma look_put_all:
  "inv t \<Longrightarrow> \<forall>kv\<in>set kvs. ok (fst kv) \<Longrightarrow> look (put_all kvs t) = look t ++ map_of (rev kvs)"
proof (induction kvs arbitrary: t)
  case Nil
  then show ?case by simp
next
  case (Cons kv kvs)
  then have "look (put_all kvs (put (fst kv) (snd kv) t)) =
      (look t)(fst kv \<mapsto> snd kv) ++ map_of (rev kvs)"
    by (simp add: inv_put look_put)
  then show ?case
    by (cases kv) (auto simp: fun_eq_iff map_add_def split: option.splits)
qed

primrec apply_op :: "('k, 'v) store_op \<Rightarrow> 't \<Rightarrow> 't" where
  "apply_op (Put k v) t = put k v t"
| "apply_op (Del k) t = del k t"

primrec run :: "('k, 'v) store_op list \<Rightarrow> 't \<Rightarrow> 't" where
  "run [] t = t"
| "run (x # xs) t = run xs (apply_op x t)"

lemma run_refines:
  "inv t \<Longrightarrow> \<forall>k\<in>put_keys xs. ok k \<Longrightarrow>
   inv (run xs t) \<and> look (run xs t) = map_ops xs (look t)"
proof (induction xs arbitrary: t)
  case Nil
  then show ?case by simp
next
  case (Cons x xs)
  have "inv (apply_op x t) \<and> look (apply_op x t) = map_op x (look t)"
    using Cons.prems by (cases x) (simp_all add: inv_put inv_del look_put look_del)
  then show ?case
    using Cons.IH [of "apply_op x t"] Cons.prems(2) by simp
qed

lemma put_twice:
  "inv t \<Longrightarrow> ok k \<Longrightarrow> look (put k w (put k v t)) = look (put k w t)"
  by (simp add: inv_put look_put)

lemma put_del: "inv t \<Longrightarrow> ok k \<Longrightarrow> look (del k (put k v t)) = look (del k t)"
  by (simp add: inv_put look_put look_del)

lemma put_other:
  "inv t \<Longrightarrow> ok k \<Longrightarrow> ok k' \<Longrightarrow> k \<noteq> k' \<Longrightarrow>
   look (put k v (put k' v' t)) = look (put k' v' (put k v t))"
  by (simp add: inv_put look_put fun_upd_twist)

end

section \<open>Counted stores\<close>

locale counted_store = keyed_store inv ok look put del
  for inv :: "'t \<Rightarrow> bool"
    and ok :: "'k \<Rightarrow> bool"
    and look :: "'t \<Rightarrow> 'k \<Rightarrow> 'v option"
    and put :: "'k \<Rightarrow> 'v \<Rightarrow> 't \<Rightarrow> 't"
    and del :: "'k \<Rightarrow> 't \<Rightarrow> 't" +
  fixes count :: "'t \<Rightarrow> nat"
  assumes finite_look: "inv t \<Longrightarrow> finite (dom (look t))"
    and count_look: "inv t \<Longrightarrow> count t = card (dom (look t))"
begin

lemma count_put:
  "inv t \<Longrightarrow> ok k \<Longrightarrow>
   count (put k v t) = (if look t k = None then Suc (count t) else count t)"
  using finite_look [of t] count_look [of t] count_look [of "put k v t"]
  by (auto simp: inv_put look_put insert_absorb domIff)

lemma count_del:
  "inv t \<Longrightarrow> count (del k t) = (if look t k = None then count t else count t - 1)"
  using finite_look [of t] count_look [of t] count_look [of "del k t"]
  by (auto simp: inv_del look_del domIff)

lemma count_put_all:
  "inv t \<Longrightarrow> \<forall>kv\<in>set kvs. ok (fst kv) \<Longrightarrow>
   count (put_all kvs t) = card (dom (look t) \<union> fst ` set kvs)"
  by (simp add: inv_put_all look_put_all count_look dom_map_of_conv_image_fst Un_commute)

lemma count_run:
  "inv t \<Longrightarrow> \<forall>k\<in>put_keys xs. ok k \<Longrightarrow> count (run xs t) = card (dom (map_ops xs (look t)))"
  using run_refines [of t xs] count_look [of "run xs t"] by simp

lemma count_zero: "inv t \<Longrightarrow> count t = 0 \<longleftrightarrow> look t = Map.empty"
  by (simp add: count_look finite_look)

end

section \<open>Machines that implement an abstract machine\<close>

text \<open>
  A component whose operations may leave the defined behaviour of C (\<open>None\<close>) and the abstract
  machine it implements. \<open>ok\<close> says, on the abstract state, when an operation may be called.
\<close>

locale simulated_machine =
  fixes inv :: "'t \<Rightarrow> bool"
    and abs :: "'t \<Rightarrow> 's"
    and step :: "'o \<Rightarrow> 't \<Rightarrow> ('r \<times> 't) option"
    and spec :: "'o \<Rightarrow> 's \<Rightarrow> 'r \<times> 's"
    and ok :: "'o \<Rightarrow> 's \<Rightarrow> bool"
  assumes step_refines:
    "inv t \<Longrightarrow> ok x (abs t) \<Longrightarrow>
     \<exists>t'. step x t = Some (fst (spec x (abs t)), t') \<and> inv t' \<and> abs t' = snd (spec x (abs t))"
begin

primrec runs :: "'o list \<Rightarrow> 't \<Rightarrow> ('r list \<times> 't) option" where
  "runs [] t = Some ([], t)"
| "runs (x # xs) t = do { (r, t1) \<leftarrow> step x t; (rs, t2) \<leftarrow> runs xs t1; Some (r # rs, t2) }"

primrec spec_runs :: "'o list \<Rightarrow> 's \<Rightarrow> 'r list \<times> 's" where
  "spec_runs [] s = ([], s)"
| "spec_runs (x # xs) s =
     (case spec x s of (r, s1) \<Rightarrow> case spec_runs xs s1 of (rs, s2) \<Rightarrow> (r # rs, s2))"

primrec allowed :: "'o list \<Rightarrow> 's \<Rightarrow> bool" where
  "allowed [] s = True"
| "allowed (x # xs) s = (ok x s \<and> allowed xs (snd (spec x s)))"

lemma runs_refines:
  "inv t \<Longrightarrow> allowed xs (abs t) \<Longrightarrow>
   \<exists>t'. runs xs t = Some (fst (spec_runs xs (abs t)), t') \<and> inv t' \<and> abs t' = snd (spec_runs xs (abs t))"
proof (induction xs arbitrary: t)
  case Nil
  then show ?case by simp
next
  case (Cons x xs)
  then obtain t1 where t1: "step x t = Some (fst (spec x (abs t)), t1)" "inv t1" "abs t1 = snd (spec x (abs t))"
    using step_refines [of t x] by auto
  then obtain t2 where "runs xs t1 = Some (fst (spec_runs xs (abs t1)), t2)" "inv t2"
      "abs t2 = snd (spec_runs xs (abs t1))"
    using Cons.IH [of t1] Cons.prems by auto
  then show ?case
    using t1 by (simp add: case_prod_beta)
qed

end

end
