(* ===== verification/Hash_Table.thy ===== *)
theory Hash_Table
  imports Interfaces
begin

text \<open>
  The chained hash table of \<^verbatim>\<open>hashlib.c\<close>, which backs associative arrays, aliases, the command
  hash and the variable contexts. A bucket chain is a list in chain order; a pointer to an
  entry is its bucket number and position, valid until the table is next changed.
  \<^verbatim>\<open>hash_lookup\<close> is the finite map the table stands for; the lemmas show that search, insert,
  remove, copy, flush and walk implement it and keep \<^verbatim>\<open>hash_inv\<close>.
  A NULL table is \<open>None\<close>. \<^verbatim>\<open>hash_pstats\<close> (debug printing) is not modelled.
\<close>

section \<open>Data\<close>

record 'a bucket_contents =
  bc_key :: cstring
  bc_data :: "'a option"
  khash :: "32 word"
  times_found :: nat

record 'a hash_table =
  bucket_array :: "'a bucket_contents list list"
  nbuckets :: nat
  nentries :: nat

type_synonym item_ref = "nat \<times> nat"

definition DEFAULT_HASH_BUCKETS :: nat where "DEFAULT_HASH_BUCKETS = 64"
definition HASH_NOSRCH :: nat where "HASH_NOSRCH = 1"
definition HASH_CREATE :: nat where "HASH_CREATE = 2"

section \<open>Operations\<close>

definition hash_create :: "nat \<Rightarrow> 'a hash_table" where
  "hash_create buckets =
     (let n = (if buckets = 0 then DEFAULT_HASH_BUCKETS else buckets)
      in \<lparr>bucket_array = replicate n [], nbuckets = n, nentries = 0\<rparr>)"

definition HASH_ENTRIES :: "'a hash_table option \<Rightarrow> nat" where
  "HASH_ENTRIES table = (case table of None \<Rightarrow> 0 | Some t \<Rightarrow> nentries t)"

definition hash_size :: "'a hash_table option \<Rightarrow> nat" where
  "hash_size table = HASH_ENTRIES table"

text \<open>\<open>*s\<close> is a (signed) \<open>char\<close>: it is sign-extended before the exclusive or.\<close>

definition char_to_uint :: "char \<Rightarrow> 32 word" where
  "char_to_uint c = signed (of_nat (of_char c) :: 8 word)"

fun hash_string_from :: "32 word \<Rightarrow> cstring \<Rightarrow> 32 word" where
  "hash_string_from i [] = i"
| "hash_string_from i (c # s) = hash_string_from ((i * 16777619) XOR char_to_uint c) s"

definition hash_string :: "cstring \<Rightarrow> 32 word" where
  "hash_string s = hash_string_from 0 s"

definition hash_bucket :: "cstring \<Rightarrow> 'a hash_table \<Rightarrow> nat" where
  "hash_bucket string t = unat (hash_string string AND of_nat (nbuckets t - 1))"

fun chain_find :: "32 word \<Rightarrow> cstring \<Rightarrow> 'a bucket_contents list \<Rightarrow> nat option" where
  "chain_find hv string [] = None"
| "chain_find hv string (b # bs) =
     (if hv = khash b \<and> bc_key b = string then Some 0
      else map_option Suc (chain_find hv string bs))"

definition new_item :: "cstring \<Rightarrow> 32 word \<Rightarrow> 'a bucket_contents" where
  "new_item string hv = \<lparr>bc_key = string, bc_data = None, khash = hv, times_found = 0\<rparr>"

definition push_item :: "cstring \<Rightarrow> 'a hash_table \<Rightarrow> item_ref \<times> 'a hash_table" where
  "push_item string t =
     (let b = hash_bucket string t
      in ((b, 0), t\<lparr>bucket_array :=
                (bucket_array t)[b := new_item string (hash_string string) # bucket_array t ! b],
              nentries := nentries t + 1\<rparr>))"

definition item_at :: "'a hash_table \<Rightarrow> item_ref \<Rightarrow> 'a bucket_contents" where
  "item_at t r = bucket_array t ! fst r ! snd r"

definition update_item ::
  "('a bucket_contents \<Rightarrow> 'a bucket_contents) \<Rightarrow> item_ref \<Rightarrow> 'a hash_table \<Rightarrow> 'a hash_table" where
  "update_item f r t =
     t\<lparr>bucket_array := (bucket_array t)
         [fst r := (bucket_array t ! fst r)[snd r := f (item_at t r)]]\<rparr>"

definition hash_search ::
  "cstring \<Rightarrow> 'a hash_table option \<Rightarrow> nat \<Rightarrow> item_ref option \<times> 'a hash_table option" where
  "hash_search string table flags =
     (case table of
        None \<Rightarrow> (None, None)
      | Some t \<Rightarrow>
          if flags AND HASH_CREATE = 0 \<and> HASH_ENTRIES table = 0 then (None, table)
          else
            let bucket = hash_bucket string t; hv = hash_string string
            in case chain_find hv string (bucket_array t ! bucket) of
                 Some i \<Rightarrow>
                   (Some (bucket, i),
                    Some (update_item (\<lambda>b. b\<lparr>times_found := times_found b + 1\<rparr>) (bucket, i) t))
               | None \<Rightarrow>
                   if flags AND HASH_CREATE \<noteq> 0
                   then (let (r, t') = push_item string t in (Some r, Some t'))
                   else (None, table))"

definition hash_remove ::
  "cstring \<Rightarrow> 'a hash_table option \<Rightarrow> nat \<Rightarrow> 'a bucket_contents option \<times> 'a hash_table option" where
  "hash_remove string table flags =
     (case table of
        None \<Rightarrow> (None, None)
      | Some t \<Rightarrow>
          if HASH_ENTRIES table = 0 then (None, table)
          else
            let bucket = hash_bucket string t; chain = bucket_array t ! bucket
            in case chain_find (hash_string string) string chain of
                 None \<Rightarrow> (None, table)
               | Some i \<Rightarrow>
                   (Some (chain ! i),
                    Some (t\<lparr>bucket_array :=
                          (bucket_array t)[bucket := take i chain @ drop (Suc i) chain],
                        nentries := nentries t - 1\<rparr>)))"

text \<open>
  Given a NULL table, the code creates one for the insertion and then drops the pointer to it:
  the caller's table stays NULL. The result pairs the entry with the table it lives in.
\<close>

definition hash_insert ::
  "cstring \<Rightarrow> 'a hash_table option \<Rightarrow> nat \<Rightarrow> item_ref \<times> 'a hash_table" where
  "hash_insert string table flags =
     (let t = (case table of None \<Rightarrow> hash_create 0 | Some t \<Rightarrow> t);
          (item, t1) = (if flags AND HASH_NOSRCH \<noteq> 0 then (None, Some t)
                        else hash_search string (Some t) 0)
      in case item of
           None \<Rightarrow> push_item string (the t1)
         | Some r \<Rightarrow> (r, the t1))"

definition copy_bucket_array ::
  "('a \<Rightarrow> 'a) \<Rightarrow> 'a bucket_contents list \<Rightarrow> 'a bucket_contents list" where
  "copy_bucket_array cpdata ba = map (\<lambda>e. e\<lparr>bc_data := map_option cpdata (bc_data e)\<rparr>) ba"

definition hash_copy :: "'a hash_table option \<Rightarrow> ('a \<Rightarrow> 'a) \<Rightarrow> 'a hash_table option" where
  "hash_copy table cpdata =
     map_option (\<lambda>t. (hash_create (nbuckets t))
         \<lparr>bucket_array := map (copy_bucket_array cpdata) (bucket_array t),
          nentries := nentries t\<rparr>) table"

definition hash_flush :: "'a hash_table option \<Rightarrow> 'a hash_table option" where
  "hash_flush table =
     (case table of
        None \<Rightarrow> None
      | Some t \<Rightarrow>
          if HASH_ENTRIES table = 0 then table
          else Some (t\<lparr>bucket_array := replicate (nbuckets t) [], nentries := 0\<rparr>))"

definition hash_items :: "nat \<Rightarrow> 'a hash_table option \<Rightarrow> 'a bucket_contents list" where
  "hash_items bucket table =
     (case table of
        None \<Rightarrow> []
      | Some t \<Rightarrow> if bucket < nbuckets t then bucket_array t ! bucket else [])"

text \<open>The visitor keeps its own state; a negative result stops the walk.\<close>

fun walk_items ::
  "('a bucket_contents \<Rightarrow> 's \<Rightarrow> int \<times> 's) \<Rightarrow> 'a bucket_contents list \<Rightarrow> 's \<Rightarrow> bool \<times> 's" where
  "walk_items func [] s = (True, s)"
| "walk_items func (item # items) s =
     (let (r, s') = func item s in if r < 0 then (False, s') else walk_items func items s')"

fun walk_buckets ::
  "('a bucket_contents \<Rightarrow> 's \<Rightarrow> int \<times> 's) \<Rightarrow> 'a hash_table option \<Rightarrow> nat list \<Rightarrow> 's \<Rightarrow> 's" where
  "walk_buckets func table [] s = s"
| "walk_buckets func table (i # is) s =
     (let (go, s') = walk_items func (hash_items i table) s
      in if go then walk_buckets func table is s' else s')"

definition hash_walk ::
  "'a hash_table option \<Rightarrow> ('a bucket_contents \<Rightarrow> 's \<Rightarrow> int \<times> 's) \<Rightarrow> 's \<Rightarrow> 's" where
  "hash_walk table func s =
     (case table of
        None \<Rightarrow> s
      | Some t \<Rightarrow>
          if HASH_ENTRIES table = 0 then s
          else walk_buckets func table [0..<nbuckets t] s)"

section \<open>The invariant and the map a table stands for\<close>

definition hash_inv :: "'a hash_table \<Rightarrow> bool" where
  "hash_inv t \<longleftrightarrow>
     0 < nbuckets t \<and> nbuckets t < 2 ^ 31 \<and>
     length (bucket_array t) = nbuckets t \<and>
     nentries t = length (concat (bucket_array t)) \<and>
     (\<forall>i<nbuckets t. distinct (map bc_key (bucket_array t ! i)) \<and>
        (\<forall>b\<in>set (bucket_array t ! i). khash b = hash_string (bc_key b) \<and> hash_bucket (bc_key b) t = i))"

definition all_items :: "'a hash_table \<Rightarrow> 'a bucket_contents list" where
  "all_items t = concat (bucket_array t)"

definition hash_lookup :: "'a hash_table \<Rightarrow> cstring \<Rightarrow> 'a option option" where
  "hash_lookup t = map_of (map (\<lambda>b. (bc_key b, bc_data b)) (all_items t))"

lemma hash_bucket_less: "0 < nbuckets t \<Longrightarrow> nbuckets t < 2 ^ 31 \<Longrightarrow> hash_bucket s t < nbuckets t"
proof -
  assume n: "0 < nbuckets t" "nbuckets t < 2 ^ 31"
  have "unat (hash_string s AND of_nat (nbuckets t - 1)) \<le> unat (of_nat (nbuckets t - 1) :: 32 word)"
    by (simp add: word_and_le1 flip: word_le_nat_alt)
  also have "\<dots> \<le> nbuckets t - 1"
    by (simp add: unat_of_nat)
  finally show ?thesis
    using n by (simp add: hash_bucket_def)
qed

lemma hash_bucket_cong [simp]:
  "hash_bucket s (t\<lparr>bucket_array := a\<rparr>) = hash_bucket s t"
  "hash_bucket s (t\<lparr>nentries := n\<rparr>) = hash_bucket s t"
  by (simp_all add: hash_bucket_def)

lemma hash_invD:
  assumes "hash_inv t"
  shows "hash_bucket s t < nbuckets t" "length (bucket_array t) = nbuckets t"
    "nentries t = length (all_items t)"
    "i < nbuckets t \<Longrightarrow> distinct (map bc_key (bucket_array t ! i))"
    "i < nbuckets t \<Longrightarrow> b \<in> set (bucket_array t ! i) \<Longrightarrow> hash_bucket (bc_key b) t = i"
    "i < nbuckets t \<Longrightarrow> b \<in> set (bucket_array t ! i) \<Longrightarrow> khash b = hash_string (bc_key b)"
  using assms hash_bucket_less [of t s] by (auto simp: hash_inv_def all_items_def)

lemma distinct_keys: "hash_inv t \<Longrightarrow> distinct (map bc_key (all_items t))"
  unfolding all_items_def
  by (rule distinct_map_concat [where g = "\<lambda>k. hash_bucket k t" and n = 0])
    (simp_all add: hash_invD)

lemma hash_lookup_dom: "dom (hash_lookup t) = bc_key ` set (all_items t)"
  by (simp add: hash_lookup_def dom_map_of_conv_image_fst image_image)

lemma finite_hash_lookup: "finite (dom (hash_lookup t))"
  by (simp add: hash_lookup_dom)

lemma nentries_card: "hash_inv t \<Longrightarrow> nentries t = card (dom (hash_lookup t))"
  using distinct_card [OF distinct_keys [of t]]
  by (simp add: hash_invD hash_lookup_dom)

text \<open>A lookup needs the one chain of its key only.\<close>

lemma in_all_items:
  assumes "hash_inv t"
  shows "b \<in> set (all_items t) \<longleftrightarrow> b \<in> set (bucket_array t ! hash_bucket (bc_key b) t)"
proof
  assume "b \<in> set (all_items t)"
  then obtain i where "i < nbuckets t" "b \<in> set (bucket_array t ! i)"
    using hash_invD(2) [OF assms] by (auto simp: all_items_def set_concat_nth simp del: set_concat)
  then show "b \<in> set (bucket_array t ! hash_bucket (bc_key b) t)"
    using hash_invD(5) [OF assms] by simp
next
  assume "b \<in> set (bucket_array t ! hash_bucket (bc_key b) t)"
  then show "b \<in> set (all_items t)"
    using hash_invD(1,2) [OF assms] by (auto simp: all_items_def intro: nth_mem)
qed

lemma hash_lookup_items:
  "hash_inv t \<Longrightarrow> hash_lookup t k = Some d \<longleftrightarrow>
   (\<exists>b\<in>set (all_items t). bc_key b = k \<and> bc_data b = d)"
proof -
  assume "hash_inv t"
  then have "distinct (map fst (map (\<lambda>b. (bc_key b, bc_data b)) (all_items t)))"
    using distinct_keys by (simp add: comp_def)
  from map_of_eq_Some_iff [OF this, of k d]
  have "hash_lookup t k = Some d \<longleftrightarrow> (k, d) \<in> (\<lambda>b. (bc_key b, bc_data b)) ` set (all_items t)"
    by (simp add: hash_lookup_def)
  then show ?thesis by auto
qed

lemma hash_lookup_Some:
  "hash_inv t \<Longrightarrow> hash_lookup t k = Some d \<longleftrightarrow>
   (\<exists>b\<in>set (bucket_array t ! hash_bucket k t). bc_key b = k \<and> bc_data b = d)"
  by (simp only: hash_lookup_items Bex_def in_all_items) blast

lemma hash_lookup_None:
  "hash_inv t \<Longrightarrow> hash_lookup t k = None \<longleftrightarrow>
   k \<notin> bc_key ` set (bucket_array t ! hash_bucket k t)"
  using hash_lookup_Some [of t k] by (force simp: not_Some_eq [symmetric])

lemma hash_lookup_empty: "nentries t = 0 \<Longrightarrow> hash_inv t \<Longrightarrow> hash_lookup t = Map.empty"
  by (simp add: hash_invD hash_lookup_def)

section \<open>Chains\<close>

lemma chain_find_Some:
  "chain_find hv s bs = Some i \<Longrightarrow> i < length bs \<and> bc_key (bs ! i) = s \<and> khash (bs ! i) = hv"
  by (induction bs arbitrary: i) (auto split: if_splits)

lemma chain_find_None:
  "chain_find hv s bs = None \<longleftrightarrow> (\<forall>b\<in>set bs. hv = khash b \<longrightarrow> bc_key b \<noteq> s)"
  by (induction bs) auto

lemma chain_find_lookup:
  assumes "hash_inv t"
  shows "chain_find (hash_string k) k (bucket_array t ! hash_bucket k t) = None
      \<longleftrightarrow> hash_lookup t k = None"
proof -
  have "khash b = hash_string k"
    if "b \<in> set (bucket_array t ! hash_bucket k t)" "bc_key b = k" for b
    using hash_invD(6) [OF assms hash_invD(1) [OF assms] that(1)] that(2) by simp
  then show ?thesis
    by (auto simp: chain_find_None hash_lookup_None [OF assms])
qed

lemma chain_find_data:
  assumes "hash_inv t" and "chain_find hv k (bucket_array t ! hash_bucket k t) = Some i"
  shows "hash_lookup t k = Some (bc_data (bucket_array t ! hash_bucket k t ! i))"
  using assms chain_find_Some [OF assms(2)] by (auto simp: hash_lookup_Some)

definition chain_map :: "'a bucket_contents list \<Rightarrow> cstring \<Rightarrow> 'a option option" where
  "chain_map bs = map_of (map (\<lambda>b. (bc_key b, bc_data b)) bs)"

lemma chain_map_simps [simp]:
  "chain_map [] = Map.empty"
  "chain_map (b # bs) = (chain_map bs)(bc_key b \<mapsto> bc_data b)"
  "chain_map (bs @ cs) = chain_map cs ++ chain_map bs"
  by (auto simp: chain_map_def)

lemma chain_map_None: "chain_map bs k = None \<longleftrightarrow> k \<notin> bc_key ` set bs"
  by (induction bs) auto

lemma chain_map_Some:
  "distinct (map bc_key bs) \<Longrightarrow>
   chain_map bs k = Some d \<longleftrightarrow> (\<exists>b\<in>set bs. bc_key b = k \<and> bc_data b = d)"
  using map_of_eq_Some_iff [of "map (\<lambda>b. (bc_key b, bc_data b)) bs" k d]
  by (auto simp: chain_map_def comp_def)

lemma hash_lookup_chain:
  "hash_inv t \<Longrightarrow> hash_lookup t k = chain_map (bucket_array t ! hash_bucket k t) k"
proof -
  assume inv: "hash_inv t"
  note d = hash_invD(4) [OF inv hash_invD(1) [OF inv]]
  show ?thesis
  proof (cases "hash_lookup t k")
    case None
    then show ?thesis
      by (metis chain_map_None hash_lookup_None [OF inv])
  next
    case (Some v)
    then show ?thesis
      by (metis chain_map_Some [OF d] hash_lookup_Some [OF inv])
  qed
qed

text \<open>Every operation replaces one chain. What must hold of the new chain:\<close>

definition chain_ok :: "'a hash_table \<Rightarrow> nat \<Rightarrow> 'a bucket_contents list \<Rightarrow> bool" where
  "chain_ok t b bs \<longleftrightarrow> distinct (map bc_key bs) \<and>
     (\<forall>x\<in>set bs. khash x = hash_string (bc_key x) \<and> hash_bucket (bc_key x) t = b)"

definition set_chain ::
  "nat \<Rightarrow> 'a bucket_contents list \<Rightarrow> nat \<Rightarrow> 'a hash_table \<Rightarrow> 'a hash_table" where
  "set_chain b bs n t = t\<lparr>bucket_array := (bucket_array t)[b := bs], nentries := n\<rparr>"

lemma chain_ok_nth: "hash_inv t \<Longrightarrow> b < nbuckets t \<Longrightarrow> chain_ok t b (bucket_array t ! b)"
  by (simp add: chain_ok_def hash_invD)

lemma hash_inv_set_chain:
  assumes inv: "hash_inv t" and b: "b < nbuckets t" and ok: "chain_ok t b bs"
    and n: "n + length (bucket_array t ! b) = nentries t + length bs"
  shows "hash_inv (set_chain b bs n t)"
proof -
  have "length (concat ((bucket_array t)[b := bs])) = n"
    using sum_list_length_update [of b "bucket_array t" bs] b n hash_invD(2,3) [OF inv]
    by (simp add: all_items_def)
  then show ?thesis
    using inv b ok by (auto simp: hash_inv_def set_chain_def chain_ok_def nth_list_update)
qed

lemma hash_lookup_set_chain:
  assumes "hash_inv t" and "b < nbuckets t" and "chain_ok t b bs"
    and "n + length (bucket_array t ! b) = nentries t + length bs"
  shows "hash_lookup (set_chain b bs n t) k =
    (if hash_bucket k t = b then chain_map bs k else hash_lookup t k)"
  using assms(2) hash_invD(2) [OF assms(1)]
  by (simp add: hash_lookup_chain [OF hash_inv_set_chain [OF assms]] hash_lookup_chain [OF assms(1)])
    (simp add: set_chain_def)

section \<open>The operations implement the map\<close>

text \<open>A reference that \<open>hash_search\<close> hands out: it points at the entry of \<open>k\<close>.\<close>

definition refers :: "'a hash_table \<Rightarrow> item_ref \<Rightarrow> cstring \<Rightarrow> bool" where
  "refers t r k \<longleftrightarrow> fst r = hash_bucket k t \<and> snd r < length (bucket_array t ! fst r) \<and>
     bc_key (item_at t r) = k"

lemma hash_create_inv: "n < 2 ^ 31 \<Longrightarrow> hash_inv (hash_create n)"
  by (auto simp: hash_inv_def hash_create_def DEFAULT_HASH_BUCKETS_def Let_def)

lemma hash_create_lookup: "hash_lookup (hash_create n) = Map.empty"
  by (simp add: hash_lookup_def all_items_def hash_create_def Let_def)

lemma refers_lookup:
  assumes "hash_inv t" and "refers t r k"
  shows "hash_lookup t k = Some (bc_data (item_at t r))"
  using assms by (auto simp: refers_def hash_lookup_Some item_at_def)

lemma update_item_set_chain:
  "update_item f r t = set_chain (fst r)
     ((bucket_array t ! fst r)[snd r := f (item_at t r)]) (nentries t) t"
  by (simp add: update_item_def set_chain_def)

lemma chain_ok_update:
  assumes "chain_ok t b bs" and "i < length bs"
    and "bc_key x = bc_key (bs ! i)" and "khash x = khash (bs ! i)"
  shows "chain_ok t b (bs[i := x])"
proof -
  have "map bc_key (bs[i := x]) = map bc_key bs"
    using assms(2,3) by (metis list_update_id map_update)
  moreover have "khash y = hash_string (bc_key y) \<and> hash_bucket (bc_key y) t = b"
    if "y \<in> set (bs[i := x])" for y
    using that assms set_update_subset_insert [of bs i x] nth_mem [OF assms(2)]
    by (auto simp: chain_ok_def)
  ultimately show ?thesis
    using assms(1) by (simp add: chain_ok_def)
qed

lemma update_item:
  assumes inv: "hash_inv t" and r: "refers t r k"
    and f: "bc_key (f (item_at t r)) = k" "khash (f (item_at t r)) = khash (item_at t r)"
  shows "hash_inv (update_item f r t)" (is "hash_inv ?t'")
    and "hash_lookup (update_item f r t) = (hash_lookup t)(k \<mapsto> bc_data (f (item_at t r)))"
    and "refers (update_item f r t) r k"
    and "item_at (update_item f r t) r = f (item_at t r)"
proof -
  let ?b = "fst r" and ?bs = "(bucket_array t ! fst r)[snd r := f (item_at t r)]"
  have b: "?b < nbuckets t"
    using r hash_invD(1) [OF inv] by (simp add: refers_def)
  have ok: "chain_ok t ?b ?bs"
    using r f by (intro chain_ok_update chain_ok_nth [OF inv b]) (auto simp: refers_def item_at_def)
  note sc = inv b ok
  show inv': "hash_inv ?t'"
    unfolding update_item_set_chain by (rule hash_inv_set_chain [OF sc]) simp
  show at: "item_at ?t' r = f (item_at t r)"
    using r b hash_invD(2) [OF inv]
    by (auto simp: item_at_def update_item_def refers_def)
  show r': "refers ?t' r k"
    using r b f hash_invD(2) [OF inv]
    by (auto simp: refers_def at) (simp_all add: update_item_def refers_def)
  show "hash_lookup ?t' = (hash_lookup t)(k \<mapsto> bc_data (f (item_at t r)))"
  proof
    fix k'
    show "hash_lookup ?t' k' = ((hash_lookup t)(k \<mapsto> bc_data (f (item_at t r)))) k'"
    proof (cases "k' = k")
      case True
      then show ?thesis
        using refers_lookup [OF inv' r'] at by simp
    next
      case False
      have "chain_map ?bs k' = chain_map (bucket_array t ! ?b) k'" if "hash_bucket k' t = ?b"
      proof -
        let ?c = "bucket_array t ! ?b" and ?i = "snd r"
        have i: "?i < length ?c" and k: "bc_key (?c ! ?i) = k"
          using r unfolding refers_def item_at_def by blast+
        have "chain_map ?bs k' = (chain_map (drop (Suc ?i) ?c) ++ chain_map (take ?i ?c)) k'"
          using i f(1) False
          by (simp add: upd_conv_take_nth_drop map_add_def split: option.split)
        also have "\<dots> = chain_map (take ?i ?c @ ?c ! ?i # drop (Suc ?i) ?c) k'"
          using k False by (simp add: map_add_def split: option.split)
        finally show ?thesis
          using id_take_nth_drop [OF i] by simp
      qed
      then show ?thesis
        using False hash_lookup_set_chain [OF sc, of "nentries t" k'] hash_lookup_chain [OF inv, of k']
        by (simp add: update_item_set_chain)
    qed
  qed
qed


lemma hash_search_hit:
  assumes inv: "hash_inv t" and k: "hash_lookup t k = Some d"
  obtains r t' where "hash_search k (Some t) flags = (Some r, Some t')" "hash_inv t'"
    "hash_lookup t' = hash_lookup t" "refers t' r k" "bc_data (item_at t' r) = d"
proof -
  have ne: "nentries t \<noteq> 0"
    using k hash_lookup_empty [OF _ inv] by (metis option.distinct(1))
  let ?b = "hash_bucket k t"
  obtain i where i: "chain_find (hash_string k) k (bucket_array t ! ?b) = Some i"
    using chain_find_lookup [OF inv, of k] k by fastforce
  have r: "refers t (?b, i) k"
    using chain_find_Some [OF i] by (simp add: refers_def item_at_def)
  let ?f = "\<lambda>b :: 'a bucket_contents. b\<lparr>times_found := times_found b + 1\<rparr>"
  note u = update_item [OF inv r, of ?f]
  have d: "bc_data (item_at t (?b, i)) = d"
    using refers_lookup [OF inv r] k by simp
  show thesis
  proof (rule that [of "(?b, i)" "update_item ?f (?b, i) t"])
    show "hash_search k (Some t) flags = (Some (?b, i), Some (update_item ?f (?b, i) t))"
      using ne i by (simp add: hash_search_def HASH_ENTRIES_def Let_def)
    show "hash_lookup (update_item ?f (?b, i) t) = hash_lookup t"
      using u(2) r k d by (simp add: refers_def fun_upd_idem)
  qed (use u r d in \<open>simp_all add: refers_def\<close>)
qed

lemma hash_search_miss:
  assumes "hash_inv t" and "hash_lookup t k = None" and "flags AND HASH_CREATE = 0"
  shows "hash_search k (Some t) flags = (None, Some t)"
  using assms chain_find_lookup [OF assms(1), of k] by (simp add: hash_search_def Let_def)

lemma push_item:
  assumes inv: "hash_inv t" and k: "hash_lookup t k = None"
  defines "p \<equiv> push_item k t"
  shows "hash_inv (snd p)" "hash_lookup (snd p) = (hash_lookup t)(k \<mapsto> None)"
    "refers (snd p) (fst p) k" "bc_data (item_at (snd p) (fst p)) = None"
proof -
  let ?b = "hash_bucket k t"
  let ?bs = "new_item k (hash_string k) # bucket_array t ! ?b"
  have b: "?b < nbuckets t"
    by (rule hash_invD(1) [OF inv])
  have sc: "snd p = set_chain ?b ?bs (nentries t + 1) t"
    by (simp add: p_def push_item_def set_chain_def Let_def)
  have fst: "fst p = (?b, 0)"
    by (simp add: p_def push_item_def Let_def)
  have ok: "chain_ok t ?b ?bs"
    using chain_ok_nth [OF inv b] k
    by (auto simp: chain_ok_def new_item_def hash_lookup_None [OF inv])
  show inv': "hash_inv (snd p)"
    unfolding sc by (rule hash_inv_set_chain [OF inv b ok]) simp
  show "hash_lookup (snd p) = (hash_lookup t)(k \<mapsto> None)"
    unfolding sc
    by (rule ext, subst hash_lookup_set_chain [OF inv b ok])
      (auto simp: hash_lookup_chain [OF inv] new_item_def)
  have at: "item_at (snd p) (fst p) = new_item k (hash_string k)"
    using b hash_invD(2) [OF inv] by (simp add: sc fst item_at_def set_chain_def)
  show "refers (snd p) (fst p) k"
    using b hash_invD(2) [OF inv]
    by (simp add: refers_def at new_item_def) (simp add: fst sc set_chain_def)
  show "bc_data (item_at (snd p) (fst p)) = None"
    by (simp add: at new_item_def)
qed

lemma hash_search_create:
  assumes inv: "hash_inv t" and k: "hash_lookup t k = None" and c: "flags AND HASH_CREATE \<noteq> 0"
  obtains r t' where "hash_search k (Some t) flags = (Some r, Some t')" "hash_inv t'"
    "hash_lookup t' = (hash_lookup t)(k \<mapsto> None)" "refers t' r k" "bc_data (item_at t' r) = None"
proof -
  have "chain_find (hash_string k) k (bucket_array t ! hash_bucket k t) = None"
    using chain_find_lookup [OF inv] k by blast
  then have "hash_search k (Some t) flags = (Some (fst (push_item k t)), Some (snd (push_item k t)))"
    using c by (simp add: hash_search_def Let_def split_def)
  then show thesis
    using push_item [OF inv k] by (rule that)
qed

lemma hash_insert_new:
  assumes inv: "hash_inv t" and k: "hash_lookup t k = None"
  shows "hash_insert k (Some t) flags = push_item k t"
  using hash_search_miss [OF inv k, of 0] by (simp add: hash_insert_def)

lemma hash_insert_old:
  assumes inv: "hash_inv t" and k: "hash_lookup t k = Some d" and f: "flags AND HASH_NOSRCH = 0"
  obtains r t' where "hash_insert k (Some t) flags = (r, t')" "hash_inv t'"
    "hash_lookup t' = hash_lookup t" "refers t' r k" "bc_data (item_at t' r) = d"
proof -
  obtain r t' where s: "hash_search k (Some t) 0 = (Some r, Some t')" "hash_inv t'"
    "hash_lookup t' = hash_lookup t" "refers t' r k" "bc_data (item_at t' r) = d"
    by (rule hash_search_hit [OF inv k])
  then show thesis
    using f by (intro that [of r t']) (simp_all add: hash_insert_def)
qed

lemma hash_remove_hit:
  assumes inv: "hash_inv t" and k: "hash_lookup t k = Some d"
  obtains b t' where "hash_remove k (Some t) flags = (Some b, Some t')" "hash_inv t'"
    "hash_lookup t' = (hash_lookup t)(k := None)" "bc_key b = k" "bc_data b = d"
    "nentries t' = nentries t - 1"
proof -
  have ne: "nentries t \<noteq> 0"
    using k hash_lookup_empty [OF _ inv] by (metis option.distinct(1))
  let ?b = "hash_bucket k t"
  let ?c = "bucket_array t ! ?b"
  obtain i where f: "chain_find (hash_string k) k ?c = Some i"
    using chain_find_lookup [OF inv, of k] k by fastforce
  from chain_find_Some [OF f] have i: "i < length ?c" and key: "bc_key (?c ! i) = k" by simp_all
  let ?bs = "take i ?c @ drop (Suc i) ?c"
  have split: "?c = take i ?c @ ?c ! i # drop (Suc i) ?c"
    using i by (rule id_take_nth_drop)
  have b: "?b < nbuckets t"
    by (rule hash_invD(1) [OF inv])
  have dc: "distinct (map bc_key (take i ?c @ ?c ! i # drop (Suc i) ?c))"
    using hash_invD(4) [OF inv b] split by metis
  have sub: "set ?bs \<subseteq> set ?c"
    by (auto dest: in_set_takeD in_set_dropD)
  have ok: "chain_ok t ?b ?bs"
    using chain_ok_nth [OF inv b] dc sub unfolding chain_ok_def by auto
  have len: "nentries t - 1 + length ?c = nentries t + length ?bs"
    using i ne by simp
  note sc = hash_lookup_set_chain [OF inv b ok len]
  have gone: "chain_map ?bs k = None"
    using dc key by (auto simp: chain_map_None map_add_None)
  have other: "chain_map ?bs k' = chain_map ?c k'" if "k' \<noteq> k" for k'
    using key that by (subst (3) split) (simp add: map_add_def split: option.split)
  show thesis
  proof (rule that [of "?c ! i" "set_chain ?b ?bs (nentries t - 1) t"])
    show "hash_remove k (Some t) flags = (Some (?c ! i), Some (set_chain ?b ?bs (nentries t - 1) t))"
      using ne f by (simp add: hash_remove_def HASH_ENTRIES_def set_chain_def Let_def)
    show "hash_inv (set_chain ?b ?bs (nentries t - 1) t)"
      by (rule hash_inv_set_chain [OF inv b ok len])
    show "hash_lookup (set_chain ?b ?bs (nentries t - 1) t) = (hash_lookup t)(k := None)"
      by (rule ext) (use gone other in \<open>simp only: sc hash_lookup_chain [OF inv] fun_upd_apply; metis\<close>)
    show "bc_data (?c ! i) = d"
      using chain_find_data [OF inv f] k by simp
  qed (use key in \<open>simp_all add: set_chain_def\<close>)
qed

lemma hash_remove_miss:
  assumes "hash_inv t" and "hash_lookup t k = None"
  shows "hash_remove k (Some t) flags = (None, Some t)"
  using assms chain_find_lookup [OF assms(1), of k] by (simp add: hash_remove_def Let_def)


section \<open>Copying, flushing and walking a table\<close>

definition map_table_data :: "('a option \<Rightarrow> 'a option) \<Rightarrow> 'a hash_table \<Rightarrow> 'a hash_table" where
  "map_table_data f t =
     t\<lparr>bucket_array := map (map (\<lambda>b. b\<lparr>bc_data := f (bc_data b)\<rparr>)) (bucket_array t)\<rparr>"

lemma all_items_map_table_data:
  "all_items (map_table_data f t) = map (\<lambda>b. b\<lparr>bc_data := f (bc_data b)\<rparr>) (all_items t)"
  by (simp add: all_items_def map_table_data_def map_concat)

lemma map_table_data_inv: "hash_inv t \<Longrightarrow> hash_inv (map_table_data f t)"
  by (auto simp: hash_inv_def map_table_data_def map_concat [symmetric] comp_def)

lemma map_table_data_lookup: "hash_lookup (map_table_data f t) k = map_option f (hash_lookup t k)"
proof -
  have "map_of (map (\<lambda>b. (bc_key b, f (bc_data b))) bs) k =
      map_option f (map_of (map (\<lambda>b. (bc_key b, bc_data b)) bs) k)" for bs :: "'a bucket_contents list"
    by (induction bs) auto
  then show ?thesis
    by (simp add: hash_lookup_def all_items_map_table_data comp_def)
qed

lemma map_table_data_fields [simp]:
  "nentries (map_table_data f t) = nentries t"
  "nbuckets (map_table_data f t) = nbuckets t"
  by (simp_all add: map_table_data_def)

lemma hash_copy_eq:
  "hash_inv t \<Longrightarrow> hash_copy (Some t) cp = Some (map_table_data (map_option cp) t)"
  by (auto simp: hash_copy_def map_table_data_def copy_bucket_array_def hash_create_def Let_def
      hash_inv_def intro!: hash_table.equality)

lemma hash_flush_inv:
  assumes "hash_inv t"
  obtains t' where "hash_flush (Some t) = Some t'" "hash_inv t'" "hash_lookup t' = Map.empty"
    "nentries t' = 0" "nbuckets t' = nbuckets t"
proof (cases "nentries t = 0")
  case True
  then show thesis
    using assms hash_lookup_empty [of t] by (intro that [of t]) (simp_all add: hash_flush_def HASH_ENTRIES_def)
next
  case False
  let ?t' = "t\<lparr>bucket_array := replicate (nbuckets t) [], nentries := 0\<rparr>"
  show thesis
  proof (rule that [of ?t'])
    show "hash_inv ?t'"
      using assms by (auto simp: hash_inv_def)
    show "hash_lookup ?t' = Map.empty"
      by (simp add: hash_lookup_def all_items_def)
  qed (use False in \<open>simp_all add: hash_flush_def HASH_ENTRIES_def\<close>)
qed

lemma hash_items_all:
  assumes "hash_inv t"
  shows "concat (map (\<lambda>i. hash_items i (Some t)) [0..<nbuckets t]) = all_items t"
proof -
  have "map (\<lambda>i. hash_items i (Some t)) [0..<nbuckets t] = map ((!) (bucket_array t)) [0..<nbuckets t]"
    by (simp add: hash_items_def)
  also have "\<dots> = bucket_array t"
    using hash_invD(2) [OF assms] map_nth [of "bucket_array t"] by simp
  finally show ?thesis
    by (simp add: all_items_def)
qed

lemma walk_items_append:
  "walk_items func (xs @ ys) s =
     (let (go, s') = walk_items func xs s in if go then walk_items func ys s' else (False, s'))"
  by (induction xs arbitrary: s) (auto simp: Let_def split: prod.splits)

lemma walk_buckets_items:
  "walk_buckets func table is s = snd (walk_items func (concat (map (\<lambda>i. hash_items i table) is)) s)"
  by (induction "is" arbitrary: s) (auto simp: walk_items_append Let_def split: prod.splits)

text \<open>Walking the table is one pass over its entries, stopped by the first negative result.\<close>

lemma hash_walk_items:
  "hash_inv t \<Longrightarrow> hash_walk (Some t) func s = snd (walk_items func (all_items t) s)"
  by (simp add: hash_walk_def walk_buckets_items hash_items_all HASH_ENTRIES_def hash_invD(3))

lemma walk_items_fold:
  "(\<And>b s. 0 \<le> fst (func b s)) \<Longrightarrow>
   walk_items func bs s = (True, fold (\<lambda>b s. snd (func b s)) bs s)"
  by (induction bs arbitrary: s) (auto simp: Let_def split_def not_less)

end
