(* ===== verification/Alias_Table.thy ===== *)
theory Alias_Table
  imports Hash_Table Interfaces
begin

text \<open>
  Aliases, \<^verbatim>\<open>alias.c\<close>: the table of alias definitions kept in a hash table, and the expansion of
  the aliases of a command line that readline asks for. The globals \<^verbatim>\<open>aliases\<close> (\<open>None\<close> for the
  NULL pointer) and the dirty mark of the completion list are explicit state.
\<close>

record alias_t =
  al_name :: cstring
  al_value :: cstring
  al_flags :: nat

definition AL_EXPANDNEXT :: nat where "AL_EXPANDNEXT = 0x1"
definition ALIAS_HASH_BUCKETS :: nat where "ALIAS_HASH_BUCKETS = 16"

record alias_state =
  aliases :: "alias_t hash_table option"
  it_aliases_dirty :: bool

section \<open>The table\<close>

definition initialize_aliases :: "alias_state \<Rightarrow> alias_state" where
  "initialize_aliases st =
     (if aliases st = None then st\<lparr>aliases := Some (hash_create ALIAS_HASH_BUCKETS)\<rparr> else st)"

text \<open>The bucket item that \<^verbatim>\<open>find_alias\<close> reaches, and the alias it holds.\<close>

definition find_item :: "cstring \<Rightarrow> alias_state \<Rightarrow> item_ref option \<times> alias_state" where
  "find_item name st =
     (if aliases st = None then (None, st)
      else let (al, table) = hash_search name (aliases st) 0 in (al, st\<lparr>aliases := table\<rparr>))"

definition alias_at :: "item_ref \<Rightarrow> alias_state \<Rightarrow> alias_t option" where
  "alias_at r st = Option.bind (aliases st) (\<lambda>t. bc_data (item_at t r))"

definition find_alias :: "cstring \<Rightarrow> alias_state \<Rightarrow> alias_t option \<times> alias_state" where
  "find_alias name st =
     (let (al, st') = find_item name st in (Option.bind al (\<lambda>r. alias_at r st'), st'))"

definition get_alias_value :: "cstring \<Rightarrow> alias_state \<Rightarrow> cstring option \<times> alias_state" where
  "get_alias_value name st =
     (if aliases st = None then (None, st)
      else let (alias, st') = find_alias name st in (map_option al_value alias, st'))"

text \<open>
  \<open>n = value[strlen (value) - 1]\<close>: for an empty value this is the byte before the string,
  which is the argument \<open>before\<close>.
\<close>

definition last_byte :: "char \<Rightarrow> cstring \<Rightarrow> char" where
  "last_byte before value = (if value = [] then before else value ! (length value - 1))"

definition expandnext_flags :: "char \<Rightarrow> cstring \<Rightarrow> nat \<Rightarrow> nat" where
  "expandnext_flags before value flags =
     (let n = last_byte before value
      in if n = CHR '' '' \<or> n = CHR 0x09 then flags OR AL_EXPANDNEXT else flags)"

definition add_alias :: "cstring \<Rightarrow> char \<Rightarrow> cstring \<Rightarrow> alias_state \<Rightarrow> alias_state" where
  "add_alias name before value st0 =
     (let (elt, st) = (if aliases st0 = None then (None, initialize_aliases st0)
                       else find_item name st0)
      in case Option.bind elt (\<lambda>r. map_option (Pair r) (alias_at r st)) of
           Some (r, temp) \<Rightarrow>
             let temp' = temp\<lparr>al_value := value,
                              al_flags := expandnext_flags before value
                                (al_flags temp AND (al_flags temp XOR AL_EXPANDNEXT))\<rparr>
             in st\<lparr>aliases := map_option (update_item (\<lambda>b. b\<lparr>bc_data := Some temp'\<rparr>) r) (aliases st)\<rparr>
         | None \<Rightarrow>
             let temp' = \<lparr>al_name = name, al_value = value,
                          al_flags = expandnext_flags before value 0\<rparr>;
                 (r, table) = hash_insert name (aliases st) HASH_NOSRCH
             in st\<lparr>aliases := Some (update_item (\<lambda>b. b\<lparr>bc_data := Some temp'\<rparr>) r table),
                   it_aliases_dirty := True\<rparr>)"

definition remove_alias :: "cstring \<Rightarrow> alias_state \<Rightarrow> int \<times> alias_state" where
  "remove_alias name st =
     (if aliases st = None then (-1, st)
      else
        case hash_remove name (aliases st) 0 of
          (Some elt, table) \<Rightarrow>
            (int (HASH_ENTRIES table), st\<lparr>aliases := table, it_aliases_dirty := True\<rparr>)
        | (None, table) \<Rightarrow> (-1, st\<lparr>aliases := table\<rparr>))"

definition delete_all_aliases :: "alias_state \<Rightarrow> alias_state" where
  "delete_all_aliases st =
     (if aliases st = None then st else st\<lparr>aliases := None, it_aliases_dirty := True\<rparr>)"

definition map_over_aliases ::
  "(alias_t \<Rightarrow> bool) option \<Rightarrow> alias_state \<Rightarrow> alias_t list option" where
  "map_over_aliases function st =
     (case aliases st of
        None \<Rightarrow> None
      | Some t \<Rightarrow>
          if nentries t = 0 then None
          else
            let items = concat (map (\<lambda>i. hash_items i (Some t)) [0..<nbuckets t]);
                list = map (\<lambda>b. the (bc_data b)) items
            in Some (case function of None \<Rightarrow> list | Some f \<Rightarrow> filter f list))"

definition qsort_alias_compare :: "alias_t \<Rightarrow> alias_t \<Rightarrow> int" where
  "qsort_alias_compare as1 as2 =
     (let result = schar (c_at (al_name as1) 0) - schar (c_at (al_name as2) 0)
      in if result = 0 then strcmp (al_name as1) (al_name as2) else result)"

definition sort_aliases :: "alias_t list \<Rightarrow> alias_t list" where
  "sort_aliases array = qsort qsort_alias_compare array"

definition all_aliases :: "alias_state \<Rightarrow> alias_t list option" where
  "all_aliases st =
     (if aliases st = None \<or> HASH_ENTRIES (aliases st) = 0 then None
      else map_option sort_aliases (map_over_aliases None st))"

definition alias_expand_word :: "cstring \<Rightarrow> alias_state \<Rightarrow> cstring option \<times> alias_state" where
  "alias_expand_word s st =
     (let (r, st') = find_alias s st in (map_option al_value r, st'))"

section \<open>Scanning a line\<close>

definition self_delimiting :: "char \<Rightarrow> bool" where
  "self_delimiting c \<longleftrightarrow> c \<in> set '' ;|&()'' \<or> c = CHR 0x09 \<or> c = CHR 0x0A \<or> c = CHR 0x0D"

definition command_separator :: "char \<Rightarrow> bool" where
  "command_separator c \<longleftrightarrow> c \<in> set '';|&('' \<or> c = CHR 0x0D \<or> c = CHR 0x0A"

definition quote_char :: "char \<Rightarrow> bool" where
  "quote_char c \<longleftrightarrow> c = CHR 0x27 \<or> c = CHR 0x22"

definition token_char :: "char \<Rightarrow> bool" where
  "token_char c \<longleftrightarrow> \<not> (whitespace c \<or> self_delimiting c)"

lemma c_at_not_NUL: "c_at s i \<noteq> NUL \<Longrightarrow> i < length s"
  by (simp add: c_at_def split: if_splits)

function skipquotes_loop :: "cstring \<Rightarrow> char \<Rightarrow> nat \<Rightarrow> nat" where
  "skipquotes_loop string delimiter i =
     (if c_at string i = NUL then i
      else if c_at string i = CHR 0x5C then
        (if c_at string (i + 1) = NUL then i + 1 else skipquotes_loop string delimiter (i + 2))
      else if c_at string i = delimiter then i
      else skipquotes_loop string delimiter (i + 1))"
  by pat_completeness auto
termination
  by (relation "measure (\<lambda>(string, delimiter, i). length string - i)") (auto dest!: c_at_not_NUL)

declare skipquotes_loop.simps [simp del]

definition skipquotes :: "cstring \<Rightarrow> nat \<Rightarrow> nat" where
  "skipquotes string start = skipquotes_loop string (c_at string start) (start + 1)"

lemma skipquotes_loop_bounds:
  "i \<le> length string \<Longrightarrow>
   i \<le> skipquotes_loop string delimiter i \<and> skipquotes_loop string delimiter i \<le> length string"
proof (induction string delimiter i rule: skipquotes_loop.induct)
  case (1 string delimiter i)
  show ?case
  proof (cases "c_at string i = NUL")
    case False
    then have "i < length string" by (rule c_at_not_NUL)
    with False 1 show ?thesis
      by (subst (1 2) skipquotes_loop.simps) (fastforce dest: c_at_not_NUL)
  qed (use 1 in \<open>simp add: skipquotes_loop.simps [of string]\<close>)
qed

lemma skipquotes_bounds:
  "i < length string \<Longrightarrow> Suc i \<le> skipquotes string i \<and> skipquotes string i \<le> length string"
  using skipquotes_loop_bounds [of "Suc i"] by (simp add: skipquotes_def)

text \<open>
  \<open>skipws\<close>: the index reached, and the command-word counter, which counts the command separators
  passed. \<open>bqw\<close> is the flag of a backslash-quoted word.
\<close>

function skipws_loop :: "cstring \<Rightarrow> nat \<Rightarrow> bool \<Rightarrow> bool \<Rightarrow> nat \<Rightarrow> nat \<times> nat" where
  "skipws_loop string i pass_next bqw command_word =
     (let c = c_at string i
      in if c = NUL then (i, command_word)
         else if pass_next then skipws_loop string (i + 1) False bqw command_word
         else if whitespace c then skipws_loop string (i + 1) pass_next False command_word
         else if c = CHR 0x5C then
           (let peekc = c_at string (i + 1)
            in if peekc = NUL then (i, command_word)
               else if is_alpha peekc then skipws_loop string (i + 1) pass_next True command_word
               else skipws_loop string (i + 1) True bqw command_word)
         else if quote_char c then
           (let i' = skipquotes string i
            in if c_at string i' = NUL then (i', command_word)
               else skipws_loop string (i' + 1) pass_next
                      (bqw \<or> is_alpha (c_at string (i' + 1))) command_word)
         else if bqw then skipws_loop string (i + 1) pass_next bqw command_word
         else if command_separator c then
           skipws_loop string (i + 1) pass_next bqw (command_word + 1)
         else (i, command_word))"
  by pat_completeness auto
termination
proof (relation "measure (\<lambda>(string, i, p, b, w). length string - i)", goal_cases)
  case (6 string i pass_next bqw command_word c i')
  then show ?case
    using skipquotes_bounds [of i string] by (fastforce dest!: c_at_not_NUL)
qed (auto dest!: c_at_not_NUL)

declare skipws_loop.simps [simp del]

definition skipws :: "cstring \<Rightarrow> nat \<Rightarrow> nat \<Rightarrow> nat \<times> nat" where
  "skipws string start command_word = skipws_loop string start False False command_word"

function rd_token :: "cstring \<Rightarrow> nat \<Rightarrow> nat" where
  "rd_token string i =
     (let c = c_at string i
      in if c = NUL \<or> \<not> token_char c then i
         else if c = CHR 0x5C then
           (if c_at string (i + 1) = NUL then i + 1 else rd_token string (i + 2))
         else if quote_char c then
           (let i' = skipquotes string i
            in if c_at string i' = NUL then i' else rd_token string (i' + 1))
         else rd_token string (i + 1))"
  by pat_completeness auto
termination
proof (relation "measure (\<lambda>(string, i). length string - i)", goal_cases)
  case (3 string i c i')
  then show ?case
    using skipquotes_bounds [of i string] by (fastforce dest!: c_at_not_NUL)
qed (auto dest!: c_at_not_NUL)

declare rd_token.simps [simp del]

lemma skipws_loop_bounds:
  "i \<le> length string \<Longrightarrow>
   i \<le> fst (skipws_loop string i p b w) \<and> fst (skipws_loop string i p b w) \<le> length string"
proof (induction string i p b w rule: skipws_loop.induct)
  case (1 string i p b w)
  let ?c = "c_at string i" and ?j = "skipquotes string i"
  note unfold = skipws_loop.simps [of string i p b w]
  show ?case
  proof (cases "?c = NUL")
    case True
    with 1 show ?thesis by (simp add: unfold)
  next
    case c: False
    then have i: "i < length string" by (rule c_at_not_NUL)
    consider "p" | "\<not> p" "whitespace ?c"
      | "\<not> p" "\<not> whitespace ?c" "?c = CHR 0x5C"
      | "\<not> p" "\<not> whitespace ?c" "?c \<noteq> CHR 0x5C" "quote_char ?c"
      | "\<not> p" "\<not> whitespace ?c" "?c \<noteq> CHR 0x5C" "\<not> quote_char ?c" "b"
      | "\<not> p" "\<not> whitespace ?c" "?c \<noteq> CHR 0x5C" "\<not> quote_char ?c" "\<not> b"
      by blast
    then show ?thesis
    proof cases
      case 1
      then show ?thesis unfolding unfold using "1.IH"(1) [OF refl c] i c by simp
    next
      case 2
      then show ?thesis unfolding unfold using "1.IH"(2) [OF refl c] i c by simp
    next
      case 3
      then show ?thesis
        unfolding unfold using "1.IH"(3,4) [OF refl c _ _ _ refl] i c by (auto simp: Let_def)
    next
      case 4
      have "c_at string ?j \<noteq> NUL \<Longrightarrow> Suc ?j \<le> length string"
        by (drule c_at_not_NUL) simp
      then show ?thesis
        unfolding unfold using "1.IH"(5) [OF refl c _ _ _ _ refl] 4 i c skipquotes_bounds [OF i]
        by (auto simp: Let_def)
    next
      case 5
      then show ?thesis unfolding unfold using "1.IH"(6) [OF refl c] i c by simp
    next
      case 6
      then show ?thesis unfolding unfold using "1.IH"(7) [OF refl c] i c by auto
    qed
  qed
qed

lemma skipws_bounds:
  "start \<le> length string \<Longrightarrow>
   start \<le> fst (skipws string start w) \<and> fst (skipws string start w) \<le> length string"
  unfolding skipws_def by (rule skipws_loop_bounds)

lemma rd_token_bounds:
  "i \<le> length string \<Longrightarrow> i \<le> rd_token string i \<and> rd_token string i \<le> length string"
proof (induction string i rule: rd_token.induct)
  case (1 string i)
  let ?c = "c_at string i" and ?j = "skipquotes string i"
  note unfold = rd_token.simps [of string i]
  show ?case
  proof (cases "?c = NUL \<or> \<not> token_char ?c")
    case True
    with 1 show ?thesis by (simp add: unfold)
  next
    case c: False
    then have i: "i < length string" by (blast intro: c_at_not_NUL)
    consider "?c = CHR 0x5C" | "?c \<noteq> CHR 0x5C" "quote_char ?c" | "?c \<noteq> CHR 0x5C" "\<not> quote_char ?c"
      by blast
    then show ?thesis
    proof cases
      case 1
      have "c_at string (Suc i) \<noteq> NUL \<Longrightarrow> Suc (Suc i) \<le> length string"
        by (drule c_at_not_NUL) simp
      then show ?thesis using "1.IH"(1) [OF refl c 1] i c 1 by (auto simp: unfold)
    next
      case 2
      have "c_at string ?j \<noteq> NUL \<Longrightarrow> Suc ?j \<le> length string"
        by (drule c_at_not_NUL) simp
      then show ?thesis
        using "1.IH"(2) [OF refl c 2 refl] i c 2 skipquotes_bounds [OF i]
        by (auto simp: unfold Let_def)
    next
      case 3
      then show ?thesis using "1.IH"(3) [OF refl c] i c by (simp add: unfold)
    qed
  qed
qed

section \<open>Expansion\<close>

text \<open>
  One pass of the loop of \<^verbatim>\<open>alias_expand\<close> after \<^verbatim>\<open>skipws\<close>: the token that starts at \<open>start\<close> and the
  index after it.
\<close>

definition next_token :: "cstring \<Rightarrow> nat \<Rightarrow> cstring \<times> nat" where
  "next_token string start =
     (let i = rd_token string start;
          i' = (if i = start \<and> c_at string i \<noteq> NUL then i + 1 else i)
      in (take (i' - start) (drop start string), i'))"

lemma next_token_bounds:
  "start \<le> length string \<Longrightarrow> start \<le> snd (next_token string start) \<and>
   snd (next_token string start) \<le> length string \<and>
   (c_at string start \<noteq> NUL \<longrightarrow> start < snd (next_token string start))"
  using rd_token_bounds [of start string]
  by (auto simp: next_token_def Let_def dest: c_at_not_NUL)

text \<open>
  The body of the loop. \<open>None\<close> is the return at the end of the line; otherwise the new index, the
  output so far, \<^verbatim>\<open>expand_next\<close> and the state. \<^verbatim>\<open>command_word\<close> is 0 after every pass.
\<close>

definition alias_pass ::
  "bool \<Rightarrow> cstring \<Rightarrow> nat \<Rightarrow> cstring \<Rightarrow> bool \<Rightarrow> nat \<Rightarrow> alias_state \<Rightarrow>
   (nat \<times> cstring \<times> bool \<times> alias_state) option" where
  "alias_pass alias_expand_all string start line expand_next command_word st =
     (let i = fst (skipws string start command_word);
          cw = snd (skipws string start command_word)
      in if start = i \<and> c_at string i = NUL then None
         else
           let line1 = line @ take (i - start) (drop start string);
               expand_this = cw \<noteq> 0 \<or> command_separator (c_at string i) \<or> expand_next;
               token = fst (next_token string i);
               i' = snd (next_token string i);
               expand_this_token = (expand_this \<and> CHR 0x5C \<notin> set token);
               look = (if token \<noteq> [] \<and> (expand_this_token \<or> alias_expand_all)
                       then find_alias token st else (None, st))
           in case fst look of
                Some a \<Rightarrow>
                  let v = al_value a
                  in Some (i', line1 @ v,
                       expand_this_token \<and> v \<noteq> [] \<and> whitespace (last v) \<or> alias_expand_all,
                       snd look)
              | None \<Rightarrow> Some (i', line1 @ take (i' - i) (drop i string), False, snd look))"

lemma alias_pass_progress:
  assumes "alias_pass ae string start line e w st = Some (i, l, e', st')"
  shows "start < length string \<and> start < i \<and> i \<le> length string"
proof -
  let ?j = "fst (skipws string start w)"
  have nd: "\<not> (start = ?j \<and> c_at string ?j = NUL)" and i: "i = snd (next_token string ?j)"
    using assms by (auto simp: alias_pass_def Let_def split: option.splits if_splits)
  have start: "start < length string"
  proof (rule ccontr)
    assume "\<not> start < length string"
    then have "c_at string start = NUL" by (simp add: c_at_def)
    then show False
      using nd by (simp add: skipws_def skipws_loop.simps [of string start])
  qed
  then show ?thesis
    using nd i skipws_bounds [of start string w] next_token_bounds [of ?j string]
    by (cases "start = ?j") auto
qed

function alias_expand_loop ::
  "bool \<Rightarrow> cstring \<Rightarrow> nat \<Rightarrow> cstring \<Rightarrow> bool \<Rightarrow> nat \<Rightarrow> alias_state \<Rightarrow> cstring \<times> alias_state" where
  "alias_expand_loop alias_expand_all string start line expand_next command_word st =
     (case alias_pass alias_expand_all string start line expand_next command_word st of
        None \<Rightarrow> (line, st)
      | Some (i, line', expand_next', st') \<Rightarrow>
          alias_expand_loop alias_expand_all string i line' expand_next' 0 st')"
  by pat_completeness auto
termination
  by (relation "measure (\<lambda>(a, string, start, l, e, w, st). length string - start)")
    (auto dest: alias_pass_progress)

declare alias_expand_loop.simps [simp del]

definition alias_expand :: "bool \<Rightarrow> cstring \<Rightarrow> alias_state \<Rightarrow> cstring \<times> alias_state" where
  "alias_expand alias_expand_all string st =
     alias_expand_loop alias_expand_all string 0 [] False 1 st"

section \<open>The table as a map\<close>

definition alias_map :: "alias_state \<Rightarrow> cstring \<Rightarrow> alias_t option" where
  "alias_map st k =
     (case aliases st of None \<Rightarrow> None | Some t \<Rightarrow> Option.bind (hash_lookup t k) id)"

definition named_entries :: "alias_t hash_table \<Rightarrow> bool" where
  "named_entries t \<longleftrightarrow>
     (\<forall>k\<in>dom (hash_lookup t). \<exists>a. hash_lookup t k = Some (Some a) \<and> al_name a = k)"

definition alias_inv :: "alias_state \<Rightarrow> bool" where
  "alias_inv st \<longleftrightarrow>
     (case aliases st of None \<Rightarrow> True | Some t \<Rightarrow> hash_inv t \<and> named_entries t)"

lemma alias_inv_None: "aliases st = None \<Longrightarrow> alias_inv st \<and> alias_map st = Map.empty"
  by (simp add: alias_inv_def alias_map_def fun_eq_iff)

lemma alias_invD: "alias_inv st \<Longrightarrow> aliases st = Some t \<Longrightarrow> hash_inv t \<and> named_entries t"
  by (simp add: alias_inv_def)

lemma named_lookup: "named_entries t \<Longrightarrow> hash_lookup t k = Some d \<Longrightarrow> \<exists>a. d = Some a \<and> al_name a = k"
  unfolding named_entries_def by (metis domI option.inject)

lemma named_entries_upd:
  "named_entries t \<Longrightarrow> hash_lookup t' = (hash_lookup t)(k \<mapsto> Some a) \<Longrightarrow> al_name a = k \<Longrightarrow>
   named_entries t'"
  unfolding named_entries_def by auto

lemma alias_map_dom:
  "alias_inv st \<Longrightarrow> aliases st = Some t \<Longrightarrow> dom (alias_map st) = dom (hash_lookup t)"
proof -
  assume inv: "alias_inv st" and t: "aliases st = Some t"
  have "alias_map st k = None \<longleftrightarrow> hash_lookup t k = None" for k
    using named_lookup [of t k] alias_invD [OF inv t] t
    by (cases "hash_lookup t k") (fastforce simp: alias_map_def)+
  then show "dom (alias_map st) = dom (hash_lookup t)" by (simp add: dom_def)
qed

lemma finite_alias_map: "alias_inv st \<Longrightarrow> finite (dom (alias_map st))"
  using alias_map_dom [of st] finite_hash_lookup by (cases "aliases st") (simp_all add: alias_inv_None)

lemma alias_map_entries: "alias_inv st \<Longrightarrow> HASH_ENTRIES (aliases st) = card (dom (alias_map st))"
  using alias_map_dom [of st] nentries_card alias_invD [of st]
  by (cases "aliases st") (auto simp: alias_inv_None HASH_ENTRIES_def)

lemma find_item_spec:
  assumes inv: "alias_inv st"
  obtains (found) r t a where "find_item name st = (Some r, st\<lparr>aliases := Some t\<rparr>)" "hash_inv t"
      "named_entries t" "alias_map (st\<lparr>aliases := Some t\<rparr>) = alias_map st" "refers t r name"
      "bc_data (item_at t r) = Some a" "alias_map st name = Some a" "al_name a = name"
      "aliases st \<noteq> None"
  | (absent) "find_item name st = (None, st)" "alias_map st name = None"
proof (cases "aliases st")
  case None
  then show thesis using absent by (simp add: find_item_def alias_map_def)
next
  case (Some t)
  then have t: "hash_inv t" "named_entries t" using inv alias_invD by blast+
  show thesis
  proof (cases "hash_lookup t name")
    case None
    then show thesis
      using hash_search_miss [OF t(1) None, of 0] Some absent
      by (simp add: find_item_def alias_map_def)
  next
    case d: (Some d)
    obtain a where a: "d = Some a" "al_name a = name"
      using named_lookup [OF t(2) d] by blast
    obtain r t' where s: "hash_search name (Some t) 0 = (Some r, Some t')" "hash_inv t'"
      "hash_lookup t' = hash_lookup t" "refers t' r name" "bc_data (item_at t' r) = d"
      using hash_search_hit [OF t(1) d, of 0] by metis
    show thesis
    proof (rule found [of r t' a])
      show "named_entries t'" using t(2) s(3) by (simp add: named_entries_def)
    qed (use Some s a d in \<open>simp_all add: find_item_def alias_map_def fun_eq_iff\<close>)
  qed
qed

lemma find_alias_spec:
  assumes inv: "alias_inv st"
  obtains st' where "find_alias name st = (alias_map st name, st')" "alias_inv st'"
    "alias_map st' = alias_map st"
proof (cases rule: find_item_spec [OF inv, of name])
  case (1 r t a)
  then show thesis
    by (intro that [of "st\<lparr>aliases := Some t\<rparr>"])
      (simp_all add: find_alias_def alias_at_def alias_inv_def)
next
  case 2
  then show thesis
    using inv by (intro that [of st]) (simp_all add: find_alias_def)
qed

lemma alias_map_upd:
  "hash_lookup t' = (hash_lookup t)(k \<mapsto> Some a) \<Longrightarrow>
   alias_map (st\<lparr>aliases := Some t'\<rparr>) = (alias_map (st\<lparr>aliases := Some t\<rparr>))(k \<mapsto> a)"
  by (auto simp: alias_map_def fun_eq_iff)

definition added_alias :: "cstring \<Rightarrow> char \<Rightarrow> cstring \<Rightarrow> alias_t option \<Rightarrow> alias_t" where
  "added_alias name before value old =
     \<lparr>al_name = name, al_value = value,
      al_flags = expandnext_flags before value
        (case old of None \<Rightarrow> 0 | Some a \<Rightarrow> al_flags a AND (al_flags a XOR AL_EXPANDNEXT))\<rparr>"

lemma add_alias_old:
  assumes "find_item name st = (Some r, st\<lparr>aliases := Some t\<rparr>)" and "aliases st \<noteq> None"
    and "bc_data (item_at t r) = Some a" and "al_name a = name"
  shows "add_alias name before value st =
    st\<lparr>aliases := Some (update_item (\<lambda>b. b\<lparr>bc_data := Some (added_alias name before value (Some a))\<rparr>) r t)\<rparr>"
  using assms by (cases a) (auto simp: add_alias_def alias_at_def added_alias_def Let_def)

lemma add_alias_new:
  assumes "(if aliases st = None then (None, initialize_aliases st) else find_item name st) = (None, st1)"
    and "aliases st1 = Some t" and "hash_inv t" and "hash_lookup t name = None"
  shows "add_alias name before value st =
    st1\<lparr>aliases := Some (update_item (\<lambda>b. b\<lparr>bc_data := Some (added_alias name before value None)\<rparr>)
            (fst (push_item name t)) (snd (push_item name t))),
        it_aliases_dirty := True\<rparr>"
  using assms(1,2) hash_insert_new [OF assms(3,4), of HASH_NOSRCH]
  by (simp add: add_alias_def added_alias_def Let_def split_def)

lemma add_alias_spec:
  assumes inv: "alias_inv st"
  shows "alias_inv (add_alias name before value st) \<and>
    alias_map (add_alias name before value st) =
      (alias_map st)(name \<mapsto> added_alias name before value (alias_map st name))"
proof -
  let ?a = "added_alias name before value"
  have new: ?thesis
    if st1: "(if aliases st = None then (None, initialize_aliases st) else find_item name st) = (None, st1)"
      and t: "aliases st1 = Some t" "hash_inv t" "named_entries t" "alias_map st1 = alias_map st"
      and none: "alias_map st name = None" for st1 t
  proof -
    have hn: "hash_lookup t name = None"
      using fun_cong [OF t(4), of name] none t(1) named_lookup [OF t(3), of name]
      by (cases "hash_lookup t name") (auto simp: alias_map_def [of st1])
    let ?p = "push_item name t" and ?f = "\<lambda>b. b\<lparr>bc_data := Some (?a None)\<rparr>"
    note p = push_item [OF t(2) hn]
    have f: "bc_key (?f (item_at (snd ?p) (fst ?p))) = name"
      using p by (simp add: refers_def)
    have "update_item ?f (fst ?p) (snd ?p) = update_item ?f (fst ?p) (snd ?p)" ..
    note u = update_item [OF p(1), of "fst ?p" name ?f]
    have r: "refers (snd ?p) (fst ?p) name" using p by blast
    have lk: "hash_lookup (update_item ?f (fst ?p) (snd ?p)) = (hash_lookup t)(name \<mapsto> Some (?a None))"
      using u(2) [OF r f] p(2) by simp
    have inv': "hash_inv (update_item ?f (fst ?p) (snd ?p))"
      using u(1) [OF r f] by simp
    have "named_entries (update_item ?f (fst ?p) (snd ?p))"
      using t(3) lk by (rule named_entries_upd) (simp add: added_alias_def)
    then show ?thesis
      using add_alias_new [OF st1 t(1,2) hn, of before "value"] inv' alias_map_upd [OF lk, of st1] t(1,4) none
      by (simp add: alias_inv_def alias_map_def fun_eq_iff)
  qed
  show ?thesis
  proof (cases "aliases st")
    case None
    then show ?thesis
      using new [of "initialize_aliases st" "hash_create ALIAS_HASH_BUCKETS"]
      by (simp add: initialize_aliases_def hash_create_inv ALIAS_HASH_BUCKETS_def named_entries_def
          hash_create_lookup alias_map_def fun_eq_iff)
  next
    case (Some t0)
    show ?thesis
    proof (cases rule: find_item_spec [OF inv, of name])
      case (1 r t a)
      let ?f = "\<lambda>b. b\<lparr>bc_data := Some (?a (Some a))\<rparr>"
      have f: "bc_key (?f (item_at t r)) = name" using 1(5) by (simp add: refers_def)
      note u = update_item [OF 1(2,5), of ?f, OF f]
      have lk: "hash_lookup (update_item ?f r t) = (hash_lookup t)(name \<mapsto> Some (?a (Some a)))"
        using u(2) by simp
      have "named_entries (update_item ?f r t)"
        using 1(3) lk by (rule named_entries_upd) (simp add: added_alias_def)
      then show ?thesis
        using add_alias_old [OF 1(1,9,6,8), of before "value"] u(1) alias_map_upd [OF lk, of st] 1(4,7)
        by (simp add: alias_inv_def)
    next
      case 2
      then show ?thesis
        using new [of st t0] Some alias_invD [OF inv Some] by simp
    qed
  qed
qed

lemma remove_alias_spec:
  assumes inv: "alias_inv st"
  shows "alias_inv (snd (remove_alias name st)) \<and>
    alias_map (snd (remove_alias name st)) = (alias_map st)(name := None) \<and>
    fst (remove_alias name st) =
      (if alias_map st name = None then -1 else int (HASH_ENTRIES (aliases (snd (remove_alias name st)))))"
proof (cases "aliases st")
  case None
  then show ?thesis
    using alias_inv_None [OF None] by (simp add: remove_alias_def)
next
  case (Some t)
  then have t: "hash_inv t" "named_entries t" using inv alias_invD by blast+
  show ?thesis
  proof (cases "hash_lookup t name")
    case None
    then have "alias_map st name = None" using Some by (simp add: alias_map_def)
    then show ?thesis
      using hash_remove_miss [OF t(1) None, of 0] Some inv
      by (simp add: remove_alias_def fun_upd_idem) (cases st, simp)
  next
    case d: (Some d)
    obtain a where a: "d = Some a" using named_lookup [OF t(2) d] by blast
    obtain b t' where r: "hash_remove name (Some t) 0 = (Some b, Some t')" "hash_inv t'"
      "hash_lookup t' = (hash_lookup t)(name := None)"
      using hash_remove_hit [OF t(1) d, of 0] by metis
    have "named_entries t'" using t(2) r(3) by (auto simp: named_entries_def)
    then show ?thesis
      using r Some d a by (simp add: remove_alias_def alias_inv_def alias_map_def fun_eq_iff)
  qed
qed

definition alias_values :: "alias_state \<Rightarrow> cstring \<Rightarrow> cstring option" where
  "alias_values st name = map_option al_value (alias_map st name)"

text \<open>\<open>alias name=value\<close>: the byte before the value is the NUL written over the \<open>=\<close>.\<close>

definition alias_put :: "cstring \<Rightarrow> cstring \<Rightarrow> alias_state \<Rightarrow> alias_state" where
  "alias_put name v st = add_alias name NUL v st"

definition alias_del :: "cstring \<Rightarrow> alias_state \<Rightarrow> alias_state" where
  "alias_del name st = snd (remove_alias name st)"

definition alias_count :: "alias_state \<Rightarrow> nat" where
  "alias_count st = HASH_ENTRIES (aliases st)"

lemma alias_values_dom: "dom (alias_values st) = dom (alias_map st)"
  by (auto simp: alias_values_def)

lemma alias_put:
  assumes "alias_inv st"
  shows "alias_inv (alias_put name v st) \<and> alias_values (alias_put name v st) = (alias_values st)(name \<mapsto> v)"
  using add_alias_spec [OF assms, of name NUL v]
  by (auto simp: alias_put_def alias_values_def fun_eq_iff added_alias_def)

lemma alias_del:
  assumes "alias_inv st"
  shows "alias_inv (alias_del name st) \<and> alias_values (alias_del name st) = (alias_values st)(name := None)"
  using remove_alias_spec [OF assms, of name]
  by (auto simp: alias_del_def alias_values_def fun_eq_iff)

interpretation alias_store: counted_store alias_inv "\<lambda>_. True" alias_values alias_put alias_del alias_count
  by unfold_locales
    (simp_all add: alias_put alias_del alias_values_dom finite_alias_map alias_count_def alias_map_entries)

section \<open>Sorted listing\<close>

lemma qsort_compare_total: "\<not> qsort_alias_compare x y \<le> 0 \<Longrightarrow> qsort_alias_compare y x \<le> 0"
  using strcmp_swap [of "al_name x" "al_name y"]
  by (auto simp: qsort_alias_compare_def Let_def split: if_splits)

lemma qsort_compare_trans:
  "qsort_alias_compare x y \<le> 0 \<Longrightarrow> qsort_alias_compare y z \<le> 0 \<Longrightarrow> qsort_alias_compare x z \<le> 0"
  using strcmp_trans [of "al_name x" "al_name y" "al_name z"]
  by (auto simp: qsort_alias_compare_def Let_def split: if_splits)

lemma map_over_aliases_all:
  assumes inv: "alias_inv st" and t: "aliases st = Some t" and ne: "nentries t \<noteq> 0"
  shows "map_over_aliases None st = Some (map (\<lambda>b. the (bc_data b)) (all_items t))"
  using ne alias_invD [OF inv t] by (simp add: map_over_aliases_def t hash_items_all)

lemma all_items_aliases:
  assumes "hash_inv t" and "named_entries t"
  shows "set (map (\<lambda>b. the (bc_data b)) (all_items t)) = {a. \<exists>k. hash_lookup t k = Some (Some a)}"
    and "distinct (map al_name (map (\<lambda>b. the (bc_data b)) (all_items t)))"
proof -
  have b: "\<exists>a. bc_data b = Some a \<and> al_name a = bc_key b" if "b \<in> set (all_items t)" for b
    using that hash_lookup_items [OF assms(1), of "bc_key b" "bc_data b"]
      named_lookup [OF assms(2), of "bc_key b" "bc_data b"] by blast
  show "set (map (\<lambda>b. the (bc_data b)) (all_items t)) = {a. \<exists>k. hash_lookup t k = Some (Some a)}"
    using b by (force simp: hash_lookup_items [OF assms(1)] image_iff)
  have "map al_name (map (\<lambda>b. the (bc_data b)) (all_items t)) = map bc_key (all_items t)"
    using b by fastforce
  then show "distinct (map al_name (map (\<lambda>b. the (bc_data b)) (all_items t)))"
    using distinct_keys [OF assms(1)] by (simp only:)
qed

section \<open>What expansion writes\<close>

lemma find_alias_map:
  assumes "alias_inv st"
  shows "fst (find_alias name st) = alias_map st name \<and> alias_inv (snd (find_alias name st)) \<and>
    alias_map (snd (find_alias name st)) = alias_map st"
  using find_alias_spec [OF assms, of name] by (metis fst_conv snd_conv)

lemma alias_pass_extends:
  "alias_pass ae string start line e w st = Some (i, l, e', st') \<Longrightarrow> \<exists>z. l = line @ z"
  by (auto simp: alias_pass_def Let_def split: option.splits if_splits)

lemma alias_expand_extends: "\<exists>z. fst (alias_expand_loop ae string start line e w st) = line @ z"
proof (induction ae string start line e w st rule: alias_expand_loop.induct)
  case (1 ae string start line e w st)
  show ?case
  proof (cases "alias_pass ae string start line e w st")
    case None
    then show ?thesis by (simp add: alias_expand_loop.simps [of ae string start])
  next
    case (Some r)
    obtain i l e' st' where r: "r = (i, l, e', st')" by (cases r)
    then show ?thesis
      using Some alias_pass_extends [of ae string start line e w st i l e' st']
        "1.IH" [OF Some [unfolded r] refl refl refl]
      by (auto simp: alias_expand_loop.simps [of ae string start])
  qed
qed

lemma alias_pass_no_alias:
  assumes "alias_inv st" and "alias_map st = Map.empty"
    and "alias_pass ae string start line e w st = Some (i, l, e', st')"
  shows "l = line @ take (i - start) (drop start string) \<and> alias_inv st' \<and> alias_map st' = Map.empty"
proof -
  let ?j = "fst (skipws string start w)"
  note p = alias_pass_progress [OF assms(3)]
  have j: "start \<le> ?j" "?j \<le> length string" "?j \<le> snd (next_token string ?j)"
    using p skipws_bounds [of start string w] next_token_bounds [of ?j string] by auto
  have join: "take (?j - start) (drop start string) @ take (n - ?j) (drop ?j string) =
      take (n - start) (drop start string)" if "?j \<le> n" for n
    using j(1) that by (rule take_drop_join)
  show ?thesis
    using assms(3) find_alias_map [OF assms(1), of "fst (next_token string ?j)"] assms(1,2) join [OF j(3)]
    by (auto simp: alias_pass_def Let_def split: option.splits if_splits)
qed

lemma alias_expand_no_alias:
  "alias_inv st \<Longrightarrow> alias_map st = Map.empty \<Longrightarrow> c_string string \<Longrightarrow> start \<le> length string \<Longrightarrow>
   fst (alias_expand_loop ae string start line e w st) = line @ drop start string"
proof (induction ae string start line e w st rule: alias_expand_loop.induct)
  case (1 ae string start line e w st)
  show ?case
  proof (cases "alias_pass ae string start line e w st")
    case None
    then have "c_at string start = NUL"
      by (auto simp: alias_pass_def Let_def split: option.splits if_splits)
    then have "length string \<le> start" using "1.prems"(3) by (simp add: c_at_NUL_iff)
    with None show ?thesis
      by (simp add: alias_expand_loop.simps [of ae string start])
  next
    case (Some r)
    obtain i l e' st' where r: "r = (i, l, e', st')" by (cases r)
    note S = Some [unfolded r]
    have step: "l = line @ take (i - start) (drop start string)" "alias_inv st'" "alias_map st' = Map.empty"
      using alias_pass_no_alias [OF "1.prems"(1,2) S] by blast+
    have "take (i - start) (drop start string) @ drop i string = drop start string"
      using alias_pass_progress [OF S] take_drop_join [of start i "length string" string] by simp
    then show ?thesis
      using S "1.IH" [OF S refl refl refl step(2,3) "1.prems"(3)] alias_pass_progress [OF S] step(1)
      by (simp add: alias_expand_loop.simps [of ae string start])
  qed
qed

text \<open>A word of characters that need no quoting, followed by the end of a token.\<close>

definition plain_word :: "cstring \<Rightarrow> bool" where
  "plain_word w \<longleftrightarrow> w \<noteq> [] \<and>
     (\<forall>c\<in>set w. token_char c \<and> c \<noteq> NUL \<and> c \<noteq> CHR 0x5C \<and> \<not> quote_char c)"

lemma rd_token_plain:
  "drop i string = w @ rest \<Longrightarrow> plain_word w \<or> w = [] \<Longrightarrow>
   c_at rest 0 = NUL \<or> \<not> token_char (c_at rest 0) \<Longrightarrow> i \<le> length string \<Longrightarrow>
   rd_token string i = i + length w"
proof (induction w arbitrary: i)
  case Nil
  then have "c_at string i = c_at rest 0"
    by (auto simp: c_at_def hd_drop_conv_nth nth_drop)
  with Nil show ?case by (simp add: rd_token.simps [of string i] Let_def)
next
  case (Cons c w)
  have i: "i < length string" using Cons.prems(1) by (metis append_is_Nil_conv drop_all list.distinct(1) not_le)
  have c: "c_at string i = c" "drop (Suc i) string = w @ rest"
    using Cons.prems(1) i by (simp_all add: c_at_def Cons_nth_drop_Suc [symmetric])
  have "rd_token string (Suc i) = Suc i + length w"
    using Cons.IH [OF c(2)] Cons.prems(2,3) i by (auto simp: plain_word_def)
  then show ?case
    using Cons.prems(2) c by (simp add: rd_token.simps [of string i] Let_def plain_word_def)
qed

lemma skipws_plain:
  assumes "c_at string i = c" "c \<noteq> NUL" "token_char c" "c \<noteq> CHR 0x5C" "\<not> quote_char c"
  shows "skipws string i w = (i, w)"
  using assms
  by (simp add: skipws_def skipws_loop.simps [of string i] Let_def token_char_def
      self_delimiting_def command_separator_def)

lemma alias_pass_first_word:
  assumes "plain_word w" and "c_at rest 0 = NUL \<or> \<not> token_char (c_at rest 0)"
    and "alias_inv st" and "alias_map st w = Some a"
  shows "\<exists>e st'. alias_pass ae (w @ rest) 0 [] False 1 st = Some (length w, al_value a, e, st')"
proof -
  obtain c w' where w: "w = c # w'" using assms(1) by (cases w) (auto simp: plain_word_def)
  have s: "skipws (w @ rest) 0 1 = (0, 1)"
    using assms(1) w by (intro skipws_plain [where c = c]) (auto simp: plain_word_def)
  have t: "next_token (w @ rest) 0 = (w, length w)"
    using rd_token_plain [of 0 "w @ rest" w rest] assms(1,2) w by (simp add: next_token_def Let_def)
  have "CHR 0x5C \<notin> set w" "w \<noteq> []" using assms(1) by (auto simp: plain_word_def)
  then show ?thesis
    using s t find_alias_map [OF assms(3), of w] assms(4) w assms(1)
    by (auto simp: alias_pass_def Let_def plain_word_def)
qed

lemma skipws_bqw:
  "drop i string = w @ rest \<Longrightarrow> \<forall>c\<in>set w. is_alpha c \<Longrightarrow>
   skipws_loop string i False True n = skipws_loop string (i + length w) False True n"
proof (induction w arbitrary: i)
  case Nil
  then show ?case by simp
next
  case (Cons c w)
  have i: "i < length string" using Cons.prems(1) by (metis append_is_Nil_conv drop_all list.distinct(1) not_le)
  have c: "c_at string i = c" "drop (Suc i) string = w @ rest"
    using Cons.prems(1) i by (simp_all add: c_at_def Cons_nth_drop_Suc [symmetric])
  have "c \<noteq> NUL" "\<not> whitespace c" "c \<noteq> CHR 0x5C" "\<not> quote_char c"
    using Cons.prems(2) by (auto simp: is_alpha_def is_upper_def is_lower_def whitespace_def quote_char_def)
  then show ?case
    using Cons.IH [OF c(2)] Cons.prems(2) c
    by (simp add: skipws_loop.simps [of string i False True] Let_def)
qed

section \<open>Properties\<close>

primrec alias_step :: "(cstring, cstring) store_op \<Rightarrow> alias_state \<Rightarrow> alias_state" where
  "alias_step (Put name v) st = alias_put name v st"
| "alias_step (Del name) st = alias_del name st"

primrec alias_run :: "(cstring, cstring) store_op list \<Rightarrow> alias_state \<Rightarrow> alias_state" where
  "alias_run [] st = st"
| "alias_run (x # xs) st = alias_run xs (alias_step x st)"

lemma alias_step_store: "alias_step x st = alias_store.apply_op x st"
  by (cases x) simp_all

lemma alias_run_store: "alias_run xs st = alias_store.run xs st"
  by (induction xs arbitrary: st) (simp_all add: alias_step_store)

definition no_aliases :: alias_state where
  "no_aliases = \<lparr>aliases = None, it_aliases_dirty = False\<rparr>"

text \<open>
  C16. Any history of \<^verbatim>\<open>alias\<close> and \<^verbatim>\<open>unalias\<close> from the NULL table on: \<^verbatim>\<open>get_alias_value\<close> answers
  as the map of the history, and a further \<^verbatim>\<open>remove_alias\<close> returns the number of aliases left,
  or -1 when the name has no alias.
\<close>

theorem alias_history_refines_map:
  "fst (get_alias_value name (alias_run ops no_aliases)) = map_ops ops Map.empty name \<and>
   fst (remove_alias name (alias_run ops no_aliases)) =
     (if map_ops ops Map.empty name = None then -1
      else int (card (dom (map_ops ops Map.empty))) - 1)"
proof -
  let ?st = "alias_run ops no_aliases"
  have none: "alias_inv no_aliases" "alias_values no_aliases = Map.empty"
    by (simp_all add: no_aliases_def alias_inv_def alias_values_def alias_map_def fun_eq_iff)
  have run: "alias_inv ?st" "alias_values ?st = map_ops ops Map.empty"
    using alias_store.run_refines [OF none(1), of ops] none(2) unfolding alias_run_store by simp_all
  have val: "map_option al_value (alias_map ?st name) = map_ops ops Map.empty name"
    using run(2) by (metis alias_values_def)
  have "fst (get_alias_value name ?st) = map_option al_value (alias_map ?st name)"
    using find_alias_map [OF run(1), of name]
    by (auto simp: get_alias_value_def alias_map_def split_def)
  moreover have "fst (remove_alias name ?st) = (if map_ops ops Map.empty name = None then -1
      else int (card (dom (map_ops ops Map.empty))) - 1)"
  proof (cases "alias_map ?st name")
    case None
    then show ?thesis using remove_alias_spec [OF run(1), of name] val by simp
  next
    case (Some a)
    have "alias_count (alias_del name ?st) = alias_count ?st - 1"
      using alias_store.count_del [OF run(1), of name] Some by (simp add: alias_values_def)
    moreover have "alias_count ?st = card (dom (map_ops ops Map.empty))"
      using alias_store.count_look [OF run(1)] run(2) by simp
    moreover have "alias_count ?st \<noteq> 0"
      using alias_store.count_zero [OF run(1)] Some by (metis alias_values_def option.map_disc_iff option.distinct(1))
    ultimately show ?thesis
      using remove_alias_spec [OF run(1), of name] Some val [symmetric]
      by (auto simp: alias_count_def alias_del_def of_nat_diff)
  qed
  ultimately show ?thesis using val by simp
qed

text \<open>
  \<^verbatim>\<open>all_aliases\<close> lists every alias exactly once, in the order of \<^verbatim>\<open>qsort_alias_compare\<close>
  (first characters compared as signed, the rest by \<^verbatim>\<open>strcmp\<close>), and is NULL only without aliases.
\<close>

theorem all_aliases_sorted:
  assumes "alias_inv st"
  shows "case all_aliases st of
      None \<Rightarrow> alias_map st = Map.empty
    | Some list \<Rightarrow> set list = ran (alias_map st) \<and> distinct (map al_name list) \<and>
        length list = card (dom (alias_map st)) \<and>
        sorted_wrt (\<lambda>x y. qsort_alias_compare x y \<le> 0) list"
proof (cases "HASH_ENTRIES (aliases st) = 0")
  case True
  then have "alias_map st = Map.empty"
    using alias_map_entries [OF assms] finite_alias_map [OF assms] by simp
  with True show ?thesis by (simp add: all_aliases_def)
next
  case False
  then obtain t where t: "aliases st = Some t" "nentries t \<noteq> 0"
    by (cases "aliases st") (auto simp: HASH_ENTRIES_def)
  note inv = alias_invD [OF assms t(1)]
  let ?l = "map (\<lambda>b. the (bc_data b)) (all_items t)"
  have all: "all_aliases st = Some (qsort qsort_alias_compare ?l)"
    using t False map_over_aliases_all [OF assms t] by (simp add: all_aliases_def sort_aliases_def)
  have ran: "ran (alias_map st) = {a. \<exists>k. hash_lookup t k = Some (Some a)}"
    using t(1) by (auto simp: ran_def alias_map_def bind_eq_Some_conv)
  have m: "mset (qsort qsort_alias_compare ?l) = mset ?l" by (rule mset_qsort)
  have "distinct (map al_name (qsort qsort_alias_compare ?l))"
    using all_items_aliases(2) [of t] inv mset_map [of al_name] m
    by (metis mset_eq_imp_distinct_iff)
  moreover have "set (qsort qsort_alias_compare ?l) = ran (alias_map st)"
    using m all_items_aliases(1) [of t] inv ran by (metis set_mset_mset)
  moreover have "length (qsort qsort_alias_compare ?l) = card (dom (alias_map st))"
    using mset_eq_length [OF m] alias_map_entries [OF assms] inv hash_invD(3) [of t] t(1)
    by (simp add: HASH_ENTRIES_def)
  moreover have "sorted_wrt (\<lambda>x y. qsort_alias_compare x y \<le> 0) (qsort qsort_alias_compare ?l)"
    by (rule sorted_qsort [OF qsort_compare_total qsort_compare_trans])
  ultimately show ?thesis unfolding all option.case by blast
qed

theorem all_aliases_sorted_witness:
  "\<exists>list. all_aliases (alias_run [Put ''lt'' ''ls -t'', Put ''la'' ''ls -a''] no_aliases) = Some list \<and>
    sorted_wrt (\<lambda>x y. qsort_alias_compare x y \<le> 0) list"
proof -
  let ?st = "alias_run [Put ''lt'' ''ls -t'', Put ''la'' ''ls -a''] no_aliases"
  have "alias_inv ?st"
    by (simp add: alias_put alias_inv_None no_aliases_def)
  moreover have "all_aliases ?st \<noteq> None" by code_simp
  ultimately show ?thesis using all_aliases_sorted [of ?st] by (auto split: option.splits)
qed

text \<open>
  \<^verbatim>\<open>alias_expand\<close> returns for every line (its loop always moves forward); without aliases it
  returns the line itself.
\<close>

theorem alias_expand_identity:
  assumes "alias_inv st" and "alias_map st = Map.empty" and "c_string string"
  shows "fst (alias_expand ae string st) = string"
  using alias_expand_no_alias [OF assms, of 0 ae "[]" False 1] by (simp add: alias_expand_def)

theorem alias_expand_identity_witness:
  "fst (alias_expand True ''ls | wc'' (alias_run [Put ''a'' ''b'', Del ''a''] no_aliases)) = ''ls | wc''"
proof (rule alias_expand_identity)
  show inv: "alias_inv (alias_run [Put ''a'' ''b'', Del ''a''] no_aliases)"
    by (simp add: alias_put alias_del alias_inv_None no_aliases_def)
  have "HASH_ENTRIES (aliases (alias_run [Put ''a'' ''b'', Del ''a''] no_aliases)) = 0" by code_simp
  then show "alias_map (alias_run [Put ''a'' ''b'', Del ''a''] no_aliases) = Map.empty"
    using alias_map_entries [OF inv] finite_alias_map [OF inv] by simp
qed simp

text \<open>
  The first word of a line, when it is plain and has an alias, is replaced: the result starts
  with the value. The same word after a backslash is copied as it stands.
\<close>

theorem alias_expand_first_word:
  assumes "plain_word w" and "c_at rest 0 = NUL \<or> \<not> token_char (c_at rest 0)"
    and "alias_inv st" and "alias_map st w = Some a"
  shows "(\<exists>z. fst (alias_expand ae (w @ rest) st) = al_value a @ z) \<and>
    fst (alias_expand ae w st) = al_value a \<and>
    (list_all is_alpha w \<longrightarrow> fst (alias_expand ae (CHR 0x5C # w) st) = CHR 0x5C # w)"
proof (intro conjI impI)
  obtain e st' where p: "alias_pass ae (w @ rest) 0 [] False 1 st = Some (length w, al_value a, e, st')"
    using alias_pass_first_word [OF assms, of ae] by blast
  show "\<exists>z. fst (alias_expand ae (w @ rest) st) = al_value a @ z"
    unfolding alias_expand_def alias_expand_loop.simps [of ae "w @ rest" 0] p
    using alias_expand_extends [of ae "w @ rest" "length w" "al_value a" e 0 st'] by simp
next
  obtain e st' where p: "alias_pass ae w 0 [] False 1 st = Some (length w, al_value a, e, st')"
    using alias_pass_first_word [OF assms(1) _ assms(3,4), of "[]" ae] by auto
  have "alias_pass ae w (length w) (al_value a) e 0 st' = None"
    by (simp add: alias_pass_def skipws_def skipws_loop.simps [of w "length w"] c_at_def)
  then show "fst (alias_expand ae w st) = al_value a"
    unfolding alias_expand_def alias_expand_loop.simps [of ae w 0] p
    by (simp add: alias_expand_loop.simps [of ae w "length w"])
next
  assume al: "list_all is_alpha w"
  let ?s = "CHR 0x5C # w"
  obtain c w' where w: "w = c # w'" using assms(1) by (cases w) (auto simp: plain_word_def)
  have n: "c \<noteq> NUL" using assms(1) w by (simp add: plain_word_def)
  have "skipws_loop ?s 1 False True 1 = skipws_loop ?s (1 + length w) False True 1"
    using al by (intro skipws_bqw [where rest = "[]"]) (simp_all add: list_all_iff)
  then have "skipws ?s 0 1 = (Suc (length w), 1)"
    using al w n
    by (simp add: skipws_def skipws_loop.simps [of "CHR 0x5C # c # w'" 0]
        skipws_loop.simps [of "CHR 0x5C # c # w'" "Suc (Suc (length w'))"]
        Let_def whitespace_def list_all_iff)
  then have p: "alias_pass ae ?s 0 [] False 1 st = Some (Suc (length w), ?s, False, st)"
    by (simp add: alias_pass_def next_token_def rd_token.simps [of ?s "Suc (length w)"] c_at_def)
  have "alias_pass ae ?s (Suc (length w)) ?s False 0 st = None"
    by (simp add: alias_pass_def skipws_def skipws_loop.simps [of ?s "Suc (length w)"] c_at_def)
  then show "fst (alias_expand ae ?s st) = ?s"
    unfolding alias_expand_def alias_expand_loop.simps [of ae ?s 0] p
    by (simp add: alias_expand_loop.simps [of ae ?s "Suc (length w)"])
qed

theorem alias_expand_first_word_witness:
  "\<exists>z. fst (alias_expand False ''ll x'' (alias_run [Put ''ll'' ''ls -l''] no_aliases)) = ''ls -l'' @ z"
proof -
  let ?st = "alias_run [Put ''ll'' ''ls -l''] no_aliases"
  have inv: "alias_inv ?st" by (simp add: alias_put alias_inv_None no_aliases_def)
  have "alias_map ?st ''ll'' = Some \<lparr>al_name = ''ll'', al_value = ''ls -l'', al_flags = 0\<rparr>"
    by code_simp
  moreover have "plain_word ''ll''"
    by (simp add: plain_word_def token_char_def whitespace_def self_delimiting_def quote_char_def)
  moreover have "\<not> token_char (c_at '' x'' 0)"
    by (simp add: token_char_def whitespace_def)
  ultimately show ?thesis
    using alias_expand_first_word [of "''ll''" "'' x''" ?st _ False] inv by simp
qed

end
