(* ===== verification/Shell_Quote.thy ===== *)
theory Shell_Quote
  imports Bash_Prelude
begin

text \<open>
  Quoting. The first part is \<^verbatim>\<open>lib/sh/shquote.c\<close>: strings turned into text that the shell
  can read again, each routine with the buffer it allocates, so that a result of \<open>None\<close> means
  that the C code leaves its buffer or its table. The second part is the internal quoting of
  \<^verbatim>\<open>subst.c\<close> with the marker characters CTLESC and CTLNUL, in a single-byte locale
  (\<^verbatim>\<open>COPY_CHAR_P\<close> and \<^verbatim>\<open>ADVANCE_CHAR\<close> move one byte).
  \<^verbatim>\<open>shell_read\<close> is the specification side: what a POSIX shell makes of quoted text.
\<close>

abbreviation SQ :: char where "SQ \<equiv> CHR 0x27"
abbreviation DQ :: char where "DQ \<equiv> CHR 0x22"
abbreviation BSL :: char where "BSL \<equiv> CHR 0x5C"
abbreviation NL :: char where "NL \<equiv> CHR 0x0A"
abbreviation CTLESC :: char where "CTLESC \<equiv> CHR 0x01"
abbreviation CTLNUL :: char where "CTLNUL \<equiv> CHR 0x7F"

section \<open>Quoting for re-input (shquote.c)\<close>

fun single_quote_body :: "cstring \<Rightarrow> cstring" where
  "single_quote_body [] = []"
| "single_quote_body (c # s) =
     (if c = SQ then [c, BSL, SQ, SQ] else [c]) @ single_quote_body s"

definition sh_single_quote :: "cstring \<Rightarrow> cstring option" where
  "sh_single_quote string =
     fill_buffer (3 + 4 * length string)
       (if string = [SQ] then [BSL, SQ] else [SQ] @ single_quote_body string @ [SQ])"

definition CBSDQUOTE :: "char \<Rightarrow> bool" where
  "CBSDQUOTE c \<longleftrightarrow> c \<in> {BSL, CHR 0x60, CHR 0x24, DQ, NL}"

fun double_quote_body :: "cstring \<Rightarrow> cstring" where
  "double_quote_body [] = []"
| "double_quote_body (c # s) =
     (if CBSDQUOTE c \<and> c \<noteq> NL then [BSL]
      else if c = CTLESC \<or> c = CTLNUL then [CTLESC] else []) @ c # double_quote_body s"

definition sh_double_quote :: "cstring \<Rightarrow> cstring option" where
  "sh_double_quote string =
     fill_buffer (3 + 2 * length string) ([DQ] @ double_quote_body string @ [DQ])"

fun mkdq_body :: "bool \<Rightarrow> cstring \<Rightarrow> cstring" where
  "mkdq_body flags [] = []"
| "mkdq_body flags (c # s) = (if flags \<and> c = DQ then [BSL] else []) @ c # mkdq_body flags s"

definition sh_mkdoublequoted :: "cstring \<Rightarrow> nat \<Rightarrow> nat \<Rightarrow> cstring option" where
  "sh_mkdoublequoted s slen flags =
     fill_buffer (if flags = 0 then slen + 3 else 2 * slen + 1)
       ([DQ] @ mkdq_body (flags \<noteq> 0) s @ [DQ])"

fun un_double_quote_loop :: "bool \<Rightarrow> cstring \<Rightarrow> cstring" where
  "un_double_quote_loop pass_next [] = []"
| "un_double_quote_loop pass_next (c # s) =
     (if pass_next then c # un_double_quote_loop False s
      else if c = BSL \<and> CBSDQUOTE (c_at s 0) then un_double_quote_loop True s
      else c # un_double_quote_loop False s)"

definition sh_un_double_quote :: "cstring \<Rightarrow> cstring option" where
  "sh_un_double_quote string = fill_buffer (length string + 1) (un_double_quote_loop False string)"

text \<open>The characters whose entry of \<^verbatim>\<open>bstab\<close> is 1.\<close>

definition bstab :: "nat \<Rightarrow> nat" where
  "bstab i = (if i \<in> {9, 10, 32, 33, 34, 36, 38, 39, 40, 41, 42, 44, 59, 60, 62, 63,
                      91, 92, 93, 94, 96, 123, 124, 125} then 1 else 0)"

text \<open>
  \<open>c\<close> is an \<open>int\<close> holding a signed \<open>char\<close>: from 0x80 on it is negative and
  \<^verbatim>\<open>backslash_table[c]\<close> reads before the table.
\<close>

definition table_entry :: "(nat \<Rightarrow> nat) \<Rightarrow> char \<Rightarrow> nat option" where
  "table_entry tab c = (if (of_char c :: nat) < 128 then Some (tab (of_char c)) else None)"

fun backslash_quote_loop ::
  "(nat \<Rightarrow> nat) \<Rightarrow> nat \<Rightarrow> char option \<Rightarrow> cstring \<Rightarrow> cstring option" where
  "backslash_quote_loop tab flags prev [] = Some []"
| "backslash_quote_loop tab flags prev (c # s) =
     do {
       e \<leftarrow> table_entry tab c;
       rest \<leftarrow> backslash_quote_loop tab flags (Some c) s;
       Some ((if e = 1 then [BSL]
              else if c = CHR ''#'' \<and> prev = None then [BSL]
              else if flags AND 1 \<noteq> 0 \<and> c = CHR ''~'' \<and>
                      (prev = None \<or> prev = Some (CHR '':'') \<or> prev = Some (CHR ''='')) then [BSL]
              else []) @ c # rest)
     }"

definition sh_backslash_quote :: "cstring \<Rightarrow> (nat \<Rightarrow> nat) option \<Rightarrow> nat \<Rightarrow> cstring option" where
  "sh_backslash_quote string table flags =
     Option.bind
       (backslash_quote_loop (case table of None \<Rightarrow> bstab | Some tab \<Rightarrow> tab) flags None string)
       (fill_buffer (2 * length string + 1))"

fun bq_for_dq_body :: "cstring \<Rightarrow> cstring" where
  "bq_for_dq_body [] = []"
| "bq_for_dq_body (c # s) =
     (if CBSDQUOTE c then [BSL]
      else if c = CTLESC \<or> c = CTLNUL then [CTLESC] else []) @ c # bq_for_dq_body s"

definition sh_backslash_quote_for_double_quotes :: "cstring \<Rightarrow> cstring option" where
  "sh_backslash_quote_for_double_quotes string =
     fill_buffer (2 * length string + 1) (bq_for_dq_body string)"

fun metas_loop :: "char option \<Rightarrow> cstring \<Rightarrow> bool" where
  "metas_loop prev [] = False"
| "metas_loop prev (c # s) =
     (if c \<in> set '' |&;()<>!{}*[?]^$'' \<or> c \<in> {CHR 0x09, NL, SQ, DQ, BSL, CHR 0x60} then True
      else if c = CHR ''~'' \<and>
              (prev = None \<or> prev = Some (CHR ''='') \<or> prev = Some (CHR '':'')) then True
      else if c = CHR ''#'' \<and> prev = None then True
      else metas_loop (Some c) s)"

definition sh_contains_shell_metas :: "cstring \<Rightarrow> bool" where
  "sh_contains_shell_metas string = metas_loop None string"

section \<open>Internal quoting (subst.c)\<close>

definition quote_string :: "cstring \<Rightarrow> cstring" where
  "quote_string string =
     (if string = [] then [CTLNUL] else concat (map (\<lambda>c. [CTLESC, c]) string))"

definition QUOTED_NULL :: "cstring \<Rightarrow> bool" where
  "QUOTED_NULL string \<longleftrightarrow> string = [CTLNUL]"

fun dequote_loop :: "cstring \<Rightarrow> cstring" where
  "dequote_loop [] = []"
| "dequote_loop (c # s) =
     (if c = CTLESC then (case s of [] \<Rightarrow> [] | d # s' \<Rightarrow> d # dequote_loop s')
      else c # dequote_loop s)"

definition dequote_string :: "cstring \<Rightarrow> cstring" where
  "dequote_string string =
     (if QUOTED_NULL string then []
      else if CTLESC \<notin> set string then string
      else dequote_loop string)"

definition make_quoted_char :: "char \<Rightarrow> cstring" where
  "make_quoted_char c = (if c = NUL then [CTLNUL] else [CTLESC, c])"

text \<open>\<open>ifs\<close> is the value of IFS, \<open>None\<close> when it is unset.\<close>

definition quote_escapes :: "cstring option \<Rightarrow> cstring \<Rightarrow> cstring" where
  "quote_escapes ifs string =
     (let quote_spaces = (ifs = Some []);
          skip_ctlesc = (\<exists>v. ifs = Some v \<and> CTLESC \<in> set v);
          skip_ctlnul = (\<exists>v. ifs = Some v \<and> CTLNUL \<in> set v)
      in concat (map (\<lambda>c. (if \<not> skip_ctlesc \<and> c = CTLESC \<or> \<not> skip_ctlnul \<and> c = CTLNUL \<or>
                              quote_spaces \<and> c = CHR '' '' then [CTLESC] else []) @ [c]) string))"

fun dequote_escapes_loop :: "bool \<Rightarrow> cstring \<Rightarrow> cstring" where
  "dequote_escapes_loop quote_spaces [] = []"
| "dequote_escapes_loop quote_spaces (c # s) =
     (if c = CTLESC \<and> (c_at s 0 = CTLESC \<or> c_at s 0 = CTLNUL \<or>
                       quote_spaces \<and> c_at s 0 = CHR '' '')
      then (case s of [] \<Rightarrow> [] | d # s' \<Rightarrow> d # dequote_escapes_loop quote_spaces s')
      else c # dequote_escapes_loop quote_spaces s)"

definition dequote_escapes :: "cstring option \<Rightarrow> cstring \<Rightarrow> cstring" where
  "dequote_escapes ifs string =
     (if CTLESC \<notin> set string then string
      else dequote_escapes_loop (ifs = Some []) string)"

text \<open>
  \<^verbatim>\<open>remove_quoted_nulls\<close> works in place: \<open>i\<close> reads, \<open>j\<close> writes. Each pass copies down the
  character it keeps, after the CTLESC that protects it.
\<close>

function remove_nulls_loop :: "cstring \<Rightarrow> nat \<Rightarrow> nat \<Rightarrow> nat \<Rightarrow> cstring" where
  "remove_nulls_loop string slen i j =
     (if i < slen then
        if string ! i = CTLESC then
          (let string1 = string[j := CTLESC]; i1 = i + 1; j1 = j + 1
           in if i1 = slen then take j1 string1
              else if j1 < i1 then remove_nulls_loop (string1[j1 := string1 ! i1]) slen (i1 + 1) (j1 + 1)
              else remove_nulls_loop string1 slen (i1 + 1) (i1 + 1))
        else if string ! i = CTLNUL then remove_nulls_loop string slen (i + 1) j
        else if j < i then remove_nulls_loop (string[j := string ! i]) slen (i + 1) (j + 1)
        else remove_nulls_loop string slen (i + 1) (i + 1)
      else take j string)"
  by pat_completeness auto
termination
  by (relation "measure (\<lambda>(string, slen, i, j). slen - i)") auto

definition remove_quoted_nulls :: "cstring \<Rightarrow> cstring" where
  "remove_quoted_nulls string =
     (if CTLNUL \<notin> set string then string
      else remove_nulls_loop string (length string) 0 0)"

declare remove_nulls_loop.simps [simp del]

section \<open>Word lists\<close>

definition W_HASQUOTEDNULL :: nat where "W_HASQUOTEDNULL = 0x040000"
definition W_QUOTED :: nat where "W_QUOTED = 0x000002"

record word_desc =
  word :: cstring
  wflags :: nat

type_synonym word_list = "word_desc list"

fun join_words :: "bool \<Rightarrow> cstring \<Rightarrow> word_list \<Rightarrow> cstring" where
  "join_words first sep [] = []"
| "join_words first sep (w # ws) = (if first then [] else sep) @ word w @ join_words False sep ws"

definition string_list_internal :: "word_list \<Rightarrow> cstring \<Rightarrow> cstring option" where
  "string_list_internal list sep =
     (case list of
        [] \<Rightarrow> None
      | [w] \<Rightarrow> Some (word w)
      | _ \<Rightarrow> Some (join_words True sep list))"

definition quote_list :: "word_list \<Rightarrow> word_list" where
  "quote_list list =
     map (\<lambda>w. \<lparr>word = quote_string (word w),
               wflags = (if word w = [] then wflags w OR W_HASQUOTEDNULL else wflags w) OR W_QUOTED\<rparr>) list"

definition dequote_list :: "word_list \<Rightarrow> word_list" where
  "dequote_list list =
     map (\<lambda>w. \<lparr>word = dequote_string (word w),
               wflags = (if QUOTED_NULL (word w)
                         then wflags w AND (wflags w XOR W_HASQUOTEDNULL) else wflags w)\<rparr>) list"


definition word_list_remove_quoted_nulls :: "word_list \<Rightarrow> word_list" where
  "word_list_remove_quoted_nulls list =
     map (\<lambda>w. \<lparr>word = remove_quoted_nulls (word w),
               wflags = wflags w AND (wflags w XOR W_HASQUOTEDNULL)\<rparr>) list"

definition list_quote_escapes :: "cstring option \<Rightarrow> word_list \<Rightarrow> word_list" where
  "list_quote_escapes ifs list = map (\<lambda>w. w\<lparr>word := quote_escapes ifs (word w)\<rparr>) list"

text \<open>
  The globals that \<^verbatim>\<open>setifs\<close> sets from the variable IFS (\<open>None\<close> when it is unset, \<open>Some None\<close>
  when it has no value).
\<close>

record ifs_state =
  ifs_var :: "cstring option option"
  ifs_value :: cstring
  ifs_is_set :: bool
  ifs_is_null :: bool
  ifs_firstc :: char

definition setifs :: "cstring option option \<Rightarrow> ifs_state" where
  "setifs v =
     (let value = (case v of Some (Some s) \<Rightarrow> s | _ \<Rightarrow> [CHR '' '', CHR 0x09, NL])
      in \<lparr>ifs_var = v, ifs_value = value, ifs_is_set = (v \<noteq> None),
          ifs_is_null = (v \<noteq> None \<and> value = []), ifs_firstc = c_at value 0\<rparr>)"

definition getifs :: "ifs_state \<Rightarrow> cstring" where
  "getifs ifs = ifs_value ifs"

text \<open>The string of the first character of IFS, with its length.\<close>

definition ifs_firstchar :: "ifs_state \<Rightarrow> cstring \<times> nat" where
  "ifs_firstchar ifs =
     (let ret = (if ifs_firstc ifs = NUL then [] else [ifs_firstc ifs]) in (ret, length ret))"

definition string_list :: "word_list \<Rightarrow> cstring option" where
  "string_list list = string_list_internal list '' ''"

definition string_list_dollar_star :: "ifs_state \<Rightarrow> word_list \<Rightarrow> cstring option" where
  "string_list_dollar_star ifs list = string_list_internal list (fst (ifs_firstchar ifs))"

definition Q_DOUBLE_QUOTES :: nat where "Q_DOUBLE_QUOTES = 0x01"
definition Q_HERE_DOCUMENT :: nat where "Q_HERE_DOCUMENT = 0x02"
definition Q_PATQUOTE :: nat where "Q_PATQUOTE = 0x08"

definition string_list_dollar_at :: "ifs_state \<Rightarrow> word_list \<Rightarrow> nat \<Rightarrow> cstring option" where
  "string_list_dollar_at ifs list quoted =
     (let v = (case ifs_var ifs of None \<Rightarrow> None | Some c \<Rightarrow> c);
          sep = (case v of
                   None \<Rightarrow> '' ''
                 | Some s \<Rightarrow> if s = [] then '' '' else fst (ifs_firstchar ifs));
          tlist = (if quoted AND (Q_HERE_DOCUMENT OR Q_DOUBLE_QUOTES OR Q_PATQUOTE) \<noteq> 0
                   then quote_list list
                   else list_quote_escapes (Some (ifs_value ifs)) list)
      in string_list_internal tlist sep)"

definition string_list_pos_params ::
  "ifs_state \<Rightarrow> char \<Rightarrow> word_list \<Rightarrow> nat \<Rightarrow> cstring option" where
  "string_list_pos_params ifs pchar list quoted =
     (if pchar = CHR ''*'' \<and> quoted AND Q_DOUBLE_QUOTES \<noteq> 0 then
        string_list_dollar_star ifs (word_list_remove_quoted_nulls (quote_list list))
      else if pchar = CHR ''*'' \<and> quoted AND Q_HERE_DOCUMENT \<noteq> 0 then
        string_list (word_list_remove_quoted_nulls (quote_list list))
      else if pchar = CHR ''*'' then string_list_dollar_star ifs list
      else if pchar = CHR ''@'' \<and> quoted AND (Q_HERE_DOCUMENT OR Q_DOUBLE_QUOTES) \<noteq> 0 then
        string_list_dollar_at ifs list quoted
      else if pchar = CHR ''@'' then string_list_dollar_star ifs list
      else string_list (if quoted AND (Q_HERE_DOCUMENT OR Q_DOUBLE_QUOTES) \<noteq> 0
                        then quote_list list else list))"

section \<open>What a shell reads back\<close>

text \<open>
  The specification side, from the quoting rules of POSIX: backslash, single quotes and double
  quotes outside and inside each other, and from the expansions that this shell adds. Text is
  literal only when no character of it can have a meaning to the parser or to an expansion:
  an unquoted operator, blank, pattern character, brace or \<open>!\<close> (history and reserved words) or
  \<open>^\<close> (quick substitution), an unquoted tilde at the start of the word or after an unquoted \<open>:\<close> or
  \<open>=\<close>, and an unescaped \<open>$\<close> or backquote inside double quotes give \<open>None\<close>. A comma has a meaning
  between braces only. The mode \<open>Plain t\<close> is outside quotes, with \<open>t\<close> where a tilde would be expanded.
\<close>

datatype read_mode = Plain bool | InSingle | InDouble

definition plain_special :: "char \<Rightarrow> bool" where
  "plain_special c \<longleftrightarrow> c \<in> set '' |&;<>()$*?[]{}!^'' \<or> c \<in> {CHR 0x09, NL, CHR 0x60}"

definition before_tilde :: "char \<Rightarrow> bool" where
  "before_tilde c \<longleftrightarrow> c = CHR '':'' \<or> c = CHR ''=''"

fun shell_read :: "read_mode \<Rightarrow> cstring \<Rightarrow> cstring option" where
  "shell_read m [] = (if m = InSingle \<or> m = InDouble then None else Some [])"
| "shell_read (Plain t) (c # s) =
     (if c = BSL then
        (case s of [] \<Rightarrow> None
         | d # s' \<Rightarrow> if d = NL then shell_read (Plain t) s'
                    else map_option ((#) d) (shell_read (Plain False) s'))
      else if c = SQ then shell_read InSingle s
      else if c = DQ then shell_read InDouble s
      else if plain_special c \<or> c = CHR ''~'' \<and> t then None
      else map_option ((#) c) (shell_read (Plain (before_tilde c)) s))"
| "shell_read InSingle (c # s) =
     (if c = SQ then shell_read (Plain False) s else map_option ((#) c) (shell_read InSingle s))"
| "shell_read InDouble (c # s) =
     (if c = DQ then shell_read (Plain False) s
      else if c = BSL then
        (case s of [] \<Rightarrow> None
         | d # s' \<Rightarrow>
             if d = NL then shell_read InDouble s'
             else if CBSDQUOTE d then map_option ((#) d) (shell_read InDouble s')
             else map_option ((#) BSL) (shell_read InDouble s))
      else if c = CHR ''$'' \<or> c = CHR 0x60 then None
      else map_option ((#) c) (shell_read InDouble s))"

text \<open>
  A word that starts with an unquoted \<open>#\<close> is a comment. The empty text stands for the empty value of
  an assignment.
\<close>

definition shell_word :: "cstring \<Rightarrow> cstring option" where
  "shell_word q = (if c_at q 0 = CHR ''#'' then None else shell_read (Plain True) q)"

section \<open>Round trips of shquote.c\<close>

lemma length_single_quote_body: "length (single_quote_body s) \<le> 4 * length s"
  by (induction s) auto

lemma shell_read_single: "shell_read InSingle (single_quote_body s @ SQ # q) =
    map_option ((@) s) (shell_read (Plain False) q)"
proof (induction s)
  case Nil
  then show ?case by (cases "shell_read (Plain False) q") simp_all
next
  case (Cons c s)
  then show ?case by (auto simp: option.map_comp comp_def)
qed

lemma length_double_quote_body: "length (double_quote_body s) \<le> 2 * length s"
  by (induction s) auto

lemma length_mkdq_body:
  "length (mkdq_body flags s) = length s + (if flags then count_list s DQ else 0)"
  by (induction s) auto

lemma length_un_double_quote: "length (un_double_quote_loop p s) \<le> length s"
  by (induction p s rule: un_double_quote_loop.induct) auto

lemma length_bq_for_dq_body: "length (bq_for_dq_body s) \<le> 2 * length s"
  by (induction s) auto

definition no_markers :: "cstring \<Rightarrow> bool" where
  "no_markers s \<longleftrightarrow> CTLESC \<notin> set s \<and> CTLNUL \<notin> set s"

lemma CBSDQUOTE_simps [simp]:
  "CBSDQUOTE BSL" "CBSDQUOTE DQ" "CBSDQUOTE NL" "CBSDQUOTE (CHR 0x60)" "CBSDQUOTE (CHR ''$'')"
  "\<not> CBSDQUOTE CTLESC" "\<not> CBSDQUOTE NUL"
  by (simp_all add: CBSDQUOTE_def)

lemma shell_read_double:
  "no_markers s \<Longrightarrow> shell_read InDouble (double_quote_body s @ DQ # q) =
    map_option ((@) s) (shell_read (Plain False) q)"
proof (induction s)
  case Nil
  then show ?case by (cases "shell_read (Plain False) q") simp_all
next
  case (Cons c s)
  then have "shell_read InDouble (double_quote_body s @ DQ # q) = map_option ((@) s) (shell_read (Plain False) q)"
    by (simp add: no_markers_def)
  then show ?case
    using Cons.prems
    by (auto simp: no_markers_def CBSDQUOTE_def option.map_comp comp_def)
qed

lemma un_double_quote_body:
  "no_markers s \<Longrightarrow> un_double_quote_loop False (double_quote_body s) = s"
proof (induction s)
  case Nil
  then show ?case by simp
next
  case (Cons c s)
  then have "un_double_quote_loop False (double_quote_body s) = s"
    by (simp add: no_markers_def)
  then show ?case
    using Cons.prems by (cases "c = BSL") (auto simp: no_markers_def)
qed

definition ascii :: "cstring \<Rightarrow> bool" where
  "ascii s \<longleftrightarrow> (\<forall>c\<in>set s. (of_char c :: nat) < 128)"

lemma table_entry_ascii: "(of_char c :: nat) < 128 \<Longrightarrow> table_entry tab c = Some (tab (of_char c))"
  by (simp add: table_entry_def)

lemma backslash_quote_loop_None:
  "backslash_quote_loop tab flags prev s = None \<longleftrightarrow> \<not> ascii s"
  by (induction tab flags prev s rule: backslash_quote_loop.induct)
    (auto simp: ascii_def table_entry_def bind_eq_Some_conv split: bind_splits)

lemma backslash_quote_length:
  "backslash_quote_loop tab flags prev s = Some q \<Longrightarrow> length q \<le> 2 * length s"
  by (induction tab flags prev s arbitrary: q rule: backslash_quote_loop.induct)
    (fastforce split: bind_splits if_splits)+

text \<open>Every special character, and every quote, has its entry in \<^verbatim>\<open>bstab\<close>.\<close>

lemma bstab_special:
  assumes "plain_special c \<or> c = SQ \<or> c = DQ \<or> c = BSL"
  shows "bstab (of_char c) = 1"
  using assms by (auto simp: plain_special_def bstab_def)

text \<open>The tilde is expanded at the start of the word or after one of the two separators.\<close>

definition tilde_position :: "cstring \<Rightarrow> nat \<Rightarrow> bool" where
  "tilde_position s i \<longleftrightarrow>
     i < length s \<and> s ! i = CHR ''~'' \<and> (i = 0 \<or> s ! (i - 1) = CHR '':'' \<or> s ! (i - 1) = CHR ''='')"

fun tilde_after :: "bool \<Rightarrow> cstring \<Rightarrow> bool" where
  "tilde_after t [] = False"
| "tilde_after t (c # s) = (c = CHR ''~'' \<and> t \<or> tilde_after (before_tilde c) s)"

lemma tilde_after_iff:
  "tilde_after t s \<longleftrightarrow>
   (\<exists>i<length s. s ! i = CHR ''~'' \<and> (i = 0 \<and> t \<or> 0 < i \<and> before_tilde (s ! (i - 1))))"
proof (induction s arbitrary: t)
  case Nil
  then show ?case by simp
next
  case (Cons c s)
  have "i = 0 \<and> before_tilde c \<or> 0 < i \<and> before_tilde (s ! (i - 1)) \<longleftrightarrow> before_tilde ((c # s) ! i)" for i
    by (cases i) simp_all
  then show ?case
    unfolding tilde_after.simps Cons.IH by (simp add: Ex_less_Suc2 del: nth_Cons_pos)
qed

lemma tilde_after_position: "tilde_after True s \<longleftrightarrow> (\<exists>i. tilde_position s i)"
  unfolding tilde_after_iff tilde_position_def before_tilde_def by auto

definition tilde_here :: "char option \<Rightarrow> bool" where
  "tilde_here prev \<longleftrightarrow> (case prev of None \<Rightarrow> True | Some c \<Rightarrow> before_tilde c)"

lemma tilde_here_simps [simp]: "tilde_here None" "tilde_here (Some c) = before_tilde c"
  by (simp_all add: tilde_here_def)

lemma tilde_here_iff: "tilde_here prev \<longleftrightarrow> prev = None \<or> prev = Some (CHR '':'') \<or> prev = Some (CHR ''='')"
  by (auto simp: tilde_here_def before_tilde_def split: option.splits)

lemma bstab_before_tilde: "bstab (of_char c) = 1 \<or> c = CHR ''~'' \<or> c = CHR ''#'' \<Longrightarrow> \<not> before_tilde c"
  by (auto simp: before_tilde_def bstab_def)

lemma shell_read_backslash:
  "ascii s \<Longrightarrow> NL \<notin> set s \<Longrightarrow> backslash_quote_loop bstab flags prev s = Some q \<Longrightarrow>
   shell_read (Plain (tilde_here prev)) q =
     (if flags AND 1 \<noteq> 0 \<or> \<not> tilde_after (tilde_here prev) s then Some s else None)"
proof (induction s arbitrary: prev q)
  case Nil
  then show ?case by simp
next
  case (Cons c s)
  let ?q = "bstab (of_char c) = 1 \<or> c = CHR ''#'' \<and> prev = None \<or> flags AND 1 \<noteq> 0 \<and> c = CHR ''~'' \<and> tilde_here prev"
  have e: "table_entry bstab c = Some (bstab (of_char c))"
    using Cons.prems(1) by (simp add: ascii_def table_entry_ascii)
  from Cons.prems(3) obtain rest where
    rest: "backslash_quote_loop bstab flags (Some c) s = Some rest"
    and q: "q = (if bstab (of_char c) = 1 then [BSL]
              else if c = CHR ''#'' \<and> prev = None then [BSL]
              else if flags AND 1 \<noteq> 0 \<and> c = CHR ''~'' \<and>
                      (prev = None \<or> prev = Some (CHR '':'') \<or> prev = Some (CHR ''='')) then [BSL]
              else []) @ c # rest"
    unfolding backslash_quote_loop.simps e by (cases "backslash_quote_loop bstab flags (Some c) s") simp_all
  have q: "q = (if ?q then BSL # c # rest else c # rest)"
    unfolding q tilde_here_iff by simp
  have ih: "shell_read (Plain (before_tilde c)) rest =
      (if flags AND 1 \<noteq> 0 \<or> \<not> tilde_after (before_tilde c) s then Some s else None)"
    using Cons.prems rest Cons.IH [of "Some c" rest] by (simp add: ascii_def)
  show ?case
  proof (cases ?q)
    case True
    then have bt: "\<not> before_tilde c" using bstab_before_tilde [of c] by blast
    have "shell_read (Plain (tilde_here prev)) q = map_option ((#) c) (shell_read (Plain False) rest)"
      using True q Cons.prems(2) by auto
    moreover have "flags AND 1 \<noteq> 0 \<or> \<not> (c = CHR ''~'' \<and> tilde_here prev)"
      using True by (auto simp: bstab_def)
    ultimately show ?thesis using ih bt by auto
  next
    case False
    have "\<not> plain_special c" "c \<noteq> SQ" "c \<noteq> DQ" "c \<noteq> BSL" using False bstab_special [of c] by blast+
    moreover have "q = c # rest" using False q by (simp only: if_False)
    ultimately have sr: "shell_read (Plain (tilde_here prev)) q =
        (if c = CHR ''~'' \<and> tilde_here prev then None
         else map_option ((#) c) (shell_read (Plain (before_tilde c)) rest))" by simp
    have "\<not> (c = CHR ''~'' \<and> tilde_here prev) \<or> flags AND 1 = 0" using False by blast
    then show ?thesis
      unfolding sr ih tilde_after.simps by (cases "flags AND 1 = 0") (simp_all only: simp_thms if_True if_False
          option.map if_distrib [of "map_option ((#) c)"] split: if_split, blast)
  qed
qed

lemma backslash_quote_first:
  "backslash_quote_loop bstab flags None s = Some q \<Longrightarrow> c_at q 0 \<noteq> CHR ''#''"
  by (cases s) (auto split: bind_splits if_splits)

text \<open>A string without shell metacharacters stands for itself.\<close>

lemma metas_loop_read: "\<not> metas_loop prev s \<Longrightarrow> shell_read (Plain (tilde_here prev)) s = Some s"
  by (induction prev s rule: metas_loop.induct)
    (auto simp: plain_special_def before_tilde_def tilde_here_def split: if_splits option.splits)

lemma no_metas_read: "\<not> sh_contains_shell_metas s \<Longrightarrow> shell_word s = Some s"
  using metas_loop_read [of None s]
  by (cases s) (auto simp: sh_contains_shell_metas_def shell_word_def split: if_splits)

section \<open>Internal quoting: round trips and the in-place loop\<close>

lemma dequote_loop_quoted: "dequote_loop (concat (map (\<lambda>c. [CTLESC, c]) s)) = s"
  by (induction s) auto

lemma quote_string_not_null: "QUOTED_NULL (quote_string s) \<longleftrightarrow> s = []"
  by (cases s) (auto simp: quote_string_def QUOTED_NULL_def)

lemma dequote_quote: "dequote_string (quote_string s) = s"
proof (cases s)
  case Nil
  then show ?thesis by (simp add: dequote_string_def quote_string_def QUOTED_NULL_def)
next
  case (Cons c s')
  then have "\<not> QUOTED_NULL (quote_string s)" and "CTLESC \<in> set (quote_string s)"
    by (simp_all add: quote_string_not_null) (simp add: quote_string_def)
  with Cons show ?thesis
    using dequote_loop_quoted [of s] by (simp add: dequote_string_def quote_string_def)
qed

lemma quote_string_length: "s \<noteq> [] \<Longrightarrow> length (quote_string s) = 2 * length s"
proof -
  have "length (concat (map (\<lambda>c. [CTLESC, c]) s)) = 2 * length s"
    by (induction s) simp_all
  then show "s \<noteq> [] \<Longrightarrow> length (quote_string s) = 2 * length s"
    by (simp add: quote_string_def)
qed

lemma dequote_escapes_loop_quoted:
  assumes "CTLESC \<notin> (case ifs of None \<Rightarrow> {} | Some v \<Rightarrow> set v)"
  shows "dequote_escapes_loop (ifs = Some []) (quote_escapes ifs s) = s"
proof -
  let ?m = "\<lambda>c. c = CTLESC \<or> (c = CTLNUL \<and> \<not> (\<exists>v. ifs = Some v \<and> CTLNUL \<in> set v)) \<or>
      (ifs = Some [] \<and> c = CHR '' '')"
  have q: "quote_escapes ifs s = concat (map (\<lambda>c. if ?m c then [CTLESC, c] else [c]) s)" for s
    using assms unfolding quote_escapes_def Let_def
    by (intro arg_cong [where f = concat] map_cong) (auto split: option.splits)
  show ?thesis
    unfolding q by (induction s) auto
qed

lemma dequote_escapes_noop: "CTLESC \<notin> set s \<Longrightarrow> dequote_escapes_loop b s = s"
  by (induction s) auto

fun strip_nulls :: "cstring \<Rightarrow> cstring" where
  "strip_nulls [] = []"
| "strip_nulls (c # s) =
     (if c = CTLESC then (case s of [] \<Rightarrow> [CTLESC] | d # s' \<Rightarrow> CTLESC # d # strip_nulls s')
      else if c = CTLNUL then strip_nulls s
      else c # strip_nulls s)"

lemma strip_nulls_noop: "CTLNUL \<notin> set s \<Longrightarrow> strip_nulls s = s"
  by (induction s rule: strip_nulls.induct) (auto split: list.splits)

lemma remove_nulls_loop_strip:
  "length string = slen \<Longrightarrow> j \<le> i \<Longrightarrow> i \<le> slen \<Longrightarrow>
   remove_nulls_loop string slen i j = take j string @ strip_nulls (drop i string)"
proof (induction string slen i j rule: remove_nulls_loop.induct)
  case (1 string slen i j)
  show ?case
  proof (cases "i < slen")
    case False
    then show ?thesis
      using "1.prems" by (simp add: remove_nulls_loop.simps [of string])
  next
    case i: True
    have d: "drop i string = string ! i # drop (Suc i) string"
      using i "1.prems"(1) by (simp add: Cons_nth_drop_Suc)
    show ?thesis
    proof (cases "string ! i = CTLESC")
      case esc: True
      show ?thesis
      proof (cases "i + 1 = slen")
        case True
        then show ?thesis
          using i esc d "1.prems"
          by (simp add: remove_nulls_loop.simps [of string] Let_def take_Suc_conv_app_nth)
      next
        case False
        then have i1: "Suc i < slen" using i by simp
        have d1: "drop (Suc i) string = string ! Suc i # drop (Suc (Suc i)) string"
          using i1 "1.prems"(1) by (simp add: Cons_nth_drop_Suc)
        show ?thesis
        proof (cases "j < i")
          case True
          then show ?thesis
            using "1.IH"(1) [OF i esc refl refl refl] i i1 esc d d1 False "1.prems"
            by (simp add: remove_nulls_loop.simps [of string] Let_def take_Suc_conv_app_nth)
        next
          case False
          then have "j = i" using "1.prems"(2) by simp
          then show ?thesis
            using "1.IH"(2) [OF i esc refl refl refl] i i1 esc d d1 "1.prems"
              list_update_id [of string i]
            by (simp add: remove_nulls_loop.simps [of string] Let_def take_Suc_conv_app_nth)
        qed
      qed
    next
      case False
      show ?thesis
      proof (cases "string ! i = CTLNUL")
        case True
        then show ?thesis
          using "1.IH"(3) i d "1.prems" by (simp add: remove_nulls_loop.simps [of string])
      next
        case nul: False
        show ?thesis
        proof (cases "j < i")
          case True
          then show ?thesis
            using "1.IH"(4) i False nul d "1.prems"
            by (simp add: remove_nulls_loop.simps [of string] take_Suc_conv_app_nth)
        next
          case ji: False
          then have "j = i" using "1.prems"(2) by simp
          then show ?thesis
            using "1.IH"(5) i False nul d "1.prems"
            by (simp add: remove_nulls_loop.simps [of string] take_Suc_conv_app_nth)
        qed
      qed
    qed
  qed
qed

lemma remove_quoted_nulls_strip: "remove_quoted_nulls s = strip_nulls s"
  by (simp add: remove_quoted_nulls_def remove_nulls_loop_strip strip_nulls_noop)

lemma join_words_intercalate:
  "join_words False sep ws = concat (map (\<lambda>w. sep @ word w) ws)"
  by (induction ws) auto

section \<open>Quoted text reads back\<close>

lemma single_quote_read: "\<exists>q. sh_single_quote s = Some q \<and> shell_word q = Some s"
proof (cases "s = [SQ]")
  case True
  then show ?thesis
    by (simp add: sh_single_quote_def fill_buffer_def shell_word_def)
next
  case False
  then have "sh_single_quote s = Some (SQ # single_quote_body s @ [SQ])"
    using length_single_quote_body [of s] by (simp add: sh_single_quote_def fill_buffer_def)
  then show ?thesis
    by (simp add: shell_word_def shell_read_single)
qed

lemma double_quote_read:
  assumes "no_markers s"
  shows "\<exists>b. sh_double_quote s = Some (DQ # b @ [DQ]) \<and>
    shell_word (DQ # b @ [DQ]) = Some s \<and> sh_un_double_quote b = Some s"
proof -
  have len: "length s \<le> length (double_quote_body s)" by (induction s) auto
  have "sh_double_quote s = Some (DQ # double_quote_body s @ [DQ])"
    using length_double_quote_body [of s] by (simp add: sh_double_quote_def fill_buffer_def)
  then show ?thesis
    using assms len
    by (simp add: shell_word_def shell_read_double sh_un_double_quote_def un_double_quote_body
        fill_buffer_def)
qed

lemma dequote_escapes_inverse:
  assumes "CTLESC \<notin> (case ifs of None \<Rightarrow> {} | Some v \<Rightarrow> set v)"
  shows "dequote_escapes ifs (quote_escapes ifs s) = s"
  using dequote_escapes_loop_quoted [OF assms, of s]
    dequote_escapes_noop [of "quote_escapes ifs s" "ifs = Some []"]
  by (auto simp: dequote_escapes_def)

section \<open>Properties\<close>

text \<open>
  C23. \<^verbatim>\<open>sh_single_quote\<close> never leaves its buffer of \<open>3 + 4 * strlen\<close> bytes, and the shell reads its
  output back as the original string, whatever characters the string has.
\<close>

theorem single_quote_roundtrip:
  "\<exists>q. sh_single_quote s = Some q \<and> shell_word q = Some s"
  by (rule single_quote_read)


text \<open>
  C25. \<^verbatim>\<open>sh_backslash_quote\<close> with its own table: on a string of ASCII characters it stays inside
  its buffer and, when the string has no newline (which the shell would take for a line
  continuation), every operator, blank, pattern character, brace, history and comment character of
  it is protected: the output is read back as the string when \<open>flags\<close> is odd, and for an even
  \<open>flags\<close> exactly when the string has no tilde at its start or after \<open>:\<close> or \<open>=\<close>. On any other string
  it indexes the table with a negative \<^verbatim>\<open>char\<close>.
\<close>

theorem backslash_quote_roundtrip:
  assumes "NL \<notin> set s"
  shows "if ascii s
    then \<exists>q. sh_backslash_quote s None flags = Some q \<and>
      shell_word q = (if flags AND 1 \<noteq> 0 \<or> (\<nexists>i. tilde_position s i) then Some s else None)
    else sh_backslash_quote s None flags = None"
proof (cases "backslash_quote_loop bstab flags None s")
  case None
  then show ?thesis
    using backslash_quote_loop_None [of bstab flags None s] by (simp add: sh_backslash_quote_def)
next
  case (Some q)
  have "sh_backslash_quote s None flags = Some q"
    using Some backslash_quote_length [OF Some]
    by (simp add: sh_backslash_quote_def fill_buffer_def)
  then show ?thesis
    using shell_read_backslash [OF _ assms Some] backslash_quote_first [OF Some] Some
      backslash_quote_loop_None [of bstab flags None s] tilde_after_position [of s]
    by (simp add: shell_word_def)
qed

theorem backslash_quote_roundtrip_witness:
  "(\<exists>q. sh_backslash_quote ''a{b}!$#'' None 0 = Some q \<and> shell_word q = Some ''a{b}!$#'') \<and>
   (\<exists>q. sh_backslash_quote ''~root'' None 0 = Some q \<and> shell_word q = None) \<and>
   (\<exists>q. sh_backslash_quote ''~root'' None 1 = Some q \<and> shell_word q = Some ''~root'')"
proof -
  have "\<nexists>i. tilde_position ''a{b}!$#'' i" "\<exists>i. tilde_position ''~root'' i"
    unfolding tilde_after_position [symmetric] by (simp_all add: before_tilde_def)
  then show ?thesis
    using backslash_quote_roundtrip [of "''a{b}!$#''" 0] backslash_quote_roundtrip [of "''~root''" 0]
      backslash_quote_roundtrip [of "''~root''" 1]
    by (simp add: ascii_def)
qed

text \<open>
  C26. \<^verbatim>\<open>sh_mkdoublequoted\<close> with \<open>flags\<close> set allocates \<open>2 * slen + 1\<close> bytes but writes two quotes and a
  terminator around the text: it leaves its buffer exactly when the number of double quotes in
  the text reaches the length less one (an empty or one-character string, or all quotes but one).
  Without \<open>flags\<close> it never does.
\<close>

theorem mkdoublequoted_overflow:
  "(sh_mkdoublequoted s (length s) flags = None) =
   (flags \<noteq> 0 \<and> length s \<le> Suc (count_list s DQ))"
  by (auto simp: sh_mkdoublequoted_def fill_buffer_def length_mkdq_body)

text \<open>
  \<^verbatim>\<open>dequote_string\<close> is a left inverse of \<^verbatim>\<open>quote_string\<close> on every string, the empty one (kept
  as a lone CTLNUL) and strings that hold markers included; on a word list, \<^verbatim>\<open>dequote_list\<close>
  restores every word of a list quoted by \<^verbatim>\<open>quote_list\<close>.
\<close>

theorem dequote_quote_list:
  "dequote_string (quote_string s) = s \<and>
   map word (dequote_list (quote_list ws)) = map word ws"
  by (simp add: dequote_quote quote_list_def dequote_list_def)

text \<open>
  \<^verbatim>\<open>dequote_escapes\<close> inverts \<^verbatim>\<open>quote_escapes\<close> under the same IFS exactly when IFS does not
  contain CTLESC; when it does, the string of two CTLESC characters is not restored.
\<close>

theorem dequote_quote_escapes:
  "(\<forall>s. dequote_escapes ifs (quote_escapes ifs s) = s) =
   (CTLESC \<notin> (case ifs of None \<Rightarrow> {} | Some v \<Rightarrow> set v))"
proof (cases "CTLESC \<in> (case ifs of None \<Rightarrow> {} | Some v \<Rightarrow> set v)")
  case True
  then obtain v where v: "ifs = Some v" "CTLESC \<in> set v"
    by (auto split: option.splits)
  then have "dequote_escapes ifs (quote_escapes ifs [CTLESC, CTLESC]) \<noteq> [CTLESC, CTLESC]"
    by (auto simp: quote_escapes_def dequote_escapes_def Let_def)
  with True show ?thesis by blast
next
  case False
  have "dequote_escapes ifs (quote_escapes ifs s) = s" for s
    by (rule dequote_escapes_inverse [OF False])
  with False show ?thesis by simp
qed

text \<open>
  The in-place loop of \<^verbatim>\<open>remove_quoted_nulls\<close>, with its two indices into one buffer, computes
  the string without its unprotected CTLNUL characters: a CTLESC keeps the character after it.
\<close>

theorem remove_quoted_nulls_correct: "remove_quoted_nulls s = strip_nulls s"
  by (rule remove_quoted_nulls_strip)

end
