(* ===== verification/Assoc_Array.thy ===== *)
theory Assoc_Array
  imports Hash_Table Shell_Quote Interfaces
begin

text \<open>
  Associative arrays, \<^verbatim>\<open>assoc.c\<close>: hash tables whose data are strings, \<open>None\<close> for a NULL data
  pointer. A routine that passes a NULL data pointer on to code that dereferences it has
  the result \<open>None\<close>; a NULL pointer it returns is an inner \<open>None\<close>. The pattern routines
  \<^verbatim>\<open>pat_subst\<close> and \<^verbatim>\<open>sh_modcase\<close> are arguments: they are called on one string at a time.
\<close>

type_synonym assoc = "cstring hash_table"

section \<open>Element operations\<close>

definition assoc_flush :: "assoc option \<Rightarrow> assoc option" where
  "assoc_flush hash = hash_flush hash"

definition assoc_insert ::
  "assoc option \<Rightarrow> cstring \<Rightarrow> cstring option \<Rightarrow> int \<times> assoc option" where
  "assoc_insert hash key value =
     (case hash_search key hash HASH_CREATE of
        (None, hash') \<Rightarrow> (-1, hash')
      | (Some r, hash') \<Rightarrow> (0, map_option (update_item (\<lambda>b. b\<lparr>bc_data := value\<rparr>) r) hash'))"

text \<open>\<^verbatim>\<open>assoc_replace\<close> hands the old data back instead of freeing it.\<close>

definition assoc_replace ::
  "assoc option \<Rightarrow> cstring \<Rightarrow> cstring option \<Rightarrow> cstring option \<times> assoc option" where
  "assoc_replace hash key value =
     (case hash_search key hash HASH_CREATE of
        (None, hash') \<Rightarrow> (None, hash')
      | (Some r, hash') \<Rightarrow>
          (Option.bind hash' (\<lambda>t. bc_data (item_at t r)),
           map_option (update_item (\<lambda>b. b\<lparr>bc_data := value\<rparr>) r) hash'))"

definition assoc_remove :: "assoc option \<Rightarrow> cstring \<Rightarrow> assoc option" where
  "assoc_remove hash string = snd (hash_remove string hash 0)"

definition assoc_reference :: "assoc option \<Rightarrow> cstring \<Rightarrow> cstring option \<times> assoc option" where
  "assoc_reference hash string =
     (case hash of
        None \<Rightarrow> (None, None)
      | Some _ \<Rightarrow>
          (case hash_search string hash 0 of
             (None, hash') \<Rightarrow> (None, hash')
           | (Some r, hash') \<Rightarrow> (Option.bind hash' (\<lambda>t. bc_data (item_at t r)), hash')))"

section \<open>Passes over all the data\<close>

fun apply_chain ::
  "(cstring \<Rightarrow> cstring) \<Rightarrow> cstring bucket_contents list \<Rightarrow> cstring bucket_contents list option" where
  "apply_chain f [] = Some []"
| "apply_chain f (b # bs) =
     do {
       d \<leftarrow> bc_data b;
       bs' \<leftarrow> apply_chain f bs;
       Some (b\<lparr>bc_data := Some (f d)\<rparr> # bs')
     }"

fun apply_buckets ::
  "(cstring \<Rightarrow> cstring) \<Rightarrow> cstring bucket_contents list list \<Rightarrow>
   cstring bucket_contents list list option" where
  "apply_buckets f [] = Some []"
| "apply_buckets f (c # cs) =
     do { c' \<leftarrow> apply_chain f c; cs' \<leftarrow> apply_buckets f cs; Some (c' # cs') }"

definition apply_data :: "(cstring \<Rightarrow> cstring) \<Rightarrow> assoc option \<Rightarrow> assoc option option" where
  "apply_data f h =
     (case h of
        None \<Rightarrow> Some None
      | Some t \<Rightarrow>
          if nentries t = 0 then Some None
          else do { ba \<leftarrow> apply_buckets f (bucket_array t); Some (Some (t\<lparr>bucket_array := ba\<rparr>)) })"

definition assoc_quote :: "assoc option \<Rightarrow> assoc option option" where
  "assoc_quote h = apply_data quote_string h"

definition assoc_quote_escapes :: "ifs_state \<Rightarrow> assoc option \<Rightarrow> assoc option option" where
  "assoc_quote_escapes ifs h = apply_data (quote_escapes (Some (ifs_value ifs))) h"

definition assoc_dequote :: "assoc option \<Rightarrow> assoc option option" where
  "assoc_dequote h = apply_data dequote_string h"

definition assoc_dequote_escapes :: "ifs_state \<Rightarrow> assoc option \<Rightarrow> assoc option option" where
  "assoc_dequote_escapes ifs h = apply_data (dequote_escapes (Some (ifs_value ifs))) h"

definition assoc_remove_quoted_nulls :: "assoc option \<Rightarrow> assoc option option" where
  "assoc_remove_quoted_nulls h = apply_data remove_quoted_nulls h"

section \<open>Conversions\<close>

definition make_bare_word :: "cstring \<Rightarrow> word_desc" where
  "make_bare_word string = \<lparr>word = string, wflags = 0\<rparr>"

text \<open>The entries in the order of the two nested loops over \<^verbatim>\<open>hash_items (i, h)\<close>.\<close>

definition items_in_order :: "assoc \<Rightarrow> cstring bucket_contents list" where
  "items_in_order h = concat (map (\<lambda>i. hash_items i (Some h)) [0..<nbuckets h])"

fun item_words ::
  "bool \<Rightarrow> cstring bucket_contents list \<Rightarrow> word_list \<Rightarrow> word_list option" where
  "item_words keys [] list = Some list"
| "item_words keys (b # bs) list =
     do {
       w \<leftarrow> (if keys then Some (bc_key b) else bc_data b);
       item_words keys bs (make_bare_word w # list)
     }"

definition assoc_to_word_list_internal :: "assoc option \<Rightarrow> nat \<Rightarrow> word_list option" where
  "assoc_to_word_list_internal h t =
     (case h of
        None \<Rightarrow> Some []
      | Some h' \<Rightarrow>
          if nentries h' = 0 then Some []
          else map_option rev (item_words (t \<noteq> 0) (items_in_order h') []))"

definition assoc_to_word_list :: "assoc option \<Rightarrow> word_list option" where
  "assoc_to_word_list h = assoc_to_word_list_internal h 0"

definition assoc_keys_to_word_list :: "assoc option \<Rightarrow> word_list option" where
  "assoc_keys_to_word_list h = assoc_to_word_list_internal h 1"

fun string_words ::
  "bool \<Rightarrow> cstring bucket_contents list \<Rightarrow> word_list \<Rightarrow> word_list" where
  "string_words quoted [] list = list"
| "string_words quoted (b # bs) list =
     (case bc_data b of
        None \<Rightarrow> string_words quoted bs list
      | Some w \<Rightarrow>
          string_words quoted bs (make_bare_word (if quoted then quote_string w else w) # list))"

definition assoc_to_string :: "assoc option \<Rightarrow> cstring \<Rightarrow> bool \<Rightarrow> cstring option" where
  "assoc_to_string h sep quoted =
     (case h of
        None \<Rightarrow> None
      | Some t \<Rightarrow>
          if nentries t = 0 then Some []
          else
            let l = rev (string_words quoted (items_in_order t) [])
            in if l = [] then Some [] else string_list_internal l sep)"

text \<open>One \<open>[key]="value" \<close> of \<^verbatim>\<open>assoc_to_assign\<close>.\<close>

definition assign_key :: "cstring \<Rightarrow> cstring option" where
  "assign_key key = (if sh_contains_shell_metas key then sh_double_quote key else Some key)"

definition assign_value :: "cstring option \<Rightarrow> cstring option" where
  "assign_value data = (case data of None \<Rightarrow> Some [] | Some d \<Rightarrow> sh_double_quote d)"

fun assign_items :: "cstring bucket_contents list \<Rightarrow> cstring \<Rightarrow> cstring option" where
  "assign_items [] ret = Some ret"
| "assign_items (b # bs) ret =
     do {
       istr \<leftarrow> assign_key (bc_key b);
       vstr \<leftarrow> assign_value (bc_data b);
       assign_items bs (ret @ ''['' @ istr @ '']='' @ vstr @ '' '')
     }"

definition assoc_to_assign :: "assoc option \<Rightarrow> bool \<Rightarrow> cstring option option" where
  "assoc_to_assign hash quoted =
     (case hash of
        None \<Rightarrow> Some None
      | Some t \<Rightarrow>
          if nentries t = 0 then Some None
          else
            do {
              ret \<leftarrow> assign_items (items_in_order t) ''('';
              let ret = ret @ '')'';
              out \<leftarrow> (if quoted then sh_single_quote ret else Some ret);
              Some (Some out)
            })"

section \<open>Slices and substitutions\<close>

text \<open>\<open>for (i = 1; l && i < start; i++) l = l->next\<close>.\<close>

fun skip_words :: "int \<Rightarrow> int \<Rightarrow> 'w list \<Rightarrow> 'w list" where
  "skip_words i start [] = []"
| "skip_words i start (w # l) = (if i < start then skip_words (i + 1) start l else w # l)"

text \<open>
  \<open>for (j = 0, h = t = l; l && j < nelem; j++) { t = l; l = l->next; }\<close>, then the list is cut
  after \<open>t\<close>: the number of list cells up to and with \<open>t\<close>.
\<close>

fun cut_length :: "int \<Rightarrow> int \<Rightarrow> 'w list \<Rightarrow> nat" where
  "cut_length j nelem [] = 0"
| "cut_length j nelem (w # l) = (if j < nelem then Suc (cut_length (j + 1) nelem l) else 0)"

definition assoc_subrange ::
  "ifs_state \<Rightarrow> assoc \<Rightarrow> int \<Rightarrow> int \<Rightarrow> bool \<Rightarrow> nat \<Rightarrow> cstring option option" where
  "assoc_subrange ifs hash start nelem starsub quoted =
     (if nentries hash = 0 then Some None
      else
        do {
          save \<leftarrow> assoc_to_word_list (Some hash);
          let l = skip_words 1 start save;
          if l = [] then Some None
          else
            let h = take (max 1 (cut_length 0 nelem l)) l
            in Some (string_list_pos_params ifs (if starsub then CHR ''*'' else CHR ''@'') h quoted)
        })"

definition MATCH_QUOTED :: nat where "MATCH_QUOTED = 0x020"
definition MATCH_STARSUB :: nat where "MATCH_STARSUB = 0x040"

text \<open>
  The common body of \<^verbatim>\<open>assoc_patsub\<close> and \<^verbatim>\<open>assoc_modcase\<close>, from the copied table on.
  \<^verbatim>\<open>sifs\<close> is overwritten with a blank when IFS is null.
\<close>

fun subst_chain ::
  "(cstring option \<Rightarrow> cstring option) \<Rightarrow> cstring bucket_contents list \<Rightarrow>
   cstring bucket_contents list" where
  "subst_chain f [] = []"
| "subst_chain f (b # bs) = b\<lparr>bc_data := f (bc_data b)\<rparr> # subst_chain f bs"

definition assoc_subst ::
  "ifs_state \<Rightarrow> (cstring option \<Rightarrow> cstring option) \<Rightarrow> assoc option \<Rightarrow> nat \<Rightarrow> cstring option option" where
  "assoc_subst ifs f h mflags =
     (if h = None \<or> HASH_ENTRIES h = 0 then Some None
      else
        do {
          let h2 = map_option (\<lambda>t. t\<lparr>bucket_array := map (subst_chain f) (bucket_array t)\<rparr>)
                     (hash_copy h id);
          h3 \<leftarrow> (if mflags AND MATCH_QUOTED \<noteq> 0 then assoc_quote h2 else assoc_quote_escapes ifs h2);
          if mflags AND MATCH_STARSUB \<noteq> 0 then
            do {
              h4 \<leftarrow> assoc_remove_quoted_nulls h3;
              Some (assoc_to_string h4 (fst (ifs_firstchar ifs)) False)
            }
          else if mflags AND MATCH_QUOTED \<noteq> 0 then
            Some (assoc_to_string h3
              (if getifs ifs = [] then '' '' else fst (ifs_firstchar ifs)) False)
          else Some (assoc_to_string h3 '' '' False)
        })"

definition assoc_patsub ::
  "(cstring option \<Rightarrow> cstring \<Rightarrow> cstring option \<Rightarrow> nat \<Rightarrow> cstring option) \<Rightarrow> ifs_state \<Rightarrow>
   assoc option \<Rightarrow> cstring \<Rightarrow> cstring option \<Rightarrow> nat \<Rightarrow> cstring option option" where
  "assoc_patsub pat_subst ifs h pat rep mflags =
     assoc_subst ifs (\<lambda>d. pat_subst d pat rep mflags) h mflags"

definition assoc_modcase ::
  "(cstring option \<Rightarrow> cstring \<Rightarrow> nat \<Rightarrow> cstring option) \<Rightarrow> ifs_state \<Rightarrow>
   assoc option \<Rightarrow> cstring \<Rightarrow> nat \<Rightarrow> nat \<Rightarrow> cstring option option" where
  "assoc_modcase sh_modcase ifs h pat modop mflags =
     assoc_subst ifs (\<lambda>d. sh_modcase d pat modop) h mflags"

section \<open>Element operations: contract\<close>

lemma assoc_insert_spec:
  assumes inv: "hash_inv t"
  obtains t' where "assoc_insert (Some t) k v = (0, Some t')" "hash_inv t'"
    "hash_lookup t' = (hash_lookup t)(k \<mapsto> v)"
proof -
  obtain r t1 where s: "hash_search k (Some t) HASH_CREATE = (Some r, Some t1)" "hash_inv t1"
    "refers t1 r k" "(hash_lookup t1)(k \<mapsto> v) = (hash_lookup t)(k \<mapsto> v)"
  proof (cases "hash_lookup t k")
    case None
    then show thesis
      using hash_search_create [OF inv None, of HASH_CREATE] that
      by (metis HASH_CREATE_def fun_upd_upd and.idem zero_neq_numeral)
  next
    case (Some d)
    then show thesis
      using hash_search_hit [OF inv Some, of HASH_CREATE] that by metis
  qed
  let ?f = "\<lambda>b :: cstring bucket_contents. b\<lparr>bc_data := v\<rparr>"
  have "bc_key (?f (item_at t1 r)) = k" "khash (?f (item_at t1 r)) = khash (item_at t1 r)"
    using s(3) by (simp_all add: refers_def)
  note u = update_item [OF s(2,3), of ?f, OF this]
  show thesis
  proof (rule that [of "update_item ?f r t1"])
    show "assoc_insert (Some t) k v = (0, Some (update_item ?f r t1))"
      using s(1) by (simp add: assoc_insert_def)
    show "hash_lookup (update_item ?f r t1) = (hash_lookup t)(k \<mapsto> v)"
      using u(2) s(4) by simp
  qed (rule u(1))
qed

lemma assoc_replace_spec:
  assumes inv: "hash_inv t"
  shows "fst (assoc_replace (Some t) k v) = Option.bind (hash_lookup t k) id \<and>
    snd (assoc_replace (Some t) k v) = snd (assoc_insert (Some t) k v)"
proof (cases "hash_lookup t k")
  case None
  obtain r t' where "hash_search k (Some t) HASH_CREATE = (Some r, Some t')"
    "bc_data (item_at t' r) = None"
    using hash_search_create [OF inv None, of HASH_CREATE] by (metis HASH_CREATE_def and.idem zero_neq_numeral)
  with None show ?thesis by (simp add: assoc_replace_def assoc_insert_def)
next
  case (Some d)
  obtain r t' where "hash_search k (Some t) HASH_CREATE = (Some r, Some t')"
    "bc_data (item_at t' r) = d"
    using hash_search_hit [OF inv Some, of HASH_CREATE] by metis
  with Some show ?thesis by (simp add: assoc_replace_def assoc_insert_def)
qed

lemma assoc_remove_spec:
  assumes inv: "hash_inv t"
  obtains t' where "assoc_remove (Some t) k = Some t'" "hash_inv t'"
    "hash_lookup t' = (hash_lookup t)(k := None)"
proof (cases "hash_lookup t k")
  case None
  then show thesis
    using hash_remove_miss [OF inv None, of 0] inv
    by (intro that [of t]) (simp_all add: assoc_remove_def fun_upd_idem)
next
  case (Some d)
  then show thesis
    using hash_remove_hit [OF inv Some, of 0] that unfolding assoc_remove_def by (metis snd_conv)
qed

lemma assoc_reference_spec:
  assumes inv: "hash_inv t"
  obtains t' where "assoc_reference (Some t) k = (Option.bind (hash_lookup t k) id, Some t')"
    "hash_inv t'" "hash_lookup t' = hash_lookup t"
proof (cases "hash_lookup t k")
  case None
  then show thesis
    using hash_search_miss [OF inv None, of 0] inv
    by (intro that [of t]) (simp_all add: assoc_reference_def)
next
  case (Some d)
  obtain r t' where "hash_search k (Some t) 0 = (Some r, Some t')" "hash_inv t'"
    "hash_lookup t' = hash_lookup t" "bc_data (item_at t' r) = d"
    using hash_search_hit [OF inv Some, of 0] by metis
  then show thesis
    using Some by (intro that [of t']) (simp_all add: assoc_reference_def)
qed

definition assoc_put :: "cstring \<Rightarrow> cstring option \<Rightarrow> assoc \<Rightarrow> assoc" where
  "assoc_put k v t = the (snd (assoc_insert (Some t) k v))"

definition assoc_del :: "cstring \<Rightarrow> assoc \<Rightarrow> assoc" where
  "assoc_del k t = the (assoc_remove (Some t) k)"

lemma assoc_put:
  assumes "hash_inv t"
  shows "hash_inv (assoc_put k v t) \<and> hash_lookup (assoc_put k v t) = (hash_lookup t)(k \<mapsto> v)"
  using assoc_insert_spec [OF assms, of k v] by (metis assoc_put_def option.sel snd_conv)

lemma assoc_del:
  assumes "hash_inv t"
  shows "hash_inv (assoc_del k t) \<and> hash_lookup (assoc_del k t) = (hash_lookup t)(k := None)"
  using assoc_remove_spec [OF assms, of k] by (metis assoc_del_def option.sel)

interpretation assoc_store: counted_store hash_inv "\<lambda>_. True" hash_lookup assoc_put assoc_del nentries
  by unfold_locales (simp_all add: assoc_put assoc_del finite_hash_lookup nentries_card)

section \<open>Passes, word lists and text\<close>

definition no_null_data :: "assoc \<Rightarrow> bool" where
  "no_null_data t \<longleftrightarrow> (\<forall>b\<in>set (all_items t). bc_data b \<noteq> None)"

lemma apply_chain_eq:
  "\<forall>b\<in>set bs. bc_data b \<noteq> None \<Longrightarrow>
   apply_chain f bs = Some (map (\<lambda>b. b\<lparr>bc_data := map_option f (bc_data b)\<rparr>) bs)"
  by (induction bs) auto

lemma apply_buckets_eq:
  "\<forall>b\<in>set (concat cs). bc_data b \<noteq> None \<Longrightarrow>
   apply_buckets f cs = Some (map (map (\<lambda>b. b\<lparr>bc_data := map_option f (bc_data b)\<rparr>)) cs)"
  by (induction cs) (auto simp: apply_chain_eq)

lemma apply_data_eq:
  "no_null_data t \<Longrightarrow> nentries t \<noteq> 0 \<Longrightarrow>
   apply_data f (Some t) = Some (Some (map_table_data (map_option f) t))"
  unfolding no_null_data_def all_items_def
  by (simp add: apply_data_def apply_buckets_eq map_table_data_def)

lemma no_null_map_table_data: "no_null_data t \<Longrightarrow> no_null_data (map_table_data (map_option f) t)"
  by (simp add: no_null_data_def all_items_map_table_data)

lemma map_table_data_id:
  assumes "\<And>b. b \<in> set (all_items t) \<Longrightarrow> f (bc_data b) = bc_data b"
  shows "map_table_data f t = t"
proof -
  have "map (map (\<lambda>b. b\<lparr>bc_data := f (bc_data b)\<rparr>)) (bucket_array t) = bucket_array t"
    using assms by (intro map_idI) (fastforce simp: all_items_def intro: map_idI)
  then show ?thesis by (simp add: map_table_data_def)
qed

lemma map_table_data_comp:
  "map_table_data f (map_table_data g t) = map_table_data (f \<circ> g) t"
  by (simp add: map_table_data_def comp_def)

lemma apply_data_inverse:
  assumes "no_null_data t" "nentries t \<noteq> 0" "\<And>s. g (f s) = s"
  shows "Option.bind (apply_data f (Some t)) (apply_data g) = Some (Some t)"
proof -
  have "map_table_data (map_option g \<circ> map_option f) t = t"
    using assms(3) by (intro map_table_data_id) (simp add: option.map_comp comp_def option.map_ident)
  then show ?thesis
    using assms by (simp add: apply_data_eq no_null_map_table_data map_table_data_comp)
qed

lemma items_in_order: "hash_inv t \<Longrightarrow> items_in_order t = all_items t"
  by (simp add: items_in_order_def hash_items_all)

lemma item_words_data:
  "\<forall>b\<in>set bs. bc_data b \<noteq> None \<Longrightarrow> item_words False bs l =
   Some (rev (map (\<lambda>b. make_bare_word (the (bc_data b))) bs) @ l)"
  by (induction bs arbitrary: l) auto

lemma item_words_keys:
  "item_words True bs l = Some (rev (map (\<lambda>b. make_bare_word (bc_key b)) bs) @ l)"
  by (induction bs arbitrary: l) auto

lemma to_word_list_eq:
  assumes "hash_inv t" "no_null_data t"
  shows "assoc_to_word_list (Some t) =
    Some (map (\<lambda>b. make_bare_word (the (bc_data b))) (all_items t))"
  using assms item_words_data [of "all_items t" "[]"] hash_invD(3) [OF assms(1)]
  by (simp add: assoc_to_word_list_def assoc_to_word_list_internal_def items_in_order no_null_data_def)

lemma keys_to_word_list_eq:
  assumes "hash_inv t"
  shows "assoc_keys_to_word_list (Some t) =
    Some (map (\<lambda>b. make_bare_word (bc_key b)) (all_items t))"
  using assms item_words_keys [of "all_items t" "[]"] hash_invD(3) [OF assms(1)]
  by (simp add: assoc_keys_to_word_list_def assoc_to_word_list_internal_def items_in_order)

lemma word_make_bare_word [simp]: "word (make_bare_word s) = s"
  by (simp add: make_bare_word_def)

text \<open>The text \<open>[key]="value" \<close> of an entry: both parts read back as the key and the value.\<close>

definition assign_text :: "cstring bucket_contents \<Rightarrow> cstring \<Rightarrow> bool" where
  "assign_text b piece \<longleftrightarrow>
     (\<exists>ks vs. piece = ''['' @ ks @ '']='' @ vs @ '' '' \<and> shell_word ks = Some (bc_key b) \<and>
              shell_word vs = Some (case bc_data b of None \<Rightarrow> [] | Some d \<Rightarrow> d))"

definition plain_entry :: "cstring bucket_contents \<Rightarrow> bool" where
  "plain_entry b \<longleftrightarrow> no_markers (bc_key b) \<and> (\<forall>d. bc_data b = Some d \<longrightarrow> no_markers d)"

lemma assign_key_read:
  assumes "no_markers k"
  obtains ks where "assign_key k = Some ks" "shell_word ks = Some k"
proof (cases "sh_contains_shell_metas k")
  case True
  then show thesis using double_quote_read [OF assms] that by (auto simp: assign_key_def)
next
  case False
  then show thesis using no_metas_read [of k] by (intro that [of k]) (simp_all add: assign_key_def)
qed

lemma assign_value_read:
  assumes "\<And>d. data = Some d \<Longrightarrow> no_markers d"
  obtains vs where "assign_value data = Some vs"
    "shell_word vs = Some (case data of None \<Rightarrow> [] | Some d \<Rightarrow> d)"
proof (cases data)
  case None
  then show thesis by (intro that [of "[]"]) (simp_all add: assign_value_def shell_word_def)
next
  case (Some d)
  then show thesis
    using double_quote_read [OF assms [OF Some]] that by (auto simp: assign_value_def)
qed

lemma assign_items_read:
  "\<forall>b\<in>set bs. plain_entry b \<Longrightarrow>
   \<exists>pieces. assign_items bs ret = Some (ret @ concat pieces) \<and> list_all2 assign_text bs pieces"
proof (induction bs arbitrary: ret)
  case Nil
  then show ?case by simp
next
  case (Cons b bs)
  then have b: "no_markers (bc_key b)" "\<And>d. bc_data b = Some d \<Longrightarrow> no_markers d"
    by (simp_all add: plain_entry_def)
  obtain ks where ks: "assign_key (bc_key b) = Some ks" "shell_word ks = Some (bc_key b)"
    using assign_key_read [OF b(1)] .
  obtain vs where vs: "assign_value (bc_data b) = Some vs"
    "shell_word vs = Some (case bc_data b of None \<Rightarrow> [] | Some d \<Rightarrow> d)"
    using assign_value_read [OF b(2)] .
  define piece where "piece = ''['' @ ks @ '']='' @ vs @ '' ''"
  obtain pieces where pieces: "assign_items bs (ret @ piece) = Some ((ret @ piece) @ concat pieces)"
    "list_all2 assign_text bs pieces"
    using Cons.IH [of "ret @ piece"] Cons.prems by auto
  have "assign_text b piece"
    using ks(2) vs(2) unfolding assign_text_def piece_def by blast
  then have "assign_items (b # bs) ret = Some (ret @ concat (piece # pieces)) \<and>
      list_all2 assign_text (b # bs) (piece # pieces)"
    using ks(1) vs(1) pieces by (simp add: piece_def)
  then show ?case by blast
qed

lemma skip_words_drop: "skip_words i start l = drop (nat (start - i)) l"
proof (induction i start l rule: skip_words.induct)
  case (2 i start w l)
  then show ?case
    by (cases "i < start") (simp_all add: drop_Cons' nat_diff_distrib' diff_diff_add [symmetric])
qed simp

lemma cut_length_take: "take (cut_length j nelem l) l = take (nat (nelem - j)) l"
proof (induction j nelem l rule: cut_length.induct)
  case (2 j nelem w l)
  then show ?case
    by (cases "j < nelem") (simp_all add: take_Cons' nat_diff_distrib' diff_diff_add [symmetric])
qed simp

section \<open>Properties\<close>

text \<open>An assignment or a removal, as the expansion of \<open>A[k]=v\<close> and \<open>unset A[k]\<close> performs it.\<close>

primrec assoc_step :: "(cstring, cstring option) store_op \<Rightarrow> assoc \<Rightarrow> assoc" where
  "assoc_step (Put k v) t = assoc_put k v t"
| "assoc_step (Del k) t = assoc_del k t"

primrec assoc_run :: "(cstring, cstring option) store_op list \<Rightarrow> assoc \<Rightarrow> assoc" where
  "assoc_run [] t = t"
| "assoc_run (x # xs) t = assoc_run xs (assoc_step x t)"

lemma assoc_step_store: "assoc_step x t = assoc_store.apply_op x t"
  by (cases x) simp_all

lemma assoc_run_store: "assoc_run xs t = assoc_store.run xs t"
  by (induction xs arbitrary: t) (simp_all add: assoc_step_store)

text \<open>
  C15. Any history of \<^verbatim>\<open>assoc_insert\<close> and \<^verbatim>\<open>assoc_remove\<close> on a fresh table of any size keeps the
  table well formed and makes \<^verbatim>\<open>assoc_reference\<close> answer as the partial map the history
  describes; \<^verbatim>\<open>nentries\<close> is the size of that map.
\<close>

theorem assoc_history_refines_map:
  fixes ops :: "(cstring, cstring option) store_op list"
  assumes "n < 2 ^ 31"
  defines "t \<equiv> assoc_run ops (hash_create n)"
  shows "hash_inv t \<and> nentries t = card (dom (map_ops ops Map.empty)) \<and>
    (\<forall>k. fst (assoc_reference (Some t) k) = Option.bind (map_ops ops Map.empty k) id)"
proof -
  have inv: "hash_inv (hash_create n :: assoc)" by (rule hash_create_inv [OF assms(1)])
  have run: "hash_inv t \<and> hash_lookup t = map_ops ops Map.empty"
    using assoc_store.run_refines [OF inv, of ops] hash_create_lookup [where 'a = cstring, of n]
    unfolding t_def assoc_run_store by simp
  moreover have "nentries t = card (dom (map_ops ops Map.empty))"
    using assoc_store.count_run [OF inv, of ops] hash_create_lookup [where 'a = cstring, of n]
    unfolding t_def assoc_run_store by simp
  ultimately show ?thesis
    using assoc_reference_spec [of t] by (metis fst_conv)
qed

theorem assoc_history_refines_map_witness:
  "fst (assoc_reference (Some (assoc_run [Put ''a'' (Some ''1''), Put ''b'' (Some ''2''),
      Put ''a'' (Some ''3''), Del ''b''] (hash_create 8))) ''a'') = Some ''3''"
  using assoc_history_refines_map [of 8 "[Put ''a'' (Some ''1''), Put ''b'' (Some ''2''),
      Put ''a'' (Some ''3''), Del ''b'']"] by simp

text \<open>
  \<^verbatim>\<open>assoc_dequote\<close> undoes \<^verbatim>\<open>assoc_quote\<close> on every table without NULL data: keys, data, chain
  order and counters are the same again. The same holds for the pair that quotes escapes,
  when IFS does not contain CTLESC.
\<close>

theorem assoc_dequote_quote:
  assumes "no_null_data t" and "nentries t \<noteq> 0"
  shows "Option.bind (assoc_quote (Some t)) assoc_dequote = Some (Some t) \<and>
    (CTLESC \<in> set (ifs_value ifs) \<or>
     Option.bind (assoc_quote_escapes ifs (Some t)) (assoc_dequote_escapes ifs) = Some (Some t))"
proof -
  have "dequote_escapes (Some (ifs_value ifs)) (quote_escapes (Some (ifs_value ifs)) s) = s"
    if "CTLESC \<notin> set (ifs_value ifs)" for s
    using that dequote_escapes_inverse [of "Some (ifs_value ifs)" s] by simp
  then have "CTLESC \<in> set (ifs_value ifs) \<or>
     Option.bind (assoc_quote_escapes ifs (Some t)) (assoc_dequote_escapes ifs) = Some (Some t)"
    unfolding assoc_quote_escapes_def assoc_dequote_escapes_def [abs_def]
    using apply_data_inverse [OF assms] by metis
  moreover have "Option.bind (assoc_quote (Some t)) assoc_dequote = Some (Some t)"
    unfolding assoc_quote_def assoc_dequote_def [abs_def]
    using assms by (rule apply_data_inverse) (rule dequote_quote)
  ultimately show ?thesis by blast
qed

theorem assoc_dequote_quote_witness:
  "Option.bind (assoc_quote (Some (assoc_run [Put ''k'' (Some ''v w'')] (hash_create 2)))) assoc_dequote
   = Some (Some (assoc_run [Put ''k'' (Some ''v w'')] (hash_create 2)))"
proof -
  let ?t = "assoc_run [Put ''k'' (Some ''v w'')] (hash_create 2)"
  have "no_null_data ?t" "nentries ?t \<noteq> 0" by code_simp+
  from assoc_dequote_quote [OF this] show ?thesis by blast
qed

text \<open>
  C27. \<^verbatim>\<open>assoc_to_assign\<close>: for keys and values without internal markers the result is a
  parenthesised sequence of \<open>[key]=value\<close> texts, one for each entry in table order, whose
  key and value parts the shell reads back as the key and the value of the entry; with
  \<open>quoted\<close> the whole text is single-quoted so that it reads back as that text.
\<close>

theorem assoc_to_assign_reads_back:
  assumes "hash_inv t" and "nentries t \<noteq> 0" and "\<forall>b\<in>set (all_items t). plain_entry b"
  shows "\<exists>pieces. list_all2 assign_text (all_items t) pieces \<and>
    assoc_to_assign (Some t) False = Some (Some (''('' @ concat pieces @ '')'')) \<and>
    (\<exists>q. assoc_to_assign (Some t) True = Some (Some q) \<and>
         shell_word q = Some (''('' @ concat pieces @ '')''))"
proof -
  obtain pieces where p: "assign_items (all_items t) ''('' = Some (''('' @ concat pieces)"
    "list_all2 assign_text (all_items t) pieces"
    using assign_items_read [OF assms(3)] by blast
  obtain q where "sh_single_quote (''('' @ concat pieces @ '')'') = Some q"
    "shell_word q = Some (''('' @ concat pieces @ '')'')"
    using single_quote_read by blast
  then show ?thesis
    using p assms(2) by (auto simp: assoc_to_assign_def items_in_order [OF assms(1)])
qed

theorem assoc_to_assign_reads_back_witness:
  "\<exists>pieces. list_all2 assign_text (all_items (assoc_run [Put ''k'' (Some ''v w'')] (hash_create 2))) pieces"
proof -
  let ?t = "assoc_run [Put ''k'' (Some ''v w'')] (hash_create 2)"
  have "hash_inv ?t"
    by (simp add: assoc_put hash_create_inv)
  moreover have "nentries ?t \<noteq> 0" by code_simp
  moreover have "all_items ?t = [\<lparr>bc_key = ''k'', bc_data = Some ''v w'',
      khash = hash_string ''k'', times_found = 0\<rparr>]" by code_simp
  then have "\<forall>b\<in>set (all_items ?t). plain_entry b"
    by (simp add: plain_entry_def no_markers_def)
  ultimately show ?thesis using assoc_to_assign_reads_back by blast
qed

text \<open>
  \<^verbatim>\<open>assoc_subrange\<close> from \<open>start\<close> on: \<open>nelem\<close> of the values in table order, joined as the
  positional parameters are; no result when \<open>start\<close> is past the last entry. A length of 0 is
  treated as a length of 1: \<open>${A[@]:1:0}\<close> yields an element.
\<close>

theorem assoc_subrange_spec:
  assumes "hash_inv t" and "no_null_data t"
  shows "assoc_subrange ifs t start nelem starsub quoted =
    (let values = map (\<lambda>b. make_bare_word (the (bc_data b))) (all_items t);
         rest = drop (nat (start - 1)) values
     in if rest = [] then Some None
        else Some (string_list_pos_params ifs (if starsub then CHR ''*'' else CHR ''@'')
               (take (nat (max 1 nelem)) rest) quoted))"
proof -
  have cut: "take (max (Suc 0) (cut_length 0 nelem l)) l = take (nat (max 1 nelem)) l"
    if "l \<noteq> []" for l :: word_list
  proof (cases "nelem \<le> 0")
    case True
    have "cut_length 0 nelem l = 0" using True by (cases l) simp_all
    then show ?thesis using True by simp
  next
    case False
    then have "Suc 0 \<le> cut_length 0 nelem l" using that by (cases l) simp_all
    then show ?thesis using False cut_length_take [of 0 nelem l] by (simp add: max_def)
  qed
  show ?thesis
    using to_word_list_eq [OF assms] hash_invD(3) [OF assms(1)]
    by (simp add: assoc_subrange_def skip_words_drop Let_def cut)
qed

theorem assoc_subrange_spec_witness:
  "\<exists>s. assoc_subrange (setifs None) (assoc_run [Put ''k'' (Some ''v w'')] (hash_create 2)) 1 0 False 0
     = Some (Some s) \<and> s = ''v w''"
proof -
  let ?t = "assoc_run [Put ''k'' (Some ''v w'')] (hash_create 2)"
  have inv: "hash_inv ?t" by (simp add: assoc_put hash_create_inv)
  have nn: "no_null_data ?t" by code_simp
  have items: "all_items ?t = [\<lparr>bc_key = ''k'', bc_data = Some ''v w'',
      khash = hash_string ''k'', times_found = 0\<rparr>]" by code_simp
  show ?thesis
    using assoc_subrange_spec [OF inv nn, of "setifs None" 1 0 False 0]
    unfolding items
    by (simp add: string_list_pos_params_def string_list_dollar_star_def string_list_internal_def)
qed

text \<open>
  The word lists of the values and of the keys are in step: paired up they are the map of
  the table, each key once.
\<close>

theorem assoc_word_lists:
  assumes "hash_inv t" and "no_null_data t"
  shows "\<exists>ks vs. assoc_keys_to_word_list (Some t) = Some ks \<and> assoc_to_word_list (Some t) = Some vs \<and>
    distinct (map word ks) \<and> length ks = nentries t \<and>
    map_of (zip (map word ks) (map (Some \<circ> word) vs)) = hash_lookup t"
proof -
  let ?b = "all_items t"
  have "map_of (zip (map bc_key ?b) (map (\<lambda>b. Some (the (bc_data b))) ?b)) =
      map_of (map (\<lambda>b. (bc_key b, bc_data b)) ?b)"
    using assms(2) unfolding no_null_data_def
    by (intro arg_cong [where f = map_of]) (simp add: zip_map1 zip_map2 zip_same_conv_map)
  then show ?thesis
    using to_word_list_eq [OF assms] keys_to_word_list_eq [OF assms(1)] distinct_keys [OF assms(1)]
      hash_invD(3) [OF assms(1)]
    by (simp add: comp_def hash_lookup_def)
qed

theorem assoc_word_lists_witness:
  "\<exists>ks vs. assoc_keys_to_word_list (Some (assoc_run [Put ''k'' (Some ''v w'')] (hash_create 2))) = Some ks \<and>
     assoc_to_word_list (Some (assoc_run [Put ''k'' (Some ''v w'')] (hash_create 2))) = Some vs"
proof -
  let ?t = "assoc_run [Put ''k'' (Some ''v w'')] (hash_create 2)"
  have inv: "hash_inv ?t" by (simp add: assoc_put hash_create_inv)
  have nn: "no_null_data ?t" by code_simp
  from assoc_word_lists [OF inv nn] show ?thesis by blast
qed

end
