(* ===== verification/Number_Text.thy ===== *)
theory Number_Text
  imports Bash_Prelude
begin

text \<open>
  Numbers and their text: \<^verbatim>\<open>fmtulong\<close> of \<^verbatim>\<open>lib/sh/fmtulong.c\<close> (compiled as \<^verbatim>\<open>fmtumax\<close> for
  \<^verbatim>\<open>intmax_t\<close>), the \<^verbatim>\<open>itos\<close> family on top of it, and \<^verbatim>\<open>legal_number\<close> of \<^verbatim>\<open>general.c\<close> with
  the \<open>strtoimax\<close> of the C library for base 10. An \<^verbatim>\<open>uintmax_t\<close> is a \<open>nat\<close> below \<open>2 ^ 64\<close>.
\<close>

section \<open>Printing (fmtulong.c)\<close>

definition TOCHAR :: "nat \<Rightarrow> char" where
  "TOCHAR x = char_of (x + 48)"

definition FMTCHAR :: "nat \<Rightarrow> char" where
  "FMTCHAR x =
     (if x < 10 then char_of (x + 48)
      else if x < 36 then char_of (x - 10 + 97)
      else if x < 62 then char_of (x - 36 + 65)
      else if x = 62 then CHR ''@'' else CHR ''_'')"

definition x_digs :: "nat \<Rightarrow> char" where
  "x_digs x = ''0123456789abcdef'' ! x"

definition X_digs :: "nat \<Rightarrow> char" where
  "X_digs x = ''0123456789ABCDEF'' ! x"

definition FL_PREFIX :: nat where "FL_PREFIX = 0x01"
definition FL_ADDBASE :: nat where "FL_ADDBASE = 0x02"
definition FL_HEXUPPER :: nat where "FL_HEXUPPER = 0x04"
definition FL_UNSIGNED :: nat where "FL_UNSIGNED = 0x08"

text \<open>\<open>do *p-- = dig (ui % base); while (ui /= base);\<close> writes downwards, in front of \<open>acc\<close>.\<close>

function div_digits :: "(nat \<Rightarrow> char) \<Rightarrow> nat \<Rightarrow> nat \<Rightarrow> cstring \<Rightarrow> cstring" where
  "div_digits dig base ui acc =
     (let acc' = dig (ui mod base) # acc
      in if base < 2 \<or> ui div base = 0 then acc' else div_digits dig base (ui div base) acc')"
  by pat_completeness auto
termination
  by (relation "measure (\<lambda>(d, b, ui, a). ui)") (auto simp: div_eq_0_iff not_less)

declare div_digits.simps [simp del]

text \<open>\<open>do *p-- = dig (ui & mask); while (ui >>= k);\<close>.\<close>

function shift_digits :: "(nat \<Rightarrow> char) \<Rightarrow> nat \<Rightarrow> nat \<Rightarrow> cstring \<Rightarrow> cstring" where
  "shift_digits dig k ui acc =
     (let acc' = dig (ui AND mask k) # acc
      in if k = 0 \<or> drop_bit k ui = 0 then acc' else shift_digits dig k (drop_bit k ui) acc')"
  by pat_completeness auto
termination
proof (relation "measure (\<lambda>(d, k, ui, a). ui)", goal_cases)
  case (2 dig k ui acc acc')
  then have "1 < (2::nat) ^ k" and "0 < ui"
    using one_less_power [of "2::nat" k] by (auto simp: drop_bit_eq_div intro: gr0I)
  then show ?case by (simp add: drop_bit_eq_div)
qed simp

declare shift_digits.simps [simp del]

definition decimal_digits :: "nat \<Rightarrow> cstring" where
  "decimal_digits ui =
     (if ui < 10 then [TOCHAR ui]
      else if 2 ^ 63 \<le> ui then div_digits TOCHAR 10 (ui div 10) [TOCHAR (ui mod 10)]
      else div_digits TOCHAR 10 ui [])"

definition fmt_digits :: "nat \<Rightarrow> nat \<Rightarrow> nat \<Rightarrow> cstring" where
  "fmt_digits ui base flags =
     (if base = 10 then decimal_digits ui
      else if base = 8 then shift_digits TOCHAR 3 ui []
      else if base = 16 then shift_digits (if flags AND FL_HEXUPPER \<noteq> 0 then X_digs else x_digs) 4 ui []
      else if base = 2 then shift_digits TOCHAR 1 ui []
      else div_digits FMTCHAR base ui [])"

definition fmt_prefix :: "nat \<Rightarrow> nat \<Rightarrow> cstring \<Rightarrow> cstring" where
  "fmt_prefix base flags p =
     (if flags AND FL_PREFIX \<noteq> 0 \<and> (base = 8 \<or> base = 16) then
        (if base = 16 then [CHR ''0'', if flags AND FL_HEXUPPER \<noteq> 0 then CHR ''X'' else CHR ''x''] @ p
         else if c_at p 0 \<noteq> CHR ''0'' then CHR ''0'' # p else p)
      else if flags AND FL_ADDBASE \<noteq> 0 \<and> base \<noteq> 10 then
        (if 10 < base then [TOCHAR (base div 10)] else []) @ [TOCHAR (base mod 10), CHR ''#''] @ p
      else p)"

text \<open>
  The digits are written into the last bytes of \<open>buf\<close>, which has \<open>len\<close> of them. An invalid
  base gives the message instead.
\<close>

definition fmtulong :: "nat \<Rightarrow> nat \<Rightarrow> nat \<Rightarrow> nat \<Rightarrow> cstring option" where
  "fmtulong ui base0 len flags =
     (let base = (if base0 = 0 then 10 else base0)
      in if base < 2 \<or> 64 < base then Some (take (len - 1) ''invalid base'')
         else
           let sign = (flags AND FL_UNSIGNED = 0 \<and> 2 ^ 63 \<le> ui);
               ui1 = (if sign then (2 ^ 64 - ui) mod 2 ^ 64 else ui);
               p = fmt_prefix base flags (fmt_digits ui1 base flags)
           in fill_buffer len ((if sign then ''-'' else []) @ p))"

text \<open>\<^verbatim>\<open>INT_STRLEN_BOUND (intmax_t) + 1\<close>, and for \<^verbatim>\<open>uintmax_t\<close>.\<close>

definition INTMAX_STRLEN :: nat where
  "INTMAX_STRLEN = 63 * 302 div 1000 + 1 + 1 + 1"

definition UINTMAX_STRLEN :: nat where
  "UINTMAX_STRLEN = 64 * 302 div 1000 + 1 + 1"

definition to_uintmax :: "int \<Rightarrow> nat" where
  "to_uintmax i = nat (i mod 2 ^ 64)"

definition inttostr :: "int \<Rightarrow> nat \<Rightarrow> cstring option" where
  "inttostr i len = fmtulong (to_uintmax i) 10 len 0"

definition itos_buf :: "int \<Rightarrow> cstring option" where
  "itos_buf i = fmtulong (to_uintmax i) 10 INTMAX_STRLEN 0"

definition uinttostr :: "nat \<Rightarrow> nat \<Rightarrow> cstring option" where
  "uinttostr i len = fmtulong i 10 len FL_UNSIGNED"

definition uitos :: "nat \<Rightarrow> cstring option" where
  "uitos i = fmtulong i 10 UINTMAX_STRLEN FL_UNSIGNED"

text \<open>The string of \<^verbatim>\<open>itos\<close>; that its buffer is large enough is \<open>itos_buf_eq\<close> below.\<close>

definition itos :: "int \<Rightarrow> cstring" where
  "itos i = the (itos_buf i)"

section \<open>Reading (general.c)\<close>

definition is_space :: "char \<Rightarrow> bool" where
  "is_space c \<longleftrightarrow> c \<in> {CHR '' '', CHR 0x09, CHR 0x0A, CHR 0x0B, CHR 0x0C, CHR 0x0D}"

definition digit_value :: "char \<Rightarrow> nat" where
  "digit_value c = of_char c - 48"

fun decimal_value :: "nat \<Rightarrow> cstring \<Rightarrow> nat" where
  "decimal_value n [] = n"
| "decimal_value n (c # s) = decimal_value (10 * n + digit_value c) s"

text \<open>
  \<open>strtoimax (string, &ep, 10)\<close> of the C library: the value, \<open>ep\<close> as the rest of the string
  (\<open>None\<close> when it is the whole string because no digit was found), and whether \<open>errno\<close> was set.
\<close>

definition strtoimax :: "cstring \<Rightarrow> int \<times> cstring option \<times> bool" where
  "strtoimax string =
     (let s = dropWhile is_space string;
          neg = (c_at s 0 = CHR ''-'');
          s1 = (if c_at s 0 = CHR ''-'' \<or> c_at s 0 = CHR ''+'' then tl s else s);
          ds = takeWhile is_digit s1;
          v = (if neg then - int (decimal_value 0 ds) else int (decimal_value 0 ds))
      in if ds = [] then (0, None, False)
         else if v < INTMAX_MIN then (INTMAX_MIN, Some (dropWhile is_digit s1), True)
         else if INTMAX_MAX < v then (INTMAX_MAX, Some (dropWhile is_digit s1), True)
         else (v, Some (dropWhile is_digit s1), False))"

text \<open>The result 1 with \<^verbatim>\<open>*result\<close> is \<open>Some\<close>; a NULL string is \<open>None\<close>.\<close>

definition legal_number :: "cstring option \<Rightarrow> int option" where
  "legal_number string =
     (case string of
        None \<Rightarrow> None
      | Some s \<Rightarrow>
          (case strtoimax s of
             (v, None, errno) \<Rightarrow> None
           | (v, Some ep, errno) \<Rightarrow>
               if errno then None
               else if s \<noteq> [] \<and> dropWhile whitespace ep = [] then Some v else None))"

section \<open>Digits\<close>

lemma of_char_TOCHAR: "d < 10 \<Longrightarrow> (of_char (TOCHAR d) :: nat) = d + 48"
  by (simp add: TOCHAR_def)

lemma TOCHAR_digit: "d < 10 \<Longrightarrow> is_digit (TOCHAR d) \<and> digit_value (TOCHAR d) = d"
  by (simp add: is_digit_def digit_value_def of_char_TOCHAR)

text \<open>The value of a digit string in a base, for a reading \<open>val\<close> of the digits.\<close>

definition digits_value :: "(char \<Rightarrow> nat) \<Rightarrow> nat \<Rightarrow> cstring \<Rightarrow> nat" where
  "digits_value val base s = fold (\<lambda>c n. base * n + val c) s 0"

lemma digits_value_append:
  "fold (\<lambda>c n. base * n + val c) s n = base ^ length s * n + digits_value val base s"
proof (induction s arbitrary: n)
  case Nil
  then show ?case by (simp add: digits_value_def)
next
  case (Cons c s)
  have "fold (\<lambda>c n. base * n + val c) (c # s) n = base ^ length s * (base * n + val c) + digits_value val base s"
    using Cons.IH [of "base * n + val c"] by simp
  moreover have "digits_value val base (c # s) = base ^ length s * val c + digits_value val base s"
    using Cons.IH [of "val c"] by (simp add: digits_value_def)
  ultimately show ?case by (simp add: algebra_simps)
qed

lemma digits_value_Cons:
  "digits_value val base (c # s) = base ^ length s * val c + digits_value val base s"
  using digits_value_append [of base val s "val c"] by (simp add: digits_value_def)

lemma div_digits_value:
  assumes "\<And>d. d < base \<Longrightarrow> val (dig d) = d" and "2 \<le> base"
  shows "digits_value val base (div_digits dig base ui acc) =
    base ^ length acc * ui + digits_value val base acc"
proof (induction ui arbitrary: acc rule: less_induct)
  case (less ui)
  let ?acc = "dig (ui mod base) # acc"
  have v: "digits_value val base ?acc = base ^ length acc * (ui mod base) + digits_value val base acc"
    using assms by (simp add: digits_value_Cons)
  have dm: "base * (ui div base) + ui mod base = ui" by simp
  show ?case
  proof (cases "ui div base = 0")
    case True
    then have "ui mod base = ui" using dm by simp
    then show ?thesis using True v by (subst div_digits.simps) (simp add: Let_def)
  next
    case False
    then have "ui div base < ui" using assms(2) by (intro div_less_dividend) (auto intro: gr0I)
    have "base ^ length acc * ui = base ^ length acc * (base * (ui div base) + ui mod base)"
      by (simp only: dm)
    then have "digits_value val base (div_digits dig base (ui div base) ?acc) =
        base ^ length acc * ui + digits_value val base acc"
      using v less.IH [OF \<open>ui div base < ui\<close>, of ?acc] by (simp only: distrib_left) simp
    then show ?thesis using False assms(2) by (subst div_digits.simps) (simp add: Let_def)
  qed
qed

lemma shift_digits_div: "0 < k \<Longrightarrow> shift_digits dig k ui acc = div_digits dig (2 ^ k) ui acc"
proof (induction ui arbitrary: acc rule: less_induct)
  case (less ui)
  have b: "\<not> (2::nat) ^ k < 2" using less.prems by (cases k) auto
  have m: "ui AND mask k = ui mod 2 ^ k"
    by (simp only: take_bit_eq_mask [symmetric] take_bit_eq_mod)
  show ?case
  proof (cases "ui div 2 ^ k = 0")
    case True
    then show ?thesis
      by (subst shift_digits.simps, subst div_digits.simps) (simp add: Let_def m drop_bit_eq_div)
  next
    case False
    then have "ui div 2 ^ k < ui" using b by (intro div_less_dividend) (auto intro: gr0I)
    then show ?thesis
      using False b less.IH [of "ui div 2 ^ k"] less.prems
      by (subst shift_digits.simps, subst div_digits.simps) (simp add: Let_def m drop_bit_eq_div)
  qed
qed

lemma decimal_digits_div: "decimal_digits ui = div_digits TOCHAR 10 ui []"
proof -
  have "div_digits TOCHAR 10 ui [] = [TOCHAR ui]" if "ui < 10"
    using that by (subst div_digits.simps) (simp add: Let_def)
  moreover have "div_digits TOCHAR 10 ui [] = div_digits TOCHAR 10 (ui div 10) [TOCHAR (ui mod 10)]"
    if "10 \<le> ui"
    using that by (subst div_digits.simps) (simp add: Let_def div_eq_0_iff)
  ultimately show ?thesis by (auto simp: decimal_digits_def)
qed

lemma div_digits_set:
  assumes "\<And>d. d < base \<Longrightarrow> P (dig d)" and "2 \<le> base" and "\<forall>c\<in>set acc. P c"
  shows "(\<forall>c\<in>set (div_digits dig base ui acc). P c) \<and> div_digits dig base ui acc \<noteq> []"
  using assms(3)
proof (induction ui arbitrary: acc rule: less_induct)
  case (less ui)
  have acc: "\<forall>c\<in>set (dig (ui mod base) # acc). P c"
    using less.prems assms(1,2) by simp
  show ?case
  proof (cases "ui div base = 0")
    case True
    then show ?thesis using acc by (subst (1 2) div_digits.simps) (simp add: Let_def)
  next
    case False
    then have "ui div base < ui" using assms(2) by (intro div_less_dividend) (auto intro: gr0I)
    then show ?thesis
      using less.IH [OF _ acc] False assms(2) by (subst (1 2) div_digits.simps) (simp add: Let_def)
  qed
qed

lemma div_digits_length:
  "2 \<le> base \<Longrightarrow> ui < base ^ n \<Longrightarrow> 0 < n \<Longrightarrow> length (div_digits dig base ui acc) \<le> n + length acc"
proof (induction n arbitrary: ui acc)
  case 0
  then show ?case by simp
next
  case (Suc n)
  show ?case
  proof (cases "ui div base = 0")
    case True
    then show ?thesis by (subst div_digits.simps) (simp add: Let_def)
  next
    case False
    have "ui div base < base ^ n"
      using Suc.prems by (simp add: div_less_iff_less_mult mult.commute)
    moreover have "0 < n" using False Suc.prems(1,2) by (cases n) (auto simp: div_eq_0_iff)
    ultimately show ?thesis
      using Suc.IH [of "ui div base" "dig (ui mod base) # acc"] Suc.prems(1) False
      by (subst div_digits.simps) (simp add: Let_def)
  qed
qed

section \<open>Printed numbers read back\<close>

definition fmt_value :: "char \<Rightarrow> nat" where
  "fmt_value c =
     (if is_digit c then of_char c - 48
      else if is_lower c then of_char c - 97 + 10
      else if is_upper c then of_char c - 65 + 36
      else if c = CHR ''@'' then 62 else 63)"

lemma nat_less_cases_64: "d < 64 \<Longrightarrow> d \<in> set [0..<64]" for d :: nat
  by simp

lemma fmt_value_FMTCHAR: "d < 64 \<Longrightarrow> fmt_value (FMTCHAR d) = d"
  by (auto simp: FMTCHAR_def fmt_value_def is_digit_def is_lower_def is_upper_def)

lemma fmt_value_TOCHAR: "d < 10 \<Longrightarrow> fmt_value (TOCHAR d) = d"
  by (simp add: fmt_value_def is_digit_def of_char_TOCHAR)

lemma x_digs_FMTCHAR: "d < 16 \<Longrightarrow> x_digs d = FMTCHAR d"
proof -
  assume "d < 16"
  then have "d = 0 \<or> d = 1 \<or> d = 2 \<or> d = 3 \<or> d = 4 \<or> d = 5 \<or> d = 6 \<or> d = 7 \<or> d = 8 \<or>
      d = 9 \<or> d = 10 \<or> d = 11 \<or> d = 12 \<or> d = 13 \<or> d = 14 \<or> d = 15" by presburger
  then show ?thesis by (elim disjE) (simp_all add: x_digs_def FMTCHAR_def char_of_def bit_0)
qed

lemma fmt_digits_value:
  assumes "2 \<le> base" and "base \<le> 64" and "flags AND FL_HEXUPPER = 0"
  shows "digits_value fmt_value base (fmt_digits ui base flags) = ui"
proof -
  have main: "digits_value fmt_value base (div_digits dig base ui []) = ui"
    if "\<And>d. d < base \<Longrightarrow> fmt_value (dig d) = d" for dig
    using div_digits_value [OF that assms(1), of ui "[]"] by (simp add: digits_value_def)
  consider "base = 10" | "base = 8" | "base = 16" | "base = 2" | "base \<notin> {10, 8, 16, 2}" by blast
  then show ?thesis
  proof cases
    case 1
    then show ?thesis
      using main [of TOCHAR] by (simp add: fmt_digits_def decimal_digits_div fmt_value_TOCHAR)
  next
    case 2
    then show ?thesis
      using main [of TOCHAR] shift_digits_div [of 3 TOCHAR ui "[]"] by (simp add: fmt_digits_def fmt_value_TOCHAR)
  next
    case 3
    then show ?thesis
      using main [of x_digs] shift_digits_div [of 4 x_digs ui "[]"] assms(3)
      by (simp add: fmt_digits_def x_digs_FMTCHAR fmt_value_FMTCHAR)
  next
    case 4
    then show ?thesis
      using main [of TOCHAR] shift_digits_div [of 1 TOCHAR ui "[]"] by (simp add: fmt_digits_def fmt_value_TOCHAR)
  next
    case 5
    then show ?thesis
      using main [of FMTCHAR] assms(2) by (simp add: fmt_digits_def fmt_value_FMTCHAR)
  qed
qed

lemma fmt_digits_div:
  assumes "2 \<le> base" and "base \<le> 64" and "flags AND FL_HEXUPPER = 0"
  shows "\<exists>dig. (\<forall>d<base. dig d = FMTCHAR d) \<and> fmt_digits ui base flags = div_digits dig base ui []"
proof -
  have dec: "TOCHAR d = FMTCHAR d" if "d < 10" for d using that by (simp add: TOCHAR_def FMTCHAR_def)
  consider "base = 10" | "base = 8" | "base = 16" | "base = 2" | "base \<notin> {10, 8, 16, 2}" by blast
  then show ?thesis
  proof cases
    case 1
    then show ?thesis by (intro exI [of _ TOCHAR]) (simp add: fmt_digits_def decimal_digits_div dec)
  next
    case 2
    then show ?thesis
      using shift_digits_div [of 3 TOCHAR ui "[]"] by (intro exI [of _ TOCHAR]) (simp add: fmt_digits_def dec)
  next
    case 3
    then show ?thesis
      using shift_digits_div [of 4 x_digs ui "[]"] assms(3)
      by (intro exI [of _ x_digs]) (simp add: fmt_digits_def x_digs_FMTCHAR)
  next
    case 4
    then show ?thesis
      using shift_digits_div [of 1 TOCHAR ui "[]"] by (intro exI [of _ TOCHAR]) (simp add: fmt_digits_def dec)
  next
    case 5
    then show ?thesis by (intro exI [of _ FMTCHAR]) (simp add: fmt_digits_def)
  qed
qed

lemma fmt_digits_set:
  assumes "2 \<le> base" and "base \<le> 64" and "flags AND FL_HEXUPPER = 0"
  shows "(\<forall>c\<in>set (fmt_digits ui base flags). \<exists>d<base. c = FMTCHAR d) \<and> fmt_digits ui base flags \<noteq> []"
proof -
  obtain dig where dig: "\<forall>d<base. dig d = FMTCHAR d" "fmt_digits ui base flags = div_digits dig base ui []"
    using fmt_digits_div [OF assms] by blast
  have "\<exists>e<base. dig d = FMTCHAR e" if "d < base" for d using dig(1) that by auto
  then show ?thesis
    unfolding dig(2) using div_digits_set [where P = "\<lambda>c. \<exists>d<base. c = FMTCHAR d", OF _ assms(1), of dig "[]"] by auto
qed

lemma fmt_digits_length:
  assumes "2 \<le> base" and "ui < 2 ^ 64"
  shows "length (fmt_digits ui base flags) \<le> 64"
proof -
  have ui: "ui < base ^ 64" if "2 \<le> base" for base :: nat
    using assms(2) power_mono [OF that, of 64] by (meson le0 less_le_trans)
  have main: "length (div_digits dig base ui []) \<le> 64" if "2 \<le> base" for dig and base :: nat
    using div_digits_length [OF that ui [OF that], of dig "[]"] by simp
  have "length (shift_digits dig k ui []) \<le> 64" if "0 < k" for dig k
    using main [of "2 ^ k" dig] that self_le_power [of "2::nat" k] shift_digits_div [OF that, of dig ui "[]"]
    by simp
  then show ?thesis
    using main [OF assms(1)] main [of 10] by (simp add: fmt_digits_def decimal_digits_div)
qed

lemma decimal_value_fold: "decimal_value n s = fold (\<lambda>c n. 10 * n + digit_value c) s n"
  by (induction s arbitrary: n) simp_all

lemma decimal_digits_facts:
  "decimal_value 0 (decimal_digits ui) = ui \<and> (\<forall>c\<in>set (decimal_digits ui). is_digit c) \<and>
   decimal_digits ui \<noteq> []"
  using div_digits_value [of 10 digit_value TOCHAR ui "[]"] TOCHAR_digit
    div_digits_set [of 10 is_digit TOCHAR "[]" ui]
  by (simp add: decimal_value_fold decimal_digits_div digits_value_def)

lemma decimal_digits_length: "ui \<le> 2 ^ 63 \<Longrightarrow> length (decimal_digits ui) \<le> 19"
  using div_digits_length [of 10 ui 19 TOCHAR "[]"] by (simp add: decimal_digits_div)

lemma itos_buf_eq:
  assumes "intmax_ok i"
  shows "itos_buf i = Some ((if i < 0 then ''-'' else []) @ decimal_digits (nat \<bar>i\<bar>))"
proof -
  have b: "- (2 ^ 63) \<le> i" "i < 2 ^ 63"
    using assms by (simp_all add: intmax_ok_def int_limits)
  have len: "length (decimal_digits (nat \<bar>i\<bar>)) \<le> 19"
    using b by (intro decimal_digits_length) (simp add: nat_le_iff)
  show ?thesis
  proof (cases "i < 0")
    case False
    then have u: "to_uintmax i = nat i" using b by (simp add: to_uintmax_def)
    moreover have "nat i < 2 ^ 63" using b False by simp
    ultimately show ?thesis
      using False len
      by (simp add: itos_buf_def fmtulong_def fmt_digits_def fmt_prefix_def fill_buffer_def
          INTMAX_STRLEN_def FL_PREFIX_def FL_ADDBASE_def)
  next
    case True
    have "i mod 2 ^ 64 = i + 2 ^ 64"
      using b True mod_pos_pos_trivial [of "i + 2 ^ 64" "2 ^ 64"] by simp
    then have u: "to_uintmax i = nat (i + 2 ^ 64)" by (simp add: to_uintmax_def)
    have "2 ^ 63 \<le> nat (i + 2 ^ 64)" using b True by (simp add: nat_le_iff le_nat_iff)
    moreover have "(2 ^ 64 - nat (i + 2 ^ 64)) mod 2 ^ 64 = nat \<bar>i\<bar>"
    proof -
      have "int (2 ^ 64 - nat (i + 2 ^ 64)) = - i"
        using b True by (simp add: of_nat_diff nat_le_iff)
      then have "2 ^ 64 - nat (i + 2 ^ 64) = nat (- i)" by linarith
      then show ?thesis using b True by simp
    qed
    ultimately show ?thesis
      using True len u
      by (simp add: itos_buf_def fmtulong_def fmt_digits_def fmt_prefix_def fill_buffer_def
          INTMAX_STRLEN_def FL_PREFIX_def FL_ADDBASE_def Let_def)
  qed
qed

lemma itos_eq: "intmax_ok i \<Longrightarrow> itos i = (if i < 0 then ''-'' else []) @ decimal_digits (nat \<bar>i\<bar>)"
  by (simp add: itos_def itos_buf_eq)

lemma digit_not_space: "is_digit c \<Longrightarrow> \<not> is_space c \<and> c \<noteq> CHR ''-'' \<and> c \<noteq> CHR ''+'' \<and> \<not> whitespace c"
  by (auto simp: is_digit_def is_space_def whitespace_def)

lemma takeWhile_all_append: "\<forall>c\<in>set xs. P c \<Longrightarrow> takeWhile P (xs @ ys) = xs @ takeWhile P ys"
  by (induction xs) simp_all

lemma dropWhile_all_append: "\<forall>c\<in>set xs. P c \<Longrightarrow> dropWhile P (xs @ ys) = dropWhile P ys"
  by (induction xs) simp_all

lemma div_digits_head:
  "0 < ui \<Longrightarrow> 2 \<le> b \<Longrightarrow> \<exists>d. 0 < d \<and> d < b \<and> hd (div_digits dig b ui acc) = dig d"
proof (induction ui arbitrary: acc rule: less_induct)
  case (less ui)
  show ?case
  proof (cases "ui div b = 0")
    case True
    then have "ui mod b = ui" "ui < b" using less.prems(2) by (auto simp: div_eq_0_iff)
    then show ?thesis
      using less.prems True by (intro exI [of _ ui]) (subst div_digits.simps, simp add: Let_def)
  next
    case False
    then have "ui div b < ui" using less.prems by (intro div_less_dividend) auto
    then have "\<exists>d. 0 < d \<and> d < b \<and> hd (div_digits dig b (ui div b) (dig (ui mod b) # acc)) = dig d"
      using less.IH [of "ui div b" "dig (ui mod b) # acc"] False less.prems(2) by simp
    then show ?thesis
      using False less.prems(2) by (subst div_digits.simps) (simp add: Let_def)
  qed
qed

lemma decimal_digits_head: "0 < ui \<Longrightarrow> c_at (decimal_digits ui) 0 \<noteq> CHR ''0''"
proof -
  assume "0 < ui"
  then obtain d where d: "0 < d" "d < 10" "hd (decimal_digits ui) = TOCHAR d"
    using div_digits_head [of ui 10 TOCHAR "[]"] by (auto simp: decimal_digits_div)
  have ne: "decimal_digits ui \<noteq> []" using decimal_digits_facts [of ui] by simp
  have "(of_char (TOCHAR d) :: nat) \<noteq> of_char (CHR ''0'')" using of_char_TOCHAR [OF d(2)] d(1) by simp
  then show ?thesis using d(3) ne by (cases "decimal_digits ui") auto
qed

text \<open>What \<open>strtoimax\<close> makes of blanks, a sign, digits and a rest.\<close>

lemma strtoimax_parts:
  assumes "\<forall>c\<in>set ws. is_space c" and "sg \<in> {[], ''-'', ''+''}"
    and ds: "\<forall>c\<in>set ds. is_digit c" "ds \<noteq> []" and "rest = [] \<or> \<not> is_digit (hd rest)"
    and v: "v = (if sg = ''-'' then - int (decimal_value 0 ds) else int (decimal_value 0 ds))"
    and "intmax_ok v"
  shows "strtoimax (ws @ sg @ ds @ rest) = (v, Some rest, False)"
proof -
  obtain d ds' where d: "ds = d # ds'" "is_digit d" using ds by (cases ds) auto
  have "dropWhile is_space (ws @ sg @ ds @ rest) = sg @ ds @ rest"
    unfolding dropWhile_all_append [OF assms(1)] dropWhile_eq_self_iff
    using assms(2) d(1) digit_not_space [OF d(2)] by (auto simp: is_space_def)
  moreover have "takeWhile is_digit rest = []" "dropWhile is_digit rest = rest"
    using assms(5) by (simp_all add: takeWhile_eq_Nil_iff dropWhile_eq_self_iff)
  then have "takeWhile is_digit (ds @ rest) = ds" "dropWhile is_digit (ds @ rest) = rest"
    using ds(1) by (simp_all only: takeWhile_all_append dropWhile_all_append append_Nil2)
  ultimately show ?thesis
    using assms(2,7) v ds(2) d digit_not_space [of d]
    by (auto simp: strtoimax_def Let_def intmax_ok_def)
qed

lemma strtoimax_split:
  assumes "strtoimax s = (v, Some rest, False)"
  shows "\<exists>ws sg ds. s = ws @ sg @ ds @ rest \<and> (\<forall>c\<in>set ws. is_space c) \<and> sg \<in> {[], ''-'', ''+''} \<and>
    (\<forall>c\<in>set ds. is_digit c) \<and> ds \<noteq> [] \<and> intmax_ok v \<and>
    v = (if sg = ''-'' then - int (decimal_value 0 ds) else int (decimal_value 0 ds))"
proof -
  let ?ws = "takeWhile is_space s" and ?s = "dropWhile is_space s"
  let ?sg = "if c_at ?s 0 = CHR ''-'' \<or> c_at ?s 0 = CHR ''+'' then [c_at ?s 0] else []"
  let ?s1 = "if c_at ?s 0 = CHR ''-'' \<or> c_at ?s 0 = CHR ''+'' then tl ?s else ?s"
  let ?ds = "takeWhile is_digit ?s1"
  have "u = (if c_at u 0 = CHR ''-'' \<or> c_at u 0 = CHR ''+'' then [c_at u 0] else []) @
      (if c_at u 0 = CHR ''-'' \<or> c_at u 0 = CHR ''+'' then tl u else u)" for u
    by (cases u) auto
  then have s1: "?s = ?sg @ ?s1" .
  have r: "rest = dropWhile is_digit ?s1" "?ds \<noteq> []" "intmax_ok v"
    "v = (if c_at ?s 0 = CHR ''-'' then - int (decimal_value 0 ?ds) else int (decimal_value 0 ?ds))"
    using assms by (auto simp: strtoimax_def Let_def intmax_ok_def split: if_splits)
  have "s = ?ws @ ?sg @ ?ds @ rest"
    using s1 r(1) by (metis takeWhile_dropWhile_id)
  moreover have "\<forall>c\<in>set ?ws. is_space c" "\<forall>c\<in>set ?ds. is_digit c"
    by (auto dest: set_takeWhileD)
  moreover have "v = (if ?sg = ''-'' then - int (decimal_value 0 ?ds) else int (decimal_value 0 ?ds))"
    using r(4) by simp
  ultimately show ?thesis
    using r(2,3) by (intro exI [of _ ?ws] exI [of _ ?sg] exI [of _ ?ds]) simp
qed

lemma itos_reads_back:
  assumes "intmax_ok i"
  shows "\<exists>s. itos_buf i = Some s \<and> legal_number (Some s) = Some i"
proof -
  let ?ds = "decimal_digits (nat \<bar>i\<bar>)" and ?sg = "if i < 0 then ''-'' else []"
  have "strtoimax ([] @ ?sg @ ?ds @ []) = (i, Some [], False)"
    using assms decimal_digits_facts [of "nat \<bar>i\<bar>"] by (intro strtoimax_parts) auto
  then show ?thesis
    using decimal_digits_facts [of "nat \<bar>i\<bar>"] by (simp add: itos_buf_eq [OF assms] legal_number_def)
qed

section \<open>Properties\<close>

text \<open>
  C21. Every \<^verbatim>\<open>intmax_t\<close>, the smallest included, is printed by \<^verbatim>\<open>itos\<close> inside its buffer and read
  back by \<^verbatim>\<open>legal_number\<close> as the same number.
\<close>

theorem itos_legal_number:
  assumes "intmax_ok i"
  shows "\<exists>s. itos_buf i = Some s \<and> legal_number (Some s) = Some i"
  using assms by (rule itos_reads_back)

theorem itos_legal_number_witness:
  "\<exists>s. itos_buf (- 9223372036854775808) = Some s \<and> legal_number (Some s) = Some (- 9223372036854775808)"
  by (rule itos_legal_number) (simp add: intmax_ok_def int_limits)

text \<open>
  C22. \<^verbatim>\<open>legal_number\<close> accepts exactly blanks, an optional sign, decimal digits and trailing blanks
  (\<open>isspace\<close> in front, space and tab behind) whose value fits \<^verbatim>\<open>intmax_t\<close>, with that value.
\<close>

theorem legal_number_language:
  "(legal_number (Some s) = Some v) =
   (\<exists>ws sg ds bl. s = ws @ sg @ ds @ bl \<and> (\<forall>c\<in>set ws. is_space c) \<and> sg \<in> {[], ''-'', ''+''} \<and>
      (\<forall>c\<in>set ds. is_digit c) \<and> ds \<noteq> [] \<and> (\<forall>c\<in>set bl. whitespace c) \<and> intmax_ok v \<and>
      v = (if sg = ''-'' then - int (decimal_value 0 ds) else int (decimal_value 0 ds)))"
  (is "?l = ?r")
proof
  assume ?l
  then obtain bl where bl: "strtoimax s = (v, Some bl, False)" "dropWhile whitespace bl = []"
    by (auto simp: legal_number_def split: prod.splits option.splits if_splits)
  have "\<forall>c\<in>set bl. whitespace c" using bl(2) by (simp add: dropWhile_eq_Nil_conv)
  with strtoimax_split [OF bl(1)] show ?r by blast
next
  assume ?r
  then obtain ws sg ds bl where p: "s = ws @ sg @ ds @ bl" "\<forall>c\<in>set ws. is_space c"
    "sg \<in> {[], ''-'', ''+''}" "\<forall>c\<in>set ds. is_digit c" "ds \<noteq> []" "\<forall>c\<in>set bl. whitespace c"
    "intmax_ok v" "v = (if sg = ''-'' then - int (decimal_value 0 ds) else int (decimal_value 0 ds))"
    by blast
  have "bl = [] \<or> \<not> is_digit (hd bl)"
    using p(6) digit_not_space by (cases bl) auto
  then have "strtoimax s = (v, Some bl, False)"
    using strtoimax_parts [OF p(2,3,4,5) _ p(8,7)] p(1) by blast
  moreover have "dropWhile whitespace bl = []" using p(6) by (simp add: dropWhile_eq_Nil_conv)
  ultimately show ?l using p(1,5) by (simp add: legal_number_def)
qed

theorem legal_number_language_witness: "legal_number (Some '' -42 '') = Some (- 42)"
  unfolding legal_number_language
  by (rule exI [of _ "'' ''"], rule exI [of _ "''-''"], rule exI [of _ "''42''"], rule exI [of _ "'' ''"])
    (simp add: is_space_def is_digit_def whitespace_def digit_value_def intmax_ok_def int_limits)

text \<open>
  In every base from 2 to 64 an unsigned number is printed in at most 64 characters, and the
  digits read in that base give the number back.
\<close>

theorem fmtulong_reads_back:
  assumes "2 \<le> base" and "base \<le> 64" and "ui < 2 ^ 64" and "64 < len"
  shows "\<exists>s. fmtulong ui base len FL_UNSIGNED = Some s \<and> digits_value fmt_value base s = ui"
proof -
  have f: "FL_UNSIGNED AND FL_HEXUPPER = 0" "FL_UNSIGNED AND FL_PREFIX = 0" "FL_UNSIGNED AND FL_ADDBASE = 0"
    by (simp_all add: FL_UNSIGNED_def FL_HEXUPPER_def FL_PREFIX_def FL_ADDBASE_def)
  have "fmtulong ui base len FL_UNSIGNED = Some (fmt_digits ui base FL_UNSIGNED)"
    using assms(1,2,4) fmt_digits_length [OF assms(1,3), of FL_UNSIGNED]
    unfolding fmtulong_def Let_def fmt_prefix_def f fill_buffer_def by (simp add: FL_UNSIGNED_def)
  then show ?thesis
    using fmt_digits_value [OF assms(1,2) f(1), of ui] by blast
qed

theorem fmtulong_reads_back_witness:
  "\<exists>s. fmtulong 18446744073709551615 2 65 FL_UNSIGNED = Some s \<and>
     digits_value fmt_value 2 s = 18446744073709551615"
  by (rule fmtulong_reads_back) simp_all

end
