(* ===== verification/Indexed_Array.thy ===== *)
theory Indexed_Array
  imports Assoc_Array Number_Text
begin

text \<open>
  Indexed arrays, \<^verbatim>\<open>array.c\<close>. An array is its circular list of elements without the dummy head,
  kept in order of index; an element has an address, so that the roving pointer of the file
  (\<^verbatim>\<open>lastarray\<close> and \<^verbatim>\<open>lastref\<close>, set and unset together) names an element of a particular
  array. Following a roving pointer to an element that is no longer in its array would read
  freed memory: the outer result is then \<open>None\<close>, as it is for a NULL value passed to code
  that dereferences it. Indices are \<^verbatim>\<open>intmax_t\<close>; arithmetic on them wraps at 64 bits.
\<close>

record array_element =
  ae_addr :: nat
  ind :: int
  ae_value :: "cstring option"

record array =
  a_addr :: nat
  max_index :: int
  num_elements :: nat
  elements :: "array_element list"

text \<open>The allocator's next address and the roving pointer, an array and an element of it.\<close>

record array_mem =
  next_addr :: nat
  lastref :: "(nat \<times> nat) option"

section \<open>Whole arrays\<close>

definition INVALIDATE_LASTREF :: "array \<Rightarrow> array_mem \<Rightarrow> array_mem" where
  "INVALIDATE_LASTREF a m =
     (case lastref m of
        Some (la, r) \<Rightarrow> if la = a_addr a then m\<lparr>lastref := None\<rparr> else m
      | None \<Rightarrow> m)"

definition SET_LASTREF :: "array \<Rightarrow> nat \<Rightarrow> array_mem \<Rightarrow> array_mem" where
  "SET_LASTREF a r m = m\<lparr>lastref := Some (a_addr a, r)\<rparr>"

definition UNSET_LASTREF :: "array_mem \<Rightarrow> array_mem" where
  "UNSET_LASTREF m = m\<lparr>lastref := None\<rparr>"

definition array_create_element ::
  "int \<Rightarrow> cstring option \<Rightarrow> array_mem \<Rightarrow> array_element \<times> array_mem" where
  "array_create_element indx v m =
     (\<lparr>ae_addr = next_addr m, ind = indx, ae_value = v\<rparr>, m\<lparr>next_addr := next_addr m + 1\<rparr>)"

definition array_create :: "array_mem \<Rightarrow> array \<times> array_mem" where
  "array_create m =
     (\<lparr>a_addr = next_addr m, max_index = -1, num_elements = 0, elements = []\<rparr>,
      m\<lparr>next_addr := next_addr m + 1\<rparr>)"

definition array_empty :: "array \<Rightarrow> bool" where
  "array_empty a \<longleftrightarrow> num_elements a = 0"

definition array_flush :: "array option \<Rightarrow> array_mem \<Rightarrow> array option \<times> array_mem" where
  "array_flush a m =
     (case a of
        None \<Rightarrow> (None, m)
      | Some a' \<Rightarrow>
          (Some (a'\<lparr>elements := [], max_index := -1, num_elements := 0\<rparr>), INVALIDATE_LASTREF a' m))"

text \<open>The loops that append a new element for each of a range of elements.\<close>

fun copy_elements :: "array_element list \<Rightarrow> array_mem \<Rightarrow> array_element list \<times> array_mem" where
  "copy_elements [] m = ([], m)"
| "copy_elements (ae # aes) m =
     (let (new, m1) = array_create_element (ind ae) (ae_value ae) m;
          (news, m2) = copy_elements aes m1
      in (new # news, m2))"

definition array_copy :: "array option \<Rightarrow> array_mem \<Rightarrow> array option \<times> array_mem" where
  "array_copy a m =
     (case a of
        None \<Rightarrow> (None, m)
      | Some a' \<Rightarrow>
          let (a1, m1) = array_create m;
              (news, m2) = copy_elements (elements a') m1
          in (Some (a1\<lparr>max_index := max_index a', num_elements := num_elements a', elements := news\<rparr>), m2))"

text \<open>\<open>s\<close> and \<open>e\<close> are positions: the slice has the elements from \<open>s\<close> on and before \<open>e\<close>.\<close>

definition array_slice :: "array \<Rightarrow> nat \<Rightarrow> nat \<Rightarrow> array_mem \<Rightarrow> array \<times> array_mem" where
  "array_slice a s e m =
     (let (a1, m1) = array_create m;
          (news, m2) = copy_elements (take (e - s) (drop s (elements a))) m1;
          mi = (if news = [] then 0 else ind (last news))
      in (a1\<lparr>num_elements := length news, max_index := mi, elements := news\<rparr>, m2))"

fun walk_elements ::
  "(array_element \<Rightarrow> 's \<Rightarrow> int \<times> 's) \<Rightarrow> array_element list \<Rightarrow> 's \<Rightarrow> 's" where
  "walk_elements func [] s = s"
| "walk_elements func (ae # aes) s =
     (let (r, s') = func ae s in if r < 0 then s' else walk_elements func aes s')"

definition array_walk :: "array option \<Rightarrow> (array_element \<Rightarrow> 's \<Rightarrow> int \<times> 's) \<Rightarrow> 's \<Rightarrow> 's" where
  "array_walk a func udata =
     (case a of
        None \<Rightarrow> udata
      | Some a' \<Rightarrow> if array_empty a' then udata else walk_elements func (elements a') udata)"

section \<open>Shifting\<close>

definition AS_DISPOSE :: nat where "AS_DISPOSE = 0x01"

definition shift_index :: "int \<Rightarrow> array_element \<Rightarrow> array_element" where
  "shift_index d ae = ae\<lparr>ind := wrap64 (ind ae + d)\<rparr>"

text \<open>The result is the list of the elements shifted out, empty for NULL.\<close>

definition array_shift ::
  "array option \<Rightarrow> int \<Rightarrow> nat \<Rightarrow> array_mem \<Rightarrow> array_element list \<times> array option \<times> array_mem" where
  "array_shift a n flags m =
     (case a of
        None \<Rightarrow> ([], None, m)
      | Some a' \<Rightarrow>
          if array_empty a' \<or> n \<le> 0 then ([], a, m)
          else
            let m1 = INVALIDATE_LASTREF a' m;
                ret = take (nat n) (elements a');
                ae = drop (nat n) (elements a')
            in if ae = [] then
                 (if flags AND AS_DISPOSE \<noteq> 0
                  then (let (a2, m2) = array_flush a m1 in ([], a2, m2))
                  else (ret, Some (a'\<lparr>elements := [], max_index := -1, num_elements := 0\<rparr>), m1))
               else
                 let es = map (shift_index (- n)) ae;
                     a2 = a'\<lparr>elements := es, num_elements := num_elements a' - nat n,
                            max_index := ind (last es)\<rparr>
                 in (if flags AND AS_DISPOSE \<noteq> 0 then [] else ret, Some a2, m1))"

definition array_rshift ::
  "array option \<Rightarrow> int \<Rightarrow> cstring option \<Rightarrow> array_mem \<Rightarrow> int \<times> array option \<times> array_mem" where
  "array_rshift a n s m =
     (case a of
        None \<Rightarrow> (0, None, m)
      | Some a' \<Rightarrow>
          if array_empty a' \<and> s = None then (0, a, m)
          else if n \<le> 0 then (int (num_elements a'), a, m)
          else
            let (new, num, m1) =
                  (case s of
                     None \<Rightarrow> ([], num_elements a', m)
                   | Some v \<Rightarrow>
                       (let (e, m') = array_create_element 0 s m
                        in ([e], num_elements a' + 1, m')))
            in if s \<noteq> None \<and> num = 1
               then (1, Some (a'\<lparr>elements := new @ elements a', num_elements := num, max_index := 0\<rparr>), m1)
               else
                 let es = new @ map (shift_index n) (elements a')
                 in (int num,
                     Some (a'\<lparr>elements := es, num_elements := num, max_index := ind (last es)\<rparr>),
                     INVALIDATE_LASTREF a' m1))"

definition array_unshift_element ::
  "array option \<Rightarrow> array_mem \<Rightarrow> array_element list \<times> array option \<times> array_mem" where
  "array_unshift_element a m = array_shift a 1 0 m"

definition array_shift_element ::
  "array option \<Rightarrow> cstring option \<Rightarrow> array_mem \<Rightarrow> int \<times> array option \<times> array_mem" where
  "array_shift_element a v m = array_rshift a 1 v m"

section \<open>Passes over the values\<close>

fun apply_values ::
  "(cstring \<Rightarrow> cstring) \<Rightarrow> array_element list \<Rightarrow> array_element list option" where
  "apply_values f [] = Some []"
| "apply_values f (ae # aes) =
     do {
       v \<leftarrow> ae_value ae;
       aes' \<leftarrow> apply_values f aes;
       Some (ae\<lparr>ae_value := Some (f v)\<rparr> # aes')
     }"

definition apply_array :: "(cstring \<Rightarrow> cstring) \<Rightarrow> array option \<Rightarrow> array option option" where
  "apply_array f a =
     (case a of
        None \<Rightarrow> Some None
      | Some a' \<Rightarrow>
          if array_empty a' then Some None
          else do { es \<leftarrow> apply_values f (elements a'); Some (Some (a'\<lparr>elements := es\<rparr>)) })"

definition array_quote :: "array option \<Rightarrow> array option option" where
  "array_quote a = apply_array quote_string a"

definition array_quote_escapes :: "ifs_state \<Rightarrow> array option \<Rightarrow> array option option" where
  "array_quote_escapes ifs a = apply_array (quote_escapes (Some (ifs_value ifs))) a"

definition array_dequote :: "array option \<Rightarrow> array option option" where
  "array_dequote a = apply_array dequote_string a"

definition array_dequote_escapes :: "ifs_state \<Rightarrow> array option \<Rightarrow> array option option" where
  "array_dequote_escapes ifs a = apply_array (dequote_escapes (Some (ifs_value ifs))) a"

definition array_remove_quoted_nulls :: "array option \<Rightarrow> array option option" where
  "array_remove_quoted_nulls a = apply_array remove_quoted_nulls a"

section \<open>Elements\<close>

fun position_of :: "nat \<Rightarrow> array_element list \<Rightarrow> nat option" where
  "position_of r [] = None"
| "position_of r (ae # aes) =
     (if ae_addr ae = r then Some 0 else map_option Suc (position_of r aes))"

text \<open>\<^verbatim>\<open>LASTREF_START\<close>: the position the search starts from.\<close>

definition LASTREF_START :: "array \<Rightarrow> int \<Rightarrow> array_mem \<Rightarrow> nat option" where
  "LASTREF_START a i m =
     (case lastref m of
        None \<Rightarrow> Some 0
      | Some (la, r) \<Rightarrow>
          if la = a_addr a
          then do {
                 p \<leftarrow> position_of r (elements a);
                 Some (if ind (elements a ! p) \<le> i then p else 0)
               }
          else Some 0)"

text \<open>
  The search loop of \<^verbatim>\<open>array_insert\<close>: the new list, whether an element was added, and the
  element to remember; \<open>None\<close> when the loop reaches the head.
\<close>

fun insert_loop ::
  "array_element \<Rightarrow> array_element list \<Rightarrow> (array_element list \<times> bool \<times> nat) option" where
  "insert_loop new [] = None"
| "insert_loop new (ae # aes) =
     (if ind ae = ind new
      then Some (ae\<lparr>ae_value := ae_value new\<rparr> # aes, False, ae_addr ae)
      else if ind new < ind ae then Some (new # ae # aes, True, ae_addr new)
      else map_option (\<lambda>(es, added, r). (ae # es, added, r)) (insert_loop new aes))"

definition array_insert ::
  "array option \<Rightarrow> int \<Rightarrow> cstring option \<Rightarrow> array_mem \<Rightarrow> (int \<times> array option \<times> array_mem) option" where
  "array_insert a i v m =
     (case a of
        None \<Rightarrow> Some (-1, None, m)
      | Some a' \<Rightarrow>
          let (new, m1) = array_create_element i v m
          in if max_index a' < i then
               Some (0,
                 Some (a'\<lparr>elements := elements a' @ [new], max_index := i,
                         num_elements := num_elements a' + 1\<rparr>),
                 SET_LASTREF a' (ae_addr new) m1)
             else
               do {
                 start \<leftarrow> LASTREF_START a' i m1;
                 Some (case insert_loop new (drop start (elements a')) of
                         Some (es, added, r) \<Rightarrow>
                           (0,
                            Some (a'\<lparr>elements := take start (elements a') @ es,
                                    num_elements := num_elements a' + (if added then 1 else 0)\<rparr>),
                            SET_LASTREF a' r m1)
                       | None \<Rightarrow> (-1, a, INVALIDATE_LASTREF a' m1))
               })"

fun find_ind :: "int \<Rightarrow> array_element list \<Rightarrow> nat option" where
  "find_ind i [] = None"
| "find_ind i (ae # aes) = (if ind ae = i then Some 0 else map_option Suc (find_ind i aes))"

definition array_remove ::
  "array option \<Rightarrow> int \<Rightarrow> array_mem \<Rightarrow> (array_element option \<times> array option \<times> array_mem) option" where
  "array_remove a i m =
     (case a of
        None \<Rightarrow> Some (None, None, m)
      | Some a' \<Rightarrow>
          if array_empty a' then Some (None, a, m)
          else
            do {
              start \<leftarrow> LASTREF_START a' i m;
              Some (case find_ind i (drop start (elements a')) of
                      None \<Rightarrow> (None, a, m)
                    | Some q \<Rightarrow>
                        let p = start + q;
                            prev = take p (elements a');
                            rest = drop (Suc p) (elements a')
                        in (Some (elements a' ! p),
                            Some (a'\<lparr>elements := prev @ rest,
                                    num_elements := num_elements a' - 1,
                                    max_index := (if i = max_index a'
                                                  then (if prev = [] then -1 else ind (last prev))
                                                  else max_index a')\<rparr>),
                            if rest \<noteq> [] then SET_LASTREF a' (ae_addr (hd rest)) m
                            else if prev \<noteq> [] then SET_LASTREF a' (ae_addr (last prev)) m
                            else INVALIDATE_LASTREF a' m))
            })"

definition array_reference ::
  "array option \<Rightarrow> int \<Rightarrow> array_mem \<Rightarrow> (cstring option \<times> array_mem) option" where
  "array_reference a i m =
     (case a of
        None \<Rightarrow> Some (None, m)
      | Some a' \<Rightarrow>
          if array_empty a' \<or> max_index a' < i then Some (None, m)
          else
            do {
              start \<leftarrow> LASTREF_START a' i m;
              Some (case find_ind i (drop start (elements a')) of
                      None \<Rightarrow> (None, UNSET_LASTREF m)
                    | Some q \<Rightarrow>
                        (ae_value (elements a' ! (start + q)),
                         SET_LASTREF a' (ae_addr (elements a' ! (start + q))) m))
            })"

section \<open>Conversions\<close>

fun value_words :: "array_element list \<Rightarrow> word_list \<Rightarrow> word_list option" where
  "value_words [] list = Some list"
| "value_words (ae # aes) list =
     do { v \<leftarrow> ae_value ae; value_words aes (make_bare_word v # list) }"

definition array_to_word_list :: "array option \<Rightarrow> word_list option" where
  "array_to_word_list a =
     (case a of
        None \<Rightarrow> Some []
      | Some a' \<Rightarrow> if array_empty a' then Some [] else map_option rev (value_words (elements a') []))"

definition array_keys_to_word_list :: "array option \<Rightarrow> word_list" where
  "array_keys_to_word_list a =
     (case a of
        None \<Rightarrow> []
      | Some a' \<Rightarrow>
          if array_empty a' then []
          else rev (fold (\<lambda>ae list. make_bare_word (itos (ind ae)) # list) (elements a') []))"

fun assign_list_from ::
  "int \<Rightarrow> word_list \<Rightarrow> array option \<Rightarrow> array_mem \<Rightarrow> (array option \<times> array_mem) option" where
  "assign_list_from i [] a m = Some (a, m)"
| "assign_list_from i (l # ls) a m =
     do {
       (r, a', m') \<leftarrow> array_insert a i (Some (word l)) m;
       assign_list_from (i + 1) ls a' m'
     }"

definition array_assign_list ::
  "array option \<Rightarrow> word_list \<Rightarrow> array_mem \<Rightarrow> (array option \<times> array_mem) option" where
  "array_assign_list a list m = assign_list_from 0 list a m"

definition array_from_word_list :: "word_list \<Rightarrow> array_mem \<Rightarrow> (array option \<times> array_mem) option" where
  "array_from_word_list list m =
     (if list = [] then Some (None, m)
      else let (a, m1) = array_create m in array_assign_list (Some a) list m1)"

definition array_to_argv :: "array option \<Rightarrow> cstring option list option" where
  "array_to_argv a =
     (case a of
        None \<Rightarrow> None
      | Some a' \<Rightarrow> if array_empty a' then None else Some (map ae_value (elements a')))"

text \<open>A separator follows an element with a value, unless it is the last element.\<close>

fun string_elements :: "array_element list \<Rightarrow> cstring \<Rightarrow> bool \<Rightarrow> cstring" where
  "string_elements [] sep quoted = []"
| "string_elements (ae # aes) sep quoted =
     (case ae_value ae of
        None \<Rightarrow> []
      | Some v \<Rightarrow> (if quoted then quote_string v else v) @ (if aes = [] then [] else sep))
     @ string_elements aes sep quoted"

definition array_to_string_internal ::
  "array_element list \<Rightarrow> cstring \<Rightarrow> bool \<Rightarrow> cstring option" where
  "array_to_string_internal es sep quoted =
     (if es = [] then None else Some (string_elements es sep quoted))"

definition array_to_string :: "array option \<Rightarrow> cstring \<Rightarrow> bool \<Rightarrow> cstring option" where
  "array_to_string a sep quoted =
     (case a of
        None \<Rightarrow> None
      | Some a' \<Rightarrow>
          if array_empty a' then Some [] else array_to_string_internal (elements a') sep quoted)"

fun assign_elements :: "array_element list \<Rightarrow> cstring \<Rightarrow> cstring option" where
  "assign_elements [] result = Some result"
| "assign_elements (ae # aes) result =
     do {
       valstr \<leftarrow> assign_value (ae_value ae);
       assign_elements aes
         (result @ ''['' @ itos (ind ae) @ '']='' @ valstr @ (if aes = [] then [] else '' ''))
     }"

definition array_to_assign :: "array option \<Rightarrow> bool \<Rightarrow> cstring option option" where
  "array_to_assign a quoted =
     (case a of
        None \<Rightarrow> Some None
      | Some a' \<Rightarrow>
          if array_empty a' then Some None
          else
            do {
              result \<leftarrow> assign_elements (elements a') ''('';
              let result = result @ '')'';
              out \<leftarrow> (if quoted then sh_single_quote result else Some result);
              Some (Some out)
            })"

section \<open>Slices and substitutions\<close>

fun first_from :: "int \<Rightarrow> array_element list \<Rightarrow> nat" where
  "first_from start [] = 0"
| "first_from start (ae # aes) = (if ind ae < start then Suc (first_from start aes) else 0)"

text \<open>How the quoted elements of the copy are joined, the same in the three callers.\<close>

definition join_array :: "ifs_state \<Rightarrow> bool \<Rightarrow> bool \<Rightarrow> array option \<Rightarrow> cstring option option" where
  "join_array ifs star quoted a2 =
     (if star then
        do {
          a3 \<leftarrow> array_remove_quoted_nulls a2;
          Some (array_to_string (if a3 = None then a2 else a3) (fst (ifs_firstchar ifs)) False)
        }
      else if quoted then
        Some (array_to_string a2 (if getifs ifs = [] then '' '' else fst (ifs_firstchar ifs)) False)
      else Some (array_to_string a2 '' '' False))"

definition array_subrange ::
  "ifs_state \<Rightarrow> array option \<Rightarrow> int \<Rightarrow> int \<Rightarrow> bool \<Rightarrow> nat \<Rightarrow> array_mem \<Rightarrow> cstring option option" where
  "array_subrange ifs a start nelem starsub quoted m =
     (case a of
        None \<Rightarrow> Some None
      | Some a' \<Rightarrow>
          if array_empty a' \<or> max_index a' < start then Some None
          else
            let p = first_from start (elements a')
            in if p = length (elements a') then Some None
               else
                 do {
                   let q = p + cut_length 0 nelem (drop p (elements a'));
                   let a2 = Some (fst (array_slice a' p q m));
                   let dq = (quoted AND (Q_DOUBLE_QUOTES OR Q_HERE_DOCUMENT) \<noteq> 0);
                   a3 \<leftarrow> (if dq then array_quote a2 else array_quote_escapes ifs a2);
                   join_array ifs (starsub \<and> dq) dq (if a3 = None then a2 else a3)
                 })"

fun subst_values ::
  "(cstring option \<Rightarrow> cstring option) \<Rightarrow> array_element list \<Rightarrow> array_element list" where
  "subst_values f [] = []"
| "subst_values f (ae # aes) = ae\<lparr>ae_value := f (ae_value ae)\<rparr> # subst_values f aes"

definition array_subst ::
  "ifs_state \<Rightarrow> (cstring option \<Rightarrow> cstring option) \<Rightarrow> array option \<Rightarrow> nat \<Rightarrow> array_mem \<Rightarrow>
   cstring option option" where
  "array_subst ifs f a mflags m =
     (case a of
        None \<Rightarrow> Some None
      | Some a' \<Rightarrow>
          if array_empty a' then Some None
          else
            do {
              let a2 = map_option (\<lambda>b. b\<lparr>elements := subst_values f (elements b)\<rparr>)
                         (fst (array_copy a m));
              let q = (mflags AND MATCH_QUOTED \<noteq> 0);
              a3 \<leftarrow> (if q then array_quote a2 else array_quote_escapes ifs a2);
              join_array ifs (mflags AND MATCH_STARSUB \<noteq> 0) q a3
            })"

definition array_patsub ::
  "(cstring option \<Rightarrow> cstring \<Rightarrow> cstring option \<Rightarrow> nat \<Rightarrow> cstring option) \<Rightarrow> ifs_state \<Rightarrow>
   array option \<Rightarrow> cstring \<Rightarrow> cstring option \<Rightarrow> nat \<Rightarrow> array_mem \<Rightarrow> cstring option option" where
  "array_patsub pat_subst ifs a pat rep mflags m =
     array_subst ifs (\<lambda>v. pat_subst v pat rep mflags) a mflags m"

definition array_modcase ::
  "(cstring option \<Rightarrow> cstring \<Rightarrow> nat \<Rightarrow> cstring option) \<Rightarrow> ifs_state \<Rightarrow>
   array option \<Rightarrow> cstring \<Rightarrow> nat \<Rightarrow> nat \<Rightarrow> array_mem \<Rightarrow> cstring option option" where
  "array_modcase sh_modcase ifs a pat modop mflags m =
     array_subst ifs (\<lambda>v. sh_modcase v pat modop) a mflags m"

section \<open>Well-formed arrays\<close>

definition sorted_inds :: "array_element list \<Rightarrow> bool" where
  "sorted_inds es \<longleftrightarrow> sorted_wrt (<) (map ind es) \<and> (\<forall>e\<in>set es. 0 \<le> ind e \<and> ind e \<le> INTMAX_MAX)"

definition last_index :: "array_element list \<Rightarrow> int" where
  "last_index es = (if es = [] then -1 else ind (last es))"

definition fresh_addrs :: "array_mem \<Rightarrow> array_element list \<Rightarrow> bool" where
  "fresh_addrs m es \<longleftrightarrow> distinct (map ae_addr es) \<and> (\<forall>e\<in>set es. ae_addr e < next_addr m)"

definition roving_ok :: "array_mem \<Rightarrow> array \<Rightarrow> bool" where
  "roving_ok m a \<longleftrightarrow>
     (case lastref m of
        None \<Rightarrow> True
      | Some (la, r) \<Rightarrow> la = a_addr a \<longrightarrow> r \<in> ae_addr ` set (elements a))"

definition array_inv :: "array_mem \<Rightarrow> array \<Rightarrow> bool" where
  "array_inv m a \<longleftrightarrow>
     sorted_inds (elements a) \<and> num_elements a = length (elements a) \<and>
     max_index a = last_index (elements a) \<and> fresh_addrs m (elements a) \<and> roving_ok m a"

lemma array_invD:
  assumes "array_inv m a"
  shows "sorted_inds (elements a)" "num_elements a = length (elements a)"
    "max_index a = last_index (elements a)" "fresh_addrs m (elements a)" "roving_ok m a"
  using assms by (simp_all add: array_inv_def)

definition elem_map :: "array_element list \<Rightarrow> int \<Rightarrow> cstring option option" where
  "elem_map es = map_of (map (\<lambda>e. (ind e, ae_value e)) es)"

definition array_lookup :: "array \<Rightarrow> int \<Rightarrow> cstring option option" where
  "array_lookup a = elem_map (elements a)"

lemma sorted_inds_simps [simp]:
  "sorted_inds []"
  "sorted_inds (e # es) \<longleftrightarrow> 0 \<le> ind e \<and> ind e \<le> INTMAX_MAX \<and> (\<forall>x\<in>set es. ind e < ind x) \<and> sorted_inds es"
  by (auto simp: sorted_inds_def)

lemma sorted_inds_append [simp]:
  "sorted_inds (xs @ ys) \<longleftrightarrow> sorted_inds xs \<and> sorted_inds ys \<and> (\<forall>x\<in>set xs. \<forall>y\<in>set ys. ind x < ind y)"
  by (induction xs) auto

lemma elem_map_simps [simp]:
  "elem_map [] = Map.empty"
  "elem_map (e # es) = (elem_map es)(ind e \<mapsto> ae_value e)"
  "elem_map (xs @ ys) = elem_map ys ++ elem_map xs"
  by (simp_all add: elem_map_def)

lemma dom_elem_map: "dom (elem_map es) = ind ` set es"
  by (simp add: elem_map_def dom_map_of_conv_image_fst image_image)

lemma elem_map_None: "i \<notin> ind ` set es \<Longrightarrow> elem_map es i = None"
  using dom_elem_map [of es] by blast

lemma sorted_inds_distinct: "sorted_inds es \<Longrightarrow> distinct (map ind es)"
  by (simp add: sorted_inds_def strict_sorted_iff)

lemma card_elem_map: "sorted_inds es \<Longrightarrow> card (dom (elem_map es)) = length es"
  using distinct_card [OF sorted_inds_distinct, of es] by (simp add: dom_elem_map)

lemma sorted_last: "sorted_inds es \<Longrightarrow> e \<in> set es \<Longrightarrow> ind e \<le> last_index es"
  by (induction es) (auto simp: last_index_def intro: less_imp_le)

lemma insert_loop_set:
  "insert_loop new es = Some (es', added, r) \<Longrightarrow>
   (\<forall>e\<in>set es'. ind e = ind new \<or> (\<exists>e'\<in>set es. ind e = ind e')) \<and>
   r \<in> ae_addr ` set es' \<and> ae_addr ` set es' \<subseteq> insert (ae_addr new) (ae_addr ` set es) \<and>
   length es' = length es + (if added then 1 else 0) \<and>
   (ae_addr new \<notin> ae_addr ` set es \<longrightarrow> distinct (map ae_addr es) \<longrightarrow> distinct (map ae_addr es'))"
proof (induction es arbitrary: es')
  case Nil
  then show ?case by simp
next
  case (Cons e es)
  show ?case
  proof (cases "ind e = ind new \<or> ind new < ind e")
    case True
    with Cons.prems show ?thesis by (auto split: if_splits)
  next
    case False
    with Cons.prems obtain es1 where "insert_loop new es = Some (es1, added, r)" "es' = e # es1"
      by auto
    with Cons.IH [of es1] show ?thesis by auto
  qed
qed

lemma insert_loop_spec:
  "sorted_inds es \<Longrightarrow> ind new \<le> last_index es \<Longrightarrow> 0 \<le> ind new \<Longrightarrow> ind new \<le> INTMAX_MAX \<Longrightarrow>
   \<exists>es' added r. insert_loop new es = Some (es', added, r) \<and> sorted_inds es' \<and>
     elem_map es' = (elem_map es)(ind new \<mapsto> ae_value new) \<and> last_index es' = last_index es"
proof (induction es)
  case Nil
  then show ?case by (simp add: last_index_def)
next
  case (Cons e es)
  consider "ind e = ind new" | "ind new < ind e" | "ind e < ind new" by linarith
  then show ?case
  proof cases
    case 1
    then show ?thesis using Cons.prems by (auto simp: last_index_def)
  next
    case 2
    have "ind new \<notin> ind ` set es" using 2 Cons.prems(1) by auto
    with 2 show ?thesis
      using Cons.prems by (auto simp: last_index_def fun_upd_twist)
  next
    case 3
    then have "es \<noteq> []" using Cons.prems(2) by (auto simp: last_index_def)
    then have l: "last_index (e # es) = last_index es" by (simp add: last_index_def)
    obtain es' added r where es': "insert_loop new es = Some (es', added, r)" "sorted_inds es'"
      "elem_map es' = (elem_map es)(ind new \<mapsto> ae_value new)" "last_index es' = last_index es"
      using Cons.IH Cons.prems(1,3,4) Cons.prems(2) [unfolded l] by (simp only: sorted_inds_simps) blast
    have "es' \<noteq> []" using insert_loop_set [OF es'(1)] by auto
    moreover have "\<forall>x\<in>set es'. ind e < ind x"
      using insert_loop_set [OF es'(1)] 3 Cons.prems(1) by fastforce
    ultimately show ?thesis
      using 3 es' Cons.prems(1) l by (auto simp: last_index_def fun_upd_twist)
  qed
qed

lemma position_of_Some:
  "r \<in> ae_addr ` set es \<Longrightarrow> \<exists>p. position_of r es = Some p \<and> p < length es \<and> ae_addr (es ! p) = r"
  by (induction es) auto

lemma sorted_inds_nth: "sorted_inds es \<Longrightarrow> i < j \<Longrightarrow> j < length es \<Longrightarrow> ind (es ! i) < ind (es ! j)"
  by (simp add: sorted_inds_def sorted_wrt_iff_nth_less)

text \<open>The roving start never skips the element looked for.\<close>

lemma LASTREF_START_spec:
  assumes "array_inv m a"
  obtains p where "LASTREF_START a i m = Some p" "p \<le> length (elements a)"
    "\<forall>e\<in>set (take p (elements a)). ind e < i"
proof (cases "lastref m")
  case None
  then show thesis by (intro that [of 0]) (simp_all add: LASTREF_START_def)
next
  case (Some x)
  obtain la r where x: "x = (la, r)" by (cases x)
  show thesis
  proof (cases "la = a_addr a")
    case False
    then show thesis using Some x by (intro that [of 0]) (simp_all add: LASTREF_START_def)
  next
    case True
    then obtain p where p: "position_of r (elements a) = Some p" "p < length (elements a)"
      using array_invD(5) [OF assms] Some x position_of_Some [of r "elements a"]
      by (auto simp: roving_ok_def)
    show thesis
    proof (cases "ind (elements a ! p) \<le> i")
      case le: True
      have "ind e < i" if "e \<in> set (take p (elements a))" for e
        using that sorted_inds_nth [OF array_invD(1) [OF assms], of _ p] p(2) le
        by (fastforce simp: in_set_conv_nth)
      then show thesis
        using Some x True p le by (intro that [of p]) (simp_all add: LASTREF_START_def)
    next
      case False
      then show thesis
        using Some x True p by (intro that [of 0]) (simp_all add: LASTREF_START_def)
    qed
  qed
qed

text \<open>What an operation on one array leaves of the roving pointer for the others.\<close>

definition roving_frame :: "array_mem \<Rightarrow> array_mem \<Rightarrow> array \<Rightarrow> bool" where
  "roving_frame m m' a \<longleftrightarrow> next_addr m \<le> next_addr m' \<and>
     (lastref m' = lastref m \<or> lastref m' = None \<or> (\<exists>r. lastref m' = Some (a_addr a, r)))"

lemma roving_frame_inv:
  "roving_frame m m' a \<Longrightarrow> array_inv m b \<Longrightarrow> a_addr b \<noteq> a_addr a \<Longrightarrow> array_inv m' b"
  by (auto simp: roving_frame_def array_inv_def fresh_addrs_def roving_ok_def split: option.splits)

section \<open>Element operations: contract\<close>

lemma last_index_le: "sorted_inds es \<Longrightarrow> last_index es < i \<Longrightarrow> e \<in> set es \<Longrightarrow> ind e < i"
  using sorted_last [of es e] by simp

lemma fresh_addrs_mono: "fresh_addrs m es \<Longrightarrow> next_addr m \<le> next_addr m' \<Longrightarrow> fresh_addrs m' es"
  by (auto simp: fresh_addrs_def)

lemma array_insert_end:
  assumes inv: "array_inv m a" and i: "max_index a < i" "0 \<le> i" "i \<le> INTMAX_MAX"
  obtains a' m' where "array_insert (Some a) i v m = Some (0, Some a', m')" "array_inv m' a'"
    "a_addr a' = a_addr a" "array_lookup a' = (array_lookup a)(i \<mapsto> v)" "roving_frame m m' a"
proof -
  define new where "new = \<lparr>ae_addr = next_addr m, ind = i, ae_value = v\<rparr>"
  define a' where "a' = a\<lparr>elements := elements a @ [new], max_index := i, num_elements := num_elements a + 1\<rparr>"
  define m' where "m' = m\<lparr>next_addr := next_addr m + 1, lastref := Some (a_addr a, next_addr m)\<rparr>"
  note D = array_invD [OF inv]
  have less: "\<forall>e\<in>set (elements a). ind e < i"
    using last_index_le [OF D(1)] i(1) D(3) by simp
  have nd: "i \<notin> ind ` set (elements a)" using less by auto
  have "fresh_addrs m' (elements a @ [new])"
    using D(4) by (auto simp: fresh_addrs_def m'_def new_def)
  moreover have "roving_ok m' a'"
    by (simp add: roving_ok_def m'_def a'_def new_def)
  ultimately have "array_inv m' a'"
    using D(1,2) less i by (simp add: array_inv_def a'_def new_def last_index_def)
  moreover have "array_lookup a' = (array_lookup a)(i \<mapsto> v)"
    using elem_map_None [OF nd]
    by (auto simp: array_lookup_def a'_def new_def map_add_def fun_eq_iff split: option.splits)
  moreover have "array_insert (Some a) i v m = Some (0, Some a', m')"
    using i(1) by (simp add: array_insert_def array_create_element_def a'_def new_def m'_def SET_LASTREF_def)
  ultimately show thesis
    using that [of a' m'] by (simp add: a'_def m'_def roving_frame_def)
qed

lemma array_insert_middle:
  assumes inv: "array_inv m a" and i: "\<not> max_index a < i" "0 \<le> i" "i \<le> INTMAX_MAX"
  obtains a' m' where "array_insert (Some a) i v m = Some (0, Some a', m')" "array_inv m' a'"
    "a_addr a' = a_addr a" "array_lookup a' = (array_lookup a)(i \<mapsto> v)" "roving_frame m m' a"
proof -
  define new where "new = \<lparr>ae_addr = next_addr m, ind = i, ae_value = v\<rparr>"
  define m1 where "m1 = m\<lparr>next_addr := next_addr m + 1\<rparr>"
  note D = array_invD [OF inv]
  have inv1: "array_inv m1 a"
    using inv by (auto simp: m1_def array_inv_def fresh_addrs_def roving_ok_def)
  obtain p where p: "LASTREF_START a i m1 = Some p" "p \<le> length (elements a)"
    "\<forall>e\<in>set (take p (elements a)). ind e < i"
    using LASTREF_START_spec [OF inv1] by blast
  define pre where "pre = take p (elements a)"
  define suf where "suf = drop p (elements a)"
  have es: "elements a = pre @ suf" by (simp add: pre_def suf_def)
  have p3: "\<forall>e\<in>set pre. ind e < i" using p(3) by (simp add: pre_def)
  have sorted: "sorted_inds (pre @ suf)" using D(1) es by simp
  have ne: "suf \<noteq> []"
  proof
    assume "suf = []"
    then have "pre = elements a" using es by simp
    moreover have "elements a \<noteq> []" using i D(3) by (auto simp: last_index_def)
    ultimately have "ind (last (elements a)) < i" using p3 by simp
    then show False using i D(3) \<open>elements a \<noteq> []\<close> by (simp add: last_index_def)
  qed
  have li: "last_index (elements a) = last_index suf"
    using ne es by (auto simp: last_index_def)
  obtain es' added r where e: "insert_loop new suf = Some (es', added, r)" "sorted_inds es'"
    "elem_map es' = (elem_map suf)(ind new \<mapsto> ae_value new)" "last_index es' = last_index suf"
    using insert_loop_spec [of suf new] sorted i D(3) li unfolding sorted_inds_append
    by (auto simp: new_def)
  note s = insert_loop_set [OF e(1)]
  define a' where "a' = a\<lparr>elements := pre @ es', num_elements := num_elements a + (if added then 1 else 0)\<rparr>"
  define m' where "m' = m1\<lparr>lastref := Some (a_addr a, r)\<rparr>"
  have ne': "es' \<noteq> []" using s by auto
  have less: "ind x < ind y" if "x \<in> set pre" "y \<in> set es'" for x y
    using s that p3 sorted unfolding sorted_inds_append by (force simp: new_def)
  have fr: "distinct (map ae_addr (pre @ suf))" "\<forall>e\<in>set (pre @ suf). ae_addr e < next_addr m"
    using D(4) unfolding fresh_addrs_def es by simp_all
  have newfr: "ae_addr new \<notin> ae_addr ` set (pre @ suf)"
    using fr(2) unfolding new_def by (auto dest: bspec)
  have "fresh_addrs m' (pre @ es')"
  proof -
    have d: "distinct (map ae_addr es')" using s fr(1) newfr by (simp add: image_Un)
    have sub: "ae_addr ` set es' \<subseteq> insert (next_addr m) (ae_addr ` set suf)"
      using s by (simp add: new_def)
    have "ae_addr ` set pre \<inter> ae_addr ` set es' = {}"
    proof -
      have "ae_addr ` set pre \<inter> ae_addr ` set suf = {}" "next_addr m \<notin> ae_addr ` set pre"
        using fr(1) newfr by (simp_all add: new_def image_Un)
      moreover have "ae_addr ` set pre \<inter> ae_addr ` set es' \<subseteq>
          ae_addr ` set pre \<inter> insert (next_addr m) (ae_addr ` set suf)"
        using sub by (intro Int_mono order_refl)
      ultimately show ?thesis by simp
    qed
    moreover have "\<forall>e\<in>set es'. ae_addr e < next_addr m + 1"
    proof
      fix e assume "e \<in> set es'"
      then have "ae_addr e \<in> insert (next_addr m) (ae_addr ` set suf)" using sub by blast
      then show "ae_addr e < next_addr m + 1" using fr(2) by (auto simp: less_Suc_eq)
    qed
    ultimately show ?thesis
      using d fr by (auto simp: fresh_addrs_def m'_def m1_def intro: less_SucI)
  qed
  moreover have "roving_ok m' a'"
    using s by (auto simp: roving_ok_def m'_def a'_def)
  moreover have "length (elements a) = length pre + length suf" using es by simp
  ultimately have "array_inv m' a'"
    using D(2,3) s e(2,4) less li ne' ne sorted unfolding sorted_inds_append
    by (simp add: array_inv_def a'_def last_index_def)
  moreover have "array_lookup a' = (array_lookup a)(i \<mapsto> v)"
  proof
    fix k
    have "elem_map pre i = None" using p3 by (intro elem_map_None) auto
    then show "array_lookup a' k = ((array_lookup a)(i \<mapsto> v)) k"
      using e(3) arg_cong [OF es, of elem_map]
      by (simp add: array_lookup_def a'_def new_def map_add_def split: option.splits)
  qed
  moreover have "array_insert (Some a) i v m = Some (0, Some a', m')"
    using i(1) p(1) e(1)
    by (simp add: array_insert_def array_create_element_def a'_def new_def m'_def m1_def
        SET_LASTREF_def pre_def suf_def)
  ultimately show thesis
    using that [of a' m'] by (simp add: a'_def m'_def m1_def roving_frame_def)
qed

lemma array_insert_spec:
  assumes "array_inv m a" and "0 \<le> i" and "i \<le> INTMAX_MAX"
  obtains a' m' where "array_insert (Some a) i v m = Some (0, Some a', m')" "array_inv m' a'"
    "a_addr a' = a_addr a" "array_lookup a' = (array_lookup a)(i \<mapsto> v)" "roving_frame m m' a"
proof (cases "max_index a < i")
  case True
  then show thesis using array_insert_end [OF assms(1) _ assms(2,3)] that by blast
next
  case False
  then show thesis using array_insert_middle [OF assms(1) _ assms(2,3)] that by blast
qed

lemma find_ind_Some: "find_ind i es = Some q \<Longrightarrow> q < length es \<and> ind (es ! q) = i"
  by (induction es arbitrary: q) (auto split: if_splits)

lemma find_ind_None: "find_ind i es = None \<longleftrightarrow> i \<notin> ind ` set es"
  by (induction es) auto

text \<open>The search from a start below which every index is smaller finds the element, or it is unset.\<close>

lemma find_ind_suffix:
  assumes sorted: "sorted_inds es" and "p \<le> length es" and "\<forall>e\<in>set (take p es). ind e < i"
  shows "case find_ind i (drop p es) of
      None \<Rightarrow> elem_map es i = None
    | Some q \<Rightarrow> p + q < length es \<and> ind (es ! (p + q)) = i \<and> elem_map es i = Some (ae_value (es ! (p + q)))"
proof (cases "find_ind i (drop p es)")
  case None
  then have "i \<notin> ind ` set (drop p es)" by (simp add: find_ind_None)
  moreover have "i \<notin> ind ` set (take p es)" using assms(3) by auto
  ultimately have "i \<notin> ind ` set (take p es @ drop p es)" unfolding set_append by blast
  then have "i \<notin> ind ` set es" unfolding append_take_drop_id .
  then show ?thesis using None by (simp add: elem_map_None)
next
  case (Some q)
  then have q: "p + q < length es" "ind (es ! (p + q)) = i"
    using find_ind_Some [OF Some] assms(2) by auto
  have "distinct (map fst (map (\<lambda>e. (ind e, ae_value e)) es))"
    using sorted_inds_distinct [OF sorted] by (simp add: comp_def)
  moreover have "(i, ae_value (es ! (p + q))) \<in> set (map (\<lambda>e. (ind e, ae_value e)) es)"
    using q by (force simp: in_set_conv_nth)
  ultimately have "elem_map es i = Some (ae_value (es ! (p + q)))"
    unfolding elem_map_def by (rule map_of_is_SomeI)
  with Some q show ?thesis by simp
qed

lemma array_reference_spec:
  assumes inv: "array_inv m a"
  obtains m' where "array_reference (Some a) i m = Some (Option.bind (array_lookup a i) id, m')"
    "array_inv m' a" "roving_frame m m' a"
proof (cases "array_empty a \<or> max_index a < i")
  case True
  note D = array_invD [OF inv]
  have "i \<notin> ind ` set (elements a)"
    using True D(2,3) last_index_le [OF D(1), of i] by (auto simp: array_empty_def)
  then show thesis
    using True inv that [of m] by (auto simp: array_reference_def array_lookup_def elem_map_None roving_frame_def)
next
  case False
  obtain p where p: "LASTREF_START a i m = Some p" "p \<le> length (elements a)"
    "\<forall>e\<in>set (take p (elements a)). ind e < i"
    using LASTREF_START_spec [OF inv] by blast
  note f = find_ind_suffix [OF array_invD(1) [OF inv] p(2,3)]
  show thesis
  proof (cases "find_ind i (drop p (elements a))")
    case None
    then show thesis
      using False p f inv that [of "UNSET_LASTREF m"]
      by (simp add: array_reference_def array_lookup_def UNSET_LASTREF_def roving_frame_def
          array_inv_def roving_ok_def fresh_addrs_def)
  next
    case (Some q)
    then show thesis
      using False p f inv that [of "SET_LASTREF a (ae_addr (elements a ! (p + q))) m"]
      by (simp add: array_reference_def array_lookup_def SET_LASTREF_def roving_frame_def
          array_inv_def roving_ok_def fresh_addrs_def)
  qed
qed

lemma elem_map_delete:
  assumes "sorted_inds (xs @ e # ys)"
  shows "elem_map (xs @ ys) = (elem_map (xs @ e # ys))(ind e := None)"
proof
  fix k
  have "elem_map ys (ind e) = None" "elem_map xs (ind e) = None"
    using assms by (force intro: elem_map_None)+
  then show "elem_map (xs @ ys) k = ((elem_map (xs @ e # ys))(ind e := None)) k"
    by (simp add: map_add_def split: option.splits)
qed

lemma last_index_delete:
  assumes "sorted_inds (xs @ e # ys)"
  shows "last_index (xs @ ys) =
    (if ind e = last_index (xs @ e # ys) then (if xs = [] then -1 else ind (last xs))
     else last_index (xs @ e # ys))"
proof (cases "ys = []")
  case True
  then show ?thesis by (simp add: last_index_def)
next
  case False
  then have "ind e < ind (last ys)" using assms by simp
  with False show ?thesis by (simp add: last_index_def)
qed

lemma array_remove_spec:
  assumes inv: "array_inv m a"
  obtains e a' m' where "array_remove (Some a) i m = Some (e, Some a', m')" "array_inv m' a'"
    "a_addr a' = a_addr a" "array_lookup a' = (array_lookup a)(i := None)" "roving_frame m m' a"
    "map_option ae_value e = array_lookup a i"
proof -
  note D = array_invD [OF inv]
  show thesis
  proof (cases "array_empty a")
    case True
    then have "elements a = []" using D(2) by (simp add: array_empty_def)
    then show thesis
      using True inv that [of None a m] by (simp add: array_remove_def array_lookup_def roving_frame_def fun_upd_idem)
  next
    case ne: False
    obtain p where p: "LASTREF_START a i m = Some p" "p \<le> length (elements a)"
      "\<forall>e\<in>set (take p (elements a)). ind e < i"
      using LASTREF_START_spec [OF inv] by blast
    note f = find_ind_suffix [OF D(1) p(2,3)]
    show thesis
    proof (cases "find_ind i (drop p (elements a))")
      case None
      then show thesis
        using ne p f inv that [of None a m]
        by (simp add: array_remove_def array_lookup_def roving_frame_def fun_upd_idem)
    next
      case (Some q)
      let ?p = "p + q"
      let ?e = "elements a ! ?p" and ?xs = "take ?p (elements a)" and ?ys = "drop (Suc ?p) (elements a)"
      have f': "?p < length (elements a)" "ind ?e = i" "elem_map (elements a) i = Some (ae_value ?e)"
        using f Some by simp_all
      have es: "elements a = ?xs @ ?e # ?ys" using f'(1) by (simp add: id_take_nth_drop)
      define a' where "a' = a\<lparr>elements := ?xs @ ?ys, num_elements := num_elements a - 1,
          max_index := (if i = max_index a then (if ?xs = [] then -1 else ind (last ?xs)) else max_index a)\<rparr>"
      define m' where "m' = (if ?ys \<noteq> [] then SET_LASTREF a (ae_addr (hd ?ys)) m
          else if ?xs \<noteq> [] then SET_LASTREF a (ae_addr (last ?xs)) m else INVALIDATE_LASTREF a m)"
      have sorted: "sorted_inds (?xs @ ?e # ?ys)" using D(1) es by simp
      have "array_remove (Some a) i m = Some (Some ?e, Some a', m')"
        using ne p(1) Some by (simp add: array_remove_def Let_def a'_def m'_def)
      moreover have "array_lookup a' = (array_lookup a)(i := None)"
        using elem_map_delete [OF sorted] es f'(2) by (simp add: array_lookup_def a'_def)
      moreover have "array_inv m' a'"
      proof -
        have "sorted_inds (elements a')" using sorted unfolding sorted_inds_append by (simp add: a'_def)
        moreover have "max_index a' = last_index (elements a')"
          using last_index_delete [OF sorted] es f'(2) D(3) by (simp add: a'_def)
        moreover have "num_elements a' = length (elements a')"
          using D(2) f'(1) by (simp add: a'_def)
        moreover have nx: "next_addr m' = next_addr m"
          by (simp add: m'_def SET_LASTREF_def INVALIDATE_LASTREF_def split: option.split)
        moreover have "fresh_addrs m (?xs @ ?e # ?ys)" using D(4) es by simp
        then have "fresh_addrs m' (elements a')"
          using nx unfolding fresh_addrs_def by (simp add: a'_def)
        moreover have "roving_ok m' a'"
          unfolding m'_def a'_def
          by (auto simp: roving_ok_def SET_LASTREF_def INVALIDATE_LASTREF_def split: option.splits)
        ultimately show ?thesis by (simp add: array_inv_def)
      qed
      moreover have "roving_frame m m' a"
        by (auto simp: roving_frame_def m'_def SET_LASTREF_def INVALIDATE_LASTREF_def split: option.splits)
      ultimately show thesis
        using f'(3) that [of "Some ?e" a' m'] by (simp add: a'_def array_lookup_def)
    qed
  qed
qed

text \<open>Arrays with the memory they live in, as a counted store.\<close>

type_synonym array_world = "array \<times> array_mem"

definition world_inv :: "array_world \<Rightarrow> bool" where
  "world_inv w \<longleftrightarrow> array_inv (snd w) (fst w)"

definition index_ok :: "int \<Rightarrow> bool" where
  "index_ok i \<longleftrightarrow> 0 \<le> i \<and> i \<le> INTMAX_MAX"

definition world_look :: "array_world \<Rightarrow> int \<Rightarrow> cstring option option" where
  "world_look w = array_lookup (fst w)"

definition world_put :: "int \<Rightarrow> cstring option \<Rightarrow> array_world \<Rightarrow> array_world" where
  "world_put i v w =
     (case array_insert (Some (fst w)) i v (snd w) of Some (r, Some a, m) \<Rightarrow> (a, m) | _ \<Rightarrow> w)"

definition world_del :: "int \<Rightarrow> array_world \<Rightarrow> array_world" where
  "world_del i w =
     (case array_remove (Some (fst w)) i (snd w) of Some (e, Some a, m) \<Rightarrow> (a, m) | _ \<Rightarrow> w)"

definition world_count :: "array_world \<Rightarrow> nat" where
  "world_count w = num_elements (fst w)"

lemma world_put:
  assumes "world_inv w" and "index_ok i"
  shows "world_inv (world_put i v w) \<and> world_look (world_put i v w) = (world_look w)(i \<mapsto> v)"
proof -
  obtain a' m' where "array_insert (Some (fst w)) i v (snd w) = Some (0, Some a', m')" "array_inv m' a'"
    "array_lookup a' = (array_lookup (fst w))(i \<mapsto> v)"
    using array_insert_spec [OF assms(1) [unfolded world_inv_def]] assms(2)
    unfolding index_ok_def by blast
  then show ?thesis by (simp add: world_put_def world_inv_def world_look_def)
qed

lemma world_del:
  assumes "world_inv w"
  shows "world_inv (world_del i w) \<and> world_look (world_del i w) = (world_look w)(i := None)"
proof -
  obtain e a' m' where "array_remove (Some (fst w)) i (snd w) = Some (e, Some a', m')" "array_inv m' a'"
    "array_lookup a' = (array_lookup (fst w))(i := None)"
    using array_remove_spec [OF assms [unfolded world_inv_def]] by blast
  then show ?thesis by (simp add: world_del_def world_inv_def world_look_def)
qed

lemma world_count:
  "world_inv w \<Longrightarrow> finite (dom (world_look w)) \<and> world_count w = card (dom (world_look w))"
  using card_elem_map [of "elements (fst w)"]
  by (auto simp: world_inv_def world_look_def world_count_def array_lookup_def array_inv_def dom_elem_map)

interpretation array_store: counted_store world_inv index_ok world_look world_put world_del world_count
  by unfold_locales (simp_all add: world_put world_del world_count)

section \<open>Shifting: contract\<close>

lemma sorted_inds_rank: "sorted_inds es \<Longrightarrow> k < length es \<Longrightarrow> int k \<le> ind (es ! k)"
proof (induction k)
  case 0
  then show ?case by (simp add: sorted_inds_def)
next
  case (Suc k)
  then show ?case using sorted_inds_nth [of es k "Suc k"] by simp
qed

lemma elem_map_shift:
  assumes "\<forall>e\<in>set es. intmax_ok (ind e + d)"
  shows "elem_map (map (shift_index d) es) j = elem_map es (j - d)"
  using assms by (induction es) (auto simp: shift_index_def wrap64_id)

lemma sorted_inds_shift:
  assumes "sorted_inds es" and "\<forall>e\<in>set es. 0 \<le> ind e + d \<and> ind e + d \<le> INTMAX_MAX"
  shows "sorted_inds (map (shift_index d) es)"
  using assms by (induction es) (auto simp: shift_index_def wrap64_id intmax_ok_def int_limits)

lemma last_index_shift:
  assumes "\<forall>e\<in>set es. intmax_ok (ind e + d)" and "es \<noteq> []"
  shows "last_index (map (shift_index d) es) = last_index es + d"
  using assms by (simp add: last_index_def last_map shift_index_def wrap64_id)

lemma shift_index_addr [simp]: "ae_addr (shift_index d e) = ae_addr e" "ae_value (shift_index d e) = ae_value e"
  by (simp_all add: shift_index_def)

lemma fresh_addrs_shift: "fresh_addrs m (map (shift_index d) es) = fresh_addrs m es"
  by (simp add: fresh_addrs_def comp_def)

lemma fresh_addrs_append:
  "fresh_addrs m (xs @ ys) \<Longrightarrow> fresh_addrs m xs \<and> fresh_addrs m ys"
  by (auto simp: fresh_addrs_def)

lemma invalidate_facts [simp]:
  "next_addr (INVALIDATE_LASTREF a m) = next_addr m"
  "roving_frame m (INVALIDATE_LASTREF a m) a"
  by (auto simp: INVALIDATE_LASTREF_def roving_frame_def split: option.split)

lemma invalidate_roving: "a_addr a' = a_addr a \<Longrightarrow> roving_ok (INVALIDATE_LASTREF a m) a'"
  by (auto simp: INVALIDATE_LASTREF_def roving_ok_def split: option.splits)

lemma array_shift_spec:
  assumes inv: "array_inv m a" and n: "0 < n" and ne: "elements a \<noteq> []"
  obtains a' m' where
    "array_shift (Some a) n flags m =
       (if flags AND AS_DISPOSE \<noteq> 0 then [] else take (nat n) (elements a), Some a', m')"
    "array_inv m' a'" "a_addr a' = a_addr a" "roving_frame m m' a"
    "elements a' = map (shift_index (- n)) (drop (nat n) (elements a))"
    "\<And>j. array_lookup a' j = elem_map (drop (nat n) (elements a)) (j + n)"
proof -
  note D = array_invD [OF inv]
  let ?ae = "drop (nat n) (elements a)"
  have split: "elements a = take (nat n) (elements a) @ ?ae" by simp
  have nempty: "\<not> array_empty a" using ne D(2) by (simp add: array_empty_def)
  show thesis
  proof (cases "?ae = []")
    case True
    let ?a' = "a\<lparr>elements := [], max_index := -1, num_elements := 0\<rparr>"
    have twice: "INVALIDATE_LASTREF a (INVALIDATE_LASTREF a m) = INVALIDATE_LASTREF a m"
      by (auto simp: INVALIDATE_LASTREF_def split: option.splits)
    show thesis
    proof (rule that [of ?a' "INVALIDATE_LASTREF a m"])
      show "array_shift (Some a) n flags m =
          (if flags AND AS_DISPOSE \<noteq> 0 then [] else take (nat n) (elements a), Some ?a', INVALIDATE_LASTREF a m)"
        using True n nempty by (simp add: array_shift_def Let_def array_flush_def twice)
      show "array_inv (INVALIDATE_LASTREF a m) ?a'"
        by (simp add: array_inv_def last_index_def fresh_addrs_def invalidate_roving)
    qed (use True in \<open>simp_all add: array_lookup_def\<close>)
  next
    case False
    let ?es = "map (shift_index (- n)) ?ae"
    let ?a' = "a\<lparr>elements := ?es, num_elements := num_elements a - nat n, max_index := ind (last ?es)\<rparr>"
    have sorted: "sorted_inds ?ae" using D(1) split by (metis sorted_inds_append)
    have low: "n \<le> ind e" if "e \<in> set ?ae" for e
    proof -
      from that obtain k where "k < length ?ae" "e = ?ae ! k" by (auto simp: in_set_conv_nth)
      then have "nat n + k < length (elements a)" "e = elements a ! (nat n + k)" by simp_all
      then show ?thesis using sorted_inds_rank [OF D(1), of "nat n + k"] n by simp
    qed
    have high: "ind e \<le> INTMAX_MAX" if "e \<in> set ?ae" for e
      using sorted that by (simp add: sorted_inds_def)
    have ok: "\<forall>e\<in>set ?ae. 0 \<le> ind e + - n \<and> ind e + - n \<le> INTMAX_MAX"
      using low high n by fastforce
    then have ok': "\<forall>e\<in>set ?ae. intmax_ok (ind e + - n)"
      unfolding intmax_ok_def int_limits by fastforce
    show thesis
    proof (rule that [of ?a' "INVALIDATE_LASTREF a m"])
      show "array_shift (Some a) n flags m =
          (if flags AND AS_DISPOSE \<noteq> 0 then [] else take (nat n) (elements a), Some ?a', INVALIDATE_LASTREF a m)"
        using False n nempty by (simp add: array_shift_def Let_def)
      show "array_inv (INVALIDATE_LASTREF a m) ?a'"
      proof -
        have "fresh_addrs m ?ae"
          using D(4) fresh_addrs_append [of m "take (nat n) (elements a)" ?ae] by simp
        then have "fresh_addrs (INVALIDATE_LASTREF a m) ?es"
          by (simp add: fresh_addrs_def comp_def)
        moreover have "last_index ?es = ind (last ?es)" using False by (simp add: last_index_def)
        ultimately show ?thesis
          using sorted_inds_shift [OF sorted ok] D(2) by (simp add: array_inv_def invalidate_roving)
      qed
      show "array_lookup ?a' j = elem_map ?ae (j + n)" for j
        using elem_map_shift [OF ok'] by (simp add: array_lookup_def)
    qed simp_all
  qed
qed

lemma array_shift_keep:
  assumes "array_inv m a" and "0 < n" and "elements a \<noteq> []"
  shows "\<exists>a' m'. array_shift (Some a) n 0 m = (take (nat n) (elements a), Some a', m') \<and> array_inv m' a' \<and>
    (\<forall>j. array_lookup a' j = elem_map (drop (nat n) (elements a)) (j + n))"
proof (rule array_shift_spec [OF assms, of 0])
  fix a' m'
  assume "array_shift (Some a) n 0 m =
       (if 0 AND AS_DISPOSE \<noteq> 0 then [] else take (nat n) (elements a), Some a', m')"
    and "array_inv m' a'" and "\<And>j. array_lookup a' j = elem_map (drop (nat n) (elements a)) (j + n)"
  then show ?thesis by auto
qed

lemma array_rshift_spec:
  assumes inv: "array_inv m a" and n: "0 < n" and bound: "max_index a + n \<le> INTMAX_MAX"
  obtains a' m' where "array_rshift (Some a) n (Some v) m = (int (num_elements a) + 1, Some a', m')"
    "array_inv m' a'" "a_addr a' = a_addr a" "roving_frame m m' a"
    "elements a' = \<lparr>ae_addr = next_addr m, ind = 0, ae_value = Some v\<rparr> # map (shift_index n) (elements a)"
proof -
  note D = array_invD [OF inv]
  define new where "new = \<lparr>ae_addr = next_addr m, ind = 0, ae_value = Some v\<rparr>"
  define m1 where "m1 = m\<lparr>next_addr := next_addr m + 1\<rparr>"
  let ?es = "map (shift_index n) (elements a)"
  have high: "ind e \<le> max_index a" if "e \<in> set (elements a)" for e
    using sorted_last [OF D(1) that] D(3) by simp
  have low: "0 \<le> ind e" if "e \<in> set (elements a)" for e
    using D(1) that by (simp add: sorted_inds_def)
  have ok: "\<forall>e\<in>set (elements a). 0 \<le> ind e + n \<and> ind e + n \<le> INTMAX_MAX"
    using low high n bound by fastforce
  then have ok': "\<forall>e\<in>set (elements a). intmax_ok (ind e + n)"
    unfolding intmax_ok_def int_limits by fastforce
  have pos: "\<forall>e\<in>set ?es. 0 < ind e"
    using low n ok' by (fastforce simp: shift_index_def wrap64_id)
  have sorted: "sorted_inds (new # ?es)"
    using sorted_inds_shift [OF D(1) ok] pos by (simp add: new_def int_limits)
  have fresh: "fresh_addrs m1 (new # ?es)"
    using D(4) by (auto simp: fresh_addrs_def new_def m1_def comp_def)
  show thesis
  proof (cases "elements a = []")
    case True
    let ?a' = "a\<lparr>elements := [new], num_elements := 1, max_index := 0\<rparr>"
    have num: "num_elements a = 0" using D(2) True by simp
    have "roving_ok m1 ?a'"
      using D(5) True by (auto simp: roving_ok_def m1_def split: option.splits)
    then have "array_inv m1 ?a'"
      using fresh True by (simp add: array_inv_def last_index_def new_def int_limits)
    moreover have "array_rshift (Some a) n (Some v) m = (1, Some ?a', m1)"
      using n True num by (simp add: array_rshift_def array_create_element_def Let_def new_def m1_def)
    ultimately show thesis
      using that [of ?a' m1] True num by (simp add: new_def m1_def roving_frame_def)
  next
    case False
    let ?a' = "a\<lparr>elements := new # ?es, num_elements := num_elements a + 1, max_index := ind (last ?es)\<rparr>"
    have num: "num_elements a \<noteq> 0" using D(2) False by simp
    have "last_index (new # ?es) = ind (last ?es)" using False by (simp add: last_index_def)
    then have "array_inv (INVALIDATE_LASTREF a m1) ?a'"
      using sorted fresh D(2) by (simp add: array_inv_def invalidate_roving fresh_addrs_def)
    moreover have "array_rshift (Some a) n (Some v) m =
        (int (num_elements a) + 1, Some ?a', INVALIDATE_LASTREF a m1)"
      using n False num by (simp add: array_rshift_def array_create_element_def Let_def new_def m1_def)
    moreover have "roving_frame m (INVALIDATE_LASTREF a m1) a"
      by (auto simp: roving_frame_def m1_def INVALIDATE_LASTREF_def split: option.split)
    ultimately show thesis
      using that [of ?a' "INVALIDATE_LASTREF a m1"] by (simp add: new_def)
  qed
qed

section \<open>Histories\<close>

datatype array_cmd = Assign int "cstring option" | Unset int | Fetch int

primrec array_step :: "array_cmd \<Rightarrow> array_world \<Rightarrow> array_world option" where
  "array_step (Assign i v) w =
     Option.bind (array_insert (Some (fst w)) i v (snd w))
       (\<lambda>(r, a, m). map_option (\<lambda>a'. (a', m)) a)"
| "array_step (Unset i) w =
     Option.bind (array_remove (Some (fst w)) i (snd w))
       (\<lambda>(e, a, m). map_option (\<lambda>a'. (a', m)) a)"
| "array_step (Fetch i) w =
     Option.bind (array_reference (Some (fst w)) i (snd w)) (\<lambda>(v, m). Some (fst w, m))"

primrec array_run :: "array_cmd list \<Rightarrow> array_world \<Rightarrow> array_world option" where
  "array_run [] w = Some w"
| "array_run (c # cs) w = Option.bind (array_step c w) (array_run cs)"

primrec cmd_effect :: "array_cmd \<Rightarrow> (int, cstring option) store_op list" where
  "cmd_effect (Assign i v) = [Put i v]"
| "cmd_effect (Unset i) = [Del i]"
| "cmd_effect (Fetch i) = []"

definition cmd_ok :: "array_cmd \<Rightarrow> bool" where
  "cmd_ok c \<longleftrightarrow> (case c of Assign i v \<Rightarrow> index_ok i | _ \<Rightarrow> True)"

lemma array_step_spec:
  assumes inv: "world_inv w" and c: "cmd_ok c"
  obtains w' where "array_step c w = Some w'" "world_inv w'" "a_addr (fst w') = a_addr (fst w)"
    "world_look w' = map_ops (cmd_effect c) (world_look w)" "roving_frame (snd w) (snd w') (fst w)"
proof (cases c)
  case (Assign i v)
  then show thesis
    using array_insert_spec [OF inv [unfolded world_inv_def], of i v] c that
    by (fastforce simp: cmd_ok_def index_ok_def world_inv_def world_look_def)
next
  case (Unset i)
  then show thesis
    using array_remove_spec [OF inv [unfolded world_inv_def], of i] that
    by (fastforce simp: world_inv_def world_look_def)
next
  case (Fetch i)
  then show thesis
    using array_reference_spec [OF inv [unfolded world_inv_def], of i] that
    by (fastforce simp: world_inv_def world_look_def)
qed

lemma map_ops_append: "map_ops (xs @ ys) m = map_ops ys (map_ops xs m)"
  by (induction xs arbitrary: m) simp_all

lemma roving_frame_trans:
  "roving_frame m1 m2 a \<Longrightarrow> roving_frame m2 m3 a' \<Longrightarrow> a_addr a' = a_addr a \<Longrightarrow> roving_frame m1 m3 a"
  by (auto simp: roving_frame_def)

lemma array_run_spec:
  assumes "world_inv w" and "\<forall>c\<in>set cs. cmd_ok c"
  shows "\<exists>w'. array_run cs w = Some w' \<and> world_inv w' \<and> a_addr (fst w') = a_addr (fst w) \<and>
    world_look w' = map_ops (concat (map cmd_effect cs)) (world_look w) \<and>
    roving_frame (snd w) (snd w') (fst w)"
  using assms
proof (induction cs arbitrary: w)
  case Nil
  then show ?case by (simp add: roving_frame_def)
next
  case (Cons c cs)
  have c: "cmd_ok c" "\<forall>c\<in>set cs. cmd_ok c" using Cons.prems(2) by simp_all
  obtain w1 where w1: "array_step c w = Some w1" "world_inv w1" "a_addr (fst w1) = a_addr (fst w)"
    "world_look w1 = map_ops (cmd_effect c) (world_look w)" "roving_frame (snd w) (snd w1) (fst w)"
    using array_step_spec [OF Cons.prems(1) c(1)] by blast
  obtain w' where w': "array_run cs w1 = Some w'" "world_inv w'" "a_addr (fst w') = a_addr (fst w1)"
    "world_look w' = map_ops (concat (map cmd_effect cs)) (world_look w1)"
    "roving_frame (snd w1) (snd w') (fst w1)"
    using Cons.IH [OF w1(2) c(2)] by blast
  have "roving_frame (snd w) (snd w') (fst w)"
    by (rule roving_frame_trans [OF w1(5) w'(5) w1(3)])
  then show ?case
    using w1 w' by (simp add: map_ops_append)
qed

lemma array_create_inv:
  assumes "\<And>r. lastref m \<noteq> Some (next_addr m, r)"
  shows "world_inv (array_create m)"
  using assms
  by (auto simp: world_inv_def array_create_def array_inv_def last_index_def fresh_addrs_def roving_ok_def
      split: option.splits)

definition empty_mem :: array_mem where
  "empty_mem = \<lparr>next_addr = 0, lastref = None\<rparr>"

section \<open>Word lists, joined values, assignment text\<close>

lemma array_insert_append:
  "max_index a < i \<Longrightarrow> \<exists>e m'. array_insert (Some a) i v m =
     Some (0, Some (a\<lparr>elements := elements a @ [e], max_index := i, num_elements := num_elements a + 1\<rparr>), m') \<and>
     ind e = i \<and> ae_value e = v"
  by (intro exI [of _ "fst (array_create_element i v m)"])
    (simp add: array_insert_def array_create_element_def)

lemma assign_list_from_append:
  "max_index a = i - 1 \<Longrightarrow> num_elements a = length (elements a) \<Longrightarrow>
   \<exists>a' m'. assign_list_from i ws (Some a) m = Some (Some a', m') \<and>
     num_elements a' = length (elements a') \<and>
     map ae_value (elements a') = map ae_value (elements a) @ map (Some \<circ> word) ws \<and>
     map ind (elements a') = map ind (elements a) @ map (\<lambda>k. i + int k) [0..<length ws]"
proof (induction ws arbitrary: a m i)
  case Nil
  then show ?case by simp
next
  case (Cons w ws)
  obtain e m1 where e: "array_insert (Some a) i (Some (word w)) m =
     Some (0, Some (a\<lparr>elements := elements a @ [e], max_index := i, num_elements := num_elements a + 1\<rparr>), m1)"
     "ind e = i" "ae_value e = Some (word w)"
    using array_insert_append [of a i "Some (word w)" m] Cons.prems(1) by auto
  let ?a = "a\<lparr>elements := elements a @ [e], max_index := i, num_elements := num_elements a + 1\<rparr>"
  obtain a' m' where a': "assign_list_from (i + 1) ws (Some ?a) m1 = Some (Some a', m')"
    "num_elements a' = length (elements a')"
    "map ae_value (elements a') = map ae_value (elements ?a) @ map (Some \<circ> word) ws"
    "map ind (elements a') = map ind (elements ?a) @ map (\<lambda>k. i + 1 + int k) [0..<length ws]"
    using Cons.IH [of ?a "i + 1" m1] Cons.prems by auto
  have "map (\<lambda>k. i + int k) [0..<length (w # ws)] = i # map (\<lambda>k. i + 1 + int k) [0..<length ws]"
    by (simp add: upt_conv_Cons map_Suc_upt [symmetric] comp_def del: upt_Suc)
  then show ?case
    using e a' by simp
qed

definition values_set :: "array_element list \<Rightarrow> bool" where
  "values_set es \<longleftrightarrow> (\<forall>e\<in>set es. ae_value e \<noteq> None)"

lemma values_set_simps [simp]:
  "values_set []" "values_set (e # es) \<longleftrightarrow> ae_value e \<noteq> None \<and> values_set es"
  by (auto simp: values_set_def)

lemma value_words_eq:
  "values_set es \<Longrightarrow> value_words es l = Some (rev (map (\<lambda>e. make_bare_word (the (ae_value e))) es) @ l)"
  by (induction es arbitrary: l) auto

lemma apply_values_eq:
  "values_set es \<Longrightarrow>
   apply_values f es = Some (map (\<lambda>e. e\<lparr>ae_value := map_option f (ae_value e)\<rparr>) es)"
  by (induction es) auto

lemma copy_elements_same:
  "map ind (fst (copy_elements es m)) = map ind es \<and>
   map ae_value (fst (copy_elements es m)) = map ae_value es"
  by (induction es arbitrary: m) (simp_all add: Let_def array_create_element_def split_def)

lemma values_set_values: "values_set es \<longleftrightarrow> None \<notin> set (map ae_value es)"
  unfolding values_set_def by (auto simp: image_iff) (metis not_Some_eq)

fun join_strings :: "cstring \<Rightarrow> cstring list \<Rightarrow> cstring" where
  "join_strings sep [] = []"
| "join_strings sep (s # ss) = s @ (if ss = [] then [] else sep) @ join_strings sep ss"

lemma string_elements_join:
  "values_set es \<Longrightarrow> string_elements es sep False = join_strings sep (map (the \<circ> ae_value) es)"
  by (induction es) auto

lemma drop_first_from: "drop (first_from start es) es = dropWhile (\<lambda>e. ind e < start) es"
  by (induction es) auto

lemma first_from_length: "first_from start es = length es \<longleftrightarrow> dropWhile (\<lambda>e. ind e < start) es = []"
  by (induction es) auto

text \<open>A copied range, quoted and joined.\<close>

lemma array_slice_elements:
  "map ae_value (elements (fst (array_slice a p q m))) = map ae_value (take (q - p) (drop p (elements a))) \<and>
   num_elements (fst (array_slice a p q m)) = length (elements (fst (array_slice a p q m)))"
  using copy_elements_same [of "take (q - p) (drop p (elements a))" "snd (array_create m)"]
  by (simp add: array_slice_def Let_def split_def)

lemma apply_array_join:
  assumes "values_set (elements b)" and "num_elements b = length (elements b)"
  shows "\<exists>b'. apply_array f (Some b) = Some b' \<and>
    array_to_string (if b' = None then Some b else b') sep False =
      Some (join_strings sep (map (f \<circ> the \<circ> ae_value) (elements b)))"
proof (cases "elements b = []")
  case True
  then show ?thesis using assms(2) by (simp add: apply_array_def array_empty_def array_to_string_def)
next
  case False
  let ?es = "map (\<lambda>e. e\<lparr>ae_value := map_option f (ae_value e)\<rparr>) (elements b)"
  have v: "values_set ?es" using assms(1) by (simp add: values_set_def)
  have eq: "map (the \<circ> ae_value) ?es = map (f \<circ> the \<circ> ae_value) (elements b)"
    using assms(1) by (fastforce simp: values_set_def)
  have "string_elements ?es sep False = join_strings sep (map (f \<circ> the \<circ> ae_value) (elements b))"
    by (simp only: string_elements_join [OF v] eq)
  then have "array_to_string (Some (b\<lparr>elements := ?es\<rparr>)) sep False =
      Some (join_strings sep (map (f \<circ> the \<circ> ae_value) (elements b)))"
    using False assms(2) by (simp add: array_to_string_def array_empty_def array_to_string_internal_def)
  moreover have "apply_array f (Some b) = Some (Some (b\<lparr>elements := ?es\<rparr>))"
    using False assms by (simp add: apply_array_def array_empty_def apply_values_eq)
  ultimately show ?thesis by (intro exI [of _ "Some (b\<lparr>elements := ?es\<rparr>)"]) simp
qed

text \<open>One \<open>[index]=value\<close> of the assignment text.\<close>

definition elem_text :: "array_element \<Rightarrow> cstring \<Rightarrow> bool" where
  "elem_text e piece \<longleftrightarrow>
     (\<exists>ks vs. piece = ''['' @ ks @ '']='' @ vs \<and> legal_number (Some ks) = Some (ind e) \<and>
              shell_word vs = Some (case ae_value e of None \<Rightarrow> [] | Some v \<Rightarrow> v))"

definition plain_values :: "array_element list \<Rightarrow> bool" where
  "plain_values es \<longleftrightarrow> (\<forall>e\<in>set es. \<forall>v. ae_value e = Some v \<longrightarrow> no_markers v)"

lemma itos_reads: "intmax_ok i \<Longrightarrow> legal_number (Some (itos i)) = Some i"
  using itos_reads_back [of i] by (auto simp: itos_def)

lemma assign_elements_read:
  "\<forall>e\<in>set es. intmax_ok (ind e) \<Longrightarrow> plain_values es \<Longrightarrow>
   \<exists>pieces. assign_elements es result = Some (result @ join_strings '' '' pieces) \<and>
     list_all2 elem_text es pieces"
proof (induction es arbitrary: result)
  case Nil
  then show ?case by simp
next
  case (Cons e es)
  have pv: "plain_values es" using Cons.prems(2) by (simp add: plain_values_def)
  have "\<And>d. ae_value e = Some d \<Longrightarrow> no_markers d" using Cons.prems(2) by (simp add: plain_values_def)
  then obtain vs where vs: "assign_value (ae_value e) = Some vs"
    "shell_word vs = Some (case ae_value e of None \<Rightarrow> [] | Some d \<Rightarrow> d)"
    using assign_value_read [of "ae_value e"] by blast
  define piece where "piece = ''['' @ itos (ind e) @ '']='' @ vs"
  have e: "elem_text e piece"
    using vs(2) itos_reads [of "ind e"] Cons.prems(1) unfolding elem_text_def piece_def by auto
  let ?r = "result @ piece @ (if es = [] then [] else '' '')"
  obtain pieces where p: "assign_elements es ?r = Some (?r @ join_strings '' '' pieces)"
    "list_all2 elem_text es pieces"
    using Cons.IH [of ?r] Cons.prems(1) pv by auto
  have "pieces = [] \<longleftrightarrow> es = []" using p(2) by auto
  then have "assign_elements (e # es) result = Some (result @ join_strings '' '' (piece # pieces))"
    using vs(1) p(1) by (simp add: piece_def)
  with e p(2) show ?case by (metis list_all2_Cons)
qed

section \<open>Properties\<close>

text \<open>
  C17. Any history of \<^verbatim>\<open>array_insert\<close>, \<^verbatim>\<open>array_remove\<close> and \<^verbatim>\<open>array_reference\<close> with valid indices
  on a new array never follows a stale roving pointer, keeps the array well formed (sorted
  indices, \<^verbatim>\<open>max_index\<close>, \<^verbatim>\<open>num_elements\<close>) and answers as the sparse map of the history.
\<close>

theorem array_history_refines_map:
  assumes "\<forall>c\<in>set cs. cmd_ok c"
  shows "\<exists>a m. array_run cs (array_create empty_mem) = Some (a, m) \<and> array_inv m a \<and>
    num_elements a = card (dom (map_ops (concat (map cmd_effect cs)) Map.empty)) \<and>
    (\<forall>i. map_option fst (array_reference (Some a) i m) =
          Some (Option.bind (map_ops (concat (map cmd_effect cs)) Map.empty i) id))"
proof -
  let ?M = "map_ops (concat (map cmd_effect cs)) Map.empty"
  have inv: "world_inv (array_create empty_mem)" by (rule array_create_inv) (simp add: empty_mem_def)
  have "world_look (array_create empty_mem) = Map.empty"
    by (simp add: world_look_def array_lookup_def array_create_def)
  then obtain w where w: "array_run cs (array_create empty_mem) = Some w" "world_inv w" "world_look w = ?M"
    using array_run_spec [OF inv assms] by auto
  have "map_option fst (array_reference (Some (fst w)) i (snd w)) = Some (Option.bind (?M i) id)" for i
    using array_reference_spec [OF w(2) [unfolded world_inv_def], of i] w(3)
    by (auto simp: world_look_def)
  moreover have "num_elements (fst w) = card (dom ?M)"
    using array_store.count_look [OF w(2)] w(3) by (simp add: world_count_def)
  ultimately show ?thesis
    using w by (intro exI [of _ "fst w"] exI [of _ "snd w"]) (simp add: world_inv_def)
qed

theorem array_history_refines_map_witness:
  "\<exists>a m. array_run [Assign 5 (Some ''x''), Fetch 5, Assign 2 (Some ''y''), Unset 5, Fetch 2]
      (array_create empty_mem) = Some (a, m) \<and> num_elements a = 1"
  using array_history_refines_map [of "[Assign 5 (Some ''x''), Fetch 5, Assign 2 (Some ''y''), Unset 5, Fetch 2]"]
  by (auto simp: cmd_ok_def index_ok_def int_limits)

text \<open>
  The roving pointer is shared by all arrays: a history on one array leaves every other array
  well formed, so that a later reference into the other array gives the value it had.
\<close>

theorem array_history_other_array:
  assumes "array_inv m a" and "array_inv m b" and "a_addr a \<noteq> a_addr b" and "\<forall>c\<in>set cs. cmd_ok c"
  shows "\<exists>a' m'. array_run cs (a, m) = Some (a', m') \<and> array_inv m' b \<and>
    map_option fst (array_reference (Some b) i m') = Some (Option.bind (array_lookup b i) id)"
proof -
  obtain w where w: "array_run cs (a, m) = Some w" "roving_frame m (snd w) a"
    using array_run_spec [of "(a, m)" cs] assms(1,4) by (auto simp: world_inv_def)
  have b: "array_inv (snd w) b"
    using roving_frame_inv [OF w(2) assms(2)] assms(3) by simp
  show ?thesis
    using w b array_reference_spec [OF b, of i]
    by (intro exI [of _ "fst w"] exI [of _ "snd w"]) auto
qed

definition other_array :: array where
  "other_array = \<lparr>a_addr = 100, max_index = 3, num_elements = 1,
     elements = [\<lparr>ae_addr = 101, ind = 3, ae_value = Some ''z''\<rparr>]\<rparr>"

lemma other_array_inv: "array_inv \<lparr>next_addr = 200, lastref = None\<rparr> other_array"
  by (simp add: array_inv_def other_array_def last_index_def fresh_addrs_def roving_ok_def int_limits)

theorem array_history_other_array_witness:
  "\<exists>a' m'. array_run [Assign 7 None, Unset 7]
      (fst (array_create \<lparr>next_addr = 200, lastref = Some (100, 101)\<rparr>), \<lparr>next_addr = 201, lastref = Some (100, 101)\<rparr>)
     = Some (a', m') \<and> map_option fst (array_reference (Some other_array) 3 m') = Some (Some ''z'')"
proof -
  let ?m = "\<lparr>next_addr = 201, lastref = Some (100, 101)\<rparr>"
  let ?a = "fst (array_create \<lparr>next_addr = 200, lastref = Some (100, 101)\<rparr>)"
  have "array_inv ?m ?a"
    by (simp add: array_inv_def array_create_def last_index_def fresh_addrs_def roving_ok_def)
  moreover have "array_inv ?m other_array"
    by (simp add: array_inv_def other_array_def last_index_def fresh_addrs_def roving_ok_def int_limits)
  moreover have "a_addr ?a \<noteq> a_addr other_array" by (simp add: array_create_def other_array_def)
  moreover have "\<forall>c\<in>set [Assign 7 None, Unset 7]. cmd_ok c"
    by (simp add: cmd_ok_def index_ok_def int_limits)
  ultimately show ?thesis
    using array_history_other_array [of ?m ?a other_array "[Assign 7 None, Unset 7]" 3]
    by (auto simp: other_array_def array_lookup_def)
qed

text \<open>
  C18. \<^verbatim>\<open>array_shift\<close> removes the first \<open>n\<close> elements (not indices) and renumbers the rest by \<open>-n\<close>;
  although arrays are sparse no index becomes negative and the array stays well formed.
\<close>

theorem array_shift_correct:
  assumes "array_inv m a" and "0 < n" and "elements a \<noteq> []"
  shows "\<exists>a' m'. array_shift (Some a) n 0 m = (take (nat n) (elements a), Some a', m') \<and> array_inv m' a' \<and>
    (\<forall>j. array_lookup a' j = elem_map (drop (nat n) (elements a)) (j + n)) \<and>
    (\<forall>e\<in>set (elements a'). 0 \<le> ind e)"
proof -
  obtain a' m' where "array_shift (Some a) n 0 m = (take (nat n) (elements a), Some a', m')" "array_inv m' a'"
    "\<forall>j. array_lookup a' j = elem_map (drop (nat n) (elements a)) (j + n)"
    using array_shift_keep [OF assms] by blast
  then show ?thesis
    by (auto simp: array_inv_def sorted_inds_def)
qed

theorem array_shift_correct_witness:
  "\<exists>a' m'. array_shift (Some other_array) 1 0 \<lparr>next_addr = 200, lastref = None\<rparr>
     = (elements other_array, Some a', m') \<and> array_inv m' a'"
proof -
  have e: "elements other_array \<noteq> []" "take (nat 1) (elements other_array) = elements other_array"
    by (simp_all add: other_array_def)
  from array_shift_correct [OF other_array_inv zero_less_one e(1), unfolded e(2)] show ?thesis by blast
qed

text \<open>
  C19. \<^verbatim>\<open>array_push\<close> then \<^verbatim>\<open>array_pop\<close> (\<^verbatim>\<open>array_rshift\<close> by one, \<^verbatim>\<open>array_unshift_element\<close>) gives the pushed
  value back and restores every index, as long as the largest index is below \<^verbatim>\<open>INTMAX_MAX\<close>.
\<close>

theorem array_push_pop:
  assumes "array_inv m a" and "max_index a < INTMAX_MAX"
  shows "\<exists>a1 m1 e a2 m2. array_shift_element (Some a) (Some v) m = (int (num_elements a) + 1, Some a1, m1) \<and>
    array_unshift_element (Some a1) m1 = ([e], Some a2, m2) \<and> ae_value e = Some v \<and> array_inv m2 a2 \<and>
    array_lookup a2 = array_lookup a \<and> array_lookup a1 0 = Some (Some v)"
proof -
  obtain a1 m1 where r: "array_rshift (Some a) 1 (Some v) m = (int (num_elements a) + 1, Some a1, m1)"
    "array_inv m1 a1"
    "elements a1 = \<lparr>ae_addr = next_addr m, ind = 0, ae_value = Some v\<rparr> # map (shift_index 1) (elements a)"
  proof (rule array_rshift_spec [OF assms(1), of 1 v])
    show "max_index a + 1 \<le> INTMAX_MAX" using assms(2) by simp
  qed simp_all
  have ne: "elements a1 \<noteq> []" using r(3) by simp
  obtain a2 m2 where s: "array_shift (Some a1) 1 0 m1 = (take (nat 1) (elements a1), Some a2, m2)"
    "array_inv m2 a2" "\<forall>j. array_lookup a2 j = elem_map (drop (nat 1) (elements a1)) (j + 1)"
    using array_shift_keep [OF r(2) zero_less_one ne] by blast
  have "\<forall>e\<in>set (elements a). intmax_ok (ind e + 1)"
  proof
    fix e assume e: "e \<in> set (elements a)"
    have "ind e \<le> max_index a" "0 \<le> ind e"
      using sorted_last [OF array_invD(1) [OF assms(1)] e] array_invD(1,3) [OF assms(1)] e
      by (simp_all add: sorted_inds_def)
    then show "intmax_ok (ind e + 1)" using assms(2) by (simp add: intmax_ok_def int_limits)
  qed
  then have "array_lookup a2 j = array_lookup a j" for j
    using spec [OF s(3), of j] r(3) elem_map_shift [of "elements a" 1 "j + 1"] by (simp add: array_lookup_def)
  then show ?thesis
    using r s unfolding array_shift_element_def array_unshift_element_def
    by (auto simp: array_lookup_def fun_eq_iff)
qed

theorem array_push_pop_witness:
  "\<exists>a1 m1 e a2 m2. array_shift_element (Some other_array) (Some ''p'') \<lparr>next_addr = 200, lastref = None\<rparr>
     = (2, Some a1, m1) \<and> array_unshift_element (Some a1) m1 = ([e], Some a2, m2) \<and> ae_value e = Some ''p''"
proof -
  have "max_index other_array < INTMAX_MAX" "num_elements other_array = 1"
    by (simp_all add: other_array_def int_limits)
  then show ?thesis using array_push_pop [OF other_array_inv, of "''p''"] by auto
qed

text \<open>
  \<^verbatim>\<open>array_from_word_list\<close> numbers the words from 0 without gaps and \<^verbatim>\<open>array_to_word_list\<close> and
  \<^verbatim>\<open>array_to_argv\<close> give the words back in order.
\<close>

theorem array_word_list_roundtrip:
  assumes "ws \<noteq> []"
  shows "\<exists>a m'. array_from_word_list ws m = Some (Some a, m') \<and>
    map ind (elements a) = map int [0..<length ws] \<and>
    map_option (map word) (array_to_word_list (Some a)) = Some (map word ws) \<and>
    array_to_argv (Some a) = Some (map (Some \<circ> word) ws)"
proof -
  obtain a m' where a: "assign_list_from 0 ws (Some (fst (array_create m))) (snd (array_create m)) = Some (Some a, m')"
    "num_elements a = length (elements a)" "map ae_value (elements a) = map (Some \<circ> word) ws"
    "map ind (elements a) = map int [0..<length ws]"
    using assign_list_from_append [of "fst (array_create m)" 0 ws "snd (array_create m)"]
    by (auto simp: array_create_def)
  have vs: "values_set (elements a)" unfolding values_set_values a(3) by auto
  have "elements a \<noteq> []" using a(3) assms by auto
  moreover have "map (the \<circ> ae_value) (elements a) = map word ws"
    using arg_cong [OF a(3), of "map the"] by (simp add: comp_def)
  ultimately show ?thesis
    using a vs assms value_words_eq [OF vs, of "[]"]
    by (simp add: array_from_word_list_def array_assign_list_def split_def array_to_word_list_def
        array_empty_def array_to_argv_def comp_def)
qed

theorem array_word_list_roundtrip_witness:
  "\<exists>a m'. array_from_word_list [make_bare_word ''a'', make_bare_word ''b''] empty_mem = Some (Some a, m') \<and>
    array_to_argv (Some a) = Some [Some ''a'', Some ''b'']"
  using array_word_list_roundtrip [of "[make_bare_word ''a'', make_bare_word ''b'']" empty_mem] by auto

text \<open>
  \<^verbatim>\<open>array_subrange\<close>: the values of at most \<open>nelem\<close> elements from the first index not below
  \<open>start\<close>; quoted and joined by the first character of IFS (a blank when IFS is null) inside
  double quotes, otherwise with escapes quoted and joined by blanks. A length of 0 gives the
  empty string.
\<close>

theorem array_subrange_spec:
  fixes start :: int
  assumes "array_inv m a" and "values_set (elements a)"
  defines "rest \<equiv> dropWhile (\<lambda>e. ind e < start) (elements a)"
  shows "array_subrange ifs (Some a) start nelem False quoted m =
    (if rest = [] then Some None
     else
       let values = map (the \<circ> ae_value) (take (nat nelem) rest)
       in Some (Some
            (if quoted AND (Q_DOUBLE_QUOTES OR Q_HERE_DOCUMENT) \<noteq> 0
             then join_strings (if getifs ifs = [] then '' '' else fst (ifs_firstchar ifs)) (map quote_string values)
             else join_strings '' '' (map (quote_escapes (Some (ifs_value ifs))) values))))"
proof -
  note D = array_invD [OF assms(1)]
  let ?p = "first_from start (elements a)"
  have fd: "drop ?p (elements a) = rest" by (simp add: rest_def drop_first_from)
  have fl: "?p = length (elements a) \<longleftrightarrow> rest = []" by (simp add: rest_def first_from_length)
  have guard: "array_empty a \<or> max_index a < start \<Longrightarrow> rest = []"
    using D(2,3) last_index_le [OF D(1)] by (auto simp: array_empty_def rest_def)
  show ?thesis
  proof (cases "rest = []")
    case True
    then show ?thesis using fl by (auto simp: array_subrange_def Let_def)
  next
    case False
    let ?q = "?p + cut_length 0 nelem rest" and ?sel = "take (nat nelem) rest"
    let ?b = "fst (array_slice a ?p ?q m)"
    have sel: "take (?q - ?p) (drop ?p (elements a)) = ?sel"
      using cut_length_take [of 0 nelem rest] by (simp add: fd)
    have b: "map ae_value (elements ?b) = map ae_value ?sel" "num_elements ?b = length (elements ?b)"
      using array_slice_elements [of a ?p ?q m] sel by simp_all
    have "set ?sel \<subseteq> set (elements a)"
      using fd by (metis set_drop_subset set_take_subset subset_trans)
    then have "values_set ?sel" using assms(2) by (auto simp: values_set_def)
    then have vb: "values_set (elements ?b)" unfolding values_set_values b(1) .
    have v: "map (f \<circ> the \<circ> ae_value) (elements ?b) = map f (map (the \<circ> ae_value) ?sel)" for f :: "cstring \<Rightarrow> cstring"
      using arg_cong [OF b(1), of "map (f \<circ> the)"] by (simp add: comp_def)
    have body: "array_subrange ifs (Some a) start nelem False quoted m =
        (let dq = quoted AND (Q_DOUBLE_QUOTES OR Q_HERE_DOCUMENT) \<noteq> 0
         in Option.bind (if dq then array_quote (Some ?b) else array_quote_escapes ifs (Some ?b))
              (\<lambda>a3. join_array ifs False dq (if a3 = None then Some ?b else a3)))"
      using False guard fl by (auto simp: array_subrange_def Let_def fd)
    show ?thesis
    proof (cases "quoted AND (Q_DOUBLE_QUOTES OR Q_HERE_DOCUMENT) \<noteq> 0")
      case True
      obtain b' where "apply_array quote_string (Some ?b) = Some b'"
        "array_to_string (if b' = None then Some ?b else b')
           (if getifs ifs = [] then '' '' else fst (ifs_firstchar ifs)) False =
         Some (join_strings (if getifs ifs = [] then '' '' else fst (ifs_firstchar ifs))
           (map quote_string (map (the \<circ> ae_value) ?sel)))"
        using apply_array_join [OF vb b(2), of quote_string] unfolding v by blast
      then show ?thesis
        using True False unfolding body by (simp add: join_array_def array_quote_def)
    next
      case nq: False
      obtain b' where "apply_array (quote_escapes (Some (ifs_value ifs))) (Some ?b) = Some b'"
        "array_to_string (if b' = None then Some ?b else b') '' '' False =
         Some (join_strings '' '' (map (quote_escapes (Some (ifs_value ifs))) (map (the \<circ> ae_value) ?sel)))"
        using apply_array_join [OF vb b(2), of "quote_escapes (Some (ifs_value ifs))"] unfolding v by blast
      then show ?thesis
        using nq False unfolding body by (simp add: join_array_def array_quote_escapes_def)
    qed
  qed
qed

theorem array_subrange_spec_witness:
  "array_subrange (setifs None) (Some other_array) 1 5 False 0 \<lparr>next_addr = 200, lastref = None\<rparr> = Some (Some ''z'')"
proof -
  have "values_set (elements other_array)" by (simp add: other_array_def)
  from array_subrange_spec [OF other_array_inv this, of "setifs None" 1 5 0] show ?thesis
    by (simp add: other_array_def quote_escapes_def setifs_def)
qed

text \<open>
  An empty slice is not well formed: \<^verbatim>\<open>array_slice\<close> leaves \<^verbatim>\<open>max_index\<close> at 0, and an assignment to
  index 0 of the slice then fails.
\<close>

theorem array_slice_empty:
  "(let (a', m') = array_slice a p p m
    in elements a' = [] \<and> max_index a' = 0 \<and>
       (lastref m = None \<longrightarrow> (\<exists>m''. array_insert (Some a') 0 v m' = Some (-1, Some a', m''))))"
  by (simp add: array_slice_def Let_def split_def array_create_def array_insert_def
      array_create_element_def LASTREF_START_def)

theorem array_slice_empty_witness:
  "\<exists>m''. array_insert (Some (fst (array_slice other_array 0 0 empty_mem))) 0 None
     (snd (array_slice other_array 0 0 empty_mem)) = Some (-1, Some (fst (array_slice other_array 0 0 empty_mem)), m'')"
  using array_slice_empty [of other_array 0 empty_mem None] by (simp add: split_def Let_def empty_mem_def)

text \<open>
  C20. \<^verbatim>\<open>array_to_assign\<close>: a parenthesised, blank-separated sequence of \<open>[index]=value\<close> texts, whose
  indices \<^verbatim>\<open>legal_number\<close> reads back and whose values the shell reads back.
\<close>

theorem array_to_assign_reads_back:
  assumes "array_inv m a" and "elements a \<noteq> []" and "plain_values (elements a)"
  shows "\<exists>pieces. list_all2 elem_text (elements a) pieces \<and>
    array_to_assign (Some a) False = Some (Some (''('' @ join_strings '' '' pieces @ '')''))"
proof -
  have "\<forall>e\<in>set (elements a). intmax_ok (ind e)"
    using array_invD(1) [OF assms(1)] by (auto simp: sorted_inds_def intmax_ok_def int_limits)
  then obtain pieces where p: "assign_elements (elements a) ''('' = Some (''('' @ join_strings '' '' pieces)"
    "list_all2 elem_text (elements a) pieces"
    using assign_elements_read [OF _ assms(3)] by blast
  then show ?thesis
    using assms(2) array_invD(2) [OF assms(1)]
    by (intro exI [of _ pieces]) (simp add: array_to_assign_def array_empty_def)
qed

theorem array_to_assign_reads_back_witness:
  "\<exists>pieces. list_all2 elem_text (elements other_array) pieces \<and>
    array_to_assign (Some other_array) False = Some (Some (''('' @ join_strings '' '' pieces @ '')''))"
  by (rule array_to_assign_reads_back [OF other_array_inv])
    (simp_all add: other_array_def plain_values_def no_markers_def)

end
