(* ===== verification/Reader_Loop.thy ===== *)
theory Reader_Loop
  imports Shell_Quote Number_Text
begin

text \<open>
  The command loop of the shell, \<^verbatim>\<open>eval.c\<close>, with the call that this system adds: \<^verbatim>\<open>SendCommand\<close>
  with the first word of a simple command before the command runs. Also \<^verbatim>\<open>read_command\<close> and
  \<^verbatim>\<open>parse_command\<close> (with the input time-out), the macro \<^verbatim>\<open>QUIT\<close> and \<^verbatim>\<open>throw_to_top_level\<close> of
  \<^verbatim>\<open>sig.c\<close>. The parser, the executor, traps and the prompt command are arguments: each may
  change the whole shell state and return, jump to the top level with a code, or end the
  process. The reports and the executions form a trace.
\<close>

section \<open>Commands, outcomes, state\<close>

datatype command_type =
  cm_for | cm_case | cm_while | cm_if | cm_simple | cm_select | cm_connection | cm_function_def
  | cm_until | cm_group | cm_arith | cm_cond | cm_arith_for | cm_subshell | cm_coproc

text \<open>The union \<^verbatim>\<open>value\<close>: the words of a simple command, or anything else.\<close>

datatype 'c command_value = Simple word_list | Compound 'c

record 'c command =
  ctype :: command_type
  cvalue :: "'c command_value"

definition well_typed :: "'c command \<Rightarrow> bool" where
  "well_typed c \<longleftrightarrow> (ctype c = cm_simple \<longleftrightarrow> (case cvalue c of Simple _ \<Rightarrow> True | Compound _ \<Rightarrow> False))"

definition NOT_JUMPED :: int where "NOT_JUMPED = 0"
definition FORCE_EOF :: int where "FORCE_EOF = 1"
definition DISCARD :: int where "DISCARD = 2"
definition EXITPROG :: int where "EXITPROG = 3"
definition ERREXIT :: int where "ERREXIT = 4"
definition EXECUTION_FAILURE :: int where "EXECUTION_FAILURE = 1"
definition EXECUTION_SUCCESS :: int where "EXECUTION_SUCCESS = 0"
definition SIGINT :: int where "SIGINT = 2"

text \<open>A call returns, jumps to \<^verbatim>\<open>top_level\<close> with a code, or does not come back at all.\<close>

datatype 'r outcome = Returned 'r | Jumped int | Terminated

text \<open>
  A C++ call returns or throws; the loop is C code, so an exception that no handler catches ends
  the process.
\<close>

datatype 'r cpp = Value 'r | Std_Exception | Other_Exception

text \<open>What \<^verbatim>\<open>SendCommand\<close> reads from its configuration file (\<^verbatim>\<open>slas_options.hpp\<close>).\<close>

record slas_options =
  logfile_path :: cstring
  bash_socket_path :: cstring
  debug :: bool

text \<open>
  The globals of the loop and the static \<open>options\<close> of \<^verbatim>\<open>SendCommand\<close>; \<open>env\<close> is everything else the
  called code works on.
\<close>

record ('c, 'e) shell =
  EOF_Reached :: bool
  indirection_level :: int
  last_command_exit_value :: int
  last_command_exit_signal :: int
  interactive :: bool
  interactive_shell :: bool
  shell_initialized :: bool
  read_but_dont_execute :: bool
  just_one_command :: bool
  subshell_environment :: bool
  exit_immediately_on_error :: bool
  variable_context :: int
  executing :: bool
  stdin_redir :: int
  current_command_number :: int
  current_command_line_count :: int
  need_here_doc :: bool
  prompt_level :: nat
  slas_options :: "slas_options option"
  global_command :: "'c command option"
  interrupt_state :: int
  terminating_signal :: int
  alarm_seconds :: int
  sigalrm_handler :: nat
  env :: 'e

type_synonym ('c, 'e, 'r) call = "('c, 'e) shell \<Rightarrow> 'r outcome \<times> ('c, 'e) shell"

text \<open>What the loop calls outside \<^verbatim>\<open>eval.c\<close> and \<^verbatim>\<open>throw_to_top_level\<close>.\<close>

record ('c, 'e) shell_calls =
  c_yyparse :: "('c, 'e, int) call"
  c_run_pending_traps :: "('c, 'e, unit) call"
  c_execute_variable_command :: "cstring \<Rightarrow> ('c, 'e, unit) call"
  c_gather_here_documents :: "('c, 'e, unit) call"
  c_execute_command :: "'c command \<Rightarrow> ('c, 'e, unit) call"
  c_run_interrupt_trap :: "('c, 'e, unit) call"
  c_prompt_command :: "'e \<Rightarrow> cstring option"
  c_tmout :: "'e \<Rightarrow> cstring option option"
  c_input_is_string :: "'e \<Rightarrow> bool"
  c_sigint_trapped :: "'e \<Rightarrow> bool"
  c_toplevel_cleanup :: "'e \<Rightarrow> 'e"
  c_loop_entry :: "'e \<Rightarrow> 'e"
  c_used_env_vars :: "'e \<Rightarrow> 'e"
  c_parse_options :: "'e \<Rightarrow> slas_options cpp \<times> 'e"
  c_configure_logger :: "cstring \<Rightarrow> bool \<Rightarrow> 'e \<Rightarrow> unit cpp \<times> 'e"
  c_create_network :: "'e \<Rightarrow> unit cpp \<times> 'e"
  c_socket :: "'e \<Rightarrow> int cpp \<times> 'e"
  c_connect_unix :: "int \<Rightarrow> cstring \<Rightarrow> 'e \<Rightarrow> unit cpp \<times> 'e"
  c_send_text :: "int \<Rightarrow> cstring \<Rightarrow> 'e \<Rightarrow> unit cpp \<times> 'e"
  c_close :: "int \<Rightarrow> 'e \<Rightarrow> unit cpp \<times> 'e"

text \<open>Sequencing: the rest runs only when the call returned.\<close>

definition and_then :: "('c, 'e, 'r) call \<Rightarrow> ('r \<Rightarrow> ('c, 'e, 's) call) \<Rightarrow> ('c, 'e, 's) call" where
  "and_then f g st =
     (case f st of
        (Returned r, st') \<Rightarrow> g r st'
      | (Jumped c, st') \<Rightarrow> (Jumped c, st')
      | (Terminated, st') \<Rightarrow> (Terminated, st'))"

definition ret :: "'r \<Rightarrow> ('c, 'e, 'r) call" where
  "ret r st = (Returned r, st)"

definition modify :: "(('c, 'e) shell \<Rightarrow> ('c, 'e) shell) \<Rightarrow> ('c, 'e, unit) call" where
  "modify f st = (Returned (), f st)"

section \<open>Interrupts (sig.c, quit.h)\<close>

definition throw_to_top_level :: "('c, 'e) shell_calls \<Rightarrow> ('c, 'e, unit) call" where
  "throw_to_top_level calls st0 =
     (let print_newline = interrupt_state st0 \<noteq> 0;
          st1 = (if print_newline
                 then st0\<lparr>last_command_exit_value :=
                             (if last_command_exit_value st0 < 128 then 128 + SIGINT
                              else last_command_exit_value st0),
                          interrupt_state := interrupt_state st0 - 1\<rparr>
                 else st0)
      in if interrupt_state st1 \<noteq> 0 then (Returned (), st1)
         else
           let v = last_command_exit_value st1;
               st2 = st1\<lparr>last_command_exit_signal := (if 128 < v then v - 128 else 0),
                         last_command_exit_value := v OR 128\<rparr>
           in and_then (c_run_interrupt_trap calls)
                (\<lambda>_ st3.
                   let st4 = st3\<lparr>env := c_toplevel_cleanup calls (env st3)\<rparr>
                   in (Jumped (if interactive st4 \<or> interactive_shell st4 \<and> \<not> shell_initialized st4 \<or>
                                  print_newline \<and> c_sigint_trapped calls (env st4)
                               then DISCARD else EXITPROG), st4))
                st2)"

definition QUIT :: "('c, 'e) shell_calls \<Rightarrow> ('c, 'e, unit) call" where
  "QUIT calls st =
     (if terminating_signal st \<noteq> 0 then (Terminated, st)
      else if interrupt_state st \<noteq> 0 then throw_to_top_level calls st
      else (Returned (), st))"

section \<open>Reading (eval.c)\<close>

definition parse_command :: "('c, 'e) shell_calls \<Rightarrow> ('c, 'e, int) call" where
  "parse_command calls =
     and_then (modify (\<lambda>st. st\<lparr>need_here_doc := False\<rparr>)) (\<lambda>_.
     and_then (c_run_pending_traps calls) (\<lambda>_.
     and_then
       (\<lambda>st. if interactive st \<and> \<not> c_input_is_string calls (env st)
             then (case c_prompt_command calls (env st) of
                     None \<Rightarrow> (Returned (), st)
                   | Some command_to_execute \<Rightarrow>
                       c_execute_variable_command calls command_to_execute st)
             else (Returned (), st)) (\<lambda>_.
     and_then (modify (\<lambda>st. st\<lparr>current_command_line_count := 0\<rparr>)) (\<lambda>_.
     and_then (c_yyparse calls) (\<lambda>r.
     and_then
       (\<lambda>st. if need_here_doc st then c_gather_here_documents calls st else (Returned (), st)) (\<lambda>_.
     ret r))))))"

definition atoi :: "cstring \<Rightarrow> int" where
  "atoi s = to_int32 (fst (strtoimax s))"

definition alrm_catcher :: nat where "alrm_catcher = 1"

text \<open>
  \<^verbatim>\<open>tmout_var\<close> is \<open>None\<close> when the variable is unset and \<open>Some None\<close> when it has no value.
  The saved handler is \<open>None\<close> when the alarm was not set.
\<close>

definition timed_read ::
  "('c, 'e) shell_calls \<Rightarrow> cstring option option \<Rightarrow> int \<Rightarrow> nat \<Rightarrow> ('c, 'e, int) call" where
  "timed_read calls tmout_var tmout_len old_alrm =
     and_then (QUIT calls) (\<lambda>_.
     and_then (modify (\<lambda>st. st\<lparr>current_command_line_count := 0\<rparr>)) (\<lambda>_.
     and_then (parse_command calls) (\<lambda>result.
     and_then (modify (\<lambda>st. if interactive st \<and> tmout_var \<noteq> None \<and> 0 < tmout_len
                           then st\<lparr>alarm_seconds := 0, sigalrm_handler := old_alrm\<rparr> else st)) (\<lambda>_.
     ret result))))"

definition read_command :: "('c, 'e) shell_calls \<Rightarrow> ('c, 'e, int) call" where
  "read_command calls st0 =
     (let st1 = st0\<lparr>prompt_level := 1, global_command := None\<rparr>;
          tmout_var = (if interactive st1 then c_tmout calls (env st1) else None);
          tmout_len = (case tmout_var of Some (Some v) \<Rightarrow> atoi v | _ \<Rightarrow> 0);
          old_alrm = sigalrm_handler st1;
          st2 = (if 0 < tmout_len
                 then st1\<lparr>sigalrm_handler := alrm_catcher, alarm_seconds := tmout_len\<rparr> else st1)
      in timed_read calls tmout_var tmout_len old_alrm st2)"

section \<open>The report (send_command.cpp, eval.c)\<close>

text \<open>
  The trace: a word that was sent to the agent, a word whose report ended in an exception before
  it was sent, a command that was handed to the executor.
\<close>

datatype 'c event = Sent cstring | Unsent cstring | Executed "'c command"

text \<open>
  The body of the \<open>try\<close> block: its event, how it ended, and the new environment. An exception
  leaves the socket open.
\<close>

definition transmit ::
  "('c, 'e) shell_calls \<Rightarrow> cstring \<Rightarrow> cstring \<Rightarrow> 'e \<Rightarrow> 'c event \<times> unit cpp \<times> 'e" where
  "transmit calls path w e =
     (case c_socket calls e of
        (Value socket_fd, e1) \<Rightarrow>
          (case c_connect_unix calls socket_fd path e1 of
             (Value _, e2) \<Rightarrow>
               (case c_send_text calls socket_fd w e2 of
                  (Value _, e3) \<Rightarrow> (Sent w, c_close calls socket_fd e3)
                | (x, e3) \<Rightarrow> (Unsent w, x, e3))
           | (x, e2) \<Rightarrow> (Unsent w, x, e2))
      | (Std_Exception, e1) \<Rightarrow> (Unsent w, Std_Exception, e1)
      | (Other_Exception, e1) \<Rightarrow> (Unsent w, Other_Exception, e1))"

text \<open>
  \<^verbatim>\<open>SendCommand\<close>: the configuration is read once, the logger and the network object are set up on
  every call, all outside the \<open>try\<close> block; the handler catches \<^verbatim>\<open>std::exception\<close> only.
\<close>

definition SendCommand ::
  "('c, 'e) shell_calls \<Rightarrow> cstring \<Rightarrow> ('c, 'e) shell \<Rightarrow> unit outcome \<times> ('c, 'e) shell \<times> 'c event list" where
  "SendCommand calls w s =
     (case (case slas_options s of
              Some options \<Rightarrow> (Value options, env s)
            | None \<Rightarrow> c_parse_options calls (env s)) of
        (Value options, e1) \<Rightarrow>
          let s1 = s\<lparr>slas_options := Some options\<rparr>
          in (case c_configure_logger calls (logfile_path options) (debug options) e1 of
                (Value _, e2) \<Rightarrow>
                  (case c_create_network calls e2 of
                     (Value _, e3) \<Rightarrow>
                       (case transmit calls (bash_socket_path options) w e3 of
                          (event, x, e4) \<Rightarrow>
                            (if x = Other_Exception then Terminated else Returned (), s1\<lparr>env := e4\<rparr>, [event]))
                   | (_, e3) \<Rightarrow> (Terminated, s1\<lparr>env := e3\<rparr>, []))
              | (_, e2) \<Rightarrow> (Terminated, s1\<lparr>env := e2\<rparr>, []))
      | (_, e1) \<Rightarrow> (Terminated, s\<lparr>env := e1\<rparr>, []))"

text \<open>The call in the loop: the first word of a simple command that has one.\<close>

definition report ::
  "('c, 'e) shell_calls \<Rightarrow> 'c command \<Rightarrow> ('c, 'e) shell \<Rightarrow> unit outcome \<times> ('c, 'e) shell \<times> 'c event list" where
  "report calls c s =
     (if ctype c = cm_simple
      then (case cvalue c of
              Simple (wl # _) \<Rightarrow> SendCommand calls (word wl) s
            | _ \<Rightarrow> (Returned (), s, []))
      else (Returned (), s, []))"

section \<open>The loop (eval.c)\<close>

text \<open>
  Where the loop is: at the \<open>while\<close> test, back at \<^verbatim>\<open>setjmp\<close> with a code, at the label
  \<^verbatim>\<open>exec_done\<close>, after the loop, or the process is gone (also by \<^verbatim>\<open>programming_error\<close>).
  \<open>current_command\<close> is the \<^verbatim>\<open>volatile\<close> local, which a jump leaves as it was.
\<close>

datatype point = At_while | At_setjmp int | At_exec_done | At_return | At_exit

record ('c, 'e) loop_state =
  point :: point
  current_command :: "'c command option"
  trace :: "'c event list"
  st :: "('c, 'e) shell"

definition at :: "point \<Rightarrow> ('c, 'e) shell \<Rightarrow> ('c, 'e) loop_state \<Rightarrow> ('c, 'e) loop_state" where
  "at p s l = l\<lparr>point := p, st := s\<rparr>"

text \<open>\<open>if (just_one_command) EOF_Reached = EOF;\<close> and back to the test.\<close>

definition loop_end :: "('c, 'e) shell \<Rightarrow> ('c, 'e) loop_state \<Rightarrow> ('c, 'e) loop_state" where
  "loop_end s l = at At_while (if just_one_command s then s\<lparr>EOF_Reached := True\<rparr> else s) l"

text \<open>\<open>longjmp (env, 0)\<close> makes \<open>setjmp\<close> return 1.\<close>

definition longjmp_value :: "int \<Rightarrow> int" where
  "longjmp_value code = (if code = 0 then 1 else code)"

definition exec_done :: "('c, 'e) shell_calls \<Rightarrow> ('c, 'e) loop_state \<Rightarrow> ('c, 'e) loop_state" where
  "exec_done calls l =
     (case QUIT calls (st l) of
        (Returned _, s) \<Rightarrow> loop_end s (l\<lparr>current_command := None\<rparr>)
      | (Jumped c, s) \<Rightarrow> at (At_setjmp (longjmp_value c)) s l
      | (Terminated, s) \<Rightarrow> at At_exit s l)"

definition run_command ::
  "('c, 'e) shell_calls \<Rightarrow> 'c command \<Rightarrow> ('c, 'e) shell \<Rightarrow> ('c, 'e) loop_state \<Rightarrow> ('c, 'e) loop_state" where
  "run_command calls c s l =
     (case report calls c s of
        (Returned _, s0, reported) \<Rightarrow>
          let l1 = l\<lparr>current_command := Some c, trace := trace l @ reported @ [Executed c]\<rparr>;
              s1 = s0\<lparr>global_command := None, current_command_number := current_command_number s0 + 1,
                      executing := True, stdin_redir := 0\<rparr>
          in (case c_execute_command calls c s1 of
                (Returned _, s2) \<Rightarrow> at At_exec_done s2 l1
              | (Jumped code, s2) \<Rightarrow> at (At_setjmp (longjmp_value code)) s2 l1
              | (Terminated, s2) \<Rightarrow> at At_exit s2 l1)
      | (_, s0, reported) \<Rightarrow> at At_exit s0 (l\<lparr>current_command := Some c, trace := trace l @ reported\<rparr>))"

definition read_and_run :: "('c, 'e) shell_calls \<Rightarrow> ('c, 'e) loop_state \<Rightarrow> ('c, 'e) loop_state" where
  "read_and_run calls l =
     (let s0 = (st l)\<lparr>executing := False, env := c_used_env_vars calls (env (st l))\<rparr>
      in case read_command calls s0 of
           (Jumped code, s) \<Rightarrow> at (At_setjmp (longjmp_value code)) s l
         | (Terminated, s) \<Rightarrow> at At_exit s l
         | (Returned r, s) \<Rightarrow>
             if r = 0 then
               if \<not> interactive_shell s \<and> read_but_dont_execute s
               then loop_end (s\<lparr>last_command_exit_value := EXECUTION_SUCCESS, global_command := None\<rparr>) l
               else (case global_command s of
                       Some c \<Rightarrow> run_command calls c s l
                     | None \<Rightarrow> loop_end s (l\<lparr>current_command := None\<rparr>))
             else loop_end (if interactive s then s else s\<lparr>EOF_Reached := True\<rparr>) l)"

text \<open>The code after \<^verbatim>\<open>setjmp\<close>: \<open>our\<close> is the indirection level of this loop.\<close>

definition after_setjmp ::
  "('c, 'e) shell_calls \<Rightarrow> int \<Rightarrow> int \<Rightarrow> ('c, 'e) loop_state \<Rightarrow> ('c, 'e) loop_state" where
  "after_setjmp calls our code l =
     (let s0 = (st l)\<lparr>env := c_loop_entry calls (env (st l))\<rparr>
      in if code = NOT_JUMPED then read_and_run calls (at At_while s0 l)
         else
           let s1 = s0\<lparr>indirection_level := our\<rparr>
           in if code = FORCE_EOF \<or> code = ERREXIT \<or> code = EXITPROG then
                at At_exec_done
                  (s1\<lparr>variable_context := (if exit_immediately_on_error s1 then 0 else variable_context s1),
                      EOF_Reached := True\<rparr>)
                  (l\<lparr>current_command := None\<rparr>)
              else if code = DISCARD then
                let s2 = (if last_command_exit_value s1 = 0
                          then s1\<lparr>last_command_exit_value := EXECUTION_FAILURE\<rparr> else s1)
                in if subshell_environment s2
                   then at At_exec_done (s2\<lparr>EOF_Reached := True\<rparr>) (l\<lparr>current_command := None\<rparr>)
                   else read_and_run calls (at At_while s2 (l\<lparr>current_command := None\<rparr>))
              else at At_exit s1 l)"

definition loop_step ::
  "('c, 'e) shell_calls \<Rightarrow> int \<Rightarrow> ('c, 'e) loop_state \<Rightarrow> ('c, 'e) loop_state" where
  "loop_step calls our l =
     (case point l of
        At_while \<Rightarrow>
          if EOF_Reached (st l)
          then at At_return ((st l)\<lparr>indirection_level := indirection_level (st l) - 1\<rparr>) l
          else after_setjmp calls our NOT_JUMPED l
      | At_setjmp code \<Rightarrow> after_setjmp calls our code l
      | At_exec_done \<Rightarrow> exec_done calls l
      | At_return \<Rightarrow> l
      | At_exit \<Rightarrow> l)"

primrec loop_steps ::
  "('c, 'e) shell_calls \<Rightarrow> int \<Rightarrow> nat \<Rightarrow> ('c, 'e) loop_state \<Rightarrow> ('c, 'e) loop_state" where
  "loop_steps calls our 0 l = l"
| "loop_steps calls our (Suc n) l = loop_steps calls our n (loop_step calls our l)"

definition reader_start :: "('c, 'e) shell \<Rightarrow> ('c, 'e) loop_state" where
  "reader_start s =
     \<lparr>point = At_while, current_command = None, trace = [],
      st = s\<lparr>indirection_level := indirection_level s + 1\<rparr>\<rparr>"

text \<open>The result, the final state and the trace, when the loop has ended within \<open>fuel\<close> steps.\<close>

definition reader_loop ::
  "('c, 'e) shell_calls \<Rightarrow> nat \<Rightarrow> ('c, 'e) shell \<Rightarrow> (int option \<times> ('c, 'e) shell \<times> 'c event list) option" where
  "reader_loop calls fuel s =
     (let l = loop_steps calls (indirection_level s + 1) fuel (reader_start s)
      in case point l of
           At_return \<Rightarrow> Some (Some (last_command_exit_value (st l)), st l, trace l)
         | At_exit \<Rightarrow> Some (None, st l, trace l)
         | _ \<Rightarrow> None)"

section \<open>One step of the loop\<close>

lemma at_simps [simp]:
  "point (at p s l) = p" "st (at p s l) = s" "trace (at p s l) = trace l"
  "current_command (at p s l) = current_command l"
  by (simp_all add: at_def)

lemma loop_end_simps [simp]:
  "point (loop_end s l) = At_while" "trace (loop_end s l) = trace l"
  "indirection_level (st (loop_end s l)) = indirection_level s"
  "env (st (loop_end s l)) = env s" "interrupt_state (st (loop_end s l)) = interrupt_state s"
  "EOF_Reached (st (loop_end s l)) = (EOF_Reached s \<or> just_one_command s)"
  by (simp_all add: loop_end_def)

lemma and_then_cases:
  obtains (returned) r s1 where "f s = (Returned r, s1)" "and_then f g s = g r s1"
  | (jumped) c s1 where "f s = (Jumped c, s1)" "and_then f g s = (Jumped c, s1)"
  | (terminated) s1 where "f s = (Terminated, s1)" "and_then f g s = (Terminated, s1)"
proof (cases "f s")
  case (Pair o1 s1)
  then show thesis
    by (cases o1) (auto simp: and_then_def intro: that)
qed

subsection \<open>The report\<close>

lemma transmit_event: "transmit calls path w e = (ev, x, e') \<Longrightarrow> ev = Sent w \<or> ev = Unsent w"
  by (auto simp: transmit_def split: prod.splits cpp.splits)

lemma SendCommand_cases:
  obtains (returned) s1 e where "SendCommand calls w s = (Returned (), s1, [e])" "e = Sent w \<or> e = Unsent w"
  | (terminated) s1 ev where "SendCommand calls w s = (Terminated, s1, ev)" "ev = [] \<or> ev = [Sent w] \<or> ev = [Unsent w]"
  by (atomize_elim, auto simp: SendCommand_def Let_def split: prod.split cpp.split option.split
      dest!: transmit_event)

text \<open>The call changes nothing but the static options and what the C++ code works on.\<close>

lemma SendCommand_state:
  assumes "SendCommand calls w s = (o1, s1, ev)"
  obtains opt e where "s1 = s\<lparr>slas_options := opt, env := e\<rparr>"
proof -
  have keep: "\<exists>opt e'. s\<lparr>env := e\<rparr> = s\<lparr>slas_options := opt, env := e'\<rparr>" for e
    by (rule exI [of _ "slas_options s"]) auto
  have "\<exists>opt e. s1 = s\<lparr>slas_options := opt, env := e\<rparr>"
    using assms keep by (auto simp: SendCommand_def Let_def split: prod.splits cpp.splits option.splits)
  with that show thesis by blast
qed

lemma report_state:
  assumes "report calls c s = (o1, s1, ev)"
  obtains opt e where "s1 = s\<lparr>slas_options := opt, env := e\<rparr>"
proof (cases "\<exists>w. SendCommand calls w s = (o1, s1, ev)")
  case True
  then show thesis using SendCommand_state that by blast
next
  case False
  then have "s1 = s\<lparr>slas_options := slas_options s, env := env s\<rparr>"
    using assms by (auto simp: report_def split: if_splits command_value.splits list.splits)
  with that show thesis .
qed

subsection \<open>The trace\<close>

text \<open>What the agent is to be told of a command, if anything: the first word of a simple command.\<close>

definition announces :: "'c command \<Rightarrow> cstring \<Rightarrow> bool" where
  "announces c w \<longleftrightarrow> ctype c = cm_simple \<and> (\<exists>ws. cvalue c = Simple ws \<and> ws \<noteq> [] \<and> w = word (ws ! 0))"

text \<open>
  The trace of a list of commands that ran one after the other: each is executed, and immediately
  before that, if it is to be announced, its word is sent or the attempt has failed.
\<close>

inductive reported_run :: "'c command list \<Rightarrow> 'c event list \<Rightarrow> bool" where
  nothing: "reported_run [] []"
| silent: "\<forall>w. \<not> announces c w \<Longrightarrow> reported_run cs tr \<Longrightarrow> reported_run (c # cs) (Executed c # tr)"
| announced: "announces c w \<Longrightarrow> e = Sent w \<or> e = Unsent w \<Longrightarrow> reported_run cs tr \<Longrightarrow>
    reported_run (c # cs) (e # Executed c # tr)"

text \<open>The process ended in the report of one of the commands, which was therefore not executed.\<close>

definition stopped_at_report :: "'c command list \<Rightarrow> 'c event list \<Rightarrow> bool" where
  "stopped_at_report cs tr \<longleftrightarrow>
     (\<exists>before c rest w tr0 ev. cs = before @ c # rest \<and> announces c w \<and> reported_run before tr0 \<and>
        tr = tr0 @ ev \<and> (ev = [] \<or> ev = [Sent w] \<or> ev = [Unsent w]))"

lemma reported_run_append:
  "reported_run cs tr \<Longrightarrow> reported_run ds tr' \<Longrightarrow> reported_run (cs @ ds) (tr @ tr')"
  by (induction rule: reported_run.induct) (auto intro: reported_run.intros)

lemma stopped_at_report_append:
  assumes "reported_run cs tr" and "stopped_at_report ds tr'"
  shows "stopped_at_report (cs @ ds) (tr @ tr')"
proof -
  obtain before c rest w tr0 ev where "ds = before @ c # rest" "announces c w" "reported_run before tr0"
      "tr' = tr0 @ ev" "ev = [] \<or> ev = [Sent w] \<or> ev = [Unsent w]"
    using assms(2) unfolding stopped_at_report_def by blast
  moreover have "reported_run (cs @ before) (tr @ tr0)"
    using reported_run_append [OF assms(1)] calculation(3) by blast
  ultimately show ?thesis unfolding stopped_at_report_def by (metis append.assoc)
qed

lemma stopped_at_report_extend:
  assumes "stopped_at_report cs tr"
  shows "stopped_at_report (cs @ ds) tr"
proof -
  obtain before c rest w tr0 ev where "cs = before @ c # rest" "announces c w" "reported_run before tr0"
      "tr = tr0 @ ev" "ev = [] \<or> ev = [Sent w] \<or> ev = [Unsent w]"
    using assms unfolding stopped_at_report_def by blast
  moreover have "cs @ ds = before @ c # (rest @ ds)" using calculation(1) by simp
  ultimately show ?thesis unfolding stopped_at_report_def by blast
qed

lemma report_cases:
  obtains (silent) "report calls c s = (Returned (), s, [])" "\<forall>w. \<not> announces c w"
  | (announced) w e s1 where "report calls c s = (Returned (), s1, [e])" "announces c w"
      "e = Sent w \<or> e = Unsent w"
  | (terminated) w s1 ev where "report calls c s = (Terminated, s1, ev)" "announces c w"
      "ev = [] \<or> ev = [Sent w] \<or> ev = [Unsent w]"
proof (cases "\<exists>w. announces c w")
  case True
  then obtain wl ws where c: "ctype c = cm_simple" "cvalue c = Simple (wl # ws)"
    unfolding announces_def by (metis neq_Nil_conv)
  then have a: "announces c (word wl)" by (simp add: announces_def)
  have eq: "report calls c s = SendCommand calls (word wl) s" using c by (simp add: report_def)
  show thesis
  proof (cases rule: SendCommand_cases [of calls "word wl" s])
    case (returned s1 e)
    then show thesis using announced a eq by simp
  next
    case (terminated s1 ev)
    then show thesis using that(3) a eq by simp
  qed
next
  case False
  then have "report calls c s = (Returned (), s, [])"
    by (auto simp: report_def announces_def split: command_value.splits list.splits)
  with False that(1) show thesis by blast
qed

lemma reported_run_one:
  "\<forall>w. \<not> announces c w \<Longrightarrow> reported_run [c] [Executed c]"
  "announces c w \<Longrightarrow> reported_run [c] [Sent w, Executed c]"
  "announces c w \<Longrightarrow> reported_run [c] [Unsent w, Executed c]"
  by (blast intro: reported_run.intros)+

lemma stopped_at_report_one:
  "announces c w \<Longrightarrow> ev = [] \<or> ev = [Sent w] \<or> ev = [Unsent w] \<Longrightarrow> stopped_at_report [c] ev"
  unfolding stopped_at_report_def using reported_run.nothing by (metis append_Nil)

text \<open>What one command adds to the trace.\<close>

lemma run_command_cases:
  obtains (runs) tr where "reported_run [c] tr" "trace (run_command calls c s l) = trace l @ tr"
  | (ends) tr where "stopped_at_report [c] tr" "trace (run_command calls c s l) = trace l @ tr"
      "point (run_command calls c s l) = At_exit"
proof (cases rule: report_cases [of calls c s])
  case silent
  have "reported_run [c] [Executed c]" using silent(2) by (rule reported_run_one)
  moreover have "trace (run_command calls c s l) = trace l @ [Executed c]"
    using silent(1) by (simp add: run_command_def Let_def split: prod.split outcome.split)
  ultimately show thesis by (rule runs)
next
  case (announced w e s1)
  have "reported_run [c] [e, Executed c]" using announced(2,3) by (auto intro: reported_run_one)
  moreover have "trace (run_command calls c s l) = trace l @ [e, Executed c]"
    using announced(1) by (simp add: run_command_def Let_def split: prod.split outcome.split)
  ultimately show thesis by (rule runs)
next
  case (terminated w s1 ev)
  have "stopped_at_report [c] ev" using terminated(2,3) by (rule stopped_at_report_one)
  then show thesis using terminated(1) by (intro ends [of ev]) (simp_all add: run_command_def)
qed

text \<open>The trace so far, as an invariant of the loop.\<close>

definition trace_inv :: "('c, 'e) loop_state \<Rightarrow> bool" where
  "trace_inv l \<longleftrightarrow>
     (\<exists>cs. reported_run cs (trace l) \<or> point l = At_exit \<and> stopped_at_report cs (trace l))"

lemma read_and_run_cases:
  obtains (no_command) "trace (read_and_run calls l) = trace l"
  | (command) c s where "read_and_run calls l = run_command calls c s l"
proof -
  have "trace (read_and_run calls l) = trace l \<or> (\<exists>c s. read_and_run calls l = run_command calls c s l)"
    by (auto simp: read_and_run_def Let_def split: prod.split outcome.split option.split)
  then show thesis using that by blast
qed

lemma read_and_run_trace:
  assumes "reported_run cs (trace l)"
  shows "trace_inv (read_and_run calls l)"
proof (cases rule: read_and_run_cases [of calls l])
  case no_command
  then show ?thesis using assms by (auto simp: trace_inv_def)
next
  case (command c s)
  show ?thesis
  proof (cases rule: run_command_cases [of c calls s l])
    case (runs tr)
    then show ?thesis
      using reported_run_append [OF assms] unfolding trace_inv_def command by metis
  next
    case (ends tr)
    then show ?thesis
      using stopped_at_report_append [OF assms] unfolding trace_inv_def command by metis
  qed
qed

lemma after_setjmp_cases:
  obtains (reads) s l' where "after_setjmp calls our code l = read_and_run calls (at At_while s l')"
      "trace l' = trace l" "env s = c_loop_entry calls (env (st l))"
      "interrupt_state s = interrupt_state (st l)" "EOF_Reached s = EOF_Reached (st l)"
      "indirection_level s = (if code = NOT_JUMPED then indirection_level (st l) else our)"
  | (stops) s l' where "after_setjmp calls our code l = at At_exec_done s l'" "trace l' = trace l"
      "env s = c_loop_entry calls (env (st l))" "interrupt_state s = interrupt_state (st l)"
      "EOF_Reached s" "indirection_level s = our"
  | (exits) s where "after_setjmp calls our code l = at At_exit s l" "env s = c_loop_entry calls (env (st l))"
proof -
  let ?s0 = "(st l)\<lparr>env := c_loop_entry calls (env (st l))\<rparr>"
  let ?s1 = "?s0\<lparr>indirection_level := our\<rparr>"
  let ?s2 = "if last_command_exit_value ?s1 = 0
      then ?s1\<lparr>last_command_exit_value := EXECUTION_FAILURE\<rparr> else ?s1"
  consider "code = NOT_JUMPED" | "code \<noteq> NOT_JUMPED" "code = FORCE_EOF \<or> code = ERREXIT \<or> code = EXITPROG"
    | "code = DISCARD" "subshell_environment ?s2" | "code = DISCARD" "\<not> subshell_environment ?s2"
    | "code \<notin> {NOT_JUMPED, FORCE_EOF, ERREXIT, EXITPROG, DISCARD}" by blast
  then show thesis
  proof cases
    case 1
    then show thesis by (intro reads [of ?s0 l]) (simp_all add: after_setjmp_def)
  next
    case 2
    show thesis
      by (rule stops [of "?s1\<lparr>variable_context := (if exit_immediately_on_error ?s1 then 0 else variable_context ?s1),
          EOF_Reached := True\<rparr>" "l\<lparr>current_command := None\<rparr>"])
        (use 2 in \<open>simp_all add: after_setjmp_def\<close>)
  next
    case 3
    show thesis
      by (rule stops [of "?s2\<lparr>EOF_Reached := True\<rparr>" "l\<lparr>current_command := None\<rparr>"])
        (use 3 in \<open>simp_all add: after_setjmp_def DISCARD_def FORCE_EOF_def ERREXIT_def EXITPROG_def NOT_JUMPED_def\<close>)
  next
    case 4
    show thesis
      by (rule reads [of ?s2 "l\<lparr>current_command := None\<rparr>"])
        (use 4 in \<open>simp_all add: after_setjmp_def DISCARD_def FORCE_EOF_def ERREXIT_def EXITPROG_def NOT_JUMPED_def\<close>)
  next
    case 5
    then show thesis by (intro exits [of ?s1]) (simp_all add: after_setjmp_def)
  qed
qed

lemma after_setjmp_trace:
  assumes "reported_run cs (trace l)"
  shows "trace_inv (after_setjmp calls our code l)"
proof (cases rule: after_setjmp_cases [of calls our code l])
  case (reads s l')
  then show ?thesis using read_and_run_trace [of cs "at At_while s l'" calls] assms by simp
qed (use assms in \<open>auto simp: trace_inv_def\<close>)

lemma loop_step_trace:
  assumes "trace_inv l"
  shows "trace_inv (loop_step calls our l)"
proof (cases "point l = At_exit")
  case True
  then show ?thesis using assms by (simp add: loop_step_def)
next
  case False
  then obtain cs where cs: "reported_run cs (trace l)" using assms by (auto simp: trace_inv_def)
  show ?thesis
    using cs after_setjmp_trace [OF cs]
    by (auto simp: loop_step_def exec_done_def trace_inv_def [of "at _ _ _"] trace_inv_def [of "loop_end _ _"] assms
        split: point.split prod.split outcome.split)
qed

lemma loop_steps_reported: "trace_inv l \<Longrightarrow> trace_inv (loop_steps calls our n l)"
  by (induction n arbitrary: l) (simp_all add: loop_step_trace)

subsection \<open>The indirection level\<close>

definition keeps_level :: "('c, 'e, 'r) call \<Rightarrow> bool" where
  "keeps_level f \<longleftrightarrow> (\<forall>s r s'. f s = (Returned r, s') \<longrightarrow> indirection_level s' = indirection_level s)"

text \<open>Called code that returns leaves the level as it found it (nested loops count up and down).\<close>

definition calls_balanced :: "('c, 'e) shell_calls \<Rightarrow> bool" where
  "calls_balanced calls \<longleftrightarrow>
     keeps_level (c_yyparse calls) \<and> keeps_level (c_run_pending_traps calls) \<and>
     (\<forall>w. keeps_level (c_execute_variable_command calls w)) \<and>
     keeps_level (c_gather_here_documents calls) \<and> (\<forall>c. keeps_level (c_execute_command calls c))"

lemma keeps_levelD: "keeps_level f \<Longrightarrow> f s = (Returned r, s') \<Longrightarrow> indirection_level s' = indirection_level s"
  by (simp add: keeps_level_def)

lemma keeps_level_and_then:
  assumes "keeps_level f" and "\<And>r. keeps_level (g r)"
  shows "keeps_level (and_then f g)"
  unfolding keeps_level_def
proof (intro allI impI)
  fix s r s'
  assume a: "and_then f g s = (Returned r, s')"
  show "indirection_level s' = indirection_level s"
    using a keeps_levelD [OF assms(1)] keeps_levelD [OF assms(2)]
    by (cases rule: and_then_cases [of f s g]) force+
qed

lemma keeps_level_simps:
  "(\<And>s. indirection_level (f s) = indirection_level s) \<Longrightarrow> keeps_level (modify f)"
  "keeps_level (ret r)"
  by (auto simp: keeps_level_def modify_def ret_def)

lemma keeps_level_if:
  "keeps_level f \<Longrightarrow> keeps_level (\<lambda>s. if P s then f s else (Returned r, s))"
  by (simp add: keeps_level_def)

lemma throw_never_returns_late:
  "throw_to_top_level calls s = (Returned r, s') \<Longrightarrow> indirection_level s' = indirection_level s"
  by (auto simp: throw_to_top_level_def Let_def and_then_def split: if_splits prod.splits outcome.splits)

lemma keeps_level_QUIT: "keeps_level (QUIT calls)"
  unfolding keeps_level_def QUIT_def using throw_never_returns_late [of calls] by (auto split: if_splits)

lemma keeps_level_parse: "calls_balanced calls \<Longrightarrow> keeps_level (parse_command calls)"
  unfolding parse_command_def calls_balanced_def
  by (intro keeps_level_and_then keeps_level_simps keeps_level_if)
    (auto simp: keeps_level_def split: if_splits option.splits)

lemma keeps_level_timed: "calls_balanced calls \<Longrightarrow> keeps_level (timed_read calls tv tlen h)"
  unfolding timed_read_def
  by (intro keeps_level_and_then keeps_level_simps keeps_level_QUIT keeps_level_parse) simp_all

lemma keeps_level_read: "calls_balanced calls \<Longrightarrow> keeps_level (read_command calls)"
  unfolding keeps_level_def read_command_def Let_def
  using keeps_levelD [OF keeps_level_timed, of calls] by fastforce

definition level_inv :: "int \<Rightarrow> ('c, 'e) loop_state \<Rightarrow> bool" where
  "level_inv our l \<longleftrightarrow>
     (case point l of
        At_while \<Rightarrow> indirection_level (st l) = our
      | At_exec_done \<Rightarrow> indirection_level (st l) = our
      | At_return \<Rightarrow> indirection_level (st l) = our - 1
      | At_setjmp code \<Rightarrow> code \<noteq> NOT_JUMPED
      | At_exit \<Rightarrow> True)"

lemma longjmp_value_jumped [simp]: "longjmp_value code \<noteq> NOT_JUMPED"
  by (simp add: longjmp_value_def NOT_JUMPED_def)

lemma run_command_level:
  "calls_balanced calls \<Longrightarrow> indirection_level s = our \<Longrightarrow> level_inv our (run_command calls c s l)"
  by (auto simp: run_command_def Let_def level_inv_def calls_balanced_def split: prod.splits outcome.splits
      dest!: keeps_levelD [of "c_execute_command calls c", rotated] elim!: report_state)

lemma read_and_run_level:
  assumes b: "calls_balanced calls" and l: "indirection_level (st l) = our"
  shows "level_inv our (read_and_run calls l)"
proof -
  let ?s0 = "(st l)\<lparr>executing := False, env := c_used_env_vars calls (env (st l))\<rparr>"
  obtain o1 s where r: "read_command calls ?s0 = (o1, s)" by (cases "read_command calls ?s0")
  show ?thesis
  proof (cases o1)
    case (Returned r')
    then have s: "indirection_level s = our"
      using keeps_levelD [OF keeps_level_read [OF b], of ?s0 r' s] r l by simp
    show ?thesis
      using r Returned s run_command_level [OF b s]
      by (auto simp: read_and_run_def Let_def level_inv_def split: option.splits)
  qed (use r in \<open>simp_all add: read_and_run_def Let_def level_inv_def\<close>)
qed

lemma loop_step_level:
  assumes b: "calls_balanced calls" and l: "level_inv our l"
  shows "level_inv our (loop_step calls our l)"
proof -
  have after: "level_inv our (after_setjmp calls our code l)"
    if "code \<noteq> NOT_JUMPED \<or> indirection_level (st l) = our" for code
  proof (cases rule: after_setjmp_cases [of calls our code l])
    case (reads s l')
    then show ?thesis using that read_and_run_level [OF b, of "at At_while s l'" our] by auto
  qed (simp_all add: level_inv_def)
  show ?thesis
  proof (cases "point l")
    case At_while
    then show ?thesis
      using l after [of NOT_JUMPED] by (cases "EOF_Reached (st l)") (simp_all add: loop_step_def level_inv_def)
  next
    case (At_setjmp code)
    then have "code \<noteq> NOT_JUMPED" using l by (simp add: level_inv_def)
    with At_setjmp show ?thesis using after [of code] by (simp add: loop_step_def)
  next
    case At_exec_done
    obtain o1 s where q: "QUIT calls (st l) = (o1, s)" by (cases "QUIT calls (st l)")
    then show ?thesis
      using At_exec_done l keeps_levelD [OF keeps_level_QUIT [of calls], of "st l"]
      by (cases o1) (auto simp: loop_step_def exec_done_def level_inv_def)
  qed (use l in \<open>simp_all add: loop_step_def\<close>)
qed

lemma loop_steps_level: "calls_balanced calls \<Longrightarrow> level_inv our l \<Longrightarrow> level_inv our (loop_steps calls our n l)"
  by (induction n arbitrary: l) (simp_all add: loop_step_level)

subsection \<open>The loop ends\<close>

text \<open>
  A measure of what can still happen: the input left in \<open>env\<close> and the pending interrupts.
\<close>

definition pending :: "('e \<Rightarrow> nat) \<Rightarrow> ('c, 'e) shell \<Rightarrow> nat" where
  "pending input s = input (env s) + nat (interrupt_state s)"

definition settles :: "('e \<Rightarrow> nat) \<Rightarrow> ('c, 'e, 'r) call \<Rightarrow> bool" where
  "settles input f \<longleftrightarrow>
     (\<forall>s o1 s'. f s = (o1, s') \<longrightarrow> pending input s' \<le> pending input s \<and>
        (\<forall>c. o1 = Jumped c \<longrightarrow> pending input s' < pending input s) \<and>
        (\<forall>r. o1 = Returned r \<longrightarrow> (EOF_Reached s \<longrightarrow> EOF_Reached s') \<and>
               (global_command s = None \<longrightarrow> global_command s' = None)))"

text \<open>Some input is used, or its end was met without a command.\<close>

definition reads_on :: "('e \<Rightarrow> nat) \<Rightarrow> ('c, 'e, 'r) call \<Rightarrow> bool" where
  "reads_on input f \<longleftrightarrow>
     (\<forall>s o1 s'. f s = (o1, s') \<longrightarrow> o1 \<noteq> Terminated \<longrightarrow>
        pending input s' < pending input s \<or>
        (\<exists>r. o1 = Returned r) \<and> pending input s' \<le> pending input s \<and> EOF_Reached s' \<and> global_command s' = None)"

text \<open>The C++ code of the report, however it ends, relates the environment it leaves to the one it found.\<close>

definition report_keeps :: "('e \<Rightarrow> 'e \<Rightarrow> bool) \<Rightarrow> ('c, 'e) shell_calls \<Rightarrow> bool" where
  "report_keeps R calls \<longleftrightarrow>
     (\<forall>e. R e (snd (c_parse_options calls e))) \<and> (\<forall>f d e. R e (snd (c_configure_logger calls f d e))) \<and>
     (\<forall>e. R e (snd (c_create_network calls e))) \<and> (\<forall>e. R e (snd (c_socket calls e))) \<and>
     (\<forall>fd p e. R e (snd (c_connect_unix calls fd p e))) \<and> (\<forall>fd w e. R e (snd (c_send_text calls fd w e))) \<and>
     (\<forall>fd e. R e (snd (c_close calls fd e)))"

text \<open>
  What the called code must promise: nothing adds input; a parse uses some up, or has met the end
  of the input and leaves no command; a jump out of the code run while reading uses some up too.
\<close>

definition calls_finite :: "('e \<Rightarrow> nat) \<Rightarrow> ('c, 'e) shell_calls \<Rightarrow> bool" where
  "calls_finite input calls \<longleftrightarrow>
     settles input (c_run_pending_traps calls) \<and> (\<forall>w. settles input (c_execute_variable_command calls w)) \<and>
     settles input (c_gather_here_documents calls) \<and> reads_on input (c_yyparse calls) \<and>
     (\<forall>c s o1 s'. c_execute_command calls c s = (o1, s') \<longrightarrow> pending input s' \<le> pending input s) \<and>
     (\<forall>s o1 s'. c_run_interrupt_trap calls s = (o1, s') \<longrightarrow> pending input s' \<le> pending input s) \<and>
     (\<forall>e. input (c_toplevel_cleanup calls e) \<le> input e \<and> input (c_loop_entry calls e) \<le> input e \<and>
          input (c_used_env_vars calls e) \<le> input e) \<and>
     report_keeps (\<lambda>e e'. input e' \<le> input e) calls"

text \<open>The weight of a loop state: it decreases with every step.\<close>

definition weight :: "('e \<Rightarrow> nat) \<Rightarrow> ('c, 'e) loop_state \<Rightarrow> nat" where
  "weight input l =
     (case point l of
        At_while \<Rightarrow> if EOF_Reached (st l) then 1 else 3 * pending input (st l) + 2
      | At_exec_done \<Rightarrow> 3 * pending input (st l) + 3
      | At_setjmp _ \<Rightarrow> 3 * pending input (st l) + 4
      | At_return \<Rightarrow> 0
      | At_exit \<Rightarrow> 0)"

lemma pending_cong:
  "env s' = env s \<Longrightarrow> interrupt_state s' = interrupt_state s \<Longrightarrow> pending input s' = pending input s"
  by (simp add: pending_def)

lemma settlesD:
  assumes "settles input f" and "f s = (o1, s')"
  shows "pending input s' \<le> pending input s" "o1 = Jumped c \<Longrightarrow> pending input s' < pending input s"
    "o1 = Returned r \<Longrightarrow> EOF_Reached s \<Longrightarrow> EOF_Reached s'"
    "o1 = Returned r \<Longrightarrow> global_command s = None \<Longrightarrow> global_command s' = None"
  using assms unfolding settles_def by blast+

lemma settles_and_then:
  assumes f: "settles input f" and g: "\<And>r. settles input (g r)"
  shows "settles input (and_then f g)"
  unfolding settles_def
proof (intro allI impI)
  fix s o1 s'
  assume a: "and_then f g s = (o1, s')"
  show "pending input s' \<le> pending input s \<and> (\<forall>c. o1 = Jumped c \<longrightarrow> pending input s' < pending input s) \<and>
     (\<forall>r. o1 = Returned r \<longrightarrow> (EOF_Reached s \<longrightarrow> EOF_Reached s') \<and>
            (global_command s = None \<longrightarrow> global_command s' = None))"
  proof (cases rule: and_then_cases [of f s g])
    case (returned r s1)
    with a have "g r s1 = (o1, s')" by simp
    from settlesD [OF f returned(1)] settlesD [OF g this] show ?thesis by fastforce
  next
    case (jumped c s1)
    with a settlesD [OF f jumped(1)] show ?thesis by auto
  next
    case (terminated s1)
    with a settlesD [OF f terminated(1)] show ?thesis by auto
  qed
qed

lemma settles_simps:
  "(\<And>s. env (f s) = env s \<and> interrupt_state (f s) = interrupt_state s \<and> EOF_Reached (f s) = EOF_Reached s \<and>
     global_command (f s) = global_command s) \<Longrightarrow> settles input (modify f)"
  "settles input (ret r)"
  by (auto simp: settles_def modify_def ret_def pending_def)

lemma settles_if:
  "settles input f \<Longrightarrow> settles input (\<lambda>s. if P s then f s else (Returned r, s))"
  by (auto simp: settles_def)

lemma reads_on_before:
  assumes f: "settles input f" and g: "\<And>r. reads_on input (g r)"
  shows "reads_on input (and_then f g)"
  unfolding reads_on_def
proof (intro allI impI)
  fix s o1 s'
  assume a: "and_then f g s = (o1, s')" and t: "o1 \<noteq> Terminated"
  show "pending input s' < pending input s \<or>
     (\<exists>r. o1 = Returned r) \<and> pending input s' \<le> pending input s \<and> EOF_Reached s' \<and> global_command s' = None"
  proof (cases rule: and_then_cases [of f s g])
    case (returned r s1)
    with a have "g r s1 = (o1, s')" by simp
    with g t settlesD(1) [OF f returned(1)] show ?thesis unfolding reads_on_def by fastforce
  next
    case (jumped c s1)
    with a settlesD(2) [OF f jumped(1)] show ?thesis by auto
  qed (use a t in auto)
qed

lemma reads_on_after:
  assumes f: "reads_on input f" and g: "\<And>r. settles input (g r)"
  shows "reads_on input (and_then f g)"
  unfolding reads_on_def
proof (intro allI impI)
  fix s o1 s'
  assume a: "and_then f g s = (o1, s')" and t: "o1 \<noteq> Terminated"
  show "pending input s' < pending input s \<or>
     (\<exists>r. o1 = Returned r) \<and> pending input s' \<le> pending input s \<and> EOF_Reached s' \<and> global_command s' = None"
  proof (cases rule: and_then_cases [of f s g])
    case (returned r s1)
    with a have g1: "g r s1 = (o1, s')" by simp
    have f1: "pending input s1 < pending input s \<or>
        pending input s1 \<le> pending input s \<and> EOF_Reached s1 \<and> global_command s1 = None"
      using f returned(1) unfolding reads_on_def by blast
    show ?thesis
    proof (cases o1)
      case (Returned r')
      then show ?thesis using f1 settlesD(1,3,4) [OF g g1] by fastforce
    next
      case (Jumped c)
      then show ?thesis using f1 settlesD(2) [OF g g1] by fastforce
    qed (use t in simp)
  next
    case (jumped c s1)
    with a f jumped(1) show ?thesis unfolding reads_on_def by fastforce
  qed (use a t in auto)
qed

lemma settles_QUIT:
  assumes "calls_finite input calls"
  shows "settles input (QUIT calls)"
  unfolding settles_def
proof (intro allI impI)
  fix s o1 s'
  assume q: "QUIT calls s = (o1, s')"
  have trap: "pending input s2 \<le> pending input s1" if "c_run_interrupt_trap calls s1 = (o2, s2)" for s1 o2 s2
    using assms that unfolding calls_finite_def by blast
  have clean: "pending input (s1\<lparr>env := c_toplevel_cleanup calls (env s1)\<rparr>) \<le> pending input s1" for s1
    using assms unfolding calls_finite_def pending_def by simp
  show "pending input s' \<le> pending input s \<and> (\<forall>c. o1 = Jumped c \<longrightarrow> pending input s' < pending input s) \<and>
     (\<forall>r. o1 = Returned r \<longrightarrow> (EOF_Reached s \<longrightarrow> EOF_Reached s') \<and>
            (global_command s = None \<longrightarrow> global_command s' = None))"
  proof (cases "terminating_signal s \<noteq> 0 \<or> interrupt_state s = 0")
    case True
    then show ?thesis using q by (auto simp: QUIT_def split: if_splits)
  next
    case False
    then have t: "throw_to_top_level calls s = (o1, s')" using q by (simp add: QUIT_def)
    show ?thesis
    proof (cases "interrupt_state s = 1")
      case False
      then show ?thesis
        using t \<open>\<not> (terminating_signal s \<noteq> 0 \<or> interrupt_state s = 0)\<close>
        by (auto simp: throw_to_top_level_def Let_def pending_def split: if_splits)
    next
      case True
      define v where "v = (if last_command_exit_value s < 128 then 128 + SIGINT else last_command_exit_value s)"
      define s2 where "s2 = s\<lparr>interrupt_state := 0,
          last_command_exit_signal := (if 128 < v then v - 128 else 0), last_command_exit_value := v OR 128\<rparr>"
      obtain o2 s3 where tr: "c_run_interrupt_trap calls s2 = (o2, s3)"
        by (cases "c_run_interrupt_trap calls s2")
      have "pending input s2 < pending input s" using True by (simp add: s2_def pending_def)
      then have less: "pending input s3 < pending input s" using trap [OF tr] by simp
      have "s' = s3 \<or> s' = s3\<lparr>env := c_toplevel_cleanup calls (env s3)\<rparr>"
        and nr: "\<not> (\<exists>r. o1 = Returned r)"
        using t True tr
        by (auto simp: throw_to_top_level_def Let_def and_then_def v_def [symmetric] s2_def
            split: outcome.splits prod.splits)
      then show ?thesis using less clean [of s3] by fastforce
    qed
  qed
qed

lemma reads_on_parse: "calls_finite input calls \<Longrightarrow> reads_on input (parse_command calls)"
  unfolding parse_command_def calls_finite_def
  by (intro reads_on_before reads_on_after settles_and_then settles_simps settles_if)
    (auto simp: settles_def split: if_splits option.splits)

lemma reads_on_timed: "calls_finite input calls \<Longrightarrow> reads_on input (timed_read calls tv tlen h)"
  unfolding timed_read_def
  by (intro reads_on_before reads_on_after settles_and_then settles_simps settles_QUIT reads_on_parse) simp_all

lemma reads_on_read:
  assumes "calls_finite input calls"
  shows "reads_on input (read_command calls)"
  unfolding reads_on_def
proof (intro allI impI)
  fix s o1 s'
  assume r: "read_command calls s = (o1, s')" and t: "o1 \<noteq> Terminated"
  let ?s1 = "s\<lparr>prompt_level := 1, global_command := None\<rparr>"
  let ?tv = "if interactive ?s1 then c_tmout calls (env ?s1) else None"
  let ?tl = "case ?tv of Some (Some v) \<Rightarrow> atoi v | _ \<Rightarrow> 0"
  let ?s2 = "if 0 < ?tl then ?s1\<lparr>sigalrm_handler := alrm_catcher, alarm_seconds := ?tl\<rparr> else ?s1"
  have "timed_read calls ?tv ?tl (sigalrm_handler ?s1) ?s2 = (o1, s')"
    using r unfolding read_command_def Let_def .
  moreover have "pending input ?s2 = pending input s" by (simp add: pending_def)
  ultimately show "pending input s' < pending input s \<or>
     (\<exists>r. o1 = Returned r) \<and> pending input s' \<le> pending input s \<and> EOF_Reached s' \<and> global_command s' = None"
    using reads_on_timed [OF assms] t unfolding reads_on_def by metis
qed

lemma weight_exit [simp]: "weight input (at At_exit s l) = 0"
  by (simp add: weight_def)

lemma weight_setjmp [simp]: "weight input (at (At_setjmp c) s l) = 3 * pending input s + 4"
  by (simp add: weight_def)

lemma weight_exec_done [simp]: "weight input (at At_exec_done s l) = 3 * pending input s + 3"
  by (simp add: weight_def)

lemma weight_loop_end: "weight input (loop_end s l) \<le> (if EOF_Reached s then 1 else 3 * pending input s + 2)"
  by (auto simp: weight_def pending_def)

lemma transmit_keeps:
  assumes k: "report_keeps R calls" and R: "transp R" and t: "transmit calls path w e = (b, x, e')"
  shows "R e e'"
proof -
  have sock: "R e1 e2" if "c_socket calls e1 = (x1, e2)" for e1 x1 e2
    using k that unfolding report_keeps_def by (metis snd_conv)
  have conn: "R e1 e2" if "c_connect_unix calls fd p e1 = (x1, e2)" for fd p e1 x1 e2
    using k that unfolding report_keeps_def by (metis snd_conv)
  have send: "R e1 e2" if "c_send_text calls fd v e1 = (x1, e2)" for fd v e1 x1 e2
    using k that unfolding report_keeps_def by (metis snd_conv)
  have clos: "R e1 e2" if "c_close calls fd e1 = (x1, e2)" for fd e1 x1 e2
    using k that unfolding report_keeps_def by (metis snd_conv)
  show ?thesis
    using t by (auto simp: transmit_def split: prod.splits cpp.splits
        dest!: sock conn send clos) (metis transpD [OF R])+
qed

lemma SendCommand_keeps:
  assumes k: "report_keeps R calls" and R: "reflp R" "transp R" and t: "SendCommand calls w s = (o1, s1, ev)"
  shows "R (env s) (env s1)"
proof -
  have opts: "R e1 e2" if "c_parse_options calls e1 = (x1, e2)" for e1 x1 e2
    using k that unfolding report_keeps_def by (metis snd_conv)
  have logs: "R e1 e2" if "c_configure_logger calls f d e1 = (x1, e2)" for f d e1 x1 e2
    using k that unfolding report_keeps_def by (metis snd_conv)
  have netw: "R e1 e2" if "c_create_network calls e1 = (x1, e2)" for e1 x1 e2
    using k that unfolding report_keeps_def by (metis snd_conv)
  show ?thesis
    using t by (auto simp: SendCommand_def Let_def split: prod.splits cpp.splits option.splits if_splits
        dest!: opts logs netw transmit_keeps [OF k R(2)]) (metis transpD [OF R(2)] reflpD [OF R(1)])+
qed

lemma report_keeps_env:
  assumes "report_keeps R calls" "reflp R" "transp R" "report calls c s = (o1, s1, ev)"
  shows "R (env s) (env s1)"
  using SendCommand_keeps [OF assms(1-3)] reflpD [OF assms(2)] assms(4)
  by (auto simp: report_def split: if_splits command_value.splits list.splits)

lemma report_pending:
  assumes fin: "calls_finite input calls" and r: "report calls c s = (o1, s1, ev)"
  shows "pending input s1 \<le> pending input s"
proof -
  have k: "report_keeps (\<lambda>e e'. input e' \<le> input e) calls" using fin unfolding calls_finite_def by blast
  have "input (env s1) \<le> input (env s)"
    by (rule report_keeps_env [OF k _ _ r]) (auto intro: reflpI transpI)
  then show ?thesis using r by (elim report_state) (simp add: pending_def)
qed

lemma run_command_weight:
  assumes "calls_finite input calls"
  shows "weight input (run_command calls c s l) \<le> 3 * pending input s + 4"
proof -
  obtain o0 s0 ev where rep: "report calls c s = (o0, s0, ev)" by (cases "report calls c s")
  let ?s1 = "s0\<lparr>global_command := None, current_command_number := current_command_number s0 + 1,
                 executing := True, stdin_redir := 0\<rparr>"
  obtain o1 s2 where e: "c_execute_command calls c ?s1 = (o1, s2)" by (cases "c_execute_command calls c ?s1")
  then have "pending input s2 \<le> pending input s0"
    using assms pending_cong [of ?s1 s0 input] unfolding calls_finite_def by fastforce
  then have "pending input s2 \<le> pending input s" using report_pending [OF assms rep] by simp
  with e rep show ?thesis by (cases o0; cases o1) (simp_all add: run_command_def Let_def)
qed

lemma read_and_run_weight:
  fixes l :: "('c, 'e) loop_state"
  assumes fin: "calls_finite input calls"
  shows "weight input (read_and_run calls l) \<le> 3 * pending input (st l) + 1"
proof -
  let ?s0 = "(st l)\<lparr>executing := False, env := c_used_env_vars calls (env (st l))\<rparr>"
  obtain o1 s where r: "read_command calls ?s0 = (o1, s)" by (cases "read_command calls ?s0")
  have p0: "pending input ?s0 \<le> pending input (st l)"
    using fin unfolding calls_finite_def pending_def by simp
  have ro: "o1 \<noteq> Terminated \<Longrightarrow> pending input s < pending input (st l) \<or>
      (\<exists>r. o1 = Returned r) \<and> pending input s \<le> pending input (st l) \<and> EOF_Reached s \<and> global_command s = None"
    using reads_on_read [OF fin] r p0 unfolding reads_on_def by fastforce
  show ?thesis
  proof (cases o1)
    case (Jumped c)
    with ro r show ?thesis by (simp add: read_and_run_def Let_def)
  next
    case Terminated
    with r show ?thesis by (simp add: read_and_run_def Let_def)
  next
    case (Returned r')
    have eq: "read_and_run calls l =
       (if r' = 0 then
               if \<not> interactive_shell s \<and> read_but_dont_execute s
               then loop_end (s\<lparr>last_command_exit_value := EXECUTION_SUCCESS, global_command := None\<rparr>) l
               else (case global_command s of
                       Some c \<Rightarrow> run_command calls c s l
                     | None \<Rightarrow> loop_end s (l\<lparr>current_command := None\<rparr>))
             else loop_end (if interactive s then s else s\<lparr>EOF_Reached := True\<rparr>) l)"
      using r Returned by (simp add: read_and_run_def Let_def)
    consider (used) "pending input s < pending input (st l)"
      | (eof) "EOF_Reached s" "global_command s = None" using ro Returned by auto
    then show ?thesis
    proof cases
      case used
      have le: "weight input (loop_end s' l') \<le> 3 * pending input s + 4"
        if "env s' = env s" "interrupt_state s' = interrupt_state s" for s' and l' :: "('c, 'e) loop_state"
        using weight_loop_end [of input s' l'] pending_cong [OF that, of input] by (auto split: if_splits)
      have "weight input (read_and_run calls l) \<le> 3 * pending input s + 4"
        unfolding eq using le [of s] le [of "s\<lparr>EOF_Reached := True\<rparr>"]
          le [of "s\<lparr>last_command_exit_value := EXECUTION_SUCCESS, global_command := None\<rparr>"]
          run_command_weight [OF fin, of _ s l]
        by (simp split: option.split)
      then show ?thesis using used by simp
    next
      case eof
      have le: "weight input (loop_end s' l') \<le> Suc 0" if "EOF_Reached s'" for s' and l' :: "('c, 'e) loop_state"
        using weight_loop_end [of input s' l'] that by simp
      have "weight input (read_and_run calls l) \<le> 1"
        unfolding eq using eof by (simp add: le)
      then show ?thesis by simp
    qed
  qed
qed

lemma loop_step_weight:
  fixes l :: "('c, 'e) loop_state"
  assumes fin: "calls_finite input calls" and "point l \<notin> {At_return, At_exit}"
  shows "weight input (loop_step calls our l) < weight input l"
proof -
  have body: "weight input (read_and_run calls (at At_while s l')) \<le> 3 * pending input (st l) + 1"
    if "env s = c_loop_entry calls (env (st l))" "interrupt_state s = interrupt_state (st l)"
    for s and l' :: "('c, 'e) loop_state"
  proof -
    have "pending input s \<le> pending input (st l)"
      using fin that unfolding calls_finite_def pending_def by simp
    then show ?thesis using read_and_run_weight [OF fin, of "at At_while s l'"] by simp
  qed
  have after: "weight input (after_setjmp calls our code l) \<le> 3 * pending input (st l) + 3"
    "code = NOT_JUMPED \<Longrightarrow> weight input (after_setjmp calls our code l) \<le> 3 * pending input (st l) + 1" for code
  proof -
    show "weight input (after_setjmp calls our code l) \<le> 3 * pending input (st l) + 3"
    proof (cases rule: after_setjmp_cases [of calls our code l])
      case (reads s l')
      then show ?thesis using body [of s l'] by simp
    next
      case (stops s l')
      have "pending input s \<le> pending input (st l)"
        using fin stops(3,4) unfolding calls_finite_def pending_def by simp
      then show ?thesis using stops(1) by simp
    qed simp
    show "code = NOT_JUMPED \<Longrightarrow> weight input (after_setjmp calls our code l) \<le> 3 * pending input (st l) + 1"
      using body [of "(st l)\<lparr>env := c_loop_entry calls (env (st l))\<rparr>" l] by (simp add: after_setjmp_def)
  qed
  show ?thesis
  proof (cases "point l")
    case At_while
    then show ?thesis
      using after(2) [of NOT_JUMPED]
      by (cases "EOF_Reached (st l)") (auto simp: loop_step_def weight_def [of input l] weight_def at_def)
  next
    case (At_setjmp code)
    then show ?thesis
      using after(1) [of code] by (simp add: loop_step_def weight_def [of input l])
  next
    case At_exec_done
    obtain o1 s where q: "QUIT calls (st l) = (o1, s)" by (cases "QUIT calls (st l)")
    note sd = settlesD [OF settles_QUIT [OF fin] q]
    show ?thesis
    proof (cases o1)
      case (Returned r)
      then show ?thesis
        using At_exec_done q sd(1) weight_loop_end [of input s "l\<lparr>current_command := None\<rparr>"]
        by (auto simp: loop_step_def exec_done_def weight_def [of input l] split: if_splits)
    next
      case (Jumped c)
      then show ?thesis
        using At_exec_done q sd(2) [of c] by (simp add: loop_step_def exec_done_def weight_def [of input l])
    next
      case Terminated
      then show ?thesis
        using At_exec_done q by (simp add: loop_step_def exec_done_def weight_def [of input l])
    qed
  qed (use assms(2) in simp_all)
qed

lemma loop_steps_end:
  assumes "calls_finite input calls"
  shows "weight input l \<le> n \<Longrightarrow> point (loop_steps calls our n l) \<in> {At_return, At_exit}"
proof (induction n arbitrary: l)
  case 0
  then show ?case by (auto simp: weight_def split: point.splits if_splits)
next
  case (Suc n)
  show ?case
  proof (cases "point l \<in> {At_return, At_exit}")
    case True
    then have "loop_step calls our l = l" by (auto simp: loop_step_def)
    moreover have "weight input l \<le> n" using True by (auto simp: weight_def)
    ultimately show ?thesis using Suc.IH [of l] by simp
  next
    case False
    then have "weight input (loop_step calls our l) \<le> n"
      using loop_step_weight [OF assms False, of our] Suc.prems by simp
    then show ?thesis using Suc.IH by simp
  qed
qed

subsection \<open>The alarm of the input time-out\<close>

definition keeps :: "(('c, 'e) shell \<Rightarrow> 'x) \<Rightarrow> ('c, 'e, 'r) call \<Rightarrow> bool" where
  "keeps obs f \<longleftrightarrow> (\<forall>s o1 s'. f s = (o1, s') \<longrightarrow> obs s' = obs s)"

definition calls_keep :: "(('c, 'e) shell \<Rightarrow> 'x) \<Rightarrow> ('c, 'e) shell_calls \<Rightarrow> bool" where
  "calls_keep obs calls \<longleftrightarrow>
     keeps obs (c_yyparse calls) \<and> keeps obs (c_run_pending_traps calls) \<and>
     (\<forall>w. keeps obs (c_execute_variable_command calls w)) \<and>
     keeps obs (c_gather_here_documents calls) \<and> keeps obs (c_run_interrupt_trap calls)"

lemma keepsD: "keeps obs f \<Longrightarrow> f s = (o1, s') \<Longrightarrow> obs s' = obs s"
  by (simp add: keeps_def)

lemma keeps_and_then:
  assumes "keeps obs f" and "\<And>r. keeps obs (g r)"
  shows "keeps obs (and_then f g)"
  unfolding keeps_def
proof (intro allI impI)
  fix s o1 s'
  assume a: "and_then f g s = (o1, s')"
  show "obs s' = obs s"
    using a keepsD [OF assms(1)] keepsD [OF assms(2)]
    by (cases rule: and_then_cases [of f s g]) force+
qed

lemma keeps_modify: "(\<And>s. obs (f s) = obs s) \<Longrightarrow> keeps obs (modify f)"
  by (auto simp: keeps_def modify_def)

lemma keeps_if: "keeps obs g \<Longrightarrow> keeps obs (\<lambda>s. if P s then g s else (Returned r, s))"
  by (auto simp: keeps_def)

lemma keeps_ret: "keeps obs (ret r)"
  by (auto simp: keeps_def ret_def)

lemmas keeps_simps = keeps_modify keeps_if keeps_ret

text \<open>An observation that the bookkeeping of the loop itself does not touch.\<close>

definition outside_loop :: "('c, 'e) shell_calls \<Rightarrow> (('c, 'e) shell \<Rightarrow> 'x) \<Rightarrow> bool" where
  "outside_loop calls obs \<longleftrightarrow>
     (\<forall>s v. obs (s\<lparr>last_command_exit_value := v\<rparr>) = obs s) \<and> (\<forall>s v. obs (s\<lparr>interrupt_state := v\<rparr>) = obs s) \<and>
     (\<forall>s v. obs (s\<lparr>last_command_exit_signal := v\<rparr>) = obs s) \<and> (\<forall>s v. obs (s\<lparr>need_here_doc := v\<rparr>) = obs s) \<and>
     (\<forall>s v. obs (s\<lparr>current_command_line_count := v\<rparr>) = obs s) \<and>
     (\<forall>s. obs (s\<lparr>env := c_toplevel_cleanup calls (env s)\<rparr>) = obs s)"

lemma keeps_QUIT:
  assumes k: "calls_keep obs calls" and f: "outside_loop calls obs"
  shows "keeps obs (QUIT calls)"
  unfolding keeps_def
proof (intro allI impI)
  fix s o1 s'
  assume q: "QUIT calls s = (o1, s')"
  have trap: "keeps obs (c_run_interrupt_trap calls)" using k by (simp add: calls_keep_def)
  show "obs s' = obs s"
    using q f unfolding outside_loop_def QUIT_def throw_to_top_level_def Let_def and_then_def
    by (auto split: if_splits prod.splits outcome.splits dest!: keepsD [OF trap])
qed

lemma keeps_parse: "calls_keep obs calls \<Longrightarrow> outside_loop calls obs \<Longrightarrow> keeps obs (parse_command calls)"
  unfolding parse_command_def calls_keep_def outside_loop_def
  by (intro keeps_and_then keeps_simps) (auto simp: keeps_def split: if_splits option.splits)

lemma timed_read_handler:
  assumes k: "calls_keep sigalrm_handler calls" and r: "timed_read calls tv tlen h s = (o1, s1)"
    and tv: "tv \<noteq> None" "0 < tlen"
  shows "case o1 of
      Returned _ \<Rightarrow> (if interactive s1 then sigalrm_handler s1 = h \<and> alarm_seconds s1 = 0
                     else sigalrm_handler s1 = sigalrm_handler s)
    | Jumped _ \<Rightarrow> sigalrm_handler s1 = sigalrm_handler s
    | Terminated \<Rightarrow> True"
proof -
  let ?f = "and_then (QUIT calls) (\<lambda>_. and_then (modify (\<lambda>st. st\<lparr>current_command_line_count := 0\<rparr>)) (\<lambda>_.
      parse_command calls))"
  let ?fin = "\<lambda>result. and_then (modify (\<lambda>st. if interactive st \<and> tv \<noteq> None \<and> 0 < tlen
      then st\<lparr>alarm_seconds := 0, sigalrm_handler := h\<rparr> else st)) (\<lambda>_. ret result)"
  have assoc: "timed_read calls tv tlen h s = and_then ?f ?fin s"
    by (auto simp: timed_read_def and_then_def split: prod.splits outcome.splits)
  have "outside_loop calls sigalrm_handler" by (simp add: outside_loop_def)
  then have kf: "keeps sigalrm_handler ?f"
    by (intro keeps_and_then keeps_simps keeps_QUIT keeps_parse k) simp_all
  show ?thesis
  proof (cases rule: and_then_cases [of ?f s ?fin])
    case (returned res s2)
    then have "sigalrm_handler s2 = sigalrm_handler s" using keepsD [OF kf] by blast
    then show ?thesis
      using r tv returned(2) by (auto simp: assoc and_then_def modify_def ret_def split: if_splits)
  next
    case (jumped c s2)
    then have "sigalrm_handler s2 = sigalrm_handler s" using keepsD [OF kf] by blast
    then show ?thesis using r jumped(2) by (auto simp: assoc)
  next
    case (terminated s2)
    then show ?thesis using r by (simp add: assoc)
  qed
qed

section \<open>A shell fed from a script\<close>

text \<open>A non-interactive shell that executes what it reads, without pending signals.\<close>

definition running :: "('c, 'e) shell \<Rightarrow> bool" where
  "running s \<longleftrightarrow> \<not> EOF_Reached s \<and> \<not> interactive s \<and> \<not> read_but_dont_execute s \<and> \<not> just_one_command s \<and>
     interrupt_state s = 0 \<and> terminating_signal s = 0"

lemma running_simps [simp]:
  "running (s\<lparr>executing := b\<rparr>) = running s" "running (s\<lparr>env := e\<rparr>) = running s"
  "running (s\<lparr>global_command := g\<rparr>) = running s" "running (s\<lparr>current_command_number := n\<rparr>) = running s"
  "running (s\<lparr>stdin_redir := n\<rparr>) = running s" "running (s\<lparr>indirection_level := n\<rparr>) = running s"
  "running (s\<lparr>slas_options := opt\<rparr>) = running s" "running (s\<lparr>need_here_doc := b\<rparr>) = running s"
  "running (s\<lparr>prompt_level := k\<rparr>) = running s" "running (s\<lparr>current_command_line_count := n\<rparr>) = running s"
  "running (s\<lparr>last_command_exit_value := n\<rparr>) = running s"
  by (simp_all add: running_def)

text \<open>
  The environment holds a script: the parser delivers its commands one by one and then meets the
  end; traps, here documents, the C++ code and the executor leave the rest of the script alone.
  The executor may return or discard the command by a jump.
\<close>

definition same_script :: "('e \<Rightarrow> 'c command list) \<Rightarrow> ('c, 'e) shell \<Rightarrow> ('c, 'e) shell \<Rightarrow> bool" where
  "same_script script s s' \<longleftrightarrow>
     script (env s') = script (env s) \<and> global_command s' = global_command s \<and>
     EOF_Reached s' = EOF_Reached s \<and> (running s \<longrightarrow> running s')"

definition delivers :: "('e \<Rightarrow> 'c command list) \<Rightarrow> ('c, 'e) shell_calls \<Rightarrow> bool" where
  "delivers script calls \<longleftrightarrow>
     (\<forall>s. \<exists>s'. c_run_pending_traps calls s = (Returned (), s') \<and> same_script script s s') \<and>
     (\<forall>s. \<exists>s'. c_gather_here_documents calls s = (Returned (), s') \<and> same_script script s s') \<and>
     (\<forall>s. running s \<longrightarrow>
        (\<exists>s'. c_yyparse calls s = (Returned 0, s') \<and>
           (case script (env s) of
              [] \<Rightarrow> EOF_Reached s' \<and> global_command s' = None
            | c # cs \<Rightarrow> running s' \<and> global_command s' = Some c \<and> script (env s') = cs))) \<and>
     (\<forall>c s. running s \<longrightarrow>
        (\<exists>o1 s'. c_execute_command calls c s = (o1, s') \<and> running s' \<and> script (env s') = script (env s) \<and>
           (o1 = Returned () \<or> o1 = Jumped DISCARD \<and> \<not> subshell_environment s'))) \<and>
     (\<forall>e. script (c_loop_entry calls e) = script e \<and> script (c_used_env_vars calls e) = script e) \<and>
     report_keeps (\<lambda>e e'. script e' = script e) calls"

text \<open>No exception leaves the C++ code: none outside the \<open>try\<close> block, only standard ones inside.\<close>

definition reports_caught :: "('c, 'e) shell_calls \<Rightarrow> bool" where
  "reports_caught calls \<longleftrightarrow>
     (\<forall>e. \<exists>options e'. c_parse_options calls e = (Value options, e')) \<and>
     (\<forall>f d e. \<exists>e'. c_configure_logger calls f d e = (Value (), e')) \<and>
     (\<forall>e. \<exists>e'. c_create_network calls e = (Value (), e')) \<and>
     (\<forall>e. fst (c_socket calls e) \<noteq> Other_Exception) \<and>
     (\<forall>fd p e. fst (c_connect_unix calls fd p e) \<noteq> Other_Exception) \<and>
     (\<forall>fd w e. fst (c_send_text calls fd w e) \<noteq> Other_Exception) \<and>
     (\<forall>fd e. fst (c_close calls fd e) \<noteq> Other_Exception)"

lemma delivers_parse:
  "delivers script calls \<Longrightarrow> running s \<Longrightarrow>
   \<exists>s'. c_yyparse calls s = (Returned 0, s') \<and>
     (case script (env s) of
        [] \<Rightarrow> EOF_Reached s' \<and> global_command s' = None
      | c # cs \<Rightarrow> running s' \<and> global_command s' = Some c \<and> script (env s') = cs)"
  unfolding delivers_def by blast

lemma delivers_execute:
  "delivers script calls \<Longrightarrow> running s \<Longrightarrow>
   \<exists>o1 s'. c_execute_command calls c s = (o1, s') \<and> running s' \<and> script (env s') = script (env s) \<and>
     (o1 = Returned () \<or> o1 = Jumped DISCARD \<and> \<not> subshell_environment s')"
  unfolding delivers_def by blast

lemma transmit_caught:
  assumes c: "reports_caught calls" and t: "transmit calls p w e = (b, x, e')"
  shows "x \<noteq> Other_Exception"
proof -
  have "c_socket calls e1 \<noteq> (Other_Exception, e2)" "c_connect_unix calls fd p e1 \<noteq> (Other_Exception, e2)"
    "c_send_text calls fd w e1 \<noteq> (Other_Exception, e2)" "c_close calls fd e1 \<noteq> (Other_Exception, e2)" for fd e1 e2
    using c unfolding reports_caught_def by (metis fst_conv)+
  then show ?thesis using t by (auto simp: transmit_def split: prod.splits cpp.splits)
qed

lemma SendCommand_caught:
  assumes c: "reports_caught calls"
  shows "fst (SendCommand calls w s) = Returned ()"
proof -
  obtain options e1 where o: "(case slas_options s of Some options \<Rightarrow> (Value options, env s)
      | None \<Rightarrow> c_parse_options calls (env s)) = (Value options, e1)"
    using c unfolding reports_caught_def by (cases "slas_options s") (simp_all, blast)
  obtain e2 where l: "c_configure_logger calls (logfile_path options) (debug options) e1 = (Value (), e2)"
    using c unfolding reports_caught_def by blast
  obtain e3 where n: "c_create_network calls e2 = (Value (), e3)"
    using c unfolding reports_caught_def by blast
  obtain b x e4 where t: "transmit calls (bash_socket_path options) w e3 = (b, x, e4)"
    by (cases "transmit calls (bash_socket_path options) w e3")
  show ?thesis
    using transmit_caught [OF c t] by (simp add: SendCommand_def o l n t Let_def)
qed

lemma report_caught: "reports_caught calls \<Longrightarrow> fst (report calls c s) = Returned ()"
  using SendCommand_caught by (auto simp: report_def split: command_value.split list.split)

lemma script_parse:
  assumes d: "delivers script calls" and s: "running s"
  shows "\<exists>s1. parse_command calls s = (Returned 0, s1) \<and>
    (case script (env s) of
       [] \<Rightarrow> EOF_Reached s1 \<and> global_command s1 = None
     | c # cs \<Rightarrow> running s1 \<and> global_command s1 = Some c \<and> script (env s1) = cs)"
proof -
  let ?s0 = "s\<lparr>need_here_doc := False\<rparr>"
  obtain s1 where s1: "c_run_pending_traps calls ?s0 = (Returned (), s1)" "same_script script ?s0 s1"
    using d unfolding delivers_def by blast
  then have r1: "running s1" "script (env s1) = script (env s)" "\<not> interactive s1"
    using s by (auto simp: same_script_def running_def)
  let ?s2 = "s1\<lparr>current_command_line_count := 0\<rparr>"
  have "running ?s2" using r1 by simp
  then obtain s3 where s3: "c_yyparse calls ?s2 = (Returned 0, s3)"
    "case script (env s) of
       [] \<Rightarrow> EOF_Reached s3 \<and> global_command s3 = None
     | c # cs \<Rightarrow> running s3 \<and> global_command s3 = Some c \<and> script (env s3) = cs"
    using delivers_parse [OF d, of ?s2] r1(2) by auto
  obtain s4 where s4: "c_gather_here_documents calls s3 = (Returned (), s4)" "same_script script s3 s4"
    using d unfolding delivers_def by blast
  have "parse_command calls s = (Returned 0, if need_here_doc s3 then s4 else s3)"
    using s1(1) s3(1) s4(1) r1(3) by (simp add: parse_command_def and_then_def modify_def ret_def)
  then show ?thesis
    using s3(2) s4(2) by (auto simp: same_script_def split: list.splits)
qed

lemma script_read:
  assumes d: "delivers script calls" and s: "running s"
  shows "\<exists>s1. read_command calls s = (Returned 0, s1) \<and>
    (case script (env s) of
       [] \<Rightarrow> EOF_Reached s1 \<and> global_command s1 = None
     | c # cs \<Rightarrow> running s1 \<and> global_command s1 = Some c \<and> script (env s1) = cs)"
proof -
  let ?s0 = "s\<lparr>prompt_level := 1, global_command := None, current_command_line_count := 0\<rparr>"
  have s0: "running ?s0" using s by simp
  obtain s1 where p: "parse_command calls ?s0 = (Returned 0, s1)"
    "case script (env ?s0) of
       [] \<Rightarrow> EOF_Reached s1 \<and> global_command s1 = None
     | c # cs \<Rightarrow> running s1 \<and> global_command s1 = Some c \<and> script (env s1) = cs"
    using script_parse [OF d s0] by blast
  have q: "\<not> interactive s" "interrupt_state s = 0" "terminating_signal s = 0"
    using s by (simp_all add: running_def)
  have "read_command calls s = (Returned 0, s1)"
    using q p(1) by (simp add: read_command_def timed_read_def and_then_def QUIT_def modify_def ret_def Let_def)
  with p(2) show ?thesis by simp
qed

text \<open>Where the loop stands before it reads the next command.\<close>

definition about_to_read :: "('c, 'e) loop_state \<Rightarrow> bool" where
  "about_to_read l \<longleftrightarrow> running (st l) \<and>
     (point l = At_while \<or> point l = At_setjmp DISCARD \<and> \<not> subshell_environment (st l))"

lemma about_to_read_step:
  assumes d: "delivers script calls" and a: "about_to_read l"
  obtains s l0 where "loop_step calls our l = read_and_run calls (at At_while s l0)" "running s"
    "script (env s) = script (env (st l))" "trace l0 = trace l"
proof -
  let ?s0 = "(st l)\<lparr>env := c_loop_entry calls (env (st l))\<rparr>"
  have r: "running ?s0" "\<not> EOF_Reached (st l)" using a by (auto simp: about_to_read_def running_def)
  have sc: "script (env ?s0) = script (env (st l))" using d unfolding delivers_def by simp
  consider "point l = At_while" | "point l = At_setjmp DISCARD" "\<not> subshell_environment (st l)"
    using a by (auto simp: about_to_read_def)
  then show thesis
  proof cases
    case 1
    then show thesis
      using r sc by (intro that [of ?s0 l]) (simp_all add: loop_step_def after_setjmp_def)
  next
    case 2
    let ?s1 = "?s0\<lparr>indirection_level := our\<rparr>"
    let ?s2 = "if last_command_exit_value ?s1 = 0
      then ?s1\<lparr>last_command_exit_value := EXECUTION_FAILURE\<rparr> else ?s1"
    show thesis
    proof (rule that [of ?s2 "l\<lparr>current_command := None\<rparr>"])
      show "loop_step calls our l = read_and_run calls (at At_while ?s2 (l\<lparr>current_command := None\<rparr>))"
        using 2 by (simp add: loop_step_def after_setjmp_def DISCARD_def FORCE_EOF_def ERREXIT_def EXITPROG_def
            NOT_JUMPED_def)
    qed (use r sc in simp_all)
  qed
qed

lemma script_executes:
  assumes d: "delivers script calls" and rep: "report calls c s1 = (Returned (), s2, ev)"
    and rs2: "running s2" and sc2: "script (env s2) = cs"
    and run: "loop_step calls our l = run_command calls c s1 l0"
  shows "\<exists>k\<le>2. about_to_read (loop_steps calls our k l) \<and>
    script (env (st (loop_steps calls our k l))) = cs \<and>
    trace (loop_steps calls our k l) = trace l0 @ ev @ [Executed c]"
proof -
  let ?l1 = "l0\<lparr>current_command := Some c, trace := trace l0 @ ev @ [Executed c]\<rparr>"
  let ?s2 = "s2\<lparr>global_command := None, current_command_number := current_command_number s2 + 1,
                 executing := True, stdin_redir := 0\<rparr>"
  have "running ?s2" using rs2 by simp
  then obtain o3 s3 where ex: "c_execute_command calls c ?s2 = (o3, s3)" "running s3" "script (env s3) = cs"
      "o3 = Returned () \<or> o3 = Jumped DISCARD \<and> \<not> subshell_environment s3"
    using delivers_execute [OF d, of ?s2 c] sc2 by auto
  from ex(4) show ?thesis
  proof
    assume "o3 = Returned ()"
    then have "loop_step calls our l = at At_exec_done s3 ?l1"
      using run rep ex(1) by (simp add: run_command_def Let_def)
    then have "loop_steps calls our 2 l = loop_end s3 (at At_exec_done s3 ?l1\<lparr>current_command := None\<rparr>)"
      using ex(2) by (simp add: numeral_2_eq_2 loop_step_def exec_done_def QUIT_def running_def)
    then show ?thesis
      using ex(2,3) by (intro exI [of _ 2]) (simp add: about_to_read_def loop_end_def running_def)
  next
    assume j: "o3 = Jumped DISCARD \<and> \<not> subshell_environment s3"
    then have "loop_steps calls our 1 l = at (At_setjmp DISCARD) s3 ?l1"
      using run rep ex(1) by (simp add: run_command_def Let_def longjmp_value_def DISCARD_def)
    then show ?thesis
      using ex(2,3) j by (intro exI [of _ 1]) (simp add: about_to_read_def)
  qed
qed

text \<open>A command of the script: after at most two steps the loop is about to read the next one.\<close>

lemma script_command:
  assumes d: "delivers script calls" and a: "about_to_read l" and cs: "script (env (st l)) = c # cs"
  obtains (goes_on) k tr where "k \<le> 2" "about_to_read (loop_steps calls our k l)"
      "script (env (st (loop_steps calls our k l))) = cs"
      "trace (loop_steps calls our k l) = trace l @ tr" "reported_run [c] tr"
  | (ends) tr where "\<not> reports_caught calls" "point (loop_step calls our l) = At_exit"
      "trace (loop_step calls our l) = trace l @ tr" "stopped_at_report [c] tr"
proof -
  obtain s l0 where step: "loop_step calls our l = read_and_run calls (at At_while s l0)" "running s"
    "script (env s) = script (env (st l))" "trace l0 = trace l"
    using about_to_read_step [OF d a] .
  let ?s0 = "s\<lparr>executing := False, env := c_used_env_vars calls (env s)\<rparr>"
  have s0: "running ?s0" "script (env ?s0) = c # cs"
    using step(2,3) cs d unfolding delivers_def by simp_all
  obtain s1 where r: "read_command calls ?s0 = (Returned 0, s1)" "running s1" "global_command s1 = Some c"
      "script (env s1) = cs"
    using script_read [OF d s0(1)] s0(2) by auto
  have run: "loop_step calls our l = run_command calls c s1 (at At_while s l0)"
    using step(1) r by (simp add: read_and_run_def running_def)
  obtain o2 s2 ev where rep: "report calls c s1 = (o2, s2, ev)" by (cases "report calls c s1")
  have rs2: "running s2" using rep r(2) by (elim report_state) simp
  have keeps: "report_keeps (\<lambda>e e'. script e' = script e) calls" using d unfolding delivers_def by blast
  have "reflp (\<lambda>e e'. script e' = script e)" "transp (\<lambda>e e'. script e' = script e)"
    by (auto intro: reflpI transpI)
  then have sc2: "script (env s2) = cs" using report_keeps_env [OF keeps _ _ rep] r(4) by simp
  show thesis
  proof (cases o2)
    case (Returned u)
    have tr: "reported_run [c] (ev @ [Executed c])"
      using rep Returned
      by (cases rule: report_cases [of calls c s1]) (auto intro: reported_run_one)
    obtain k where k: "k \<le> 2" "about_to_read (loop_steps calls our k l)"
        "script (env (st (loop_steps calls our k l))) = cs"
        "trace (loop_steps calls our k l) = trace (at At_while s l0) @ ev @ [Executed c]"
      using script_executes [OF d _ rs2 sc2 run] rep Returned by auto
    show thesis
      by (rule goes_on [OF k(1-3) _ tr]) (use k(4) step(4) in simp)
  next
    case (Jumped code)
    then show thesis using rep by (cases rule: report_cases [of calls c s1]) auto
  next
    case Terminated
    show thesis
      using rep Terminated
    proof (cases rule: report_cases [of calls c s1])
      case (terminated w s3 ev')
      have "\<not> reports_caught calls" using report_caught [of calls c s1] terminated(1) by auto
      moreover have "stopped_at_report [c] ev'"
        using terminated(2,3) by (rule stopped_at_report_one)
      ultimately show thesis
        using terminated(1) step(4) by (intro ends [of ev']) (simp_all add: run run_command_def)
    qed auto
  qed
qed

lemma loop_steps_add: "loop_steps calls our (m + n) l = loop_steps calls our n (loop_steps calls our m l)"
  by (induction m arbitrary: l) simp_all

lemma loop_steps_stay: "point l \<in> {At_return, At_exit} \<Longrightarrow> loop_steps calls our n l = l"
  by (induction n) (auto simp: loop_step_def)

lemma script_end:
  assumes d: "delivers script calls" and a: "about_to_read l" and cs: "script (env (st l)) = []"
  shows "point (loop_steps calls our 2 l) = At_return \<and> trace (loop_steps calls our 2 l) = trace l"
proof -
  obtain s l0 where step: "loop_step calls our l = read_and_run calls (at At_while s l0)" "running s"
    "script (env s) = script (env (st l))" "trace l0 = trace l"
    using about_to_read_step [OF d a] .
  let ?s0 = "s\<lparr>executing := False, env := c_used_env_vars calls (env s)\<rparr>"
  have s0: "running ?s0" "script (env ?s0) = []"
    using step(2,3) cs d unfolding delivers_def by simp_all
  obtain s1 where r: "read_command calls ?s0 = (Returned 0, s1)" "EOF_Reached s1" "global_command s1 = None"
    using script_read [OF d s0(1)] s0(2) by auto
  have "\<exists>s2 l2. loop_step calls our l = loop_end s2 l2 \<and> EOF_Reached s2 \<and> trace l2 = trace l"
  proof (cases "\<not> interactive_shell s1 \<and> read_but_dont_execute s1")
    case True
    then have "loop_step calls our l =
        loop_end (s1\<lparr>last_command_exit_value := EXECUTION_SUCCESS, global_command := None\<rparr>) (at At_while s l0)"
      using step(1) r by (simp add: read_and_run_def)
    then show ?thesis using r(2) step(4) by fastforce
  next
    case False
    then have "loop_step calls our l = loop_end s1 (at At_while s l0\<lparr>current_command := None\<rparr>)"
      using step(1) r by (auto simp: read_and_run_def)
    then show ?thesis using r(2) step(4) by fastforce
  qed
  then obtain s2 l2 where e: "loop_step calls our l = loop_end s2 l2" "EOF_Reached s2" "trace l2 = trace l" by blast
  have "loop_steps calls our 2 l = loop_step calls our (loop_end s2 l2)" by (simp add: numeral_2_eq_2 e(1))
  then show ?thesis using e(2,3) by (simp add: loop_step_def)
qed

lemma script_steps:
  assumes d: "delivers script calls"
  shows "about_to_read l \<Longrightarrow> script (env (st l)) = cs \<Longrightarrow> 2 * length cs + 2 \<le> n \<Longrightarrow>
    \<exists>tr. trace (loop_steps calls our n l) = trace l @ tr \<and>
      (point (loop_steps calls our n l) = At_return \<and> reported_run cs tr \<or>
       point (loop_steps calls our n l) = At_exit \<and> \<not> reports_caught calls \<and> stopped_at_report cs tr)"
proof (induction cs arbitrary: l n)
  case Nil
  have "loop_steps calls our (2 + (n - 2)) l = loop_steps calls our 2 l"
    unfolding loop_steps_add by (rule loop_steps_stay) (use script_end [OF d Nil.prems(1,2), of our] in simp)
  moreover have "2 + (n - 2) = n" using Nil.prems(3) by simp
  ultimately have "loop_steps calls our n l = loop_steps calls our 2 l" by (simp only:)
  then show ?case using script_end [OF d Nil.prems(1,2), of our] reported_run.nothing by auto
next
  case (Cons c cs)
  from d Cons.prems(1,2) show ?case
  proof (cases rule: script_command [where our = our])
    case (goes_on k tr)
    let ?l = "loop_steps calls our k l"
    have split: "loop_steps calls our n l = loop_steps calls our (n - k) ?l"
      using loop_steps_add [of calls our k "n - k" l] goes_on(1) Cons.prems(3) by simp
    have "2 * length cs + 2 \<le> n - k" using goes_on(1) Cons.prems(3) by simp
    from Cons.IH [OF goes_on(2,3) this] obtain tr' where tr': "trace (loop_steps calls our n l) = trace ?l @ tr'"
      "point (loop_steps calls our n l) = At_return \<and> reported_run cs tr' \<or>
       point (loop_steps calls our n l) = At_exit \<and> \<not> reports_caught calls \<and> stopped_at_report cs tr'"
      unfolding split by blast
    show ?thesis
      using tr' goes_on(4) reported_run_append [OF goes_on(5), of cs tr']
        stopped_at_report_append [OF goes_on(5), of cs tr'] by auto
  next
    case (ends tr)
    have "loop_steps calls our n l = loop_step calls our l"
      using Cons.prems(3) loop_steps_stay [of "loop_step calls our l" calls our] ends(2) by (cases n) simp_all
    then show ?thesis using ends stopped_at_report_extend [of "[c]" tr cs] by auto
  qed
qed

lemma script_loop:
  assumes "delivers script calls" and "running s" and "2 * length (script (env s)) + 2 \<le> fuel"
  shows "\<exists>r s' tr. reader_loop calls fuel s = Some (r, s', tr) \<and>
    (r \<noteq> None \<and> reported_run (script (env s)) tr \<or>
     r = None \<and> \<not> reports_caught calls \<and> stopped_at_report (script (env s)) tr)"
proof -
  have "about_to_read (reader_start s)" using assms(2) by (simp add: about_to_read_def reader_start_def)
  from script_steps [OF assms(1) this _ assms(3), of "indirection_level s + 1"]
  show ?thesis by (auto simp: reader_loop_def Let_def reader_start_def)
qed

section \<open>Invariants of an observation and the trace\<close>

text \<open>An observation of the shell that only the report changes.\<close>

definition steady :: "('c, 'e) shell_calls \<Rightarrow> (('c, 'e) shell \<Rightarrow> 'x) \<Rightarrow> bool" where
  "steady calls obs \<longleftrightarrow>
     outside_loop calls obs \<and> calls_keep obs calls \<and> (\<forall>c. keeps obs (c_execute_command calls c)) \<and>
     (\<forall>s v. obs (s\<lparr>prompt_level := v\<rparr>) = obs s) \<and> (\<forall>s v. obs (s\<lparr>global_command := v\<rparr>) = obs s) \<and>
     (\<forall>s v. obs (s\<lparr>sigalrm_handler := v\<rparr>) = obs s) \<and> (\<forall>s v. obs (s\<lparr>alarm_seconds := v\<rparr>) = obs s) \<and>
     (\<forall>s v. obs (s\<lparr>executing := v\<rparr>) = obs s) \<and> (\<forall>s v. obs (s\<lparr>stdin_redir := v\<rparr>) = obs s) \<and>
     (\<forall>s v. obs (s\<lparr>current_command_number := v\<rparr>) = obs s) \<and> (\<forall>s v. obs (s\<lparr>EOF_Reached := v\<rparr>) = obs s) \<and>
     (\<forall>s v. obs (s\<lparr>indirection_level := v\<rparr>) = obs s) \<and> (\<forall>s v. obs (s\<lparr>variable_context := v\<rparr>) = obs s) \<and>
     (\<forall>s. obs (s\<lparr>env := c_loop_entry calls (env s)\<rparr>) = obs s) \<and>
     (\<forall>s. obs (s\<lparr>env := c_used_env_vars calls (env s)\<rparr>) = obs s)"

text \<open>A relation of the observation and the trace that every report and every execution keeps.\<close>

definition report_inv :: "('c, 'e) shell_calls \<Rightarrow> (('c, 'e) shell \<Rightarrow> 'x) \<Rightarrow> ('x \<Rightarrow> 'c event list \<Rightarrow> bool) \<Rightarrow> bool" where
  "report_inv calls obs J \<longleftrightarrow>
     (\<forall>c s o1 s1 ev tr. report calls c s = (o1, s1, ev) \<longrightarrow> J (obs s) tr \<longrightarrow> J (obs s1) (tr @ ev)) \<and>
     (\<forall>x tr c. J x tr \<longrightarrow> J x (tr @ [Executed c]))"

lemma steady_reads:
  assumes d: "steady calls obs"
  shows "keeps obs (QUIT calls)" "keeps obs (read_command calls)"
proof -
  have k: "calls_keep obs calls" and o: "outside_loop calls obs"
    and c: "\<And>s v. obs (s\<lparr>alarm_seconds := 0, sigalrm_handler := v\<rparr>) = obs s"
      "\<And>s v. obs (s\<lparr>current_command_line_count := v\<rparr>) = obs s"
    using d by (simp_all add: steady_def outside_loop_def)
  show q: "keeps obs (QUIT calls)" using keeps_QUIT [OF k o] .
  have tm: "keeps obs (timed_read calls tv tlen h)" for tv tlen h
    unfolding timed_read_def by (intro keeps_and_then keeps_simps q keeps_parse [OF k o]) (simp_all add: c)
  show "keeps obs (read_command calls)"
    unfolding keeps_def read_command_def Let_def using keepsD [OF tm] d by (simp add: steady_def)
qed

lemma run_command_inv:
  assumes d: "steady calls obs" and i: "report_inv calls obs J" and l: "J (obs s) (trace l)"
  shows "J (obs (st (run_command calls c s l))) (trace (run_command calls c s l))"
proof -
  obtain o0 s0 ev where rep: "report calls c s = (o0, s0, ev)" by (cases "report calls c s")
  have s0: "J (obs s0) (trace l @ ev)" "J (obs s0) (trace l @ ev @ [Executed c])"
    using i rep l unfolding report_inv_def by (metis append_assoc)+
  let ?s1 = "s0\<lparr>global_command := None, current_command_number := current_command_number s0 + 1,
                      executing := True, stdin_redir := 0\<rparr>"
  obtain o1 s2 where ex: "c_execute_command calls c ?s1 = (o1, s2)" by (cases "c_execute_command calls c ?s1")
  have "keeps obs (c_execute_command calls c)" using d by (simp add: steady_def)
  from keepsD [OF this ex] have "obs s2 = obs s0" using d by (simp add: steady_def)
  then show ?thesis
    using s0 rep ex by (cases o0; cases o1) (simp_all add: run_command_def Let_def)
qed

lemma loop_end_inv: "steady calls obs \<Longrightarrow> obs (st (loop_end s l)) = obs s"
  by (simp add: loop_end_def steady_def)

lemma read_and_run_inv:
  assumes d: "steady calls obs" and i: "report_inv calls obs J" and l: "J (obs (st l)) (trace l)"
  shows "J (obs (st (read_and_run calls l))) (trace (read_and_run calls l))"
proof -
  let ?s0 = "(st l)\<lparr>executing := False, env := c_used_env_vars calls (env (st l))\<rparr>"
  obtain o1 s where r: "read_command calls ?s0 = (o1, s)" by (cases "read_command calls ?s0")
  have eq: "?s0 = (st l\<lparr>executing := False\<rparr>)\<lparr>env := c_used_env_vars calls (env (st l\<lparr>executing := False\<rparr>))\<rparr>"
    by simp
  have "obs ?s0 = obs (st l)" unfolding eq using d unfolding steady_def by metis
  then have s: "J (obs s) (trace l)" using keepsD [OF steady_reads(2) [OF d] r] l by simp
  have c: "obs (s\<lparr>EOF_Reached := True\<rparr>) = obs s"
    "obs (s\<lparr>last_command_exit_value := v, global_command := None\<rparr>) = obs s" for v
    using d by (simp_all add: steady_def outside_loop_def)
  show ?thesis
    using r s run_command_inv [OF d i s] c
    by (cases o1) (auto simp: read_and_run_def Let_def loop_end_inv [OF d] split: option.split)
qed

lemma after_setjmp_obs:
  assumes d: "steady calls obs"
  obtains (reads) s l' where "after_setjmp calls our code l = read_and_run calls (at At_while s l')"
      "trace l' = trace l" "obs s = obs (st l)"
  | (stops) "trace (after_setjmp calls our code l) = trace l" "obs (st (after_setjmp calls our code l)) = obs (st l)"
proof -
  let ?s0 = "(st l)\<lparr>env := c_loop_entry calls (env (st l))\<rparr>"
  let ?s1 = "?s0\<lparr>indirection_level := our\<rparr>"
  have s0: "obs ?s0 = obs (st l)" using d by (simp add: steady_def)
  have s1: "obs ?s1 = obs (st l)" using d s0 unfolding steady_def by metis
  have s2: "obs (?s1\<lparr>last_command_exit_value := v\<rparr>) = obs (st l)" for v
    using d s1 unfolding steady_def outside_loop_def by metis
  have s3: "obs (?s1\<lparr>variable_context := v, EOF_Reached := True\<rparr>) = obs (st l)"
    "obs (?s1\<lparr>last_command_exit_value := v, EOF_Reached := True\<rparr>) = obs (st l)"
    "obs (?s1\<lparr>EOF_Reached := True\<rparr>) = obs (st l)" for v
    using d s1 s2 unfolding steady_def by metis+
  let ?s2 = "if last_command_exit_value ?s1 = 0
      then ?s1\<lparr>last_command_exit_value := EXECUTION_FAILURE\<rparr> else ?s1"
  consider "code = NOT_JUMPED" | "code = DISCARD" "\<not> subshell_environment (st l)"
    | "code \<noteq> NOT_JUMPED" "code = DISCARD \<longrightarrow> subshell_environment (st l)" by blast
  then show thesis
  proof cases
    case 1
    then show thesis using s0 by (intro reads [of ?s0 l]) (simp_all add: after_setjmp_def)
  next
    case 2
    then show thesis using s1 s2
      by (intro reads [of ?s2 "l\<lparr>current_command := None\<rparr>"])
        (simp_all add: after_setjmp_def DISCARD_def FORCE_EOF_def ERREXIT_def EXITPROG_def NOT_JUMPED_def)
  next
    case 3
    then show thesis
      using s1 s3 by (intro stops) (auto simp: after_setjmp_def Let_def)
  qed
qed

lemma after_setjmp_inv:
  assumes d: "steady calls obs" and i: "report_inv calls obs J" and l: "J (obs (st l)) (trace l)"
  shows "J (obs (st (after_setjmp calls our code l))) (trace (after_setjmp calls our code l))"
  using d
proof (cases rule: after_setjmp_obs [where our = our and code = code and l = l])
  case (reads s l')
  then have "J (obs (st (at At_while s l'))) (trace (at At_while s l'))" using l by simp
  then show ?thesis using read_and_run_inv [OF d i] reads(1) by simp
qed (use l in simp)

lemma loop_step_inv:
  assumes d: "steady calls obs" and i: "report_inv calls obs J" and l: "J (obs (st l)) (trace l)"
  shows "J (obs (st (loop_step calls our l))) (trace (loop_step calls our l))"
proof -
  obtain o1 s where q: "QUIT calls (st l) = (o1, s)" by (cases "QUIT calls (st l)")
  have "obs s = obs (st l)" using keepsD [OF steady_reads(1) [OF d] q] .
  moreover have "obs ((st l)\<lparr>indirection_level := v\<rparr>) = obs (st l)" for v using d by (simp add: steady_def)
  ultimately show ?thesis
    using q l after_setjmp_inv [OF d i l]
    by (cases o1) (auto simp: loop_step_def exec_done_def loop_end_inv [OF d] split: point.split)
qed

lemma loop_steps_inv:
  "steady calls obs \<Longrightarrow> report_inv calls obs J \<Longrightarrow> J (obs (st l)) (trace l) \<Longrightarrow>
   J (obs (st (loop_steps calls our n l))) (trace (loop_steps calls our n l))"
  by (induction n arbitrary: l) (simp_all add: loop_step_inv)

lemma reader_loop_inv:
  assumes "steady calls obs" "report_inv calls obs J" "J (obs s) []" "reader_loop calls fuel s = Some (r, s', tr)"
  shows "J (obs s') tr"
proof -
  let ?our = "indirection_level s + 1"
  have "J (obs (st (reader_start s))) (trace (reader_start s))"
    using assms(1,3) by (simp add: reader_start_def steady_def)
  from loop_steps_inv [OF assms(1,2) this, of ?our fuel] show ?thesis
    using assms(4) by (auto simp: reader_loop_def Let_def split: point.splits)
qed

subsection \<open>An agent that does not answer\<close>

text \<open>
  Connecting fails with the exception of \<^verbatim>\<open>Network::ConnectUnix\<close>; \<open>sockets\<close> counts the open sockets of
  the process, which among the calls of the report only \<^verbatim>\<open>Network::Socket\<close> changes.
\<close>

definition agent_down :: "('e \<Rightarrow> nat) \<Rightarrow> ('c, 'e) shell_calls \<Rightarrow> bool" where
  "agent_down sockets calls \<longleftrightarrow>
     (\<forall>e. \<exists>fd e1. c_socket calls e = (Value fd, e1) \<and> sockets e1 = Suc (sockets e)) \<and>
     (\<forall>fd p e. \<exists>e1. c_connect_unix calls fd p e = (Std_Exception, e1) \<and> sockets e1 = sockets e) \<and>
     (\<forall>e. sockets (snd (c_parse_options calls e)) = sockets e) \<and>
     (\<forall>f d e. sockets (snd (c_configure_logger calls f d e)) = sockets e) \<and>
     (\<forall>e. sockets (snd (c_create_network calls e)) = sockets e)"

fun failed :: "'c event \<Rightarrow> bool" where
  "failed (Unsent w) = True"
| "failed _ = False"

definition leaks :: "nat \<Rightarrow> nat \<Rightarrow> 'c event list \<Rightarrow> bool" where
  "leaks n sockets tr \<longleftrightarrow> sockets = n + length (filter failed tr) \<and> (\<forall>w. Sent w \<notin> set tr)"

lemma SendCommand_leaks:
  assumes d: "agent_down sockets calls" and s: "SendCommand calls w s = (o1, s1, ev)"
  shows "sockets (env s1) = sockets (env s) + length (filter failed ev) \<and> (\<forall>w. Sent w \<notin> set ev)"
proof -
  have opts: "sockets e2 = sockets e1" if "c_parse_options calls e1 = (x1, e2)" for e1 x1 e2
    using d that unfolding agent_down_def by (metis snd_conv)
  have logs: "sockets e2 = sockets e1" if "c_configure_logger calls f dbg e1 = (x1, e2)" for f dbg e1 x1 e2
    using d that unfolding agent_down_def by (metis snd_conv)
  have netw: "sockets e2 = sockets e1" if "c_create_network calls e1 = (x1, e2)" for e1 x1 e2
    using d that unfolding agent_down_def by (metis snd_conv)
  have trans: "b = Unsent v \<and> x = Std_Exception \<and> sockets e2 = Suc (sockets e1)"
    if t: "transmit calls p v e1 = (b, x, e2)" for p v e1 b x e2
  proof -
    obtain fd e3 where s3: "c_socket calls e1 = (Value fd, e3)" "sockets e3 = Suc (sockets e1)"
      using d unfolding agent_down_def by blast
    obtain e4 where s4: "c_connect_unix calls fd p e3 = (Std_Exception, e4)" "sockets e4 = sockets e3"
      using d unfolding agent_down_def by blast
    show ?thesis using t s3 s4 by (auto simp: transmit_def)
  qed
  show ?thesis
    using s by (auto simp: SendCommand_def Let_def split: prod.splits cpp.splits option.splits if_splits
        dest!: opts logs netw trans)
qed

lemma report_leaks:
  "agent_down sockets calls \<Longrightarrow> report calls c s = (o1, s1, ev) \<Longrightarrow>
   sockets (env s1) = sockets (env s) + length (filter failed ev) \<and> (\<forall>w. Sent w \<notin> set ev)"
  using SendCommand_leaks
  by (fastforce simp: report_def split: if_splits command_value.splits list.splits)

lemma agent_down_inv: "agent_down sockets calls \<Longrightarrow> report_inv calls (\<lambda>s. sockets (env s)) (leaks n)"
  using report_leaks [of sockets calls] by (fastforce simp: report_inv_def leaks_def)

subsection \<open>A configuration that cannot be read\<close>

definition no_reports :: "slas_options option \<Rightarrow> 'c event list \<Rightarrow> bool" where
  "no_reports opt tr \<longleftrightarrow> opt = None \<and> (\<forall>w. Sent w \<notin> set tr \<and> Unsent w \<notin> set tr)"

lemma no_config_inv:
  assumes "\<And>e options e'. c_parse_options calls e \<noteq> (Value options, e')"
  shows "report_inv calls slas_options no_reports"
proof -
  have "slas_options s1 = None \<and> ev = []" if "SendCommand calls w s = (o1, s1, ev)" "slas_options s = None" for w s o1 s1 ev
    using that assms by (auto simp: SendCommand_def Let_def split: prod.splits cpp.splits)
  then have "slas_options s1 = None \<and> ev = []" if "report calls c s = (o1, s1, ev)" "slas_options s = None" for c s o1 s1 ev
    using that by (fastforce simp: report_def split: if_splits command_value.splits list.splits)
  then show ?thesis unfolding report_inv_def no_reports_def by fastforce
qed

lemma first_unique:
  assumes "xs @ x # ys = xs' @ x' # ys'" "P x" "P x'" "\<forall>y\<in>set xs. \<not> P y" "\<forall>y\<in>set xs'. \<not> P y"
  shows "xs = xs'"
proof -
  have "takeWhile (\<lambda>y. \<not> P y) (xs @ x # ys) = xs" "takeWhile (\<lambda>y. \<not> P y) (xs' @ x' # ys') = xs'"
    using assms(2-5) by (simp_all add: takeWhile_append2)
  with assms(1) show ?thesis by simp
qed

lemma reported_run_quiet:
  "reported_run cs tr \<Longrightarrow> \<forall>w. Sent w \<notin> set tr \<and> Unsent w \<notin> set tr \<Longrightarrow>
   tr = map Executed cs \<and> (\<forall>c\<in>set cs. \<forall>w. \<not> announces c w)"
  by (induction rule: reported_run.induct) auto

subsection \<open>Concrete called code\<close>

text \<open>
  A parser that takes the next command of a list, an executor and traps that return, and an agent
  that accepts every report; beside the list the environment counts the open sockets.
\<close>

definition script_calls :: "('c, 'c command list \<times> nat) shell_calls" where
  "script_calls =
     \<lparr>c_yyparse = (\<lambda>s. case env s of
          ([], n) \<Rightarrow> (Returned 0, s\<lparr>EOF_Reached := True, global_command := None\<rparr>)
        | (c # cs, n) \<Rightarrow> (Returned 0, s\<lparr>global_command := Some c, env := (cs, n)\<rparr>)),
      c_run_pending_traps = ret (), c_execute_variable_command = (\<lambda>w. ret ()),
      c_gather_here_documents = ret (), c_execute_command = (\<lambda>c. ret ()),
      c_run_interrupt_trap = ret (), c_prompt_command = (\<lambda>e. None), c_tmout = (\<lambda>e. None),
      c_input_is_string = (\<lambda>e. False), c_sigint_trapped = (\<lambda>e. False),
      c_toplevel_cleanup = id, c_loop_entry = id, c_used_env_vars = id,
      c_parse_options =
        (\<lambda>e. (Value \<lparr>logfile_path = ''/var/log/bash-slas.log'', bash_socket_path = ''/run/bash.sock'', debug = False\<rparr>, e)),
      c_configure_logger = (\<lambda>f d e. (Value (), e)), c_create_network = (\<lambda>e. (Value (), e)),
      c_socket = (\<lambda>(cs, n). (Value 3, (cs, Suc n))), c_connect_unix = (\<lambda>fd p e. (Value (), e)),
      c_send_text = (\<lambda>fd w e. (Value (), e)), c_close = (\<lambda>fd (cs, n). (Value (), (cs, n - 1)))\<rparr>"

lemma settles_ret: "settles input (ret r)"
  by (simp add: settles_def ret_def)

lemma script_calls_finite: "calls_finite (\<lambda>(cs, n). length cs) script_calls"
  by (auto simp: calls_finite_def script_calls_def settles_ret reads_on_def ret_def pending_def report_keeps_def
      split: prod.splits list.splits)

lemma script_calls_balanced: "calls_balanced script_calls"
  by (auto simp: calls_balanced_def script_calls_def keeps_level_def ret_def split: prod.splits list.splits)

lemma script_calls_deliver: "delivers fst script_calls"
  by (auto simp: delivers_def script_calls_def ret_def same_script_def running_def report_keeps_def
      split: prod.splits list.splits)

lemma script_calls_caught: "reports_caught script_calls"
  by (auto simp: reports_caught_def script_calls_def)

lemma script_calls_run:
  assumes "running s" and "2 * length (fst (env s)) + 2 \<le> fuel"
  shows "\<exists>v s' tr. reader_loop script_calls fuel s = Some (Some v, s', tr)"
  using script_loop [OF script_calls_deliver assms] script_calls_caught by auto

text \<open>The same shell when no agent listens.\<close>

definition no_agent :: "('c, 'c command list \<times> nat) shell_calls" where
  "no_agent = script_calls\<lparr>c_connect_unix := (\<lambda>fd p e. (Std_Exception, e))\<rparr>"

lemma no_agent_down: "agent_down snd no_agent"
  by (auto simp: agent_down_def no_agent_def script_calls_def)

lemma no_agent_steady: "steady no_agent (\<lambda>s. snd (env s))"
  by (auto simp: steady_def outside_loop_def no_agent_def script_calls_def calls_keep_def keeps_def ret_def
      split: prod.splits list.splits)

lemma no_agent_deliver: "delivers fst no_agent"
  by (auto simp: delivers_def no_agent_def script_calls_def ret_def same_script_def running_def report_keeps_def
      split: prod.splits list.splits)

lemma no_agent_caught: "reports_caught no_agent"
  by (auto simp: reports_caught_def no_agent_def script_calls_def)

text \<open>And when the configuration file cannot be read.\<close>

definition no_config :: "('c, 'c command list \<times> nat) shell_calls" where
  "no_config = script_calls\<lparr>c_parse_options := (\<lambda>e. (Std_Exception, e))\<rparr>"

lemma no_config_deliver: "delivers fst no_config"
  by (auto simp: delivers_def no_config_def script_calls_def ret_def same_script_def running_def report_keeps_def
      split: prod.splits list.splits)

lemma no_config_steady: "steady no_config slas_options"
  by (auto simp: steady_def outside_loop_def no_config_def script_calls_def calls_keep_def keeps_def ret_def
      split: prod.splits list.splits)

definition idle_shell :: "'e \<Rightarrow> ('c, 'e) shell" where
  "idle_shell e =
     \<lparr>EOF_Reached = False, indirection_level = 0, last_command_exit_value = 0, last_command_exit_signal = 0,
      interactive = False, interactive_shell = False, shell_initialized = True, read_but_dont_execute = False,
      just_one_command = False, subshell_environment = False, exit_immediately_on_error = False,
      variable_context = 0, executing = False, stdin_redir = 0, current_command_number = 1,
      current_command_line_count = 0, need_here_doc = False, prompt_level = 1, slas_options = None,
      global_command = None, interrupt_state = 0, terminating_signal = 0, alarm_seconds = 0,
      sigalrm_handler = 0, env = e\<rparr>"

lemma idle_shell_simps [simp]: "running (idle_shell e)" "env (idle_shell e) = e" "slas_options (idle_shell e) = None"
  by (simp_all add: idle_shell_def running_def)

definition simple_cmd :: "cstring \<Rightarrow> unit command" where
  "simple_cmd w = \<lparr>ctype = cm_simple, cvalue = Simple [\<lparr>word = w, wflags = 0\<rparr>]\<rparr>"

definition pipeline :: "unit command" where
  "pipeline = \<lparr>ctype = cm_connection, cvalue = Compound ()\<rparr>"

lemma announces_simps [simp]:
  "announces (simple_cmd w) v \<longleftrightarrow> v = w" "\<not> announces pipeline v"
  by (auto simp: announces_def simple_cmd_def pipeline_def)

section \<open>Properties\<close>

text \<open>
  C1. For every parser, executor, trap and signal behaviour that uses up its input, the loop ends
  within \<open>3 * n + 2\<close> steps, \<open>n\<close> being the input and interrupts still to come; and whatever jumps
  happened, its trace is that of a list of commands run one after the other: a simple command
  with a word has its first word sent to the agent (or a failed attempt) immediately before it is
  executed, and nothing else is sent. The one exception is a process that \<^verbatim>\<open>SendCommand\<close> ends:
  then the trace stops at the report of a command that is not executed.
\<close>

theorem reader_loop_reports:
  assumes "calls_finite input calls" and "3 * pending input s + 2 \<le> fuel"
  shows "\<exists>r s' tr cs. reader_loop calls fuel s = Some (r, s', tr) \<and>
    (reported_run cs tr \<or> r = None \<and> stopped_at_report cs tr)"
proof -
  let ?our = "indirection_level s + 1"
  let ?l = "loop_steps calls ?our fuel (reader_start s)"
  have "weight input (reader_start s) \<le> fuel"
    using assms(2) by (simp add: weight_def reader_start_def pending_def)
  then have "point ?l \<in> {At_return, At_exit}" by (rule loop_steps_end [OF assms(1)])
  moreover have "trace_inv ?l"
    by (rule loop_steps_reported) (auto simp: reader_start_def trace_inv_def intro: reported_run.nothing)
  ultimately show ?thesis by (auto simp: reader_loop_def Let_def trace_inv_def)
qed

theorem reader_loop_reports_witness:
  "\<exists>r s' tr cs. reader_loop script_calls 8 (idle_shell ([simple_cmd ''ls'', simple_cmd ''pwd''], 0)) = Some (r, s', tr) \<and>
     (reported_run cs tr \<or> r = None \<and> stopped_at_report cs tr)"
  by (rule reader_loop_reports [OF script_calls_finite]) (simp add: pending_def idle_shell_def)

text \<open>
  C28. A script is run in order: whatever parser delivers it, and whatever the executor does short
  of leaving the loop, the trace is, command by command, the report of the first word of a simple
  command and the execution, and every command of another type (a pipeline, a list, a loop) is
  executed without a report of any word in it. When the C++ code lets no exception out, this is
  so to the end of the script and the loop returns; otherwise the shell may end in the report of
  a command, with that command and the rest of the script not executed.
\<close>

theorem reader_loop_script:
  assumes "delivers script calls" and "running s" and "2 * length (script (env s)) + 2 \<le> fuel"
  shows "\<exists>r s' tr. reader_loop calls fuel s = Some (r, s', tr) \<and>
    (r \<noteq> None \<and> reported_run (script (env s)) tr \<or>
     r = None \<and> \<not> reports_caught calls \<and> stopped_at_report (script (env s)) tr)"
  by (rule script_loop [OF assms])

theorem reader_loop_script_witness:
  "(\<exists>v s' w. reader_loop no_agent 6 (idle_shell ([pipeline, simple_cmd ''ls''], 0)) =
      Some (Some v, s', [Executed pipeline, w, Executed (simple_cmd ''ls'')]) \<and> (w = Sent ''ls'' \<or> w = Unsent ''ls''))"
proof -
  obtain r s' tr where r: "reader_loop no_agent 6 (idle_shell ([pipeline, simple_cmd ''ls''], 0)) = Some (r, s', tr)"
    "r \<noteq> None" "reported_run [pipeline, simple_cmd ''ls''] tr"
    using reader_loop_script [OF no_agent_deliver, of "idle_shell ([pipeline, simple_cmd ''ls''], 0)" 6]
      no_agent_caught by auto
  from r(3) have "\<exists>w. tr = [Executed pipeline, w, Executed (simple_cmd ''ls'')] \<and> (w = Sent ''ls'' \<or> w = Unsent ''ls'')"
    by (auto elim!: reported_run.cases)
  with r(1,2) show ?thesis by auto
qed

text \<open>
  C29. When no agent listens, every failed report leaves a socket open: the handler of \<^verbatim>\<open>SendCommand\<close> does not close the descriptor that \<^verbatim>\<open>Network::Socket\<close>
  returned. At the end of the loop there is one more open socket for every failed report, and no
  report succeeded.
\<close>

theorem failed_reports_leak_sockets:
  assumes "agent_down sockets calls" and "steady calls (\<lambda>s. sockets (env s))"
    and "reader_loop calls fuel s = Some (r, s', tr)"
  shows "sockets (env s') = sockets (env s) + length (filter failed tr) \<and> (\<forall>w. Sent w \<notin> set tr)"
proof -
  have "leaks (sockets (env s)) (sockets (env s)) []" by (simp add: leaks_def)
  from reader_loop_inv [OF assms(2) agent_down_inv [OF assms(1)] this assms(3)] show ?thesis
    by (simp add: leaks_def)
qed

theorem failed_reports_leak_sockets_witness:
  "\<exists>v s' tr. reader_loop no_agent 6 (idle_shell ([simple_cmd ''ls'', simple_cmd ''pwd''], 0)) = Some (Some v, s', tr) \<and>
     tr = [Unsent ''ls'', Executed (simple_cmd ''ls''), Unsent ''pwd'', Executed (simple_cmd ''pwd'')] \<and>
     snd (env s') = 2"
proof -
  obtain v s' tr where r: "reader_loop no_agent 6 (idle_shell ([simple_cmd ''ls'', simple_cmd ''pwd''], 0)) = Some (Some v, s', tr)"
    "reported_run [simple_cmd ''ls'', simple_cmd ''pwd''] tr"
    using script_loop [OF no_agent_deliver, of "idle_shell ([simple_cmd ''ls'', simple_cmd ''pwd''], 0)" 6]
      no_agent_caught by auto
  have s: "snd (env s') = 0 + length (filter failed tr) \<and> (\<forall>w. Sent w \<notin> set tr)"
    using failed_reports_leak_sockets [OF no_agent_down no_agent_steady r(1)] by simp
  have "tr = [Unsent ''ls'', Executed (simple_cmd ''ls''), Unsent ''pwd'', Executed (simple_cmd ''pwd'')]"
    using r(2) s by (auto elim!: reported_run.cases)
  with s r(1) show ?thesis by simp
qed

text \<open>
  C30. When the configuration file of the report cannot be read, the exception leaves
  \<^verbatim>\<open>SendCommand\<close> through C code and ends the shell: of a script that holds a simple command with a
  word, the commands before the first one are executed, that command and everything after it are
  not, and nothing is reported.
\<close>

theorem missing_config_ends_shell:
  assumes "\<And>e options e'. c_parse_options calls e \<noteq> (Value options, e')"
    and "steady calls slas_options" and "slas_options s = None"
    and "delivers script calls" and "running s" and "2 * length (script (env s)) + 2 \<le> fuel"
    and "script (env s) = before @ c # rest" and "announces c w" and "\<forall>c\<in>set before. \<forall>w. \<not> announces c w"
  shows "\<exists>s'. reader_loop calls fuel s = Some (None, s', map Executed before)"
proof -
  obtain r s' tr where r: "reader_loop calls fuel s = Some (r, s', tr)"
    "r \<noteq> None \<and> reported_run (script (env s)) tr \<or> r = None \<and> stopped_at_report (script (env s)) tr"
    using script_loop [OF assms(4-6)] by blast
  have quiet: "\<forall>w. Sent w \<notin> set tr \<and> Unsent w \<notin> set tr"
    using reader_loop_inv [OF assms(2) no_config_inv [OF assms(1)] _ r(1)] assms(3) by (simp add: no_reports_def)
  have "\<not> reported_run (script (env s)) tr"
    using reported_run_quiet [OF _ quiet] assms(7,8) by fastforce
  with r(2) obtain before' c' rest' w' tr0 ev where st: "r = None" "script (env s) = before' @ c' # rest'"
      "announces c' w'" "reported_run before' tr0" "tr = tr0 @ ev" "ev = [] \<or> ev = [Sent w'] \<or> ev = [Unsent w']"
    unfolding stopped_at_report_def by blast
  have tr: "tr = map Executed before'" "\<forall>c\<in>set before'. \<forall>w. \<not> announces c w"
    using reported_run_quiet [OF st(4)] quiet st(5,6) by auto
  have "before' = before"
    using first_unique [of before' c' rest' before c rest "\<lambda>c. \<exists>w. announces c w"] st(2,3) tr(2) assms(7-9) by auto
  then show ?thesis using r(1) st(1) tr(1) by simp
qed

theorem missing_config_ends_shell_witness:
  "\<exists>s'. reader_loop no_config 8 (idle_shell ([pipeline, simple_cmd ''ls'', pipeline], 0)) =
     Some (None, s', [Executed pipeline])"
proof -
  have "c_parse_options no_config e \<noteq> (Value options, e')" for e options e'
    by (simp add: no_config_def)
  from missing_config_ends_shell [OF this no_config_steady _ no_config_deliver, where before = "[pipeline]"
      and c = "simple_cmd ''ls''" and rest = "[pipeline]" and w = "''ls''"
      and s = "idle_shell ([pipeline, simple_cmd ''ls'', pipeline], 0)"]
  show ?thesis by simp
qed

text \<open>
  C31. Whatever jumps to the top level happened, a loop that returns leaves the indirection level
  as it was before it started and returns the last exit status.
\<close>

theorem reader_loop_level:
  assumes "calls_balanced calls" and "reader_loop calls fuel s = Some (Some v, s', tr)"
  shows "indirection_level s' = indirection_level s \<and> v = last_command_exit_value s'"
proof -
  let ?our = "indirection_level s + 1"
  let ?l = "loop_steps calls ?our fuel (reader_start s)"
  have "level_inv ?our (reader_start s)"
    by (simp add: level_inv_def reader_start_def)
  then have "level_inv ?our ?l" by (rule loop_steps_level [OF assms(1)])
  then show ?thesis
    using assms(2) by (auto simp: reader_loop_def Let_def level_inv_def split: point.splits)
qed

theorem reader_loop_level_witness:
  "case reader_loop script_calls 4 (idle_shell ([simple_cmd ''ls''], 0)) of
     Some (Some v, s', tr) \<Rightarrow> indirection_level s' = 0 \<and> v = last_command_exit_value s' | _ \<Rightarrow> False"
proof -
  obtain v s' tr where r: "reader_loop script_calls 4 (idle_shell ([simple_cmd ''ls''], 0)) = Some (Some v, s', tr)"
    using script_calls_run [of "idle_shell ([simple_cmd ''ls''], 0)" 4] by auto
  show ?thesis
    using reader_loop_level [OF script_calls_balanced r] unfolding r by (simp add: idle_shell_def)
qed

text \<open>
  One pending interrupt, met by \<^verbatim>\<open>QUIT\<close>: the shell jumps to the top level, to \<^verbatim>\<open>DISCARD\<close> exactly
  when it is interactive, starting up as an interactive shell, or has a trap on SIGINT, and
  otherwise to \<^verbatim>\<open>EXITPROG\<close>; the exit status is 130, or the old one with bit 7 set when that was
  128 or more; the interrupt is no longer pending. A terminating signal takes precedence.
\<close>

theorem QUIT_interrupt:
  assumes "interrupt_state s = 1" and "\<And>s. c_run_interrupt_trap calls s = (Returned (), s)"
  shows "case QUIT calls s of
      (Jumped code, s') \<Rightarrow> terminating_signal s = 0 \<and> interrupt_state s' = 0 \<and>
        last_command_exit_value s' =
          (if last_command_exit_value s < 128 then 130 else last_command_exit_value s OR 128) \<and>
        (code = DISCARD) = (interactive s \<or> interactive_shell s \<and> \<not> shell_initialized s \<or>
           c_sigint_trapped calls (c_toplevel_cleanup calls (env s))) \<and>
        (code = DISCARD \<or> code = EXITPROG)
    | (Terminated, s') \<Rightarrow> terminating_signal s \<noteq> 0
    | (Returned _, s') \<Rightarrow> False"
  using assms
  by (simp add: QUIT_def throw_to_top_level_def Let_def and_then_def SIGINT_def DISCARD_def EXITPROG_def)

theorem QUIT_interrupt_witness:
  "fst (QUIT script_calls ((idle_shell ([] :: unit command list, 0))\<lparr>interrupt_state := 1\<rparr>)) = Jumped EXITPROG"
  using QUIT_interrupt [of "(idle_shell ([] :: unit command list, 0))\<lparr>interrupt_state := 1\<rparr>" script_calls]
  by (auto simp: idle_shell_def script_calls_def ret_def split: prod.splits outcome.splits)

text \<open>
  C32. The input time-out: when a read returns, the alarm is off and the old handler is back; when it
  is left by a jump (an interrupt at the prompt), the alarm handler stays installed, and the
  next read then saves and restores that one, so that the original handler is lost.
\<close>

theorem read_command_alarm:
  assumes "calls_keep sigalrm_handler calls" and "interactive s" and "c_tmout calls (env s) = Some (Some v)" and "0 < atoi v"
  shows "case read_command calls s of
      (Returned _, s1) \<Rightarrow>
        (if interactive s1 then sigalrm_handler s1 = sigalrm_handler s \<and> alarm_seconds s1 = 0
         else sigalrm_handler s1 = alrm_catcher)
    | (Jumped _, s1) \<Rightarrow> sigalrm_handler s1 = alrm_catcher
    | (Terminated, _) \<Rightarrow> True"
proof -
  let ?s2 = "s\<lparr>prompt_level := 1, global_command := None, sigalrm_handler := alrm_catcher, alarm_seconds := atoi v\<rparr>"
  have eq: "read_command calls s = timed_read calls (Some (Some v)) (atoi v) (sigalrm_handler s) ?s2"
    using assms(2-4) by (simp add: read_command_def Let_def)
  obtain o1 s1 where r: "timed_read calls (Some (Some v)) (atoi v) (sigalrm_handler s) ?s2 = (o1, s1)"
    by (cases "timed_read calls (Some (Some v)) (atoi v) (sigalrm_handler s) ?s2")
  show ?thesis
    using timed_read_handler [OF assms(1) r] assms(4) unfolding trans [OF eq r] by (cases o1) simp_all
qed

theorem read_command_alarm_witness:
  "let calls = script_calls\<lparr>c_tmout := \<lambda>e. Some (Some ''60'')\<rparr>;
       s = (idle_shell ([] :: unit command list, 0))\<lparr>interactive := True, interrupt_state := 1\<rparr>
   in case read_command calls s of (Jumped _, s1) \<Rightarrow> sigalrm_handler s1 = alrm_catcher | _ \<Rightarrow> False"
proof -
  let ?calls = "script_calls\<lparr>c_tmout := \<lambda>e. Some (Some ''60'')\<rparr> :: (unit, unit command list \<times> nat) shell_calls"
  let ?s = "(idle_shell ([], 0))\<lparr>interactive := True, interrupt_state := 1\<rparr> :: (unit, unit command list \<times> nat) shell"
  have k: "calls_keep sigalrm_handler ?calls"
    by (auto simp: calls_keep_def script_calls_def keeps_def ret_def split: prod.splits list.splits)
  have "0 < atoi ''60''" by code_simp
  then have a: "case read_command ?calls ?s of
      (Returned _, s1) \<Rightarrow>
        (if interactive s1 then sigalrm_handler s1 = sigalrm_handler ?s \<and> alarm_seconds s1 = 0
         else sigalrm_handler s1 = alrm_catcher)
    | (Jumped _, s1) \<Rightarrow> sigalrm_handler s1 = alrm_catcher
    | (Terminated, _) \<Rightarrow> True"
    by (intro read_command_alarm [where v = "''60''", OF k]) (simp_all add: idle_shell_def)
  have "\<exists>c s1. read_command ?calls ?s = (Jumped c, s1)"
    by (simp add: read_command_def timed_read_def QUIT_def throw_to_top_level_def Let_def and_then_def
        idle_shell_def script_calls_def ret_def)
  then show ?thesis using a by (auto simp: Let_def)
qed

end
