(* ===== verification/History_List.thy ===== *)
theory History_List
  imports Interfaces Number_Text
begin

text \<open>
  The history list of readline, \<^verbatim>\<open>lib/readline/history.c\<close>: an array of entry pointers that
  grows by 50 slots, ends in a null pointer, and may be limited ("stifled") to a number of
  entries. The model keeps the slots, with uninitialised ones, and the heap of entries; an
  operation that reads outside the array, an uninitialised slot or a freed entry has no result
  (\<open>None\<close>). The operations refine a bounded list of entries with a position.
\<close>

section \<open>State (history.h, history.c)\<close>

text \<open>\<open>he_data\<close> is the pointer \<^verbatim>\<open>data\<close>, 0 when it is null.\<close>

record hist_entry =
  he_line :: "cstring option"
  he_timestamp :: "cstring option"
  he_data :: nat

text \<open>A \<^verbatim>\<open>HIST_ENTRY *\<close>: not written since the allocation, null, or an address.\<close>

datatype slot = Uninit | Null | Entry nat

record history =
  the_history :: "slot list option"
  history_stifled :: bool
  history_size :: int
  history_max_entries :: int
  history_offset :: int
  history_length :: int
  history_base :: int
  heap :: "nat \<Rightarrow> hist_entry option"
  next_addr :: nat

definition fresh_history :: history where
  "fresh_history =
     \<lparr>the_history = None, history_stifled = False, history_size = 0, history_max_entries = 0,
      history_offset = 0, history_length = 0, history_base = 1, heap = (\<lambda>_. None), next_addr = 0\<rparr>"

definition DEFAULT_HISTORY_GROW_SIZE :: nat where
  "DEFAULT_HISTORY_GROW_SIZE = 50"

section \<open>Slots and entries\<close>

definition slot_at :: "slot list \<Rightarrow> int \<Rightarrow> slot option" where
  "slot_at xs i = (if 0 \<le> i \<and> i < int (length xs) \<and> xs ! nat i \<noteq> Uninit then Some (xs ! nat i) else None)"

definition set_slot :: "slot list \<Rightarrow> int \<Rightarrow> slot \<Rightarrow> slot list option" where
  "set_slot xs i v = (if 0 \<le> i \<and> i < int (length xs) then Some (xs[nat i := v]) else None)"

text \<open>\<^verbatim>\<open>for (; n > 0; d++, s++, n--) the_history[d] = the_history[s];\<close>\<close>

primrec copy_slots :: "nat \<Rightarrow> int \<Rightarrow> int \<Rightarrow> slot list \<Rightarrow> slot list option" where
  "copy_slots 0 d s xs = Some xs"
| "copy_slots (Suc n) d s xs =
     do { v \<leftarrow> slot_at xs s; ys \<leftarrow> set_slot xs d v; copy_slots n (d + 1) (s + 1) ys }"

definition read_slot :: "history \<Rightarrow> int \<Rightarrow> slot option" where
  "read_slot h i = do { xs \<leftarrow> the_history h; slot_at xs i }"

definition write_slot :: "int \<Rightarrow> slot \<Rightarrow> history \<Rightarrow> history option" where
  "write_slot i v h =
     do { xs \<leftarrow> the_history h; ys \<leftarrow> set_slot xs i v; Some (h\<lparr>the_history := Some ys\<rparr>) }"

definition move_slots :: "nat \<Rightarrow> int \<Rightarrow> int \<Rightarrow> history \<Rightarrow> history option" where
  "move_slots n d s h =
     do { xs \<leftarrow> the_history h; ys \<leftarrow> copy_slots n d s xs; Some (h\<lparr>the_history := Some ys\<rparr>) }"

text \<open>What a pointer points to; none for null, undefined for a freed entry.\<close>

definition entry_of :: "history \<Rightarrow> slot \<Rightarrow> hist_entry option option" where
  "entry_of h p =
     (case p of
        Uninit \<Rightarrow> None
      | Null \<Rightarrow> Some None
      | Entry a \<Rightarrow> do { e \<leftarrow> heap h a; Some (Some e) })"

definition alloc_entry :: "hist_entry \<Rightarrow> history \<Rightarrow> slot \<times> history" where
  "alloc_entry e h =
     (Entry (next_addr h), h\<lparr>heap := (heap h)(next_addr h \<mapsto> e), next_addr := Suc (next_addr h)\<rparr>)"

definition alloc_history_entry :: "cstring option \<Rightarrow> cstring option \<Rightarrow> history \<Rightarrow> slot \<times> history" where
  "alloc_history_entry str ts h = alloc_entry \<lparr>he_line = str, he_timestamp = ts, he_data = 0\<rparr> h"

definition free_history_entry :: "slot \<Rightarrow> history \<Rightarrow> (nat \<times> history) option" where
  "free_history_entry hist h =
     (case hist of
        Uninit \<Rightarrow> None
      | Null \<Rightarrow> Some (0, h)
      | Entry a \<Rightarrow> do { e \<leftarrow> heap h a; Some (he_data e, h\<lparr>heap := (heap h)(a := None)\<rparr>) })"

definition copy_history_entry :: "slot \<Rightarrow> history \<Rightarrow> (slot \<times> history) option" where
  "copy_history_entry hist h =
     (case hist of
        Uninit \<Rightarrow> None
      | Null \<Rightarrow> Some (Null, h)
      | Entry a \<Rightarrow> do { e \<leftarrow> heap h a; Some (alloc_entry e h) })"

section \<open>Time stamps\<close>

text \<open>The comment character before the seconds, as \<^verbatim>\<open>snprintf ("X%lu")\<close> prints them.\<close>

definition hist_inittime :: "char \<Rightarrow> nat \<Rightarrow> cstring" where
  "hist_inittime history_comment_char t = history_comment_char # decimal_digits t"

text \<open>\<^verbatim>\<open>strtol\<close> in base 10: a \<^verbatim>\<open>long\<close> is an \<^verbatim>\<open>intmax_t\<close> here.\<close>

definition history_get_time :: "char \<Rightarrow> slot \<Rightarrow> history \<Rightarrow> int option" where
  "history_get_time history_comment_char hist h =
     do { e \<leftarrow> entry_of h hist;
          Some (case e of
            None \<Rightarrow> 0
          | Some e \<Rightarrow>
              (case he_timestamp e of
                 None \<Rightarrow> 0
               | Some ts \<Rightarrow>
                   if c_at ts 0 \<noteq> history_comment_char then 0 else fst (strtoimax (drop 1 ts)))) }"

section \<open>Position\<close>

definition using_history :: "history \<Rightarrow> history" where
  "using_history h = h\<lparr>history_offset := history_length h\<rparr>"

definition where_history :: "history \<Rightarrow> int" where
  "where_history h = history_offset h"

definition history_set_pos :: "int \<Rightarrow> history \<Rightarrow> int \<times> history" where
  "history_set_pos pos h =
     (if history_length h < pos \<or> pos < 0 \<or> the_history h = None then (0, h)
      else (1, h\<lparr>history_offset := pos\<rparr>))"

definition current_history :: "history \<Rightarrow> slot option" where
  "current_history h =
     (if history_offset h = history_length h \<or> the_history h = None then Some Null
      else read_slot h (history_offset h))"

definition previous_history :: "history \<Rightarrow> (slot \<times> history) option" where
  "previous_history h =
     (if history_offset h \<noteq> 0
      then do { p \<leftarrow> read_slot h (history_offset h - 1);
                Some (p, h\<lparr>history_offset := history_offset h - 1\<rparr>) }
      else Some (Null, h))"

definition next_history :: "history \<Rightarrow> (slot \<times> history) option" where
  "next_history h =
     (if history_offset h = history_length h then Some (Null, h)
      else do { p \<leftarrow> read_slot h (history_offset h + 1);
                Some (p, h\<lparr>history_offset := history_offset h + 1\<rparr>) })"

definition history_get :: "int \<Rightarrow> history \<Rightarrow> slot option" where
  "history_get offset h =
     (let local_index = offset - history_base h
      in if history_length h \<le> local_index \<or> local_index < 0 \<or> the_history h = None then Some Null
         else read_slot h local_index)"

text \<open>\<^verbatim>\<open>for (i = 0; the_history && the_history[i]; i++)\<close>, with \<open>fuel\<close> slots at most.\<close>

primrec total_bytes_from :: "nat \<Rightarrow> int \<Rightarrow> nat \<Rightarrow> history \<Rightarrow> nat option" where
  "total_bytes_from 0 i result h = None"
| "total_bytes_from (Suc fuel) i result h =
     do { p \<leftarrow> read_slot h i;
          e \<leftarrow> entry_of h p;
          (case e of
             None \<Rightarrow> Some result
           | Some e \<Rightarrow>
               do { l \<leftarrow> he_line e; ts \<leftarrow> he_timestamp e;
                    total_bytes_from fuel (i + 1) (result + length l + length ts) h }) }"

definition history_total_bytes :: "history \<Rightarrow> nat option" where
  "history_total_bytes h =
     (case the_history h of
        None \<Rightarrow> Some 0
      | Some xs \<Rightarrow> total_bytes_from (length xs) 0 0 h)"

section \<open>Changing the list\<close>

text \<open>
  The array at the end of the list made ready for one more entry: the oldest entry of a full
  stifled list is freed and the others move down, or the array grows. \<open>None\<close> inside: not saved.
\<close>

definition make_room :: "history \<Rightarrow> history option option" where
  "make_room h =
     (if history_stifled h \<and> history_length h = history_max_entries h then
        if history_length h = 0 then Some None
        else
          do { p \<leftarrow> read_slot h 0;
               (_, h1) \<leftarrow> free_history_entry p h;
               h2 \<leftarrow> move_slots (nat (history_length h)) 0 1 h1;
               Some (Some (h2\<lparr>history_base := history_base h + 1\<rparr>)) }
      else if history_size h = 0 then
        Some (Some (h\<lparr>history_size := int DEFAULT_HISTORY_GROW_SIZE,
                      the_history := Some (replicate DEFAULT_HISTORY_GROW_SIZE Uninit),
                      history_length := 1\<rparr>))
      else
        Some (Some
          (let h1 = (if history_length h = history_size h - 1
                     then h\<lparr>history_size := history_size h + int DEFAULT_HISTORY_GROW_SIZE,
                            the_history := map_option
                              (\<lambda>xs. xs @ replicate DEFAULT_HISTORY_GROW_SIZE Uninit) (the_history h)\<rparr>
                     else h)
           in h1\<lparr>history_length := history_length h + 1\<rparr>)))"

definition add_history :: "cstring \<Rightarrow> cstring option \<Rightarrow> history \<Rightarrow> history option" where
  "add_history now string h =
     do { room \<leftarrow> make_room h;
          (case room of
             None \<Rightarrow> Some h
           | Some h1 \<Rightarrow>
               (case alloc_history_entry string (Some now) h1 of
                  (temp, h2) \<Rightarrow>
                    do { h3 \<leftarrow> write_slot (history_length h2) Null h2;
                         write_slot (history_length h2 - 1) temp h3 })) }"

definition add_history_time :: "cstring option \<Rightarrow> history \<Rightarrow> history option" where
  "add_history_time string h =
     (case string of
        None \<Rightarrow> Some h
      | Some ts \<Rightarrow>
          if history_length h < 1 then Some h
          else
            do { p \<leftarrow> read_slot h (history_length h - 1);
                 (case p of
                    Entry a \<Rightarrow>
                      do { e \<leftarrow> heap h a;
                           Some (h\<lparr>heap := (heap h)(a \<mapsto> e\<lparr>he_timestamp := Some ts\<rparr>)\<rparr>) }
                  | _ \<Rightarrow> None) })"

definition replace_history_entry :: "int \<Rightarrow> cstring \<Rightarrow> nat \<Rightarrow> history \<Rightarrow> (slot \<times> history) option" where
  "replace_history_entry which line data h =
     (if which < 0 \<or> history_length h \<le> which then Some (Null, h)
      else
        do { old_value \<leftarrow> read_slot h which;
             e \<leftarrow> entry_of h old_value;
             old \<leftarrow> e;
             ts \<leftarrow> he_timestamp old;
             (case alloc_entry \<lparr>he_line = Some line, he_timestamp = Some ts, he_data = data\<rparr> h of
                (temp, h1) \<Rightarrow> do { h2 \<leftarrow> write_slot which temp h1; Some (old_value, h2) }) })"

text \<open>One entry of \<^verbatim>\<open>replace_history_data\<close>: whether it has \<open>old\<close>, and the change.\<close>

definition has_data :: "int \<Rightarrow> nat \<Rightarrow> history \<Rightarrow> bool option" where
  "has_data i old h =
     do { p \<leftarrow> read_slot h i; e \<leftarrow> entry_of h p;
          Some (case e of None \<Rightarrow> False | Some e \<Rightarrow> he_data e = old) }"

definition set_data :: "int \<Rightarrow> nat \<Rightarrow> history \<Rightarrow> history option" where
  "set_data i new h =
     do { p \<leftarrow> read_slot h i;
          (case p of
             Entry a \<Rightarrow> do { e \<leftarrow> heap h a; Some (h\<lparr>heap := (heap h)(a \<mapsto> e\<lparr>he_data := new\<rparr>)\<rparr>) }
           | _ \<Rightarrow> None) }"

primrec replace_data_loop :: "nat \<Rightarrow> int \<Rightarrow> int \<Rightarrow> nat \<Rightarrow> nat \<Rightarrow> int \<Rightarrow> history \<Rightarrow> (int \<times> history) option" where
  "replace_data_loop 0 i which old new latest h = Some (latest, h)"
| "replace_data_loop (Suc n) i which old new latest h =
     do { b \<leftarrow> has_data i old h;
          if b then do { h1 \<leftarrow> (if which = - 1 then set_data i new h else Some h);
                         replace_data_loop n (i + 1) which old new i h1 }
          else replace_data_loop n (i + 1) which old new latest h }"

definition replace_history_data :: "int \<Rightarrow> nat \<Rightarrow> nat \<Rightarrow> history \<Rightarrow> history option" where
  "replace_history_data which old new h =
     (if which < - 2 \<or> history_length h \<le> which \<or> history_length h = 0 \<or> the_history h = None then Some h
      else if 0 \<le> which then
        do { b \<leftarrow> has_data which old h; if b then set_data which new h else Some h }
      else
        do { (latest, h1) \<leftarrow> replace_data_loop (nat (history_length h)) 0 which old new (- 1) h;
             if which = - 2 \<and> 0 \<le> latest then set_data latest new h1 else Some h1 })"

definition remove_history :: "int \<Rightarrow> history \<Rightarrow> (slot \<times> history) option" where
  "remove_history which h =
     (if which < 0 \<or> history_length h \<le> which \<or> history_length h = 0 \<or> the_history h = None
      then Some (Null, h)
      else
        do { return_value \<leftarrow> read_slot h which;
             h1 \<leftarrow> move_slots (nat (history_length h - which)) which (which + 1) h;
             Some (return_value, h1\<lparr>history_length := history_length h - 1\<rparr>) })"

primrec free_entries :: "nat \<Rightarrow> int \<Rightarrow> history \<Rightarrow> history option" where
  "free_entries 0 i h = Some h"
| "free_entries (Suc n) i h =
     do { p \<leftarrow> read_slot h i; (_, h1) \<leftarrow> free_history_entry p h; free_entries n (i + 1) h1 }"

definition stifle_history :: "int \<Rightarrow> history \<Rightarrow> history option" where
  "stifle_history lim h =
     (let mx = (if lim < 0 then 0 else lim)
      in do { h4 \<leftarrow>
                (if mx < history_length h then
                   do { h1 \<leftarrow> free_entries (nat (history_length h - mx)) 0 h;
                        h2 \<leftarrow> move_slots (nat mx) 0 (history_length h - mx)
                                (h1\<lparr>history_base := history_length h - mx\<rparr>);
                        h3 \<leftarrow> write_slot mx Null h2;
                        Some (h3\<lparr>history_length := mx\<rparr>) }
                 else Some h);
              Some (h4\<lparr>history_stifled := True, history_max_entries := mx\<rparr>) })"

definition unstifle_history :: "history \<Rightarrow> int \<times> history" where
  "unstifle_history h =
     (if history_stifled h then (history_max_entries h, h\<lparr>history_stifled := False\<rparr>)
      else (- history_max_entries h, h))"

primrec clear_slots :: "nat \<Rightarrow> int \<Rightarrow> history \<Rightarrow> history option" where
  "clear_slots 0 i h = Some h"
| "clear_slots (Suc n) i h =
     do { p \<leftarrow> read_slot h i; (_, h1) \<leftarrow> free_history_entry p h;
          h2 \<leftarrow> write_slot i Null h1; clear_slots n (i + 1) h2 }"

definition clear_history :: "history \<Rightarrow> history option" where
  "clear_history h =
     do { h1 \<leftarrow> clear_slots (nat (history_length h)) 0 h;
          Some (h1\<lparr>history_offset := 0, history_length := 0\<rparr>) }"

section \<open>The abstract history\<close>

text \<open>A list of entries, the position in it, the number before the first, and the limit.\<close>

record hist_spec =
  hs_entries :: "hist_entry list"
  hs_pos :: int
  hs_base :: int
  hs_limit :: int
  hs_limited :: bool

datatype hist_op =
  H_add cstring cstring | H_add_time "cstring option" | H_replace int cstring nat | H_replace_data int nat nat
  | H_remove int | H_stifle int | H_unstifle | H_clear | H_using | H_set_pos int | H_where | H_current
  | H_previous | H_next | H_get int | H_total_bytes

datatype hist_result = R_none | R_int int | R_entry "hist_entry option"

definition item :: "hist_spec \<Rightarrow> int \<Rightarrow> hist_entry option" where
  "item s i = (if 0 \<le> i \<and> i < int (length (hs_entries s)) then Some (hs_entries s ! nat i) else None)"

definition spec_replace_data :: "int \<Rightarrow> nat \<Rightarrow> nat \<Rightarrow> hist_entry list \<Rightarrow> hist_entry list" where
  "spec_replace_data which old new es =
     (let hits = filter (\<lambda>i. he_data (es ! i) = old) [0..<length es];
          chosen = (if which = - 1 then hits
                    else if which = - 2 then (if hits = [] then [] else [last hits])
                    else filter (\<lambda>i. int i = which) hits)
      in map (\<lambda>i. if i \<in> set chosen then (es ! i)\<lparr>he_data := new\<rparr> else es ! i) [0..<length es])"

definition entry_bytes :: "hist_entry \<Rightarrow> nat" where
  "entry_bytes e = length (the (he_line e)) + length (the (he_timestamp e))"

fun hist_spec_step :: "hist_op \<Rightarrow> hist_spec \<Rightarrow> hist_result \<times> hist_spec" where
  "hist_spec_step (H_add now l) s =
     (let e = \<lparr>he_line = Some l, he_timestamp = Some now, he_data = 0\<rparr>
      in (R_none,
          if hs_limited s \<and> int (length (hs_entries s)) = hs_limit s
          then if hs_entries s = [] then s
               else s\<lparr>hs_entries := tl (hs_entries s) @ [e], hs_base := hs_base s + 1\<rparr>
          else s\<lparr>hs_entries := hs_entries s @ [e]\<rparr>))"
| "hist_spec_step (H_add_time ts) s =
     (R_none,
      if ts = None \<or> hs_entries s = [] then s
      else s\<lparr>hs_entries := butlast (hs_entries s) @ [(last (hs_entries s))\<lparr>he_timestamp := ts\<rparr>]\<rparr>)"
| "hist_spec_step (H_replace i l d) s =
     (R_entry (item s i),
      case item s i of
        None \<Rightarrow> s
      | Some e \<Rightarrow> s\<lparr>hs_entries := (hs_entries s)
          [nat i := \<lparr>he_line = Some l, he_timestamp = he_timestamp e, he_data = d\<rparr>]\<rparr>)"
| "hist_spec_step (H_replace_data i old new) s =
     (R_none, if i < - 2 then s else s\<lparr>hs_entries := spec_replace_data i old new (hs_entries s)\<rparr>)"
| "hist_spec_step (H_remove i) s =
     (R_entry (item s i),
      if item s i = None then s
      else s\<lparr>hs_entries := take (nat i) (hs_entries s) @ drop (nat i + 1) (hs_entries s)\<rparr>)"
| "hist_spec_step (H_stifle m) s =
     (let mx = nat m; dropped = length (hs_entries s) - mx
      in (R_none,
          s\<lparr>hs_entries := drop dropped (hs_entries s),
            hs_base := (if 0 < dropped then int dropped else hs_base s),
            hs_limited := True, hs_limit := int mx\<rparr>))"
| "hist_spec_step H_unstifle s =
     (R_int (if hs_limited s then hs_limit s else - hs_limit s), s\<lparr>hs_limited := False\<rparr>)"
| "hist_spec_step H_clear s = (R_none, s\<lparr>hs_entries := [], hs_pos := 0\<rparr>)"
| "hist_spec_step H_using s = (R_none, s\<lparr>hs_pos := int (length (hs_entries s))\<rparr>)"
| "hist_spec_step H_where s = (R_int (hs_pos s), s)"
| "hist_spec_step (H_set_pos i) s =
     (if 0 \<le> i \<and> i \<le> int (length (hs_entries s)) \<and> hs_entries s \<noteq> [] then (R_int 1, s\<lparr>hs_pos := i\<rparr>)
      else (R_int 0, s))"
| "hist_spec_step H_current s = (R_entry (item s (hs_pos s)), s)"
| "hist_spec_step H_previous s =
     (if hs_pos s = 0 then (R_entry None, s)
      else (R_entry (item s (hs_pos s - 1)), s\<lparr>hs_pos := hs_pos s - 1\<rparr>))"
| "hist_spec_step H_next s =
     (if hs_pos s = int (length (hs_entries s)) then (R_entry None, s)
      else (R_entry (item s (hs_pos s + 1)), s\<lparr>hs_pos := hs_pos s + 1\<rparr>))"
| "hist_spec_step (H_get i) s = (R_entry (item s (i - hs_base s)), s)"
| "hist_spec_step H_total_bytes s = (R_int (int (sum_list (map entry_bytes (hs_entries s)))), s)"

text \<open>
  The three operations that follow the position may only be called when it is not past the end;
  positions are set on a list that was allocated, that is, not before the first entry.
\<close>

fun hist_ok :: "hist_op \<Rightarrow> hist_spec \<Rightarrow> bool" where
  "hist_ok H_current s = (hs_pos s \<le> int (length (hs_entries s)))"
| "hist_ok H_previous s = (hs_pos s \<le> int (length (hs_entries s)))"
| "hist_ok H_next s = (hs_pos s \<le> int (length (hs_entries s)))"
| "hist_ok (H_set_pos i) s = (hs_entries s \<noteq> [])"
| "hist_ok _ s = True"

section \<open>The same operations on the array\<close>

definition observe :: "(slot \<times> history) option \<Rightarrow> (hist_result \<times> history) option" where
  "observe r = do { (p, h) \<leftarrow> r; e \<leftarrow> entry_of h p; Some (R_entry e, h) }"

definition look :: "slot option \<Rightarrow> history \<Rightarrow> (hist_result \<times> history) option" where
  "look r h = observe (map_option (\<lambda>p. (p, h)) r)"

definition done_with :: "history option \<Rightarrow> (hist_result \<times> history) option" where
  "done_with r = map_option (\<lambda>h. (R_none, h)) r"

fun hist_step :: "hist_op \<Rightarrow> history \<Rightarrow> (hist_result \<times> history) option" where
  "hist_step (H_add now l) h = done_with (add_history now (Some l) h)"
| "hist_step (H_add_time ts) h = done_with (add_history_time ts h)"
| "hist_step (H_replace i l d) h = observe (replace_history_entry i l d h)"
| "hist_step (H_replace_data i old new) h = done_with (replace_history_data i old new h)"
| "hist_step (H_remove i) h = observe (remove_history i h)"
| "hist_step (H_stifle m) h = done_with (stifle_history m h)"
| "hist_step H_unstifle h = Some (case unstifle_history h of (r, h1) \<Rightarrow> (R_int r, h1))"
| "hist_step H_clear h = done_with (clear_history h)"
| "hist_step H_using h = Some (R_none, using_history h)"
| "hist_step H_where h = Some (R_int (where_history h), h)"
| "hist_step (H_set_pos i) h = Some (case history_set_pos i h of (r, h1) \<Rightarrow> (R_int r, h1))"
| "hist_step H_current h = look (current_history h) h"
| "hist_step H_previous h = observe (previous_history h)"
| "hist_step H_next h = observe (next_history h)"
| "hist_step (H_get i) h = look (history_get i h) h"
| "hist_step H_total_bytes h = map_option (\<lambda>n. (R_int (int n), h)) (history_total_bytes h)"

section \<open>The invariant\<close>

text \<open>
  The pointers of the list: the first \<open>history_length\<close> slots, distinct and to live entries, then
  a null slot.
\<close>

definition addr_of :: "slot \<Rightarrow> nat" where
  "addr_of p = (case p of Entry a \<Rightarrow> a | _ \<Rightarrow> 0)"

definition hist_addrs :: "history \<Rightarrow> nat list" where
  "hist_addrs h =
     (case the_history h of None \<Rightarrow> [] | Some xs \<Rightarrow> map addr_of (take (nat (history_length h)) xs))"

definition abs_entries :: "history \<Rightarrow> hist_entry list" where
  "abs_entries h = map (the \<circ> heap h) (hist_addrs h)"

definition hist_abs :: "history \<Rightarrow> hist_spec" where
  "hist_abs h =
     \<lparr>hs_entries = abs_entries h, hs_pos = history_offset h, hs_base = history_base h,
      hs_limit = history_max_entries h, hs_limited = history_stifled h\<rparr>"

text \<open>\<open>hist_holds h as\<close>: the list of \<open>h\<close> is made of the entries at the addresses \<open>as\<close>.\<close>

definition entry_ok :: "history \<Rightarrow> nat \<Rightarrow> bool" where
  "entry_ok h a \<longleftrightarrow>
     a < next_addr h \<and> (\<exists>e. heap h a = Some e \<and> he_line e \<noteq> None \<and> he_timestamp e \<noteq> None)"

definition slots_hold :: "history \<Rightarrow> nat list \<Rightarrow> bool" where
  "slots_hold h as \<longleftrightarrow>
     (case the_history h of
        None \<Rightarrow> history_size h = 0 \<and> as = []
      | Some xs \<Rightarrow> \<exists>rest. xs = map Entry as @ Null # rest \<and> history_size h = int (length xs))"

definition hist_holds :: "history \<Rightarrow> nat list \<Rightarrow> bool" where
  "hist_holds h as \<longleftrightarrow>
     slots_hold h as \<and> history_length h = int (length as) \<and> distinct as \<and> (\<forall>a\<in>set as. entry_ok h a) \<and>
     0 \<le> history_offset h \<and> 0 \<le> history_max_entries h \<and>
     (history_stifled h \<longrightarrow> history_length h \<le> history_max_entries h)"

definition hist_inv :: "history \<Rightarrow> bool" where
  "hist_inv h \<longleftrightarrow> (\<exists>as. hist_holds h as)"

lemma hist_addrs_holds: "hist_holds h as \<Longrightarrow> hist_addrs h = as"
  by (auto simp: hist_holds_def slots_hold_def hist_addrs_def addr_of_def o_def split: option.splits)

lemma hist_holdsI: "hist_inv h \<Longrightarrow> hist_holds h (hist_addrs h)"
  using hist_addrs_holds by (auto simp: hist_inv_def)

lemma abs_entries_holds: "hist_holds h as \<Longrightarrow> abs_entries h = map (the \<circ> heap h) as"
  by (simp add: abs_entries_def hist_addrs_holds)

lemma hist_holds_heap: "hist_holds h as \<Longrightarrow> a \<in> set as \<Longrightarrow> \<exists>e. heap h a = Some e \<and> he_line e \<noteq> None \<and> he_timestamp e \<noteq> None"
  by (auto simp: hist_holds_def entry_ok_def)

section \<open>Moving slots\<close>

lemma slot_at_nat: "i < length xs \<Longrightarrow> xs ! i \<noteq> Uninit \<Longrightarrow> slot_at xs (int i) = Some (xs ! i)"
  by (simp add: slot_at_def)

lemma set_slot_nat: "i < length xs \<Longrightarrow> set_slot xs (int i) v = Some (xs[i := v])"
  by (simp add: set_slot_def)

lemma copy_slots_down:
  "d \<le> s \<Longrightarrow> s + n \<le> length xs \<Longrightarrow> \<forall>i<n. xs ! (s + i) \<noteq> Uninit \<Longrightarrow>
   copy_slots n (int d) (int s) xs = Some (take d xs @ take n (drop s xs) @ drop (d + n) xs)"
proof (induction n arbitrary: d s xs)
  case 0
  then show ?case by simp
next
  case (Suc n)
  have s: "s < length xs" "xs ! s \<noteq> Uninit" "d < length xs"
    using Suc.prems(1,2) Suc.prems(3) [rule_format, of 0] by simp_all
  let ?ys = "xs[d := xs ! s]"
  have "copy_slots n (int (Suc d)) (int (Suc s)) ?ys =
      Some (take (Suc d) ?ys @ take n (drop (Suc s) ?ys) @ drop (Suc d + n) ?ys)"
    using Suc.prems by (intro Suc.IH) (auto simp: nth_list_update)
  moreover have "take (Suc d) ?ys = take d xs @ [xs ! s]"
    using s by (simp add: take_Suc_conv_app_nth)
  moreover have "take n (drop (Suc s) ?ys) = take n (drop (Suc s) xs)"
    using Suc.prems(1) by simp
  moreover have "drop (Suc d + n) ?ys = drop (d + Suc n) xs" by simp
  moreover have "take (Suc n) (drop s xs) = xs ! s # take n (drop (Suc s) xs)"
    using s(1) by (simp add: Cons_nth_drop_Suc [symmetric])
  ultimately show ?case
    using s by (simp add: slot_at_nat set_slot_nat add.commute)
qed

lemma slots_length:
  assumes "hist_holds h as" and "the_history h = Some xs"
  shows "length as < length xs" "history_size h = int (length xs)" "history_length h = int (length as)"
    "\<forall>i<length as. xs ! i = Entry (as ! i)" "xs ! length as = Null"
  using assms by (auto simp: hist_holds_def slots_hold_def nth_append)

lemma slots_not_uninit:
  "hist_holds h as \<Longrightarrow> the_history h = Some xs \<Longrightarrow> i \<le> length as \<Longrightarrow> xs ! i \<noteq> Uninit"
  using slots_length(4,5) [of h as xs] by (cases "i < length as") (auto simp: not_less)

lemma slots_holdI:
  assumes "the_history h = Some xs" and "history_size h = int (length xs)" and "length as < length xs"
    and "\<forall>i<length as. xs ! i = Entry (as ! i)" and "xs ! length as = Null"
  shows "slots_hold h as"
proof -
  have "xs = map Entry as @ Null # drop (Suc (length as)) xs"
  proof (rule nth_equalityI)
    fix i
    assume "i < length xs"
    then show "xs ! i = (map Entry as @ Null # drop (Suc (length as)) xs) ! i"
      using assms(4,5) by (cases i "length as" rule: linorder_cases) (simp_all add: nth_append nth_Cons')
  qed (use assms(3) in simp)
  then show ?thesis using assms(1,2) by (auto simp: slots_hold_def)
qed

lemma read_slot_holds:
  assumes "hist_holds h as" and "as \<noteq> [] \<or> the_history h \<noteq> None" and "0 \<le> i" and "i \<le> int (length as)"
  shows "read_slot h i = Some (if i < int (length as) then Entry (as ! nat i) else Null)"
proof -
  obtain xs where xs: "the_history h = Some xs"
    using assms(1,2) by (cases "the_history h") (auto simp: hist_holds_def slots_hold_def)
  have "nat i \<le> length as" using assms(4) by simp
  then show ?thesis
    using slots_length [OF assms(1) xs] slots_not_uninit [OF assms(1) xs] assms(3,4) xs
    by (auto simp: read_slot_def slot_at_def nat_less_iff dest!: spec [of _ "nat i"] split: if_splits)
qed

lemma entry_of_holds:
  "hist_holds h as \<Longrightarrow> a \<in> set as \<Longrightarrow> entry_of h (Entry a) = Some (Some (the (heap h a)))"
  using hist_holds_heap by (fastforce simp: entry_of_def)

section \<open>Adding an entry\<close>

text \<open>The array after \<open>make_room\<close>: room for one entry behind those at \<open>as\<close>.\<close>

definition has_room :: "history \<Rightarrow> nat list \<Rightarrow> bool" where
  "has_room h as \<longleftrightarrow>
     (\<exists>xs. the_history h = Some xs \<and> history_size h = int (length xs) \<and> length as + 1 < length xs \<and>
           (\<forall>i<length as. xs ! i = Entry (as ! i))) \<and>
     history_length h = int (length as) + 1 \<and> distinct as \<and> (\<forall>a\<in>set as. entry_ok h a) \<and>
     0 \<le> history_offset h \<and> 0 \<le> history_max_entries h \<and>
     (history_stifled h \<longrightarrow> history_length h \<le> history_max_entries h)"

lemma add_history_finish:
  fixes l now :: cstring
  assumes r: "has_room h as"
  defines "e \<equiv> \<lparr>he_line = Some l, he_timestamp = Some now, he_data = 0\<rparr>"
  shows "\<exists>h'. (case alloc_history_entry (Some l) (Some now) h of
          (temp, h2) \<Rightarrow> do { h3 \<leftarrow> write_slot (history_length h2) Null h2;
                           write_slot (history_length h2 - 1) temp h3 }) = Some h' \<and>
      hist_inv h' \<and> hist_abs h' = (hist_abs h)\<lparr>hs_entries := map (the \<circ> heap h) as @ [e]\<rparr>"
proof -
  from r obtain xs where xs: "the_history h = Some xs" "history_size h = int (length xs)"
    "length as + 1 < length xs" "\<forall>i<length as. xs ! i = Entry (as ! i)"
    by (auto simp: has_room_def)
  let ?a = "next_addr h"
  let ?n = "length as"
  let ?ys = "(xs[Suc ?n := Null])[?n := Entry ?a]"
  let ?h' = "h\<lparr>heap := (heap h)(?a \<mapsto> e), next_addr := Suc ?a, the_history := Some ?ys\<rparr>"
  have new: "?a \<notin> set as" using r by (auto simp: has_room_def entry_ok_def)
  have len: "history_length h = int (Suc ?n)" "nat (1 + int ?n) = Suc ?n"
    using r by (auto simp: has_room_def)
  have run: "(case alloc_history_entry (Some l) (Some now) h of
          (temp, h2) \<Rightarrow> do { h3 \<leftarrow> write_slot (history_length h2) Null h2;
                           write_slot (history_length h2 - 1) temp h3 }) = Some ?h'"
    using xs len by (simp add: alloc_history_entry_def alloc_entry_def write_slot_def set_slot_def e_def)
  have "slots_hold ?h' (as @ [?a])"
    by (rule slots_holdI [of _ ?ys]) (use xs in \<open>auto simp: nth_append nth_list_update less_Suc_eq\<close>)
  then have holds: "hist_holds ?h' (as @ [?a])"
    using r new unfolding hist_holds_def has_room_def by (auto simp: entry_ok_def e_def less_Suc_eq)
  have "map (the \<circ> heap ?h') (as @ [?a]) = map (the \<circ> heap h) as @ [e]"
    using new by auto
  then show ?thesis
    using run holds abs_entries_holds [OF holds] by (auto simp: hist_inv_def hist_abs_def)
qed

lemma make_room_full:
  assumes h: "hist_holds h as" and full: "history_stifled h" "history_length h = history_max_entries h"
    and ne: "as \<noteq> []"
  shows "\<exists>h1. make_room h = Some (Some h1) \<and> has_room h1 (tl as) \<and>
    map (the \<circ> heap h1) (tl as) = tl (abs_entries h) \<and>
    history_base h1 = history_base h + 1 \<and> history_offset h1 = history_offset h \<and>
    history_max_entries h1 = history_max_entries h \<and> history_stifled h1 = history_stifled h"
proof -
  obtain xs where xs: "the_history h = Some xs"
    using h ne by (cases "the_history h") (auto simp: hist_holds_def slots_hold_def)
  note len = slots_length [OF h xs]
  obtain e where e: "heap h (hd as) = Some e" using hist_holds_heap [OF h, of "hd as"] ne by auto
  let ?h1 = "h\<lparr>heap := (heap h)(hd as := None)\<rparr>"
  let ?ys = "take (length as) (drop 1 xs) @ drop (length as) xs"
  let ?h2 = "?h1\<lparr>the_history := Some ?ys, history_base := history_base h + 1\<rparr>"
  have "read_slot h 0 = Some (Entry (hd as))"
    using read_slot_holds [OF h, of 0] ne by (simp add: hd_conv_nth)
  moreover have "copy_slots (length as) (int 0) (int 1) xs = Some ?ys"
    using copy_slots_down [of 0 1 "length as" xs] len(1) slots_not_uninit [OF h xs] by simp
  moreover have "nat (history_max_entries h) = length as" "history_max_entries h \<noteq> 0"
    using full(2) len(3) ne length_greater_0_conv [of as] by linarith+
  ultimately have run: "make_room h = Some (Some ?h2)"
    using full ne e xs by (simp add: make_room_def free_history_entry_def move_slots_def)
  have "distinct as" using h by (simp add: hist_holds_def)
  then have keep: "a \<in> set (tl as) \<Longrightarrow> a \<noteq> hd as \<and> a \<in> set as" for a
    using ne by (cases as) auto
  have "?ys ! i = Entry (tl as ! i)" if "i < length (tl as)" for i
  proof -
    have "i < length as" using that by simp
    then show ?thesis using that len(1,4) by (simp add: nth_append nth_tl)
  qed
  then have "has_room ?h2 (tl as)"
    using h len keep ne \<open>distinct as\<close>
    by (auto simp: has_room_def hist_holds_def entry_ok_def distinct_tl Suc_le_eq)
  moreover have "map (the \<circ> heap ?h2) (tl as) = tl (abs_entries h)"
    using keep by (auto simp: abs_entries_holds [OF h] map_tl [symmetric])
  ultimately show ?thesis using run by auto
qed

lemma make_room_grow:
  assumes h: "hist_holds h as" and free: "\<not> (history_stifled h \<and> history_length h = history_max_entries h)"
  shows "\<exists>h1. make_room h = Some (Some h1) \<and> has_room h1 as \<and> heap h1 = heap h \<and>
    history_base h1 = history_base h \<and> history_offset h1 = history_offset h \<and>
    history_max_entries h1 = history_max_entries h \<and> history_stifled h1 = history_stifled h"
proof (cases "the_history h")
  case None
  then have "history_size h = 0" "as = []" using h by (auto simp: hist_holds_def slots_hold_def)
  then show ?thesis
    using h free None by (auto simp: make_room_def has_room_def hist_holds_def DEFAULT_HISTORY_GROW_SIZE_def)
next
  case (Some xs)
  note len = slots_length [OF h Some]
  let ?full = "history_length h = history_size h - 1"
  let ?ys = "if ?full then xs @ replicate DEFAULT_HISTORY_GROW_SIZE Uninit else xs"
  let ?h1 = "h\<lparr>history_size := int (length ?ys), the_history := Some ?ys, history_length := history_length h + 1\<rparr>"
  have size: "0 < history_size h" using len(1,2) by linarith
  have "make_room h = Some (Some ?h1)"
    unfolding make_room_def if_not_P [OF free] using Some len(2) size by (simp add: Let_def)
  moreover have "has_room ?h1 as"
    using h free len by (auto simp: has_room_def hist_holds_def entry_ok_def nth_append DEFAULT_HISTORY_GROW_SIZE_def)
  ultimately show ?thesis by auto
qed

lemma abs_entries_length: "hist_holds h as \<Longrightarrow> length (abs_entries h) = length as"
  by (simp add: abs_entries_holds)

lemma hist_abs_simps [simp]:
  "hs_entries (hist_abs h) = abs_entries h" "hs_pos (hist_abs h) = history_offset h"
  "hs_base (hist_abs h) = history_base h" "hs_limit (hist_abs h) = history_max_entries h"
  "hs_limited (hist_abs h) = history_stifled h"
  by (simp_all add: hist_abs_def)

lemma add_history_spec:
  assumes "hist_inv h"
  shows "\<exists>h'. add_history now (Some l) h = Some h' \<and> hist_inv h' \<and>
    hist_abs h' = snd (hist_spec_step (H_add now l) (hist_abs h))"
proof -
  obtain as where h: "hist_holds h as" using assms by (auto simp: hist_inv_def)
  have len: "history_length h = int (length as)" using h by (simp add: hist_holds_def)
  note abs = abs_entries_holds [OF h] abs_entries_length [OF h]
  show ?thesis
  proof (cases "history_stifled h \<and> history_length h = history_max_entries h")
    case True
    show ?thesis
    proof (cases "as = []")
      case True
      then show ?thesis
        using \<open>history_stifled h \<and> _\<close> len assms abs by (simp add: add_history_def make_room_def)
    next
      case False
      obtain h1 where h1: "make_room h = Some (Some h1)" "has_room h1 (tl as)"
        "map (the \<circ> heap h1) (tl as) = tl (abs_entries h)" "history_base h1 = history_base h + 1"
        "history_offset h1 = history_offset h" "history_max_entries h1 = history_max_entries h"
        "history_stifled h1 = history_stifled h"
        using make_room_full [OF h _ _ False] True by blast
      show ?thesis
        using add_history_finish [OF h1(2), of l now] h1 True len False abs
        by (auto simp: add_history_def Let_def hist_abs_def)
    qed
  next
    case False
    obtain h1 where h1: "make_room h = Some (Some h1)" "has_room h1 as" "heap h1 = heap h"
      "history_base h1 = history_base h" "history_offset h1 = history_offset h"
      "history_max_entries h1 = history_max_entries h" "history_stifled h1 = history_stifled h"
      using make_room_grow [OF h False] by blast
    show ?thesis
      using add_history_finish [OF h1(2), of l now] h1 False len abs
      by (auto simp: add_history_def Let_def hist_abs_def)
  qed
qed

section \<open>Reading entries\<close>

lemma item_holds:
  assumes "hist_holds h as"
  shows "item (hist_abs h) i = (if 0 \<le> i \<and> i < int (length as) then Some (the (heap h (as ! nat i))) else None)"
  using abs_entries_holds [OF assms] by (auto simp: item_def nat_less_iff)

lemma read_item:
  assumes h: "hist_holds h as" and ne: "as \<noteq> [] \<or> the_history h \<noteq> None" and i: "0 \<le> i" "i \<le> int (length as)"
  shows "\<exists>p. read_slot h i = Some p \<and> entry_of h p = Some (item (hist_abs h) i)"
proof (cases "i < int (length as)")
  case True
  then have "as ! nat i \<in> set as" using i(1) by simp
  then show ?thesis
    using read_slot_holds [OF h ne i] True i(1) by (simp add: entry_of_holds [OF h] item_holds [OF h])
next
  case False
  then show ?thesis
    using read_slot_holds [OF h ne i] by (simp add: entry_of_def item_holds [OF h])
qed

lemma look_item:
  "entry_of h p = Some e \<Longrightarrow> look (Some p) h = Some (R_entry e, h)"
  by (simp add: look_def observe_def)

lemma set_offset_holds:
  assumes h: "hist_holds h as" and "0 \<le> i"
  shows "hist_inv (h\<lparr>history_offset := i\<rparr>)" "hist_abs (h\<lparr>history_offset := i\<rparr>) = (hist_abs h)\<lparr>hs_pos := i\<rparr>"
    "entry_of (h\<lparr>history_offset := i\<rparr>) = entry_of h"
proof -
  have h1: "hist_holds (h\<lparr>history_offset := i\<rparr>) as"
    using assms by (auto simp: hist_holds_def slots_hold_def entry_ok_def split: option.splits)
  then show "hist_inv (h\<lparr>history_offset := i\<rparr>)" by (auto simp: hist_inv_def)
  show "hist_abs (h\<lparr>history_offset := i\<rparr>) = (hist_abs h)\<lparr>hs_pos := i\<rparr>"
    using abs_entries_holds [OF h1] abs_entries_holds [OF h] by (simp add: hist_abs_def)
  show "entry_of (h\<lparr>history_offset := i\<rparr>) = entry_of h"
    by (simp add: entry_of_def fun_eq_iff split: slot.splits)
qed

definition refined_at :: "hist_op \<Rightarrow> history \<Rightarrow> bool" where
  "refined_at x h \<longleftrightarrow>
     (\<exists>h'. hist_step x h = Some (fst (hist_spec_step x (hist_abs h)), h') \<and> hist_inv h' \<and>
           hist_abs h' = snd (hist_spec_step x (hist_abs h)))"

lemma position_steps:
  assumes h: "hist_holds h as"
  shows "refined_at H_using h" "refined_at H_where h"
    "hist_ok (H_set_pos i) (hist_abs h) \<Longrightarrow> refined_at (H_set_pos i) h"
    "hist_ok H_current (hist_abs h) \<Longrightarrow> refined_at H_current h"
    "hist_ok H_previous (hist_abs h) \<Longrightarrow> refined_at H_previous h"
    "hist_ok H_next (hist_abs h) \<Longrightarrow> refined_at H_next h"
    "refined_at (H_get i) h"
proof -
  have len: "history_length h = int (length as)" "0 \<le> history_offset h"
    using h by (simp_all add: hist_holds_def)
  have inv: "hist_inv h" using h by (auto simp: hist_inv_def)
  note al = abs_entries_length [OF h]
  have array: "as \<noteq> [] \<or> the_history h \<noteq> None" if "0 < length as" using that by simp
  have none: "length as = 0" if "the_history h = None"
    using that h by (auto simp: hist_holds_def slots_hold_def)
  show "refined_at H_using h"
    using set_offset_holds [OF h, of "int (length as)"] by (auto simp: refined_at_def using_history_def len al)
  show "refined_at H_where h"
    using inv by (auto simp: refined_at_def where_history_def)
  show "refined_at (H_set_pos i) h" if "hist_ok (H_set_pos i) (hist_abs h)"
  proof -
    have "0 < length as" using that by (simp flip: al)
    then have "the_history h \<noteq> None" using none by auto
    then show ?thesis
      using that inv set_offset_holds [OF h, of i] al by (auto simp: refined_at_def history_set_pos_def len)
  qed
  show "refined_at H_current h" if ok: "hist_ok H_current (hist_abs h)"
  proof (cases "history_offset h = history_length h \<or> the_history h = None")
    case True
    then have "item (hist_abs h) (history_offset h) = None"
      using none len by (auto simp: item_holds [OF h])
    then show ?thesis using True inv by (auto simp: refined_at_def current_history_def look_def observe_def entry_of_def)
  next
    case False
    then show ?thesis
      using read_item [OF h _ len(2)] ok al inv by (auto simp: refined_at_def current_history_def look_item)
  qed
  show "refined_at H_previous h" if ok: "hist_ok H_previous (hist_abs h)"
  proof (cases "history_offset h = 0")
    case True
    then show ?thesis using inv by (auto simp: refined_at_def previous_history_def observe_def entry_of_def)
  next
    case False
    then show ?thesis
      using read_item [OF h, of "history_offset h - 1"] ok al len set_offset_holds [OF h, of "history_offset h - 1"]
      by (force simp: refined_at_def previous_history_def observe_def)
  qed
  show "refined_at H_next h" if ok: "hist_ok H_next (hist_abs h)"
  proof (cases "history_offset h = history_length h")
    case True
    then show ?thesis using inv len al by (auto simp: refined_at_def next_history_def observe_def entry_of_def)
  next
    case False
    then show ?thesis
      using read_item [OF h, of "history_offset h + 1"] ok al len set_offset_holds [OF h, of "history_offset h + 1"]
      by (force simp: refined_at_def next_history_def observe_def)
  qed
  show "refined_at (H_get i) h"
  proof (cases "history_length h \<le> i - history_base h \<or> i - history_base h < 0 \<or> the_history h = None")
    case True
    then have "item (hist_abs h) (i - history_base h) = None" using none by (auto simp: item_holds [OF h] len)
    then show ?thesis
      using True inv by (auto simp: refined_at_def history_get_def look_def observe_def entry_of_def Let_def)
  next
    case False
    then show ?thesis
      using read_item [OF h, of "i - history_base h"] len inv
      by (auto simp: refined_at_def history_get_def look_item Let_def)
  qed
qed

section \<open>Removing and replacing\<close>

text \<open>A change of the array that leaves the entries it keeps alone.\<close>

lemma set_slots_holds:
  assumes h: "hist_holds h as" and "slots_hold h' bs" and "history_length h' = int (length bs)"
    and "\<forall>a\<in>set bs. heap h' a = heap h a" "next_addr h' = next_addr h" "0 \<le> history_offset h'"
    and "0 \<le> history_max_entries h'" "history_stifled h' \<longrightarrow> history_length h' \<le> history_max_entries h'"
    and "distinct bs" "set bs \<subseteq> set as"
  shows "hist_holds h' bs" "abs_entries h' = map (the \<circ> heap h) bs"
proof -
  show h': "hist_holds h' bs"
    using assms by (auto simp: hist_holds_def entry_ok_def)
  show "abs_entries h' = map (the \<circ> heap h) bs"
    using abs_entries_holds [OF h'] assms(4) by simp
qed

lemma array_of: "hist_holds h as \<Longrightarrow> as \<noteq> [] \<Longrightarrow> \<exists>xs. the_history h = Some xs"
  by (cases "the_history h") (auto simp: hist_holds_def slots_hold_def)

lemma distinct_remove_nth: "distinct xs \<Longrightarrow> distinct (take i xs @ drop (Suc i) xs)"
  by (auto dest: set_take_disj_set_drop_if_distinct [of xs i "Suc i"])

lemma remove_history_spec:
  assumes h: "hist_holds h as" and w: "0 \<le> w" "w < int (length as)"
  shows "\<exists>h'. remove_history w h = Some (Entry (as ! nat w), h') \<and>
    hist_holds h' (take (nat w) as @ drop (Suc (nat w)) as) \<and> heap h' = heap h \<and>
    history_offset h' = history_offset h \<and> history_base h' = history_base h \<and>
    history_max_entries h' = history_max_entries h \<and> history_stifled h' = history_stifled h"
proof -
  let ?w = "nat w"
  let ?n = "length as"
  have w': "?w < ?n" "w = int ?w" using w by auto
  obtain xs where xs: "the_history h = Some xs" using array_of [OF h] w by fastforce
  note len = slots_length [OF h xs]
  let ?ys = "take ?w xs @ take (?n - ?w) (drop (Suc ?w) xs) @ drop ?n xs"
  let ?bs = "take ?w as @ drop (Suc ?w) as"
  let ?h = "h\<lparr>the_history := Some ?ys, history_length := history_length h - 1\<rparr>"
  have copy: "copy_slots (?n - ?w) (int ?w) (int (Suc ?w)) xs = Some ?ys"
    using copy_slots_down [of ?w "Suc ?w" "?n - ?w" xs] len(1) slots_not_uninit [OF h xs] w' by simp
  have "nat (history_length h - w) = ?n - ?w" using w len(3) by (simp add: nat_diff_distrib)
  then have run: "remove_history w h = Some (Entry (as ! ?w), ?h)"
    using read_slot_holds [OF h, of w] w xs len(3) copy w'(2)
    by (auto simp: remove_history_def move_slots_def add.commute)
  have "slots_hold ?h ?bs"
  proof (rule slots_holdI [of _ ?ys])
    show "history_size ?h = int (length ?ys)" "length ?bs < length ?ys"
      using len(1,2) w' by simp_all
    have nth: "?ys ! i = (if i < ?w then xs ! i else xs ! Suc i)" if "i < ?n" for i
      using that len(1) w' by (auto simp: nth_append min_def)
    show "\<forall>i<length ?bs. ?ys ! i = Entry (?bs ! i)"
      using nth len(4) w' by (auto simp: nth_append min_def)
    have "length ?bs = ?n - 1" "?n - 1 < ?n" "\<not> ?n - 1 < ?w" "Suc (?n - 1) = ?n" using w'(1) by auto
    then show "?ys ! length ?bs = Null"
      using nth [of "?n - 1"] len(5) by simp
  qed simp
  moreover have "distinct as" using h by (simp add: hist_holds_def)
  moreover have "set ?bs \<subseteq> set as" by (auto dest: in_set_takeD in_set_dropD)
  moreover have "distinct ?bs"
    using \<open>distinct as\<close> by (rule distinct_remove_nth)
  ultimately have "hist_holds ?h ?bs"
    using w' len(3) h by (intro set_slots_holds(1) [OF h]) (auto simp: hist_holds_def)
  then show ?thesis using run by auto
qed

section \<open>Stifling and clearing\<close>

lemma free_entry_at:
  assumes "the_history h = Some xs" and "k < length xs" and "xs ! k = Entry a" and "heap h a = Some e"
  shows "read_slot h (int k) = Some (Entry a)"
    "free_history_entry (Entry a) h = Some (he_data e, h\<lparr>heap := (heap h)(a := None)\<rparr>)"
  using assms by (simp_all add: read_slot_def slot_at_def free_history_entry_def)

lemma free_entries_run:
  "the_history h = Some xs \<Longrightarrow> length as \<le> length xs \<Longrightarrow> \<forall>i<length as. xs ! i = Entry (as ! i) \<Longrightarrow>
   k + n \<le> length as \<Longrightarrow> distinct as \<Longrightarrow> \<forall>a\<in>set (drop k as). heap h a \<noteq> None \<Longrightarrow>
   free_entries n (int k) h =
     Some (h\<lparr>heap := (\<lambda>a. if a \<in> set (take n (drop k as)) then None else heap h a)\<rparr>)"
proof (induction n arbitrary: k h)
  case 0
  then show ?case by simp
next
  case (Suc n)
  have k: "drop k as = as ! k # drop (Suc k) as" "k < length xs" "xs ! k = Entry (as ! k)"
    using Suc.prems by (simp_all add: Cons_nth_drop_Suc)
  obtain e where e: "heap h (as ! k) = Some e" using Suc.prems(6) k(1) by auto
  let ?h1 = "h\<lparr>heap := (heap h)(as ! k := None)\<rparr>"
  have notin: "as ! k \<notin> set (drop (Suc k) as)"
    using distinct_drop [OF Suc.prems(5), of k] k(1) by simp
  have "free_entries n (int (Suc k)) ?h1 =
      Some (?h1\<lparr>heap := (\<lambda>a. if a \<in> set (take n (drop (Suc k) as)) then None else heap ?h1 a)\<rparr>)"
    using Suc.prems notin k(1) by (intro Suc.IH) auto
  then show ?case
    using free_entry_at [OF Suc.prems(1) k(2,3) e] k(1) by (auto simp: add.commute fun_eq_iff)
qed

lemma stifle_history_spec:
  assumes h: "hist_holds h as"
  shows "refined_at (H_stifle lim) h"
proof -
  define mx where "mx = nat lim"
  have mx: "(if lim < 0 then 0 else lim) = int mx" by (simp add: mx_def)
  let ?n = "length as"
  let ?d = "?n - mx"
  have hl: "history_length h = int ?n" using h by (simp add: hist_holds_def)
  have spec: "hist_spec_step (H_stifle lim) (hist_abs h) =
      (R_none, (hist_abs h)\<lparr>hs_entries := drop ?d (abs_entries h),
        hs_base := (if mx < ?n then int ?n - int mx else history_base h), hs_limited := True, hs_limit := int mx\<rparr>)"
    by (simp add: Let_def mx_def [symmetric] abs_entries_length [OF h])
  show ?thesis
  proof (cases "mx < ?n")
    case False
    let ?h = "h\<lparr>history_stifled := True, history_max_entries := int mx\<rparr>"
    have "hist_holds ?h as"
      using h False by (auto simp: hist_holds_def slots_hold_def entry_ok_def split: option.splits)
    moreover have "abs_entries ?h = abs_entries h" by (simp add: abs_entries_def hist_addrs_def split: option.split)
    ultimately show ?thesis
      unfolding refined_at_def spec using False
      by (auto simp: stifle_history_def mx Let_def hl done_with_def hist_inv_def hist_abs_def)
  next
    case True
    obtain xs where xs: "the_history h = Some xs" using array_of [OF h] True by fastforce
    note len = slots_length [OF h xs]
    let ?heap = "\<lambda>a. if a \<in> set (take ?d as) then None else heap h a"
    let ?ys = "take mx (drop ?d xs) @ drop mx xs"
    let ?h = "h\<lparr>heap := ?heap, history_base := int ?n - int mx, the_history := Some (?ys[mx := Null]),
      history_length := int mx, history_stifled := True, history_max_entries := int mx\<rparr>"
    have dist: "distinct as" using h by (simp add: hist_holds_def)
    have d: "int ?n - int mx = int ?d" "nat (int ?n - int mx) = ?d" using True by simp_all
    have f: "free_entries ?d 0 h = Some (h\<lparr>heap := ?heap\<rparr>)"
      using free_entries_run [OF xs _ len(4), of 0 ?d] len(1) dist hist_holds_heap [OF h] by fastforce
    have c: "copy_slots mx 0 (int ?n - int mx) xs = Some ?ys"
      unfolding d(1) using copy_slots_down [of 0 ?d mx xs] True len(1) slots_not_uninit [OF h xs] by simp
    have l: "mx < length xs" "length ?ys = length xs" "int mx < int ?n" using True len(1) by simp_all
    have run: "stifle_history lim h = Some ?h"
      unfolding stifle_history_def mx Let_def hl move_slots_def write_slot_def set_slot_def if_P [OF l(3)] d(2)
      using f c l(1,2) xs by simp
    have "slots_hold ?h (drop ?d as)"
      by (rule slots_holdI [of _ "?ys[mx := Null]"])
        (use True len in \<open>auto simp: nth_append nth_list_update min_def\<close>)
    moreover have "\<forall>a\<in>set (drop ?d as). ?heap a = heap h a"
      using set_take_disj_set_drop_if_distinct [OF dist, of ?d ?d] by auto
    ultimately have "hist_holds ?h (drop ?d as)" "abs_entries ?h = map (the \<circ> heap h) (drop ?d as)"
      using set_slots_holds [OF h, of ?h "drop ?d as"] True dist h
      by (auto simp: hist_holds_def dest: in_set_dropD)
    then show ?thesis
      unfolding refined_at_def spec using True run abs_entries_holds [OF h]
      by (auto simp: done_with_def hist_inv_def hist_abs_def drop_map)
  qed
qed

lemma clear_slots_run:
  "the_history h = Some xs \<Longrightarrow> length as \<le> length xs \<Longrightarrow> \<forall>i<length as. k \<le> i \<longrightarrow> xs ! i = Entry (as ! i) \<Longrightarrow>
   k + n \<le> length as \<Longrightarrow> distinct as \<Longrightarrow> \<forall>a\<in>set (drop k as). heap h a \<noteq> None \<Longrightarrow>
   \<exists>hp. clear_slots n (int k) h =
     Some (h\<lparr>heap := hp, the_history := Some (take k xs @ replicate n Null @ drop (k + n) xs)\<rparr>)"
proof (induction n arbitrary: k h xs)
  case 0
  then show ?case by (auto intro: exI [of _ "heap h"])
next
  case (Suc n)
  have k: "drop k as = as ! k # drop (Suc k) as" "k < length xs" "xs ! k = Entry (as ! k)"
    using Suc.prems by (simp_all add: Cons_nth_drop_Suc)
  obtain e where e: "heap h (as ! k) = Some e" using Suc.prems(6) k(1) by auto
  let ?h1 = "h\<lparr>heap := (heap h)(as ! k := None), the_history := Some (xs[k := Null])\<rparr>"
  have notin: "as ! k \<notin> set (drop (Suc k) as)"
    using distinct_drop [OF Suc.prems(5), of k] k(1) by simp
  have "\<exists>hp. clear_slots n (int (Suc k)) ?h1 = Some (?h1\<lparr>heap := hp,
      the_history := Some (take (Suc k) (xs[k := Null]) @ replicate n Null @ drop (Suc k + n) (xs[k := Null]))\<rparr>)"
    by (rule Suc.IH) (use Suc.prems notin k(1) in auto)
  then obtain hp where "clear_slots n (int (Suc k)) ?h1 = Some (?h1\<lparr>heap := hp,
      the_history := Some (take (Suc k) (xs[k := Null]) @ replicate n Null @ drop (Suc k + n) (xs[k := Null]))\<rparr>)"
    by blast
  moreover have "take (Suc k) (xs[k := Null]) = take k xs @ [Null]"
    using k(2) by (simp add: take_Suc_conv_app_nth)
  ultimately show ?case
    using free_entry_at [OF Suc.prems(1) k(2,3) e] k(2) Suc.prems(1)
    by (auto simp: add.commute write_slot_def set_slot_def)
qed

lemma clear_history_spec:
  assumes h: "hist_holds h as"
  shows "refined_at H_clear h"
proof -
  have hl: "history_length h = int (length as)" using h by (simp add: hist_holds_def)
  have "\<exists>h'. clear_history h = Some h' \<and> hist_holds h' [] \<and> history_offset h' = 0 \<and> history_base h' = history_base h \<and>
      history_max_entries h' = history_max_entries h \<and> history_stifled h' = history_stifled h"
  proof (cases "the_history h")
    case None
    then show ?thesis
      using h by (auto simp: clear_history_def hist_holds_def slots_hold_def)
  next
    case (Some xs)
    note len = slots_length [OF h Some]
    have dist: "distinct as" using h by (simp add: hist_holds_def)
    let ?ys = "replicate (length as) Null @ drop (length as) xs"
    obtain hp where "clear_slots (length as) 0 h = Some (h\<lparr>heap := hp, the_history := Some ?ys\<rparr>)"
      using clear_slots_run [OF Some _ _ _ dist, of 0 "length as"] len hist_holds_heap [OF h] by fastforce
    moreover have "?ys ! 0 = Null" "?ys \<noteq> []"
      using len(1,5) by (cases "as = []", simp_all add: nth_append)
    ultimately show ?thesis
      using h len(1,2) hl by (auto simp: clear_history_def hist_holds_def intro!: slots_holdI)
  qed
  then show ?thesis
    by (auto simp: refined_at_def done_with_def hist_inv_def hist_abs_def abs_entries_holds)
qed

section \<open>Changing entries\<close>

text \<open>One entry of the list gets another content, at the same address.\<close>

lemma set_entry_holds:
  assumes h: "hist_holds h as" and i: "i < length as" and e: "he_line e \<noteq> None" "he_timestamp e \<noteq> None"
  defines "h' \<equiv> h\<lparr>heap := (heap h)(as ! i \<mapsto> e)\<rparr>"
  shows "hist_holds h' as" "abs_entries h' = (abs_entries h)[i := e]"
proof -
  have dist: "distinct as" using h by (simp add: hist_holds_def)
  show h': "hist_holds h' as"
    using h e by (auto simp: h'_def hist_holds_def slots_hold_def entry_ok_def split: option.splits)
  have "map (the \<circ> heap h') as = (map (the \<circ> heap h) as)[i := e]"
  proof (rule nth_equalityI)
    fix j
    assume "j < length (map (the \<circ> heap h') as)"
    then show "map (the \<circ> heap h') as ! j = (map (the \<circ> heap h) as)[i := e] ! j"
      using i nth_eq_iff_index_eq [OF dist, of j i] by (simp add: h'_def nth_list_update)
  qed simp
  then show "abs_entries h' = (abs_entries h)[i := e]"
    using abs_entries_holds [OF h'] abs_entries_holds [OF h] by simp
qed

lemma abs_entries_nth: "hist_holds h as \<Longrightarrow> i < length as \<Longrightarrow> heap h (as ! i) = Some (abs_entries h ! i)"
  using hist_holds_heap [of h as "as ! i"] by (auto simp: abs_entries_holds)

lemma abs_entries_ok:
  "hist_holds h as \<Longrightarrow> i < length as \<Longrightarrow> he_line (abs_entries h ! i) \<noteq> None \<and> he_timestamp (abs_entries h ! i) \<noteq> None"
  using hist_holds_heap [of h as "as ! i"] by (auto simp: abs_entries_holds)

lemma read_slot_nth:
  "hist_holds h as \<Longrightarrow> i < length as \<Longrightarrow> read_slot h (int i) = Some (Entry (as ! i))"
  using read_slot_holds [of h as "int i"] by (cases as) auto

lemma set_data_holds:
  assumes h: "hist_holds h as" and i: "i < length as"
  shows "\<exists>hp. set_data (int i) new h = Some (h\<lparr>heap := hp\<rparr>) \<and> hist_holds (h\<lparr>heap := hp\<rparr>) as \<and>
    abs_entries (h\<lparr>heap := hp\<rparr>) = (abs_entries h)[i := (abs_entries h ! i)\<lparr>he_data := new\<rparr>]"
  using set_entry_holds [OF h i, of "(abs_entries h ! i)\<lparr>he_data := new\<rparr>"] abs_entries_ok [OF h i]
  by (auto simp: set_data_def read_slot_nth [OF h i] abs_entries_nth [OF h i])

lemma has_data_holds:
  assumes h: "hist_holds h as" and i: "i < length as"
  shows "has_data (int i) old h = Some (he_data (abs_entries h ! i) = old)"
  by (simp add: has_data_def read_slot_nth [OF h i] entry_of_def abs_entries_nth [OF h i])

definition renew :: "nat \<Rightarrow> nat \<Rightarrow> hist_entry \<Rightarrow> hist_entry" where
  "renew old new e = (if he_data e = old then e\<lparr>he_data := new\<rparr> else e)"

lemma replace_all_loop:
  "hist_holds h as \<Longrightarrow> k + n = length as \<Longrightarrow>
   \<exists>latest' hp. replace_data_loop n (int k) (- 1) old new latest h = Some (latest', h\<lparr>heap := hp\<rparr>) \<and>
     hist_holds (h\<lparr>heap := hp\<rparr>) as \<and>
     abs_entries (h\<lparr>heap := hp\<rparr>) = take k (abs_entries h) @ map (renew old new) (drop k (abs_entries h))"
proof (induction n arbitrary: k h latest)
  case 0
  then show ?case
    by (auto intro!: exI [of _ "heap h"] simp: abs_entries_length)
next
  case (Suc n)
  have k: "k < length as" "k < length (abs_entries h)" using Suc.prems by (simp_all add: abs_entries_length)
  let ?es = "abs_entries h"
  obtain hp where hp: "(if he_data (?es ! k) = old then set_data (int k) new h else Some h) = Some (h\<lparr>heap := hp\<rparr>)"
    "hist_holds (h\<lparr>heap := hp\<rparr>) as" "abs_entries (h\<lparr>heap := hp\<rparr>) = ?es[k := renew old new (?es ! k)]"
  proof (cases "he_data (?es ! k) = old")
    case True
    then show ?thesis using that set_data_holds [OF Suc.prems(1) k(1), of new] by (auto simp: renew_def)
  next
    case False
    then show ?thesis using that [of "heap h"] Suc.prems(1) by (simp add: renew_def)
  qed
  have eq: "take (Suc k) (?es[k := renew old new (?es ! k)]) @
        map (renew old new) (drop (Suc k) (?es[k := renew old new (?es ! k)])) =
      take k ?es @ map (renew old new) (drop k ?es)"
    using k(2) by (simp add: take_Suc_conv_app_nth Cons_nth_drop_Suc [symmetric])
  show ?case
    using Suc.IH [OF hp(2), of "Suc k" latest] Suc.IH [OF hp(2), of "Suc k" "int k"] Suc.prems(2) hp(1,3) eq
    by (cases "he_data (?es ! k) = old")
      (auto simp: has_data_holds [OF Suc.prems(1) k(1)] add.commute)
qed

lemma replace_find_loop:
  "hist_holds h as \<Longrightarrow> k + n = length as \<Longrightarrow> which \<noteq> - 1 \<Longrightarrow>
   replace_data_loop n (int k) which old new latest h =
     Some (let hits = filter (\<lambda>i. he_data (abs_entries h ! i) = old) [k..<length as]
           in if hits = [] then latest else int (last hits), h)"
proof (induction n arbitrary: k latest)
  case 0
  then show ?case by simp
next
  case (Suc n)
  then have "[k..<length as] = k # [Suc k..<length as]" by (simp add: upt_conv_Cons)
  then show ?case
    using Suc.IH [of "Suc k" latest] Suc.IH [of "Suc k" "int k"] Suc.prems
    by (simp add: has_data_holds Let_def add.commute)
qed

lemma spec_replace_data_simps:
  "spec_replace_data (- 1) old new es = map (renew old new) es"
  "0 \<le> i \<Longrightarrow> spec_replace_data i old new es = (if i < int (length es) then es[nat i := renew old new (es ! nat i)] else es)"
  "spec_replace_data (- 2) old new es =
     (let hits = filter (\<lambda>i. he_data (es ! i) = old) [0..<length es]
      in if hits = [] then es else es[last hits := (es ! last hits)\<lparr>he_data := new\<rparr>])"
  by (auto simp: spec_replace_data_def renew_def Let_def nth_list_update nat_eq_iff intro!: nth_equalityI)

text \<open>A change of the heap alone, seen from outside.\<close>

lemma refined_at_heap:
  assumes "hist_step x h = Some (fst (hist_spec_step x (hist_abs h)), h\<lparr>heap := hp\<rparr>)"
    and "hist_holds (h\<lparr>heap := hp\<rparr>) as"
    and "snd (hist_spec_step x (hist_abs h)) = (hist_abs h)\<lparr>hs_entries := abs_entries (h\<lparr>heap := hp\<rparr>)\<rparr>"
  shows "refined_at x h"
  unfolding refined_at_def using assms by (auto simp: hist_inv_def hist_abs_def)

lemma heap_same [simp]: "h\<lparr>heap := heap h\<rparr> = h"
  by simp

lemma replace_data_spec:
  assumes h: "hist_holds h as"
  shows "refined_at (H_replace_data which old new) h"
proof -
  let ?es = "abs_entries h"
  have len: "history_length h = int (length as)" using h by (simp add: hist_holds_def)
  note al = abs_entries_length [OF h]
  have same: "refined_at (H_replace_data which old new) h"
    if "replace_history_data which old new h = Some h"
      "which < - 2 \<or> spec_replace_data which old new ?es = ?es"
    using that h by (intro refined_at_heap [of _ _ "heap h"]) (auto simp: done_with_def hist_abs_def)
  have heap: "refined_at (H_replace_data which old new) h"
    if "- 2 \<le> which" "replace_history_data which old new h = Some (h\<lparr>heap := hp\<rparr>)"
      "hist_holds (h\<lparr>heap := hp\<rparr>) as" "abs_entries (h\<lparr>heap := hp\<rparr>) = spec_replace_data which old new ?es" for hp
    using that by (intro refined_at_heap [of _ _ hp]) (auto simp: done_with_def)
  consider (skip) "which < - 2 \<or> int (length as) \<le> which \<or> as = []"
    | (one) "0 \<le> which" "which < int (length as)" | (all_hits) "which = - 1" "as \<noteq> []" | (newest) "which = - 2" "as \<noteq> []"
    by linarith
  then show ?thesis
  proof cases
    case skip
    then have "replace_history_data which old new h = Some h" by (auto simp: replace_history_data_def len)
    moreover have "which < - 2 \<or> spec_replace_data which old new ?es = ?es"
      using skip al spec_replace_data_simps(2) [of which old new ?es]
      by (cases "0 \<le> which") (auto simp: spec_replace_data_def Let_def)
    ultimately show ?thesis by (rule same)
  next
    case one
    then have i: "nat which < length as" "int (nat which) = which" by auto
    have run: "replace_history_data which old new h =
        (if he_data (?es ! nat which) = old then set_data which new h else Some h)"
    proof -
      have ne: "as \<noteq> []" using one by auto
      then obtain xs where "the_history h = Some xs" using array_of [OF h] by fastforce
      then show ?thesis
        using one ne has_data_holds [OF h i(1), of old] by (simp add: replace_history_data_def len i(2))
    qed
    show ?thesis
    proof (cases "he_data (?es ! nat which) = old")
      case True
      then show ?thesis
        using set_data_holds [OF h i(1), of new] one run heap i(2) al
        by (auto simp: spec_replace_data_simps renew_def)
    next
      case False
      then show ?thesis using run one by (intro same) (simp_all add: spec_replace_data_simps renew_def)
    qed
  next
    case all_hits
    obtain l hp where "replace_data_loop (length as) 0 (- 1) old new (- 1) h = Some (l, h\<lparr>heap := hp\<rparr>)"
      "hist_holds (h\<lparr>heap := hp\<rparr>) as" "abs_entries (h\<lparr>heap := hp\<rparr>) = map (renew old new) ?es"
      using replace_all_loop [OF h, of 0 "length as" old new "- 1"] by auto
    then show ?thesis
      using all_hits array_of [OF h]
      by (intro heap [of hp]) (auto simp: replace_history_data_def len spec_replace_data_simps)
  next
    case newest
    let ?hits = "filter (\<lambda>i. he_data (?es ! i) = old) [0..<length as]"
    have loop: "replace_data_loop (length as) 0 which old new (- 1) h =
        Some (if ?hits = [] then - 1 else int (last ?hits), h)"
      using replace_find_loop [OF h, of 0 "length as" which old new "- 1"] newest by (simp add: Let_def)
    show ?thesis
    proof (cases "?hits = []")
      case True
      then show ?thesis
        using newest loop array_of [OF h]
        by (intro same) (auto simp: replace_history_data_def len spec_replace_data_simps al)
    next
      case False
      have i: "last ?hits < length as" using last_in_set [OF False] by simp
      obtain hp where "set_data (int (last ?hits)) new h = Some (h\<lparr>heap := hp\<rparr>)" "hist_holds (h\<lparr>heap := hp\<rparr>) as"
        "abs_entries (h\<lparr>heap := hp\<rparr>) = ?es[last ?hits := (?es ! last ?hits)\<lparr>he_data := new\<rparr>]"
        using set_data_holds [OF h i] by blast
      then show ?thesis
        using newest loop array_of [OF h] False
        by (intro heap [of hp]) (auto simp: replace_history_data_def len spec_replace_data_simps al Let_def)
    qed
  qed
qed

lemma butlast_snoc_update: "xs \<noteq> [] \<Longrightarrow> butlast xs @ [y] = xs[length xs - 1 := y]"
  by (metis append_butlast_last_id list_update_length length_butlast)

lemma add_time_spec:
  assumes h: "hist_holds h as"
  shows "refined_at (H_add_time ts) h"
proof (cases "ts = None \<or> as = []")
  case True
  then have "add_history_time ts h = Some h" "ts = None \<or> abs_entries h = []"
    using h abs_entries_length [OF h]
    by (auto simp: add_history_time_def hist_holds_def abs_entries_holds split: option.split)
  then show ?thesis
    using h by (intro refined_at_heap [of _ _ "heap h"]) (auto simp: done_with_def hist_abs_def)
next
  case False
  let ?i = "length as - 1"
  let ?e = "(abs_entries h ! ?i)\<lparr>he_timestamp := ts\<rparr>"
  obtain t0 where ts: "ts = Some t0" using False by auto
  have i: "?i < length as" "history_length h - 1 = int ?i" "\<not> history_length h < 1"
    using False h by (auto simp: hist_holds_def of_nat_diff Suc_le_eq)
  have ne: "abs_entries h \<noteq> []" using False abs_entries_length [OF h] by auto
  have "add_history_time ts h = Some (h\<lparr>heap := (heap h)(as ! ?i \<mapsto> ?e)\<rparr>)"
    using i(3) ts read_slot_nth [OF h i(1)] abs_entries_nth [OF h i(1)] unfolding add_history_time_def i(2)
    by simp
  moreover have "he_line ?e \<noteq> None" "he_timestamp ?e \<noteq> None" using abs_entries_ok [OF h i(1)] ts by simp_all
  ultimately show ?thesis
    using set_entry_holds [OF h i(1), of ?e] False ne ts
    by (intro refined_at_heap [of _ _ "(heap h)(as ! ?i \<mapsto> ?e)"])
      (simp_all add: done_with_def butlast_snoc_update abs_entries_length [OF h] last_conv_nth)
qed

text \<open>An entry of the list is replaced by a new one; the old one stays allocated.\<close>

lemma replace_entry_run:
  assumes h: "hist_holds h as" and k: "k < length as"
  obtains h' where "replace_history_entry (int k) l d h = Some (Entry (as ! k), h')"
    and "hist_holds h' (as[k := next_addr h])" and "as ! k \<notin> set (as[k := next_addr h])"
    and "heap h' (as ! k) = Some (abs_entries h ! k)"
    and "abs_entries h' = (abs_entries h)[k := \<lparr>he_line = Some l, he_timestamp = he_timestamp (abs_entries h ! k), he_data = d\<rparr>]"
    and "hist_abs h' = (hist_abs h)\<lparr>hs_entries := abs_entries h'\<rparr>" "history_length h' = history_length h"
proof -
  let ?new = "next_addr h"
  obtain xs where xs: "the_history h = Some xs" using array_of [OF h] k by fastforce
  note len = slots_length [OF h xs]
  obtain ts where ts: "he_timestamp (abs_entries h ! k) = Some ts" using abs_entries_ok [OF h k] by auto
  let ?e = "\<lparr>he_line = Some l, he_timestamp = Some ts, he_data = d\<rparr>"
  let ?h = "h\<lparr>heap := (heap h)(?new \<mapsto> ?e), next_addr := Suc ?new, the_history := Some (xs[k := Entry ?new])\<rparr>"
  let ?bs = "as[k := ?new]"
  have dist: "distinct as" and fresh: "?new \<notin> set as" using h by (auto simp: hist_holds_def entry_ok_def)
  then have ne: "as ! k \<noteq> ?new" using k by (metis nth_mem)
  have "read_slot h (int k) = Some (Entry (as ! k))" by (rule read_slot_nth [OF h k])
  moreover have "entry_of h (Entry (as ! k)) = Some (Some (abs_entries h ! k))"
    by (simp add: entry_of_def abs_entries_nth [OF h k])
  ultimately have run: "replace_history_entry (int k) l d h = Some (Entry (as ! k), ?h)"
    using len(1,3) k xs ts h
    by (simp add: replace_history_entry_def alloc_entry_def write_slot_def set_slot_def not_less not_le hist_holds_def)
  have "slots_hold ?h ?bs"
    by (rule slots_holdI [of _ "xs[k := Entry ?new]"]) (use len k in \<open>auto simp: nth_list_update\<close>)
  then have holds: "hist_holds ?h ?bs"
    using h fresh unfolding hist_holds_def
    by (auto simp: entry_ok_def distinct_list_update less_Suc_eq dest!: set_update_subset_insert [THEN subsetD])
  have "map (the \<circ> heap ?h) as = abs_entries h"
    using fresh by (auto simp: abs_entries_holds [OF h])
  then have ents: "abs_entries ?h = (abs_entries h)[k := ?e]"
    using abs_entries_holds [OF holds] by (simp add: map_update)
  have "as ! k \<notin> set ?bs"
  proof
    assume "as ! k \<in> set ?bs"
    then obtain j where j: "j < length as" "?bs ! j = as ! k" by (auto simp: in_set_conv_nth)
    then show False using dist k ne by (cases "j = k") (auto simp: nth_eq_iff_index_eq)
  qed
  moreover have "heap ?h (as ! k) = Some (abs_entries h ! k)" using abs_entries_nth [OF h k] ne by simp
  ultimately show ?thesis by (intro that [OF run holds]) (use ents ts in \<open>simp_all add: hist_abs_def\<close>)
qed

lemma replace_entry_spec:
  assumes h: "hist_holds h as"
  shows "refined_at (H_replace i l d) h"
proof (cases "0 \<le> i \<and> i < int (length as)")
  case False
  then have "replace_history_entry i l d h = Some (Null, h)" "item (hist_abs h) i = None"
    using h by (auto simp: replace_history_entry_def hist_holds_def item_holds [OF h])
  then show ?thesis using h by (auto simp: refined_at_def observe_def entry_of_def hist_inv_def)
next
  case True
  let ?k = "nat i"
  have k: "?k < length as" "int ?k = i" "?k < length (abs_entries h)" using True abs_entries_length [OF h] by auto
  obtain h' where h': "replace_history_entry i l d h = Some (Entry (as ! ?k), h')" "hist_holds h' (as[?k := next_addr h])"
    "heap h' (as ! ?k) = Some (abs_entries h ! ?k)" "hist_abs h' = (hist_abs h)\<lparr>hs_entries := abs_entries h'\<rparr>"
    "abs_entries h' = (abs_entries h)[?k := \<lparr>he_line = Some l, he_timestamp = he_timestamp (abs_entries h ! ?k), he_data = d\<rparr>]"
    by (rule replace_entry_run [OF h k(1), of l d]) (use k(2) in simp)
  have "item (hist_abs h) i = Some (abs_entries h ! ?k)" using True k(3) by (simp add: item_def)
  then show ?thesis
    using h' unfolding refined_at_def by (auto simp: observe_def entry_of_def hist_inv_def)
qed

lemma total_bytes_run:
  "hist_holds h as \<Longrightarrow> the_history h \<noteq> None \<Longrightarrow> k + n = length as \<Longrightarrow> n < fuel \<Longrightarrow>
   total_bytes_from fuel (int k) result h =
     Some (result + sum_list (map entry_bytes (drop k (abs_entries h))))"
proof (induction n arbitrary: k fuel result)
  case 0
  then obtain f where "fuel = Suc f" by (cases fuel) auto
  then show ?case
    using read_slot_holds [OF 0(1), of "int k"] 0 abs_entries_length [OF 0(1)] by (simp add: entry_of_def)
next
  case (Suc n)
  note h = Suc.prems(1)
  obtain f where f: "fuel = Suc f" "n < f" using Suc.prems(4) by (cases fuel) auto
  have k: "k < length as" "k < length (abs_entries h)" using Suc.prems abs_entries_length [OF h] by auto
  obtain l ts where e: "he_line (abs_entries h ! k) = Some l" "he_timestamp (abs_entries h ! k) = Some ts"
    using abs_entries_ok [OF h k(1)] by auto
  have "drop k (abs_entries h) = abs_entries h ! k # drop (Suc k) (abs_entries h)"
    using k(2) by (simp add: Cons_nth_drop_Suc)
  then show ?case
    using Suc.IH [OF h Suc.prems(2) _ f(2), of "Suc k"] Suc.prems(3) f(1) e
    by (simp add: read_slot_nth [OF h k(1)] entry_of_def abs_entries_nth [OF h k(1)] entry_bytes_def add.commute
        add.left_commute)
qed

lemma total_bytes_spec:
  assumes h: "hist_holds h as"
  shows "refined_at H_total_bytes h"
proof -
  have "history_total_bytes h = Some (sum_list (map entry_bytes (abs_entries h)))"
  proof (cases "the_history h")
    case None
    then show ?thesis
      using h by (auto simp: history_total_bytes_def abs_entries_holds hist_holds_def slots_hold_def)
  next
    case (Some xs)
    then show ?thesis
      using total_bytes_run [OF h, of 0 "length as" "length xs" 0] slots_length(1) [OF h Some]
      by (simp add: history_total_bytes_def)
  qed
  then show ?thesis using h by (auto simp: refined_at_def hist_inv_def)
qed

lemma remove_entry_spec:
  assumes h: "hist_holds h as"
  shows "refined_at (H_remove i) h"
proof (cases "0 \<le> i \<and> i < int (length as)")
  case False
  then have "remove_history i h = Some (Null, h)" "item (hist_abs h) i = None"
    using h by (auto simp: remove_history_def hist_holds_def item_holds [OF h])
  then show ?thesis using h by (auto simp: refined_at_def observe_def entry_of_def hist_inv_def)
next
  case True
  let ?bs = "take (nat i) as @ drop (Suc (nat i)) as"
  obtain h' where h': "remove_history i h = Some (Entry (as ! nat i), h')" "hist_holds h' ?bs" "heap h' = heap h"
    "history_offset h' = history_offset h" "history_base h' = history_base h"
    "history_max_entries h' = history_max_entries h" "history_stifled h' = history_stifled h"
    using remove_history_spec [OF h, of i] True by blast
  have i: "nat i < length as" "nat i < length (abs_entries h)" using True abs_entries_length [OF h] by auto
  have "entry_of h' (Entry (as ! nat i)) = Some (Some (abs_entries h ! nat i))"
    by (simp add: entry_of_def h'(3) abs_entries_nth [OF h i(1)])
  moreover have "item (hist_abs h) i = Some (abs_entries h ! nat i)" using True i(2) by (simp add: item_def)
  moreover have "abs_entries h' = take (nat i) (abs_entries h) @ drop (Suc (nat i)) (abs_entries h)"
    by (simp add: abs_entries_holds [OF h'(2)] abs_entries_holds [OF h] h'(3) take_map drop_map)
  ultimately show ?thesis
    using h' by (auto simp: refined_at_def observe_def hist_inv_def hist_abs_def)
qed

lemma unstifle_spec:
  assumes h: "hist_holds h as"
  shows "refined_at H_unstifle h"
proof -
  have "hist_holds (h\<lparr>history_stifled := False\<rparr>) as"
    using h by (auto simp: hist_holds_def slots_hold_def entry_ok_def split: option.splits)
  moreover from this have "abs_entries (h\<lparr>history_stifled := False\<rparr>) = abs_entries h"
    using h by (simp add: abs_entries_holds)
  ultimately show ?thesis
    using h by (auto simp: refined_at_def unstifle_history_def hist_inv_def hist_abs_def)
qed

lemma hist_step_refines:
  assumes "hist_inv h" and "hist_ok x (hist_abs h)"
  shows "refined_at x h"
proof -
  from assms(1) obtain as where h: "hist_holds h as" by (auto simp: hist_inv_def)
  show ?thesis
  proof (cases x)
    case (H_add now l)
    then show ?thesis
      using add_history_spec [OF assms(1), of now l] by (auto simp: refined_at_def done_with_def Let_def)
  qed (use assms(2) h in \<open>simp_all add: position_steps replace_data_spec add_time_spec replace_entry_spec
      remove_entry_spec stifle_history_spec unstifle_spec clear_history_spec total_bytes_spec\<close>)
qed

interpretation hist: simulated_machine hist_inv hist_abs hist_step hist_spec_step hist_ok
  by unfold_locales (use hist_step_refines in \<open>unfold refined_at_def, blast\<close>)

lemma fresh_history_inv: "hist_inv fresh_history"
  by (auto simp: hist_inv_def hist_holds_def slots_hold_def fresh_history_def)

text \<open>The time stamp of a new entry is read back as the time it was added at.\<close>

lemma history_time_roundtrip:
  assumes "heap h a = Some e" and "he_timestamp e = Some (hist_inittime c t)" and "int t \<le> INTMAX_MAX"
  shows "history_get_time c (Entry a) h = Some (int t)"
proof -
  have "strtoimax ([] @ [] @ decimal_digits t @ []) = (int t, Some [], False)"
    using assms(3) decimal_digits_facts [of t] by (intro strtoimax_parts) (auto simp: intmax_ok_def int_limits)
  then show ?thesis
    using assms(1,2) by (simp add: history_get_time_def entry_of_def hist_inittime_def)
qed

section \<open>Sequences of operations\<close>

primrec hist_runs :: "hist_op list \<Rightarrow> history \<Rightarrow> (hist_result list \<times> history) option" where
  "hist_runs [] h = Some ([], h)"
| "hist_runs (x # xs) h = do { (r, h1) \<leftarrow> hist_step x h; (rs, h2) \<leftarrow> hist_runs xs h1; Some (r # rs, h2) }"

primrec hist_spec_runs :: "hist_op list \<Rightarrow> hist_spec \<Rightarrow> hist_result list \<times> hist_spec" where
  "hist_spec_runs [] s = ([], s)"
| "hist_spec_runs (x # xs) s =
     (case hist_spec_step x s of (r, s1) \<Rightarrow> case hist_spec_runs xs s1 of (rs, s2) \<Rightarrow> (r # rs, s2))"

primrec hist_allowed :: "hist_op list \<Rightarrow> hist_spec \<Rightarrow> bool" where
  "hist_allowed [] s = True"
| "hist_allowed (x # xs) s = (hist_ok x s \<and> hist_allowed xs (snd (hist_spec_step x s)))"

lemma hist_runs_machine:
  "hist_runs xs h = hist.runs xs h" "hist_spec_runs xs s = hist.spec_runs xs s" "hist_allowed xs s = hist.allowed xs s"
proof -
  show "hist_runs xs h = hist.runs xs h"
    by (induction xs arbitrary: h) (simp_all cong: Option.bind_cong)
  show "hist_spec_runs xs s = hist.spec_runs xs s"
    by (induction xs arbitrary: s) (simp_all add: case_prod_beta)
  show "hist_allowed xs s = hist.allowed xs s"
    by (induction xs arbitrary: s) simp_all
qed

lemma hist_runs_refine:
  "hist_inv h \<Longrightarrow> hist_allowed xs (hist_abs h) \<Longrightarrow>
   \<exists>h'. hist_runs xs h = Some (fst (hist_spec_runs xs (hist_abs h)), h') \<and> hist_inv h' \<and>
     hist_abs h' = snd (hist_spec_runs xs (hist_abs h))"
  unfolding hist_runs_machine by (rule hist.runs_refines)

text \<open>Adding lines to a limited list, on the abstract side.\<close>

lemma spec_adds:
  assumes "hs_limited s" and "hs_limit s = int m" and "0 < m" and "length (hs_entries s) \<le> m"
  shows "snd (hist_spec_runs (map (H_add now) ls) s) =
    s\<lparr>hs_entries := drop (length (hs_entries s) + length ls - m)
        (hs_entries s @ map (\<lambda>l. \<lparr>he_line = Some l, he_timestamp = Some now, he_data = 0\<rparr>) ls),
      hs_base := hs_base s + int (length (hs_entries s) + length ls - m)\<rparr>"
  using assms
proof (induction ls arbitrary: s)
  case Nil
  then show ?case by simp
next
  case (Cons l ls)
  let ?e = "\<lparr>he_line = Some l, he_timestamp = Some now, he_data = 0\<rparr>"
  define s1 where "s1 = snd (hist_spec_step (H_add now l) s)"
  have "snd (hist_spec_runs (map (H_add now) (l # ls)) s) = snd (hist_spec_runs (map (H_add now) ls) s1)"
    by (simp add: case_prod_beta Let_def s1_def)
  moreover have "hs_limited s1" "hs_limit s1 = int m" "length (hs_entries s1) \<le> m"
    using Cons.prems by (auto simp: Let_def s1_def)
  ultimately have eq: "snd (hist_spec_runs (map (H_add now) (l # ls)) s) =
    s1\<lparr>hs_entries := drop (length (hs_entries s1) + length ls - m)
        (hs_entries s1 @ map (\<lambda>l. \<lparr>he_line = Some l, he_timestamp = Some now, he_data = 0\<rparr>) ls),
      hs_base := hs_base s1 + int (length (hs_entries s1) + length ls - m)\<rparr>"
    using Cons.IH [of s1] Cons.prems(3) by simp
  show ?case
  proof (cases "length (hs_entries s) = m")
    case False
    then have "s1 = s\<lparr>hs_entries := hs_entries s @ [?e]\<rparr>"
      using Cons.prems by (simp add: Let_def s1_def)
    then show ?thesis unfolding eq by simp
  next
    case True
    then have ne: "hs_entries s \<noteq> []" using Cons.prems(3) by auto
    then have "s1 = s\<lparr>hs_entries := tl (hs_entries s) @ [?e], hs_base := hs_base s + 1\<rparr>"
      using Cons.prems True by (simp add: Let_def s1_def)
    then show ?thesis
      unfolding eq using True [symmetric] ne by (cases "hs_entries s") simp_all
  qed
qed

section \<open>Past the end\<close>

primrec nexts :: "nat \<Rightarrow> history \<Rightarrow> history option" where
  "nexts 0 h = Some h"
| "nexts (Suc n) h = do { (_, h1) \<leftarrow> next_history h; nexts n h1 }"

lemma nexts_past_end:
  "history_length h < history_offset h \<Longrightarrow> the_history h = Some xs \<Longrightarrow> nexts n h = Some h' \<Longrightarrow> 0 < n \<Longrightarrow>
   history_offset h + int n < int (length xs)"
proof (induction n arbitrary: h)
  case 0
  then show ?case by simp
next
  case (Suc n)
  let ?h = "h\<lparr>history_offset := history_offset h + 1\<rparr>"
  obtain p where p: "read_slot h (history_offset h + 1) = Some p"
    using Suc.prems(1,3) by (cases "read_slot h (history_offset h + 1)") (auto simp: next_history_def)
  then have "nexts n ?h = Some h'" "history_offset h + 1 < int (length xs)"
    using Suc.prems by (auto simp: next_history_def read_slot_def slot_at_def split: if_splits)
  then show ?case
    using Suc.IH [of ?h] Suc.prems(1,2) by (cases n) auto
qed

lemma nexts_run_off:
  assumes "history_length h < history_offset h" and "hist_inv h"
  shows "\<exists>n. nexts n h = None"
proof (cases "the_history h")
  case None
  then have "nexts 1 h = None" using assms(1) by (simp add: next_history_def read_slot_def)
  then show ?thesis by blast
next
  case (Some xs)
  obtain as where "hist_holds h as" using assms(2) by (auto simp: hist_inv_def)
  then have "0 \<le> history_offset h" by (simp add: hist_holds_def)
  then have "nexts (Suc (length xs)) h = None"
    using nexts_past_end [OF assms(1) Some, of "Suc (length xs)"]
    by (cases "nexts (Suc (length xs)) h") auto
  then show ?thesis by blast
qed

section \<open>Properties\<close>

text \<open>
  C33. Any sequence of operations on a new history, in which the position is followed only while
  it is not past the end, stays inside the array, never reads an uninitialised slot or a freed
  entry, and does, results included, what it does on a bounded list of entries.
\<close>

theorem history_refines_list:
  assumes "hist_allowed ops \<lparr>hs_entries = [], hs_pos = 0, hs_base = 1, hs_limit = 0, hs_limited = False\<rparr>"
  shows "\<exists>h'. hist_runs ops fresh_history =
      Some (fst (hist_spec_runs ops \<lparr>hs_entries = [], hs_pos = 0, hs_base = 1, hs_limit = 0, hs_limited = False\<rparr>), h') \<and>
    hist_inv h' \<and>
    hist_abs h' =
      snd (hist_spec_runs ops \<lparr>hs_entries = [], hs_pos = 0, hs_base = 1, hs_limit = 0, hs_limited = False\<rparr>)"
proof -
  have "hist_abs fresh_history = \<lparr>hs_entries = [], hs_pos = 0, hs_base = 1, hs_limit = 0, hs_limited = False\<rparr>"
    by (simp add: hist_abs_def abs_entries_def hist_addrs_def fresh_history_def)
  then show ?thesis
    using hist_runs_refine [OF fresh_history_inv, of ops] assms by simp
qed

theorem history_refines_list_witness:
  "\<exists>h' e. hist_runs [H_add ''#1'' ''ls'', H_add ''#2'' ''pwd'', H_using, H_previous, H_stifle 1, H_using, H_get 1] fresh_history =
      Some ([R_none, R_none, R_none, R_entry (Some e), R_none, R_none, R_entry (Some e)], h') \<and>
    he_line e = Some ''pwd''"
  using history_refines_list
    [of "[H_add ''#1'' ''ls'', H_add ''#2'' ''pwd'', H_using, H_previous, H_stifle 1, H_using, H_get 1]"]
  by (auto simp: Let_def item_def)

text \<open>
  A history limited to \<open>m > 0\<close> lines from the start keeps the last \<open>m\<close> lines added, and the
  number of a line never changes: \<^verbatim>\<open>history_get (i + 1)\<close> is line \<open>i\<close> as long as it is kept, and null
  afterwards.
\<close>

theorem stifled_history_window:
  assumes "0 < m"
  shows "\<exists>rs h'. hist_runs (H_stifle (int m) # map (H_add now) ls) fresh_history = Some (rs, h') \<and>
    map he_line (abs_entries h') = map Some (drop (length ls - m) ls) \<and>
    (\<forall>i<length ls. look (history_get (int i + 1) h') h' =
       Some (R_entry (if i < length ls - m then None
                      else Some \<lparr>he_line = Some (ls ! i), he_timestamp = Some now, he_data = 0\<rparr>), h'))"
proof -
  let ?e = "\<lambda>l. \<lparr>he_line = Some l, he_timestamp = Some now, he_data = 0\<rparr>"
  let ?ops = "H_stifle (int m) # map (H_add now) ls"
  let ?s = "\<lparr>hs_entries = [], hs_pos = 0, hs_base = 1, hs_limit = int m, hs_limited = True\<rparr>"
  have abs: "hist_abs fresh_history = \<lparr>hs_entries = [], hs_pos = 0, hs_base = 1, hs_limit = 0, hs_limited = False\<rparr>"
    by (simp add: hist_abs_def abs_entries_def hist_addrs_def fresh_history_def)
  have ok: "hist_allowed (map (H_add now) ls) s" for s
    by (induction ls arbitrary: s) simp_all
  have spec: "snd (hist_spec_runs ?ops (hist_abs fresh_history)) =
      ?s\<lparr>hs_entries := drop (length ls - m) (map ?e ls), hs_base := 1 + int (length ls - m)\<rparr>"
    using spec_adds [of ?s m now ls] assms by (simp add: abs case_prod_beta Let_def)
  have "hist_allowed ?ops (hist_abs fresh_history)" using ok by simp
  then obtain h' where run: "hist_runs ?ops fresh_history = Some (fst (hist_spec_runs ?ops (hist_abs fresh_history)), h')"
    and inv: "hist_inv h'" and abs': "hist_abs h' = snd (hist_spec_runs ?ops (hist_abs fresh_history))"
    using hist_runs_refine [OF fresh_history_inv, of ?ops] by blast
  have es: "abs_entries h' = drop (length ls - m) (map ?e ls)"
    using arg_cong [OF abs', of hs_entries] unfolding spec by simp
  have b: "history_base h' = 1 + int (length ls - m)"
    using arg_cong [OF abs', of hs_base] unfolding spec by simp
  have get: "look (history_get (int i + 1) h') h' = Some (R_entry (if i < length ls - m then None else Some (?e (ls ! i))), h')"
    if "i < length ls" for i
  proof -
    obtain as where h: "hist_holds h' as" using inv by (auto simp: hist_inv_def)
    obtain h2 where "look (history_get (int i + 1) h') h' = Some (R_entry (item (hist_abs h') (int i + 1 - history_base h')), h2)"
      using position_steps(7) [OF h, of "int i + 1"] by (auto simp: refined_at_def)
    moreover from this have "h2 = h'"
      by (auto simp: look_def observe_def bind_eq_Some_conv)
    moreover have "item (hist_abs h') (int i + 1 - history_base h') =
        (if i < length ls - m then None else Some (?e (ls ! i)))"
      using that by (auto simp: item_def es b nat_diff_distrib)
    ultimately show ?thesis by simp
  qed
  show ?thesis
    using run es get by (auto simp: drop_map)
qed

theorem stifled_history_window_witness:
  "\<exists>rs h'. hist_runs (H_stifle 1 # map (H_add ''#1'') [''ls'', ''pwd'']) fresh_history = Some (rs, h') \<and>
    map he_line (abs_entries h') = [Some ''pwd'']"
  using stifled_history_window [of 1 "''#1''" "[''ls'', ''pwd'']"] by auto

text \<open>
  C34. \<^verbatim>\<open>stifle_history\<close> on a longer list keeps the last \<open>m\<close> entries, but it sets the number base to
  the count of dropped entries, whatever it was, and leaves the position: when that was past the
  kept entries, \<^verbatim>\<open>next_history\<close> walks on until it reads outside the written part of the array.
\<close>

theorem stifle_history_effects:
  assumes "hist_inv h" and "0 \<le> m" and "m < history_length h"
  shows "\<exists>h'. stifle_history m h = Some h' \<and>
    abs_entries h' = drop (nat (history_length h - m)) (abs_entries h) \<and>
    history_base h' = history_length h - m \<and> history_offset h' = history_offset h \<and>
    (m < history_offset h \<longrightarrow> (\<exists>n. nexts n h' = None))"
proof -
  obtain as where h: "hist_holds h as" using assms(1) by (auto simp: hist_inv_def)
  have len: "history_length h = int (length as)" "length (abs_entries h) = length as"
    using h abs_entries_length [OF h] by (simp_all add: hist_holds_def)
  obtain h' where run: "stifle_history m h = Some h'" and inv: "hist_inv h'"
    and abs: "hist_abs h' = snd (hist_spec_step (H_stifle m) (hist_abs h))"
    using stifle_history_spec [OF h, of m] by (auto simp: refined_at_def done_with_def)
  have d: "length as - nat m = nat (history_length h - m)" "nat m < length as"
    "int (length as - nat m) = history_length h - m"
    using assms(2,3) len(1) by auto
  have es: "abs_entries h' = drop (nat (history_length h - m)) (abs_entries h)"
    using arg_cong [OF abs, of hs_entries] len(2) d(1) by (simp add: Let_def)
  have b: "history_base h' = history_length h - m"
    using arg_cong [OF abs, of hs_base] len(2) d(2,3) by (simp add: Let_def)
  have o: "history_offset h' = history_offset h"
    using arg_cong [OF abs, of hs_pos] by (simp add: Let_def)
  obtain bs where h': "hist_holds h' bs" using inv by (auto simp: hist_inv_def)
  have "history_length h' = m"
    using h' abs_entries_length [OF h'] es len assms(2,3) by (auto simp: hist_holds_def)
  then show ?thesis
    using run es b o nexts_run_off [OF _ inv] by auto
qed

theorem stifle_history_effects_witness:
  "\<exists>rs h h'. hist_runs [H_add ''#1'' ''ls'', H_add ''#2'' ''pwd'', H_using] fresh_history = Some (rs, h) \<and>
     stifle_history 1 h = Some h' \<and> history_offset h' = 2 \<and> (\<exists>n. nexts n h' = None)"
proof -
  obtain h where h: "hist_runs [H_add ''#1'' ''ls'', H_add ''#2'' ''pwd'', H_using] fresh_history = Some ([R_none, R_none, R_none], h)"
    "hist_inv h" "hist_abs h = snd (hist_spec_runs [H_add ''#1'' ''ls'', H_add ''#2'' ''pwd'', H_using] (hist_abs fresh_history))"
    using hist_runs_refine [OF fresh_history_inv, of "[H_add ''#1'' ''ls'', H_add ''#2'' ''pwd'', H_using]"]
    by (auto simp: Let_def)
  have "hist_abs fresh_history = \<lparr>hs_entries = [], hs_pos = 0, hs_base = 1, hs_limit = 0, hs_limited = False\<rparr>"
    by (simp add: hist_abs_def abs_entries_def hist_addrs_def fresh_history_def)
  then have "history_offset h = 2" "length (abs_entries h) = 2"
    using arg_cong [OF h(3), of hs_pos] arg_cong [OF h(3), of hs_entries] by (simp_all add: Let_def)
  moreover from this have "history_length h = 2"
    using h(2) abs_entries_length by (auto simp: hist_inv_def hist_holds_def)
  ultimately show ?thesis
    using stifle_history_effects [OF h(2), of 1] h(1) by auto
qed

end
