(* ===== verification/Bash_History.thy ===== *)
theory Bash_History
  imports History_List
begin

text \<open>
  What the shell keeps in its history, \<^verbatim>\<open>bashhist.c\<close>: \<^verbatim>\<open>HISTCONTROL\<close> and \<^verbatim>\<open>HISTIGNORE\<close>, the erasing of
  duplicates, and the joining of the lines of one command. Works on the history list of
  \<open>History_List\<close>; reading a byte outside a string has no result (\<open>None\<close>). Pattern matching
  (\<^verbatim>\<open>strmatch\<close>) and \<^verbatim>\<open>history_delimiting_chars\<close> of the parser are arguments.
\<close>

section \<open>Patterns with the last line (pathexp.c, glob.c, stringlib.c)\<close>

text \<open>\<^verbatim>\<open>glob_char_p\<close> looks at a character and the next.\<close>

definition glob_char_p :: "char \<Rightarrow> char \<Rightarrow> bool" where
  "glob_char_p c d \<longleftrightarrow>
     c \<in> {CHR ''*'', CHR ''['', CHR '']'', CHR ''?'', CHR 0x5C} \<or>
     c \<in> {CHR ''+'', CHR ''@'', CHR ''!''} \<and> d = CHR ''(''"

fun quote_globbing_chars :: "cstring \<Rightarrow> cstring" where
  "quote_globbing_chars [] = []"
| "quote_globbing_chars (c # s) =
     (if glob_char_p c (c_at s 0) then [CHR 0x5C, c] else [c]) @ quote_globbing_chars s"

text \<open>\<open>bopen\<close> says whether a bracket is open; a backslash hides the next character.\<close>

fun glob_pattern_loop :: "bool \<Rightarrow> cstring \<Rightarrow> bool" where
  "glob_pattern_loop bopen [] = False"
| "glob_pattern_loop bopen (c # s) =
     (if c = CHR ''?'' \<or> c = CHR ''*'' then True
      else if c = CHR ''['' then glob_pattern_loop True s
      else if c = CHR '']'' then (bopen \<or> glob_pattern_loop bopen s)
      else if c \<in> {CHR ''+'', CHR ''@'', CHR ''!''} then (c_at s 0 = CHR ''('' \<or> glob_pattern_loop bopen s)
      else if c = CHR 0x5C then (s \<noteq> [] \<and> glob_pattern_loop bopen (tl s))
      else glob_pattern_loop bopen s)"

definition glob_pattern_p :: "cstring \<Rightarrow> bool" where
  "glob_pattern_p pattern = glob_pattern_loop False pattern"

fun strcreplace :: "cstring \<Rightarrow> char \<Rightarrow> cstring \<Rightarrow> bool \<Rightarrow> cstring" where
  "strcreplace [] c text do_glob = []"
| "strcreplace (p # s) c text do_glob =
     (if p = c then
        (if do_glob \<and> (glob_pattern_p text \<or> CHR 0x5C \<in> set text) then quote_globbing_chars text else text) @
        strcreplace s c text do_glob
      else if p = CHR 0x5C \<and> c_at s 0 = c \<and> s \<noteq> [] then c # strcreplace (tl s) c text do_glob
      else p # strcreplace s c text do_glob)"

section \<open>State (bashhist.c, bashhist.h)\<close>

definition HC_IGNSPACE :: nat where "HC_IGNSPACE = 0x01"
definition HC_IGNDUPS :: nat where "HC_IGNDUPS = 0x02"
definition HC_ERASEDUPS :: nat where "HC_ERASEDUPS = 0x04"

record ign =
  ign_val :: cstring
  ign_expand :: bool

text \<open>
  The history list, the variables of \<^verbatim>\<open>bashhist.c\<close>, and what it reads of the parser's state:
  \<^verbatim>\<open>current_command_line_count\<close>, whether a here-document is read, and \<^verbatim>\<open>dstack.delimiter_depth\<close>.
\<close>

record bash_hist =
  bh_list :: history
  history_control :: nat
  histignore :: "ign list"
  history_lines_this_session :: int
  hist_last_line_added :: bool
  hist_last_line_pushed :: bool
  current_command_first_line_saved :: bool
  remember_on_history :: bool
  command_oriented_history :: bool
  literal_history :: bool
  bh_line_count :: int
  bh_heredoc :: bool
  bh_delimiter_depth :: nat

text \<open>A byte of a string by its index, the terminator included.\<close>

definition byte_at :: "cstring \<Rightarrow> int \<Rightarrow> char option" where
  "byte_at s i = (if 0 \<le> i \<and> i \<le> int (length s) then Some (c_at s (nat i)) else None)"

text \<open>The line an entry points to; undefined for a null line.\<close>

definition line_of :: "history \<Rightarrow> slot \<Rightarrow> cstring option option" where
  "line_of h p =
     do { e \<leftarrow> entry_of h p;
          (case e of None \<Rightarrow> Some None | Some e \<Rightarrow> do { l \<leftarrow> he_line e; Some (Some l) }) }"

section \<open>Looking at lines\<close>

definition history_expansion_p :: "char \<Rightarrow> char \<Rightarrow> cstring \<Rightarrow> bool" where
  "history_expansion_p history_expansion_char history_subst_char line \<longleftrightarrow>
     list_ex (\<lambda>c. c = history_expansion_char \<or> c = history_subst_char) line"

definition shell_comment :: "cstring \<Rightarrow> bool" where
  "shell_comment line \<longleftrightarrow> c_at (dropWhile whitespace line) 0 = CHR ''#''"

definition member :: "char \<Rightarrow> cstring \<Rightarrow> bool" where
  "member c s \<longleftrightarrow> c \<noteq> NUL \<and> c \<in> set s"

definition bash_history_inhibit_expansion :: "bool \<Rightarrow> cstring \<Rightarrow> nat \<Rightarrow> bool" where
  "bash_history_inhibit_expansion extended_glob string i =
     (if 0 < i \<and> c_at string (i - 1) = CHR ''['' \<and> member (CHR '']'') (drop (i + 1) string) then True
      else if 1 < i \<and> c_at string (i - 1) = CHR ''{'' \<and> c_at string (i - 2) = CHR ''$'' \<and>
              member (CHR ''}'') (drop (i + 1) string) then True
      else if 1 < i \<and> c_at string (i - 1) = CHR ''$'' \<and> c_at string i = CHR ''!'' then True
      else if extended_glob \<and> 1 < i \<and> c_at string (i + 1) = CHR ''('' \<and>
              member (CHR '')'') (drop (i + 2) string) then True
      else False)"

text \<open>
  The pattern has an \<^verbatim>\<open>&\<close> that is not escaped. After a backslash the loop steps over the next byte,
  also when that is the terminator, and goes on behind the string.
\<close>

fun should_expand :: "cstring \<Rightarrow> bool option" where
  "should_expand [] = Some False"
| "should_expand (c # s) =
     (if c = CHR 0x5C then (case s of [] \<Rightarrow> None | d # s' \<Rightarrow> should_expand s')
      else if c = CHR ''&'' then Some True else should_expand s)"

definition histignore_item_func :: "cstring \<Rightarrow> ign option" where
  "histignore_item_func v = do { e \<leftarrow> should_expand v; Some \<lparr>ign_val = v, ign_expand = e\<rparr> }"

section \<open>Position and last line\<close>

definition on_list :: "(history \<Rightarrow> ('r \<times> history) option) \<Rightarrow> bash_hist \<Rightarrow> ('r \<times> bash_hist) option" where
  "on_list f b = do { (r, h) \<leftarrow> f (bh_list b); Some (r, b\<lparr>bh_list := h\<rparr>) }"

definition bash_clear_history :: "bash_hist \<Rightarrow> bash_hist option" where
  "bash_clear_history b =
     do { h \<leftarrow> clear_history (bh_list b); Some (b\<lparr>bh_list := h, history_lines_this_session := 0\<rparr>) }"

definition bash_delete_histent :: "int \<Rightarrow> bash_hist \<Rightarrow> (int \<times> bash_hist) option" where
  "bash_delete_histent i b =
     do { (discard, h1) \<leftarrow> remove_history i (bh_list b);
          (_, h2) \<leftarrow> free_history_entry discard h1;
          Some (1, b\<lparr>bh_list := h2, history_lines_this_session := history_lines_this_session b - 1\<rparr>) }"

text \<open>\<^verbatim>\<open>for (i = 0; hlist[i]; i++)\<close>\<close>

primrec first_null :: "nat \<Rightarrow> int \<Rightarrow> history \<Rightarrow> int option" where
  "first_null 0 i h = None"
| "first_null (Suc fuel) i h =
     do { p \<leftarrow> read_slot h i; if p = Null then Some i else first_null fuel (i + 1) h }"

definition bash_delete_last_history :: "bash_hist \<Rightarrow> (int \<times> bash_hist) option" where
  "bash_delete_last_history b =
     (case the_history (bh_list b) of
        None \<Rightarrow> Some (0, b)
      | Some hlist \<Rightarrow>
          do { n \<leftarrow> first_null (length hlist) 0 (bh_list b);
               histent \<leftarrow> history_get (history_base (bh_list b) + (n - 1)) (bh_list b);
               if histent = Null then Some (0, b)
               else
                 do { (r, b1) \<leftarrow> bash_delete_histent (n - 1) b;
                      Some (r,
                        if history_length (bh_list b1) < where_history (bh_list b1)
                        then b1\<lparr>bh_list := snd (history_set_pos (history_length (bh_list b1)) (bh_list b1))\<rparr>
                        else b1) } })"

definition history_number :: "bash_hist \<Rightarrow> int \<times> bash_hist" where
  "history_number b =
     (let h = using_history (bh_list b)
      in (if remember_on_history b then history_base h + where_history h else 1, b\<lparr>bh_list := h\<rparr>))"

definition last_history_entry :: "history \<Rightarrow> (slot \<times> history) option" where
  "last_history_entry h =
     do { (he, h1) \<leftarrow> previous_history (using_history h); Some (he, using_history h1) }"

definition last_history_line :: "history \<Rightarrow> (cstring option \<times> history) option" where
  "last_history_line h =
     do { (he, h1) \<leftarrow> last_history_entry h; l \<leftarrow> line_of h1 he; Some (l, h1) }"

section \<open>HISTIGNORE and HISTCONTROL\<close>

definition expand_histignore_pattern :: "cstring \<Rightarrow> history \<Rightarrow> (cstring \<times> history) option" where
  "expand_histignore_pattern pat h =
     do { (l, h1) \<leftarrow> last_history_line h;
          Some (case l of None \<Rightarrow> pat | Some l \<Rightarrow> strcreplace pat (CHR ''&'') l True, h1) }"

primrec ignore_loop :: "(cstring \<Rightarrow> cstring \<Rightarrow> bool) \<Rightarrow> cstring \<Rightarrow> ign list \<Rightarrow> history \<Rightarrow> (bool \<times> history) option" where
  "ignore_loop strmatch line [] h = Some (False, h)"
| "ignore_loop strmatch line (i # is) h =
     do { (npat, h1) \<leftarrow> (if ign_expand i then expand_histignore_pattern (ign_val i) h else Some (ign_val i, h));
          if strmatch npat line then Some (True, h1) else ignore_loop strmatch line is h1 }"

definition history_should_ignore ::
  "(cstring \<Rightarrow> cstring \<Rightarrow> bool) \<Rightarrow> cstring \<Rightarrow> bash_hist \<Rightarrow> (bool \<times> bash_hist) option" where
  "history_should_ignore strmatch line b = on_list (ignore_loop strmatch line (histignore b)) b"

definition check_history_control :: "cstring \<Rightarrow> bash_hist \<Rightarrow> (bool \<times> bash_hist) option" where
  "check_history_control line b =
     (if history_control b = 0 then Some (True, b)
      else if history_control b AND HC_IGNSPACE \<noteq> 0 \<and> c_at line 0 = CHR '' '' then Some (False, b)
      else if history_control b AND HC_IGNDUPS \<noteq> 0 then
        do { (temp, h1) \<leftarrow> previous_history (using_history (bh_list b));
             l \<leftarrow> line_of h1 temp;
             Some (case l of None \<Rightarrow> True | Some l \<Rightarrow> l \<noteq> line, b\<lparr>bh_list := using_history h1\<rparr>) }
      else Some (True, b))"

primrec erase_loop :: "nat \<Rightarrow> cstring \<Rightarrow> history \<Rightarrow> history option" where
  "erase_loop 0 line h = None"
| "erase_loop (Suc fuel) line h =
     do { (temp, h1) \<leftarrow> previous_history h;
          l \<leftarrow> line_of h1 temp;
          (case l of
             None \<Rightarrow> Some h1
           | Some l \<Rightarrow>
               do { h2 \<leftarrow> (if l = line then map_option snd (remove_history (where_history h1) h1) else Some h1);
                    erase_loop fuel line h2 }) }"

text \<open>The position goes down by one in each round: its value and one are enough fuel.\<close>

definition hc_erasedups :: "cstring \<Rightarrow> bash_hist \<Rightarrow> bash_hist option" where
  "hc_erasedups line b =
     do { h \<leftarrow> erase_loop (Suc (nat (history_length (bh_list b)))) line (using_history (bh_list b));
          Some (b\<lparr>bh_list := using_history h\<rparr>) }"

section \<open>Saving a line\<close>

definition really_add_history :: "cstring \<Rightarrow> cstring \<Rightarrow> bash_hist \<Rightarrow> bash_hist option" where
  "really_add_history now line b =
     do { h \<leftarrow> add_history now (Some line) (bh_list b);
          Some (b\<lparr>bh_list := h, hist_last_line_added := True, hist_last_line_pushed := False,
                  history_lines_this_session := history_lines_this_session b + 1\<rparr>) }"

text \<open>
  What goes between the last entry and a further line of the same command. \<open>delims\<close> is
  \<^verbatim>\<open>history_delimiting_chars\<close> in the present state of the parser.
\<close>

definition chars_to_add :: "(cstring \<Rightarrow> cstring) \<Rightarrow> cstring \<Rightarrow> bash_hist \<Rightarrow> cstring option" where
  "chars_to_add delims line b =
     do { body_line \<leftarrow>
            (if bh_heredoc b \<and> literal_history b \<and> 2 < bh_line_count b
             then map_option (\<lambda>c. c = CHR 0x0A) (byte_at line (int (length line) - 1)) else Some False);
          Some (if body_line then [] else if literal_history b then [CHR 0x0A] else delims line) }"

text \<open>
  The joined line. An escaped newline at the end of the last entry is removed with its
  backslash; a semicolon is not added after a newline.
\<close>

definition joined_line :: "nat \<Rightarrow> cstring \<Rightarrow> cstring \<Rightarrow> cstring \<Rightarrow> cstring option" where
  "joined_line depth current chars line =
     do { c1 \<leftarrow> (if depth = 0 then byte_at current (int (length current) - 1) else Some NUL);
          c2 \<leftarrow> (if depth = 0 \<and> c1 = CHR 0x5C then byte_at current (int (length current) - 2) else Some NUL);
          let escaped = (depth = 0 \<and> c1 = CHR 0x5C \<and> c2 \<noteq> CHR 0x5C);
              cur = (if escaped then butlast current else current);
              chars1 = (if escaped then [] else chars)
          in do { c3 \<leftarrow> (if depth = 0 then byte_at cur (int (length cur) - 1) else Some NUL);
                  Some (cur @
                        (if depth = 0 \<and> c3 = CHR 0x0A \<and> c_at chars1 0 = CHR '';'' then tl chars1 else chars1) @
                        line) } }"

definition bash_add_history ::
  "cstring \<Rightarrow> (cstring \<Rightarrow> cstring) \<Rightarrow> cstring \<Rightarrow> bash_hist \<Rightarrow> bash_hist option" where
  "bash_add_history now delims line b =
     do { b1 \<leftarrow>
            (if command_oriented_history b \<and> 1 < bh_line_count b then
               do { chars \<leftarrow> chars_to_add delims line b;
                    (current, h1) \<leftarrow> previous_history (using_history (bh_list b));
                    cur \<leftarrow> entry_of h1 current;
                    (case cur of
                       None \<Rightarrow> really_add_history now line (b\<lparr>bh_list := h1\<rparr>)
                     | Some e \<Rightarrow>
                         do { l \<leftarrow> he_line e;
                              new_line \<leftarrow> joined_line (bh_delimiter_depth b) l chars line;
                              (old, h2) \<leftarrow> replace_history_entry (where_history h1) new_line (he_data e) h1;
                              (_, h3) \<leftarrow> free_history_entry old h2;
                              Some (b\<lparr>bh_list := h3\<rparr>) }) }
             else really_add_history now line b);
          Some (b1\<lparr>bh_list := using_history (bh_list b1)\<rparr>) }"

definition check_add_history ::
  "(cstring \<Rightarrow> cstring \<Rightarrow> bool) \<Rightarrow> cstring \<Rightarrow> (cstring \<Rightarrow> cstring) \<Rightarrow> cstring \<Rightarrow> bool \<Rightarrow> bash_hist \<Rightarrow>
   (bool \<times> bash_hist) option" where
  "check_add_history strmatch now delims line force b =
     do { (control, b1) \<leftarrow> check_history_control line b;
          if \<not> control then Some (False, b1)
          else
            do { (ignored, b2) \<leftarrow> history_should_ignore strmatch line b1;
                 if ignored then Some (False, b2)
                 else
                   do { b3 \<leftarrow> (if history_control b2 AND HC_ERASEDUPS \<noteq> 0 then hc_erasedups line b2 else Some b2);
                        if force then
                          do { b4 \<leftarrow> really_add_history now line b3;
                               Some (True, b4\<lparr>bh_list := using_history (bh_list b4)\<rparr>) }
                        else do { b4 \<leftarrow> bash_add_history now delims line b3; Some (True, b4) } } } }"

definition maybe_add_history ::
  "(cstring \<Rightarrow> cstring \<Rightarrow> bool) \<Rightarrow> cstring \<Rightarrow> (cstring \<Rightarrow> cstring) \<Rightarrow> cstring \<Rightarrow> bash_hist \<Rightarrow> bash_hist option" where
  "maybe_add_history strmatch now delims line b =
     (let b0 = b\<lparr>hist_last_line_added := False\<rparr>
      in if 1 < bh_line_count b0 then
           if current_command_first_line_saved b0 \<and>
              (bh_heredoc b0 \<or> literal_history b0 \<or> bh_delimiter_depth b0 \<noteq> 0 \<or> \<not> shell_comment line)
           then bash_add_history now delims line b0
           else Some b0
         else
           do { (saved, b1) \<leftarrow> check_add_history strmatch now delims line False b0;
                Some (b1\<lparr>current_command_first_line_saved := saved\<rparr>) })"

section \<open>The lines of the history\<close>

definition lines :: "history \<Rightarrow> cstring list" where
  "lines h = map (the \<circ> he_line) (abs_entries h)"

text \<open>Adding a line to a list that may be limited.\<close>

definition add_line :: "int option \<Rightarrow> cstring \<Rightarrow> cstring list \<Rightarrow> cstring list" where
  "add_line lim l ls =
     (if lim = Some (int (length ls)) then (if ls = [] then [] else tl ls @ [l]) else ls @ [l])"

definition hist_limit :: "history \<Rightarrow> int option" where
  "hist_limit h = (if history_stifled h then Some (history_max_entries h) else None)"

lemma using_history_facts:
  assumes "hist_holds h as"
  shows "hist_holds (using_history h) as" "history_offset (using_history h) = int (length as)"
    "abs_entries (using_history h) = abs_entries h" "history_base (using_history h) = history_base h"
    "hist_limit (using_history h) = hist_limit h" "history_length (using_history h) = int (length as)"
    "heap (using_history h) = heap h"
proof -
  have len: "history_length h = int (length as)" using assms by (simp add: hist_holds_def)
  show h': "hist_holds (using_history h) as"
    using assms by (auto simp: using_history_def hist_holds_def slots_hold_def entry_ok_def split: option.splits)
  show "abs_entries (using_history h) = abs_entries h"
    using abs_entries_holds [OF h'] abs_entries_holds [OF assms] by (simp add: using_history_def)
qed (use assms in \<open>simp_all add: using_history_def hist_limit_def hist_holds_def\<close>)

lemma lines_length: "hist_holds h as \<Longrightarrow> length (lines h) = length as"
  by (simp add: lines_def abs_entries_holds)

lemma line_of_holds:
  assumes "hist_holds h as" and "i < length as"
  shows "line_of h (Entry (as ! i)) = Some (Some (lines h ! i))"
  using abs_entries_ok [OF assms] assms(2)
  by (auto simp: line_of_def entry_of_def abs_entries_nth [OF assms] lines_def abs_entries_length [OF assms(1)])

lemma line_of_Null [simp]: "line_of h Null = Some None"
  by (simp add: line_of_def entry_of_def)

lemma using_using [simp]: "using_history (h\<lparr>history_offset := i\<rparr>) = using_history h"
  by (simp add: using_history_def)

lemma previous_last:
  assumes h: "hist_holds h as"
  shows "\<exists>p h1. previous_history (using_history h) = Some (p, h1) \<and> using_history h1 = using_history h \<and>
    line_of h1 p = Some (if as = [] then None else Some (last (lines h))) \<and>
    entry_of h1 p = Some (if as = [] then None else Some (last (abs_entries h))) \<and>
    (as \<noteq> [] \<longrightarrow> where_history h1 = int (length as - 1) \<and> hist_holds h1 as \<and> abs_entries h1 = abs_entries h \<and>
       hist_limit h1 = hist_limit h)"
proof (cases "as = []")
  case True
  then show ?thesis
    using using_history_facts [OF h] by (simp add: previous_history_def entry_of_def using_history_def)
next
  case False
  let ?u = "using_history h"
  let ?n = "length as - 1"
  let ?h1 = "?u\<lparr>history_offset := int ?n\<rparr>"
  note u = using_history_facts [OF h]
  have n: "?n < length as" "int (length as) - 1 = int ?n" using False by (simp_all add: of_nat_diff Suc_le_eq)
  have prev: "previous_history ?u = Some (Entry (as ! ?n), ?h1)"
    using read_slot_nth [OF u(1) n(1)] False unfolding previous_history_def u(2) n(2) by simp
  have h1: "hist_holds ?h1 as"
    using u(1) by (auto simp: hist_holds_def slots_hold_def entry_ok_def split: option.splits)
  have es: "abs_entries ?h1 = abs_entries h"
    using abs_entries_holds [OF h1] abs_entries_holds [OF h] u(7) by simp
  have ne: "abs_entries h \<noteq> []" "length (abs_entries h) = length as"
    using False abs_entries_length [OF h] by auto
  have "lines ?h1 = lines h" unfolding lines_def es ..
  then have "line_of ?h1 (Entry (as ! ?n)) = Some (Some (last (lines h)))"
    using line_of_holds [OF h1 n(1)] ne by (simp add: lines_def last_map last_conv_nth)
  moreover have "entry_of ?h1 (Entry (as ! ?n)) = Some (Some (last (abs_entries h)))"
    using abs_entries_nth [OF h1 n(1), unfolded es] ne by (simp add: entry_of_def last_conv_nth)
  ultimately show ?thesis
    using prev False h1 es by (auto simp: using_history_def where_history_def hist_limit_def)
qed

lemma add_history_lines:
  assumes h: "hist_holds h as"
  shows "\<exists>h'. add_history now (Some l) h = Some h' \<and> hist_inv h' \<and>
    lines h' = add_line (hist_limit h) l (lines h) \<and> hist_limit h' = hist_limit h"
proof -
  have inv: "hist_inv h" using h by (auto simp: hist_inv_def)
  obtain h' where h': "add_history now (Some l) h = Some h'" "hist_inv h'"
    "hist_abs h' = snd (hist_spec_step (H_add now l) (hist_abs h))"
    using add_history_spec [OF inv] by blast
  have len: "length (lines h) = length (abs_entries h)" by (simp add: lines_def)
  have "lines h' = add_line (hist_limit h) l (lines h)"
    using arg_cong [OF h'(3), of hs_entries]
    by (auto simp: lines_def add_line_def hist_limit_def Let_def map_tl split: if_splits)
  moreover have "hist_limit h' = hist_limit h"
    using arg_cong [OF h'(3), of hs_limit] arg_cong [OF h'(3), of hs_limited]
    by (auto simp: hist_limit_def Let_def split: if_splits)
  ultimately show ?thesis using h' by blast
qed

text \<open>The erasing loop looks at the entries before the position, the newest first.\<close>

lemma erase_loop_spec:
  "hist_holds h as \<Longrightarrow> history_offset h = int k \<Longrightarrow> k \<le> length as \<Longrightarrow> k < fuel \<Longrightarrow>
   \<exists>h' bs. erase_loop fuel line h = Some h' \<and> hist_holds h' bs \<and>
     lines h' = filter (\<lambda>l. l \<noteq> line) (take k (lines h)) @ drop k (lines h) \<and> hist_limit h' = hist_limit h"
proof (induction k arbitrary: fuel h as)
  case 0
  then obtain f where "fuel = Suc f" by (cases fuel) auto
  then show ?case using 0 by (auto simp: previous_history_def)
next
  case (Suc k)
  note h = Suc.prems(1)
  obtain f where f: "fuel = Suc f" "k < f" using Suc.prems(4) by (cases fuel) auto
  have k: "k < length as" "k < length (lines h)" using Suc.prems(3) lines_length [OF h] by auto
  let ?h1 = "h\<lparr>history_offset := int k\<rparr>"
  have prev: "previous_history h = Some (Entry (as ! k), ?h1)"
    using Suc.prems(2) read_slot_nth [OF h k(1)] by (simp add: previous_history_def)
  have h1: "hist_holds ?h1 as"
    using h by (auto simp: hist_holds_def slots_hold_def entry_ok_def split: option.splits)
  have l1: "lines ?h1 = lines h" "hist_limit ?h1 = hist_limit h"
    using abs_entries_holds [OF h1] abs_entries_holds [OF h] by (simp_all add: lines_def hist_limit_def)
  have line: "line_of ?h1 (Entry (as ! k)) = Some (Some (lines h ! k))"
    using line_of_holds [OF h1 k(1)] l1 by simp
  have split: "take (Suc k) (lines h) = take k (lines h) @ [lines h ! k]" "drop k (lines h) = lines h ! k # drop (Suc k) (lines h)"
    using k(2) by (simp_all add: take_Suc_conv_app_nth Cons_nth_drop_Suc)
  show ?case
  proof (cases "lines h ! k = line")
    case False
    then show ?thesis
      using Suc.IH [OF h1 _ _ f(2)] prev line k f(1) l1 split by simp
  next
    case True
    let ?bs = "take k as @ drop (Suc k) as"
    obtain h2 where h2: "remove_history (int k) ?h1 = Some (Entry (as ! k), h2)" "hist_holds h2 ?bs"
      "heap h2 = heap ?h1" "history_offset h2 = int k" "history_max_entries h2 = history_max_entries h"
      "history_stifled h2 = history_stifled h"
      using remove_history_spec [OF h1, of "int k"] k(1) by auto
    have "lines h2 = take k (lines h) @ drop (Suc k) (lines h)"
      by (simp add: lines_def abs_entries_holds [OF h2(2)] abs_entries_holds [OF h] h2(3) take_map drop_map)
    moreover have "k \<le> length ?bs" using k(1) by simp
    moreover have "hist_limit h2 = hist_limit h" using h2(5,6) by (simp add: hist_limit_def)
    ultimately show ?thesis
      using Suc.IH [OF h2(2,4) _ f(2)] h2(1) prev line k True f(1) split
      by (simp add: where_history_def)
  qed
qed

section \<open>What is saved\<close>

definition starts_ignored :: "bash_hist \<Rightarrow> cstring \<Rightarrow> bool" where
  "starts_ignored b line \<longleftrightarrow> history_control b AND HC_IGNSPACE \<noteq> 0 \<and> c_at line 0 = CHR '' ''"

definition repeats_last :: "bash_hist \<Rightarrow> cstring \<Rightarrow> bool" where
  "repeats_last b line \<longleftrightarrow> history_control b AND HC_IGNDUPS \<noteq> 0 \<and>
     lines (bh_list b) \<noteq> [] \<and> last (lines (bh_list b)) = line"

definition ignore_pattern :: "cstring list \<Rightarrow> ign \<Rightarrow> cstring" where
  "ignore_pattern ls i =
     (if ign_expand i \<and> ls \<noteq> [] then strcreplace (ign_val i) (CHR ''&'') (last ls) True else ign_val i)"

definition matches_histignore :: "(cstring \<Rightarrow> cstring \<Rightarrow> bool) \<Rightarrow> bash_hist \<Rightarrow> cstring \<Rightarrow> bool" where
  "matches_histignore strmatch b line \<longleftrightarrow>
     (\<exists>i\<in>set (histignore b). strmatch (ignore_pattern (lines (bh_list b)) i) line)"

definition accepts :: "(cstring \<Rightarrow> cstring \<Rightarrow> bool) \<Rightarrow> bash_hist \<Rightarrow> cstring \<Rightarrow> bool" where
  "accepts strmatch b line \<longleftrightarrow>
     \<not> starts_ignored b line \<and> \<not> repeats_last b line \<and> \<not> matches_histignore strmatch b line"

text \<open>Two histories with the same lines and limit, both well formed.\<close>

definition same_lines :: "history \<Rightarrow> history \<Rightarrow> bool" where
  "same_lines h h' \<longleftrightarrow> hist_inv h' \<and> lines h' = lines h \<and> hist_limit h' = hist_limit h"

lemma same_lines_using: "hist_inv h \<Longrightarrow> same_lines h (using_history h)"
  using using_history_facts [of h] by (auto simp: same_lines_def hist_inv_def lines_def)

lemma check_history_control_spec:
  assumes "hist_inv (bh_list b)"
  shows "\<exists>h'. check_history_control line b =
      Some (\<not> starts_ignored b line \<and> \<not> repeats_last b line, b\<lparr>bh_list := h'\<rparr>) \<and> same_lines (bh_list b) h'"
proof -
  obtain as where h: "hist_holds (bh_list b) as" using assms by (auto simp: hist_inv_def)
  have same: "same_lines (bh_list b) (bh_list b)" using assms by (simp add: same_lines_def)
  have same_b: "b = b\<lparr>bh_list := bh_list b\<rparr>" by simp
  obtain p h1 where p: "previous_history (using_history (bh_list b)) = Some (p, h1)"
    "using_history h1 = using_history (bh_list b)"
    "line_of h1 p = Some (if as = [] then None else Some (last (lines (bh_list b))))"
    using previous_last [OF h] by blast
  have ne: "lines (bh_list b) = [] \<longleftrightarrow> as = []" using lines_length [OF h] by auto
  consider "history_control b = 0 \<or> starts_ignored b line \<or> history_control b AND HC_IGNDUPS = 0"
    | "history_control b \<noteq> 0" "\<not> starts_ignored b line" "history_control b AND HC_IGNDUPS \<noteq> 0" by blast
  then show ?thesis
  proof cases
    case 1
    then show ?thesis
      using same same_b by (auto simp: check_history_control_def starts_ignored_def repeats_last_def intro!: exI [of _ "bh_list b"])
  next
    case 2
    then show ?thesis
      using p ne same_lines_using [OF assms]
      by (auto simp: check_history_control_def starts_ignored_def repeats_last_def intro!: exI [of _ "using_history (bh_list b)"])
  qed
qed

lemma expand_pattern_spec:
  assumes "hist_inv h"
  shows "\<exists>h'. (if ign_expand i then expand_histignore_pattern (ign_val i) h else Some (ign_val i, h)) =
    Some (ignore_pattern (lines h) i, h') \<and> same_lines h h'"
proof -
  obtain as where h: "hist_holds h as" using assms by (auto simp: hist_inv_def)
  obtain p h1 where p: "previous_history (using_history h) = Some (p, h1)" "using_history h1 = using_history h"
    "line_of h1 p = Some (if as = [] then None else Some (last (lines h)))"
    using previous_last [OF h] by blast
  have "line_of (using_history h1) p = line_of h1 p"
    by (simp add: using_history_def line_of_def entry_of_def split: slot.split)
  then show ?thesis
    using p lines_length [OF h] assms same_lines_using [OF assms]
    by (auto simp: expand_histignore_pattern_def last_history_line_def last_history_entry_def ignore_pattern_def
        same_lines_def)
qed

lemma same_lines_trans: "same_lines h h1 \<Longrightarrow> same_lines h1 h2 \<Longrightarrow> same_lines h h2"
  by (simp add: same_lines_def)

lemma ignore_loop_spec:
  "hist_inv h \<Longrightarrow>
   \<exists>h'. ignore_loop strmatch line is h = Some (\<exists>i\<in>set is. strmatch (ignore_pattern (lines h) i) line, h') \<and>
     same_lines h h'"
proof (induction "is" arbitrary: h)
  case Nil
  then show ?case by (simp add: same_lines_def)
next
  case (Cons i "is")
  obtain h1 where h1: "(if ign_expand i then expand_histignore_pattern (ign_val i) h else Some (ign_val i, h)) =
      Some (ignore_pattern (lines h) i, h1)" "same_lines h h1"
    using expand_pattern_spec [OF Cons.prems] by blast
  obtain h2 where h2: "ignore_loop strmatch line is h1 = Some (\<exists>i\<in>set is. strmatch (ignore_pattern (lines h1) i) line, h2)"
    "same_lines h1 h2"
    using Cons.IH [of h1] h1(2) by (auto simp: same_lines_def)
  have "lines h1 = lines h" using h1(2) by (simp add: same_lines_def)
  then show ?case
    using h1 h2 same_lines_trans [OF h1(2) h2(2)] by (auto simp del: if_split_asm)
qed

lemma hc_erasedups_spec:
  assumes "hist_inv (bh_list b)"
  shows "\<exists>h'. hc_erasedups line b = Some (b\<lparr>bh_list := h'\<rparr>) \<and> hist_inv h' \<and>
    lines h' = filter (\<lambda>l. l \<noteq> line) (lines (bh_list b)) \<and> hist_limit h' = hist_limit (bh_list b)"
proof -
  obtain as where h: "hist_holds (bh_list b) as" using assms by (auto simp: hist_inv_def)
  note u = using_history_facts [OF h]
  have len: "nat (history_length (bh_list b)) = length as" using h by (simp add: hist_holds_def)
  obtain h' bs where h': "erase_loop (Suc (length as)) line (using_history (bh_list b)) = Some h'" "hist_holds h' bs"
    "lines h' = filter (\<lambda>l. l \<noteq> line) (lines (bh_list b))" "hist_limit h' = hist_limit (bh_list b)"
    using erase_loop_spec [OF u(1,2), of "Suc (length as)" line] u(3,5) lines_length [OF h] by (auto simp: lines_def)
  show ?thesis
    using h' using_history_facts [OF h'(2)] len
    by (auto simp: hc_erasedups_def hist_inv_def lines_def intro!: exI [of _ "using_history h'"])
qed

text \<open>The other fields after a line was saved as an entry of its own.\<close>

definition saved_as_entry :: "bash_hist \<Rightarrow> bash_hist" where
  "saved_as_entry b =
     b\<lparr>hist_last_line_added := True, hist_last_line_pushed := False,
       history_lines_this_session := history_lines_this_session b + 1\<rparr>"

lemma saved_as_entry_simps [simp]:
  "(saved_as_entry b)\<lparr>bh_list := h\<rparr> = saved_as_entry (b\<lparr>bh_list := h\<rparr>)"
  "bh_list (saved_as_entry b) = bh_list b" "bh_line_count (saved_as_entry b) = bh_line_count b"
  "history_control (saved_as_entry b) = history_control b" "histignore (saved_as_entry b) = histignore b"
  "command_oriented_history (saved_as_entry b) = command_oriented_history b"
  by (simp_all add: saved_as_entry_def)

lemma really_add_spec:
  assumes "hist_inv (bh_list b)"
  shows "\<exists>h'. really_add_history now line b = Some (saved_as_entry (b\<lparr>bh_list := h'\<rparr>)) \<and> hist_inv h' \<and>
    lines h' = add_line (hist_limit (bh_list b)) line (lines (bh_list b)) \<and> hist_limit h' = hist_limit (bh_list b)"
proof -
  obtain as where h: "hist_holds (bh_list b) as" using assms by (auto simp: hist_inv_def)
  show ?thesis
    using add_history_lines [OF h, of now line] by (auto simp: really_add_history_def saved_as_entry_def)
qed

lemma add_as_entry:
  assumes "hist_inv (bh_list b)" and "force \<or> \<not> (command_oriented_history b \<and> 1 < bh_line_count b)"
  shows "\<exists>h'. (if force then
        do { b4 \<leftarrow> really_add_history now line b; Some (True, b4\<lparr>bh_list := using_history (bh_list b4)\<rparr>) }
      else do { b4 \<leftarrow> bash_add_history now delims line b; Some (True, b4) }) =
      Some (True, saved_as_entry (b\<lparr>bh_list := h'\<rparr>)) \<and> hist_inv h' \<and>
    lines h' = add_line (hist_limit (bh_list b)) line (lines (bh_list b)) \<and> hist_limit h' = hist_limit (bh_list b)"
proof -
  obtain h1 where h1: "really_add_history now line b = Some (saved_as_entry (b\<lparr>bh_list := h1\<rparr>))" "hist_inv h1"
    "lines h1 = add_line (hist_limit (bh_list b)) line (lines (bh_list b))" "hist_limit h1 = hist_limit (bh_list b)"
    using really_add_spec [OF assms(1)] by blast
  then show ?thesis
    using assms(2) same_lines_using [OF h1(2)]
    by (auto simp: bash_add_history_def same_lines_def intro!: exI [of _ "using_history h1"])
qed

lemma check_add_spec:
  assumes inv: "hist_inv (bh_list b)" and "force \<or> \<not> (command_oriented_history b \<and> 1 < bh_line_count b)"
  shows "\<exists>h'. check_add_history strmatch now delims line force b =
      Some (accepts strmatch b line,
        if accepts strmatch b line then saved_as_entry (b\<lparr>bh_list := h'\<rparr>) else b\<lparr>bh_list := h'\<rparr>) \<and>
    hist_inv h' \<and> hist_limit h' = hist_limit (bh_list b) \<and>
    lines h' =
      (if accepts strmatch b line then
         add_line (hist_limit (bh_list b)) line
           (if history_control b AND HC_ERASEDUPS \<noteq> 0 then filter (\<lambda>l. l \<noteq> line) (lines (bh_list b))
            else lines (bh_list b))
       else lines (bh_list b))"
proof -
  obtain h1 where h1: "check_history_control line b =
      Some (\<not> starts_ignored b line \<and> \<not> repeats_last b line, b\<lparr>bh_list := h1\<rparr>)" "same_lines (bh_list b) h1"
    using check_history_control_spec [OF inv] by blast
  then have inv1: "hist_inv h1" "lines h1 = lines (bh_list b)" "hist_limit h1 = hist_limit (bh_list b)"
    by (simp_all add: same_lines_def)
  obtain h2 where h2: "history_should_ignore strmatch line (b\<lparr>bh_list := h1\<rparr>) =
      Some (matches_histignore strmatch b line, b\<lparr>bh_list := h2\<rparr>)" "same_lines h1 h2"
    using ignore_loop_spec [OF inv1(1), of strmatch line "histignore b"] inv1(2)
    by (auto simp: history_should_ignore_def on_list_def matches_histignore_def)
  then have inv2: "hist_inv h2" "lines h2 = lines (bh_list b)" "hist_limit h2 = hist_limit (bh_list b)"
    using inv1 by (simp_all add: same_lines_def)
  show ?thesis
  proof (cases "accepts strmatch b line")
    case False
    then show ?thesis
      using h1 h2 inv1 inv2 by (auto simp: check_add_history_def accepts_def)
  next
    case True
    let ?b2 = "b\<lparr>bh_list := h2\<rparr>"
    obtain h3 where h3: "(if history_control ?b2 AND HC_ERASEDUPS \<noteq> 0 then hc_erasedups line ?b2 else Some ?b2) =
        Some (b\<lparr>bh_list := h3\<rparr>)" "hist_inv h3" "hist_limit h3 = hist_limit (bh_list b)"
      "lines h3 = (if history_control b AND HC_ERASEDUPS \<noteq> 0 then filter (\<lambda>l. l \<noteq> line) (lines (bh_list b))
            else lines (bh_list b))"
      using hc_erasedups_spec [of ?b2 line] inv2 by (cases "history_control b AND HC_ERASEDUPS = 0") auto
    show ?thesis
      using add_as_entry [of "b\<lparr>bh_list := h3\<rparr>" force now line delims] h1(1) h2(1) h3 True assms(2)
      by (auto simp: check_add_history_def accepts_def simp del: if_split_asm)
  qed
qed

section \<open>Joining lines\<close>

lemma byte_at_end:
  "byte_at s (int (length s) - 1) = (if s = [] then None else Some (last s))"
  "byte_at s (int (length s) - 2) = (if length s < 2 then None else Some (s ! (length s - 2)))"
proof -
  have "nat (int (length s) - 1) = length s - 1" "nat (int (length s) - 2) = length s - 2" by auto
  then show "byte_at s (int (length s) - 1) = (if s = [] then None else Some (last s))"
    "byte_at s (int (length s) - 2) = (if length s < 2 then None else Some (s ! (length s - 2)))"
    by (auto simp: byte_at_def c_at_def last_conv_nth not_less Suc_le_eq)
qed

text \<open>The result of joining, and when it exists.\<close>

definition escaped_newline :: "cstring \<Rightarrow> bool" where
  "escaped_newline s \<longleftrightarrow> last s = CHR 0x5C \<and> s ! (length s - 2) \<noteq> CHR 0x5C"

definition join_text :: "nat \<Rightarrow> cstring \<Rightarrow> cstring \<Rightarrow> cstring \<Rightarrow> cstring" where
  "join_text depth cur chars line =
     (if depth \<noteq> 0 then cur @ chars @ line
      else if escaped_newline cur then butlast cur @ line
      else if last cur = CHR 0x0A \<and> c_at chars 0 = CHR '';'' then cur @ tl chars @ line
      else cur @ chars @ line)"

lemma joined_line_exact:
  "joined_line depth cur chars line =
     (if depth = 0 \<and> (cur = [] \<or> cur = [CHR 0x5C]) then None else Some (join_text depth cur chars line))"
proof (cases "depth = 0")
  case False
  then show ?thesis by (simp add: joined_line_def join_text_def Let_def)
next
  case True
  show ?thesis
  proof (cases "cur = []")
    case True
    then show ?thesis using \<open>depth = 0\<close> by (simp add: joined_line_def byte_at_def)
  next
    case ne: False
    show ?thesis
    proof (cases "last cur = CHR 0x5C")
      case False
      then have "cur \<noteq> [CHR 0x5C]" by auto
      then show ?thesis
        using \<open>depth = 0\<close> ne False
        by (simp add: joined_line_def byte_at_end join_text_def escaped_newline_def Let_def)
    next
      case bsl: True
      show ?thesis
      proof (cases "length cur < 2")
        case True
        then have "cur = [CHR 0x5C]" using ne bsl by (cases cur rule: rev_cases) auto
        then show ?thesis using \<open>depth = 0\<close> by (simp add: joined_line_def byte_at_def c_at_def)
      next
        case False
        then have "cur \<noteq> [CHR 0x5C]" "butlast cur \<noteq> []" by (auto simp flip: length_greater_0_conv)
        then show ?thesis
          using \<open>depth = 0\<close> ne bsl False byte_at_end(1) [of "butlast cur"]
          by (auto simp: joined_line_def byte_at_end join_text_def escaped_newline_def Let_def)
      qed
    qed
  qed
qed

lemma chars_to_add_some:
  assumes "\<not> (bh_heredoc b \<and> literal_history b \<and> 2 < bh_line_count b \<and> line = [])"
  shows "chars_to_add delims line b =
    Some (if bh_heredoc b \<and> literal_history b \<and> 2 < bh_line_count b \<and> last line = CHR 0x0A then []
          else if literal_history b then [CHR 0x0A] else delims line)"
  using assms by (auto simp: chars_to_add_def byte_at_end)

text \<open>Replacing the last entry and freeing the old one.\<close>

lemma replace_last:
  assumes h: "hist_holds h as" and ne: "as \<noteq> []"
  shows "\<exists>old h2 x h3. replace_history_entry (int (length as - 1)) l d h = Some (old, h2) \<and>
    free_history_entry old h2 = Some (x, h3) \<and> hist_inv h3 \<and> lines h3 = butlast (lines h) @ [l] \<and>
    hist_limit h3 = hist_limit h"
proof -
  let ?k = "length as - 1"
  let ?new = "next_addr h"
  have k: "?k < length as" using ne by simp
  have len: "history_length h = int (length as)" "\<not> history_length h \<le> int ?k"
    using h ne by (auto simp: hist_holds_def of_nat_diff Suc_le_eq)
  obtain xs where xs: "the_history h = Some xs" using array_of [OF h ne] by blast
  note sl = slots_length [OF h xs]
  obtain ts where ts: "he_timestamp (abs_entries h ! ?k) = Some ts" using abs_entries_ok [OF h k] by auto
  let ?e = "\<lparr>he_line = Some l, he_timestamp = Some ts, he_data = d\<rparr>"
  let ?h2 = "h\<lparr>heap := (heap h)(?new \<mapsto> ?e), next_addr := Suc ?new, the_history := Some (xs[?k := Entry ?new])\<rparr>"
  let ?h3 = "?h2\<lparr>heap := (heap ?h2)(as ! ?k := None)\<rparr>"
  let ?bs = "butlast as @ [?new]"
  have fresh: "?new \<notin> set as" using h by (auto simp: hist_holds_def entry_ok_def)
  have ne_new: "as ! ?k \<noteq> ?new" using fresh k by (metis nth_mem)
  have run: "replace_history_entry (int ?k) l d h = Some (Entry (as ! ?k), ?h2)"
    using len(2) ne xs ts read_slot_nth [OF h k] set_slot_nat [of ?k xs "Entry ?new"] sl(1)
    by (simp add: replace_history_entry_def alloc_entry_def write_slot_def entry_of_def
        abs_entries_nth [OF h k] del: One_nat_def)
  have free: "free_history_entry (Entry (as ! ?k)) ?h2 = Some (he_data (abs_entries h ! ?k), ?h3)"
    using ne_new by (simp add: free_history_entry_def abs_entries_nth [OF h k] del: One_nat_def)
  have dist: "distinct as" "distinct (butlast as)" using h by (auto simp: hist_holds_def distinct_butlast)
  have "as = butlast as @ [as ! ?k]" using ne append_butlast_last_id [OF ne] by (simp add: last_conv_nth)
  then have keep: "a \<in> set (butlast as) \<Longrightarrow> a \<noteq> as ! ?k \<and> a \<noteq> ?new \<and> a \<in> set as" for a
    using dist(1) fresh by (metis Un_iff distinct_append set_append in_set_butlastD disjoint_insert(1) list.simps(15))
  have suc: "Suc (length as - Suc 0) = length as" using ne by simp
  have "slots_hold ?h3 ?bs"
    by (rule slots_holdI [of _ "xs[?k := Entry ?new]"])
      (use sl k suc in \<open>auto simp: nth_list_update nth_append nth_butlast less_Suc_eq\<close>)
  then have holds: "hist_holds ?h3 ?bs"
    using h keep ne ne_new dist(2) fresh unfolding hist_holds_def
    by (auto simp: entry_ok_def less_Suc_eq dest: in_set_butlastD)
  have "map (the \<circ> heap ?h3) (butlast as) = map (the \<circ> heap h) (butlast as)" using keep by simp
  then have "abs_entries ?h3 = butlast (abs_entries h) @ [?e]"
    using ne_new unfolding abs_entries_holds [OF holds] abs_entries_holds [OF h] by (simp add: map_butlast)
  then have "lines ?h3 = butlast (lines h) @ [l]" by (simp add: lines_def map_butlast)
  moreover have "hist_limit ?h3 = hist_limit h" by (simp add: hist_limit_def)
  moreover have "hist_inv ?h3" using holds by (auto simp: hist_inv_def)
  ultimately show ?thesis using run free by blast
qed

lemma joined_add:
  assumes inv: "hist_inv (bh_list b)" and ne: "lines (bh_list b) \<noteq> []"
    and more: "command_oriented_history b" "1 < bh_line_count b"
    and chars: "chars_to_add delims line b = Some chars"
  shows "case joined_line (bh_delimiter_depth b) (last (lines (bh_list b))) chars line of
      None \<Rightarrow> bash_add_history now delims line b = None
    | Some l \<Rightarrow> \<exists>h'. bash_add_history now delims line b = Some (b\<lparr>bh_list := h'\<rparr>) \<and> hist_inv h' \<and>
        lines h' = butlast (lines (bh_list b)) @ [l] \<and> hist_limit h' = hist_limit (bh_list b)"
proof -
  obtain as where h: "hist_holds (bh_list b) as" using inv by (auto simp: hist_inv_def)
  have asne: "as \<noteq> []" using ne lines_length [OF h] by auto
  have esne: "abs_entries (bh_list b) \<noteq> []" using ne by (simp add: lines_def)
  obtain p h1 where p: "previous_history (using_history (bh_list b)) = Some (p, h1)"
    "entry_of h1 p = Some (Some (last (abs_entries (bh_list b))))"
    "where_history h1 = int (length as - 1)" "hist_holds h1 as" "abs_entries h1 = abs_entries (bh_list b)"
    "hist_limit h1 = hist_limit (bh_list b)"
    using previous_last [OF h] asne by auto
  have "he_line (last (abs_entries (bh_list b))) \<noteq> None"
    using abs_entries_ok [OF h, of "length as - 1"] asne esne abs_entries_length [OF h] by (simp add: last_conv_nth)
  then have l: "he_line (last (abs_entries (bh_list b))) = Some (last (lines (bh_list b)))"
    using esne by (auto simp: lines_def last_map)
  let ?j = "joined_line (bh_delimiter_depth b) (last (lines (bh_list b))) chars line"
  show ?thesis
  proof (cases ?j)
    case None
    then show ?thesis using more p(1,2) l chars by (simp add: bash_add_history_def)
  next
    case (Some nl)
    obtain old h2 x h3 where r:
      "replace_history_entry (int (length as - 1)) nl (he_data (last (abs_entries (bh_list b)))) h1 = Some (old, h2)"
      "free_history_entry old h2 = Some (x, h3)" "hist_inv h3" "lines h3 = butlast (lines h1) @ [nl]"
      "hist_limit h3 = hist_limit h1"
      using replace_last [OF p(4) asne] by blast
    have "bash_add_history now delims line b = Some (b\<lparr>bh_list := using_history h3\<rparr>)"
      using more p(1,2) l chars Some r(1,2) unfolding p(3) [symmetric] by (simp add: bash_add_history_def)
    moreover have "lines h1 = lines (bh_list b)" by (simp add: lines_def p(5))
    ultimately show ?thesis
      using same_lines_using [OF r(3)] r(4,5) p(6) Some by (auto simp: same_lines_def)
  qed
qed

section \<open>Sequences of commands\<close>

text \<open>One command line after the other, each the first line of its command.\<close>

primrec save_lines ::
  "(cstring \<Rightarrow> cstring \<Rightarrow> bool) \<Rightarrow> cstring \<Rightarrow> (cstring \<Rightarrow> cstring) \<Rightarrow> cstring list \<Rightarrow> bash_hist \<Rightarrow> bash_hist option" where
  "save_lines strmatch now delims [] b = Some b"
| "save_lines strmatch now delims (l # ls) b =
     do { b1 \<leftarrow> maybe_add_history strmatch now delims l b; save_lines strmatch now delims ls b1 }"

definition same_settings :: "bash_hist \<Rightarrow> bash_hist \<Rightarrow> bool" where
  "same_settings b b' \<longleftrightarrow>
     history_control b' = history_control b \<and> histignore b' = histignore b \<and> bh_line_count b' = bh_line_count b \<and>
     hist_limit (bh_list b') = hist_limit (bh_list b)"

lemma maybe_add_first:
  assumes "hist_inv (bh_list b)" and "bh_line_count b \<le> 1"
  shows "\<exists>b'. maybe_add_history strmatch now delims line b = Some b' \<and> hist_inv (bh_list b') \<and> same_settings b b' \<and>
    current_command_first_line_saved b' = accepts strmatch b line \<and>
    lines (bh_list b') =
      (if accepts strmatch b line then
         add_line (hist_limit (bh_list b)) line
           (if history_control b AND HC_ERASEDUPS \<noteq> 0 then filter (\<lambda>l. l \<noteq> line) (lines (bh_list b))
            else lines (bh_list b))
       else lines (bh_list b))"
proof -
  let ?b0 = "b\<lparr>hist_last_line_added := False\<rparr>"
  have acc: "accepts strmatch ?b0 line = accepts strmatch b line"
    by (simp add: accepts_def starts_ignored_def repeats_last_def matches_histignore_def)
  obtain h' where h': "check_add_history strmatch now delims line False ?b0 =
      Some (accepts strmatch b line,
        if accepts strmatch b line then saved_as_entry (?b0\<lparr>bh_list := h'\<rparr>) else ?b0\<lparr>bh_list := h'\<rparr>)"
    "hist_inv h'" "hist_limit h' = hist_limit (bh_list b)"
    "lines h' = (if accepts strmatch b line then
         add_line (hist_limit (bh_list b)) line
           (if history_control b AND HC_ERASEDUPS \<noteq> 0 then filter (\<lambda>l. l \<noteq> line) (lines (bh_list b))
            else lines (bh_list b))
       else lines (bh_list b))"
    using check_add_spec [of ?b0 False strmatch now delims line] assms acc by auto
  then show ?thesis
    using assms(2) by (auto simp: maybe_add_history_def same_settings_def)
qed

lemma add_line_mem: "set (add_line lim l ls) \<subseteq> insert l (set ls)"
  by (cases ls) (auto simp: add_line_def)

lemma add_line_distinct: "distinct ls \<Longrightarrow> l \<notin> set ls \<Longrightarrow> distinct (add_line lim l ls)"
  by (cases ls) (auto simp: add_line_def)

lemma add_line_adj: "distinct_adj ls \<Longrightarrow> ls = [] \<or> last ls \<noteq> l \<Longrightarrow> distinct_adj (add_line lim l ls)"
  by (cases ls) (auto simp: add_line_def distinct_adj_append_iff distinct_adj_Cons split: if_splits)

lemma save_lines_keeps:
  assumes "hist_inv (bh_list b)" and "bh_line_count b \<le> 1"
    and step: "\<And>b l ls. hist_inv (bh_list b) \<Longrightarrow> same_settings b0 b \<Longrightarrow> Q (lines (bh_list b)) \<Longrightarrow> accepts strmatch b l \<Longrightarrow>
      Q (add_line (hist_limit (bh_list b)) l
           (if history_control b AND HC_ERASEDUPS \<noteq> 0 then filter (\<lambda>k. k \<noteq> l) (lines (bh_list b))
            else lines (bh_list b)))"
    and "Q (lines (bh_list b))" and "same_settings b0 b"
  shows "\<exists>b'. save_lines strmatch now delims ls b = Some b' \<and> hist_inv (bh_list b') \<and> same_settings b0 b' \<and>
    Q (lines (bh_list b'))"
  using assms(1,2,4,5)
proof (induction ls arbitrary: b)
  case Nil
  then show ?case by simp
next
  case (Cons l ls)
  obtain b1 where b1: "maybe_add_history strmatch now delims l b = Some b1" "hist_inv (bh_list b1)" "same_settings b b1"
    "lines (bh_list b1) =
      (if accepts strmatch b l then
         add_line (hist_limit (bh_list b)) l
           (if history_control b AND HC_ERASEDUPS \<noteq> 0 then filter (\<lambda>k. k \<noteq> l) (lines (bh_list b))
            else lines (bh_list b))
       else lines (bh_list b))"
    using maybe_add_first [OF Cons.prems(1,2)] by blast
  have "Q (lines (bh_list b1))"
    using b1(4) step [OF Cons.prems(1,4,3)] Cons.prems(3) by simp
  moreover have "same_settings b0 b1" "bh_line_count b1 \<le> 1"
    using b1(3) Cons.prems(2,4) by (simp_all add: same_settings_def)
  ultimately show ?case
    using Cons.IH [OF b1(2)] b1(1) by simp
qed

section \<open>Properties\<close>

text \<open>
  C35. What \<^verbatim>\<open>check_add_history\<close> does to the lines of any well-formed history: it refuses exactly
  the lines that start with a space under ignorespace, repeat the last line under ignoredups, or
  match a pattern of \<^verbatim>\<open>HISTIGNORE\<close> with the last line put in for \<^verbatim>\<open>&\<close>; otherwise, after erasing its
  duplicates under erasedups, it adds the line, at the cost of the oldest one when the list is full.
\<close>

theorem check_add_history_exact:
  assumes "hist_inv (bh_list b)" and "force \<or> \<not> (command_oriented_history b \<and> 1 < bh_line_count b)"
  shows "\<exists>b'. check_add_history strmatch now delims line force b = Some (accepts strmatch b line, b') \<and>
    hist_inv (bh_list b') \<and> hist_limit (bh_list b') = hist_limit (bh_list b) \<and>
    lines (bh_list b') =
      (if accepts strmatch b line then
         add_line (hist_limit (bh_list b)) line
           (if history_control b AND HC_ERASEDUPS \<noteq> 0 then filter (\<lambda>l. l \<noteq> line) (lines (bh_list b))
            else lines (bh_list b))
       else lines (bh_list b))"
  using check_add_spec [OF assms, of strmatch now delims line] by auto

definition new_bash_hist :: "nat \<Rightarrow> bash_hist" where
  "new_bash_hist control =
     \<lparr>bh_list = fresh_history, history_control = control, histignore = [], history_lines_this_session = 0,
      hist_last_line_added = False, hist_last_line_pushed = False, current_command_first_line_saved = False,
      remember_on_history = True, command_oriented_history = True, literal_history = False, bh_line_count = 1,
      bh_heredoc = False, bh_delimiter_depth = 0\<rparr>"

lemma new_bash_hist_facts:
  "hist_inv (bh_list (new_bash_hist c))" "bh_line_count (new_bash_hist c) = 1"
  "lines (bh_list (new_bash_hist c)) = []" "hist_limit (bh_list (new_bash_hist c)) = None"
  "history_control (new_bash_hist c) = c" "histignore (new_bash_hist c) = []"
  using fresh_history_inv
  by (simp_all add: new_bash_hist_def lines_def abs_entries_def hist_addrs_def fresh_history_def hist_limit_def)

theorem check_add_history_exact_witness:
  "\<exists>b'. check_add_history (\<lambda>_ _. False) ''#1'' id ''ls'' False (new_bash_hist 0) = Some (True, b') \<and>
    lines (bh_list b') = [''ls'']"
  using check_add_history_exact [OF new_bash_hist_facts(1), of False 0 "\<lambda>_ _. False" "''#1''" id "''ls''"]
  by (auto simp: new_bash_hist_facts accepts_def starts_ignored_def repeats_last_def matches_histignore_def add_line_def)

text \<open>
  C36. Over any sequence of command lines, whatever \<^verbatim>\<open>HISTIGNORE\<close> and the limit: under erasedups no
  line occurs twice in the history, and under ignoredups (without erasedups) no two neighbouring
  lines are equal.
\<close>

theorem history_control_no_duplicates:
  assumes "hist_inv (bh_list b)" and "bh_line_count b \<le> 1"
  shows "\<exists>b'. save_lines strmatch now delims ls b = Some b' \<and>
    (history_control b AND HC_ERASEDUPS \<noteq> 0 \<and> distinct (lines (bh_list b)) \<longrightarrow> distinct (lines (bh_list b'))) \<and>
    (history_control b AND HC_IGNDUPS \<noteq> 0 \<and> history_control b AND HC_ERASEDUPS = 0 \<and>
       distinct_adj (lines (bh_list b)) \<longrightarrow> distinct_adj (lines (bh_list b')))"
proof -
  let ?Q = "\<lambda>xs. (history_control b AND HC_ERASEDUPS \<noteq> 0 \<and> distinct (lines (bh_list b)) \<longrightarrow> distinct xs) \<and>
    (history_control b AND HC_IGNDUPS \<noteq> 0 \<and> history_control b AND HC_ERASEDUPS = 0 \<and>
       distinct_adj (lines (bh_list b)) \<longrightarrow> distinct_adj xs)"
  have "\<exists>b'. save_lines strmatch now delims ls b = Some b' \<and> hist_inv (bh_list b') \<and> same_settings b b' \<and>
    ?Q (lines (bh_list b'))"
  proof (rule save_lines_keeps [OF assms])
    fix b1 l
    assume "same_settings b b1" "?Q (lines (bh_list b1))" "accepts strmatch b1 l"
    then show "?Q (add_line (hist_limit (bh_list b1)) l
        (if history_control b1 AND HC_ERASEDUPS \<noteq> 0 then filter (\<lambda>k. k \<noteq> l) (lines (bh_list b1))
         else lines (bh_list b1)))"
      by (auto simp: same_settings_def accepts_def repeats_last_def intro!: add_line_distinct add_line_adj)
  qed (simp_all add: same_settings_def)
  then show ?thesis by blast
qed

theorem history_control_no_duplicates_witness:
  "\<exists>b'. save_lines (\<lambda>_ _. False) ''#1'' id [''ls'', ''pwd'', ''ls''] (new_bash_hist HC_ERASEDUPS) = Some b' \<and>
    distinct (lines (bh_list b'))"
  using history_control_no_duplicates
    [OF new_bash_hist_facts(1), of HC_ERASEDUPS "\<lambda>_ _. False" "''#1''" id "[''ls'', ''pwd'', ''ls'']"]
  by (auto simp: new_bash_hist_facts HC_ERASEDUPS_def)

text \<open>A history with one line, in the second line of a command.\<close>

lemma one_line_history:
  "\<exists>b :: bash_hist. hist_inv (bh_list b) \<and> lines (bh_list b) = [l] \<and> command_oriented_history b \<and> bh_line_count b = 2 \<and>
    \<not> bh_heredoc b \<and> \<not> literal_history b \<and> bh_delimiter_depth b = 0"
proof -
  obtain h' where h': "really_add_history ''#1'' l (new_bash_hist 0) = Some (saved_as_entry (new_bash_hist 0\<lparr>bh_list := h'\<rparr>))"
    "hist_inv h'" "lines h' = [l]"
    using really_add_spec [OF new_bash_hist_facts(1), of "''#1''" l 0] by (auto simp: new_bash_hist_facts add_line_def)
  then show ?thesis
    by (intro exI [of _ "new_bash_hist 0\<lparr>bh_list := h', bh_line_count := 2\<rparr>"]) (simp add: new_bash_hist_def)
qed

text \<open>
  C37. A further line of a command is joined to the last entry and leaves the others and their
  number alone: with the delimiter between, without it and without the backslash after an escaped
  newline, without its semicolon after a newline. When the last entry is empty or a single
  backslash and no quote is open, the code reads a byte before the line.
\<close>

theorem bash_add_history_joins:
  assumes "hist_inv (bh_list b)" and "lines (bh_list b) = ls @ [cur]"
    and "command_oriented_history b" and "1 < bh_line_count b" and "\<not> bh_heredoc b" and "\<not> literal_history b"
  shows "if bh_delimiter_depth b = 0 \<and> (cur = [] \<or> cur = [CHR 0x5C])
    then bash_add_history now delims line b = None
    else \<exists>h'. bash_add_history now delims line b = Some (b\<lparr>bh_list := h'\<rparr>) \<and> hist_inv h' \<and>
      lines h' = ls @ [join_text (bh_delimiter_depth b) cur (delims line) line]"
proof -
  have "chars_to_add delims line b = Some (delims line)"
    using assms(5,6) by (simp add: chars_to_add_some)
  then show ?thesis
    using joined_add [OF assms(1) _ assms(3,4), of delims line "delims line" now] assms(2)
    by (auto simp: joined_line_exact)
qed

theorem bash_add_history_joins_witness:
  "(\<exists>b. lines (bh_list b) = [[CHR 0x5C]] \<and> bash_add_history ''#1'' (\<lambda>_. ''; '') ''ls'' b = None) \<and>
   (\<exists>b b'. lines (bh_list b) = [''for i''] \<and> bash_add_history ''#1'' (\<lambda>_. ''; '') ''do'' b = Some b' \<and>
      lines (bh_list b') = [''for i; do''])"
proof -
  obtain b :: bash_hist where b: "hist_inv (bh_list b)" "lines (bh_list b) = [] @ [[CHR 0x5C]]" "command_oriented_history b"
    "1 < bh_line_count b" "\<not> bh_heredoc b" "\<not> literal_history b" "bh_delimiter_depth b = 0"
    using one_line_history [of "[CHR 0x5C]"] by auto
  obtain c :: bash_hist where c: "hist_inv (bh_list c)" "lines (bh_list c) = [] @ [''for i'']" "command_oriented_history c"
    "1 < bh_line_count c" "\<not> bh_heredoc c" "\<not> literal_history c" "bh_delimiter_depth c = 0"
    using one_line_history [of "''for i''"] by auto
  have "bash_add_history ''#1'' (\<lambda>_. ''; '') ''ls'' b = None"
    using bash_add_history_joins [OF b(1-6), of "''#1''" "\<lambda>_. ''; ''" "''ls''"] b(7) by simp
  moreover have "\<exists>c'. bash_add_history ''#1'' (\<lambda>_. ''; '') ''do'' c = Some c' \<and> lines (bh_list c') = [''for i; do'']"
    using bash_add_history_joins [OF c(1-6), of "''#1''" "\<lambda>_. ''; ''" "''do''"] c(7)
    by (auto simp: join_text_def escaped_newline_def)
  ultimately show ?thesis using b(2) c(2) by auto
qed

end
