(* ===== verification/Brace_Expansion.thy ===== *)
theory Brace_Expansion
  imports Number_Text
begin

text \<open>
  Brace expansion, \<^verbatim>\<open>braces.c\<close>, in a single-byte locale: the scanner \<^verbatim>\<open>brace_gobbler\<close>, lists
  (\<^verbatim>\<open>{a,b}\<close>), sequences (\<^verbatim>\<open>{1..9..2}\<close>) with the arithmetic of \<^verbatim>\<open>mkseq\<close> at the widths of C, and
  the recursion of \<^verbatim>\<open>brace_expand\<close>. \<^verbatim>\<open>extract_command_subst\<close> is an argument: how many bytes a
  command substitution takes after its opening parenthesis.
\<close>

section \<open>Characters and substrings\<close>

abbreviation LBRACE :: char where "LBRACE \<equiv> CHR 0x7B"
abbreviation RBRACE :: char where "RBRACE \<equiv> CHR 0x7D"
abbreviation BACKSLASH :: char where "BACKSLASH \<equiv> CHR 0x5C"
abbreviation DQUOTE :: char where "DQUOTE \<equiv> CHR 0x22"
abbreviation SQUOTE :: char where "SQUOTE \<equiv> CHR 0x27"
abbreviation BQUOTE :: char where "BQUOTE \<equiv> CHR 0x60"
abbreviation COMMA :: char where "COMMA \<equiv> CHR '',''"
abbreviation DOT :: char where "DOT \<equiv> CHR ''.''"
abbreviation DOLLAR :: char where "DOLLAR \<equiv> CHR ''$''"
abbreviation LPAREN :: char where "LPAREN \<equiv> CHR ''(''"

definition brace_whitespace :: "char \<Rightarrow> bool" where
  "brace_whitespace c \<longleftrightarrow> c \<in> {NUL, CHR '' '', CHR 0x09, CHR 0x0A}"

definition substring :: "cstring \<Rightarrow> nat \<Rightarrow> nat \<Rightarrow> cstring" where
  "substring s start stop = take (stop - start) (drop start s)"

section \<open>The scanner\<close>

text \<open>
  The locals of the loop of \<^verbatim>\<open>brace_gobbler\<close>; \<open>g_quoted\<close> is NUL or the open quote. One round
  at a character of the string either goes on or stops there (\<open>None\<close>).
\<close>

record gobbler =
  g_index :: nat
  g_pass_next :: bool
  g_quoted :: char
  g_level :: nat
  g_commas :: nat

definition gobble_step :: "(cstring \<Rightarrow> nat \<Rightarrow> nat) \<Rightarrow> cstring \<Rightarrow> char \<Rightarrow> gobbler \<Rightarrow> gobbler option" where
  "gobble_step comsub str satisfy g =
     (let i = g_index g; c = c_at str i; d = c_at str (i + 1); quoted = g_quoted g; level = g_level g;
          next = g\<lparr>g_index := i + 1, g_pass_next := False\<rparr>;
          after_comsub = g\<lparr>g_index := i + 2 + comsub str (i + 2) + 1\<rparr>
      in if g_pass_next g then Some next
         else if c = BACKSLASH \<and> quoted \<in> {NUL, DQUOTE, BQUOTE} then Some (next\<lparr>g_pass_next := True\<rparr>)
         else if c = DOLLAR \<and> d = LBRACE \<and> quoted \<noteq> SQUOTE
         then Some (next\<lparr>g_pass_next := True, g_level := (if quoted = NUL then level + 1 else level)\<rparr>)
         else if quoted \<noteq> NUL then
           if quoted = DQUOTE \<and> c = DOLLAR \<and> d = LPAREN then Some after_comsub
           else Some (next\<lparr>g_quoted := (if c = quoted then NUL else quoted)\<rparr>)
         else if c \<in> {DQUOTE, SQUOTE, BQUOTE} then Some (next\<lparr>g_quoted := c\<rparr>)
         else if c \<in> {DOLLAR, CHR ''<'', CHR ''>''} \<and> d = LPAREN then Some after_comsub
         else if c = satisfy \<and> level = 0 \<and> 0 < g_commas g then
           if c = LBRACE \<and> (i = 0 \<or> brace_whitespace (c_at str (i - 1))) \<and> (brace_whitespace d \<or> d = RBRACE)
           then Some next
           else None
         else if c = LBRACE then Some (next\<lparr>g_level := level + 1\<rparr>)
         else if c = RBRACE \<and> 0 < level then Some (next\<lparr>g_level := level - 1\<rparr>)
         else if satisfy = RBRACE \<and> level = 0 \<and>
                 (c = COMMA \<or> c = DOT \<and> d = DOT \<and> c_at str (i + 2) \<noteq> satisfy)
         then Some (next\<lparr>g_commas := g_commas g + 1\<rparr>)
         else Some next)"

lemma gobble_step_forward: "gobble_step comsub str satisfy g = Some g' \<Longrightarrow> g_index g < g_index g'"
  by (auto simp: gobble_step_def Let_def split: if_splits)

lemma gobble_step_stop:
  "gobble_step comsub str satisfy g = None \<Longrightarrow> c_at str (g_index g) = satisfy"
  by (auto simp: gobble_step_def Let_def split: if_splits)

function gobble :: "(cstring \<Rightarrow> nat \<Rightarrow> nat) \<Rightarrow> cstring \<Rightarrow> char \<Rightarrow> gobbler \<Rightarrow> char \<times> nat" where
  "gobble comsub str satisfy g =
     (if length str \<le> g_index g then (NUL, g_index g)
      else case gobble_step comsub str satisfy g of
             None \<Rightarrow> (c_at str (g_index g), g_index g)
           | Some g' \<Rightarrow> gobble comsub str satisfy g')"
  by pat_completeness auto
termination
  by (relation "measure (\<lambda>(comsub, str, satisfy, g). length str - g_index g)")
    (auto dest: gobble_step_forward)

declare gobble.simps [simp del]

lemma gobble_end: "length str \<le> g_index g \<Longrightarrow> gobble comsub str satisfy g = (NUL, g_index g)"
  by (simp add: gobble.simps)

lemma gobble_stop:
  "g_index g < length str \<Longrightarrow> gobble_step comsub str satisfy g = None \<Longrightarrow>
   gobble comsub str satisfy g = (c_at str (g_index g), g_index g)"
  by (simp add: gobble.simps)

lemma gobble_next:
  "g_index g < length str \<Longrightarrow> gobble_step comsub str satisfy g = Some g' \<Longrightarrow>
   gobble comsub str satisfy g = gobble comsub str satisfy g'"
  by (subst gobble.simps) simp

definition brace_gobbler :: "(cstring \<Rightarrow> nat \<Rightarrow> nat) \<Rightarrow> cstring \<Rightarrow> nat \<Rightarrow> char \<Rightarrow> char \<times> nat" where
  "brace_gobbler comsub str indx satisfy =
     gobble comsub str satisfy
       \<lparr>g_index = indx, g_pass_next = False, g_quoted = NUL, g_level = 0,
        g_commas = (if satisfy = RBRACE then 0 else 1)\<rparr>"

text \<open>Where the scanner stops: at the character it was asked for, or at the end.\<close>

lemma gobble_stops:
  "gobble comsub str satisfy g = (c, j) \<Longrightarrow>
   g_index g \<le> j \<and> (c = NUL \<and> length str \<le> j \<or> c = satisfy \<and> j < length str \<and> str ! j = c)"
proof (induction comsub str satisfy g rule: gobble.induct)
  case (1 comsub str satisfy g)
  show ?case
  proof (cases "length str \<le> g_index g")
    case True
    then show ?thesis using "1.prems" by (simp add: gobble_end)
  next
    case False
    show ?thesis
    proof (cases "gobble_step comsub str satisfy g")
      case None
      then show ?thesis
        using "1.prems" False gobble_step_stop [OF None] by (auto simp: gobble_stop c_at_def)
    next
      case (Some g')
      then show ?thesis
        using "1.prems" "1.IH" [OF False Some] False gobble_step_forward [OF Some] by (auto simp: gobble_next)
    qed
  qed
qed

lemma brace_gobbler_stops:
  assumes "brace_gobbler comsub str i satisfy = (c, j)" and "satisfy \<noteq> NUL"
  shows "i \<le> j" "c = NUL \<and> length str \<le> j \<or> c = satisfy \<and> j < length str \<and> str ! j = c"
  using gobble_stops [OF assms(1) [unfolded brace_gobbler_def]] by auto

lemma brace_gobbler_range:
  "(c, j) = brace_gobbler comsub str i satisfy \<Longrightarrow> satisfy \<noteq> NUL \<Longrightarrow>
   i \<le> j \<and> (c = NUL \<and> length str \<le> j \<or> c = satisfy \<and> j < length str \<and> str ! j = c)"
  using brace_gobbler_stops [of comsub str i satisfy c j] by auto

section \<open>Sequences\<close>

datatype seq_type = ST_BAD | ST_INT | ST_CHAR | ST_ZINT

definition ADDOVERFLOW :: "int \<Rightarrow> int \<Rightarrow> int \<Rightarrow> int \<Rightarrow> bool" where
  "ADDOVERFLOW a b minv maxv \<longleftrightarrow> 0 < a \<and> maxv - a < b \<or> a < 0 \<and> b < minv - a"

definition SUBOVERFLOW :: "int \<Rightarrow> int \<Rightarrow> int \<Rightarrow> int \<Rightarrow> bool" where
  "SUBOVERFLOW a b minv maxv \<longleftrightarrow> 0 < b \<and> a < minv + b \<or> b < 0 \<and> maxv + b < a"

text \<open>Division of C truncates; \<open>- INTMAX_MIN\<close> is \<open>INTMAX_MIN\<close> again.\<close>

definition c_quot :: "int \<Rightarrow> int \<Rightarrow> int" where
  "c_quot a b = sgn a * sgn b * (\<bar>a\<bar> div \<bar>b\<bar>)"

definition sh_imaxabs :: "int \<Rightarrow> int" where
  "sh_imaxabs x = (if 0 \<le> x then x else wrap64 (- x))"

text \<open>\<^verbatim>\<open>asprintf (&t, "%0*d", width, arg)\<close> with \<open>int arg\<close>.\<close>

definition zero_padded :: "nat \<Rightarrow> int \<Rightarrow> cstring" where
  "zero_padded width arg =
     (let ds = decimal_digits (nat \<bar>arg\<bar>); sg = (if arg < 0 then ''-'' else [])
      in sg @ replicate (width - length sg - length ds) (CHR ''0'') @ ds)"

definition seq_item :: "seq_type \<Rightarrow> nat \<Rightarrow> int \<Rightarrow> cstring" where
  "seq_item ty width n =
     (case ty of
        ST_INT \<Rightarrow> itos n
      | ST_ZINT \<Rightarrow> zero_padded width (to_int32 n)
      | _ \<Rightarrow> (let c = char_of (nat (n mod 256)) in if c = NUL then [] else [c]))"

text \<open>
  The \<open>do\<close> loop: the values it goes through. It is never reached with a step of 0, for which it
  would not end.
\<close>

function seq_values :: "int \<Rightarrow> int \<Rightarrow> int \<Rightarrow> int list" where
  "seq_values n fin incr =
     n # (if incr = 0 \<or> ADDOVERFLOW n incr INTMAX_MIN INTMAX_MAX then []
          else let n' = n + incr
               in if incr < 0 \<and> n' < fin \<or> 0 < incr \<and> fin < n' then [] else seq_values n' fin incr)"
  by pat_completeness auto
termination
  by (relation "measure (\<lambda>(n, fin, incr). if 0 < incr then nat (fin - n) else nat (n - fin))") auto

declare seq_values.simps [simp del]

text \<open>
  \<open>Some None\<close> is the null pointer. The array has room for \<open>nelem + 1\<close> pointers, where \<open>nelem\<close>
  is the number of elements converted to \<open>int\<close>; a negative size cannot be allocated. Storing more
  (the elements and a null) leaves the array: no result.
\<close>

definition mkseq :: "int \<Rightarrow> int \<Rightarrow> int \<Rightarrow> seq_type \<Rightarrow> nat \<Rightarrow> cstring list option option" where
  "mkseq start fin incr0 ty width =
     (let incr1 = (if incr0 = 0 then 1 else incr0)
      in if start < fin \<and> incr1 = INTMAX_MIN then Some None
         else
           let incr = (if fin < start \<and> 0 < incr1 \<or> start < fin \<and> incr1 < 0 then - incr1 else incr1)
           in if SUBOVERFLOW fin start (INTMAX_MIN + 3) (INTMAX_MAX - 2) then Some None
              else
                let prevn = sh_imaxabs (fin - start)
                in if ADDOVERFLOW (c_quot prevn (sh_imaxabs incr)) 1 INTMAX_MIN INTMAX_MAX then Some None
                   else
                     let nelem = to_int32 (c_quot prevn (sh_imaxabs incr) + 1)
                     in if INT_MAX - 2 < nelem \<or> nelem + 1 < 0 then Some None
                        else
                          let result = map (seq_item ty width) (seq_values start fin incr)
                          in if nelem + 1 < int (length result) + 1 then None else Some (Some result))"

section \<open>Sequence terms\<close>

text \<open>\<^verbatim>\<open>strstr (text, "..")\<close>: the text before and after.\<close>

fun split_at_dots :: "cstring \<Rightarrow> (cstring \<times> cstring) option" where
  "split_at_dots [] = None"
| "split_at_dots (c # s) =
     (if c = DOT \<and> c_at s 0 = DOT then Some ([], drop 1 s)
      else map_option (\<lambda>(l, r). (c # l, r)) (split_at_dots s))"

text \<open>
  The right side: its type and value, and what follows them (the pointer \<open>ep\<close>); then the
  increment, what follows it, and whether it can be used.
\<close>

definition seq_rhs :: "cstring \<Rightarrow> seq_type \<times> int \<times> cstring" where
  "seq_rhs rhs =
     (if is_digit (c_at rhs 0) \<or> (c_at rhs 0 = CHR ''+'' \<or> c_at rhs 0 = CHR ''-'') \<and> is_digit (c_at rhs 1) then
        (case strtoimax rhs of
           (tr, rest, erange) \<Rightarrow>
             let ep = (case rest of None \<Rightarrow> rhs | Some r \<Rightarrow> r)
             in (if erange \<or> ep \<noteq> [] \<and> c_at ep 0 \<noteq> DOT then ST_BAD else ST_INT, tr, ep))
      else if is_alpha (c_at rhs 0) \<and> (length rhs = 1 \<or> c_at rhs 1 = DOT)
      then (ST_CHAR, uchar (c_at rhs 0), drop 1 rhs)
      else (ST_BAD, 0, []))"

definition seq_incr :: "cstring \<Rightarrow> int \<times> cstring \<times> bool" where
  "seq_incr ep =
     (if c_at ep 0 = DOT \<and> c_at ep 1 = DOT \<and> 2 < length ep then
        (case strtoimax (drop 2 ep) of
           (incr, rest, erange) \<Rightarrow>
             let ep' = (case rest of None \<Rightarrow> drop 2 ep | Some r \<Rightarrow> r) in (incr, ep', ep' = [] \<and> \<not> erange))
      else (1, ep, ep = []))"

text \<open>Zero padding of the terms: the type and the width from the two sides.\<close>

definition seq_width :: "cstring \<Rightarrow> nat \<Rightarrow> cstring \<Rightarrow> nat \<Rightarrow> seq_type \<times> nat" where
  "seq_width lhs lhs_l rhs rhs_l =
     (let (t1, w1) = (if 1 < lhs_l \<and> c_at lhs 0 = CHR ''0'' then (ST_ZINT, lhs_l) else (ST_INT, 0));
          (t2, w2) = (if 2 < lhs_l \<and> c_at lhs 0 = CHR ''-'' \<and> c_at lhs 1 = CHR ''0'' then (ST_ZINT, lhs_l) else (t1, w1));
          (t3, w3) = (if 1 < rhs_l \<and> c_at rhs 0 = CHR ''0'' \<and> w2 < rhs_l then (ST_ZINT, rhs_l) else (t2, w2));
          (t4, w4) = (if 2 < rhs_l \<and> c_at rhs 0 = CHR ''-'' \<and> c_at rhs 1 = CHR ''0'' \<and> w3 < rhs_l
                      then (ST_ZINT, rhs_l) else (t3, w3));
          w5 = (if w4 < lhs_l \<and> t4 = ST_ZINT then lhs_l else w4)
      in (t4, if w5 < rhs_l \<and> t4 = ST_ZINT then rhs_l else w5))"

definition expand_seqterm :: "cstring \<Rightarrow> cstring list option option" where
  "expand_seqterm str =
     (case split_at_dots str of
        None \<Rightarrow> Some None
      | Some (lhs, rhs) \<Rightarrow>
          if lhs = [] \<or> rhs = [] then Some None
          else
            let tl = legal_number (Some lhs);
                lhs_t = (if tl \<noteq> None then ST_INT else if is_alpha (c_at lhs 0) \<and> length lhs = 1 then ST_CHAR else ST_BAD);
                (rhs_t, tr, ep) = seq_rhs rhs;
                (incr, ep', incr_ok) = seq_incr ep
            in if rhs_t = ST_BAD \<or> \<not> incr_ok \<or> lhs_t \<noteq> rhs_t then Some None
               else if lhs_t = ST_CHAR then mkseq (uchar (c_at lhs 0)) tr incr ST_CHAR 1
               else
                 let tlen = length str - (length ep - length ep');
                     (ty, width) = seq_width lhs (length lhs) rhs (tlen - length lhs - 2)
                 in mkseq (the tl) tr incr ty width)"

section \<open>Expansion\<close>

text \<open>The cross product; the short cuts of the code for a single empty string agree with it.\<close>

definition array_concat :: "cstring list \<Rightarrow> cstring list \<Rightarrow> cstring list" where
  "array_concat arr1 arr2 =
     (if arr1 = [[]] then arr2
      else if arr2 = [[]] then arr1
      else concat (map (\<lambda>s1. map (\<lambda>s2. s1 @ s2) arr2) arr1))"

text \<open>The first open brace that starts a brace expression, as the loop of \<^verbatim>\<open>brace_expand\<close> finds it.\<close>

function find_brace :: "(cstring \<Rightarrow> nat \<Rightarrow> nat) \<Rightarrow> cstring \<Rightarrow> nat \<Rightarrow> char \<times> nat" where
  "find_brace comsub str i0 =
     (case brace_gobbler comsub str i0 LBRACE of
        (c, i) \<Rightarrow>
          if c = NUL then (c, i)
          else if fst (brace_gobbler comsub str (i + 1) RBRACE) = NUL then find_brace comsub str (i + 1)
          else (c, i))"
  by pat_completeness auto
termination
  by (relation "measure (\<lambda>(comsub, str, i). length str - i)") (auto dest!: brace_gobbler_range)

declare find_brace.simps [simp del]

text \<open>The amble has a comma that no backslash hides.\<close>

fun has_separator :: "cstring \<Rightarrow> bool" where
  "has_separator [] = False"
| "has_separator (c # s) =
     (if c = BACKSLASH then has_separator (drop 1 s) else c = COMMA \<or> has_separator s)"

text \<open>The loop of \<^verbatim>\<open>expand_amble\<close>: the substrings it expands one after the other.\<close>

function amble_pieces :: "(cstring \<Rightarrow> nat \<Rightarrow> nat) \<Rightarrow> cstring \<Rightarrow> nat \<Rightarrow> cstring list" where
  "amble_pieces comsub str start =
     (case brace_gobbler comsub str start COMMA of
        (c, i) \<Rightarrow>
          substring str start i # (if c = NUL then [] else amble_pieces comsub str (i + 1)))"
  by pat_completeness auto
termination
  by (relation "measure (\<lambda>(comsub, str, i). length str - i)") (auto dest!: brace_gobbler_range)

declare amble_pieces.simps [simp del]

lemma amble_pieces_shorter: "p \<in> set (amble_pieces comsub str start) \<Longrightarrow> length p \<le> length str"
proof (induction comsub str start rule: amble_pieces.induct)
  case (1 comsub str start)
  then show ?case
    using amble_pieces.simps [of comsub str start] by (auto simp: substring_def split: prod.splits if_splits)
qed

text \<open>The results one after the other, when all exist.\<close>

primrec collect :: "'a list option list \<Rightarrow> 'a list option" where
  "collect [] = Some []"
| "collect (x # xs) = do { y \<leftarrow> x; ys \<leftarrow> collect xs; Some (y @ ys) }"

text \<open>
  \<open>None\<close> is a store outside the array of a sequence. A sequence term that is none stays as it is,
  with its braces, and the rest of the text is expanded.
\<close>

function brace_expand :: "(cstring \<Rightarrow> nat \<Rightarrow> nat) \<Rightarrow> cstring \<Rightarrow> cstring list option" where
  "brace_expand comsub str =
     (case find_brace comsub str 0 of
        (c, i) \<Rightarrow>
          if c \<noteq> LBRACE then Some [take i str]
          else
            (case brace_gobbler comsub str (i + 1) RBRACE of
               (c1, j) \<Rightarrow>
                 if c1 = NUL then Some [str]
                 else
                   let amble = substring str (i + 1) j;
                       postamble = drop (j + 1) str;
                       add_tack = (\<lambda>tack.
                         let result = array_concat [take i str] tack
                         in if postamble = [] then Some result
                            else do { rest \<leftarrow> brace_expand comsub postamble; Some (array_concat result rest) })
                   in if has_separator amble then
                        do { tack \<leftarrow> collect (map (brace_expand comsub) (amble_pieces comsub amble 0)); add_tack tack }
                      else
                        do { seq \<leftarrow> expand_seqterm amble;
                             (case seq of
                                Some tack \<Rightarrow> add_tack tack
                              | None \<Rightarrow>
                                  if postamble \<noteq> [] then add_tack [substring str i (j + 1)] else Some [str]) }))"
  by pat_completeness auto
termination
  by (relation "measure (\<lambda>(comsub, str). length str)")
    (auto dest!: brace_gobbler_range amble_pieces_shorter simp: substring_def)

declare brace_expand.simps [simp del]

section \<open>Words with alternatives\<close>

text \<open>
  What the user means: a word is made of characters and of alternatives, each a word again; it
  stands for all its combinations, the leftmost choice varying slowest.
\<close>

datatype bpart = Lit char | Alt "bpart list list"

fun render_part :: "bpart \<Rightarrow> cstring" and render :: "bpart list \<Rightarrow> cstring" and render_alts :: "bpart list list \<Rightarrow> cstring" where
  "render_part (Lit c) = [c]"
| "render_part (Alt ws) = LBRACE # render_alts ws @ [RBRACE]"
| "render [] = []"
| "render (p # ps) = render_part p @ render ps"
| "render_alts [] = []"
| "render_alts (w # ws) = render w @ (if ws = [] then [] else COMMA # render_alts ws)"

definition plain_char :: "char \<Rightarrow> bool" where
  "plain_char c \<longleftrightarrow>
     c \<notin> {BACKSLASH, DOLLAR, CHR ''<'', CHR ''>'', DQUOTE, SQUOTE, BQUOTE, LBRACE, RBRACE, COMMA, DOT} \<and>
     \<not> brace_whitespace c"

fun wf_part :: "bpart \<Rightarrow> bool" and wf_word :: "bpart list \<Rightarrow> bool" and wf_alts :: "bpart list list \<Rightarrow> bool" where
  "wf_part (Lit c) = plain_char c"
| "wf_part (Alt ws) = (1 < length ws \<and> wf_alts ws)"
| "wf_word [] = True"
| "wf_word (p # ps) = (wf_part p \<and> wf_word ps)"
| "wf_alts [] = True"
| "wf_alts (w # ws) = (wf_word w \<and> wf_alts ws)"

definition product :: "cstring list \<Rightarrow> cstring list \<Rightarrow> cstring list" where
  "product xs ys = concat (map (\<lambda>x. map (\<lambda>y. x @ y) ys) xs)"

fun meaning_part :: "bpart \<Rightarrow> cstring list" and meaning :: "bpart list \<Rightarrow> cstring list"
  and meaning_alts :: "bpart list list \<Rightarrow> cstring list" where
  "meaning_part (Lit c) = [[c]]"
| "meaning_part (Alt ws) = meaning_alts ws"
| "meaning [] = [[]]"
| "meaning (p # ps) = product (meaning_part p) (meaning ps)"
| "meaning_alts [] = []"
| "meaning_alts (w # ws) = meaning w @ meaning_alts ws"

lemma product_simps:
  "product [[]] ys = ys" "product xs [[]] = xs" "product [] ys = []"
  "product (x # xs) ys = map (\<lambda>y. x @ y) ys @ product xs ys"
  "product (xs @ xs') ys = product xs ys @ product xs' ys"
proof -
  show "product xs [[]] = xs" by (induction xs) (simp_all add: product_def)
qed (simp_all add: product_def map_idI)

lemma array_concat_product: "array_concat xs ys = product xs ys"
  by (auto simp: array_concat_def product_simps) (simp add: product_def)

lemma product_map: "product (map (\<lambda>y. x @ y) ys) zs = map (\<lambda>y. x @ y) (product ys zs)"
  by (induction ys) (simp_all add: product_simps comp_def)

lemma product_assoc: "product (product xs ys) zs = product xs (product ys zs)"
  by (induction xs) (simp_all add: product_simps product_map)

lemma meaning_lits: "meaning (map Lit cs @ ps) = product [cs] (meaning ps)"
  by (induction cs) (simp_all add: product_simps comp_def)

lemma render_lits: "render (map Lit cs @ ps) = cs @ render ps"
  by (induction cs) simp_all

lemma wf_lits: "wf_word (map Lit cs @ ps) \<longleftrightarrow> list_all plain_char cs \<and> wf_word ps"
  by (induction cs) simp_all

lemma split_word: "\<exists>cs. w = map Lit cs \<or> (\<exists>ws rest. w = map Lit cs @ Alt ws # rest)"
proof (induction w)
  case Nil
  then show ?case by (intro exI [of _ "[]"]) simp
next
  case (Cons p w)
  then obtain cs where cs: "w = map Lit cs \<or> (\<exists>ws rest. w = map Lit cs @ Alt ws # rest)" by blast
  show ?case
  proof (cases p)
    case (Lit c)
    then show ?thesis using cs by (intro exI [of _ "c # cs"]) auto
  next
    case (Alt ws)
    then show ?thesis by (intro exI [of _ "[]"]) auto
  qed
qed

lemma render_Nil_iff [simp]: "render w = [] \<longleftrightarrow> w = []"
proof (cases w)
  case (Cons p ps)
  then show ?thesis by (cases p) simp_all
qed simp

section \<open>The scanner on such words\<close>

text \<open>One round of the scanner outside quotes, by the character it meets.\<close>

definition scan :: "nat \<Rightarrow> nat \<Rightarrow> nat \<Rightarrow> gobbler" where
  "scan i level commas = \<lparr>g_index = i, g_pass_next = False, g_quoted = NUL, g_level = level, g_commas = commas\<rparr>"

lemma gobble_plain:
  assumes "i < length str" "plain_char (str ! i)" "satisfy \<in> {COMMA, RBRACE, LBRACE}"
  shows "gobble comsub str satisfy (scan i level commas) = gobble comsub str satisfy (scan (i + 1) level commas)"
  using assms by (intro gobble_next) (auto simp: gobble_step_def scan_def Let_def plain_char_def c_at_def)

lemma gobble_open:
  assumes "i < length str" "str ! i = LBRACE" "satisfy \<in> {COMMA, RBRACE}"
  shows "gobble comsub str satisfy (scan i level commas) = gobble comsub str satisfy (scan (i + 1) (level + 1) commas)"
  using assms by (intro gobble_next) (auto simp: gobble_step_def scan_def Let_def c_at_def)

lemma gobble_close:
  assumes "i < length str" "str ! i = RBRACE" "satisfy \<in> {COMMA, RBRACE}"
  shows "gobble comsub str satisfy (scan i (Suc level) commas) = gobble comsub str satisfy (scan (i + 1) level commas)"
  using assms by (intro gobble_next) (auto simp: gobble_step_def scan_def Let_def c_at_def)

lemma gobble_comma:
  assumes "i < length str" "str ! i = COMMA"
  shows "gobble comsub str RBRACE (scan i level commas) =
      gobble comsub str RBRACE (scan (i + 1) level (if level = 0 then commas + 1 else commas))"
    "gobble comsub str COMMA (scan i (Suc level) commas) = gobble comsub str COMMA (scan (i + 1) (Suc level) commas)"
    "gobble comsub str COMMA (scan i 0 (Suc commas)) = (COMMA, i)"
proof -
  show "gobble comsub str RBRACE (scan i level commas) =
      gobble comsub str RBRACE (scan (i + 1) level (if level = 0 then commas + 1 else commas))"
    using assms by (intro gobble_next) (auto simp: gobble_step_def scan_def Let_def c_at_def)
  show "gobble comsub str COMMA (scan i (Suc level) commas) = gobble comsub str COMMA (scan (i + 1) (Suc level) commas)"
    using assms by (intro gobble_next) (auto simp: gobble_step_def scan_def Let_def c_at_def)
  show "gobble comsub str COMMA (scan i 0 (Suc commas)) = (COMMA, i)"
    using assms by (subst gobble_stop) (auto simp: gobble_step_def scan_def Let_def c_at_def)
qed

lemma gobble_found:
  assumes "i < length str" "str ! i = RBRACE" "0 < commas"
  shows "gobble comsub str RBRACE (scan i 0 commas) = (RBRACE, i)"
  using assms by (subst gobble_stop) (auto simp: gobble_step_def scan_def Let_def c_at_def)

lemma nth_append_at: "(pre @ c # suf) ! length pre = c" "length pre < length (pre @ c # suf)"
  by simp_all

text \<open>
  The scanner passes over a word, and, inside braces, over alternatives, without a change of its
  counters.
\<close>

lemma gobble_over:
  "wf_part p \<Longrightarrow> satisfy \<in> {COMMA, RBRACE} \<Longrightarrow>
     gobble comsub (pre @ render_part p @ suf) satisfy (scan (length pre) level commas) =
     gobble comsub (pre @ render_part p @ suf) satisfy (scan (length pre + length (render_part p)) level commas)"
  "wf_word w \<Longrightarrow> satisfy \<in> {COMMA, RBRACE} \<Longrightarrow>
     gobble comsub (pre @ render w @ suf) satisfy (scan (length pre) level commas) =
     gobble comsub (pre @ render w @ suf) satisfy (scan (length pre + length (render w)) level commas)"
  "wf_alts ws \<Longrightarrow> satisfy \<in> {COMMA, RBRACE} \<Longrightarrow>
     gobble comsub (pre @ render_alts ws @ suf) satisfy (scan (length pre) (Suc level) commas) =
     gobble comsub (pre @ render_alts ws @ suf) satisfy
       (scan (length pre + length (render_alts ws)) (Suc level) commas)"
proof (induction p and w and ws arbitrary: pre suf level and pre suf level and pre suf level
    rule: wf_part_wf_word_wf_alts.induct)
  case (1 c)
  then show ?case
    using gobble_plain [of "length pre" "pre @ c # suf" satisfy comsub level commas] by (auto simp: nth_append)
next
  case (2 ws)
  let ?str = "pre @ LBRACE # render_alts ws @ RBRACE # suf"
  let ?n = "length pre + 1 + length (render_alts ws)"
  have "gobble comsub ?str satisfy (scan (length pre) level commas) =
      gobble comsub ?str satisfy (scan (length pre + 1) (Suc level) commas)"
    using gobble_open [of "length pre" ?str satisfy comsub level commas] "2.prems"(2) by simp
  also have "\<dots> = gobble comsub ?str satisfy (scan ?n (Suc level) commas)"
    using "2.IH" [of "pre @ [LBRACE]" "RBRACE # suf" level] "2.prems" by simp
  also have "\<dots> = gobble comsub ?str satisfy (scan (?n + 1) level commas)"
    using gobble_close [of ?n ?str satisfy comsub level commas] "2.prems"(2) by (simp add: nth_append)
  finally show ?case by simp
next
  case 3
  then show ?case by simp
next
  case (4 p ps)
  then show ?case
    using "4.IH"(1) [of pre "render ps @ suf" level] "4.IH"(2) [of "pre @ render_part p" suf level] by (simp add: add.assoc)
next
  case 5
  then show ?case by simp
next
  case (6 w ws)
  show ?case
  proof (cases "ws = []")
    case True
    then show ?thesis using "6.IH"(1) [of pre suf "Suc level"] "6.prems" by simp
  next
    case False
    let ?str = "pre @ render w @ COMMA # render_alts ws @ suf"
    let ?n = "length pre + length (render w)"
    have "gobble comsub ?str satisfy (scan (length pre) (Suc level) commas) =
        gobble comsub ?str satisfy (scan ?n (Suc level) commas)"
      using "6.IH"(1) [of pre "COMMA # render_alts ws @ suf" "Suc level"] "6.prems" by simp
    also have "\<dots> = gobble comsub ?str satisfy (scan (?n + 1) (Suc level) commas)"
      using gobble_comma(1,2) [of ?n ?str comsub _ commas] "6.prems"(2) by (auto simp: nth_append)
    also have "\<dots> = gobble comsub ?str satisfy (scan (?n + 1 + length (render_alts ws)) (Suc level) commas)"
      using "6.IH"(2) [of "pre @ render w @ [COMMA]" suf level] "6.prems" by simp
    finally show ?thesis using False by (simp add: add.assoc)
  qed
qed

text \<open>The closing brace of alternatives, with at least one comma before it.\<close>

lemma gobble_alts:
  "wf_alts ws \<Longrightarrow> ws \<noteq> [] \<Longrightarrow> 0 < commas + length (tl ws) \<Longrightarrow>
   gobble comsub (pre @ render_alts ws @ RBRACE # suf) RBRACE (scan (length pre) 0 commas) =
     (RBRACE, length pre + length (render_alts ws))"
proof (induction ws arbitrary: pre commas)
  case Nil
  then show ?case by simp
next
  case (Cons w ws)
  let ?n = "length pre + length (render w)"
  show ?case
  proof (cases "ws = []")
    case True
    let ?str = "pre @ render w @ RBRACE # suf"
    have "gobble comsub ?str RBRACE (scan (length pre) 0 commas) = gobble comsub ?str RBRACE (scan ?n 0 commas)"
      using gobble_over(2) [of w RBRACE comsub pre "RBRACE # suf" 0 commas] Cons.prems(1) by simp
    also have "\<dots> = (RBRACE, ?n)"
      using True Cons.prems(3) by (intro gobble_found) (simp_all add: nth_append)
    finally show ?thesis using True by simp
  next
    case False
    let ?str = "pre @ render w @ COMMA # render_alts ws @ RBRACE # suf"
    have "gobble comsub ?str RBRACE (scan (length pre) 0 commas) = gobble comsub ?str RBRACE (scan ?n 0 commas)"
      using gobble_over(2) [of w RBRACE comsub pre "COMMA # render_alts ws @ RBRACE # suf" 0 commas] Cons.prems(1)
      by simp
    also have "\<dots> = gobble comsub ?str RBRACE (scan (?n + 1) 0 (commas + 1))"
      using gobble_comma(1) [of ?n ?str comsub 0 commas] by (simp add: nth_append)
    also have "\<dots> = (RBRACE, ?n + 1 + length (render_alts ws))"
      using Cons.IH [of "commas + 1" "pre @ render w @ [COMMA]"] Cons.prems(1) False by simp
    finally show ?thesis using False by (simp add: add.assoc)
  qed
qed

lemma brace_gobbler_scan: "brace_gobbler comsub str i satisfy = gobble comsub str satisfy (scan i 0 (if satisfy = RBRACE then 0 else 1))"
  by (simp add: brace_gobbler_def scan_def)

text \<open>The first open brace of a word.\<close>

lemma gobble_plains:
  "list_all plain_char cs \<Longrightarrow> satisfy \<in> {COMMA, RBRACE, LBRACE} \<Longrightarrow>
   gobble comsub (pre @ cs @ suf) satisfy (scan (length pre) level commas) =
   gobble comsub (pre @ cs @ suf) satisfy (scan (length pre + length cs) level commas)"
proof (induction cs arbitrary: pre)
  case Nil
  then show ?case by simp
next
  case (Cons c cs)
  then show ?case
    using gobble_plain [of "length pre" "pre @ c # cs @ suf" satisfy comsub level commas] Cons.IH [of "pre @ [c]"]
    by simp
qed

lemma render_alts_head:
  assumes "wf_alts ws" and "1 < length ws"
  shows "\<exists>c s. render_alts ws = c # s \<and> \<not> brace_whitespace c \<and> c \<noteq> RBRACE"
proof -
  obtain w ws' where ws: "ws = w # ws'" "ws' \<noteq> []" using assms(2) by (cases ws) auto
  show ?thesis
  proof (cases w)
    case Nil
    then show ?thesis using ws by (simp add: brace_whitespace_def)
  next
    case (Cons p ps)
    then show ?thesis
      using assms(1) ws by (cases p) (auto simp: plain_char_def brace_whitespace_def)
  qed
qed

lemma gobble_first_brace:
  assumes "list_all plain_char cs" and "wf_alts ws" and "1 < length ws"
  shows "brace_gobbler comsub (cs @ LBRACE # render_alts ws @ RBRACE # suf) 0 LBRACE = (LBRACE, length cs)"
proof -
  let ?str = "cs @ LBRACE # render_alts ws @ RBRACE # suf"
  obtain c s where head: "render_alts ws = c # s" "\<not> brace_whitespace c" "c \<noteq> RBRACE"
    using render_alts_head [OF assms(2,3)] by blast
  have "brace_gobbler comsub ?str 0 LBRACE = gobble comsub ?str LBRACE (scan (length cs) 0 1)"
    using gobble_plains [of cs LBRACE comsub "[]" "LBRACE # render_alts ws @ RBRACE # suf" 0 1] assms(1)
    by (simp add: brace_gobbler_scan)
  also have "\<dots> = (LBRACE, length cs)"
    using head by (subst gobble_stop) (auto simp: gobble_step_def scan_def Let_def c_at_def nth_append)
  finally show ?thesis .
qed

lemma gobble_matching:
  assumes "wf_alts ws" and "1 < length ws"
  shows "brace_gobbler comsub (cs @ LBRACE # render_alts ws @ RBRACE # suf) (Suc (length cs)) RBRACE =
    (RBRACE, Suc (length cs + length (render_alts ws)))"
proof -
  have "0 < 0 + length (tl ws)" "ws \<noteq> []" using assms(2) by auto
  then show ?thesis
    using gobble_alts [OF assms(1), of 0 comsub "cs @ [LBRACE]" suf] by (simp add: brace_gobbler_scan)
qed

lemma find_brace_word:
  assumes "list_all plain_char cs" and "wf_alts ws" and "1 < length ws"
  shows "find_brace comsub (cs @ LBRACE # render_alts ws @ RBRACE # suf) 0 = (LBRACE, length cs)"
  by (subst find_brace.simps) (simp add: gobble_first_brace [OF assms] gobble_matching [OF assms(2,3)])

lemma find_brace_plain: "list_all plain_char cs \<Longrightarrow> find_brace comsub cs 0 = (NUL, length cs)"
  using gobble_plains [of cs LBRACE comsub "[]" "[]" 0 1]
  by (subst find_brace.simps) (simp add: brace_gobbler_scan gobble_end scan_def)

text \<open>The pieces of the text between the braces.\<close>

lemma amble_pieces_alts:
  "wf_alts ws \<Longrightarrow> ws \<noteq> [] \<Longrightarrow> amble_pieces comsub (pre @ render_alts ws) (length pre) = map render ws"
proof (induction ws arbitrary: pre)
  case Nil
  then show ?case by simp
next
  case (Cons w ws)
  show ?case
  proof (cases "ws = []")
    case True
    have "brace_gobbler comsub (pre @ render w) (length pre) COMMA = (NUL, length pre + length (render w))"
      using gobble_over(2) [of w COMMA comsub pre "[]" 0 1] Cons.prems(1)
      by (simp add: brace_gobbler_scan gobble_end scan_def)
    then show ?thesis
      using True by (subst amble_pieces.simps) (simp add: substring_def)
  next
    case False
    let ?str = "pre @ render w @ COMMA # render_alts ws"
    have "brace_gobbler comsub ?str (length pre) COMMA = (COMMA, length pre + length (render w))"
      using gobble_over(2) [of w COMMA comsub pre "COMMA # render_alts ws" 0 1] Cons.prems(1)
        gobble_comma(3) [of "length pre + length (render w)" ?str comsub 0]
      by (simp add: brace_gobbler_scan nth_append)
    moreover have "amble_pieces comsub ?str (length pre + length (render w) + 1) = map render ws"
      using Cons.IH [of "pre @ render w @ [COMMA]"] Cons.prems(1) False by simp
    ultimately show ?thesis
      using False by (subst amble_pieces.simps) (simp add: substring_def)
  qed
qed

lemma has_separator_plain: "BACKSLASH \<notin> set s \<Longrightarrow> has_separator s \<longleftrightarrow> COMMA \<in> set s"
  by (induction s) auto

lemma no_backslash:
  "wf_part p \<Longrightarrow> BACKSLASH \<notin> set (render_part p)"
  "wf_word w \<Longrightarrow> BACKSLASH \<notin> set (render w)"
  "wf_alts ws \<Longrightarrow> BACKSLASH \<notin> set (render_alts ws)"
  by (induction p and w and ws rule: wf_part_wf_word_wf_alts.induct) (auto simp: plain_char_def)

lemma alts_separator:
  assumes "wf_alts ws" and "1 < length ws"
  shows "has_separator (render_alts ws)"
proof -
  obtain w ws' where "ws = w # ws'" "ws' \<noteq> []" using assms(2) by (cases ws) auto
  then show ?thesis using no_backslash(3) [OF assms(1)] by (simp add: has_separator_plain)
qed

section \<open>Brace expansion computes the meaning of a word\<close>

lemma collect_map:
  "(\<And>w. w \<in> set ws \<Longrightarrow> f (render w) = Some (meaning w)) \<Longrightarrow>
   collect (map f (map render ws)) = Some (meaning_alts ws)"
  by (induction ws) simp_all

lemma render_alts_longer: "w \<in> set ws \<Longrightarrow> length (render w) \<le> length (render_alts ws)"
  by (induction ws) auto

lemma wf_alts_all: "wf_alts ws \<longleftrightarrow> (\<forall>w\<in>set ws. wf_word w)"
  by (induction ws) auto

lemma brace_expand_word: "wf_word w \<Longrightarrow> brace_expand comsub (render w) = Some (meaning w)"
proof (induction w rule: measure_induct_rule [of "\<lambda>w. length (render w)"])
  case (less w)
  obtain cs where "w = map Lit cs \<or> (\<exists>ws rest. w = map Lit cs @ Alt ws # rest)"
    using split_word by blast
  then show ?case
  proof (elim disjE exE)
    assume w: "w = map Lit cs"
    then have "list_all plain_char cs" "render w = cs" "meaning w = [cs]"
      using less.prems wf_lits [of cs "[]"] render_lits [of cs "[]"] meaning_lits [of cs "[]"]
      by (simp_all add: product_simps)
    then show ?thesis by (subst brace_expand.simps) (simp add: find_brace_plain)
  next
    fix ws rest
    assume w: "w = map Lit cs @ Alt ws # rest"
    have wf: "list_all plain_char cs" "wf_alts ws" "1 < length ws" "wf_word rest"
      using less.prems by (simp_all add: w wf_lits)
    have str: "render w = cs @ LBRACE # render_alts ws @ RBRACE # render rest"
      by (simp add: w render_lits)
    have amble: "substring (render w) (Suc (length cs)) (Suc (length cs + length (render_alts ws))) = render_alts ws"
      by (simp add: str substring_def)
    have "\<And>v. v \<in> set ws \<Longrightarrow> brace_expand comsub (render v) = Some (meaning v)"
      using less.IH wf(2) render_alts_longer by (fastforce simp: str wf_alts_all)
    then have tack: "collect (map (brace_expand comsub) (amble_pieces comsub (render_alts ws) 0)) = Some (meaning_alts ws)"
      using collect_map [of ws "brace_expand comsub"] amble_pieces_alts [OF wf(2), of comsub "[]"] wf(3) by fastforce
    have rest: "brace_expand comsub (render rest) = Some (meaning rest)"
      using less.IH wf(4) by (simp add: str)
    have "meaning w = product (product [cs] (meaning_alts ws)) (meaning rest)"
      by (simp add: w meaning_lits product_assoc)
    then show ?thesis
      using find_brace_word [OF wf(1-3), of comsub "render rest"] gobble_matching [OF wf(2,3), of comsub cs "render rest"]
        amble tack rest alts_separator [OF wf(2,3)]
      by (subst brace_expand.simps)
        (cases "rest = []"; simp add: str Let_def array_concat_product product_simps)
  qed
qed

section \<open>The values of a sequence\<close>

lemma seq_values_step:
  assumes "0 < d" and "s = 1 \<or> s = - 1" and "0 \<le> s * (fin - n)" and "intmax_ok fin" "intmax_ok n"
  shows "seq_values n fin (s * d) =
    n # (if s * (fin - n) < d then [] else seq_values (n + s * d) fin (s * d))"
proof -
  have ov: "ADDOVERFLOW n (s * d) INTMAX_MIN INTMAX_MAX \<Longrightarrow> s * (fin - n) < d"
    using assms by (auto simp: ADDOVERFLOW_def intmax_ok_def)
  have stop: "(s * d < 0 \<and> n + s * d < fin \<or> 0 < s * d \<and> fin < n + s * d) \<longleftrightarrow> s * (fin - n) < d"
    using assms(1,2) by auto
  have "s * d \<noteq> 0" using assms(1,2) by auto
  then show ?thesis
    using ov unfolding seq_values.simps [of n fin "s * d"] Let_def stop by auto
qed

lemma seq_values_list:
  assumes "0 < d" and "s = 1 \<or> s = - 1" and "intmax_ok fin"
  shows "0 \<le> s * (fin - n) \<Longrightarrow> intmax_ok n \<Longrightarrow>
    seq_values n fin (s * d) = map (\<lambda>i. n + s * d * int i) [0..<Suc (nat (s * (fin - n) div d))]"
proof (induction "nat (s * (fin - n))" arbitrary: n rule: less_induct)
  case less
  note step = seq_values_step [OF assms(1,2) less.prems(1) assms(3) less.prems(2)]
  show ?case
  proof (cases "s * (fin - n) < d")
    case True
    then have "s * (fin - n) div d = 0" using less.prems by (simp add: div_pos_pos_trivial)
    then show ?thesis using step True by simp
  next
    case False
    have eq: "s * (fin - (n + s * d)) = s * (fin - n) - d" using assms(2) by auto
    have "nat (s * (fin - (n + s * d))) < nat (s * (fin - n))" "0 \<le> s * (fin - (n + s * d))"
      using False assms(1) unfolding eq by auto
    moreover have "intmax_ok (n + s * d)"
      using False assms less.prems by (auto simp: intmax_ok_def)
    ultimately have IH: "seq_values (n + s * d) fin (s * d) =
        map (\<lambda>i. n + s * d + s * d * int i) [0..<Suc (nat (s * (fin - (n + s * d)) div d))]"
      by (rule less.hyps)
    have q: "s * (fin - n) div d = (s * (fin - n) - d) div d + 1"
      using assms(1) div_add_self2 [of d "s * (fin - n) - d"] by simp
    have "0 \<le> (s * (fin - n) - d) div d" using False assms(1) by (simp add: pos_imp_zdiv_nonneg_iff)
    then have k: "nat (s * (fin - n) div d) = Suc (nat ((s * (fin - n) - d) div d))"
      unfolding q by simp
    let ?m = "nat ((s * (fin - n) - d) div d)"
    have upt: "[0..<Suc (Suc ?m)] = 0 # map Suc [0..<Suc ?m]"
      unfolding map_Suc_upt by (rule upt_conv_Cons) simp
    have "seq_values n fin (s * d) = n # map (\<lambda>i. n + s * d + s * d * int i) [0..<Suc ?m]"
      using step False IH unfolding eq by simp
    also have "\<dots> = map (\<lambda>i. n + s * d * int i) [0..<Suc (Suc ?m)]"
      unfolding upt by (simp add: comp_def distrib_left add.assoc del: upt_Suc)
    finally show ?thesis unfolding k .
  qed
qed

text \<open>The elements of a sequence: their number, and what \<^verbatim>\<open>mkseq\<close> means to produce.\<close>

definition seq_count :: "int \<Rightarrow> int \<Rightarrow> int \<Rightarrow> int" where
  "seq_count start fin incr = \<bar>fin - start\<bar> div (if incr = 0 then 1 else \<bar>incr\<bar>) + 1"

definition seq_elements :: "int \<Rightarrow> int \<Rightarrow> int \<Rightarrow> int list" where
  "seq_elements start fin incr =
     map (\<lambda>i. start + (if fin < start then - 1 else 1) * (if incr = 0 then 1 else \<bar>incr\<bar>) * int i)
       [0..<nat (seq_count start fin incr)]"

lemma seq_elements_length: "int (length (seq_elements start fin incr)) = seq_count start fin incr"
  by (simp add: seq_elements_def seq_count_def pos_imp_zdiv_nonneg_iff)

lemma mkseq_values:
  assumes ok: "intmax_ok start" "intmax_ok fin" and incr: "d = (if incr0 = 0 then 1 else \<bar>incr0\<bar>)"
  defines "incr1 \<equiv> if incr0 = 0 then 1 else incr0"
  shows "seq_values start fin (if fin < start \<and> 0 < incr1 \<or> start < fin \<and> incr1 < 0 then - incr1 else incr1) =
    seq_elements start fin incr0"
proof -
  have d: "0 < d" by (simp add: incr)
  let ?incr = "if fin < start \<and> 0 < incr1 \<or> start < fin \<and> incr1 < 0 then - incr1 else incr1"
  obtain s where s: "s = 1 \<or> s = - 1" "?incr = s * d" "0 \<le> s * (fin - start)" "s * (fin - start) = \<bar>fin - start\<bar>"
    "start \<noteq> fin \<longrightarrow> s = (if fin < start then - 1 else 1)"
  proof (cases "start = fin")
    case True
    then show thesis using that [of "if incr1 < 0 then - 1 else 1"] by (auto simp: incr incr1_def)
  next
    case False
    then show thesis using that [of "if fin < start then - 1 else 1"] by (auto simp: incr incr1_def)
  qed
  have list: "seq_values start fin ?incr = map (\<lambda>i. start + s * d * int i) [0..<Suc (nat (\<bar>fin - start\<bar> div d))]"
    using seq_values_list [OF d s(1) ok(2) s(3) ok(1)] s(4) unfolding s(2) by simp
  have "0 \<le> \<bar>fin - start\<bar> div d" using d by (simp add: pos_imp_zdiv_nonneg_iff)
  then have n: "nat (seq_count start fin incr0) = Suc (nat (\<bar>fin - start\<bar> div d))"
    unfolding seq_count_def incr [symmetric] by simp
  show ?thesis
  proof (cases "start = fin")
    case True
    then have "\<bar>fin - start\<bar> div d = 0" by simp
    then show ?thesis unfolding list seq_elements_def n by simp
  next
    case False
    then show ?thesis unfolding list seq_elements_def n incr [symmetric] using s(5) by simp
  qed
qed

lemma mkseq_result:
  assumes ok: "intmax_ok start" "intmax_ok fin" "intmax_ok incr0" and "incr0 \<noteq> INTMAX_MIN"
    and "\<not> (start = 0 \<and> fin = INTMAX_MIN)"
  defines "k \<equiv> seq_count start fin incr0"
  shows "mkseq start fin incr0 ty width =
    (if SUBOVERFLOW fin start (INTMAX_MIN + 3) (INTMAX_MAX - 2) \<or> INTMAX_MAX < k then Some None
     else if to_int32 k < - 1 \<or> INT_MAX - 2 < to_int32 k then Some None
     else if k \<le> INT_MAX - 2 then Some (Some (map (seq_item ty width) (seq_elements start fin incr0)))
     else None)"
proof (cases "SUBOVERFLOW fin start (INTMAX_MIN + 3) (INTMAX_MAX - 2)")
  case True
  then show ?thesis by (simp add: mkseq_def Let_def)
next
  case False
  define d where "d = (if incr0 = 0 then 1 else \<bar>incr0\<bar>)"
  define incr1 where "incr1 = (if incr0 = 0 then 1 else incr0)"
  have d: "0 < d" by (simp add: d_def)
  have small: "\<bar>fin - start\<bar> \<le> INTMAX_MAX"
    using False ok(1,2) assms(5) by (auto simp: SUBOVERFLOW_def intmax_ok_def int_limits)
  then have abs: "sh_imaxabs (fin - start) = \<bar>fin - start\<bar>"
    by (auto simp: sh_imaxabs_def wrap64_id intmax_ok_def int_limits)
  have "sh_imaxabs (if fin < start \<and> 0 < incr1 \<or> start < fin \<and> incr1 < 0 then - incr1 else incr1) = d"
    using ok(3) assms(4) by (auto simp: sh_imaxabs_def incr1_def d_def wrap64_id intmax_ok_def int_limits)
  moreover have "c_quot \<bar>fin - start\<bar> d = \<bar>fin - start\<bar> div d"
    using d by (auto simp: c_quot_def sgn_if)
  moreover have k: "\<bar>fin - start\<bar> div d + 1 = k"
    by (simp add: k_def seq_count_def d_def)
  moreover have pos: "0 \<le> \<bar>fin - start\<bar> div d" using d by (simp add: pos_imp_zdiv_nonneg_iff)
  moreover have "ADDOVERFLOW (\<bar>fin - start\<bar> div d) 1 INTMAX_MIN INTMAX_MAX \<longleftrightarrow> INTMAX_MAX < k"
    using pos k by (auto simp: ADDOVERFLOW_def int_limits)
  moreover note mkseq_values [OF ok(1,2) d_def, folded incr1_def]
  moreover have "\<not> (start < fin \<and> incr1 = INTMAX_MIN)" using assms(4) by (auto simp: incr1_def int_limits)
  moreover have "int (length (seq_elements start fin incr0)) = k" by (simp add: seq_elements_length k_def)
  ultimately have run: "mkseq start fin incr0 ty width =
    (if INTMAX_MAX < k then Some None
     else if INT_MAX - 2 < to_int32 k \<or> to_int32 k + 1 < 0 then Some None
     else if to_int32 k + 1 < k + 1 then None
     else Some (Some (map (seq_item ty width) (seq_elements start fin incr0))))"
    using False unfolding mkseq_def Let_def incr1_def [symmetric] by (auto simp: abs)
  have "k \<le> INT_MAX \<longleftrightarrow> to_int32 k = k"
    using to_int32_id [of k] to_int32_bounds [of k] pos k by (auto simp: int_limits)
  moreover have "INT_MAX < k \<Longrightarrow> to_int32 k < k" using to_int32_bounds [of k] by auto
  ultimately show ?thesis
    unfolding run using False by auto
qed

section \<open>Numbers in a sequence term\<close>

lemma itos_shape:
  assumes "intmax_ok i"
  shows "c_at (itos i) 0 = CHR ''0'' \<Longrightarrow> length (itos i) = 1"
    "\<not> (c_at (itos i) 0 = CHR ''-'' \<and> c_at (itos i) 1 = CHR ''0'')"
    "list_all plain_char (itos i)" "itos i \<noteq> []" "DOT \<notin> set (itos i)"
    "is_digit (c_at (itos i) 0) \<or> c_at (itos i) 0 = CHR ''-'' \<and> is_digit (c_at (itos i) 1)"
    "strtoimax (itos i) = (i, Some [], False)"
proof -
  let ?ds = "decimal_digits (nat \<bar>i\<bar>)"
  note f = decimal_digits_facts [of "nat \<bar>i\<bar>"]
  have itos: "itos i = (if i < 0 then ''-'' else []) @ ?ds" by (rule itos_eq [OF assms])
  have zero: "decimal_digits 0 = ''0''" by code_simp
  have first: "is_digit (c_at ?ds 0)" using f by (cases ?ds) auto
  then have minus: "c_at ?ds 0 \<noteq> CHR ''-''" by (auto simp: is_digit_def)
  have pos: "0 < nat \<bar>i\<bar> \<Longrightarrow> c_at ?ds 0 \<noteq> CHR ''0''" by (rule decimal_digits_head)
  show "length (itos i) = 1" if "c_at (itos i) 0 = CHR ''0''"
  proof -
    have "\<not> i < 0" using that by (auto simp: itos)
    moreover have "\<not> 0 < i" using that pos itos by auto
    ultimately have i: "i = 0" by simp
    show ?thesis unfolding itos by (simp add: i zero)
  qed
  show "\<not> (c_at (itos i) 0 = CHR ''-'' \<and> c_at (itos i) 1 = CHR ''0'')"
    using decimal_digits_head [of "nat \<bar>i\<bar>"] minus by (auto simp: itos)
  have plain: "is_digit c \<Longrightarrow> plain_char c" for c
    by (auto simp: is_digit_def plain_char_def brace_whitespace_def)
  have "plain_char (CHR ''-'')" by (simp add: plain_char_def brace_whitespace_def)
  then show "list_all plain_char (itos i)" using f plain by (auto simp: itos list_all_iff)
  show "itos i \<noteq> []" using f by (simp add: itos)
  show "DOT \<notin> set (itos i)" using f by (auto simp: itos is_digit_def)
  show "is_digit (c_at (itos i) 0) \<or> c_at (itos i) 0 = CHR ''-'' \<and> is_digit (c_at (itos i) 1)"
    using first by (auto simp: itos)
  have "strtoimax ([] @ (if i < 0 then ''-'' else []) @ ?ds @ []) = (i, Some [], False)"
    using assms f by (intro strtoimax_parts) auto
  then show "strtoimax (itos i) = (i, Some [], False)" by (simp add: itos)
qed

lemma split_at_dots_append: "DOT \<notin> set l \<Longrightarrow> split_at_dots (l @ DOT # DOT # r) = Some (l, r)"
proof (induction l)
  case (Cons c l)
  then show ?case by (cases l) auto
qed simp

lemma expand_seqterm_numbers:
  assumes m: "intmax_ok m" and n: "intmax_ok n"
  shows "expand_seqterm (itos m @ DOT # DOT # itos n) = mkseq m n 1 ST_INT 0"
proof -
  note sm = itos_shape [OF m] and sn = itos_shape [OF n]
  have "legal_number (Some (itos m)) = Some m"
    using sm(4,6,7) by (cases "itos m") (auto simp: legal_number_def)
  moreover have "seq_rhs (itos n) = (ST_INT, n, [])"
    using sn(6,7) by (auto simp: seq_rhs_def)
  moreover have "seq_incr [] = (1, [], True)" by (simp add: seq_incr_def)
  moreover have "seq_width (itos m) (length (itos m)) (itos n) (length (itos n)) = (ST_INT, 0)"
    using sm(1,2) sn(1,2) by (auto simp: seq_width_def Let_def)
  ultimately show ?thesis
    using sm(4,5) sn(4) by (simp add: expand_seqterm_def split_at_dots_append)
qed

text \<open>The scanner on a sequence term in braces.\<close>

lemma gobble_sequence:
  assumes l: "list_all plain_char l" and r: "list_all plain_char r" "r \<noteq> []"
  shows "brace_gobbler comsub (LBRACE # l @ DOT # DOT # r @ [RBRACE]) 1 RBRACE = (RBRACE, length l + length r + 3)"
proof -
  let ?str = "LBRACE # l @ DOT # DOT # r @ [RBRACE]"
  let ?n = "length l + 1"
  obtain c r' where c: "r = c # r'" using r(2) by (cases r) auto
  then have rc: "c \<noteq> DOT" "c \<noteq> RBRACE" using r(1) by (auto simp: plain_char_def)
  have at: "?str ! ?n = DOT" "?str ! (?n + 1) = DOT" "?str ! (?n + 2) = c" by (simp_all add: c nth_append)
  have len: "?n + 2 < length ?str" by (simp add: c)
  have "brace_gobbler comsub ?str 1 RBRACE = gobble comsub ?str RBRACE (scan ?n 0 0)"
    using gobble_plains [of l RBRACE comsub "[LBRACE]" "DOT # DOT # r @ [RBRACE]" 0 0] l
    by (simp add: brace_gobbler_scan)
  also have "\<dots> = gobble comsub ?str RBRACE (scan (?n + 1) 0 1)"
    using at len rc by (intro gobble_next) (auto simp: gobble_step_def scan_def Let_def c_at_def)
  also have "\<dots> = gobble comsub ?str RBRACE (scan (?n + 2) 0 1)"
    using at len rc by (intro gobble_next) (auto simp: gobble_step_def scan_def Let_def c_at_def)
  also have "\<dots> = gobble comsub ?str RBRACE (scan (?n + 2 + length r) 0 1)"
    using gobble_plains [of r RBRACE comsub "LBRACE # l @ [DOT, DOT]" "[RBRACE]" 0 1] r(1) by simp
  also have "\<dots> = (RBRACE, ?n + 2 + length r)"
    by (intro gobble_found) (simp_all add: nth_append)
  finally show ?thesis by simp
qed

lemma brace_expand_seqterm:
  assumes l: "list_all plain_char l" "l \<noteq> []" and r: "list_all plain_char r" "r \<noteq> []"
  shows "brace_expand comsub (LBRACE # l @ DOT # DOT # r @ [RBRACE]) =
    (case expand_seqterm (l @ DOT # DOT # r) of
       None \<Rightarrow> None
     | Some None \<Rightarrow> Some [LBRACE # l @ DOT # DOT # r @ [RBRACE]]
     | Some (Some xs) \<Rightarrow> Some xs)"
proof -
  let ?str = "LBRACE # l @ DOT # DOT # r @ [RBRACE]"
  obtain c l' where c: "l = c # l'" using l(2) by (cases l) auto
  then have lc: "\<not> brace_whitespace c" "c \<noteq> RBRACE" using l(1) by (auto simp: plain_char_def)
  have "brace_gobbler comsub ?str 0 LBRACE = (LBRACE, 0)"
    unfolding brace_gobbler_scan using lc
    by (subst gobble_stop) (auto simp: gobble_step_def scan_def Let_def c_at_def c)
  moreover have m: "brace_gobbler comsub ?str (Suc 0) RBRACE = (RBRACE, length l + length r + 3)"
    using gobble_sequence [OF l(1) r] by simp
  ultimately have f: "find_brace comsub ?str 0 = (LBRACE, 0)"
    by (subst find_brace.simps) simp
  have amble: "substring ?str (Suc 0) (length l + length r + 3) = l @ DOT # DOT # r"
    by (simp add: substring_def)
  have "BACKSLASH \<notin> set (l @ DOT # DOT # r)" "COMMA \<notin> set (l @ DOT # DOT # r)"
    using l(1) r(1) by (auto simp: list_all_iff plain_char_def)
  then have sep: "\<not> has_separator (l @ DOT # DOT # r)" using has_separator_plain by blast
  show ?thesis
    using m sep amble by (subst brace_expand.simps)
      (simp add: f Let_def array_concat_product product_simps split: option.split)
qed

lemma seq_elements_upto: "seq_elements m n 1 = (if n < m then rev [n..m] else [m..n])"
proof (cases "n < m")
  case True
  then obtain d where m: "m = n + int d" using zle_iff_zadd [of n m] by auto
  have "rev [n..m] = map (\<lambda>k. m - int k) [0..<Suc d]"
  proof (rule nth_equalityI)
    fix i assume "i < length (rev [n..m])"
    then have i: "i < Suc d" by (simp add: m)
    then show "rev [n..m] ! i = map (\<lambda>k. m - int k) [0..<Suc d] ! i"
      by (simp add: rev_nth m nth_upto del: upt_Suc)
  qed (simp add: m)
  moreover have "nat (seq_count m n 1) = Suc d" by (simp add: seq_count_def m)
  ultimately show ?thesis using True by (simp add: seq_elements_def del: upt_Suc)
next
  case False
  then obtain d where n: "n = m + int d" using zle_iff_zadd by (metis linorder_not_less)
  have "[m..n] = map (\<lambda>k. m + int k) [0..<Suc d]"
  proof (rule nth_equalityI)
    fix i assume "i < length [m..n]"
    then have i: "i < Suc d" by (simp add: n)
    then show "[m..n] ! i = map (\<lambda>k. m + int k) [0..<Suc d] ! i" by (simp add: n nth_upto del: upt_Suc)
  qed (simp add: n)
  moreover have "nat (seq_count m n 1) = Suc d" by (simp add: seq_count_def n)
  ultimately show ?thesis using False by (simp add: seq_elements_def del: upt_Suc)
qed

section \<open>Properties\<close>

text \<open>
  C38. Brace expansion of a written word, with alternatives nested to any depth, is exactly its
  meaning: all combinations, each alternative expanded in its place, in the order written. Command
  substitutions and quotes play no part, whatever \<^verbatim>\<open>extract_command_subst\<close> does.
\<close>

theorem brace_expand_meaning:
  assumes "wf_word w"
  shows "brace_expand comsub (render w) = Some (meaning w)"
  using assms by (rule brace_expand_word)

theorem brace_expand_meaning_witness:
  "brace_expand (\<lambda>str i. 0) [CHR ''x'', LBRACE, CHR ''a'', COMMA, LBRACE, CHR ''b'', COMMA, RBRACE, CHR ''c'', RBRACE] =
    Some [''xa'', ''xbc'', ''xc'']"
  using brace_expand_meaning
    [of "[Lit (CHR ''x''), Alt [[Lit (CHR ''a'')], [Alt [[Lit (CHR ''b'')], []], Lit (CHR ''c'')]]]" "\<lambda>str i. 0"]
  by (simp add: plain_char_def brace_whitespace_def product_def)

text \<open>
  C39. What \<^verbatim>\<open>mkseq\<close> does at the widths of C, for every pair of bounds and every step but the two
  extreme values: with at most \<open>INT_MAX - 2\<close> elements it returns exactly them, although \<^verbatim>\<open>n += incr\<close>
  could overflow; with more it fails, or, when their number converted to \<open>int\<close> is small again,
  stores past the array.
\<close>

theorem mkseq_exact:
  assumes "intmax_ok start" and "intmax_ok fin" and "intmax_ok incr" and "incr \<noteq> INTMAX_MIN"
    and "\<not> (start = 0 \<and> fin = INTMAX_MIN)"
  shows "mkseq start fin incr ty width =
    (if SUBOVERFLOW fin start (INTMAX_MIN + 3) (INTMAX_MAX - 2) \<or> INTMAX_MAX < seq_count start fin incr then Some None
     else if to_int32 (seq_count start fin incr) < - 1 \<or> INT_MAX - 2 < to_int32 (seq_count start fin incr) then Some None
     else if seq_count start fin incr \<le> INT_MAX - 2
          then Some (Some (map (seq_item ty width) (seq_elements start fin incr)))
     else None)"
  by (rule mkseq_result [OF assms])

theorem mkseq_exact_witness:
  "mkseq 5 1 2 ST_INT 0 = Some (Some (map itos [5, 3, 1])) \<and> mkseq 1 4294967297 1 ST_INT 0 = None"
proof -
  have "seq_elements 5 1 2 = [5, 3, 1]" by code_simp
  then have "mkseq 5 1 2 ST_INT 0 = Some (Some (map itos [5, 3, 1]))"
    using mkseq_exact [of 5 1 2 ST_INT 0]
    by (simp add: intmax_ok_def int_limits SUBOVERFLOW_def seq_count_def to_int32_def seq_item_def)
  moreover have "mkseq 1 4294967297 1 ST_INT 0 = None"
    using mkseq_exact [of 1 4294967297 1 ST_INT 0]
    by (simp add: intmax_ok_def int_limits SUBOVERFLOW_def seq_count_def to_int32_def)
  ultimately show ?thesis ..
qed

text \<open>
  C40. A numeric sequence from text to text: \<open>{m..n}\<close>, with the numbers as the shell prints them,
  expands to the decimal texts of the numbers from \<open>m\<close> to \<open>n\<close>, up or down, when there are fewer
  than \<open>INT_MAX - 1\<close> of them.
\<close>

theorem brace_sequence_numbers:
  assumes "intmax_ok m" and "intmax_ok n" and "\<bar>n - m\<bar> < INT_MAX - 2"
  shows "brace_expand comsub (LBRACE # itos m @ DOT # DOT # itos n @ [RBRACE]) =
    Some (map itos (if n < m then rev [n..m] else [m..n]))"
proof -
  have b: "0 \<le> \<bar>n - m\<bar>" "\<bar>n - m\<bar> < 2147483645" using assms(3) by (simp_all add: int_limits)
  have count: "seq_count m n 1 = \<bar>n - m\<bar> + 1" by (simp add: seq_count_def)
  have "seq_elements m n 1 = (if n < m then rev [n..m] else [m..n])" by (rule seq_elements_upto)
  moreover have "mkseq m n 1 ST_INT 0 = Some (Some (map itos (seq_elements m n 1)))"
  proof -
    have "to_int32 (\<bar>n - m\<bar> + 1) = \<bar>n - m\<bar> + 1"
      using b by (intro to_int32_id) (simp_all add: int_limits)
    moreover have "\<not> SUBOVERFLOW n m (INTMAX_MIN + 3) (INTMAX_MAX - 2)"
      using b by (auto simp: SUBOVERFLOW_def int_limits)
    moreover have "\<not> (m = 0 \<and> n = INTMAX_MIN)" using b by (auto simp: int_limits)
    moreover have "seq_count m n 1 = \<bar>n - m\<bar> + 1" by (rule count)
    moreover have "\<bar>n - m\<bar> + 1 \<le> INT_MAX - 2" "\<not> INTMAX_MAX < \<bar>n - m\<bar> + 1" "\<not> \<bar>n - m\<bar> + 1 < - 1"
      using b unfolding int_limits by linarith+
    moreover have "intmax_ok 1" "(1::int) \<noteq> INTMAX_MIN" by (simp_all add: intmax_ok_def int_limits)
    moreover have "seq_item ST_INT 0 = itos" by (rule ext) (simp add: seq_item_def)
    ultimately show ?thesis
      using mkseq_result [OF assms(1,2), of 1 ST_INT 0] by (simp only: if_False if_True simp_thms) simp
  qed
  ultimately have "expand_seqterm (itos m @ DOT # DOT # itos n) =
      Some (Some (map itos (if n < m then rev [n..m] else [m..n])))"
    unfolding expand_seqterm_numbers [OF assms(1,2)] by (rule subst)
  then show ?thesis
    unfolding brace_expand_seqterm [OF itos_shape(3,4) [OF assms(1)] itos_shape(3,4) [OF assms(2)]]
    by (simp only: option.case)
qed

theorem brace_sequence_numbers_witness:
  "brace_expand (\<lambda>str i. 0) [LBRACE, CHR ''3'', DOT, DOT, CHR ''-'', CHR ''1'', RBRACE] = Some (map itos [3, 2, 1, 0, - 1])"
proof -
  have "itos 3 = ''3''" "itos (- 1) = ''-1''"
    by (simp_all add: itos_eq intmax_ok_def int_limits decimal_digits_div TOCHAR_def div_digits.simps)
      (code_simp+)
  moreover have "rev [- 1..3::int] = [3, 2, 1, 0, - 1]" by (simp add: upto.simps)
  ultimately show ?thesis
    using brace_sequence_numbers [of 3 "- 1" "\<lambda>str i. 0"] by (simp add: intmax_ok_def int_limits)
qed

end
