(* ===== verification/Arith_Lexer.thy ===== *)
theory Arith_Lexer
  imports Number_Text
begin

text \<open>
  Arithmetic expressions, \<^verbatim>\<open>expr.c\<close>, first part: the globals of the evaluator, the numbers
  (\<^verbatim>\<open>strlong\<close>) and the tokens (\<^verbatim>\<open>readtok\<close>), which evaluates a variable as soon as it has read its
  name. The variables of the shell are an argument: a record of the operations \<^verbatim>\<open>expr.c\<close> calls.
\<close>

section \<open>Tokens\<close>

text \<open>A token of one character is that character in C.\<close>

datatype token =
  TEOF | EQEQ | NEQ | LEQ | GEQ | STR_TOK | NUM_TOK | LAND | LOR | LSH | RSH | OP_ASSIGN | COND |
  POWER | PREINC | PREDEC | POSTINC | POSTDEC | Op char

abbreviation EQ :: token where "EQ \<equiv> Op (CHR ''='')"
abbreviation GT :: token where "GT \<equiv> Op (CHR ''>'')"
abbreviation LT :: token where "LT \<equiv> Op (CHR ''<'')"
abbreviation PLUS :: token where "PLUS \<equiv> Op (CHR ''+'')"
abbreviation MINUS :: token where "MINUS \<equiv> Op (CHR ''-'')"
abbreviation MUL :: token where "MUL \<equiv> Op (CHR ''*'')"
abbreviation DIV :: token where "DIV \<equiv> Op (CHR 0x2F)"
abbreviation MOD :: token where "MOD \<equiv> Op (CHR 0x25)"
abbreviation NOT_TOK :: token where "NOT_TOK \<equiv> Op (CHR ''!'')"
abbreviation LPAR :: token where "LPAR \<equiv> Op (CHR ''('')"
abbreviation RPAR :: token where "RPAR \<equiv> Op (CHR '')'')"
abbreviation BAND :: token where "BAND \<equiv> Op (CHR ''&'')"
abbreviation BOR :: token where "BOR \<equiv> Op (CHR 0x7C)"
abbreviation BXOR :: token where "BXOR \<equiv> Op (CHR ''^'')"
abbreviation BNOT :: token where "BNOT \<equiv> Op (CHR 0x7E)"
abbreviation QUES :: token where "QUES \<equiv> Op (CHR ''?'')"
abbreviation COL :: token where "COL \<equiv> Op (CHR '':'')"
abbreviation COMMA_TOK :: token where "COMMA_TOK \<equiv> Op (CHR '','')"

definition is_multiop :: "token \<Rightarrow> bool" where
  "is_multiop t \<longleftrightarrow>
     t \<in> {EQEQ, NEQ, LEQ, GEQ, LAND, LOR, LSH, RSH, OP_ASSIGN, COND, POWER, PREINC, PREDEC, POSTINC, POSTDEC}"

definition is_arithop :: "token \<Rightarrow> bool" where
  "is_arithop t \<longleftrightarrow>
     t \<in> {EQ, GT, LT, PLUS, MINUS, MUL, DIV, MOD, NOT_TOK, LPAR, RPAR, BAND, BOR, BXOR, BNOT, QUES, COL, COMMA_TOK}"

section \<open>Character classes\<close>

definition cr_whitespace :: "char \<Rightarrow> bool" where
  "cr_whitespace c \<longleftrightarrow> whitespace c \<or> c = CHR 0x0A"

definition legal_variable_starter :: "char \<Rightarrow> bool" where
  "legal_variable_starter c \<longleftrightarrow> is_alpha c \<or> c = CHR ''_''"

definition legal_variable_char :: "char \<Rightarrow> bool" where
  "legal_variable_char c \<longleftrightarrow> is_alpha c \<or> is_digit c \<or> c = CHR ''_''"

definition number_char :: "char \<Rightarrow> bool" where
  "number_char c \<longleftrightarrow> is_alpha c \<or> is_digit c \<or> c \<in> {CHR ''#'', CHR ''@'', CHR ''_''}"

section \<open>The state of the evaluator\<close>

text \<open>
  \<^verbatim>\<open>struct lvalue\<close>: the fields that are read again. A token string is known by its address, which
  \<^verbatim>\<open>readtok\<close> compares; addresses are not used twice.
\<close>

record lvalue =
  lv_tokstr :: "(nat \<times> cstring) option"
  lv_ind :: int

definition init_lvalue :: lvalue where
  "init_lvalue = \<lparr>lv_tokstr = None, lv_ind = - 1\<rparr>"

text \<open>\<^verbatim>\<open>EXPR_CONTEXT\<close>; the null pointers of \<open>expression\<close> and \<open>lasttp\<close> are the empty string and \<open>None\<close>.\<close>

record expr_context =
  curtok :: token
  lasttok :: token
  expression :: cstring
  tp :: nat
  lasttp :: "nat option"
  tokval :: int
  tokstr :: "(nat \<times> cstring) option"
  noeval :: nat
  curlval :: lvalue

text \<open>The globals: the same ones, the stack of contexts (its length is \<^verbatim>\<open>expr_depth\<close>), the variables.\<close>

record 'v expr_state = expr_context +
  assigntok :: token
  expr_stack :: "expr_context list"
  next_addr :: nat
  vars :: 'v

definition MAX_EXPR_RECURSION_LEVEL :: nat where
  "MAX_EXPR_RECURSION_LEVEL = 1024"

definition SAVETOK :: "'v expr_state \<Rightarrow> expr_context" where
  "SAVETOK s = \<lparr>curtok = curtok s, lasttok = lasttok s, expression = expression s, tp = tp s, lasttp = lasttp s,
     tokval = tokval s, tokstr = tokstr s, noeval = noeval s, curlval = curlval s\<rparr>"

text \<open>The macro does not restore the expression.\<close>

definition RESTORETOK :: "expr_context \<Rightarrow> 'v expr_state \<Rightarrow> 'v expr_state" where
  "RESTORETOK x s = s\<lparr>curtok := curtok x, lasttok := lasttok x, tp := tp x, lasttp := lasttp x,
     tokval := tokval x, tokstr := tokstr x, noeval := noeval x, curlval := curlval x\<rparr>"

section \<open>Outcomes\<close>

text \<open>
  A routine returns, jumps to \<^verbatim>\<open>evalexp\<close> with or without a message, jumps to the top level (an
  unbound variable, or a failing subscript), does what C leaves undefined, or the model has run out
  of fuel.
\<close>

datatype ('a, 'v) outcome =
  Done 'a "'v expr_state"
| Longjmp "string option" "'v expr_state"
| Top_Level "'v expr_state"
| Undefined
| No_Fuel

type_synonym ('a, 'v) ev = "'v expr_state \<Rightarrow> ('a, 'v) outcome"

definition andthen :: "('a, 'v) ev \<Rightarrow> ('a \<Rightarrow> ('b, 'v) ev) \<Rightarrow> ('b, 'v) ev" where
  "andthen m f s =
     (case m s of
        Done x s' \<Rightarrow> f x s'
      | Longjmp msg s' \<Rightarrow> Longjmp msg s'
      | Top_Level s' \<Rightarrow> Top_Level s'
      | Undefined \<Rightarrow> Undefined
      | No_Fuel \<Rightarrow> No_Fuel)"

definition evalerror :: "string \<Rightarrow> ('a, 'v) ev" where
  "evalerror msg s = Longjmp (Some msg) s"

lemma andthen_simps [simp]:
  "m s = Done x s' \<Longrightarrow> andthen m f s = f x s'"
  "m s = Longjmp msg s' \<Longrightarrow> andthen m f s = Longjmp msg s'"
  "m s = Top_Level s' \<Longrightarrow> andthen m f s = Top_Level s'"
  "m s = Undefined \<Longrightarrow> andthen m f s = Undefined"
  "m s = No_Fuel \<Longrightarrow> andthen m f s = No_Fuel"
  by (simp_all add: andthen_def)

text \<open>
  What the evaluator calls in the rest of the shell. A variable is looked up to whether it is
  missing or invisible, and its value; an array reference as well, with its index, where the
  subscript may change variables or jump to the top level (\<open>None\<close>); binding tells whether the
  variable cannot be assigned; \<^verbatim>\<open>skipsubscript\<close> gives the offset of the closing bracket.
\<close>

record 'v shell_ops =
  find_variable :: "'v \<Rightarrow> cstring \<Rightarrow> bool \<times> cstring option"
  array_missing :: "'v \<Rightarrow> cstring \<Rightarrow> bool"
  get_array_value :: "'v \<Rightarrow> cstring \<Rightarrow> ((cstring option \<times> int) \<times> 'v) option"
  bind_int_variable :: "'v \<Rightarrow> cstring \<Rightarrow> cstring \<Rightarrow> bool \<times> 'v"
  skipsubscript :: "cstring \<Rightarrow> nat"
  unbound_vars_is_error :: bool

section \<open>Numbers (strlong)\<close>

text \<open>The value of a digit: \<open>c\<close> after the conversions of the loop.\<close>

definition strlong_digit :: "int \<Rightarrow> char \<Rightarrow> int" where
  "strlong_digit base c =
     (if is_digit c then uchar c - 48
      else if is_lower c then uchar c - 87
      else if is_upper c then uchar c - 65 + (if base \<le> 36 then 10 else 36)
      else if c = CHR ''@'' then 62 else 63)"

fun strlong_loop :: "cstring \<Rightarrow> int \<Rightarrow> bool \<Rightarrow> int \<Rightarrow> string + int" where
  "strlong_loop [] base foundbase val = Inr val"
| "strlong_loop (c # s) base foundbase val =
     (if c = CHR ''#'' then
        if foundbase then Inl ''invalid number''
        else if val < 2 \<or> 64 < val then Inl ''invalid arithmetic base''
        else strlong_loop s val True 0
      else if is_alpha c \<or> is_digit c \<or> c = CHR ''_'' \<or> c = CHR ''@'' then
        if base \<le> strlong_digit base c then Inl ''value too great for base''
        else strlong_loop s base foundbase (wrap64 (val * base + strlong_digit base c))
      else Inr val)"

definition strlong :: "cstring \<Rightarrow> string + int" where
  "strlong num =
     (if c_at num 0 = CHR ''0'' then
        if length num = 1 then Inr 0
        else if c_at num 1 = CHR ''x'' \<or> c_at num 1 = CHR ''X'' then strlong_loop (drop 2 num) 16 True 0
        else strlong_loop (drop 1 num) 8 True 0
      else strlong_loop num 10 False 0)"

section \<open>Variables\<close>

text \<open>
  \<^verbatim>\<open>expr_streval\<close>: the value of a variable is an expression again, evaluated by \<open>sub\<close>.
\<close>

definition sub_value :: "(cstring \<Rightarrow> (int, 'v) ev) \<Rightarrow> cstring option \<Rightarrow> (int, 'v) ev" where
  "sub_value sub val = (case val of None \<Rightarrow> Done 0 | Some str \<Rightarrow> if str = [] then Done 0 else sub str)"

definition expr_streval ::
  "'v shell_ops \<Rightarrow> (cstring \<Rightarrow> (int, 'v) ev) \<Rightarrow> nat \<times> cstring \<Rightarrow> bool \<Rightarrow> (int, 'v) ev" where
  "expr_streval ops sub tok subscripted s =
     (if noeval s \<noteq> 0 then Done 0 s
      else
        let missing = (if subscripted then array_missing ops (vars s) (snd tok) else fst (find_variable ops (vars s) (snd tok)))
        in if missing \<and> unbound_vars_is_error ops then Top_Level s
           else
             case (if subscripted then get_array_value ops (vars s) (snd tok)
                   else Some ((snd (find_variable ops (vars s) (snd tok)), - 1), vars s)) of
               None \<Rightarrow> Top_Level s
             | Some ((val, ind), v) \<Rightarrow>
                 andthen (sub_value sub val)
                   (\<lambda>tval s. Done tval (s\<lparr>curlval := \<lparr>lv_tokstr = Some tok, lv_ind = ind\<rparr>\<rparr>))
                   (s\<lparr>vars := v\<rparr>))"

text \<open>\<^verbatim>\<open>expr_bind_array_element\<close> writes the index it has already evaluated for the subscript.\<close>

definition expr_bind_variable :: "'v shell_ops \<Rightarrow> cstring \<Rightarrow> cstring \<Rightarrow> (unit, 'v) ev" where
  "expr_bind_variable ops lhs rhs s =
     (case bind_int_variable ops (vars s) lhs rhs of
        (readonly, v) \<Rightarrow> if readonly then Longjmp None (s\<lparr>vars := v\<rparr>) else Done () (s\<lparr>vars := v\<rparr>))"

definition expr_bind_array_element :: "'v shell_ops \<Rightarrow> cstring \<Rightarrow> int \<Rightarrow> cstring \<Rightarrow> (unit, 'v) ev" where
  "expr_bind_array_element ops tok ind rhs =
     expr_bind_variable ops (takeWhile (\<lambda>c. c \<noteq> CHR ''['') tok @ ''['' @ itos ind @ '']'') rhs"

definition expr_bind :: "'v shell_ops \<Rightarrow> cstring \<Rightarrow> cstring \<Rightarrow> int \<Rightarrow> cstring \<Rightarrow> (unit, 'v) ev" where
  "expr_bind ops name arr ind rhs =
     (if ind \<noteq> - 1 then expr_bind_array_element ops arr ind rhs else expr_bind_variable ops name rhs)"

section \<open>The lexical analyzer\<close>

text \<open>
  The last branch of \<^verbatim>\<open>readtok\<close>, at the text \<open>r\<close> of an operator: the token, the operator of an
  assignment, the number of characters. \<open>None\<close> is an invalid character.
\<close>

definition lex_operator :: "token \<Rightarrow> cstring \<Rightarrow> (token \<times> token option \<times> nat) option" where
  "lex_operator prev r =
     (let c = c_at r 0; c1 = c_at r 1; c2 = c_at r 2
      in if c = CHR ''='' \<and> c1 = CHR ''='' then Some (EQEQ, None, 2)
         else if c = CHR ''!'' \<and> c1 = CHR ''='' then Some (NEQ, None, 2)
         else if c = CHR ''>'' \<and> c1 = CHR ''='' then Some (GEQ, None, 2)
         else if c = CHR ''<'' \<and> c1 = CHR ''='' then Some (LEQ, None, 2)
         else if c = CHR ''<'' \<and> c1 = CHR ''<'' then
           if c2 = CHR ''='' then Some (OP_ASSIGN, Some LSH, 3) else Some (LSH, None, 2)
         else if c = CHR ''>'' \<and> c1 = CHR ''>'' then
           if c2 = CHR ''='' then Some (OP_ASSIGN, Some RSH, 3) else Some (RSH, None, 2)
         else if c = CHR ''&'' \<and> c1 = CHR ''&'' then Some (LAND, None, 2)
         else if c = CHR 0x7C \<and> c1 = CHR 0x7C then Some (LOR, None, 2)
         else if c = CHR ''*'' \<and> c1 = CHR ''*'' then Some (POWER, None, 2)
         else if (c = CHR ''-'' \<or> c = CHR ''+'') \<and> c1 = c \<and> prev = STR_TOK
         then Some (if c = CHR ''-'' then POSTDEC else POSTINC, None, 2)
         else if (c = CHR ''-'' \<or> c = CHR ''+'') \<and> c1 = c then
           if legal_variable_starter (c_at (dropWhile cr_whitespace (drop 2 r)) 0)
           then Some (if c = CHR ''-'' then PREDEC else PREINC, None, 2)
           else Some (Op c, None, 1)
         else if c1 = CHR ''='' \<and> Op c \<in> {MUL, DIV, MOD, PLUS, MINUS, BAND, BXOR, BOR}
         then Some (OP_ASSIGN, Some (Op c), 2)
         else if is_arithop (Op c) then Some (Op c, None, 1)
         else None)"

text \<open>
  A name at \<open>start\<close>: where it stops, with a subscript or without; \<open>None\<close> is a subscript without its
  closing bracket.
\<close>

definition name_stop :: "'v shell_ops \<Rightarrow> cstring \<Rightarrow> nat \<Rightarrow> (nat \<times> bool) option" where
  "name_stop ops str start =
     (let cp = start + length (takeWhile legal_variable_char (drop start str))
      in if c_at str cp = CHR ''['' then
           let e = skipsubscript ops (drop cp str)
           in if c_at str (cp + e) = CHR '']'' then Some (cp + e + 1, True) else None
         else Some (cp, False))"

lemma name_stop_forward:
  assumes "name_stop ops str start = Some (cp, b)" and "legal_variable_starter (c_at str start)"
  shows "start < cp \<and> start < length str"
proof -
  have "start < length str"
    using assms(2) by (auto simp: c_at_def legal_variable_starter_def is_alpha_def is_upper_def is_lower_def split: if_splits)
  then have "drop start str = c_at str start # drop (Suc start) str"
    by (simp add: c_at_def Cons_nth_drop_Suc)
  moreover have "legal_variable_char (c_at str start)"
    using assms(2) by (auto simp: legal_variable_starter_def legal_variable_char_def)
  ultimately show ?thesis
    using assms(1) \<open>start < length str\<close> by (auto simp: name_stop_def Let_def split: if_splits)
qed

text \<open>
  \<^verbatim>\<open>readtok\<close>. After a name it looks one token ahead, without evaluation, to leave the value of the
  target of a plain assignment alone; a wrong number is reported with the expression cut after it.
\<close>

function readtok :: "'v shell_ops \<Rightarrow> (cstring \<Rightarrow> (int, 'v) ev) \<Rightarrow> (unit, 'v) ev" where
  "readtok ops sub s =
     (let str = expression s;
          start = tp s + length (takeWhile cr_whitespace (drop (tp s) str));
          c = c_at str start;
          s0 = s\<lparr>lasttp := Some start, tp := start\<rparr>
      in if c = NUL then Done () (s\<lparr>lasttok := curtok s, curtok := TEOF, tp := start\<rparr>)
         else if legal_variable_starter c then
           (case name_stop ops str start of
              None \<Rightarrow> evalerror ''bad array subscript'' s0
            | Some (cp, subscripted) \<Rightarrow>
                let tok = (next_addr s, take (cp - start) (drop start str));
                    lval = (if lv_tokstr (curlval s) \<noteq> None \<and> lv_tokstr (curlval s) = tokstr s then init_lvalue
                            else curlval s);
                    s1 = s0\<lparr>curlval := lval, tokstr := Some tok, next_addr := next_addr s + 1\<rparr>
                in (case readtok ops sub (s1\<lparr>tokstr := None, tp := cp, noeval := 1, curtok := STR_TOK\<rparr>) of
                      Done u s2 \<Rightarrow>
                        andthen
                          (if lasttok s1 \<in> {PREINC, PREDEC} \<or> curtok s2 \<noteq> EQ
                           then expr_streval ops sub tok subscripted else Done 0)
                          (\<lambda>tval s3. Done () (s3\<lparr>tokval := tval, lasttok := curtok s3, curtok := STR_TOK, tp := cp\<rparr>))
                          (RESTORETOK (SAVETOK s1) s2)
                    | r \<Rightarrow> r))
         else if is_digit c then
           (let cp = start + length (takeWhile number_char (drop start str))
            in case strlong (take (cp - start) (drop start str)) of
                 Inl msg \<Rightarrow> evalerror msg (s0\<lparr>expression := take cp str\<rparr>)
               | Inr n \<Rightarrow> Done () (s0\<lparr>tokval := n, lasttok := curtok s, curtok := NUM_TOK, tp := cp\<rparr>))
         else
           (case lex_operator (curtok s) (drop start str) of
              None \<Rightarrow>
                evalerror (if curtok s = TEOF \<or> is_arithop (curtok s) \<or> is_multiop (curtok s)
                           then ''syntax error: operand expected'' else ''syntax error: invalid arithmetic operator'') s0
            | Some (t, assign, k) \<Rightarrow>
                Done () (s0\<lparr>lasttok := curtok s, curtok := t, tp := start + k,
                           assigntok := (case assign of None \<Rightarrow> assigntok s | Some a \<Rightarrow> a)\<rparr>)))"
  by pat_completeness auto
termination
  by (relation "measure (\<lambda>(ops, sub, s). length (expression s) - tp s)") (auto dest!: name_stop_forward)

declare readtok.simps [simp del]

section \<open>Numbers that were printed\<close>

lemma strlong_digit_FMTCHAR:
  assumes "d < base" and "base \<le> 64"
  shows "strlong_digit (int base) (FMTCHAR d) = int d" "FMTCHAR d \<noteq> CHR ''#''"
    "is_alpha (FMTCHAR d) \<or> is_digit (FMTCHAR d) \<or> FMTCHAR d = CHR ''_'' \<or> FMTCHAR d = CHR ''@''"
    "fmt_value (FMTCHAR d) = d"
proof -
  consider "d < 10" | "10 \<le> d" "d < 36" | "36 \<le> d" "d < 62" | "d = 62" | "d = 63" using assms by linarith
  then have "strlong_digit (int base) (FMTCHAR d) = int d \<and> FMTCHAR d \<noteq> CHR ''#'' \<and>
    (is_alpha (FMTCHAR d) \<or> is_digit (FMTCHAR d) \<or> FMTCHAR d = CHR ''_'' \<or> FMTCHAR d = CHR ''@'')"
  proof cases
    case 1
    then have "(of_char (FMTCHAR d) :: nat) = d + 48" by (simp add: FMTCHAR_def)
    then show ?thesis using 1 by (auto simp: strlong_digit_def is_digit_def uchar_def)
  next
    case 2
    then have "(of_char (FMTCHAR d) :: nat) = d + 87" by (simp add: FMTCHAR_def)
    then show ?thesis using 2 by (auto simp: strlong_digit_def is_digit_def is_alpha_def is_lower_def uchar_def)
  next
    case 3
    then have "(of_char (FMTCHAR d) :: nat) = d + 29" by (simp add: FMTCHAR_def)
    then show ?thesis
      using 3 assms by (auto simp: strlong_digit_def is_digit_def is_alpha_def is_lower_def is_upper_def uchar_def)
  qed (use assms in \<open>simp_all add: FMTCHAR_def strlong_digit_def is_digit_def is_lower_def is_upper_def\<close>)
  then show "strlong_digit (int base) (FMTCHAR d) = int d" "FMTCHAR d \<noteq> CHR ''#''"
    "is_alpha (FMTCHAR d) \<or> is_digit (FMTCHAR d) \<or> FMTCHAR d = CHR ''_'' \<or> FMTCHAR d = CHR ''@''" by blast+
  show "fmt_value (FMTCHAR d) = d" using assms by (intro fmt_value_FMTCHAR) simp
qed

lemma strlong_loop_digits:
  assumes "base \<le> 64"
  shows "(\<forall>c\<in>set s. \<exists>d<base. c = FMTCHAR d) \<Longrightarrow>
    strlong_loop s (int base) foundbase (wrap64 (int n)) = Inr (wrap64 (int (fold (\<lambda>c n. base * n + fmt_value c) s n)))"
proof (induction s arbitrary: n)
  case (Cons c s)
  then obtain d where d: "d < base" "c = FMTCHAR d" by auto
  note f = strlong_digit_FMTCHAR [OF d(1) assms]
  have "wrap64 (wrap64 (int n) * int base + int d) = wrap64 (int (base * n + d))"
    unfolding wrap64_mult_add by (simp add: mult.commute)
  moreover have "strlong_loop (c # s) (int base) foundbase (wrap64 (int n)) =
      strlong_loop s (int base) foundbase (wrap64 (wrap64 (int n) * int base + int d))"
    using f d by simp
  ultimately show ?case using Cons.IH [of "base * n + d"] Cons.prems f(4) d(2) by simp
qed simp

lemma decimal_FMTCHAR: "c \<in> set (decimal_digits ui) \<Longrightarrow> \<exists>d<10. c = FMTCHAR d"
  using fmt_digits_set [of 10 FL_UNSIGNED ui] by (simp add: fmt_digits_def FL_UNSIGNED_def FL_HEXUPPER_def)

lemma decimal_fold: "fold (\<lambda>c n. 10 * n + fmt_value c) (decimal_digits ui) 0 = ui"
  using fmt_digits_value [of 10 FL_UNSIGNED ui]
  by (simp add: digits_value_def fmt_digits_def FL_UNSIGNED_def FL_HEXUPPER_def)

lemma wrap64_0 [simp]: "wrap64 0 = 0"
  by (simp add: wrap64_def)

lemma strlong_decimal: "strlong (decimal_digits ui) = Inr (wrap64 (int ui))"
proof (cases "ui = 0")
  case True
  have "decimal_digits 0 = ''0''" by code_simp
  then show ?thesis using True by (simp add: strlong_def)
next
  case False
  then have "strlong (decimal_digits ui) = strlong_loop (decimal_digits ui) (int 10) False (wrap64 (int 0))"
    using decimal_digits_head [of ui] by (simp add: strlong_def)
  also have "\<dots> = Inr (wrap64 (int ui))"
    using decimal_FMTCHAR by (subst strlong_loop_digits) (auto simp: decimal_fold)
  finally show ?thesis .
qed

section \<open>Properties\<close>

text \<open>
  What \<^verbatim>\<open>fmtulong\<close> prints with the base in front (the form \<open>base#digits\<close>), the evaluator reads back,
  for every base from 2 to 64, modulo 2 to the power 64.
\<close>

theorem strlong_reads_back:
  assumes "2 \<le> base" and "base \<le> 64" and "base \<noteq> 10" and "ui < 2 ^ 64" and "68 \<le> len"
  shows "\<exists>s. fmtulong ui base len (FL_ADDBASE + FL_UNSIGNED) = Some s \<and> strlong s = Inr (wrap64 (int ui))"
proof -
  let ?flags = "FL_ADDBASE + FL_UNSIGNED"
  let ?ds = "fmt_digits ui base ?flags"
  have fl: "?flags AND FL_HEXUPPER = 0" "?flags AND FL_PREFIX = 0" "?flags AND FL_ADDBASE \<noteq> 0" "?flags AND FL_UNSIGNED \<noteq> 0"
    by (simp_all add: FL_ADDBASE_def FL_UNSIGNED_def FL_HEXUPPER_def FL_PREFIX_def)
  define bd where "bd = (if 10 < base then [TOCHAR (base div 10)] else []) @ [TOCHAR (base mod 10)]"
  have out: "fmtulong ui base len ?flags = Some (bd @ CHR ''#'' # ?ds)"
    using assms fmt_digits_length [OF assms(1,4), of ?flags] fl
    by (simp add: fmtulong_def Let_def fmt_prefix_def fill_buffer_def bd_def)
  have digit: "TOCHAR d = FMTCHAR d" if "d < 10" for d using that by (simp add: TOCHAR_def FMTCHAR_def)
  have base_loop: "strlong_loop (bd @ t) 10 False 0 = strlong_loop t 10 False (int base)" for t
  proof -
    have w: "wrap64 (int base) = int base" "wrap64 (int (base div 10)) = int (base div 10)"
      using assms by (auto intro!: wrap64_id simp: intmax_ok_def int_limits)
    have step: "strlong_loop (TOCHAR d # t) 10 False v = strlong_loop t 10 False (wrap64 (v * 10 + int d))"
      if "d < 10" for d v t
      using strlong_digit_FMTCHAR [of d 10] that by (simp add: digit)
    show ?thesis
    proof (cases "10 < base")
      case True
      have "base div 10 < 10" using assms by simp
      then show ?thesis
        using True w by (simp add: bd_def step del: strlong_loop.simps flip: of_nat_mult of_nat_add) (metis of_nat_mult of_nat_add of_nat_numeral div_mult_mod_eq w(1))
    next
      case False
      then have "base mod 10 = base" using assms by simp
      then show ?thesis using False w by (simp add: bd_def step del: strlong_loop.simps)
    qed
  qed
  have digit_0: "TOCHAR d = CHR ''0'' \<Longrightarrow> d < 10 \<Longrightarrow> d = 0" for d
    using of_char_TOCHAR [of d] by simp
  have "c_at (bd @ t) 0 \<noteq> CHR ''0''" for t
  proof
    assume "c_at (bd @ t) 0 = CHR ''0''"
    then have "(if 10 < base then base div 10 else base mod 10) = 0"
      using assms digit_0 [of "base div 10"] digit_0 [of "base mod 10"] by (auto simp: bd_def split: if_splits)
    then show False using assms by (auto split: if_splits simp: div_eq_0_iff)
  qed
  then have "strlong (bd @ CHR ''#'' # ?ds) = strlong_loop (bd @ CHR ''#'' # ?ds) 10 False 0"
    by (simp add: strlong_def)
  also have "\<dots> = strlong_loop ?ds (int base) True (wrap64 (int 0))"
    unfolding base_loop using assms by simp
  also have "\<dots> = Inr (wrap64 (int ui))"
    using fmt_digits_set [OF assms(1,2) fl(1)] fmt_digits_value [OF assms(1,2) fl(1)]
    by (subst strlong_loop_digits) (use assms in \<open>auto simp: digits_value_def\<close>)
  finally show ?thesis using out by blast
qed

theorem strlong_reads_back_witness:
  "\<exists>s. fmtulong 18446744073709551615 36 68 (FL_ADDBASE + FL_UNSIGNED) = Some s \<and> strlong s = Inr (- 1)"
  using strlong_reads_back [of 36 18446744073709551615 68] by (simp add: wrap64_def)

end
