(* ===== verification/Arith_Eval.thy ===== *)
theory Arith_Eval
  imports Arith_Lexer
begin

text \<open>
  Arithmetic expressions, \<^verbatim>\<open>expr.c\<close>, second part: the recursive descent from \<^verbatim>\<open>expcomma\<close> to \<^verbatim>\<open>exp0\<close>,
  \<^verbatim>\<open>subexpr\<close> and \<^verbatim>\<open>evalexp\<close>, with the proof that the evaluator ends.

  Every routine gets \<open>rd\<close>, the reading of the next token, and \<open>high\<close>, the routine of the lowest
  precedence that it calls for a parenthesis; \<open>n\<close> is fuel for loops and recursion. One more than
  the number of characters left is enough, and a variable can be nested as deep as
  \<^verbatim>\<open>MAX_EXPR_RECURSION_LEVEL\<close> (theorem \<open>evalexp_terminates\<close>).
\<close>

section \<open>Arithmetic at 64 bits\<close>

text \<open>
  Overflow wraps around. A shift by a negative count or by 64 or more is undefined in C. The
  division of C truncates.
\<close>

definition truth :: "bool \<Rightarrow> int" where
  "truth b = (if b then 1 else 0)"

definition c_div :: "int \<Rightarrow> int \<Rightarrow> int" where
  "c_div a b = sgn a * sgn b * (\<bar>a\<bar> div \<bar>b\<bar>)"

definition c_mod :: "int \<Rightarrow> int \<Rightarrow> int" where
  "c_mod a b = a - b * c_div a b"

definition shift_value :: "token \<Rightarrow> int \<Rightarrow> int \<Rightarrow> int option" where
  "shift_value op val1 val2 =
     (if val2 < 0 \<or> 64 \<le> val2 then None
      else Some (if op = LSH then wrap64 (push_bit (nat val2) val1) else drop_bit (nat val2) val1))"

function ipow_loop :: "int \<Rightarrow> nat \<Rightarrow> int \<Rightarrow> int" where
  "ipow_loop base ex result =
     (if ex = 0 then result
      else ipow_loop (wrap64 (base * base)) (ex div 2) (if odd ex then wrap64 (result * base) else result))"
  by pat_completeness auto
termination by (relation "measure (\<lambda>(b, e, r). e)") auto

declare ipow_loop.simps [simp del]

definition ipow :: "int \<Rightarrow> int \<Rightarrow> int" where
  "ipow base ex = ipow_loop base (nat ex) 1"

section \<open>Primary expressions\<close>

definition exp0_incr :: "'v shell_ops \<Rightarrow> int \<Rightarrow> (unit, 'v) ev" where
  "exp0_incr ops v2 s =
     (if noeval s = 0 then
        (case tokstr s of
           None \<Rightarrow> Undefined
         | Some (a, name) \<Rightarrow>
             expr_bind ops name (case lv_tokstr (curlval s) of None \<Rightarrow> [] | Some (b, arr) \<Rightarrow> arr)
               (lv_ind (curlval s)) (itos v2) s)
      else Done () s)"

definition exp0 :: "'v shell_ops \<Rightarrow> (unit, 'v) ev \<Rightarrow> (int, 'v) ev \<Rightarrow> (int, 'v) ev" where
  "exp0 ops rd high s =
     (if curtok s = PREINC \<or> curtok s = PREDEC then
        let stok = curtok s
        in andthen rd (\<lambda>_ s1.
             if curtok s1 \<noteq> STR_TOK
             then evalerror ''identifier expected after pre-increment or pre-decrement'' s1
             else
               let v2 = wrap64 (tokval s1 + (if stok = PREINC then 1 else - 1))
               in andthen (exp0_incr ops v2)
                    (\<lambda>_ s2. andthen rd (\<lambda>_. Done v2) (s2\<lparr>curtok := NUM_TOK\<rparr>)) s1)
             (s\<lparr>lasttok := stok\<rparr>)
      else if curtok s = LPAR then
        andthen rd (\<lambda>_. andthen high (\<lambda>val s1.
          if curtok s1 \<noteq> RPAR then evalerror ''missing `)'' s1 else andthen rd (\<lambda>_. Done val) s1)) s
      else if curtok s = NUM_TOK then andthen rd (\<lambda>_. Done (tokval s)) s
      else if curtok s = STR_TOK then
        let val = tokval s; ec = SAVETOK s
        in andthen rd (\<lambda>_ s1.
             let stok = curtok s1
             in if stok = POSTINC \<or> stok = POSTDEC then
                  let s2 = s1\<lparr>tokstr := tokstr ec, noeval := noeval ec, curlval := curlval ec, lasttok := STR_TOK\<rparr>;
                      v2 = wrap64 (val + (if stok = POSTINC then 1 else - 1))
                  in andthen (exp0_incr ops v2)
                       (\<lambda>_ s3. andthen rd (\<lambda>_. Done val) (s3\<lparr>curtok := NUM_TOK\<rparr>)) s2
                else andthen rd (\<lambda>_. Done val) (RESTORETOK ec s1))
             (s\<lparr>tokstr := None, noeval := 1\<rparr>)
      else evalerror ''syntax error: operand expected'' s)"

section \<open>Unary operators and powers\<close>

definition number :: "int \<Rightarrow> (int, 'v) ev" where
  "number v s = Done v (s\<lparr>lasttok := NUM_TOK\<rparr>)"

primrec exp1 :: "nat \<Rightarrow> 'v shell_ops \<Rightarrow> (unit, 'v) ev \<Rightarrow> (int, 'v) ev \<Rightarrow> (int, 'v) ev" where
  "exp1 0 ops rd high = (\<lambda>s. No_Fuel)"
| "exp1 (Suc n) ops rd high = (\<lambda>s.
     if curtok s = NOT_TOK then andthen rd (\<lambda>_. andthen (exp1 n ops rd high) (\<lambda>val. number (truth (val = 0)))) s
     else if curtok s = BNOT then andthen rd (\<lambda>_. andthen (exp1 n ops rd high) (\<lambda>val. number (NOT val))) s
     else if curtok s = MINUS then andthen rd (\<lambda>_. andthen (exp1 n ops rd high) (\<lambda>val. number (wrap64 (- val)))) s
     else if curtok s = PLUS then andthen rd (\<lambda>_. andthen (exp1 n ops rd high) number) s
     else exp0 ops rd high s)"

text \<open>\<open>**\<close> associates to the right: the loop calls \<^verbatim>\<open>exppower\<close> itself for the exponent.\<close>

fun exppower :: "nat \<Rightarrow> 'v shell_ops \<Rightarrow> (unit, 'v) ev \<Rightarrow> (int, 'v) ev \<Rightarrow> (int, 'v) ev"
  and power_loop :: "nat \<Rightarrow> 'v shell_ops \<Rightarrow> (unit, 'v) ev \<Rightarrow> (int, 'v) ev \<Rightarrow> int \<Rightarrow> (int, 'v) ev" where
  "exppower 0 ops rd high = (\<lambda>s. No_Fuel)"
| "exppower (Suc n) ops rd high = andthen (exp1 n ops rd high) (power_loop n ops rd high)"
| "power_loop 0 ops rd high val1 = (\<lambda>s. No_Fuel)"
| "power_loop (Suc n) ops rd high val1 = (\<lambda>s.
     if curtok s = POWER then
       andthen rd (\<lambda>_. andthen (exppower n ops rd high) (\<lambda>val2 s1.
         let s2 = s1\<lparr>lasttok := NUM_TOK\<rparr>
         in if val2 = 0 then Done 1 s2
            else if val2 < 0 then evalerror ''exponent less than 0'' s2
            else power_loop n ops rd high (ipow val1 val2) s2)) s
     else Done val1 s)"

section \<open>Binary operators\<close>

text \<open>
  The routines from \<^verbatim>\<open>exp2\<close> to \<^verbatim>\<open>expbor\<close> have one shape: an operand, then a loop over operators and
  operands. \<open>combine\<close> is the rest of the loop body; it gets the position after the operator.
\<close>

primrec binary_loop ::
  "nat \<Rightarrow> (token \<Rightarrow> bool) \<Rightarrow> (unit, 'v) ev \<Rightarrow> (int, 'v) ev \<Rightarrow> (token \<Rightarrow> nat \<Rightarrow> int \<Rightarrow> int \<Rightarrow> (int, 'v) ev) \<Rightarrow> int \<Rightarrow> (int, 'v) ev" where
  "binary_loop 0 is_op rd operand combine val1 = (\<lambda>s. No_Fuel)"
| "binary_loop (Suc n) is_op rd operand combine val1 = (\<lambda>s.
     if is_op (curtok s) then
       let op = curtok s; stp = tp s
       in andthen rd (\<lambda>_. andthen operand (\<lambda>val2. andthen (combine op stp val1 val2)
            (binary_loop n is_op rd operand combine))) s
     else Done val1 s)"

definition binary ::
  "nat \<Rightarrow> (token \<Rightarrow> bool) \<Rightarrow> (unit, 'v) ev \<Rightarrow> (int, 'v) ev \<Rightarrow> (token \<Rightarrow> nat \<Rightarrow> int \<Rightarrow> int \<Rightarrow> (int, 'v) ev) \<Rightarrow> (int, 'v) ev" where
  "binary n is_op rd operand combine = andthen operand (binary_loop n is_op rd operand combine)"

text \<open>
  Division: by 0 it is an error, unless nothing is evaluated; the error token is what follows the
  operator. \<open>INTMAX_MIN / - 1\<close> is \<open>INTMAX_MIN\<close>, and its remainder 0.
\<close>

definition exp2_combine :: "token \<Rightarrow> nat \<Rightarrow> int \<Rightarrow> int \<Rightarrow> (int, 'v) ev" where
  "exp2_combine op stp val1 val2 s =
     (if op = MUL then number (wrap64 (val1 * val2)) s
      else if val2 = 0 \<and> noeval s = 0 then
        evalerror ''division by 0''
          (s\<lparr>lasttp := Some (stp + length (takeWhile whitespace (drop stp (expression s))))\<rparr>)
      else if op = MOD \<and> val1 = INTMAX_MIN \<and> val2 = - 1 then Done 0 s
      else
        let val2' = (if val2 = 0 \<or> op = DIV \<and> val1 = INTMAX_MIN \<and> val2 = - 1 then 1 else val2)
        in number (if op = DIV then c_div val1 val2' else c_mod val1 val2') s)"

definition exp2 :: "nat \<Rightarrow> 'v shell_ops \<Rightarrow> (unit, 'v) ev \<Rightarrow> (int, 'v) ev \<Rightarrow> (int, 'v) ev" where
  "exp2 n ops rd high = binary n (\<lambda>t. t = MUL \<or> t = DIV \<or> t = MOD) rd (exppower n ops rd high) exp2_combine"

definition exp3 :: "nat \<Rightarrow> 'v shell_ops \<Rightarrow> (unit, 'v) ev \<Rightarrow> (int, 'v) ev \<Rightarrow> (int, 'v) ev" where
  "exp3 n ops rd high =
     binary n (\<lambda>t. t = PLUS \<or> t = MINUS) rd (exp2 n ops rd high)
       (\<lambda>op stp val1 val2. number (wrap64 (if op = PLUS then val1 + val2 else val1 - val2)))"

definition expshift :: "nat \<Rightarrow> 'v shell_ops \<Rightarrow> (unit, 'v) ev \<Rightarrow> (int, 'v) ev \<Rightarrow> (int, 'v) ev" where
  "expshift n ops rd high =
     binary n (\<lambda>t. t = LSH \<or> t = RSH) rd (exp3 n ops rd high)
       (\<lambda>op stp val1 val2. case shift_value op val1 val2 of None \<Rightarrow> (\<lambda>s. Undefined) | Some v \<Rightarrow> number v)"

definition compare_values :: "token \<Rightarrow> int \<Rightarrow> int \<Rightarrow> int" where
  "compare_values op val1 val2 =
     truth (if op = LEQ then val1 \<le> val2 else if op = GEQ then val2 \<le> val1 else if op = LT then val1 < val2 else val2 < val1)"

definition exp4 :: "nat \<Rightarrow> 'v shell_ops \<Rightarrow> (unit, 'v) ev \<Rightarrow> (int, 'v) ev \<Rightarrow> (int, 'v) ev" where
  "exp4 n ops rd high =
     binary n (\<lambda>t. t = LEQ \<or> t = GEQ \<or> t = LT \<or> t = GT) rd (expshift n ops rd high)
       (\<lambda>op stp val1 val2. number (compare_values op val1 val2))"

definition exp5 :: "nat \<Rightarrow> 'v shell_ops \<Rightarrow> (unit, 'v) ev \<Rightarrow> (int, 'v) ev \<Rightarrow> (int, 'v) ev" where
  "exp5 n ops rd high =
     binary n (\<lambda>t. t = EQEQ \<or> t = NEQ) rd (exp4 n ops rd high)
       (\<lambda>op stp val1 val2. number (truth (if op = EQEQ then val1 = val2 else val1 \<noteq> val2)))"

definition expband :: "nat \<Rightarrow> 'v shell_ops \<Rightarrow> (unit, 'v) ev \<Rightarrow> (int, 'v) ev \<Rightarrow> (int, 'v) ev" where
  "expband n ops rd high =
     binary n (\<lambda>t. t = BAND) rd (exp5 n ops rd high) (\<lambda>op stp val1 val2. number (val1 AND val2))"

definition expbxor :: "nat \<Rightarrow> 'v shell_ops \<Rightarrow> (unit, 'v) ev \<Rightarrow> (int, 'v) ev \<Rightarrow> (int, 'v) ev" where
  "expbxor n ops rd high =
     binary n (\<lambda>t. t = BXOR) rd (expband n ops rd high) (\<lambda>op stp val1 val2. number (val1 XOR val2))"

definition expbor :: "nat \<Rightarrow> 'v shell_ops \<Rightarrow> (unit, 'v) ev \<Rightarrow> (int, 'v) ev \<Rightarrow> (int, 'v) ev" where
  "expbor n ops rd high =
     binary n (\<lambda>t. t = BOR) rd (expbxor n ops rd high) (\<lambda>op stp val1 val2. number (val1 OR val2))"

section \<open>Logical operators and the conditional\<close>

text \<open>
  The right operand of \<open>&&\<close> and \<open>||\<close> is parsed with \<^verbatim>\<open>noeval\<close> increased, from its first token on,
  when the left one decides.
\<close>

definition skip_if :: "bool \<Rightarrow> 'v expr_state \<Rightarrow> 'v expr_state" where
  "skip_if b s = (if b then s\<lparr>noeval := noeval s + 1\<rparr> else s)"

definition unskip_if :: "bool \<Rightarrow> 'v expr_state \<Rightarrow> 'v expr_state" where
  "unskip_if b s = (if b then s\<lparr>noeval := noeval s - 1\<rparr> else s)"

primrec expland_loop :: "nat \<Rightarrow> (unit, 'v) ev \<Rightarrow> (int, 'v) ev \<Rightarrow> int \<Rightarrow> (int, 'v) ev" where
  "expland_loop 0 rd operand val1 = (\<lambda>s. No_Fuel)"
| "expland_loop (Suc n) rd operand val1 = (\<lambda>s.
     if curtok s = LAND then
       let set_noeval = (val1 = 0)
       in andthen rd (\<lambda>_. andthen operand (\<lambda>val2 s1.
            expland_loop n rd operand (truth (val1 \<noteq> 0 \<and> val2 \<noteq> 0)) ((unskip_if set_noeval s1)\<lparr>lasttok := LAND\<rparr>)))
            (skip_if set_noeval s)
     else Done val1 s)"

definition expland :: "nat \<Rightarrow> 'v shell_ops \<Rightarrow> (unit, 'v) ev \<Rightarrow> (int, 'v) ev \<Rightarrow> (int, 'v) ev" where
  "expland n ops rd high = andthen (expbor n ops rd high) (expland_loop n rd (expbor n ops rd high))"

primrec explor_loop :: "nat \<Rightarrow> (unit, 'v) ev \<Rightarrow> (int, 'v) ev \<Rightarrow> int \<Rightarrow> (int, 'v) ev" where
  "explor_loop 0 rd operand val1 = (\<lambda>s. No_Fuel)"
| "explor_loop (Suc n) rd operand val1 = (\<lambda>s.
     if curtok s = LOR then
       let set_noeval = (val1 \<noteq> 0)
       in andthen rd (\<lambda>_. andthen operand (\<lambda>val2 s1.
            explor_loop n rd operand (truth (val1 \<noteq> 0 \<or> val2 \<noteq> 0)) ((unskip_if set_noeval s1)\<lparr>lasttok := LOR\<rparr>)))
            (skip_if set_noeval s)
     else Done val1 s)"

definition explor :: "nat \<Rightarrow> 'v shell_ops \<Rightarrow> (unit, 'v) ev \<Rightarrow> (int, 'v) ev \<Rightarrow> (int, 'v) ev" where
  "explor n ops rd high = andthen (expland n ops rd high) (explor_loop n rd (expland n ops rd high))"

text \<open>Here the first token of a branch is read, and a variable evaluated, before \<^verbatim>\<open>noeval\<close> is set.\<close>

primrec expcond :: "nat \<Rightarrow> 'v shell_ops \<Rightarrow> (unit, 'v) ev \<Rightarrow> (int, 'v) ev \<Rightarrow> (int, 'v) ev" where
  "expcond 0 ops rd high = (\<lambda>s. No_Fuel)"
| "expcond (Suc n) ops rd high =
     andthen (explor n ops rd high) (\<lambda>cval s.
       if curtok s = QUES then
         andthen rd (\<lambda>_ s1.
           if curtok s1 = TEOF \<or> curtok s1 = COL then evalerror ''expression expected'' s1
           else
             andthen high (\<lambda>val1 s2.
               let s3 = unskip_if (cval = 0) s2
               in if curtok s3 \<noteq> COL then evalerror ''`:' expected for conditional expression'' s3
                  else andthen rd (\<lambda>_ s4.
                    if curtok s4 = TEOF then evalerror ''expression expected'' s4
                    else andthen (expcond n ops rd high)
                      (\<lambda>val2 s5. Done (if cval \<noteq> 0 then val1 else val2) ((unskip_if (cval \<noteq> 0) s5)\<lparr>lasttok := COND\<rparr>))
                      (skip_if (cval \<noteq> 0) s4)) s3)
               (skip_if (cval = 0) s1)) s
       else Done cval s)"

section \<open>Assignment\<close>

text \<open>The value stored by \<open>a OP= b\<close>.\<close>

definition assign_op :: "token \<Rightarrow> int \<Rightarrow> int \<Rightarrow> (int, 'v) ev" where
  "assign_op op lval value0 s =
     (if (op = DIV \<or> op = MOD) \<and> value0 = 0 \<and> noeval s = 0 then evalerror ''division by 0'' s
      else
        let value = (if (op = DIV \<or> op = MOD) \<and> value0 = 0 then 1 else value0)
        in if op = MUL then Done (wrap64 (lval * value)) s
           else if op = DIV \<or> op = MOD then
             if lval = INTMAX_MIN \<and> value = - 1 then Done (if op = DIV then INTMAX_MIN else 0) s
             else Done (if op = DIV then c_div lval value else c_mod lval value) s
           else if op = PLUS then Done (wrap64 (lval + value)) s
           else if op = MINUS then Done (wrap64 (lval - value)) s
           else if op = LSH \<or> op = RSH then
             (case shift_value op lval value of None \<Rightarrow> Undefined | Some v \<Rightarrow> Done v s)
           else if op = BAND then Done (lval AND value) s
           else if op = BOR then Done (lval OR value) s
           else if op = BXOR then Done (lval XOR value) s
           else evalerror ''bug: bad expassign token'' s)"

text \<open>What \<^verbatim>\<open>expassign\<close> does after the right side has been evaluated to \<open>rval\<close>.\<close>

definition assigned_value :: "'v shell_ops \<Rightarrow> bool \<Rightarrow> token \<Rightarrow> int \<Rightarrow> cstring \<Rightarrow> int \<Rightarrow> int \<Rightarrow> (int, 'v) ev" where
  "assigned_value ops special op lval lhs lind rval =
     andthen (if special then assign_op op lval rval else Done rval) (\<lambda>v s.
       andthen (if noeval s = 0 then expr_bind ops lhs lhs lind (itos v) else Done ())
         (\<lambda>_ s2. Done v (s2\<lparr>curlval := (if lv_tokstr (curlval s2) \<noteq> None \<and> lv_tokstr (curlval s2) = tokstr s2
                                        then init_lvalue else curlval s2),
                             tokstr := None\<rparr>)) s)"

primrec expassign :: "nat \<Rightarrow> 'v shell_ops \<Rightarrow> (unit, 'v) ev \<Rightarrow> (int, 'v) ev \<Rightarrow> (int, 'v) ev" where
  "expassign 0 ops rd high = (\<lambda>s. No_Fuel)"
| "expassign (Suc n) ops rd high =
     andthen (expcond n ops rd high) (\<lambda>value s.
       if curtok s = EQ \<or> curtok s = OP_ASSIGN then
         let special = (curtok s = OP_ASSIGN); op = assigntok s
         in if lasttok s \<noteq> STR_TOK then evalerror ''attempted assignment to non-variable'' s
            else
              case tokstr s of
                None \<Rightarrow> Undefined
              | Some (a, lhs) \<Rightarrow>
                  let lind = lv_ind (curlval s)
                  in andthen rd (\<lambda>_. andthen (expassign n ops rd high) (assigned_value ops special op value lhs lind)) s
       else Done value s)"

section \<open>Expressions\<close>

primrec comma_loop :: "nat \<Rightarrow> (unit, 'v) ev \<Rightarrow> (int, 'v) ev \<Rightarrow> int \<Rightarrow> (int, 'v) ev" where
  "comma_loop 0 rd operand val = (\<lambda>s. No_Fuel)"
| "comma_loop (Suc n) rd operand val = (\<lambda>s.
     if curtok s = COMMA_TOK then andthen rd (\<lambda>_. andthen operand (comma_loop n rd operand)) s
     else Done val s)"

primrec expcomma :: "nat \<Rightarrow> 'v shell_ops \<Rightarrow> (unit, 'v) ev \<Rightarrow> (int, 'v) ev" where
  "expcomma 0 ops rd = (\<lambda>s. No_Fuel)"
| "expcomma (Suc n) ops rd =
     (let operand = expassign n ops rd (expcomma n ops rd)
      in andthen operand (comma_loop n rd operand))"

section \<open>Expression contexts\<close>

definition pushexp :: "(unit, 'v) ev" where
  "pushexp s =
     (if MAX_EXPR_RECURSION_LEVEL \<le> length (expr_stack s) then evalerror ''expression recursion level exceeded'' s
      else Done () (s\<lparr>expr_stack := SAVETOK s # expr_stack s\<rparr>))"

definition popexp :: "(unit, 'v) ev" where
  "popexp s =
     (case expr_stack s of
        [] \<Rightarrow> evalerror ''recursion stack underflow'' s
      | context # stack \<Rightarrow> Done () (RESTORETOK context (s\<lparr>expr_stack := stack, expression := expression context\<rparr>)))"

text \<open>The argument \<open>k\<close> of \<open>subexpr\<close> is fuel for variables whose value names variables.\<close>

definition expr_fuel :: "cstring \<Rightarrow> nat" where
  "expr_fuel str = length str + 6"

primrec subexpr :: "nat \<Rightarrow> 'v shell_ops \<Rightarrow> cstring \<Rightarrow> (int, 'v) ev" where
  "subexpr 0 ops str = (\<lambda>s. No_Fuel)"
| "subexpr (Suc k) ops str = (\<lambda>s.
     if dropWhile cr_whitespace str = [] then Done 0 s
     else
       let rd = readtok ops (subexpr k ops)
       in andthen pushexp (\<lambda>_ s1.
            andthen rd (\<lambda>_. andthen (expcomma (expr_fuel str) ops rd) (\<lambda>val s2.
              if curtok s2 \<noteq> TEOF then evalerror ''syntax error in expression'' s2
              else andthen popexp (\<lambda>_. Done val) s2))
              (s1\<lparr>expression := str, tp := 0, curtok := TEOF, lasttok := TEOF, tokstr := None, tokval := 0,
                  curlval := init_lvalue\<rparr>)) s)"

text \<open>
  The result and \<^verbatim>\<open>*validp\<close>. After a jump the globals are reset; the path does not put back the
  outer \<^verbatim>\<open>evalbuf\<close>, which the normal return does.
\<close>

definition evalexp :: "'v shell_ops \<Rightarrow> cstring \<Rightarrow> (int \<times> bool, 'v) ev" where
  "evalexp ops str s =
     (case subexpr (MAX_EXPR_RECURSION_LEVEL + 1) ops str (s\<lparr>noeval := 0\<rparr>) of
        Done val s1 \<Rightarrow> Done (val, True) s1
      | Longjmp msg s1 \<Rightarrow> Done (0, False) (s1\<lparr>tokstr := None, expression := [], expr_stack := [], noeval := 0\<rparr>)
      | Top_Level s1 \<Rightarrow> Top_Level s1
      | Undefined \<Rightarrow> Undefined
      | No_Fuel \<Rightarrow> No_Fuel)"

section \<open>Termination\<close>

text \<open>
  Tokens left: none at the end, else the current one and at most one for every character. A
  routine that returns keeps the expression and the stack, and it has taken tokens away; it never
  runs out of fuel.
\<close>

definition todo :: "'v expr_state \<Rightarrow> nat" where
  "todo s = (if curtok s = TEOF then 0 else Suc (length (expression s) - tp s))"

definition steps :: "bool \<Rightarrow> 'v expr_state \<Rightarrow> ('a, 'v) outcome \<Rightarrow> bool" where
  "steps b s r \<longleftrightarrow>
     (case r of
        No_Fuel \<Rightarrow> False
      | Done x s' \<Rightarrow> expression s' = expression s \<and> expr_stack s' = expr_stack s \<and> todo s' + of_bool b \<le> todo s
      | _ \<Rightarrow> True)"

lemma steps_simps [simp]:
  "steps b s (Done x s') \<longleftrightarrow> expression s' = expression s \<and> expr_stack s' = expr_stack s \<and> todo s' + of_bool b \<le> todo s"
  "steps b s (Longjmp msg s')" "steps b s (Top_Level s')" "steps b s Undefined" "\<not> steps b s No_Fuel"
  "steps b s (evalerror e s')"
  by (simp_all add: steps_def evalerror_def)

lemma steps_andthen:
  assumes "steps b s1 (m s1)" and "todo s1 \<le> todo s" "expression s1 = expression s" "expr_stack s1 = expr_stack s"
    and "\<And>x t. expression t = expression s \<Longrightarrow> expr_stack t = expr_stack s \<Longrightarrow> todo t + of_bool b \<le> todo s \<Longrightarrow>
      steps c t (f x t)"
    and "d \<longrightarrow> b \<or> c"
  shows "steps d s (andthen m f s1)"
proof (cases "m s1")
  case (Done x t)
  then have t: "expression t = expression s" "expr_stack t = expr_stack s" "todo t + of_bool b \<le> todo s"
    using assms(1-4) by simp_all
  then have "steps c t (f x t)" using assms(5) by blast
  then show ?thesis
    using assms(6) t Done by (cases "f x t") (auto split: if_splits)
qed (use assms(1) in simp_all)

lemma steps_weaken: "steps b s r \<Longrightarrow> c \<longrightarrow> b \<Longrightarrow> steps c s r"
  by (cases r) (auto split: if_splits)

lemma steps_same: "steps b s1 r \<Longrightarrow> todo s1 = todo s \<Longrightarrow> expression s1 = expression s \<Longrightarrow>
    expr_stack s1 = expr_stack s \<Longrightarrow> steps b s r"
  by (cases r) auto

definition deep :: "nat \<Rightarrow> 'v expr_state \<Rightarrow> bool" where
  "deep level s \<longleftrightarrow>
     length (expr_stack s) \<le> MAX_EXPR_RECURSION_LEVEL \<and> MAX_EXPR_RECURSION_LEVEL + 1 \<le> level + length (expr_stack s)"

definition high_ok :: "nat \<Rightarrow> nat \<Rightarrow> (int, 'v) ev \<Rightarrow> bool" where
  "high_ok level m high \<longleftrightarrow> (\<forall>t. deep level t \<longrightarrow> todo t < m \<longrightarrow> steps True t (high t))"

lemma high_okD: "high_ok level m high \<Longrightarrow> deep level t \<Longrightarrow> todo t < m \<Longrightarrow> steps True t (high t)"
  by (simp add: high_ok_def)

lemma todo_update [simp]:
  "todo (s\<lparr>lasttok := t\<rparr>) = todo s" "todo (s\<lparr>noeval := k\<rparr>) = todo s" "todo (s\<lparr>vars := v\<rparr>) = todo s"
  "todo (s\<lparr>tokstr := x\<rparr>) = todo s" "todo (s\<lparr>curlval := lv\<rparr>) = todo s" "todo (s\<lparr>lasttp := p\<rparr>) = todo s"
  "todo (skip_if b s) = todo s" "todo (unskip_if b s) = todo s"
  by (simp_all add: todo_def skip_if_def unskip_if_def)

lemma skip_simps [simp]:
  "expression (skip_if b s) = expression s" "expr_stack (skip_if b s) = expr_stack s" "curtok (skip_if b s) = curtok s"
  "expression (unskip_if b s) = expression s" "expr_stack (unskip_if b s) = expr_stack s" "curtok (unskip_if b s) = curtok s"
  "vars (skip_if b s) = vars s" "vars (unskip_if b s) = vars s"
  by (simp_all add: skip_if_def unskip_if_def)

lemma deep_eq: "deep level s \<Longrightarrow> expr_stack t = expr_stack s \<Longrightarrow> deep level t"
  by (simp add: deep_def)

lemma steps_number [simp]: "steps False s (number v s)"
  by (simp add: number_def)

lemma exp0_incr_cases:
  "(\<exists>v. exp0_incr ops w s = Done () (s\<lparr>vars := v\<rparr>)) \<or> (\<exists>v. exp0_incr ops w s = Longjmp None (s\<lparr>vars := v\<rparr>)) \<or>
   exp0_incr ops w s = Undefined \<or> exp0_incr ops w s = Done () s"
  by (auto simp: exp0_incr_def expr_bind_def expr_bind_array_element_def expr_bind_variable_def
      split: option.splits prod.splits)

lemma steps_bind: "steps False s (expr_bind ops name arr ind rhs s)"
  by (auto simp: expr_bind_def expr_bind_array_element_def expr_bind_variable_def split: prod.splits)

locale token_reader =
  fixes rd :: "(unit, 'v) ev" and level :: nat
  assumes rd_steps: "deep level s \<Longrightarrow> curtok s \<noteq> TEOF \<Longrightarrow> steps True s (rd s)"
begin

lemma rd_then:
  assumes "deep level s" and "curtok s1 \<noteq> TEOF" and "todo s1 \<le> todo s" "expression s1 = expression s" "expr_stack s1 = expr_stack s"
    and f: "\<And>x t. deep level t \<Longrightarrow> expression t = expression s \<Longrightarrow> expr_stack t = expr_stack s \<Longrightarrow> todo t < todo s \<Longrightarrow>
      steps False t (f x t)"
  shows "steps True s (andthen rd f s1)"
proof (rule steps_andthen [where b = True and c = False])
  show "steps True s1 (rd s1)" using assms by (intro rd_steps) (auto elim: deep_eq)
  fix x and t :: "'v expr_state"
  assume t: "expression t = expression s" "expr_stack t = expr_stack s" "todo t + of_bool True \<le> todo s"
  then show "steps False t (f x t)" using deep_eq [OF assms(1) t(2)] by (intro f) auto
qed (use assms in auto)

lemma incr_then_rd:
  assumes "deep level s" and "curtok s1 \<noteq> TEOF"
    and "expression s1 = expression s" "expr_stack s1 = expr_stack s" "todo s1 \<le> todo s"
  shows "steps True s (andthen (exp0_incr ops w) (\<lambda>_ s2. andthen rd (\<lambda>_. Done v) (s2\<lparr>curtok := NUM_TOK\<rparr>)) s1)"
proof -
  have rd: "steps True s (andthen rd (\<lambda>_. Done v) (t\<lparr>curtok := NUM_TOK\<rparr>))"
    if "t = s1 \<or> (\<exists>v. t = s1\<lparr>vars := v\<rparr>)" for t
    using assms that by (intro rd_then) (auto simp: todo_def)
  show ?thesis
    using exp0_incr_cases [of ops w s1] rd by (elim disjE exE) auto
qed

lemma exp0_steps:
  assumes "deep level s" and "high_ok level (todo s) high"
  shows "steps True s (exp0 ops rd high s)"
proof -
  consider (pre) "curtok s = PREINC \<or> curtok s = PREDEC" | (par) "curtok s = LPAR" | (num) "curtok s = NUM_TOK"
    | (str) "curtok s = STR_TOK"
    | (other) "curtok s \<noteq> PREINC" "curtok s \<noteq> PREDEC" "curtok s \<noteq> LPAR" "curtok s \<noteq> NUM_TOK" "curtok s \<noteq> STR_TOK"
    by blast
  then show ?thesis
  proof cases
    case pre
    have incr: "steps False t (andthen (exp0_incr ops w) (\<lambda>_ s2. andthen rd (\<lambda>_. Done v) (s2\<lparr>curtok := NUM_TOK\<rparr>)) t)"
      if "deep level t" "curtok t = STR_TOK" for t w and v :: int
      using that by (intro steps_weaken [OF incr_then_rd]) auto
    show ?thesis
      unfolding exp0_def Let_def if_P [OF pre]
    proof (rule rd_then)
      fix x and t :: "'v expr_state"
      assume t: "deep level t"
      show "steps False t
        (if curtok t \<noteq> STR_TOK then evalerror ''identifier expected after pre-increment or pre-decrement'' t
         else andthen (exp0_incr ops (wrap64 (tokval t + (if curtok s = PREINC then 1 else - 1))))
           (\<lambda>_ s2. andthen rd (\<lambda>_. Done (wrap64 (tokval t + (if curtok s = PREINC then 1 else - 1)))) (s2\<lparr>curtok := NUM_TOK\<rparr>)) t)"
        using incr [OF t] by (cases "curtok t = STR_TOK") simp_all
    qed (use assms(1) pre in auto)
  next
    case par
    have "steps False t (andthen high (\<lambda>val s1. if curtok s1 \<noteq> RPAR then evalerror msg s1 else andthen rd (\<lambda>_. Done val) s1) t)"
      if t: "deep level t" "todo t < todo s" for t msg
    proof (rule steps_andthen [where b = True and c = False])
      show "steps True t (high t)" using assms(2) t by (rule high_okD)
      fix val and t1 :: "'v expr_state"
      assume t1: "expression t1 = expression t" "expr_stack t1 = expr_stack t"
      show "steps False t1 (if curtok t1 \<noteq> RPAR then evalerror msg t1 else andthen rd (\<lambda>_. Done val) t1)"
        using deep_eq [OF t(1) t1(2)] by (auto intro!: steps_weaken [OF rd_then])
    qed auto
    then show ?thesis
      using assms(1) par unfolding exp0_def by (auto intro!: rd_then)
  next
    case num
    then show ?thesis using assms(1) unfolding exp0_def by (auto intro!: rd_then)
  next
    case str
    let ?s1 = "s\<lparr>tokstr := None, noeval := 1\<rparr>"
    have "steps True s (rd ?s1)"
      using rd_steps [of ?s1] assms(1) str deep_eq [OF assms(1), of ?s1] by (auto intro: steps_same)
    show ?thesis
    proof (cases "rd ?s1")
      case (Done u t)
      then have t: "expression t = expression s" "expr_stack t = expr_stack s" "todo t < todo s"
        using \<open>steps True s (rd ?s1)\<close> by simp_all
      show ?thesis
      proof (cases "curtok t = POSTINC \<or> curtok t = POSTDEC")
        case True
        then show ?thesis
          using str t Done assms(1) by (auto simp: exp0_def Let_def todo_def intro!: incr_then_rd)
      next
        case False
        have "todo (RESTORETOK (SAVETOK s) t) = todo s"
          using t by (simp add: todo_def RESTORETOK_def SAVETOK_def)
        then have "steps True s (andthen rd (\<lambda>_. Done (tokval s)) (RESTORETOK (SAVETOK s) t))"
          using assms(1) str t by (intro rd_then) (auto simp: RESTORETOK_def SAVETOK_def)
        then show ?thesis using str False Done by (simp add: exp0_def Let_def)
      qed
    qed (use str \<open>steps True s (rd ?s1)\<close> in \<open>simp_all add: exp0_def Let_def\<close>)
  next
    case other
    then show ?thesis by (simp add: exp0_def)
  qed
qed

lemma exp1_steps:
  "deep level s \<Longrightarrow> todo s < n \<Longrightarrow> todo s \<le> m \<Longrightarrow> high_ok level m high \<Longrightarrow> steps True s (exp1 n ops rd high s)"
proof (induction n arbitrary: s)
  case (Suc n)
  have un: "steps True s (andthen rd (\<lambda>_. andthen (exp1 n ops rd high) (\<lambda>val. number (f val))) s)"
    if "curtok s \<noteq> TEOF" for f
  proof (rule rd_then)
    fix x and t :: "'v expr_state"
    assume t: "deep level t" "todo t < todo s"
    show "steps False t (andthen (exp1 n ops rd high) (\<lambda>val. number (f val)) t)"
      using Suc.IH [OF t(1)] t Suc.prems by (intro steps_andthen [where b = True and c = False]) auto
  qed (use Suc.prems that in auto)
  have "high_ok level (todo s) high" using Suc.prems by (auto simp: high_ok_def)
  then show ?case using Suc.prems un [where f = "\<lambda>v. v"] by (auto simp: un exp0_steps)
qed simp

lemma power_steps:
  "deep level s \<Longrightarrow> todo s + 1 < n \<Longrightarrow> todo s \<le> m \<Longrightarrow> high_ok level m high \<Longrightarrow> steps True s (exppower n ops rd high s)"
  "deep level s \<Longrightarrow> todo s + 1 < n \<Longrightarrow> todo s \<le> m \<Longrightarrow> high_ok level m high \<Longrightarrow> steps False s (power_loop n ops rd high v s)"
proof (induction n arbitrary: s v)
  case (Suc n)
  {
    case 1
    show ?case
      unfolding exppower.simps
    proof (rule steps_andthen [where b = True and c = False])
      show "steps True s (exp1 n ops rd high s)" using 1 by (intro exp1_steps) auto
      fix x and t :: "'v expr_state"
      assume t: "expr_stack t = expr_stack s" "todo t + of_bool True \<le> todo s"
      show "steps False t (power_loop n ops rd high x t)"
        using 1 t deep_eq [OF 1(1) t(1)] by (intro Suc.IH(2)) auto
    qed auto
  next
    case 2
    show ?case
    proof (cases "curtok s = POWER")
      case True
      have "steps True s (andthen rd (\<lambda>_. andthen (exppower n ops rd high) (\<lambda>val2 s1.
         let s2 = s1\<lparr>lasttok := NUM_TOK\<rparr>
         in if val2 = 0 then Done 1 s2
            else if val2 < 0 then evalerror ''exponent less than 0'' s2
            else power_loop n ops rd high (ipow v val2) s2)) s)"
      proof (rule rd_then)
        fix x and t :: "'v expr_state"
        assume t: "deep level t" "todo t < todo s"
        show "steps False t (andthen (exppower n ops rd high) (\<lambda>val2 s1.
         let s2 = s1\<lparr>lasttok := NUM_TOK\<rparr>
         in if val2 = 0 then Done 1 s2
            else if val2 < 0 then evalerror ''exponent less than 0'' s2
            else power_loop n ops rd high (ipow v val2) s2) t)"
        proof (rule steps_andthen [where b = True and c = False])
          show "steps True t (exppower n ops rd high t)" using 2 t by (intro Suc.IH(1)) auto
          fix w and t1 :: "'v expr_state"
          assume t1: "expr_stack t1 = expr_stack t" "todo t1 + of_bool True \<le> todo t"
          have "steps False (t1\<lparr>lasttok := NUM_TOK\<rparr>) (power_loop n ops rd high (ipow v w) (t1\<lparr>lasttok := NUM_TOK\<rparr>))"
            using 2 t t1 deep_eq [OF t(1), of "t1\<lparr>lasttok := NUM_TOK\<rparr>"] by (intro Suc.IH(2)) auto
          then have "steps False t1 (power_loop n ops rd high (ipow v w) (t1\<lparr>lasttok := NUM_TOK\<rparr>))"
            by (rule steps_same) auto
          then show "steps False t1 (let s2 = t1\<lparr>lasttok := NUM_TOK\<rparr>
             in if w = 0 then Done 1 s2 else if w < 0 then evalerror ''exponent less than 0'' s2
                else power_loop n ops rd high (ipow v w) s2)" by (simp add: Let_def)
        qed auto
      qed (use 2 True in auto)
      then show ?thesis using True by (auto intro: steps_weaken)
    qed simp
  }
qed simp_all

lemma binary_loop_steps:
  assumes "\<And>t. deep level t \<Longrightarrow> todo t < m \<Longrightarrow> steps True t (operand t)"
    and "\<And>op stp a b t. steps False t (combine op stp a b t)"
    and "\<not> is_op TEOF"
  shows "deep level s \<Longrightarrow> todo s < n \<Longrightarrow> todo s \<le> m \<Longrightarrow> steps False s (binary_loop n is_op rd operand combine v s)"
proof (induction n arbitrary: s v)
  case (Suc n)
  show ?case
  proof (cases "is_op (curtok s)")
    case True
    have "steps True s (andthen rd (\<lambda>_. andthen operand (\<lambda>val2. andthen (combine (curtok s) (tp s) v val2)
            (binary_loop n is_op rd operand combine))) s)"
    proof (rule rd_then)
      fix x and t :: "'v expr_state"
      assume t: "deep level t" "todo t < todo s"
      show "steps False t (andthen operand (\<lambda>val2. andthen (combine (curtok s) (tp s) v val2)
            (binary_loop n is_op rd operand combine)) t)"
      proof (rule steps_andthen [where b = True and c = False])
        show "steps True t (operand t)" using assms(1) t Suc.prems by auto
        fix w and t1 :: "'v expr_state"
        assume t1: "expr_stack t1 = expr_stack t" "todo t1 + of_bool True \<le> todo t"
        show "steps False t1 (andthen (combine (curtok s) (tp s) v w) (binary_loop n is_op rd operand combine) t1)"
        proof (rule steps_andthen [where b = False and c = False])
          fix z and t2 :: "'v expr_state"
          assume t2: "expr_stack t2 = expr_stack t1" "todo t2 + of_bool False \<le> todo t1"
          then show "steps False t2 (binary_loop n is_op rd operand combine z t2)"
            using t1 t Suc.prems deep_eq [OF t(1), of t2] by (intro Suc.IH) auto
        qed (use assms(2) in auto)
      qed auto
    qed (use Suc.prems True assms(3) in auto)
    then show ?thesis using True by (auto simp: Let_def intro: steps_weaken)
  qed simp
qed simp

lemma binary_steps:
  assumes "\<And>t. deep level t \<Longrightarrow> todo t \<le> todo s \<Longrightarrow> steps True t (operand t)"
    and "\<And>op stp a b t. steps False t (combine op stp a b t)"
    and "\<not> is_op TEOF" and "deep level s" and "todo s < n"
  shows "steps True s (binary n is_op rd operand combine s)"
  unfolding binary_def
proof (rule steps_andthen [where b = True and c = False])
  show "steps True s (operand s)" using assms by auto
  fix w and t :: "'v expr_state"
  assume t: "expr_stack t = expr_stack s" "todo t + of_bool True \<le> todo s"
  show "steps False t (binary_loop n is_op rd operand combine w t)"
    using assms t deep_eq [OF assms(4) t(1)] by (intro binary_loop_steps [where m = "todo s"]) auto
qed auto

lemma exp2_combine_steps: "steps False t (exp2_combine op stp a b t)"
  by (auto simp: exp2_combine_def Let_def)

lemma shift_steps: "steps False t ((case v of None \<Rightarrow> (\<lambda>s. Undefined) | Some v \<Rightarrow> number v) t)"
  by (cases v) simp_all

lemma exp2_steps:
  "deep level s \<Longrightarrow> todo s + 1 < n \<Longrightarrow> todo s \<le> m \<Longrightarrow> high_ok level m high \<Longrightarrow> steps True s (exp2 n ops rd high s)"
  unfolding exp2_def
  by (rule binary_steps) (auto intro!: power_steps(1) [where m = m] exp2_combine_steps)

lemma exp3_steps:
  "deep level s \<Longrightarrow> todo s + 1 < n \<Longrightarrow> todo s \<le> m \<Longrightarrow> high_ok level m high \<Longrightarrow> steps True s (exp3 n ops rd high s)"
  unfolding exp3_def
  by (rule binary_steps) (auto intro!: exp2_steps [where m = m])

lemma expshift_steps:
  "deep level s \<Longrightarrow> todo s + 1 < n \<Longrightarrow> todo s \<le> m \<Longrightarrow> high_ok level m high \<Longrightarrow> steps True s (expshift n ops rd high s)"
  unfolding expshift_def
  by (rule binary_steps) (auto intro!: exp3_steps [where m = m] shift_steps)

lemma exp4_steps:
  "deep level s \<Longrightarrow> todo s + 1 < n \<Longrightarrow> todo s \<le> m \<Longrightarrow> high_ok level m high \<Longrightarrow> steps True s (exp4 n ops rd high s)"
  unfolding exp4_def
  by (rule binary_steps) (auto intro!: expshift_steps [where m = m])

lemma exp5_steps:
  "deep level s \<Longrightarrow> todo s + 1 < n \<Longrightarrow> todo s \<le> m \<Longrightarrow> high_ok level m high \<Longrightarrow> steps True s (exp5 n ops rd high s)"
  unfolding exp5_def
  by (rule binary_steps) (auto intro!: exp4_steps [where m = m])

lemma expband_steps:
  "deep level s \<Longrightarrow> todo s + 1 < n \<Longrightarrow> todo s \<le> m \<Longrightarrow> high_ok level m high \<Longrightarrow> steps True s (expband n ops rd high s)"
  unfolding expband_def
  by (rule binary_steps) (auto intro!: exp5_steps [where m = m])

lemma expbxor_steps:
  "deep level s \<Longrightarrow> todo s + 1 < n \<Longrightarrow> todo s \<le> m \<Longrightarrow> high_ok level m high \<Longrightarrow> steps True s (expbxor n ops rd high s)"
  unfolding expbxor_def
  by (rule binary_steps) (auto intro!: expband_steps [where m = m])

lemma expbor_steps:
  "deep level s \<Longrightarrow> todo s + 1 < n \<Longrightarrow> todo s \<le> m \<Longrightarrow> high_ok level m high \<Longrightarrow> steps True s (expbor n ops rd high s)"
  unfolding expbor_def
  by (rule binary_steps) (auto intro!: expbxor_steps [where m = m])

lemma expland_loop_steps:
  assumes "\<And>t. deep level t \<Longrightarrow> todo t < m \<Longrightarrow> steps True t (operand t)"
  shows "deep level s \<Longrightarrow> todo s < n \<Longrightarrow> todo s \<le> m \<Longrightarrow> steps False s (expland_loop n rd operand v s)"
    "deep level s \<Longrightarrow> todo s < n \<Longrightarrow> todo s \<le> m \<Longrightarrow> steps False s (explor_loop n rd operand v s)"
proof (induction n arbitrary: s v)
  case (Suc n)
  have body: "steps True s (andthen rd (\<lambda>_. andthen operand (\<lambda>val2 s1. loop (g val2) ((unskip_if b s1)\<lparr>lasttok := c\<rparr>))) (skip_if b s))"
    if "curtok s \<noteq> TEOF" and loop: "\<And>t v. deep level t \<Longrightarrow> todo t < n \<Longrightarrow> todo t \<le> m \<Longrightarrow> steps False t (loop v t)"
      and s: "deep level s" "todo s < Suc n" "todo s \<le> m"
    for b c s and loop :: "int \<Rightarrow> (int, 'v) ev" and g
  proof (rule rd_then)
    fix x and t :: "'v expr_state"
    assume t: "deep level t" "todo t < todo s"
    show "steps False t (andthen operand (\<lambda>val2 s1. loop (g val2) ((unskip_if b s1)\<lparr>lasttok := c\<rparr>)) t)"
    proof (rule steps_andthen [where b = True and c = False])
      show "steps True t (operand t)" using assms t s by auto
      fix w and t1 :: "'v expr_state"
      assume t1: "expr_stack t1 = expr_stack t" "todo t1 + of_bool True \<le> todo t"
      have "steps False ((unskip_if b t1)\<lparr>lasttok := c\<rparr>) (loop (g w) ((unskip_if b t1)\<lparr>lasttok := c\<rparr>))"
        using t t1 s deep_eq [OF t(1), of "(unskip_if b t1)\<lparr>lasttok := c\<rparr>"] by (intro loop) auto
      then show "steps False t1 (loop (g w) ((unskip_if b t1)\<lparr>lasttok := c\<rparr>))" by (rule steps_same) auto
    qed auto
  qed (use s that in auto)
  {
    case 1
    then have "curtok s = LAND \<Longrightarrow> ?case"
      using steps_weaken [where c = False, OF body [where loop = "expland_loop n rd operand" and g = "\<lambda>val2. truth (v \<noteq> 0 \<and> val2 \<noteq> 0)"
          and b = "v = 0" and c = LAND, OF _ Suc.IH(1)]] 1
      by (simp add: Let_def)
    then show ?case by (cases "curtok s = LAND") simp_all
  next
    case 2
    then have "curtok s = LOR \<Longrightarrow> ?case"
      using steps_weaken [where c = False, OF body [where loop = "explor_loop n rd operand" and g = "\<lambda>val2. truth (v \<noteq> 0 \<or> val2 \<noteq> 0)"
          and b = "v \<noteq> 0" and c = LOR, OF _ Suc.IH(2)]] 2
      by (simp add: Let_def)
    then show ?case by (cases "curtok s = LOR") simp_all
  }
qed simp_all

lemma expland_steps:
  "deep level s \<Longrightarrow> todo s + 1 < n \<Longrightarrow> todo s \<le> m \<Longrightarrow> high_ok level m high \<Longrightarrow> steps True s (expland n ops rd high s)"
  unfolding expland_def
  by (rule steps_andthen [where b = True and c = False])
    (auto intro!: expbor_steps [where m = m] expland_loop_steps(1) [where m = "todo s"] elim: deep_eq)

lemma explor_steps:
  "deep level s \<Longrightarrow> todo s + 1 < n \<Longrightarrow> todo s \<le> m \<Longrightarrow> high_ok level m high \<Longrightarrow> steps True s (explor n ops rd high s)"
  unfolding explor_def
  by (rule steps_andthen [where b = True and c = False])
    (auto intro!: expland_steps [where m = m] expland_loop_steps(2) [where m = "todo s"] elim: deep_eq)

lemma expcond_steps:
  "deep level s \<Longrightarrow> todo s + 2 < n \<Longrightarrow> todo s \<le> m \<Longrightarrow> high_ok level m high \<Longrightarrow> steps True s (expcond n ops rd high s)"
proof (induction n arbitrary: s)
  case (Suc n)
  note cond = Suc.IH
  show ?case
    unfolding expcond.simps
  proof (rule steps_andthen [where b = True and c = False])
    show "steps True s (explor n ops rd high s)" using Suc.prems by (intro explor_steps [where m = m]) auto
    fix cval :: int and t :: "'v expr_state"
    assume t: "expr_stack t = expr_stack s" "todo t + of_bool True \<le> todo s"
    have d: "deep level t" using deep_eq [OF Suc.prems(1) t(1)] .
    have colon: "steps False t3 (if curtok t3 \<noteq> COL then evalerror msg1 t3
        else andthen rd (\<lambda>_ s4. if curtok s4 = TEOF then evalerror msg2 s4
           else andthen (expcond n ops rd high)
             (\<lambda>val2 s5. Done (g val2) ((unskip_if (cval \<noteq> 0) s5)\<lparr>lasttok := COND\<rparr>)) (skip_if (cval \<noteq> 0) s4)) t3)"
      if t3: "deep level t3" "todo t3 \<le> todo t" for t3 msg1 msg2 g
    proof (cases "curtok t3 = COL")
      case True
      have "steps True t3 (andthen rd (\<lambda>_ s4. if curtok s4 = TEOF then evalerror msg2 s4
           else andthen (expcond n ops rd high)
             (\<lambda>val2 s5. Done (g val2) ((unskip_if (cval \<noteq> 0) s5)\<lparr>lasttok := COND\<rparr>)) (skip_if (cval \<noteq> 0) s4)) t3)"
      proof (rule rd_then)
        fix x and t4 :: "'v expr_state"
        assume t4: "deep level t4" "todo t4 < todo t3"
        have "steps True t4 (expcond n ops rd high (skip_if (cval \<noteq> 0) t4))"
          using cond [of "skip_if (cval \<noteq> 0) t4"] t4 t3 t Suc.prems deep_eq [OF t4(1), of "skip_if (cval \<noteq> 0) t4"]
          by (auto intro: steps_same)
        then have "steps True (skip_if (cval \<noteq> 0) t4) (expcond n ops rd high (skip_if (cval \<noteq> 0) t4))"
          by (rule steps_same) auto
        then have "steps False t4 (andthen (expcond n ops rd high)
             (\<lambda>val2 s5. Done (g val2) ((unskip_if (cval \<noteq> 0) s5)\<lparr>lasttok := COND\<rparr>)) (skip_if (cval \<noteq> 0) t4))"
          by (rule steps_andthen [where b = True and c = False]) auto
        then show "steps False t4 (if curtok t4 = TEOF then evalerror msg2 t4
           else andthen (expcond n ops rd high)
             (\<lambda>val2 s5. Done (g val2) ((unskip_if (cval \<noteq> 0) s5)\<lparr>lasttok := COND\<rparr>)) (skip_if (cval \<noteq> 0) t4))"
          by simp
      qed (use t3 True in auto)
      then show ?thesis using True by (auto intro: steps_weaken [where b = True])
    qed simp
    have branch: "steps False t1 (andthen high (\<lambda>val1 s2. k val1 (unskip_if (cval = 0) s2)) (skip_if (cval = 0) t1))"
      if t1: "deep level t1" "todo t1 < todo t"
        and k: "\<And>v t2. deep level t2 \<Longrightarrow> todo t2 \<le> todo t \<Longrightarrow> steps False t2 (k v t2)" for t1 and k :: "int \<Rightarrow> (int, 'v) ev"
    proof (rule steps_andthen [where b = True and c = False])
      show "steps True (skip_if (cval = 0) t1) (high (skip_if (cval = 0) t1))"
        using Suc.prems(3,4) t t1 deep_eq [OF t1(1), of "skip_if (cval = 0) t1"] by (intro high_okD [where m = m]) auto
      fix v and t2 :: "'v expr_state"
      assume t2: "expr_stack t2 = expr_stack t1" "todo t2 + of_bool True \<le> todo t1"
      have "steps False (unskip_if (cval = 0) t2) (k v (unskip_if (cval = 0) t2))"
        using t1 t2 deep_eq [OF t1(1), of "unskip_if (cval = 0) t2"] by (intro k) auto
      then show "steps False t2 (k v (unskip_if (cval = 0) t2))" by (rule steps_same) auto
    qed auto
    show "steps False t (if curtok t = QUES then
         andthen rd (\<lambda>_ s1.
           if curtok s1 = TEOF \<or> curtok s1 = COL then evalerror ''expression expected'' s1
           else
             andthen high (\<lambda>val1 s2.
               let s3 = unskip_if (cval = 0) s2
               in if curtok s3 \<noteq> COL then evalerror ''`:' expected for conditional expression'' s3
                  else andthen rd (\<lambda>_ s4.
                    if curtok s4 = TEOF then evalerror ''expression expected'' s4
                    else andthen (expcond n ops rd high)
                      (\<lambda>val2 s5. Done (if cval \<noteq> 0 then val1 else val2) ((unskip_if (cval \<noteq> 0) s5)\<lparr>lasttok := COND\<rparr>))
                      (skip_if (cval \<noteq> 0) s4)) s3)
               (skip_if (cval = 0) s1)) t
       else Done cval t)"
    proof (cases "curtok t = QUES")
      case True
      show ?thesis
        unfolding if_P [OF True] Let_def
      proof (rule steps_weaken [OF rd_then])
        fix x and t1 :: "'v expr_state"
        assume "deep level t1" "todo t1 < todo t"
        then show "steps False t1 (if curtok t1 = TEOF \<or> curtok t1 = COL then evalerror ''expression expected'' t1
           else
             andthen high (\<lambda>val1 s2.
               if curtok (unskip_if (cval = 0) s2) \<noteq> COL then evalerror ''`:' expected for conditional expression'' (unskip_if (cval = 0) s2)
                  else andthen rd (\<lambda>_ s4.
                    if curtok s4 = TEOF then evalerror ''expression expected'' s4
                    else andthen (expcond n ops rd high)
                      (\<lambda>val2 s5. Done (if cval \<noteq> 0 then val1 else val2) ((unskip_if (cval \<noteq> 0) s5)\<lparr>lasttok := COND\<rparr>))
                      (skip_if (cval \<noteq> 0) s4)) (unskip_if (cval = 0) s2))
               (skip_if (cval = 0) t1))"
          using branch [of t1, OF _ _ colon] by auto
      qed (use d True in auto)
    qed simp
  qed auto
qed simp

lemma assign_op_steps: "steps False s (assign_op op a b s)"
  by (auto simp: assign_op_def Let_def split: option.splits)

lemma assigned_value_steps: "steps False (t :: 'v expr_state) (assigned_value ops special op lval lhs lind rval t)"
  unfolding assigned_value_def
proof (rule steps_andthen [where b = False and c = False])
  show "steps False t ((if special then assign_op op lval rval else Done rval) t)"
    by (simp add: assign_op_steps)
  fix v and t1 :: "'v expr_state"
  show "steps False t1 (andthen (if noeval t1 = 0 then expr_bind ops lhs lhs lind (itos v) else Done ())
      (\<lambda>_ s2. Done v (s2\<lparr>curlval := (if lv_tokstr (curlval s2) \<noteq> None \<and> lv_tokstr (curlval s2) = tokstr s2
                                     then init_lvalue else curlval s2), tokstr := None\<rparr>)) t1)"
    by (rule steps_andthen [where b = False and c = False]) (auto simp: steps_bind)
qed auto

lemma expassign_steps:
  "deep level s \<Longrightarrow> todo s + 3 < n \<Longrightarrow> todo s \<le> m \<Longrightarrow> high_ok level m high \<Longrightarrow> steps True s (expassign n ops rd high s)"
proof (induction n arbitrary: s)
  case (Suc n)
  show ?case
    unfolding expassign.simps
  proof (rule steps_andthen [where b = True and c = False])
    show "steps True s (expcond n ops rd high s)" using Suc.prems by (intro expcond_steps [where m = m]) auto
    fix "value" :: int and t :: "'v expr_state"
    assume t: "expr_stack t = expr_stack s" "todo t + of_bool True \<le> todo s"
    have d: "deep level t" using deep_eq [OF Suc.prems(1) t(1)] .
    have "steps False t (andthen rd (\<lambda>_. andthen (expassign n ops rd high)
        (assigned_value ops (curtok t = OP_ASSIGN) (assigntok t) value lhs (lv_ind (curlval t)))) t)"
      if "curtok t \<noteq> TEOF" for lhs
    proof (rule steps_weaken [OF rd_then])
      fix x and t1 :: "'v expr_state"
      assume t1: "deep level t1" "todo t1 < todo t"
      show "steps False t1 (andthen (expassign n ops rd high)
        (assigned_value ops (curtok t = OP_ASSIGN) (assigntok t) value lhs (lv_ind (curlval t))) t1)"
      proof (rule steps_andthen [where b = True and c = False])
        show "steps True t1 (expassign n ops rd high t1)" using Suc t t1 by auto
      qed (auto intro: assigned_value_steps)
    qed (use d that in auto)
    then show "steps False t (if curtok t = EQ \<or> curtok t = OP_ASSIGN then
         let special = (curtok t = OP_ASSIGN); op = assigntok t
         in if lasttok t \<noteq> STR_TOK then evalerror ''attempted assignment to non-variable'' t
            else
              case tokstr t of
                None \<Rightarrow> Undefined
              | Some (a, lhs) \<Rightarrow>
                  let lind = lv_ind (curlval t)
                  in andthen rd (\<lambda>_. andthen (expassign n ops rd high) (assigned_value ops special op value lhs lind)) t
       else Done value t)"
      by (auto simp: Let_def split: option.splits)
  qed auto
qed simp

lemma comma_loop_steps:
  assumes "\<And>t. deep level t \<Longrightarrow> todo t < m \<Longrightarrow> steps True t (operand t)"
  shows "deep level s \<Longrightarrow> todo s < n \<Longrightarrow> todo s \<le> m \<Longrightarrow> steps False s (comma_loop n rd operand v s)"
proof (induction n arbitrary: s v)
  case (Suc n)
  have "steps False s (andthen rd (\<lambda>_. andthen operand (comma_loop n rd operand)) s)" if "curtok s = COMMA_TOK"
  proof (rule steps_weaken [OF rd_then])
    fix x and t :: "'v expr_state"
    assume t: "deep level t" "todo t < todo s"
    show "steps False t (andthen operand (comma_loop n rd operand) t)"
    proof (rule steps_andthen [where b = True and c = False])
      fix v and t1 :: "'v expr_state"
      assume t1: "expr_stack t1 = expr_stack t" "todo t1 + of_bool True \<le> todo t"
      show "steps False t1 (comma_loop n rd operand v t1)"
        using Suc t t1 deep_eq [OF t(1) t1(1)] by auto
    qed (use Suc.prems assms t in auto)
  qed (use Suc.prems that in auto)
  then show ?case by simp
qed simp

lemma expcomma_steps: "deep level s \<Longrightarrow> todo s + 4 < n \<Longrightarrow> steps True s (expcomma n ops rd s)"
proof (induction n arbitrary: s)
  case (Suc n)
  have high: "high_ok level (todo s) (expcomma n ops rd)"
    using Suc by (auto simp: high_ok_def)
  have assign: "steps True t (expassign n ops rd (expcomma n ops rd) t)" if "deep level t" "todo t \<le> todo s" for t
    using that Suc.prems high by (intro expassign_steps [where m = "todo s"]) auto
  show ?case
    unfolding expcomma.simps Let_def
  proof (rule steps_andthen [where b = True and c = False])
    fix v and t :: "'v expr_state"
    assume t: "expr_stack t = expr_stack s" "todo t + of_bool True \<le> todo s"
    show "steps False t (comma_loop n rd (expassign n ops rd (expcomma n ops rd)) v t)"
      using Suc.prems t deep_eq [OF Suc.prems(1) t(1)] assign
      by (intro comma_loop_steps [where m = "todo s"]) auto
  qed (use Suc.prems assign in auto)
qed simp

end

subsection \<open>The token reader\<close>

lemma streval_steps:
  assumes "\<And>str t. expr_stack t = expr_stack s \<Longrightarrow> steps False t (sub str t)"
  shows "steps False s (expr_streval ops sub tok subscripted s)"
proof -
  have "steps False s (andthen (sub_value sub val)
                   (\<lambda>tval s. Done tval (s\<lparr>curlval := lv\<rparr>)) (s\<lparr>vars := v\<rparr>))" for val lv v
  proof (rule steps_andthen [where b = False and c = False])
    show "steps False (s\<lparr>vars := v\<rparr>) (sub_value sub val (s\<lparr>vars := v\<rparr>))"
      using assms [of "s\<lparr>vars := v\<rparr>"] by (auto simp: sub_value_def split: option.splits)
  qed auto
  from this this [of _ _ "vars s"] show ?thesis
    by (auto simp: expr_streval_def Let_def split: option.splits prod.splits)
qed

text \<open>Reading a token never moves back, and moves forward when there is one.\<close>

lemma start_forward: "c_at str i \<noteq> NUL \<Longrightarrow> i < length str"
  by (auto simp: c_at_def split: if_splits)

lemma lex_operator_forward: "lex_operator prev r = Some (t, assign, k) \<Longrightarrow> 0 < k \<and> t \<noteq> TEOF"
  by (auto simp: lex_operator_def Let_def split: if_splits)

lemma number_stop_forward:
  assumes "is_digit (c_at str start)" and "start < length str"
  shows "0 < length (takeWhile number_char (drop start str))"
proof -
  have "drop start str = c_at str start # drop (Suc start) str"
    using assms(2) by (simp add: c_at_def Cons_nth_drop_Suc)
  then show ?thesis using assms(1) by (simp add: number_char_def)
qed

definition read_ok :: "'v expr_state \<Rightarrow> (unit, 'v) outcome \<Rightarrow> bool" where
  "read_ok s r \<longleftrightarrow>
     (case r of
        No_Fuel \<Rightarrow> False
      | Done u t \<Rightarrow> expression t = expression s \<and> expr_stack t = expr_stack s \<and> todo t \<le> length (expression s) - tp s
      | _ \<Rightarrow> True)"

lemma read_ok_simps [simp]:
  "read_ok s (Done u t) \<longleftrightarrow>
     expression t = expression s \<and> expr_stack t = expr_stack s \<and> todo t \<le> length (expression s) - tp s"
  "read_ok s (Longjmp msg t)" "read_ok s (Top_Level t)" "read_ok s Undefined" "\<not> read_ok s No_Fuel"
  "read_ok s (evalerror e t)"
  by (simp_all add: read_ok_def evalerror_def)

lemma readtok_steps:
  assumes "\<And>str t. expr_stack t = stk \<Longrightarrow> steps False t (sub str t)"
  shows "expr_stack s = stk \<Longrightarrow> read_ok (s :: 'v expr_state) (readtok ops sub s)"
proof (induction "length (expression s) - tp s" arbitrary: s rule: less_induct)
  case (less s)
  define start where "start = tp s + length (takeWhile cr_whitespace (drop (tp s) (expression s)))"
  define c where "c = c_at (expression s) start"
  have left: "todo t \<le> length (expression s) - tp s"
    if "expression t = expression s" "start < tp t" "start < length (expression s)" for t :: "'v expr_state"
    using that by (auto simp: todo_def start_def)
  consider (eof) "c = NUL" | (name) "c \<noteq> NUL" "legal_variable_starter c"
    | (num) "c \<noteq> NUL" "\<not> legal_variable_starter c" "is_digit c"
    | (op) "c \<noteq> NUL" "\<not> legal_variable_starter c" "\<not> is_digit c" by blast
  then show ?case
  proof cases
    case eof
    then show ?thesis
      by (subst readtok.simps) (simp add: Let_def start_def [symmetric] c_def [symmetric] todo_def)
  next
    case num
    then have "start < length (expression s)" by (auto simp: c_def dest: start_forward)
    then show ?thesis
      using num left number_stop_forward [of "expression s" start]
      by (subst readtok.simps) (simp add: Let_def start_def [symmetric] c_def [symmetric] split: sum.split)
  next
    case op
    then have "start < length (expression s)" by (auto simp: c_def dest: start_forward)
    then show ?thesis
      using op left
      by (subst readtok.simps) (auto simp: Let_def start_def [symmetric] c_def [symmetric] split: option.split
          dest: lex_operator_forward)
  next
    case name
    then have len: "start < length (expression s)" by (auto simp: c_def dest: start_forward)
    show ?thesis
    proof (cases "name_stop ops (expression s) start")
      case None
      then show ?thesis using name
        by (subst readtok.simps) (simp add: Let_def start_def [symmetric] c_def [symmetric])
    next
      case (Some w)
      obtain cp subscripted where w: "w = (cp, subscripted)" by (cases w)
      define tok where "tok = (next_addr s, take (cp - start) (drop start (expression s)))"
      define s1 where "s1 = s\<lparr>lasttp := Some start, tp := start,
        curlval := (if lv_tokstr (curlval s) \<noteq> None \<and> lv_tokstr (curlval s) = tokstr s then init_lvalue else curlval s),
        tokstr := Some tok, next_addr := next_addr s + 1\<rparr>"
      define peek where "peek = s1\<lparr>tokstr := None, tp := cp, noeval := 1, curtok := STR_TOK\<rparr>"
      have cp: "start < cp" using name_stop_forward [of ops "expression s" start cp subscripted] Some w name by (simp add: c_def)
      have eq: "readtok ops sub s = (case readtok ops sub peek of
          Done u s2 \<Rightarrow>
            andthen (if lasttok s1 \<in> {PREINC, PREDEC} \<or> curtok s2 \<noteq> EQ then expr_streval ops sub tok subscripted else Done 0)
              (\<lambda>tval s3. Done () (s3\<lparr>tokval := tval, lasttok := curtok s3, curtok := STR_TOK, tp := cp\<rparr>))
              (RESTORETOK (SAVETOK s1) s2)
        | r \<Rightarrow> r)"
        unfolding readtok.simps [of ops sub s] Let_def start_def [symmetric] c_def [symmetric] peek_def s1_def tok_def
        by (simp only: name Some w if_True if_False simp_thms option.case prod.case)
      have IH: "read_ok peek (readtok ops sub peek)"
        using cp len less.prems by (intro less.hyps) (auto simp: peek_def s1_def start_def)
      show ?thesis
      proof (cases "readtok ops sub peek")
        case (Done u s2)
        define s3 where "s3 = RESTORETOK (SAVETOK s1) s2"
        have s2: "expression s2 = expression s" "expr_stack s2 = expr_stack s"
          using IH Done by (simp_all add: peek_def s1_def)
        then have s3: "expression s3 = expression s" "expr_stack s3 = expr_stack s"
          by (simp_all add: s3_def RESTORETOK_def)
        have "steps False s3 ((if lasttok s1 \<in> {PREINC, PREDEC} \<or> curtok s2 \<noteq> EQ
            then expr_streval ops sub tok subscripted else Done 0) s3)"
          using less.prems s3 by (auto intro!: streval_steps assms)
        then have "read_ok s (andthen (if lasttok s1 \<in> {PREINC, PREDEC} \<or> curtok s2 \<noteq> EQ
              then expr_streval ops sub tok subscripted else Done 0)
            (\<lambda>tval s3. Done () (s3\<lparr>tokval := tval, lasttok := curtok s3, curtok := STR_TOK, tp := cp\<rparr>)) s3)"
          using s3 left cp len
          by (cases "(if lasttok s1 \<in> {PREINC, PREDEC} \<or> curtok s2 \<noteq> EQ
              then expr_streval ops sub tok subscripted else Done 0) s3") auto
        then show ?thesis unfolding eq Done by (simp add: s3_def)
      qed (use IH in \<open>simp_all add: eq\<close>)
    qed
  qed
qed

subsection \<open>Expressions in variables\<close>

text \<open>
  Each variable on the way down costs a context, so a stack that starts with fewer than
  \<^verbatim>\<open>MAX_EXPR_RECURSION_LEVEL\<close> of them ends the nesting before the fuel is used up.
\<close>

lemma reader_of_subexpr:
  assumes "\<And>str t. deep k t \<Longrightarrow> steps False t (subexpr k ops str t)"
  shows "token_reader (readtok ops (subexpr k ops)) k"
proof
  fix s :: "'a expr_state"
  assume s: "deep k s" "curtok s \<noteq> TEOF"
  have "read_ok s (readtok ops (subexpr k ops) s)"
    using s(1) by (intro readtok_steps [where stk = "expr_stack s"] assms) (auto simp: deep_def)
  then show "steps True s (readtok ops (subexpr k ops) s)"
    using s(2) by (cases "readtok ops (subexpr k ops) s") (auto simp: todo_def)
qed

lemma subexpr_steps: "deep k s \<Longrightarrow> steps False s (subexpr k ops str s)"
proof (induction k arbitrary: s str)
  case 0
  then show ?case by (auto simp: deep_def)
next
  case (Suc k)
  let ?rd = "readtok ops (subexpr k ops)"
  let ?s1 = "s\<lparr>expr_stack := SAVETOK s # expr_stack s, expression := str, tp := 0, curtok := TEOF, lasttok := TEOF,
      tokstr := None, tokval := 0, curlval := init_lvalue\<rparr>"
  have reader: "token_reader ?rd k" by (rule reader_of_subexpr) (rule Suc.IH)
  have "length (expr_stack s) < MAX_EXPR_RECURSION_LEVEL \<Longrightarrow> steps False s (andthen ?rd (\<lambda>_. andthen (expcomma (expr_fuel str) ops ?rd) (\<lambda>val s2.
              if curtok s2 \<noteq> TEOF then evalerror ''syntax error in expression'' s2
              else andthen popexp (\<lambda>_. Done val) s2)) ?s1)"
  proof -
    assume l: "length (expr_stack s) < MAX_EXPR_RECURSION_LEVEL"
    have d: "deep k ?s1" using Suc.prems l by (simp add: deep_def)
    have read: "read_ok ?s1 (?rd ?s1)"
      using Suc.IH d by (intro readtok_steps [where stk = "expr_stack ?s1"]) (auto simp: deep_def)
    show ?thesis
    proof (cases "?rd ?s1")
      case (Done u t)
      then have t: "expression t = str" "expr_stack t = SAVETOK s # expr_stack s" "todo t \<le> length str"
        using read by simp_all
      then have dt: "deep k t" using d by (simp add: deep_def)
      have "steps True t (expcomma (expr_fuel str) ops ?rd t)"
        using token_reader.expcomma_steps [OF reader dt, of "expr_fuel str" ops] t(3) by (simp add: expr_fuel_def)
      moreover have "steps False s (if curtok s2 \<noteq> TEOF then evalerror msg s2 else andthen popexp (\<lambda>_. Done val) s2)"
        if "expr_stack s2 = SAVETOK s # expr_stack s" for s2 :: "'a expr_state" and msg and val :: int
        using that by (simp add: popexp_def RESTORETOK_def SAVETOK_def todo_def)
      ultimately have "steps False s (andthen (expcomma (expr_fuel str) ops ?rd) (\<lambda>val s2.
              if curtok s2 \<noteq> TEOF then evalerror ''syntax error in expression'' s2
              else andthen popexp (\<lambda>_. Done val) s2) t)"
        using t by (cases "expcomma (expr_fuel str) ops ?rd t") auto
      then show ?thesis using Done by simp
    qed (use read in simp_all)
  qed
  then show ?case
    by (simp add: pushexp_def andthen_def [of pushexp] evalerror_def not_le Let_def)
qed

interpretation shell_tokens: token_reader "readtok ops (subexpr k ops)" k for ops k
  by (rule reader_of_subexpr) (rule subexpr_steps)

section \<open>Properties\<close>

text \<open>
  C3. Every evaluation ends: \<^verbatim>\<open>evalexp\<close> returns, or jumps to the top level, for every expression in
  every state, whatever the variables hold, also when they name each other in a circle. (The only
  other outcome is a shift that C leaves undefined.)
\<close>

theorem evalexp_terminates: "evalexp ops str s \<noteq> No_Fuel"
proof (cases "length (expr_stack s) < MAX_EXPR_RECURSION_LEVEL")
  case True
  then have "deep (MAX_EXPR_RECURSION_LEVEL + 1) (s\<lparr>noeval := 0\<rparr>)" by (simp add: deep_def)
  from subexpr_steps [OF this, of ops str] show ?thesis
    by (auto simp: evalexp_def split: outcome.splits simp del: subexpr.simps)
next
  case False
  then have "subexpr (MAX_EXPR_RECURSION_LEVEL + 1) ops str (s\<lparr>noeval := 0\<rparr>) \<noteq> No_Fuel"
    by (simp add: pushexp_def evalerror_def)
  then show ?thesis by (auto simp: evalexp_def split: outcome.splits simp del: subexpr.simps)
qed

end
