(* ===== verification/Arith_Semantics.thy ===== *)
theory Arith_Semantics
  imports Arith_Eval
begin

text \<open>
  What an arithmetic expression means, and that \<^verbatim>\<open>expr.c\<close> computes it: expressions as trees with
  their evaluation, their text with as few parentheses as precedence allows, and the proof that the
  evaluator, on that text, gives the value, the variables and the errors of the tree.
\<close>

section \<open>Expressions and their meaning\<close>

text \<open>An operator is named by its token; \<open>Incr\<close> is one of \<open>++x\<close>, \<open>--x\<close>, \<open>x++\<close>, \<open>x--\<close>.\<close>

datatype aexp =
  Num nat | Var cstring | Unary token aexp | Binary token aexp aexp | Logical token aexp aexp
| Conditional aexp aexp aexp | Assign cstring aexp | Assign_Op token cstring aexp | Incr token cstring
| Comma aexp aexp

type_synonym store = "cstring \<Rightarrow> int"

text \<open>A value or an error with its message (\<open>None\<close> is an undefined shift), and the variables.\<close>

type_synonym answer = "(string option + int) \<times> store"

definition unary_value :: "token \<Rightarrow> int \<Rightarrow> int" where
  "unary_value t v =
     (if t = NOT_TOK then truth (v = 0) else if t = BNOT then NOT v else if t = MINUS then wrap64 (- v) else v)"

definition binary_value :: "token \<Rightarrow> int \<Rightarrow> int \<Rightarrow> string option + int" where
  "binary_value op u v =
     (if op = POWER then
        if v = 0 then Inr 1 else if v < 0 then Inl (Some ''exponent less than 0'') else Inr (ipow u v)
      else if op = MUL then Inr (wrap64 (u * v))
      else if op = DIV \<or> op = MOD then
        if v = 0 then Inl (Some ''division by 0'')
        else if u = INTMAX_MIN \<and> v = - 1 then Inr (if op = DIV then INTMAX_MIN else 0)
        else Inr (if op = DIV then c_div u v else c_mod u v)
      else if op = PLUS then Inr (wrap64 (u + v))
      else if op = MINUS then Inr (wrap64 (u - v))
      else if op = LSH \<or> op = RSH then (case shift_value op u v of None \<Rightarrow> Inl None | Some w \<Rightarrow> Inr w)
      else if op \<in> {LEQ, GEQ, LT, GT} then Inr (compare_values op u v)
      else if op = EQEQ then Inr (truth (u = v))
      else if op = NEQ then Inr (truth (u \<noteq> v))
      else if op = BAND then Inr (u AND v)
      else if op = BXOR then Inr (u XOR v)
      else Inr (u OR v))"

definition answer_then :: "answer \<Rightarrow> (int \<Rightarrow> store \<Rightarrow> answer) \<Rightarrow> answer" where
  "answer_then r f = (case r of (Inl e, \<sigma>) \<Rightarrow> (Inl e, \<sigma>) | (Inr v, \<sigma>) \<Rightarrow> f v \<sigma>)"

primrec eval :: "aexp \<Rightarrow> store \<Rightarrow> answer" where
  "eval (Num n) \<sigma> = (Inr (int n), \<sigma>)"
| "eval (Var x) \<sigma> = (Inr (\<sigma> x), \<sigma>)"
| "eval (Unary t e) \<sigma> = answer_then (eval e \<sigma>) (\<lambda>v \<sigma>. (Inr (unary_value t v), \<sigma>))"
| "eval (Binary op a b) \<sigma> = answer_then (eval a \<sigma>) (\<lambda>u \<sigma>. answer_then (eval b \<sigma>) (\<lambda>v \<sigma>. (binary_value op u v, \<sigma>)))"
| "eval (Logical op a b) \<sigma> = answer_then (eval a \<sigma>) (\<lambda>u \<sigma>.
     if (u = 0) = (op = LAND) then (Inr (truth (u \<noteq> 0)), \<sigma>)
     else answer_then (eval b \<sigma>) (\<lambda>v \<sigma>. (Inr (truth (v \<noteq> 0)), \<sigma>)))"
| "eval (Conditional c a b) \<sigma> = answer_then (eval c \<sigma>) (\<lambda>u \<sigma>. if u \<noteq> 0 then eval a \<sigma> else eval b \<sigma>)"
| "eval (Assign x e) \<sigma> = answer_then (eval e \<sigma>) (\<lambda>v \<sigma>. (Inr v, \<sigma>(x := v)))"
| "eval (Assign_Op op x e) \<sigma> = (let u = \<sigma> x in answer_then (eval e \<sigma>) (\<lambda>v \<sigma>.
     case binary_value op u v of Inl msg \<Rightarrow> (Inl msg, \<sigma>) | Inr w \<Rightarrow> (Inr w, \<sigma>(x := w))))"
| "eval (Incr t x) \<sigma> =
     (let v = wrap64 (\<sigma> x + (if t = PREINC \<or> t = POSTINC then 1 else - 1))
      in (Inr (if t = PREINC \<or> t = PREDEC then v else \<sigma> x), \<sigma>(x := v)))"
| "eval (Comma a b) \<sigma> = answer_then (eval a \<sigma>) (\<lambda>_. eval b)"

section \<open>Text\<close>

text \<open>The level of an operator: how deep in the descent it is consumed.\<close>

definition op_level :: "token \<Rightarrow> nat" where
  "op_level t =
     (if t = COMMA_TOK then 0 else if t = EQ \<or> t = OP_ASSIGN then 1 else if t = QUES then 2
      else if t = LOR then 3 else if t = LAND then 4 else if t = BOR then 5 else if t = BXOR then 6
      else if t = BAND then 7 else if t = EQEQ \<or> t = NEQ then 8
      else if t = LEQ \<or> t = GEQ \<or> t = LT \<or> t = GT then 9 else if t = LSH \<or> t = RSH then 10
      else if t = PLUS \<or> t = MINUS then 11 else if t = MUL \<or> t = DIV \<or> t = MOD then 12
      else if t = POWER then 13 else 16)"

datatype lexeme = LNum nat | LName cstring | LOp token | LAssign token

definition paren :: "bool \<Rightarrow> lexeme list \<Rightarrow> lexeme list" where
  "paren b ls = (if b then LOp LPAR # ls @ [LOp RPAR] else ls)"

text \<open>The lexemes of an expression where level \<open>k\<close> or higher is expected.\<close>

primrec lexemes :: "aexp \<Rightarrow> nat \<Rightarrow> lexeme list" where
  "lexemes (Num n) k = [LNum n]"
| "lexemes (Var x) k = [LName x]"
| "lexemes (Unary t e) k = paren (14 < k) (LOp t # lexemes e 14)"
| "lexemes (Binary op a b) k =
     (if op = POWER then paren (13 < k) (lexemes a 14 @ LOp POWER # lexemes b 13)
      else paren (op_level op < k) (lexemes a (op_level op) @ LOp op # lexemes b (op_level op + 1)))"
| "lexemes (Logical op a b) k =
     paren (op_level op < k) (lexemes a (op_level op) @ LOp op # lexemes b (op_level op + 1))"
| "lexemes (Conditional c a b) k = paren (2 < k) (lexemes c 3 @ LOp QUES # lexemes a 0 @ LOp COL # lexemes b 2)"
| "lexemes (Assign x e) k = paren (1 < k) (LName x # LOp EQ # lexemes e 1)"
| "lexemes (Assign_Op op x e) k = paren (1 < k) (LName x # LAssign op # lexemes e 1)"
| "lexemes (Incr t x) k = (if t = PREINC \<or> t = PREDEC then [LOp t, LName x] else [LName x, LOp t])"
| "lexemes (Comma a b) k = paren (0 < k) (lexemes a 0 @ LOp COMMA_TOK # lexemes b 1)"

definition op_text :: "token \<Rightarrow> cstring" where
  "op_text t =
     (case t of EQEQ \<Rightarrow> ''=='' | NEQ \<Rightarrow> ''!='' | LEQ \<Rightarrow> ''<='' | GEQ \<Rightarrow> ''>='' | LAND \<Rightarrow> ''&&''
      | LOR \<Rightarrow> [CHR 0x7C, CHR 0x7C] | LSH \<Rightarrow> ''<<'' | RSH \<Rightarrow> ''>>'' | POWER \<Rightarrow> ''**''
      | PREINC \<Rightarrow> ''++'' | POSTINC \<Rightarrow> ''++'' | PREDEC \<Rightarrow> ''--'' | POSTDEC \<Rightarrow> ''--'' | Op c \<Rightarrow> [c] | _ \<Rightarrow> [])"

primrec lex_text :: "lexeme \<Rightarrow> cstring" where
  "lex_text (LNum n) = decimal_digits n"
| "lex_text (LName x) = x"
| "lex_text (LOp t) = op_text t"
| "lex_text (LAssign t) = op_text t @ ''=''"

definition text_of :: "lexeme list \<Rightarrow> cstring" where
  "text_of ls = concat (map (\<lambda>l. lex_text l @ '' '') ls)"

lemma text_of_simps [simp]: "text_of [] = []" "text_of (l # ls) = lex_text l @ CHR '' '' # text_of ls"
  by (simp_all add: text_of_def)

text \<open>
  Well-formed expressions: names and operators are legal, numbers fit, and what may be skipped is
  quiet: it has no power and no shift, which fail (or are undefined) even when they are skipped.
\<close>

definition legal_name :: "cstring \<Rightarrow> bool" where
  "legal_name x \<longleftrightarrow> x \<noteq> [] \<and> legal_variable_starter (hd x) \<and> list_all legal_variable_char x"

primrec quiet :: "aexp \<Rightarrow> bool" where
  "quiet (Num n) = True"
| "quiet (Var x) = True"
| "quiet (Unary t e) = quiet e"
| "quiet (Binary op a b) = (op \<notin> {POWER, LSH, RSH} \<and> quiet a \<and> quiet b)"
| "quiet (Logical op a b) = (quiet a \<and> quiet b)"
| "quiet (Conditional c a b) = (quiet c \<and> quiet a \<and> quiet b)"
| "quiet (Assign x e) = quiet e"
| "quiet (Assign_Op op x e) = (op \<notin> {LSH, RSH} \<and> quiet e)"
| "quiet (Incr t x) = True"
| "quiet (Comma a b) = (quiet a \<and> quiet b)"

definition binary_ops :: "token set" where
  "binary_ops = {MUL, DIV, MOD, PLUS, MINUS, LSH, RSH, LEQ, GEQ, LT, GT, EQEQ, NEQ, BAND, BXOR, BOR}"

primrec wf_aexp :: "aexp \<Rightarrow> bool" where
  "wf_aexp (Num n) = (int n \<le> INTMAX_MAX)"
| "wf_aexp (Var x) = legal_name x"
| "wf_aexp (Unary t e) = (t \<in> {NOT_TOK, BNOT, MINUS, PLUS} \<and> wf_aexp e)"
| "wf_aexp (Binary op a b) = (op \<in> insert POWER binary_ops \<and> wf_aexp a \<and> wf_aexp b)"
| "wf_aexp (Logical op a b) = (op \<in> {LAND, LOR} \<and> wf_aexp a \<and> wf_aexp b \<and> quiet b)"
| "wf_aexp (Conditional c a b) = (wf_aexp c \<and> wf_aexp a \<and> wf_aexp b \<and> quiet a \<and> quiet b)"
| "wf_aexp (Assign x e) = (legal_name x \<and> wf_aexp e)"
| "wf_aexp (Assign_Op op x e) =
     (op \<in> {MUL, DIV, MOD, PLUS, MINUS, LSH, RSH, BAND, BXOR, BOR} \<and> legal_name x \<and> wf_aexp e)"
| "wf_aexp (Incr t x) = (t \<in> {PREINC, PREDEC, POSTINC, POSTDEC} \<and> legal_name x)"
| "wf_aexp (Comma a b) = (wf_aexp a \<and> wf_aexp b)"

subsection \<open>Values fit in 64 bits\<close>

lemma intmax_bits: "intmax_ok v \<longleftrightarrow> signed_take_bit 63 v = v"
  by (simp add: signed_take_bit_int_eq_self_iff intmax_ok_def int_limits) presburger

lemma signed_bits:
  "signed_take_bit n (u AND v) = signed_take_bit n u AND signed_take_bit n v"
  "signed_take_bit n (u OR v) = signed_take_bit n u OR signed_take_bit n v"
  "signed_take_bit n (u XOR v) = signed_take_bit n u XOR signed_take_bit n v"
  "signed_take_bit n (NOT u) = NOT (signed_take_bit n u)" for u v :: int
  by (rule bit_eqI, simp add: bit_simps)+

lemma bits_ok:
  "intmax_ok u \<Longrightarrow> intmax_ok v \<Longrightarrow> intmax_ok (u AND v)"
  "intmax_ok u \<Longrightarrow> intmax_ok v \<Longrightarrow> intmax_ok (u OR v)"
  "intmax_ok u \<Longrightarrow> intmax_ok v \<Longrightarrow> intmax_ok (u XOR v)"
  "intmax_ok u \<Longrightarrow> intmax_ok (NOT u)"
  by (simp_all add: intmax_bits signed_bits)

lemma truth_ok: "intmax_ok (truth b)"
  by (simp add: truth_def intmax_ok_def int_limits)

lemma drop_ok:
  assumes "intmax_ok u"
  shows "intmax_ok (drop_bit k u)"
proof -
  have u: "drop_bit k u = u div 2 ^ k" "(1::int) \<le> 2 ^ k" by (simp_all add: drop_bit_eq_div)
  show ?thesis
  proof (cases "u < 0")
    case True
    then have "u div 1 \<le> u div 2 ^ k" using u(2) by (intro zdiv_mono2_neg) auto
    moreover have "u div 2 ^ k < 0" using True by (simp add: pos_imp_zdiv_neg_iff)
    ultimately show ?thesis using assms u(1) by (simp add: intmax_ok_def int_limits)
  next
    case False
    then have "u div 2 ^ k \<le> u div 1" using u(2) by (intro zdiv_mono2) auto
    moreover have "0 \<le> u div 2 ^ k" using False by (simp add: pos_imp_zdiv_nonneg_iff)
    ultimately show ?thesis using assms u(1) by (simp add: intmax_ok_def int_limits)
  qed
qed

lemma c_div_ok:
  assumes "intmax_ok u" "intmax_ok v" "v \<noteq> 0" "\<not> (u = INTMAX_MIN \<and> v = - 1)"
  shows "intmax_ok (c_div u v)"
proof -
  have "0 \<le> \<bar>u\<bar> div \<bar>v\<bar>" by (simp add: div_int_pos_iff)
  then have "\<bar>c_div u v\<bar> = \<bar>u\<bar> div \<bar>v\<bar>" using assms(3)
    by (cases "u = 0") (auto simp: c_div_def abs_mult abs_sgn_eq)
  show ?thesis
  proof (cases "v = 1 \<or> v = - 1")
    case True
    then show ?thesis using assms by (auto simp: c_div_def intmax_ok_def int_limits mult_sgn_abs)
  next
    case False
    then have "2 \<le> \<bar>v\<bar>" using assms(3) by linarith
    then have "\<bar>u\<bar> div \<bar>v\<bar> \<le> \<bar>u\<bar> div 2" by (intro zdiv_mono2) auto
    then have "\<bar>c_div u v\<bar> \<le> \<bar>u\<bar> div 2" using \<open>_ = \<bar>u\<bar> div \<bar>v\<bar>\<close> by simp
    moreover have "\<bar>u\<bar> div 2 < 9223372036854775807" using assms(1) unfolding intmax_ok_def int_limits by linarith
    ultimately show ?thesis unfolding intmax_ok_def int_limits by linarith
  qed
qed

lemma c_mod_ok:
  assumes "intmax_ok v" "v \<noteq> 0"
  shows "intmax_ok (c_mod u v)"
proof -
  have "v * (sgn u * sgn v * (\<bar>u\<bar> div \<bar>v\<bar>)) = sgn u * (\<bar>v\<bar> * (\<bar>u\<bar> div \<bar>v\<bar>))"
    by (simp add: abs_sgn mult.assoc mult.left_commute)
  moreover have "u = sgn u * (\<bar>v\<bar> * (\<bar>u\<bar> div \<bar>v\<bar>) + \<bar>u\<bar> mod \<bar>v\<bar>)" by (simp add: sgn_mult_abs)
  ultimately have "c_mod u v = sgn u * (\<bar>u\<bar> mod \<bar>v\<bar>)"
    unfolding c_mod_def c_div_def by (metis add_diff_cancel_left' distrib_left)
  moreover have "0 \<le> \<bar>u\<bar> mod \<bar>v\<bar>" "\<bar>u\<bar> mod \<bar>v\<bar> < \<bar>v\<bar>" using assms(2) by simp_all
  ultimately have "\<bar>c_mod u v\<bar> < \<bar>v\<bar>" using assms(2) by (cases "u = 0") (simp_all add: abs_mult abs_sgn_eq)
  then show ?thesis using assms(1) unfolding intmax_ok_def int_limits by linarith
qed

lemma ipow_loop_ok: "intmax_ok r \<Longrightarrow> intmax_ok (ipow_loop b n r)"
  by (induction b n r rule: ipow_loop.induct) (subst ipow_loop.simps, simp add: wrap64_ok)

definition answer_ok :: "string option + int \<Rightarrow> bool" where
  "answer_ok r \<longleftrightarrow> (\<forall>w. r = Inr w \<longrightarrow> intmax_ok w)"

lemma answer_ok_if: "(c \<Longrightarrow> answer_ok a) \<Longrightarrow> (\<not> c \<Longrightarrow> answer_ok b) \<Longrightarrow> answer_ok (if c then a else b)"
  by simp

lemma answer_ok_simps [simp]: "answer_ok (Inl e)" "answer_ok (Inr w) \<longleftrightarrow> intmax_ok w"
  by (simp_all add: answer_ok_def)

lemma binary_value_ok:
  assumes "intmax_ok u" "intmax_ok v"
  shows "answer_ok (binary_value op u v)"
proof -
  have one: "intmax_ok 1" "intmax_ok 0" "intmax_ok INTMAX_MIN" by (simp_all add: intmax_ok_def int_limits)
  have "answer_ok (case shift_value op u v of None \<Rightarrow> Inl None | Some w \<Rightarrow> Inr w)"
    using assms(1) by (simp add: shift_value_def wrap64_ok drop_ok)
  then show ?thesis
    unfolding binary_value_def
    by (intro answer_ok_if; (assumption | (simp_all add: assms one c_div_ok c_mod_ok ipow_loop_ok ipow_def wrap64_ok bits_ok truth_ok
       compare_values_def)))
qed

lemma answer_then_Inr: "answer_then r f = (Inr v, \<sigma>) \<longleftrightarrow> (\<exists>u \<sigma>1. r = (Inr u, \<sigma>1) \<and> f u \<sigma>1 = (Inr v, \<sigma>))"
  by (auto simp: answer_then_def split: prod.splits sum.splits)

lemma unary_value_ok: "intmax_ok v \<Longrightarrow> intmax_ok (unary_value t v)"
  by (simp add: unary_value_def truth_ok bits_ok wrap64_ok)

text \<open>Evaluation stays within 64 bits.\<close>

lemma eval_ok:
  assumes "\<forall>x. intmax_ok (\<sigma> x)" and "wf_aexp e" and "eval e \<sigma> = (Inr v, \<sigma>')"
  shows "intmax_ok v \<and> (\<forall>x. intmax_ok (\<sigma>' x))"
  using assms
proof (induction e arbitrary: \<sigma> v \<sigma>')
  case (Num n)
  then show ?case by (auto simp: intmax_ok_def int_limits)
next
  case (Binary op a b)
  obtain u \<sigma>1 u' where u: "eval a \<sigma> = (Inr u, \<sigma>1)" "eval b \<sigma>1 = (Inr u', \<sigma>')" "binary_value op u u' = Inr v"
    using Binary.prems(3) by (auto simp: answer_then_Inr)
  then have "intmax_ok u \<and> (\<forall>x. intmax_ok (\<sigma>1 x))" using Binary.IH(1) [OF Binary.prems(1)] Binary.prems(2) by simp
  moreover from this have "intmax_ok u' \<and> (\<forall>x. intmax_ok (\<sigma>' x))" using Binary.IH(2) [of \<sigma>1 u' \<sigma>'] Binary.prems(2) u(2) by simp
  ultimately show ?case using binary_value_ok [of u u' op] u(3) by (simp add: answer_ok_def)
next
  case (Assign_Op op x e)
  obtain u \<sigma>1 where u: "eval e \<sigma> = (Inr u, \<sigma>1)"
    "(case binary_value op (\<sigma> x) u of Inl msg \<Rightarrow> (Inl msg, \<sigma>1) | Inr w \<Rightarrow> (Inr w, \<sigma>1(x := w))) = (Inr v, \<sigma>')"
    using Assign_Op.prems(3) by (auto simp: answer_then_Inr Let_def)
  then have e: "eval e \<sigma> = (Inr u, \<sigma>1)" "binary_value op (\<sigma> x) u = Inr v" "\<sigma>' = \<sigma>1(x := v)"
    by (cases "binary_value op (\<sigma> x) u"; simp)+
  then have "intmax_ok u \<and> (\<forall>x. intmax_ok (\<sigma>1 x))" using Assign_Op.IH [OF Assign_Op.prems(1)] Assign_Op.prems(2) by simp
  then show ?case using Assign_Op.prems(1) binary_value_ok [of "\<sigma> x" u op] e(2,3) by (simp add: answer_ok_def)
next
  case (Logical op a b)
  obtain u \<sigma>1 where u: "eval a \<sigma> = (Inr u, \<sigma>1)"
    "if (u = 0) = (op = LAND) then (Inr (truth (u \<noteq> 0)), \<sigma>1) = (Inr v, \<sigma>')
     else \<exists>u' \<sigma>2. eval b \<sigma>1 = (Inr u', \<sigma>2) \<and> (Inr (truth (u' \<noteq> 0)), \<sigma>2) = (Inr v, \<sigma>')"
    using Logical.prems(3) by (auto simp: answer_then_Inr split: if_splits)
  then have "\<forall>x. intmax_ok (\<sigma>1 x)" using Logical.IH(1) [OF Logical.prems(1)] Logical.prems(2) by simp
  then show ?case using u(2) Logical.IH(2) [of \<sigma>1 _ \<sigma>'] Logical.prems(2)
    by (cases "(u = 0) = (op = LAND)") (auto simp: truth_ok simp del: insert_iff)
next
  case (Conditional c a b)
  obtain u \<sigma>1 where u: "eval c \<sigma> = (Inr u, \<sigma>1)" "(if u \<noteq> 0 then eval a \<sigma>1 else eval b \<sigma>1) = (Inr v, \<sigma>')"
    using Conditional.prems(3) by (auto simp: answer_then_Inr)
  then have "\<forall>x. intmax_ok (\<sigma>1 x)" using Conditional.IH(1) [OF Conditional.prems(1)] Conditional.prems(2) by simp
  then show ?case using u(2) Conditional.IH(2,3) [of \<sigma>1 v \<sigma>'] Conditional.prems(2) by (auto split: if_splits)
next
  case (Comma a b)
  obtain u \<sigma>1 where u: "eval a \<sigma> = (Inr u, \<sigma>1)" "eval b \<sigma>1 = (Inr v, \<sigma>')"
    using Comma.prems(3) by (auto simp: answer_then_Inr)
  then have "\<forall>x. intmax_ok (\<sigma>1 x)" using Comma.IH(1) [OF Comma.prems(1)] Comma.prems(2) by simp
  then show ?case using u(2) Comma.IH(2) [of \<sigma>1 v \<sigma>'] Comma.prems(2) by simp
next
  case (Unary t e)
  obtain u where "eval e \<sigma> = (Inr u, \<sigma>')" "v = unary_value t u"
    using Unary.prems(3) by (auto simp: answer_then_Inr)
  then show ?case using Unary.IH [OF Unary.prems(1), of u \<sigma>'] Unary.prems(2) unary_value_ok by simp
next
  case (Assign x e)
  obtain \<sigma>1 where "eval e \<sigma> = (Inr v, \<sigma>1)" "\<sigma>' = \<sigma>1(x := v)"
    using Assign.prems(3) by (auto simp: answer_then_Inr)
  then show ?case using Assign.IH [of \<sigma> v \<sigma>1] Assign.prems by auto
qed (auto simp: wrap64_ok Let_def)

section \<open>Variables\<close>

text \<open>
  What is needed of the variables: a lookup gives the decimal text of an integer, or nothing for
  0, and a binding is seen by later lookups. \<open>good\<close> is an invariant of the variables.
\<close>

locale scalar_shell =
  fixes ops :: "'v shell_ops" and env :: "'v \<Rightarrow> store" and good :: "'v \<Rightarrow> bool"
  assumes lookup: "good v \<Longrightarrow>
      snd (find_variable ops v x) = Some (itos (env v x)) \<or> snd (find_variable ops v x) = None \<and> env v x = 0"
    and found: "good v \<Longrightarrow> \<not> (fst (find_variable ops v x) \<and> unbound_vars_is_error ops)"
    and env_ok: "good v \<Longrightarrow> intmax_ok (env v x)"
    and bound: "good v \<Longrightarrow> intmax_ok i \<Longrightarrow>
      \<exists>v'. bind_int_variable ops v x (itos i) = (False, v') \<and> good v' \<and> env v' = (env v)(x := i)"

text \<open>
  Scalar variables without attributes: a map of names to strings. Arrays are not used, and a
  subscript is never closed.
\<close>

definition scalar_ops :: "(cstring \<rightharpoonup> cstring) shell_ops" where
  "scalar_ops = \<lparr>find_variable = (\<lambda>m x. (m x = None, m x)), array_missing = (\<lambda>m x. True),
     get_array_value = (\<lambda>m x. None), bind_int_variable = (\<lambda>m x rhs. (False, m(x \<mapsto> rhs))),
     skipsubscript = (\<lambda>s. 0), unbound_vars_is_error = False\<rparr>"

definition scalar_env :: "(cstring \<rightharpoonup> cstring) \<Rightarrow> store" where
  "scalar_env m x = (case m x of None \<Rightarrow> 0 | Some s \<Rightarrow> (case legal_number (Some s) of None \<Rightarrow> 0 | Some i \<Rightarrow> i))"

definition scalar_good :: "(cstring \<rightharpoonup> cstring) \<Rightarrow> bool" where
  "scalar_good m \<longleftrightarrow> (\<forall>x s. m x = Some s \<longrightarrow> (\<exists>i. intmax_ok i \<and> s = itos i))"

lemma legal_number_itos: "intmax_ok i \<Longrightarrow> legal_number (Some (itos i)) = Some i"
  using itos_reads_back [of i] by (auto simp: itos_def)

interpretation scalars: scalar_shell scalar_ops scalar_env scalar_good
proof
  fix v :: "cstring \<rightharpoonup> cstring" and x :: cstring and i :: int
  assume v: "scalar_good v"
  then have val: "\<exists>i. intmax_ok i \<and> s = itos i" if "v x = Some s" for s x
    using that by (auto simp: scalar_good_def)
  show "snd (find_variable scalar_ops v x) = Some (itos (scalar_env v x)) \<or>
      snd (find_variable scalar_ops v x) = None \<and> scalar_env v x = 0"
    using val [of x] by (cases "v x") (auto simp: scalar_ops_def scalar_env_def legal_number_itos)
  show "\<not> (fst (find_variable scalar_ops v x) \<and> unbound_vars_is_error scalar_ops)"
    by (simp add: scalar_ops_def)
  show "intmax_ok (scalar_env v x)"
    using val [of x] by (cases "v x") (auto simp: scalar_env_def legal_number_itos intmax_ok_def int_limits)
  assume i: "intmax_ok i"
  have "scalar_env (v(x \<mapsto> itos i)) = (scalar_env v)(x := i)"
    using i by (auto simp: scalar_env_def legal_number_itos)
  then show "\<exists>v'. bind_int_variable scalar_ops v x (itos i) = (False, v') \<and> scalar_good v' \<and>
      scalar_env v' = (scalar_env v)(x := i)"
    using v i by (auto simp: scalar_ops_def scalar_good_def)
qed

section \<open>Reading the text\<close>

definition simple_ops :: "token set" where
  "simple_ops = {EQEQ, NEQ, LEQ, GEQ, LAND, LOR, LSH, RSH, POWER, EQ, GT, LT, PLUS, MINUS, MUL, DIV, MOD, NOT_TOK,
     LPAR, RPAR, BAND, BOR, BXOR, BNOT, QUES, COL, COMMA_TOK}"

definition assign_ops :: "token set" where
  "assign_ops = {MUL, DIV, MOD, PLUS, MINUS, LSH, RSH, BAND, BXOR, BOR}"

text \<open>What may stand before the rest of an expression, after the token \<open>p\<close>.\<close>

definition op_next :: "lexeme list \<Rightarrow> bool" where
  "op_next ls \<longleftrightarrow> (case ls of [] \<Rightarrow> True | LOp t # _ \<Rightarrow> t \<in> simple_ops \<union> {POSTINC, POSTDEC} | LAssign t # _ \<Rightarrow> True | _ \<Rightarrow> False)"

fun joined :: "token \<Rightarrow> lexeme list \<Rightarrow> bool" where
  "joined p [] = True"
| "joined p (LNum n # ls) = (int n \<le> INTMAX_MAX \<and> joined NUM_TOK ls)"
| "joined p (LName x # ls) = (legal_name x \<and> op_next ls \<and> joined STR_TOK ls)"
| "joined p (LAssign t # ls) = (t \<in> assign_ops \<and> joined OP_ASSIGN ls)"
| "joined p (LOp t # ls) =
     ((t \<in> simple_ops \<or> t \<in> {POSTINC, POSTDEC} \<and> p = STR_TOK \<or>
       t \<in> {PREINC, PREDEC} \<and> p \<noteq> STR_TOK \<and> (\<exists>x ls'. ls = LName x # ls')) \<and> joined t ls)"

lemma lex_simple:
  "t \<in> simple_ops \<Longrightarrow> lex_operator prev (op_text t @ CHR '' '' # r) = Some (t, None, length (op_text t))"
  unfolding simple_ops_def insert_iff empty_iff simp_thms
  by (elim disjE) (simp_all add: lex_operator_def op_text_def is_arithop_def Let_def numeral_2_eq_2)

lemma lex_assign:
  "t \<in> assign_ops \<Longrightarrow>
   lex_operator prev (op_text t @ CHR ''='' # CHR '' '' # r) = Some (OP_ASSIGN, Some t, length (op_text t) + 1)"
  unfolding assign_ops_def insert_iff empty_iff simp_thms
  by (elim disjE) (simp_all add: lex_operator_def op_text_def is_arithop_def Let_def numeral_2_eq_2)

lemma lex_post:
  "t \<in> {POSTINC, POSTDEC} \<Longrightarrow> lex_operator STR_TOK (op_text t @ CHR '' '' # r) = Some (t, None, 2)"
  by (auto simp: lex_operator_def op_text_def)

lemma legal_name_facts:
  assumes "legal_name x"
  obtains c y where "x = c # y" "legal_variable_starter c" "legal_variable_char c" "\<not> cr_whitespace c" "c \<noteq> NUL"
    "\<not> is_digit c" "list_all legal_variable_char x"
proof -
  obtain c y where x: "x = c # y" using assms by (cases x) (auto simp: legal_name_def)
  then have "legal_variable_starter c" "list_all legal_variable_char x" using assms by (auto simp: legal_name_def)
  moreover from this have "\<not> cr_whitespace c" "c \<noteq> NUL" "\<not> is_digit c"
    by (auto simp: legal_variable_starter_def cr_whitespace_def whitespace_def is_alpha_def is_upper_def is_lower_def
        is_digit_def)
  ultimately show ?thesis using that x by simp
qed

lemma lex_pre:
  assumes "t \<in> {PREINC, PREDEC}" and "p \<noteq> STR_TOK" and "legal_name x"
  shows "lex_operator p (op_text t @ CHR '' '' # x @ r) = Some (t, None, 2)"
proof -
  obtain c y where "x = c # y" "legal_variable_starter c" "\<not> cr_whitespace c"
    using assms(3) by (rule legal_name_facts)
  then have "c_at (dropWhile cr_whitespace (CHR '' '' # x @ r)) 0 = c" "legal_variable_starter c"
    by (simp_all add: cr_whitespace_def whitespace_def)
  then have "legal_variable_starter (c_at (dropWhile cr_whitespace (CHR '' '' # x @ r)) 0)" by simp
  then show ?thesis
    using assms(1,2) by (elim insertE emptyE) (simp_all add: lex_operator_def op_text_def Let_def numeral_2_eq_2 del: dropWhile.simps)
qed

lemma op_text_start:
  "t \<in> simple_ops \<union> {POSTINC, POSTDEC, PREINC, PREDEC} \<union> assign_ops \<Longrightarrow>
   \<exists>c r. op_text t = c # r \<and> \<not> cr_whitespace c \<and> c \<noteq> NUL \<and> \<not> legal_variable_starter c \<and> \<not> is_digit c"
  unfolding simple_ops_def assign_ops_def insert_iff empty_iff simp_thms Un_iff
  by (elim disjE) (simp_all add: op_text_def cr_whitespace_def whitespace_def legal_variable_starter_def is_alpha_def
      is_upper_def is_lower_def is_digit_def)

text \<open>The position of the reader: blanks, then the text \<open>r\<close> that starts with \<open>c\<close>.\<close>

lemma reader_start:
  assumes "drop (tp s) (expression s) = ws @ c # r" and "list_all cr_whitespace ws" and "\<not> cr_whitespace c"
  shows "tp s + length (takeWhile cr_whitespace (drop (tp s) (expression s))) = tp s + length ws"
    "c_at (expression s) (tp s + length ws) = c" "drop (tp s + length ws) (expression s) = c # r"
proof -
  have len: "tp s + length ws < length (expression s)"
    using arg_cong [OF assms(1), of length] by simp
  show "tp s + length (takeWhile cr_whitespace (drop (tp s) (expression s))) = tp s + length ws"
    using assms(2,3) by (simp add: assms(1) takeWhile_tail takeWhile_append1 list_all_iff)
  show d: "drop (tp s + length ws) (expression s) = c # r"
    using assms(1) by (metis add.commute append_eq_conv_conj drop_drop)
  show "c_at (expression s) (tp s + length ws) = c"
    using len d by (metis c_at_def nth_via_drop)
qed

lemma read_end:
  assumes "list_all cr_whitespace (drop (tp s) (expression s))"
  shows "\<exists>tp'. readtok ops sub s = Done () (s\<lparr>lasttok := curtok s, curtok := TEOF, tp := tp'\<rparr>) \<and>
    drop tp' (expression s) = []"
proof -
  have "takeWhile cr_whitespace (drop (tp s) (expression s)) = drop (tp s) (expression s)"
    using assms by (simp add: list_all_iff takeWhile_eq_all_conv)
  then have "length (takeWhile cr_whitespace (drop (tp s) (expression s))) = length (expression s) - tp s"
    using length_drop [of "tp s" "expression s"] by metis
  then have "\<not> tp s + length (takeWhile cr_whitespace (drop (tp s) (expression s))) < length (expression s)" by linarith
  then have "c_at (expression s) (tp s + length (takeWhile cr_whitespace (drop (tp s) (expression s)))) = NUL"
    by (simp add: c_at_def)
  with \<open>\<not> _ < _\<close> show ?thesis
    by (intro exI [of _ "tp s + length (takeWhile cr_whitespace (drop (tp s) (expression s)))"])
      (subst readtok.simps, simp add: Let_def)
qed

lemma read_operator:
  assumes "drop (tp s) (expression s) = ws @ c # r" and "list_all cr_whitespace ws"
    and "\<not> cr_whitespace c" "c \<noteq> NUL" "\<not> legal_variable_starter c" "\<not> is_digit c"
    and "lex_operator (curtok s) (c # r) = Some (t, assign, k)"
  shows "readtok ops sub s = Done () (s\<lparr>lasttp := Some (tp s + length ws), tp := tp s + length ws + k,
    lasttok := curtok s, curtok := t, assigntok := (case assign of None \<Rightarrow> assigntok s | Some a \<Rightarrow> a)\<rparr>)"
  using reader_start [OF assms(1-3)] assms(4-7) by (subst readtok.simps) (simp add: Let_def)

lemma read_number:
  assumes "drop (tp s) (expression s) = ws @ decimal_digits n @ r" and "list_all cr_whitespace ws"
    and "r = [] \<or> \<not> number_char (hd r)"
  shows "readtok ops sub s = Done () (s\<lparr>lasttp := Some (tp s + length ws), tp := tp s + length ws + length (decimal_digits n),
    tokval := wrap64 (int n), lasttok := curtok s, curtok := NUM_TOK\<rparr>)"
proof -
  note f = decimal_digits_facts [of n]
  obtain c ds where ds: "decimal_digits n = c # ds" using f by (cases "decimal_digits n") auto
  then have c: "is_digit c" using f by auto
  then have c': "\<not> cr_whitespace c" "c \<noteq> NUL" "\<not> legal_variable_starter c"
    by (auto simp: is_digit_def cr_whitespace_def whitespace_def legal_variable_starter_def is_alpha_def is_upper_def is_lower_def)
  have "takeWhile number_char (decimal_digits n @ r) = decimal_digits n"
    using f assms(3) by (subst takeWhile_all_append) (auto simp: number_char_def takeWhile_eq_Nil_iff)
  then have tw: "takeWhile number_char (c # ds @ r) = decimal_digits n" by (simp add: ds)
  note start = reader_start [of s ws c "ds @ r", OF _ assms(2) c'(1)]
  have d: "drop (tp s) (expression s) = ws @ c # ds @ r" using assms(1) ds by simp
  show ?thesis
    using start [OF d] c c'(2,3) tw strlong_decimal [of n] ds
    by (subst readtok.simps) (simp add: Let_def)
qed

text \<open>The reader stands before the text of \<open>ls\<close>.\<close>

definition before :: "lexeme list \<Rightarrow> 'v expr_state \<Rightarrow> bool" where
  "before ls s \<longleftrightarrow> (\<exists>ws. list_all cr_whitespace ws \<and> drop (tp s) (expression s) = ws @ text_of ls)"

primrec token_of :: "lexeme \<Rightarrow> token" where
  "token_of (LNum n) = NUM_TOK"
| "token_of (LName x) = STR_TOK"
| "token_of (LOp t) = t"
| "token_of (LAssign t) = OP_ASSIGN"

definition first_token :: "lexeme list \<Rightarrow> token" where
  "first_token ls = (case ls of [] \<Rightarrow> TEOF | l # _ \<Rightarrow> token_of l)"

lemma first_token_simps [simp]: "first_token [] = TEOF" "first_token (l # ls) = token_of l"
  by (simp_all add: first_token_def)

lemma before_update [simp]:
  "before ls (s\<lparr>lasttok := t\<rparr>) = before ls s" "before ls (s\<lparr>curtok := t\<rparr>) = before ls s"
  "before ls (s\<lparr>noeval := k\<rparr>) = before ls s" "before ls (s\<lparr>tokstr := x\<rparr>) = before ls s"
  "before ls (s\<lparr>assigntok := t\<rparr>) = before ls s" "before ls (s\<lparr>vars := v\<rparr>) = before ls s"
  "before ls (s\<lparr>curlval := lv\<rparr>) = before ls s" "before ls (s\<lparr>tokval := i\<rparr>) = before ls s"
  "before ls (s\<lparr>lasttp := p\<rparr>) = before ls s" "before ls (s\<lparr>next_addr := a\<rparr>) = before ls s"
  by (simp_all add: before_def)

lemma before_step:
  assumes "drop (tp s) (expression s) = ws @ txt @ CHR '' '' # text_of ls"
  shows "before ls (s\<lparr>tp := tp s + length ws + length txt\<rparr>)"
proof -
  have "drop (length ws + length txt) (drop (tp s) (expression s)) = CHR '' '' # text_of ls"
    unfolding assms by simp
  then have "drop (tp s + length ws + length txt) (expression s) = CHR '' '' # text_of ls"
    by (simp add: add.commute add.left_commute)
  then show ?thesis
    by (auto simp: before_def cr_whitespace_def whitespace_def intro!: exI [of _ "'' ''"])
qed

lemma read_op:
  assumes "before ls s" and "joined (curtok s) ls" and "ls = [] \<or> (\<exists>t ls'. ls = LOp t # ls') \<or> (\<exists>t ls'. ls = LAssign t # ls')"
  shows "\<exists>lt tp' at'. readtok ops sub s =
      Done () (s\<lparr>lasttok := curtok s, curtok := first_token ls, lasttp := lt, tp := tp', assigntok := at'\<rparr>) \<and>
      before (tl ls) (s\<lparr>tp := tp'\<rparr>) \<and> (\<forall>t. ls \<noteq> [] \<longrightarrow> hd ls = LAssign t \<longrightarrow> at' = t)"
proof -
  obtain ws where ws: "list_all cr_whitespace ws" "drop (tp s) (expression s) = ws @ text_of ls"
    using assms(1) by (auto simp: before_def)
  have run: ?thesis
    if l: "ls = l # ls'" "token_of l = t" "\<And>t'. l = LAssign t' \<Longrightarrow> a = Some t'"
      and lex: "lex_operator (curtok s) (text_of ls) = Some (t, a, length (lex_text l))"
      and start: "\<exists>c r. lex_text l = c # r \<and> \<not> cr_whitespace c \<and> c \<noteq> NUL \<and> \<not> legal_variable_starter c \<and> \<not> is_digit c"
    for l ls' t a
  proof -
    obtain c r where c: "lex_text l = c # r" "\<not> cr_whitespace c" "c \<noteq> NUL" "\<not> legal_variable_starter c" "\<not> is_digit c"
      using start by blast
    have txts: "text_of ls = c # (r @ CHR '' '' # text_of ls')" by (simp add: l(1) c(1))
    have "readtok ops sub s = Done () (s\<lparr>lasttp := Some (tp s + length ws), tp := tp s + length ws + length (lex_text l),
        lasttok := curtok s, curtok := t, assigntok := (case a of None \<Rightarrow> assigntok s | Some a \<Rightarrow> a)\<rparr>)"
      using ws(2) lex unfolding txts by (intro read_operator [OF _ ws(1) c(2-5)])
    moreover have "before ls' (s\<lparr>tp := tp s + length ws + length (lex_text l)\<rparr>)"
      using ws(2) by (intro before_step) (simp add: l(1))
    ultimately show ?thesis using l
      by (intro exI [of _ "Some (tp s + length ws)"] exI [of _ "tp s + length ws + length (lex_text l)"]
          exI [of _ "case a of None \<Rightarrow> assigntok s | Some a \<Rightarrow> a"]) auto
  qed
  show ?thesis
  proof (cases ls)
    case Nil
    obtain tp' where "readtok ops sub s = Done () (s\<lparr>lasttok := curtok s, curtok := TEOF, tp := tp'\<rparr>)" "drop tp' (expression s) = []"
      using read_end [of s ops sub] ws Nil by auto
    note r = this
    have eq: "s\<lparr>lasttok := curtok s, curtok := TEOF, tp := tp'\<rparr> =
        s\<lparr>lasttok := curtok s, curtok := TEOF, lasttp := lasttp s, tp := tp', assigntok := assigntok s\<rparr>"
      by (rule expr_state.equality) simp_all
    have "readtok ops sub s = Done () (s\<lparr>lasttok := curtok s, curtok := TEOF, lasttp := lasttp s, tp := tp',
        assigntok := assigntok s\<rparr>)"
      unfolding r(1) by (rule arg_cong [OF eq])
    then show ?thesis using Nil r(2)
      by (intro exI [of _ "lasttp s"] exI [of _ tp'] exI [of _ "assigntok s"]) (simp add: before_def)
  next
    case (Cons l ls')
    show ?thesis
    proof (cases l)
      case (LOp t)
      have start: "t \<in> simple_ops \<union> {POSTINC, POSTDEC, PREINC, PREDEC} \<union> assign_ops"
        using assms(2) Cons LOp by auto
      have "lex_operator (curtok s) (op_text t @ CHR '' '' # text_of ls') = Some (t, None, length (op_text t))"
      proof -
        consider "t \<in> simple_ops" | "t \<in> {POSTINC, POSTDEC}" "curtok s = STR_TOK"
          | x ls2 where "t \<in> {PREINC, PREDEC}" "curtok s \<noteq> STR_TOK" "ls' = LName x # ls2" "joined t ls'"
          using assms(2) Cons LOp by auto
        then show ?thesis
        proof cases
          case 2
          then show ?thesis using lex_post [of t "text_of ls'"] by (auto simp: op_text_def)
        next
          case 3
          then show ?thesis using lex_pre [of t "curtok s" x "CHR '' '' # text_of ls2"] by (auto simp: op_text_def)
        qed (rule lex_simple)
      qed
      then show ?thesis using run [OF Cons, of t None] op_text_start [OF start] LOp Cons by simp
    next
      case (LAssign t)
      then have t: "t \<in> assign_ops" using assms(2) Cons by simp
      then have "\<exists>c r. op_text t = c # r \<and> \<not> cr_whitespace c \<and> c \<noteq> NUL \<and> \<not> legal_variable_starter c \<and> \<not> is_digit c"
        by (intro op_text_start) simp
      then show ?thesis using run [OF Cons, of OP_ASSIGN "Some t"] lex_assign [OF t] LAssign Cons by auto
    qed (use assms(3) Cons in auto)
  qed
qed

section \<open>The levels of the descent\<close>

text \<open>
  The routines numbered by \<^const>\<open>op_level\<close>, from \<^verbatim>\<open>expcomma\<close> (0) to \<^verbatim>\<open>exp0\<close> (15); \<open>n\<close> is the fuel beyond
  the few steps that every level needs, \<open>m\<close> that of a parenthesis.
\<close>

definition high_of :: "nat \<Rightarrow> 'v shell_ops \<Rightarrow> (unit, 'v) ev \<Rightarrow> (int, 'v) ev" where
  "high_of m ops rd = expcomma (m + 5) ops rd"

definition lvl :: "nat \<Rightarrow> 'v shell_ops \<Rightarrow> (unit, 'v) ev \<Rightarrow> nat \<Rightarrow> nat \<Rightarrow> (int, 'v) ev" where
  "lvl p ops rd n m =
     (let h = high_of m ops rd
      in if p = 0 then andthen (expassign (n + 4) ops rd h) (comma_loop (n + 4) rd (expassign (n + 4) ops rd h))
         else if p = 1 then expassign (n + 4) ops rd h
         else if p = 2 then expcond (n + 3) ops rd h
         else if p = 3 then explor (n + 2) ops rd h
         else if p = 4 then expland (n + 2) ops rd h
         else if p = 5 then expbor (n + 2) ops rd h
         else if p = 6 then expbxor (n + 2) ops rd h
         else if p = 7 then expband (n + 2) ops rd h
         else if p = 8 then exp5 (n + 2) ops rd h
         else if p = 9 then exp4 (n + 2) ops rd h
         else if p = 10 then expshift (n + 2) ops rd h
         else if p = 11 then exp3 (n + 2) ops rd h
         else if p = 12 then exp2 (n + 2) ops rd h
         else if p = 13 then exppower (n + 2) ops rd h
         else if p = 14 then exp1 (n + 1) ops rd h
         else exp0 ops rd h)"

text \<open>The rest of the loop body for an operator of the levels 5 to 12.\<close>

definition combine_of :: "nat \<Rightarrow> token \<Rightarrow> nat \<Rightarrow> int \<Rightarrow> int \<Rightarrow> (int, 'v) ev" where
  "combine_of p op stp u v =
     (if p = 12 then exp2_combine op stp u v
      else if p = 11 then number (wrap64 (if op = PLUS then u + v else u - v))
      else if p = 10 then (case shift_value op u v of None \<Rightarrow> (\<lambda>s. Undefined) | Some v \<Rightarrow> number v)
      else if p = 9 then number (compare_values op u v)
      else if p = 8 then number (truth (if op = EQEQ then u = v else u \<noteq> v))
      else if p = 7 then number (u AND v)
      else if p = 6 then number (u XOR v)
      else number (u OR v))"

text \<open>The loops of the levels that associate to the left, with fuel \<open>k\<close>.\<close>

definition lvl_loop :: "nat \<Rightarrow> 'v shell_ops \<Rightarrow> (unit, 'v) ev \<Rightarrow> nat \<Rightarrow> nat \<Rightarrow> nat \<Rightarrow> int \<Rightarrow> (int, 'v) ev" where
  "lvl_loop p ops rd n m k =
     (if p = 0 then comma_loop k rd (lvl 1 ops rd n m)
      else if p = 3 then explor_loop k rd (lvl 4 ops rd n m)
      else if p = 4 then expland_loop k rd (lvl 5 ops rd n m)
      else binary_loop k (\<lambda>t. op_level t = p) rd (lvl (p + 1) ops rd n m) (combine_of p))"

definition left_level :: "nat \<Rightarrow> bool" where
  "left_level p \<longleftrightarrow> p = 0 \<or> 3 \<le> p \<and> p \<le> 12"

definition loop_fuel :: "nat \<Rightarrow> nat \<Rightarrow> nat" where
  "loop_fuel p n = (if p = 0 then n + 4 else n + 2)"

lemma left_level_cases:
  assumes "left_level p"
  shows "p = 0 \<or> p = 3 \<or> p = 4 \<or> p = 5 \<or> p = 6 \<or> p = 7 \<or> p = 8 \<or> p = 9 \<or> p = 10 \<or> p = 11 \<or> p = 12"
  using assms unfolding left_level_def by presburger

lemma op_level_eq:
  "op_level t = 5 \<longleftrightarrow> t = BOR" "op_level t = 6 \<longleftrightarrow> t = BXOR" "op_level t = 7 \<longleftrightarrow> t = BAND"
  "op_level t = 8 \<longleftrightarrow> t = EQEQ \<or> t = NEQ" "op_level t = 9 \<longleftrightarrow> t = LEQ \<or> t = GEQ \<or> t = LT \<or> t = GT"
  "op_level t = 10 \<longleftrightarrow> t = LSH \<or> t = RSH" "op_level t = 11 \<longleftrightarrow> t = PLUS \<or> t = MINUS"
  "op_level t = 12 \<longleftrightarrow> t = MUL \<or> t = DIV \<or> t = MOD" "op_level t = 0 \<longleftrightarrow> t = COMMA_TOK"
  "op_level t = 1 \<longleftrightarrow> t = EQ \<or> t = OP_ASSIGN" "op_level t = 2 \<longleftrightarrow> t = QUES" "op_level t = 3 \<longleftrightarrow> t = LOR"
  "op_level t = 4 \<longleftrightarrow> t = LAND" "op_level t = 13 \<longleftrightarrow> t = POWER"
  by (auto simp: op_level_def)

lemma op_level_pos: "0 < op_level t \<longleftrightarrow> t \<noteq> COMMA_TOK" "op_level t = Suc 0 \<longleftrightarrow> t = EQ \<or> t = OP_ASSIGN"
  by (auto simp: op_level_def)

lemma lvl_left:
  assumes "left_level p"
  shows "lvl p ops rd n m = andthen (lvl (p + 1) ops rd n m) (lvl_loop p ops rd n m (loop_fuel p n))"
  using left_level_cases [OF assms]
  by (elim disjE) (simp_all add: lvl_def lvl_loop_def loop_fuel_def Let_def op_level_eq combine_of_def [abs_def]
      explor_def expland_def expbor_def expbxor_def expband_def exp5_def exp4_def expshift_def exp3_def exp2_def binary_def)

text \<open>A level passes on what the next one returns before a token that is not its own, and its failures.\<close>

definition fails :: "('a, 'v) outcome \<Rightarrow> bool" where
  "fails r \<longleftrightarrow> (\<forall>x s. r \<noteq> Done x s)"

lemma fails_simps [simp]: "fails (Longjmp msg s)" "fails (Top_Level s)" "fails Undefined" "\<not> fails (Done x s)"
  by (simp_all add: fails_def)

lemma andthen_fails:
  fixes m :: "('a, 'v) ev" and f :: "'a \<Rightarrow> ('a, 'v) ev"
  shows "fails (m s) \<Longrightarrow> andthen m f s = m s"
  by (cases "m s") simp_all

lemma lvl_loop_stop: "left_level p \<Longrightarrow> op_level (curtok s) \<noteq> p \<Longrightarrow> 0 < k \<Longrightarrow> lvl_loop p ops rd n m k v s = Done v s"
  using left_level_cases [of p] by (cases k) (auto simp: lvl_loop_def op_level_eq op_level_pos)

text \<open>What the levels 1 and 2 do after their operand.\<close>

definition cond_tail :: "nat \<Rightarrow> 'v shell_ops \<Rightarrow> (unit, 'v) ev \<Rightarrow> (int, 'v) ev \<Rightarrow> int \<Rightarrow> (int, 'v) ev" where
  "cond_tail n ops rd high cval s =
     (if curtok s = QUES then
         andthen rd (\<lambda>_ s1.
           if curtok s1 = TEOF \<or> curtok s1 = COL then evalerror ''expression expected'' s1
           else
             andthen high (\<lambda>val1 s2.
               let s3 = unskip_if (cval = 0) s2
               in if curtok s3 \<noteq> COL then evalerror ''`:' expected for conditional expression'' s3
                  else andthen rd (\<lambda>_ s4.
                    if curtok s4 = TEOF then evalerror ''expression expected'' s4
                    else andthen (expcond n ops rd high)
                      (\<lambda>val2 s5. Done (if cval \<noteq> 0 then val1 else val2) ((unskip_if (cval \<noteq> 0) s5)\<lparr>lasttok := COND\<rparr>))
                      (skip_if (cval \<noteq> 0) s4)) s3)
               (skip_if (cval = 0) s1)) s
       else Done cval s)"

definition assign_tail :: "nat \<Rightarrow> 'v shell_ops \<Rightarrow> (unit, 'v) ev \<Rightarrow> (int, 'v) ev \<Rightarrow> int \<Rightarrow> (int, 'v) ev" where
  "assign_tail n ops rd high lval s =
     (if curtok s = EQ \<or> curtok s = OP_ASSIGN then
         let special = (curtok s = OP_ASSIGN); op = assigntok s
         in if lasttok s \<noteq> STR_TOK then evalerror ''attempted assignment to non-variable'' s
            else
              case tokstr s of
                None \<Rightarrow> Undefined
              | Some (a, lhs) \<Rightarrow>
                  let lind = lv_ind (curlval s)
                  in andthen rd (\<lambda>_. andthen (expassign n ops rd high) (assigned_value ops special op lval lhs lind)) s
       else Done lval s)"

lemma expcond_tail: "expcond (Suc n) ops rd high = andthen (explor n ops rd high) (cond_tail n ops rd high)"
  by (simp only: expcond.simps cond_tail_def [abs_def])

lemma expassign_tail: "expassign (Suc n) ops rd high = andthen (expcond n ops rd high) (assign_tail n ops rd high)"
  by (simp only: expassign.simps assign_tail_def [abs_def])

lemma right_unfold:
  "lvl 13 ops rd n m = andthen (lvl 14 ops rd n m) (power_loop (n + 1) ops rd (high_of m ops rd))"
  "lvl 2 ops rd n m = andthen (lvl 3 ops rd n m) (cond_tail (n + 2) ops rd (high_of m ops rd))"
  "lvl 1 ops rd n m = andthen (lvl 2 ops rd n m) (assign_tail (n + 3) ops rd (high_of m ops rd))"
  "lvl 14 ops rd n m = exp1 (Suc n) ops rd (high_of m ops rd)"
  "lvl 15 ops rd n m = exp0 ops rd (high_of m ops rd)"
proof -
  have f: "n + 2 = Suc (n + 1)" "n + 3 = Suc (n + 2)" "n + 4 = Suc (n + 3)" by simp_all
  show "lvl 13 ops rd n m = andthen (lvl 14 ops rd n m) (power_loop (n + 1) ops rd (high_of m ops rd))"
    unfolding lvl_def Let_def f(1) exppower.simps by simp
  show "lvl 2 ops rd n m = andthen (lvl 3 ops rd n m) (cond_tail (n + 2) ops rd (high_of m ops rd))"
    unfolding lvl_def Let_def f(2) expcond_tail by simp
  show "lvl 1 ops rd n m = andthen (lvl 2 ops rd n m) (assign_tail (n + 3) ops rd (high_of m ops rd))"
    unfolding lvl_def Let_def f(3) expassign_tail by (simp del: expcond.simps)
  show "lvl 14 ops rd n m = exp1 (Suc n) ops rd (high_of m ops rd)"
    unfolding lvl_def Let_def by (simp del: exp1.simps)
  show "lvl 15 ops rd n m = exp0 ops rd (high_of m ops rd)"
    unfolding lvl_def Let_def by simp
qed

lemma lift_once:
  assumes "p \<le> 13"
  shows "lvl (p + 1) ops rd n m s = Done v t \<Longrightarrow> op_level (curtok t) \<noteq> p \<Longrightarrow> lvl p ops rd n m s = Done v t"
    "fails (lvl (p + 1) ops rd n m s) \<Longrightarrow> lvl p ops rd n m s = lvl (p + 1) ops rd n m s"
proof -
  consider "left_level p" | "p = 1" | "p = 2" | "p = 13" using assms unfolding left_level_def by linarith
  then have "(lvl (p + 1) ops rd n m s = Done v t \<longrightarrow> op_level (curtok t) \<noteq> p \<longrightarrow> lvl p ops rd n m s = Done v t) \<and>
    (fails (lvl (p + 1) ops rd n m s) \<longrightarrow> lvl p ops rd n m s = lvl (p + 1) ops rd n m s)"
  proof cases
    case 1
    then show ?thesis
      using lvl_loop_stop [OF 1, of t "loop_fuel p n" ops rd n m v] andthen_fails [of "lvl (p + 1) ops rd n m" s]
      by (auto simp: lvl_left loop_fuel_def)
  next
    case 2
    have "op_level (curtok t) \<noteq> 1 \<Longrightarrow> assign_tail k ops rd h v t = Done v t" for k h
      by (auto simp: assign_tail_def op_level_pos)
    then show ?thesis using 2 andthen_fails [of "lvl 2 ops rd n m" s]
      by (auto simp: right_unfold(3) [unfolded One_nat_def] numeral_2_eq_2)
  next
    case 3
    have "op_level (curtok t) \<noteq> 2 \<Longrightarrow> cond_tail k ops rd h v t = Done v t" for k h
      by (simp add: cond_tail_def op_level_eq)
    then show ?thesis using 3 andthen_fails [of "lvl 3 ops rd n m" s]
      by (auto simp: right_unfold(2))
  next
    case 4
    have "op_level (curtok t) \<noteq> 13 \<Longrightarrow> power_loop (n + 1) ops rd h v t = Done v t" for h
      by (simp add: op_level_eq)
    then show ?thesis using 4 andthen_fails [of "lvl 14 ops rd n m" s]
      by (auto simp: right_unfold(1))
  qed
  then show "lvl (p + 1) ops rd n m s = Done v t \<Longrightarrow> op_level (curtok t) \<noteq> p \<Longrightarrow> lvl p ops rd n m s = Done v t"
    "fails (lvl (p + 1) ops rd n m s) \<Longrightarrow> lvl p ops rd n m s = lvl (p + 1) ops rd n m s" by blast+
qed

lemma lift:
  assumes "p \<le> q" and "q \<le> 14" and "lvl q ops rd n m s = Done v t" and "op_level (curtok t) < p \<or> q \<le> op_level (curtok t)"
  shows "lvl p ops rd n m s = Done v t"
  using assms(1,3)
proof (induction rule: inc_induct)
  case (step r)
  have r: "r \<le> 13" "op_level (curtok t) \<noteq> r" using step(1,2) assms(2,4) by auto
  have "lvl (r + 1) ops rd n m s = Done v t" using step.IH assms(3) by simp
  then show ?case using r(2) by (rule lift_once(1) [OF r(1)])
qed

lemma lift_fails:
  assumes "p \<le> q" and "q \<le> 14" and "fails (lvl q ops rd n m s)"
  shows "lvl p ops rd n m s = lvl q ops rd n m s"
  using assms(1)
proof (induction rule: inc_induct)
  case (step r)
  then have "fails (lvl (r + 1) ops rd n m s)" "r \<le> 13" using assms(2,3) by simp_all
  then show ?case using step(3) lift_once(2) [of r ops rd n m s] by simp
qed simp

definition unary_ops :: "token set" where
  "unary_ops = {NOT_TOK, BNOT, MINUS, PLUS}"

lemma lvl14_primary: "curtok s \<notin> unary_ops \<Longrightarrow> lvl 14 ops rd n m s = lvl 15 ops rd n m s"
  by (simp add: right_unfold unary_ops_def)

lemma lvl14_unary:
  assumes "curtok s \<in> unary_ops"
  shows "lvl 14 ops rd (Suc n) m s = andthen rd (\<lambda>_. andthen (lvl 14 ops rd n m) (\<lambda>v. number (unary_value (curtok s) v))) s"
proof -
  have "exp1 (Suc (Suc n)) ops rd (high_of m ops rd) s =
      andthen rd (\<lambda>_. andthen (exp1 (Suc n) ops rd (high_of m ops rd)) (\<lambda>v. number (unary_value (curtok s) v))) s"
    using assms unfolding exp1.simps(2) [of "Suc n"] unary_ops_def
    by (elim insertE emptyE) (simp_all add: unary_value_def del: exp1.simps)
  then show ?thesis by (simp only: right_unfold)
qed

lemma lvl15_number: "curtok s = NUM_TOK \<Longrightarrow> lvl 15 ops rd n m s = andthen rd (\<lambda>_. Done (tokval s)) s"
  by (simp add: right_unfold exp0_def)

lemma expcomma_lvl: "expcomma (n + 6) ops rd = lvl 0 ops rd (n + 1) n"
proof -
  have n: "n + 6 = Suc (n + 5)" by simp
  show ?thesis unfolding n expcomma.simps lvl_def high_of_def by (simp add: Let_def add.commute)
qed

lemma expr_fuel_lvl: "expcomma (expr_fuel str) ops rd = lvl 0 ops rd (length str + 1) (length str)"
  by (simp only: expr_fuel_def expcomma_lvl)

text \<open>The variable holds the decimal text of a number: its evaluation changes nothing.\<close>

lemma op_level_TEOF: "op_level TEOF = 16"
  by (simp add: op_level_def)

lemma lvl_number:
  assumes "curtok s = NUM_TOK" and "drop (tp s) (expression s) = []"
  shows "\<exists>tp'. lvl 14 ops (readtok ops sub) n m s = Done (tokval s) (s\<lparr>lasttok := NUM_TOK, curtok := TEOF, tp := tp'\<rparr>)"
proof -
  obtain tp' where "readtok ops sub s = Done () (s\<lparr>lasttok := curtok s, curtok := TEOF, tp := tp'\<rparr>)"
    using read_end [of s ops sub] assms(2) by auto
  then show ?thesis
    using assms(1) by (auto simp: lvl14_primary unary_ops_def lvl15_number)
qed

lemma lvl_itos:
  assumes "intmax_ok i" and "expression s = itos i" and "tp s = 0"
  shows "\<exists>t. andthen (readtok ops sub) (\<lambda>_. lvl 0 ops (readtok ops sub) (Suc n) m) s = Done i t \<and> curtok t = TEOF \<and>
    expr_stack t = expr_stack s \<and> assigntok t = assigntok s \<and> next_addr t = next_addr s \<and> vars t = vars s"
proof -
  let ?rd = "readtok ops sub" and ?ds = "decimal_digits (nat \<bar>i\<bar>)"
  have itos: "itos i = (if i < 0 then ''-'' else []) @ ?ds" by (rule itos_eq [OF assms(1)])
  show ?thesis
  proof (cases "i < 0")
    case False
    then have "drop (tp s) (expression s) = [] @ ?ds @ []" using assms itos by simp
    then have "?rd s = Done () (s\<lparr>lasttp := Some (tp s), tp := tp s + length ?ds, tokval := wrap64 (int (nat \<bar>i\<bar>)),
        lasttok := curtok s, curtok := NUM_TOK\<rparr>)" (is "_ = Done () ?s1")
      using read_number [of s "[]" "nat \<bar>i\<bar>" "[]" ops sub] by simp
    moreover obtain tp' where "lvl 14 ops ?rd (Suc n) m ?s1 = Done (tokval ?s1) (?s1\<lparr>lasttok := NUM_TOK, curtok := TEOF, tp := tp'\<rparr>)"
      using lvl_number [of ?s1 ops sub "Suc n" m] assms itos False by auto
    moreover have "tokval ?s1 = i" using False assms(1) by (simp add: wrap64_id)
    ultimately show ?thesis
      using lift [of 0 14 ops ?rd "Suc n" m ?s1 i] by (auto simp: op_level_TEOF)
  next
    case True
    have neg: "drop (tp s) (expression s) = [] @ CHR ''-'' # ?ds" using True assms itos by simp
    have dig: "?ds \<noteq> []" "\<forall>c\<in>set ?ds. is_digit c" using decimal_digits_facts [of "nat \<bar>i\<bar>"] by simp_all
    then have c: "c_at ?ds 0 \<noteq> CHR ''='' \<and> c_at ?ds 0 \<noteq> CHR ''-''" by (cases ?ds) (auto simp: is_digit_def)
    have lex: "lex_operator (curtok s) (CHR ''-'' # ?ds) = Some (MINUS, None, 1)"
      using c by (simp add: lex_operator_def is_arithop_def Let_def)
    let ?s1 = "s\<lparr>lasttp := Some (tp s), tp := tp s + 1, lasttok := curtok s, curtok := MINUS\<rparr>"
    have r1: "?rd s = Done () ?s1"
      using read_operator [OF neg _ _ _ _ _ lex, of ops sub]
      by (simp add: cr_whitespace_def whitespace_def legal_variable_starter_def is_alpha_def is_upper_def is_lower_def is_digit_def)
    let ?s2 = "?s1\<lparr>lasttp := Some (tp ?s1), tp := tp ?s1 + length ?ds, tokval := wrap64 (int (nat \<bar>i\<bar>)),
        lasttok := MINUS, curtok := NUM_TOK\<rparr>"
    have "drop (tp ?s1) (expression ?s1) = [] @ ?ds @ []" using assms itos True by simp
    then have r2: "?rd ?s1 = Done () ?s2"
      using read_number [of ?s1 "[]" "nat \<bar>i\<bar>" "[]" ops sub] by simp
    obtain tp' where l: "lvl 14 ops ?rd n m ?s2 = Done (tokval ?s2) (?s2\<lparr>lasttok := NUM_TOK, curtok := TEOF, tp := tp'\<rparr>)"
      using lvl_number [of ?s2 ops sub n m] assms itos True by auto
    have "lvl 14 ops ?rd (Suc n) m ?s1 = Done (unary_value MINUS (tokval ?s2))
        (?s2\<lparr>lasttok := NUM_TOK, curtok := TEOF, tp := tp'\<rparr>)"
      using lvl14_unary [of ?s1 ops ?rd n m] r2 l by (simp add: unary_ops_def number_def)
    moreover have "unary_value MINUS (tokval ?s2) = i"
      using True assms(1) wrap64_mult_add [of "int (nat \<bar>i\<bar>)" "- 1" 0] by (simp add: unary_value_def wrap64_id)
    ultimately show ?thesis
      using lift [of 0 14 ops ?rd "Suc n" m ?s1 i] r1 by (auto simp: op_level_TEOF)
  qed
qed

lemma subexpr_itos:
  assumes "intmax_ok i" and "length (expr_stack s) < MAX_EXPR_RECURSION_LEVEL"
  shows "subexpr (Suc k) ops (itos i) s = Done i s"
proof -
  let ?rd = "readtok ops (subexpr k ops)"
  let ?s1 = "s\<lparr>expr_stack := SAVETOK s # expr_stack s, expression := itos i, tp := 0, curtok := TEOF, lasttok := TEOF,
      tokstr := None, tokval := 0, curlval := init_lvalue\<rparr>"
  obtain t where t: "andthen ?rd (\<lambda>_. lvl 0 ops ?rd (Suc (length (itos i))) (length (itos i))) ?s1 = Done i t" "curtok t = TEOF"
      "expr_stack t = SAVETOK s # expr_stack s" "assigntok t = assigntok s" "next_addr t = next_addr s" "vars t = vars s"
    using lvl_itos [OF assms(1), of ?s1 ops "subexpr k ops"] by auto
  have "itos i \<noteq> []" "list_all (\<lambda>c. \<not> cr_whitespace c) (itos i)"
    using decimal_digits_facts [of "nat \<bar>i\<bar>"]
    by (auto simp: itos_eq [OF assms(1)] list_all_iff is_digit_def cr_whitespace_def whitespace_def)
  then have ne: "dropWhile cr_whitespace (itos i) \<noteq> []" by (cases "itos i") auto
  have restore: "RESTORETOK (SAVETOK s) (t\<lparr>expr_stack := expr_stack s, expression := expression s\<rparr>) = s"
    using t(4-6) by (intro expr_state.equality) (simp_all add: RESTORETOK_def SAVETOK_def)
  have "andthen ?rd (\<lambda>_. andthen (lvl 0 ops ?rd (Suc (length (itos i))) (length (itos i))) g) ?s1 = g i t"
    for g :: "int \<Rightarrow> (int, 'a) ev"
    using t(1) by (cases "?rd ?s1") auto
  then show ?thesis
    using ne assms(2) restore t(2,3)
    by (simp add: Let_def pushexp_def expr_fuel_lvl popexp_def SAVETOK_def [of s, symmetric]) (auto simp: SAVETOK_def)
qed

section \<open>The next token\<close>

text \<open>
  The current token is the first of \<open>ls\<close>, with its value, and the reader stands before the rest.
\<close>

definition data_ok :: "('v \<Rightarrow> store) \<Rightarrow> lexeme list \<Rightarrow> 'v expr_state \<Rightarrow> bool" where
  "data_ok env ls s \<longleftrightarrow>
     (case ls of
        LNum n # _ \<Rightarrow> tokval s = int n
      | LName x # ls' \<Rightarrow>
          (\<exists>a. tokstr s = Some (a, x)) \<and> (noeval s = 0 \<and> first_token ls' \<noteq> EQ \<longrightarrow> tokval s = env (vars s) x)
      | LAssign t # _ \<Rightarrow> assigntok s = t
      | _ \<Rightarrow> True)"

definition at_token :: "('v \<Rightarrow> store) \<Rightarrow> lexeme list \<Rightarrow> 'v expr_state \<Rightarrow> bool" where
  "at_token env ls s \<longleftrightarrow>
     curtok s = first_token ls \<and> data_ok env ls s \<and> (\<exists>p. joined p ls) \<and> (ls \<noteq> [] \<longrightarrow> before (tl ls) s)"

definition ready :: "('v \<Rightarrow> bool) \<Rightarrow> 'v expr_state \<Rightarrow> bool" where
  "ready good s \<longleftrightarrow> good (vars s) \<and> lv_ind (curlval s) = - 1 \<and> length (expr_stack s) < MAX_EXPR_RECURSION_LEVEL"

definition same_frame :: "'v expr_state \<Rightarrow> 'v expr_state \<Rightarrow> bool" where
  "same_frame s t \<longleftrightarrow> expression t = expression s \<and> expr_stack t = expr_stack s \<and> noeval t = noeval s"

lemma joined_tl: "joined p (l # ls) \<Longrightarrow> joined (token_of l) ls"
  by (cases l) simp_all

lemma name_stop_name:
  assumes "drop start str = x @ CHR '' '' # r" and "legal_name x"
  shows "name_stop ops str start = Some (start + length x, False)" "take (length x) (drop start str) = x"
proof -
  have "list_all legal_variable_char x" using assms(2) by (simp add: legal_name_def)
  then have tw: "takeWhile legal_variable_char (x @ CHR '' '' # r) = x"
    by (subst takeWhile_all_append)
      (auto simp: list_all_iff legal_variable_char_def is_alpha_def is_upper_def is_lower_def is_digit_def)
  have "c_at str (start + length x) = CHR '' ''"
  proof -
    have "length str - start = length x + 1 + length r" using arg_cong [OF assms(1), of length] by simp
    then have "start + length x < length str" by linarith
    moreover have "drop (start + length x) str = CHR '' '' # r"
      using assms(1) by (metis add.commute append_eq_conv_conj drop_drop)
    ultimately show ?thesis by (metis c_at_def nth_via_drop)
  qed
  then show "name_stop ops str start = Some (start + length x, False)"
    by (simp add: name_stop_def Let_def assms(1) tw)
  show "take (length x) (drop start str) = x" by (simp add: assms(1))
qed

lemma read_name:
  assumes "drop (tp s) (expression s) = ws @ x @ CHR '' '' # text_of ls" and "list_all cr_whitespace ws"
    and "legal_name x" "op_next ls" "joined STR_TOK ls"
  shows "\<exists>lv at'. readtok ops sub s =
    andthen (if lasttok s \<in> {PREINC, PREDEC} \<or> first_token ls \<noteq> EQ then expr_streval ops sub (next_addr s, x) False else Done 0)
      (\<lambda>tval t. Done () (t\<lparr>tokval := tval, lasttok := curtok t, curtok := STR_TOK, tp := tp s + length ws + length x\<rparr>))
      (s\<lparr>lasttp := Some (tp s + length ws), tp := tp s + length ws, curlval := lv, tokstr := Some (next_addr s, x),
         next_addr := next_addr s + 1, assigntok := at'\<rparr>) \<and> (lv_ind (curlval s) = - 1 \<longrightarrow> lv_ind lv = - 1)"
proof -
  obtain c y where c: "x = c # y" "legal_variable_starter c" "\<not> cr_whitespace c" "c \<noteq> NUL"
    using assms(3) by (rule legal_name_facts)
  define start where "start = tp s + length ws"
  note start = reader_start [of s ws c "y @ CHR '' '' # text_of ls", OF _ assms(2) c(3)]
  have d: "drop start (expression s) = x @ CHR '' '' # text_of ls"
    "tp s + length (takeWhile cr_whitespace (drop (tp s) (expression s))) = start" "c_at (expression s) start = c"
    using start assms(1) by (simp_all add: start_def c(1))
  note stop = name_stop_name(1) [OF d(1) assms(3), of ops] name_stop_name(2) [OF d(1) assms(3)]
  define lv where "lv = (if lv_tokstr (curlval s) \<noteq> None \<and> lv_tokstr (curlval s) = tokstr s then init_lvalue else curlval s)"
  define s1 where "s1 = s\<lparr>lasttp := Some start, tp := start, curlval := lv, tokstr := Some (next_addr s, x),
      next_addr := next_addr s + 1\<rparr>"
  define peek where "peek = s1\<lparr>tokstr := None, tp := start + length x, noeval := 1, curtok := STR_TOK\<rparr>"
  have eq: "readtok ops sub s = (case readtok ops sub peek of
      Done u s2 \<Rightarrow>
        andthen (if lasttok s1 \<in> {PREINC, PREDEC} \<or> curtok s2 \<noteq> EQ then expr_streval ops sub (next_addr s, x) False else Done 0)
          (\<lambda>tval s3. Done () (s3\<lparr>tokval := tval, lasttok := curtok s3, curtok := STR_TOK, tp := start + length x\<rparr>))
          (RESTORETOK (SAVETOK s1) s2)
    | r \<Rightarrow> r)"
    unfolding readtok.simps [of ops sub s] Let_def d(2,3) peek_def s1_def lv_def
    by (simp only: c(2-) stop if_True if_False simp_thms option.case prod.case diff_add_inverse)
  have "drop (start + length x) (expression s) = '' '' @ text_of ls"
    using d(1) by (metis add.commute append_Cons append_Nil append_eq_conv_conj drop_drop)
  then have "before ls peek"
    by (auto simp: before_def peek_def s1_def cr_whitespace_def whitespace_def intro!: exI [of _ "'' ''"])
  moreover have "joined (curtok peek) ls" using assms(5) by (simp add: peek_def)
  moreover have "ls = [] \<or> (\<exists>t ls'. ls = LOp t # ls') \<or> (\<exists>t ls'. ls = LAssign t # ls')"
    using assms(4) by (auto simp: op_next_def split: list.splits lexeme.splits)
  ultimately obtain lt tp' at' where r: "readtok ops sub peek =
      Done () (peek\<lparr>lasttok := curtok peek, curtok := first_token ls, lasttp := lt, tp := tp', assigntok := at'\<rparr>)"
    using read_op [of ls peek ops sub] by auto
  have "RESTORETOK (SAVETOK s1) (peek\<lparr>lasttok := curtok peek, curtok := first_token ls, lasttp := lt, tp := tp', assigntok := at'\<rparr>)
      = s1\<lparr>assigntok := at'\<rparr>"
    by (rule expr_state.equality) (simp_all add: RESTORETOK_def SAVETOK_def peek_def s1_def)
  then have "readtok ops sub s = andthen (if lasttok s \<in> {PREINC, PREDEC} \<or> first_token ls \<noteq> EQ
        then expr_streval ops sub (next_addr s, x) False else Done 0)
      (\<lambda>tval t. Done () (t\<lparr>tokval := tval, lasttok := curtok t, curtok := STR_TOK, tp := start + length x\<rparr>))
      (s1\<lparr>assigntok := at'\<rparr>)"
    unfolding eq r by (simp add: s1_def)
  moreover have "lv_ind (curlval s) = - 1 \<longrightarrow> lv_ind lv = - 1" by (simp add: lv_def init_lvalue_def)
  ultimately show ?thesis unfolding s1_def start_def by blast
qed

lemma same_frame_trans: "same_frame s t \<Longrightarrow> same_frame t u \<Longrightarrow> same_frame s u"
  by (simp add: same_frame_def)

definition scalar_reader :: "nat \<Rightarrow> 'v shell_ops \<Rightarrow> (unit, 'v) ev" where
  "scalar_reader k ops = readtok ops (subexpr (Suc k) ops)"

context scalar_shell begin

lemma streval_scalar:
  assumes "ready good s"
  shows "\<exists>i. expr_streval ops (subexpr (Suc k) ops) tok False s =
      Done i (if noeval s = 0 then s\<lparr>curlval := \<lparr>lv_tokstr = Some tok, lv_ind = - 1\<rparr>\<rparr> else s) \<and>
    (noeval s = 0 \<longrightarrow> i = env (vars s) (snd tok))"
proof (cases "noeval s = 0")
  case True
  have g: "good (vars s)" using assms by (simp add: ready_def)
  have "sub_value (subexpr (Suc k) ops) (snd (find_variable ops (vars s) (snd tok))) s = Done (env (vars s) (snd tok)) s"
    using lookup [OF g, of "snd tok"]
  proof
    assume l: "snd (find_variable ops (vars s) (snd tok)) = Some (itos (env (vars s) (snd tok)))"
    have "itos (env (vars s) (snd tok)) \<noteq> []"
      using decimal_digits_facts by (auto simp: itos_eq [OF env_ok [OF g]])
    then show ?thesis
      using subexpr_itos [OF env_ok [OF g], of s k ops "snd tok"] assms
      by (simp add: sub_value_def l ready_def del: subexpr.simps)
  qed (simp add: sub_value_def)
  then show ?thesis
    using found [OF g, of "snd tok"] True by (simp add: expr_streval_def del: subexpr.simps)
qed (simp add: expr_streval_def)

lemma read_next:
  assumes "ready good s" and "before ls s" and "joined (curtok s) ls"
  shows "\<exists>t. readtok ops (subexpr (Suc k) ops) s = Done () t \<and> at_token env ls t \<and> ready good t \<and> same_frame s t \<and>
    vars t = vars s \<and> lasttok t = curtok s \<and> (first_token ls \<noteq> STR_TOK \<longrightarrow> tokstr t = tokstr s)"
proof -
  obtain ws where ws: "list_all cr_whitespace ws" "drop (tp s) (expression s) = ws @ text_of ls"
    using assms(2) by (auto simp: before_def)
  consider (op) "ls = [] \<or> (\<exists>t ls'. ls = LOp t # ls') \<or> (\<exists>t ls'. ls = LAssign t # ls')"
    | (num) n ls' where "ls = LNum n # ls'" | (name) x ls' where "ls = LName x # ls'"
    by (metis lexeme.exhaust neq_Nil_conv)
  then show ?thesis
  proof cases
    case op
    then obtain lt tp' at' where r: "readtok ops (subexpr (Suc k) ops) s =
        Done () (s\<lparr>lasttok := curtok s, curtok := first_token ls, lasttp := lt, tp := tp', assigntok := at'\<rparr>)"
        "before (tl ls) (s\<lparr>tp := tp'\<rparr>)" "\<forall>t. ls \<noteq> [] \<longrightarrow> hd ls = LAssign t \<longrightarrow> at' = t"
      using read_op [OF assms(2,3), of ops "subexpr (Suc k) ops"] by blast
    have "before (tl ls) (s\<lparr>lasttok := curtok s, curtok := first_token ls, lasttp := lt, tp := tp', assigntok := at'\<rparr>)"
      using r(2) by (simp add: before_def)
    moreover have "data_ok env ls (s\<lparr>lasttok := curtok s, curtok := first_token ls, lasttp := lt, tp := tp', assigntok := at'\<rparr>)"
      using op r(3) by (auto simp: data_ok_def)
    ultimately show ?thesis
      unfolding r(1) using assms by (auto simp: at_token_def ready_def same_frame_def)
  next
    case (num n ls')
    let ?t = "s\<lparr>lasttp := Some (tp s + length ws), tp := tp s + length ws + length (decimal_digits n), tokval := wrap64 (int n),
        lasttok := curtok s, curtok := NUM_TOK\<rparr>"
    have "readtok ops (subexpr (Suc k) ops) s = Done () ?t"
      using ws num by (intro read_number [where r = "CHR '' '' # text_of ls'"])
        (auto simp: number_char_def is_alpha_def is_upper_def is_lower_def is_digit_def)
    moreover have "before ls' (s\<lparr>tp := tp s + length ws + length (decimal_digits n)\<rparr>)"
      using ws(2) num by (intro before_step) simp
    then have "before ls' ?t" by (simp add: before_def)
    moreover have "wrap64 (int n) = int n" using assms(3) num by (intro wrap64_id) (simp add: intmax_ok_def int_limits)
    ultimately show ?thesis
      using assms num by (intro exI [of _ ?t]) (auto simp: at_token_def ready_def same_frame_def data_ok_def)
  next
    case (name x ls')
    then have x: "legal_name x" "op_next ls'" "joined STR_TOK ls'" using assms(3) by simp_all
    let ?sub = "subexpr (Suc k) ops"
    obtain lv at' where r: "readtok ops ?sub s =
      andthen (if lasttok s \<in> {PREINC, PREDEC} \<or> first_token ls' \<noteq> EQ then expr_streval ops ?sub (next_addr s, x) False else Done 0)
        (\<lambda>tval t. Done () (t\<lparr>tokval := tval, lasttok := curtok t, curtok := STR_TOK, tp := tp s + length ws + length x\<rparr>))
        (s\<lparr>lasttp := Some (tp s + length ws), tp := tp s + length ws, curlval := lv, tokstr := Some (next_addr s, x),
           next_addr := next_addr s + 1, assigntok := at'\<rparr>)" "lv_ind lv = - 1"
      using read_name [of s ws x ls' ops ?sub] ws x name assms(1) by (auto simp: ready_def)
    define s1 where "s1 = s\<lparr>lasttp := Some (tp s + length ws), tp := tp s + length ws, curlval := lv,
        tokstr := Some (next_addr s, x), next_addr := next_addr s + 1, assigntok := at'\<rparr>"
    have s1: "ready good s1" using assms(1) r(2) by (simp add: ready_def s1_def)
    obtain i cv where e: "(if lasttok s \<in> {PREINC, PREDEC} \<or> first_token ls' \<noteq> EQ
          then expr_streval ops ?sub (next_addr s, x) False else Done 0) s1 = Done i (s1\<lparr>curlval := cv\<rparr>)"
        "lv_ind cv = - 1" "noeval s = 0 \<and> first_token ls' \<noteq> EQ \<longrightarrow> i = env (vars s) x"
    proof -
      obtain i where i: "expr_streval ops ?sub (next_addr s, x) False s1 =
          Done i (if noeval s1 = 0 then s1\<lparr>curlval := \<lparr>lv_tokstr = Some (next_addr s, x), lv_ind = - 1\<rparr>\<rparr> else s1)"
          "noeval s1 = 0 \<longrightarrow> i = env (vars s1) x"
        using streval_scalar [OF s1, of k "(next_addr s, x)"] by auto
      have self: "s1\<lparr>curlval := lv\<rparr> = s1" by (simp add: s1_def)
      show ?thesis
      proof (cases "lasttok s \<in> {PREINC, PREDEC} \<or> first_token ls' \<noteq> EQ")
        case True
        then show ?thesis
          using that [of i "if noeval s = 0 then \<lparr>lv_tokstr = Some (next_addr s, x), lv_ind = - 1\<rparr> else lv"] i r(2) self
          by (cases "noeval s = 0") (simp_all add: s1_def)
      next
        case False
        then show ?thesis using that [of 0 lv] r(2) self by simp
      qed
    qed
    let ?t = "s1\<lparr>curlval := cv, tokval := i, lasttok := curtok s, curtok := STR_TOK, tp := tp s + length ws + length x\<rparr>"
    have "readtok ops ?sub s = Done () ?t"
      unfolding r(1) s1_def [symmetric] using e(1) by (simp add: s1_def)
    moreover have "before ls' (s\<lparr>tp := tp s + length ws + length x\<rparr>)"
      using ws(2) name by (intro before_step) simp
    then have "before ls' ?t" by (simp add: before_def s1_def)
    ultimately show ?thesis
      using assms name e(2,3) s1
      by (intro exI [of _ ?t]) (auto simp: at_token_def ready_def same_frame_def data_ok_def s1_def)
  qed
qed

lemma advance:
  assumes "at_token env (l # ls) s" and "ready good s1"
    and "curtok s1 = token_of l" "tp s1 = tp s" "expression s1 = expression s"
  shows "\<exists>t. scalar_reader k ops s1 = Done () t \<and> at_token env ls t \<and> ready good t \<and> same_frame s1 t \<and>
    vars t = vars s1 \<and> lasttok t = token_of l \<and> (first_token ls \<noteq> STR_TOK \<longrightarrow> tokstr t = tokstr s1)"
proof -
  have "before ls s1" "joined (token_of l) ls"
    using assms joined_tl by (auto simp: at_token_def before_def)
  then show ?thesis
    using read_next [of s1 ls k] assms(2,3) by (auto simp: scalar_reader_def)
qed

end

end
