(* ===== verification/Arith_Agreement.thy ===== *)
theory Arith_Agreement
  imports Arith_Semantics
begin

text \<open>
  The evaluator of \<^verbatim>\<open>expr.c\<close> agrees with the meaning of expressions: run on the text of an
  expression, it gives the value, the variables and the errors of the tree.
\<close>

section \<open>Evaluation of the text\<close>

text \<open>
  What an expression may yield: its value and effect; when nothing is evaluated, any value and no
  effect.
\<close>

definition yields :: "nat \<Rightarrow> aexp \<Rightarrow> store \<Rightarrow> answer \<Rightarrow> bool" where
  "yields ne e \<sigma> w \<longleftrightarrow> (if ne = 0 then eval e \<sigma> = w else \<exists>v. w = (Inr v, \<sigma>))"

text \<open>A state reached after \<open>s\<close> with the variables \<open>\<sigma>\<close>, before \<open>rest\<close>.\<close>

definition reached :: "('v \<Rightarrow> store) \<Rightarrow> ('v \<Rightarrow> bool) \<Rightarrow> lexeme list \<Rightarrow> 'v expr_state \<Rightarrow> store \<Rightarrow> 'v expr_state \<Rightarrow> bool" where
  "reached env good rest s \<sigma> t \<longleftrightarrow> at_token env rest t \<and> ready good t \<and> same_frame s t \<and> env (vars t) = \<sigma>"

text \<open>The answer \<open>w\<close> as the outcome of the routine \<open>f\<close>, for all fuel that covers \<open>l\<close> lexemes.\<close>

definition ends_with ::
  "('v \<Rightarrow> store) \<Rightarrow> ('v \<Rightarrow> bool) \<Rightarrow> nat \<Rightarrow> answer \<Rightarrow> lexeme list \<Rightarrow> 'v expr_state \<Rightarrow> (nat \<Rightarrow> nat \<Rightarrow> (int, 'v) outcome) \<Rightarrow>
   (nat \<Rightarrow> nat \<Rightarrow> nat \<Rightarrow> int \<Rightarrow> (int, 'v) ev) \<Rightarrow> bool" where
  "ends_with env good l w rest s f g \<longleftrightarrow>
     (case w of
        (Inr v, \<sigma>) \<Rightarrow> \<exists>t d. d \<le> l \<and> reached env good rest s \<sigma> t \<and> (\<forall>n m. l \<le> n \<longrightarrow> l \<le> m + 1 \<longrightarrow> f n m = g n m d v t)
      | (Inl (Some msg), \<sigma>) \<Rightarrow> \<exists>t. good (vars t) \<and> env (vars t) = \<sigma> \<and> (\<forall>n m. l \<le> n \<longrightarrow> l \<le> m + 1 \<longrightarrow> f n m = Longjmp (Some msg) t)
      | (Inl None, \<sigma>) \<Rightarrow> \<forall>n m. l \<le> n \<longrightarrow> l \<le> m + 1 \<longrightarrow> f n m = Undefined)"

definition completes :: "('v \<Rightarrow> store) \<Rightarrow> ('v \<Rightarrow> bool) \<Rightarrow> 'v shell_ops \<Rightarrow> nat \<Rightarrow> nat \<Rightarrow> nat \<Rightarrow> answer \<Rightarrow> lexeme list \<Rightarrow> 'v expr_state \<Rightarrow> bool" where
  "completes env good ops k p l w rest s \<longleftrightarrow>
     ends_with env good l w rest s (\<lambda>n m. lvl p ops (scalar_reader k ops) n m s) (\<lambda>n m d. Done)"

definition loops :: "('v \<Rightarrow> store) \<Rightarrow> ('v \<Rightarrow> bool) \<Rightarrow> 'v shell_ops \<Rightarrow> nat \<Rightarrow> nat \<Rightarrow> nat \<Rightarrow> answer \<Rightarrow> lexeme list \<Rightarrow> 'v expr_state \<Rightarrow> bool" where
  "loops env good ops k p l w rest s \<longleftrightarrow>
     ends_with env good l w rest s (\<lambda>n m. lvl p ops (scalar_reader k ops) n m s)
       (\<lambda>n m d. lvl_loop p ops (scalar_reader k ops) n m (loop_fuel p n - d))"

definition parsed :: "('v \<Rightarrow> store) \<Rightarrow> ('v \<Rightarrow> bool) \<Rightarrow> 'v shell_ops \<Rightarrow> nat \<Rightarrow> nat \<Rightarrow> nat \<Rightarrow> answer \<Rightarrow> lexeme list \<Rightarrow> 'v expr_state \<Rightarrow> bool" where
  "parsed env good ops k p l w rest s \<longleftrightarrow>
     (if left_level p then loops env good ops k p l w rest s else completes env good ops k p l w rest s)"

lemma reached_curtok: "reached env good rest s \<sigma> t \<Longrightarrow> curtok t = first_token rest"
  by (simp add: reached_def at_token_def)

lemma ends_with_cong:
  assumes "ends_with env good l w rest s f g" and "l \<le> l'"
    and "\<And>n m v t d. d \<le> l \<Longrightarrow> l \<le> n \<Longrightarrow> curtok t = first_token rest \<Longrightarrow> f n m = g n m d v t \<Longrightarrow> f' n m = g' n m 0 v t"
    and "\<And>n m. l \<le> n \<Longrightarrow> fails (f n m) \<Longrightarrow> f' n m = f n m"
  shows "ends_with env good l' w rest s f' g'"
proof -
  obtain r \<sigma> where w: "w = (r, \<sigma>)" by (cases w)
  show ?thesis
  proof (cases r)
    case (Inr v)
    then obtain t d where t: "d \<le> l" "reached env good rest s \<sigma> t" "\<And>n m. l \<le> n \<Longrightarrow> l \<le> m + 1 \<Longrightarrow> f n m = g n m d v t"
      using assms(1) w by (auto simp: ends_with_def)
    then have "\<And>n m. l' \<le> n \<Longrightarrow> l' \<le> m + 1 \<Longrightarrow> f' n m = g' n m 0 v t"
      using assms(2,3) reached_curtok by (metis order_trans)
    then show ?thesis using t(2) w Inr by (auto simp: ends_with_def)
  next
    case (Inl e)
    have f: "l' \<le> n \<Longrightarrow> l \<le> n" "l' \<le> m + 1 \<Longrightarrow> l \<le> m + 1" for n m :: nat using assms(2) by auto
    show ?thesis
    proof (cases e)
      case None
      then have "\<And>n m. l \<le> n \<Longrightarrow> l \<le> m + 1 \<Longrightarrow> f n m = Undefined" using assms(1) w Inl by (simp add: ends_with_def)
      then show ?thesis using assms(4) f w Inl None by (simp add: ends_with_def)
    next
      case (Some msg)
      then obtain t where "good (vars t)" "env (vars t) = \<sigma>" "\<And>n m. l \<le> n \<Longrightarrow> l \<le> m + 1 \<Longrightarrow> f n m = Longjmp (Some msg) t"
        using assms(1) w Inl by (auto simp: ends_with_def)
      moreover from this(3) have "\<And>n m. l' \<le> n \<Longrightarrow> l' \<le> m + 1 \<Longrightarrow> f' n m = Longjmp (Some msg) t"
        using assms(4) f by simp
      ultimately show ?thesis using w Inl Some by (auto simp: ends_with_def)
    qed
  qed
qed

lemma completes_lift:
  assumes "completes env good ops k q l w rest s" and "p \<le> q" "q \<le> 14"
    and "op_level (first_token rest) < p \<or> q \<le> op_level (first_token rest)"
  shows "completes env good ops k p l w rest s"
  using assms(1) order_refl unfolding completes_def
proof (rule ends_with_cong)
  show "lvl p ops (scalar_reader k ops) n m s = Done v t"
    if "curtok t = first_token rest" "lvl q ops (scalar_reader k ops) n m s = Done v t" for n m v t
    using lift [OF assms(2,3) that(2)] assms(4) that(1) by simp
  show "lvl p ops (scalar_reader k ops) n m s = lvl q ops (scalar_reader k ops) n m s"
    if "fails (lvl q ops (scalar_reader k ops) n m s)" for n m
    using lift_fails [OF assms(2,3) that] .
qed

lemma completes_loops:
  assumes "completes env good ops k (p + 1) l w rest s" and "left_level p"
  shows "loops env good ops k p l w rest s"
  using assms(1) order_refl unfolding completes_def loops_def
proof (rule ends_with_cong)
  show "lvl p ops (scalar_reader k ops) n m s = lvl_loop p ops (scalar_reader k ops) n m (loop_fuel p n - 0) v t"
    if "lvl (p + 1) ops (scalar_reader k ops) n m s = Done v t" for n m v t
    using that by (simp add: lvl_left [OF assms(2)])
  show "lvl p ops (scalar_reader k ops) n m s = lvl (p + 1) ops (scalar_reader k ops) n m s"
    if "fails (lvl (p + 1) ops (scalar_reader k ops) n m s)" for n m
    using andthen_fails [of "lvl (p + 1) ops (scalar_reader k ops) n m" s, OF that] by (simp add: lvl_left [OF assms(2)])
qed

lemma loops_completes:
  assumes "loops env good ops k p l w rest s" and "left_level p" and "op_level (first_token rest) \<noteq> p"
  shows "completes env good ops k p l w rest s"
  using assms(1) order_refl unfolding completes_def loops_def
proof (rule ends_with_cong)
  show "lvl p ops (scalar_reader k ops) n m s = Done v t"
    if "d \<le> l" "l \<le> n" "curtok t = first_token rest"
      "lvl p ops (scalar_reader k ops) n m s = lvl_loop p ops (scalar_reader k ops) n m (loop_fuel p n - d) v t" for n m v t d
    using that(4) lvl_loop_stop [OF assms(2), of t "loop_fuel p n - d" ops "scalar_reader k ops" n m v] assms(3) that(1-3)
    by (simp add: loop_fuel_def)
qed simp

text \<open>What may follow an expression that is read at level \<open>p\<close>.\<close>

definition rest_ok :: "nat \<Rightarrow> lexeme list \<Rightarrow> bool" where
  "rest_ok p rest \<longleftrightarrow> first_token rest \<notin> {STR_TOK, POSTINC, POSTDEC, PREINC, PREDEC, EQ, OP_ASSIGN} \<and>
     (let q = op_level (first_token rest) in q < p \<or> q = p \<and> left_level p \<or> 16 \<le> q)"

lemma parsed_completes:
  assumes "parsed env good ops k p l w rest s" and "op_level (first_token rest) \<noteq> p"
  shows "completes env good ops k p l w rest s"
  using assms by (cases "left_level p") (simp_all add: parsed_def loops_completes)

lemma parsed_lower:
  assumes "completes env good ops k q l w rest s" and "p \<le> q" "q \<le> 14" and "rest_ok p rest"
    and "p = q \<longrightarrow> \<not> left_level q"
  shows "parsed env good ops k p l w rest s"
proof (cases "p = q")
  case False
  then have "completes env good ops k (p + 1) l w rest s"
    using assms by (intro completes_lift [OF assms(1)]) (auto simp: rest_ok_def Let_def)
  moreover have "completes env good ops k p l w rest s" if "\<not> left_level p"
    using assms False that by (intro completes_lift [OF assms(1)]) (auto simp: rest_ok_def Let_def)
  ultimately show ?thesis by (auto simp: parsed_def completes_loops)
qed (use assms in \<open>simp add: parsed_def\<close>)

lemma completes_mono: "completes env good ops k p l w rest s \<Longrightarrow> l \<le> l' \<Longrightarrow> completes env good ops k p l' w rest s"
  unfolding completes_def by (erule ends_with_cong) simp_all

lemma ends_with_done:
  assumes "reached env good rest s \<sigma> t" and "d \<le> l" and "\<And>n m. l \<le> n \<Longrightarrow> l \<le> m + 1 \<Longrightarrow> f n m = g n m d v t"
  shows "ends_with env good l (Inr v, \<sigma>) rest s f g"
  using assms by (auto simp: ends_with_def)

lemma ends_with_fail:
  assumes "(\<exists>msg t. e = Some msg \<and> r = Longjmp (Some msg) t \<and> good (vars t) \<and> env (vars t) = \<sigma>) \<or> e = None \<and> r = Undefined"
    and "\<And>n m. l \<le> n \<Longrightarrow> l \<le> m + 1 \<Longrightarrow> f n m = r"
  shows "ends_with env good l (Inl e, \<sigma>) rest s f g"
  using assms by (auto simp: ends_with_def)

text \<open>Both outcomes of a sub-expression; a failure can be passed on by every routine.\<close>

lemma ends_with_cases:
  assumes "ends_with env good l w rest s f g"
  obtains (failed) e \<sigma> r where "w = (Inl e, \<sigma>)" "fails r"
      "\<And>n m. l \<le> n \<Longrightarrow> l \<le> m + 1 \<Longrightarrow> f n m = r"
      "\<And>l' rest' s' f' g'. (\<And>n m. l' \<le> n \<Longrightarrow> l' \<le> m + 1 \<Longrightarrow> f' n m = r) \<Longrightarrow>
        ends_with env good l' (Inl e, \<sigma>) rest' s' f' g'"
    | (returned) v \<sigma> t d where "w = (Inr v, \<sigma>)" "reached env good rest s \<sigma> t" "d \<le> l"
      "\<And>n m. l \<le> n \<Longrightarrow> l \<le> m + 1 \<Longrightarrow> f n m = g n m d v t"
proof -
  obtain r \<sigma> where w: "w = (r, \<sigma>)" by (cases w)
  show ?thesis
  proof (cases r)
    case (Inl e)
    have "\<exists>out. ((\<exists>msg t. e = Some msg \<and> out = Longjmp (Some msg) t \<and> good (vars t) \<and> env (vars t) = \<sigma>) \<or> e = None \<and> out = Undefined)
      \<and> (\<forall>n m. l \<le> n \<longrightarrow> l \<le> m + 1 \<longrightarrow> f n m = out)"
      using assms w Inl by (cases e) (auto simp: ends_with_def)
    then obtain out where out: "(\<exists>msg t. e = Some msg \<and> out = Longjmp (Some msg) t \<and> good (vars t) \<and> env (vars t) = \<sigma>) \<or>
        e = None \<and> out = Undefined" "\<And>n m. l \<le> n \<Longrightarrow> l \<le> m + 1 \<Longrightarrow> f n m = out"
      by blast
    show ?thesis
    proof (rule failed)
      show "w = (Inl e, \<sigma>)" using w Inl by simp
      show "fails out" using out(1) by auto
      show "\<And>l' rest' s' f' g'. (\<And>n m. l' \<le> n \<Longrightarrow> l' \<le> m + 1 \<Longrightarrow> f' n m = out) \<Longrightarrow>
          ends_with env good l' (Inl e, \<sigma>) rest' s' f' g'"
        using out(1) by (rule ends_with_fail)
    qed (rule out(2))
  next
    case (Inr v)
    then show ?thesis using assms w returned by (auto simp: ends_with_def)
  qed
qed

lemma completes_cases:
  assumes "completes env good ops k p l w rest s"
  obtains (failed) e \<sigma> r where "w = (Inl e, \<sigma>)" "fails r"
      "\<And>n m. l \<le> n \<Longrightarrow> l \<le> m + 1 \<Longrightarrow> lvl p ops (scalar_reader k ops) n m s = r"
      "\<And>l' rest' s' f' g'. (\<And>n m. l' \<le> n \<Longrightarrow> l' \<le> m + 1 \<Longrightarrow> f' n m = r) \<Longrightarrow>
        ends_with env good l' (Inl e, \<sigma>) rest' s' f' g'"
    | (returned) v \<sigma> t where "w = (Inr v, \<sigma>)" "reached env good rest s \<sigma> t"
      "\<And>n m. l \<le> n \<Longrightarrow> l \<le> m + 1 \<Longrightarrow> lvl p ops (scalar_reader k ops) n m s = Done v t"
  using assms unfolding completes_def
proof (cases rule: ends_with_cases)
  case (failed e \<sigma> r)
  then show ?thesis by (rule that(1))
next
  case (returned v \<sigma> t d)
  from returned(1,2,4) show ?thesis by (rule that(2))
qed

lemma completes_done:
  assumes "reached env good rest s \<sigma> t"
    and "\<And>n m. l \<le> n \<Longrightarrow> l \<le> m + 1 \<Longrightarrow> lvl p ops (scalar_reader k ops) n m s = Done v t"
  shows "completes env good ops k p l (Inr v, \<sigma>) rest s"
  unfolding completes_def by (rule ends_with_done [OF assms(1), of 0]) (use assms(2) in auto)

text \<open>A sub-expression and what its routine does next.\<close>

lemma completes_then:
  assumes "completes env good ops k p l w rest t"
    and run: "\<And>n m. L \<le> n \<Longrightarrow> L \<le> m + 1 \<Longrightarrow> f n m = andthen (lvl p ops (scalar_reader k ops) (nn n m) (mm n m)) (K n m) t"
    and fuel: "\<And>n m. L \<le> n \<Longrightarrow> L \<le> m + 1 \<Longrightarrow> l \<le> nn n m" "\<And>n m. L \<le> n \<Longrightarrow> L \<le> m + 1 \<Longrightarrow> l \<le> mm n m + 1"
    and fail: "\<And>e \<sigma>. w = (Inl e, \<sigma>) \<Longrightarrow> Y (Inl e, \<sigma>)"
    and ret: "\<And>v \<sigma> u. w = (Inr v, \<sigma>) \<Longrightarrow> reached env good rest t \<sigma> u \<Longrightarrow>
      (\<And>n m. L \<le> n \<Longrightarrow> L \<le> m + 1 \<Longrightarrow> f n m = K n m v u) \<Longrightarrow> \<exists>w. Y w \<and> ends_with env good L w rest' s f g"
  shows "\<exists>w. Y w \<and> ends_with env good L w rest' s f g"
  using assms(1)
proof (cases rule: completes_cases)
  case (failed e \<sigma> r)
  have "f n m = r" if "L \<le> n" "L \<le> m + 1" for n m
    unfolding run [OF that] using failed(2) by (subst andthen_fails) (simp_all only: failed(3) fuel that)
  then have "ends_with env good L (Inl e, \<sigma>) rest' s f g" by (rule failed(4))
  then show ?thesis using fail [OF failed(1)] by blast
next
  case (returned v \<sigma> u)
  have "f n m = K n m v u" if "L \<le> n" "L \<le> m + 1" for n m
    unfolding run [OF that] by (simp only: returned(3) fuel that andthen_simps)
  then show ?thesis by (rule ret [OF returned(1,2)])
qed

definition readable :: "('v \<Rightarrow> store) \<Rightarrow> ('v \<Rightarrow> bool) \<Rightarrow> 'v shell_ops \<Rightarrow> nat \<Rightarrow> aexp \<Rightarrow> bool" where
  "readable env good ops k e \<longleftrightarrow>
     (\<forall>p s rest. p \<le> 14 \<longrightarrow> rest_ok p rest \<longrightarrow> ready good s \<longrightarrow> at_token env (lexemes e p @ rest) s \<longrightarrow>
        noeval s = 0 \<or> quiet e \<longrightarrow>
        (\<exists>w. yields (noeval s) e (env (vars s)) w \<and> parsed env good ops k p (length (lexemes e p)) w rest s))"

lemma at_token_hd: "at_token env (l # ls) s \<Longrightarrow> curtok s = token_of l"
  by (simp add: at_token_def)

lemma rest_token: "rest_ok p rest \<Longrightarrow> first_token rest \<noteq> STR_TOK"
  by (simp add: rest_ok_def)

lemma reached_I:
  "at_token env rest t \<Longrightarrow> ready good t \<Longrightarrow> same_frame s t \<Longrightarrow> reached env good rest s (env (vars t)) t"
  by (simp add: reached_def)

text \<open>The operators of the levels 5 to 12 compute the value of the tree.\<close>

lemma lasttok_self: "\<exists>x. t = (t :: 'v expr_state)\<lparr>lasttok := x\<rparr>"
proof
  show "t = t\<lparr>lasttok := lasttok t\<rparr>" by (rule expr_state.equality) simp_all
qed

lemma c_div_1 [simp]: "c_div a 1 = a"
  by (simp add: c_div_def mult_sgn_abs)

definition computes :: "token \<Rightarrow> int \<Rightarrow> int \<Rightarrow> 'v expr_state \<Rightarrow> (int, 'v) outcome \<Rightarrow> bool" where
  "computes op u v t r \<longleftrightarrow>
     (if noeval t = 0 then
        (case binary_value op u v of
           Inr w \<Rightarrow> \<exists>x. r = Done w (t\<lparr>lasttok := x\<rparr>)
         | Inl (Some msg) \<Rightarrow> \<exists>p. r = Longjmp (Some msg) (t\<lparr>lasttp := p\<rparr>)
         | Inl None \<Rightarrow> r = Undefined)
      else \<exists>w x. r = Done w (t\<lparr>lasttok := x\<rparr>))"

lemma combine_value:
  assumes "op \<in> binary_ops" and "noeval t = 0 \<or> op \<notin> {LSH, RSH}"
  shows "computes op u v t (combine_of (op_level op) op stp u v t)"
proof -
  have mul: "computes op u v t (exp2_combine op stp u v t)" if "op = MUL"
    using that by (auto simp: computes_def exp2_combine_def binary_value_def number_def)
  have div: "computes op u v t (exp2_combine op stp u v t)" if "op = DIV \<or> op = MOD" "v \<noteq> 0"
  proof (cases "op = MOD \<and> u = INTMAX_MIN \<and> v = - 1")
    case True
    then have e: "exp2_combine op stp u v t = Done 0 t" "binary_value op u v = Inr 0"
      by (simp_all add: exp2_combine_def binary_value_def)
    obtain x where "t = t\<lparr>lasttok := x\<rparr>" using lasttok_self by blast
    from arg_cong [OF this, of "Done (0::int)"] have "\<exists>x. Done (0::int) t = Done 0 (t\<lparr>lasttok := x\<rparr>)" by (rule exI)
    moreover from this have "\<exists>w x. Done (0::int) t = Done w (t\<lparr>lasttok := x\<rparr>)" by (rule exI)
    ultimately show ?thesis unfolding computes_def e sum.case by (simp only: if_cancel)
  next
    case False
    then have "exp2_combine op stp u v t =
        number (if u = INTMAX_MIN \<and> v = - 1 then c_div u 1 else if op = DIV then c_div u v else c_mod u v) t"
      using that by (auto simp: exp2_combine_def Let_def)
    moreover have "binary_value op u v =
        Inr (if u = INTMAX_MIN \<and> v = - 1 then c_div u 1 else if op = DIV then c_div u v else c_mod u v)"
      using False that by (auto simp: binary_value_def)
    ultimately show ?thesis by (auto simp: computes_def number_def)
  qed
  have div0: "computes op u v t (exp2_combine op stp u v t)" if "op = DIV \<or> op = MOD" "v = 0"
  proof -
    have e: "binary_value op u v = Inl (Some ''division by 0'')" using that by (auto simp: binary_value_def)
    have skip: "noeval t \<noteq> 0 \<Longrightarrow> exp2_combine op stp u v t = number (if op = DIV then c_div u 1 else c_mod u 1) t"
      using that by (auto simp: exp2_combine_def)
    have zero: "noeval t = 0 \<Longrightarrow> exp2_combine op stp u v t = evalerror ''division by 0''
          (t\<lparr>lasttp := Some (stp + length (takeWhile whitespace (drop stp (expression t))))\<rparr>)"
      using that by (auto simp: exp2_combine_def)
    show ?thesis
    proof (cases "noeval t = 0")
      case True
      show ?thesis
        unfolding computes_def e zero [OF True] evalerror_def if_P [OF True] sum.case option.case by (rule exI, rule refl)
    next
      case False
      then show ?thesis unfolding computes_def skip [OF False] number_def by (simp only: if_False) blast
    qed
  qed
  have shift: "computes op u v t ((case shift_value op u v of None \<Rightarrow> (\<lambda>s. Undefined) | Some v \<Rightarrow> number v) t)"
    if "op = LSH \<or> op = RSH"
  proof (cases "shift_value op u v")
    case None
    then have "binary_value op u v = Inl None" using that by (auto simp: binary_value_def)
    then show ?thesis using that assms(2) None by (auto simp: computes_def)
  next
    case (Some w)
    then have "binary_value op u v = Inr w" using that by (auto simp: binary_value_def)
    then show ?thesis using that assms(2) Some by (auto simp: computes_def number_def)
  qed
  consider "op = MUL" | "op = DIV \<or> op = MOD" | "op = LSH \<or> op = RSH"
    | "op \<in> {PLUS, MINUS, LEQ, GEQ, LT, GT, EQEQ, NEQ, BAND, BXOR, BOR}"
    using assms(1) unfolding binary_ops_def insert_iff empty_iff simp_thms by argo
  then show ?thesis
  proof cases
    case 2
    then have "combine_of (op_level op) op stp u v = (exp2_combine op stp u v :: (int, 'a) ev)"
      by (auto simp: combine_of_def op_level_def)
    then show ?thesis using div [OF 2] div0 [OF 2] by (cases "v = 0") simp_all
  next
    case 3
    then have "op_level op = 10" by (auto simp: op_level_def)
    then show ?thesis using shift [OF 3] by (simp add: combine_of_def)
  next
    case 4
    then show ?thesis
      by (elim insertE emptyE)
        (simp_all add: combine_of_def op_level_def computes_def binary_value_def number_def, blast+)
  qed (use mul in \<open>simp add: combine_of_def op_level_def\<close>)
qed

lemma yields_binary:
  assumes "yields ne a \<sigma> (Inr u, \<sigma>1)" and "yields ne b \<sigma>1 (Inr v, \<sigma>2)"
  shows "(if ne = 0 then r = binary_value op u v else \<exists>w. r = Inr w) \<Longrightarrow> yields ne (Binary op a b) \<sigma> (r, \<sigma>2)"
  using assms by (auto simp: yields_def answer_then_def split: if_splits)

lemma yields_binary_fails:
  "yields ne a \<sigma> (Inl e, \<sigma>1) \<Longrightarrow> yields ne (Binary op a b) \<sigma> (Inl e, \<sigma>1)"
  "yields ne a \<sigma> (Inr u, \<sigma>1) \<Longrightarrow> yields ne b \<sigma>1 (Inl e, \<sigma>2) \<Longrightarrow> yields ne (Binary op a b) \<sigma> (Inl e, \<sigma>2)"
  by (auto simp: yields_def answer_then_def split: if_splits)

definition decided :: "token \<Rightarrow> int \<Rightarrow> bool" where
  "decided op u \<longleftrightarrow> (u = 0) = (op = LAND)"

definition logical_value :: "token \<Rightarrow> int \<Rightarrow> int \<Rightarrow> int" where
  "logical_value op u v = truth (if op = LAND then u \<noteq> 0 \<and> v \<noteq> 0 else u \<noteq> 0 \<or> v \<noteq> 0)"

text \<open>What an assignment stores, and the value of its right side.\<close>

definition stores :: "(string option + int) \<Rightarrow> 'v expr_state \<Rightarrow> (int, 'v) outcome \<Rightarrow> bool" where
  "stores r t out \<longleftrightarrow>
     (if noeval t = 0 then
        (case r of Inr w \<Rightarrow> out = Done w t | Inl (Some msg) \<Rightarrow> out = Longjmp (Some msg) t | Inl None \<Rightarrow> out = Undefined)
      else \<exists>w. out = Done w t)"

definition assign_of :: "lexeme \<Rightarrow> int \<Rightarrow> int \<Rightarrow> (int, 'v) ev" where
  "assign_of al u v = (case al of LAssign op \<Rightarrow> assign_op op u v | _ \<Rightarrow> Done v)"

lemma stores_assign:
  assumes "op \<in> assign_ops" and "noeval t = 0 \<or> op \<notin> {LSH, RSH}"
  shows "stores (binary_value op u v) t (assign_op op u v t)"
proof -
  have arith: "stores (binary_value op u v) t (assign_op op u v t)" if "op \<in> {MUL, PLUS, MINUS, BAND, BXOR, BOR}"
    using that by (elim insertE emptyE) (simp_all add: stores_def assign_op_def binary_value_def)
  have div: "stores (binary_value op u v) t (assign_op op u v t)" if "op = DIV \<or> op = MOD"
    using that
    by (elim disjE; cases "v = 0"; cases "u = INTMAX_MIN \<and> v = - 1"; cases "noeval t = 0")
      (auto simp: stores_def assign_op_def binary_value_def evalerror_def)
  have shift: "stores (binary_value op u v) t (assign_op op u v t)" if "op = LSH \<or> op = RSH"
    using that assms(2) by (elim disjE; cases "shift_value op u v") (simp_all add: stores_def assign_op_def binary_value_def)
  consider "op \<in> {MUL, PLUS, MINUS, BAND, BXOR, BOR}" | "op = DIV \<or> op = MOD" | "op = LSH \<or> op = RSH"
    using assms(1) unfolding assign_ops_def insert_iff empty_iff simp_thms by argo
  then show ?thesis by cases (rule arith div shift; assumption)+
qed

context scalar_shell begin

lemma readable_Num: "readable env good ops k (Num n)"
  unfolding readable_def
proof (intro allI impI)
  fix p s rest
  assume p: "p \<le> 14" "rest_ok p rest" and s: "ready good s" "at_token env (lexemes (Num n) p @ rest) s"
  then have at: "at_token env (LNum n # rest) s" by simp
  obtain t where t: "scalar_reader k ops s = Done () t" "at_token env rest t" "ready good t" "same_frame s t" "vars t = vars s"
    using advance [OF at s(1) at_token_hd [OF at] refl refl, of k] by blast
  have c: "curtok s = NUM_TOK" "tokval s = int n" using at by (simp_all add: at_token_def data_ok_def)
  have "completes env good ops k 14 1 (Inr (int n), env (vars s)) rest s"
  proof (rule completes_done)
    show "reached env good rest s (env (vars s)) t" using reached_I [OF t(2-4)] t(5) by simp
    show "lvl 14 ops (scalar_reader k ops) n' m s = Done (int n) t" for n' m
      using c t(1) by (simp add: lvl14_primary unary_ops_def lvl15_number)
  qed
  then have "parsed env good ops k p 1 (Inr (int n), env (vars s)) rest s"
    using p by (intro parsed_lower [where q = 14]) (auto simp: left_level_def)
  then show "\<exists>w. yields (noeval s) (Num n) (env (vars s)) w \<and> parsed env good ops k p (length (lexemes (Num n) p)) w rest s"
    by (intro exI [of _ "(Inr (int n), env (vars s))"]) (auto simp: yields_def)
qed

text \<open>A name in any position; what follows decides whether its value has been read.\<close>

lemma primary_name:
  assumes "at_token env (LName x # rest) s" and "ready good s" and "first_token rest \<notin> {STR_TOK, POSTINC, POSTDEC}"
  shows "\<exists>t. (\<forall>n m. lvl 15 ops (scalar_reader k ops) n m s = Done (tokval s) t) \<and> at_token env rest t \<and> ready good t \<and>
    same_frame s t \<and> vars t = vars s \<and> lasttok t = STR_TOK \<and> tokstr t = tokstr s"
proof -
  let ?rd = "scalar_reader k ops" and ?s1 = "s\<lparr>tokstr := None, noeval := 1\<rparr>"
  have c: "curtok s = STR_TOK" using assms(1) by (simp add: at_token_def)
  obtain t where t: "?rd ?s1 = Done () t" "at_token env rest t" "ready good t" "same_frame ?s1 t" "vars t = vars s"
    using advance [OF assms(1), of ?s1 k] assms(2) c by (auto simp: ready_def)
  have post: "curtok t \<noteq> POSTINC" "curtok t \<noteq> POSTDEC" using t(2) assms(3) by (auto simp: at_token_def)
  define s2 where "s2 = RESTORETOK (SAVETOK s) t"
  have s2: "curtok s2 = STR_TOK" "tp s2 = tp s" "expression s2 = expression s" "ready good s2" "vars s2 = vars s"
    "same_frame s s2" "tokstr s2 = tokstr s"
    using t assms(2) c by (simp_all add: s2_def RESTORETOK_def SAVETOK_def ready_def same_frame_def)
  obtain u where u: "?rd s2 = Done () u" "at_token env rest u" "ready good u" "same_frame s2 u" "vars u = vars s2"
      "lasttok u = STR_TOK" "tokstr u = tokstr s2"
    using advance [OF assms(1) s2(4), of k] s2(1-3) assms(3) by auto
  have "lvl 15 ops ?rd n m s = Done (tokval s) u" for n m
    using c t(1) post u(1) by (simp add: right_unfold exp0_def Let_def s2_def)
  then show ?thesis
    using u s2 same_frame_trans [OF s2(6) u(4)] by (intro exI [of _ u]) simp
qed

lemma readable_Var: "readable env good ops k (Var x)"
  unfolding readable_def
proof (intro allI impI)
  fix p s rest
  assume p: "p \<le> 14" "rest_ok p rest" and s: "ready good s" "at_token env (lexemes (Var x) p @ rest) s"
  then have at: "at_token env (LName x # rest) s" by simp
  have post: "first_token rest \<notin> {STR_TOK, POSTINC, POSTDEC}" "first_token rest \<noteq> EQ"
    using p(2) by (auto simp: rest_ok_def)
  obtain t where t: "\<And>n m. lvl 15 ops (scalar_reader k ops) n m s = Done (tokval s) t" "at_token env rest t" "ready good t"
      "same_frame s t" "vars t = vars s"
    using primary_name [OF at s(1) post(1), of k] by blast
  have c: "curtok s = STR_TOK" "noeval s = 0 \<longrightarrow> tokval s = env (vars s) x"
    using at post(2) by (simp_all add: at_token_def data_ok_def)
  have "completes env good ops k 14 1 (Inr (tokval s), env (vars s)) rest s"
  proof (rule completes_done)
    show "reached env good rest s (env (vars s)) t" using reached_I [OF t(2-4)] t(5) by simp
    show "lvl 14 ops (scalar_reader k ops) n m s = Done (tokval s) t" for n m
      using c t(1) by (simp add: lvl14_primary unary_ops_def)
  qed
  then have "parsed env good ops k p 1 (Inr (tokval s), env (vars s)) rest s"
    using p by (intro parsed_lower [where q = 14]) (auto simp: left_level_def)
  then show "\<exists>w. yields (noeval s) (Var x) (env (vars s)) w \<and> parsed env good ops k p (length (lexemes (Var x) p)) w rest s"
    using c(2) by (intro exI [of _ "(Inr (tokval s), env (vars s))"]) (auto simp: yields_def)
qed

text \<open>Increments store the new value unless nothing is evaluated.\<close>

lemma incr_store:
  assumes "ready good s" and "tokstr s = Some (a, x)" and "intmax_ok v"
  shows "\<exists>w. exp0_incr ops v s = Done () (s\<lparr>vars := w\<rparr>) \<and> good w \<and>
    env w = (if noeval s = 0 then (env (vars s))(x := v) else env (vars s))"
proof (cases "noeval s = 0")
  case True
  obtain w where "bind_int_variable ops (vars s) x (itos v) = (False, w)" "good w" "env w = (env (vars s))(x := v)"
    using bound [of "vars s" v x] assms by (auto simp: ready_def)
  then show ?thesis
    using True assms by (auto simp: exp0_incr_def expr_bind_def expr_bind_variable_def ready_def)
next
  case False
  then show ?thesis using assms(1) by (intro exI [of _ "vars s"]) (simp add: exp0_incr_def ready_def)
qed

lemma joined_any:
  "joined p ls \<Longrightarrow> first_token ls \<notin> {POSTINC, POSTDEC, PREINC, PREDEC} \<Longrightarrow> joined q ls"
proof (cases ls)
  case (Cons l ls')
  then show "joined p ls \<Longrightarrow> first_token ls \<notin> {POSTINC, POSTDEC, PREINC, PREDEC} \<Longrightarrow> joined q ls"
    by (cases l) auto
qed simp

text \<open>The end of an increment: it is stored, the current token set to a number, the next one read.\<close>

lemma incr_done:
  assumes "ready good s" and "before rest s" and "joined p rest"
    and "first_token rest \<notin> {STR_TOK, POSTINC, POSTDEC, PREINC, PREDEC}"
    and "tokstr s = Some (a, x)" and "intmax_ok v"
  shows "\<exists>u. andthen (exp0_incr ops v) (\<lambda>_ s2. andthen (scalar_reader k ops) (\<lambda>_. Done r) (s2\<lparr>curtok := NUM_TOK\<rparr>)) s = Done r u \<and>
    at_token env rest u \<and> ready good u \<and> same_frame s u \<and>
    env (vars u) = (if noeval s = 0 then (env (vars s))(x := v) else env (vars s))"
proof -
  obtain w where w: "exp0_incr ops v s = Done () (s\<lparr>vars := w\<rparr>)" "good w"
      "env w = (if noeval s = 0 then (env (vars s))(x := v) else env (vars s))"
    using incr_store [OF assms(1,5,6)] by blast
  let ?s = "s\<lparr>vars := w, curtok := NUM_TOK\<rparr>"
  have "ready good ?s" using assms(1) w(2) by (simp add: ready_def)
  moreover have "before rest ?s" using assms(2) by (simp add: before_def)
  moreover have "joined (curtok ?s) rest" using joined_any [OF assms(3)] assms(4) by simp
  ultimately obtain u where "scalar_reader k ops ?s = Done () u" "at_token env rest u" "ready good u" "same_frame ?s u"
      "vars u = vars ?s"
    using read_next [of ?s rest k] by (auto simp: scalar_reader_def)
  then show ?thesis using w by (intro exI [of _ u]) (simp add: same_frame_def)
qed

lemma readable_Incr:
  assumes "wf_aexp (Incr op x)"
  shows "readable env good ops k (Incr op x)"
  unfolding readable_def
proof (intro allI impI)
  fix p s rest
  let ?ls = "lexemes (Incr op x) p"
  assume p: "p \<le> 14" "rest_ok p rest" and s: "ready good s" "at_token env (?ls @ rest) s"
  have rest: "first_token rest \<notin> {STR_TOK, POSTINC, POSTDEC, PREINC, PREDEC}" "first_token rest \<noteq> EQ"
    using p(2) by (auto simp: rest_ok_def)
  define d :: int where "d = (if op = PREINC \<or> op = POSTINC then 1 else - 1)"
  let ?v = "\<lambda>i. wrap64 (i + d)"
  have "\<exists>i u. (noeval s = 0 \<longrightarrow> i = env (vars s) x) \<and>
    (\<forall>n m. lvl 15 ops (scalar_reader k ops) n m s = Done (if op = PREINC \<or> op = PREDEC then ?v i else i) u) \<and>
    at_token env rest u \<and> ready good u \<and> same_frame s u \<and>
    env (vars u) = (if noeval s = 0 then (env (vars s))(x := ?v i) else env (vars s))"
  proof (cases "op = PREINC \<or> op = PREDEC")
    case True
    then have at: "at_token env (LOp op # LName x # rest) s" using s(2) by simp
    then have c: "curtok s = op" by (simp add: at_token_def)
    obtain t where t: "scalar_reader k ops (s\<lparr>lasttok := op\<rparr>) = Done () t" "at_token env (LName x # rest) t" "ready good t"
        "same_frame s t" "vars t = vars s"
      using advance [OF at, of "s\<lparr>lasttok := op\<rparr>" k] s(1) c by (auto simp: ready_def same_frame_def)
    then obtain a q where tok: "curtok t = STR_TOK" "tokstr t = Some (a, x)" "noeval t = 0 \<longrightarrow> tokval t = env (vars t) x"
        "joined q rest" "before rest t"
      using rest(2) by (auto simp: at_token_def data_ok_def)
    have "noeval t = noeval s" using t(4) by (simp add: same_frame_def)
    moreover obtain u where u: "andthen (exp0_incr ops (?v (tokval t)))
        (\<lambda>_ s2. andthen (scalar_reader k ops) (\<lambda>_. Done (?v (tokval t))) (s2\<lparr>curtok := NUM_TOK\<rparr>)) t = Done (?v (tokval t)) u"
        "at_token env rest u" "ready good u" "same_frame t u"
        "env (vars u) = (if noeval t = 0 then (env (vars t))(x := ?v (tokval t)) else env (vars t))"
      using incr_done [where k = k and r = "?v (tokval t)", OF t(3) tok(5,4) rest(1) tok(2) wrap64_ok [of "tokval t + d"]]
      by blast
    moreover have "lvl 15 ops (scalar_reader k ops) n m s = Done (?v (tokval t)) u" for n m
    proof -
      have d: "(if op = PREINC then 1 else - 1) = d" using True by (auto simp: d_def)
      show ?thesis using t(1) u(1) by (simp add: right_unfold exp0_def Let_def c True tok(1) d)
    qed
    ultimately show ?thesis
      using True tok(3) t(5) same_frame_trans [OF t(4) u(4)] by (intro exI [of _ "tokval t"] exI [of _ u]) auto
  next
    case False
    then have op: "op = POSTINC \<or> op = POSTDEC" using assms by auto
    then have at: "at_token env (LName x # LOp op # rest) s" using s(2) by auto
    then obtain a where c: "curtok s = STR_TOK" "tokstr s = Some (a, x)" "noeval s = 0 \<longrightarrow> tokval s = env (vars s) x"
      using op by (auto simp: at_token_def data_ok_def)
    let ?s1 = "s\<lparr>tokstr := None, noeval := 1\<rparr>"
    obtain t where t: "scalar_reader k ops ?s1 = Done () t" "at_token env (LOp op # rest) t" "ready good t"
        "same_frame ?s1 t" "vars t = vars s"
      using advance [OF at, of ?s1 k] s(1) c by (auto simp: ready_def)
    let ?s2 = "t\<lparr>tokstr := tokstr s, noeval := noeval s, curlval := curlval s, lasttok := STR_TOK\<rparr>"
    have s2: "ready good ?s2" "before rest ?s2" "joined op rest" "tokstr ?s2 = Some (a, x)"
      using t(2,3) s(1) c(2) joined_tl [of _ "LOp op" rest] by (auto simp: ready_def at_token_def before_def)
    obtain u where u: "andthen (exp0_incr ops (?v (tokval s)))
        (\<lambda>_ s2. andthen (scalar_reader k ops) (\<lambda>_. Done (tokval s)) (s2\<lparr>curtok := NUM_TOK\<rparr>)) ?s2 = Done (tokval s) u"
        "at_token env rest u" "ready good u" "same_frame ?s2 u"
        "env (vars u) = (if noeval ?s2 = 0 then (env (vars ?s2))(x := ?v (tokval s)) else env (vars ?s2))"
      using incr_done [where k = k and r = "tokval s", OF s2(1-3) rest(1) s2(4) wrap64_ok [of "tokval s + d"]] by blast
    moreover have "lvl 15 ops (scalar_reader k ops) n m s = Done (tokval s) u" for n m
    proof -
      have d: "(if op = POSTINC then 1 else - 1) = d" using op by (auto simp: d_def)
      have "curtok t = op" using t(2) by (simp add: at_token_def)
      then show ?thesis using t(1) u(1) by (simp add: right_unfold exp0_def Let_def c(1) op d SAVETOK_def)
    qed
    moreover have "same_frame s u" using t(4) u(4) by (simp add: same_frame_def)
    ultimately show ?thesis
      using False c(3) t(5) by (intro exI [of _ "tokval s"] exI [of _ u]) auto
  qed
  then obtain i u where u: "noeval s = 0 \<longrightarrow> i = env (vars s) x"
    "\<And>n m. lvl 15 ops (scalar_reader k ops) n m s = Done (if op = PREINC \<or> op = PREDEC then ?v i else i) u"
    "at_token env rest u" "ready good u" "same_frame s u"
    "env (vars u) = (if noeval s = 0 then (env (vars s))(x := ?v i) else env (vars s))"
    by (elim exE conjE) (rule that, assumption, (erule allE)+, assumption+)
  let ?w = "(Inr (if op = PREINC \<or> op = PREDEC then ?v i else i), env (vars u)) :: answer"
  have "curtok s \<notin> unary_ops" using s(2) by (auto simp: at_token_def unary_ops_def split: if_splits)
  then have "completes env good ops k 14 2 ?w rest s"
    by (intro completes_done [OF reached_I [OF u(3-5)]]) (simp add: lvl14_primary u(2))
  then have "parsed env good ops k p 2 ?w rest s"
    using p by (intro parsed_lower [where q = 14]) (auto simp: left_level_def)
  moreover have "yields (noeval s) (Incr op x) (env (vars s)) ?w"
    using u(1,6) by (simp add: yields_def Let_def d_def)
  moreover have "length ?ls = 2" by simp
  ultimately show "\<exists>w. yields (noeval s) (Incr op x) (env (vars s)) w \<and> parsed env good ops k p (length ?ls) w rest s"
    by metis
qed

text \<open>An expression of level \<open>q\<close> where a higher one is expected is in parentheses.\<close>

lemma high_lvl: "1 \<le> m \<Longrightarrow> high_of m ops rd = lvl 0 ops rd m (m - 1)"
  using expcomma_lvl [of "m - 1" ops rd] by (simp add: high_of_def add.commute)

lemma completes_paren:
  assumes "ready good s" and at: "at_token env (LOp LPAR # ls @ LOp RPAR # rest) s"
    and body: "\<And>t. ready good t \<Longrightarrow> at_token env (ls @ LOp RPAR # rest) t \<Longrightarrow> same_frame s t \<Longrightarrow> vars t = vars s \<Longrightarrow>
      \<exists>w. yields (noeval t) e (env (vars t)) w \<and> completes env good ops k 0 l w (LOp RPAR # rest) t"
  shows "\<exists>w. yields (noeval s) e (env (vars s)) w \<and> completes env good ops k 14 (l + 2) w rest s"
proof -
  let ?rd = "scalar_reader k ops"
  have c: "curtok s = LPAR" using at_token_hd [OF at] by simp
  obtain t where t: "?rd s = Done () t" "at_token env (ls @ LOp RPAR # rest) t" "ready good t" "same_frame s t" "vars t = vars s"
    using advance [OF at assms(1) at_token_hd [OF at] refl refl, of k] by blast
  obtain w where w: "yields (noeval s) e (env (vars s)) w" "completes env good ops k 0 l w (LOp RPAR # rest) t"
    using body [OF t(3,2,4,5)] t(4,5) by (auto simp: same_frame_def)
  have run: "lvl 14 ops ?rd n m s = andthen (lvl 0 ops ?rd m (m - 1)) (\<lambda>val s1.
      if curtok s1 \<noteq> RPAR then evalerror ''missing `)'' s1 else andthen ?rd (\<lambda>_. Done val) s1) t"
    if "l + 2 \<le> m + 1" for n m
    using that c t(1) by (simp add: lvl14_primary unary_ops_def right_unfold exp0_def high_lvl)
  have fuel: "l \<le> m" "l \<le> m - 1 + 1" if "l + 2 \<le> m + 1" for m using that by auto
  show ?thesis
    using w(2)
  proof (cases rule: completes_cases)
    case (failed e' \<sigma> r)
    have "lvl 14 ops ?rd n m s = r" if "l + 2 \<le> m + 1" for n m
      unfolding run [OF that] using failed(2)
      by (subst andthen_fails) (simp_all only: failed(3) [OF fuel [OF that]])
    then have "completes env good ops k 14 (l + 2) w rest s"
      unfolding completes_def failed(1) by (intro failed(4))
    then show ?thesis using w(1) by (intro exI [of _ w]) simp
  next
    case (returned v \<sigma> u)
    have at_u: "at_token env (LOp RPAR # rest) u" "ready good u" "same_frame t u" "env (vars u) = \<sigma>"
      using returned(2) by (simp_all add: reached_def)
    obtain u2 where u2: "?rd u = Done () u2" "at_token env rest u2" "ready good u2" "same_frame u u2" "vars u2 = vars u"
      using advance [OF at_u(1,2) at_token_hd [OF at_u(1)] refl refl, of k] by blast
    have "lvl 14 ops ?rd n m s = Done v u2" if "l + 2 \<le> m + 1" for n m
      using run [OF that, of n] returned(3) [OF fuel [OF that]] at_token_hd [OF at_u(1)] u2(1) by simp
    moreover have "reached env good rest s \<sigma> u2"
      using u2 at_u(4) same_frame_trans [OF same_frame_trans [OF t(4) at_u(3)] u2(4)] by (simp add: reached_def)
    ultimately have "completes env good ops k 14 (l + 2) (Inr v, \<sigma>) rest s"
      by (intro completes_done)
    then show ?thesis using w(1) returned(1) by (intro exI [of _ w]) simp
  qed
qed

lemma readable_body:
  assumes q: "q \<le> 14" and lex: "\<And>p. lexemes e p = paren (q < p) ls"
    and body: "\<And>s rest. rest_ok q rest \<Longrightarrow> ready good s \<Longrightarrow> at_token env (ls @ rest) s \<Longrightarrow> noeval s = 0 \<or> quiet e \<Longrightarrow>
      \<exists>w. yields (noeval s) e (env (vars s)) w \<and> parsed env good ops k q (length ls) w rest s"
  shows "readable env good ops k e"
  unfolding readable_def
proof (intro allI impI)
  fix p s rest
  assume p: "p \<le> 14" "rest_ok p rest" and s: "ready good s" "at_token env (lexemes e p @ rest) s" "noeval s = 0 \<or> quiet e"
  show "\<exists>w. yields (noeval s) e (env (vars s)) w \<and> parsed env good ops k p (length (lexemes e p)) w rest s"
  proof (cases "q < p")
    case False
    then have "rest_ok q rest" using p(2) q by (auto simp: rest_ok_def Let_def)
    then obtain w where w: "yields (noeval s) e (env (vars s)) w" "parsed env good ops k q (length ls) w rest s"
      using body [of rest s] s False by (auto simp: lex paren_def)
    have "parsed env good ops k p (length ls) w rest s"
    proof (cases "p = q")
      case False
      then have "p < q" using \<open>\<not> q < p\<close> by simp
      then have "completes env good ops k q (length ls) w rest s"
        using w(2) p(2) q by (intro parsed_completes) (auto simp: rest_ok_def Let_def)
      then show ?thesis by (rule parsed_lower) (use \<open>p < q\<close> p(2) q in simp_all)
    qed (use w(2) in simp)
    then show ?thesis using w(1) False by (intro exI [of _ w]) (simp add: lex paren_def)
  next
    case True
    then have at: "at_token env (LOp LPAR # ls @ LOp RPAR # rest) s" using s(2) by (simp add: lex paren_def)
    have rp: "rest_ok q (LOp RPAR # rest)" "op_level RPAR = 16" by (simp_all add: rest_ok_def op_level_def)
    have "\<exists>w. yields (noeval t) e (env (vars t)) w \<and> completes env good ops k 0 (length ls) w (LOp RPAR # rest) t"
      if t: "ready good t" "at_token env (ls @ LOp RPAR # rest) t" "same_frame s t" for t
    proof -
      have "noeval t = 0 \<or> quiet e" using s(3) t(3) by (simp add: same_frame_def)
      then obtain w where "yields (noeval t) e (env (vars t)) w" "parsed env good ops k q (length ls) w (LOp RPAR # rest) t"
        using body [OF rp(1) t(1,2)] by blast
      moreover from this(2) have "completes env good ops k q (length ls) w (LOp RPAR # rest) t"
        using q rp(2) by (intro parsed_completes) auto
      then have "completes env good ops k 0 (length ls) w (LOp RPAR # rest) t"
        by (rule completes_lift) (use q rp(2) in simp_all)
      ultimately show ?thesis by blast
    qed
    then obtain w where w: "yields (noeval s) e (env (vars s)) w" "completes env good ops k 14 (length ls + 2) w rest s"
      using completes_paren [OF s(1) at, of e k "length ls"] by blast
    have "parsed env good ops k p (length ls + 2) w rest s"
      by (rule parsed_lower [OF w(2)]) (use p in \<open>simp_all add: left_level_def\<close>)
    then show ?thesis using w(1) True by (intro exI [of _ w]) (simp add: lex paren_def)
  qed
qed

lemma readable_completes:
  assumes "readable env good ops k e" and "p \<le> 14" "rest_ok p rest" "op_level (first_token rest) \<noteq> p"
    and "ready good s" "at_token env (lexemes e p @ rest) s" "noeval s = 0 \<or> quiet e"
  shows "\<exists>w. yields (noeval s) e (env (vars s)) w \<and> completes env good ops k p (length (lexemes e p)) w rest s"
proof -
  obtain w where "yields (noeval s) e (env (vars s)) w" "parsed env good ops k p (length (lexemes e p)) w rest s"
    using assms(1-3,5-7) unfolding readable_def by blast
  then show ?thesis using parsed_completes assms(4) by (intro exI [of _ w]) simp
qed

lemma reached_lasttok [simp]: "reached env good rest s \<sigma> (t\<lparr>lasttok := x\<rparr>) = reached env good rest s \<sigma> t"
proof -
  have "data_ok env rest (t\<lparr>lasttok := x\<rparr>) = data_ok env rest t"
    by (simp add: data_ok_def split: list.split lexeme.split)
  then show ?thesis by (simp add: reached_def at_token_def ready_def same_frame_def)
qed

lemma reached_frame:
  "reached env good rest t \<sigma> u \<Longrightarrow> same_frame s t \<Longrightarrow> reached env good rest s \<sigma> u"
  by (auto simp: reached_def same_frame_def)

lemma yields_unary:
  "yields ne e \<sigma> (Inr v, \<sigma>') \<Longrightarrow> yields ne (Unary op e) \<sigma> (Inr (unary_value op v), \<sigma>')"
  "yields ne e \<sigma> (Inl msg, \<sigma>') \<Longrightarrow> yields ne (Unary op e) \<sigma> (Inl msg, \<sigma>')"
  by (auto simp: yields_def answer_then_def split: if_splits)

lemma readable_Unary:
  assumes "op \<in> unary_ops" and "readable env good ops k e"
  shows "readable env good ops k (Unary op e)"
proof (rule readable_body [where q = 14 and ls = "LOp op # lexemes e 14"])
  fix s rest
  assume rest: "rest_ok 14 rest" and s: "ready good s" "at_token env ((LOp op # lexemes e 14) @ rest) s"
    "noeval s = 0 \<or> quiet (Unary op e)"
  let ?rd = "scalar_reader k ops"
  have at: "at_token env (LOp op # lexemes e 14 @ rest) s" using s(2) by simp
  obtain t where t: "?rd s = Done () t" "at_token env (lexemes e 14 @ rest) t" "ready good t" "same_frame s t" "vars t = vars s"
    using advance [OF at s(1) at_token_hd [OF at] refl refl, of k] by blast
  have no14: "op_level (first_token rest) \<noteq> 14" for rest by (simp add: op_level_def)
  have q: "noeval t = 0 \<or> quiet e" using s(3) t(4) by (simp add: same_frame_def)
  obtain w where w: "yields (noeval s) e (env (vars s)) w" "completes env good ops k 14 (length (lexemes e 14)) w rest t"
    using readable_completes [OF assms(2) order_refl rest no14 t(3,2) q] t(4,5) by (auto simp: same_frame_def)
  have run: "lvl 14 ops ?rd n m s = andthen (lvl 14 ops ?rd (n - 1) m) (\<lambda>v. number (unary_value op v)) t"
    if "Suc (length (lexemes e 14)) \<le> n" for n m
    using lvl14_unary [of s ops ?rd "n - 1" m] assms(1) at_token_hd [OF at] t(1) that by simp
  have "\<exists>w. yields (noeval s) (Unary op e) (env (vars s)) w \<and> completes env good ops k 14 (Suc (length (lexemes e 14))) w rest s"
    using w(2)
  proof (cases rule: completes_cases)
    case (failed msg \<sigma> r)
    have "lvl 14 ops ?rd n m s = r" if "Suc (length (lexemes e 14)) \<le> n" "Suc (length (lexemes e 14)) \<le> m + 1" for n m
      unfolding run [OF that(1)] using failed(2) that by (subst andthen_fails) (simp_all add: failed(3))
    then have "completes env good ops k 14 (Suc (length (lexemes e 14))) w rest s"
      unfolding completes_def failed(1) by (intro failed(4))
    then show ?thesis using w(1) yields_unary(2) failed(1) by (intro exI [of _ w]) simp
  next
    case (returned v \<sigma> u)
    have "lvl 14 ops ?rd n m s = Done (unary_value op v) (u\<lparr>lasttok := NUM_TOK\<rparr>)"
      if "Suc (length (lexemes e 14)) \<le> n" "Suc (length (lexemes e 14)) \<le> m + 1" for n m
      unfolding run [OF that(1)] using that by (simp add: returned(3) number_def)
    moreover have "reached env good rest s \<sigma> (u\<lparr>lasttok := NUM_TOK\<rparr>)"
      using reached_frame [OF returned(2) t(4)] by simp
    ultimately have "completes env good ops k 14 (Suc (length (lexemes e 14))) (Inr (unary_value op v), \<sigma>) rest s"
      by (intro completes_done)
    then show ?thesis using w(1) yields_unary(1) returned(1) by (intro exI [of _ "(Inr (unary_value op v), \<sigma>)"]) simp
  qed
  then show "\<exists>w. yields (noeval s) (Unary op e) (env (vars s)) w \<and>
      parsed env good ops k 14 (length (LOp op # lexemes e 14)) w rest s"
    by (simp add: parsed_def left_level_def)
qed simp_all

lemma readable_loops:
  assumes "readable env good ops k e" and "left_level p" "rest_ok p rest"
    and "ready good s" "at_token env (lexemes e p @ rest) s" "noeval s = 0 \<or> quiet e"
  shows "\<exists>w. yields (noeval s) e (env (vars s)) w \<and> loops env good ops k p (length (lexemes e p)) w rest s"
proof -
  have "p \<le> 14" using assms(2) by (auto simp: left_level_def)
  then obtain w where "yields (noeval s) e (env (vars s)) w" "parsed env good ops k p (length (lexemes e p)) w rest s"
    using assms unfolding readable_def by blast
  then show ?thesis using assms(2) by (intro exI [of _ w]) (simp add: parsed_def)
qed

lemma reached_noeval: "reached env good rest s \<sigma> t \<Longrightarrow> noeval t = noeval s"
  by (simp add: reached_def same_frame_def)

lemma reached_at:
  "reached env good rest s \<sigma> t \<Longrightarrow> at_token env rest t \<and> ready good t \<and> same_frame s t \<and> env (vars t) = \<sigma>"
  by (simp add: reached_def)

lemma binary_ops_level:
  assumes "op \<in> binary_ops"
  shows "5 \<le> op_level op" "op_level op \<le> 12" "left_level (op_level op)" "op \<notin> {STR_TOK, POSTINC, POSTDEC, PREINC, PREDEC, EQ, OP_ASSIGN}"
  using assms by (auto simp: binary_ops_def op_level_def left_level_def)

text \<open>One round of the loop of a level.\<close>

lemma loop_round:
  assumes "5 \<le> p" "p \<le> 12" and "op_level (curtok t) = p" and "rd t = Done () t1"
  shows "lvl_loop p ops rd n m (Suc q) u t =
    andthen (lvl (p + 1) ops rd n m) (\<lambda>v. andthen (combine_of p (curtok t) (tp t) u v) (lvl_loop p ops rd n m q)) t1"
  using assms by (simp add: lvl_loop_def)

lemma readable_Binary:
  assumes op: "op \<in> binary_ops" and a: "readable env good ops k a" and b: "readable env good ops k b"
  shows "readable env good ops k (Binary op a b)"
proof -
  let ?p = "op_level op"
  let ?la = "lexemes a ?p" and ?lb = "lexemes b (?p + 1)"
  note lv = binary_ops_level [OF op]
  show ?thesis
  proof (rule readable_body [where q = ?p and ls = "?la @ LOp op # ?lb"])
    show "?p \<le> 14" using lv by simp
    show "lexemes (Binary op a b) p = paren (?p < p) (?la @ LOp op # ?lb)" for p
      using op by (auto simp: binary_ops_def)
    fix s rest
    assume rest: "rest_ok ?p rest" and s: "ready good s" "at_token env ((?la @ LOp op # ?lb) @ rest) s"
      "noeval s = 0 \<or> quiet (Binary op a b)"
    let ?rd = "scalar_reader k ops" and ?l = "length (?la @ LOp op # ?lb)"
    let ?f = "\<lambda>n m. lvl ?p ops ?rd n m s" and ?g = "\<lambda>n m d. lvl_loop ?p ops ?rd n m (loop_fuel ?p n - d)"
    have at: "at_token env (?la @ LOp op # ?lb @ rest) s" using s(2) by simp
    have qa: "noeval s = 0 \<or> quiet a" using s(3) by auto
    have "rest_ok ?p (LOp op # ?lb @ rest)" using lv by (auto simp: rest_ok_def Let_def)
    then obtain wa where wa: "yields (noeval s) a (env (vars s)) wa"
        "loops env good ops k ?p (length ?la) wa (LOp op # ?lb @ rest) s"
      using readable_loops [OF a lv(3) _ s(1) at qa] by blast
    have "\<exists>w. yields (noeval s) (Binary op a b) (env (vars s)) w \<and> loops env good ops k ?p ?l w rest s"
      using wa(2) unfolding loops_def [of _ _ _ _ _ "length ?la"]
    proof (cases rule: ends_with_cases)
      case (failed e \<sigma> r)
      have "loops env good ops k ?p ?l wa rest s"
        unfolding loops_def failed(1) by (rule failed(4)) (simp add: failed(3))
      then show ?thesis using wa(1) yields_binary_fails(1) failed(1) by (intro exI [of _ wa]) simp
    next
      case (returned u \<sigma> t d)
      note t = reached_at [OF returned(2), THEN conjunct1] reached_at [OF returned(2), THEN conjunct2, THEN conjunct1]
      have tf: "same_frame s t" "env (vars t) = \<sigma>" using reached_at [OF returned(2)] by simp_all
      have c: "curtok t = op" using at_token_hd [OF t(1)] by simp
      obtain t1 where t1: "?rd t = Done () t1" "at_token env (?lb @ rest) t1" "ready good t1" "same_frame t t1" "vars t1 = vars t"
        using advance [OF t at_token_hd [OF t(1)] refl refl, of k] by blast
      have f1: "same_frame s t1" by (rule same_frame_trans [OF tf(1) t1(4)])
      have n1: "noeval t1 = noeval s" using f1 by (simp add: same_frame_def)
      have rb: "rest_ok (?p + 1) rest" "op_level (first_token rest) \<noteq> ?p + 1"
        using rest lv by (auto simp: rest_ok_def Let_def)
      have qb: "noeval t1 = 0 \<or> quiet b" using s(3) n1 by auto
      have p1: "?p + 1 \<le> 14" using lv by simp
      obtain wb where wb: "yields (noeval s) b \<sigma> wb" "completes env good ops k (?p + 1) (length ?lb) wb rest t1"
        using readable_completes [OF b p1 rb t1(3,2) qb] n1 t1(5) tf(2) by auto
      have fuel: "Suc (loop_fuel ?p n - (d + 1)) = loop_fuel ?p n - d" if "?l \<le> n" for n
        using that returned(3) lv by (simp add: loop_fuel_def)
      have run: "lvl ?p ops ?rd n m s = andthen (lvl (?p + 1) ops ?rd n m)
          (\<lambda>v. andthen (combine_of ?p op (tp t) u v) (lvl_loop ?p ops ?rd n m (loop_fuel ?p n - (d + 1)))) t1"
        if "?l \<le> n" "?l \<le> m + 1" for n m
      proof -
        have "op_level (curtok t) = ?p" using c by simp
        from loop_round [where rd = ?rd and n = n and m = m and q = "loop_fuel ?p n - (d + 1)" and u = u, OF lv(1,2) this t1(1)]
        show ?thesis using returned(4) [of n m] that fuel [OF that(1)] c by simp
      qed
      show ?thesis
        unfolding loops_def
      proof (rule completes_then [OF wb(2) run])
        show "yields (noeval s) (Binary op a b) (env (vars s)) (Inl e, \<sigma>2)" if "wb = (Inl e, \<sigma>2)" for e \<sigma>2
          using wa(1) wb(1) yields_binary_fails(2) that returned(1) by simp
        fix v \<sigma>2 t2
        assume w: "wb = (Inr v, \<sigma>2)" and r1: "reached env good rest t1 \<sigma>2 t2"
          and run2: "\<And>n m. ?l \<le> n \<Longrightarrow> ?l \<le> m + 1 \<Longrightarrow> lvl ?p ops ?rd n m s = andthen (combine_of ?p op (tp t) u v)
            (lvl_loop ?p ops ?rd n m (loop_fuel ?p n - (d + 1))) t2"
        have r2: "reached env good rest s \<sigma>2 t2" by (rule reached_frame [OF r1 f1])
        have n2: "noeval t2 = noeval s" by (rule reached_noeval [OF r2])
        have comp: "computes op u v t2 (combine_of ?p op (tp t) u v t2)"
          using combine_value [OF op, of t2 u v "tp t"] s(3) n2 by auto
        have y: "yields (noeval s) a (env (vars s)) (Inr u, \<sigma>)" "yields (noeval s) b \<sigma> (Inr v, \<sigma>2)"
          using wa(1) wb(1) w returned(1) by simp_all
        have result: "\<exists>w. yields (noeval s) (Binary op a b) (env (vars s)) w \<and> ends_with env good ?l w rest s ?f ?g"
          if w: "combine_of ?p op (tp t) u v t2 = Done w (t2\<lparr>lasttok := x\<rparr>)" "noeval s = 0 \<Longrightarrow> binary_value op u v = Inr w" for w x
        proof -
          have "ends_with env good ?l (Inr w, \<sigma>2) rest s ?f ?g"
          proof (rule ends_with_done)
            show "reached env good rest s \<sigma>2 (t2\<lparr>lasttok := x\<rparr>)" using r2 by simp
            show "d + 1 \<le> ?l" using returned(3) by simp
          qed (simp add: run2 w(1))
          moreover have "yields (noeval s) (Binary op a b) (env (vars s)) (Inr w, \<sigma>2)"
            using w(2) by (intro yields_binary [OF y]) auto
          ultimately show ?thesis by blast
        qed
        show "\<exists>w. yields (noeval s) (Binary op a b) (env (vars s)) w \<and> ends_with env good ?l w rest s ?f ?g"
        proof (cases "noeval t2 = 0")
          case False
          then obtain w x where "combine_of ?p op (tp t) u v t2 = Done w (t2\<lparr>lasttok := x\<rparr>)"
            using comp by (auto simp: computes_def)
          then show ?thesis by (rule result) (use False n2 in simp)
        next
          case True
          show ?thesis
          proof (cases "binary_value op u v")
            case (Inr w)
            then obtain x where "combine_of ?p op (tp t) u v t2 = Done w (t2\<lparr>lasttok := x\<rparr>)"
              using comp True by (auto simp: computes_def)
            then show ?thesis by (rule result) (rule Inr)
          next
            case (Inl e)
            define r where "r = combine_of ?p op (tp t) u v t2"
            have r: "(\<exists>msg t. e = Some msg \<and> r = Longjmp (Some msg) t \<and> good (vars t) \<and> env (vars t) = \<sigma>2) \<or> e = None \<and> r = Undefined"
              using comp True Inl reached_at [OF r2] by (auto simp: computes_def r_def ready_def split: option.splits)
            have "lvl ?p ops ?rd n m s = r" if "?l \<le> n" "?l \<le> m + 1" for n m
              unfolding run2 [OF that] using r by (subst andthen_fails) (auto simp: r_def)
            then have "ends_with env good ?l (Inl e, \<sigma>2) rest s ?f ?g"
              by (rule ends_with_fail [OF r])
            moreover have "yields (noeval s) (Binary op a b) (env (vars s)) (Inl e, \<sigma>2)"
              using Inl True n2 by (intro yields_binary [OF y]) simp
            ultimately show ?thesis by blast
          qed
        qed
      qed simp_all
    qed
    then show "\<exists>w. yields (noeval s) (Binary op a b) (env (vars s)) w \<and> parsed env good ops k ?p ?l w rest s"
      using lv(3) by (simp add: parsed_def)
  qed
qed

text \<open>The two steps that the remaining cases are made of: a token, a sub-expression.\<close>

lemma reached_next:
  assumes "reached env good (l # ls) s \<sigma> t"
  obtains t1 where "scalar_reader k ops t = Done () t1" "reached env good ls s \<sigma> t1" "curtok t = token_of l"
    "lasttok t1 = token_of l" "first_token ls \<noteq> STR_TOK \<Longrightarrow> tokstr t1 = tokstr t"
proof -
  have t: "at_token env (l # ls) t" "ready good t" "same_frame s t" "env (vars t) = \<sigma>"
    using reached_at [OF assms] by simp_all
  obtain t1 where t1: "scalar_reader k ops t = Done () t1" "at_token env ls t1" "ready good t1" "same_frame t t1"
      "vars t1 = vars t" "lasttok t1 = token_of l" "first_token ls \<noteq> STR_TOK \<longrightarrow> tokstr t1 = tokstr t"
    using advance [OF t(1,2) at_token_hd [OF t(1)] refl refl, of k] by blast
  have "reached env good ls s \<sigma> t1"
    using t1 t(4) same_frame_trans [OF t(3) t1(4)] by (simp add: reached_def)
  then show ?thesis using that t1 at_token_hd [OF t(1)] by blast
qed

lemma reached_start: "at_token env ls s \<Longrightarrow> ready good s \<Longrightarrow> reached env good ls s (env (vars s)) s"
  by (simp add: reached_def same_frame_def)

lemma readable_after:
  assumes "readable env good ops k e" and "p \<le> 14" "rest_ok p rest" "op_level (first_token rest) \<noteq> p"
    and "reached env good (lexemes e p @ rest) s \<sigma> t" and "noeval s = 0 \<or> quiet e"
  obtains w where "yields (noeval s) e \<sigma> w" "completes env good ops k p (length (lexemes e p)) w rest t"
    "\<And>\<sigma>' u. reached env good rest t \<sigma>' u \<Longrightarrow> reached env good rest s \<sigma>' u"
proof -
  have t: "at_token env (lexemes e p @ rest) t" "ready good t" "same_frame s t" "env (vars t) = \<sigma>"
    using reached_at [OF assms(5)] by simp_all
  then have "noeval t = noeval s" by (simp add: same_frame_def)
  then show ?thesis
    using readable_completes [OF assms(1-4) t(2,1)] assms(6) t(4) reached_frame [OF _ t(3)] that by auto
qed

lemma lexemes_pos: "0 < length (lexemes e p)"
  by (induction e arbitrary: p) (auto simp: paren_def)

lemma readable_Power:
  assumes a: "readable env good ops k a" and b: "readable env good ops k b"
  shows "readable env good ops k (Binary POWER a b)"
proof (rule readable_body [where q = 13 and ls = "lexemes a 14 @ LOp POWER # lexemes b 13"])
  fix s rest
  assume rest: "rest_ok 13 rest" and s: "ready good s" "at_token env ((lexemes a 14 @ LOp POWER # lexemes b 13) @ rest) s"
    "noeval s = 0 \<or> quiet (Binary POWER a b)"
  let ?rd = "scalar_reader k ops" and ?l = "length (lexemes a 14 @ LOp POWER # lexemes b 13)"
  let ?Y = "\<lambda>w. yields (noeval s) (Binary POWER a b) (env (vars s)) w"
  let ?f = "\<lambda>n m. lvl 13 ops ?rd n m s"
  have ne: "noeval s = 0" using s(3) by simp
  have ra: "rest_ok 14 (LOp POWER # lexemes b 13 @ rest)" "op_level (first_token (LOp POWER # lexemes b 13 @ rest)) \<noteq> 14"
    by (simp_all add: rest_ok_def op_level_def)
  have rb: "op_level (first_token rest) \<noteq> 13" using rest by (auto simp: rest_ok_def Let_def left_level_def)
  have start: "reached env good (lexemes a 14 @ LOp POWER # lexemes b 13 @ rest) s (env (vars s)) s"
    using reached_start [OF s(2,1)] by simp
  obtain wa where wa: "yields (noeval s) a (env (vars s)) wa"
      "completes env good ops k 14 (length (lexemes a 14)) wa (LOp POWER # lexemes b 13 @ rest) s"
    by (rule readable_after [OF a order_refl ra start disjI1 [OF ne]]) (rule that)
  have "\<exists>w. ?Y w \<and> ends_with env good ?l w rest s ?f (\<lambda>n m d. Done)"
  proof (rule completes_then [OF wa(2) fun_cong [OF right_unfold(1)]])
    fix u \<sigma> t
    assume u: "wa = (Inr u, \<sigma>)" "reached env good (LOp POWER # lexemes b 13 @ rest) s \<sigma> t"
      and run: "\<And>n m. ?l \<le> n \<Longrightarrow> ?l \<le> m + 1 \<Longrightarrow> ?f n m = power_loop (n + 1) ops ?rd (high_of m ops ?rd) u t"
    obtain t1 where t1: "?rd t = Done () t1" "reached env good (lexemes b 13 @ rest) s \<sigma> t1" "curtok t = POWER"
      by (rule reached_next [OF u(2)]) auto
    obtain wb where wb: "yields (noeval s) b \<sigma> wb" "completes env good ops k 13 (length (lexemes b 13)) wb rest t1"
        "\<And>\<sigma>' u. reached env good rest t1 \<sigma>' u \<Longrightarrow> reached env good rest s \<sigma>' u"
      by (rule readable_after [OF b _ rest rb t1(2) disjI1 [OF ne]]) (simp, rule that)
    let ?K = "\<lambda>n m v s1. let s2 = s1\<lparr>lasttok := NUM_TOK\<rparr>
         in if v = 0 then Done 1 s2
            else if v < 0 then evalerror ''exponent less than 0'' s2
            else power_loop n ops ?rd (high_of m ops ?rd) (ipow u v) s2"
    have fuel: "3 \<le> n" if "?l \<le> n" for n
      using that lexemes_pos [of a 14] lexemes_pos [of b 13] by (simp del: length_greater_0_conv)
    have run2: "?f n m = andthen (lvl 13 ops ?rd (n - 2) m) (?K n m) t1" if "?l \<le> n" "?l \<le> m + 1" for n m
    proof -
      have "lvl 13 ops ?rd (n - 2) m = exppower n ops ?rd (high_of m ops ?rd)"
      proof -
        have "Suc (Suc (n - 2)) = n" using fuel [OF that(1)] by simp
        then show ?thesis by (simp add: lvl_def Let_def del: exppower.simps exp1.simps)
      qed
      then show ?thesis unfolding run [OF that] Suc_eq_plus1 [symmetric] power_loop.simps(2) using t1 by simp
    qed
    show "\<exists>w. ?Y w \<and> ends_with env good ?l w rest s ?f (\<lambda>n m d. Done)"
    proof (rule completes_then [OF wb(2) run2])
      show "?Y (Inl e, \<sigma>2)" if "wb = (Inl e, \<sigma>2)" for e \<sigma>2
        using wa(1) wb(1) yields_binary_fails(2) that u(1) by simp
      fix v \<sigma>2 t2
      assume v: "wb = (Inr v, \<sigma>2)" "reached env good rest t1 \<sigma>2 t2"
        and run3: "\<And>n m. ?l \<le> n \<Longrightarrow> ?l \<le> m + 1 \<Longrightarrow> ?f n m = ?K n m v t2"
      have r2: "reached env good rest s \<sigma>2 t2" by (rule wb(3) [OF v(2)])
      have stop: "curtok t2 \<noteq> POWER" using rb reached_curtok [OF r2] by (auto simp: op_level_eq)
      have y: "?Y (r, \<sigma>2)" if "r = binary_value POWER u v" for r
        using wa(1) wb(1) u(1) v(1) that ne by (intro yields_binary) auto
      show "\<exists>w. ?Y w \<and> ends_with env good ?l w rest s ?f (\<lambda>n m d. Done)"
      proof (cases "v < 0")
        case True
        have "ends_with env good ?l (Inl (Some ''exponent less than 0''), \<sigma>2) rest s ?f (\<lambda>n m d. Done)"
        proof (rule ends_with_fail)
          show "?f n m = Longjmp (Some ''exponent less than 0'') (t2\<lparr>lasttok := NUM_TOK\<rparr>)"
            if "?l \<le> n" "?l \<le> m + 1" for n m
            unfolding run3 [OF that] using True by (simp add: evalerror_def)
        qed (use reached_at [OF r2] in \<open>simp add: ready_def\<close>)
        moreover have "binary_value POWER u v = Inl (Some ''exponent less than 0'')"
          using True by (simp add: binary_value_def)
        ultimately show ?thesis using y by metis
      next
        case False
        have "ends_with env good ?l (Inr (if v = 0 then 1 else ipow u v), \<sigma>2) rest s ?f (\<lambda>n m d. Done)"
        proof (rule ends_with_done [where d = 0])
          show "reached env good rest s \<sigma>2 (t2\<lparr>lasttok := NUM_TOK\<rparr>)" using r2 by simp
          show "?f n m = Done (if v = 0 then 1 else ipow u v) (t2\<lparr>lasttok := NUM_TOK\<rparr>)"
            if "?l \<le> n" "?l \<le> m + 1" for n m
            unfolding run3 [OF that] using False stop fuel [OF that(1)] by (cases n) auto
        qed simp
        moreover have "binary_value POWER u v = Inr (if v = 0 then 1 else ipow u v)"
          using False by (simp add: binary_value_def)
        ultimately show ?thesis using y by metis
      qed
    qed (use lexemes_pos [of a 14] in \<open>simp_all del: length_greater_0_conv\<close>)
  qed (use wa(1) yields_binary_fails(1) in auto)
  then show "\<exists>w. ?Y w \<and> parsed env good ops k 13 ?l w rest s"
    by (simp add: parsed_def left_level_def completes_def)
qed simp_all

text \<open>Setting and resetting \<^verbatim>\<open>noeval\<close>.\<close>

lemma data_ok_skip: "data_ok env ls s \<Longrightarrow> data_ok env ls (skip_if c s)"
  by (auto simp: data_ok_def skip_if_def split: list.split lexeme.split)

lemma data_ok_unskip: "data_ok env ls s \<Longrightarrow> first_token ls \<noteq> STR_TOK \<Longrightarrow> data_ok env ls (unskip_if c s)"
  by (auto simp: data_ok_def unskip_if_def split: list.splits lexeme.splits)

lemma reached_skip: "reached env good ls s \<sigma> t \<Longrightarrow> reached env good ls (skip_if c s) \<sigma> (skip_if c t)"
  using data_ok_skip [of ls t c] by (auto simp: reached_def at_token_def ready_def same_frame_def skip_if_def)

lemma reached_unskip:
  "reached env good ls (skip_if c s) \<sigma> t \<Longrightarrow> first_token ls \<noteq> STR_TOK \<Longrightarrow> reached env good ls s \<sigma> (unskip_if c t)"
  using data_ok_unskip [of ls t c]
  by (cases c) (auto simp: reached_def at_token_def ready_def same_frame_def skip_if_def unskip_if_def)

lemma skip_noeval [simp]: "noeval (skip_if c s) = noeval s + of_bool c" "vars (skip_if c s) = vars s"
  by (simp_all add: skip_if_def)

lemma logical_round:
  assumes "op = LAND \<or> op = LOR" and "curtok t = op" and "rd (skip_if (decided op u) t) = Done () t1"
  shows "lvl_loop (op_level op) ops rd n m (Suc q) u t = andthen (lvl (op_level op + 1) ops rd n m)
    (\<lambda>v s1. lvl_loop (op_level op) ops rd n m q (logical_value op u v) ((unskip_if (decided op u) s1)\<lparr>lasttok := op\<rparr>)) t1"
  using assms by (elim disjE) (simp_all add: lvl_loop_def op_level_def decided_def logical_value_def Let_def)

lemma yields_logical:
  assumes "yields ne a \<sigma> (Inr u, \<sigma>1)" and "yields (ne + of_bool (decided op u)) b \<sigma>1 (r, \<sigma>2)"
  shows "r = Inr v \<Longrightarrow> yields ne (Logical op a b) \<sigma> (Inr (logical_value op u v), \<sigma>2)"
    "r = Inl e \<Longrightarrow> yields ne (Logical op a b) \<sigma> (Inl e, \<sigma>2)"
  using assms
  by (cases "decided op u"; auto simp: yields_def answer_then_def decided_def logical_value_def truth_def split: if_splits)+

lemma yields_logical_fails: "yields ne a \<sigma> (Inl e, \<sigma>1) \<Longrightarrow> yields ne (Logical op a b) \<sigma> (Inl e, \<sigma>1)"
  by (auto simp: yields_def answer_then_def split: if_splits)

lemma readable_Logical:
  assumes op: "op = LAND \<or> op = LOR" and a: "readable env good ops k a" and b: "readable env good ops k b" and q: "quiet b"
  shows "readable env good ops k (Logical op a b)"
proof -
  let ?p = "op_level op"
  let ?la = "lexemes a ?p" and ?lb = "lexemes b (?p + 1)"
  have lv: "left_level ?p" "?p + 1 \<le> 14" "?p \<le> 14" "0 < ?p" using op by (auto simp: op_level_def left_level_def)
  show ?thesis
  proof (rule readable_body [where q = ?p and ls = "?la @ LOp op # ?lb"])
    fix s rest
    assume rest: "rest_ok ?p rest" and s: "ready good s" "at_token env ((?la @ LOp op # ?lb) @ rest) s"
      "noeval s = 0 \<or> quiet (Logical op a b)"
    let ?rd = "scalar_reader k ops" and ?l = "length (?la @ LOp op # ?lb)"
    let ?f = "\<lambda>n m. lvl ?p ops ?rd n m s" and ?g = "\<lambda>n m d. lvl_loop ?p ops ?rd n m (loop_fuel ?p n - d)"
    let ?Y = "\<lambda>w. yields (noeval s) (Logical op a b) (env (vars s)) w"
    have at: "at_token env (?la @ LOp op # ?lb @ rest) s" using s(2) by simp
    have qa: "noeval s = 0 \<or> quiet a" using s(3) by auto
    have ra: "rest_ok ?p (LOp op # ?lb @ rest)" using op lv by (auto simp: rest_ok_def Let_def)
    have rb: "rest_ok (?p + 1) rest" "op_level (first_token rest) \<noteq> ?p + 1"
      using rest lv by (auto simp: rest_ok_def Let_def)
    obtain wa where wa: "yields (noeval s) a (env (vars s)) wa"
        "loops env good ops k ?p (length ?la) wa (LOp op # ?lb @ rest) s"
      using readable_loops [OF a lv(1) ra s(1) at qa] by blast
    have "\<exists>w. ?Y w \<and> ends_with env good ?l w rest s ?f ?g"
      using wa(2) unfolding loops_def [of _ _ _ _ _ "length ?la"]
    proof (cases rule: ends_with_cases)
      case (failed e \<sigma> r)
      have "ends_with env good ?l (Inl e, \<sigma>) rest s ?f ?g" by (rule failed(4)) (simp add: failed(3))
      then show ?thesis using wa(1) yields_logical_fails failed(1) by blast
    next
      case (returned u \<sigma> t d)
      let ?c = "decided op u"
      obtain t1 where t1: "?rd (skip_if ?c t) = Done () t1" "reached env good (?lb @ rest) (skip_if ?c s) \<sigma> t1"
        by (rule reached_next [OF reached_skip [OF returned(2)]]) (rule that)
      have c: "curtok t = op" using reached_curtok [OF returned(2)] by simp
      obtain wb where wb: "yields (noeval s + of_bool ?c) b \<sigma> wb" "completes env good ops k (?p + 1) (length ?lb) wb rest t1"
          "\<And>\<sigma>' u. reached env good rest t1 \<sigma>' u \<Longrightarrow> reached env good rest (skip_if ?c s) \<sigma>' u"
        by (rule readable_after [OF b lv(2) rb t1(2) disjI2 [OF q], unfolded skip_noeval(1)]) (rule that)
      have run: "?f n m = andthen (lvl (?p + 1) ops ?rd n m) (\<lambda>v s1. lvl_loop ?p ops ?rd n m (loop_fuel ?p n - (d + 1))
          (logical_value op u v) ((unskip_if ?c s1)\<lparr>lasttok := op\<rparr>)) t1"
        if "?l \<le> n" "?l \<le> m + 1" for n m
      proof -
        have "Suc (loop_fuel ?p n - (d + 1)) = loop_fuel ?p n - d" using that returned(3) lv by (simp add: loop_fuel_def)
        then show ?thesis
          using returned(4) [of n m] that logical_round [where rd = ?rd, OF op c t1(1), where n = n and m = m and q = "loop_fuel ?p n - (d + 1)"]
          by simp
      qed
      show ?thesis
      proof (rule completes_then [OF wb(2) run])
        show "?Y (Inl e, \<sigma>2)" if "wb = (Inl e, \<sigma>2)" for e \<sigma>2
          using wa(1) wb(1) yields_logical(2) that returned(1) by metis
        fix v \<sigma>2 t2
        assume w: "wb = (Inr v, \<sigma>2)" and r1: "reached env good rest t1 \<sigma>2 t2"
          and run2: "\<And>n m. ?l \<le> n \<Longrightarrow> ?l \<le> m + 1 \<Longrightarrow> ?f n m = lvl_loop ?p ops ?rd n m (loop_fuel ?p n - (d + 1))
            (logical_value op u v) ((unskip_if ?c t2)\<lparr>lasttok := op\<rparr>)"
        have "reached env good rest s \<sigma>2 ((unskip_if ?c t2)\<lparr>lasttok := op\<rparr>)"
          using reached_unskip [OF wb(3) [OF r1] rest_token [OF rest]] by simp
        then have "ends_with env good ?l (Inr (logical_value op u v), \<sigma>2) rest s ?f ?g"
          by (rule ends_with_done [where d = "d + 1"]) (use returned(3) run2 in simp_all)
        moreover have "?Y (Inr (logical_value op u v), \<sigma>2)"
          using wa(1) wb(1) yields_logical(1) w returned(1) by metis
        ultimately show "\<exists>w. ?Y w \<and> ends_with env good ?l w rest s ?f ?g" by blast
      qed simp_all
    qed
    then show "\<exists>w. ?Y w \<and> parsed env good ops k ?p ?l w rest s"
      using lv(1) by (simp add: parsed_def loops_def)
  qed (use lv in simp_all)
qed

lemma yields_comma:
  "yields ne a \<sigma> (Inr u, \<sigma>1) \<Longrightarrow> yields ne b \<sigma>1 w \<Longrightarrow> yields ne (Comma a b) \<sigma> w"
  "yields ne a \<sigma> (Inl e, \<sigma>1) \<Longrightarrow> yields ne (Comma a b) \<sigma> (Inl e, \<sigma>1)"
  by (auto simp: yields_def answer_then_def split: if_splits)

lemma comma_round:
  assumes "curtok t = COMMA_TOK" and "rd t = Done () t1"
  shows "lvl_loop 0 ops rd n m (Suc q) u t = andthen (lvl 1 ops rd n m) (lvl_loop 0 ops rd n m q) t1"
  using assms by (simp add: lvl_loop_def)

lemma readable_Comma:
  assumes a: "readable env good ops k a" and b: "readable env good ops k b"
  shows "readable env good ops k (Comma a b)"
proof (rule readable_body [where q = 0 and ls = "lexemes a 0 @ LOp COMMA_TOK # lexemes b 1"])
  let ?la = "lexemes a 0" and ?lb = "lexemes b 1"
  have lv: "left_level 0" by (simp add: left_level_def)
  fix s rest
  assume rest: "rest_ok 0 rest" and s: "ready good s" "at_token env ((?la @ LOp COMMA_TOK # ?lb) @ rest) s"
    "noeval s = 0 \<or> quiet (Comma a b)"
  let ?rd = "scalar_reader k ops" and ?l = "length (?la @ LOp COMMA_TOK # ?lb)"
  let ?f = "\<lambda>n m. lvl 0 ops ?rd n m s" and ?g = "\<lambda>n m d. lvl_loop 0 ops ?rd n m (loop_fuel 0 n - d)"
  let ?Y = "\<lambda>w. yields (noeval s) (Comma a b) (env (vars s)) w"
  have at: "at_token env (?la @ LOp COMMA_TOK # ?lb @ rest) s" using s(2) by simp
  have q: "noeval s = 0 \<or> quiet a" "noeval s = 0 \<or> quiet b" using s(3) by auto
  have ra: "rest_ok 0 (LOp COMMA_TOK # ?lb @ rest)" by (simp add: rest_ok_def op_level_def left_level_def)
  have rb: "rest_ok 1 rest" "op_level (first_token rest) \<noteq> 1"
    using rest by (auto simp: rest_ok_def Let_def)
  obtain wa where wa: "yields (noeval s) a (env (vars s)) wa" "loops env good ops k 0 (length ?la) wa (LOp COMMA_TOK # ?lb @ rest) s"
    using readable_loops [OF a lv ra s(1) at q(1)] by blast
  have "\<exists>w. ?Y w \<and> ends_with env good ?l w rest s ?f ?g"
    using wa(2) unfolding loops_def [of _ _ _ _ _ "length ?la"]
  proof (cases rule: ends_with_cases)
    case (failed e \<sigma> r)
    have "ends_with env good ?l (Inl e, \<sigma>) rest s ?f ?g" by (rule failed(4)) (simp add: failed(3))
    then show ?thesis using wa(1) yields_comma(2) failed(1) by blast
  next
    case (returned u \<sigma> t d)
    obtain t1 where t1: "?rd t = Done () t1" "reached env good (?lb @ rest) s \<sigma> t1"
      by (rule reached_next [OF returned(2)]) (rule that)
    have c: "curtok t = COMMA_TOK" using reached_curtok [OF returned(2)] by simp
    obtain wb where wb: "yields (noeval s) b \<sigma> wb" "completes env good ops k 1 (length ?lb) wb rest t1"
        "\<And>\<sigma>' u. reached env good rest t1 \<sigma>' u \<Longrightarrow> reached env good rest s \<sigma>' u"
      by (rule readable_after [OF b _ rb t1(2) q(2)]) (simp, rule that)
    have run: "?f n m = andthen (lvl 1 ops ?rd n m) (lvl_loop 0 ops ?rd n m (loop_fuel 0 n - (d + 1))) t1"
      if "?l \<le> n" "?l \<le> m + 1" for n m
    proof -
      have "Suc (loop_fuel 0 n - (d + 1)) = loop_fuel 0 n - d" using that returned(3) by (simp add: loop_fuel_def)
      then show ?thesis
        using returned(4) [of n m] that comma_round [where rd = ?rd, OF c t1(1), where n = n and m = m and q = "loop_fuel 0 n - (d + 1)"]
        by simp
    qed
    show ?thesis
    proof (rule completes_then [OF wb(2) run])
      show "?Y (Inl e, \<sigma>2)" if "wb = (Inl e, \<sigma>2)" for e \<sigma>2
        using wa(1) wb(1) yields_comma(1) that returned(1) by metis
      fix v \<sigma>2 t2
      assume w: "wb = (Inr v, \<sigma>2)" and r1: "reached env good rest t1 \<sigma>2 t2"
        and run2: "\<And>n m. ?l \<le> n \<Longrightarrow> ?l \<le> m + 1 \<Longrightarrow> ?f n m = lvl_loop 0 ops ?rd n m (loop_fuel 0 n - (d + 1)) v t2"
      have "ends_with env good ?l (Inr v, \<sigma>2) rest s ?f ?g"
        using wb(3) [OF r1] by (rule ends_with_done [where d = "d + 1"]) (use returned(3) run2 in simp_all)
      moreover have "?Y (Inr v, \<sigma>2)"
        using wa(1) wb(1) yields_comma(1) w returned(1) by metis
      ultimately show "\<exists>w. ?Y w \<and> ends_with env good ?l w rest s ?f ?g" by blast
    qed simp_all
  qed
  then show "\<exists>w. ?Y w \<and> parsed env good ops k 0 ?l w rest s"
    using lv by (simp add: parsed_def loops_def)
qed simp_all

text \<open>No expression starts with the end of the text or a colon.\<close>

lemma lexemes_start: "wf_aexp e \<Longrightarrow> first_token (lexemes e p @ ls) \<noteq> TEOF \<and> first_token (lexemes e p @ ls) \<noteq> COL"
  by (induction e arbitrary: p ls) (auto simp: paren_def)

lemma lvl_cond: "1 \<le> n \<Longrightarrow> expcond (n + 2) ops rd (high_of m ops rd) = lvl 2 ops rd (n - 1) m"
  by (simp add: lvl_def Let_def del: expcond.simps)

lemma yields_cond:
  assumes "yields ne c \<sigma> (Inr u, \<sigma>1)"
  shows "yields (ne + of_bool (u = 0)) a \<sigma>1 (Inl e, \<sigma>2) \<Longrightarrow> yields ne (Conditional c a b) \<sigma> (Inl e, \<sigma>2)"
    "yields (ne + of_bool (u = 0)) a \<sigma>1 (Inr v, \<sigma>2) \<Longrightarrow> yields (ne + of_bool (u \<noteq> 0)) b \<sigma>2 (Inl e, \<sigma>3) \<Longrightarrow>
      yields ne (Conditional c a b) \<sigma> (Inl e, \<sigma>3)"
    "yields (ne + of_bool (u = 0)) a \<sigma>1 (Inr v, \<sigma>2) \<Longrightarrow> yields (ne + of_bool (u \<noteq> 0)) b \<sigma>2 (Inr v', \<sigma>3) \<Longrightarrow>
      yields ne (Conditional c a b) \<sigma> (Inr (if u \<noteq> 0 then v else v'), \<sigma>3)"
  using assms by (cases "u = 0"; auto simp: yields_def answer_then_def split: if_splits)+

lemma readable_Conditional:
  assumes c: "readable env good ops k c" and a: "readable env good ops k a" and b: "readable env good ops k b"
    and wf: "wf_aexp (Conditional c a b)"
  shows "readable env good ops k (Conditional c a b)"
proof (rule readable_body [where q = 2 and ls = "lexemes c 3 @ LOp QUES # lexemes a 0 @ LOp COL # lexemes b 2"])
  let ?lc = "lexemes c 3" and ?la = "lexemes a 0" and ?lb = "lexemes b 2"
  fix s rest
  assume rest: "rest_ok 2 rest" and s: "ready good s" "at_token env ((?lc @ LOp QUES # ?la @ LOp COL # ?lb) @ rest) s"
    "noeval s = 0 \<or> quiet (Conditional c a b)"
  let ?rd = "scalar_reader k ops" and ?l = "length (?lc @ LOp QUES # ?la @ LOp COL # ?lb)"
  let ?f = "\<lambda>n m. lvl 2 ops ?rd n m s" and ?g = "\<lambda>n m d. Done"
  let ?Y = "\<lambda>w. yields (noeval s) (Conditional c a b) (env (vars s)) w"
  have q: "noeval s = 0 \<or> quiet c" "quiet a" "quiet b" using s(3) wf by auto
  have rc: "rest_ok 3 (LOp QUES # ?la @ LOp COL # ?lb @ rest)" "op_level (first_token (LOp QUES # ?la @ LOp COL # ?lb @ rest)) \<noteq> 3"
    and ra: "rest_ok 0 (LOp COL # ?lb @ rest)" "op_level (first_token (LOp COL # ?lb @ rest)) \<noteq> 0"
    by (simp_all add: rest_ok_def op_level_def)
  have rb: "op_level (first_token rest) \<noteq> 2" using rest by (auto simp: rest_ok_def Let_def left_level_def)
  have start: "reached env good (?lc @ LOp QUES # ?la @ LOp COL # ?lb @ rest) s (env (vars s)) s"
    using reached_start [OF s(2,1)] by simp
  obtain wc where wc: "yields (noeval s) c (env (vars s)) wc"
      "completes env good ops k 3 (length ?lc) wc (LOp QUES # ?la @ LOp COL # ?lb @ rest) s"
    by (rule readable_after [OF c _ rc start q(1)]) (simp, rule that)
  have "\<exists>w. ?Y w \<and> ends_with env good ?l w rest s ?f ?g"
  proof (rule completes_then [OF wc(2) fun_cong [OF right_unfold(2)]])
    show "?Y (Inl e, \<sigma>)" if "wc = (Inl e, \<sigma>)" for e \<sigma>
      using wc(1) that by (auto simp: yields_def answer_then_def split: if_splits)
    fix u \<sigma> t
    assume u: "wc = (Inr u, \<sigma>)" "reached env good (LOp QUES # ?la @ LOp COL # ?lb @ rest) s \<sigma> t"
      and run: "\<And>n m. ?l \<le> n \<Longrightarrow> ?l \<le> m + 1 \<Longrightarrow> ?f n m = cond_tail (n + 2) ops ?rd (high_of m ops ?rd) u t"
    note yc = wc(1) [unfolded u(1)]
    obtain t1 where t1: "?rd t = Done () t1" "reached env good (?la @ LOp COL # ?lb @ rest) s \<sigma> t1" "curtok t = QUES"
      by (rule reached_next [OF u(2)]) auto
    have tok1: "curtok t1 \<noteq> TEOF" "curtok t1 \<noteq> COL"
      using reached_curtok [OF t1(2)] lexemes_start [of a] wf by auto
    let ?t1 = "skip_if (u = 0) t1"
    have n0: "noeval s + of_bool (u = 0) = noeval (skip_if (u = 0) s)" by simp
    obtain wa where wa: "yields (noeval s + of_bool (u = 0)) a \<sigma> wa"
        "completes env good ops k 0 (length ?la) wa (LOp COL # ?lb @ rest) ?t1"
        "\<And>\<sigma>' u'. reached env good (LOp COL # ?lb @ rest) ?t1 \<sigma>' u' \<Longrightarrow>
          reached env good (LOp COL # ?lb @ rest) (skip_if (u = 0) s) \<sigma>' u'"
      by (rule readable_after [OF a _ ra reached_skip [OF t1(2)] disjI2 [OF q(2)], unfolded skip_noeval(1)]) (simp, rule that)
    let ?K2 = "\<lambda>n m val1 val2 s5. Done (if u \<noteq> 0 then val1 else val2) ((unskip_if (u \<noteq> 0) s5)\<lparr>lasttok := COND\<rparr>)"
    let ?K = "\<lambda>n m val1 s2. let s3 = unskip_if (u = 0) s2
               in if curtok s3 \<noteq> COL then evalerror ''`:' expected for conditional expression'' s3
                  else andthen ?rd (\<lambda>_ s4.
                    if curtok s4 = TEOF then evalerror ''expression expected'' s4
                    else andthen (expcond (n + 2) ops ?rd (high_of m ops ?rd)) (?K2 n m val1) (skip_if (u \<noteq> 0) s4)) s3"
    have run2: "?f n m = andthen (lvl 0 ops ?rd m (m - 1)) (?K n m) ?t1" if "?l \<le> n" "?l \<le> m + 1" for n m
    proof -
      have "1 \<le> m" using that(2) lexemes_pos [of c 3] by (simp del: length_greater_0_conv)
      note h = high_lvl [OF this, of ?rd]
      have "?f n m = andthen (high_of m ops ?rd) (?K n m) ?t1"
        unfolding run [OF that] cond_tail_def using t1(1,3) tok1 by (simp del: expcond.simps)
      also have "\<dots> = andthen (lvl 0 ops ?rd m (m - 1)) (?K n m) ?t1"
        by (rule arg_cong [OF h, where f = "\<lambda>h. andthen h (?K n m) ?t1"])
      finally show ?thesis .
    qed
    show "\<exists>w. ?Y w \<and> ends_with env good ?l w rest s ?f ?g"
    proof (rule completes_then [OF wa(2) run2])
      show "?Y (Inl e, \<sigma>2)" if "wa = (Inl e, \<sigma>2)" for e \<sigma>2
        using yields_cond(1) [OF yc] wa(1) that by simp
      fix v \<sigma>2 t2
      assume v: "wa = (Inr v, \<sigma>2)" "reached env good (LOp COL # ?lb @ rest) ?t1 \<sigma>2 t2"
        and run3: "\<And>n m. ?l \<le> n \<Longrightarrow> ?l \<le> m + 1 \<Longrightarrow> ?f n m = ?K n m v t2"
      have "reached env good (LOp COL # ?lb @ rest) s \<sigma>2 (unskip_if (u = 0) t2)"
        using reached_unskip [OF wa(3) [OF v(2)]] by simp
      then obtain t4 where t4: "?rd (unskip_if (u = 0) t2) = Done () t4" "reached env good (?lb @ rest) s \<sigma>2 t4"
          "curtok (unskip_if (u = 0) t2) = COL"
        by (rule reached_next) auto
      have tok4: "curtok t4 \<noteq> TEOF" using reached_curtok [OF t4(2)] lexemes_start [of b] wf by auto
      obtain wb where wb: "yields (noeval s + of_bool (u \<noteq> 0)) b \<sigma>2 wb"
          "completes env good ops k 2 (length ?lb) wb rest (skip_if (u \<noteq> 0) t4)"
          "\<And>\<sigma>' u'. reached env good rest (skip_if (u \<noteq> 0) t4) \<sigma>' u' \<Longrightarrow> reached env good rest (skip_if (u \<noteq> 0) s) \<sigma>' u'"
        by (rule readable_after [OF b _ rest rb reached_skip [OF t4(2)] disjI2 [OF q(3)], unfolded skip_noeval(1)]) (simp, rule that)
      have run4: "?f n m = andthen (lvl 2 ops ?rd (n - 1) m) (?K2 n m v) (skip_if (u \<noteq> 0) t4)" if "?l \<le> n" "?l \<le> m + 1" for n m
      proof -
        have "1 \<le> n" using that(1) by simp
        note h = lvl_cond [OF this, of ?rd]
        show ?thesis
          unfolding run3 [OF that] Let_def h using t4(1,3) tok4 by simp
      qed
      show "\<exists>w. ?Y w \<and> ends_with env good ?l w rest s ?f ?g"
      proof (rule completes_then [OF wb(2) run4])
        show "?Y (Inl e, \<sigma>3)" if "wb = (Inl e, \<sigma>3)" for e \<sigma>3
          using yields_cond(2) [OF yc wa(1) [unfolded v(1)]] wb(1) that by simp
        fix v' \<sigma>3 t5
        assume v': "wb = (Inr v', \<sigma>3)" "reached env good rest (skip_if (u \<noteq> 0) t4) \<sigma>3 t5"
          and run5: "\<And>n m. ?l \<le> n \<Longrightarrow> ?l \<le> m + 1 \<Longrightarrow> ?f n m = ?K2 n m v v' t5"
        have "reached env good rest s \<sigma>3 ((unskip_if (u \<noteq> 0) t5)\<lparr>lasttok := COND\<rparr>)"
          using reached_unskip [OF wb(3) [OF v'(2)] rest_token [OF rest]] by simp
        then have "ends_with env good ?l (Inr (if u \<noteq> 0 then v else v'), \<sigma>3) rest s ?f ?g"
          by (rule ends_with_done [where d = 0]) (use run5 in simp_all)
        moreover have "?Y (Inr (if u \<noteq> 0 then v else v'), \<sigma>3)"
          using yields_cond(3) [OF yc wa(1) [unfolded v(1)]] wb(1) v'(1) by simp
        ultimately show "\<exists>w. ?Y w \<and> ends_with env good ?l w rest s ?f ?g" by blast
      qed simp_all
    qed simp_all
  qed simp_all
  then show "\<exists>w. ?Y w \<and> parsed env good ops k 2 ?l w rest s"
    by (simp add: parsed_def left_level_def completes_def)
qed simp_all

lemma reached_same:
  "reached env good rest s \<sigma> t \<Longrightarrow> first_token rest \<noteq> STR_TOK \<Longrightarrow> good w \<Longrightarrow> env w = \<sigma>' \<Longrightarrow> lv_ind lv = - 1 \<Longrightarrow>
   reached env good rest s \<sigma>' (t\<lparr>vars := w, curlval := lv, tokstr := x\<rparr>)"
  by (cases rest) (auto simp: reached_def at_token_def ready_def same_frame_def data_ok_def before_def split: lexeme.splits)

lemma assign_store:
  assumes "reached env good rest s \<sigma> t" and "first_token rest \<noteq> STR_TOK" and "noeval s = 0 \<longrightarrow> intmax_ok v"
  shows "\<exists>u. andthen (if noeval t = 0 then expr_bind ops x x (- 1) (itos v) else Done ())
      (\<lambda>_ s2. Done v (s2\<lparr>curlval := (if lv_tokstr (curlval s2) \<noteq> None \<and> lv_tokstr (curlval s2) = tokstr s2
                                   then init_lvalue else curlval s2), tokstr := None\<rparr>)) t = Done v u \<and>
    reached env good rest s (if noeval s = 0 then \<sigma>(x := v) else \<sigma>) u"
proof -
  have t: "good (vars t)" "env (vars t) = \<sigma>" "lv_ind (curlval t) = - 1" "noeval t = noeval s"
    using assms(1) by (simp_all add: reached_def ready_def same_frame_def)
  define lv where "lv = (if lv_tokstr (curlval t) \<noteq> None \<and> lv_tokstr (curlval t) = tokstr t then init_lvalue else curlval t)"
  have lv: "lv_ind lv = - 1" using t(3) by (simp add: lv_def init_lvalue_def)
  show ?thesis
  proof (cases "noeval s = 0")
    case True
    then obtain w where w: "bind_int_variable ops (vars t) x (itos v) = (False, w)" "good w" "env w = \<sigma>(x := v)"
      using bound [OF t(1), of v x] assms(3) t(2) by auto
    have "reached env good rest s (\<sigma>(x := v)) (t\<lparr>vars := w, curlval := lv, tokstr := None\<rparr>)"
      by (rule reached_same [OF assms(1,2) w(2,3) lv])
    moreover have eb: "expr_bind ops x x (- 1) (itos v) t = Done () (t\<lparr>vars := w\<rparr>)"
      by (simp add: expr_bind_def expr_bind_variable_def w(1))
    have same: "curlval (t\<lparr>vars := w\<rparr>) = curlval t" "tokstr (t\<lparr>vars := w\<rparr>) = tokstr t" by simp_all
    have "andthen (if noeval t = 0 then expr_bind ops x x (- 1) (itos v) else Done ())
      (\<lambda>_ s2. Done v (s2\<lparr>curlval := (if lv_tokstr (curlval s2) \<noteq> None \<and> lv_tokstr (curlval s2) = tokstr s2
                                   then init_lvalue else curlval s2), tokstr := None\<rparr>)) t =
        Done v (t\<lparr>vars := w, curlval := lv, tokstr := None\<rparr>)"
      unfolding if_P [OF True [folded t(4)]] andthen_def eb outcome.case lv_def same by (rule refl)
    ultimately show ?thesis using True by (intro exI conjI) auto
  next
    case False
    have "reached env good rest s \<sigma> (t\<lparr>vars := vars t, curlval := lv, tokstr := None\<rparr>)"
      by (rule reached_same [OF assms(1,2) t(1,2) lv])
    then show ?thesis
      using False t(4)
      by (intro exI [of _ "t\<lparr>vars := vars t, curlval := lv, tokstr := None\<rparr>"] conjI) (auto simp: lv_def)
  qed
qed

lemma lvl_assign: "1 \<le> n \<Longrightarrow> expassign (n + 3) ops rd (high_of m ops rd) = lvl 1 ops rd (n - 1) m"
proof -
  assume "1 \<le> n"
  then have "n + 3 = n - 1 + 4" by simp
  then show ?thesis by (simp only: lvl_def Let_def) simp
qed

lemma readable_assign:
  assumes lexE: "\<And>p. lexemes E p = paren (1 < p) (LName x # al # lexemes e 1)"
    and evE: "\<And>\<sigma>. eval E \<sigma> = answer_then (eval e \<sigma>) (\<lambda>v \<sigma>'. case F (\<sigma> x) v of
        Inl msg \<Rightarrow> (Inl msg, \<sigma>') | Inr w \<Rightarrow> (Inr w, \<sigma>'(x := w)))"
    and al: "al = LOp EQ \<or> (\<exists>op. al = LAssign op)" and plain: "\<And>u u' v. al = LOp EQ \<Longrightarrow> F u v = F u' v"
    and F: "\<And>u v. intmax_ok u \<Longrightarrow> intmax_ok v \<Longrightarrow> answer_ok (F u v)"
    and comb: "\<And>u v (t :: 'v expr_state). noeval t = 0 \<or> quiet E \<Longrightarrow> stores (F u v) t (assign_of al u v t)"
    and e: "readable env good ops k e" and wf: "wf_aexp e" and q: "quiet E \<Longrightarrow> quiet e"
  shows "readable env good ops k E"
proof (rule readable_body [where q = 1 and ls = "LName x # al # lexemes e 1"])
  let ?le = "lexemes e 1"
  fix s rest
  assume rest: "rest_ok 1 rest" and s: "ready good s" "at_token env ((LName x # al # ?le) @ rest) s" "noeval s = 0 \<or> quiet E"
  let ?rd = "scalar_reader k ops" and ?l = "length (LName x # al # ?le)"
  let ?f = "\<lambda>n m. lvl 1 ops ?rd n m s" and ?g = "\<lambda>n m d. Done"
  let ?Y = "\<lambda>w. yields (noeval s) E (env (vars s)) w"
  have at: "at_token env (LName x # (al # ?le @ rest)) s" using s(2) by simp
  have alt: "token_of al \<notin> {STR_TOK, POSTINC, POSTDEC}" "op_level (token_of al) = 1" "token_of al = EQ \<or> token_of al = OP_ASSIGN"
    using al by (auto simp: op_level_def)
  have qe: "noeval s = 0 \<or> quiet e" using s(3) q by blast
  have re: "op_level (first_token rest) \<noteq> 1" using rest by (auto simp: rest_ok_def Let_def left_level_def)
  obtain a where nm: "curtok s = STR_TOK" "tokstr s = Some (a, x)" "noeval s = 0 \<and> token_of al \<noteq> EQ \<longrightarrow> tokval s = env (vars s) x"
    using at by (auto simp: at_token_def data_ok_def)
  obtain t where t: "\<And>n m. lvl 15 ops ?rd n m s = Done (tokval s) t" "at_token env (al # ?le @ rest) t" "ready good t"
      "same_frame s t" "vars t = vars s" "lasttok t = STR_TOK" "tokstr t = tokstr s"
    using primary_name [OF at s(1), of k] alt(1) by auto
  have c: "curtok t = token_of al" by (rule at_token_hd [OF t(2)])
  have "reached env good (al # ?le @ rest) s (env (vars s)) t" using reached_I [OF t(2-4)] t(5) by simp
  then obtain t1 where t1: "?rd t = Done () t1" "reached env good (?le @ rest) s (env (vars s)) t1"
    by (rule reached_next) (rule that)
  obtain we where we: "yields (noeval s) e (env (vars s)) we" "completes env good ops k 1 (length ?le) we rest t1"
      "\<And>\<sigma>' u. reached env good rest t1 \<sigma>' u \<Longrightarrow> reached env good rest s \<sigma>' u"
    by (rule readable_after [OF e _ rest re t1(2) qe]) (simp, rule that)
  let ?K = "assigned_value ops (token_of al = OP_ASSIGN) (assigntok t) (tokval s) x (- 1)"
  have run: "?f n m = andthen (lvl 1 ops ?rd (n - 1) m) ?K t1" if "?l \<le> n" "?l \<le> m + 1" for n m
  proof -
    have "lvl 14 ops ?rd n m s = Done (tokval s) t" using t(1) nm(1) by (simp add: lvl14_primary unary_ops_def)
    then have "lvl 2 ops ?rd n m s = Done (tokval s) t" by (rule lift [rotated 2]) (use c alt(2) in simp_all)
    then have "?f n m = assign_tail (n + 3) ops ?rd (high_of m ops ?rd) (tokval s) t" by (simp only: right_unfold(3) andthen_def outcome.case)
    moreover have "1 \<le> n" using that(1) by simp
    note h = lvl_assign [OF this, of ?rd m]
    have "curtok t = EQ \<or> curtok t = OP_ASSIGN" using c alt(3) by simp
    moreover have "lv_ind (curlval t) = - 1" using t(3) by (simp add: ready_def)
    ultimately show ?thesis
      unfolding assign_tail_def h using t1(1) t(6,7) nm(2) c by (simp add: Let_def)
  qed
  have "\<exists>w. ?Y w \<and> ends_with env good ?l w rest s ?f ?g"
  proof (rule completes_then [OF we(2) run])
    show "?Y (Inl msg, \<sigma>)" if "we = (Inl msg, \<sigma>)" for msg \<sigma>
      using we(1) that by (auto simp: yields_def evE answer_then_def split: if_splits)
    fix v \<sigma> t2
    assume v: "we = (Inr v, \<sigma>)" "reached env good rest t1 \<sigma> t2"
      and run2: "\<And>n m. ?l \<le> n \<Longrightarrow> ?l \<le> m + 1 \<Longrightarrow> ?f n m = ?K v t2"
    have r2: "reached env good rest s \<sigma> t2" by (rule we(3) [OF v(2)])
    have n2: "noeval t2 = noeval s" by (rule reached_noeval [OF r2])
    have K: "?K v t2 = andthen (assign_of al (tokval s) v) (\<lambda>v s.
       andthen (if noeval s = 0 then expr_bind ops x x (- 1) (itos v) else Done ())
         (\<lambda>_ s2. Done v (s2\<lparr>curlval := (if lv_tokstr (curlval s2) \<noteq> None \<and> lv_tokstr (curlval s2) = tokstr s2
                                        then init_lvalue else curlval s2),
                             tokstr := None\<rparr>)) s) t2"
    proof -
      have eq: "(if token_of al = OP_ASSIGN then assign_op (assigntok t) (tokval s) v else Done v) =
          (assign_of al (tokval s) v :: (int, 'v) ev)"
        using al t(2) by (auto simp: assign_of_def at_token_def data_ok_def)
      show ?thesis unfolding assigned_value_def eq by (rule refl)
    qed
    have st: "stores (F (tokval s) v) t2 (assign_of al (tokval s) v t2)" using comb s(3) n2 by simp
    have Fu: "noeval s = 0 \<Longrightarrow> F (tokval s) v = F (env (vars s) x) v" using plain nm(3) al by auto
    have ok: "answer_ok (F (env (vars s) x) v)" if "noeval s = 0"
    proof -
      have "\<forall>y. intmax_ok (env (vars s) y)" using env_ok s(1) by (simp add: ready_def)
      moreover have "eval e (env (vars s)) = (Inr v, \<sigma>)" using we(1) v(1) that by (simp add: yields_def)
      ultimately show ?thesis using F eval_ok [OF _ wf] by blast
    qed
    have yv: "?Y (Inr w, if noeval s = 0 then \<sigma>(x := w) else \<sigma>)" if "noeval s = 0 \<Longrightarrow> F (env (vars s) x) v = Inr w" for w
      using that we(1) v(1) by (auto simp: yields_def evE answer_then_def)
    have finish: "\<exists>w. ?Y w \<and> ends_with env good ?l w rest s ?f ?g"
      if w: "assign_of al (tokval s) v t2 = Done w t2" "noeval s = 0 \<Longrightarrow> F (env (vars s) x) v = Inr w" for w
    proof -
      have "noeval s = 0 \<longrightarrow> intmax_ok w" using ok w(2) by simp
      from assign_store [OF r2 rest_token [OF rest] this, of x]
      obtain u where u: "?K v t2 = Done w u" "reached env good rest s (if noeval s = 0 then \<sigma>(x := w) else \<sigma>) u"
        unfolding K andthen_def [of "assign_of al (tokval s) v"] w(1) outcome.case by blast
      have "ends_with env good ?l (Inr w, if noeval s = 0 then \<sigma>(x := w) else \<sigma>) rest s ?f ?g"
        using u(2) by (rule ends_with_done [where d = 0]) (use run2 u(1) in simp_all)
      with yv [OF w(2)] show ?thesis by blast
    qed
    show "\<exists>w. ?Y w \<and> ends_with env good ?l w rest s ?f ?g"
    proof (cases "noeval s = 0")
      case False
      then obtain w where "assign_of al (tokval s) v t2 = Done w t2" using st n2 by (auto simp: stores_def)
      then show ?thesis by (rule finish) (use False in simp)
    next
      case True
      show ?thesis
      proof (cases "F (env (vars s) x) v")
        case (Inr w)
        then have "assign_of al (tokval s) v t2 = Done w t2" using st True n2 Fu by (simp add: stores_def)
        then show ?thesis by (rule finish) (rule Inr)
      next
        case (Inl msg)
        define r where "r = assign_of al (tokval s) v t2"
        have r: "(\<exists>m t. msg = Some m \<and> r = Longjmp (Some m) t \<and> good (vars t) \<and> env (vars t) = \<sigma>) \<or> msg = None \<and> r = Undefined"
          using st True n2 Fu Inl reached_at [OF r2] by (auto simp: stores_def r_def ready_def split: option.splits)
        have "?f n m = r" if "?l \<le> n" "?l \<le> m + 1" for n m
          unfolding run2 [OF that] K using r by (subst andthen_fails) (auto simp: r_def)
        then have "ends_with env good ?l (Inl msg, \<sigma>) rest s ?f ?g" by (rule ends_with_fail [OF r])
        moreover have "?Y (Inl msg, \<sigma>)" using we(1) v(1) True Inl by (simp add: yields_def evE answer_then_def)
        ultimately show ?thesis by blast
      qed
    qed
  qed simp_all
  then show "\<exists>w. ?Y w \<and> parsed env good ops k 1 ?l w rest s"
    by (simp add: parsed_def left_level_def completes_def)
qed (use lexE in simp_all)

lemma readable_Assign:
  assumes "readable env good ops k e" and "wf_aexp e"
  shows "readable env good ops k (Assign x e)"
proof (rule readable_assign [where al = "LOp EQ" and F = "\<lambda>u v. Inr v" and e = e and x = x])
  show "stores (Inr v) t (assign_of (LOp EQ) u v t)" for u v and t :: "'v expr_state"
    by (simp add: stores_def assign_of_def)
qed (use assms in simp_all)

lemma readable_Assign_Op:
  assumes "readable env good ops k e" and wf: "wf_aexp (Assign_Op op x e)"
  shows "readable env good ops k (Assign_Op op x e)"
proof (rule readable_assign [where al = "LAssign op" and F = "binary_value op" and e = e and x = x])
  have op: "op \<in> assign_ops" using wf by (simp add: assign_ops_def)
  show "stores (binary_value op u v) t (assign_of (LAssign op) u v t)"
    if "noeval t = 0 \<or> quiet (Assign_Op op x e)" for u v and t :: "'v expr_state"
    using stores_assign [OF op, of t u v] that by (auto simp: assign_of_def)
qed (use assms binary_value_ok in \<open>simp_all add: Let_def\<close>)

lemma readable_wf: "wf_aexp e \<Longrightarrow> readable env good ops k e"
proof (induction e)
  case (Unary t e)
  then show ?case by (intro readable_Unary) (auto simp: unary_ops_def)
next
  case (Binary op a b)
  then show ?case by (cases "op = POWER") (simp_all add: readable_Power readable_Binary)
next
  case (Logical op a b)
  then show ?case by (intro readable_Logical) auto
next
  case (Conditional c a b)
  then show ?case by (intro readable_Conditional) auto
qed (simp_all add: readable_Num readable_Var readable_Incr readable_Assign readable_Assign_Op readable_Comma)

text \<open>The text of a well-formed expression can be read token by token.\<close>

lemma joined_op: "t \<in> simple_ops \<Longrightarrow> joined p (LOp t # ls) = joined t ls"
  by simp

lemma op_next_op: "t \<in> simple_ops \<Longrightarrow> op_next (LOp t # ls)"
  by (simp add: op_next_def)

end

definition follows :: "lexeme list \<Rightarrow> bool" where
  "follows rest \<longleftrightarrow> op_next rest \<and> (\<forall>q. q \<in> {NUM_TOK, STR_TOK, RPAR, POSTINC, POSTDEC} \<longrightarrow> joined q rest)"

lemma follows_op: "t \<in> simple_ops \<Longrightarrow> joined t ls \<Longrightarrow> follows (LOp t # ls)"
  by (simp add: follows_def op_next_def)

lemma op_tokens:
  "op \<in> insert POWER binary_ops \<Longrightarrow> op \<in> simple_ops \<and> op \<noteq> STR_TOK"
  "op \<in> {LAND, LOR} \<Longrightarrow> op \<in> simple_ops \<and> op \<noteq> STR_TOK"
  "op \<in> {NOT_TOK, BNOT, MINUS, PLUS} \<Longrightarrow> op \<in> simple_ops \<and> op \<noteq> STR_TOK"
  by (auto simp: binary_ops_def simple_ops_def)

lemma punctuation: "LPAR \<in> simple_ops" "RPAR \<in> simple_ops" "QUES \<in> simple_ops" "COL \<in> simple_ops"
  "COMMA_TOK \<in> simple_ops" "EQ \<in> simple_ops"
  by (simp_all add: simple_ops_def)

lemma joined_paren:
  assumes "\<And>p rest. p \<noteq> STR_TOK \<Longrightarrow> follows rest \<Longrightarrow> joined p (ls @ rest)"
  shows "p \<noteq> STR_TOK \<Longrightarrow> follows rest \<Longrightarrow> joined p (paren b ls @ rest)"
proof (cases b)
  case True
  assume "p \<noteq> STR_TOK" and "follows rest"
  then have "follows (LOp RPAR # rest)" by (intro follows_op punctuation) (simp add: follows_def)
  then have "joined LPAR (ls @ LOp RPAR # rest)" by (intro assms) simp_all
  then show ?thesis using True punctuation(1) by (simp add: paren_def)
qed (simp add: paren_def assms)

lemma joined_lexemes: "wf_aexp e \<Longrightarrow> p \<noteq> STR_TOK \<Longrightarrow> follows rest \<Longrightarrow> joined p (lexemes e k @ rest)"
proof (induction e arbitrary: p k rest)
  case (Unary t e)
  then show ?case using op_tokens(3) by (auto intro!: joined_paren)
next
  case (Binary op a b)
  have op: "op \<in> simple_ops" "op \<noteq> STR_TOK" using op_tokens(1) Binary.prems(1) by auto
  have "joined p (lexemes a i @ LOp op # lexemes b j @ rest)" if "p \<noteq> STR_TOK" "follows rest" for p i j rest
    using Binary op that by (simp add: follows_op)
  then show ?case using Binary.prems by (auto intro!: joined_paren)
next
  case (Logical op a b)
  have op: "op \<in> simple_ops" "op \<noteq> STR_TOK" using op_tokens(2) Logical.prems(1) by auto
  have "joined p (lexemes a i @ LOp op # lexemes b j @ rest)" if "p \<noteq> STR_TOK" "follows rest" for p i j rest
    using Logical op that by (simp add: follows_op)
  then show ?case using Logical.prems by (auto intro!: joined_paren)
next
  case (Conditional c a b)
  have "joined p (lexemes c 3 @ LOp QUES # lexemes a 0 @ LOp COL # lexemes b 2 @ rest)" if "p \<noteq> STR_TOK" "follows rest" for p rest
    using Conditional punctuation that by (simp add: follows_op)
  then show ?case using Conditional.prems by (auto intro!: joined_paren)
next
  case (Comma a b)
  have "joined p (lexemes a 0 @ LOp COMMA_TOK # lexemes b 1 @ rest)" if "p \<noteq> STR_TOK" "follows rest" for p rest
    using Comma punctuation that by (simp add: follows_op)
  then show ?case using Comma.prems by (auto intro!: joined_paren)
next
  case (Assign x e)
  then show ?case using punctuation(6) by (auto intro!: joined_paren simp: op_next_def)
next
  case (Assign_Op op x e)
  then show ?case by (auto intro!: joined_paren simp: op_next_def assign_ops_def)
next
  case (Incr t x)
  then show ?case by (auto simp: follows_def op_next_def)
qed (auto simp: follows_def)

lemma lex_text_pos: "joined p (l # ls) \<Longrightarrow> \<exists>c r. lex_text l = c # r \<and> \<not> cr_whitespace c"
proof (cases l)
  case (LNum n)
  obtain c ds where "decimal_digits n = c # ds" "is_digit c"
    using decimal_digits_facts [of n] by (cases "decimal_digits n") auto
  then show ?thesis using LNum by (auto simp: is_digit_def cr_whitespace_def whitespace_def)
next
  case (LName x)
  assume "joined p (l # ls)"
  then have "legal_name x" using LName by simp
  then show ?thesis using LName by (auto elim: legal_name_facts)
next
  case (LOp t)
  assume "joined p (l # ls)"
  then show ?thesis using LOp op_text_start [of t] by auto
next
  case (LAssign t)
  assume "joined p (l # ls)"
  then show ?thesis using LAssign op_text_start [of t] by auto
qed

lemma length_text: "joined p ls \<Longrightarrow> length ls \<le> length (text_of ls)"
proof (induction ls arbitrary: p)
  case (Cons l ls)
  then have "length ls \<le> length (text_of ls)" using joined_tl by blast
  then show ?case by simp
qed simp

section \<open>Whole expressions\<close>

context scalar_shell begin

lemma subexpr_text:
  assumes wf: "wf_aexp e" and s: "good (vars s)" "noeval s = 0" "Suc (length (expr_stack s)) < MAX_EXPR_RECURSION_LEVEL"
  shows "case eval e (env (vars s)) of
      (Inr v, \<sigma>) \<Rightarrow> \<exists>t. subexpr (Suc (Suc k)) ops (text_of (lexemes e 0)) s = Done v t \<and> good (vars t) \<and> env (vars t) = \<sigma> \<and>
        expression t = expression s \<and> expr_stack t = expr_stack s
    | (Inl (Some msg), \<sigma>) \<Rightarrow> \<exists>t. subexpr (Suc (Suc k)) ops (text_of (lexemes e 0)) s = Longjmp (Some msg) t \<and>
        good (vars t) \<and> env (vars t) = \<sigma>
    | (Inl None, \<sigma>) \<Rightarrow> subexpr (Suc (Suc k)) ops (text_of (lexemes e 0)) s = Undefined"
proof -
  let ?ls = "lexemes e 0" and ?str = "text_of (lexemes e 0)" and ?rd = "scalar_reader k ops"
  have joined: "joined TEOF ?ls" using joined_lexemes [OF wf, of TEOF "[]" 0] by (simp add: follows_def op_next_def)
  have ne: "dropWhile cr_whitespace ?str \<noteq> []"
  proof (cases ?ls)
    case (Cons l ls)
    then show ?thesis using lex_text_pos [of TEOF l ls] joined by auto
  qed (use lexemes_pos [of e 0] in simp)
  let ?s1 = "s\<lparr>expr_stack := SAVETOK s # expr_stack s, expression := ?str, tp := 0, curtok := TEOF, lasttok := TEOF,
      tokstr := None, tokval := 0, curlval := init_lvalue\<rparr>"
  have "ready good ?s1" using s by (simp add: ready_def init_lvalue_def)
  moreover have "before ?ls ?s1" by (auto simp: before_def intro: exI [of _ "[]"])
  moreover have "joined (curtok ?s1) ?ls" using joined by simp
  ultimately obtain t where t: "?rd ?s1 = Done () t" "at_token env ?ls t" "ready good t" "same_frame ?s1 t" "vars t = vars s"
    using read_next [of ?s1 ?ls k] by (auto simp: scalar_reader_def)
  have ne0: "noeval t = 0" using t(4) s(2) by (simp add: same_frame_def)
  have ok: "rest_ok 0 []" "op_level (first_token []) \<noteq> 0" by (simp_all add: rest_ok_def op_level_def)
  obtain w where w: "yields (noeval t) e (env (vars t)) w" "completes env good ops k 0 (length ?ls) w [] t"
    using readable_completes [OF readable_wf [OF wf] _ ok t(3), of k] t(2) ne0 by auto
  have w_eval: "eval e (env (vars s)) = w" using w(1) ne0 t(5) by (simp add: yields_def)
  have fuel: "length ?ls \<le> length ?str + 1" using length_text [OF joined] by simp
  let ?last = "\<lambda>val s2. if curtok s2 \<noteq> TEOF then evalerror ''syntax error in expression'' s2 else andthen popexp (\<lambda>_. Done val) s2"
  have run: "subexpr (Suc (Suc k)) ops ?str s = andthen (lvl 0 ops ?rd (length ?str + 1) (length ?str)) ?last t"
    using s(3) t(1) unfolding subexpr.simps(2) [of "Suc k"] if_not_P [OF ne]
    by (simp add: Let_def pushexp_def expr_fuel_lvl scalar_reader_def)
  obtain r \<sigma> where rs: "w = (r, \<sigma>)" by (cases w)
  show ?thesis
  proof (cases r)
    case (Inl msg)
    show ?thesis
    proof (cases msg)
      case None
      then have "lvl 0 ops ?rd (length ?str + 1) (length ?str) t = Undefined"
        using w(2) fuel rs Inl by (simp add: completes_def ends_with_def)
      then show ?thesis using run w_eval rs Inl None by (simp del: subexpr.simps)
    next
      case (Some m)
      then obtain u where "good (vars u)" "env (vars u) = \<sigma>"
          "lvl 0 ops ?rd (length ?str + 1) (length ?str) t = Longjmp (Some m) u"
        using w(2) fuel rs Inl by (auto simp: completes_def ends_with_def)
      then show ?thesis using run w_eval rs Inl Some by (simp del: subexpr.simps)
    qed
  next
    case (Inr v)
    then obtain u where u: "reached env good [] t \<sigma> u" "lvl 0 ops ?rd (length ?str + 1) (length ?str) t = Done v u"
      using w(2) fuel rs by (auto simp: completes_def ends_with_def)
    have "curtok u = TEOF" "expr_stack u = SAVETOK s # expr_stack s" "good (vars u)" "env (vars u) = \<sigma>"
      using u(1) t(4) reached_curtok [OF u(1)] by (simp_all add: reached_def same_frame_def ready_def)
    then show ?thesis
      using run u(2) w_eval rs Inr by (simp add: popexp_def RESTORETOK_def SAVETOK_def del: subexpr.simps)
  qed
qed

end

section \<open>Properties\<close>

text \<open>
  C2. For every expression tree written out with as few parentheses as precedence and associativity
  allow, \<^verbatim>\<open>evalexp\<close> gives the value of the tree: precedence of all operators, right association of
  powers, assignments and conditionals, short circuits that neither evaluate nor assign, 64-bit
  wrap-around, the order of the effects on variables. An error makes the result invalid, and the
  effects before it stay. The only undefined results are the undefined shifts of the tree.
\<close>

theorem evalexp_agrees:
  assumes "scalar_shell ops env good" and "wf_aexp e" and "good (vars s)"
    and "Suc (length (expr_stack s)) < MAX_EXPR_RECURSION_LEVEL"
  shows "case eval e (env (vars s)) of
      (Inr v, \<sigma>) \<Rightarrow> \<exists>t. evalexp ops (text_of (lexemes e 0)) s = Done (v, True) t \<and> env (vars t) = \<sigma> \<and>
        expression t = expression s \<and> expr_stack t = expr_stack s
    | (Inl (Some msg), \<sigma>) \<Rightarrow> \<exists>t. evalexp ops (text_of (lexemes e 0)) s = Done (0, False) t \<and> env (vars t) = \<sigma> \<and>
        expr_stack t = []
    | (Inl None, \<sigma>) \<Rightarrow> evalexp ops (text_of (lexemes e 0)) s = Undefined"
proof -
  have k: "MAX_EXPR_RECURSION_LEVEL + 1 = Suc (Suc 1023)" by (simp add: MAX_EXPR_RECURSION_LEVEL_def)
  have "good (vars (s\<lparr>noeval := 0\<rparr>))" "Suc (length (expr_stack (s\<lparr>noeval := 0\<rparr>))) < MAX_EXPR_RECURSION_LEVEL"
    using assms(3,4) by simp_all
  from scalar_shell.subexpr_text [OF assms(1,2) this(1) _ this(2), where k = 1023]
  show ?thesis
    unfolding evalexp_def k by (auto simp del: subexpr.simps split: prod.splits sum.splits option.splits)
qed

text \<open>\<open>x = y++ < 3 && y > 1 ? (y + 1) * 2 - -1 : z\<close> where \<open>y\<close> is 2.\<close>

definition sample :: aexp where
  "sample = Assign ''x'' (Conditional (Logical LAND (Binary LT (Incr POSTINC ''y'') (Num 3)) (Binary GT (Var ''y'') (Num 1)))
     (Binary MINUS (Binary MUL (Binary PLUS (Var ''y'') (Num 1)) (Num 2)) (Unary MINUS (Num 1)))
     (Var ''z''))"

definition sample_state :: "(cstring \<rightharpoonup> cstring) expr_state" where
  "sample_state = \<lparr>curtok = TEOF, lasttok = TEOF, expression = [], tp = 0, lasttp = None, tokval = 0, tokstr = None, noeval = 0,
     curlval = init_lvalue, assigntok = TEOF, expr_stack = [], next_addr = 0, vars = [''y'' \<mapsto> itos 2]\<rparr>"

lemma sample_facts: "scalar_env [''y'' \<mapsto> itos 2] = (\<lambda>x. 0)(''y'' := 2)" "scalar_good [''y'' \<mapsto> itos 2]"
proof -
  have ok: "intmax_ok 2" by (simp add: intmax_ok_def int_limits)
  show "scalar_env [''y'' \<mapsto> itos 2] = (\<lambda>x. 0)(''y'' := 2)" by (auto simp: scalar_env_def legal_number_itos [OF ok])
  show "scalar_good [''y'' \<mapsto> itos 2]" using ok by (auto simp: scalar_good_def)
qed

lemma sample_eval: "eval sample ((\<lambda>x. 0)(''y'' := 2)) = (Inr 9, (\<lambda>x. 0)(''y'' := 3, ''x'' := 9))"
proof -
  have wr: "wrap64 3 = 3" "wrap64 4 = 4" "wrap64 8 = 8" "wrap64 9 = 9" "wrap64 (- 1) = - 1" by (simp_all add: wrap64_def)
  show ?thesis
    by (simp add: sample_def answer_then_def binary_value_def unary_value_def compare_values_def truth_def wr)
qed

theorem evalexp_agrees_witness:
  "text_of (lexemes sample 0) = ''x = y ++ < 3 && y > 1 ? ( y + 1 ) * 2 - - 1 : z '' \<and>
   (\<exists>t. evalexp scalar_ops (text_of (lexemes sample 0)) sample_state = Done (9, True) t \<and>
     scalar_env (vars t) ''y'' = 3 \<and> scalar_env (vars t) ''x'' = 9)"
proof
  show "text_of (lexemes sample 0) = ''x = y ++ < 3 && y > 1 ? ( y + 1 ) * 2 - - 1 : z ''" by code_simp
  have "wf_aexp sample" by code_simp
  from evalexp_agrees [OF scalars.scalar_shell_axioms this, of sample_state]
  show "\<exists>t. evalexp scalar_ops (text_of (lexemes sample 0)) sample_state = Done (9, True) t \<and>
     scalar_env (vars t) ''y'' = 3 \<and> scalar_env (vars t) ''x'' = 9"
    using sample_facts sample_eval by (auto simp: sample_state_def MAX_EXPR_RECURSION_LEVEL_def)
qed

end
