(* ===== verification/Test_Builtin.thy ===== *)
theory Test_Builtin
  imports Arith_Eval
begin

text \<open>
  The \<^verbatim>\<open>test\<close> and \<^verbatim>\<open>[\<close> commands, \<^verbatim>\<open>test.c\<close>: the operators, the recursive descent over the argument
  list from \<^verbatim>\<open>expr\<close> to \<^verbatim>\<open>term\<close>, the rules of POSIX for at most four arguments, and the proof that
  the command computes what an expression means. \<^verbatim>\<open>PATTERN_MATCHING\<close> is not defined in this system.
  The file system, the shell options and the variables are an argument.
\<close>

section \<open>State and outcomes\<close>

record file_status =
  st_dev :: nat
  st_ino :: nat
  st_mode :: nat
  st_uid :: nat
  st_gid :: nat
  st_size :: int
  st_atime :: int
  st_mtim :: "int \<times> int"

text \<open>A variable, as \<^verbatim>\<open>-v\<close> and \<^verbatim>\<open>-R\<close> see it; element 0 for an array, element \<^verbatim>\<open>"0"\<close> for an associative one.\<close>

datatype var_kind = Scalar | Indexed "cstring option" | Associative "cstring option"

record test_var =
  tv_kind :: var_kind
  tv_invisible :: bool
  tv_isset :: bool
  tv_nameref :: bool

text \<open>What \<^verbatim>\<open>test.c\<close> calls: the system, the shell, the pattern matcher. A subscript may change variables or jump (\<open>None\<close>).\<close>

record 'v test_ops =
  sh_stat :: "cstring \<Rightarrow> file_status option"
  lstat :: "cstring \<Rightarrow> file_status option"
  sh_eaccess :: "cstring \<Rightarrow> nat \<Rightarrow> bool"
  isatty :: "int \<Rightarrow> bool"
  euid :: nat
  egid :: nat
  minus_o_option_value :: "cstring \<Rightarrow> int"
  find_test_var :: "'v expr_state \<Rightarrow> cstring \<Rightarrow> test_var option"
  valid_array_reference :: "cstring \<Rightarrow> bool"
  array_value :: "'v expr_state \<Rightarrow> cstring \<Rightarrow> (cstring option \<times> 'v expr_state) option"
  strmatch :: "cstring \<Rightarrow> cstring \<Rightarrow> bool"
  strcoll :: "cstring \<Rightarrow> cstring \<Rightarrow> int"
  shell_compatibility_level :: nat
  arith_ops :: "'v shell_ops"

text \<open>
  A routine returns, leaves with \<^verbatim>\<open>test_exit\<close>, jumps to the top level, or reads outside a string (or
  does something else that C leaves undefined).
\<close>

datatype ('a, 'v) tres =
  Ret 'a "'v expr_state"
| Test_Exit nat "'v expr_state"
| Test_Jump "'v expr_state"
| Test_Undefined
| Test_No_Fuel

primrec tbind :: "('a, 'v) tres \<Rightarrow> ('a \<Rightarrow> 'v expr_state \<Rightarrow> ('b, 'v) tres) \<Rightarrow> ('b, 'v) tres" where
  "tbind (Ret x s) f = f x s"
| "tbind (Test_Exit n s) f = Test_Exit n s"
| "tbind (Test_Jump s) f = Test_Jump s"
| "tbind Test_Undefined f = Test_Undefined"
| "tbind Test_No_Fuel f = Test_No_Fuel"

text \<open>All errors have one status; the message is left out.\<close>

definition TEST_ERREXIT_STATUS :: nat where
  "TEST_ERREXIT_STATUS = 2"

definition test_syntax_error :: "'v expr_state \<Rightarrow> ('a, 'v) tres" where
  "test_syntax_error s = Test_Exit TEST_ERREXIT_STATUS s"

section \<open>Operators\<close>

datatype comparison = EQ_op | NE_op | LT_op | GT_op | LE_op | GE_op

definition TEST_PATMATCH :: nat where "TEST_PATMATCH = 1"
definition TEST_ARITHEXP :: nat where "TEST_ARITHEXP = 2"
definition TEST_LOCALE :: nat where "TEST_LOCALE = 4"

definition file_newer :: "int \<times> int \<Rightarrow> int \<times> int \<Rightarrow> bool" where
  "file_newer t1 t2 \<longleftrightarrow> fst t2 < fst t1 \<or> fst t1 = fst t2 \<and> snd t2 < snd t1"

definition same_file :: "file_status \<Rightarrow> file_status \<Rightarrow> bool" where
  "same_file st1 st2 \<longleftrightarrow> st_dev st1 = st_dev st2 \<and> st_ino st1 = st_ino st2"

text \<open>A file that exists is newer than one that does not.\<close>

definition filecomp :: "'v test_ops \<Rightarrow> cstring \<Rightarrow> cstring \<Rightarrow> char \<Rightarrow> bool" where
  "filecomp ops f g op =
     (case (sh_stat ops f, sh_stat ops g) of
        (Some a, Some b) \<Rightarrow>
          if op = CHR ''o'' then file_newer (st_mtim b) (st_mtim a)
          else if op = CHR ''n'' then file_newer (st_mtim a) (st_mtim b)
          else same_file a b
      | (Some a, None) \<Rightarrow> op = CHR ''n''
      | (None, Some b) \<Rightarrow> op = CHR ''o''
      | (None, None) \<Rightarrow> False)"

definition compare :: "comparison \<Rightarrow> int \<Rightarrow> int \<Rightarrow> bool" where
  "compare op l r =
     (case op of EQ_op \<Rightarrow> l = r | NE_op \<Rightarrow> l \<noteq> r | LT_op \<Rightarrow> l < r | GT_op \<Rightarrow> l > r | LE_op \<Rightarrow> l \<le> r | GE_op \<Rightarrow> l \<ge> r)"

text \<open>In a conditional command the operands are arithmetic expressions, for \<^verbatim>\<open>test\<close> they are numbers.\<close>

definition eval_operand :: "'v test_ops \<Rightarrow> cstring \<Rightarrow> (int \<Rightarrow> 'v expr_state \<Rightarrow> (bool, 'v) tres) \<Rightarrow> 'v expr_state \<Rightarrow> (bool, 'v) tres" where
  "eval_operand ops x f s =
     (case evalexp (arith_ops ops) x s of
        Done (v, ok) s1 \<Rightarrow> if ok then f v s1 else Ret False s1
      | Top_Level s1 \<Rightarrow> Test_Jump s1
      | No_Fuel \<Rightarrow> Test_No_Fuel
      | _ \<Rightarrow> Test_Undefined)"

definition arithcomp :: "'v test_ops \<Rightarrow> cstring \<Rightarrow> cstring \<Rightarrow> comparison \<Rightarrow> nat \<Rightarrow> 'v expr_state \<Rightarrow> (bool, 'v) tres" where
  "arithcomp ops a b op flags s =
     (if flags AND TEST_ARITHEXP \<noteq> 0
      then eval_operand ops a (\<lambda>l. eval_operand ops b (\<lambda>r. Ret (compare op l r))) s
      else
        case legal_number (Some a) of
          None \<Rightarrow> test_syntax_error s
        | Some l \<Rightarrow>
            (case legal_number (Some b) of
               None \<Rightarrow> test_syntax_error s
             | Some r \<Rightarrow> Ret (compare op l r) s))"

definition patcomp :: "'v test_ops \<Rightarrow> cstring \<Rightarrow> cstring \<Rightarrow> comparison \<Rightarrow> bool" where
  "patcomp ops str pat op = (strmatch ops pat str = (op = EQ_op))"

definition binary_test :: "'v test_ops \<Rightarrow> cstring \<Rightarrow> cstring \<Rightarrow> cstring \<Rightarrow> nat \<Rightarrow> 'v expr_state \<Rightarrow> (bool, 'v) tres" where
  "binary_test ops op a b flags s =
     (let patmatch = (flags AND TEST_PATMATCH \<noteq> 0)
      in if op = ''='' \<or> op = ''=='' then Ret (if patmatch then patcomp ops a b EQ_op else a = b) s
         else if op = ''>'' \<or> op = ''<'' then
           (let c = (if 40 < shell_compatibility_level ops \<and> flags AND TEST_LOCALE \<noteq> 0 then strcoll ops a b else strcmp a b)
            in Ret (if op = ''>'' then 0 < c else c < 0) s)
         else if op = ''!='' then Ret (if patmatch then patcomp ops a b NE_op else a \<noteq> b) s
         else if c_at op 2 = CHR ''t'' then
           (if c_at op 1 = CHR ''n'' \<or> c_at op 1 = CHR ''o'' then Ret (filecomp ops a b (c_at op 1)) s
            else if c_at op 1 = CHR ''l'' then arithcomp ops a b LT_op flags s
            else if c_at op 1 = CHR ''g'' then arithcomp ops a b GT_op flags s
            else Ret False s)
         else if c_at op 1 = CHR ''e'' then
           (if c_at op 2 = CHR ''f'' then Ret (filecomp ops a b (CHR ''e'')) s
            else if c_at op 2 = CHR ''q'' then arithcomp ops a b EQ_op flags s
            else Ret False s)
         else if c_at op 2 = CHR ''e'' then
           (if c_at op 1 = CHR ''n'' then arithcomp ops a b NE_op flags s
            else if c_at op 1 = CHR ''g'' then arithcomp ops a b GE_op flags s
            else if c_at op 1 = CHR ''l'' then arithcomp ops a b LE_op flags s
            else Ret False s)
         else Ret False s)"

text \<open>File modes (Linux).\<close>

definition S_IFMT :: nat where "S_IFMT = 0xF000"

definition has_type :: "nat \<Rightarrow> file_status \<Rightarrow> bool" where
  "has_type t st \<longleftrightarrow> st_mode st AND S_IFMT = t"

definition stat_holds :: "file_status option \<Rightarrow> (file_status \<Rightarrow> bool) \<Rightarrow> bool" where
  "stat_holds st P = (case st of None \<Rightarrow> False | Some a \<Rightarrow> P a)"

text \<open>\<^verbatim>\<open>-v\<close> and \<^verbatim>\<open>-R\<close>.\<close>

definition var_test :: "'v test_ops \<Rightarrow> cstring \<Rightarrow> 'v expr_state \<Rightarrow> (bool, 'v) tres" where
  "var_test ops x s =
     (case find_test_var ops s x of
        None \<Rightarrow>
          if valid_array_reference ops x then
            (case array_value ops s x of None \<Rightarrow> Test_Jump s | Some (t, s1) \<Rightarrow> Ret (t \<noteq> None) s1)
          else Ret False s
      | Some v \<Rightarrow>
          Ret (\<not> tv_invisible v \<and>
               (case tv_kind v of Indexed t \<Rightarrow> t \<noteq> None | Associative t \<Rightarrow> t \<noteq> None | Scalar \<Rightarrow> tv_isset v)) s)"

definition unary_test :: "'v test_ops \<Rightarrow> cstring \<Rightarrow> cstring \<Rightarrow> 'v expr_state \<Rightarrow> (bool, 'v) tres" where
  "unary_test ops op x s =
     (let c = c_at op 1; file = stat_holds (sh_stat ops x)
      in if c = CHR ''a'' \<or> c = CHR ''e'' then Ret (sh_stat ops x \<noteq> None) s
         else if c = CHR ''r'' then Ret (sh_eaccess ops x 4) s
         else if c = CHR ''w'' then Ret (sh_eaccess ops x 2) s
         else if c = CHR ''x'' then Ret (sh_eaccess ops x 1) s
         else if c = CHR ''O'' then Ret (file (\<lambda>st. euid ops = st_uid st)) s
         else if c = CHR ''G'' then Ret (file (\<lambda>st. egid ops = st_gid st)) s
         else if c = CHR ''N'' then Ret (file (\<lambda>st. st_atime st \<le> fst (st_mtim st))) s
         else if c = CHR ''f'' then Ret (file (\<lambda>st. has_type 0x8000 st \<or> has_type 0 st)) s
         else if c = CHR ''d'' then Ret (file (has_type 0x4000)) s
         else if c = CHR ''s'' then Ret (file (\<lambda>st. 0 < st_size st)) s
         else if c = CHR ''S'' then Ret (file (has_type 0xC000)) s
         else if c = CHR ''c'' then Ret (file (has_type 0x2000)) s
         else if c = CHR ''b'' then Ret (file (has_type 0x6000)) s
         else if c = CHR ''p'' then Ret (file (has_type 0x1000)) s
         else if c = CHR ''L'' \<or> c = CHR ''h'' then Ret (x \<noteq> [] \<and> stat_holds (lstat ops x) (has_type 0xA000)) s
         else if c = CHR ''u'' then Ret (file (\<lambda>st. st_mode st AND 0x800 \<noteq> 0)) s
         else if c = CHR ''g'' then Ret (file (\<lambda>st. st_mode st AND 0x400 \<noteq> 0)) s
         else if c = CHR ''k'' then Ret (file (\<lambda>st. st_mode st AND 0x200 \<noteq> 0)) s
         else if c = CHR ''t'' then
           Ret (case legal_number (Some x) of None \<Rightarrow> False | Some r \<Rightarrow> r = to_int32 r \<and> isatty ops r) s
         else if c = CHR ''n'' then Ret (x \<noteq> []) s
         else if c = CHR ''z'' then Ret (x = []) s
         else if c = CHR ''o'' then Ret (minus_o_option_value ops x = 1) s
         else if c = CHR ''v'' then var_test ops x s
         else if c = CHR ''R'' then
           Ret (case find_test_var ops s x of None \<Rightarrow> False
                | Some v \<Rightarrow> \<not> tv_invisible v \<and> tv_isset v \<and> tv_nameref v) s
         else Ret False s)"

text \<open>
  The operator predicates look at the third character of a word as soon as the first is a dash: for
  the word \<open>-\<close> that is behind the terminator, and the result is \<open>None\<close>.
\<close>

definition test_binop :: "cstring \<Rightarrow> bool option" where
  "test_binop op =
     (if op = ''='' \<or> op = ''<'' \<or> op = ''>'' \<or> op = ''=='' \<or> op = ''!='' then Some True
      else if c_at op 0 \<noteq> CHR ''-'' then Some False
      else if length op < 2 then None
      else if c_at op 2 = NUL \<or> c_at op 3 \<noteq> NUL then Some False
      else if c_at op 2 = CHR ''t'' then Some (c_at op 1 \<in> {CHR ''n'', CHR ''o'', CHR ''l'', CHR ''g''})
      else if c_at op 1 = CHR ''e'' then Some (c_at op 2 \<in> {CHR ''q'', CHR ''f''})
      else if c_at op 2 = CHR ''e'' then Some (c_at op 1 \<in> {CHR ''n'', CHR ''g'', CHR ''l''})
      else Some False)"

definition unop_letters :: cstring where
  "unop_letters = ''abcdefghknoprstuvwxzGLOSN''"

definition test_unop :: "cstring \<Rightarrow> bool option" where
  "test_unop op =
     (if c_at op 0 \<noteq> CHR ''-'' then Some False
      else if length op < 2 then None
      else Some (c_at op 2 = NUL \<and> c_at op 1 \<in> set unop_letters))"

section \<open>The parser\<close>

text \<open>
  \<^verbatim>\<open>argv\<close> ends in a null pointer; for \<open>[\<close>, \<^verbatim>\<open>argc\<close> does not count the closing bracket. A routine
  gets \<^verbatim>\<open>pos\<close> and returns the new one with its value.
\<close>

type_synonym 'v parsed_test = "(bool \<times> nat, 'v) tres"

definition binary_operator :: "'v test_ops \<Rightarrow> cstring list \<Rightarrow> nat \<Rightarrow> 'v expr_state \<Rightarrow> 'v parsed_test" where
  "binary_operator ops argv pos s =
     (let w = argv ! (pos + 1)
      in if w = ''='' \<or> w = ''=='' \<or> w = ''>'' \<or> w = ''<'' \<or> w = ''!='' \<or>
            c_at w 0 = CHR ''-'' \<and> c_at w 3 = NUL \<and> test_binop w = Some True
         then tbind (binary_test ops w (argv ! pos) (argv ! (pos + 2)) 0 s) (\<lambda>v. Ret (v, pos + 3))
         else test_syntax_error s)"

definition unary_operator :: "'v test_ops \<Rightarrow> nat \<Rightarrow> cstring list \<Rightarrow> nat \<Rightarrow> 'v expr_state \<Rightarrow> 'v parsed_test" where
  "unary_operator ops argc argv pos s =
     (let op = argv ! pos
      in case test_unop op of
           None \<Rightarrow> Test_Undefined
         | Some known \<Rightarrow>
             if \<not> known then Ret (False, pos) s
             else if c_at op 1 = CHR ''t'' then
               (if pos + 1 < argc then
                  (if legal_number (Some (argv ! (pos + 1))) = None then Ret (False, pos + 1) s
                   else tbind (unary_test ops op (argv ! (pos + 1)) s) (\<lambda>v. Ret (v, pos + 2)))
                else tbind (unary_test ops op ''1'' s) (\<lambda>v. Ret (v, pos + 1)))
             else if pos + 1 < argc then tbind (unary_test ops op (argv ! (pos + 1)) s) (\<lambda>v. Ret (v, pos + 2))
             else test_syntax_error s)"

text \<open>A word that may be a switch: what \<^verbatim>\<open>argv[pos][0] == '-' && argv[pos][2] == '\0'\<close> sees.\<close>

definition switch_word :: "cstring \<Rightarrow> bool option" where
  "switch_word w = (if c_at w 0 \<noteq> CHR ''-'' then Some False else if length w < 2 then None else Some (c_at w 2 = NUL))"

text \<open>The leading \<open>!\<close> words: the position after them and whether their number is odd; \<open>None\<close> at the end.\<close>

function not_loop :: "nat \<Rightarrow> cstring list \<Rightarrow> nat \<Rightarrow> bool \<Rightarrow> (nat \<times> bool) option" where
  "not_loop argc argv pos value =
     (if pos < argc \<and> argv ! pos = ''!'' then
        (if argc \<le> pos + 1 then None else not_loop argc argv (pos + 1) (\<not> value))
      else Some (pos, value))"
  by pat_completeness auto
termination by (relation "measure (\<lambda>(argc, argv, pos, value). argc - pos)") auto

declare not_loop.simps [simp del]

text \<open>The bodies of the routines, over the routines they call.\<close>

type_synonym 'v test_parser = "nat \<Rightarrow> 'v expr_state \<Rightarrow> 'v parsed_test"

definition or_body :: "nat \<Rightarrow> cstring list \<Rightarrow> 'v test_parser \<Rightarrow> 'v test_parser \<Rightarrow> 'v test_parser" where
  "or_body argc argv call_and call_or pos s =
     tbind (call_and pos s) (\<lambda>(value, pos) s.
       if pos < argc \<and> argv ! pos = ''-o''
       then tbind (call_or (pos + 1) s) (\<lambda>(v2, pos). Ret (value \<or> v2, pos))
       else Ret (value, pos) s)"

definition and_body :: "nat \<Rightarrow> cstring list \<Rightarrow> 'v test_parser \<Rightarrow> 'v test_parser \<Rightarrow> 'v test_parser" where
  "and_body argc argv call_term call_and pos s =
     tbind (call_term pos s) (\<lambda>(value, pos) s.
       if pos < argc \<and> argv ! pos = ''-a''
       then tbind (call_and (pos + 1) s) (\<lambda>(v2, pos). Ret (value \<and> v2, pos))
       else Ret (value, pos) s)"

definition simple_term :: "'v test_ops \<Rightarrow> nat \<Rightarrow> cstring list \<Rightarrow> 'v test_parser" where
  "simple_term ops argc argv pos s =
     (case (if pos + 3 \<le> argc then test_binop (argv ! (pos + 1)) else Some False) of
        None \<Rightarrow> Test_Undefined
      | Some is_binop \<Rightarrow>
          if is_binop then binary_operator ops argv pos s
          else
            case switch_word (argv ! pos) of
              None \<Rightarrow> Test_Undefined
            | Some is_switch \<Rightarrow>
                if \<not> is_switch then Ret (argv ! pos \<noteq> [], pos + 1) s
                else if test_unop (argv ! pos) = Some True then unary_operator ops argc argv pos s
                else test_syntax_error s)"

definition term_body :: "'v test_ops \<Rightarrow> nat \<Rightarrow> cstring list \<Rightarrow> 'v test_parser \<Rightarrow> 'v test_parser \<Rightarrow> 'v test_parser" where
  "term_body ops argc argv call_term call_expr pos s =
     (if argc \<le> pos then test_syntax_error s
      else if argv ! pos = ''!'' then
        (case not_loop argc argv pos False of
           None \<Rightarrow> test_syntax_error s
         | Some (pos', value) \<Rightarrow> tbind (call_term pos' s) (\<lambda>(v, p). Ret (value \<noteq> v, p)))
      else if argv ! pos = ''('' then
        (if argc \<le> pos + 1 then test_syntax_error s
         else tbind (call_expr (pos + 1) s) (\<lambda>(v, p) s.
                if p < length argv \<and> argv ! p = '')'' then Ret (v, p + 1) s else test_syntax_error s))
      else simple_term ops argc argv pos s)"

function (sequential) test_expr :: "nat \<Rightarrow> 'v test_ops \<Rightarrow> nat \<Rightarrow> cstring list \<Rightarrow> 'v test_parser"
  and test_or :: "nat \<Rightarrow> 'v test_ops \<Rightarrow> nat \<Rightarrow> cstring list \<Rightarrow> 'v test_parser"
  and test_and :: "nat \<Rightarrow> 'v test_ops \<Rightarrow> nat \<Rightarrow> cstring list \<Rightarrow> 'v test_parser"
  and test_term :: "nat \<Rightarrow> 'v test_ops \<Rightarrow> nat \<Rightarrow> cstring list \<Rightarrow> 'v test_parser" where
  "test_expr 0 ops argc argv = (\<lambda>pos s. Test_No_Fuel)"
| "test_expr (Suc n) ops argc argv =
     (\<lambda>pos s. if argc \<le> pos then test_syntax_error s else test_or n ops argc argv pos s)"
| "test_or 0 ops argc argv = (\<lambda>pos s. Test_No_Fuel)"
| "test_or (Suc n) ops argc argv = or_body argc argv (test_and n ops argc argv) (test_or n ops argc argv)"
| "test_and 0 ops argc argv = (\<lambda>pos s. Test_No_Fuel)"
| "test_and (Suc n) ops argc argv = and_body argc argv (test_term n ops argc argv) (test_and n ops argc argv)"
| "test_term 0 ops argc argv = (\<lambda>pos s. Test_No_Fuel)"
| "test_term (Suc n) ops argc argv = term_body ops argc argv (test_term n ops argc argv) (test_expr n ops argc argv)"
  by pat_completeness auto
termination by (relation "measure (case_sum (case_sum fst fst) (case_sum fst fst))") auto

section \<open>At most four arguments\<close>

definition two_arguments :: "'v test_ops \<Rightarrow> nat \<Rightarrow> cstring list \<Rightarrow> nat \<Rightarrow> 'v expr_state \<Rightarrow> 'v parsed_test" where
  "two_arguments ops argc argv pos s =
     (if argv ! pos = ''!'' then Ret (argv ! (pos + 1) = [], pos) s
      else
        case switch_word (argv ! pos) of
          None \<Rightarrow> Test_Undefined
        | Some is_switch \<Rightarrow>
            if is_switch \<and> test_unop (argv ! pos) = Some True then unary_operator ops argc argv pos s
            else test_syntax_error s)"

definition three_arguments :: "'v test_ops \<Rightarrow> nat \<Rightarrow> cstring list \<Rightarrow> nat \<Rightarrow> 'v expr_state \<Rightarrow> 'v parsed_test" where
  "three_arguments ops argc argv pos s =
     (let x = argv ! pos; op = argv ! (pos + 1); y = argv ! (pos + 2)
      in case test_binop op of
           None \<Rightarrow> Test_Undefined
         | Some True \<Rightarrow> tbind (binary_operator ops argv pos s) (\<lambda>(v, p). Ret (v, argc))
         | Some False \<Rightarrow>
             if op = ''-a'' then Ret (x \<noteq> [] \<and> y \<noteq> [], argc) s
             else if op = ''-o'' then Ret (x \<noteq> [] \<or> y \<noteq> [], argc) s
             else if x = ''!'' then
               (if argc \<le> pos + 1 then test_syntax_error s
                else tbind (two_arguments ops argc argv (pos + 1) s) (\<lambda>(v, p). Ret (\<not> v, p)))
             else if c_at x 0 = CHR ''('' \<and> c_at y 0 = CHR '')'' then Ret (op \<noteq> [], argc) s
             else test_syntax_error s)"

text \<open>Fuel for the descent: four routines for every argument.\<close>

definition test_fuel :: "nat \<Rightarrow> nat" where
  "test_fuel argc = 4 * argc + 4"

definition posixtest :: "'v test_ops \<Rightarrow> nat \<Rightarrow> cstring list \<Rightarrow> 'v expr_state \<Rightarrow> 'v parsed_test" where
  "posixtest ops argc argv s =
     (if argc = 1 then Ret (False, argc) s
      else if argc = 2 then Ret (argv ! 1 \<noteq> [], argc) s
      else if argc = 3 then tbind (two_arguments ops argc argv 1 s) (\<lambda>(v, p). Ret (v, argc))
      else if argc = 4 then three_arguments ops argc argv 1 s
      else if argc = 5 \<and> argv ! 1 = ''!'' then
        tbind (three_arguments ops argc argv 2 s) (\<lambda>(v, p). Ret (\<not> v, p))
      else test_expr (test_fuel argc) ops argc argv 1 s)"

definition SHELL_BOOLEAN :: "bool \<Rightarrow> nat" where
  "SHELL_BOOLEAN value = (if value then 0 else 1)"

text \<open>The command always leaves through \<^verbatim>\<open>test_exit\<close>.\<close>

definition test_command :: "'v test_ops \<Rightarrow> cstring list \<Rightarrow> 'v expr_state \<Rightarrow> (nat, 'v) tres" where
  "test_command ops margv s =
     (let bracket = (margv \<noteq> [] \<and> margv ! 0 = ''['');
          argc = (if bracket then length margv - 1 else length margv)
      in if bracket \<and> margv ! argc \<noteq> '']'' then test_syntax_error s
         else if argc \<le> 1 then Test_Exit (SHELL_BOOLEAN False) s
         else tbind (posixtest ops argc margv s) (\<lambda>(value, pos) s.
                if pos \<noteq> argc then test_syntax_error s else Test_Exit (SHELL_BOOLEAN value) s))"

section \<open>The command always ends\<close>

text \<open>A routine at \<open>pos\<close> ends without reading outside a string; when it returns it has moved on.\<close>

definition safe :: "nat \<Rightarrow> 'v parsed_test \<Rightarrow> bool" where
  "safe pos r \<longleftrightarrow>
     (case r of
        Ret (v, p) s \<Rightarrow> pos < p
      | Test_Exit status s \<Rightarrow> status = TEST_ERREXIT_STATUS
      | Test_Jump s \<Rightarrow> True
      | _ \<Rightarrow> False)"

definition safe_value :: "(bool, 'v) tres \<Rightarrow> bool" where
  "safe_value r \<longleftrightarrow>
     (case r of
        Ret v s \<Rightarrow> True
      | Test_Exit status s \<Rightarrow> status = TEST_ERREXIT_STATUS
      | Test_Jump s \<Rightarrow> True
      | _ \<Rightarrow> False)"

lemma safe_simps [simp]:
  "safe pos (Ret (v, p) s) \<longleftrightarrow> pos < p" "safe pos (test_syntax_error s)" "\<not> safe pos Test_Undefined" "\<not> safe pos Test_No_Fuel"
  "safe_value (Ret v s)" "safe_value (test_syntax_error s)" "safe_value (Test_Jump s)"
  by (simp_all add: safe_def safe_value_def test_syntax_error_def)

lemma safe_bind:
  assumes "safe pos r" and "\<And>v p s. pos < p \<Longrightarrow> safe pos (f (v, p) s)"
  shows "safe pos (tbind r f)"
  using assms by (cases r) (auto simp: safe_def split: prod.splits)

lemma safe_bind_value: "safe_value r \<Longrightarrow> (\<And>v s. safe pos (f v s)) \<Longrightarrow> safe pos (tbind r f)"
  by (cases r) (auto simp: safe_value_def safe_def)

lemma safe_le: "safe p r \<Longrightarrow> pos \<le> p \<Longrightarrow> safe pos r"
  by (auto simp: safe_def split: tres.splits)

lemma arithcomp_safe: "safe_value (arithcomp ops a b op 0 s)"
  by (auto simp: arithcomp_def split: option.splits)

lemma binary_test_safe: "safe_value (binary_test ops op a b 0 s)"
  by (simp add: binary_test_def Let_def arithcomp_safe)

lemma var_test_safe: "safe_value (var_test ops x s)"
  by (auto simp: var_test_def split: option.splits)

lemma unary_test_safe: "safe_value (unary_test ops op x s)"
  by (simp add: unary_test_def Let_def var_test_safe)

lemma binary_operator_safe: "safe pos (binary_operator ops argv pos s)"
  by (simp add: binary_operator_def Let_def safe_bind_value binary_test_safe)

lemma unary_operator_safe: "test_unop (argv ! pos) = Some True \<Longrightarrow> safe pos (unary_operator ops argc argv pos s)"
  by (simp add: unary_operator_def Let_def safe_bind_value unary_test_safe)

lemma dash_only: "c_at w 0 = CHR ''-'' \<Longrightarrow> length w < 2 \<Longrightarrow> w = ''-''"
  by (cases w) (auto simp: c_at_def split: if_splits)

lemma no_dash_known:
  assumes "w \<noteq> ''-''"
  shows "test_binop w \<noteq> None" "switch_word w \<noteq> None"
proof -
  have "c_at w 0 \<noteq> CHR ''-'' \<or> \<not> length w < 2" using assms dash_only by blast
  then show "test_binop w \<noteq> None" "switch_word w \<noteq> None"
    by (elim disjE; simp only: test_binop_def switch_word_def if_True if_False not_True_eq_False not_False_eq_True
        simp_thms option.simps split: if_split)+
qed

lemma not_loop_forward: "not_loop argc argv pos v0 = Some (p, v) \<Longrightarrow> pos \<le> p"
  by (induction argc argv pos v0 rule: not_loop.induct) (subst (asm) not_loop.simps, auto split: if_splits)

lemma not_loop_moves: "not_loop argc argv pos v0 = Some (p, v) \<Longrightarrow> pos < argc \<Longrightarrow> argv ! pos = ''!'' \<Longrightarrow> pos < p"
  by (subst (asm) not_loop.simps) (auto split: if_splits dest: not_loop_forward)

text \<open>No word is \<open>-\<close>; then \<^verbatim>\<open>simple_term\<close> reads inside its words.\<close>

lemma simple_term_safe:
  assumes "''-'' \<notin> set argv" and "pos < argc" "argc \<le> length argv"
  shows "safe pos (simple_term ops argc argv pos s)"
proof -
  have "argv ! pos \<noteq> ''-''" using assms by (metis nth_mem order_less_le_trans)
  moreover have "argv ! (pos + 1) \<noteq> ''-''" if "pos + 3 \<le> argc"
  proof -
    have "argv ! (pos + 1) \<in> set argv" using that assms(3) by (intro nth_mem) simp
    then show ?thesis using assms(1) by metis
  qed
  ultimately obtain b c where "(if pos + 3 \<le> argc then test_binop (argv ! (pos + 1)) else Some False) = Some b"
      "switch_word (argv ! pos) = Some c"
    using no_dash_known [of "argv ! pos"] no_dash_known [of "argv ! (pos + 1)"] by (cases "pos + 3 \<le> argc") auto
  then show ?thesis by (simp add: simple_term_def binary_operator_safe unary_operator_safe)
qed

lemma descent_safe:
  assumes "''-'' \<notin> set argv" and "argc \<le> length argv"
  shows "4 * (argc - pos) + 4 \<le> n \<Longrightarrow> safe pos (test_expr n ops argc argv pos s)"
    "4 * (argc - pos) + 3 \<le> n \<Longrightarrow> safe pos (test_or n ops argc argv pos s)"
    "4 * (argc - pos) + 2 \<le> n \<Longrightarrow> safe pos (test_and n ops argc argv pos s)"
    "4 * (argc - pos) + 1 \<le> n \<Longrightarrow> safe pos (test_term n ops argc argv pos s)"
proof (induction n arbitrary: pos s)
  case (Suc n)
  { case 1 then show ?case using Suc.IH(2) by simp }
  { case 2
    have "safe pos (tbind (test_or n ops argc argv (p + 1) s) (\<lambda>(v2, p). Ret (v \<or> v2, p)))" if "pos < p" "p < argc" for p v s
    proof (rule safe_bind)
      show "safe pos (test_or n ops argc argv (p + 1) s)"
        using 2 that by (intro safe_le [OF Suc.IH(2)]) auto
    qed simp
    then show ?case using 2 by (auto simp: or_body_def intro!: safe_bind Suc.IH(3)) }
  { case 3
    have "safe pos (tbind (test_and n ops argc argv (p + 1) s) (\<lambda>(v2, p). Ret (v \<and> v2, p)))" if "pos < p" "p < argc" for p v s
    proof (rule safe_bind)
      show "safe pos (test_and n ops argc argv (p + 1) s)"
        using 3 that by (intro safe_le [OF Suc.IH(3)]) auto
    qed simp
    then show ?case using 3 by (auto simp: and_body_def intro!: safe_bind Suc.IH(4)) }
  { case 4
    have "safe pos (test_term n ops argc argv p s)" if "pos < p" "pos < argc" for p
      using 4 that by (intro safe_le [OF Suc.IH(4)]) auto
    moreover have "safe pos (test_expr n ops argc argv (pos + 1) s)" if "pos < argc"
      using 4 that by (intro safe_le [OF Suc.IH(1)]) auto
    moreover have "safe pos (simple_term ops argc argv pos s)" if "pos < argc"
      using simple_term_safe [OF assms(1) that assms(2)] .
    ultimately show ?case
      by (auto simp: term_body_def not_le dest: not_loop_moves intro!: safe_bind split: option.splits) }
qed simp_all

text \<open>The outcome of the whole command: a status of 0, 1 or 2, or a jump out of a subscript.\<close>

definition exits :: "(nat, 'v) tres \<Rightarrow> bool" where
  "exits r \<longleftrightarrow> (\<exists>status s. r = Test_Exit status s \<and> status \<le> 2) \<or> (\<exists>s. r = Test_Jump s)"

lemma exits_simps [simp]: "exits (test_syntax_error s)" "exits (Test_Exit (SHELL_BOOLEAN v) s)" "exits (Test_Jump s)"
  by (auto simp: exits_def test_syntax_error_def TEST_ERREXIT_STATUS_def SHELL_BOOLEAN_def)

definition no_trap :: "'v parsed_test \<Rightarrow> bool" where
  "no_trap r \<longleftrightarrow> (case r of Ret x s \<Rightarrow> True | Test_Exit status s \<Rightarrow> status \<le> 2 | Test_Jump s \<Rightarrow> True | _ \<Rightarrow> False)"

lemma no_trap_simps [simp]: "no_trap (Ret x s)" "no_trap (test_syntax_error s)"
  by (simp_all add: no_trap_def test_syntax_error_def TEST_ERREXIT_STATUS_def)

lemma safe_no_trap: "safe pos r \<Longrightarrow> no_trap r"
  by (cases r) (auto simp: safe_def no_trap_def TEST_ERREXIT_STATUS_def)

lemma no_trap_bind: "no_trap r \<Longrightarrow> (\<And>v p s. no_trap (f (v, p) s)) \<Longrightarrow> no_trap (tbind r f)"
  by (cases r) (auto simp: no_trap_def)

lemma two_no_trap:
  assumes "''-'' \<notin> set argv" and "pos < length argv"
  shows "no_trap (two_arguments ops argc argv pos s)"
proof -
  have "switch_word (argv ! pos) \<noteq> None" using assms no_dash_known(2) nth_mem by metis
  then show ?thesis by (auto simp: two_arguments_def safe_no_trap [OF unary_operator_safe])
qed

lemma three_no_trap:
  assumes "''-'' \<notin> set argv" and "pos + 2 < length argv"
  shows "no_trap (three_arguments ops argc argv pos s)"
proof -
  have "argv ! (pos + 1) \<in> set argv" using assms(2) by (intro nth_mem) simp
  then obtain b where "test_binop (argv ! (pos + 1)) = Some b" using assms(1) no_dash_known(1) by (metis option.exhaust)
  moreover have "no_trap (two_arguments ops argc argv (pos + 1) s)" using assms by (intro two_no_trap) simp_all
  ultimately show ?thesis
    by (cases b) (auto simp: three_arguments_def Let_def intro!: no_trap_bind safe_no_trap [OF binary_operator_safe])
qed

lemma posixtest_no_trap:
  assumes "''-'' \<notin> set argv" and "argc \<le> length argv" "1 \<le> argc"
  shows "no_trap (posixtest ops argc argv s)"
proof -
  have "no_trap (test_expr (test_fuel argc) ops argc argv 1 s)"
    using descent_safe(1) [OF assms(1,2), of 1 "test_fuel argc" ops s] assms(3) safe_no_trap by (simp add: test_fuel_def)
  moreover have "no_trap (two_arguments ops argc argv 1 s)" if "argc = 3" using assms that by (intro two_no_trap) simp_all
  moreover have "no_trap (three_arguments ops argc argv 1 s)" if "argc = 4" using assms that by (intro three_no_trap) simp_all
  moreover have "no_trap (three_arguments ops argc argv 2 s)" if "argc = 5" using assms that by (intro three_no_trap) simp_all
  ultimately show ?thesis by (auto simp: posixtest_def intro!: no_trap_bind)
qed

lemma no_trap_exits:
  "no_trap r \<Longrightarrow> exits (tbind r (\<lambda>(value, pos) s. if pos \<noteq> argc then test_syntax_error s else Test_Exit (SHELL_BOOLEAN value) s))"
  by (cases r) (auto simp: no_trap_def exits_def test_syntax_error_def TEST_ERREXIT_STATUS_def SHELL_BOOLEAN_def)

section \<open>What a test expression means\<close>

text \<open>
  Expressions, their words with as few parentheses as possible where level \<open>k\<close> is expected (0 for
  \<^verbatim>\<open>or\<close>, 1 for \<^verbatim>\<open>and\<close>, 2 for \<^verbatim>\<open>term\<close>), and their value: both sides of a connective are evaluated.
\<close>

datatype texp =
  Text cstring | Unop cstring cstring | Binop cstring cstring cstring | Negation texp | Conj texp texp | Disj texp texp

definition tparen :: "bool \<Rightarrow> cstring list \<Rightarrow> cstring list" where
  "tparen b ws = (if b then ''('' # ws @ ['')''] else ws)"

primrec twords :: "texp \<Rightarrow> nat \<Rightarrow> cstring list" where
  "twords (Text w) k = [w]"
| "twords (Unop op w) k = [op, w]"
| "twords (Binop op a b) k = [a, op, b]"
| "twords (Negation e) k = ''!'' # twords e 2"
| "twords (Conj a b) k = tparen (1 < k) (twords a 2 @ ''-a'' # twords b 1)"
| "twords (Disj a b) k = tparen (0 < k) (twords a 1 @ ''-o'' # twords b 0)"

primrec teval :: "'v test_ops \<Rightarrow> texp \<Rightarrow> 'v expr_state \<Rightarrow> (bool, 'v) tres" where
  "teval ops (Text w) s = Ret (w \<noteq> []) s"
| "teval ops (Unop op w) s = unary_test ops op w s"
| "teval ops (Binop op a b) s = binary_test ops op a b 0 s"
| "teval ops (Negation e) s = tbind (teval ops e s) (\<lambda>v. Ret (\<not> v))"
| "teval ops (Conj a b) s = tbind (teval ops a s) (\<lambda>u s. tbind (teval ops b s) (\<lambda>v. Ret (u \<and> v)))"
| "teval ops (Disj a b) s = tbind (teval ops a s) (\<lambda>u s. tbind (teval ops b s) (\<lambda>v. Ret (u \<or> v)))"

text \<open>
  Words that are read as what they are: a string is no operator, parenthesis or \<open>!\<close>; the operand of a
  unary operator is no binary one; the left operand of a binary operator is neither \<open>!\<close> nor \<open>(\<close>, the
  right one is any word.
\<close>

primrec wf_texp :: "texp \<Rightarrow> bool" where
  "wf_texp (Text w) =
     (w \<notin> {''!'', ''('', '')''} \<and> switch_word w = Some False \<and> test_binop w = Some False)"
| "wf_texp (Unop op w) =
     (test_unop op = Some True \<and> op \<notin> {''-a'', ''-o''} \<and> test_binop w = Some False \<and>
      (c_at op 1 = CHR ''t'' \<longrightarrow> legal_number (Some w) \<noteq> None))"
| "wf_texp (Binop op a b) = (test_binop op = Some True \<and> a \<notin> {''!'', ''(''})"
| "wf_texp (Negation e) = wf_texp e"
| "wf_texp (Conj a b) = (wf_texp a \<and> wf_texp b)"
| "wf_texp (Disj a b) = (wf_texp a \<and> wf_texp b)"

subsection \<open>The descent reads the words\<close>

text \<open>The rest of the arguments from \<open>pos\<close> on.\<close>

definition here :: "nat \<Rightarrow> cstring list \<Rightarrow> nat \<Rightarrow> cstring list \<Rightarrow> bool" where
  "here argc argv pos ws \<longleftrightarrow> argc \<le> length argv \<and> drop pos (take argc argv) = ws"

lemma here_Cons:
  assumes "here argc argv pos (w # ws)"
  shows "pos < argc" "argv ! pos = w" "here argc argv (pos + 1) ws"
proof -
  have d: "drop pos (take argc argv) = w # ws" "argc \<le> length argv" using assms by (simp_all add: here_def)
  show pos: "pos < argc" using arg_cong [OF d(1), of length] d(2) by simp
  show "argv ! pos = w" using nth_via_drop [OF d(1)] pos d(2) by simp
  show "here argc argv (pos + 1) ws"
    using d by (simp add: here_def drop_Suc [symmetric] flip: drop_drop) (metis drop_Suc list.sel(3) tl_drop)
qed

lemma here_append: "here argc argv pos (us @ ws) \<Longrightarrow> here argc argv (pos + length us) ws"
  by (auto simp: here_def) (metis add.commute append_eq_conv_conj drop_drop)

lemma here_end: "here argc argv pos [] \<Longrightarrow> argc \<le> pos"
  by (auto simp: here_def)

definition level :: "nat \<Rightarrow> nat \<Rightarrow> 'v test_ops \<Rightarrow> nat \<Rightarrow> cstring list \<Rightarrow> 'v test_parser" where
  "level k = (if k = 0 then test_or else if k = 1 then test_and else test_term)"

definition ends_level :: "nat \<Rightarrow> cstring list \<Rightarrow> bool" where
  "ends_level k ws \<longleftrightarrow> ws = [] \<or> hd ws = '')'' \<or> k = 1 \<and> hd ws = ''-o'' \<or> k = 2 \<and> (hd ws = ''-a'' \<or> hd ws = ''-o'')"

text \<open>\<open>ws\<close> is read at level \<open>k\<close> with the outcome \<open>F\<close>.\<close>

definition reads :: "'v test_ops \<Rightarrow> nat \<Rightarrow> cstring list \<Rightarrow> ('v expr_state \<Rightarrow> (bool, 'v) tres) \<Rightarrow> bool" where
  "reads ops k ws F \<longleftrightarrow>
     (\<forall>n argc argv pos rest s. here argc argv pos (ws @ rest) \<longrightarrow> ends_level k rest \<longrightarrow> 4 * length ws + 3 \<le> n + k \<longrightarrow>
        level k n ops argc argv pos s = tbind (F s) (\<lambda>v. Ret (v, pos + length ws)))"

lemma tbind_assoc: "tbind (tbind r f) g = tbind r (\<lambda>x s. tbind (f x s) g)"
  by (cases r) simp_all

lemma tbind_cong: "(\<And>x s. f x s = g x s) \<Longrightarrow> tbind r f = tbind r g"
  by (cases r) simp_all

lemma reads_lower:
  assumes "reads ops (k + 1) ws F" and "k \<le> 1"
  shows "reads ops k ws F"
  unfolding reads_def
proof (intro allI impI)
  fix n argc argv pos rest and s :: "'a expr_state"
  assume h: "here argc argv pos (ws @ rest)" and e: "ends_level k rest" and n: "4 * length ws + 3 \<le> n + k"
  obtain n' where n': "n = Suc n'" using n assms(2) by (cases n) auto
  let ?p = "pos + length ws"
  have stop: "\<not> (?p < argc \<and> argv ! ?p = (if k = 0 then ''-o'' else ''-a''))"
  proof (cases rest)
    case Nil
    then show ?thesis using here_end [of argc argv ?p] here_append [OF h] by simp
  next
    case (Cons w ws')
    then have "argv ! ?p = w" using here_Cons(2) here_append [OF h] by simp
    then show ?thesis using e Cons assms(2) by (auto simp: ends_level_def)
  qed
  have "ends_level (k + 1) rest" using e assms(2) by (auto simp: ends_level_def)
  then have "level (k + 1) n' ops argc argv pos s = tbind (F s) (\<lambda>v. Ret (v, ?p))"
    using assms(1) h n n' unfolding reads_def by auto
  then show "level k n ops argc argv pos s = tbind (F s) (\<lambda>v. Ret (v, ?p))"
    using stop assms(2)
    by (cases "k = 0") (auto simp: level_def n' or_body_def and_body_def tbind_assoc intro!: tbind_cong)
qed


lemma reads_term:
  assumes "\<And>n argc argv pos rest s. here argc argv pos (ws @ rest) \<Longrightarrow> ends_level 2 rest \<Longrightarrow> 4 * length ws \<le> n + 2 \<Longrightarrow>
      term_body ops argc argv (test_term n ops argc argv) (test_expr n ops argc argv) pos s = tbind (F s) (\<lambda>v. Ret (v, pos + length ws))"
  shows "reads ops 2 ws F"
  unfolding reads_def
proof (intro allI impI)
  fix n argc argv pos rest and s :: "'a expr_state"
  assume h: "here argc argv pos (ws @ rest)" and e: "ends_level 2 rest" and n: "4 * length ws + 3 \<le> n + 2"
  then obtain n' where "n = Suc n'" by (cases n) auto
  with assms [OF h e, of n' s] n show "level 2 n ops argc argv pos s = tbind (F s) (\<lambda>v. Ret (v, pos + length ws))"
    by (simp add: level_def)
qed

lemma here_nonempty: "here argc argv pos (ws @ rest) \<Longrightarrow> ws \<noteq> [] \<Longrightarrow> pos < argc \<and> argv ! pos = hd ws"
  by (cases ws) (auto dest: here_Cons)

lemma known_unop: "test_unop op = Some True \<Longrightarrow> switch_word op = Some True \<and> op \<notin> {''!'', ''('', '')''}"
  by (auto simp: test_unop_def switch_word_def c_at_def split: if_splits)

lemma known_binop:
  assumes "test_binop w = Some True" and "c_at w 0 = CHR ''-''"
  shows "c_at w 3 = NUL"
proof (rule ccontr)
  assume "c_at w 3 \<noteq> NUL"
  moreover have "w \<noteq> ''=''" "w \<noteq> ''<''" "w \<noteq> ''>''" "w \<noteq> ''==''" "w \<noteq> ''!=''" using assms(2) by (auto simp: c_at_def)
  ultimately show False using assms unfolding test_binop_def by (simp split: if_splits)
qed

lemma no_binops:
  "test_binop '')'' = Some False" "test_binop ''-a'' = Some False" "test_binop ''-o'' = Some False" "test_binop ''!'' = Some False"
  by (simp_all add: test_binop_def c_at_def)

text \<open>The word after a term, when there is one, is no binary operator.\<close>

lemma next_no_binop:
  assumes "here argc argv pos rest" and "ends_level 2 rest" and "pos < argc"
  shows "test_binop (argv ! pos) = Some False"
proof (cases rest)
  case Nil
  then show ?thesis using here_end assms by force
next
  case (Cons w ws)
  have at: "argv ! pos = w" by (rule here_Cons) (use assms(1) Cons in simp)
  have "w = '')'' \<or> w = ''-a'' \<or> w = ''-o''" using assms(2) Cons unfolding ends_level_def by simp
  then have "argv ! pos = '')'' \<or> argv ! pos = ''-a'' \<or> argv ! pos = ''-o''" using at by simp
  then show ?thesis using no_binops by metis
qed

lemma reads_text:
  assumes "wf_texp (Text w)"
  shows "reads ops 2 [w] (teval ops (Text w))"
proof (rule reads_term)
  fix n argc argv pos rest and s :: "'a expr_state"
  assume h: "here argc argv pos ([w] @ rest)" and e: "ends_level 2 rest"
  then have w: "pos < argc" "argv ! pos = w" "here argc argv (pos + 1) rest" using here_Cons by fastforce+
  then have "(if pos + 3 \<le> argc then test_binop (argv ! (pos + 1)) else Some False) = Some False"
    using next_no_binop [OF w(3) e] by simp
  then show "term_body ops argc argv (test_term n ops argc argv) (test_expr n ops argc argv) pos s =
      tbind (teval ops (Text w) s) (\<lambda>v. Ret (v, pos + length [w]))"
    using assms w by (simp add: term_body_def simple_term_def)
qed

lemma unary_operator_at:
  assumes "wf_texp (Unop op w)" and "argv ! pos = op" "pos + 1 < argc" "argv ! (pos + 1) = w"
  shows "unary_operator ops argc argv pos s = tbind (unary_test ops op w s) (\<lambda>v. Ret (v, pos + 2))"
  using assms by (auto simp: unary_operator_def Let_def)

lemma reads_unop:
  assumes "wf_texp (Unop op w)"
  shows "reads ops 2 [op, w] (teval ops (Unop op w))"
proof (rule reads_term)
  fix n argc argv pos rest and s :: "'a expr_state"
  assume h: "here argc argv pos ([op, w] @ rest)"
  have op: "pos < argc" "argv ! pos = op" "here argc argv (pos + 1) (w # rest)" using here_Cons [of _ _ _ op] h by simp_all
  have w: "pos + 1 < argc" "argv ! (pos + 1) = w" using here_Cons [OF op(3)] by simp_all
  have k: "switch_word op = Some True" "op \<noteq> ''!''" "op \<noteq> ''(''" using known_unop [of op] assms by simp_all
  have "unary_operator ops argc argv pos s = tbind (unary_test ops op w s) (\<lambda>v. Ret (v, pos + 2))"
    using unary_operator_at assms op w by blast
  then show "term_body ops argc argv (test_term n ops argc argv) (test_expr n ops argc argv) pos s =
      tbind (teval ops (Unop op w) s) (\<lambda>v. Ret (v, pos + length [op, w]))"
    using assms op w k by (simp add: term_body_def simple_term_def)
qed

lemma binary_operator_at:
  assumes "test_binop op = Some True" and "argv ! (pos + 1) = op"
  shows "binary_operator ops argv pos s = tbind (binary_test ops op (argv ! pos) (argv ! (pos + 2)) 0 s) (\<lambda>v. Ret (v, pos + 3))"
proof -
  have "op = ''='' \<or> op = ''=='' \<or> op = ''>'' \<or> op = ''<'' \<or> op = ''!='' \<or> c_at op 0 = CHR ''-''"
    using assms(1) by (auto simp: test_binop_def split: if_splits)
  then have "op = ''='' \<or> op = ''=='' \<or> op = ''>'' \<or> op = ''<'' \<or> op = ''!='' \<or>
      c_at op 0 = CHR ''-'' \<and> c_at op 3 = NUL \<and> test_binop op = Some True"
    using assms(1) known_binop by blast
  then show ?thesis unfolding binary_operator_def Let_def assms(2) by (simp only: if_True)
qed

lemma reads_binop:
  assumes "wf_texp (Binop op a b)"
  shows "reads ops 2 [a, op, b] (teval ops (Binop op a b))"
proof (rule reads_term)
  fix n argc argv pos rest and s :: "'a expr_state"
  assume h: "here argc argv pos ([a, op, b] @ rest)"
  have a: "pos < argc" "argv ! pos = a" "here argc argv (pos + 1) (op # b # rest)" using here_Cons [of _ _ _ a] h by simp_all
  have op: "argv ! (pos + 1) = op" "here argc argv (pos + 2) (b # rest)" using here_Cons [OF a(3)] by simp_all
  have b: "pos + 3 \<le> argc" "argv ! (pos + 2) = b" using here_Cons [OF op(2)] by simp_all
  have o: "test_binop op = Some True" using assms by simp
  show "term_body ops argc argv (test_term n ops argc argv) (test_expr n ops argc argv) pos s =
      tbind (teval ops (Binop op a b) s) (\<lambda>v. Ret (v, pos + length [a, op, b]))"
    using assms a op b binary_operator_at [OF o op(1), of ops s] by (simp add: term_body_def simple_term_def numeral_3_eq_3)
qed

subsection \<open>Negation, connectives and parentheses\<close>

lemma not_loop_flip: "not_loop argc argv pos (\<not> v) = map_option (\<lambda>(p, v). (p, \<not> v)) (not_loop argc argv pos v)"
proof (induction argc argv pos v rule: not_loop.induct)
  case (1 argc argv pos v)
  then show ?case by (subst (1 2) not_loop.simps) auto
qed

lemma not_loop_next:
  assumes "pos + 1 < argc" and "argv ! pos = ''!''"
  shows "not_loop argc argv pos False = map_option (\<lambda>(p, v). (p, \<not> v)) (not_loop argc argv (pos + 1) False)"
  using assms not_loop_flip [of argc argv "pos + 1" False] by (subst not_loop.simps) simp

lemma tbind_case [simp]: "tbind (tbind r (\<lambda>v. Ret (v, p))) (\<lambda>(v, q). f v q) = tbind r (\<lambda>v. f v p)"
  by (cases r) simp_all

lemma reads_negation:
  assumes "reads ops 2 ws F" and "ws \<noteq> []"
  shows "reads ops 2 (''!'' # ws) (\<lambda>s. tbind (F s) (\<lambda>v. Ret (\<not> v)))"
proof (rule reads_term)
  fix n argc argv pos rest and s :: "'a expr_state"
  assume h: "here argc argv pos ((''!'' # ws) @ rest)" and e: "ends_level 2 rest" and n: "4 * length (''!'' # ws) \<le> n + 2"
  have p: "pos < argc" "argv ! pos = ''!''" "here argc argv (pos + 1) (ws @ rest)" using here_Cons [of _ _ _ "''!''"] h by simp_all
  have p1: "pos + 1 < argc" "argv ! (pos + 1) = hd ws" using here_nonempty [OF p(3) assms(2)] by simp_all
  have sub: "test_term m ops argc argv (pos + 1) s = tbind (F s) (\<lambda>v. Ret (v, pos + 1 + length ws))" if "n \<le> m" for m
    using assms(1) p(3) e n that unfolding reads_def by (auto simp: level_def)
  have loop: "not_loop argc argv pos False = map_option (\<lambda>(p, v). (p, \<not> v)) (not_loop argc argv (pos + 1) False)"
    using not_loop_next p1 p by blast
  have "term_body ops argc argv (test_term n ops argc argv) (test_expr n ops argc argv) pos s =
      tbind (tbind (F s) (\<lambda>v. Ret (v, pos + 1 + length ws))) (\<lambda>(v, p). Ret (\<not> v, p))"
  proof (cases "argv ! (pos + 1) = ''!''")
    case False
    then have "not_loop argc argv (pos + 1) False = Some (pos + 1, False)" by (subst not_loop.simps) simp
    then show ?thesis using p loop sub [of n] by (simp add: term_body_def)
  next
    case True
    have neg: "(case not_loop argc argv pos False of None \<Rightarrow> test_syntax_error s
         | Some (pos', value) \<Rightarrow> tbind (test_term n ops argc argv pos' s) (\<lambda>(v, p). Ret (value \<noteq> v, p))) =
        tbind (test_term (Suc n) ops argc argv (pos + 1) s) (\<lambda>(v, p). Ret (\<not> v, p))"
      using True p1 loop
      by (cases "not_loop argc argv (pos + 1) False")
         (auto simp: term_body_def test_syntax_error_def tbind_assoc intro!: tbind_cong)
    then show ?thesis using p sub [of "Suc n"] by (simp add: term_body_def)
  qed
  then show "term_body ops argc argv (test_term n ops argc argv) (test_expr n ops argc argv) pos s =
      tbind (tbind (F s) (\<lambda>v. Ret (\<not> v))) (\<lambda>v. Ret (v, pos + length (''!'' # ws)))"
    by (simp add: tbind_assoc)
qed

lemma reads_conj:
  assumes "reads ops 2 us F" and "reads ops 1 vs G"
  shows "reads ops 1 (us @ ''-a'' # vs) (\<lambda>s. tbind (F s) (\<lambda>u s. tbind (G s) (\<lambda>v. Ret (u \<and> v))))"
  unfolding reads_def
proof (intro allI impI)
  fix n argc argv pos rest and s :: "'a expr_state"
  assume h: "here argc argv pos ((us @ ''-a'' # vs) @ rest)" and e: "ends_level 1 rest"
    and n: "4 * length (us @ ''-a'' # vs) + 3 \<le> n + 1"
  then obtain n' where n': "n = Suc n'" by (cases n) auto
  let ?p = "pos + length us"
  have h1: "here argc argv pos (us @ ''-a'' # vs @ rest)" using h by simp
  have op: "?p < argc" "argv ! ?p = ''-a''" "here argc argv (?p + 1) (vs @ rest)" using here_Cons here_append [OF h1] by simp_all
  have l: "test_term n' ops argc argv pos s = tbind (F s) (\<lambda>v. Ret (v, ?p))"
    using assms(1) h1 n n' unfolding reads_def by (auto simp: level_def ends_level_def)
  have r: "test_and n' ops argc argv (?p + 1) s = tbind (G s) (\<lambda>v. Ret (v, ?p + 1 + length vs))" for s
    using assms(2) op(3) e n n' unfolding reads_def by (auto simp: level_def)
  show "level 1 n ops argc argv pos s =
      tbind (tbind (F s) (\<lambda>u s. tbind (G s) (\<lambda>v. Ret (u \<and> v)))) (\<lambda>v. Ret (v, pos + length (us @ ''-a'' # vs)))"
    using op l r by (auto simp: level_def n' and_body_def tbind_assoc intro!: tbind_cong)
qed

lemma reads_disj:
  assumes "reads ops 1 us F" and "reads ops 0 vs G"
  shows "reads ops 0 (us @ ''-o'' # vs) (\<lambda>s. tbind (F s) (\<lambda>u s. tbind (G s) (\<lambda>v. Ret (u \<or> v))))"
  unfolding reads_def
proof (intro allI impI)
  fix n argc argv pos rest and s :: "'a expr_state"
  assume h: "here argc argv pos ((us @ ''-o'' # vs) @ rest)" and e: "ends_level 0 rest"
    and n: "4 * length (us @ ''-o'' # vs) + 3 \<le> n + 0"
  then obtain n' where n': "n = Suc n'" by (cases n) auto
  let ?p = "pos + length us"
  have h1: "here argc argv pos (us @ ''-o'' # vs @ rest)" using h by simp
  have op: "?p < argc" "argv ! ?p = ''-o''" "here argc argv (?p + 1) (vs @ rest)" using here_Cons here_append [OF h1] by simp_all
  have l: "test_and n' ops argc argv pos s = tbind (F s) (\<lambda>v. Ret (v, ?p))"
    using assms(1) h1 n n' unfolding reads_def by (auto simp: level_def ends_level_def)
  have r: "test_or n' ops argc argv (?p + 1) s = tbind (G s) (\<lambda>v. Ret (v, ?p + 1 + length vs))" for s
    using assms(2) op(3) e n n' unfolding reads_def by (auto simp: level_def)
  show "level 0 n ops argc argv pos s =
      tbind (tbind (F s) (\<lambda>u s. tbind (G s) (\<lambda>v. Ret (u \<or> v)))) (\<lambda>v. Ret (v, pos + length (us @ ''-o'' # vs)))"
    using op l r by (auto simp: level_def n' or_body_def tbind_assoc intro!: tbind_cong)
qed

lemma reads_paren:
  assumes "reads ops 0 ws F" and "ws \<noteq> []"
  shows "reads ops 2 (''('' # ws @ ['')'']) F"
proof (rule reads_term)
  fix n argc argv pos rest and s :: "'a expr_state"
  assume h: "here argc argv pos ((''('' # ws @ ['')'']) @ rest)" and n: "4 * length (''('' # ws @ ['')'']) \<le> n + 2"
  then obtain m where m: "n = Suc m" by (cases n) auto
  have p: "pos < argc" "argv ! pos = ''(''" "here argc argv (pos + 1) (ws @ '')'' # rest)" using here_Cons [of _ _ _ "''(''"] h by simp_all
  have p1: "pos + 1 < argc" using here_nonempty [OF p(3) assms(2)] by simp
  let ?q = "pos + 1 + length ws"
  have close: "?q < argc" "argv ! ?q = '')''" using here_Cons here_append [OF p(3)] by simp_all
  have "argc \<le> length argv" using h by (simp add: here_def)
  then have "?q < length argv" using close by simp
  moreover have "test_expr n ops argc argv (pos + 1) s = tbind (F s) (\<lambda>v. Ret (v, ?q))"
    using assms(1) p(3) p1 n m unfolding reads_def by (auto simp: level_def ends_level_def)
  ultimately show "term_body ops argc argv (test_term n ops argc argv) (test_expr n ops argc argv) pos s =
      tbind (F s) (\<lambda>v. Ret (v, pos + length (''('' # ws @ ['')''])))"
    using p p1 close by (simp add: term_body_def)
qed

lemma reads_any_level:
  assumes "reads ops 2 ws F" and "k \<le> 2"
  shows "reads ops k ws F"
proof -
  have "reads ops 1 ws F" using reads_lower [of ops 1] assms(1) by (simp add: numeral_2_eq_2)
  moreover from this have "reads ops 0 ws F" using reads_lower [of ops 0] by simp
  moreover have "k = 0 \<or> k = 1 \<or> k = 2" using assms(2) by auto
  ultimately show ?thesis using assms(1) by auto
qed

lemma twords_nonempty [simp]: "twords e k \<noteq> []"
  by (induction e arbitrary: k) (simp_all add: tparen_def)

lemma teval_fun:
  "teval ops (Negation e) = (\<lambda>s. tbind (teval ops e s) (\<lambda>v. Ret (\<not> v)))"
  "teval ops (Conj a b) = (\<lambda>s. tbind (teval ops a s) (\<lambda>u s. tbind (teval ops b s) (\<lambda>v. Ret (u \<and> v))))"
  "teval ops (Disj a b) = (\<lambda>s. tbind (teval ops a s) (\<lambda>u s. tbind (teval ops b s) (\<lambda>v. Ret (u \<or> v))))"
  by (simp_all add: fun_eq_iff)

lemma reads_twords:
  assumes "wf_texp e" and "k \<le> 2"
  shows "reads ops k (twords e k) (teval ops e)"
  using assms
proof (induction e arbitrary: k)
  case (Text w)
  from reads_any_level [OF reads_text [OF Text(1)] Text(2)] show ?case by (simp only: twords.simps)
next
  case (Unop op w)
  from reads_any_level [OF reads_unop [OF Unop(1)] Unop(2)] show ?case by (simp only: twords.simps)
next
  case (Binop op a b)
  from reads_any_level [OF reads_binop [OF Binop(1)] Binop(2)] show ?case by (simp only: twords.simps)
next
  case (Negation e)
  then have "reads ops 2 (twords e 2) (teval ops e)" by simp
  from reads_any_level [OF reads_negation [OF this twords_nonempty] Negation.prems(2)]
  show ?case by (simp only: twords.simps teval_fun)
next
  case (Conj a b)
  have one: "reads ops 1 (twords (Conj a b) 1) (teval ops (Conj a b))"
    using reads_conj [OF Conj.IH(1) [of 2] Conj.IH(2) [of 1]] Conj.prems(1) by (simp add: tparen_def teval_fun del: teval.simps)
  then have zero: "reads ops 0 (twords (Conj a b) 0) (teval ops (Conj a b))"
    using reads_lower [of ops 0 "twords (Conj a b) 1"] by (simp add: tparen_def)
  have "reads ops 2 (twords (Conj a b) 2) (teval ops (Conj a b))"
    using reads_paren [OF zero] by (simp add: tparen_def)
  with one zero show ?case using Conj.prems(2) by (metis One_nat_def Suc_1 le_SucE le_zero_eq)
next
  case (Disj a b)
  have zero: "reads ops 0 (twords (Disj a b) 0) (teval ops (Disj a b))"
    using reads_disj [OF Disj.IH(1) [of 1] Disj.IH(2) [of 0]] Disj.prems(1) by (simp add: tparen_def teval_fun del: teval.simps)
  have two: "reads ops 2 (twords (Disj a b) 2) (teval ops (Disj a b))"
    using reads_paren [OF zero] by (simp add: tparen_def)
  then have "reads ops 1 (twords (Disj a b) 1) (teval ops (Disj a b))"
    using reads_any_level [of ops "twords (Disj a b) 2" _ 1] by (simp add: tparen_def)
  with zero two show ?case using Disj.prems(2) by (metis One_nat_def Suc_1 le_SucE le_zero_eq)
qed

subsection \<open>The special cases agree with the descent\<close>

lemma twords_length [simp]: "1 \<le> length (twords e k)"
  by (cases "twords e k") (use twords_nonempty in auto)

text \<open>The whole descent over the words of \<open>e\<close>.\<close>

lemma descent_evaluates:
  assumes "wf_texp e" and "argc = Suc (length (twords e 0))" "here argc argv 1 (twords e 0)"
  shows "test_expr (test_fuel argc) ops argc argv 1 s = tbind (teval ops e s) (\<lambda>v. Ret (v, argc))"
proof -
  have "level 0 (4 * argc + 3) ops argc argv 1 s = tbind (teval ops e s) (\<lambda>v. Ret (v, 1 + length (twords e 0)))"
    using reads_twords [OF assms(1), of 0 ops, unfolded reads_def, rule_format, of argc argv 1 "[]" "4 * argc + 3" s] assms(2,3)
    by (simp add: ends_level_def)
  moreover have "1 < argc" using assms(2) twords_length [of e 0] by simp
  moreover have "test_fuel argc = Suc (4 * argc + 3)" by (simp add: test_fuel_def)
  ultimately show ?thesis using assms(2) by (simp only: test_expr.simps level_def) simp
qed

text \<open>Expressions of at most four words, where the rules of POSIX apply instead of the grammar.\<close>

lemma short_words:
  "length (twords e k) = 1 \<Longrightarrow> \<exists>w. e = Text w"
  "length (twords e k) = 2 \<Longrightarrow> (\<exists>op w. e = Unop op w) \<or> (\<exists>w. e = Negation (Text w))"
  "length (twords e 2) = 3 \<Longrightarrow> (\<exists>op a b. e = Binop op a b) \<or> (\<exists>d. e = Negation d \<and> length (twords d 2) = 2)"
proof -
  have one: "\<exists>w. e = Text w" if "length (twords e k) = 1" for e k
    using that twords_length by (cases e) (auto simp: tparen_def split: if_splits)
  then show "length (twords e k) = 1 \<Longrightarrow> \<exists>w. e = Text w" .
  have sum: "Suc (length (twords a i) + length (twords b j)) \<noteq> 1" for a b i j using twords_length [of a i] by linarith
  have sum2: "Suc (length (twords a i) + length (twords b j)) \<noteq> 2" for a b i j
    using twords_length [of a i] twords_length [of b j] by linarith
  show "(\<exists>op w. e = Unop op w) \<or> (\<exists>w. e = Negation (Text w))" if "length (twords e k) = 2"
    using that one sum2 by (cases e) (auto simp: tparen_def split: if_splits)
  show "(\<exists>op a b. e = Binop op a b) \<or> (\<exists>d. e = Negation d \<and> length (twords d 2) = 2)" if "length (twords e 2) = 3"
    using that by (cases e) (auto simp: tparen_def)
qed

lemma short_connective:
  "length (twords e 0) = 3 \<Longrightarrow>
     length (twords e 2) = 3 \<or> (\<exists>a b. e = Conj (Text a) (Text b)) \<or> (\<exists>a b. e = Disj (Text a) (Text b))"
proof (cases e)
  case (Conj a b)
  assume "length (twords e 0) = 3"
  then have "length (twords a 2) = 1 \<and> length (twords b 1) = 1"
    using Conj twords_length [of a 2] twords_length [of b 1] by (simp add: tparen_def)
  then show ?thesis using Conj short_words(1) by blast
next
  case (Disj a b)
  assume "length (twords e 0) = 3"
  then have "length (twords a 1) = 1 \<and> length (twords b 0) = 1"
    using Disj twords_length [of a 1] twords_length [of b 0] by (simp add: tparen_def)
  then show ?thesis using Disj short_words(1) by blast
qed auto

lemma two_evaluates:
  assumes "wf_texp e" and "twords e 2 = [x, y]" "argv ! pos = x" "argv ! (pos + 1) = y" "argc = pos + 2"
  shows "two_arguments ops argc argv pos s = tbind (teval ops e s) (\<lambda>v. Ret (v, if x = ''!'' then pos else argc))"
proof -
  have "length (twords e 2) = 2" using assms(2) by simp
  from short_words(2) [OF this] show ?thesis
  proof (elim disjE exE)
    fix op w assume e: "e = Unop op w"
    then have x: "x = op" "y = w" "test_unop op = Some True" using assms by simp_all
    then have "switch_word x = Some True" "x \<noteq> ''!''" "test_unop x = Some True" using known_unop [of op] by simp_all
    moreover have "unary_operator ops argc argv pos s = tbind (teval ops e s) (\<lambda>v. Ret (v, argc))"
      using unary_operator_at [of op w argv pos argc ops s] assms(1,3-5) e x(1,2) by simp
    ultimately show ?thesis using assms(3) by (simp add: two_arguments_def)
  next
    fix w assume "e = Negation (Text w)"
    then show ?thesis using assms by (simp add: two_arguments_def)
  qed
qed

lemma operator_words:
  assumes "wf_texp (Unop op w)"
  shows "test_binop op = Some False"
proof -
  have "c_at op 0 = CHR ''-''" "\<not> length op < 2" "c_at op 2 = NUL" using assms by (simp_all add: test_unop_def split: if_splits)
  moreover from this have "op \<noteq> ''=''" "op \<noteq> ''<''" "op \<noteq> ''>''" "op \<noteq> ''==''" "op \<noteq> ''!=''" by (auto simp: c_at_def)
  ultimately show ?thesis unfolding test_binop_def by simp
qed

lemma three_evaluates:
  assumes "wf_texp e" and "twords e 2 = [x, y, z]" "argv ! pos = x" "argv ! (pos + 1) = y" "argv ! (pos + 2) = z" "argc = pos + 3"
    and "\<nexists>w. e = Negation (Negation (Text w))"
  shows "three_arguments ops argc argv pos s = tbind (teval ops e s) (\<lambda>v. Ret (v, argc))"
proof -
  have "length (twords e 2) = 3" using assms(2) by simp
  from short_words(3) [OF this] show ?thesis
  proof (elim disjE exE conjE)
    fix op a b assume e: "e = Binop op a b"
    then have o: "test_binop y = Some True" using assms by simp
    show ?thesis using binary_operator_at [OF o assms(4), of ops s] o assms e by (simp add: three_arguments_def Let_def)
  next
    fix d assume e: "e = Negation d" and d: "length (twords d 2) = 2"
    then obtain op w where u: "d = Unop op w" using short_words(2) [OF d] assms(7) by blast
    have o: "test_binop y = Some False" "y \<noteq> ''-a''" "y \<noteq> ''-o''" "y \<noteq> ''!''"
      using operator_words [of op w] known_unop [of op] assms(1,2) e u by simp_all
    have "two_arguments ops argc argv (pos + 1) s = tbind (teval ops d s) (\<lambda>v. Ret (v, argc))"
      using two_evaluates [of d y z argv "pos + 1" argc ops s] assms e u o by simp
    then show ?thesis using assms e o by (simp add: three_arguments_def Let_def tbind_assoc del: teval.simps(2))
  qed
qed

text \<open>
  Where the rules for three and four arguments and the grammar part: \<open>! ! w\<close> and \<open>! ! ! w\<close>, where
  \<^verbatim>\<open>two_arguments\<close> does not move \<^verbatim>\<open>pos\<close>, and a connective of a negated string and a string, which \<open>!\<close>
  negates as a whole.
\<close>

fun grammar_decides :: "texp \<Rightarrow> bool" where
  "grammar_decides (Negation (Negation (Text w))) = False"
| "grammar_decides (Negation (Negation (Negation (Text w)))) = False"
| "grammar_decides (Conj (Negation (Text a)) (Text b)) = False"
| "grammar_decides (Disj (Negation (Text a)) (Text b)) = False"
| "grammar_decides e = True"

lemma four_words:
  assumes "wf_texp e" and "length (twords e 0) = 4" "hd (twords e 0) = ''!''" "grammar_decides e"
  shows "\<exists>d. e = Negation d \<and> length (twords d 2) = 3"
proof -
  have connective: "\<exists>u v. a = Negation (Text u) \<and> b = Text v"
    if "wf_texp a" "hd (twords a i) = ''!''" "length (twords a i) + length (twords b j) = 3" for a b i j
  proof -
    have a: "length (twords a i) = 1 \<or> length (twords a i) = 2" using that(3) twords_length [of a i] twords_length [of b j] by linarith
    have "\<nexists>w. a = Text w" using that(1,2) by auto
    moreover have "\<nexists>op w. a = Unop op w" using that(1,2) known_unop by fastforce
    ultimately obtain u where u: "a = Negation (Text u)" using a short_words(1,2) by metis
    then have "length (twords b j) = 1" using that(3) by simp
    then show ?thesis using u short_words(1) by blast
  qed
  show ?thesis
  proof (cases e)
    case (Conj a b)
    then obtain u v where "a = Negation (Text u)" "b = Text v" using connective [of a 2 b 1] assms(1-3) by (auto simp: tparen_def)
    then show ?thesis using assms(4) Conj by simp
  next
    case (Disj a b)
    then obtain u v where "a = Negation (Text u)" "b = Text v" using connective [of a 1 b 0] assms(1-3) by (auto simp: tparen_def)
    then show ?thesis using assms(4) Disj by simp
  qed (use assms in auto)
qed

lemma words_here: "here (Suc (length ws)) (name # ws @ tail) 1 ws"
  by (simp add: here_def)

lemma list_three: "length xs = 3 \<Longrightarrow> \<exists>x y z. xs = [x, y, z]"
  by (auto simp: numeral_3_eq_3 length_Suc_conv)

lemma posixtest_three: "posixtest ops (Suc (Suc (Suc (Suc 0)))) argv s = three_arguments ops 4 argv 1 s"
  by (simp add: posixtest_def numeral_eq_Suc)

lemma posixtest_evaluates:
  assumes "wf_texp e" and "grammar_decides e"
  shows "posixtest ops (Suc (length (twords e 0))) (name # twords e 0 @ tail) s =
    tbind (teval ops e s) (\<lambda>v. Ret (v, Suc (length (twords e 0))))"
proof -
  let ?ws = "twords e 0" let ?argv = "name # ?ws @ tail" let ?argc = "Suc (length ?ws)"
  consider "length ?ws = 1" | "length ?ws = 2" | "length ?ws = 3" | "length ?ws = 4" "hd ?ws = ''!''"
    | "4 < length ?ws \<or> length ?ws = 4 \<and> hd ?ws \<noteq> ''!''"
    using twords_length [of e 0] by linarith
  then show ?thesis
  proof cases
    case 1
    then obtain w where "e = Text w" using short_words(1) by blast
    then show ?thesis by (simp add: posixtest_def)
  next
    case 2
    then have same: "twords e 2 = ?ws" using short_words(2) by fastforce
    obtain x y where ws: "?ws = [x, y]" using 2 by (auto simp: numeral_2_eq_2 length_Suc_conv)
    then have "two_arguments ops 3 ?argv 1 s = tbind (teval ops e s) (\<lambda>v. Ret (v, if x = ''!'' then 1 else 3))"
      using two_evaluates [OF assms(1), of x y ?argv 1 3 ops s] same by simp
    then show ?thesis using ws by (simp add: posixtest_def tbind_assoc numeral_3_eq_3)
  next
    case 3
    then obtain x y z where ws: "?ws = [x, y, z]" using list_three by blast
    from short_connective [OF 3] show ?thesis
    proof (elim disjE exE)
      assume l: "length (twords e 2) = 3"
      then have same: "twords e 2 = ?ws" using short_words(3) by fastforce
      have "\<nexists>w. e = Negation (Negation (Text w))" using assms(2) by auto
      then have "three_arguments ops 4 ?argv 1 s = tbind (teval ops e s) (\<lambda>v. Ret (v, 4))"
        using three_evaluates [OF assms(1), of x y z ?argv 1 4 ops s] same ws by simp
      then show ?thesis using ws by (simp add: posixtest_def numeral_eq_Suc)
    next
      fix a b assume "e = Conj (Text a) (Text b)"
      then show ?thesis using no_binops by (simp add: posixtest_def three_arguments_def Let_def tparen_def)
    next
      fix a b assume "e = Disj (Text a) (Text b)"
      then show ?thesis using no_binops by (simp add: posixtest_def three_arguments_def Let_def tparen_def)
    qed
  next
    case 4
    from four_words [OF assms(1) 4 assms(2)] obtain d where d: "e = Negation d" "length (twords d 2) = 3" by blast
    then obtain x y z where ws: "twords d 2 = [x, y, z]" using list_three by blast
    have "\<nexists>w. d = Negation (Negation (Text w))" using assms(2) d by auto
    then have "three_arguments ops 5 ?argv 2 s = tbind (teval ops d s) (\<lambda>v. Ret (v, 5))"
      using three_evaluates [of d x y z ?argv 2 5 ops s] d ws assms(1) by simp
    then show ?thesis using ws d by (simp add: posixtest_def tbind_assoc numeral_eq_Suc)
  next
    case 5
    have "posixtest ops ?argc ?argv s = test_expr (test_fuel ?argc) ops ?argc ?argv 1 s"
      using 5 by (cases ?ws) (auto simp: posixtest_def)
    then show ?thesis using descent_evaluates [OF assms(1) refl words_here, of ops name tail s] by simp
  qed
qed

section \<open>Properties\<close>

text \<open>
  C4. The command computes what its expression means: over the words of any expression, the grammar, the
  rules for few arguments and the bracket form of the command leave with the status of the value,
  and evaluate both sides of every connective in the order of the words.
\<close>

theorem test_evaluates:
  assumes "wf_texp e" and "grammar_decides e"
  shows "test_command ops (''test'' # twords e 0) s = tbind (teval ops e s) (\<lambda>v. Test_Exit (SHELL_BOOLEAN v)) \<and>
    test_command ops (''['' # twords e 0 @ ['']'']) s = tbind (teval ops e s) (\<lambda>v. Test_Exit (SHELL_BOOLEAN v))"
  using posixtest_evaluates [OF assms, of ops "''test''" "[]" s] posixtest_evaluates [OF assms, of ops "''[''" "['']'']" s]
  by (simp add: test_command_def Let_def tbind_assoc nth_append)

text \<open>A system with one plain file; \<open>! ( -d f -o "" ) -a a = a\<close>.\<close>

definition one_file :: "'v shell_ops \<Rightarrow> 'v test_ops" where
  "one_file shell =
     \<lparr>sh_stat = (\<lambda>f. if f = ''f'' then Some \<lparr>st_dev = 1, st_ino = 2, st_mode = 0x81A4, st_uid = 0, st_gid = 0,
        st_size = 0, st_atime = 0, st_mtim = (0, 0)\<rparr> else None),
      lstat = (\<lambda>f. None), sh_eaccess = (\<lambda>f m. False), isatty = (\<lambda>d. False), euid = 0, egid = 0,
      minus_o_option_value = (\<lambda>x. - 1), find_test_var = (\<lambda>s x. None), valid_array_reference = (\<lambda>x. False),
      array_value = (\<lambda>s x. None), strmatch = (=), strcoll = strcmp, shell_compatibility_level = 43, arith_ops = shell\<rparr>"

definition sample_test :: texp where
  "sample_test = Conj (Negation (Disj (Unop ''-d'' ''f'') (Text []))) (Binop ''='' ''a'' ''a'')"

theorem test_evaluates_witness:
  "\<forall>shell s. test_command (one_file shell) [''['', ''!'', ''('', ''-d'', ''f'', ''-o'', [], '')'', ''-a'', ''a'', ''='', ''a'', '']''] s = Test_Exit 0 s"
proof (intro allI)
  fix shell and s :: "'v expr_state"
  have words: "twords sample_test 0 = [''!'', ''('', ''-d'', ''f'', ''-o'', [], '')'', ''-a'', ''a'', ''='', ''a'']"
    by (simp add: sample_test_def tparen_def)
  have "wf_texp sample_test" by code_simp
  moreover have "grammar_decides sample_test" by (simp add: sample_test_def)
  moreover have "teval (one_file shell) sample_test s = Ret True s"
    by (simp add: sample_test_def unary_test_def binary_test_def Let_def c_at_def one_file_def stat_holds_def has_type_def S_IFMT_def)
  ultimately show "test_command (one_file shell) [''['', ''!'', ''('', ''-d'', ''f'', ''-o'', [], '')'', ''-a'', ''a'', ''='', ''a'', '']''] s =
      Test_Exit 0 s"
    using test_evaluates [of sample_test "one_file shell" s] by (simp add: words SHELL_BOOLEAN_def)
qed

text \<open>
  Two negations of a string are refused: \<^verbatim>\<open>two_arguments\<close> does not move \<^verbatim>\<open>pos\<close> past its words, so the
  command reports too many arguments, although the expression has a value.
\<close>

theorem test_double_negation:
  "test_command ops [''test'', ''!'', ''!'', w] s = test_syntax_error s \<and>
   teval ops (Negation (Negation (Text w))) s = Ret (w \<noteq> []) s"
proof -
  have "three_arguments ops 4 [''test'', ''!'', ''!'', w] 1 s = Ret (w \<noteq> [], 2) s"
    by (simp add: three_arguments_def two_arguments_def no_binops)
  then show ?thesis by (simp add: test_command_def posixtest_three)
qed

text \<open>
  C5. The command always ends, with a status of at most 2 or with the jump of an array subscript: the
  descent never runs out of fuel and no routine reads outside a word, unless a word is a single dash.
\<close>

theorem test_command_ends:
  assumes "''-'' \<notin> set margv"
  shows "exits (test_command ops margv s)"
proof -
  have command: "exits (tbind (posixtest ops argc margv s)
      (\<lambda>(value, pos) s. if pos \<noteq> argc then test_syntax_error s else Test_Exit (SHELL_BOOLEAN value) s))"
    if "argc \<le> length margv" "\<not> argc \<le> 1" for argc
    by (rule no_trap_exits, rule posixtest_no_trap [OF assms that(1)]) (use that(2) in simp)
  from this [of "length margv"] this [of "length margv - 1"] show ?thesis
    unfolding test_command_def Let_def by (simp only: diff_le_self order_refl exits_simps simp_thms split: if_split) simp
qed

theorem test_command_ends_witness:
  "\<forall>shell s. exits (test_command (one_file shell) [''test'', ''('', ''('', ''!'', ''-t'', ''-o''] s)"
proof (intro allI)
  fix shell and s :: "'v expr_state"
  show "exits (test_command (one_file shell) [''test'', ''('', ''('', ''!'', ''-t'', ''-o''] s)"
    by (rule test_command_ends) simp
qed

text \<open>A word that is a single dash is read behind its end.\<close>

lemma test_dash: "test_command ops [''test'', ''-'', w] s = Test_Undefined"
  by (simp add: test_command_def posixtest_def two_arguments_def switch_word_def c_at_def)

end
