(* ===== verification/Glob_Match.thy ===== *)
theory Glob_Match
  imports Bash_Prelude
begin

text \<open>
  Pattern matching, \<^verbatim>\<open>lib/glob/sm_loop.c\<close> as \<^verbatim>\<open>smatch.c\<close> compiles it for single bytes: bracket
  expressions, the wildcards, the extended patterns of ksh. Pattern and string are two strings, a
  pointer into one is an index. The collation of the locale is an argument; the character classes are
  those of the C locale. The last section shows that the recursion ends within its fuel; what a pattern means
  is in \<open>Glob_Language\<close>.
\<close>

section \<open>Flags and outcomes\<close>

definition FNM_PATHNAME :: nat where "FNM_PATHNAME = 1"
definition FNM_NOESCAPE :: nat where "FNM_NOESCAPE = 2"
definition FNM_PERIOD :: nat where "FNM_PERIOD = 4"
definition FNM_LEADING_DIR :: nat where "FNM_LEADING_DIR = 8"
definition FNM_CASEFOLD :: nat where "FNM_CASEFOLD = 16"
definition FNM_EXTMATCH :: nat where "FNM_EXTMATCH = 32"

definition flag :: "nat \<Rightarrow> nat \<Rightarrow> bool" where
  "flag flags f \<longleftrightarrow> flags AND f \<noteq> 0"

text \<open>\<open>flags & ~FNM_PERIOD\<close>.\<close>

definition no_period :: "nat \<Rightarrow> nat" where
  "no_period flags = (if flag flags FNM_PERIOD then flags - FNM_PERIOD else flags)"

text \<open>The result 0, \<^verbatim>\<open>FNM_NOMATCH\<close>, a read outside the pattern; fuel bounds the recursion.\<close>

datatype match_result = Match | No_Match | Outside | Glob_No_Fuel

text \<open>\<open>if (r == 0) return 0\<close> and \<open>r == 0 && ...\<close>; the first index at which a match is found.\<close>

definition or_match :: "match_result \<Rightarrow> match_result \<Rightarrow> match_result" where
  "or_match r r2 = (case r of No_Match \<Rightarrow> r2 | _ \<Rightarrow> r)"

definition and_match :: "match_result \<Rightarrow> match_result \<Rightarrow> match_result" where
  "and_match r r2 = (case r of Match \<Rightarrow> r2 | _ \<Rightarrow> r)"

definition first_match :: "(nat \<Rightarrow> match_result) \<Rightarrow> nat list \<Rightarrow> match_result" where
  "first_match f is = foldr (\<lambda>i. or_match (f i)) is No_Match"

text \<open>\<^verbatim>\<open>strcoll\<close> of the locale and \<^verbatim>\<open>glob_asciirange\<close>.\<close>

record glob_locale =
  glob_strcoll :: "cstring \<Rightarrow> cstring \<Rightarrow> int"
  glob_asciirange :: bool

definition tolower :: "char \<Rightarrow> char" where
  "tolower c = (if is_upper c then char_of (of_char c + 32 :: nat) else c)"

definition FOLD :: "nat \<Rightarrow> char \<Rightarrow> char" where
  "FOLD flags c = (if flag flags FNM_CASEFOLD then tolower c else c)"

definition BSLASH :: char where "BSLASH = CHR 0x5C"

section \<open>Characters in brackets (smatch.c)\<close>

text \<open>A byte as a string; the byte 0 is the empty string.\<close>

definition byte_string :: "char \<Rightarrow> cstring" where
  "byte_string c = (if c = NUL then [] else [c])"

definition rangecmp :: "glob_locale \<Rightarrow> char \<Rightarrow> char \<Rightarrow> bool \<Rightarrow> int" where
  "rangecmp loc c1 c2 forcecoll =
     (if c1 = c2 then 0
      else if \<not> forcecoll \<and> glob_asciirange loc then uchar c1 - uchar c2
      else
        let ret = glob_strcoll loc (byte_string c1) (byte_string c2)
        in if ret \<noteq> 0 then ret else uchar c1 - uchar c2)"

definition collequiv :: "glob_locale \<Rightarrow> char \<Rightarrow> char \<Rightarrow> bool" where
  "collequiv loc c1 c2 \<longleftrightarrow> rangecmp loc c1 c2 True = 0"

definition posix_collsyms :: "(cstring \<times> nat) list" where
  "posix_collsyms =
     [(''NUL'', 0), (''SOH'', 1), (''STX'', 2), (''ETX'', 3), (''EOT'', 4), (''ENQ'', 5), (''ACK'', 6), (''alert'', 7),
      (''BS'', 8), (''backspace'', 8), (''HT'', 9), (''tab'', 9), (''LF'', 10), (''newline'', 10), (''VT'', 11),
      (''vertical-tab'', 11), (''FF'', 12), (''form-feed'', 12), (''CR'', 13), (''carriage-return'', 13), (''SO'', 14),
      (''SI'', 15), (''DLE'', 16), (''DC1'', 17), (''DC2'', 18), (''DC3'', 19), (''DC4'', 20), (''NAK'', 21), (''SYN'', 22),
      (''ETB'', 23), (''CAN'', 24), (''EM'', 25), (''SUB'', 26), (''ESC'', 27), (''IS4'', 28), (''FS'', 28), (''IS3'', 29),
      (''GS'', 29), (''IS2'', 30), (''RS'', 30), (''IS1'', 31), (''US'', 31), (''space'', 32), (''exclamation-mark'', 33),
      (''quotation-mark'', 34), (''number-sign'', 35), (''dollar-sign'', 36), (''percent-sign'', 37), (''ampersand'', 38),
      (''apostrophe'', 39), (''left-parenthesis'', 40), (''right-parenthesis'', 41), (''asterisk'', 42),
      (''plus-sign'', 43), (''comma'', 44), (''hyphen'', 45), (''hyphen-minus'', 45), (''minus'', 45), (''dash'', 45),
      (''period'', 46), (''full-stop'', 46), (''slash'', 47), (''solidus'', 47), (''zero'', 48), (''one'', 49),
      (''two'', 50), (''three'', 51), (''four'', 52), (''five'', 53), (''six'', 54), (''seven'', 55), (''eight'', 56),
      (''nine'', 57), (''colon'', 58), (''semicolon'', 59), (''less-than-sign'', 60), (''equals-sign'', 61),
      (''greater-than-sign'', 62), (''question-mark'', 63), (''commercial-at'', 64), (''left-square-bracket'', 91),
      (''backslash'', 92), (''reverse-solidus'', 92), (''right-square-bracket'', 93), (''circumflex'', 94),
      (''circumflex-accent'', 94), (''underscore'', 95), (''grave-accent'', 96), (''left-brace'', 123),
      (''left-curly-bracket'', 123), (''vertical-line'', 124), (''right-brace'', 125), (''right-curly-bracket'', 125),
      (''tilde'', 126), (''DEL'', 127)]"

definition collsym :: "cstring \<Rightarrow> char option" where
  "collsym name =
     (case map_of posix_collsyms name of
        Some code \<Rightarrow> Some (char_of code)
      | None \<Rightarrow> if length name = 1 then Some (hd name) else None)"

definition code :: "char \<Rightarrow> nat" where
  "code c = of_char c"

text \<open>The result is -1 (\<open>None\<close>) for an unknown class.\<close>

definition is_cclass :: "char \<Rightarrow> cstring \<Rightarrow> bool option" where
  "is_cclass c name =
     (let alnum = is_alpha c \<or> is_digit c; graph = (33 \<le> code c \<and> code c \<le> 126)
      in if name = ''ascii'' then Some (code c \<le> 127)
         else if name = ''alnum'' then Some alnum
         else if name = ''alpha'' then Some (is_alpha c)
         else if name = ''blank'' then Some (whitespace c)
         else if name = ''cntrl'' then Some (code c < 32 \<or> code c = 127)
         else if name = ''digit'' then Some (is_digit c)
         else if name = ''graph'' then Some graph
         else if name = ''lower'' then Some (is_lower c)
         else if name = ''print'' then Some (graph \<or> code c = 32)
         else if name = ''punct'' then Some (graph \<and> \<not> alnum)
         else if name = ''space'' then Some (9 \<le> code c \<and> code c \<le> 13 \<or> code c = 32)
         else if name = ''upper'' then Some (is_upper c)
         else if name = ''word'' then Some (alnum \<or> c = CHR ''_'')
         else if name = ''xdigit'' then Some (is_digit c \<or> 65 \<le> code c \<and> code c \<le> 70 \<or> 97 \<le> code c \<and> code c \<le> 102)
         else None)"

section \<open>Bracket expressions\<close>

definition between :: "cstring \<Rightarrow> nat \<Rightarrow> nat \<Rightarrow> cstring" where
  "between s i j = take (j - i) (drop i s)"

text \<open>The first position from \<open>i\<close> on with the two characters \<open>c\<close> and \<open>]\<close>, or \<open>None\<close> at the end.\<close>

function closing :: "cstring \<Rightarrow> char \<Rightarrow> nat \<Rightarrow> nat option" where
  "closing P c i =
     (if length P \<le> i then None
      else if c_at P i = c \<and> c_at P (i + 1) = CHR '']'' then Some i
      else closing P c (i + 1))"
  by pat_completeness auto
termination by (relation "measure (\<lambda>(P, c, i). length P - i)") auto

declare closing.simps [simp del]

text \<open>
  From the dot on: the symbol (\<open>None\<close> if it is unknown) and the position behind it. Without an end
  the position is past the terminator, and the caller reads there.
\<close>

definition parse_collsym :: "cstring \<Rightarrow> nat \<Rightarrow> (char option \<times> nat) option" where
  "parse_collsym P p = map_option (\<lambda>e. (collsym (between P (p + 1) e), e + 2)) (closing P (CHR ''.'') (p + 1))"

text \<open>A bracket expression does not match, matches up to a position, or reads outside the pattern.\<close>

datatype bracket_result = B_Fail | B_At nat | B_Outside

text \<open>A \<open>[\<close> without a closing bracket stands for itself.\<close>

definition unclosed :: "char \<Rightarrow> nat \<Rightarrow> bracket_result" where
  "unclosed test savep = (if test = CHR ''['' then B_At savep else B_Fail)"

text \<open>The code from \<^verbatim>\<open>matched:\<close> on, with \<open>p\<close> already moved back; \<open>c\<close> is the character read last.\<close>

function skip_bracket :: "cstring \<Rightarrow> nat \<Rightarrow> nat \<Rightarrow> bool \<Rightarrow> char \<Rightarrow> char \<Rightarrow> nat \<Rightarrow> nat \<Rightarrow> bracket_result" where
  "skip_bracket P flags savep neg test c p brcnt =
     (if brcnt = 0 then (if neg then B_Fail else B_At p)
      else if c = NUL then unclosed test savep
      else
        let c = c_at P p; p = p + 1
        in if c = CHR ''['' \<and> c_at P p \<in> {CHR ''='', CHR '':'', CHR ''.''}
           then skip_bracket P flags savep neg test c p (brcnt + 1)
           else if c = CHR '']'' then skip_bracket P flags savep neg test c p (brcnt - 1)
           else if \<not> flag flags FNM_NOESCAPE \<and> c = BSLASH then
             (if c_at P p = NUL then B_Fail else skip_bracket P flags savep neg test c (p + 1) brcnt)
           else skip_bracket P flags savep neg test c p brcnt)"
  by pat_completeness auto
termination
  by (relation "measure (\<lambda>(P, flags, savep, neg, test, c, p, brcnt). if c = NUL then 0 else 1 + (length P + 1 - p))")
     (auto simp: c_at_def split: if_splits)

declare skip_bracket.simps [simp del]

definition matched :: "cstring \<Rightarrow> nat \<Rightarrow> nat \<Rightarrow> bool \<Rightarrow> char \<Rightarrow> nat \<Rightarrow> bracket_result" where
  "matched P flags savep neg test p = skip_bracket P flags savep neg test (c_at P p) p 1"

text \<open>The end of the loop: no item matched.\<close>

definition not_matched :: "bool \<Rightarrow> nat \<Rightarrow> bracket_result" where
  "not_matched neg p = (if neg then B_At p else B_Fail)"

text \<open>
  One item: leave the loop, or go on with the next character and the position behind it. The three
  kinds of item in inner brackets come first.
\<close>

datatype item_step = Leave bracket_result | Go_On char nat

definition equivalence_item :: "glob_locale \<Rightarrow> cstring \<Rightarrow> nat \<Rightarrow> nat \<Rightarrow> bool \<Rightarrow> char \<Rightarrow> nat \<Rightarrow> item_step" where
  "equivalence_item loc P flags savep neg test p =
     (if collequiv loc test (FOLD flags (c_at P (p + 1))) then Leave (matched P flags savep neg test (p + 4))
      else
        let c = c_at P (p + 4)
        in if c = NUL then Leave (unclosed test savep) else Go_On (FOLD flags c) (p + 5))"

definition class_item :: "cstring \<Rightarrow> nat \<Rightarrow> nat \<Rightarrow> bool \<Rightarrow> char \<Rightarrow> nat \<Rightarrow> item_step" where
  "class_item P flags savep neg test p =
     (let (pc, p) =
        (case closing P (CHR '':'') (p + 1) of
           None \<Rightarrow> (False, p)
         | Some e \<Rightarrow>
             (case is_cclass test (between P (p + 1) e) of
                None \<Rightarrow> (False, p)
              | Some pc \<Rightarrow> (pc, e + 2)))
      in if pc then Leave (matched P flags savep neg test p)
         else
           let c = c_at P p
           in if c = NUL then Leave (unclosed test savep)
              else if c = CHR '']'' then Leave (not_matched neg (p + 1))
              else Go_On (FOLD flags c) (p + 1))"

text \<open>
  The comparison of \<open>test\<close> with a range; \<open>c\<close> is the character before \<open>p\<close>.
\<close>

definition compare_item ::
  "glob_locale \<Rightarrow> cstring \<Rightarrow> nat \<Rightarrow> nat \<Rightarrow> bool \<Rightarrow> char \<Rightarrow> char \<Rightarrow> char \<Rightarrow> bool \<Rightarrow> char \<Rightarrow> nat \<Rightarrow> item_step" where
  "compare_item loc P flags savep neg test cstart cend forcecoll c p =
     (if 0 \<le> rangecmp loc test cstart forcecoll \<and> rangecmp loc test cend forcecoll \<le> 0
      then Leave (matched P flags savep neg test (p - 1))
      else if c = CHR '']'' then Leave (not_matched neg p)
      else Go_On c p)"

text \<open>The range ends in \<open>cend\<close>, or in the symbol that it opens at \<open>p\<close>.\<close>

definition range_to ::
  "glob_locale \<Rightarrow> cstring \<Rightarrow> nat \<Rightarrow> nat \<Rightarrow> bool \<Rightarrow> char \<Rightarrow> char \<Rightarrow> bool \<Rightarrow> char \<Rightarrow> nat \<Rightarrow> item_step" where
  "range_to loc P flags savep neg test cstart forcecoll cend p =
     (if cend = NUL then Leave B_Fail
      else
        case (if cend = CHR ''['' \<and> c_at P p = CHR ''.''
              then map_option (\<lambda>(sym, p). (case sym of None \<Rightarrow> char_of (code test + 255) | Some e \<Rightarrow> e, p, True)) (parse_collsym P p)
              else Some (cend, p, forcecoll)) of
          None \<Rightarrow> Leave B_Outside
        | Some (cend, p, forcecoll) \<Rightarrow>
            let cend = FOLD flags cend; c = c_at P p; p = p + 1
            in if 0 < rangecmp loc cstart cend forcecoll then
                 (if c = CHR '']'' then Leave (not_matched neg p) else Go_On (FOLD flags c) p)
               else compare_item loc P flags savep neg test cstart cend forcecoll c p)"

text \<open>The end of a range, from \<open>p\<close> behind the dash on.\<close>

definition range_item ::
  "glob_locale \<Rightarrow> cstring \<Rightarrow> nat \<Rightarrow> nat \<Rightarrow> bool \<Rightarrow> char \<Rightarrow> char \<Rightarrow> bool \<Rightarrow> nat \<Rightarrow> item_step" where
  "range_item loc P flags savep neg test cstart forcecoll p =
     (if \<not> flag flags FNM_NOESCAPE \<and> c_at P p = BSLASH
      then range_to loc P flags savep neg test cstart forcecoll (c_at P (p + 1)) (p + 2)
      else range_to loc P flags savep neg test cstart forcecoll (c_at P p) (p + 1))"

text \<open>A character, a collating symbol or a range.\<close>

definition plain_item ::
  "glob_locale \<Rightarrow> cstring \<Rightarrow> nat \<Rightarrow> nat \<Rightarrow> bool \<Rightarrow> char \<Rightarrow> char \<Rightarrow> nat \<Rightarrow> item_step" where
  "plain_item loc P flags savep neg test c p =
     (case (if c = CHR ''['' \<and> c_at P p = CHR ''.''
            then map_option (\<lambda>(sym, p). (case sym of None \<Rightarrow> char_of (code test + 1) | Some e \<Rightarrow> e, p, True)) (parse_collsym P p)
            else Some (c, p, False)) of
        None \<Rightarrow> Leave B_Outside
      | Some (cstart, p, forcecoll) \<Rightarrow>
          if \<not> flag flags FNM_NOESCAPE \<and> c = BSLASH \<and> c_at P p = NUL then Leave B_Fail
          else
            let (cstart, p) = (if \<not> flag flags FNM_NOESCAPE \<and> c = BSLASH then (c_at P p, p + 1) else (cstart, p));
                cstart = FOLD flags cstart
            in if c = NUL then Leave (unclosed test savep)
               else
                 let c = FOLD flags (c_at P p); p = p + 1
                 in if flag flags FNM_PATHNAME \<and> c = CHR ''/'' then Leave B_Fail
                    else if c = CHR ''-'' \<and> c_at P p \<noteq> CHR '']''
                    then range_item loc P flags savep neg test cstart forcecoll p
                    else compare_item loc P flags savep neg test cstart cstart forcecoll c p)"

definition bracket_item :: "glob_locale \<Rightarrow> cstring \<Rightarrow> nat \<Rightarrow> nat \<Rightarrow> bool \<Rightarrow> char \<Rightarrow> char \<Rightarrow> nat \<Rightarrow> item_step" where
  "bracket_item loc P flags savep neg test c p =
     (if c = CHR ''['' \<and> c_at P p = CHR ''='' \<and> length P < p + 2 then Leave B_Outside
      else if c = CHR ''['' \<and> c_at P p = CHR ''='' \<and> c_at P (p + 2) = CHR ''='' \<and> c_at P (p + 3) = CHR '']''
      then equivalence_item loc P flags savep neg test p
      else if c = CHR ''['' \<and> c_at P p = CHR '':'' then class_item P flags savep neg test p
      else plain_item loc P flags savep neg test c p)"

text \<open>Where an item leaves off: behind its start, at most behind the terminator.\<close>

lemma FOLD_NUL [simp]: "FOLD flags NUL = NUL"
  by (simp add: FOLD_def tolower_def is_upper_def)

lemma c_at_inside: "c_at P p \<noteq> NUL \<Longrightarrow> p < length P"
  by (simp add: c_at_def split: if_splits)

lemma closing_bounds: "closing P c i = Some e \<Longrightarrow> i \<le> e \<and> e < length P"
  by (induction P c i rule: closing.induct) (subst (asm) closing.simps, auto split: if_splits)

definition step_on :: "cstring \<Rightarrow> nat \<Rightarrow> item_step \<Rightarrow> bool" where
  "step_on P p r \<longleftrightarrow> (\<forall>c' p'. r = Go_On c' p' \<longrightarrow> p < p' \<and> (c' \<noteq> NUL \<longrightarrow> p' \<le> length P))"

lemma step_on_simps [simp]:
  "step_on P p (Leave r)"
  "step_on P p (Go_On c' p') \<longleftrightarrow> p < p' \<and> (c' \<noteq> NUL \<longrightarrow> p' \<le> length P)"
  by (auto simp: step_on_def)

lemma FOLD_inside: "FOLD flags (c_at P p) \<noteq> NUL \<Longrightarrow> p < length P"
  by (cases "c_at P p = NUL") (auto dest: c_at_inside)

lemma compare_item_forward:
  "p < p' \<Longrightarrow> (c \<noteq> NUL \<Longrightarrow> p' \<le> length P) \<Longrightarrow> step_on P p (compare_item loc P flags savep neg test cstart cend f c p')"
  by (simp add: compare_item_def)

lemma class_item_forward: "step_on P p (class_item P flags savep neg test p)"
  by (auto simp: class_item_def Let_def dest!: closing_bounds c_at_inside split: option.splits prod.splits)

lemma go_on_forward:
  "p < p' + 1 \<Longrightarrow> step_on P p (Go_On (FOLD flags (c_at P p')) (p' + 1))"
  "p < p' + 1 \<Longrightarrow> step_on P p (compare_item loc P flags savep neg test cstart cend f (c_at P p') (p' + 1))"
  "p < p' + 1 \<Longrightarrow> step_on P p (compare_item loc P flags savep neg test cstart cend f (FOLD flags (c_at P p')) (p' + 1))"
  using FOLD_inside [of flags P p'] c_at_inside [of P p']
  by (auto intro!: compare_item_forward)

lemma parse_collsym_forward: "parse_collsym P p = Some (y, p') \<Longrightarrow> p < p'"
  by (auto simp: parse_collsym_def dest: closing_bounds)

lemma range_to_forward:
  assumes "q < p"
  shows "step_on P q (range_to loc P flags savep neg test cstart f cend p)"
proof -
  define r where "r = (if cend = CHR ''['' \<and> c_at P p = CHR ''.''
      then map_option (\<lambda>(sym, p). (case sym of None \<Rightarrow> char_of (code test + 255) | Some e \<Rightarrow> e, p, True)) (parse_collsym P p)
      else Some (cend, p, f))"
  have r: "q < p' + 1" if "r = Some (c, p', g)" for c p' g
    using that assms parse_collsym_forward [of P p] by (auto simp: r_def less_Suc_eq split: if_splits)
  show ?thesis
  proof (cases r)
    case None
    then show ?thesis unfolding range_to_def r_def [symmetric] by simp
  next
    case (Some x)
    obtain c p' g where x: "x = (c, p', g)" by (metis surj_pair)
    show ?thesis unfolding range_to_def r_def [symmetric] Some x option.case prod.case Let_def
      using r [OF Some [unfolded x]] by (simp add: go_on_forward del: step_on_simps(2) One_nat_def add_Suc_right)
  qed
qed

lemma range_item_forward: "q < p \<Longrightarrow> step_on P q (range_item loc P flags savep neg test cstart f p)"
  by (simp add: range_item_def range_to_forward)

lemma plain_item_cases:
  "plain_item loc P flags savep neg test c p \<in> {Leave B_Outside, Leave B_Fail, Leave (unclosed test savep)} \<or>
   (\<exists>cstart f p'. p \<le> p' \<and>
      (plain_item loc P flags savep neg test c p = range_item loc P flags savep neg test cstart f (p' + 1) \<or>
       plain_item loc P flags savep neg test c p =
         compare_item loc P flags savep neg test cstart cstart f (FOLD flags (c_at P p')) (p' + 1)))"
proof -
  define r where "r = (if c = CHR ''['' \<and> c_at P p = CHR ''.''
      then map_option (\<lambda>(sym, p). (case sym of None \<Rightarrow> char_of (code test + 1) | Some e \<Rightarrow> e, p, True)) (parse_collsym P p)
      else Some (c, p, False))"
  show ?thesis
  proof (cases r)
    case None
    then show ?thesis unfolding plain_item_def r_def [symmetric] by simp
  next
    case (Some x)
    obtain cs p1 f where x: "x = (cs, p1, f)" by (metis surj_pair)
    have p1: "p \<le> p1"
      using Some parse_collsym_forward [of P p] unfolding x by (auto simp: r_def split: if_splits)
    obtain cs' p2 where e: "(if \<not> flag flags FNM_NOESCAPE \<and> c = BSLASH then (c_at P p1, p1 + 1) else (cs, p1)) = (cs', p2)"
      by (metis surj_pair)
    then have p2: "p \<le> p2" using p1 by (auto split: if_splits)
    show ?thesis
      unfolding plain_item_def r_def [symmetric] Some x Let_def option.case prod.case e
      using p2 by (simp only: split: if_split) blast
  qed
qed

lemma plain_item_forward: "step_on P p (plain_item loc P flags savep neg test c p)"
  using plain_item_cases [of loc P flags savep neg test c p]
  by (auto intro!: go_on_forward range_item_forward simp del: step_on_simps(2) One_nat_def add_Suc_right simp: less_Suc_eq_le)

lemma bracket_item_forward: "step_on P p (bracket_item loc P flags savep neg test c p)"
  by (auto simp: bracket_item_def class_item_forward plain_item_forward equivalence_item_def Let_def dest!: FOLD_inside)

lemma bracket_item_NUL: "bracket_item loc P flags savep neg test NUL p = Leave (unclosed test savep)"
  by (simp add: bracket_item_def plain_item_def BSLASH_def)

function bracket_loop :: "glob_locale \<Rightarrow> cstring \<Rightarrow> nat \<Rightarrow> nat \<Rightarrow> bool \<Rightarrow> char \<Rightarrow> char \<Rightarrow> nat \<Rightarrow> bracket_result" where
  "bracket_loop loc P flags savep neg test c p =
     (case bracket_item loc P flags savep neg test c p of
        Leave r \<Rightarrow> r
      | Go_On c p \<Rightarrow> bracket_loop loc P flags savep neg test c p)"
  by pat_completeness auto

termination
proof (relation "measure (\<lambda>(loc, P, flags, savep, neg, test, c, p). if c = NUL then 0 else 1 + (length P + 1 - p))", simp)
  fix loc P flags savep neg test c p c' p'
  assume r: "bracket_item loc P flags savep neg test c p = Go_On c' p'"
  then have "c \<noteq> NUL" using bracket_item_NUL by auto
  then show "((loc, P, flags, savep, neg, test, c', p'), (loc, P, flags, savep, neg, test, c, p))
      \<in> measure (\<lambda>(loc, P, flags, savep, neg, test, c, p). if c = NUL then 0 else 1 + (length P + 1 - p))"
    using bracket_item_forward [of P p loc flags savep neg test c] r by (auto simp: step_on_def)
qed

declare bracket_loop.simps [simp del]

text \<open>\<^verbatim>\<open>BRACKMATCH\<close>, from behind the \<open>[\<close>.\<close>

definition brackmatch :: "glob_locale \<Rightarrow> cstring \<Rightarrow> nat \<Rightarrow> char \<Rightarrow> nat \<Rightarrow> bracket_result" where
  "brackmatch loc P p test flags =
     (let neg = (c_at P p = CHR ''!'' \<or> c_at P p = CHR ''^'');
          start = (if neg then p + 1 else p)
      in bracket_loop loc P flags p neg (FOLD flags test) (c_at P start) (start + 1))"

section \<open>Scanning an extended pattern\<close>

text \<open>
  The locals of \<^verbatim>\<open>PATSCAN\<close>; \<open>bfirst\<close> is the position of the first character of the open bracket. One
  character at \<open>s\<close>; \<open>None\<close> is \<open>return ++s\<close>. \<open>delim\<close> is \<open>|\<close> or NUL.
\<close>

record scan =
  pnest :: nat
  bnest :: nat
  skip :: bool
  cchar :: char
  bfirst :: "nat option"

definition scan_start :: scan where
  "scan_start = \<lparr>pnest = 0, bnest = 0, skip = False, cchar = NUL, bfirst = None\<rparr>"

definition scan_char :: "cstring \<Rightarrow> char \<Rightarrow> nat \<Rightarrow> scan \<Rightarrow> scan option" where
  "scan_char P delim s st =
     (let c = c_at P s; d = c_at P (s + 1)
      in if skip st then Some (st\<lparr>skip := False\<rparr>)
         else if c = BSLASH then Some (st\<lparr>skip := True\<rparr>)
         else if c = CHR ''['' then
           Some (if bnest st = 0
                 then st\<lparr>bfirst := Some (if d = CHR ''!'' \<or> d = CHR ''^'' then s + 2 else s + 1), bnest := 1\<rparr>
                 else if d = CHR '':'' \<or> d = CHR ''.'' \<or> d = CHR ''='' then st\<lparr>cchar := d\<rparr>
                 else st)
         else if c = CHR '']'' then
           Some (if bnest st = 0 then st
                 else if cchar st \<noteq> NUL \<and> c_at P (s - 1) = cchar st then st\<lparr>cchar := NUL\<rparr>
                 else if bfirst st \<noteq> Some s then st\<lparr>bnest := bnest st - 1, bfirst := None\<rparr>
                 else st)
         else if c = CHR ''('' then Some (if bnest st = 0 then st\<lparr>pnest := pnest st + 1\<rparr> else st)
         else if c = CHR '')'' then
           (if bnest st \<noteq> 0 then Some st
            else if pnest st = 0 then None
            else Some (st\<lparr>pnest := pnest st - 1\<rparr>))
         else if c = CHR ''|'' \<and> bnest st = 0 \<and> pnest st = 0 \<and> delim = CHR ''|'' then None
         else Some st)"

function patscan_loop :: "cstring \<Rightarrow> nat \<Rightarrow> char \<Rightarrow> nat \<Rightarrow> scan \<Rightarrow> nat option" where
  "patscan_loop P fin delim s st =
     (if length P \<le> s then None
      else if fin \<le> s then Some s
      else
        case scan_char P delim s st of
          None \<Rightarrow> Some (s + 1)
        | Some st \<Rightarrow> patscan_loop P fin delim (s + 1) st)"
  by pat_completeness auto
termination by (relation "measure (\<lambda>(P, fin, delim, s, st). length P - s)") auto

declare patscan_loop.simps [simp del]

definition patscan :: "cstring \<Rightarrow> nat \<Rightarrow> nat \<Rightarrow> char \<Rightarrow> nat option" where
  "patscan P s fin delim = (if s = fin then None else patscan_loop P fin delim s scan_start)"

text \<open>The scan moves forward, inside the pattern.\<close>

lemma patscan_loop_bounds: "patscan_loop P fin delim s st = Some q \<Longrightarrow> s \<le> q \<and> q \<le> length P"
proof (induction P fin delim s st rule: patscan_loop.induct)
  case (1 P fin delim s st)
  from 1(2) show ?case by (subst (asm) patscan_loop.simps) (use 1(1) in \<open>auto split: if_splits option.splits\<close>)
qed

lemma patscan_bounds: "patscan P s fin delim = Some q \<Longrightarrow> s \<le> q \<and> q \<le> length P"
  by (auto simp: patscan_def dest: patscan_loop_bounds split: if_splits)

section \<open>Extended patterns\<close>

text \<open>Both parts as strings, compared with \<^verbatim>\<open>strcoll\<close>.\<close>

definition strcompare :: "glob_locale \<Rightarrow> cstring \<Rightarrow> cstring \<Rightarrow> nat \<Rightarrow> nat \<Rightarrow> nat \<Rightarrow> nat \<Rightarrow> match_result" where
  "strcompare loc P S p pe s se =
     (if pe - p \<noteq> se - s then No_Match
      else if glob_strcoll loc (between P p pe) (between S s se) = 0 then Match else No_Match)"

text \<open>
  A recursive call of \<^verbatim>\<open>GMATCH\<close>: from \<open>s\<close> to \<open>se\<close> in the string, \<open>p\<close> to \<open>pe\<close> in the pattern, with flags.
\<close>

type_synonym gmatch_call = "nat \<Rightarrow> nat \<Rightarrow> nat \<Rightarrow> nat \<Rightarrow> nat \<Rightarrow> match_result"

text \<open>
  The loop over the alternatives from \<open>psub\<close> on, until one matches. A null \<^verbatim>\<open>pnext\<close> is dereferenced; a
  scan that does not move on would repeat for ever, which does not happen before \<open>pe\<close>.
\<close>

function alt_loop :: "cstring \<Rightarrow> nat \<Rightarrow> nat \<Rightarrow> (nat \<Rightarrow> nat \<Rightarrow> match_result) \<Rightarrow> nat \<Rightarrow> match_result" where
  "alt_loop P pe prest body psub =
     (case patscan P psub pe (CHR ''|'') of
        None \<Rightarrow> Outside
      | Some pnext \<Rightarrow>
          or_match (body psub pnext)
            (if pnext = prest then No_Match
             else if pnext \<le> psub then Outside
             else alt_loop P pe prest body pnext))"
  by pat_completeness auto
termination by (relation "measure (\<lambda>(P, pe, prest, body, psub). length P - psub)") (auto dest: patscan_bounds)

declare alt_loop.simps [simp del]

definition extmatch ::
  "gmatch_call \<Rightarrow> glob_locale \<Rightarrow> cstring \<Rightarrow> cstring \<Rightarrow> char \<Rightarrow> nat \<Rightarrow> nat \<Rightarrow> nat \<Rightarrow> nat \<Rightarrow> nat \<Rightarrow> match_result" where
  "extmatch call loc P S xc s se p pe flags =
     (case patscan P (if c_at P p = CHR ''('' then p + 1 else p) pe NUL of
        None \<Rightarrow> strcompare loc P S (p - 1) pe s se
      | Some prest \<Rightarrow>
          let later = (\<lambda>srest. if s < srest then no_period flags else flags);
              alternatives = (\<lambda>body. alt_loop P pe prest body (p + 1))
          in if xc = CHR ''+'' \<or> xc = CHR ''*'' then
               or_match (if xc = CHR ''*'' then call s se prest pe flags else No_Match)
                 (alternatives (\<lambda>psub pnext.
                    first_match (\<lambda>srest.
                      and_match (call s srest psub (pnext - 1) flags)
                        (or_match (call srest se prest pe (later srest))
                           (if s \<noteq> srest then call srest se (p - 1) pe (later srest) else No_Match)))
                      [s..<se + 1]))
             else if xc = CHR ''?'' \<or> xc = CHR ''@'' then
               or_match (if xc = CHR ''?'' then call s se prest pe flags else No_Match)
                 (alternatives (\<lambda>psub pnext.
                    first_match (\<lambda>srest.
                      and_match (call s srest psub (pnext - 1) flags) (call srest se prest pe (later srest)))
                      [(if prest = pe then se else s)..<se + 1]))
             else if xc = CHR ''!'' then
               first_match (\<lambda>srest.
                 case alternatives (\<lambda>psub pnext. call s srest psub (pnext - 1) flags) of
                   Match \<Rightarrow> No_Match
                 | No_Match \<Rightarrow> call srest se prest pe (later srest)
                 | r \<Rightarrow> r)
                 [s..<se + 1]
             else No_Match)"

section \<open>The matcher\<close>

text \<open>\<open>sc = n < se ? *n : 0\<close>; a leading dot under \<^verbatim>\<open>FNM_PERIOD\<close>.\<close>

definition string_at :: "cstring \<Rightarrow> nat \<Rightarrow> nat \<Rightarrow> char" where
  "string_at S se n = (if n < se then c_at S n else NUL)"

definition leading_dot :: "cstring \<Rightarrow> nat \<Rightarrow> nat \<Rightarrow> nat \<Rightarrow> nat \<Rightarrow> bool" where
  "leading_dot S flags start se n \<longleftrightarrow>
     flag flags FNM_PERIOD \<and> string_at S se n = CHR ''.'' \<and>
     (n = start \<or> flag flags FNM_PATHNAME \<and> c_at S (n - 1) = CHR ''/'')"

text \<open>
  The loop that collapses \<open>*\<close> and \<open>?\<close>. One round for the wildcard \<open>c\<close> before \<open>p\<close> returns from
  \<^verbatim>\<open>GMATCH\<close> or leaves \<open>p\<close> and \<open>n\<close>; the loop leaves \<open>c\<close> as well.
\<close>

definition star_step ::
  "gmatch_call \<Rightarrow> glob_locale \<Rightarrow> cstring \<Rightarrow> cstring \<Rightarrow> nat \<Rightarrow> nat \<Rightarrow> nat \<Rightarrow> char \<Rightarrow> nat \<Rightarrow> nat \<Rightarrow> match_result + nat \<times> nat" where
  "star_step call loc P S flags se pe c p n =
     (let sc = string_at S se n;
          ext = (flag flags FNM_EXTMATCH \<and> c_at P p = CHR ''('');
          from = (\<lambda>n. first_match (\<lambda>newn. extmatch call loc P S c newn se p pe flags) [n..<se])
      in if flag flags FNM_PATHNAME \<and> sc = CHR ''/'' then Inl No_Match
         else if ext \<and> c = CHR ''?'' then Inl (or_match (from n) Match)
         else if c = CHR ''?'' \<and> sc = NUL then Inl No_Match
         else
           let n = (if c = CHR ''?'' then n + 1 else n)
           in if ext \<and> c = CHR ''*'' then
                (case from n of
                   No_Match \<Rightarrow> Inr (case patscan P (p + 1) pe NUL of None \<Rightarrow> pe | Some newn \<Rightarrow> newn, n)
                 | r \<Rightarrow> Inl r)
              else Inr (p, n))"

lemma star_step_forward:
  "star_step call loc P S flags se pe c p n = Inr (p', n') \<Longrightarrow> (p' = pe \<or> p \<le> p') \<and> n \<le> n'"
  by (auto simp: star_step_def Let_def dest: patscan_bounds split: if_splits option.splits match_result.splits)

function star_loop ::
  "gmatch_call \<Rightarrow> glob_locale \<Rightarrow> cstring \<Rightarrow> cstring \<Rightarrow> nat \<Rightarrow> nat \<Rightarrow> nat \<Rightarrow> char \<Rightarrow> nat \<Rightarrow> nat \<Rightarrow> match_result + char \<times> nat \<times> nat" where
  "star_loop call loc P S flags se pe c p n =
     (if c \<noteq> CHR ''?'' \<and> c \<noteq> CHR ''*'' then Inr (c, p, n)
      else
        case star_step call loc P S flags se pe c p n of
          Inl r \<Rightarrow> Inl r
        | Inr (p, n) \<Rightarrow>
            if p = pe then Inr (c, p, n)
            else star_loop call loc P S flags se pe (c_at P p) (p + 1) n)"
  by pat_completeness auto
termination
  by (relation "measure (\<lambda>(call, loc, P, S, flags, se, pe, c, p, n). if c = NUL then 0 else 1 + (length P + 1 - p))")
     (auto dest!: c_at_inside star_step_forward)

declare star_loop.simps [simp del]

text \<open>The general case of \<open>*\<close>: the rest of the pattern, from \<open>c\<close> before \<open>p\<close> on, at every position.\<close>

definition star_general ::
  "gmatch_call \<Rightarrow> cstring \<Rightarrow> cstring \<Rightarrow> nat \<Rightarrow> nat \<Rightarrow> nat \<Rightarrow> char \<Rightarrow> nat \<Rightarrow> nat \<Rightarrow> match_result" where
  "star_general call P S flags se pe c p n =
     (let c1 = FOLD flags (if \<not> flag flags FNM_NOESCAPE \<and> c = BSLASH then c_at P p else c);
          other = (\<lambda>n. c \<noteq> CHR ''['' \<and> FOLD flags (c_at S n) \<noteq> c1)
      in first_match (\<lambda>n.
           if \<not> flag flags FNM_EXTMATCH \<and> other n then No_Match
           else if flag flags FNM_EXTMATCH \<and> c_at P p \<noteq> CHR ''('' \<and> c_at P (p - 1) \<notin> set ''?*+@!'' \<and>
                   c_at P (p - 1) \<noteq> NUL \<and> other n then No_Match
           else call n se (p - 1) pe (no_period flags)) [n..<se])"

definition star_match ::
  "gmatch_call \<Rightarrow> glob_locale \<Rightarrow> cstring \<Rightarrow> cstring \<Rightarrow> nat \<Rightarrow> nat \<Rightarrow> nat \<Rightarrow> nat \<Rightarrow> nat \<Rightarrow> match_result" where
  "star_match call loc P S flags se pe p n =
     (case star_loop call loc P S flags se pe (c_at P p) (p + 1) n of
        Inl r \<Rightarrow> r
      | Inr (c, p, n) \<Rightarrow>
          if p = pe \<and> (c = CHR ''?'' \<or> c = CHR ''*'') then Match
          else if n = se \<and> flag flags FNM_EXTMATCH \<and> (c = CHR ''!'' \<or> c = CHR ''?'') \<and> c_at P p = CHR ''('' then
            (case extmatch call loc P S c n se (p - 1) pe flags of
               Match \<Rightarrow> if c = CHR ''!'' then No_Match else Match
             | No_Match \<Rightarrow> if c = CHR ''!'' then Match else No_Match
             | r \<Rightarrow> r)
          else star_general call P S flags se pe c p n)"

text \<open>A bracket expression that matches ends behind its start.\<close>

lemma skip_bracket_forward: "p0 \<le> p \<Longrightarrow> skip_bracket P flags p0 neg test c p k = B_At q \<Longrightarrow> p0 \<le> q"
proof (induction P flags p0 neg test c p k rule: skip_bracket.induct)
  case (1 P flags p0 neg test c p k)
  from 1(6) show ?case
    by (subst (asm) skip_bracket.simps)
       (use 1(1-5) in \<open>auto simp: unclosed_def Let_def split: if_splits\<close>)
qed

lemma matched_forward: "p0 \<le> p \<Longrightarrow> matched P flags p0 neg test p = B_At q \<Longrightarrow> p0 \<le> q"
  by (auto simp: matched_def dest: skip_bracket_forward)

definition leaves_behind :: "nat \<Rightarrow> item_step \<Rightarrow> bool" where
  "leaves_behind p0 r \<longleftrightarrow> (\<forall>q. r = Leave (B_At q) \<longrightarrow> p0 \<le> q)"

lemma leaves_behind_simps [simp]:
  "leaves_behind p0 (Go_On c p)" "leaves_behind p0 (Leave B_Fail)" "leaves_behind p0 (Leave B_Outside)"
  "leaves_behind p0 (Leave (unclosed test p0))"
  "leaves_behind p0 (Leave (not_matched neg p)) \<longleftrightarrow> \<not> neg \<or> p0 \<le> p"
  by (auto simp: leaves_behind_def unclosed_def not_matched_def)

lemma matched_behind: "p0 \<le> p \<Longrightarrow> leaves_behind p0 (Leave (matched P flags p0 neg test p))"
  by (auto simp: leaves_behind_def dest: matched_forward)

lemma compare_item_behind: "p0 < p \<Longrightarrow> leaves_behind p0 (compare_item loc P flags p0 neg test cstart cend f c p)"
  by (simp add: compare_item_def matched_behind)

lemma range_to_behind: "p0 < p \<Longrightarrow> leaves_behind p0 (range_to loc P flags p0 neg test cstart f cend p)"
  by (auto simp: range_to_def Let_def intro!: compare_item_behind dest!: parse_collsym_forward split: option.splits if_splits)

lemma plain_item_behind: "p0 < p \<Longrightarrow> leaves_behind p0 (plain_item loc P flags p0 neg test c p)"
  using plain_item_cases [of loc P flags p0 neg test c p]
  by (auto simp: range_item_def intro!: compare_item_behind range_to_behind)

lemma bracket_item_behind: "p0 < p \<Longrightarrow> leaves_behind p0 (bracket_item loc P flags p0 neg test c p)"
  by (auto simp: bracket_item_def equivalence_item_def class_item_def Let_def plain_item_behind
      intro!: matched_behind dest!: closing_bounds split: option.splits if_splits)

lemma bracket_loop_forward: "p0 < p \<Longrightarrow> bracket_loop loc P flags p0 neg test c p = B_At q \<Longrightarrow> p0 \<le> q"
proof (induction loc P flags p0 neg test c p rule: bracket_loop.induct)
  case (1 loc P flags p0 neg test c p)
  from 1(3) show ?case
    by (subst (asm) bracket_loop.simps)
       (use 1(1,2) bracket_item_forward [of P p loc flags p0 neg test c] bracket_item_behind [OF 1(2), of loc P flags neg test c]
         in \<open>auto simp: step_on_def leaves_behind_def split: item_step.splits\<close>)
qed

text \<open>
  The \<^verbatim>\<open>while\<close> loop of \<^verbatim>\<open>GMATCH\<close>, which was called at \<open>start\<close>: a round returns, or matches one
  character of the string and leaves \<open>p\<close>.
\<close>

definition gmatch_step ::
  "gmatch_call \<Rightarrow> glob_locale \<Rightarrow> cstring \<Rightarrow> cstring \<Rightarrow> nat \<Rightarrow> nat \<Rightarrow> nat \<Rightarrow> nat \<Rightarrow> nat \<Rightarrow> nat \<Rightarrow> match_result + nat" where
  "gmatch_step call loc P S flags start se pe n p =
     (let c = FOLD flags (c_at P p); p = p + 1; sc = string_at S se n
      in if flag flags FNM_EXTMATCH \<and> c_at P p = CHR ''('' \<and> c \<in> set ''+*?@!'' then
           Inl (extmatch call loc P S c n se p pe (if n = start then flags else no_period flags))
         else if c = CHR ''?'' then
           (if sc = NUL \<or> flag flags FNM_PATHNAME \<and> sc = CHR ''/'' \<or> leading_dot S flags start se n then Inl No_Match
            else Inr p)
         else if c = BSLASH then
           (if p = pe then Inl No_Match
            else if \<not> flag flags FNM_NOESCAPE then
              (if FOLD flags sc \<noteq> FOLD flags (c_at P p) then Inl No_Match else Inr (p + 1))
            else if FOLD flags sc \<noteq> c then Inl No_Match
            else Inr p)
         else if c = CHR ''*'' then
           Inl (if p = pe then Match
                else if leading_dot S flags start se n then No_Match
                else star_match call loc P S flags se pe p n)
         else if c = CHR ''['' then
           (if sc = NUL \<or> n = se \<or> leading_dot S flags start se n then Inl No_Match
            else
              case brackmatch loc P p sc flags of
                B_Fail \<Rightarrow> Inl No_Match
              | B_Outside \<Rightarrow> Inl Outside
              | B_At p \<Rightarrow> Inr p)
         else if c \<noteq> FOLD flags sc then Inl No_Match
         else Inr p)"

lemma gmatch_step_forward: "gmatch_step call loc P S flags start se pe n p = Inr p' \<Longrightarrow> p < p'"
  by (auto simp: gmatch_step_def Let_def brackmatch_def dest!: bracket_loop_forward [rotated]
      split: if_splits bracket_result.splits)

function gmatch_loop ::
  "gmatch_call \<Rightarrow> glob_locale \<Rightarrow> cstring \<Rightarrow> cstring \<Rightarrow> nat \<Rightarrow> nat \<Rightarrow> nat \<Rightarrow> nat \<Rightarrow> nat \<Rightarrow> nat \<Rightarrow> match_result" where
  "gmatch_loop call loc P S flags start se pe n p =
     (if pe \<le> p then
        (if n = se then Match
         else if flag flags FNM_LEADING_DIR \<and> c_at S n = CHR ''/'' then Match
         else No_Match)
      else
        case gmatch_step call loc P S flags start se pe n p of
          Inl r \<Rightarrow> r
        | Inr p \<Rightarrow> gmatch_loop call loc P S flags start se pe (n + 1) p)"
  by pat_completeness auto
termination
  by (relation "measure (\<lambda>(call, loc, P, S, flags, start, se, pe, n, p). pe - p)") (auto dest: gmatch_step_forward)

declare gmatch_loop.simps [simp del]

text \<open>
  The recursion; every call has a shorter part of the pattern, or the same part and a shorter part of
  the string.
\<close>

primrec gmatch :: "nat \<Rightarrow> glob_locale \<Rightarrow> cstring \<Rightarrow> cstring \<Rightarrow> gmatch_call" where
  "gmatch 0 loc P S = (\<lambda>s se p pe flags. Glob_No_Fuel)"
| "gmatch (Suc k) loc P S = (\<lambda>s se p pe flags. gmatch_loop (gmatch k loc P S) loc P S flags s se pe s p)"

definition glob_fuel :: "cstring \<Rightarrow> cstring \<Rightarrow> nat" where
  "glob_fuel P S = (length P + 1) * (length S + 1)"

definition strmatch :: "glob_locale \<Rightarrow> cstring \<Rightarrow> cstring \<Rightarrow> nat \<Rightarrow> match_result" where
  "strmatch loc pattern str flags =
     gmatch (glob_fuel pattern str) loc pattern str 0 (length str) 0 (length pattern) flags"

section \<open>The recursion ends\<close>

lemma no_fuel_combine:
  "r \<noteq> Glob_No_Fuel \<Longrightarrow> r2 \<noteq> Glob_No_Fuel \<Longrightarrow> or_match r r2 \<noteq> Glob_No_Fuel"
  "r \<noteq> Glob_No_Fuel \<Longrightarrow> (r = Match \<Longrightarrow> r2 \<noteq> Glob_No_Fuel) \<Longrightarrow> and_match r r2 \<noteq> Glob_No_Fuel"
  by (cases r; simp add: or_match_def and_match_def)+

lemma no_fuel_first:
  "(\<And>i. i \<in> set is \<Longrightarrow> f i \<noteq> Glob_No_Fuel) \<Longrightarrow> first_match f is \<noteq> Glob_No_Fuel"
  by (induction "is") (simp_all add: first_match_def no_fuel_combine)

lemma patscan_loop_fin: "patscan_loop P fin delim s st = Some q \<Longrightarrow> q \<le> max s fin"
proof (induction P fin delim s st rule: patscan_loop.induct)
  case (1 P fin delim s st)
  from 1(2) show ?case
    by (subst (asm) patscan_loop.simps) (use 1(1) in \<open>auto split: if_splits option.splits\<close>)
qed

lemma patscan_fin: "patscan P s fin delim = Some q \<Longrightarrow> q \<le> max s fin"
  by (auto simp: patscan_def dest: patscan_loop_fin split: if_splits)

lemma alt_loop_fuel:
  assumes "\<And>psub' pnext. psub \<le> psub' \<Longrightarrow> patscan P psub' pe (CHR ''|'') = Some pnext \<Longrightarrow> body psub' pnext \<noteq> Glob_No_Fuel"
  shows "alt_loop P pe prest body psub \<noteq> Glob_No_Fuel"
  using assms
proof (induction P pe prest body psub rule: alt_loop.induct)
  case (1 P pe prest body psub)
  show ?case
  proof (cases "patscan P psub pe (CHR ''|'')")
    case (Some pnext)
    have "alt_loop P pe prest body pnext \<noteq> Glob_No_Fuel" if "pnext \<noteq> prest" "\<not> pnext \<le> psub"
      using 1(1) [OF Some that] 1(2) that by (meson le_trans nat_le_linear)
    then show ?thesis using Some 1(2) [OF order_refl Some] by (subst alt_loop.simps) (simp add: no_fuel_combine)
  qed (subst alt_loop.simps, simp)
qed

text \<open>
  A call with less than \<open>k\<close> left: the length of its part of the pattern, times one more than the
  length \<open>M\<close> of the string, plus the length of its part of the string.
\<close>

definition fuelled :: "nat \<Rightarrow> nat \<Rightarrow> gmatch_call \<Rightarrow> bool" where
  "fuelled M k call \<longleftrightarrow>
     (\<forall>s se p pe flags. se \<le> M \<longrightarrow> (pe - p) * (M + 1) + (se - s) < k \<longrightarrow> call s se p pe flags \<noteq> Glob_No_Fuel)"

text \<open>The budget at a position behind \<open>p0\<close> covers every shorter part of the pattern.\<close>

lemma fuelled_shorter:
  assumes "fuelled M k call" and "(pe - p0) * (M + 1) + (se0 - s0) \<le> k" "p' - p < pe - p0" "se \<le> M"
  shows "call s se p p' flags \<noteq> Glob_No_Fuel"
proof -
  have "Suc (p' - p) * (M + 1) \<le> (pe - p0) * (M + 1)" using assms(3) by (intro mult_le_mono1) simp
  then have "(p' - p) * (M + 1) + M + 1 \<le> (pe - p0) * (M + 1)" by (simp only: mult_Suc)
  then have "(p' - p) * (M + 1) + (se - s) < k" using assms(2,4) by linarith
  then show ?thesis using assms(1,4) by (simp add: fuelled_def)
qed

lemma fuelled_again:
  assumes "fuelled M k call" and "(pe - p0) * (M + 1) + (se - s0) \<le> k" "p0 \<le> p" "s0 < s" "s \<le> se" "se \<le> M"
  shows "call s se p pe flags \<noteq> Glob_No_Fuel"
proof -
  have "(pe - p) * (M + 1) \<le> (pe - p0) * (M + 1)" using assms(3) by (intro mult_le_mono1) simp
  then have "(pe - p) * (M + 1) + (se - s) < k" using assms(2,4,5) by linarith
  then show ?thesis using assms(1,6) by (simp add: fuelled_def)
qed

lemma extmatch_fuel:
  assumes "fuelled M k call" and "(pe - p0) * (M + 1) + (se - s0) \<le> k"
    and "p0 < p" "p0 < pe" "s0 \<le> s" "se \<le> M"
  shows "extmatch call loc P S xc s se p pe flags \<noteq> Glob_No_Fuel"
proof (cases "patscan P (if c_at P p = CHR ''('' then p + 1 else p) pe NUL")
  case None
  then show ?thesis by (simp add: extmatch_def strcompare_def)
next
  case (Some prest)
  have "p \<le> prest" using patscan_bounds [OF Some] by (simp split: if_splits)
  then have rest: "call srest se prest pe f \<noteq> Glob_No_Fuel" for srest f
    using assms by (intro fuelled_shorter [OF assms(1,2)]) auto
  have part: "call s srest psub (pnext - 1) f \<noteq> Glob_No_Fuel"
    if "p + 1 \<le> psub" "patscan P psub pe (CHR ''|'') = Some pnext" "srest \<le> se" for srest psub pnext f
    using patscan_fin [OF that(2)] that assms by (intro fuelled_shorter [OF assms(1,2)]) auto
  have again: "call srest se (p - 1) pe f \<noteq> Glob_No_Fuel" if "s < srest" "srest \<le> se" for srest f
    using that assms by (intro fuelled_again [OF assms(1,2)]) auto
  have not: "alt_loop P pe prest (\<lambda>psub pnext. call s srest psub (pnext - 1) flags) (p + 1) \<noteq> Glob_No_Fuel" if "srest \<le> se" for srest
    by (rule alt_loop_fuel) (use part that in simp)
  have repeat: "first_match (\<lambda>srest. and_match (call s srest psub (pnext - 1) flags)
      (or_match (call srest se prest pe (f srest)) (if s \<noteq> srest then call srest se (p - 1) pe (f srest) else No_Match)))
      [s..<se + 1] \<noteq> Glob_No_Fuel"
    if "p + 1 \<le> psub" "patscan P psub pe (CHR ''|'') = Some pnext" for psub pnext f
    using again by (intro no_fuel_first no_fuel_combine part [OF that] rest) (auto simp: less_le)
  have once: "first_match (\<lambda>srest. and_match (call s srest psub (pnext - 1) flags) (call srest se prest pe (f srest)))
      [i..<se + 1] \<noteq> Glob_No_Fuel"
    if "p + 1 \<le> psub" "patscan P psub pe (CHR ''|'') = Some pnext" for psub pnext f i
    by (intro no_fuel_first no_fuel_combine part [OF that] rest) auto
  have other: "first_match (\<lambda>srest. case alt_loop P pe prest (\<lambda>psub pnext. call s srest psub (pnext - 1) flags) (p + 1) of
      Match \<Rightarrow> No_Match | No_Match \<Rightarrow> call srest se prest pe (f srest) | r \<Rightarrow> r) [s..<se + 1] \<noteq> Glob_No_Fuel" for f
  proof (rule no_fuel_first)
    fix i assume "i \<in> set [s..<se + 1]"
    then have "alt_loop P pe prest (\<lambda>psub pnext. call s i psub (pnext - 1) flags) (p + 1) \<noteq> Glob_No_Fuel"
      by (intro alt_loop_fuel part) auto
    then show "(case alt_loop P pe prest (\<lambda>psub pnext. call s i psub (pnext - 1) flags) (p + 1) of
        Match \<Rightarrow> No_Match | No_Match \<Rightarrow> call i se prest pe (f i) | r \<Rightarrow> r) \<noteq> Glob_No_Fuel"
      using rest by (simp split: match_result.split)
  qed
  show ?thesis
    unfolding extmatch_def Some option.case Let_def
    by (simp only: split: if_split)
       (intro conjI impI no_fuel_combine alt_loop_fuel repeat once other rest; assumption?; simp)
qed

lemma star_step_fuel:
  assumes "fuelled M k call" and "(pe - p0) * (M + 1) + (se - s0) \<le> k"
    and "p0 < pe" "p0 < p" "s0 \<le> n" "se \<le> M"
  shows "star_step call loc P S flags se pe c p n \<noteq> Inl Glob_No_Fuel"
proof -
  have "first_match (\<lambda>newn. extmatch call loc P S c newn se p pe flags) [m..<se] \<noteq> Glob_No_Fuel" if "n \<le> m" for m
    using that assms by (intro no_fuel_first extmatch_fuel [OF assms(1,2)]) auto
  then have "first_match (\<lambda>newn. extmatch call loc P S c newn se p pe flags) [n..<se] \<noteq> Glob_No_Fuel"
      "first_match (\<lambda>newn. extmatch call loc P S c newn se p pe flags) [n + 1..<se] \<noteq> Glob_No_Fuel" by auto
  then show ?thesis
    by (auto simp: star_step_def Let_def no_fuel_combine split: match_result.splits)
qed

lemma star_loop_fuel:
  assumes "fuelled M k call" and "(pe - p0) * (M + 1) + (se - s0) \<le> k"
    and "p0 < pe" "p0 + 1 < p" "s0 \<le> n" "se \<le> M"
  shows "star_loop call loc P S flags se pe c p n \<noteq> Inl Glob_No_Fuel \<and>
    (\<forall>c' p' n'. star_loop call loc P S flags se pe c p n = Inr (c', p', n') \<longrightarrow>
       (p' = pe \<and> (c' = CHR ''?'' \<or> c' = CHR ''*'') \<or> p \<le> p') \<and> n \<le> n')"
  using assms
proof (induction call loc P S flags se pe c p n rule: star_loop.induct)
  case (1 call loc P S flags se pe c p n)
  show ?case
  proof (cases "c \<noteq> CHR ''?'' \<and> c \<noteq> CHR ''*''")
    case True
    then show ?thesis by (subst (1 2) star_loop.simps) auto
  next
    case c: False
    show ?thesis
    proof (cases "star_step call loc P S flags se pe c p n")
      case (Inl r)
      then show ?thesis using c star_step_fuel [OF 1(2,3,4) _ 1(6,7), of p loc P S flags c] 1(5) by (subst (1 2) star_loop.simps) auto
    next
      case (Inr x)
      obtain p' n' where x: "x = (p', n')" by (cases x)
      have "p' = pe \<or> p \<le> p'" "n \<le> n'" using star_step_forward Inr x by blast+
      then show ?thesis using c Inr x 1(1) [OF c Inr x [symmetric]] 1(2-) by (subst (1 2) star_loop.simps) (fastforce split: if_splits)
    qed
  qed
qed

lemma star_match_fuel:
  assumes "fuelled M k call" and "(pe - p0) * (M + 1) + (se - s0) \<le> k"
    and "p0 < pe" "p0 < p" "s0 \<le> n" "se \<le> M"
  shows "star_match call loc P S flags se pe p n \<noteq> Glob_No_Fuel"
proof (cases "star_loop call loc P S flags se pe (c_at P p) (p + 1) n")
  case (Inl r)
  then show ?thesis
    using star_loop_fuel [OF assms(1-3) _ assms(5,6), of "p + 1" loc P S flags "c_at P p"] assms(4)
    by (auto simp: star_match_def)
next
  case (Inr x)
  obtain c p' n' where x: "x = (c, p', n')" by (metis surj_pair)
  have le: "p' = pe \<and> (c = CHR ''?'' \<or> c = CHR ''*'') \<or> p + 1 \<le> p'" "n \<le> n'"
    using star_loop_fuel [OF assms(1-3) _ assms(5,6), of "p + 1" loc P S flags "c_at P p"] assms(4) Inr x by auto
  show ?thesis
  proof (cases "p' = pe \<and> (c = CHR ''?'' \<or> c = CHR ''*'')")
    case True
    then show ?thesis unfolding star_match_def Inr x sum.case prod.case by simp
  next
    case False
    then have p': "p0 < p' - 1" "s0 \<le> n'" using le assms(4,5) by auto
    have "extmatch call loc P S c n' se (p' - 1) pe flags \<noteq> Glob_No_Fuel"
      using p' assms by (intro extmatch_fuel [OF assms(1,2)]) auto
    moreover have "call m se (p' - 1) pe f \<noteq> Glob_No_Fuel" for m f
      using p' assms(3,6) by (intro fuelled_shorter [OF assms(1,2)]) auto
    then have "star_general call P S flags se pe c p' n' \<noteq> Glob_No_Fuel"
      unfolding star_general_def Let_def by (intro no_fuel_first) simp
    ultimately show ?thesis using False
      unfolding star_match_def Inr x sum.case prod.case by (auto split: match_result.splits)
  qed
qed

lemma gmatch_step_fuel:
  assumes "fuelled M k call" and "(pe - p0) * (M + 1) + (se - s0) \<le> k" and "p0 \<le> p" "p < pe" "s0 \<le> n" "se \<le> M"
  shows "gmatch_step call loc P S flags start se pe n p \<noteq> Inl Glob_No_Fuel"
proof -
  have "extmatch call loc P S c n se (p + 1) pe f \<noteq> Glob_No_Fuel" for c f
    using assms by (intro extmatch_fuel [OF assms(1,2)]) auto
  moreover have "star_match call loc P S flags se pe (p + 1) n \<noteq> Glob_No_Fuel"
    using assms by (intro star_match_fuel [OF assms(1,2)]) auto
  ultimately show ?thesis
    unfolding gmatch_step_def Let_def
    by (simp only: split: if_split) (simp only: simp_thms sum.inject sum.distinct match_result.distinct split: bracket_result.split if_split; simp)
qed

lemma gmatch_loop_fuel:
  assumes "fuelled M k call" and "(pe - p0) * (M + 1) + (se - s0) \<le> k" and "p0 \<le> p" "s0 \<le> n" "se \<le> M"
  shows "gmatch_loop call loc P S flags start se pe n p \<noteq> Glob_No_Fuel"
  using assms
proof (induction call loc P S flags start se pe n p rule: gmatch_loop.induct)
  case (1 call loc P S flags start se pe n p)
  show ?case
  proof (cases "pe \<le> p")
    case True
    then show ?thesis by (subst gmatch_loop.simps) simp
  next
    case False
    have step: "gmatch_step call loc P S flags start se pe n p \<noteq> Inl Glob_No_Fuel"
      using gmatch_step_fuel [OF 1(2-4) _ 1(5,6)] False by simp
    show ?thesis
    proof (cases "gmatch_step call loc P S flags start se pe n p")
      case (Inl r)
      then show ?thesis using False step by (subst gmatch_loop.simps) auto
    next
      case (Inr p')
      then have "gmatch_loop call loc P S flags start se pe (n + 1) p' \<noteq> Glob_No_Fuel"
        using 1(1) [OF False Inr 1(2,3)] 1(4-6) gmatch_step_forward [OF Inr] by simp
      then show ?thesis using False Inr by (subst gmatch_loop.simps) simp
    qed
  qed
qed

lemma gmatch_fuelled: "fuelled M k (gmatch k loc P S)"
proof (induction k)
  case (Suc k)
  have "gmatch_loop (gmatch k loc P S) loc P S flags s se pe s p \<noteq> Glob_No_Fuel"
    if "se \<le> M" "(pe - p) * (M + 1) + (se - s) < Suc k" for s se p pe flags
    using gmatch_loop_fuel [OF Suc, of pe p se s p s] that by simp
  then show ?case unfolding fuelled_def gmatch.simps(2) by blast
qed (simp add: fuelled_def)

text \<open>
  C14. Matching ends for every pattern and every string: each recursive call gets a shorter part of the
  pattern, or the same part and a shorter part of the string, so at most \<open>(m + 1) * (n + 1)\<close> calls are
  nested.
\<close>

theorem strmatch_ends: "strmatch loc pattern str flags \<noteq> Glob_No_Fuel"
  using gmatch_fuelled [of "length str" "glob_fuel pattern str" loc pattern str]
  by (simp add: strmatch_def fuelled_def glob_fuel_def)

end
