(* ===== verification/Glob_Language.thy ===== *)
theory Glob_Language
  imports Glob_Match
begin

text \<open>
  What a pattern means, and that the matcher of \<open>Glob_Match\<close> computes it: patterns as tokens, the set of
  strings they denote, their text, and the proof that \<^verbatim>\<open>strmatch\<close> on the text decides membership, for
  wildcards, bracket expressions and extended patterns nested to any depth.
\<close>

section \<open>Patterns and their language\<close>

text \<open>A character, quoted with a backslash or not; the items of a bracket expression; the parts of a pattern.\<close>

type_synonym gchar = "bool \<times> char"

datatype gitem = Single gchar | Span gchar gchar | Class cstring

datatype gtoken = Char gchar | Any | Star | Bracket bool "gitem list" | Ext char "gtoken list list"

text \<open>Zero or more strings of a set.\<close>

inductive_set repeats :: "string set \<Rightarrow> string set" for A where
  none: "[] \<in> repeats A"
| more: "u \<in> A \<Longrightarrow> v \<in> repeats A \<Longrightarrow> u @ v \<in> repeats A"

definition item_has :: "glob_locale \<Rightarrow> char \<Rightarrow> gitem \<Rightarrow> bool" where
  "item_has loc t i =
     (case i of
        Single a \<Rightarrow> t = snd a
      | Span a b \<Rightarrow> rangecmp loc (snd a) (snd b) False \<le> 0 \<and> 0 \<le> rangecmp loc t (snd a) False \<and> rangecmp loc t (snd b) False \<le> 0
      | Class name \<Rightarrow> is_cclass t name = Some True)"

text \<open>What an extended pattern makes of the strings \<open>A\<close> of its alternatives.\<close>

definition ext_lang :: "char \<Rightarrow> string set \<Rightarrow> string set" where
  "ext_lang xc A =
     (if xc = CHR ''?'' then insert [] A
      else if xc = CHR ''*'' then repeats A
      else if xc = CHR ''+'' then {u @ v | u v. u \<in> A \<and> v \<in> repeats A}
      else if xc = CHR ''@'' then A
      else - A)"

fun token_lang :: "glob_locale \<Rightarrow> gtoken \<Rightarrow> string set"
  and glob_lang :: "glob_locale \<Rightarrow> gtoken list \<Rightarrow> string set" where
  "token_lang loc (Char a) = {[snd a]}"
| "token_lang loc Any = {[c] | c. True}"
| "token_lang loc Star = UNIV"
| "token_lang loc (Bracket neg items) = {[c] | c. (\<exists>i\<in>set items. item_has loc c i) \<noteq> neg}"
| "token_lang loc (Ext xc alts) = ext_lang xc {w. \<exists>ts\<in>set alts. w \<in> glob_lang loc ts}"
| "glob_lang loc [] = {[]}"
| "glob_lang loc (t # ts) = {u @ v | u v. u \<in> token_lang loc t \<and> v \<in> glob_lang loc ts}"

section \<open>Text\<close>

fun char_text :: "gchar \<Rightarrow> cstring" where
  "char_text (True, c) = [BSLASH, c]"
| "char_text (False, c) = [c]"

fun item_text :: "gitem \<Rightarrow> cstring" where
  "item_text (Single a) = char_text a"
| "item_text (Span a b) = char_text a @ CHR ''-'' # char_text b"
| "item_text (Class name) = ''[:'' @ name @ '':]''"

definition items_text :: "gitem list \<Rightarrow> cstring" where
  "items_text is = concat (map item_text is)"

text \<open>The alternatives with what follows each: \<open>|\<close>, or \<open>)\<close> behind the last.\<close>

fun token_text :: "gtoken \<Rightarrow> cstring"
  and glob_text :: "gtoken list \<Rightarrow> cstring"
  and alts_text :: "gtoken list list \<Rightarrow> cstring" where
  "token_text (Char a) = char_text a"
| "token_text Any = ''?''"
| "token_text Star = ''*''"
| "token_text (Bracket neg is) = CHR ''['' # (if neg then ''!'' else []) @ items_text is @ '']''"
| "token_text (Ext xc alts) = xc # CHR ''('' # alts_text alts"
| "glob_text [] = []"
| "glob_text (t # ts) = token_text t @ glob_text ts"
| "alts_text [] = []"
| "alts_text [a] = glob_text a @ '')''"
| "alts_text (a # b # alts) = glob_text a @ CHR ''|'' # alts_text (b # alts)"

text \<open>
  Well-formed patterns. A character without a backslash is not special where it stands; a class has a
  name of \<^verbatim>\<open>smatch.c\<close>; a range does not end in \<open>[\<close>, which \<^verbatim>\<open>BRACKMATCH\<close> takes for the start of a
  collating symbol also when it is quoted; behind a \<open>*\<close> and the \<open>?\<close> and \<open>*\<close> that follow it there is no extended pattern.
\<close>

definition class_names :: "cstring list" where
  "class_names = [''ascii'', ''alnum'', ''alpha'', ''blank'', ''cntrl'', ''digit'', ''graph'', ''lower'', ''print'', ''punct'',
     ''space'', ''upper'', ''word'', ''xdigit'']"

definition wf_char :: "char set \<Rightarrow> gchar \<Rightarrow> bool" where
  "wf_char special a \<longleftrightarrow> snd a \<noteq> NUL \<and> (fst a \<or> snd a \<notin> special)"

definition glob_special :: "char set" where
  "glob_special = {CHR ''*'', CHR ''?'', CHR ''['', BSLASH, CHR ''('', CHR '')'', CHR ''|''}"

definition bracket_special :: "char set" where
  "bracket_special = {CHR ''['', CHR '']'', CHR ''-'', BSLASH, CHR ''!'', CHR ''^''}"

fun wf_item :: "gitem \<Rightarrow> bool" where
  "wf_item (Single a) = wf_char bracket_special a"
| "wf_item (Span a b) = (wf_char bracket_special a \<and> wf_char bracket_special b \<and> snd b \<noteq> CHR ''['')"
| "wf_item (Class name) = (name \<in> set class_names)"

fun no_ext :: "gtoken list \<Rightarrow> bool" where
  "no_ext (Star # ts) = no_ext ts"
| "no_ext (Any # ts) = no_ext ts"
| "no_ext (Ext xc alts # ts) = False"
| "no_ext ts = True"

fun wf_token :: "nat \<Rightarrow> gtoken \<Rightarrow> bool"
  and wf_glob :: "nat \<Rightarrow> gtoken list \<Rightarrow> bool" where
  "wf_token flags (Char a) = wf_char glob_special a"
| "wf_token flags Any = True"
| "wf_token flags Star = True"
| "wf_token flags (Bracket neg is) = (is \<noteq> [] \<and> list_all wf_item is)"
| "wf_token flags (Ext xc alts) = (flags = FNM_EXTMATCH \<and> xc \<in> set ''+*?@!'' \<and> alts \<noteq> [] \<and> (\<forall>ts\<in>set alts. wf_glob flags ts))"
| "wf_glob flags [] = True"
| "wf_glob flags (t # ts) = (wf_token flags t \<and> (t = Star \<longrightarrow> no_ext ts) \<and> wf_glob flags ts)"

definition plain_flags :: "nat \<Rightarrow> bool" where
  "plain_flags flags \<longleftrightarrow> flags = 0 \<or> flags = FNM_EXTMATCH"

lemma plain_flags_simps:
  assumes "plain_flags flags"
  shows "\<not> flag flags FNM_PATHNAME" "\<not> flag flags FNM_NOESCAPE" "\<not> flag flags FNM_PERIOD" "\<not> flag flags FNM_LEADING_DIR"
    "\<not> flag flags FNM_CASEFOLD" "FOLD flags c = c" "no_period flags = flags" "flag flags FNM_EXTMATCH \<longleftrightarrow> flags = FNM_EXTMATCH"
  using assms
  by (auto simp: plain_flags_def flag_def FNM_PATHNAME_def FNM_NOESCAPE_def FNM_PERIOD_def FNM_LEADING_DIR_def
      FNM_CASEFOLD_def FNM_EXTMATCH_def FOLD_def no_period_def)

section \<open>Positions\<close>

lemma drop_c_at: "drop p P = c # r \<Longrightarrow> c_at P p = c \<and> p < length P \<and> drop (Suc p) P = r"
  by (metis c_at_def drop_Suc drop_all list.discI list.sel(3) not_less nth_via_drop tl_drop)

lemma drop_append_at: "drop p P = u @ r \<Longrightarrow> drop (p + length u) P = r"
  by (metis add.commute append_eq_conv_conj drop_drop)

lemma c_at_drop_hd: "drop p P = r \<Longrightarrow> c_at P p = c_at r 0"
  by (cases "p < length P") (auto simp: c_at_def)

lemma c_at_rest: "drop p P = u @ r \<Longrightarrow> c_at P (p + length u) = c_at r 0"
  using drop_append_at c_at_drop_hd by metis

lemma BSLASH_simps [simp]: "BSLASH \<noteq> NUL" "BSLASH \<noteq> CHR ''[''" "BSLASH \<noteq> CHR '']''" "BSLASH \<noteq> CHR ''(''" "BSLASH \<noteq> CHR '')''"
  "BSLASH \<noteq> CHR ''|''" "BSLASH \<noteq> CHR ''*''" "BSLASH \<noteq> CHR ''?''" "BSLASH \<noteq> CHR ''!''" "BSLASH \<noteq> CHR ''^''" "BSLASH \<noteq> CHR ''-''"
  "BSLASH \<noteq> CHR '':''" "BSLASH \<noteq> CHR ''.''" "BSLASH \<noteq> CHR ''=''" "BSLASH \<noteq> CHR ''+''" "BSLASH \<noteq> CHR ''@''"
  by (simp_all add: BSLASH_def)

lemmas BSLASH_neq [simp] = BSLASH_simps [THEN not_sym]

lemma char_text_first:
  assumes "wf_char S a"
  obtains d u where "char_text a = d # u" "d \<noteq> NUL" "d = BSLASH \<or> d \<notin> S"
  using assms by (cases a; cases "fst a") (auto simp: wf_char_def)

lemma item_text_first:
  assumes "wf_item i"
  obtains d u where "item_text i = d # u" "d \<noteq> NUL" "d \<notin> {CHR '']'', CHR ''-'', CHR ''!'', CHR ''^''}"
proof (cases i)
  case (Single a)
  then have "wf_char bracket_special a" using assms by simp
  then obtain d u where "char_text a = d # u" "d \<noteq> NUL" "d = BSLASH \<or> d \<notin> bracket_special" by (rule char_text_first)
  then show ?thesis using that Single by (auto simp: bracket_special_def)
next
  case (Span a b)
  then have "wf_char bracket_special a" using assms by simp
  then obtain d u where "char_text a = d # u" "d \<noteq> NUL" "d = BSLASH \<or> d \<notin> bracket_special" by (rule char_text_first)
  then show ?thesis using that Span by (auto simp: bracket_special_def)
qed (use assms that in auto)

section \<open>Bracket expressions\<close>

subsection \<open>Skipping the rest of a bracket expression\<close>

lemma skip_any: "c \<noteq> NUL \<Longrightarrow> skip_bracket P flags sp neg t c p k = skip_bracket P flags sp neg t (CHR ''x'') p k"
  by (subst (1 2) skip_bracket.simps) simp

lemma skip_done: "skip_bracket P flags sp neg t c p 0 = (if neg then B_Fail else B_At p)"
  by (subst skip_bracket.simps) simp

lemma skip_steps:
  assumes "0 < k" and "\<not> flag flags FNM_NOESCAPE"
  shows "drop p P = d # r \<Longrightarrow> d \<noteq> NUL \<Longrightarrow> d \<notin> {CHR ''['', CHR '']'', BSLASH} \<Longrightarrow>
      skip_bracket P flags sp neg t (CHR ''x'') p k = skip_bracket P flags sp neg t (CHR ''x'') (p + 1) k"
    "drop p P = BSLASH # d # r \<Longrightarrow> d \<noteq> NUL \<Longrightarrow>
      skip_bracket P flags sp neg t (CHR ''x'') p k = skip_bracket P flags sp neg t (CHR ''x'') (p + 2) k"
    "drop p P = CHR ''['' # CHR '':'' # r \<Longrightarrow>
      skip_bracket P flags sp neg t (CHR ''x'') p k = skip_bracket P flags sp neg t (CHR ''x'') (p + 1) (k + 1)"
    "drop p P = CHR '']'' # r \<Longrightarrow>
      skip_bracket P flags sp neg t (CHR ''x'') p k = skip_bracket P flags sp neg t (CHR ''x'') (p + 1) (k - 1)"
proof -
  show "skip_bracket P flags sp neg t (CHR ''x'') p k = skip_bracket P flags sp neg t (CHR ''x'') (p + 1) k"
    if "drop p P = d # r" "d \<noteq> NUL" "d \<notin> {CHR ''['', CHR '']'', BSLASH}"
    using assms that drop_c_at [OF that(1)] by (subst skip_bracket.simps) (auto simp: skip_any [of d])
  show "skip_bracket P flags sp neg t (CHR ''x'') p k = skip_bracket P flags sp neg t (CHR ''x'') (p + 2) k"
    if "drop p P = BSLASH # d # r" "d \<noteq> NUL"
    using assms that drop_c_at [OF that(1)] drop_c_at [of "Suc p" P d r] by (subst skip_bracket.simps) (auto simp: skip_any [of BSLASH])
  show "skip_bracket P flags sp neg t (CHR ''x'') p k = skip_bracket P flags sp neg t (CHR ''x'') (p + 1) (k + 1)"
    if "drop p P = CHR ''['' # CHR '':'' # r"
    using assms that drop_c_at [OF that(1)] drop_c_at [of "Suc p" P "CHR '':''" r] by (subst skip_bracket.simps) (auto simp: skip_any [of "CHR ''[''"])
  show "skip_bracket P flags sp neg t (CHR ''x'') p k = skip_bracket P flags sp neg t (CHR ''x'') (p + 1) (k - 1)"
    if "drop p P = CHR '']'' # r"
    using assms that drop_c_at [OF that(1)] by (subst skip_bracket.simps) (auto simp: skip_any [of "CHR '']''"])
qed

lemma skip_char:
  assumes "0 < k" and "\<not> flag flags FNM_NOESCAPE" "wf_char bracket_special a" "drop p P = char_text a @ r"
  shows "skip_bracket P flags sp neg t (CHR ''x'') p k = skip_bracket P flags sp neg t (CHR ''x'') (p + length (char_text a)) k"
proof (cases a)
  case (Pair q c)
  show ?thesis
  proof (cases q)
    case True
    then show ?thesis using skip_steps(2) [OF assms(1,2), of p P c r] assms(3,4) Pair by (simp add: wf_char_def)
  next
    case False
    then have "c \<notin> {CHR ''['', CHR '']'', BSLASH}" using assms(3) Pair by (auto simp: wf_char_def bracket_special_def)
    then show ?thesis using skip_steps(1) [OF assms(1,2), of p P c r] assms(3,4) Pair False by (simp add: wf_char_def)
  qed
qed

lemma skip_plain:
  assumes "0 < k" and "\<not> flag flags FNM_NOESCAPE"
  shows "drop p P = u @ r \<Longrightarrow> (\<forall>c\<in>set u. c \<noteq> NUL \<and> c \<notin> {CHR ''['', CHR '']'', BSLASH}) \<Longrightarrow>
    skip_bracket P flags sp neg t (CHR ''x'') p k = skip_bracket P flags sp neg t (CHR ''x'') (p + length u) k"
proof (induction u arbitrary: p)
  case (Cons c u)
  then have "drop (p + 1) P = u @ r" using drop_c_at by fastforce
  then have "skip_bracket P flags sp neg t (CHR ''x'') (p + 1) k = skip_bracket P flags sp neg t (CHR ''x'') (p + 1 + length u) k"
    using Cons by auto
  then show ?case using skip_steps(1) [OF assms, of p P c "u @ r"] Cons.prems by simp
qed simp

lemma class_names_plain: "name \<in> set class_names \<Longrightarrow> c \<in> set name \<Longrightarrow> c \<noteq> NUL \<and> c \<notin> {CHR ''['', CHR '']'', CHR '':'', BSLASH}"
  by (auto simp: class_names_def BSLASH_def)

lemma skip_item:
  assumes "0 < k" and "\<not> flag flags FNM_NOESCAPE" "wf_item i" "drop p P = item_text i @ r"
  shows "skip_bracket P flags sp neg t (CHR ''x'') p k = skip_bracket P flags sp neg t (CHR ''x'') (p + length (item_text i)) k"
proof (cases i)
  case (Single a)
  then show ?thesis using skip_char [OF assms(1,2), of a p P r] assms by simp
next
  case (Span a b)
  have a: "skip_bracket P flags sp neg t (CHR ''x'') p k = skip_bracket P flags sp neg t (CHR ''x'') (p + length (char_text a)) k"
    using skip_char [OF assms(1,2), of a p P "CHR ''-'' # char_text b @ r"] assms Span by simp
  have d: "drop (p + length (char_text a)) P = CHR ''-'' # char_text b @ r" using drop_append_at [of p P] assms Span by simp
  then have "drop (p + length (char_text a) + 1) P = char_text b @ r" using drop_c_at by fastforce
  then show ?thesis
    using a skip_steps(1) [OF assms(1,2) d] skip_char [OF assms(1,2), of b "p + length (char_text a) + 1" P r] assms Span
    by (simp add: add.assoc)
next
  case (Class name)
  have o: "drop p P = CHR ''['' # CHR '':'' # (name @ '':]'' @ r)" using assms Class by simp
  then have d: "drop (p + 1) P = (CHR '':'' # name @ '':'') @ '']'' @ r" using drop_c_at by fastforce
  have "skip_bracket P flags sp neg t (CHR ''x'') p k = skip_bracket P flags sp neg t (CHR ''x'') (p + 1) (k + 1)"
    using skip_steps(3) [OF assms(1,2) o] .
  also have "\<dots> = skip_bracket P flags sp neg t (CHR ''x'') (p + 1 + length (CHR '':'' # name @ '':'')) (k + 1)"
    using assms(3) Class class_names_plain [of name] by (intro skip_plain [OF _ assms(2) d]) (auto simp: BSLASH_def)
  also have "\<dots> = skip_bracket P flags sp neg t (CHR ''x'') (p + 1 + length (CHR '':'' # name @ '':'') + 1) (k + 1 - 1)"
    using drop_append_at [OF d] by (intro skip_steps(4) [OF _ assms(2)]) auto
  finally show ?thesis using Class by simp
qed

lemma skip_items:
  assumes "\<not> flag flags FNM_NOESCAPE" and "list_all wf_item is" "drop p P = items_text is @ CHR '']'' # r"
  shows "skip_bracket P flags sp neg t (CHR ''x'') p 1 = (if neg then B_Fail else B_At (p + length (items_text is) + 1))"
  using assms(2,3)
proof (induction "is" arbitrary: p)
  case Nil
  then show ?case using skip_steps(4) [of 1 flags p P r] assms(1) by (simp add: items_text_def skip_done)
next
  case (Cons i "is")
  have d: "drop p P = item_text i @ items_text is @ CHR '']'' # r" using Cons.prems by (simp add: items_text_def)
  have "skip_bracket P flags sp neg t (CHR ''x'') p 1 = skip_bracket P flags sp neg t (CHR ''x'') (p + length (item_text i)) 1"
    using Cons.prems by (intro skip_item [OF _ assms(1) _ d]) simp_all
  then show ?case using Cons.IH [OF _ drop_append_at [OF d]] Cons.prems by (simp add: items_text_def add.assoc)
qed

lemma matched_items:
  assumes "\<not> flag flags FNM_NOESCAPE" and "list_all wf_item is" "drop p P = items_text is @ CHR '']'' # r"
  shows "matched P flags sp neg t p = (if neg then B_Fail else B_At (p + length (items_text is) + 1))"
proof -
  have "c_at P p \<noteq> NUL"
  proof (cases "is")
    case Nil
    then show ?thesis using assms(3) drop_c_at by (fastforce simp: items_text_def)
  next
    case (Cons i js)
    then have "wf_item i" using assms(2) by simp
    from item_text_first [OF this] obtain d u where "item_text i = d # u" "d \<noteq> NUL" by metis
    moreover from this have "drop p P = d # u @ items_text js @ CHR '']'' # r" using assms(3) Cons by (simp add: items_text_def)
    ultimately show ?thesis using drop_c_at by metis
  qed
  then show ?thesis using skip_items [OF assms] skip_any unfolding matched_def by metis
qed

subsection \<open>One item\<close>

text \<open>
  What the loop does at the end of an item that did not match: with \<open>c\<close> the next character, before \<open>p\<close>.
\<close>

definition passed :: "cstring \<Rightarrow> bool \<Rightarrow> nat \<Rightarrow> item_step" where
  "passed P neg p = (if c_at P p = CHR '']'' then Leave (not_matched neg (p + 1)) else Go_On (c_at P p) (p + 1))"

lemma rangecmp_same: "0 \<le> rangecmp loc t c f \<and> rangecmp loc t c f \<le> 0 \<longleftrightarrow> rangecmp loc t c f = 0"
  by linarith

lemma rangecmp_0: "rangecmp loc c1 c2 f = 0 \<longleftrightarrow> c1 = c2"
  by (auto simp: rangecmp_def Let_def)

lemma compare_item_at:
  "compare_item loc P flags sp neg t a b f (c_at P p) (p + 1) =
    (if 0 \<le> rangecmp loc t a f \<and> rangecmp loc t b f \<le> 0 then Leave (matched P flags sp neg t p) else passed P neg p)"
  by (simp add: compare_item_def passed_def)

lemma plain_item_char:
  assumes "plain_flags flags" and "wf_char bracket_special a" "drop p P = char_text a @ r" "c_at r 0 \<noteq> CHR ''-''"
    and "c = c_at P p"
  shows "bracket_item loc P flags sp neg t c (p + 1) =
    (let q = p + length (char_text a)
     in if t = snd a then Leave (matched P flags sp neg t q) else passed P neg q)"
proof (cases a)
  case (Pair q d)
  note s = plain_flags_simps [OF assms(1)]
  have next_char: "c_at P (p + length (char_text a)) = c_at r 0" using c_at_rest [OF assms(3)] .
  show ?thesis
  proof (cases q)
    case True
    then have d: "c = BSLASH" "c_at P (p + 1) = d" "d \<noteq> NUL"
      using assms Pair drop_c_at [of p P BSLASH "d # r"] drop_c_at [of "Suc p" P d r] by (auto simp: wf_char_def)
    have "bracket_item loc P flags sp neg t c (p + 1) = compare_item loc P flags sp neg t d d False (c_at P (p + 2)) (p + 2 + 1)"
      using d s next_char assms(4) Pair True by (simp add: bracket_item_def plain_item_def Let_def)
    then show ?thesis using Pair True by (simp only: compare_item_at rangecmp_same rangecmp_0) simp
  next
    case False
    then have d: "c = d" "d \<noteq> NUL" "d \<noteq> CHR ''[''" "d \<noteq> BSLASH"
      using assms Pair drop_c_at [of p P d r] by (auto simp: wf_char_def bracket_special_def)
    have "bracket_item loc P flags sp neg t c (p + 1) = compare_item loc P flags sp neg t d d False (c_at P (p + 1)) (p + 1 + 1)"
      using d s next_char assms(4) Pair False by (simp add: bracket_item_def plain_item_def Let_def)
    then show ?thesis using Pair False by (simp only: compare_item_at rangecmp_same rangecmp_0) simp
  qed
qed

text \<open>After the dash of a range.\<close>

lemma range_item_char:
  assumes "plain_flags flags" and "wf_char bracket_special a" "snd a \<noteq> CHR ''[''" "drop p P = char_text a @ r"
  shows "range_item loc P flags sp neg t cstart False p =
    (let q = p + length (char_text a)
     in if rangecmp loc cstart (snd a) False \<le> 0 \<and> 0 \<le> rangecmp loc t cstart False \<and> rangecmp loc t (snd a) False \<le> 0
        then Leave (matched P flags sp neg t q) else passed P neg q)"
proof (cases a)
  case (Pair q d)
  note s = plain_flags_simps [OF assms(1)]
  have to: "range_to loc P flags sp neg t cstart False d m =
      (if rangecmp loc cstart d False \<le> 0 \<and> 0 \<le> rangecmp loc t cstart False \<and> rangecmp loc t d False \<le> 0
       then Leave (matched P flags sp neg t m) else passed P neg m)" if "d \<noteq> NUL" "d = CHR ''['' \<longrightarrow> c_at P m \<noteq> CHR ''.''" for m
    using that s compare_item_at [of loc P flags sp neg t cstart d False m] by (auto simp: range_to_def Let_def passed_def)
  show ?thesis
  proof (cases q)
    case True
    then have d: "c_at P p = BSLASH" "c_at P (p + 1) = d" "d \<noteq> NUL"
      using assms Pair drop_c_at [of p P BSLASH "d # r"] drop_c_at [of "Suc p" P d r] by (auto simp: wf_char_def)
    have "range_item loc P flags sp neg t cstart False p = range_to loc P flags sp neg t cstart False d (p + 2)"
      using d s by (simp add: range_item_def)
    then show ?thesis using to [of "p + 2"] d assms(3) Pair True by simp
  next
    case False
    then have d: "c_at P p = d" "d \<noteq> NUL" "d \<noteq> CHR ''[''" "d \<noteq> BSLASH"
      using assms Pair drop_c_at [of p P d r] by (auto simp: wf_char_def bracket_special_def)
    have "range_item loc P flags sp neg t cstart False p = range_to loc P flags sp neg t cstart False d (p + 1)"
      using d s by (simp add: range_item_def)
    then show ?thesis using to [of "p + 1"] d Pair False by simp
  qed
qed

lemma plain_item_span:
  assumes "plain_flags flags" and "wf_item (Span a b)" "drop p P = item_text (Span a b) @ r" "c = c_at P p"
  shows "bracket_item loc P flags sp neg t c (p + 1) =
    (let q = p + length (item_text (Span a b))
     in if item_has loc t (Span a b) then Leave (matched P flags sp neg t q) else passed P neg q)"
proof -
  note s = plain_flags_simps [OF assms(1)]
  have d: "drop p P = char_text a @ CHR ''-'' # char_text b @ r" using assms(3) by simp
  let ?m = "p + length (char_text a)"
  have dash: "c_at P ?m = CHR ''-''" and rest: "drop (?m + 1) P = char_text b @ r"
    using drop_c_at drop_append_at [OF d] by fastforce+
  have "wf_char bracket_special b" using assms(2) by simp
  then obtain e u where e: "char_text b = e # u" "e = BSLASH \<or> e \<notin> bracket_special" by (rule char_text_first)
  then have e: "c_at P (?m + 1) \<noteq> CHR '']''" using rest drop_c_at [of "?m + 1" P e] by (auto simp: bracket_special_def)
  have "bracket_item loc P flags sp neg t c (p + 1) = range_item loc P flags sp neg t (snd a) False (?m + 1)"
  proof (cases a)
    case (Pair q x)
    show ?thesis
    proof (cases q)
      case True
      then have "c = BSLASH" "c_at P (p + 1) = x" "x \<noteq> NUL"
        using assms d Pair drop_c_at [of p P BSLASH] drop_c_at [of "Suc p" P x] by (auto simp: wf_char_def)
      then show ?thesis using s dash e Pair True by (simp add: bracket_item_def plain_item_def Let_def)
    next
      case False
      then have "c = x" "x \<noteq> NUL" "x \<noteq> CHR ''[''" "x \<noteq> BSLASH"
        using assms d Pair drop_c_at [of p P x] by (auto simp: wf_char_def bracket_special_def)
      then show ?thesis using s dash e Pair False by (simp add: bracket_item_def plain_item_def Let_def)
    qed
  qed
  then show ?thesis
    using range_item_char [OF assms(1) _ _ rest, of loc sp neg t "snd a"] assms(2) by (simp add: item_has_def add.assoc)
qed

lemma closing_colon:
  "drop p P = u @ '':]'' @ r \<Longrightarrow> CHR '':'' \<notin> set u \<Longrightarrow> closing P (CHR '':'') p = Some (p + length u)"
proof (induction u arbitrary: p)
  case Nil
  then have "c_at P p = CHR '':''" "p < length P" "c_at P (p + 1) = CHR '']''"
    using drop_c_at [of p P] drop_c_at [of "Suc p" P] by auto
  then show ?case by (subst closing.simps) simp
next
  case (Cons c u)
  then have "c_at P p = c" "p < length P" "drop (p + 1) P = u @ '':]'' @ r" using drop_c_at [of p P c] by auto
  then show ?case using Cons by (subst closing.simps) auto
qed

lemma between_drop: "drop p P = u @ r \<Longrightarrow> between P p (p + length u) = u"
  by (simp add: between_def)

lemma is_cclass_names: "name \<in> set class_names \<Longrightarrow> is_cclass t name \<noteq> None"
  by (auto simp: class_names_def is_cclass_def Let_def)

lemma class_item_at:
  assumes "plain_flags flags" and "wf_item (Class name)" "drop p P = item_text (Class name) @ r" "c = c_at P p" "c_at r 0 \<noteq> NUL"
  shows "bracket_item loc P flags sp neg t c (p + 1) =
    (let q = p + length (item_text (Class name))
     in if item_has loc t (Class name) then Leave (matched P flags sp neg t q) else passed P neg q)"
proof -
  note s = plain_flags_simps [OF assms(1)]
  have d: "drop (p + 1) P = CHR '':'' # name @ '':]'' @ r" "c = CHR ''[''" using drop_c_at assms(3,4) by fastforce+
  then have d2: "c_at P (p + 1) = CHR '':''" "drop (p + 2) P = name @ '':]'' @ r" using drop_c_at by fastforce+
  have cl: "closing P (CHR '':'') (p + 2) = Some (p + 2 + length name)"
    using closing_colon [OF d2(2)] class_names_plain assms(2) by auto
  have b: "between P (p + 2) (p + 2 + length name) = name" using between_drop [OF d2(2)] .
  obtain m where m: "is_cclass t name = Some m" using is_cclass_names [of name t] assms(2) by auto
  let ?q = "p + 2 + length name + 2"
  have q: "c_at P ?q = c_at r 0" using c_at_rest [of "p + 2" P "name @ '':]''" r] d2(2) by (simp add: add.assoc)
  have "bracket_item loc P flags sp neg t c (p + 1) = class_item P flags sp neg t (p + 1)"
    using d(2) d2(1) by (simp add: bracket_item_def)
  also have "\<dots> = (if m then Leave (matched P flags sp neg t ?q) else passed P neg ?q)"
    using cl b m q assms(5) s by (simp add: class_item_def passed_def)
  finally show ?thesis using m by (simp add: item_has_def add.assoc)
qed

lemma bracket_item_at:
  assumes "plain_flags flags" and "wf_item i" "drop p P = item_text i @ r" "c_at r 0 \<noteq> NUL" "c_at r 0 \<noteq> CHR ''-''"
  shows "bracket_item loc P flags sp neg t (c_at P p) (p + 1) =
    (let q = p + length (item_text i)
     in if item_has loc t i then Leave (matched P flags sp neg t q) else passed P neg q)"
proof (cases i)
  case (Single a)
  then show ?thesis using plain_item_char [OF assms(1), of a p P r] assms by (simp add: item_has_def)
next
  case (Span a b)
  then show ?thesis using plain_item_span [OF assms(1)] assms by metis
next
  case (Class name)
  then show ?thesis using class_item_at [OF assms(1)] assms by metis
qed

lemma bracket_items:
  assumes "plain_flags flags"
  shows "list_all wf_item is \<Longrightarrow> is \<noteq> [] \<Longrightarrow> drop p P = items_text is @ CHR '']'' # r \<Longrightarrow>
    bracket_loop loc P flags sp neg t (c_at P p) (p + 1) =
    (if (\<exists>i\<in>set is. item_has loc t i) = neg then B_Fail else B_At (p + length (items_text is) + 1))"
proof (induction "is" arbitrary: p)
  case (Cons i js)
  note s = plain_flags_simps [OF assms]
  let ?r = "items_text js @ CHR '']'' # r" and ?q = "p + length (item_text i)"
  have d: "drop p P = item_text i @ ?r" using Cons.prems by (simp add: items_text_def)
  have rest: "drop ?q P = ?r" "c_at P ?q = c_at ?r 0" using drop_append_at [OF d] c_at_rest [OF d] by simp_all
  have first: "c_at ?r 0 \<noteq> NUL \<and> c_at ?r 0 \<noteq> CHR ''-'' \<and> (c_at ?r 0 = CHR '']'' \<longleftrightarrow> js = [])"
  proof (cases js)
    case Nil
    then show ?thesis by (simp add: items_text_def)
  next
    case (Cons j ks)
    then have "wf_item j" using Cons.prems by simp
    then obtain e u where "item_text j = e # u" "e \<noteq> NUL" "e \<notin> {CHR '']'', CHR ''-'', CHR ''!'', CHR ''^''}" by (rule item_text_first)
    then show ?thesis using Cons by (simp add: items_text_def)
  qed
  have step: "bracket_item loc P flags sp neg t (c_at P p) (p + 1) =
      (if item_has loc t i then Leave (matched P flags sp neg t ?q) else passed P neg ?q)"
    using bracket_item_at [OF assms _ d, of loc sp neg t] first Cons.prems by simp
  have m: "matched P flags sp neg t ?q = (if neg then B_Fail else B_At (?q + length (items_text js) + 1))"
    using matched_items [OF s(2) _ rest(1)] Cons.prems by simp
  show ?case
  proof (cases "item_has loc t i")
    case True
    then show ?thesis using step m by (subst bracket_loop.simps) (simp add: items_text_def add.assoc)
  next
    case False
    show ?thesis
    proof (cases "js = []")
      case True
      then show ?thesis using False step rest first
        by (subst bracket_loop.simps) (auto simp: passed_def not_matched_def items_text_def)
    next
      case js: False
      then have "bracket_loop loc P flags sp neg t (c_at P p) (p + 1) = bracket_loop loc P flags sp neg t (c_at P ?q) (?q + 1)"
        using False step rest first by (subst bracket_loop.simps) (simp add: passed_def)
      then show ?thesis using Cons.IH [OF _ js rest(1)] Cons.prems False by (simp add: items_text_def add.assoc)
    qed
  qed
qed simp

lemma brackmatch_items:
  assumes "plain_flags flags" and "list_all wf_item is" "is \<noteq> []"
    and "drop p P = (if neg then ''!'' else []) @ items_text is @ CHR '']'' # r"
  shows "brackmatch loc P p t flags =
    (if (\<exists>i\<in>set is. item_has loc t i) = neg then B_Fail
     else B_At (p + length ((if neg then ''!'' else []) @ items_text is) + 1))"
proof (cases neg)
  case True
  then have "c_at P p = CHR ''!''" "drop (p + 1) P = items_text is @ CHR '']'' # r" using assms(4) drop_c_at by fastforce+
  then show ?thesis using bracket_items [OF assms(1-3), of "p + 1" P r loc p neg t] True plain_flags_simps [OF assms(1)]
    by (simp add: brackmatch_def)
next
  case False
  obtain i js where i: "is = i # js" using assms(3) by (cases "is") auto
  then have "wf_item i" using assms(2) by simp
  then obtain e u where e: "item_text i = e # u" "e \<notin> {CHR '']'', CHR ''-'', CHR ''!'', CHR ''^''}" by (rule item_text_first)
  then have "c_at P p = e" using assms(4) False i drop_c_at [of p P e] by (simp add: items_text_def)
  then show ?thesis using bracket_items [OF assms(1-3), of p P r loc p neg t] e False assms(4) plain_flags_simps [OF assms(1)]
    by (simp add: brackmatch_def)
qed

section \<open>Scanning a pattern\<close>

text \<open>The scan passes the text \<open>u\<close> at \<open>s\<close>, from one state to another.\<close>

definition passes :: "cstring \<Rightarrow> char \<Rightarrow> nat \<Rightarrow> cstring \<Rightarrow> scan \<Rightarrow> scan \<Rightarrow> bool" where
  "passes P delim s u st st' \<longleftrightarrow>
     (\<forall>fin. s + length u \<le> fin \<longrightarrow> patscan_loop P fin delim s st = patscan_loop P fin delim (s + length u) st')"

lemma passes_nothing: "passes P delim s [] st st"
  by (simp add: passes_def)

lemma passes_append:
  "passes P delim s u st st1 \<Longrightarrow> passes P delim (s + length u) v st1 st2 \<Longrightarrow> passes P delim s (u @ v) st st2"
  by (auto simp: passes_def add.assoc)

lemma passes_one:
  assumes "drop s P = c # r" and "scan_char P delim s st = Some st'"
  shows "passes P delim s [c] st st'"
  unfolding passes_def
proof (intro allI impI)
  fix fin assume "s + length [c] \<le> fin"
  then show "patscan_loop P fin delim s st = patscan_loop P fin delim (s + length [c]) st'"
    using assms drop_c_at [OF assms(1)] by (subst patscan_loop.simps) auto
qed

lemma passes_Cons:
  assumes "drop s P = c # r" and "scan_char P delim s st = Some st1" "passes P delim (s + 1) v st1 st2"
  shows "passes P delim s (c # v) st st2"
  using passes_append [OF passes_one [OF assms(1,2)]] assms(3) by simp

definition outer :: "nat \<Rightarrow> scan" where
  "outer pn = \<lparr>pnest = pn, bnest = 0, skip = False, cchar = NUL, bfirst = None\<rparr>"

definition inner :: "nat \<Rightarrow> char \<Rightarrow> nat \<Rightarrow> scan" where
  "inner pn cc b = \<lparr>pnest = pn, bnest = 1, skip = False, cchar = cc, bfirst = Some b\<rparr>"

lemma passes_quoted:
  assumes "drop s P = BSLASH # c # r" and "\<not> skip st"
  shows "passes P delim s [BSLASH, c] st st"
proof (rule passes_Cons [OF assms(1)])
  show "scan_char P delim s st = Some (st\<lparr>skip := True\<rparr>)" using drop_c_at [OF assms(1)] assms(2) by (simp add: scan_char_def)
  have "drop (s + 1) P = c # r" using drop_c_at [OF assms(1)] by simp
  then show "passes P delim (s + 1) [c] (st\<lparr>skip := True\<rparr>) st"
    using assms(2) by (rule_tac passes_one) (auto simp: scan_char_def)
qed

lemma passes_inner_plain:
  "drop s P = u @ r \<Longrightarrow> \<forall>c\<in>set u. c \<notin> {CHR ''['', CHR '']'', BSLASH} \<Longrightarrow> passes P delim s u (inner pn cc b) (inner pn cc b)"
proof (induction u arbitrary: s)
  case (Cons c u)
  have d: "drop s P = c # u @ r" using Cons.prems by simp
  have "scan_char P delim s (inner pn cc b) = Some (inner pn cc b)"
    using Cons.prems drop_c_at [OF d] by (auto simp: scan_char_def inner_def)
  then show ?case using Cons drop_c_at [OF d] by (intro passes_Cons [OF d]) auto
qed (simp add: passes_nothing)

lemma passes_bracket_char:
  assumes "wf_char bracket_special a" and "drop s P = char_text a @ r"
  shows "passes P delim s (char_text a) (inner pn cc b) (inner pn cc b)"
proof (cases a)
  case (Pair q c)
  then show ?thesis
    using passes_quoted [of s P c r "inner pn cc b"] passes_inner_plain [of s P "[c]" r] assms
    by (cases q) (auto simp: inner_def wf_char_def bracket_special_def)
qed

lemma passes_item:
  assumes "wf_item i" and "drop s P = item_text i @ r"
  shows "passes P delim s (item_text i) (inner pn NUL b) (inner pn NUL b)"
proof (cases i)
  case (Single a)
  then show ?thesis using passes_bracket_char assms by simp
next
  case (Span x y)
  have d: "drop s P = char_text x @ ''-'' @ char_text y @ r" using assms Span by simp
  have d2: "drop (s + length (char_text x)) P = ''-'' @ char_text y @ r" using drop_append_at [OF d] .
  have x: "passes P delim s (char_text x) (inner pn NUL b) (inner pn NUL b)"
    using passes_bracket_char [OF _ d] assms Span by simp
  have dash: "passes P delim (s + length (char_text x)) ''-'' (inner pn NUL b) (inner pn NUL b)"
    by (rule passes_inner_plain [OF d2]) simp
  have y: "passes P delim (s + length (char_text x) + length ''-'') (char_text y) (inner pn NUL b) (inner pn NUL b)"
    using passes_bracket_char [OF _ drop_append_at [OF d2]] assms Span by simp
  from passes_append [OF x passes_append [OF dash y]] show ?thesis using Span by simp
next
  case (Class name)
  have d: "drop s P = CHR ''['' # (CHR '':'' # name @ '':'') @ '']'' @ r" using assms Class by simp
  then have o: "c_at P s = CHR ''[''" "drop (s + 1) P = (CHR '':'' # name @ '':'') @ '']'' @ r" using drop_c_at by fastforce+
  then have o2: "c_at P (s + 1) = CHR '':''" using drop_c_at by fastforce
  let ?e = "s + 1 + length (CHR '':'' # name @ '':'')"
  have "passes P delim (s + 1) (CHR '':'' # name @ '':'') (inner pn (CHR '':'') b) (inner pn (CHR '':'') b)"
    using assms(1) Class class_names_plain [of name] by (intro passes_inner_plain [OF o(2)]) auto
  moreover have "passes P delim ?e '']'' (inner pn (CHR '':'') b) (inner pn NUL b)"
  proof (rule passes_one)
    show "drop ?e P = CHR '']'' # r" using drop_append_at [OF o(2)] by simp
    then have "c_at P ?e = CHR '']''" using drop_c_at by fastforce
    moreover have "c_at P (?e - 1) = CHR '':''"
      using c_at_rest [of "s + 1" P "CHR '':'' # name" "'':]'' @ r"] o(2) by simp
    ultimately show "scan_char P delim ?e (inner pn (CHR '':'') b) = Some (inner pn NUL b)" by (simp add: scan_char_def inner_def)
  qed
  ultimately have "passes P delim (s + 1) ((CHR '':'' # name @ '':'') @ '']'') (inner pn (CHR '':'') b) (inner pn NUL b)"
    by (rule passes_append)
  then show ?thesis using o o2 Class passes_Cons [OF d, of delim "inner pn NUL b"] by (simp add: scan_char_def inner_def)
qed

lemma passes_items:
  "list_all wf_item is \<Longrightarrow> drop s P = items_text is @ r \<Longrightarrow> passes P delim s (items_text is) (inner pn NUL b) (inner pn NUL b)"
proof (induction "is" arbitrary: s)
  case (Cons i "is")
  have d: "drop s P = item_text i @ items_text is @ r" using Cons.prems by (simp add: items_text_def)
  have "passes P delim (s + length (item_text i)) (items_text is) (inner pn NUL b) (inner pn NUL b)"
    using Cons drop_append_at [OF d] by simp
  from passes_append [OF passes_item [OF _ d] this] show ?case using Cons.prems by (simp add: items_text_def)
qed (simp add: items_text_def passes_nothing)

lemma passes_bracket:
  assumes "list_all wf_item is" and "is \<noteq> []" "drop s P = token_text (Bracket neg is) @ r"
  shows "passes P delim s (token_text (Bracket neg is)) (outer pn) (outer pn)"
proof -
  let ?n = "if neg then ''!'' else ([] :: cstring)" let ?b = "s + 1 + length ?n"
  have d: "drop s P = CHR ''['' # ?n @ items_text is @ '']'' @ r" using assms(3) by simp
  have d1: "c_at P s = CHR ''[''" "drop (s + 1) P = ?n @ items_text is @ '']'' @ r" using drop_c_at [OF d] by simp_all
  have d2: "drop ?b P = items_text is @ '']'' @ r" using drop_append_at [OF d1(2)] .
  have d3: "drop (?b + length (items_text is)) P = CHR '']'' # r" using drop_append_at [OF d2] by simp
  obtain i js where i: "is = i # js" using assms(2) by (cases "is") auto
  then have "wf_item i" using assms(1) by simp
  then obtain e u where e: "item_text i = e # u" "e \<notin> {CHR '']'', CHR ''-'', CHR ''!'', CHR ''^''}" by (rule item_text_first)
  have ne: "items_text is \<noteq> []" "c_at (items_text is @ '']'' @ r) 0 = e" using i e by (simp_all add: items_text_def)
  have "c_at P (s + 1) = CHR ''!'' \<or> c_at P (s + 1) = CHR ''^'' \<longleftrightarrow> neg"
    using c_at_drop_hd [OF d1(2)] ne(2) e by auto
  then have open_it: "scan_char P delim s (outer pn) = Some (inner pn NUL ?b)"
    using d1(1) by (auto simp: scan_char_def outer_def inner_def)
  have neg: "passes P delim (s + 1) ?n (inner pn NUL ?b) (inner pn NUL ?b)"
    by (rule passes_inner_plain [OF d1(2)]) (auto simp: BSLASH_def)
  have close: "passes P delim (?b + length (items_text is)) '']'' (inner pn NUL ?b) (outer pn)"
    using drop_c_at [OF d3] ne(1) by (intro passes_one [OF d3]) (auto simp: scan_char_def inner_def outer_def)
  from passes_append [OF neg passes_append [OF passes_items [OF assms(1) d2] close]]
  have "passes P delim (s + 1) (?n @ items_text is @ '']'') (inner pn NUL ?b) (outer pn)" .
  from passes_Cons [OF d open_it this] show ?thesis by simp
qed

lemma passes_outer_plain:
  assumes "drop s P = c # r" and "c \<notin> {CHR ''['', CHR ''('', CHR '')'', CHR ''|'', BSLASH}"
  shows "passes P delim s [c] (outer pn) (outer pn)"
  using assms drop_c_at [OF assms(1)] by (intro passes_one [OF assms(1)]) (auto simp: scan_char_def outer_def)

lemma passes_char:
  assumes "wf_char glob_special a" and "drop s P = char_text a @ r"
  shows "passes P delim s (char_text a) (outer pn) (outer pn)"
proof (cases a)
  case (Pair q c)
  then show ?thesis
    using passes_quoted [of s P c r "outer pn"] passes_outer_plain [of s P c r] assms
    by (cases q) (auto simp: outer_def wf_char_def glob_special_def)
qed

lemma passes_text:
  shows "wf_token flags t \<Longrightarrow> drop s P = token_text t @ r \<Longrightarrow> passes P delim s (token_text t) (outer pn) (outer pn)"
    and "wf_glob flags ts \<Longrightarrow> drop s P = glob_text ts @ r \<Longrightarrow> passes P delim s (glob_text ts) (outer pn) (outer pn)"
    and "\<forall>ts\<in>set alts. wf_glob flags ts \<Longrightarrow> alts \<noteq> [] \<Longrightarrow> drop s P = alts_text alts @ r \<Longrightarrow>
      passes P delim s (alts_text alts) (outer (Suc pn)) (outer pn)"
proof (induction t and ts and alts arbitrary: s r pn and s r pn and s r pn rule: token_text_glob_text_alts_text.induct)
  case (1 a)
  then show ?case using passes_char by simp
next
  case 2
  then show ?case using passes_outer_plain [of s P "CHR ''?''" r] by simp
next
  case 3
  then show ?case using passes_outer_plain [of s P "CHR ''*''" r] by simp
next
  case (4 neg "is")
  then show ?case using passes_bracket by simp
next
  case (5 xc alts)
  have d: "drop s P = xc # CHR ''('' # alts_text alts @ r" using 5 by simp
  then have d1: "drop (s + 1) P = CHR ''('' # alts_text alts @ r" using drop_c_at [OF d] by simp
  then have d2: "drop (s + 1 + 1) P = alts_text alts @ r" "c_at P (s + 1) = CHR ''(''" using drop_c_at [OF d1] by simp_all
  have xc: "xc \<notin> {CHR ''['', CHR ''('', CHR '')'', CHR ''|'', BSLASH}" using 5(2) by (auto simp: BSLASH_def)
  have op: "passes P delim (s + 1) ''('' (outer pn) (outer (Suc pn))"
    using d2(2) by (intro passes_one [OF d1]) (simp add: scan_char_def outer_def)
  have "passes P delim (s + 1 + 1) (alts_text alts) (outer (Suc pn)) (outer pn)"
    using 5(1) [OF _ _ d2(1)] 5(2) by auto
  then have "passes P delim (s + 1) (''('' @ alts_text alts) (outer pn) (outer pn)"
    using passes_append [OF op] by simp
  then show ?case using passes_append [OF passes_outer_plain [OF d xc]] by simp
next
  case 6
  then show ?case by (simp add: passes_nothing)
next
  case (7 t ts)
  have d: "drop s P = token_text t @ glob_text ts @ r" using 7 by simp
  show ?case using passes_append [OF 7(1) [OF _ d] 7(2) [OF _ drop_append_at [OF d]]] 7(3) by simp
next
  case 8
  then show ?case by simp
next
  case (9 a)
  have d: "drop s P = glob_text a @ CHR '')'' # r" using 9 by simp
  have "passes P delim (s + length (glob_text a)) '')'' (outer (Suc pn)) (outer pn)"
    using drop_c_at [OF drop_append_at [OF d]] by (intro passes_one [OF drop_append_at [OF d]]) (simp add: scan_char_def outer_def)
  then show ?case using passes_append [OF 9(1) [OF _ d]] 9(2) by simp
next
  case (10 a b alts)
  have d: "drop s P = glob_text a @ CHR ''|'' # alts_text (b # alts) @ r" using 10 by simp
  have d1: "drop (s + length (glob_text a)) P = CHR ''|'' # alts_text (b # alts) @ r" using drop_append_at [OF d] .
  have bar: "passes P delim (s + length (glob_text a)) ''|'' (outer (Suc pn)) (outer (Suc pn))"
    using drop_c_at [OF d1] by (intro passes_one [OF d1]) (simp add: scan_char_def outer_def)
  have "passes P delim (s + length (glob_text a) + length ''|'') (alts_text (b # alts)) (outer (Suc pn)) (outer pn)"
    using drop_c_at [OF d1] 10(3) by (intro 10(2)) auto
  from passes_append [OF 10(1) [OF _ d] passes_append [OF bar this]] show ?case using 10(3) by simp
qed

text \<open>Where the scan stops.\<close>

lemma patscan_loop_stop:
  assumes "passes P delim s u st st1" and "drop s P = u @ c # r" "scan_char P delim (s + length u) st1 = None" "s + length u < fin"
  shows "patscan_loop P fin delim s st = Some (s + length u + 1)"
proof -
  have "s + length u < length P" using drop_c_at [OF drop_append_at [OF assms(2)]] by simp
  then have "patscan_loop P fin delim (s + length u) st1 = Some (s + length u + 1)"
    using assms(3,4) by (subst patscan_loop.simps) simp
  then show ?thesis using assms(1,4) by (simp add: passes_def)
qed

lemma scan_start_outer: "scan_start = outer 0"
  by (simp add: scan_start_def outer_def)

lemma patscan_alternative:
  assumes "wf_glob flags ts" and "drop s P = glob_text ts @ d # r" "d = CHR '')'' \<or> d = CHR ''|''" "s + length (glob_text ts) < fin"
  shows "patscan P s fin (CHR ''|'') = Some (s + length (glob_text ts) + 1)"
proof -
  have "scan_char P (CHR ''|'') (s + length (glob_text ts)) (outer 0) = None"
    using drop_c_at [OF drop_append_at [OF assms(2)]] assms(3) by (auto simp: scan_char_def outer_def)
  then have "patscan_loop P fin (CHR ''|'') s (outer 0) = Some (s + length (glob_text ts) + 1)"
    by (rule patscan_loop_stop [OF passes_text(2) [OF assms(1,2)] assms(2) _ assms(4)])
  then show ?thesis using assms(4) by (simp add: patscan_def scan_start_outer)
qed

lemma alts_text_nonempty: "alts \<noteq> [] \<Longrightarrow> 0 < length (alts_text alts)"
  by (cases alts rule: alts_text.cases) auto

lemma patscan_loop_alternatives:
  "\<forall>ts\<in>set alts. wf_glob flags ts \<Longrightarrow> alts \<noteq> [] \<Longrightarrow> drop s P = alts_text alts @ r \<Longrightarrow> s + length (alts_text alts) \<le> fin \<Longrightarrow>
    patscan_loop P fin NUL s (outer 0) = Some (s + length (alts_text alts))"
proof (induction alts arbitrary: s rule: induct_list012)
  case (2 a)
  have d: "drop s P = glob_text a @ CHR '')'' # r" using 2 by simp
  have "scan_char P NUL (s + length (glob_text a)) (outer 0) = None"
    using drop_c_at [OF drop_append_at [OF d]] by (simp add: scan_char_def outer_def)
  then show ?case using patscan_loop_stop [OF passes_text(2) [OF _ d] d] 2 by simp
next
  case (3 a b alts)
  have d: "drop s P = glob_text a @ CHR ''|'' # alts_text (b # alts) @ r" using 3 by simp
  have d1: "drop (s + length (glob_text a)) P = CHR ''|'' # alts_text (b # alts) @ r" using drop_append_at [OF d] .
  have bar: "passes P NUL (s + length (glob_text a)) ''|'' (outer 0) (outer 0)"
    using drop_c_at [OF d1] by (intro passes_one [OF d1]) (simp add: scan_char_def outer_def)
  have "wf_glob flags a" using 3 by simp
  from passes_append [OF passes_text(2) [OF this d] bar]
  have "patscan_loop P fin NUL s (outer 0) = patscan_loop P fin NUL (s + length (glob_text a) + 1) (outer 0)"
    using 3(6) alts_text_nonempty [of "b # alts"] by (simp add: passes_def)
  then show ?case using 3(2) [of "s + length (glob_text a) + 1"] 3(3-) drop_c_at [OF d1] by simp
qed simp

lemma patscan_alternatives:
  assumes "\<forall>ts\<in>set alts. wf_glob flags ts" and "alts \<noteq> []" "drop s P = alts_text alts @ r" "s + length (alts_text alts) \<le> fin"
  shows "patscan P s fin NUL = Some (s + length (alts_text alts))"
  using patscan_loop_alternatives [OF assms] assms(4) alts_text_nonempty [OF assms(2)] by (auto simp: patscan_def scan_start_outer)

section \<open>Outcomes as truth values\<close>

definition res :: "bool \<Rightarrow> match_result" where
  "res b = (if b then Match else No_Match)"

lemma res_simps [simp]:
  "or_match (res a) (res b) = res (a \<or> b)" "and_match (res a) (res b) = res (a \<and> b)"
  "res True = Match" "res False = No_Match" "res a = res b \<longleftrightarrow> a = b" "res a = Match \<longleftrightarrow> a" "res a = No_Match \<longleftrightarrow> \<not> a"
  by (auto simp: res_def or_match_def and_match_def)

lemma or_match_No_Match [simp]: "or_match No_Match r = r" "or_match r No_Match = r"
  by (cases r; simp add: or_match_def)+

lemma res_first: "(\<And>i. i \<in> set is \<Longrightarrow> f i = res (Q i)) \<Longrightarrow> first_match f is = res (\<exists>i\<in>set is. Q i)"
proof (induction "is")
  case (Cons i js)
  then have "first_match f (i # js) = or_match (res (Q i)) (res (\<exists>i\<in>set js. Q i))" by (simp add: first_match_def)
  then show ?case by simp
qed (simp add: first_match_def)

lemma alt_loop_res:
  assumes "\<forall>ts\<in>set alts. wf_glob flags ts" and "alts \<noteq> []" "drop psub P = alts_text alts @ r" "prest = psub + length (alts_text alts)" "prest \<le> pe"
    and "\<And>ts q r'. ts \<in> set alts \<Longrightarrow> psub \<le> q \<Longrightarrow> q + length (glob_text ts) < prest \<Longrightarrow> drop q P = glob_text ts @ r' \<Longrightarrow>
      c_at r' 0 = CHR '')'' \<or> c_at r' 0 = CHR ''|'' \<Longrightarrow> body q (q + length (glob_text ts) + 1) = res (Q ts)"
  shows "alt_loop P pe prest body psub = res (\<exists>ts\<in>set alts. Q ts)"
  using assms
proof (induction alts arbitrary: psub rule: induct_list012)
  case (2 a)
  have d: "drop psub P = glob_text a @ CHR '')'' # r" using 2 by simp
  have "patscan P psub pe (CHR ''|'') = Some prest" using patscan_alternative [OF _ d, of flags pe] 2 by simp
  moreover have "body psub prest = res (Q a)" using 2(6) [of a psub, OF _ _ _ d] 2(4) by simp
  ultimately show ?case by (subst alt_loop.simps) simp
next
  case (3 a b alts)
  have d: "drop psub P = glob_text a @ CHR ''|'' # alts_text (b # alts) @ r" using 3 by simp
  let ?q = "psub + length (glob_text a) + 1"
  have lt: "?q < prest" "prest \<le> pe" using 3(6,7) alts_text_nonempty [of "b # alts"] by simp_all
  have dq: "drop ?q P = alts_text (b # alts) @ r" using drop_c_at [OF drop_append_at [OF d]] by simp
  have "patscan P psub pe (CHR ''|'') = Some ?q" using patscan_alternative [OF _ d, of flags pe] 3(3) lt by simp
  moreover have "body psub ?q = res (Q a)" using 3(8) [of a psub, OF _ _ _ d] lt by simp
  moreover have "alt_loop P pe prest body ?q = res (\<exists>ts\<in>set (b # alts). Q ts)"
    using 3(3,6,7) dq 3(8) by (intro 3(2)) auto
  ultimately show ?case using lt by (subst alt_loop.simps) simp
qed simp

section \<open>Parts of the string\<close>

text \<open>The part of the string from \<open>s\<close> to \<open>se\<close> is in the language of \<open>ts\<close>.\<close>

definition holds :: "glob_locale \<Rightarrow> cstring \<Rightarrow> nat \<Rightarrow> nat \<Rightarrow> gtoken list \<Rightarrow> bool" where
  "holds loc S s se ts \<longleftrightarrow> between S s se \<in> glob_lang loc ts"

lemma between_same [simp]: "between S s s = []"
  by (simp add: between_def)

lemma between_empty: "s \<le> se \<Longrightarrow> se \<le> length S \<Longrightarrow> between S s se = [] \<longleftrightarrow> s = se"
  by (auto simp: between_def)

lemma between_join:
  assumes "s \<le> m" and "m \<le> se"
  shows "between S s m @ between S m se = between S s se"
proof -
  have "take ((m - s) + (se - m)) (drop s S) = take (m - s) (drop s S) @ take (se - m) (drop (m - s) (drop s S))" by (rule take_add)
  moreover have "(m - s) + (se - m) = se - s" "drop (m - s) (drop s S) = drop m S" using assms by simp_all
  ultimately show ?thesis by (simp add: between_def)
qed

lemma between_split:
  assumes "between S s se = u @ v" and "s \<le> se" "se \<le> length S"
  obtains m where "s \<le> m" "m \<le> se" "u = between S s m" "v = between S m se"
proof
  let ?m = "s + length u"
  have len: "length (between S s se) = se - s" using assms(2,3) by (simp add: between_def)
  then have "length u + length v = se - s" unfolding assms(1) by simp
  then show m: "s \<le> ?m" "?m \<le> se" using assms(2) by auto
  have "u = take (length u) (between S s se)" "v = drop (length u) (between S s se)" using assms(1) by simp_all
  moreover have "take (length u) (between S s se) = between S s ?m" using m by (simp add: between_def)
  moreover have "drop (length u) (between S s se) = between S ?m se" by (simp add: between_def drop_take add.commute)
  ultimately show "u = between S s ?m" "v = between S ?m se" by simp_all
qed

lemma holds_Nil: "s \<le> se \<Longrightarrow> se \<le> length S \<Longrightarrow> holds loc S s se [] \<longleftrightarrow> s = se"
  by (simp add: holds_def between_empty)

lemma holds_Cons:
  assumes "s \<le> se" and "se \<le> length S"
  shows "holds loc S s se (t # ts) \<longleftrightarrow> (\<exists>m. s \<le> m \<and> m \<le> se \<and> between S s m \<in> token_lang loc t \<and> holds loc S m se ts)"
proof
  assume "holds loc S s se (t # ts)"
  then obtain u v where "between S s se = u @ v" "u \<in> token_lang loc t" "v \<in> glob_lang loc ts" by (auto simp: holds_def)
  then show "\<exists>m. s \<le> m \<and> m \<le> se \<and> between S s m \<in> token_lang loc t \<and> holds loc S m se ts"
    using assms by (elim between_split) (auto simp: holds_def)
next
  assume "\<exists>m. s \<le> m \<and> m \<le> se \<and> between S s m \<in> token_lang loc t \<and> holds loc S m se ts"
  then obtain m where m: "s \<le> m" "m \<le> se" "between S s m \<in> token_lang loc t" "between S m se \<in> glob_lang loc ts"
    unfolding holds_def by blast
  show "holds loc S s se (t # ts)" unfolding holds_def glob_lang.simps
    by (rule CollectI, rule exI [of _ "between S s m"], rule exI [of _ "between S m se"])
       (use m(3,4) between_join [OF m(1,2), of S] in simp)
qed

subsection \<open>Repetition\<close>

lemma repeats_single: "u \<in> A \<Longrightarrow> u \<in> repeats A"
  using repeats.more [of u A "[]"] repeats.none by simp

lemma repeats_nonempty:
  "w \<in> repeats A \<Longrightarrow> w \<noteq> [] \<Longrightarrow> \<exists>u v. w = u @ v \<and> u \<noteq> [] \<and> u \<in> A \<and> v \<in> repeats A"
proof (induction rule: repeats.induct)
  case (more u v)
  then show ?case by (cases "u = []") auto
qed simp

lemma plus_cases:
  assumes "u \<in> A" and "v \<in> repeats A"
  shows "u @ v \<in> A \<or> (\<exists>x y z. u @ v = x @ y @ z \<and> x \<noteq> [] \<and> x \<in> A \<and> y \<in> A \<and> z \<in> repeats A)"
proof (cases "v = []")
  case False
  then obtain x y where v: "v = x @ y" "x \<noteq> []" "x \<in> A" "y \<in> repeats A" using repeats_nonempty assms(2) by blast
  show ?thesis
  proof (cases "u = []")
    case False
    then show ?thesis using v assms(1) by blast
  next
    case True
    show ?thesis
    proof (cases "y = []")
      case True
      then show ?thesis using v \<open>u = []\<close> by simp
    next
      case False
      then obtain x' y' where "y = x' @ y'" "x' \<in> A" "y' \<in> repeats A" using repeats_nonempty v(4) by blast
      then have "u @ v = x @ x' @ y'" using v(1) \<open>u = []\<close> by simp
      then show ?thesis using v(2,3) \<open>x' \<in> A\<close> \<open>y' \<in> repeats A\<close> by blast
    qed
  qed
qed (use assms in simp)

section \<open>Extended patterns\<close>

text \<open>What follows a part of a pattern does not open a parenthesis.\<close>

definition ends :: "cstring \<Rightarrow> bool" where
  "ends r \<longleftrightarrow> c_at r 0 \<noteq> CHR ''(''"

text \<open>A recursive call with less than \<open>k\<close> left answers membership.\<close>

definition sound :: "glob_locale \<Rightarrow> cstring \<Rightarrow> cstring \<Rightarrow> nat \<Rightarrow> nat \<Rightarrow> gmatch_call \<Rightarrow> bool" where
  "sound loc P S flags k call \<longleftrightarrow>
     (\<forall>ts s se p r. wf_glob flags ts \<longrightarrow> drop p P = glob_text ts @ r \<longrightarrow> ends r \<longrightarrow> s \<le> se \<longrightarrow> se \<le> length S \<longrightarrow>
        length (glob_text ts) * (length S + 1) + (se - s) < k \<longrightarrow>
        call s se p (p + length (glob_text ts)) flags = res (holds loc S s se ts))"

lemma soundD:
  assumes "sound loc P S flags k call" and "wf_glob flags ts" "drop p P = glob_text ts @ r" "ends r" "s \<le> se" "se \<le> length S"
    and "length (glob_text ts) * (length S + 1) + (se - s) < k" "pe = p + length (glob_text ts)"
  shows "call s se p pe flags = res (holds loc S s se ts)"
  using assms unfolding sound_def by blast

lemma shorter_budget:
  assumes "a < b" and "b * (M + 1) + x \<le> k" "y \<le> M"
  shows "a * (M + 1) + y < (k :: nat)"
proof -
  have "Suc a * (M + 1) \<le> b * (M + 1)" using assms(1) by (intro mult_le_mono1) simp
  then have "a * (M + 1) + M + 1 \<le> b * (M + 1)" by (simp only: mult_Suc)
  then show ?thesis using assms(2,3) by linarith
qed

text \<open>The string from \<open>s\<close> to \<open>m\<close> matches one of the alternatives.\<close>

definition one_of :: "glob_locale \<Rightarrow> cstring \<Rightarrow> nat \<Rightarrow> nat \<Rightarrow> gtoken list list \<Rightarrow> bool" where
  "one_of loc S s m alts \<longleftrightarrow> (\<exists>ts\<in>set alts. holds loc S s m ts)"

lemma holds_Ext:
  assumes "s \<le> se" and "se \<le> length S"
  shows "holds loc S s se (Ext xc alts # ts) \<longleftrightarrow>
    (\<exists>m. s \<le> m \<and> m \<le> se \<and> between S s m \<in> ext_lang xc {w. \<exists>a\<in>set alts. w \<in> glob_lang loc a} \<and> holds loc S m se ts)"
  using holds_Cons [OF assms] by simp

lemma holds_ExtI:
  assumes "s \<le> m" and "m \<le> se" "se \<le> length S" "between S s m \<in> ext_lang xc {w. \<exists>a\<in>set alts. w \<in> glob_lang loc a}" "holds loc S m se ts"
  shows "holds loc S s se (Ext xc alts # ts)"
  unfolding holds_Ext [OF le_trans [OF assms(1,2)] assms(3)] using assms by blast

lemma one_of_lang: "one_of loc S s m alts \<longleftrightarrow> between S s m \<in> {w. \<exists>a\<in>set alts. w \<in> glob_lang loc a}"
  by (simp add: one_of_def holds_def)

lemma holds_Ext_simple:
  assumes "s \<le> se" and "se \<le> length S"
  shows "holds loc S s se (Ext (CHR ''@'') alts # ts) \<longleftrightarrow> (\<exists>m. s \<le> m \<and> m \<le> se \<and> one_of loc S s m alts \<and> holds loc S m se ts)"
    and "holds loc S s se (Ext (CHR ''?'') alts # ts) \<longleftrightarrow>
      holds loc S s se ts \<or> (\<exists>m. s \<le> m \<and> m \<le> se \<and> one_of loc S s m alts \<and> holds loc S m se ts)"
    and "holds loc S s se (Ext (CHR ''!'') alts # ts) \<longleftrightarrow> (\<exists>m. s \<le> m \<and> m \<le> se \<and> \<not> one_of loc S s m alts \<and> holds loc S m se ts)"
proof -
  show "holds loc S s se (Ext (CHR ''@'') alts # ts) \<longleftrightarrow> (\<exists>m. s \<le> m \<and> m \<le> se \<and> one_of loc S s m alts \<and> holds loc S m se ts)"
    by (simp add: holds_Ext [OF assms] one_of_lang ext_lang_def)
  show "holds loc S s se (Ext (CHR ''!'') alts # ts) \<longleftrightarrow> (\<exists>m. s \<le> m \<and> m \<le> se \<and> \<not> one_of loc S s m alts \<and> holds loc S m se ts)"
    by (simp add: holds_Ext [OF assms] one_of_lang ext_lang_def)
  have "between S s m = [] \<longleftrightarrow> m = s" if "s \<le> m" "m \<le> se" for m using between_empty [of s m S] that assms by auto
  then show "holds loc S s se (Ext (CHR ''?'') alts # ts) \<longleftrightarrow>
      holds loc S s se ts \<or> (\<exists>m. s \<le> m \<and> m \<le> se \<and> one_of loc S s m alts \<and> holds loc S m se ts)"
    using assms by (auto simp: holds_Ext [OF assms] one_of_lang ext_lang_def)
qed

text \<open>The two repetitions unfold as the code does.\<close>

lemma holds_Ext_star:
  assumes "s \<le> se" and "se \<le> length S"
  shows "holds loc S s se (Ext (CHR ''*'') alts # ts) \<longleftrightarrow>
    holds loc S s se ts \<or>
    (\<exists>m. s \<le> m \<and> m \<le> se \<and> one_of loc S s m alts \<and>
       (holds loc S m se ts \<or> s \<noteq> m \<and> holds loc S m se (Ext (CHR ''*'') alts # ts)))"
    (is "?l \<longleftrightarrow> ?r")
proof
  let ?A = "{w. \<exists>a\<in>set alts. w \<in> glob_lang loc a}"
  assume ?l
  then obtain e where e: "s \<le> e" "e \<le> se" "between S s e \<in> repeats ?A" "holds loc S e se ts"
    by (auto simp: holds_Ext [OF assms] ext_lang_def)
  show ?r
  proof (cases "s = e")
    case False
    then have "between S s e \<noteq> []" using between_empty [of s e S] e assms by simp
    then obtain u v where uv: "between S s e = u @ v" "u \<noteq> []" "u \<in> ?A" "v \<in> repeats ?A" using repeats_nonempty e(3) by blast
    then obtain m where m: "s \<le> m" "m \<le> e" "u = between S s m" "v = between S m e" using between_split e assms by (metis le_trans)
    have "s \<noteq> m" using m(3) uv(2) by auto
    moreover have "holds loc S m se (Ext (CHR ''*'') alts # ts)"
      using holds_Ext [of m se S loc "CHR ''*''" alts ts] m e uv(4) assms by (auto simp: ext_lang_def)
    ultimately show ?thesis using m e uv(3) one_of_lang [of loc S s m alts] by (metis le_trans)
  qed (use e in simp)
next
  let ?A = "{w. \<exists>a\<in>set alts. w \<in> glob_lang loc a}"
  assume ?r
  then show ?l
  proof (elim disjE exE conjE)
    assume "holds loc S s se ts"
    then show ?l using assms repeats.none by (auto simp: holds_Ext [OF assms] ext_lang_def intro: exI [of _ s])
  next
    fix m assume m: "s \<le> m" "m \<le> se" "one_of loc S s m alts" "holds loc S m se ts"
    have "between S s m \<in> ?A" using m(3) unfolding one_of_lang .
    then have "between S s m \<in> repeats ?A" by (rule repeats_single)
    then have "between S s m \<in> ext_lang (CHR ''*'') ?A" by (simp add: ext_lang_def)
    then show ?l using m(4) by (rule holds_ExtI [OF m(1,2) assms(2)])
  next
    fix m assume m: "s \<le> m" "m \<le> se" "one_of loc S s m alts" "holds loc S m se (Ext (CHR ''*'') alts # ts)"
    then obtain e where e: "m \<le> e" "e \<le> se" "between S m e \<in> repeats ?A" "holds loc S e se ts"
      using holds_Ext [of m se S loc "CHR ''*''" alts ts] assms by (auto simp: ext_lang_def)
    have "between S s m \<in> ?A" using m(3) unfolding one_of_lang .
    then have "between S s e \<in> repeats ?A" unfolding between_join [OF m(1) e(1), of S, symmetric] using e(3) by (rule repeats.more)
    then have "between S s e \<in> ext_lang (CHR ''*'') ?A" by (simp add: ext_lang_def)
    then show ?l using e(4) by (rule holds_ExtI [OF le_trans [OF m(1) e(1)] e(2) assms(2)])
  qed
qed

lemma holds_Ext_plus:
  assumes "s \<le> se" and "se \<le> length S"
  shows "holds loc S s se (Ext (CHR ''+'') alts # ts) \<longleftrightarrow>
    (\<exists>m. s \<le> m \<and> m \<le> se \<and> one_of loc S s m alts \<and>
       (holds loc S m se ts \<or> s \<noteq> m \<and> holds loc S m se (Ext (CHR ''+'') alts # ts)))"
    (is "?l \<longleftrightarrow> ?r")
proof
  let ?A = "{w. \<exists>a\<in>set alts. w \<in> glob_lang loc a}"
  assume ?l
  then obtain e where e: "s \<le> e" "e \<le> se" "between S s e \<in> {u @ v | u v. u \<in> ?A \<and> v \<in> repeats ?A}" "holds loc S e se ts"
    unfolding holds_Ext [OF assms] by (auto simp: ext_lang_def)
  then obtain u v where uv: "between S s e = u @ v" "u \<in> ?A" "v \<in> repeats ?A" by blast
  from plus_cases [OF uv(2,3)] show ?r
  proof (elim disjE exE conjE)
    assume "u @ v \<in> ?A"
    then have "one_of loc S s e alts" unfolding one_of_lang uv(1) .
    then show ?r using e by blast
  next
    fix x y z assume w: "u @ v = x @ y @ z" "x \<noteq> []" "x \<in> ?A" "y \<in> ?A" "z \<in> repeats ?A"
    obtain m where m: "s \<le> m" "m \<le> e" "x = between S s m" "y @ z = between S m e"
      using between_split [of S s e x "y @ z"] e assms uv(1) w(1) by (metis le_trans)
    have "s \<noteq> m" using m(3) w(2) by auto
    moreover have "one_of loc S s m alts" unfolding one_of_lang m(3) [symmetric] by (rule w(3))
    moreover have "between S m e \<in> ext_lang (CHR ''+'') ?A" unfolding m(4) [symmetric] using w(4,5) by (auto simp: ext_lang_def)
    then have "holds loc S m se (Ext (CHR ''+'') alts # ts)" using e(4) by (rule holds_ExtI [OF m(2) e(2) assms(2)])
    moreover have "m \<le> se" using m(2) e(2) by simp
    ultimately show ?r using m(1) by blast
  qed
next
  let ?A = "{w. \<exists>a\<in>set alts. w \<in> glob_lang loc a}"
  assume ?r
  then obtain m where m: "s \<le> m" "m \<le> se" "one_of loc S s m alts"
    and rest: "holds loc S m se ts \<or> holds loc S m se (Ext (CHR ''+'') alts # ts)" by blast
  have A: "between S s m \<in> ?A" using m(3) unfolding one_of_lang .
  from rest obtain e where e: "m \<le> e" "e \<le> se" "between S m e \<in> repeats ?A" "holds loc S e se ts"
  proof
    assume "holds loc S m se ts"
    then show ?thesis using that [of m] m(2) repeats.none by simp
  next
    assume "holds loc S m se (Ext (CHR ''+'') alts # ts)"
    then obtain e where "m \<le> e" "e \<le> se" "between S m e \<in> ext_lang (CHR ''+'') ?A" "holds loc S e se ts"
      using holds_Ext [OF m(2) assms(2)] by blast
    moreover from this have "between S m e \<in> repeats ?A" unfolding ext_lang_def using repeats.more [of _ ?A] by fastforce
    ultimately show ?thesis using that by blast
  qed
  have "between S s e \<in> ext_lang (CHR ''+'') ?A"
    unfolding ext_lang_def between_join [OF m(1) e(1), of S, symmetric] using A e(3) by auto
  then show ?l using e(4) by (rule holds_ExtI [OF le_trans [OF m(1) e(1)] e(2) assms(2)])
qed

subsection \<open>EXTMATCH\<close>

lemma token_text_nonempty: "token_text t \<noteq> []"
  by (cases t) (auto simp: neq_Nil_conv elim!: char_text.elims, metis char_text.simps surj_pair)

lemma glob_text_empty [simp]: "glob_text ts = [] \<longleftrightarrow> ts = []"
  by (cases ts) (simp_all add: token_text_nonempty)

lemma res_iff: "r = res a \<Longrightarrow> a = b \<Longrightarrow> r = res b"
  by simp

text \<open>An extended pattern with the position behind its first character, in a pattern that ends at \<open>pe\<close>.\<close>

lemma extmatch_sound:
  assumes flags: "plain_flags flags" and call: "sound loc P S flags k call"
    and wf: "wf_glob flags (Ext xc alts # ts)" and d: "drop q P = glob_text (Ext xc alts # ts) @ r" "ends r"
    and s: "s \<le> se" "se \<le> length S" and pe: "pe = q + length (glob_text (Ext xc alts # ts))"
    and k: "length (glob_text (Ext xc alts # ts)) * (length S + 1) + (se - s) \<le> k"
  shows "extmatch call loc P S xc s se (q + 1) pe flags = res (holds loc S s se (Ext xc alts # ts))"
proof -
  let ?all = "Ext xc alts # ts" and ?M = "length S"
  have w: "xc \<in> set ''+*?@!''" "alts \<noteq> []" "\<forall>a\<in>set alts. wf_glob flags a" "wf_glob flags ts" using wf by auto
  have d1: "drop (q + 1) P = CHR ''('' # alts_text alts @ glob_text ts @ r" using d(1) drop_c_at by fastforce
  then have d2: "c_at P (q + 1) = CHR ''(''" "drop (q + 2) P = alts_text alts @ glob_text ts @ r" using drop_c_at by fastforce+
  define prest where "prest = q + 2 + length (alts_text alts)"
  have dr: "drop prest P = glob_text ts @ r" using drop_append_at [OF d2(2)] by (simp add: prest_def)
  have pe': "pe = prest + length (glob_text ts)" "prest \<le> pe" by (simp_all add: pe prest_def)
  have scan: "patscan P (q + 2) pe NUL = Some prest"
    using patscan_alternatives [OF w(3,2) d2(2)] pe' by (simp add: prest_def)
  have np: "no_period flags = flags" using plain_flags_simps [OF flags] by simp
  have rest: "call m se prest pe flags = res (holds loc S m se ts)" if "m \<le> se" for m
    using that w(4) s(2)
    by (intro soundD [OF call _ dr d(2) that s(2) _ pe'(1)] shorter_budget [OF _ k]) simp_all
  have again: "call m se q pe flags = res (holds loc S m se ?all)" if "s < m" "m \<le> se" for m
    using that k by (intro soundD [OF call wf d that(2) s(2) _ pe]) linarith
  have part: "call s m i (i + length (glob_text a) + 1 - 1) flags = res (holds loc S s m a)"
    if "a \<in> set alts" "i + length (glob_text a) < prest" "q + 2 \<le> i" "drop i P = glob_text a @ r'" "c_at r' 0 = CHR '')'' \<or> c_at r' 0 = CHR ''|''" "s \<le> m" "m \<le> se"
    for a i r' m
  proof -
    have "length (glob_text a) < length (glob_text ?all)" using that(2,3) by (simp add: prest_def)
    then have "length (glob_text a) * (?M + 1) + (m - s) < k" by (rule shorter_budget [OF _ k]) (use that(7) s(2) in simp)
    moreover have "wf_glob flags a" "ends r'" "m \<le> ?M" using w(3) that s(2) by (auto simp: ends_def)
    ultimately show ?thesis using soundD [OF call _ that(4) _ that(6)] by simp
  qed
  have alts: "alt_loop P pe prest body (q + 2) = res (\<exists>a\<in>set alts. Q a)"
    if "\<And>a i r'. a \<in> set alts \<Longrightarrow> q + 2 \<le> i \<Longrightarrow> i + length (glob_text a) < prest \<Longrightarrow> drop i P = glob_text a @ r' \<Longrightarrow>
      c_at r' 0 = CHR '')'' \<or> c_at r' 0 = CHR ''|'' \<Longrightarrow> body i (i + length (glob_text a) + 1) = res (Q a)" for body Q
    by (rule alt_loop_res [OF w(3,2) d2(2) _ pe'(2)]) (use that in \<open>auto simp: prest_def\<close>)
  have from_to: "set [s..<se + 1] = {m. s \<le> m \<and> m \<le> se}" by auto
  have repeat: "alt_loop P pe prest (\<lambda>psub pnext. first_match (\<lambda>m.
        and_match (call s m psub (pnext - 1) flags)
          (or_match (call m se prest pe flags) (if s \<noteq> m then call m se q pe flags else No_Match))) [s..<se + 1]) (q + 2) =
      res (\<exists>a\<in>set alts. \<exists>m\<in>set [s..<se + 1]. holds loc S s m a \<and> (holds loc S m se ts \<or> s \<noteq> m \<and> holds loc S m se ?all))"
  proof (rule alts, rule res_first)
    fix a i r' m
    assume a: "a \<in> set alts" "q + 2 \<le> i" "i + length (glob_text a) < prest" "drop i P = glob_text a @ r'" "c_at r' 0 = CHR '')'' \<or> c_at r' 0 = CHR ''|''"
      and "m \<in> set [s..<se + 1]"
    then have m: "s \<le> m" "m \<le> se" by auto
    have "call s m i (i + length (glob_text a) + 1 - 1) flags = res (holds loc S s m a)"
      using part [OF a(1,3,2,4,5) m] .
    moreover have "(if s \<noteq> m then call m se q pe flags else No_Match) = res (s \<noteq> m \<and> holds loc S m se ?all)"
      using again [of m] m by (cases "s = m") auto
    ultimately show "and_match (call s m i (i + length (glob_text a) + 1 - 1) flags)
        (or_match (call m se prest pe flags) (if s \<noteq> m then call m se q pe flags else No_Match)) =
        res (holds loc S s m a \<and> (holds loc S m se ts \<or> s \<noteq> m \<and> holds loc S m se ?all))"
      using rest [OF m(2)] by simp
  qed
  have once: "alt_loop P pe prest (\<lambda>psub pnext. first_match (\<lambda>m.
        and_match (call s m psub (pnext - 1) flags) (call m se prest pe flags)) [(if prest = pe then se else s)..<se + 1]) (q + 2) =
      res (\<exists>a\<in>set alts. \<exists>m\<in>set [(if prest = pe then se else s)..<se + 1]. holds loc S s m a \<and> holds loc S m se ts)"
  proof (rule alts, rule res_first)
    fix a i r' m
    assume a: "a \<in> set alts" "q + 2 \<le> i" "i + length (glob_text a) < prest" "drop i P = glob_text a @ r'" "c_at r' 0 = CHR '')'' \<or> c_at r' 0 = CHR ''|''"
      and "m \<in> set [(if prest = pe then se else s)..<se + 1]"
    then have m: "s \<le> m" "m \<le> se" using s(1) by (auto split: if_splits)
    show "and_match (call s m i (i + length (glob_text a) + 1 - 1) flags) (call m se prest pe flags) =
        res (holds loc S s m a \<and> holds loc S m se ts)"
      using part [OF a(1,3,2,4,5) m] rest [OF m(2)] by simp
  qed
  have other: "alt_loop P pe prest (\<lambda>psub pnext. call s m psub (pnext - 1) flags) (q + 2) = res (one_of loc S s m alts)"
    if "s \<le> m" "m \<le> se" for m
    unfolding one_of_def by (rule alts) (use part that in blast)
  have once_all: "(\<exists>a\<in>set alts. \<exists>m\<in>set [(if prest = pe then se else s)..<se + 1]. holds loc S s m a \<and> holds loc S m se ts) \<longleftrightarrow>
      (\<exists>m. s \<le> m \<and> m \<le> se \<and> one_of loc S s m alts \<and> holds loc S m se ts)"
  proof (cases "prest = pe")
    case True
    then have "ts = []" using pe'(1) by simp
    then have "m = se" if "s \<le> m" "m \<le> se" "holds loc S m se ts" for m using holds_Nil [of m se S loc] that s by simp
    then show ?thesis using True s(1) by (auto simp: one_of_def)
  next
    case False
    have "set [(if prest = pe then se else s)..<se + 1] = {m. s \<le> m \<and> m \<le> se}" using False from_to by simp
    then show ?thesis unfolding one_of_def by blast
  qed
  have unfolded: "extmatch call loc P S xc s se (q + 1) pe flags =
      (if xc = CHR ''+'' \<or> xc = CHR ''*'' then
         or_match (if xc = CHR ''*'' then call s se prest pe flags else No_Match)
           (alt_loop P pe prest (\<lambda>psub pnext. first_match (\<lambda>m.
              and_match (call s m psub (pnext - 1) flags)
                (or_match (call m se prest pe flags) (if s \<noteq> m then call m se q pe flags else No_Match))) [s..<se + 1]) (q + 2))
       else if xc = CHR ''?'' \<or> xc = CHR ''@'' then
         or_match (if xc = CHR ''?'' then call s se prest pe flags else No_Match)
           (alt_loop P pe prest (\<lambda>psub pnext. first_match (\<lambda>m.
              and_match (call s m psub (pnext - 1) flags) (call m se prest pe flags)) [(if prest = pe then se else s)..<se + 1]) (q + 2))
       else if xc = CHR ''!'' then
         first_match (\<lambda>m.
           case alt_loop P pe prest (\<lambda>psub pnext. call s m psub (pnext - 1) flags) (q + 2) of
             Match \<Rightarrow> No_Match
           | No_Match \<Rightarrow> call m se prest pe flags
           | r \<Rightarrow> r) [s..<se + 1]
       else No_Match)"
  proof -
    have "(if c_at P (q + 1) = CHR ''('' then q + 1 + 1 else q + 1) = q + 2" "q + 1 + 1 = q + 2" "q + 1 - 1 = q" using d2(1) by simp_all
    then show ?thesis unfolding extmatch_def Let_def by (simp only: scan option.case np if_cancel)
  qed
  consider "xc = CHR ''+''" | "xc = CHR ''*''" | "xc = CHR ''?''" | "xc = CHR ''@''" | "xc = CHR ''!''" using w(1) by auto
  then show ?thesis
  proof cases
    case 1
    then have "extmatch call loc P S xc s se (q + 1) pe flags =
        res (\<exists>a\<in>set alts. \<exists>m\<in>set [s..<se + 1]. holds loc S s m a \<and> (holds loc S m se ts \<or> s \<noteq> m \<and> holds loc S m se ?all))"
      using unfolded repeat by simp
    then show ?thesis unfolding 1 holds_Ext_plus [OF s] from_to one_of_def by (rule res_iff) (auto simp: 1)
  next
    case 2
    then have "extmatch call loc P S xc s se (q + 1) pe flags =
        res (holds loc S s se ts \<or>
          (\<exists>a\<in>set alts. \<exists>m\<in>set [s..<se + 1]. holds loc S s m a \<and> (holds loc S m se ts \<or> s \<noteq> m \<and> holds loc S m se ?all)))"
      using unfolded repeat rest [OF s(1)] by simp
    then show ?thesis unfolding 2 holds_Ext_star [OF s] from_to one_of_def by (rule res_iff) (auto simp: 2)
  next
    case 3
    then show ?thesis using unfolded once rest [OF s(1)] once_all holds_Ext_simple(2) [OF s] by simp
  next
    case 4
    then show ?thesis using unfolded once once_all holds_Ext_simple(1) [OF s] by simp
  next
    case 5
    have "first_match (\<lambda>m. case alt_loop P pe prest (\<lambda>psub pnext. call s m psub (pnext - 1) flags) (q + 2) of
          Match \<Rightarrow> No_Match | No_Match \<Rightarrow> call m se prest pe flags | r \<Rightarrow> r) [s..<se + 1] =
        res (\<exists>m\<in>set [s..<se + 1]. \<not> one_of loc S s m alts \<and> holds loc S m se ts)"
    proof (rule res_first)
      fix m assume "m \<in> set [s..<se + 1]"
      then have m: "s \<le> m" "m \<le> se" by auto
      show "(case alt_loop P pe prest (\<lambda>psub pnext. call s m psub (pnext - 1) flags) (q + 2) of
          Match \<Rightarrow> No_Match | No_Match \<Rightarrow> call m se prest pe flags | r \<Rightarrow> r) = res (\<not> one_of loc S s m alts \<and> holds loc S m se ts)"
        unfolding other [OF m] using rest [OF m(2)] by (cases "one_of loc S s m alts") simp_all
    qed
    then have "extmatch call loc P S xc s se (q + 1) pe flags =
        res (\<exists>m\<in>set [s..<se + 1]. \<not> one_of loc S s m alts \<and> holds loc S m se ts)"
      using unfolded 5 by simp
    then show ?thesis unfolding 5 holds_Ext_simple(3) [OF s] from_to by (rule res_iff) auto
  qed
qed

section \<open>The matcher\<close>

lemma between_one: "s < length S \<Longrightarrow> between S s (s + 1) = [c_at S s]"
  by (simp add: between_def c_at_def take_Suc_conv_app_nth [of 0, simplified])

text \<open>A part that stands for one character.\<close>

lemma holds_single:
  assumes "token_lang loc t = {[c] | c. Q c}" and "s \<le> se" "se \<le> length S"
  shows "holds loc S s se (t # ts) \<longleftrightarrow> s < se \<and> Q (c_at S s) \<and> holds loc S (s + 1) se ts"
proof
  assume "holds loc S s se (t # ts)"
  then obtain m c where m: "s \<le> m" "m \<le> se" "between S s m = [c]" "Q c" "holds loc S m se ts"
    using holds_Cons [OF assms(2,3)] assms(1) by auto
  have "length (between S s m) = m - s" using m(1,2) assms(3) by (simp add: between_def)
  then have "m = s + 1" using m(1,3) by simp
  then show "s < se \<and> Q (c_at S s) \<and> holds loc S (s + 1) se ts" using m between_one [of s S] assms(3) by simp
next
  assume r: "s < se \<and> Q (c_at S s) \<and> holds loc S (s + 1) se ts"
  then have "between S s (s + 1) = [c_at S s]" using between_one [of s S] assms(3) by simp
  then show "holds loc S s se (t # ts)" unfolding holds_Cons [OF assms(2,3)] assms(1)
    by (intro exI [of _ "s + 1"]) (use r in auto)
qed

lemma holds_Char:
  assumes "s \<le> se" and "se \<le> length S"
  shows "holds loc S s se (Char a # ts) \<longleftrightarrow> s < se \<and> c_at S s = snd a \<and> holds loc S (s + 1) se ts"
  using holds_single [of loc "Char a" "\<lambda>c. c = snd a", OF _ assms] by simp

lemma holds_Any:
  assumes "s \<le> se" and "se \<le> length S"
  shows "holds loc S s se (Any # ts) \<longleftrightarrow> s < se \<and> holds loc S (s + 1) se ts"
  using holds_single [of loc Any "\<lambda>c. True", OF _ assms] by simp

lemma holds_Bracket:
  assumes "s \<le> se" and "se \<le> length S"
  shows "holds loc S s se (Bracket neg is # ts) \<longleftrightarrow>
    s < se \<and> (\<exists>i\<in>set is. item_has loc (c_at S s) i) \<noteq> neg \<and> holds loc S (s + 1) se ts"
  using holds_single [of loc "Bracket neg is" "\<lambda>c. (\<exists>i\<in>set is. item_has loc c i) \<noteq> neg", OF _ assms] by simp

lemma holds_Star:
  assumes "s \<le> se" and "se \<le> length S"
  shows "holds loc S s se (Star # ts) \<longleftrightarrow> (\<exists>m. s \<le> m \<and> m \<le> se \<and> holds loc S m se ts)"
  using holds_Cons [OF assms] by simp

lemma string_at_NUL: "c_string S \<Longrightarrow> se \<le> length S \<Longrightarrow> string_at S se n = NUL \<longleftrightarrow> se \<le> n"
  by (auto simp: string_at_def c_at_NUL_iff)

lemma glob_text_first:
  assumes "wf_glob flags ts" and "ends r"
  shows "c_at (glob_text ts @ r) 0 \<noteq> CHR ''(''"
proof (cases ts)
  case Nil
  then show ?thesis using assms(2) by (simp add: ends_def)
next
  case (Cons t ts')
  show ?thesis
  proof (cases t)
    case (Char a)
    then have "wf_char glob_special a" using assms(1) Cons by simp
    then obtain d u where "char_text a = d # u" "d = BSLASH \<or> d \<notin> glob_special" by (rule char_text_first)
    then show ?thesis using Cons Char by (auto simp: glob_special_def)
  qed (use assms(1) Cons in auto)
qed

subsection \<open>A star\<close>

lemma star_match_wild:
  assumes "plain_flags flags" and "c_at P p = CHR ''?'' \<or> c_at P p = CHR ''*''" "c_at P (p + 1) \<noteq> CHR ''(''"
  shows "star_match call loc P S flags se pe p n =
    (if c_at P p = CHR ''?'' \<and> string_at S se n = NUL then No_Match
     else if p + 1 = pe then Match
     else star_match call loc P S flags se pe (p + 1) (if c_at P p = CHR ''?'' then n + 1 else n))"
proof -
  note s = plain_flags_simps [OF assms(1)]
  have "star_step call loc P S flags se pe (c_at P p) (p + 1) n =
      (if c_at P p = CHR ''?'' \<and> string_at S se n = NUL then Inl No_Match
       else Inr (p + 1, if c_at P p = CHR ''?'' then n + 1 else n))"
    using assms(3) s by (simp add: star_step_def Let_def)
  moreover have "star_loop call loc P S flags se pe (c_at P p) (p + 1) n =
      (case star_step call loc P S flags se pe (c_at P p) (p + 1) n of
         Inl r \<Rightarrow> Inl r
       | Inr (p', n') \<Rightarrow> if p' = pe then Inr (c_at P p, p', n') else star_loop call loc P S flags se pe (c_at P p') (p' + 1) n')"
    using assms(2) by (subst star_loop.simps) auto
  ultimately show ?thesis
    by (cases "c_at P p = CHR ''?'' \<and> string_at S se n = NUL"; cases "p + 1 = pe")
       (simp_all only: star_match_def sum.case prod.case if_True if_False simp_thms, use assms(2) in auto)
qed

lemma star_match_plain:
  assumes "c_at P p \<noteq> CHR ''?''" and "c_at P p \<noteq> CHR ''*''" "c_at P p = CHR ''!'' \<longrightarrow> c_at P (p + 1) \<noteq> CHR ''(''"
  shows "star_match call loc P S flags se pe p n = star_general call P S flags se pe (c_at P p) (p + 1) n"
  using assms unfolding star_match_def by (subst star_loop.simps) auto

lemma star_general_sound:
  assumes flags: "plain_flags flags" and wf: "wf_glob flags (t # ts)" and t: "(\<exists>a. t = Char a) \<or> (\<exists>neg is. t = Bracket neg is)"
    and d: "drop p P = glob_text (t # ts) @ r" and s: "n \<le> se" "se \<le> length S"
    and call: "\<And>m. m \<le> se \<Longrightarrow> call m se p pe flags = res (holds loc S m se (t # ts))"
  shows "star_general call P S flags se pe (c_at P p) (p + 1) n = res (\<exists>m. n \<le> m \<and> m \<le> se \<and> holds loc S m se (t # ts))"
proof -
  note f = plain_flags_simps [OF flags]
  define c1 where "c1 = (if c_at P p = BSLASH then c_at P (p + 1) else c_at P p)"
  have other: "\<not> holds loc S m se (t # ts)" if "c_at P p \<noteq> CHR ''[''" "c_at S m \<noteq> c1" "m \<le> se" for m
  proof (cases "\<exists>a. t = Char a")
    case True
    then obtain q c where a: "t = Char (q, c)" by auto
    then have "c1 = c"
      using d wf drop_c_at [of p P] drop_c_at [of "Suc p" P] by (cases q) (auto simp: c1_def wf_char_def glob_special_def)
    then show ?thesis using a that(2,3) s(2) holds_Char by simp
  next
    case False
    then show ?thesis using t d that(1) drop_c_at [of p P] by auto
  qed
  have "star_general call P S flags se pe (c_at P p) (p + 1) n = res (\<exists>m\<in>set [n..<se]. holds loc S m se (t # ts))"
    unfolding star_general_def Let_def
  proof (rule res_first)
    fix m assume m: "m \<in> set [n..<se]"
    have here: "call m se (p + 1 - 1) pe (no_period flags) = res (holds loc S m se (t # ts))" using call m f(7) by simp
    show "(if \<not> flag flags FNM_EXTMATCH \<and> c_at P p \<noteq> CHR ''['' \<and>
            FOLD flags (c_at S m) \<noteq> FOLD flags (if \<not> flag flags FNM_NOESCAPE \<and> c_at P p = BSLASH then c_at P (p + 1) else c_at P p)
         then No_Match
         else if flag flags FNM_EXTMATCH \<and> c_at P (p + 1) \<noteq> CHR ''('' \<and> c_at P (p + 1 - 1) \<notin> set ''?*+@!'' \<and>
                 c_at P (p + 1 - 1) \<noteq> NUL \<and> c_at P p \<noteq> CHR ''['' \<and>
                 FOLD flags (c_at S m) \<noteq> FOLD flags (if \<not> flag flags FNM_NOESCAPE \<and> c_at P p = BSLASH then c_at P (p + 1) else c_at P p)
         then No_Match
         else call m se (p + 1 - 1) pe (no_period flags)) = res (holds loc S m se (t # ts))"
    proof (cases "c_at P p \<noteq> CHR ''['' \<and> c_at S m \<noteq> c1")
      case True
      then have "res (holds loc S m se (t # ts)) = No_Match" using other [of m] m by simp
      then show ?thesis unfolding here by (simp only: if_cancel)
    next
      case False
      then show ?thesis unfolding here f(6) c1_def using f(2) by (simp only: simp_thms if_False)
    qed
  qed
  moreover have "\<not> holds loc S se se (t # ts)" using t s(2) holds_Char [of se se S loc] holds_Bracket [of se se S loc] by auto
  then have "(\<exists>m\<in>set [n..<se]. holds loc S m se (t # ts)) \<longleftrightarrow> (\<exists>m. n \<le> m \<and> m \<le> se \<and> holds loc S m se (t # ts))"
    by (auto simp: le_less)
  ultimately show ?thesis by simp
qed

text \<open>\<open>b\<close> characters of the pattern, with the star, are covered by the budget.\<close>

lemma star_match_sound:
  assumes flags: "plain_flags flags" and call: "sound loc P S flags k call" and S: "c_string S" "se \<le> length S"
    and k: "b * (length S + 1) + x \<le> k"
  shows "wf_glob flags ts \<Longrightarrow> no_ext ts \<Longrightarrow> ts \<noteq> [] \<Longrightarrow> drop p P = glob_text ts @ r \<Longrightarrow> ends r \<Longrightarrow> pe = p + length (glob_text ts) \<Longrightarrow>
    length (glob_text ts) < b \<Longrightarrow> n \<le> se \<Longrightarrow>
    star_match call loc P S flags se pe p n = res (\<exists>m. n \<le> m \<and> m \<le> se \<and> holds loc S m se ts)"
proof (induction ts arbitrary: p n)
  case (Cons t ts)
  have d: "drop p P = token_text t @ glob_text ts @ r" using Cons.prems(4) by simp
  have next_char: "c_at P (p + length (token_text t)) \<noteq> CHR ''(''"
    using c_at_rest [OF d] glob_text_first [of flags ts r] Cons.prems(1,5) by simp
  have last: "p + length (token_text t) = pe \<longleftrightarrow> ts = []" using Cons.prems(6) by auto
  have more: "star_match call loc P S flags se pe (p + 1) i = res (\<exists>m. i \<le> m \<and> m \<le> se \<and> holds loc S m se ts)"
    if "ts \<noteq> []" "length (token_text t) = 1" "no_ext ts" "i \<le> se" for i
    using Cons.IH [OF _ that(3,1), of "p + 1" i] Cons.prems drop_append_at [OF d] that by simp
  show ?case
  proof (cases t)
    case Star
    then have c: "c_at P p = CHR ''*''" using d drop_c_at by fastforce
    have m: "star_match call loc P S flags se pe p n = (if ts = [] then Match else star_match call loc P S flags se pe (p + 1) n)"
      using star_match_wild [OF flags, of P p call loc S se pe n] c next_char last Star by simp
    have "(\<exists>m. n \<le> m \<and> m \<le> se \<and> holds loc S m se (Star # ts)) \<longleftrightarrow> (\<exists>m. n \<le> m \<and> m \<le> se \<and> holds loc S m se ts)"
      using holds_Star [OF _ S(2), of _ loc ts] by (metis le_trans order_refl)
    moreover have "\<exists>m. n \<le> m \<and> m \<le> se \<and> holds loc S m se ts" if "ts = []" using that Cons.prems(8) holds_Nil S(2) by blast
    ultimately show ?thesis using m more [of n] Star Cons.prems(2,8) by (auto simp: res_def)
  next
    case Any
    then have c: "c_at P p = CHR ''?''" using d drop_c_at by fastforce
    have m: "star_match call loc P S flags se pe p n =
        (if se \<le> n then No_Match else if ts = [] then Match else star_match call loc P S flags se pe (p + 1) (n + 1))"
      using star_match_wild [OF flags, of P p call loc S se pe n] c next_char last Any string_at_NUL [OF S] by simp
    have shift: "(\<exists>m. n \<le> m \<and> m \<le> se \<and> holds loc S m se (Any # ts)) \<longleftrightarrow> n < se \<and> (\<exists>m. n + 1 \<le> m \<and> m \<le> se \<and> holds loc S m se ts)"
    proof
      assume "\<exists>m. n \<le> m \<and> m \<le> se \<and> holds loc S m se (Any # ts)"
      then show "n < se \<and> (\<exists>m. n + 1 \<le> m \<and> m \<le> se \<and> holds loc S m se ts)" using holds_Any [OF _ S(2), of _ loc ts] by fastforce
    next
      assume "n < se \<and> (\<exists>m. n + 1 \<le> m \<and> m \<le> se \<and> holds loc S m se ts)"
      then obtain m where m: "n + 1 \<le> m" "m \<le> se" "holds loc S m se ts" by blast
      then have "holds loc S (m - 1) se (Any # ts)" using holds_Any [OF _ S(2), of "m - 1" loc ts] by simp
      then show "\<exists>m. n \<le> m \<and> m \<le> se \<and> holds loc S m se (Any # ts)" using m by (intro exI [of _ "m - 1"]) auto
    qed
    have "\<exists>m. n + 1 \<le> m \<and> m \<le> se \<and> holds loc S m se ts" if "ts = []" "n < se"
      using that holds_Nil [of se se S loc] S(2) by (intro exI [of _ se]) simp
    then show ?thesis using m more [of "n + 1"] Any Cons.prems(2) shift by (auto simp: res_def)
  next
    case (Ext xc alts)
    then show ?thesis using Cons.prems(2) by simp
  next
    case (Char a)
    have sub: "call m se p pe flags = res (holds loc S m se (t # ts))" if "m \<le> se" for m
      using Cons.prems(7) S(2) that
      by (intro soundD [OF call Cons.prems(1,4,5) that S(2) _ Cons.prems(6)] shorter_budget [OF _ k]) simp_all
    have "c_at P p \<noteq> CHR ''?''" "c_at P p \<noteq> CHR ''*''" "c_at P p = CHR ''!'' \<longrightarrow> c_at P (p + 1) \<noteq> CHR ''(''"
      using d Char Cons.prems(1) next_char drop_c_at [of p P] by (cases a; cases "fst a"; auto simp: wf_char_def glob_special_def)+
    from star_match_plain [OF this] have "star_match call loc P S flags se pe p n = star_general call P S flags se pe (c_at P p) (p + 1) n" .
    also have "\<dots> = res (\<exists>m. n \<le> m \<and> m \<le> se \<and> holds loc S m se (t # ts))"
      by (rule star_general_sound [OF flags Cons.prems(1) _ Cons.prems(4,8) S(2)]) (use Char sub in auto)
    finally show ?thesis .
  next
    case (Bracket neg "is")
    have sub: "call m se p pe flags = res (holds loc S m se (t # ts))" if "m \<le> se" for m
      using Cons.prems(7) S(2) that
      by (intro soundD [OF call Cons.prems(1,4,5) that S(2) _ Cons.prems(6)] shorter_budget [OF _ k]) simp_all
    have "c_at P p = CHR ''[''" using d Bracket drop_c_at by fastforce
    then have "c_at P p \<noteq> CHR ''?''" "c_at P p \<noteq> CHR ''*''" "c_at P p = CHR ''!'' \<longrightarrow> c_at P (p + 1) \<noteq> CHR ''(''" by simp_all
    from star_match_plain [OF this] have "star_match call loc P S flags se pe p n = star_general call P S flags se pe (c_at P p) (p + 1) n" .
    also have "\<dots> = res (\<exists>m. n \<le> m \<and> m \<le> se \<and> holds loc S m se (t # ts))"
      by (rule star_general_sound [OF flags Cons.prems(1) _ Cons.prems(4,8) S(2)]) (use Bracket sub in auto)
    finally show ?thesis .
  qed
qed simp

subsection \<open>The loop\<close>

lemma string_at_eq: "c_string S \<Longrightarrow> se \<le> length S \<Longrightarrow> c \<noteq> NUL \<Longrightarrow> string_at S se n = c \<longleftrightarrow> n < se \<and> c_at S n = c"
  by (auto simp: string_at_def)

text \<open>One round, for every part that matches one character: the position behind it, or failure.\<close>

lemma gmatch_step_single:
  assumes flags: "plain_flags flags" and S: "c_string S" "se \<le> length S" and wf: "wf_token flags t"
    and t: "token_lang loc t = {[c] | c. Q c}" "t = Any \<or> (\<exists>a. t = Char a) \<or> (\<exists>neg is. t = Bracket neg is)"
    and d: "drop p P = token_text t @ r" and ends: "ends r" and pe: "p + length (token_text t) \<le> pe"
  shows "gmatch_step call loc P S flags start se pe n p =
    (if n < se \<and> Q (c_at S n) then Inr (p + length (token_text t)) else Inl No_Match)"
proof -
  note f = plain_flags_simps [OF flags]
  have dot: "\<not> leading_dot S flags start se n" using f by (simp add: leading_dot_def)
  have Q: "Q c \<longleftrightarrow> [c] \<in> token_lang loc t" for c using t(1) by simp
  have next_char: "c_at P (p + length (token_text t)) \<noteq> CHR ''(''" using c_at_rest [OF d] ends by (simp add: ends_def)
  from t(2) show ?thesis
  proof (elim disjE exE)
    assume a: "t = Any"
    then have c: "c_at P p = CHR ''?''" using d drop_c_at by fastforce
    show ?thesis using a c next_char string_at_NUL [OF S] Q dot f by (simp add: gmatch_step_def Let_def)
  next
    fix a assume a: "t = Char a"
    then obtain q x where x: "a = (q, x)" "x \<noteq> NUL" "q \<or> x \<notin> glob_special" using wf by (cases a) (auto simp: wf_char_def)
    have same: "string_at S se n = x \<longleftrightarrow> n < se \<and> c_at S n = x" using string_at_eq [OF S x(2)] .
    show ?thesis
    proof (cases q)
      case True
      then have c: "c_at P p = BSLASH" "c_at P (p + 1) = x"
        using d a x drop_c_at [of p P] drop_c_at [of "Suc p" P] by simp_all
      have "p + 1 \<noteq> pe" using pe a x True by simp
      then show ?thesis using a x True c same Q f by (auto simp: gmatch_step_def Let_def)
    next
      case False
      then have c: "c_at P p = x" using d a x drop_c_at [of p P] by simp
      have ne: "x \<noteq> CHR ''?''" "x \<noteq> BSLASH" "x \<noteq> CHR ''*''" "x \<noteq> CHR ''[''" using x(3) False by (auto simp: glob_special_def)
      have "gmatch_step call loc P S flags start se pe n p = (if x \<noteq> string_at S se n then Inl No_Match else Inr (p + 1))"
        unfolding gmatch_step_def Let_def using next_char a x False ne c by (simp add: f)
      then show ?thesis using a x False same Q by auto
    qed
  next
    fix neg "is" assume a: "t = Bracket neg is"
    have c: "c_at P p = CHR ''[''" "drop (p + 1) P = (if neg then ''!'' else []) @ items_text is @ CHR '']'' # r"
      using d a drop_c_at [of p P] by simp_all
    have b: "brackmatch loc P (p + 1) x flags = (if Q x then B_At (p + length (token_text t)) else B_Fail)" for x
      using brackmatch_items [OF flags _ _ c(2), of loc x] wf a Q by (auto simp: add.assoc)
    have sc: "string_at S se n = (if n < se then c_at S n else NUL)" by (simp add: string_at_def)
    have "c_at S n \<noteq> NUL" if "n < se" using that S by (simp add: c_at_NUL_iff)
    then show ?thesis using c(1) b dot f sc by (auto simp: gmatch_step_def Let_def)
  qed
qed

lemma gmatch_loop_sound:
  assumes flags: "plain_flags flags" and call: "sound loc P S flags k call" and S: "c_string S" "se \<le> length S"
  shows "wf_glob flags ts \<Longrightarrow> drop p P = glob_text ts @ r \<Longrightarrow> ends r \<Longrightarrow> pe = p + length (glob_text ts) \<Longrightarrow> n \<le> se \<Longrightarrow>
    length (glob_text ts) * (length S + 1) + (se - n) \<le> k \<Longrightarrow>
    gmatch_loop call loc P S flags start se pe n p = res (holds loc S n se ts)"
proof (induction ts arbitrary: p n)
  case Nil
  then show ?case using plain_flags_simps [OF flags] holds_Nil [OF Nil.prems(5) S(2)]
    by (subst gmatch_loop.simps) (auto simp: res_def)
next
  case (Cons t ts)
  note f = plain_flags_simps [OF flags]
  have d: "drop p P = token_text t @ glob_text ts @ r" using Cons.prems(2) by simp
  let ?p = "p + length (token_text t)"
  have pos: "0 < length (token_text t)" using token_text_nonempty [of t] by simp
  then have lt: "p < pe" using Cons.prems(4) by simp
  have ends: "ends (glob_text ts @ r)" using glob_text_first [of flags ts r] Cons.prems(1,3) by (simp add: ends_def)
  have loop: "gmatch_loop call loc P S flags start se pe n p =
      (case gmatch_step call loc P S flags start se pe n p of
         Inl r \<Rightarrow> r | Inr p \<Rightarrow> gmatch_loop call loc P S flags start se pe (n + 1) p)"
    using lt by (subst gmatch_loop.simps) simp
  have single: ?case
    if "token_lang loc t = {[c] | c. Q c}" "t = Any \<or> (\<exists>a. t = Char a) \<or> (\<exists>neg is. t = Bracket neg is)" for Q
  proof -
    have step: "gmatch_step call loc P S flags start se pe n p = (if n < se \<and> Q (c_at S n) then Inr ?p else Inl No_Match)"
      using Cons.prems(1,4) by (intro gmatch_step_single [OF flags S _ that d ends]) auto
    have "length (glob_text ts) * (length S + 1) + (se - (n + 1)) \<le> k"
      using Cons.prems(6) by (simp add: add_mult_distrib)
    then have "gmatch_loop call loc P S flags start se pe (n + 1) ?p = res (holds loc S (n + 1) se ts)" if "n < se"
      using that Cons.prems by (intro Cons.IH [OF _ drop_append_at [OF d]]) auto
    then show ?thesis using loop step holds_single [OF that(1) Cons.prems(5) S(2)] by (auto simp: res_def)
  qed
  show ?case
  proof (cases t)
    case (Char a)
    then show ?thesis using single [of "\<lambda>c. c = snd a"] by simp
  next
    case Any
    then show ?thesis using single [of "\<lambda>c. True"] by simp
  next
    case (Bracket neg "is")
    then show ?thesis using single [of "\<lambda>c. (\<exists>i\<in>set is. item_has loc c i) \<noteq> neg"] by simp
  next
    case Star
    then have c: "c_at P p = CHR ''*''" using d drop_c_at by fastforce
    have next_char: "c_at P (p + 1) \<noteq> CHR ''(''" using c_at_rest [OF d] ends Star by (simp add: ends_def)
    have dot: "\<not> leading_dot S flags start se n" using f by (simp add: leading_dot_def)
    have step: "gmatch_step call loc P S flags start se pe n p =
        Inl (if p + 1 = pe then Match else star_match call loc P S flags se pe (p + 1) n)"
      using c next_char dot f by (simp add: gmatch_step_def Let_def)
    show ?thesis
    proof (cases "ts = []")
      case True
      have "holds loc S n se (Star # ts)" using True holds_Star [OF Cons.prems(5) S(2)] holds_Nil [of se se S loc] S(2) Cons.prems(5) by auto
      then show ?thesis using loop step True Cons.prems(4) Star by simp
    next
      case False
      have "star_match call loc P S flags se pe (p + 1) n = res (\<exists>m. n \<le> m \<and> m \<le> se \<and> holds loc S m se ts)"
        using Cons.prems Star drop_append_at [OF d] False
        by (intro star_match_sound [OF flags call S Cons.prems(6)]) auto
      then show ?thesis using loop step False Cons.prems(4) Star holds_Star [OF Cons.prems(5) S(2)] by simp
    qed
  next
    case (Ext xc alts)
    then have "c_at P p = xc" "c_at P (p + 1) = CHR ''(''" "xc \<in> set ''+*?@!''" "flags = FNM_EXTMATCH"
      using d Cons.prems(1) drop_c_at [of p P] drop_c_at [of "Suc p" P] by auto
    then have step: "gmatch_step call loc P S flags start se pe n p = Inl (extmatch call loc P S xc n se (p + 1) pe flags)"
      using f by (simp add: gmatch_step_def Let_def)
    have "extmatch call loc P S xc n se (p + 1) pe flags = res (holds loc S n se (t # ts))"
      unfolding Ext by (rule extmatch_sound [OF flags call Cons.prems(1,2) [unfolded Ext] Cons.prems(3,5) S(2) Cons.prems(4,6) [unfolded Ext]])
    then show ?thesis using loop step by simp
  qed
qed

lemma gmatch_sound:
  assumes "plain_flags flags" and "c_string S"
  shows "sound loc P S flags k (gmatch k loc P S)"
proof (induction k)
  case (Suc k)
  show ?case
    unfolding sound_def gmatch.simps(2)
    by (intro allI impI gmatch_loop_sound [OF assms(1) Suc assms(2)]) auto
qed (simp add: sound_def)

lemma strmatch_language:
  assumes "wf_glob flags ts" and "plain_flags flags" "c_string str"
  shows "strmatch loc (glob_text ts) str flags = (if str \<in> glob_lang loc ts then Match else No_Match)"
proof -
  have "strmatch loc (glob_text ts) str flags = res (holds loc str 0 (length str) ts)"
    unfolding strmatch_def
    by (rule soundD [OF gmatch_sound [OF assms(2,3)] assms(1), of 0 "glob_text ts" "[]"])
       (simp_all add: ends_def glob_fuel_def)
  then show ?thesis by (simp add: res_def holds_def between_def)
qed

section \<open>Properties\<close>

text \<open>
  C6. The matcher computes the language of the pattern: on the text of any pattern of wildcards, bracket
  expressions and extended patterns nested to any depth, \<^verbatim>\<open>strmatch\<close> matches exactly the strings that the
  pattern denotes, in every collation.
\<close>

theorem strmatch_denotes:
  assumes "wf_glob flags ts" and "plain_flags flags" "c_string str"
  shows "strmatch loc (glob_text ts) str flags = (if str \<in> glob_lang loc ts then Match else No_Match)"
  by (rule strmatch_language [OF assms])

text \<open>The pattern \<open>*.+(c|[[:digit:]])\<close>.\<close>

definition sample_glob :: "gtoken list" where
  "sample_glob = [Star, Char (False, CHR ''.''), Ext (CHR ''+'') [[Char (False, CHR ''c'')], [Bracket False [Class ''digit'']]]]"

lemma sample_glob_has: "''a.c2'' \<in> glob_lang loc sample_glob"
proof -
  let ?A = "{w. w = ''c'' \<or> (\<exists>c. w = [c] \<and> is_digit c)}"
  have "''2'' \<in> repeats ?A" by (rule repeats_single) (simp add: is_digit_def)
  then have "''c2'' \<in> {u @ v | u v. u \<in> ?A \<and> v \<in> repeats ?A}"
    by (intro CollectI exI [of _ "''c''"] exI [of _ "''2''"]) simp
  then have ext: "''c2'' \<in> token_lang loc (Ext (CHR ''+'') [[Char (False, CHR ''c'')], [Bracket False [Class ''digit'']]])"
    by (simp add: ext_lang_def item_has_def is_cclass_def Let_def)
  have "''c2'' \<in> glob_lang loc [Ext (CHR ''+'') [[Char (False, CHR ''c'')], [Bracket False [Class ''digit'']]]]"
    unfolding glob_lang.simps using ext by (intro CollectI exI [of _ "''c2''"] exI [of _ "[]"]) simp
  then have "''.c2'' \<in> glob_lang loc (tl sample_glob)" unfolding sample_glob_def by simp
  then show ?thesis unfolding sample_glob_def glob_lang.simps(2) [of loc Star]
    by (intro CollectI exI [of _ "''a''"] exI [of _ "''.c2''"]) simp
qed

theorem strmatch_denotes_witness:
  "glob_text sample_glob = ''*.+(c|[[:digit:]])'' \<and>
   (\<forall>loc. strmatch loc ''*.+(c|[[:digit:]])'' ''a.c2'' FNM_EXTMATCH = Match)"
proof
  show written: "glob_text sample_glob = ''*.+(c|[[:digit:]])''" by (simp add: sample_glob_def items_text_def)
  have "wf_glob FNM_EXTMATCH sample_glob" by code_simp
  then show "\<forall>loc. strmatch loc ''*.+(c|[[:digit:]])'' ''a.c2'' FNM_EXTMATCH = Match"
    using strmatch_denotes [of FNM_EXTMATCH sample_glob "''a.c2''"] written sample_glob_has by (simp add: plain_flags_def)
qed

section \<open>Where the matcher departs from the language\<close>

lemma flag_numbers:
  "flag 0 f = False" "flag 4 FNM_EXTMATCH = False" "flag 4 FNM_CASEFOLD = False"
  by (simp_all add: flag_def FNM_EXTMATCH_def FNM_CASEFOLD_def)

lemma collequiv_same: "collequiv loc c1 c2 \<longleftrightarrow> c1 = c2"
  by (auto simp: collequiv_def rangecmp_def Let_def)

lemma first_or_match: "(\<And>i. i \<in> set is \<Longrightarrow> f i = res (Q i)) \<Longrightarrow> or_match (first_match f is) Match = Match"
  by (simp add: res_first [of "is" f Q] or_match_def res_def)

lemma star_optional_matches:
  assumes "wf_glob FNM_EXTMATCH (Ext (CHR ''?'') alts # ts)" and "c_string str"
  shows "strmatch loc (CHR ''*'' # glob_text (Ext (CHR ''?'') alts # ts)) str FNM_EXTMATCH = Match"
proof -
  let ?ts = "Ext (CHR ''?'') alts # ts"
  define P where "P = CHR ''*'' # glob_text ?ts"
  define pe where "pe = length P"
  obtain k where k: "glob_fuel P str = Suc k" by (cases "glob_fuel P str") (simp_all add: glob_fuel_def)
  have budget: "length (glob_text ?ts) * (length str + 1) + (length str - n) \<le> k" for n
    using k by (simp add: glob_fuel_def P_def)
  define call where "call = gmatch k loc P str"
  have flags: "plain_flags FNM_EXTMATCH" by (simp add: plain_flags_def)
  note f = plain_flags_simps [OF flags]
  have sound: "sound loc P str FNM_EXTMATCH k call" unfolding call_def by (rule gmatch_sound [OF flags assms(2)])
  have d: "drop 1 P = glob_text ?ts @ []" "pe = 1 + length (glob_text ?ts)" by (simp_all add: P_def pe_def)
  have c: "c_at P 0 = CHR ''*''" "c_at P (Suc 0) = CHR ''?''" "c_at P 2 = CHR ''(''" by (simp_all add: P_def c_at_def)
  have pe: "1 < pe" by (simp add: P_def pe_def)
  have ext: "extmatch call loc P str (CHR ''?'') n (length str) 2 pe FNM_EXTMATCH = res (holds loc str n (length str) ?ts)"
    if "n < length str" for n
    using extmatch_sound [OF flags sound assms(1) d(1) _ _ _ d(2) budget, of n] that
    by (simp add: ends_def numeral_2_eq_2)
  have "star_step call loc P str FNM_EXTMATCH (length str) pe (CHR ''?'') 2 0 = Inl Match"
    using c f first_or_match [of "[0..<length str]", OF ext] by (simp add: star_step_def Let_def)
  then have "star_match call loc P str FNM_EXTMATCH (length str) pe 1 0 = Match"
    using c by (simp add: star_match_def star_loop.simps numeral_2_eq_2)
  then have "gmatch_step call loc P str FNM_EXTMATCH 0 (length str) pe 0 0 = Inl Match"
    using c f by (simp add: gmatch_step_def Let_def leading_dot_def)
  then have "gmatch (Suc k) loc P str 0 (length str) 0 pe FNM_EXTMATCH = Match"
    using pe by (simp add: gmatch_loop.simps call_def)
  then show ?thesis unfolding strmatch_def P_def [symmetric] k pe_def .
qed

lemma equivalence_in_negation:
  "strmatch loc ''[![=a=]]'' ''b'' 0 = No_Match"
proof -
  let ?P = "''[![=a=]]''"
  have len: "length ?P = 8" by simp
  have at: "c_at ?P 0 = CHR ''[''" "c_at ?P (Suc 0) = CHR ''!''" "c_at ?P 2 = CHR ''[''" "c_at ?P 3 = CHR ''=''" "c_at ?P 4 = CHR ''a''"
    "c_at ?P 5 = CHR ''=''" "c_at ?P 6 = CHR '']''" "c_at ?P 7 = CHR '']''" "c_at ?P 8 = NUL"
    by (simp_all add: c_at_def)
  have item1: "bracket_item loc ?P 0 1 True (CHR ''b'') (CHR ''['') 3 = Go_On (CHR '']'') 8"
    by (simp add: bracket_item_def equivalence_item_def at collequiv_same FOLD_def flag_numbers)
  have item2: "bracket_item loc ?P 0 1 True (CHR ''b'') (CHR '']'') 8 = Go_On NUL 9"
    by (simp add: bracket_item_def plain_item_def compare_item_def at BSLASH_def FOLD_def flag_numbers rangecmp_same rangecmp_0)
  have "bracket_loop loc ?P 0 1 True (CHR ''b'') (CHR ''['') 3 = B_Fail"
    by (simp only: bracket_loop.simps item1 item2 bracket_item_NUL item_step.case) (simp add: unclosed_def)
  then have "brackmatch loc ?P 1 (CHR ''b'') 0 = B_Fail"
    by (simp add: brackmatch_def at FOLD_def flag_numbers numeral_3_eq_3)
  then have "gmatch_step call loc ?P ''b'' 0 0 1 8 0 0 = Inl No_Match" for call
    by (simp add: gmatch_step_def Let_def at flag_numbers FOLD_def string_at_def leading_dot_def BSLASH_def)
  then have "gmatch_loop call loc ?P ''b'' 0 0 1 8 0 0 = No_Match" for call
    by (simp add: gmatch_loop.simps)
  moreover obtain k where "glob_fuel ?P ''b'' = Suc k" by (simp add: glob_fuel_def)
  moreover have "length ?P = 8" "length ''b'' = 1" by simp_all
  ultimately show ?thesis by (simp only: strmatch_def gmatch.simps)
qed

lemma star_alone_matches: "strmatch loc ''*'' str FNM_PERIOD = Match"
proof -
  have "gmatch_step call loc ''*'' str FNM_PERIOD 0 (length str) 1 0 0 = Inl Match" for call
    by (simp add: gmatch_step_def FOLD_def flag_numbers FNM_PERIOD_def c_at_def BSLASH_def)
  then have "gmatch_loop call loc ''*'' str FNM_PERIOD 0 (length str) 1 0 0 = Match" for call
    by (simp add: gmatch_loop.simps)
  moreover obtain k where "glob_fuel ''*'' str = Suc k" by (simp add: glob_fuel_def)
  ultimately show ?thesis by (simp add: strmatch_def)
qed

text \<open>
  Samples of where the matcher departs from that meaning: behind \<open>*\<close>, an optional group makes the pattern match every
  string, whatever follows the group; \<open>*\<close> alone matches a leading dot under \<^verbatim>\<open>FNM_PERIOD\<close>; a \<open>*\<close> passes
  slashes under \<^verbatim>\<open>FNM_PATHNAME\<close>; an equivalence class at the end of a negated bracket hides its closing
  bracket; an unfinished inner bracket is read past the end of the pattern.
\<close>

lemma strmatch_divergences:
  "strmatch loc ''*?(a)b'' ''xyz'' FNM_EXTMATCH = Match \<and> strmatch loc ''*'' ''.profile'' FNM_PERIOD = Match \<and>
   strmatch loc ''*b'' ''a/b'' FNM_PATHNAME = Match \<and> strmatch loc ''[![=a=]]'' ''b'' 0 = No_Match \<and>
   strmatch loc ''[[='' ''b'' 0 = Outside \<and> strmatch loc ''[[.a'' ''b'' 0 = Outside"
proof (intro conjI)
  have "wf_glob FNM_EXTMATCH [Ext (CHR ''?'') [[Char (False, CHR ''a'')]], Char (False, CHR ''b'')]" "c_string ''xyz''"
    by code_simp+
  from star_optional_matches [OF this] show "strmatch loc ''*?(a)b'' ''xyz'' FNM_EXTMATCH = Match" by simp
  show "strmatch loc ''*'' ''.profile'' FNM_PERIOD = Match"
    by (rule star_alone_matches)
  show "strmatch loc ''[![=a=]]'' ''b'' 0 = No_Match" by (rule equivalence_in_negation)
qed (code_simp, code_simp, code_simp)


end
