(* ===== verification/Pattern_Expansion.thy ===== *)
theory Pattern_Expansion
  imports Glob_Language Indexed_Array
begin

text \<open>
  The expansions that use patterns: removal \<^verbatim>\<open>${v#p}\<close> and substitution \<^verbatim>\<open>${v/p/r}\<close> of \<^verbatim>\<open>subst.c\<close>, with the
  shortcuts of \<^verbatim>\<open>lib/glob/gmisc.c\<close> and the quoting of patterns of \<^verbatim>\<open>pathexp.c\<close>. Characters are bytes. A
  pointer into the string is an index; reading or writing outside it is an outcome.
\<close>

section \<open>What a pattern may match (gmisc.c)\<close>

definition extglob_pattern_p :: "cstring \<Rightarrow> bool" where
  "extglob_pattern_p pat \<longleftrightarrow> c_at pat 0 \<in> set ''*+!@'' \<and> c_at pat 1 = CHR ''(''"

text \<open>\<open>string\<close> is the rest of the string from a position on.\<close>

definition match_pattern_char :: "cstring \<Rightarrow> cstring \<Rightarrow> bool" where
  "match_pattern_char pat string =
     (let c = c_at pat 0; d = c_at pat 1; s = c_at string 0
      in if s = NUL then False
         else if c = BSLASH then s = d
         else if c = CHR ''?'' then (if d = CHR ''('' then True else s \<noteq> NUL)
         else if c = CHR ''*'' then True
         else if c \<in> set ''+!@'' then (if d = CHR ''('' then True else s = c)
         else if c = CHR ''['' then s \<noteq> NUL
         else s = c)"

text \<open>
  The scan of a bracket expression in \<^verbatim>\<open>umatchlen\<close>: one round of the loop, for the character \<open>c\<close> before
  \<open>pat\<close>. \<open>Inl\<close> is \<^verbatim>\<open>bad_bracket\<close> with the pattern used up. The loop returns by how much \<^verbatim>\<open>matlen\<close> grows
  and what follows.
\<close>

record bracket_scan =
  bracklen :: nat
  in_cclass :: bool
  in_collsym :: bool
  in_equiv :: bool

definition longer :: "bracket_scan \<Rightarrow> bracket_scan" where
  "longer st = st\<lparr>bracklen := bracklen st + 1\<rparr>"

definition bracket_round :: "char \<Rightarrow> cstring \<Rightarrow> bracket_scan \<Rightarrow> nat + cstring \<times> bracket_scan" where
  "bracket_round c pat st =
     (let d = c_at pat 0; st1 = longer st
      in if c = NUL then Inl (bracklen st)
         else if c = BSLASH then (if d = NUL \<or> c_at pat 1 = NUL then Inl (bracklen st1) else Inr (tl pat, st1))
         else if c = CHR ''['' \<and> d = CHR '':'' then Inr (tl pat, st1\<lparr>in_cclass := True\<rparr>)
         else if in_cclass st \<and> c = CHR '':'' \<and> d = CHR '']'' then Inr (tl pat, st1\<lparr>in_cclass := False\<rparr>)
         else if c = CHR ''['' \<and> d = CHR ''.'' then
           (if c_at pat 1 = CHR '']'' then Inr (tl (tl pat), longer st1\<lparr>in_collsym := True\<rparr>)
            else Inr (tl pat, st1\<lparr>in_collsym := True\<rparr>))
         else if in_collsym st \<and> c = CHR ''.'' \<and> d = CHR '']'' then Inr (tl pat, st1\<lparr>in_collsym := False\<rparr>)
         else if c = CHR ''['' \<and> d = CHR ''='' then
           (if c_at pat 1 = CHR '']'' then Inr (tl (tl pat), longer st1\<lparr>in_equiv := True\<rparr>)
            else Inr (tl pat, st1\<lparr>in_equiv := True\<rparr>))
         else if in_equiv st \<and> c = CHR ''='' \<and> d = CHR '']'' then Inr (tl pat, st1\<lparr>in_equiv := False\<rparr>)
         else Inr (pat, st1))"

lemma bracket_round_shorter: "bracket_round c pat st = Inr (pat', st') \<Longrightarrow> c \<noteq> NUL \<and> length pat' \<le> length pat"
  by (auto simp: bracket_round_def Let_def split: if_splits)

function bracket_end :: "char \<Rightarrow> cstring \<Rightarrow> bracket_scan \<Rightarrow> nat \<times> cstring" where
  "bracket_end c pat st =
     (case bracket_round c pat st of
        Inl n \<Rightarrow> (n, [])
      | Inr (pat, st) \<Rightarrow> if c_at pat 0 = CHR '']'' then (1, tl pat) else bracket_end (c_at pat 0) (tl pat) st)"
  by pat_completeness auto
termination
proof (relation "measure (\<lambda>(c, pat, st). if c = NUL then 0 else 1 + length pat)", simp)
  fix c pat st x pat' st'
  assume "bracket_round c pat st = Inr x" "(pat', st') = x"
  then have "c \<noteq> NUL" "length pat' \<le> length pat" using bracket_round_shorter by blast+
  then show "((c_at pat' 0, tl pat', st'), (c, pat, st)) \<in> measure (\<lambda>(c, pat, st). if c = NUL then 0 else 1 + length pat)"
    by (cases pat') auto
qed

declare bracket_end.simps [simp del]

lemma bracket_end_shorter: "bracket_end c pat st = (n, pat') \<Longrightarrow> length pat' \<le> length pat"
proof (induction c pat st rule: bracket_end.induct)
  case (1 c pat st)
  show ?case
  proof (cases "bracket_round c pat st")
    case (Inl k)
    then show ?thesis using 1(2) by (subst (asm) bracket_end.simps) simp
  next
    case (Inr x)
    obtain pat1 st1 where x: "x = (pat1, st1)" by fastforce
    have "length pat1 \<le> length pat" using bracket_round_shorter Inr x by blast
    moreover have "pat' = tl pat1 \<or> length pat' \<le> length (tl pat1)"
      using 1(2) 1(1) [OF Inr x [symmetric]] Inr x by (subst (asm) bracket_end.simps) (simp split: if_splits)
    ultimately show ?thesis by auto
  qed
qed

function umatchlen_loop :: "cstring \<Rightarrow> int \<Rightarrow> int" where
  "umatchlen_loop [] matlen = matlen"
| "umatchlen_loop (c # pat) matlen =
     (if c = BSLASH then (if pat = [] then matlen + 1 else umatchlen_loop (tl pat) (matlen + 1))
      else if c = CHR ''*'' then - 1
      else if c \<in> set ''?+!@'' \<and> c_at pat 0 = CHR ''('' then - 1
      else if c = CHR ''['' then
        (case bracket_end (c_at pat 0) (tl pat) \<lparr>bracklen = 1, in_cclass = False, in_collsym = False, in_equiv = False\<rparr> of
           (n, rest) \<Rightarrow> umatchlen_loop rest (matlen + int n))
      else umatchlen_loop pat (matlen + 1))"
  by pat_completeness auto
termination by (relation "measure (\<lambda>(pat, matlen). length pat)") (auto dest!: bracket_end_shorter [OF sym])

definition umatchlen :: "cstring \<Rightarrow> int" where
  "umatchlen pat = umatchlen_loop pat 0"

section \<open>Matching parts of a string (subst.c)\<close>

definition MATCH_ANY :: nat where "MATCH_ANY = 0"
definition MATCH_BEG :: nat where "MATCH_BEG = 1"
definition MATCH_END :: nat where "MATCH_END = 2"
definition MATCH_TYPEMASK :: nat where "MATCH_TYPEMASK = 3"
definition MATCH_GLOBREP :: nat where "MATCH_GLOBREP = 0x10"

text \<open>\<^verbatim>\<open>extended_glob\<close> is the option \<^verbatim>\<open>extglob\<close>.\<close>

definition FNMATCH_EXTFLAG :: "bool \<Rightarrow> nat" where
  "FNMATCH_EXTFLAG extended_glob = (if extended_glob then FNM_EXTMATCH else 0)"

text \<open>The boundaries of a match (\<^verbatim>\<open>*sp\<close> and \<^verbatim>\<open>*ep\<close>), the result 0, an access outside the string or the pattern.\<close>

datatype span = Span_At nat nat | No_Span | Span_Outside

text \<open>The pattern \<open>npat\<close>, with a star at both ends.\<close>

definition any_pattern :: "bool \<Rightarrow> cstring \<Rightarrow> cstring" where
  "any_pattern extended_glob pat =
     (let p0 = c_at pat 0; p1 = c_at pat 1; last = c_at pat (length pat - 1);
          group = (p0 = CHR ''*'' \<and> p1 = CHR ''('' \<and> extended_glob)
      in if p0 \<noteq> CHR ''*'' \<or> group \<or> last \<noteq> CHR ''*'' then
           let npat = (if p0 \<noteq> CHR ''*'' \<or> group then ''*'' else []) @ pat
           in if last \<noteq> CHR ''*'' \<or> c_at npat (length npat - 2) = BSLASH then npat @ ''*'' else npat
         else pat)"

text \<open>
  From a start \<open>s\<close>: the ends from \<open>e\<close> down, only one when the length of a match is fixed. Then the
  loops over the starts.
\<close>

function match_ends :: "glob_locale \<Rightarrow> nat \<Rightarrow> cstring \<Rightarrow> cstring \<Rightarrow> bool \<Rightarrow> nat \<Rightarrow> nat \<Rightarrow> span" where
  "match_ends loc flags pat string fixed s e =
     (case strmatch loc pat (between string s e) flags of
        Match \<Rightarrow> Span_At s e
      | No_Match \<Rightarrow> if fixed \<or> e \<le> s then No_Span else match_ends loc flags pat string fixed s (e - 1)
      | _ \<Rightarrow> Span_Outside)"
  by pat_completeness auto
termination by (relation "measure (\<lambda>(loc, flags, pat, string, fixed, s, e). e)") auto

declare match_ends.simps [simp del]

function match_any :: "glob_locale \<Rightarrow> nat \<Rightarrow> cstring \<Rightarrow> cstring \<Rightarrow> int \<Rightarrow> nat \<Rightarrow> span" where
  "match_any loc flags pat string mlen s =
     (if length string < s then No_Span
      else if \<not> match_pattern_char pat (drop s string) then match_any loc flags pat string mlen (s + 1)
      else
        let e = (if mlen = - 1 then length string else s + nat mlen)
        in if length string < e then No_Span
           else case match_ends loc flags pat string (mlen \<noteq> - 1) s e of
                  No_Span \<Rightarrow> match_any loc flags pat string mlen (s + 1)
                | r \<Rightarrow> r)"
  by pat_completeness auto
termination by (relation "measure (\<lambda>(loc, flags, pat, string, mlen, s). length string + 1 - s)") auto

declare match_any.simps [simp del]

function match_end :: "glob_locale \<Rightarrow> nat \<Rightarrow> cstring \<Rightarrow> cstring \<Rightarrow> bool \<Rightarrow> nat \<Rightarrow> span" where
  "match_end loc flags pat string fixed s =
     (if length string < s then No_Span
      else
        case strmatch loc pat (drop s string) flags of
          Match \<Rightarrow> Span_At s (length string)
        | No_Match \<Rightarrow> if fixed then No_Span else match_end loc flags pat string fixed (s + 1)
        | _ \<Rightarrow> Span_Outside)"
  by pat_completeness auto
termination by (relation "measure (\<lambda>(loc, flags, pat, string, fixed, s). length string + 1 - s)") auto

declare match_end.simps [simp del]

definition match_upattern :: "glob_locale \<Rightarrow> bool \<Rightarrow> cstring \<Rightarrow> cstring \<Rightarrow> nat \<Rightarrow> span" where
  "match_upattern loc extended_glob string pat mtype =
     (let flags = FNMATCH_EXTFLAG extended_glob; len = length string; mlen = umatchlen pat; fixed = (mlen \<noteq> - 1)
      in case strmatch loc (any_pattern extended_glob pat) string flags of
           Match \<Rightarrow>
             if mtype = MATCH_ANY then match_any loc flags pat string mlen 0
             else if mtype = MATCH_BEG then
               (if \<not> match_pattern_char pat string then No_Span
                else if fixed \<and> len < nat mlen then Span_Outside
                else match_ends loc flags pat string fixed 0 (if fixed then nat mlen else len))
             else if mtype = MATCH_END then
               (if fixed \<and> len < nat mlen then Span_Outside
                else match_end loc flags pat string fixed (if fixed then len - nat mlen else 0))
             else No_Span
         | No_Match \<Rightarrow> No_Span
         | _ \<Rightarrow> Span_Outside)"

definition match_pattern :: "glob_locale \<Rightarrow> bool \<Rightarrow> cstring option \<Rightarrow> cstring option \<Rightarrow> nat \<Rightarrow> span" where
  "match_pattern loc extended_glob string pat mtype =
     (case (string, pat) of
        (Some string, Some pat) \<Rightarrow>
          if string = [] \<or> pat = [] then No_Span else match_upattern loc extended_glob string pat mtype
      | _ \<Rightarrow> No_Span)"

text \<open>A match lies inside the string, which is not empty.\<close>

lemma match_ends_inside: "match_ends loc flags pat string fixed s e = Span_At i j \<Longrightarrow> s \<le> e \<Longrightarrow> i = s \<and> s \<le> j \<and> j \<le> e"
proof (induction loc flags pat string fixed s e rule: match_ends.induct)
  case (1 loc flags pat string fixed s e)
  show ?case
    using 1(2,3) by (subst (asm) match_ends.simps) (auto dest: 1(1) split: match_result.splits if_splits)
qed

lemma match_any_inside: "match_any loc flags pat string mlen s = Span_At i j \<Longrightarrow> i \<le> j \<and> j \<le> length string"
proof (induction loc flags pat string mlen s rule: match_any.induct)
  case (1 loc flags pat string mlen s)
  let ?e = "if mlen = - 1 then length string else s + nat mlen"
  let ?r = "match_ends loc flags pat string (mlen \<noteq> - 1) s ?e"
  have later: "match_any loc flags pat string mlen (s + 1) = Span_At i j \<Longrightarrow> i \<le> j \<and> j \<le> length string"
    if "\<not> length string < s" "match_pattern_char pat (drop s string) \<Longrightarrow> \<not> length string < ?e \<and> ?r = No_Span"
    using 1(1) [OF that(1)] 1(2) [OF that(1) _ refl] that(2) by blast
  have here: "?r = Span_At i j \<Longrightarrow> \<not> length string < ?e \<Longrightarrow> \<not> length string < s \<Longrightarrow> i \<le> j \<and> j \<le> length string"
    using match_ends_inside [of loc flags pat string "mlen \<noteq> - 1" s ?e i j] by (auto split: if_splits)
  show ?case
    using 1(3) later here
    by (subst (asm) match_any.simps) (simp add: Let_def split: if_split_asm span.split_asm)
qed

lemma match_end_inside: "match_end loc flags pat string fixed s = Span_At i j \<Longrightarrow> i \<le> j \<and> j = length string"
proof (induction loc flags pat string fixed s rule: match_end.induct)
  case (1 loc flags pat string fixed s)
  show ?case
    using 1(2) by (subst (asm) match_end.simps) (auto dest: 1(1) split: match_result.splits if_splits)
qed

lemma match_upattern_inside: "match_upattern loc eg string pat mtype = Span_At i j \<Longrightarrow> i \<le> j \<and> j \<le> length string"
  by (auto simp: match_upattern_def Let_def dest: match_ends_inside match_any_inside match_end_inside
      split: match_result.splits if_splits)

lemma match_pattern_inside:
  "match_pattern loc eg (Some string) pat mtype = Span_At i j \<Longrightarrow> i \<le> j \<and> j \<le> length string \<and> string \<noteq> []"
  by (auto simp: match_pattern_def dest: match_upattern_inside split: option.splits if_splits)

section \<open>Pattern removal\<close>

definition RP_LONG_LEFT :: nat where "RP_LONG_LEFT = 1"
definition RP_SHORT_LEFT :: nat where "RP_SHORT_LEFT = 2"
definition RP_LONG_RIGHT :: nat where "RP_LONG_RIGHT = 3"
definition RP_SHORT_RIGHT :: nat where "RP_SHORT_RIGHT = 4"

text \<open>
  The first of the positions \<open>ps\<close> at which the part \<open>part p\<close> of the parameter matches, and what is kept
  there; \<open>rest\<close> without a match. \<open>None\<close>: a read outside the pattern.
\<close>

fun remove_at :: "glob_locale \<Rightarrow> nat \<Rightarrow> cstring \<Rightarrow> (nat \<Rightarrow> cstring) \<Rightarrow> (nat \<Rightarrow> cstring) \<Rightarrow> cstring \<Rightarrow> nat list \<Rightarrow> cstring option" where
  "remove_at loc flags pattern part kept param [] = Some param"
| "remove_at loc flags pattern part kept param (p # ps) =
     (case strmatch loc pattern (part p) flags of
        No_Match \<Rightarrow> remove_at loc flags pattern part kept param ps
      | Match \<Rightarrow> Some (kept p)
      | _ \<Rightarrow> None)"

definition remove_upattern :: "glob_locale \<Rightarrow> bool \<Rightarrow> cstring \<Rightarrow> cstring \<Rightarrow> nat \<Rightarrow> cstring option" where
  "remove_upattern loc extended_glob param pattern op =
     (let ends = [0..<length param + 1];
          left = remove_at loc (FNMATCH_EXTFLAG extended_glob) pattern (\<lambda>p. take p param) (\<lambda>p. drop p param) param;
          right = remove_at loc (FNMATCH_EXTFLAG extended_glob) pattern (\<lambda>p. drop p param) (\<lambda>p. take p param) param
      in if op = RP_LONG_LEFT then left (rev ends)
         else if op = RP_SHORT_LEFT then left ends
         else if op = RP_LONG_RIGHT then right ends
         else if op = RP_SHORT_RIGHT then right (rev ends)
         else Some param)"

text \<open>The outer option is a read outside the pattern, the inner one the null pointer.\<close>

definition remove_pattern ::
  "glob_locale \<Rightarrow> bool \<Rightarrow> cstring option \<Rightarrow> cstring option \<Rightarrow> nat \<Rightarrow> cstring option option" where
  "remove_pattern loc extended_glob param pattern op =
     (case param of
        None \<Rightarrow> Some None
      | Some param \<Rightarrow>
          (case pattern of
             None \<Rightarrow> Some (Some param)
           | Some pattern \<Rightarrow>
               if param = [] \<or> pattern = [] then Some (Some param)
               else map_option Some (remove_upattern loc extended_glob param pattern op)))"

definition getpatspec :: "char \<Rightarrow> cstring \<Rightarrow> nat" where
  "getpatspec c value =
     (if c = CHR ''#'' then (if c_at value 0 = CHR ''#'' then RP_LONG_LEFT else RP_SHORT_LEFT)
      else (if c_at value 0 = CHR ''%'' then RP_LONG_RIGHT else RP_SHORT_RIGHT))"

text \<open>The words of a list, each with the pattern removed, joined like the positional parameters.\<close>

fun remove_words :: "glob_locale \<Rightarrow> bool \<Rightarrow> word_list \<Rightarrow> cstring option \<Rightarrow> nat \<Rightarrow> word_list option" where
  "remove_words loc extended_glob [] pattern patspec = Some []"
| "remove_words loc extended_glob (w # ws) pattern patspec =
     do {
       tword \<leftarrow> remove_pattern loc extended_glob (Some (word w)) pattern patspec;
       ws' \<leftarrow> remove_words loc extended_glob ws pattern patspec;
       Some (\<lparr>word = (case tword of None \<Rightarrow> [] | Some t \<Rightarrow> t), wflags = 0\<rparr> # ws')
     }"

definition list_remove_pattern ::
  "glob_locale \<Rightarrow> bool \<Rightarrow> ifs_state \<Rightarrow> word_list \<Rightarrow> cstring option \<Rightarrow> nat \<Rightarrow> char \<Rightarrow> nat \<Rightarrow> cstring option option" where
  "list_remove_pattern loc extended_glob ifs list pattern patspec itype quoted =
     map_option (\<lambda>l. string_list_pos_params ifs itype l quoted) (remove_words loc extended_glob list pattern patspec)"

text \<open>\<open>args\<close> are the positional parameters, \<^verbatim>\<open>list_rest_of_args ()\<close>.\<close>

definition parameter_list_remove_pattern ::
  "glob_locale \<Rightarrow> bool \<Rightarrow> ifs_state \<Rightarrow> word_list \<Rightarrow> char \<Rightarrow> cstring option \<Rightarrow> nat \<Rightarrow> nat \<Rightarrow> cstring option option" where
  "parameter_list_remove_pattern loc extended_glob ifs args itype pattern patspec quoted =
     (if args = [] then Some None
      else list_remove_pattern loc extended_glob ifs args pattern patspec itype quoted)"

section \<open>Pattern substitution\<close>

text \<open>
  The loop of \<^verbatim>\<open>pat_subst\<close>; \<open>ret\<close> is the output up to \<open>rptr\<close>. Behind an empty match one character is
  copied.
\<close>

function subst_loop ::
  "glob_locale \<Rightarrow> bool \<Rightarrow> cstring option \<Rightarrow> cstring \<Rightarrow> nat \<Rightarrow> cstring \<Rightarrow> cstring \<Rightarrow> cstring option" where
  "subst_loop loc extended_glob pat rep mflags ret str =
     (case match_pattern loc extended_glob (Some str) pat (mflags AND MATCH_TYPEMASK) of
        No_Span \<Rightarrow> Some (ret @ str)
      | Span_Outside \<Rightarrow> None
      | Span_At s e \<Rightarrow>
          let ret = ret @ take s str @ rep; rest = drop e str
          in if mflags AND MATCH_GLOBREP = 0 \<or> mflags AND MATCH_TYPEMASK \<noteq> MATCH_ANY then Some (ret @ rest)
             else if s = e then
               (if rest = [] then None else subst_loop loc extended_glob pat rep mflags (ret @ [hd rest]) (tl rest))
             else subst_loop loc extended_glob pat rep mflags ret rest)"
  by pat_completeness auto
termination
  by (relation "measure (\<lambda>(loc, eg, pat, rep, mflags, ret, str). length str)") (auto dest!: match_pattern_inside)

declare subst_loop.simps [simp del]

definition pat_subst ::
  "glob_locale \<Rightarrow> bool \<Rightarrow> cstring option \<Rightarrow> cstring option \<Rightarrow> cstring option \<Rightarrow> nat \<Rightarrow> cstring option" where
  "pat_subst loc extended_glob string pat rep mflags =
     (case string of
        None \<Rightarrow> Some []
      | Some string \<Rightarrow>
          let mtype = mflags AND MATCH_TYPEMASK; rep = (case rep of None \<Rightarrow> [] | Some r \<Rightarrow> r)
          in if (pat = None \<or> pat = Some []) \<and> (mtype = MATCH_BEG \<or> mtype = MATCH_END)
             then Some (if mtype = MATCH_BEG then rep @ string else string @ rep)
             else subst_loop loc extended_glob pat rep mflags [] string)"

fun subst_words :: "glob_locale \<Rightarrow> bool \<Rightarrow> word_list \<Rightarrow> cstring option \<Rightarrow> cstring option \<Rightarrow> nat \<Rightarrow> word_list option" where
  "subst_words loc extended_glob [] pat rep mflags = Some []"
| "subst_words loc extended_glob (w # ws) pat rep mflags =
     do {
       ret \<leftarrow> pat_subst loc extended_glob (Some (word w)) pat rep mflags;
       ws' \<leftarrow> subst_words loc extended_glob ws pat rep mflags;
       Some (\<lparr>word = ret, wflags = 0\<rparr> # ws')
     }"

definition pos_params_pat_subst ::
  "glob_locale \<Rightarrow> bool \<Rightarrow> ifs_state \<Rightarrow> word_list \<Rightarrow> cstring option \<Rightarrow> cstring option \<Rightarrow> nat \<Rightarrow> cstring option option" where
  "pos_params_pat_subst loc extended_glob ifs args pat rep mflags =
     (if args = [] then Some None
      else
        let pchar = (if mflags AND MATCH_STARSUB = MATCH_STARSUB then CHR ''*'' else CHR ''@'');
            qflags = (if mflags AND MATCH_QUOTED = MATCH_QUOTED then Q_DOUBLE_QUOTES else 0)
        in map_option (\<lambda>l. string_list_pos_params ifs pchar l qflags) (subst_words loc extended_glob args pat rep mflags))"

section \<open>Quoting of patterns (pathexp.c)\<close>

text \<open>\<open>opened\<close> is the number of open brackets.\<close>

function unquoted_glob_loop :: "nat \<Rightarrow> cstring \<Rightarrow> bool" where
  "unquoted_glob_loop opened [] = False"
| "unquoted_glob_loop opened (c # string) =
     (if c = CHR ''?'' \<or> c = CHR ''*'' then True
      else if c = CHR ''['' then unquoted_glob_loop (opened + 1) string
      else if c = CHR '']'' then (if opened \<noteq> 0 then True else unquoted_glob_loop opened string)
      else if c \<in> set ''+@!'' then (if c_at string 0 = CHR ''('' then True else unquoted_glob_loop opened string)
      else if c = CTLESC \<or> c = BSLASH then (if string = [] then False else unquoted_glob_loop opened (tl string))
      else unquoted_glob_loop opened string)"
  by pat_completeness auto
termination by (relation "measure (\<lambda>(opened, string). length string)") (simp_all add: less_Suc_eq_le del: insert_iff set_simps list.set)

definition unquoted_glob_pattern_p :: "cstring \<Rightarrow> bool" where
  "unquoted_glob_pattern_p string = unquoted_glob_loop 0 string"

definition ere_char :: "char \<Rightarrow> bool" where
  "ere_char c \<longleftrightarrow> c \<in> set ''.[()*+?{|^$'' \<or> c = BSLASH"

definition QGLOB_CVTNULL :: nat where "QGLOB_CVTNULL = 0x01"
definition QGLOB_FILENAME :: nat where "QGLOB_FILENAME = 0x02"
definition QGLOB_REGEXP :: nat where "QGLOB_REGEXP = 0x04"

text \<open>
  A bracket expression of a regular expression is copied without its quoting: one round of the loop for
  the character \<open>c\<close> before \<open>s\<close>, with the flags \<open>cclass\<close>, \<open>coll\<close> and \<open>eqclass\<close>. \<open>None\<close> is \<^verbatim>\<open>goto endpat\<close>.
\<close>

definition re_bracket_round ::
  "char \<Rightarrow> cstring \<Rightarrow> bool \<times> bool \<times> bool \<Rightarrow> (cstring \<times> cstring \<times> bool \<times> bool \<times> bool) option" where
  "re_bracket_round c s flags =
     (case flags of (cclass, coll, eqclass) \<Rightarrow>
        let d = c_at s 0; bracket = (c_at s 1 = CHR '']'')
        in if c = NUL then None
           else if c = CTLESC then (if d = NUL then None else Some ([d], tl s, flags))
           else if c = CHR ''['' \<and> d = CHR '':'' then Some ([c, d], tl s, True, coll, eqclass)
           else if cclass \<and> c = CHR '':'' \<and> d = CHR '']'' then Some ([c, d], tl s, False, coll, eqclass)
           else if c = CHR ''['' \<and> d = CHR ''='' then
             (if bracket then Some ([c, d, CHR '']''], tl (tl s), cclass, coll, True)
              else Some ([c, d], tl s, cclass, coll, True))
           else if eqclass \<and> c = CHR ''='' \<and> d = CHR '']'' then Some ([c, d], tl s, cclass, coll, False)
           else if c = CHR ''['' \<and> d = CHR ''.'' then
             (if bracket then Some ([c, d, CHR '']''], tl (tl s), cclass, True, eqclass)
              else Some ([c, d], tl s, cclass, True, eqclass))
           else if coll \<and> c = CHR ''.'' \<and> d = CHR '']'' then Some ([c, d], tl s, cclass, False, eqclass)
           else Some ([c], s, flags))"

lemma re_bracket_round_shorter: "re_bracket_round c s flags = Some (out, s', flags') \<Longrightarrow> c \<noteq> NUL \<and> length s' \<le> length s"
  by (auto simp: re_bracket_round_def Let_def split: if_splits prod.splits)

function re_bracket :: "char \<Rightarrow> cstring \<Rightarrow> bool \<times> bool \<times> bool \<Rightarrow> cstring \<times> cstring option" where
  "re_bracket c s flags =
     (case re_bracket_round c s flags of
        None \<Rightarrow> ([], None)
      | Some (out, s, flags) \<Rightarrow>
          if c_at s 0 = CHR '']'' then (out @ '']'', Some (tl s))
          else case re_bracket (c_at s 0) (tl s) flags of (copied, rest) \<Rightarrow> (out @ copied, rest))"
  by pat_completeness auto
termination
proof (relation "measure (\<lambda>(c, s, flags). if c = NUL then 0 else 1 + length s)", simp)
  fix c s flags x out y s' flags'
  assume "re_bracket_round c s flags = Some x" "(out, y) = x" "(s', flags') = y"
  then have "c \<noteq> NUL" "length s' \<le> length s" using re_bracket_round_shorter by blast+
  then show "((c_at s' 0, tl s', flags'), (c, s, flags)) \<in> measure (\<lambda>(c, s, flags). if c = NUL then 0 else 1 + length s)"
    by (cases s') auto
qed

declare re_bracket.simps [simp del]

lemma re_bracket_shorter: "re_bracket c s flags = (out, Some s') \<Longrightarrow> length s' \<le> length s"
proof (induction c s flags arbitrary: out rule: re_bracket.induct)
  case (1 c s flags)
  obtain out1 s1 flags1 where r: "re_bracket_round c s flags = Some (out1, s1, flags1)"
    using 1(2) by (subst (asm) re_bracket.simps) (auto split: option.splits)
  then have "length s1 \<le> length s" using re_bracket_round_shorter by blast
  moreover have "s' = tl s1 \<or> length s' \<le> length (tl s1)"
    using 1(2) 1(1) [OF r refl refl] r
    by (subst (asm) re_bracket.simps) (auto split: if_split_asm prod.split_asm)
  ultimately show ?case by auto
qed

text \<open>The loop over the rest of \<^verbatim>\<open>pathname\<close> behind the character \<open>prev\<close>.\<close>

function quote_globbing_loop :: "nat \<Rightarrow> char \<Rightarrow> cstring \<Rightarrow> cstring" where
  "quote_globbing_loop qflags prev [] = []"
| "quote_globbing_loop qflags prev (c # s) =
     (let regexp = (qflags AND QGLOB_REGEXP \<noteq> 0); d = c_at s 0
      in if c = CTLESC \<and> d = NUL then [c]
         else if regexp \<and> c = CTLESC \<and> d = CTLESC then CTLESC # quote_globbing_loop qflags CTLESC (tl s)
         else if c = CTLESC then
           (if qflags AND QGLOB_FILENAME \<noteq> 0 \<and> d = CHR ''/'' then quote_globbing_loop qflags c s
            else if d \<noteq> CTLESC \<and> regexp \<and> \<not> ere_char d then quote_globbing_loop qflags c s
            else BSLASH # d # quote_globbing_loop qflags d (tl s))
         else if regexp \<and> prev \<noteq> CTLESC \<and> c = CHR ''['' then
           c # (case re_bracket d (tl s) (False, False, False) of
                  (out, None) \<Rightarrow> out
                | (out, Some rest) \<Rightarrow> out @ quote_globbing_loop qflags (CHR '']'') rest)
         else if c = BSLASH \<and> \<not> regexp then
           BSLASH # (if s = [] then [] else hd s # quote_globbing_loop qflags (hd s) (tl s))
         else c # quote_globbing_loop qflags c s)"
  by pat_completeness auto
termination by (relation "measure (\<lambda>(qflags, prev, s). length s)") (auto dest!: re_bracket_shorter [OF sym])

definition quote_string_for_globbing :: "cstring \<Rightarrow> nat \<Rightarrow> cstring" where
  "quote_string_for_globbing pathname qflags =
     (if qflags AND QGLOB_CVTNULL \<noteq> 0 \<and> QUOTED_NULL pathname then []
      else quote_globbing_loop qflags NUL pathname)"

text \<open>\<^verbatim>\<open>getpattern\<close>; \<open>expand\<close> is \<^verbatim>\<open>expand_string_for_rhs\<close>, which returns a word list.\<close>

definition getpattern :: "(cstring \<Rightarrow> nat \<Rightarrow> word_list) \<Rightarrow> cstring \<Rightarrow> nat \<Rightarrow> cstring option" where
  "getpattern expand value quoted =
     (let l = (if value = [] then []
               else expand value (if quoted AND (Q_HERE_DOCUMENT OR Q_DOUBLE_QUOTES) \<noteq> 0 then Q_PATQUOTE else quoted))
      in map_option (\<lambda>pat. quote_string_for_globbing pat QGLOB_CVTNULL) (string_list l))"

end
