(* ===== verification/Pattern_Meaning.thy ===== *)
theory Pattern_Meaning
  imports Pattern_Expansion
begin

text \<open>
  What the expansions of \<open>Pattern_Expansion\<close> compute, in terms of the language of the pattern
  (\<open>Glob_Language\<close>): removal cuts the longest or shortest matching end, substitution replaces the leftmost
  longest matches, and a quoted pattern stands for itself. The section on the length of a pattern shows
  that the shortcuts of \<^verbatim>\<open>gmisc.c\<close> lose no match.
\<close>

section \<open>The length of a match\<close>

subsection \<open>Scanning a bracket expression\<close>

definition no_inner :: "bracket_scan \<Rightarrow> bool" where
  "no_inner st \<longleftrightarrow> \<not> in_cclass st \<and> \<not> in_collsym st \<and> \<not> in_equiv st"

text \<open>The scan after a round that left \<open>r\<close>.\<close>

definition bracket_more :: "bracket_scan \<Rightarrow> cstring \<Rightarrow> nat \<times> cstring" where
  "bracket_more st r = (if c_at r 0 = CHR '']'' then (1, tl r) else bracket_end (c_at r 0) (tl r) st)"

lemma bracket_end_round: "bracket_round c r st = Inr (r', st') \<Longrightarrow> bracket_end c r st = bracket_more st' r'"
  by (subst bracket_end.simps) (simp add: bracket_more_def)

lemma no_inner_longer [simp]: "no_inner (longer st) = no_inner st"
  by (simp add: no_inner_def longer_def)

lemma bracket_round_plain:
  "no_inner st \<Longrightarrow> c \<notin> {NUL, CHR ''['', BSLASH} \<Longrightarrow> bracket_round c r st = Inr (r, longer st)"
  by (simp add: bracket_round_def no_inner_def)

lemma bracket_round_class:
  "in_cclass st \<Longrightarrow> \<not> in_collsym st \<Longrightarrow> \<not> in_equiv st \<Longrightarrow> c \<notin> {NUL, CHR ''['', CHR '':'', BSLASH} \<Longrightarrow> bracket_round c r st = Inr (r, longer st)"
  by (simp add: bracket_round_def)

text \<open>A part \<open>w\<close> of the bracket expression that leads from one state without inner brackets to another.\<close>

definition scanned :: "cstring \<Rightarrow> bool" where
  "scanned w \<longleftrightarrow> c_at w 0 \<noteq> NUL \<and> c_at w 0 \<noteq> CHR '']'' \<and>
     (\<forall>st r. no_inner st \<longrightarrow> c_at r 0 \<noteq> NUL \<longrightarrow> (\<exists>st'. no_inner st' \<and> bracket_more st (w @ r) = bracket_more st' r))"

lemma scannedE:
  assumes "scanned w" and "no_inner st" "c_at r 0 \<noteq> NUL"
  obtains st' where "no_inner st'" "bracket_more st (w @ r) = bracket_more st' r"
proof -
  have "\<exists>st'. no_inner st' \<and> bracket_more st (w @ r) = bracket_more st' r"
    using assms unfolding scanned_def by simp
  then show ?thesis using that by blast
qed

lemma scanned_append:
  assumes "scanned u" "scanned v"
  shows "scanned (u @ v)"
proof -
  have v: "c_at (v @ r) 0 \<noteq> NUL" for r using assms(2) by (cases v) (simp_all add: scanned_def)
  have "\<exists>st'. no_inner st' \<and> bracket_more st ((u @ v) @ r) = bracket_more st' r" if inner: "no_inner st" "c_at r 0 \<noteq> NUL" for st r
  proof -
    obtain st1 where "no_inner st1" "bracket_more st (u @ v @ r) = bracket_more st1 (v @ r)"
      using scannedE [OF assms(1) inner(1) v] .
    moreover obtain st2 where "no_inner st2" "bracket_more st1 (v @ r) = bracket_more st2 r"
      using scannedE [OF assms(2) \<open>no_inner st1\<close> inner(2)] .
    ultimately show ?thesis by auto
  qed
  moreover have "c_at (u @ v) 0 = c_at u 0" using assms(1) by (cases u) (simp_all add: scanned_def)
  ultimately show ?thesis using assms(1) by (simp add: scanned_def)
qed

lemma scanned_plain: "c \<notin> {NUL, CHR ''['', CHR '']'', BSLASH} \<Longrightarrow> scanned [c]"
  by (auto simp: scanned_def bracket_more_def [of _ "c # _"] bracket_end_round [OF bracket_round_plain]
      intro!: exI [of _ "longer _"])

lemma scanned_quoted: "c \<noteq> NUL \<Longrightarrow> scanned [BSLASH, c]"
  by (auto simp: scanned_def bracket_more_def [of _ "BSLASH # _"] bracket_round_def intro!: exI [of _ "longer _"] bracket_end_round)

lemma scanned_char: "wf_char bracket_special a \<Longrightarrow> scanned (char_text a)"
  by (cases a; cases "fst a") (auto simp: wf_char_def bracket_special_def scanned_quoted intro: scanned_plain)

lemma scanned_name:
  "\<forall>c\<in>set name. c \<notin> {NUL, CHR ''['', CHR '']'', CHR '':'', BSLASH} \<Longrightarrow> in_cclass st \<Longrightarrow> \<not> in_collsym st \<Longrightarrow> \<not> in_equiv st \<Longrightarrow>
   \<exists>st'. no_inner st' \<and> bracket_more st (name @ '':]'' @ r) = bracket_more st' r"
proof (induction name arbitrary: st)
  case Nil
  have "bracket_round (CHR '':'') (CHR '']'' # r) st = Inr (r, longer st\<lparr>in_cclass := False\<rparr>)"
    using Nil by (simp add: bracket_round_def)
  then have "bracket_more st ('':]'' @ r) = bracket_more (longer st\<lparr>in_cclass := False\<rparr>) r"
    by (simp add: bracket_more_def [of _ "CHR '':'' # _"] bracket_end_round)
  moreover have "no_inner (longer st\<lparr>in_cclass := False\<rparr>)" using Nil by (simp add: no_inner_def longer_def)
  ultimately show ?case by auto
next
  case (Cons c name)
  then have "bracket_more st ((c # name) @ '':]'' @ r) = bracket_more (longer st) (name @ '':]'' @ r)"
    by (simp add: bracket_more_def [of _ "c # _"] bracket_end_round [OF bracket_round_class])
  then show ?case using Cons.IH [of "longer st"] Cons.prems by (simp add: longer_def)
qed

lemma scanned_class:
  assumes "name \<in> set class_names"
  shows "scanned (''[:'' @ name @ '':]'')"
proof -
  have "\<exists>st'. no_inner st' \<and> bracket_more st ((''[:'' @ name @ '':]'') @ r) = bracket_more st' r" if "no_inner st" for st r
  proof -
    let ?st = "longer st\<lparr>in_cclass := True\<rparr>"
    have "bracket_round (CHR ''['') (CHR '':'' # name @ '':]'' @ r) st = Inr (name @ '':]'' @ r, ?st)"
      by (simp add: bracket_round_def)
    then have "bracket_more st ((''[:'' @ name @ '':]'') @ r) = bracket_more ?st (name @ '':]'' @ r)"
      by (simp add: bracket_more_def [of _ "CHR ''['' # _"] bracket_end_round)
    moreover have "\<exists>st'. no_inner st' \<and> bracket_more ?st (name @ '':]'' @ r) = bracket_more st' r"
      using class_names_plain [OF assms] that by (intro scanned_name) (auto simp: no_inner_def longer_def)
    ultimately show ?thesis by simp
  qed
  then show ?thesis by (simp add: scanned_def)
qed

lemma scanned_item: "wf_item i \<Longrightarrow> scanned (item_text i)"
proof (cases i)
  case (Span a b)
  assume "wf_item i"
  then have "scanned (char_text a)" "scanned (char_text b)" using Span scanned_char by auto
  moreover have "scanned ''-''" by (rule scanned_plain) simp
  ultimately show ?thesis using scanned_append [of "''-''" "char_text b"] scanned_append [of "char_text a" "''-'' @ char_text b"] Span by simp
next
  case (Class name)
  assume "wf_item i"
  then show ?thesis using scanned_class [of name] Class by simp
qed (simp add: scanned_char)

lemma scanned_items: "list_all wf_item is \<Longrightarrow> is \<noteq> [] \<Longrightarrow> scanned (items_text is)"
proof (induction "is")
  case (Cons i "is")
  then have "scanned (item_text i)" by (simp add: scanned_item)
  then show ?case using Cons scanned_append [of "item_text i" "items_text is"] by (cases "is = []") (simp_all add: items_text_def)
qed simp

text \<open>The whole bracket expression, from behind its first character on.\<close>

lemma bracket_end_items:
  assumes "list_all wf_item is" and "is \<noteq> []" "no_inner st"
  shows "bracket_end (c_at ((if neg then ''!'' else []) @ items_text is @ CHR '']'' # r) 0)
     (tl ((if neg then ''!'' else []) @ items_text is @ CHR '']'' # r)) st = (1, r)"
proof -
  let ?w = "(if neg then ''!'' else []) @ items_text is"
  have items: "scanned (items_text is)" using assms(1,2) by (rule scanned_items)
  have w: "scanned ?w"
  proof (cases neg)
    case True
    have "scanned ''!''" by (rule scanned_plain) simp
    then show ?thesis using scanned_append [of "''!''"] items True by simp
  qed (use items in simp)
  have "c_at (CHR '']'' # r) 0 \<noteq> NUL" by simp
  with w assms(3) obtain st' where st': "bracket_more st (?w @ CHR '']'' # r) = bracket_more st' (CHR '']'' # r)"
    by (rule scannedE)
  have "c_at (?w @ CHR '']'' # r) 0 \<noteq> CHR '']''" using w by (cases ?w) (simp_all add: scanned_def)
  then have "bracket_end (c_at (?w @ CHR '']'' # r) 0) (tl (?w @ CHR '']'' # r)) st = bracket_more st (?w @ CHR '']'' # r)"
    by (simp add: bracket_more_def [of st])
  then show ?thesis using st' by (simp add: bracket_more_def [of st'])
qed

subsection \<open>The length\<close>

text \<open>Patterns with a fixed length.\<close>

definition fixed_glob :: "gtoken list \<Rightarrow> bool" where
  "fixed_glob ts \<longleftrightarrow> (\<forall>t\<in>set ts. t \<noteq> Star \<and> (\<forall>xc alts. t \<noteq> Ext xc alts))"

lemma fixed_glob_simps [simp]:
  "fixed_glob []"
  "fixed_glob (Star # ts) = False"
  "fixed_glob (Ext xc alts # ts) = False"
  "fixed_glob (Char a # ts) = fixed_glob ts"
  "fixed_glob (Any # ts) = fixed_glob ts"
  "fixed_glob (Bracket neg is # ts) = fixed_glob ts"
  by (auto simp: fixed_glob_def)

lemma umatchlen_loop_text: "wf_glob flags ts \<Longrightarrow> umatchlen_loop (glob_text ts) n = (if fixed_glob ts then n + int (length ts) else - 1)"
proof (induction ts arbitrary: n)
  case (Cons t ts)
  have next_char: "c_at (glob_text ts) 0 \<noteq> CHR ''(''" using glob_text_first [of flags ts "[]"] Cons.prems by (simp add: ends_def)
  have IH: "umatchlen_loop (glob_text ts) m = (if fixed_glob ts then m + int (length ts) else - 1)" for m
    using Cons by simp
  show ?case
  proof (cases t)
    case (Char a)
    obtain q c where a: "a = (q, c)" by fastforce
    have w: "wf_char glob_special (q, c)" using Cons.prems Char a by simp
    show ?thesis
    proof (cases q)
      case True
      then show ?thesis using Char a IH by simp
    next
      case False
      then have "c \<noteq> BSLASH" "c \<noteq> CHR ''*''" "c \<noteq> CHR ''[''" using w by (auto simp: wf_char_def glob_special_def)
      then show ?thesis using Char a False IH next_char by simp
    qed
  next
    case (Bracket neg "is")
    then have w: "list_all wf_item is" "is \<noteq> []" using Cons.prems by auto
    let ?st = "\<lparr>bracklen = 1, in_cclass = False, in_collsym = False, in_equiv = False\<rparr>"
    have "no_inner ?st" by (simp add: no_inner_def)
    from bracket_end_items [OF w this, of neg "glob_text ts"] show ?thesis using Bracket IH by simp
  next
    case (Ext xc alts)
    then have "xc \<in> set ''+*?@!''" using Cons.prems by simp
    then show ?thesis using Ext by auto
  qed (use IH next_char in simp_all)
qed simp

lemma umatchlen_text: "wf_glob flags ts \<Longrightarrow> umatchlen (glob_text ts) = (if fixed_glob ts then int (length ts) else - 1)"
  by (simp add: umatchlen_def umatchlen_loop_text)

lemma fixed_glob_length: "fixed_glob ts \<Longrightarrow> w \<in> glob_lang loc ts \<Longrightarrow> length w = length ts"
proof (induction ts arbitrary: w)
  case (Cons t ts)
  then obtain u v where w: "w = u @ v" "u \<in> token_lang loc t" "v \<in> glob_lang loc ts" by auto
  moreover have "fixed_glob ts" using Cons.prems(1) by (simp add: fixed_glob_def)
  moreover have "length u = 1" using w(2) Cons.prems(1) by (cases t) auto
  ultimately show ?case using Cons.IH by simp
qed simp

text \<open>The test of the first character.\<close>

lemma match_pattern_char_text:
  assumes "wf_glob flags ts" and "ts \<noteq> []" "m \<in> glob_lang loc ts" "c_string (m @ b)" "m @ b \<noteq> []"
  shows "match_pattern_char (glob_text ts) (m @ b)"
proof -
  obtain t ts' where ts: "ts = t # ts'" using assms(2) by (cases ts) auto
  obtain u v where m: "m = u @ v" "u \<in> token_lang loc t" using assms(3) ts by auto
  obtain d s where s: "m @ b = d # s" "d \<noteq> NUL" using assms(4,5) by (cases "m @ b") auto
  show ?thesis
  proof (cases t)
    case (Char a)
    then have "wf_char glob_special a" using assms(1) ts by simp
    moreover have "d = snd a" using Char m s by simp
    ultimately show ?thesis using ts Char s by (cases a; cases "fst a") (auto simp: match_pattern_char_def Let_def wf_char_def glob_special_def)
  qed (use ts s assms(1) in \<open>auto simp: match_pattern_char_def Let_def\<close>)
qed

section \<open>Languages\<close>

lemma glob_lang_append: "glob_lang loc (ts @ us) = {u @ v | u v. u \<in> glob_lang loc ts \<and> v \<in> glob_lang loc us}"
proof (induction ts)
  case (Cons t ts)
  have left: "w \<in> glob_lang loc (t # ts @ us) \<longleftrightarrow> (\<exists>u v x. w = u @ v @ x \<and> u \<in> token_lang loc t \<and> v \<in> glob_lang loc ts \<and> x \<in> glob_lang loc us)" for w
    using Cons.IH by fastforce
  have right: "w \<in> {u @ v | u v. u \<in> glob_lang loc (t # ts) \<and> v \<in> glob_lang loc us} \<longleftrightarrow>
      (\<exists>u v x. w = u @ v @ x \<and> u \<in> token_lang loc t \<and> v \<in> glob_lang loc ts \<and> x \<in> glob_lang loc us)" for w
    unfolding glob_lang.simps mem_Collect_eq by (metis append_assoc)
  show ?case unfolding append_Cons by (rule set_eqI) (rule trans [OF left right [symmetric]])
qed simp

lemma glob_lang_Star_left: "glob_lang loc (Star # ts) = {u @ v | u v. v \<in> glob_lang loc ts}"
  by simp

lemma glob_lang_Star_right: "glob_lang loc (ts @ [Star]) = {u @ v | u v. u \<in> glob_lang loc ts}"
  by (simp add: glob_lang_append)

lemma glob_text_append: "glob_text (ts @ us) = glob_text ts @ glob_text us"
  by (induction ts) simp_all

lemma no_ext_Star: "no_ext (ts @ [Star]) \<longleftrightarrow> no_ext ts"
  by (induction ts rule: no_ext.induct) simp_all

lemma wf_glob_append_Star: "wf_glob flags (ts @ [Star]) \<longleftrightarrow> wf_glob flags ts"
  by (induction ts) (auto simp: no_ext_Star)

lemma FNMATCH_EXTFLAG_plain: "plain_flags (FNMATCH_EXTFLAG eg)"
  by (simp add: plain_flags_def FNMATCH_EXTFLAG_def)

text \<open>The strings that contain a match.\<close>

definition containing :: "glob_locale \<Rightarrow> gtoken list \<Rightarrow> string set" where
  "containing loc ts = {a @ m @ b | a m b. m \<in> glob_lang loc ts}"

lemma containing_stars: "glob_lang loc (Star # ts @ [Star]) = containing loc ts"
  by (fastforce simp: containing_def glob_lang_append)

lemma containing_Star_left: "containing loc (Star # ts) = containing loc ts"
proof
  show "containing loc (Star # ts) \<subseteq> containing loc ts"
    unfolding containing_def glob_lang_Star_left by clarsimp (metis append_assoc)
  show "containing loc ts \<subseteq> containing loc (Star # ts)"
    unfolding containing_def glob_lang_Star_left by clarsimp (metis append_Nil)
qed

lemma containing_Star_right: "containing loc (ts @ [Star]) = containing loc ts"
proof
  show "containing loc (ts @ [Star]) \<subseteq> containing loc ts"
    unfolding containing_def glob_lang_Star_right by clarsimp (metis append_assoc)
  show "containing loc ts \<subseteq> containing loc (ts @ [Star])"
    unfolding containing_def glob_lang_Star_right by clarsimp (metis append_Nil2)
qed

lemma containing_first_Star: "glob_lang loc (Star # ts @ [Star]) = containing loc (Star # ts)"
  by (simp only: containing_stars containing_Star_left)

section \<open>The pattern with stars at both ends\<close>

lemma c_at_last: "s \<noteq> [] \<Longrightarrow> c_at s (length s - 1) = last s"
  by (simp add: c_at_def last_conv_nth)

lemma glob_text_hd: "wf_glob flags (t # ts) \<Longrightarrow> no_ext (t # ts) \<Longrightarrow> c_at (glob_text (t # ts)) 0 = CHR ''*'' \<longleftrightarrow> t = Star"
proof (cases t)
  case (Char a)
  assume "wf_glob flags (t # ts)"
  then show ?thesis using Char by (cases a; cases "fst a") (auto simp: wf_char_def glob_special_def)
qed auto

lemma alts_text_last: "alts \<noteq> [] \<Longrightarrow> last (alts_text alts) = CHR '')''"
proof (induction alts)
  case (Cons a alts)
  then show ?case using alts_text_nonempty [of alts] by (cases alts) auto
qed simp

lemma glob_text_butlast: "ts \<noteq> [] \<Longrightarrow> glob_text ts = glob_text (butlast ts) @ token_text (last ts)"
  using glob_text_append [of "butlast ts" "[last ts]"] by simp

lemma token_text_last:
  assumes "wf_token flags t"
  shows "last (token_text t) = CHR ''*'' \<longleftrightarrow> t = Star \<or> t = Char (True, CHR ''*'')"
proof (cases t)
  case (Char a)
  then show ?thesis using assms by (cases a; cases "fst a") (auto simp: wf_char_def glob_special_def)
next
  case (Ext xc alts)
  then have "alts \<noteq> []" using assms by simp
  then show ?thesis using alts_text_last [of alts] alts_text_nonempty [of alts] Ext by auto
qed simp_all

lemma glob_text_last:
  assumes "wf_glob flags ts" and "ts \<noteq> []"
  shows "last (glob_text ts) = CHR ''*'' \<longleftrightarrow> last ts = Star \<or> last ts = Char (True, CHR ''*'')"
proof -
  have "glob_text ts = glob_text (butlast ts) @ token_text (last ts)" using assms(2) by (rule glob_text_butlast)
  moreover have "wf_token flags (last ts)" using assms by (induction ts) auto
  ultimately show ?thesis using token_text_last token_text_nonempty by simp
qed

lemma glob_text_quoted_star:
  assumes "ts \<noteq> []" and "last ts = Char (True, CHR ''*'')"
  shows "c_at (h @ glob_text ts) (length (h @ glob_text ts) - 2) = BSLASH"
proof -
  have "h @ glob_text ts = (h @ glob_text (butlast ts)) @ [BSLASH, CHR ''*'']"
    using glob_text_butlast [OF assms(1)] assms(2) by simp
  then show ?thesis by (simp add: c_at_def nth_append)
qed

text \<open>Stars in front unless there is one, and behind.\<close>

definition star_first :: "gtoken list \<Rightarrow> gtoken list" where
  "star_first ts = (if hd ts = Star then ts else Star # ts)"

lemma star_first_containing:
  assumes "ts \<noteq> []"
  shows "glob_lang loc (star_first ts @ [Star]) = containing loc ts"
proof (cases "hd ts = Star")
  case True
  then obtain us where "ts = Star # us" using assms by (cases ts) auto
  then show ?thesis using containing_first_Star [of loc us] by (simp add: star_first_def del: glob_lang.simps)
next
  case False
  then show ?thesis using containing_stars [of loc ts] by (simp add: star_first_def del: glob_lang.simps)
qed

lemma star_first_last:
  assumes "ts \<noteq> []" and "last ts = Star"
  shows "glob_lang loc (star_first ts) = containing loc ts"
proof -
  obtain us where ts: "ts = us @ [Star]" using assms by (metis append_butlast_last_id)
  show ?thesis
  proof (cases "us = [] \<or> hd ts \<noteq> Star")
    case True
    then have "star_first ts = (if us = [] then [] else [Star]) @ us @ [Star]" using ts by (auto simp: star_first_def)
    then show ?thesis using True ts containing_Star_right [of loc us] containing_stars [of loc us]
      by (cases "us = []") (auto simp: containing_def)
  next
    case False
    then have "star_first ts = star_first us @ [Star]" using ts by (auto simp: star_first_def)
    then show ?thesis using star_first_containing [of us loc] containing_Star_right [of loc us] False ts by simp
  qed
qed

lemma any_pattern_text:
  assumes "wf_glob flags (Star # ts)" and "ts \<noteq> []" and "\<not> (hd ts = Star \<and> last ts = Char (True, CHR ''*''))"
  obtains us where "any_pattern eg (glob_text ts) = glob_text us" "wf_glob flags us" "glob_lang loc us = containing loc ts"
proof -
  let ?pat = "glob_text ts"
  obtain t ts' where ts: "ts = t # ts'" using assms(2) by (cases ts) auto
  have wf: "wf_glob flags ts" "no_ext ts" using assms(1) by auto
  have p0: "c_at ?pat 0 = CHR ''*'' \<longleftrightarrow> hd ts = Star" using glob_text_hd wf ts by simp
  have "?pat \<noteq> []" using assms(2) by simp
  then have last: "c_at ?pat (length ?pat - 1) = CHR ''*'' \<longleftrightarrow> last ts = Star \<or> last ts = Char (True, CHR ''*'')"
    using c_at_last glob_text_last [OF wf(1) assms(2)] by metis
  have group: "\<not> (c_at ?pat 0 = CHR ''*'' \<and> c_at ?pat 1 = CHR ''('' \<and> eg)"
    using p0 ts glob_text_first [of flags ts' "[]"] wf(1) by (auto simp: ends_def)
  have star: "(if c_at ?pat 0 \<noteq> CHR ''*'' then ''*'' else []) @ ?pat = glob_text (star_first ts)"
    using p0 by (simp add: star_first_def)
  have any: "any_pattern eg ?pat =
      (if c_at ?pat (length ?pat - 1) \<noteq> CHR ''*'' \<or> hd ts \<noteq> Star \<and> c_at (glob_text (star_first ts)) (length (glob_text (star_first ts)) - 2) = BSLASH
       then glob_text (star_first ts @ [Star]) else glob_text (star_first ts))"
    using group p0 star assms(3) last unfolding any_pattern_def Let_def by (auto simp: glob_text_append star_first_def)
  have "wf_glob flags (star_first ts)" using assms(1) wf by (simp add: star_first_def)
  moreover have "wf_glob flags (star_first ts @ [Star])" using calculation wf_glob_append_Star by blast
  moreover have "last ts = Star" if "any_pattern eg ?pat \<noteq> glob_text (star_first ts @ [Star])"
  proof (rule ccontr)
    assume "last ts \<noteq> Star"
    then have "last ts = Char (True, CHR ''*'')" using any last that by auto
    then have "hd ts \<noteq> Star" "c_at (glob_text (star_first ts)) (length (glob_text (star_first ts)) - 2) = BSLASH"
      using assms(3) glob_text_quoted_star [OF assms(2), of "''*''"] by (auto simp: star_first_def)
    then show False using any that by simp
  qed
  ultimately show ?thesis
    using that any star_first_containing [OF assms(2)] star_first_last [OF assms(2)] by (metis (no_types))
qed

section \<open>The boundaries of a match\<close>

definition matches_at :: "glob_locale \<Rightarrow> gtoken list \<Rightarrow> cstring \<Rightarrow> nat \<Rightarrow> nat \<Rightarrow> bool" where
  "matches_at loc ts S i j \<longleftrightarrow> i \<le> j \<and> j \<le> length S \<and> between S i j \<in> glob_lang loc ts"

text \<open>Which parts each type of match admits. An empty part at the end is none for \<^verbatim>\<open>MATCH_ANY\<close>.\<close>

definition admitted :: "nat \<Rightarrow> cstring \<Rightarrow> nat \<Rightarrow> nat \<Rightarrow> bool" where
  "admitted mtype S i j \<longleftrightarrow>
     (if mtype = MATCH_ANY then i < length S else if mtype = MATCH_BEG then i = 0 else j = length S)"

definition candidate :: "glob_locale \<Rightarrow> gtoken list \<Rightarrow> nat \<Rightarrow> cstring \<Rightarrow> nat \<Rightarrow> nat \<Rightarrow> bool" where
  "candidate loc ts mtype S i j \<longleftrightarrow> matches_at loc ts S i j \<and> admitted mtype S i j"

text \<open>The leftmost match and, from there, the longest.\<close>

definition first_longest :: "glob_locale \<Rightarrow> gtoken list \<Rightarrow> nat \<Rightarrow> cstring \<Rightarrow> nat \<Rightarrow> nat \<Rightarrow> bool" where
  "first_longest loc ts mtype S i j \<longleftrightarrow>
     candidate loc ts mtype S i j \<and>
     (\<forall>i' j'. candidate loc ts mtype S i' j' \<longrightarrow> i < i' \<or> i = i' \<and> j' \<le> j)"

text \<open>\<open>r\<close> is the longest match from \<open>s\<close> on.\<close>

definition longest_from :: "glob_locale \<Rightarrow> gtoken list \<Rightarrow> cstring \<Rightarrow> nat \<Rightarrow> span \<Rightarrow> bool" where
  "longest_from loc ts S s r \<longleftrightarrow>
     (case r of
        Span_At i j \<Rightarrow> i = s \<and> matches_at loc ts S s j \<and> (\<forall>j'. matches_at loc ts S s j' \<longrightarrow> j' \<le> j)
      | No_Span \<Rightarrow> \<forall>j. \<not> matches_at loc ts S s j
      | Span_Outside \<Rightarrow> False)"

lemma c_string_between: "c_string S \<Longrightarrow> c_string (between S i j)"
  unfolding c_string_def between_def by (meson in_set_dropD in_set_takeD)

lemma strmatch_between:
  assumes "wf_glob (FNMATCH_EXTFLAG eg) ts" and "c_string S" "s \<le> e" "e \<le> length S"
  shows "strmatch loc (glob_text ts) (between S s e) (FNMATCH_EXTFLAG eg) = (if matches_at loc ts S s e then Match else No_Match)"
  using strmatch_language [OF assms(1) FNMATCH_EXTFLAG_plain c_string_between [OF assms(2)]] assms(3,4)
  by (simp add: matches_at_def)

lemma fixed_match_end:
  assumes "fixed_glob ts" and "matches_at loc ts S s j"
  shows "j = s + length ts"
proof -
  have "length (between S s j) = length ts" using assms fixed_glob_length by (auto simp: matches_at_def)
  moreover have "length (between S s j) = j - s" using assms(2) by (auto simp: matches_at_def between_def)
  ultimately show ?thesis using assms(2) by (auto simp: matches_at_def)
qed

lemma match_ends_longest:
  assumes "wf_glob (FNMATCH_EXTFLAG eg) ts" and "c_string S" "s \<le> e" "e \<le> length S"
    and "fixed \<longleftrightarrow> fixed_glob ts" "fixed \<longrightarrow> e = s + length ts" "\<forall>j. matches_at loc ts S s j \<longrightarrow> j \<le> e"
  shows "longest_from loc ts S s (match_ends loc (FNMATCH_EXTFLAG eg) (glob_text ts) S fixed s e)"
  using assms(3,4,6,7)
proof (induction e)
  case 0
  then show ?case
    using strmatch_between [OF assms(1,2) 0(1,2)] by (subst match_ends.simps) (auto simp: longest_from_def)
next
  case (Suc e)
  have m: "strmatch loc (glob_text ts) (between S s (Suc e)) (FNMATCH_EXTFLAG eg) = (if matches_at loc ts S s (Suc e) then Match else No_Match)"
    using strmatch_between [OF assms(1,2) Suc.prems(1,2)] .
  show ?case
  proof (cases "matches_at loc ts S s (Suc e) \<or> fixed \<or> Suc e \<le> s")
    case True
    have "fixed \<Longrightarrow> matches_at loc ts S s j \<Longrightarrow> j = Suc e" for j
      using fixed_match_end assms(5) Suc.prems(3) by auto
    moreover have "Suc e \<le> s \<Longrightarrow> matches_at loc ts S s j \<Longrightarrow> j = Suc e" for j
      using Suc.prems(1,4) by (auto simp: matches_at_def)
    ultimately have "longest_from loc ts S s No_Span" if "\<not> matches_at loc ts S s (Suc e)"
      using that True by (auto simp: longest_from_def)
    then show ?thesis
      using True m Suc.prems(4) by (subst match_ends.simps) (auto simp: longest_from_def)
  next
    case False
    have "j \<le> e" if "matches_at loc ts S s j" for j
      using that False Suc.prems(4) by (metis le_Suc_eq)
    then have "longest_from loc ts S s (match_ends loc (FNMATCH_EXTFLAG eg) (glob_text ts) S fixed s e)"
      using Suc.IH False Suc.prems by auto
    then show ?thesis using False m by (subst match_ends.simps) simp
  qed
qed

text \<open>What the loops over the starts find, when there is no match before \<open>s\<close>.\<close>

definition found :: "glob_locale \<Rightarrow> gtoken list \<Rightarrow> nat \<Rightarrow> cstring \<Rightarrow> span \<Rightarrow> bool" where
  "found loc ts mtype S r \<longleftrightarrow>
     (case r of
        Span_At i j \<Rightarrow> first_longest loc ts mtype S i j
      | No_Span \<Rightarrow> \<forall>i j. \<not> candidate loc ts mtype S i j
      | Span_Outside \<Rightarrow> False)"

lemma match_pattern_char_at:
  assumes "wf_glob flags ts" and "ts \<noteq> []" "c_string S" "matches_at loc ts S s j" "s < length S"
  shows "match_pattern_char (glob_text ts) (drop s S)"
proof -
  have "between S s j @ drop j S = drop s S"
    using assms(4) append_take_drop_id [of "j - s" "drop s S"] by (simp add: between_def matches_at_def)
  moreover have "c_string (drop s S)" using assms(3) unfolding c_string_def by (meson in_set_dropD)
  moreover have "between S s j \<in> glob_lang loc ts" using assms(4) by (simp add: matches_at_def)
  ultimately show ?thesis
    using match_pattern_char_text [OF assms(1,2), of "between S s j" loc "drop j S"] assms(5) by simp
qed

lemma match_any_found:
  assumes "wf_glob (FNMATCH_EXTFLAG eg) ts" and "ts \<noteq> []" "c_string S"
    and "mlen = (if fixed_glob ts then int (length ts) else - 1)"
  shows "\<forall>i j. candidate loc ts MATCH_ANY S i j \<longrightarrow> s \<le> i \<Longrightarrow>
    found loc ts MATCH_ANY S (match_any loc (FNMATCH_EXTFLAG eg) (glob_text ts) S mlen s)"
proof (induction "length S + 1 - s" arbitrary: s rule: less_induct)
  case less
  let ?rest = "match_any loc (FNMATCH_EXTFLAG eg) (glob_text ts) S mlen (s + 1)"
  let ?e = "if mlen = - 1 then length S else s + nat mlen"
  let ?r = "match_ends loc (FNMATCH_EXTFLAG eg) (glob_text ts) S (mlen \<noteq> - 1) s ?e"
  have cand: "candidate loc ts MATCH_ANY S i j \<longleftrightarrow> matches_at loc ts S i j \<and> i < length S" for i j
    by (simp add: candidate_def admitted_def)
  have later: "found loc ts MATCH_ANY S ?rest" if "s \<le> length S" "\<forall>j. \<not> (s < length S \<and> matches_at loc ts S s j)"
  proof -
    have "s + 1 \<le> i" if "candidate loc ts MATCH_ANY S i j" for i j
      using less.prems \<open>\<forall>j. \<not> (s < length S \<and> matches_at loc ts S s j)\<close> that cand by (metis Suc_eq_plus1 Suc_leI le_neq_implies_less)
    then show ?thesis using less.hyps [of "s + 1"] that(1) by auto
  qed
  show ?case
  proof (cases "length S < s")
    case True
    then show ?thesis using less.prems cand by (subst match_any.simps) (fastforce simp: found_def)
  next
    case False
    show ?thesis
    proof (cases "match_pattern_char (glob_text ts) (drop s S)")
      case char: True
      then have lt: "s < length S" using False by (cases "s = length S") (simp_all add: match_pattern_char_def)
      show ?thesis
      proof (cases "length S < ?e")
        case True
        then have f: "fixed_glob ts" "length S < s + length ts" using assms(4) by (auto split: if_splits)
        have "\<not> candidate loc ts MATCH_ANY S i j" for i j
        proof
          assume "candidate loc ts MATCH_ANY S i j"
          then have "s \<le> i" "matches_at loc ts S i j" using less.prems cand by blast+
          then show False using fixed_match_end [OF f(1)] f(2) by (fastforce simp: matches_at_def)
        qed
        then show ?thesis using False char True by (subst match_any.simps) (simp add: found_def)
      next
        case e: False
        have longest: "longest_from loc ts S s ?r"
          using e False assms(4) fixed_match_end [of ts loc S s]
          by (intro match_ends_longest [OF assms(1,3)]) (auto simp: matches_at_def)
        have step: "match_any loc (FNMATCH_EXTFLAG eg) (glob_text ts) S mlen s = (case ?r of No_Span \<Rightarrow> ?rest | r \<Rightarrow> r)"
          using False char e by (subst match_any.simps) (simp add: Let_def)
        show ?thesis
        proof (cases ?r)
          case (Span_At i j)
          then have "first_longest loc ts MATCH_ANY S i j"
            using longest less.prems cand lt by (auto simp: longest_from_def first_longest_def le_neq_implies_less)
          then show ?thesis using step Span_At by (simp add: found_def)
        next
          case No_Span
          then show ?thesis using step longest later False by (simp add: longest_from_def)
        next
          case Span_Outside
          then show ?thesis using longest by (simp add: longest_from_def)
        qed
      qed
    next
      case char: False
      have "\<forall>j. \<not> (s < length S \<and> matches_at loc ts S s j)" using match_pattern_char_at [OF assms(1-3)] char by blast
      then show ?thesis using later False char by (subst match_any.simps) simp
    qed
  qed
qed

lemma match_end_found:
  assumes "wf_glob (FNMATCH_EXTFLAG eg) ts" and "c_string S"
    and "fixed \<longleftrightarrow> fixed_glob ts" "fixed \<longrightarrow> length S = s + length ts"
  shows "\<forall>i j. candidate loc ts MATCH_END S i j \<longrightarrow> s \<le> i \<Longrightarrow> s \<le> length S + 1 \<Longrightarrow>
    found loc ts MATCH_END S (match_end loc (FNMATCH_EXTFLAG eg) (glob_text ts) S fixed s)"
  using assms(4)
proof (induction "length S + 1 - s" arbitrary: s rule: less_induct)
  case less
  have cand: "candidate loc ts MATCH_END S i j \<longleftrightarrow> matches_at loc ts S i j \<and> j = length S" for i j
    by (simp add: candidate_def admitted_def MATCH_END_def MATCH_ANY_def MATCH_BEG_def)
  show ?case
  proof (cases "length S < s")
    case True
    have "\<not> candidate loc ts MATCH_END S i j" for i j
      using less.prems(1) True cand by (fastforce simp: matches_at_def)
    then show ?thesis using True by (subst match_end.simps) (simp add: found_def)
  next
    case False
    then have "drop s S = between S s (length S)" by (simp add: between_def)
    then have m: "strmatch loc (glob_text ts) (drop s S) (FNMATCH_EXTFLAG eg) = (if matches_at loc ts S s (length S) then Match else No_Match)"
      using strmatch_between [OF assms(1,2), of s "length S" loc] False by simp
    show ?thesis
    proof (cases "matches_at loc ts S s (length S)")
      case True
      then have "first_longest loc ts MATCH_END S s (length S)"
        using less.prems(1) cand by (auto simp: first_longest_def le_neq_implies_less)
      then show ?thesis using False m True by (subst match_end.simps) (simp add: found_def)
    next
      case none: False
      show ?thesis
      proof (cases fixed)
        case True
        have "\<not> candidate loc ts MATCH_END S i j" for i j
          using none fixed_match_end [of ts loc S i] assms(3) less.prems(3) True cand by (metis add_right_cancel)
        then show ?thesis using False m none True by (subst match_end.simps) (simp add: found_def)
      next
        case nf: False
        have "s + 1 \<le> i" if "candidate loc ts MATCH_END S i j" for i j
          using less.prems(1) none that cand by (metis Suc_eq_plus1 Suc_leI le_neq_implies_less)
        then have "found loc ts MATCH_END S (match_end loc (FNMATCH_EXTFLAG eg) (glob_text ts) S fixed (s + 1))"
          using less.hyps [of "s + 1"] False nf by auto
        then show ?thesis using False m none nf by (subst match_end.simps) simp
      qed
    qed
  qed
qed

text \<open>All three types of match, under the hypotheses of \<open>any_pattern_text\<close>.\<close>

lemma match_pattern_found:
  assumes "wf_glob (FNMATCH_EXTFLAG eg) (Star # ts)" and "ts \<noteq> []" "\<not> (hd ts = Star \<and> last ts = Char (True, CHR ''*''))"
    and "c_string S" "S \<noteq> []" "mtype \<in> {MATCH_ANY, MATCH_BEG, MATCH_END}"
  shows "found loc ts mtype S (match_pattern loc eg (Some S) (Some (glob_text ts)) mtype)"
proof -
  let ?f = "FNMATCH_EXTFLAG eg" and ?pat = "glob_text ts"
  have wf: "wf_glob ?f ts" using assms(1) by simp
  obtain us where us: "any_pattern eg ?pat = glob_text us" "wf_glob ?f us" "glob_lang loc us = containing loc ts"
    using any_pattern_text [OF assms(1-3)] .
  have any: "strmatch loc (any_pattern eg ?pat) S ?f = (if S \<in> containing loc ts then Match else No_Match)"
    using strmatch_language [OF us(2) FNMATCH_EXTFLAG_plain assms(4)] us(1,3) by simp
  have parts: "matches_at loc ts S i j \<Longrightarrow> S \<in> containing loc ts" for i j
  proof -
    assume m: "matches_at loc ts S i j"
    then have "S = take i S @ between S i j @ drop j S"
      using append_take_drop_id [of "j - i" "drop i S"] append_take_drop_id [of i S] by (simp add: between_def matches_at_def)
    then show ?thesis using m unfolding containing_def matches_at_def by blast
  qed
  have mlen: "umatchlen ?pat = (if fixed_glob ts then int (length ts) else - 1)" using umatchlen_text [OF wf] .
  have fits: "length ts \<le> length S" if "S \<in> containing loc ts" "fixed_glob ts"
    using that fixed_glob_length unfolding containing_def by fastforce
  have pat: "match_pattern loc eg (Some S) (Some ?pat) mtype = match_upattern loc eg S ?pat mtype"
    using assms(2,5) by (simp add: match_pattern_def)
  show ?thesis
  proof (cases "S \<in> containing loc ts")
    case False
    then have "\<not> candidate loc ts mtype S i j" for i j using parts by (auto simp: candidate_def)
    then show ?thesis using pat any False by (simp add: match_upattern_def found_def Let_def)
  next
    case True
    then have long: "fixed_glob ts \<Longrightarrow> \<not> length S < length ts" using fits by (simp add: not_less)
    consider "mtype = MATCH_ANY" | "mtype = MATCH_BEG" | "mtype = MATCH_END" using assms(6) by blast
    then show ?thesis
    proof cases
      case 1
      then have "match_upattern loc eg S ?pat mtype = match_any loc ?f ?pat S (umatchlen ?pat) 0"
        using any True by (simp add: match_upattern_def Let_def)
      then show ?thesis using match_any_found [OF wf assms(2,4) mlen, of loc 0] pat 1 by simp
    next
      case 2
      have cand: "candidate loc ts mtype S i j \<longleftrightarrow> i = 0 \<and> matches_at loc ts S 0 j" for i j
        using 2 by (auto simp: candidate_def admitted_def MATCH_BEG_def MATCH_ANY_def)
      let ?e = "if fixed_glob ts then length ts else length S"
      let ?r = "match_ends loc ?f ?pat S (fixed_glob ts) 0 ?e"
      have r: "match_upattern loc eg S ?pat mtype = (if match_pattern_char ?pat S then ?r else No_Span)"
        using any True 2 mlen long by (simp add: match_upattern_def Let_def MATCH_BEG_def MATCH_ANY_def)
      have longest: "longest_from loc ts S 0 ?r"
        using fits [OF True] fixed_match_end [of ts loc S 0]
        by (intro match_ends_longest [OF wf assms(4)]) (auto simp: matches_at_def)
      have "found loc ts mtype S ?r"
        using longest cand by (cases ?r) (auto simp: longest_from_def found_def first_longest_def)
      moreover have "found loc ts mtype S No_Span" if "\<not> match_pattern_char ?pat S"
        using match_pattern_char_at [OF wf assms(2,4), of loc 0] assms(5) that cand by (auto simp: found_def)
      ultimately show ?thesis using r pat by simp
    next
      case 3
      have less: "s \<le> i" if "candidate loc ts MATCH_END S i j" "s = (if fixed_glob ts then length S - length ts else 0)" for i j s
        using that fixed_match_end [of ts loc S i j]
        by (auto simp: candidate_def admitted_def matches_at_def MATCH_END_def MATCH_ANY_def MATCH_BEG_def split: if_splits)
      have "match_upattern loc eg S ?pat mtype = match_end loc ?f ?pat S (fixed_glob ts) (if fixed_glob ts then length S - length ts else 0)"
        using any True 3 mlen long by (simp add: match_upattern_def Let_def MATCH_BEG_def MATCH_ANY_def MATCH_END_def)
      moreover have "found loc ts MATCH_END S (match_end loc ?f ?pat S (fixed_glob ts) (if fixed_glob ts then length S - length ts else 0))"
        using fits [OF True] less by (intro match_end_found [OF wf assms(4)]) auto
      ultimately show ?thesis using pat 3 by simp
    qed
  qed
qed

section \<open>Removal\<close>

text \<open>The matching part \<open>m\<close> and what is left; which of two parts an operation prefers.\<close>

definition cut :: "nat \<Rightarrow> cstring \<Rightarrow> cstring \<Rightarrow> cstring \<Rightarrow> bool" where
  "cut op s m r \<longleftrightarrow> (if op = RP_LONG_LEFT \<or> op = RP_SHORT_LEFT then s = m @ r else s = r @ m)"

definition preferred :: "nat \<Rightarrow> cstring \<Rightarrow> cstring \<Rightarrow> bool" where
  "preferred op m m' \<longleftrightarrow> (if op = RP_LONG_LEFT \<or> op = RP_LONG_RIGHT then length m' \<le> length m else length m \<le> length m')"

definition removed :: "glob_locale \<Rightarrow> gtoken list \<Rightarrow> nat \<Rightarrow> cstring \<Rightarrow> cstring \<Rightarrow> bool" where
  "removed loc ts op s r \<longleftrightarrow>
     (\<exists>m. cut op s m r \<and> m \<in> glob_lang loc ts \<and> (\<forall>m' r'. cut op s m' r' \<and> m' \<in> glob_lang loc ts \<longrightarrow> preferred op m m')) \<or>
     r = s \<and> (\<forall>m' r'. cut op s m' r' \<longrightarrow> m' \<notin> glob_lang loc ts)"

lemma remove_at_find:
  assumes "\<forall>p\<in>set ps. strmatch loc pat (part p) flags = (if Q p then Match else No_Match)"
  shows "remove_at loc flags pat part kept param ps = Some (case find Q ps of Some p \<Rightarrow> kept p | None \<Rightarrow> param)"
  using assms by (induction ps) simp_all

text \<open>The first match in the order of the positions is the preferred one.\<close>

lemma find_sorted:
  "sorted_wrt le ps \<Longrightarrow> find Q ps = Some p \<Longrightarrow> p \<in> set ps \<and> Q p \<and> (\<forall>q\<in>set ps. Q q \<longrightarrow> q = p \<or> le p q)"
  by (induction ps) (auto split: if_splits)

lemma find_removed:
  assumes "sorted_wrt le ps" and cut: "\<And>m r. cut op s m r \<longleftrightarrow> (\<exists>p\<in>set ps. m = part p \<and> r = kept p)"
    and pref: "\<And>p q. p \<in> set ps \<Longrightarrow> q \<in> set ps \<Longrightarrow> q = p \<or> le p q \<Longrightarrow> preferred op (part p) (part q)"
  shows "removed loc ts op s (case find (\<lambda>p. part p \<in> glob_lang loc ts) ps of Some p \<Rightarrow> kept p | None \<Rightarrow> s)"
proof (cases "find (\<lambda>p. part p \<in> glob_lang loc ts) ps")
  case None
  then have "\<forall>p\<in>set ps. part p \<notin> glob_lang loc ts" by (simp add: find_None_iff)
  then have "\<forall>m r. cut op s m r \<longrightarrow> m \<notin> glob_lang loc ts" using cut by auto
  then show ?thesis unfolding None option.case removed_def by simp
next
  case (Some p)
  note p = find_sorted [OF assms(1) Some]
  have "preferred op (part p) m" if m: "cut op s m r" "m \<in> glob_lang loc ts" for m r
  proof -
    obtain q where "q \<in> set ps" "m = part q" using m(1) unfolding cut by blast
    then show ?thesis using p pref m(2) by auto
  qed
  moreover have "cut op s (part p) (kept p)" using p cut by auto
  ultimately show ?thesis unfolding Some option.case removed_def using p by blast
qed

lemma remove_upattern_removed:
  assumes "wf_glob (FNMATCH_EXTFLAG eg) ts" and "c_string s" "op \<in> {RP_LONG_LEFT, RP_SHORT_LEFT, RP_LONG_RIGHT, RP_SHORT_RIGHT}"
  shows "\<exists>r. remove_upattern loc eg s (glob_text ts) op = Some r \<and> removed loc ts op s r"
proof -
  let ?ends = "[0..<length s + 1]" and ?L = "glob_lang loc ts"
  note op = RP_LONG_LEFT_def RP_SHORT_LEFT_def RP_LONG_RIGHT_def RP_SHORT_RIGHT_def
  have parts: "c_string (take p s)" "c_string (drop p s)" for p
    using assms(2) unfolding c_string_def by (meson in_set_takeD, meson in_set_dropD)
  have left: "remove_at loc (FNMATCH_EXTFLAG eg) (glob_text ts) (\<lambda>p. take p s) kept s ps =
      Some (case find (\<lambda>p. take p s \<in> ?L) ps of Some p \<Rightarrow> kept p | None \<Rightarrow> s)" for kept ps
    by (rule remove_at_find) (simp add: strmatch_language [OF assms(1) FNMATCH_EXTFLAG_plain parts(1)])
  have right: "remove_at loc (FNMATCH_EXTFLAG eg) (glob_text ts) (\<lambda>p. drop p s) kept s ps =
      Some (case find (\<lambda>p. drop p s \<in> ?L) ps of Some p \<Rightarrow> kept p | None \<Rightarrow> s)" for kept ps
    by (rule remove_at_find) (simp add: strmatch_language [OF assms(1) FNMATCH_EXTFLAG_plain parts(2)])
  have cut_left: "cut op s m r \<longleftrightarrow> (\<exists>p\<le>length s. m = take p s \<and> r = drop p s)" if "op = RP_LONG_LEFT \<or> op = RP_SHORT_LEFT" for m r
    using that by (auto simp: cut_def intro!: exI [of _ "length m"])
  have cut_right: "cut op s m r \<longleftrightarrow> (\<exists>p\<le>length s. m = drop p s \<and> r = take p s)" if "op = RP_LONG_RIGHT \<or> op = RP_SHORT_RIGHT" for m r
    using that by (auto simp: cut_def op intro!: exI [of _ "length r"])
  have down: "sorted_wrt (>) (rev ?ends)" using sorted_wrt_upt by (simp add: sorted_wrt_rev del: upt_Suc)
  have up: "sorted_wrt (<) ?ends" by (rule sorted_wrt_upt)
  consider "op = RP_LONG_LEFT" | "op = RP_SHORT_LEFT" | "op = RP_LONG_RIGHT" | "op = RP_SHORT_RIGHT" using assms(3) by blast
  then show ?thesis
  proof cases
    case 1
    have "removed loc ts op s (case find (\<lambda>p. take p s \<in> ?L) (rev ?ends) of Some p \<Rightarrow> drop p s | None \<Rightarrow> s)"
      by (rule find_removed [OF down]) (use 1 cut_left in \<open>auto simp: preferred_def Bex_def less_Suc_eq_le simp del: upt_Suc\<close>)
    then show ?thesis using left 1 by (simp add: remove_upattern_def Let_def del: upt_Suc)
  next
    case 2
    have "removed loc ts op s (case find (\<lambda>p. take p s \<in> ?L) ?ends of Some p \<Rightarrow> drop p s | None \<Rightarrow> s)"
      by (rule find_removed [OF up]) (use 2 cut_left in \<open>auto simp: preferred_def op Bex_def less_Suc_eq_le simp del: upt_Suc\<close>)
    then show ?thesis using left 2 by (simp add: remove_upattern_def Let_def op del: upt_Suc)
  next
    case 3
    have "removed loc ts op s (case find (\<lambda>p. drop p s \<in> ?L) ?ends of Some p \<Rightarrow> take p s | None \<Rightarrow> s)"
      by (rule find_removed [OF up]) (use 3 cut_right in \<open>auto simp: preferred_def op Bex_def less_Suc_eq_le simp del: upt_Suc\<close>)
    then show ?thesis using right 3 by (simp add: remove_upattern_def Let_def op del: upt_Suc)
  next
    case 4
    have "removed loc ts op s (case find (\<lambda>p. drop p s \<in> ?L) (rev ?ends) of Some p \<Rightarrow> take p s | None \<Rightarrow> s)"
      by (rule find_removed [OF down]) (use 4 cut_right in \<open>auto simp: preferred_def op Bex_def less_Suc_eq_le simp del: upt_Suc\<close>)
    then show ?thesis using right 4 by (simp add: remove_upattern_def Let_def op del: upt_Suc)
  qed
qed

section \<open>Substitution\<close>

text \<open>Every match replaced, from the left; behind an empty match a character is passed over.\<close>

inductive substituted :: "glob_locale \<Rightarrow> gtoken list \<Rightarrow> cstring \<Rightarrow> cstring \<Rightarrow> cstring \<Rightarrow> bool" for loc ts rep where
  no_match: "\<forall>i j. \<not> candidate loc ts MATCH_ANY S i j \<Longrightarrow> substituted loc ts rep S S"
| match: "first_longest loc ts MATCH_ANY S i j \<Longrightarrow> i < j \<Longrightarrow> substituted loc ts rep (drop j S) T \<Longrightarrow>
    substituted loc ts rep S (take i S @ rep @ T)"
| empty_match: "first_longest loc ts MATCH_ANY S i i \<Longrightarrow> substituted loc ts rep (drop (i + 1) S) T \<Longrightarrow>
    substituted loc ts rep S (take i S @ rep @ S ! i # T)"

text \<open>One match replaced.\<close>

definition substituted_once :: "glob_locale \<Rightarrow> gtoken list \<Rightarrow> nat \<Rightarrow> cstring \<Rightarrow> cstring \<Rightarrow> cstring \<Rightarrow> bool" where
  "substituted_once loc ts mtype rep S T \<longleftrightarrow>
     (\<exists>i j. first_longest loc ts mtype S i j \<and> T = take i S @ rep @ drop j S) \<or>
     (\<forall>i j. \<not> candidate loc ts mtype S i j) \<and> T = S"

text \<open>
  The patterns the theorems speak of: well-formed with a star in front, not empty, and not both with a
  star at the front and a quoted one at the end.
\<close>

definition subst_glob :: "bool \<Rightarrow> gtoken list \<Rightarrow> bool" where
  "subst_glob eg ts \<longleftrightarrow>
     wf_glob (FNMATCH_EXTFLAG eg) (Star # ts) \<and> ts \<noteq> [] \<and> \<not> (hd ts = Star \<and> last ts = Char (True, CHR ''*''))"

lemma c_string_drop: "c_string S \<Longrightarrow> c_string (drop n S)"
  unfolding c_string_def by (meson in_set_dropD)

lemma match_pattern_empty: "match_pattern loc eg (Some []) pat mtype = No_Span"
  by (simp add: match_pattern_def split: option.split)

lemma candidate_inside: "candidate loc ts MATCH_ANY S i j \<Longrightarrow> i < length S \<and> i \<le> j \<and> j \<le> length S"
  by (simp add: candidate_def matches_at_def admitted_def)

lemma first_longest_inside: "first_longest loc ts MATCH_ANY S i j \<Longrightarrow> i < length S \<and> i \<le> j \<and> j \<le> length S"
  using candidate_inside unfolding first_longest_def by blast

lemma subst_loop_all:
  assumes "subst_glob eg ts" and "mflags AND MATCH_TYPEMASK = MATCH_ANY" "mflags AND MATCH_GLOBREP \<noteq> 0"
  shows "c_string S \<Longrightarrow> \<exists>T. subst_loop loc eg (Some (glob_text ts)) rep mflags ret S = Some (ret @ T) \<and> substituted loc ts rep S T"
proof (induction "length S" arbitrary: ret S rule: less_induct)
  case less
  let ?m = "match_pattern loc eg (Some S) (Some (glob_text ts)) MATCH_ANY"
  have found: "found loc ts MATCH_ANY S ?m"
  proof (cases "S = []")
    case True
    then show ?thesis by (simp add: match_pattern_empty found_def candidate_def admitted_def)
  next
    case False
    then show ?thesis using assms(1) less.prems by (intro match_pattern_found) (auto simp: subst_glob_def)
  qed
  show ?case
  proof (cases ?m)
    case No_Span
    then show ?thesis using found assms(2) by (subst subst_loop.simps) (auto simp: found_def intro: substituted.no_match)
  next
    case Span_Outside
    then show ?thesis using found by (simp add: found_def)
  next
    case (Span_At i j)
    then have first: "first_longest loc ts MATCH_ANY S i j" using found by (simp add: found_def)
    note inside = first_longest_inside [OF first]
    show ?thesis
    proof (cases "i = j")
      case True
      then have "length (drop (i + 1) S) < length S" "drop i S \<noteq> []" "tl (drop i S) = drop (i + 1) S" "hd (drop i S) = S ! i"
        using inside by (auto simp: drop_Suc tl_drop hd_drop_conv_nth)
      moreover obtain T where "subst_loop loc eg (Some (glob_text ts)) rep mflags ((ret @ take i S @ rep) @ [S ! i]) (drop (i + 1) S)
          = Some (((ret @ take i S @ rep) @ [S ! i]) @ T)" "substituted loc ts rep (drop (i + 1) S) T"
        using less.hyps [OF calculation(1) c_string_drop [OF less.prems]] by blast
      ultimately show ?thesis using Span_At True assms(2,3) substituted.empty_match [OF first [folded True]]
        by (subst subst_loop.simps) simp
    next
      case False
      then have "length (drop j S) < length S" "i < j" using inside by auto
      moreover obtain T where "subst_loop loc eg (Some (glob_text ts)) rep mflags (ret @ take i S @ rep) (drop j S)
          = Some ((ret @ take i S @ rep) @ T)" "substituted loc ts rep (drop j S) T"
        using less.hyps [OF calculation(1) c_string_drop [OF less.prems]] by blast
      ultimately show ?thesis using Span_At False assms(2,3) substituted.match [OF first]
        by (subst subst_loop.simps) simp
    qed
  qed
qed

lemma subst_loop_once:
  assumes "subst_glob eg ts" and "mtype \<in> {MATCH_ANY, MATCH_BEG, MATCH_END}" "mflags AND MATCH_TYPEMASK = mtype"
    and "mflags AND MATCH_GLOBREP = 0 \<or> mtype \<noteq> MATCH_ANY" "c_string S" "S \<noteq> []"
  shows "\<exists>T. subst_loop loc eg (Some (glob_text ts)) rep mflags [] S = Some T \<and> substituted_once loc ts mtype rep S T"
proof -
  have "found loc ts mtype S (match_pattern loc eg (Some S) (Some (glob_text ts)) mtype)"
    using assms by (intro match_pattern_found) (auto simp: subst_glob_def)
  then show ?thesis
    using assms(3,4) by (subst subst_loop.simps) (auto simp: found_def substituted_once_def split: span.splits)
qed

subsection \<open>A pattern that stands for itself\<close>

definition literal :: "cstring \<Rightarrow> gtoken list" where
  "literal p = map (\<lambda>c. Char (True, c)) p"

function replace_all :: "cstring \<Rightarrow> cstring \<Rightarrow> cstring \<Rightarrow> cstring" where
  "replace_all p rep [] = []"
| "replace_all p rep (c # S) =
     (if p \<noteq> [] \<and> take (length p) (c # S) = p then rep @ replace_all p rep (drop (length p) (c # S))
      else c # replace_all p rep S)"
  by pat_completeness auto
termination by (relation "measure (\<lambda>(p, rep, S). length S)") (auto simp: neq_Nil_conv)

lemma literal_lang: "glob_lang loc (literal p) = {p}"
  by (induction p) (auto simp: literal_def)

lemma literal_wf: "c_string p \<Longrightarrow> wf_glob flags (literal p) \<and> no_ext (literal p)"
proof (induction p)
  case (Cons c p)
  then show ?case by (cases p) (simp_all add: literal_def wf_char_def)
qed (simp add: literal_def)

lemma literal_subst_glob: "c_string p \<Longrightarrow> p \<noteq> [] \<Longrightarrow> subst_glob eg (literal p)"
  using literal_wf [of p] by (auto simp: subst_glob_def literal_def neq_Nil_conv)

lemma replace_all_skip:
  "i \<le> length S \<Longrightarrow> \<forall>k<i. take (length p) (drop k S) \<noteq> p \<Longrightarrow> replace_all p rep S = take i S @ replace_all p rep (drop i S)"
proof (induction i arbitrary: S)
  case (Suc i)
  then obtain c S' where S: "S = c # S'" by (cases S) auto
  have "take (length p) (c # S') \<noteq> p" using Suc.prems(2) S by (metis drop0 zero_less_Suc)
  moreover have "\<forall>k<i. take (length p) (drop k S') \<noteq> p" using Suc.prems(2) S by (metis Suc_less_eq drop_Suc_Cons)
  ultimately show ?case using Suc S by simp
qed simp

lemma literal_candidate:
  assumes "p \<noteq> []"
  shows "candidate loc (literal p) MATCH_ANY S i j \<longleftrightarrow> i < length S \<and> j = i + length p \<and> take (length p) (drop i S) = p"
proof
  assume "candidate loc (literal p) MATCH_ANY S i j"
  then have m: "i < length S" "i \<le> j" "j \<le> length S" "take (j - i) (drop i S) = p"
    by (auto simp: candidate_def matches_at_def admitted_def literal_lang between_def)
  then have "length p = j - i" by auto
  then show "i < length S \<and> j = i + length p \<and> take (length p) (drop i S) = p" using m by auto
next
  assume m: "i < length S \<and> j = i + length p \<and> take (length p) (drop i S) = p"
  then have "min (length S - i) (length p) = length p" by (metis length_drop length_take)
  then have "j \<le> length S" using m by linarith
  then show "candidate loc (literal p) MATCH_ANY S i j"
    using m by (simp add: candidate_def matches_at_def admitted_def literal_lang between_def)
qed

lemma substituted_literal:
  assumes "p \<noteq> []" and "substituted loc (literal p) rep S T"
  shows "T = replace_all p rep S"
  using assms(2)
proof (induction rule: substituted.induct)
  case (no_match S)
  then have "replace_all p rep S = take (length S) S @ replace_all p rep (drop (length S) S)"
    using assms(1) by (intro replace_all_skip) (auto simp: literal_candidate)
  then show ?case by simp
next
  case (match S i j T)
  then have c: "candidate loc (literal p) MATCH_ANY S i j" "\<And>i' j'. candidate loc (literal p) MATCH_ANY S i' j' \<Longrightarrow> i \<le> i'"
    unfolding first_longest_def by (blast, fastforce)
  have before: "\<forall>k<i. take (length p) (drop k S) \<noteq> p"
  proof (intro allI impI notI)
    fix k assume k: "k < i" "take (length p) (drop k S) = p"
    moreover have "i < length S" using c(1) by (simp add: candidate_inside)
    ultimately have "candidate loc (literal p) MATCH_ANY S k (k + length p)" using assms(1) by (simp add: literal_candidate)
    then show False using c(2) k(1) by fastforce
  qed
  have i: "i < length S" "j = i + length p" "take (length p) (drop i S) = p" using assms(1) c(1) by (simp_all add: literal_candidate)
  obtain c S' where d: "drop i S = c # S'" using i(1) by (cases "drop i S") auto
  have drop_j: "drop j S = drop (length p) (c # S')" using d i(2) by (metis add.commute drop_drop)
  have "replace_all p rep (drop i S) = rep @ replace_all p rep (drop j S)"
    using i(3) assms(1) d drop_j by simp
  then show ?case using replace_all_skip [of i S p rep] before i(1) match.IH by simp
next
  case (empty_match S i T)
  then have "candidate loc (literal p) MATCH_ANY S i i" unfolding first_longest_def by blast
  then show ?case using assms(1) by (simp add: literal_candidate)
qed

section \<open>The results are determined\<close>

lemma removed_unique:
  assumes "removed loc ts op s r" and "removed loc ts op s r'"
  shows "r = r'"
proof -
  have same: "r1 = r2" if "cut op s m1 r1" "cut op s m2 r2" "length m1 = length m2" for m1 m2 r1 r2
    using that by (auto simp: cut_def split: if_splits)
  have len: "length m1 = length m2" if "preferred op m1 m2" "preferred op m2 m1" for m1 m2
    using that by (auto simp: preferred_def split: if_splits)
  show ?thesis using assms same len unfolding removed_def by metis
qed

lemma first_longest_unique: "first_longest loc ts mtype S i j \<Longrightarrow> first_longest loc ts mtype S i' j' \<Longrightarrow> i = i' \<and> j = j'"
  unfolding first_longest_def by (metis le_antisym less_asym less_irrefl)

lemma first_longest_candidate: "first_longest loc ts mtype S i j \<Longrightarrow> \<exists>i j. candidate loc ts mtype S i j"
  unfolding first_longest_def by blast

lemma substituted_unique: "substituted loc ts rep S T \<Longrightarrow> substituted loc ts rep S T' \<Longrightarrow> T = T'"
proof (induction arbitrary: T' rule: substituted.induct)
  case (no_match S)
  from no_match(2) show ?case
    by (cases rule: substituted.cases) (use no_match(1) first_longest_candidate in blast)+
next
  case (match S i j T)
  from match.prems show ?case
  proof (cases rule: substituted.cases)
    case (match i' j' U)
    then show ?thesis using first_longest_unique [OF \<open>first_longest loc ts MATCH_ANY S i j\<close>] \<open>\<And>T'. substituted loc ts rep (drop j S) T' \<Longrightarrow> T = T'\<close> by metis
  qed (use match.hyps first_longest_candidate first_longest_unique in blast)+
next
  case (empty_match S i T)
  from empty_match.prems show ?case
  proof (cases rule: substituted.cases)
    case (empty_match i' U)
    then show ?thesis using first_longest_unique [OF \<open>first_longest loc ts MATCH_ANY S i i\<close>] \<open>\<And>T'. substituted loc ts rep (drop (i + 1) S) T' \<Longrightarrow> T = T'\<close> by metis
  qed (use empty_match.hyps first_longest_candidate first_longest_unique in blast)+
qed

lemma substituted_once_unique: "substituted_once loc ts mtype rep S T \<Longrightarrow> substituted_once loc ts mtype rep S T' \<Longrightarrow> T = T'"
  unfolding substituted_once_def using first_longest_unique first_longest_candidate by metis

section \<open>A quoted string as a pattern\<close>

lemma quoted_pattern:
  assumes "c_string p"
  shows "quote_string_for_globbing (quote_string p) QGLOB_CVTNULL = glob_text (literal p)"
proof (cases "p = []")
  case True
  then show ?thesis by (simp add: quote_string_def quote_string_for_globbing_def QUOTED_NULL_def QGLOB_CVTNULL_def literal_def)
next
  case False
  have "quote_globbing_loop QGLOB_CVTNULL prev (concat (map (\<lambda>c. [CTLESC, c]) q)) = glob_text (literal q)" if "c_string q" for q prev
    using that by (induction q arbitrary: prev) (simp_all add: literal_def QGLOB_CVTNULL_def QGLOB_REGEXP_def QGLOB_FILENAME_def)
  then show ?thesis
    using False assms quote_string_not_null [of p] by (simp add: quote_string_for_globbing_def quote_string_def)
qed

lemma quoted_not_globbed: "\<not> unquoted_glob_pattern_p (quote_string p)"
proof -
  have "\<not> unquoted_glob_loop n (concat (map (\<lambda>c. [CTLESC, c]) p))" for n by (induction p) simp_all
  then show ?thesis by (simp add: unquoted_glob_pattern_p_def quote_string_def)
qed

section \<open>Properties\<close>

text \<open>
  C8. \<^verbatim>\<open>${v#p}\<close> and its variants: removing a pattern cuts off the longest or the shortest matching prefix or
  suffix of the value, and leaves the value alone when none matches; the result is always defined.
\<close>

theorem remove_pattern_removes:
  assumes "wf_glob (FNMATCH_EXTFLAG eg) ts" and "c_string s" "op \<in> {RP_LONG_LEFT, RP_SHORT_LEFT, RP_LONG_RIGHT, RP_SHORT_RIGHT}"
  shows "remove_pattern loc eg (Some s) (Some (glob_text ts)) op = Some (Some r) \<longleftrightarrow> removed loc ts op s r"
proof -
  have "\<exists>r. remove_pattern loc eg (Some s) (Some (glob_text ts)) op = Some (Some r) \<and> removed loc ts op s r"
  proof (cases "s = [] \<or> ts = []")
    case True
    then have small: "m = []" if "cut op s m r" "m \<in> glob_lang loc ts" for m r
      using that by (auto simp: cut_def split: if_splits)
    then have "removed loc ts op s s"
    proof (cases "[] \<in> glob_lang loc ts")
      case True
      moreover have "cut op s [] s" by (simp add: cut_def)
      ultimately show ?thesis using small by (fastforce simp: removed_def preferred_def)
    next
      case False
      then show ?thesis using small unfolding removed_def by blast
    qed
    moreover have "remove_pattern loc eg (Some s) (Some (glob_text ts)) op = Some (Some s)" using True by (auto simp: remove_pattern_def)
    ultimately show ?thesis by blast
  next
    case False
    then show ?thesis using remove_upattern_removed [OF assms, of loc] by (auto simp: remove_pattern_def)
  qed
  then show ?thesis using removed_unique by fastforce
qed

text \<open>
  C7. \<^verbatim>\<open>${v/p/r}\<close> replaces the leftmost longest match, \<^verbatim>\<open>${v//p/r}\<close> all of them from the left, \<^verbatim>\<open>${v/#p/r}\<close> and
  \<^verbatim>\<open>${v/%p/r}\<close> the longest at the start or the end: the shortcuts by the first character and the length of a
  match lose none. Nothing else is a result, and no access is outside the string.
\<close>

theorem pat_subst_meaning:
  assumes "subst_glob eg ts" and "c_string s" "s \<noteq> []" "mflags AND MATCH_TYPEMASK = mtype" "mtype \<in> {MATCH_ANY, MATCH_BEG, MATCH_END}"
  shows "pat_subst loc eg (Some s) (Some (glob_text ts)) (Some rep) mflags = Some t \<longleftrightarrow>
    (if mflags AND MATCH_GLOBREP \<noteq> 0 \<and> mtype = MATCH_ANY then substituted loc ts rep s t
     else substituted_once loc ts mtype rep s t)"
proof -
  have "ts \<noteq> []" using assms(1) by (simp add: subst_glob_def)
  then have p: "pat_subst loc eg (Some s) (Some (glob_text ts)) (Some rep) mflags = subst_loop loc eg (Some (glob_text ts)) rep mflags [] s"
    by (simp add: pat_subst_def Let_def)
  show ?thesis
  proof (cases "mflags AND MATCH_GLOBREP \<noteq> 0 \<and> mtype = MATCH_ANY")
    case True
    then obtain T where "subst_loop loc eg (Some (glob_text ts)) rep mflags [] s = Some ([] @ T)" "substituted loc ts rep s T"
      using subst_loop_all [OF assms(1) _ _ assms(2), of mflags loc rep "[]"] assms(4) by blast
    then show ?thesis using True p substituted_unique by fastforce
  next
    case False
    then have once: "mflags AND MATCH_GLOBREP = 0 \<or> mtype \<noteq> MATCH_ANY" by simp
    obtain T where "subst_loop loc eg (Some (glob_text ts)) rep mflags [] s = Some T" "substituted_once loc ts mtype rep s T"
      using subst_loop_once [OF assms(1,5,4) once assms(2,3), of loc rep] by blast
    then show ?thesis using False p substituted_once_unique by fastforce
  qed
qed

text \<open>
  C9. A quoted pattern stands for itself: after the quoting of the shell and the conversion for the
  matcher, \<^verbatim>\<open>${v//"$p"/r}\<close> replaces every occurrence of the text of \<open>p\<close>, whatever characters it has, and the
  quoted text is not taken for a file name pattern.
\<close>

theorem quoted_pattern_replaces:
  assumes "c_string p" and "p \<noteq> []" "c_string s"
  shows "pat_subst loc eg (Some s) (Some (quote_string_for_globbing (quote_string p) QGLOB_CVTNULL)) (Some rep) MATCH_GLOBREP =
      Some (replace_all p rep s) \<and>
    \<not> unquoted_glob_pattern_p (quote_string p)"
proof -
  have flags: "MATCH_GLOBREP AND MATCH_TYPEMASK = MATCH_ANY" "MATCH_GLOBREP AND MATCH_GLOBREP \<noteq> 0"
    by (simp_all add: MATCH_GLOBREP_def MATCH_TYPEMASK_def MATCH_ANY_def)
  obtain T where "subst_loop loc eg (Some (glob_text (literal p))) rep MATCH_GLOBREP [] s = Some T" "substituted loc (literal p) rep s T"
    using subst_loop_all [OF literal_subst_glob [OF assms(1,2)] flags assms(3), of loc eg rep "[]"] by auto
  moreover have "glob_text (literal p) \<noteq> []" using assms(2) by (simp add: literal_def)
  ultimately show ?thesis
    using quoted_pattern [OF assms(1)] quoted_not_globbed substituted_literal [OF assms(2)] by (simp add: pat_subst_def Let_def)
qed

theorem remove_pattern_removes_witness:
  "\<forall>loc. remove_pattern loc False (Some ''a.b.c'') (Some ''*.'') RP_LONG_LEFT = Some (Some ''c'')"
proof
  fix loc
  let ?ts = "[Star, Char (False, CHR ''.'')]"
  have wf: "wf_glob (FNMATCH_EXTFLAG False) ?ts" "c_string ''a.b.c''" by code_simp+
  have lang: "m \<in> glob_lang loc ?ts \<longleftrightarrow> (\<exists>u. m = u @ ''.'')" for m by simp
  have "length m' \<le> length ''a.b.''" if m': "''a.b.c'' = m' @ r'" "m' \<in> glob_lang loc ?ts" for m' r'
  proof -
    have "last m' = CHR ''.''" using m'(2) unfolding lang by auto
    then have "r' \<noteq> []" using m'(1) by auto
    then show ?thesis using arg_cong [OF m'(1), of length] by (cases r') simp_all
  qed
  moreover have "''a.b.'' \<in> glob_lang loc ?ts" unfolding lang by (rule exI [of _ "''a.b''"]) simp
  ultimately have "removed loc ?ts RP_LONG_LEFT ''a.b.c'' ''c''"
    unfolding removed_def cut_def preferred_def by (intro disjI1 exI [of _ "''a.b.''"] conjI allI impI) (auto simp del: glob_lang.simps list.size)
  then show "remove_pattern loc False (Some ''a.b.c'') (Some ''*.'') RP_LONG_LEFT = Some (Some ''c'')" using remove_pattern_removes [OF wf, of RP_LONG_LEFT loc "''c''"] by simp
qed

theorem pat_subst_meaning_witness:
  "\<forall>loc. pat_subst loc False (Some ''a1b'') (Some ''[[:digit:]]*'') (Some ''-'') MATCH_GLOBREP = Some ''a-''"
proof
  fix loc
  let ?ts = "[Bracket False [Class ''digit''], Star]" and ?s = "''a1b''"
  have wf: "subst_glob False ?ts" "c_string ?s" by code_simp+
  have lang: "w \<in> glob_lang loc ?ts \<longleftrightarrow> w \<noteq> [] \<and> is_digit (hd w)" for w
    by (cases w) (auto simp: item_has_def is_cclass_def Let_def, metis append_Cons append_Nil)
  have cand: "candidate loc ?ts MATCH_ANY ?s i j \<longleftrightarrow> i = 1 \<and> 2 \<le> j \<and> j \<le> 3" for i j
  proof -
    have "candidate loc ?ts MATCH_ANY ?s i j \<longleftrightarrow> i < 3 \<and> i < j \<and> j \<le> 3 \<and> is_digit (?s ! i)"
      unfolding candidate_def matches_at_def lang admitted_def between_def by (auto simp: hd_drop_conv_nth)
    moreover have "i < 3 \<Longrightarrow> i = 0 \<or> i = 1 \<or> i = 2" by arith
    ultimately show ?thesis by (auto simp: is_digit_def)
  qed
  have "first_longest loc ?ts MATCH_ANY ?s 1 3" unfolding first_longest_def cand by simp
  moreover have "substituted loc ?ts ''-'' (drop 3 ?s) []"
    using substituted.no_match [of loc ?ts "[]" "''-''"] by (simp add: candidate_def admitted_def)
  ultimately have "substituted loc ?ts ''-'' ?s (take 1 ?s @ ''-'' @ [])"
    using substituted.match [of loc ?ts ?s 1 3 "''-''" "[]"] by simp
  then show "pat_subst loc False (Some ''a1b'') (Some ''[[:digit:]]*'') (Some ''-'') MATCH_GLOBREP = Some ''a-''"
    using pat_subst_meaning [OF wf, of MATCH_GLOBREP MATCH_ANY loc "''-''" "''a-''"]
    by (simp add: MATCH_GLOBREP_def MATCH_TYPEMASK_def MATCH_ANY_def items_text_def)
qed

theorem quoted_pattern_replaces_witness:
  "\<forall>loc. pat_subst loc True (Some ''a*[b*['') (Some (quote_string_for_globbing (quote_string ''*['') QGLOB_CVTNULL)) (Some ''-'') MATCH_GLOBREP =
     Some ''a-b-''"
  using quoted_pattern_replaces [of "''*[''" "''a*[b*[''" _ True "''-''"] by simp

section \<open>Where substitution departs from the meaning\<close>

lemma strmatch_Suc:
  assumes "\<And>k. gmatch_loop (gmatch k loc P S) loc P S flags 0 (length S) (length P) 0 0 = r"
  shows "strmatch loc P S flags = r"
proof -
  obtain k where "glob_fuel P S = Suc k" by (cases "glob_fuel P S") (simp_all add: glob_fuel_def)
  then show ?thesis using assms [of k] by (simp add: strmatch_def)
qed

lemma bracket_first_closing:
  "c_at P p = CHR ''!'' \<Longrightarrow> c_at P (p + 1) = CHR '']'' \<Longrightarrow> c_at P (p + 2) = CHR '']'' \<Longrightarrow> t \<noteq> CHR '']'' \<Longrightarrow> brackmatch loc P p t 0 = B_At (p + 3)"
  by (simp add: brackmatch_def bracket_loop.simps [of _ _ _ _ _ _ "CHR '']''"] bracket_item_def plain_item_def compare_item_def not_matched_def
      flag_numbers FOLD_def rangecmp_same rangecmp_0 Let_def numeral_3_eq_3 numeral_2_eq_2)

text \<open>\<open>[!]]x\<close> matches \<open>ax\<close>, also between stars.\<close>

lemma gmatch_loop_end: "pe \<le> p \<Longrightarrow> n = se \<Longrightarrow> gmatch_loop call loc P S flags start se pe n p = Match"
  by (simp add: gmatch_loop.simps)

lemma gmatch_loop_step:
  "p < pe \<Longrightarrow> gmatch_step call loc P S flags start se pe n p = Inr p' \<Longrightarrow>
   gmatch_loop call loc P S flags start se pe n p = gmatch_loop call loc P S flags start se pe (n + 1) p'"
  by (subst gmatch_loop.simps) simp

lemma gmatch_loop_return:
  "p < pe \<Longrightarrow> gmatch_step call loc P S flags start se pe n p = Inl r \<Longrightarrow> gmatch_loop call loc P S flags start se pe n p = r"
  by (subst gmatch_loop.simps) simp

lemma negated_bracket_matches: "strmatch loc ''[!]]x'' ''ax'' 0 = Match"
proof (rule strmatch_Suc)
  fix k
  let ?P = "''[!]]x''" and ?call = "gmatch k loc ''[!]]x'' ''ax''"
  have "brackmatch loc ?P 1 (CHR ''a'') 0 = B_At 4"
    using bracket_first_closing [of ?P 1 "CHR ''a''" loc] by (simp add: c_at_def)
  then have "gmatch_step ?call loc ?P ''ax'' 0 0 2 5 0 0 = Inr 4"
    by (simp add: gmatch_step_def Let_def c_at_def flag_numbers FOLD_def string_at_def leading_dot_def BSLASH_def)
  moreover have "gmatch_step ?call loc ?P ''ax'' 0 0 2 5 1 4 = Inr 5"
    by (simp add: gmatch_step_def Let_def c_at_def flag_numbers FOLD_def string_at_def BSLASH_def)
  ultimately have "gmatch_loop ?call loc ?P ''ax'' 0 0 2 5 0 0 = Match"
    by (simp add: gmatch_loop_step [of 0 5] gmatch_loop_step [of 4 5] gmatch_loop_end)
  then show "gmatch_loop ?call loc ?P ''ax'' 0 0 (length ''ax'') (length ?P) 0 0 = Match" by (simp add: numeral_eq_Suc)
qed

lemma negated_bracket_between_stars: "strmatch loc ''*[!]]x*'' ''ax'' 0 = Match"
proof -
  let ?P = "''*[!]]x*''"
  obtain k where k: "glob_fuel ?P ''ax'' = Suc (Suc k)" by (simp add: glob_fuel_def)
  define call where "call = gmatch (Suc k) loc ?P ''ax''"
  note step = gmatch_step_def Let_def c_at_def flag_numbers FOLD_def string_at_def leading_dot_def BSLASH_def
  have "brackmatch loc ?P 2 (CHR ''a'') 0 = B_At 5"
    using bracket_first_closing [of ?P 2 "CHR ''a''" loc] by (simp add: c_at_def)
  then have "gmatch_step c loc ?P ''ax'' 0 0 2 7 0 1 = Inr 5" for c by (simp add: step numeral_2_eq_2)
  moreover have "gmatch_step c loc ?P ''ax'' 0 0 2 7 1 5 = Inr 6" for c by (simp add: step)
  moreover have "gmatch_step c loc ?P ''ax'' 0 0 2 7 2 6 = Inl Match" for c by (simp add: step)
  ultimately have "gmatch_loop c loc ?P ''ax'' 0 0 2 7 0 1 = Match" for c
    by (simp add: gmatch_loop_step [of "Suc 0" 7] gmatch_loop_step [of 5 7] gmatch_loop_return [of 6 7] numeral_2_eq_2)
  then have here: "call 0 2 1 7 0 = Match" by (simp add: call_def)
  have "star_match call loc ?P ''ax'' 0 2 7 1 0 = Match"
    using here by (simp add: star_match_def star_loop.simps star_general_def flag_numbers c_at_def first_match_def or_match_def upt_rec Let_def no_period_def)
  then have "gmatch_step call loc ?P ''ax'' 0 0 2 7 0 0 = Inl Match" by (simp add: step)
  then have "gmatch_loop call loc ?P ''ax'' 0 0 2 7 0 0 = Match" by (simp add: gmatch_loop_return [of 0 7])
  moreover have "length ?P = 7" "length ''ax'' = 2" by simp_all
  ultimately show ?thesis by (simp only: strmatch_def k gmatch.simps(2) [of "Suc k"] call_def)
qed

text \<open>
  Samples of where substitution departs from that meaning: a pattern that starts with a star and ends with a quoted
  star is not found at all, since the test for a final star overlooks the quoting; an unquoted closing
  bracket behind \<open>[!\<close> makes the length of a match too large, and the search for it at the start of the string
  writes behind the string; an unclosed inner bracket makes it too small; on the empty string no
  anchored pattern matches.
\<close>

lemma pat_subst_divergences:
  "strmatch loc (CHR ''*'' # BSLASH # ''*'') ''a*'' 0 = Match \<and>
   pat_subst loc False (Some ''a*b'') (Some (CHR ''*'' # BSLASH # ''*'')) (Some ''-'') 0 = Some ''a*b'' \<and>
   strmatch loc ''[!]]x'' ''ax'' 0 = Match \<and>
   match_pattern loc False (Some ''ax'') (Some ''[!]]x'') MATCH_BEG = Span_Outside \<and>
   umatchlen ''[[:'' = 2 \<and>
   strmatch loc ''*'' [] 0 = Match \<and> pat_subst loc False (Some []) (Some ''*'') (Some ''-'') MATCH_BEG = Some []"
proof (intro conjI)
  let ?ts = "[Star, Char (True, CHR ''*'')]"
  have wf: "wf_glob 0 ?ts" by code_simp
  have lang: "w \<in> glob_lang loc ?ts \<longleftrightarrow> (\<exists>u. w = u @ ''*'')" for w by simp
  have "''a*'' \<in> glob_lang loc ?ts" unfolding lang by (rule exI [of _ "''a''"]) simp
  then show "strmatch loc (CHR ''*'' # BSLASH # ''*'') ''a*'' 0 = Match"
    using strmatch_language [OF wf, of "''a*''" loc] by (simp add: plain_flags_def)
  have "''a*b'' \<notin> glob_lang loc ?ts" unfolding lang by (auto dest: arg_cong [of _ _ last])
  then have "strmatch loc (CHR ''*'' # BSLASH # ''*'') ''a*b'' 0 = No_Match"
    using strmatch_language [OF wf, of "''a*b''" loc] by (simp add: plain_flags_def del: glob_lang.simps)
  then show "pat_subst loc False (Some ''a*b'') (Some (CHR ''*'' # BSLASH # ''*'')) (Some ''-'') 0 = Some ''a*b''"
    by (simp add: pat_subst_def subst_loop.simps match_pattern_def match_upattern_def any_pattern_def FNMATCH_EXTFLAG_def c_at_def Let_def)
  show "strmatch loc ''[!]]x'' ''ax'' 0 = Match" by (rule negated_bracket_matches)
  have "umatchlen ''[!]]x'' = 3" by code_simp
  moreover have "any_pattern False ''[!]]x'' = ''*[!]]x*''" by code_simp
  moreover have "match_pattern_char ''[!]]x'' ''ax''" by code_simp
  ultimately show "match_pattern loc False (Some ''ax'') (Some ''[!]]x'') MATCH_BEG = Span_Outside"
    using negated_bracket_between_stars [of loc]
    by (simp add: match_pattern_def match_upattern_def FNMATCH_EXTFLAG_def MATCH_BEG_def MATCH_ANY_def)
  show "umatchlen ''[[:'' = 2" by code_simp
  show "strmatch loc ''*'' [] 0 = Match"
    using strmatch_language [of 0 "[Star]" "[]" loc] by (simp add: plain_flags_def)
  show "pat_subst loc False (Some []) (Some ''*'') (Some ''-'') MATCH_BEG = Some []"
    by (simp add: pat_subst_def subst_loop.simps match_pattern_empty)
qed

end
