(* ===== verification/Line_Editor.thy ===== *)
theory Line_Editor
  imports History_List
begin

text \<open>
  The line being edited, its undo list, the kill ring and the moves through the history, in a
  single-byte locale: \<^verbatim>\<open>undo.c\<close>, \<^verbatim>\<open>kill.c\<close>, and of \<^verbatim>\<open>text.c\<close>, \<^verbatim>\<open>misc.c\<close>,
  \<^verbatim>\<open>util.c\<close> and \<^verbatim>\<open>readline.c\<close> of \<^verbatim>\<open>lib/readline\<close> the commands that change the text,
  the position, the mark or the history, and the loop around them. The undo list is a chain of nodes
  in a heap, since entries of the history point into the same chain. An access to a freed node or
  entry or outside the line has no result (\<open>None\<close>). What is drawn or rung on the terminal and the
  return values, which the loop ignores, are left out; a fresh allocation never reuses an address.
\<close>

section \<open>State (readline.h, rlprivate.h, undo.c, kill.c)\<close>

datatype undo_code = UNDO_DELETE | UNDO_INSERT | UNDO_BEGIN | UNDO_END

text \<open>A node of the undo list; \<open>u_next\<close> is an address, 0 for the end.\<close>

record undo_node =
  u_what :: undo_code
  u_start :: int
  u_end :: int
  u_text :: "cstring option"
  u_next :: nat

datatype editing_mode = vi_mode | emacs_mode

text \<open>The last command, as far as anything depends on it (\<^verbatim>\<open>rl_last_func\<close>).\<close>

datatype last_func = No_func | Func_yank | Func_yank_pop | Func_other

text \<open>
  The text up to \<^verbatim>\<open>rl_end\<close> is \<open>rl_line_buffer\<close>. \<open>rl_kill_ring\<close> is \<open>None\<close> when it
  is null; its length is \<^verbatim>\<open>rl_kill_ring_length\<close>. \<open>saved_line\<close> is
  \<^verbatim>\<open>_rl_saved_line_for_history\<close>.
\<close>

record editor =
  rl_line_buffer :: cstring
  rl_point :: int
  rl_mark :: int
  rl_undo_list :: nat
  undo_heap :: "nat \<Rightarrow> undo_node option"
  next_undo :: nat
  rl_doing_an_undo :: bool
  rl_undo_group_level :: int
  rl_kill_ring :: "cstring list option"
  rl_kill_index :: int
  last_command_was_kill :: int
  rl_editing_mode :: editing_mode
  vi_movement :: bool
  overwrite_mode :: bool
  rl_explicit_arg :: bool
  pathname_alphabetic :: bool
  output_meta_chars :: bool
  rl_last_func :: last_func
  hist :: history
  saved_line :: "hist_entry option"
  history_preserve_point :: bool
  history_saved_point :: int
  revert_all_at_newline :: bool

definition rl_end :: "editor \<Rightarrow> int" where
  "rl_end ed = int (length (rl_line_buffer ed))"

definition VI_COMMAND_MODE :: "editor \<Rightarrow> bool" where
  "VI_COMMAND_MODE ed \<longleftrightarrow> rl_editing_mode ed = vi_mode \<and> vi_movement ed"

definition in_line :: "editor \<Rightarrow> int \<Rightarrow> bool" where
  "in_line ed i \<longleftrightarrow> 0 \<le> i \<and> i \<le> rl_end ed"

section \<open>The undo list (undo.c)\<close>

definition rl_add_undo :: "undo_code \<Rightarrow> int \<Rightarrow> int \<Rightarrow> cstring option \<Rightarrow> editor \<Rightarrow> editor" where
  "rl_add_undo what start finish str ed =
     ed\<lparr>undo_heap := (undo_heap ed)(next_undo ed \<mapsto>
          \<lparr>u_what = what, u_start = start, u_end = finish, u_text = str, u_next = rl_undo_list ed\<rparr>),
        rl_undo_list := next_undo ed, next_undo := Suc (next_undo ed)\<rparr>"

definition rl_begin_undo_group :: "editor \<Rightarrow> editor" where
  "rl_begin_undo_group ed =
     (let ed1 = rl_add_undo UNDO_BEGIN 0 0 None ed
      in ed1\<lparr>rl_undo_group_level := rl_undo_group_level ed1 + 1\<rparr>)"

definition rl_end_undo_group :: "editor \<Rightarrow> editor" where
  "rl_end_undo_group ed =
     (let ed1 = rl_add_undo UNDO_END 0 0 None ed
      in ed1\<lparr>rl_undo_group_level := rl_undo_group_level ed1 - 1\<rparr>)"

section \<open>Inserting and deleting (text.c, util.c)\<close>

text \<open>\<^verbatim>\<open>strncpy\<close> stops at the end of the line but must start inside it.\<close>

definition rl_copy_text :: "int \<Rightarrow> int \<Rightarrow> editor \<Rightarrow> cstring option" where
  "rl_copy_text from1 to1 ed =
     (let a = min from1 to1; b = max from1 to1
      in if in_line ed a then Some (take (nat (b - a)) (drop (nat a) (rl_line_buffer ed))) else None)"

text \<open>A single character typed behind the last insertion joins its undo node.\<close>

definition joins_last :: "cstring \<Rightarrow> int \<Rightarrow> undo_node \<Rightarrow> bool" where
  "joins_last string point n \<longleftrightarrow>
     length string = 1 \<and> u_what n = UNDO_INSERT \<and> u_end n = point \<and> u_end n - u_start n < 20"

definition remember_insert :: "cstring \<Rightarrow> editor \<Rightarrow> editor option" where
  "remember_insert string ed =
     (let p = rl_point ed; new = rl_add_undo UNDO_INSERT p (p + int (length string)) None ed
      in if rl_doing_an_undo ed then Some ed
         else if rl_undo_list ed = 0 then Some new
         else
           do { n \<leftarrow> undo_heap ed (rl_undo_list ed);
                Some (if joins_last string p n
                      then ed\<lparr>undo_heap := (undo_heap ed)(rl_undo_list ed \<mapsto> n\<lparr>u_end := u_end n + 1\<rparr>)\<rparr>
                      else new) })"

definition rl_insert_text :: "cstring \<Rightarrow> editor \<Rightarrow> editor option" where
  "rl_insert_text string ed =
     (if string = [] then Some ed
      else if \<not> in_line ed (rl_point ed) then None
      else
        do { ed1 \<leftarrow> remember_insert string ed;
             let p = nat (rl_point ed); let line = rl_line_buffer ed;
             Some (ed1\<lparr>rl_line_buffer := take p line @ string @ drop p line,
                       rl_point := rl_point ed + int (length string)\<rparr>) })"

definition rl_delete_text :: "int \<Rightarrow> int \<Rightarrow> editor \<Rightarrow> editor option" where
  "rl_delete_text from1 to1 ed =
     (let a = min from1 to1; b = max from1 to1;
          b1 = min b (rl_end ed);
          a1 = (if rl_end ed < b \<and> b1 < a then b1 else a);
          a2 = (if a1 < 0 then 0 else a1)
      in do { str \<leftarrow> rl_copy_text a2 b1 ed;
              let ed1 = (if rl_doing_an_undo ed then ed else rl_add_undo UNDO_DELETE a2 b1 (Some str) ed);
              let line = rl_line_buffer ed;
              Some (ed1\<lparr>rl_line_buffer := take (nat a2) line @ drop (nat b1) line\<rparr>) })"

definition fix_in_line :: "editor \<Rightarrow> int \<Rightarrow> int" where
  "fix_in_line ed x = (if rl_end ed < x then rl_end ed else if x < 0 then 0 else x)"

definition rl_fix_point :: "bool \<Rightarrow> editor \<Rightarrow> editor" where
  "rl_fix_point fix_mark_too ed =
     (let ed1 = ed\<lparr>rl_point := fix_in_line ed (rl_point ed)\<rparr>
      in if fix_mark_too then ed1\<lparr>rl_mark := fix_in_line ed1 (rl_mark ed1)\<rparr> else ed1)"

definition rl_replace_text :: "cstring \<Rightarrow> int \<Rightarrow> int \<Rightarrow> editor \<Rightarrow> editor option" where
  "rl_replace_text string start finish ed =
     do { let ed1 = rl_begin_undo_group ed;
          ed2 \<leftarrow> (if start \<le> finish then rl_delete_text start (finish + 1) ed1 else Some ed1);
          ed3 \<leftarrow> rl_insert_text string (ed2\<lparr>rl_point := start\<rparr>);
          Some (rl_end_undo_group ed3) }"

text \<open>Nodes for an in-place change of the text from \<open>start\<close> to \<open>finish\<close>.\<close>

definition rl_modifying :: "int \<Rightarrow> int \<Rightarrow> editor \<Rightarrow> editor option" where
  "rl_modifying start finish ed =
     (let a = min start finish; b = max start finish
      in if a = b then Some ed
         else
           do { str \<leftarrow> rl_copy_text a b ed;
                Some (rl_end_undo_group
                  (rl_add_undo UNDO_INSERT a b None
                    (rl_add_undo UNDO_DELETE a b (Some str) (rl_begin_undo_group ed)))) })"

section \<open>Undoing (undo.c)\<close>

text \<open>Freeing an entry taken out of the history; a null pointer is not caught.\<close>

definition release_entry :: "slot \<Rightarrow> history \<Rightarrow> history option" where
  "release_entry p h =
     (case p of Entry a \<Rightarrow> map_option snd (free_history_entry p h) | _ \<Rightarrow> None)"

text \<open>
  A history entry that shares the released node gets the text as it is now; other pointers to the
  node move on to the next one.
\<close>

definition undo_history :: "cstring \<Rightarrow> nat \<Rightarrow> nat \<Rightarrow> history \<Rightarrow> history option" where
  "undo_history line release new h =
     do { p \<leftarrow> current_history h;
          cur \<leftarrow> entry_of h p;
          h1 \<leftarrow> (case cur of
                  Some e \<Rightarrow>
                    if he_data e \<noteq> 0 \<and> he_data e = release
                    then do { (temp, h1) \<leftarrow> replace_history_entry (where_history h) line new h;
                              release_entry temp h1 }
                    else Some h
                | None \<Rightarrow> Some h);
          replace_history_data (- 1) release new h1 }"

definition TRANS :: "editor \<Rightarrow> int \<Rightarrow> int" where
  "TRANS ed i = (if i = - 1 then rl_point ed else if i = - 2 then rl_end ed else i)"

text \<open>What one node undoes, and the number of groups that wait for their beginning.\<close>

definition undo_node_effect :: "undo_node \<Rightarrow> int \<Rightarrow> editor \<Rightarrow> (int \<times> editor) option" where
  "undo_node_effect n waiting_for_begin ed =
     (case u_what n of
        UNDO_DELETE \<Rightarrow>
          do { ed1 \<leftarrow> rl_insert_text (case u_text n of None \<Rightarrow> [] | Some str \<Rightarrow> str)
                        (ed\<lparr>rl_point := TRANS ed (u_start n)\<rparr>);
               Some (waiting_for_begin, ed1) }
      | UNDO_INSERT \<Rightarrow>
          do { ed1 \<leftarrow> rl_delete_text (TRANS ed (u_start n)) (TRANS ed (u_end n)) ed;
               Some (waiting_for_begin, ed1\<lparr>rl_point := TRANS ed (u_start n)\<rparr>) }
      | UNDO_END \<Rightarrow> Some (waiting_for_begin + 1, ed)
      | UNDO_BEGIN \<Rightarrow> Some (if waiting_for_begin \<noteq> 0 then waiting_for_begin - 1 else 0, ed))"

definition undo_one :: "int \<Rightarrow> editor \<Rightarrow> (int \<times> editor) option" where
  "undo_one waiting_for_begin ed =
     do { n \<leftarrow> undo_heap ed (rl_undo_list ed);
          (waiting, ed1) \<leftarrow> undo_node_effect n waiting_for_begin (ed\<lparr>rl_doing_an_undo := True\<rparr>);
          let release = rl_undo_list ed1;
          h \<leftarrow> undo_history (rl_line_buffer ed1) release (u_next n) (hist ed1);
          Some (waiting, ed1\<lparr>rl_doing_an_undo := False, rl_undo_list := u_next n, hist := h,
                             undo_heap := (undo_heap ed1)(release := None)\<rparr>) }"

text \<open>
  \<^verbatim>\<open>do ... while (waiting_for_begin)\<close>; a list is shorter than the number of nodes ever made, so
  as many rounds are enough.
\<close>

primrec undo_loop :: "nat \<Rightarrow> int \<Rightarrow> editor \<Rightarrow> (bool \<times> editor) option" where
  "undo_loop 0 waiting_for_begin ed = None"
| "undo_loop (Suc fuel) waiting_for_begin ed =
     (if rl_undo_list ed = 0 then Some (False, ed)
      else
        do { (waiting, ed1) \<leftarrow> undo_one waiting_for_begin ed;
             if waiting \<noteq> 0 then undo_loop fuel waiting ed1 else Some (True, ed1) })"

definition rl_do_undo :: "editor \<Rightarrow> (bool \<times> editor) option" where
  "rl_do_undo ed = undo_loop (Suc (next_undo ed)) 0 ed"

text \<open>\<^verbatim>\<open>while (rl_undo_list) rl_do_undo ();\<close>\<close>

primrec undo_all :: "nat \<Rightarrow> editor \<Rightarrow> editor option" where
  "undo_all 0 ed = None"
| "undo_all (Suc fuel) ed =
     (if rl_undo_list ed = 0 then Some ed
      else do { (_, ed1) \<leftarrow> rl_do_undo ed; undo_all fuel ed1 })"

definition rl_revert_line :: "editor \<Rightarrow> editor option" where
  "rl_revert_line ed =
     (if rl_undo_list ed = 0 then Some ed
      else
        do { ed1 \<leftarrow> undo_all (Suc (next_undo ed)) ed;
             Some (if rl_editing_mode ed1 = vi_mode then ed1\<lparr>rl_point := 0, rl_mark := 0\<rparr> else ed1) })"

text \<open>\<^verbatim>\<open>while (count)\<close> of \<^verbatim>\<open>rl_undo_command\<close>.\<close>

primrec undo_times :: "nat \<Rightarrow> editor \<Rightarrow> editor option" where
  "undo_times 0 ed = Some ed"
| "undo_times (Suc n) ed =
     do { (some, ed1) \<leftarrow> rl_do_undo ed; if some then undo_times n ed1 else Some ed1 }"

definition rl_undo_command :: "int \<Rightarrow> editor \<Rightarrow> editor option" where
  "rl_undo_command cnt ed = (if cnt < 0 then Some ed else undo_times (nat cnt) ed)"

text \<open>Freeing a list: each node is read before it is freed.\<close>

primrec free_undo_nodes :: "nat \<Rightarrow> nat \<Rightarrow> editor \<Rightarrow> editor option" where
  "free_undo_nodes 0 ul ed = None"
| "free_undo_nodes (Suc fuel) ul ed =
     (if ul = 0 then Some ed
      else
        do { n \<leftarrow> undo_heap ed ul;
             free_undo_nodes fuel (u_next n) (ed\<lparr>undo_heap := (undo_heap ed)(ul := None)\<rparr>) })"

definition rl_free_undo_list :: "editor \<Rightarrow> editor option" where
  "rl_free_undo_list ed =
     do { ed1 \<leftarrow> free_undo_nodes (Suc (next_undo ed)) (rl_undo_list ed) ed;
          h \<leftarrow> replace_history_data (- 1) (rl_undo_list ed) 0 (hist ed1);
          Some (ed1\<lparr>rl_undo_list := 0, hist := h\<rparr>) }"

definition rl_replace_line :: "cstring \<Rightarrow> bool \<Rightarrow> editor \<Rightarrow> editor option" where
  "rl_replace_line string clear_undo ed =
     do { let ed1 = ed\<lparr>rl_line_buffer := string\<rparr>;
          ed2 \<leftarrow> (if clear_undo then rl_free_undo_list ed1 else Some ed1);
          Some (rl_fix_point True ed2) }"

section \<open>Moving (text.c)\<close>

definition rl_alphabetic :: "editor \<Rightarrow> char \<Rightarrow> bool" where
  "rl_alphabetic ed c \<longleftrightarrow>
     is_alpha c \<or> is_digit c \<or> (pathname_alphabetic ed \<and> c \<in> set ''/-_=~.#$'')"

definition forward_bytes :: "int \<Rightarrow> editor \<Rightarrow> editor" where
  "forward_bytes cnt ed =
     (let finish = rl_point ed + cnt;
          lend = (if 0 < rl_end ed \<and> VI_COMMAND_MODE ed then rl_end ed - 1 else rl_end ed)
      in if 0 < cnt then ed\<lparr>rl_point := (if lend < finish then lend else finish)\<rparr> else ed)"

definition backward_bytes :: "int \<Rightarrow> editor \<Rightarrow> editor" where
  "backward_bytes cnt ed =
     (let p = (if 0 < cnt then if rl_point ed < cnt then 0 else rl_point ed - cnt else rl_point ed)
      in ed\<lparr>rl_point := (if p < 0 then 0 else p)\<rparr>)"

definition rl_forward_byte :: "int \<Rightarrow> editor \<Rightarrow> editor" where
  "rl_forward_byte cnt ed = (if cnt < 0 then backward_bytes (- cnt) ed else forward_bytes cnt ed)"

definition rl_backward_byte :: "int \<Rightarrow> editor \<Rightarrow> editor" where
  "rl_backward_byte cnt ed = (if cnt < 0 then forward_bytes (- cnt) ed else backward_bytes cnt ed)"

definition rl_beg_of_line :: "editor \<Rightarrow> editor" where
  "rl_beg_of_line ed = ed\<lparr>rl_point := 0\<rparr>"

definition rl_end_of_line :: "editor \<Rightarrow> editor" where
  "rl_end_of_line ed = ed\<lparr>rl_point := rl_end ed\<rparr>"

text \<open>The first position from \<open>i\<close> on, or the last one back to \<open>i\<close>, where \<open>Q\<close> fails.\<close>

definition skip_right :: "(char \<Rightarrow> bool) \<Rightarrow> cstring \<Rightarrow> nat \<Rightarrow> nat" where
  "skip_right Q s i = i + length (takeWhile Q (drop i s))"

definition skip_left :: "(char \<Rightarrow> bool) \<Rightarrow> cstring \<Rightarrow> nat \<Rightarrow> nat" where
  "skip_left Q s i = i - length (takeWhile Q (rev (take i s)))"

definition forward_word_from :: "(char \<Rightarrow> bool) \<Rightarrow> cstring \<Rightarrow> nat \<Rightarrow> nat" where
  "forward_word_from alphabetic s p =
     skip_right alphabetic s (skip_right (Not \<circ> alphabetic) s p)"

definition backward_word_from :: "(char \<Rightarrow> bool) \<Rightarrow> cstring \<Rightarrow> nat \<Rightarrow> nat" where
  "backward_word_from alphabetic s p =
     skip_left alphabetic s (skip_left (Not \<circ> alphabetic) s p)"

definition forward_words :: "int \<Rightarrow> editor \<Rightarrow> editor option" where
  "forward_words cnt ed =
     (if in_line ed (rl_point ed)
      then Some (ed\<lparr>rl_point := int ((forward_word_from (rl_alphabetic ed) (rl_line_buffer ed) ^^ nat cnt) (nat (rl_point ed)))\<rparr>)
      else None)"

definition backward_words :: "int \<Rightarrow> editor \<Rightarrow> editor option" where
  "backward_words cnt ed =
     (if in_line ed (rl_point ed)
      then Some (ed\<lparr>rl_point := int ((backward_word_from (rl_alphabetic ed) (rl_line_buffer ed) ^^ nat cnt) (nat (rl_point ed)))\<rparr>)
      else None)"

definition rl_forward_word :: "int \<Rightarrow> editor \<Rightarrow> editor option" where
  "rl_forward_word cnt ed = (if cnt < 0 then backward_words (- cnt) ed else forward_words cnt ed)"

definition rl_backward_word :: "int \<Rightarrow> editor \<Rightarrow> editor option" where
  "rl_backward_word cnt ed = (if cnt < 0 then forward_words (- cnt) ed else backward_words cnt ed)"

section \<open>The kill ring (kill.c)\<close>

definition rl_max_kills :: nat where
  "rl_max_kills = 10"

text \<open>
  The slot for a new kill. A full ring moves down by one; the last round of that loop reads the
  pointer behind the ring, which is overwritten at once with the new slot.
\<close>

definition new_kill_slot :: "cstring list option \<Rightarrow> cstring list" where
  "new_kill_slot ring =
     (case ring of
        None \<Rightarrow> [[]]
      | Some slots \<Rightarrow> if length slots = rl_max_kills then tl slots @ [[]] else slots @ [[]])"

definition rl_copy_to_kill_ring :: "cstring \<Rightarrow> bool \<Rightarrow> editor \<Rightarrow> editor option" where
  "rl_copy_to_kill_ring str at_end ed =
     (if last_command_was_kill ed = 0 then
        let slots = new_kill_slot (rl_kill_ring ed); slot = length slots - 1
        in Some (ed\<lparr>rl_kill_ring := Some (slots[slot := str]), rl_kill_index := int slot\<rparr>)
      else
        do { slots \<leftarrow> rl_kill_ring ed;
             let slot = length slots - 1;
             if slots = [] then None
             else Some (ed\<lparr>rl_kill_ring := Some (slots[slot :=
                              if rl_editing_mode ed \<noteq> vi_mode
                              then if at_end then slots ! slot @ str else str @ slots ! slot
                              else str]),
                           rl_kill_index := int slot\<rparr>) })"

definition count_kill :: "editor \<Rightarrow> editor" where
  "count_kill ed = ed\<lparr>last_command_was_kill := last_command_was_kill ed + 1\<rparr>"

definition rl_kill_text :: "int \<Rightarrow> int \<Rightarrow> editor \<Rightarrow> editor option" where
  "rl_kill_text from1 to1 ed =
     (if from1 = to1 then Some (count_kill ed)
      else
        do { str \<leftarrow> rl_copy_text from1 to1 ed;
             ed1 \<leftarrow> rl_delete_text from1 to1 ed;
             ed2 \<leftarrow> rl_copy_to_kill_ring str (from1 < to1) ed1;
             Some (count_kill ed2) })"

definition mark_point :: "editor \<Rightarrow> editor" where
  "mark_point ed = (if rl_editing_mode ed = emacs_mode then ed\<lparr>rl_mark := rl_point ed\<rparr> else ed)"

definition kill_words :: "int \<Rightarrow> editor \<Rightarrow> editor option" where
  "kill_words cnt ed =
     do { let orig_point = rl_point ed;
          ed1 \<leftarrow> rl_forward_word cnt ed;
          ed2 \<leftarrow> (if rl_point ed1 \<noteq> orig_point then rl_kill_text orig_point (rl_point ed1) ed1 else Some ed1);
          Some (mark_point (ed2\<lparr>rl_point := orig_point\<rparr>)) }"

definition backward_kill_words :: "int \<Rightarrow> editor \<Rightarrow> editor option" where
  "backward_kill_words cnt ed =
     do { let orig_point = rl_point ed;
          ed1 \<leftarrow> rl_backward_word cnt ed;
          ed2 \<leftarrow> (if rl_point ed1 \<noteq> orig_point then rl_kill_text orig_point (rl_point ed1) ed1 else Some ed1);
          Some (mark_point ed2) }"

definition rl_kill_word :: "int \<Rightarrow> editor \<Rightarrow> editor option" where
  "rl_kill_word cnt ed = (if cnt < 0 then backward_kill_words (- cnt) ed else kill_words cnt ed)"

definition rl_backward_kill_word :: "int \<Rightarrow> editor \<Rightarrow> editor option" where
  "rl_backward_kill_word cnt ed = (if cnt < 0 then kill_words (- cnt) ed else backward_kill_words cnt ed)"

definition kill_to_end :: "editor \<Rightarrow> editor option" where
  "kill_to_end ed =
     do { let orig_point = rl_point ed;
          let ed1 = rl_end_of_line ed;
          ed2 \<leftarrow> (if orig_point \<noteq> rl_point ed1 then rl_kill_text orig_point (rl_point ed1) ed1 else Some ed1);
          Some (mark_point (ed2\<lparr>rl_point := orig_point\<rparr>)) }"

definition kill_to_start :: "editor \<Rightarrow> editor option" where
  "kill_to_start ed =
     (if rl_point ed = 0 then Some ed
      else
        do { let orig_point = rl_point ed;
             let ed1 = rl_beg_of_line ed;
             ed2 \<leftarrow> (if rl_point ed1 \<noteq> orig_point then rl_kill_text orig_point (rl_point ed1) ed1 else Some ed1);
             Some (mark_point ed2) })"

definition rl_kill_line :: "int \<Rightarrow> editor \<Rightarrow> editor option" where
  "rl_kill_line direction ed = (if direction < 0 then kill_to_start ed else kill_to_end ed)"

definition rl_backward_kill_line :: "int \<Rightarrow> editor \<Rightarrow> editor option" where
  "rl_backward_kill_line direction ed = (if direction < 0 then kill_to_end ed else kill_to_start ed)"

definition rl_kill_full_line :: "editor \<Rightarrow> editor option" where
  "rl_kill_full_line ed =
     do { let ed1 = (rl_begin_undo_group ed)\<lparr>rl_point := 0\<rparr>;
          ed2 \<leftarrow> rl_kill_text (rl_point ed1) (rl_end ed1) ed1;
          Some (rl_end_undo_group (ed2\<lparr>rl_mark := 0\<rparr>)) }"

definition word_rubout_from :: "cstring \<Rightarrow> nat \<Rightarrow> nat" where
  "word_rubout_from s p = skip_left (Not \<circ> whitespace) s (skip_left whitespace s p)"

definition rl_unix_word_rubout :: "int \<Rightarrow> editor \<Rightarrow> editor option" where
  "rl_unix_word_rubout cnt ed =
     (if rl_point ed = 0 then Some ed
      else if \<not> in_line ed (rl_point ed) then None
      else
        do { let orig_point = rl_point ed;
             let times = (if cnt \<le> 0 then 1 else nat cnt);
             let p = (word_rubout_from (rl_line_buffer ed) ^^ times) (nat orig_point);
             ed1 \<leftarrow> rl_kill_text orig_point (int p) (ed\<lparr>rl_point := int p\<rparr>);
             Some (mark_point ed1) })"

text \<open>
  Going back, \<^verbatim>\<open>rl_unix_filename_rubout\<close> also reads the byte before the line; its value is
  never used, since the loops stop at position 0.
\<close>

definition filename_rubout_from :: "cstring \<Rightarrow> nat \<Rightarrow> nat" where
  "filename_rubout_from s p =
     (let sep = (\<lambda>c. whitespace c \<or> c = CHR ''/'')
      in skip_left (Not \<circ> sep) s (skip_left sep s p))"

definition rl_unix_filename_rubout :: "int \<Rightarrow> editor \<Rightarrow> editor option" where
  "rl_unix_filename_rubout cnt ed =
     (if rl_point ed = 0 then Some ed
      else if \<not> in_line ed (rl_point ed) then None
      else
        do { let orig_point = rl_point ed;
             let times = (if cnt \<le> 0 then 1 else nat cnt);
             let p = (filename_rubout_from (rl_line_buffer ed) ^^ times) (nat orig_point);
             ed1 \<leftarrow> rl_kill_text orig_point (int p) (ed\<lparr>rl_point := int p\<rparr>);
             Some (mark_point ed1) })"

definition rl_unix_line_discard :: "editor \<Rightarrow> editor option" where
  "rl_unix_line_discard ed =
     (if rl_point ed = 0 then Some ed
      else do { ed1 \<leftarrow> rl_kill_text (rl_point ed) 0 ed; Some (mark_point (ed1\<lparr>rl_point := 0\<rparr>)) })"

definition region_kill_internal :: "bool \<Rightarrow> editor \<Rightarrow> editor option" where
  "region_kill_internal delete ed =
     (if rl_mark ed \<noteq> rl_point ed then
        do { str \<leftarrow> rl_copy_text (rl_point ed) (rl_mark ed) ed;
             ed1 \<leftarrow> (if delete then rl_delete_text (rl_point ed) (rl_mark ed) ed else Some ed);
             ed2 \<leftarrow> rl_copy_to_kill_ring str (rl_point ed1 < rl_mark ed1) ed1;
             Some (count_kill ed2) }
      else Some (count_kill ed))"

definition rl_copy_region_to_kill :: "editor \<Rightarrow> editor option" where
  "rl_copy_region_to_kill ed = region_kill_internal False ed"

definition rl_kill_region :: "editor \<Rightarrow> editor option" where
  "rl_kill_region ed =
     do { let npoint = (if rl_point ed < rl_mark ed then rl_point ed else rl_mark ed);
          ed1 \<leftarrow> region_kill_internal True ed;
          Some ((rl_fix_point True ed1)\<lparr>rl_point := npoint\<rparr>) }"

definition rl_copy_word_as_kill :: "int \<Rightarrow> bool \<Rightarrow> editor \<Rightarrow> editor option" where
  "rl_copy_word_as_kill cnt forward ed =
     do { ed1 \<leftarrow> (if forward then rl_forward_word cnt ed else rl_backward_word cnt ed);
          let ed2 = ed1\<lparr>rl_mark := rl_point ed1\<rparr>;
          ed3 \<leftarrow> (if forward then rl_backward_word cnt ed2 else rl_forward_word cnt ed2);
          ed4 \<leftarrow> region_kill_internal False ed3;
          Some (ed4\<lparr>rl_mark := rl_mark ed, rl_point := rl_point ed\<rparr>) }"

definition rl_copy_forward_word :: "int \<Rightarrow> editor \<Rightarrow> editor option" where
  "rl_copy_forward_word cnt ed = rl_copy_word_as_kill \<bar>cnt\<bar> (0 \<le> cnt) ed"

definition rl_copy_backward_word :: "int \<Rightarrow> editor \<Rightarrow> editor option" where
  "rl_copy_backward_word cnt ed = rl_copy_word_as_kill \<bar>cnt\<bar> (cnt < 0) ed"

section \<open>Yanking and the mark (kill.c, text.c)\<close>

definition rl_set_mark_at_pos :: "int \<Rightarrow> editor \<Rightarrow> editor" where
  "rl_set_mark_at_pos position ed = (if rl_end ed < position then ed else ed\<lparr>rl_mark := position\<rparr>)"

definition rl_set_mark :: "int \<Rightarrow> editor \<Rightarrow> editor" where
  "rl_set_mark cnt ed = rl_set_mark_at_pos (if rl_explicit_arg ed then cnt else rl_point ed) ed"

definition rl_exchange_point_and_mark :: "editor \<Rightarrow> editor" where
  "rl_exchange_point_and_mark ed =
     (let m = (if rl_end ed < rl_mark ed then - 1 else rl_mark ed)
      in if m = - 1 then ed\<lparr>rl_mark := m\<rparr> else ed\<lparr>rl_point := m, rl_mark := rl_point ed\<rparr>)"

text \<open>
  The first component tells whether the command is given up by a jump back to the loop
  (\<^verbatim>\<open>_rl_abort_internal\<close>).
\<close>

definition abort_internal :: "editor \<Rightarrow> bool \<times> editor" where
  "abort_internal ed = (True, ed\<lparr>rl_last_func := No_func, rl_explicit_arg := False\<rparr>)"

definition rl_yank :: "editor \<Rightarrow> (bool \<times> editor) option" where
  "rl_yank ed =
     (case rl_kill_ring ed of
        None \<Rightarrow> Some (abort_internal ed)
      | Some slots \<Rightarrow>
          if 0 \<le> rl_kill_index ed \<and> rl_kill_index ed < int (length slots)
          then do { ed1 \<leftarrow> rl_insert_text (slots ! nat (rl_kill_index ed)) (rl_set_mark_at_pos (rl_point ed) ed);
                    Some (False, ed1) }
          else None)"

definition rl_yank_pop :: "editor \<Rightarrow> (bool \<times> editor) option" where
  "rl_yank_pop ed =
     (case rl_kill_ring ed of
        None \<Rightarrow> Some (abort_internal ed)
      | Some slots \<Rightarrow>
          if rl_last_func ed \<noteq> Func_yank_pop \<and> rl_last_func ed \<noteq> Func_yank then Some (abort_internal ed)
          else if \<not> (0 \<le> rl_kill_index ed \<and> rl_kill_index ed < int (length slots)) then None
          else
            (let kill = slots ! nat (rl_kill_index ed); n = rl_point ed - int (length kill)
             in if 0 \<le> n \<and> take (length kill) (drop (nat n) (rl_line_buffer ed)) = kill
                then do { ed1 \<leftarrow> rl_delete_text n (rl_point ed) ed;
                          let i = rl_kill_index ed - 1;
                          rl_yank (ed1\<lparr>rl_point := n,
                                       rl_kill_index := (if i < 0 then int (length slots) - 1 else i)\<rparr>) }
                else Some (abort_internal ed)))"

section \<open>Text commands (text.c)\<close>

definition TEXT_COUNT_MAX :: nat where
  "TEXT_COUNT_MAX = 1024"

definition typed_text :: "char \<Rightarrow> nat \<Rightarrow> cstring" where
  "typed_text c n = (if c = NUL then [] else replicate n c)"

text \<open>Large counts are inserted in pieces.\<close>

function insert_pieces :: "char \<Rightarrow> nat \<Rightarrow> editor \<Rightarrow> editor option" where
  "insert_pieces c n ed =
     (if n = 0 then Some ed
      else
        let decreaser = (if TEXT_COUNT_MAX < n then TEXT_COUNT_MAX else n)
        in do { ed1 \<leftarrow> rl_insert_text (typed_text c decreaser) ed; insert_pieces c (n - decreaser) ed1 })"
  by pat_completeness auto

termination
  by (relation "measure (\<lambda>(c, n, ed). n)") (auto simp: TEXT_COUNT_MAX_def)

declare insert_pieces.simps [simp del]

text \<open>\<^verbatim>\<open>_rl_insert_char\<close> when no further input is pending.\<close>

definition rl_insert_char :: "int \<Rightarrow> char \<Rightarrow> editor \<Rightarrow> editor option" where
  "rl_insert_char cnt c ed =
     (if cnt \<le> 0 then Some ed
      else if 1 < cnt \<and> cnt \<le> int TEXT_COUNT_MAX then rl_insert_text (typed_text c (nat cnt)) ed
      else if int TEXT_COUNT_MAX < cnt then insert_pieces c (nat cnt) ed
      else rl_insert_text (typed_text c 1) ed)"

definition rubout_char :: "int \<Rightarrow> editor \<Rightarrow> editor option" where
  "rubout_char cnt ed =
     (if rl_point ed = 0 then Some ed
      else if 1 < cnt \<or> rl_explicit_arg ed then
        (let ed1 = rl_backward_byte cnt ed in rl_kill_text (rl_point ed) (rl_point ed1) ed1)
      else rl_delete_text (rl_point ed - 1) (rl_point ed) (ed\<lparr>rl_point := rl_point ed - 1\<rparr>))"

definition delete_chars :: "int \<Rightarrow> editor \<Rightarrow> editor option" where
  "delete_chars cnt ed =
     (if rl_point ed = rl_end ed then Some ed
      else if 1 < cnt \<or> rl_explicit_arg ed then
        do { let xpoint = rl_point ed;
             let ed1 = rl_forward_byte cnt ed;
             ed2 \<leftarrow> rl_kill_text xpoint (rl_point ed1) ed1;
             Some (ed2\<lparr>rl_point := xpoint\<rparr>) }
      else rl_delete_text (rl_point ed) (rl_point ed + 1) ed)"

definition rl_delete :: "int \<Rightarrow> editor \<Rightarrow> editor option" where
  "rl_delete cnt ed = (if cnt < 0 then rubout_char (- cnt) ed else delete_chars cnt ed)"

definition rl_rubout_char :: "int \<Rightarrow> editor \<Rightarrow> editor option" where
  "rl_rubout_char cnt ed = (if cnt < 0 then delete_chars (- cnt) ed else rubout_char cnt ed)"

text \<open>The columns a character takes; tabs are shown as such.\<close>

definition rl_character_len :: "bool \<Rightarrow> char \<Rightarrow> int \<Rightarrow> int" where
  "rl_character_len output_meta c pos =
     (let u = uchar c
      in if 127 < u then if output_meta then 1 else 4
         else if u = 9 then (or pos 7 + 1) - pos
         else if u < 32 \<or> u = 127 then 2 else 1)"

primrec rubout_columns :: "nat \<Rightarrow> int \<Rightarrow> editor \<Rightarrow> int \<times> editor" where
  "rubout_columns 0 l ed = (l, ed)"
| "rubout_columns (Suc n) l ed =
     (let ed1 = rl_backward_byte 1 ed
      in rubout_columns n
           (l + rl_character_len (output_meta_chars ed) (c_at (rl_line_buffer ed1) (nat (rl_point ed1))) (rl_point ed1)) ed1)"

definition rl_overwrite_rubout :: "int \<Rightarrow> editor \<Rightarrow> editor option" where
  "rl_overwrite_rubout cnt ed =
     (if rl_point ed = 0 then Some ed
      else
        do { let opoint = rl_point ed;
             let le = rubout_columns (nat cnt) 0 ed;
             let ed1 = rl_begin_undo_group (snd le);
             ed2 \<leftarrow> (if 1 < cnt \<or> rl_explicit_arg ed then rl_kill_text opoint (rl_point ed1) ed1
                     else rl_delete_text opoint (rl_point ed1) ed1);
             ed3 \<leftarrow> (if rl_point ed2 < rl_end ed2
                     then do { ed3 \<leftarrow> rl_insert_char (fst le) (CHR '' '') ed2; Some (ed3\<lparr>rl_point := rl_point ed2\<rparr>) }
                     else Some ed2);
             Some (rl_end_undo_group ed3) })"

definition rl_rubout :: "int \<Rightarrow> editor \<Rightarrow> editor option" where
  "rl_rubout cnt ed =
     (if cnt < 0 then rl_delete (- cnt) ed
      else if rl_point ed = 0 then Some ed
      else if overwrite_mode ed then rl_overwrite_rubout cnt ed
      else rl_rubout_char cnt ed)"

definition rl_rubout_or_delete :: "int \<Rightarrow> editor \<Rightarrow> editor option" where
  "rl_rubout_or_delete cnt ed =
     (if rl_end ed \<noteq> 0 \<and> rl_point ed = rl_end ed then rl_rubout_char cnt ed else rl_delete cnt ed)"

primrec overwrite_loop :: "nat \<Rightarrow> char \<Rightarrow> editor \<Rightarrow> editor option" where
  "overwrite_loop 0 c ed = Some ed"
| "overwrite_loop (Suc n) c ed =
     do { ed1 \<leftarrow> rl_insert_char 1 c ed;
          ed2 \<leftarrow> (if rl_point ed1 < rl_end ed1 then rl_delete 1 ed1 else Some ed1);
          overwrite_loop n c ed2 }"

definition rl_overwrite_char :: "int \<Rightarrow> char \<Rightarrow> editor \<Rightarrow> editor option" where
  "rl_overwrite_char cnt c ed =
     do { ed1 \<leftarrow> overwrite_loop (nat cnt) c (rl_begin_undo_group ed); Some (rl_end_undo_group ed1) }"

definition rl_insert :: "int \<Rightarrow> char \<Rightarrow> editor \<Rightarrow> editor option" where
  "rl_insert cnt c ed = (if overwrite_mode ed then rl_overwrite_char cnt c ed else rl_insert_char cnt c ed)"

definition rl_delete_horizontal_space :: "editor \<Rightarrow> editor option" where
  "rl_delete_horizontal_space ed =
     (if \<not> in_line ed (rl_point ed) then None
      else
        do { let start = skip_left whitespace (rl_line_buffer ed) (nat (rl_point ed));
             let finish = skip_right whitespace (rl_line_buffer ed) start;
             if start \<noteq> finish
             then do { ed1 \<leftarrow> rl_delete_text (int start) (int finish) (ed\<lparr>rl_point := int finish\<rparr>);
                       Some (ed1\<lparr>rl_point := int start\<rparr>) }
             else Some (ed\<lparr>rl_point := int start\<rparr>) })"

definition swap_words :: "int \<Rightarrow> int \<Rightarrow> int \<Rightarrow> int \<Rightarrow> editor \<Rightarrow> editor option" where
  "swap_words w1_beg w1_end w2_beg w2_end ed =
     do { word1 \<leftarrow> rl_copy_text w1_beg w1_end ed;
          word2 \<leftarrow> rl_copy_text w2_beg w2_end ed;
          let ed1 = (rl_begin_undo_group ed)\<lparr>rl_point := w2_beg\<rparr>;
          ed2 \<leftarrow> rl_delete_text w2_beg w2_end ed1;
          ed3 \<leftarrow> rl_insert_text word1 ed2;
          ed4 \<leftarrow> rl_delete_text w1_beg w1_end (ed3\<lparr>rl_point := w1_beg\<rparr>);
          ed5 \<leftarrow> rl_insert_text word2 ed4;
          Some (rl_end_undo_group (ed5\<lparr>rl_point := w2_end\<rparr>)) }"

definition rl_transpose_words :: "int \<Rightarrow> editor \<Rightarrow> editor option" where
  "rl_transpose_words cnt ed =
     (if cnt = 0 then Some ed
      else
        do { ed1 \<leftarrow> rl_forward_word cnt ed;
             ed2 \<leftarrow> rl_backward_word 1 ed1;
             ed3 \<leftarrow> rl_backward_word cnt ed2;
             ed4 \<leftarrow> rl_forward_word 1 ed3;
             if rl_point ed3 = rl_point ed2 \<or> rl_point ed2 < rl_point ed4
             then Some (ed4\<lparr>rl_point := rl_point ed\<rparr>)
             else swap_words (rl_point ed3) (rl_point ed4) (rl_point ed2) (rl_point ed1) ed4 })"

text \<open>The character before \<open>point\<close> moves over \<open>cnt\<close> others, at the end of the line over one.\<close>

definition rl_transpose_chars :: "int \<Rightarrow> editor \<Rightarrow> editor option" where
  "rl_transpose_chars cnt ed =
     (if cnt = 0 \<or> rl_point ed = 0 \<or> rl_end ed < 2 then Some ed
      else
        do { let at_end = (rl_point ed = rl_end ed);
             let n = (if at_end then 1 else cnt);
             let p = (if at_end then rl_point ed - 1 else rl_point ed) - 1;
             let ed1 = (rl_begin_undo_group ed)\<lparr>rl_point := p\<rparr>;
             dummy \<leftarrow> rl_copy_text p (p + 1) ed1;
             ed2 \<leftarrow> rl_delete_text p (p + 1) ed1;
             let ed3 = rl_fix_point False (ed2\<lparr>rl_point := (if 0 < n then min (p + n) (rl_end ed2) else p)\<rparr>);
             ed4 \<leftarrow> rl_insert_text dummy ed3;
             Some (rl_end_undo_group ed4) })"

datatype case_op = UpCase | DownCase | CapCase

definition char_upper :: "char \<Rightarrow> char" where
  "char_upper c = (if is_lower c then char_of ((of_char c :: nat) - 32) else c)"

definition char_lower :: "char \<Rightarrow> char" where
  "char_lower c = (if is_upper c then char_of ((of_char c :: nat) + 32) else c)"

text \<open>The loop over the changed part; \<open>inword\<close> tells whether a word has begun.\<close>

fun change_case_chars :: "(char \<Rightarrow> bool) \<Rightarrow> case_op \<Rightarrow> bool \<Rightarrow> cstring \<Rightarrow> cstring" where
  "change_case_chars alphabetic op inword [] = []"
| "change_case_chars alphabetic op inword (c # s) =
     (if \<not> alphabetic c then c # change_case_chars alphabetic op False s
      else
        (let nop = (if op = CapCase then if inword then DownCase else UpCase else op)
         in (if nop = UpCase then char_upper c else char_lower c) #
            change_case_chars alphabetic op (op = CapCase \<or> inword) s))"

definition rl_change_case :: "int \<Rightarrow> case_op \<Rightarrow> editor \<Rightarrow> editor option" where
  "rl_change_case cnt op ed =
     do { ed1 \<leftarrow> rl_forward_word cnt ed;
          let start = (if cnt < 0 then rl_point ed1 else rl_point ed);
          let finish = (if cnt < 0 then rl_point ed else rl_point ed1);
          ed2 \<leftarrow> rl_modifying start finish ed1;
          let line = rl_line_buffer ed2;
          let part = take (nat (finish - start)) (drop (nat start) line);
          Some (ed2\<lparr>rl_line_buffer := take (nat start) line @ change_case_chars (rl_alphabetic ed) op False part @
                                       drop (nat finish) line,
                    rl_point := finish\<rparr>) }"

section \<open>Moving through the history (misc.c)\<close>

definition rl_start_using_history :: "editor \<Rightarrow> editor" where
  "rl_start_using_history ed = ed\<lparr>hist := using_history (hist ed), saved_line := None\<rparr>"

text \<open>A change is noticed by the undo list, not by the text.\<close>

definition rl_maybe_replace_line :: "editor \<Rightarrow> editor option" where
  "rl_maybe_replace_line ed =
     do { p \<leftarrow> current_history (hist ed);
          temp \<leftarrow> entry_of (hist ed) p;
          (case temp of
             None \<Rightarrow> Some ed
           | Some e \<Rightarrow>
               if he_data e = rl_undo_list ed then Some ed
               else
                 do { (old, h) \<leftarrow> replace_history_entry (where_history (hist ed)) (rl_line_buffer ed)
                                   (rl_undo_list ed) (hist ed);
                      h1 \<leftarrow> release_entry old h;
                      Some (ed\<lparr>hist := h1\<rparr>) }) }"

definition rl_maybe_unsave_line :: "editor \<Rightarrow> editor option" where
  "rl_maybe_unsave_line ed =
     (case saved_line ed of
        None \<Rightarrow> Some ed
      | Some e \<Rightarrow>
          do { line \<leftarrow> he_line e;
               ed1 \<leftarrow> rl_replace_line line False ed;
               Some (ed1\<lparr>rl_undo_list := he_data e, saved_line := None, rl_point := rl_end ed1\<rparr>) })"

definition rl_maybe_save_line :: "editor \<Rightarrow> editor" where
  "rl_maybe_save_line ed =
     (if saved_line ed = None
      then ed\<lparr>saved_line := Some \<lparr>he_line = Some (rl_line_buffer ed), he_timestamp = None, he_data = rl_undo_list ed\<rparr>\<rparr>
      else ed)"

definition history_set_point :: "editor \<Rightarrow> editor" where
  "history_set_point ed =
     (let p = (if history_preserve_point ed \<and> history_saved_point ed \<noteq> - 1 then history_saved_point ed else rl_end ed);
          p1 = (if rl_end ed < p then rl_end ed else p);
          p2 = (if rl_editing_mode ed = vi_mode \<and> vi_movement ed then 0 else p1)
      in ed\<lparr>rl_point := p2,
            rl_mark := (if rl_editing_mode ed = emacs_mode then if p2 = rl_end ed then 0 else rl_end ed else rl_mark ed)\<rparr>)"

definition rl_replace_from_history :: "slot \<Rightarrow> editor \<Rightarrow> editor option" where
  "rl_replace_from_history p ed =
     do { entry \<leftarrow> entry_of (hist ed) p;
          e \<leftarrow> entry;
          line \<leftarrow> he_line e;
          ed1 \<leftarrow> rl_replace_line line False ed;
          Some (if rl_editing_mode ed = vi_mode
                then ed1\<lparr>rl_undo_list := he_data e, rl_point := 0, rl_mark := rl_end ed1\<rparr>
                else ed1\<lparr>rl_undo_list := he_data e, rl_point := rl_end ed1, rl_mark := 0\<rparr>) }"

definition note_saved_point :: "editor \<Rightarrow> editor" where
  "note_saved_point ed =
     (if history_saved_point ed = - 1 \<and> (rl_point ed \<noteq> 0 \<or> rl_end ed \<noteq> 0)
      then ed\<lparr>history_saved_point := (if rl_point ed = rl_end ed then - 1 else rl_point ed)\<rparr> else ed)"

text \<open>\<^verbatim>\<open>while (count)\<close>: the last entry met, and whether the list ended before.\<close>

primrec next_entries :: "nat \<Rightarrow> slot \<Rightarrow> history \<Rightarrow> (slot \<times> history) option" where
  "next_entries 0 temp h = Some (temp, h)"
| "next_entries (Suc n) temp h =
     do { (p, h1) \<leftarrow> next_history h; if p = Null then Some (Null, h1) else next_entries n p h1 }"

primrec previous_entries :: "nat \<Rightarrow> slot \<Rightarrow> history \<Rightarrow> (slot \<times> history) option" where
  "previous_entries 0 old_temp h = Some (old_temp, h)"
| "previous_entries (Suc n) old_temp h =
     do { (p, h1) \<leftarrow> previous_history h; if p = Null then Some (old_temp, h1) else previous_entries n p h1 }"

definition history_forward :: "nat \<Rightarrow> editor \<Rightarrow> editor option" where
  "history_forward n ed =
     do { ed1 \<leftarrow> rl_maybe_replace_line ed;
          let ed2 = note_saved_point ed1;
          (temp, h) \<leftarrow> next_entries n Null (hist ed2);
          let ed3 = ed2\<lparr>hist := h\<rparr>;
          if temp = Null then rl_maybe_unsave_line ed3
          else do { ed4 \<leftarrow> rl_replace_from_history temp ed3; Some (history_set_point ed4) } }"

definition history_backward :: "nat \<Rightarrow> editor \<Rightarrow> editor option" where
  "history_backward n ed =
     do { let ed1 = rl_maybe_save_line (note_saved_point ed);
          ed2 \<leftarrow> rl_maybe_replace_line ed1;
          (temp, h) \<leftarrow> previous_entries n Null (hist ed2);
          let ed3 = ed2\<lparr>hist := h\<rparr>;
          if temp = Null then Some ed3
          else do { ed4 \<leftarrow> rl_replace_from_history temp ed3; Some (history_set_point ed4) } }"

definition rl_get_next_history :: "int \<Rightarrow> editor \<Rightarrow> editor option" where
  "rl_get_next_history cnt ed =
     (if cnt < 0 then history_backward (nat (- cnt)) ed
      else if cnt = 0 then Some ed
      else history_forward (nat cnt) ed)"

definition rl_get_previous_history :: "int \<Rightarrow> editor \<Rightarrow> editor option" where
  "rl_get_previous_history cnt ed =
     (if cnt < 0 then history_forward (nat (- cnt)) ed
      else if cnt = 0 then Some ed
      else history_backward (nat cnt) ed)"

definition rl_beginning_of_history :: "editor \<Rightarrow> editor option" where
  "rl_beginning_of_history ed = rl_get_previous_history (1 + where_history (hist ed)) ed"

definition rl_end_of_history :: "editor \<Rightarrow> editor option" where
  "rl_end_of_history ed =
     do { ed1 \<leftarrow> rl_maybe_replace_line ed;
          rl_maybe_unsave_line (ed1\<lparr>hist := using_history (hist ed1)\<rparr>) }"

text \<open>
  \<^verbatim>\<open>_rl_revert_all_lines\<close>: one entry after the other, back to the first; the entry is written
  through the pointer that was taken before the undoing.
\<close>

definition revert_entry :: "nat \<Rightarrow> hist_entry \<Rightarrow> editor \<Rightarrow> editor option" where
  "revert_entry a e ed =
     do { ed1 \<leftarrow> rl_replace_from_history (Entry a) ed;
          ed2 \<leftarrow> undo_all (Suc (next_undo ed1)) ed1;
          now \<leftarrow> heap (hist ed2) a;
          Some (ed2\<lparr>hist := (hist ed2)\<lparr>heap := (heap (hist ed2))
                   (a \<mapsto> now\<lparr>he_line := Some (rl_line_buffer ed2), he_data := 0\<rparr>)\<rparr>\<rparr>) }"

primrec revert_entries :: "nat \<Rightarrow> slot \<Rightarrow> nat \<Rightarrow> editor \<Rightarrow> (nat \<times> editor) option" where
  "revert_entries 0 entry saved_undo_list ed = None"
| "revert_entries (Suc fuel) entry saved_undo_list ed =
     (case entry of
        Uninit \<Rightarrow> None
      | Null \<Rightarrow> Some (saved_undo_list, ed)
      | Entry a \<Rightarrow>
          do { e \<leftarrow> heap (hist ed) a;
               ed1 \<leftarrow> (if he_data e \<noteq> 0 then revert_entry a e ed else Some ed);
               (p, h) \<leftarrow> previous_history (hist ed1);
               revert_entries fuel p
                 (if he_data e \<noteq> 0 \<and> he_data e = saved_undo_list then 0 else saved_undo_list)
                 (ed1\<lparr>hist := h\<rparr>) })"

definition rl_revert_all_lines :: "editor \<Rightarrow> editor option" where
  "rl_revert_all_lines ed =
     do { let hpos = where_history (hist ed);
          (entry, h) \<leftarrow> (if hpos = history_length (hist ed) then previous_history (hist ed)
                         else map_option (\<lambda>p. (p, hist ed)) (current_history (hist ed)));
          (saved, ed1) \<leftarrow> revert_entries (Suc (Suc (nat hpos))) entry (rl_undo_list ed) (ed\<lparr>hist := h\<rparr>);
          rl_replace_line (rl_line_buffer ed) False
            (ed1\<lparr>rl_undo_list := saved, hist := snd (history_set_pos hpos (hist ed1))\<rparr>) }"

section \<open>A line from start to end (readline.c)\<close>

definition rl_init_line_state :: "editor \<Rightarrow> editor" where
  "rl_init_line_state ed = ed\<lparr>rl_point := 0, rl_mark := 0, rl_line_buffer := []\<rparr>"

text \<open>Enter: the line is returned; a changed history line gets its original text back.\<close>

definition restore_current :: "editor \<Rightarrow> editor option" where
  "restore_current ed =
     do { p \<leftarrow> current_history (hist ed);
          entry \<leftarrow> entry_of (hist ed) p;
          if entry \<noteq> None \<and> rl_undo_list ed \<noteq> 0 then
            do { ed1 \<leftarrow> rl_revert_line ed;
                 (old, h) \<leftarrow> replace_history_entry (where_history (hist ed1)) (rl_line_buffer ed1) 0 (hist ed1);
                 h1 \<leftarrow> (if old = Null then Some h else release_entry old h);
                 Some (ed1\<lparr>hist := h1, rl_line_buffer := rl_line_buffer ed\<rparr>) }
          else Some ed }"

definition readline_internal_teardown :: "editor \<Rightarrow> (cstring \<times> editor) option" where
  "readline_internal_teardown ed =
     do { ed1 \<leftarrow> restore_current ed;
          ed2 \<leftarrow> (if revert_all_at_newline ed1 then rl_revert_all_lines ed1 else Some ed1);
          ed3 \<leftarrow> (if rl_undo_list ed2 \<noteq> 0 then rl_free_undo_list ed2 else Some ed2);
          Some (rl_line_buffer ed3, ed3\<lparr>overwrite_mode := False\<rparr>) }"

text \<open>The commands keys are bound to, with their numeric argument.\<close>

datatype rl_command =
  Self_Insert int char | Forward_Byte int | Backward_Byte int | Beg_Of_Line | End_Of_Line | Forward_Word int
  | Backward_Word int | Delete int | Rubout int | Rubout_Or_Delete int | Kill_Word int | Backward_Kill_Word int
  | Kill_Line int | Backward_Kill_Line int | Kill_Full_Line | Unix_Word_Rubout int | Unix_Filename_Rubout int
  | Unix_Line_Discard | Copy_Region | Kill_Region | Copy_Forward_Word int | Copy_Backward_Word int | Yank | Yank_Pop
  | Delete_Horizontal_Space | Change_Case int case_op | Transpose_Words int | Transpose_Chars int | Set_Mark int
  | Exchange_Point_And_Mark | Undo_Command int | Previous_History int | Next_History int | Beginning_Of_History
  | End_Of_History

definition goes_on :: "editor option \<Rightarrow> (bool \<times> editor) option" where
  "goes_on r = map_option (Pair False) r"

fun run_function :: "rl_command \<Rightarrow> editor \<Rightarrow> (bool \<times> editor) option" where
  "run_function (Self_Insert n c) ed = goes_on (rl_insert n c ed)"
| "run_function (Forward_Byte n) ed = goes_on (Some (rl_forward_byte n ed))"
| "run_function (Backward_Byte n) ed = goes_on (Some (rl_backward_byte n ed))"
| "run_function Beg_Of_Line ed = goes_on (Some (rl_beg_of_line ed))"
| "run_function End_Of_Line ed = goes_on (Some (rl_end_of_line ed))"
| "run_function (Forward_Word n) ed = goes_on (rl_forward_word n ed)"
| "run_function (Backward_Word n) ed = goes_on (rl_backward_word n ed)"
| "run_function (Delete n) ed = goes_on (rl_delete n ed)"
| "run_function (Rubout n) ed = goes_on (rl_rubout n ed)"
| "run_function (Rubout_Or_Delete n) ed = goes_on (rl_rubout_or_delete n ed)"
| "run_function (Kill_Word n) ed = goes_on (rl_kill_word n ed)"
| "run_function (Backward_Kill_Word n) ed = goes_on (rl_backward_kill_word n ed)"
| "run_function (Kill_Line n) ed = goes_on (rl_kill_line n ed)"
| "run_function (Backward_Kill_Line n) ed = goes_on (rl_backward_kill_line n ed)"
| "run_function Kill_Full_Line ed = goes_on (rl_kill_full_line ed)"
| "run_function (Unix_Word_Rubout n) ed = goes_on (rl_unix_word_rubout n ed)"
| "run_function (Unix_Filename_Rubout n) ed = goes_on (rl_unix_filename_rubout n ed)"
| "run_function Unix_Line_Discard ed = goes_on (rl_unix_line_discard ed)"
| "run_function Copy_Region ed = goes_on (rl_copy_region_to_kill ed)"
| "run_function Kill_Region ed = goes_on (rl_kill_region ed)"
| "run_function (Copy_Forward_Word n) ed = goes_on (rl_copy_forward_word n ed)"
| "run_function (Copy_Backward_Word n) ed = goes_on (rl_copy_backward_word n ed)"
| "run_function Yank ed = rl_yank ed"
| "run_function Yank_Pop ed = rl_yank_pop ed"
| "run_function Delete_Horizontal_Space ed = goes_on (rl_delete_horizontal_space ed)"
| "run_function (Change_Case n op) ed = goes_on (rl_change_case n op ed)"
| "run_function (Transpose_Words n) ed = goes_on (rl_transpose_words n ed)"
| "run_function (Transpose_Chars n) ed = goes_on (rl_transpose_chars n ed)"
| "run_function (Set_Mark n) ed = goes_on (Some (rl_set_mark n ed))"
| "run_function Exchange_Point_And_Mark ed = goes_on (Some (rl_exchange_point_and_mark ed))"
| "run_function (Undo_Command n) ed = goes_on (rl_undo_command n ed)"
| "run_function (Previous_History n) ed = goes_on (rl_get_previous_history n ed)"
| "run_function (Next_History n) ed = goes_on (rl_get_next_history n ed)"
| "run_function Beginning_Of_History ed = goes_on (rl_beginning_of_history ed)"
| "run_function End_Of_History ed = goes_on (rl_end_of_history ed)"

definition function_of :: "rl_command \<Rightarrow> last_func" where
  "function_of c = (case c of Yank \<Rightarrow> Func_yank | Yank_Pop \<Rightarrow> Func_yank_pop | _ \<Rightarrow> Func_other)"

definition dispatch :: "rl_command \<Rightarrow> editor \<Rightarrow> (bool \<times> editor) option" where
  "dispatch c ed =
     do { (aborted, ed1) \<leftarrow> run_function c ed;
          Some (aborted, if aborted then ed1 else ed1\<lparr>rl_last_func := function_of c\<rparr>) }"

text \<open>
  One round of \<^verbatim>\<open>readline_internal_charloop\<close>: a key with or without an explicit argument. A
  command that is not a kill ends the run of kills; after a jump nothing of this is done.
\<close>

definition read_command_key :: "bool \<times> rl_command \<Rightarrow> editor \<Rightarrow> editor option" where
  "read_command_key key ed =
     (case key of (explicit_arg, c) \<Rightarrow>
        do { let lk = last_command_was_kill ed;
             (aborted, ed1) \<leftarrow> dispatch c (ed\<lparr>rl_explicit_arg := explicit_arg\<rparr>);
             Some (if \<not> aborted \<and> lk = last_command_was_kill ed1
                   then ed1\<lparr>last_command_was_kill := 0\<rparr> else ed1) })"

primrec read_keys :: "(bool \<times> rl_command) list \<Rightarrow> editor \<Rightarrow> editor option" where
  "read_keys [] ed = Some ed"
| "read_keys (k # ks) ed = do { ed1 \<leftarrow> read_command_key k ed; read_keys ks ed1 }"

end
