(* ===== verification/Line_Undo.thy ===== *)
theory Line_Undo
  imports Line_Editor
begin

text \<open>
  What the undo list is worth: the chain of nodes always leads from the text of the line back to the
  text the list began with.
\<close>

section \<open>Undoing and the history list\<close>

lemma release_entry_holds:
  assumes "hist_holds h as" and "a \<notin> set as" and "\<exists>e. heap h a = Some e"
  shows "\<exists>h'. release_entry (Entry a) h = Some h' \<and> hist_holds h' as \<and> abs_entries h' = abs_entries h \<and>
    history_offset h' = history_offset h \<and> history_length h' = history_length h"
proof -
  obtain e where e: "heap h a = Some e" using assms(3) by auto
  let ?h = "h\<lparr>heap := (heap h)(a := None)\<rparr>"
  have holds: "hist_holds ?h as"
    using assms(1,2) by (auto simp: hist_holds_def slots_hold_def entry_ok_def split: option.splits)
  moreover have "abs_entries ?h = abs_entries h"
    using abs_entries_holds [OF holds] abs_entries_holds [OF assms(1)] assms(2) by auto
  ultimately show ?thesis using e by (intro exI [of _ ?h]) (simp add: release_entry_def free_history_entry_def)
qed

text \<open>Both steps together, as the editor uses them.\<close>

definition set_entry :: "nat \<Rightarrow> cstring \<Rightarrow> nat \<Rightarrow> hist_entry list \<Rightarrow> hist_entry list" where
  "set_entry k l d es = es[k := \<lparr>he_line = Some l, he_timestamp = he_timestamp (es ! k), he_data = d\<rparr>]"

lemma length_set_entry [simp]: "length (set_entry k l d es) = length es"
  by (simp add: set_entry_def)

definition hist_at :: "history \<Rightarrow> hist_entry list \<Rightarrow> nat \<Rightarrow> bool" where
  "hist_at h es k \<longleftrightarrow> hist_inv h \<and> abs_entries h = es \<and> history_offset h = int k \<and> k \<le> length es"

lemma hist_atE:
  assumes "hist_at h es k"
  obtains as where "hist_holds h as" "abs_entries h = es" "history_offset h = int k" "k \<le> length es"
    "length es = length as" "history_length h = int (length as)"
  using assms abs_entries_length by (auto simp: hist_at_def hist_inv_def hist_holds_def)

lemma replace_and_release:
  assumes "hist_at h es k" and "k < length es"
  shows "\<exists>old h1 h'. replace_history_entry (int k) l d h = Some (old, h1) \<and> old \<noteq> Null \<and> release_entry old h1 = Some h' \<and>
    hist_at h' (set_entry k l d es) k"
proof -
  obtain as where h: "hist_holds h as" "abs_entries h = es" "history_offset h = int k" "k < length as"
    using assms by (auto elim: hist_atE)
  obtain h1 where h1: "replace_history_entry (int k) l d h = Some (Entry (as ! k), h1)"
    "hist_holds h1 (as[k := next_addr h])" "as ! k \<notin> set (as[k := next_addr h])" "\<exists>e. heap h1 (as ! k) = Some e"
    "abs_entries h1 = set_entry k l d es" "history_offset h1 = int k"
    by (rule replace_entry_run [OF h(1,4), of l d]) (use h(2,3) in \<open>auto simp: set_entry_def hist_abs_def\<close>)
  show ?thesis
    using release_entry_holds [OF h1(2-4)] h1 assms(2) by (auto simp: hist_at_def hist_inv_def)
qed

lemma current_entry:
  assumes "hist_at h es k"
  obtains p where "current_history h = Some p" "entry_of h p = Some (if k < length es then Some (es ! k) else None)"
    "k < length es \<Longrightarrow> p \<noteq> Null"
proof -
  obtain as where h: "hist_holds h as" "abs_entries h = es" "history_offset h = int k" "k \<le> length es"
    "length es = length as" "history_length h = int (length as)"
    using assms by (auto elim: hist_atE)
  show ?thesis
  proof (cases "k < length as")
    case True
    then obtain xs where "the_history h = Some xs" using array_of [OF h(1)] by fastforce
    then have "current_history h = Some (Entry (as ! k))"
      using h True read_slot_nth [OF h(1) True] by (simp add: current_history_def)
    then show ?thesis
      using that h True abs_entries_nth [OF h(1) True] by (simp add: entry_of_def)
  next
    case False
    then have "current_history h = Some Null" using h by (simp add: current_history_def)
    then show ?thesis using that False h(5) by (simp add: entry_of_def)
  qed
qed

lemma replace_data_at:
  assumes "hist_at h es k"
  shows "\<exists>h'. replace_history_data (- 1) old new h = Some h' \<and> hist_at h' (map (renew old new) es) k"
proof -
  obtain as where h: "hist_holds h as" using assms by (auto elim: hist_atE)
  obtain h' where "replace_history_data (- 1) old new h = Some h'" "hist_inv h'"
    "hist_abs h' = (hist_abs h)\<lparr>hs_entries := map (renew old new) es\<rparr>"
    using replace_data_spec [OF h, of "- 1" old new] assms
    by (auto simp: refined_at_def done_with_def spec_replace_data_simps hist_abs_def hist_at_def)
  then show ?thesis using assms by (auto simp: hist_at_def hist_abs_def)
qed

definition undone_entries :: "nat \<Rightarrow> cstring \<Rightarrow> nat \<Rightarrow> nat \<Rightarrow> hist_entry list \<Rightarrow> hist_entry list" where
  "undone_entries k line release new es =
     map (renew release new)
       (if k < length es \<and> he_data (es ! k) = release then set_entry k line new es else es)"

lemma length_undone_entries [simp]: "length (undone_entries k line r n es) = length es"
  by (simp add: undone_entries_def)

lemma undo_history_at:
  assumes "hist_at h es k" and "release \<noteq> 0"
  shows "\<exists>h'. undo_history line release new h = Some h' \<and> hist_at h' (undone_entries k line release new es) k"
proof -
  obtain p where p: "current_history h = Some p" "entry_of h p = Some (if k < length es then Some (es ! k) else None)"
    using current_entry [OF assms(1)] .
  have w: "where_history h = int k" using assms(1) by (simp add: where_history_def hist_at_def)
  show ?thesis
  proof (cases "k < length es \<and> he_data (es ! k) = release")
    case True
    obtain old h1 h2 where h2: "replace_history_entry (int k) line new h = Some (old, h1)" "release_entry old h1 = Some h2"
      "hist_at h2 (set_entry k line new es) k"
      using replace_and_release [OF assms(1), of line new] True by blast
    show ?thesis
      using replace_data_at [OF h2(3), of release new] True p h2 assms(2) w
      by (auto simp: undo_history_def undone_entries_def)
  next
    case False
    then show ?thesis
      using replace_data_at [OF assms(1), of release new] p w
      by (auto simp: undo_history_def undone_entries_def split: if_splits)
  qed
qed

section \<open>The text a list of nodes leads back to\<close>

definition node_undone :: "undo_node \<Rightarrow> cstring \<Rightarrow> cstring option" where
  "node_undone n t =
     (case u_what n of
        UNDO_INSERT \<Rightarrow>
          if 0 \<le> u_start n \<and> u_start n \<le> u_end n \<and> u_end n \<le> int (length t)
          then Some (take (nat (u_start n)) t @ drop (nat (u_end n)) t) else None
      | UNDO_DELETE \<Rightarrow>
          if 0 \<le> u_start n \<and> u_start n \<le> int (length t)
          then Some (take (nat (u_start n)) t @ (case u_text n of None \<Rightarrow> [] | Some str \<Rightarrow> str) @ drop (nat (u_start n)) t)
          else None
      | _ \<Rightarrow> Some t)"

primrec undone :: "undo_node list \<Rightarrow> cstring \<Rightarrow> cstring option" where
  "undone [] t = Some t"
| "undone (n # ns) t = do { u \<leftarrow> node_undone n t; undone ns u }"

primrec chain :: "(nat \<Rightarrow> undo_node option) \<Rightarrow> nat list \<Rightarrow> nat \<Rightarrow> bool" where
  "chain hp [] p \<longleftrightarrow> p = 0"
| "chain hp (a # as) p \<longleftrightarrow> p = a \<and> a \<noteq> 0 \<and> (\<exists>n. hp a = Some n \<and> chain hp as (u_next n))"

lemma chain_update [simp]: "b \<notin> set as \<Longrightarrow> chain (hp(b := v)) as p = chain hp as p"
  by (induction as arbitrary: p) auto

lemma nodes_update: "b \<notin> set as \<Longrightarrow> map (the \<circ> hp(b := v)) as = map (the \<circ> hp) as"
  by (rule map_cong) auto

definition undo_at :: "cstring \<Rightarrow> nat list \<Rightarrow> editor \<Rightarrow> bool" where
  "undo_at base as ed \<longleftrightarrow>
     chain (undo_heap ed) as (rl_undo_list ed) \<and> distinct as \<and> (\<forall>a\<in>set as. a < next_undo ed) \<and> 0 < next_undo ed \<and>
     undone (map (the \<circ> undo_heap ed) as) (rl_line_buffer ed) = Some base"

lemma undo_at_Nil: "undo_at base as ed \<Longrightarrow> rl_undo_list ed = 0 \<longleftrightarrow> as = []"
  by (cases as) (auto simp: undo_at_def)

lemma undo_at_length:
  assumes "undo_at base as ed"
  shows "length as \<le> next_undo ed"
proof -
  have "card (set as) \<le> card {..<next_undo ed}"
    by (rule card_mono) (use assms in \<open>auto simp: undo_at_def\<close>)
  then show ?thesis using assms by (simp add: undo_at_def distinct_card)
qed

text \<open>What an undo may change.\<close>

definition undo_frame :: "editor \<Rightarrow> editor \<Rightarrow> bool" where
  "undo_frame ed ed1 \<longleftrightarrow>
     ed1 = ed\<lparr>rl_line_buffer := rl_line_buffer ed1, rl_point := rl_point ed1, rl_undo_list := rl_undo_list ed1,
              undo_heap := undo_heap ed1, hist := hist ed1\<rparr>"

lemma undo_frame_refl [simp]: "undo_frame ed ed"
  by (simp add: undo_frame_def)

lemma undo_frame_trans: "undo_frame a b \<Longrightarrow> undo_frame b c \<Longrightarrow> undo_frame a c"
  by (cases a; cases b; cases c) (simp add: undo_frame_def)

lemma undo_frame_simps:
  assumes "undo_frame ed ed1"
  shows "rl_mark ed1 = rl_mark ed" "next_undo ed1 = next_undo ed" "rl_doing_an_undo ed1 = rl_doing_an_undo ed"
    "rl_kill_ring ed1 = rl_kill_ring ed" "rl_kill_index ed1 = rl_kill_index ed" "rl_explicit_arg ed1 = rl_explicit_arg ed"
    "last_command_was_kill ed1 = last_command_was_kill ed" "rl_editing_mode ed1 = rl_editing_mode ed"
    "saved_line ed1 = saved_line ed" "revert_all_at_newline ed1 = revert_all_at_newline ed"
  using assms by (cases ed; cases ed1; simp add: undo_frame_def)+

text \<open>Inserting and deleting while undoing: only the text and the position change.\<close>

lemma insert_undoing:
  assumes "rl_doing_an_undo ed" and "in_line ed (rl_point ed)"
  shows "rl_insert_text str ed =
    Some (ed\<lparr>rl_line_buffer := take (nat (rl_point ed)) (rl_line_buffer ed) @ str @ drop (nat (rl_point ed)) (rl_line_buffer ed),
             rl_point := rl_point ed + int (length str)\<rparr>)"
  using assms by (auto simp: rl_insert_text_def remember_insert_def Let_def)

lemma delete_undoing:
  assumes "rl_doing_an_undo ed" and "0 \<le> a" "a \<le> b" "b \<le> rl_end ed"
  shows "rl_delete_text a b ed =
    Some (ed\<lparr>rl_line_buffer := take (nat a) (rl_line_buffer ed) @ drop (nat b) (rl_line_buffer ed)\<rparr>)"
  using assms by (auto simp: rl_delete_text_def rl_copy_text_def in_line_def Let_def min_def max_def)

lemma undo_node_effect_ok:
  assumes "rl_doing_an_undo ed" and "node_undone n (rl_line_buffer ed) = Some t" and "0 \<le> w"
  shows "\<exists>w' p. undo_node_effect n w ed = Some (w', ed\<lparr>rl_line_buffer := t, rl_point := p\<rparr>) \<and> 0 \<le> w' \<and>
    (in_line ed (rl_point ed) \<longrightarrow> 0 \<le> p \<and> p \<le> int (length t))"
proof (cases "u_what n")
  case UNDO_DELETE
  then have s: "0 \<le> u_start n" "u_start n \<le> rl_end ed"
    "t = take (nat (u_start n)) (rl_line_buffer ed) @ (case u_text n of None \<Rightarrow> [] | Some str \<Rightarrow> str) @
         drop (nat (u_start n)) (rl_line_buffer ed)"
    using assms(2) by (auto simp: node_undone_def rl_end_def split: if_splits)
  let ?str = "case u_text n of None \<Rightarrow> [] | Some str \<Rightarrow> str"
  have "rl_insert_text ?str (ed\<lparr>rl_point := u_start n\<rparr>) =
      Some (ed\<lparr>rl_line_buffer := t, rl_point := u_start n + int (length ?str)\<rparr>)"
    using insert_undoing [of "ed\<lparr>rl_point := u_start n\<rparr>" ?str] assms(1) s by (simp add: in_line_def rl_end_def)
  moreover have "TRANS ed (u_start n) = u_start n" using s(1) by (simp add: TRANS_def)
  moreover have "u_start n + int (length ?str) \<le> int (length t)" using s by (auto simp: rl_end_def)
  ultimately show ?thesis
    using UNDO_DELETE s(1) assms(3) by (auto simp: undo_node_effect_def)
next
  case UNDO_INSERT
  then have s: "0 \<le> u_start n" "u_start n \<le> u_end n" "u_end n \<le> rl_end ed"
    "t = take (nat (u_start n)) (rl_line_buffer ed) @ drop (nat (u_end n)) (rl_line_buffer ed)"
    using assms(2) by (auto simp: node_undone_def rl_end_def split: if_splits)
  moreover have "TRANS ed (u_start n) = u_start n" "TRANS ed (u_end n) = u_end n" using s by (simp_all add: TRANS_def)
  moreover have "u_start n \<le> int (length t)" using s by (auto simp: rl_end_def min_def)
  ultimately show ?thesis
    using UNDO_INSERT delete_undoing [OF assms(1) s(1-3)] assms(3) by (auto simp: undo_node_effect_def)
next
  case UNDO_BEGIN
  then show ?thesis
    using assms by (intro exI [of _ "if w \<noteq> 0 then w - 1 else 0"] exI [of _ "rl_point ed"])
      (auto simp: undo_node_effect_def node_undone_def in_line_def rl_end_def)
next
  case UNDO_END
  then show ?thesis
    using assms by (intro exI [of _ "w + 1"] exI [of _ "rl_point ed"])
      (auto simp: undo_node_effect_def node_undone_def in_line_def rl_end_def)
qed

text \<open>One node is undone.\<close>

lemma undo_one_at:
  assumes "undo_at base (a # as) ed" and "\<not> rl_doing_an_undo ed" and "hist_at (hist ed) es k" and "0 \<le> w"
  shows "\<exists>w' ed1. undo_one w ed = Some (w', ed1) \<and> 0 \<le> w' \<and> undo_at base as ed1 \<and> undo_frame ed ed1 \<and>
    hist_at (hist ed1) (undone_entries k (rl_line_buffer ed1) a (rl_undo_list ed1) es) k \<and>
    (in_line ed (rl_point ed) \<longrightarrow> in_line ed1 (rl_point ed1))"
proof -
  obtain n where n: "undo_heap ed a = Some n" "chain (undo_heap ed) as (u_next n)" "rl_undo_list ed = a" "a \<noteq> 0"
    using assms(1) by (auto simp: undo_at_def)
  obtain t where t: "node_undone n (rl_line_buffer ed) = Some t" "undone (map (the \<circ> undo_heap ed) as) t = Some base"
    using assms(1) n(1) by (auto simp: undo_at_def bind_eq_Some_conv)
  let ?ed0 = "ed\<lparr>rl_doing_an_undo := True\<rparr>"
  have "rl_doing_an_undo ?ed0" "node_undone n (rl_line_buffer ?ed0) = Some t" using t(1) by simp_all
  then obtain w' p where eff: "undo_node_effect n w ?ed0 = Some (w', ?ed0\<lparr>rl_line_buffer := t, rl_point := p\<rparr>)" "0 \<le> w'"
    "in_line ed (rl_point ed) \<longrightarrow> 0 \<le> p \<and> p \<le> int (length t)"
    using undo_node_effect_ok [of ?ed0 n t w] assms(4) by (auto simp: in_line_def rl_end_def)
  obtain h where h: "undo_history t a (u_next n) (hist ed) = Some h" "hist_at h (undone_entries k t a (u_next n) es) k"
    using undo_history_at [OF assms(3) n(4)] by blast
  let ?ed1 = "ed\<lparr>rl_line_buffer := t, rl_point := p, rl_undo_list := u_next n, undo_heap := (undo_heap ed)(a := None), hist := h\<rparr>"
  have "undo_one w ed = Some (w', ?ed1)"
    using n eff(1) h(1) assms(2) by (simp add: undo_one_def)
  moreover have "undo_at base as ?ed1"
    using assms(1) n(2) t(2) by (simp add: undo_at_def nodes_update)
  moreover have "undo_frame ed ?ed1" by (simp add: undo_frame_def)
  ultimately show ?thesis using eff(2,3) h(2) by (auto simp: in_line_def rl_end_def)
qed

text \<open>Entries are kept unless they share a node that is undone.\<close>

definition others_kept :: "nat set \<Rightarrow> hist_entry list \<Rightarrow> hist_entry list \<Rightarrow> bool" where
  "others_kept A es es1 \<longleftrightarrow>
     length es1 = length es \<and>
     (\<forall>j<length es. he_timestamp (es1 ! j) = he_timestamp (es ! j) \<and>
        (he_data (es ! j) \<notin> A \<longrightarrow> es1 ! j = es ! j))"

lemma others_kept_refl [simp]: "others_kept A es es"
  by (simp add: others_kept_def)

lemma others_kept_trans:
  assumes "others_kept A es es1" and "others_kept B es1 es2" and "B \<subseteq> A"
  shows "others_kept A es es2"
  unfolding others_kept_def
proof (intro conjI allI impI)
  fix j
  assume j: "j < length es"
  then show "he_timestamp (es2 ! j) = he_timestamp (es ! j)"
    using assms(1,2) by (simp add: others_kept_def)
  assume "he_data (es ! j) \<notin> A"
  then show "es2 ! j = es ! j"
    using assms j by (auto simp: others_kept_def subset_iff)
qed (use assms in \<open>simp add: others_kept_def\<close>)

lemma undone_entries_kept: "a \<in> A \<Longrightarrow> others_kept A es (undone_entries k line a new es)"
  by (auto simp: others_kept_def undone_entries_def renew_def set_entry_def nth_list_update)

text \<open>The state after some nodes were undone; those in \<open>bs\<close> are left.\<close>

definition rewound :: "cstring \<Rightarrow> nat \<Rightarrow> nat list \<Rightarrow> hist_entry list \<Rightarrow> editor \<Rightarrow> nat list \<Rightarrow> hist_entry list \<Rightarrow> editor \<Rightarrow> bool" where
  "rewound base k as es ed bs es1 ed1 \<longleftrightarrow>
     undo_at base bs ed1 \<and> undo_frame ed ed1 \<and> hist_at (hist ed1) es1 k \<and> others_kept (set as) es es1 \<and>
     (in_line ed (rl_point ed) \<longrightarrow> in_line ed1 (rl_point ed1)) \<and> set bs \<subseteq> set as"

lemma rewound_refl: "undo_at base as ed \<Longrightarrow> hist_at (hist ed) es k \<Longrightarrow> rewound base k as es ed as es ed"
  by (simp add: rewound_def)

lemma rewound_trans:
  assumes "rewound base k as es ed bs es1 ed1" and "rewound base k bs es1 ed1 cs es2 ed2"
  shows "rewound base k as es ed cs es2 ed2"
proof -
  have "undo_frame ed ed2"
    by (rule undo_frame_trans [of _ ed1]) (use assms in \<open>simp_all add: rewound_def\<close>)
  moreover have "others_kept (set as) es es2"
    by (rule others_kept_trans [of _ _ es1 "set bs"]) (use assms in \<open>simp_all add: rewound_def\<close>)
  ultimately show ?thesis using assms by (auto simp: rewound_def)
qed

lemma undo_loop_at:
  assumes "undo_at base as ed" and "\<not> rl_doing_an_undo ed" and "hist_at (hist ed) es k" and "0 \<le> w" "length as < fuel"
  shows "\<exists>some ed1 bs es1. undo_loop fuel w ed = Some (some, ed1) \<and> rewound base k as es ed bs es1 ed1 \<and>
    (as \<noteq> [] \<longrightarrow> length bs < length as)"
  using assms
proof (induction as arbitrary: fuel w ed es)
  case Nil
  then obtain f where "fuel = Suc f" by (cases fuel) auto
  moreover have "rl_undo_list ed = 0" using Nil(1) by (simp add: undo_at_def)
  ultimately show ?case using rewound_refl [OF Nil(1,3)] by auto
next
  case (Cons a as)
  then obtain f where f: "fuel = Suc f" "length as < f" by (cases fuel) auto
  obtain w' ed1 where one: "undo_one w ed = Some (w', ed1)" "0 \<le> w'" "undo_at base as ed1" "undo_frame ed ed1"
    "hist_at (hist ed1) (undone_entries k (rl_line_buffer ed1) a (rl_undo_list ed1) es) k"
    "in_line ed (rl_point ed) \<longrightarrow> in_line ed1 (rl_point ed1)"
    using undo_one_at [OF Cons.prems(1-4)] by blast
  let ?es1 = "undone_entries k (rl_line_buffer ed1) a (rl_undo_list ed1) es"
  have first: "rewound base k (a # as) es ed as ?es1 ed1"
    using one undone_entries_kept [of a "set (a # as)" es] by (auto simp: rewound_def)
  have "rl_undo_list ed \<noteq> 0" using Cons.prems(1) by (auto simp: undo_at_def)
  then have run: "undo_loop fuel w ed = (if w' \<noteq> 0 then undo_loop f w' ed1 else Some (True, ed1))"
    using one(1) by (simp add: f(1))
  show ?case
  proof (cases "w' = 0")
    case True
    then show ?thesis using run first by auto
  next
    case False
    have "\<not> rl_doing_an_undo ed1" using Cons.prems(2) undo_frame_simps [OF one(4)] by simp
    then obtain some ed2 bs es2 where "undo_loop f w' ed1 = Some (some, ed2)" "rewound base k as ?es1 ed1 bs es2 ed2"
      "as \<noteq> [] \<longrightarrow> length bs < length as"
      using Cons.IH [OF one(3) _ one(5,2) f(2)] by blast
    moreover from this have "length bs \<le> length as" by (cases as) (auto simp: rewound_def)
    ultimately show ?thesis using run False rewound_trans [OF first] by fastforce
  qed
qed

lemma rl_do_undo_at:
  assumes "undo_at base as ed" and "\<not> rl_doing_an_undo ed" and "hist_at (hist ed) es k"
  shows "\<exists>some ed1 bs es1. rl_do_undo ed = Some (some, ed1) \<and> rewound base k as es ed bs es1 ed1 \<and>
    (as \<noteq> [] \<longrightarrow> length bs < length as)"
  unfolding rl_do_undo_def by (rule undo_loop_at [OF assms]) (use undo_at_length [OF assms(1)] in simp_all)

lemma undo_all_at:
  assumes "undo_at base as ed" and "\<not> rl_doing_an_undo ed" and "hist_at (hist ed) es k" and "length as < fuel"
  shows "\<exists>ed1 es1. undo_all fuel ed = Some ed1 \<and> rewound base k as es ed [] es1 ed1"
  using assms
proof (induction fuel arbitrary: as ed es)
  case (Suc fuel)
  show ?case
  proof (cases "as = []")
    case True
    then show ?thesis using Suc.prems by (auto simp: rewound_def undo_at_def)
  next
    case False
    obtain some ed1 bs es1 where one: "rl_do_undo ed = Some (some, ed1)" "rewound base k as es ed bs es1 ed1"
      "length bs < length as"
      using rl_do_undo_at [OF Suc.prems(1-3)] False by blast
    then have "\<not> rl_doing_an_undo ed1" "undo_at base bs ed1" "hist_at (hist ed1) es1 k"
      using Suc.prems(2) undo_frame_simps [of ed ed1] by (auto simp: rewound_def)
    moreover have "length bs < fuel" using one(3) Suc.prems(4) by simp
    ultimately obtain ed2 es2 where "undo_all fuel ed1 = Some ed2" "rewound base k bs es1 ed1 [] es2 ed2"
      using Suc.IH by blast
    then show ?thesis
      using one rewound_trans [OF one(2)] undo_at_Nil [OF Suc.prems(1)] False by auto
  qed
qed simp

lemma rl_revert_line_at:
  assumes "undo_at base as ed" and "\<not> rl_doing_an_undo ed" and "hist_at (hist ed) es k"
  shows "\<exists>ed1 es1. rl_revert_line ed = Some ed1 \<and> rl_line_buffer ed1 = base \<and> rl_undo_list ed1 = 0 \<and>
    hist_at (hist ed1) es1 k \<and> others_kept (set as) es es1 \<and>
    next_undo ed1 = next_undo ed \<and> revert_all_at_newline ed1 = revert_all_at_newline ed"
proof (cases "as = []")
  case True
  then show ?thesis using assms by (auto simp: rl_revert_line_def undo_at_def)
next
  case False
  obtain ed1 es1 where "undo_all (Suc (next_undo ed)) ed = Some ed1" "rewound base k as es ed [] es1 ed1"
    using undo_all_at [OF assms, of "Suc (next_undo ed)"] undo_at_length [OF assms(1)] by (auto simp: less_Suc_eq_le)
  then show ?thesis
    using undo_at_Nil [OF assms(1)] False undo_frame_simps [of ed ed1]
    by (auto simp: rl_revert_line_def rewound_def undo_at_def)
qed

section \<open>Editing keeps the chain\<close>

text \<open>The line can be brought back to \<open>base\<close>; the position, the history and the kill ring are in order.\<close>

definition sound_line :: "cstring \<Rightarrow> editor \<Rightarrow> bool" where
  "sound_line base ed \<longleftrightarrow> (\<exists>as. undo_at base as ed) \<and> \<not> rl_doing_an_undo ed"

text \<open>
  The kill ring: null before the first kill, and then with its index inside. A kill may append to
  the last one only when there is a ring; before the first kill the last command is not a kill.
\<close>

definition ring_slots :: "editor \<Rightarrow> bool" where
  "ring_slots ed \<longleftrightarrow>
     (\<forall>slots. rl_kill_ring ed = Some slots \<longrightarrow>
        slots \<noteq> [] \<and> 0 \<le> rl_kill_index ed \<and> rl_kill_index ed < int (length slots))"

definition can_kill :: "editor \<Rightarrow> bool" where
  "can_kill ed \<longleftrightarrow> rl_kill_ring ed \<noteq> None \<or> last_command_was_kill ed = 0"

definition ring_ok :: "editor \<Rightarrow> bool" where
  "ring_ok ed \<longleftrightarrow> ring_slots ed \<and> can_kill ed"

text \<open>What inserting and deleting may change.\<close>

definition edit_frame :: "editor \<Rightarrow> editor \<Rightarrow> bool" where
  "edit_frame ed ed1 \<longleftrightarrow>
     next_undo ed \<le> next_undo ed1 \<and>
     ed1 = ed\<lparr>rl_line_buffer := rl_line_buffer ed1, rl_point := rl_point ed1, rl_undo_list := rl_undo_list ed1,
              undo_heap := undo_heap ed1, next_undo := next_undo ed1\<rparr>"

lemma undo_at_cong:
  "undo_heap ed1 = undo_heap ed \<Longrightarrow> next_undo ed1 = next_undo ed \<Longrightarrow> rl_undo_list ed1 = rl_undo_list ed \<Longrightarrow>
   rl_line_buffer ed1 = rl_line_buffer ed \<Longrightarrow> undo_at base as ed1 = undo_at base as ed"
  by (simp add: undo_at_def)

lemma sound_line_cong:
  "undo_heap ed1 = undo_heap ed \<Longrightarrow> next_undo ed1 = next_undo ed \<Longrightarrow> rl_undo_list ed1 = rl_undo_list ed \<Longrightarrow>
   rl_line_buffer ed1 = rl_line_buffer ed \<Longrightarrow> rl_doing_an_undo ed1 = rl_doing_an_undo ed \<Longrightarrow>
   sound_line base ed1 = sound_line base ed"
  by (simp add: sound_line_def undo_at_def)

text \<open>A new node in front, for a text from which it leads to the text the list is good for.\<close>

lemma rl_add_undo_at:
  assumes "undo_at base as ed" and "node_undone \<lparr>u_what = what, u_start = a, u_end = b, u_text = str, u_next = rl_undo_list ed\<rparr> t =
      Some (rl_line_buffer ed)"
  shows "undo_at base (next_undo ed # as) ((rl_add_undo what a b str ed)\<lparr>rl_line_buffer := t\<rparr>)"
proof -
  have "next_undo ed \<notin> set as" using assms(1) by (auto simp: undo_at_def)
  then show ?thesis
    using assms by (auto simp: undo_at_def rl_add_undo_def less_Suc_eq nodes_update)
qed

lemma node_undone_insert:
  assumes "p \<le> length line"
  shows "node_undone \<lparr>u_what = UNDO_INSERT, u_start = int p, u_end = int p + int (length str), u_text = x, u_next = y\<rparr>
      (take p line @ str @ drop p line) = Some line"
  using assms by (simp add: node_undone_def nat_add_distrib)

lemma node_undone_delete:
  assumes "a \<le> b" and "b \<le> length line"
  shows "node_undone \<lparr>u_what = UNDO_DELETE, u_start = int a, u_end = e, u_text = Some (take (b - a) (drop a line)), u_next = y\<rparr>
      (take a line @ drop b line) = Some line"
proof -
  have "take a line @ take (b - a) (drop a line) @ drop b line = line"
    using assms by (metis append_take_drop_id drop_drop le_add_diff_inverse2)
  then show ?thesis using assms by (simp add: node_undone_def)
qed

lemma sound_line_add:
  assumes "sound_line base ed" and "node_undone \<lparr>u_what = what, u_start = a, u_end = b, u_text = str, u_next = rl_undo_list ed\<rparr> t =
      Some (rl_line_buffer ed)"
  shows "sound_line base ((rl_add_undo what a b str ed)\<lparr>rl_line_buffer := t\<rparr>)"
  using assms rl_add_undo_at [of base _ ed what a b str t] by (auto simp: sound_line_def rl_add_undo_def)

lemma sound_line_group [simp]:
  assumes "sound_line base ed"
  shows "sound_line base (rl_begin_undo_group ed)" "sound_line base (rl_end_undo_group ed)"
  using sound_line_add [OF assms, of UNDO_BEGIN 0 0 None "rl_line_buffer ed"]
    sound_line_add [OF assms, of UNDO_END 0 0 None "rl_line_buffer ed"]
  by (auto simp: node_undone_def rl_begin_undo_group_def rl_end_undo_group_def Let_def rl_add_undo_def
      sound_line_def undo_at_def)

text \<open>The node of the last insertion grows by one character at its end.\<close>

lemma join_at:
  assumes "undo_at base (a # as) ed" and "undo_heap ed a = Some n" and "joins_last str (rl_point ed) n" and "in_line ed (rl_point ed)"
  shows "undo_at base (a # as) (ed\<lparr>undo_heap := (undo_heap ed)(a \<mapsto> n\<lparr>u_end := u_end n + 1\<rparr>),
    rl_line_buffer := take (nat (rl_point ed)) (rl_line_buffer ed) @ str @ drop (nat (rl_point ed)) (rl_line_buffer ed)\<rparr>)"
proof -
  let ?line = "rl_line_buffer ed" and ?p = "nat (rl_point ed)" and ?s = "nat (u_start n)"
  obtain t where t: "node_undone n ?line = Some t" "undone (map (the \<circ> undo_heap ed) as) t = Some base"
    using assms(1,2) by (auto simp: undo_at_def bind_eq_Some_conv)
  have n: "u_what n = UNDO_INSERT" "u_end n = rl_point ed" "length str = 1" using assms(3) by (auto simp: joins_last_def)
  then have r: "0 \<le> u_start n" "u_start n \<le> rl_point ed" "rl_point ed \<le> int (length ?line)" "t = take ?s ?line @ drop ?p ?line"
    using t(1) by (auto simp: node_undone_def split: if_splits)
  have len: "?s \<le> ?p" "?p \<le> length ?line" "nat (rl_point ed + 1) = ?p + 1" using r by auto
  have "take ?s (take ?p ?line @ str @ drop ?p ?line) @ drop (?p + 1) (take ?p ?line @ str @ drop ?p ?line) = t"
    using len n(3) r(4) by (simp add: min_def)
  then have "node_undone (n\<lparr>u_end := u_end n + 1\<rparr>) (take ?p ?line @ str @ drop ?p ?line) = Some t"
    using r(1-3) n len(3) by (simp add: node_undone_def)
  then show ?thesis
    using assms(1,2) t(2) by (auto simp: undo_at_def nodes_update)
qed

text \<open>Inserting.\<close>

lemma rl_insert_text_ok:
  assumes "sound_line base ed" and "in_line ed (rl_point ed)"
  shows "\<exists>ed1. rl_insert_text str ed = Some ed1 \<and> sound_line base ed1 \<and> edit_frame ed ed1 \<and>
    rl_line_buffer ed1 = take (nat (rl_point ed)) (rl_line_buffer ed) @ str @ drop (nat (rl_point ed)) (rl_line_buffer ed) \<and>
    rl_point ed1 = rl_point ed + int (length str)"
proof (cases "str = []")
  case True
  then show ?thesis using assms by (simp add: rl_insert_text_def edit_frame_def)
next
  case False
  let ?p = "nat (rl_point ed)" and ?line = "rl_line_buffer ed"
  let ?t = "take ?p ?line @ str @ drop ?p ?line"
  obtain as where as: "undo_at base as ed" "\<not> rl_doing_an_undo ed" using assms(1) by (auto simp: sound_line_def)
  have p: "?p \<le> length ?line" "int ?p = rl_point ed" using assms(2) by (auto simp: in_line_def rl_end_def)
  have new: "sound_line base ((rl_add_undo UNDO_INSERT (rl_point ed) (rl_point ed + int (length str)) None ed)\<lparr>rl_line_buffer := ?t\<rparr>)"
    by (rule sound_line_add [OF assms(1)]) (use node_undone_insert [OF p(1)] p(2) in simp)
  obtain ed1 where ed1: "remember_insert str ed = Some ed1" "sound_line base (ed1\<lparr>rl_line_buffer := ?t\<rparr>)" "edit_frame ed ed1"
    "rl_point ed1 = rl_point ed"
  proof (cases as)
    case Nil
    then show ?thesis
      using that [OF _ new] as by (simp add: remember_insert_def Let_def undo_at_Nil [OF as(1)] edit_frame_def rl_add_undo_def)
  next
    case (Cons a bs)
    obtain n where n: "undo_heap ed a = Some n" "rl_undo_list ed = a" "a \<noteq> 0" using as(1) by (auto simp: undo_at_def Cons)
    let ?j = "ed\<lparr>undo_heap := (undo_heap ed)(a \<mapsto> n\<lparr>u_end := u_end n + 1\<rparr>)\<rparr>"
    show ?thesis
    proof (cases "joins_last str (rl_point ed) n")
      case True
      have "sound_line base (?j\<lparr>rl_line_buffer := ?t\<rparr>)"
        using join_at [OF as(1) [unfolded Cons] n(1) True assms(2)] as(2) by (auto simp: sound_line_def)
      moreover have "edit_frame ed ?j" by (simp add: edit_frame_def)
      ultimately show ?thesis
        using that [of ?j] True n as(2) by (simp add: remember_insert_def Let_def)
    next
      case False
      then show ?thesis using that [OF _ new] n as(2) by (simp add: remember_insert_def Let_def edit_frame_def rl_add_undo_def)
    qed
  qed
  let ?ed2 = "ed1\<lparr>rl_line_buffer := ?t, rl_point := rl_point ed + int (length str)\<rparr>"
  have "rl_insert_text str ed = Some ?ed2"
    using False assms(2) ed1(1) by (simp add: rl_insert_text_def Let_def)
  moreover have "sound_line base ?ed2"
    using ed1(2) sound_line_cong [of ?ed2 "ed1\<lparr>rl_line_buffer := ?t\<rparr>"] by simp
  moreover have "edit_frame ed ?ed2" using ed1(3) by (cases ed; cases ed1) (simp add: edit_frame_def)
  ultimately show ?thesis by simp
qed

text \<open>Deleting, also with the bounds in the wrong order or behind the end.\<close>

lemma rl_delete_text_ok:
  assumes "sound_line base ed" and "0 \<le> i" "0 \<le> j"
  defines "a \<equiv> min (nat (min i j)) (length (rl_line_buffer ed))" and "b \<equiv> min (nat (max i j)) (length (rl_line_buffer ed))"
  shows "\<exists>ed1. rl_delete_text i j ed = Some ed1 \<and> sound_line base ed1 \<and> edit_frame ed ed1 \<and>
    rl_line_buffer ed1 = take a (rl_line_buffer ed) @ drop b (rl_line_buffer ed) \<and> rl_point ed1 = rl_point ed"
proof -
  let ?line = "rl_line_buffer ed"
  have ab: "a \<le> b" "b \<le> length ?line" by (auto simp: a_def b_def min_def max_def)
  let ?new = "rl_add_undo UNDO_DELETE (int a) (int b) (Some (take (b - a) (drop a ?line))) ed"
  have stop: "min (max i j) (rl_end ed) = int b" using assms(2,3) by (auto simp: b_def rl_end_def)
  have start: "(if rl_end ed < max i j \<and> int b < min i j then int b else min i j) = int a"
    using assms(2,3) stop by (auto simp: a_def b_def rl_end_def min_def max_def)
  have copy: "rl_copy_text (int a) (int b) ed = Some (take (b - a) (drop a ?line))"
    using ab by (simp add: rl_copy_text_def in_line_def rl_end_def flip: of_nat_diff)
  have run: "rl_delete_text i j ed = Some (?new\<lparr>rl_line_buffer := take a ?line @ drop b ?line\<rparr>)"
    using assms(1) unfolding rl_delete_text_def Let_def stop start by (simp add: copy sound_line_def)
  have "sound_line base (?new\<lparr>rl_line_buffer := take a ?line @ drop b ?line\<rparr>)"
    by (rule sound_line_add [OF assms(1)]) (use node_undone_delete [OF ab] in simp)
  then show ?thesis using run by (simp add: edit_frame_def rl_add_undo_def)
qed

end
