(* ===== verification/Line_Commands.thy ===== *)
theory Line_Commands
  imports Line_Undo
begin

text \<open>
  Every editing command keeps the undo list good: whatever is typed, killed, yanked, transposed or
  undone, the line can still be brought back.
\<close>

section \<open>States between two steps of a command\<close>

text \<open>
  \<open>base\<close> is the text the line can be brought back to, \<open>es\<close> the history before the editing began and
  \<open>k\<close> the position in it: entries elsewhere are as they were, unless they have undo lists.
\<close>

definition loose :: "cstring \<Rightarrow> hist_entry list \<Rightarrow> nat \<Rightarrow> editor \<Rightarrow> bool" where
  "loose base es k ed \<longleftrightarrow>
     sound_line base ed \<and> ring_slots ed \<and> 0 \<le> rl_mark ed \<and>
     (\<exists>es1. hist_at (hist ed) es1 k \<and> others_kept (- {0}) es es1)"

definition editing :: "cstring \<Rightarrow> hist_entry list \<Rightarrow> nat \<Rightarrow> editor \<Rightarrow> bool" where
  "editing base es k ed \<longleftrightarrow> loose base es k ed \<and> in_line ed (rl_point ed)"

lemma loose_update [simp]:
  "loose base es k (ed\<lparr>rl_point := p\<rparr>) = loose base es k ed"
  "loose base es k (ed\<lparr>rl_explicit_arg := x\<rparr>) = loose base es k ed"
  "loose base es k (ed\<lparr>rl_last_func := f\<rparr>) = loose base es k ed"
  "loose base es k (ed\<lparr>last_command_was_kill := i\<rparr>) = loose base es k ed"
  "loose base es k (count_kill ed) = loose base es k ed"
  by (simp_all add: loose_def ring_slots_def sound_line_def undo_at_def count_kill_def)

lemma can_kill_update [simp]:
  "can_kill (ed\<lparr>rl_point := p\<rparr>) = can_kill ed" "can_kill (ed\<lparr>rl_mark := m\<rparr>) = can_kill ed"
  "can_kill (ed\<lparr>rl_explicit_arg := x\<rparr>) = can_kill ed" "can_kill (ed\<lparr>rl_last_func := f\<rparr>) = can_kill ed"
  "can_kill (rl_begin_undo_group ed) = can_kill ed" "can_kill (rl_end_undo_group ed) = can_kill ed"
  by (simp_all add: can_kill_def rl_begin_undo_group_def rl_end_undo_group_def rl_add_undo_def Let_def)

lemma loose_mark [simp]: "loose base es k ed \<Longrightarrow> 0 \<le> m \<Longrightarrow> loose base es k (ed\<lparr>rl_mark := m\<rparr>)"
  by (simp add: loose_def ring_slots_def sound_line_def undo_at_def)

lemma end_update [simp]:
  "rl_end (ed\<lparr>rl_point := p\<rparr>) = rl_end ed" "rl_end (ed\<lparr>rl_mark := m\<rparr>) = rl_end ed"
  "rl_end (ed\<lparr>rl_explicit_arg := x\<rparr>) = rl_end ed" "rl_end (ed\<lparr>rl_last_func := f\<rparr>) = rl_end ed"
  "rl_end (ed\<lparr>last_command_was_kill := i\<rparr>) = rl_end ed" "rl_end (count_kill ed) = rl_end ed"
  "rl_end (rl_begin_undo_group ed) = rl_end ed" "rl_end (rl_end_undo_group ed) = rl_end ed"
  "rl_end (rl_add_undo what a b str ed) = rl_end ed"
  by (simp_all add: rl_end_def count_kill_def rl_begin_undo_group_def rl_end_undo_group_def rl_add_undo_def Let_def)

lemma point_update [simp]:
  "rl_point (count_kill ed) = rl_point ed" "rl_mark (count_kill ed) = rl_mark ed"
  "rl_point (rl_begin_undo_group ed) = rl_point ed" "rl_point (rl_end_undo_group ed) = rl_point ed"
  "rl_mark (rl_begin_undo_group ed) = rl_mark ed" "rl_mark (rl_end_undo_group ed) = rl_mark ed"
  by (simp_all add: count_kill_def rl_begin_undo_group_def rl_end_undo_group_def rl_add_undo_def Let_def)

lemma end_nonneg [simp]: "0 \<le> rl_end ed"
  by (simp add: rl_end_def)

lemma loose_group [simp]:
  "loose base es k ed \<Longrightarrow> loose base es k (rl_begin_undo_group ed)"
  "loose base es k ed \<Longrightarrow> loose base es k (rl_end_undo_group ed)"
  by (simp_all add: loose_def) (simp_all add: ring_slots_def rl_begin_undo_group_def rl_end_undo_group_def rl_add_undo_def Let_def)

lemma edit_frame_loose:
  assumes "edit_frame ed ed1" and "sound_line base ed1" and "loose base es k ed"
  shows "loose base es k ed1" "rl_mark ed1 = rl_mark ed" "rl_editing_mode ed1 = rl_editing_mode ed"
    "last_command_was_kill ed1 = last_command_was_kill ed" "rl_kill_ring ed1 = rl_kill_ring ed"
    "rl_kill_index ed1 = rl_kill_index ed" "rl_explicit_arg ed1 = rl_explicit_arg ed"
  using assms by (cases ed; cases ed1; simp add: edit_frame_def loose_def ring_slots_def)+

section \<open>The basic steps\<close>

lemma loose_insert:
  assumes "loose base es k ed" and "in_line ed (rl_point ed)"
  shows "\<exists>ed1. rl_insert_text str ed = Some ed1 \<and> loose base es k ed1 \<and> rl_mark ed1 = rl_mark ed \<and>
    rl_point ed1 = rl_point ed + int (length str) \<and> rl_end ed1 = rl_end ed + int (length str) \<and>
    can_kill ed1 = can_kill ed"
proof -
  obtain ed1 where ed1: "rl_insert_text str ed = Some ed1" "sound_line base ed1" "edit_frame ed ed1"
    "rl_line_buffer ed1 = take (nat (rl_point ed)) (rl_line_buffer ed) @ str @ drop (nat (rl_point ed)) (rl_line_buffer ed)"
    "rl_point ed1 = rl_point ed + int (length str)"
    using rl_insert_text_ok [of base ed str] assms by (auto simp: loose_def)
  have "rl_end ed1 = rl_end ed + int (length str)"
    using assms(2) ed1(4) by (auto simp: rl_end_def in_line_def)
  then show ?thesis using ed1 edit_frame_loose [OF ed1(3,2) assms(1)] by (simp add: can_kill_def)
qed

lemma loose_delete:
  assumes "loose base es k ed" and "0 \<le> i" "0 \<le> j"
  shows "\<exists>ed1. rl_delete_text i j ed = Some ed1 \<and> loose base es k ed1 \<and> rl_mark ed1 = rl_mark ed \<and> rl_point ed1 = rl_point ed \<and>
    (in_line ed i \<and> in_line ed j \<longrightarrow> rl_end ed1 = rl_end ed - \<bar>i - j\<bar>) \<and> min (min i j) (rl_end ed) \<le> rl_end ed1 \<and>
    last_command_was_kill ed1 = last_command_was_kill ed \<and> rl_kill_ring ed1 = rl_kill_ring ed \<and>
    rl_editing_mode ed1 = rl_editing_mode ed"
proof -
  let ?a = "min (nat (min i j)) (length (rl_line_buffer ed))" and ?b = "min (nat (max i j)) (length (rl_line_buffer ed))"
  obtain ed1 where ed1: "rl_delete_text i j ed = Some ed1" "sound_line base ed1" "edit_frame ed ed1"
    "rl_line_buffer ed1 = take ?a (rl_line_buffer ed) @ drop ?b (rl_line_buffer ed)" "rl_point ed1 = rl_point ed"
    using rl_delete_text_ok [of base ed i j] assms by (auto simp: loose_def)
  have "in_line ed i \<and> in_line ed j \<longrightarrow> rl_end ed1 = rl_end ed - \<bar>i - j\<bar>"
    unfolding rl_end_def ed1(4) in_line_def by (auto simp: min_def max_def of_nat_diff)
  moreover have "min (min i j) (rl_end ed) \<le> rl_end ed1"
    unfolding rl_end_def ed1(4) using assms(2,3) by (auto simp: min_def max_def)
  ultimately show ?thesis using ed1 edit_frame_loose [OF ed1(3,2) assms(1)] by simp
qed

lemma copy_in_line: "in_line ed (min i j) \<Longrightarrow> \<exists>str. rl_copy_text i j ed = Some str"
  by (simp add: rl_copy_text_def Let_def)

lemma loose_to_ring:
  assumes "loose base es k ed" and "can_kill ed"
  shows "\<exists>ed1. rl_copy_to_kill_ring str at_end ed = Some ed1 \<and> loose base es k ed1 \<and> rl_mark ed1 = rl_mark ed \<and>
    rl_point ed1 = rl_point ed \<and> rl_end ed1 = rl_end ed"
proof -
  obtain s1 i where run: "rl_copy_to_kill_ring str at_end ed = Some (ed\<lparr>rl_kill_ring := Some s1, rl_kill_index := int i\<rparr>)"
    "i < length s1"
  proof (cases "last_command_was_kill ed = 0")
    case True
    let ?new = "new_kill_slot (rl_kill_ring ed)"
    have "?new \<noteq> []" by (auto simp: new_kill_slot_def split: option.split)
    then show ?thesis using that [of "length ?new - 1" "?new[length ?new - 1 := str]"] True
      by (simp add: rl_copy_to_kill_ring_def Let_def)
  next
    case False
    then obtain slots where slots: "rl_kill_ring ed = Some slots" "slots \<noteq> []"
      using assms by (auto simp: loose_def ring_slots_def can_kill_def)
    let ?v = "if rl_editing_mode ed \<noteq> vi_mode then if at_end then slots ! (length slots - 1) @ str else str @ slots ! (length slots - 1) else str"
    show ?thesis using that [of "length slots - 1" "slots[length slots - 1 := ?v]"] False slots
      by (simp add: rl_copy_to_kill_ring_def Let_def)
  qed
  have "loose base es k (ed\<lparr>rl_kill_ring := Some s1, rl_kill_index := int i\<rparr>)"
    using assms run(2) by (auto simp: loose_def ring_slots_def sound_line_def undo_at_def)
  then show ?thesis using run(1) by (simp add: rl_end_def)
qed

lemma loose_kill:
  assumes "loose base es k ed" and "0 \<le> i" "0 \<le> j" "in_line ed (min i j)" and "can_kill ed"
  shows "\<exists>ed1. rl_kill_text i j ed = Some ed1 \<and> loose base es k ed1 \<and> rl_mark ed1 = rl_mark ed \<and> rl_point ed1 = rl_point ed \<and>
    min i j \<le> rl_end ed1 \<and> (in_line ed i \<and> in_line ed j \<longrightarrow> rl_end ed1 = rl_end ed - \<bar>i - j\<bar>)"
proof (cases "i = j")
  case True
  then show ?thesis using assms by (simp add: rl_kill_text_def in_line_def)
next
  case False
  obtain str where str: "rl_copy_text i j ed = Some str" using copy_in_line [OF assms(4)] by blast
  obtain ed1 where ed1: "rl_delete_text i j ed = Some ed1" "loose base es k ed1" "rl_mark ed1 = rl_mark ed" "rl_point ed1 = rl_point ed"
    "in_line ed i \<and> in_line ed j \<longrightarrow> rl_end ed1 = rl_end ed - \<bar>i - j\<bar>" "min (min i j) (rl_end ed) \<le> rl_end ed1" "can_kill ed1"
    using loose_delete [OF assms(1-3)] assms(5) unfolding can_kill_def by metis
  obtain ed2 where "rl_copy_to_kill_ring str (i < j) ed1 = Some ed2" "loose base es k ed2" "rl_mark ed2 = rl_mark ed1"
    "rl_point ed2 = rl_point ed1" "rl_end ed2 = rl_end ed1"
    using loose_to_ring [OF ed1(2,7)] by blast
  then show ?thesis using False str ed1 assms(4) by (auto simp: rl_kill_text_def in_line_def)
qed

lemma loose_mark_point [simp]:
  "loose base es k ed \<Longrightarrow> 0 \<le> rl_point ed \<Longrightarrow> loose base es k (mark_point ed)"
  "rl_point (mark_point ed) = rl_point ed" "rl_end (mark_point ed) = rl_end ed"
  by (auto simp: mark_point_def)

lemma fix_in_line_range: "in_line ed (fix_in_line ed x)"
  by (simp add: fix_in_line_def in_line_def)

lemma loose_fix [simp]:
  "loose base es k ed \<Longrightarrow> loose base es k (rl_fix_point b ed)" "rl_end (rl_fix_point b ed) = rl_end ed"
  "rl_point (rl_fix_point b ed) = fix_in_line ed (rl_point ed)"
  using fix_in_line_range [of "ed\<lparr>rl_point := fix_in_line ed (rl_point ed)\<rparr>" "rl_mark ed"]
  by (simp_all add: rl_fix_point_def Let_def in_line_def)

section \<open>Moving\<close>

lemma keeps_byte:
  assumes "editing base es k ed"
  shows "editing base es k (rl_forward_byte n ed)" "editing base es k (rl_backward_byte n ed)"
proof -
  have f: "editing base es k (forward_bytes m ed)" "editing base es k (backward_bytes m ed)" for m
    using assms by (auto simp: editing_def forward_bytes_def backward_bytes_def Let_def in_line_def)
  show "editing base es k (rl_forward_byte n ed)" "editing base es k (rl_backward_byte n ed)"
    using f by (simp_all add: rl_forward_byte_def rl_backward_byte_def)
qed

lemma byte_rest [simp]:
  "rl_end (rl_forward_byte n ed) = rl_end ed" "rl_mark (rl_forward_byte n ed) = rl_mark ed"
  "rl_end (rl_backward_byte n ed) = rl_end ed" "rl_mark (rl_backward_byte n ed) = rl_mark ed"
  by (simp_all add: rl_forward_byte_def rl_backward_byte_def forward_bytes_def backward_bytes_def Let_def)

lemma forward_word_le: "p \<le> length s \<Longrightarrow> forward_word_from alpha s p \<le> length s"
proof -
  have right: "i \<le> length s \<Longrightarrow> skip_right Q s i \<le> length s" for Q i
    using length_takeWhile_le [of Q "drop i s"] by (simp add: skip_right_def)
  show "p \<le> length s \<Longrightarrow> forward_word_from alpha s p \<le> length s"
    unfolding forward_word_from_def by (intro right)
qed

lemma backward_word_le: "backward_word_from alpha s p \<le> p"
  by (simp add: backward_word_from_def skip_left_def)

lemma forward_word_ge: "p \<le> forward_word_from alpha s p"
  by (simp add: forward_word_from_def skip_right_def)

lemma funpow_bound: "(\<And>p. Q p \<Longrightarrow> Q (f p)) \<Longrightarrow> Q p \<Longrightarrow> Q ((f ^^ n) p)"
  by (induction n) auto

lemma word_move:
  assumes "in_line ed (rl_point ed)"
  shows "\<exists>p. rl_forward_word n ed = Some (ed\<lparr>rl_point := p\<rparr>) \<and> in_line ed p \<and>
      (if 0 \<le> n then rl_point ed \<le> p else p \<le> rl_point ed)"
    "\<exists>p. rl_backward_word n ed = Some (ed\<lparr>rl_point := p\<rparr>) \<and> in_line ed p \<and>
      (if 0 \<le> n then p \<le> rl_point ed else rl_point ed \<le> p)"
proof -
  let ?s = "rl_line_buffer ed" and ?x = "nat (rl_point ed)"
  let ?f = "forward_word_from (rl_alphabetic ed) ?s" and ?b = "backward_word_from (rl_alphabetic ed) ?s"
  have x: "?x \<le> length ?s" "0 \<le> rl_point ed" using assms by (auto simp: in_line_def rl_end_def)
  have f: "(?f ^^ m) ?x \<le> length ?s \<and> ?x \<le> (?f ^^ m) ?x" for m
    using x(1) by (intro funpow_bound [where Q = "\<lambda>p. p \<le> length ?s \<and> ?x \<le> p"])
      (auto intro: forward_word_le le_trans [OF _ forward_word_ge])
  have b: "(?b ^^ m) ?x \<le> ?x" for m
    by (intro funpow_bound [where Q = "\<lambda>p. p \<le> ?x"]) (auto intro: le_trans [OF backward_word_le])
  have fm: "\<exists>p. forward_words m ed = Some (ed\<lparr>rl_point := p\<rparr>) \<and> in_line ed p \<and> rl_point ed \<le> p" for m
    using assms x f [of "nat m"] by (auto simp: forward_words_def in_line_def rl_end_def)
  have bm: "\<exists>p. backward_words m ed = Some (ed\<lparr>rl_point := p\<rparr>) \<and> in_line ed p \<and> p \<le> rl_point ed" for m
    using assms x b [of "nat m"] by (auto simp: backward_words_def in_line_def rl_end_def)
  show "\<exists>p. rl_forward_word n ed = Some (ed\<lparr>rl_point := p\<rparr>) \<and> in_line ed p \<and>
      (if 0 \<le> n then rl_point ed \<le> p else p \<le> rl_point ed)"
    "\<exists>p. rl_backward_word n ed = Some (ed\<lparr>rl_point := p\<rparr>) \<and> in_line ed p \<and>
      (if 0 \<le> n then p \<le> rl_point ed else rl_point ed \<le> p)"
    using fm bm by (auto simp: rl_forward_word_def rl_backward_word_def)
qed

section \<open>Commands\<close>

text \<open>\<open>keeps r base es k\<close>: the step has a result, and the line in it is still being edited.\<close>

definition keeps :: "editor option \<Rightarrow> cstring \<Rightarrow> hist_entry list \<Rightarrow> nat \<Rightarrow> bool" where
  "keeps r base es k \<longleftrightarrow> (\<exists>ed1. r = Some ed1 \<and> editing base es k ed1)"

lemma keeps_Some [simp]: "keeps (Some ed) base es k = editing base es k ed"
  by (simp add: keeps_def)

lemma editing_simps:
  "editing base es k ed \<Longrightarrow> loose base es k ed" "editing base es k ed \<Longrightarrow> in_line ed (rl_point ed)"
  by (simp_all add: editing_def)

text \<open>Kills between the position before a move and the one after it.\<close>

lemma keeps_kill_back:
  assumes "loose base es k ed" "in_line ed (rl_point ed)" "in_line ed p" "rl_point ed \<le> p" "can_kill ed"
  shows "keeps (do { ed1 \<leftarrow> rl_kill_text p (rl_point ed) ed; Some (mark_point ed1) }) base es k"
proof -
  obtain ed1 where ed1: "rl_kill_text p (rl_point ed) ed = Some ed1" "loose base es k ed1" "rl_point ed1 = rl_point ed"
    "rl_end ed1 = rl_end ed - \<bar>p - rl_point ed\<bar>"
    using loose_kill [OF assms(1), of p "rl_point ed"] assms(2-) by (auto simp: in_line_def)
  then show ?thesis
    using assms(2-) by (auto simp: editing_def in_line_def)
qed

lemma kill_to:
  assumes "loose base es k ed" "in_line ed p" "in_line ed q" "can_kill ed"
  obtains ed1 where "rl_kill_text p q ed = Some ed1" "loose base es k ed1" "rl_point ed1 = rl_point ed"
    "rl_mark ed1 = rl_mark ed" "rl_end ed1 = rl_end ed - \<bar>p - q\<bar>"
  using loose_kill [OF assms(1), of p q] assms(2-4) by (auto simp: in_line_def min_le_iff_disj)

text \<open>The usual end of a killing command: the text between \<open>p\<close> and \<open>q\<close> goes, \<open>point\<close> is at \<open>x\<close>.\<close>

lemma keeps_kill_then:
  assumes "loose base es k ed" "in_line ed p" "in_line ed q" "x = min p q" "can_kill ed"
    and "\<And>ed1. loose base es k ed1 \<Longrightarrow> rl_point ed1 = rl_point ed \<Longrightarrow> in_line ed1 x \<Longrightarrow> keeps (f ed1) base es k"
  shows "keeps (rl_kill_text p q ed \<bind> f) base es k"
proof -
  obtain ed1 where "rl_kill_text p q ed = Some ed1" "loose base es k ed1" "rl_point ed1 = rl_point ed"
    "rl_end ed1 = rl_end ed - \<bar>p - q\<bar>"
    by (rule kill_to [OF assms(1-3,5)])
  then show ?thesis using assms(2-4,6) by (auto simp: in_line_def)
qed

lemma keeps_kill_words:
  assumes "editing base es k ed" and "0 \<le> n" and ck: "can_kill ed"
  shows "keeps (kill_words n ed) base es k" "keeps (backward_kill_words n ed) base es k"
proof -
  have e: "loose base es k ed" "in_line ed (rl_point ed)" using assms by (simp_all add: editing_def)
  obtain p where "rl_forward_word n ed = Some (ed\<lparr>rl_point := p\<rparr>)" "in_line ed p" "rl_point ed \<le> p"
    using word_move(1) [OF e(2), of n] assms(2) by auto
  then show "keeps (kill_words n ed) base es k"
    using e ck unfolding kill_words_def
    by (auto simp: editing_def in_line_def Let_def intro!: keeps_kill_then [where x = "rl_point ed"])
  obtain q where "rl_backward_word n ed = Some (ed\<lparr>rl_point := q\<rparr>)" "in_line ed q" "q \<le> rl_point ed"
    using word_move(2) [OF e(2), of n] assms(2) by auto
  then show "keeps (backward_kill_words n ed) base es k"
    using e ck unfolding backward_kill_words_def
    by (auto simp: editing_def in_line_def Let_def intro!: keeps_kill_then [where x = q])
qed

lemma keeps_kill_line:
  assumes "editing base es k ed" and ck: "can_kill ed"
  shows "keeps (kill_to_end ed) base es k" "keeps (kill_to_start ed) base es k"
    "keeps (rl_unix_line_discard ed) base es k"
proof -
  have e: "loose base es k ed" "in_line ed (rl_point ed)" using assms by (simp_all add: editing_def)
  then show "keeps (kill_to_end ed) base es k"
    using ck unfolding kill_to_end_def rl_end_of_line_def
    by (auto simp: editing_def in_line_def Let_def intro!: keeps_kill_then [where x = "rl_point ed"])
  show "keeps (kill_to_start ed) base es k" "keeps (rl_unix_line_discard ed) base es k"
    using e ck unfolding kill_to_start_def rl_beg_of_line_def rl_unix_line_discard_def
    by (auto simp: editing_def in_line_def Let_def intro!: keeps_kill_then [where x = 0])
qed

lemma keeps_kill_full_line:
  assumes "editing base es k ed" and ck: "can_kill ed"
  shows "keeps (rl_kill_full_line ed) base es k"
  using assms(1) ck unfolding rl_kill_full_line_def
  by (auto simp: editing_def in_line_def Let_def intro!: keeps_kill_then [where x = 0])

lemma rubout_le: "word_rubout_from s p \<le> p" "filename_rubout_from s p \<le> p"
  by (simp_all add: word_rubout_from_def filename_rubout_from_def skip_left_def Let_def)

lemma rubouts_le: "(word_rubout_from s ^^ n) p \<le> p" "(filename_rubout_from s ^^ n) p \<le> p"
  by (intro funpow_bound [where Q = "\<lambda>q. q \<le> p"] le_trans [OF rubout_le(1)], simp_all)
     (intro funpow_bound [where Q = "\<lambda>q. q \<le> p"] le_trans [OF rubout_le(2)], simp_all)

lemma keeps_rubouts:
  assumes "editing base es k ed" and ck: "can_kill ed"
  shows "keeps (rl_unix_word_rubout n ed) base es k" "keeps (rl_unix_filename_rubout n ed) base es k"
proof -
  have e: "loose base es k ed" "in_line ed (rl_point ed)" using assms by (simp_all add: editing_def)
  have gone: "keeps (do { ed1 \<leftarrow> rl_kill_text (rl_point ed) (int p) (ed\<lparr>rl_point := int p\<rparr>); Some (mark_point ed1) }) base es k"
    if "p \<le> nat (rl_point ed)" for p :: nat
    using e ck that by (intro keeps_kill_then [where x = "int p"]) (auto simp: editing_def in_line_def)
  show "keeps (rl_unix_word_rubout n ed) base es k" "keeps (rl_unix_filename_rubout n ed) base es k"
    using assms e(2) gone [OF rubouts_le(1)] gone [OF rubouts_le(2)]
    by (simp_all add: rl_unix_word_rubout_def rl_unix_filename_rubout_def Let_def)
qed

lemma keeps_region:
  assumes "editing base es k ed" and ck: "can_kill ed"
  shows "keeps (rl_copy_region_to_kill ed) base es k" "keeps (rl_kill_region ed) base es k"
proof -
  have e: "loose base es k ed" "in_line ed (rl_point ed)" "0 \<le> rl_mark ed"
    using assms by (auto simp: editing_def loose_def)
  obtain str where str: "rl_copy_text (rl_point ed) (rl_mark ed) ed = Some str"
    using copy_in_line [of ed "rl_point ed" "rl_mark ed"] e by (auto simp: in_line_def min_le_iff_disj)
  have copy: "keeps (region_kill_internal False ed) base es k"
    using loose_to_ring [OF e(1) ck, of str "rl_point ed < rl_mark ed"] str e
    by (auto simp: region_kill_internal_def editing_def in_line_def)
  then show "keeps (rl_copy_region_to_kill ed) base es k" by (simp add: rl_copy_region_to_kill_def)
  let ?n = "min (rl_point ed) (rl_mark ed)"
  have npoint: "(if rl_point ed < rl_mark ed then rl_point ed else rl_mark ed) = ?n" by (simp add: min_def)
  obtain ed1 where ed1: "region_kill_internal True ed = Some ed1" "loose base es k ed1" "?n \<le> rl_end ed1"
  proof (cases "rl_mark ed = rl_point ed")
    case True
    then show ?thesis using that [of "count_kill ed"] e by (simp add: region_kill_internal_def in_line_def)
  next
    case False
    obtain ed1 where d: "rl_delete_text (rl_point ed) (rl_mark ed) ed = Some ed1" "loose base es k ed1"
      "min ?n (rl_end ed) \<le> rl_end ed1" "can_kill ed1"
      using loose_delete [OF e(1), of "rl_point ed" "rl_mark ed"] e ck unfolding can_kill_def in_line_def by fastforce
    obtain ed2 where "rl_copy_to_kill_ring str (rl_point ed1 < rl_mark ed1) ed1 = Some ed2" "loose base es k ed2" "rl_end ed2 = rl_end ed1"
      using loose_to_ring [OF d(2,4)] by blast
    then show ?thesis
      using that [of "count_kill ed2"] False str d e by (auto simp: region_kill_internal_def in_line_def)
  qed
  let ?ed2 = "(rl_fix_point True ed1)\<lparr>rl_point := ?n\<rparr>"
  have "loose base es k ?ed2" "rl_end ?ed2 = rl_end ed1" using ed1(2) by simp_all
  then show "keeps (rl_kill_region ed) base es k"
    using ed1 e unfolding rl_kill_region_def npoint by (auto simp: editing_def in_line_def Let_def)
qed

lemma ring_line: "rl_copy_to_kill_ring str at_end ed = Some r \<Longrightarrow> rl_end r = rl_end ed"
  by (cases "rl_kill_ring ed")
     (auto simp: rl_copy_to_kill_ring_def rl_end_def Let_def split: if_splits)

lemma copy_region_line:
  assumes "region_kill_internal False ed = Some r"
  shows "rl_end r = rl_end ed"
proof (cases "rl_mark ed = rl_point ed")
  case False
  then obtain str ed1 where "rl_copy_to_kill_ring str (rl_point ed < rl_mark ed) ed = Some ed1" "r = count_kill ed1"
    using assms by (auto simp: region_kill_internal_def bind_eq_Some_conv)
  then show ?thesis using ring_line by simp
qed (use assms in \<open>auto simp: region_kill_internal_def\<close>)

lemma keeps_copy_words:
  assumes "editing base es k ed" and ck: "can_kill ed"
  shows "keeps (rl_copy_forward_word n ed) base es k" "keeps (rl_copy_backward_word n ed) base es k"
proof -
  have e: "loose base es k ed" "in_line ed (rl_point ed)" "0 \<le> rl_mark ed"
    using assms by (auto simp: editing_def loose_def)
  have "keeps (rl_copy_word_as_kill m b ed) base es k" for m b
  proof -
    obtain p where p: "(if b then rl_forward_word m ed else rl_backward_word m ed) = Some (ed\<lparr>rl_point := p\<rparr>)" "in_line ed p"
      using word_move [OF e(2), of m] by (cases b) auto
    let ?ed2 = "ed\<lparr>rl_point := p, rl_mark := p\<rparr>"
    have i2: "in_line ?ed2 (rl_point ?ed2)" using p(2) by (simp add: in_line_def)
    obtain q where q: "(if b then rl_backward_word m ?ed2 else rl_forward_word m ?ed2) = Some (?ed2\<lparr>rl_point := q\<rparr>)" "in_line ?ed2 q"
      using word_move [OF i2, of m] by (cases b) auto
    have "loose base es k (?ed2\<lparr>rl_point := q\<rparr>)" "in_line (?ed2\<lparr>rl_point := q\<rparr>) q"
      using e(1) p(2) q(2) by (simp_all add: in_line_def)
    then have "keeps (region_kill_internal False (?ed2\<lparr>rl_point := q\<rparr>)) base es k"
      unfolding rl_copy_region_to_kill_def [symmetric] by (intro keeps_region(1)) (simp_all add: editing_def ck)
    then obtain r where r: "region_kill_internal False (?ed2\<lparr>rl_point := q\<rparr>) = Some r" "loose base es k r"
      by (auto simp: keeps_def editing_def)
    have "rl_end r = rl_end ed" using copy_region_line [OF r(1)] by simp
    then have "editing base es k (r\<lparr>rl_mark := rl_mark ed, rl_point := rl_point ed\<rparr>)"
      using r(2) e by (simp add: editing_def in_line_def)
    then show ?thesis
      using p(1) q(1) r(1) by (cases b) (simp_all add: rl_copy_word_as_kill_def Let_def)
  qed
  then show "keeps (rl_copy_forward_word n ed) base es k" "keeps (rl_copy_backward_word n ed) base es k"
    by (simp_all add: rl_copy_forward_word_def rl_copy_backward_word_def)
qed

lemma keeps_insert:
  assumes "loose base es k ed" and "in_line ed (rl_point ed)"
    and "\<And>ed1. loose base es k ed1 \<Longrightarrow> rl_point ed1 = rl_point ed + int (length str) \<Longrightarrow>
      rl_end ed1 = rl_end ed + int (length str) \<Longrightarrow> keeps (f ed1) base es k"
  shows "keeps (rl_insert_text str ed \<bind> f) base es k"
  using loose_insert [OF assms(1,2), of str] assms(3) by auto

lemma keeps_delete:
  assumes "loose base es k ed" and "in_line ed i" "in_line ed j"
    and "\<And>ed1. loose base es k ed1 \<Longrightarrow> rl_point ed1 = rl_point ed \<Longrightarrow> rl_end ed1 = rl_end ed - \<bar>i - j\<bar> \<Longrightarrow> keeps (f ed1) base es k"
  shows "keeps (rl_delete_text i j ed \<bind> f) base es k"
  using loose_delete [OF assms(1), of i j] assms(2-) by (auto simp: in_line_def)

lemma keeps_bind_Some: "keeps (r \<bind> Some) base es k = keeps r base es k"
  by (cases r) (auto simp: keeps_def)

lemmas keeps_last_insert = keeps_insert [where f = Some, unfolded keeps_bind_Some]
lemmas keeps_last_delete = keeps_delete [where f = Some, unfolded keeps_bind_Some]
lemmas keeps_last_kill = keeps_kill_then [where f = Some, unfolded keeps_bind_Some]

lemma keeps_yank:
  assumes "editing base es k ed"
  shows "keeps (map_option snd (rl_yank ed)) base es k" "keeps (map_option snd (rl_yank_pop ed)) base es k"
proof -
  have yank: "keeps (map_option snd (rl_yank ed)) base es k" if e: "editing base es k ed" for ed
  proof -
    show ?thesis
    proof (cases "rl_kill_ring ed")
      case None
      then show ?thesis using e by (simp add: rl_yank_def abort_internal_def editing_def in_line_def)
    next
      case (Some slots)
    let ?ed1 = "rl_set_mark_at_pos (rl_point ed) ed"
    have i: "0 \<le> rl_kill_index ed" "rl_kill_index ed < int (length slots)"
      using e Some by (auto simp: editing_def loose_def ring_slots_def)
    have "loose base es k ?ed1" "in_line ?ed1 (rl_point ?ed1)"
      using e by (auto simp: editing_def rl_set_mark_at_pos_def in_line_def)
    then have "keeps (rl_insert_text (slots ! nat (rl_kill_index ed)) ?ed1) base es k"
      by (intro keeps_last_insert) (auto simp: editing_def in_line_def)
    then show ?thesis using Some i by (auto simp: rl_yank_def keeps_def)
    qed
  qed
  show "keeps (map_option snd (rl_yank ed)) base es k" by (rule yank [OF assms])
  have gave_up: "keeps (map_option snd (Some (abort_internal ed))) base es k"
    using assms by (simp add: abort_internal_def editing_def in_line_def)
  show "keeps (map_option snd (rl_yank_pop ed)) base es k"
  proof (cases "rl_kill_ring ed")
    case None
    then show ?thesis using gave_up by (simp add: rl_yank_pop_def)
  next
    case (Some slots)
  have slots: "rl_kill_ring ed = Some slots" "0 \<le> rl_kill_index ed" "rl_kill_index ed < int (length slots)"
    using assms Some by (auto simp: editing_def loose_def ring_slots_def)
  let ?n = "rl_point ed - int (length (slots ! nat (rl_kill_index ed)))" and ?i = "rl_kill_index ed - 1"
  have pop: "keeps (map_option snd (do { ed1 \<leftarrow> rl_delete_text ?n (rl_point ed) ed;
        rl_yank (ed1\<lparr>rl_point := ?n, rl_kill_index := (if ?i < 0 then int (length slots) - 1 else ?i)\<rparr>) })) base es k"
    if n: "0 \<le> ?n"
  proof -
    obtain ed1 where ed1: "rl_delete_text ?n (rl_point ed) ed = Some ed1" "loose base es k ed1"
      "rl_kill_ring ed1 = rl_kill_ring ed" "min (min ?n (rl_point ed)) (rl_end ed) \<le> rl_end ed1"
      using loose_delete [of base es k ed ?n "rl_point ed"] assms n by (auto simp: editing_def in_line_def)
    let ?ed2 = "ed1\<lparr>rl_point := ?n, rl_kill_index := (if ?i < 0 then int (length slots) - 1 else ?i)\<rparr>"
    have "loose base es k ?ed2"
      using ed1(2,3) slots by (auto simp: loose_def ring_slots_def sound_line_def undo_at_def)
    moreover have "in_line ?ed2 (rl_point ?ed2)"
      using n ed1(4) assms by (auto simp: editing_def in_line_def rl_end_def)
    ultimately show ?thesis using yank [of ?ed2] ed1(1) by (simp add: editing_def)
  qed
  show ?thesis
    using slots gave_up pop by (simp add: rl_yank_pop_def Let_def)
  qed
qed

lemma editing_group [simp]:
  "editing base es k ed \<Longrightarrow> editing base es k (rl_begin_undo_group ed)"
  "editing base es k ed \<Longrightarrow> editing base es k (rl_end_undo_group ed)"
  by (simp_all add: editing_def in_line_def)

text \<open>Steps that begin and end with the position in the line.\<close>

lemma keeps_then:
  assumes "keeps r base es k" and "\<And>ed1. editing base es k ed1 \<Longrightarrow> keeps (f ed1) base es k"
  shows "keeps (r \<bind> f) base es k"
  using assms by (auto simp: keeps_def)

lemma keeps_last_group: "keeps r base es k \<Longrightarrow> keeps (r \<bind> (\<lambda>ed1. Some (rl_end_undo_group ed1))) base es k"
  by (erule keeps_then) simp

lemma keeps_put:
  assumes "editing base es k ed"
  shows "keeps (rl_insert_text str ed) base es k"
  by (rule keeps_last_insert) (use assms in \<open>auto simp: editing_def in_line_def\<close>)

text \<open>Typed characters make the line longer.\<close>

definition grows :: "editor option \<Rightarrow> editor \<Rightarrow> cstring \<Rightarrow> hist_entry list \<Rightarrow> nat \<Rightarrow> bool" where
  "grows r ed base es k \<longleftrightarrow> (\<exists>ed1. r = Some ed1 \<and> editing base es k ed1 \<and> rl_end ed \<le> rl_end ed1 \<and>
     (can_kill ed \<longrightarrow> can_kill ed1))"

lemma grows_put:
  assumes "editing base es k ed"
  shows "grows (rl_insert_text str ed) ed base es k"
  using loose_insert [of base es k ed str] assms by (auto simp: grows_def editing_def in_line_def)

lemma grows_insert_char:
  assumes "editing base es k ed"
  shows "grows (rl_insert_char n c ed) ed base es k"
proof -
  have pieces: "editing base es k ed \<Longrightarrow> grows (insert_pieces c m ed) ed base es k" for m ed
  proof (induction m arbitrary: ed rule: less_induct)
    case (less m)
    show ?case
    proof (cases "m = 0")
      case True
      then show ?thesis using less.prems by (subst insert_pieces.simps) (simp add: grows_def)
    next
      case False
      let ?d = "if TEXT_COUNT_MAX < m then TEXT_COUNT_MAX else m"
      have smaller: "m - ?d < m" using False by (simp add: TEXT_COUNT_MAX_def)
      obtain ed1 where "rl_insert_text (typed_text c ?d) ed = Some ed1" "editing base es k ed1" "rl_end ed \<le> rl_end ed1"
        "can_kill ed \<longrightarrow> can_kill ed1"
        using grows_put [OF less.prems] by (auto simp: grows_def)
      moreover from this have "grows (insert_pieces c (m - ?d) ed1) ed1 base es k" using less.IH [OF smaller] by blast
      ultimately show ?thesis using False by (subst insert_pieces.simps) (fastforce simp: Let_def grows_def)
    qed
  qed
  have "grows (Some ed) ed base es k" using assms by (simp add: grows_def)
  then show ?thesis using assms pieces by (simp add: rl_insert_char_def grows_put)
qed

lemma keeps_insert_char: "editing base es k ed \<Longrightarrow> keeps (rl_insert_char n c ed) base es k"
  using grows_insert_char [of base es k ed n c] by (auto simp: grows_def keeps_def)

lemma byte_direction:
  assumes "0 \<le> n"
  shows "rl_point ed < rl_end ed \<Longrightarrow> rl_point ed \<le> rl_point (rl_forward_byte n ed)"
    "0 \<le> rl_point ed \<Longrightarrow> rl_point (rl_backward_byte n ed) \<le> rl_point ed"
  using assms by (auto simp: rl_forward_byte_def rl_backward_byte_def forward_bytes_def backward_bytes_def Let_def)

lemma keeps_delete_chars:
  assumes "editing base es k ed" and "0 \<le> n" and ck: "can_kill ed"
  shows "keeps (delete_chars n ed) base es k" "keeps (rubout_char n ed) base es k"
proof -
  have e: "loose base es k ed" "in_line ed (rl_point ed)" using assms(1) by (simp_all add: editing_def)
  have cf: "can_kill (rl_forward_byte n ed)" "can_kill (rl_backward_byte n ed)"
    using ck by (simp_all add: rl_forward_byte_def rl_backward_byte_def forward_bytes_def backward_bytes_def Let_def)
  let ?f = "rl_forward_byte n ed" and ?b = "rl_backward_byte n ed"
  have f: "loose base es k ?f" "in_line ?f (rl_point ?f)" and b: "loose base es k ?b" "in_line ?b (rl_point ?b)"
    using keeps_byte [OF assms(1), of n] by (simp_all add: editing_def)
  have "keeps (do { ed2 \<leftarrow> rl_kill_text (rl_point ed) (rl_point ?f) ?f; Some (ed2\<lparr>rl_point := rl_point ed\<rparr>) }) base es k"
    if "rl_point ed < rl_end ed"
    using e f cf byte_direction(1) [OF assms(2) that]
    by (intro keeps_kill_then [where x = "rl_point ed"]) (auto simp: editing_def in_line_def)
  moreover have "keeps (rl_delete_text (rl_point ed) (rl_point ed + 1) ed) base es k" if "rl_point ed < rl_end ed"
    by (rule keeps_last_delete [OF e]) (use e that in \<open>auto simp: editing_def in_line_def\<close>)
  ultimately show "keeps (delete_chars n ed) base es k"
    using assms(1) e by (auto simp: delete_chars_def Let_def in_line_def)
  have "keeps (rl_kill_text (rl_point ed) (rl_point ?b) ?b) base es k"
    using e b cf byte_direction(2) [OF assms(2), of ed]
    by (intro keeps_last_kill [where x = "rl_point ?b"]) (auto simp: editing_def in_line_def)
  moreover have "keeps (rl_delete_text (rl_point ed - 1) (rl_point ed) (ed\<lparr>rl_point := rl_point ed - 1\<rparr>)) base es k"
    if "rl_point ed \<noteq> 0"
    by (rule keeps_last_delete) (use e that in \<open>auto simp: editing_def in_line_def\<close>)
  ultimately show "keeps (rubout_char n ed) base es k"
    using assms(1) by (auto simp: rubout_char_def Let_def)
qed

lemma keeps_rl_delete:
  assumes "editing base es k ed" and ck: "can_kill ed"
  shows "keeps (rl_delete n ed) base es k" "keeps (rl_rubout_char n ed) base es k" "keeps (rl_rubout_or_delete n ed) base es k"
  using keeps_delete_chars [OF assms(1) _ ck] by (simp_all add: rl_delete_def rl_rubout_char_def rl_rubout_or_delete_def)

lemma to_ring_can: "rl_copy_to_kill_ring str at_end ed = Some ed1 \<Longrightarrow> rl_kill_ring ed1 \<noteq> None"
  by (cases "rl_kill_ring ed") (auto simp: rl_copy_to_kill_ring_def Let_def split: if_splits)

lemma kill_text_can:
  assumes "rl_kill_text x y ed = Some ed1" and "x \<noteq> y"
  shows "can_kill ed1"
proof -
  obtain str ed2 ed3 where "rl_copy_to_kill_ring str (x < y) ed2 = Some ed3" "ed1 = count_kill ed3"
    using assms unfolding rl_kill_text_def by (auto simp: bind_eq_Some_conv)
  then show ?thesis using to_ring_can [of str "x < y" ed2 ed3] by (simp add: can_kill_def count_kill_def)
qed

text \<open>
  Overtyping with a numeric argument kills the old characters one by one. In vi command mode the last
  character of the line stays, and an empty text is killed instead: then no other kill follows.
\<close>

definition overtypes :: "editor \<Rightarrow> bool" where
  "overtypes ed \<longleftrightarrow> can_kill ed \<or> rl_explicit_arg ed \<and> VI_COMMAND_MODE ed \<and> rl_end ed \<le> rl_point ed + 1"

lemma overtypes_delete:
  assumes e: "editing base es k ed" and o: "overtypes ed" and p: "rl_point ed < rl_end ed"
  shows "\<exists>ed1. rl_delete 1 ed = Some ed1 \<and> editing base es k ed1 \<and> overtypes ed1"
proof (cases "rl_explicit_arg ed")
  case True
  let ?f = "rl_forward_byte 1 ed"
  have del: "rl_delete 1 ed = (rl_kill_text (rl_point ed) (rl_point ?f) ?f \<bind> (\<lambda>ed2. Some (ed2\<lparr>rl_point := rl_point ed\<rparr>)))"
    using p True by (simp add: rl_delete_def delete_chars_def Let_def)
  have f: "?f = ed\<lparr>rl_point := rl_point ?f\<rparr>" by (simp add: rl_forward_byte_def forward_bytes_def Let_def)
  show ?thesis
  proof (cases "rl_point ?f = rl_point ed")
    case same: True
    then have "?f = ed" using f by simp
    moreover have "VI_COMMAND_MODE ed \<and> rl_end ed \<le> rl_point ed + 1"
      using same p by (auto simp: rl_forward_byte_def forward_bytes_def Let_def split: if_splits)
    ultimately show ?thesis
      using del e True by (simp add: rl_kill_text_def editing_def in_line_def overtypes_def count_kill_def VI_COMMAND_MODE_def
          rl_end_def loose_def sound_line_def undo_at_def ring_slots_def)
  next
    case False
    then have ck: "can_kill ed"
      using e o p by (auto simp: overtypes_def rl_forward_byte_def forward_bytes_def Let_def editing_def in_line_def
          split: if_splits)
    obtain ed1 where ed1: "rl_delete 1 ed = Some ed1" "editing base es k ed1"
      using keeps_rl_delete(1) [OF e ck, of 1] by (auto simp: keeps_def)
    moreover have "can_kill ed1"
      using ed1(1) kill_text_can [of "rl_point ed" "rl_point ?f" ?f] False by (auto simp: del bind_eq_Some_conv)
    ultimately show ?thesis by (auto simp: overtypes_def)
  qed
next
  case False
  then have ck: "can_kill ed" using o by (simp add: overtypes_def)
  obtain ed1 where ed1: "rl_delete 1 ed = Some ed1" "editing base es k ed1"
    using keeps_rl_delete(1) [OF e ck, of 1] by (auto simp: keeps_def)
  have "rl_delete_text (rl_point ed) (rl_point ed + 1) ed = Some ed1"
    using p ed1(1) False by (simp add: rl_delete_def delete_chars_def)
  moreover obtain ed2 where "rl_delete_text (rl_point ed) (rl_point ed + 1) ed = Some ed2"
    "last_command_was_kill ed2 = last_command_was_kill ed" "rl_kill_ring ed2 = rl_kill_ring ed"
    using loose_delete [of base es k ed "rl_point ed" "rl_point ed + 1"] e by (auto simp: editing_def in_line_def)
  ultimately have "can_kill ed1" using ck by (simp add: can_kill_def)
  then show ?thesis using ed1 by (simp add: overtypes_def)
qed

lemma overtypes_insert:
  assumes e: "editing base es k ed" and o: "overtypes ed"
  shows "\<exists>ed1. rl_insert_char 1 c ed = Some ed1 \<and> editing base es k ed1 \<and> overtypes ed1"
proof -
  let ?s = "typed_text c 1"
  obtain ed1 where ed1: "rl_insert_text ?s ed = Some ed1" "editing base es k ed1"
    "rl_point ed1 = rl_point ed + int (length ?s)" "rl_end ed1 = rl_end ed + int (length ?s)" "can_kill ed1 = can_kill ed"
    using loose_insert [of base es k ed ?s] e by (auto simp: editing_def in_line_def)
  obtain ed2 where "rl_insert_text ?s ed = Some ed2" "edit_frame ed ed2"
    using rl_insert_text_ok [of base ed ?s] e by (auto simp: editing_def loose_def)
  then have "rl_explicit_arg ed1 = rl_explicit_arg ed" "VI_COMMAND_MODE ed1 = VI_COMMAND_MODE ed"
    using ed1(1) by (cases ed; cases ed1; simp add: edit_frame_def VI_COMMAND_MODE_def)+
  then show ?thesis using ed1 o by (auto simp: rl_insert_char_def overtypes_def TEXT_COUNT_MAX_def)
qed

lemma keeps_overwrite:
  assumes "editing base es k ed" and "can_kill ed"
  shows "keeps (rl_insert n c ed) base es k"
proof -
  have loop: "editing base es k ed \<Longrightarrow> overtypes ed \<Longrightarrow> keeps (overwrite_loop m c ed) base es k" for m ed
  proof (induction m arbitrary: ed)
    case (Suc m)
    obtain ed1 where ed1: "rl_insert_char 1 c ed = Some ed1" "editing base es k ed1" "overtypes ed1"
      using overtypes_insert [OF Suc.prems] by blast
    then have "\<exists>ed2. (if rl_point ed1 < rl_end ed1 then rl_delete 1 ed1 else Some ed1) = Some ed2 \<and>
        editing base es k ed2 \<and> overtypes ed2"
      using overtypes_delete [OF ed1(2,3)] by simp
    then show ?case using ed1(1) Suc.IH by auto
  qed simp
  have "overtypes (rl_begin_undo_group ed)" using assms(2) by (simp add: overtypes_def)
  then have "keeps (rl_overwrite_char n c ed) base es k"
    using assms(1) loop [of "rl_begin_undo_group ed" "nat n"] by (simp add: rl_overwrite_char_def keeps_last_group)
  then show ?thesis using keeps_insert_char [OF assms(1)] by (simp add: rl_insert_def)
qed

lemma rubout_columns_back:
  "editing base es k ed \<Longrightarrow> snd (rubout_columns n l ed) = ed1 \<Longrightarrow>
   editing base es k ed1 \<and> rl_end ed1 = rl_end ed \<and> rl_point ed1 \<le> rl_point ed"
proof (induction n arbitrary: l ed)
  case (Suc n)
  have "editing base es k (rl_backward_byte 1 ed)" "rl_point (rl_backward_byte 1 ed) \<le> rl_point ed"
    using keeps_byte(2) [OF Suc.prems(1), of 1] byte_direction(2) [of 1 ed] Suc.prems(1) by (auto simp: editing_def in_line_def)
  then show ?case using Suc.IH [of "rl_backward_byte 1 ed"] Suc.prems(2) by (fastforce simp: Let_def)
qed simp

lemma rubout_columns_can [simp]: "can_kill (snd (rubout_columns n l ed)) = can_kill ed"
  by (induction n arbitrary: l ed)
    (simp_all add: Let_def rl_backward_byte_def forward_bytes_def backward_bytes_def)

lemma keeps_rubout:
  assumes "editing base es k ed" and ck: "can_kill ed"
  shows "keeps (rl_rubout n ed) base es k"
proof -
  let ?le = "rubout_columns (nat n) 0 ed"
  let ?ed1 = "rl_begin_undo_group (snd ?le)"
  have cols: "editing base es k (snd ?le)" "rl_end (snd ?le) = rl_end ed" "rl_point (snd ?le) \<le> rl_point ed"
    using rubout_columns_back [OF assms(1) refl, of "nat n" 0] by simp_all
  have ck1: "can_kill ?ed1" using ck rubout_columns_can [of "nat n" 0 ed] by simp
  have p: "in_line ?ed1 (rl_point ed)" "in_line ?ed1 (rl_point ?ed1)" "loose base es k ?ed1"
    using cols assms(1) by (auto simp: editing_def in_line_def)
  have gone: "keeps (if 1 < n \<or> rl_explicit_arg ed then rl_kill_text (rl_point ed) (rl_point ?ed1) ?ed1
      else rl_delete_text (rl_point ed) (rl_point ?ed1) ?ed1) base es k"
    using keeps_last_kill [OF p(3,1,2) _ ck1, of "rl_point ?ed1"] keeps_last_delete [OF p(3,1,2)] cols p
    by (auto simp: editing_def in_line_def)
  have blanks: "keeps (do { ed3 \<leftarrow> rl_insert_char (fst ?le) (CHR '' '') ed2; Some (ed3\<lparr>rl_point := rl_point ed2\<rparr>) }) base es k"
    if ed2: "editing base es k ed2" for ed2
  proof -
    have "grows (rl_insert_char (fst ?le) (CHR '' '') ed2) ed2 base es k" by (rule grows_insert_char [OF ed2])
    then show ?thesis using ed2 by (auto simp: grows_def editing_def in_line_def)
  qed
  have "keeps ((if 1 < n \<or> rl_explicit_arg ed then rl_kill_text (rl_point ed) (rl_point ?ed1) ?ed1
      else rl_delete_text (rl_point ed) (rl_point ?ed1) ?ed1) \<bind>
    (\<lambda>ed2. (if rl_point ed2 < rl_end ed2
       then do { ed3 \<leftarrow> rl_insert_char (fst ?le) (CHR '' '') ed2; Some (ed3\<lparr>rl_point := rl_point ed2\<rparr>) }
       else Some ed2) \<bind> (\<lambda>ed3. Some (rl_end_undo_group ed3)))) base es k"
    by (intro keeps_then [OF gone] keeps_last_group) (auto simp: blanks)
  then have "keeps (rl_overwrite_rubout n ed) base es k" if "rl_point ed \<noteq> 0"
    using that by (simp only: rl_overwrite_rubout_def Let_def if_False)
  then show ?thesis
    using assms keeps_rl_delete [OF assms(1) ck] by (simp add: rl_rubout_def)
qed

lemma skip_bounds: "skip_left Q s i \<le> i" "i \<le> length s \<Longrightarrow> skip_right Q s i \<le> length s" "i \<le> skip_right Q s i"
  using length_takeWhile_le [of Q "drop i s"] by (simp_all add: skip_left_def skip_right_def)

lemma keeps_delete_horizontal_space:
  assumes "editing base es k ed"
  shows "keeps (rl_delete_horizontal_space ed) base es k"
proof -
  let ?s = "rl_line_buffer ed"
  let ?a = "skip_left whitespace ?s (nat (rl_point ed))"
  let ?b = "skip_right whitespace ?s ?a"
  have e: "loose base es k ed" "in_line ed (rl_point ed)" using assms by (simp_all add: editing_def)
  then have "?a \<le> length ?s"
    using skip_bounds(1) [of whitespace ?s "nat (rl_point ed)"] by (auto simp: in_line_def rl_end_def)
  then have ab: "?a \<le> ?b" "?b \<le> length ?s" by (auto intro: skip_bounds)
  then have "keeps (do { ed1 \<leftarrow> rl_delete_text (int ?a) (int ?b) (ed\<lparr>rl_point := int ?b\<rparr>); Some (ed1\<lparr>rl_point := int ?a\<rparr>) }) base es k"
    using e by (intro keeps_delete) (auto simp: editing_def in_line_def rl_end_def)
  moreover have "keeps (Some (ed\<lparr>rl_point := int ?a\<rparr>)) base es k"
    using e ab by (auto simp: editing_def in_line_def rl_end_def)
  ultimately show ?thesis using e by (simp add: rl_delete_horizontal_space_def Let_def)
qed

lemma length_change_case: "length (change_case_chars alpha op w s) = length s"
  by (induction alpha op w s rule: change_case_chars.induct) (auto simp: Let_def)

lemma line_update:
  "(rl_add_undo what a b str ed)\<lparr>rl_line_buffer := u\<rparr> = rl_add_undo what a b str (ed\<lparr>rl_line_buffer := u\<rparr>)"
  "(rl_end_undo_group ed)\<lparr>rl_line_buffer := u\<rparr> = rl_end_undo_group (ed\<lparr>rl_line_buffer := u\<rparr>)"
  by (cases ed; simp add: rl_add_undo_def rl_end_undo_group_def Let_def)+

lemma node_undone_part:
  assumes "0 \<le> a" "a \<le> b" "b \<le> int (length s)" "length part = nat (b - a)"
  shows "node_undone \<lparr>u_what = UNDO_INSERT, u_start = a, u_end = b, u_text = x, u_next = y\<rparr>
    (take (nat a) s @ part @ drop (nat b) s) = Some (take (nat a) s @ drop (nat b) s)"
proof -
  obtain i j where "a = int i" "b = int j" "i \<le> j" "j \<le> length s"
    using assms(1-3) by (metis nat_0_le nat_int of_nat_le_iff order_trans)
  then show ?thesis using assms(4) by (simp add: node_undone_def flip: of_nat_diff)
qed

text \<open>After \<^verbatim>\<open>rl_modifying\<close> the text between its bounds may change in place.\<close>

lemma modify_in_place:
  assumes "sound_line base ed" and "0 \<le> a" "a \<le> b" "b \<le> rl_end ed"
  shows "\<exists>ed1. rl_modifying a b ed = Some ed1 \<and> rl_line_buffer ed1 = rl_line_buffer ed \<and> rl_mark ed1 = rl_mark ed \<and>
    hist ed1 = hist ed \<and> rl_kill_ring ed1 = rl_kill_ring ed \<and> rl_kill_index ed1 = rl_kill_index ed \<and>
    (\<forall>part. length part = nat (b - a) \<longrightarrow>
       sound_line base (ed1\<lparr>rl_line_buffer := take (nat a) (rl_line_buffer ed) @ part @ drop (nat b) (rl_line_buffer ed)\<rparr>))"
proof (cases "a = b")
  case True
  then show ?thesis using assms by (auto simp: rl_modifying_def intro!: exI [of _ ed])
next
  case False
  let ?s = "rl_line_buffer ed" and ?a = "nat a" and ?b = "nat b"
  have ab: "?a \<le> ?b" "?b \<le> length ?s" "int ?a = a" "int ?b = b" "nat (b - a) = ?b - ?a" using assms by (auto simp: rl_end_def)
  let ?old = "take (?b - ?a) (drop ?a ?s)"
  let ?e1 = "rl_begin_undo_group ed"
  let ?e2 = "rl_add_undo UNDO_DELETE a b (Some ?old) ?e1"
  let ?e3 = "rl_add_undo UNDO_INSERT a b None ?e2"
  have copy: "rl_copy_text a b ed = Some ?old"
  proof -
    have "min a b = a" "max a b = b" "nat (b - a) = ?b - ?a" using assms(3) ab(5) by auto
    then show ?thesis using assms(2-4) by (simp add: rl_copy_text_def in_line_def Let_def)
  qed
  have run: "rl_modifying a b ed = Some (rl_end_undo_group ?e3)"
    using False assms(3) copy by (simp add: rl_modifying_def Let_def)
  have sound: "sound_line base ((rl_end_undo_group ?e3)\<lparr>rl_line_buffer := take ?a ?s @ part @ drop ?b ?s\<rparr>)"
    if part: "length part = ?b - ?a" for part
  proof -
    let ?t = "take ?a ?s @ drop ?b ?s" and ?u = "take ?a ?s @ part @ drop ?b ?s"
    have line: "rl_line_buffer ?e1 = ?s" by (simp add: rl_begin_undo_group_def rl_add_undo_def Let_def)
    have "sound_line base (?e2\<lparr>rl_line_buffer := ?t\<rparr>)"
      by (rule sound_line_add) (use assms(1) node_undone_delete [OF ab(1,2)] ab(3) line in auto)
    moreover have "node_undone \<lparr>u_what = UNDO_INSERT, u_start = a, u_end = b, u_text = None, u_next = rl_undo_list (?e2\<lparr>rl_line_buffer := ?t\<rparr>)\<rparr> ?u =
        Some (rl_line_buffer (?e2\<lparr>rl_line_buffer := ?t\<rparr>))"
      using assms(2-4) ab(5) part node_undone_part [of a b ?s part] by (simp add: rl_end_def)
    ultimately have "sound_line base ((rl_add_undo UNDO_INSERT a b None (?e2\<lparr>rl_line_buffer := ?t\<rparr>))\<lparr>rl_line_buffer := ?u\<rparr>)"
      by (rule sound_line_add)
    then have "sound_line base (?e3\<lparr>rl_line_buffer := ?u\<rparr>)" by (simp add: line_update)
    then show ?thesis by (simp add: line_update)
  qed
  show ?thesis
    using sound ab(5) by (intro exI [of _ "rl_end_undo_group ?e3"])
      (simp add: run rl_end_undo_group_def rl_begin_undo_group_def rl_add_undo_def Let_def)
qed

lemma keeps_change_case:
  assumes "editing base es k ed"
  shows "keeps (rl_change_case n op ed) base es k"
proof -
  have e: "loose base es k ed" "in_line ed (rl_point ed)" using assms by (simp_all add: editing_def)
  obtain p where p: "rl_forward_word n ed = Some (ed\<lparr>rl_point := p\<rparr>)" "in_line ed p"
    "if 0 \<le> n then rl_point ed \<le> p else p \<le> rl_point ed"
    using word_move(1) [OF e(2), of n] by blast
  let ?a = "if n < 0 then p else rl_point ed" and ?b = "if n < 0 then rl_point ed else p" and ?ed1 = "ed\<lparr>rl_point := p\<rparr>"
  let ?s = "rl_line_buffer ed"
  have ab: "0 \<le> ?a" "?a \<le> ?b" "?b \<le> rl_end ed" using p e(2) by (auto simp: in_line_def split: if_splits)
  have "sound_line base ?ed1" using e(1) by (simp add: loose_def sound_line_def undo_at_def)
  then obtain ed2 where ed2: "rl_modifying ?a ?b ?ed1 = Some ed2" "rl_line_buffer ed2 = ?s" "rl_mark ed2 = rl_mark ed"
    "hist ed2 = hist ed" "rl_kill_ring ed2 = rl_kill_ring ed" "rl_kill_index ed2 = rl_kill_index ed"
    "\<forall>part. length part = nat (?b - ?a) \<longrightarrow>
       sound_line base (ed2\<lparr>rl_line_buffer := take (nat ?a) ?s @ part @ drop (nat ?b) ?s\<rparr>)"
    using modify_in_place [of base ?ed1 ?a ?b] ab by auto
  let ?part = "change_case_chars (rl_alphabetic ed) op False (take (nat (?b - ?a)) (drop (nat ?a) ?s))"
  let ?t = "take (nat ?a) ?s @ ?part @ drop (nat ?b) ?s"
  have len: "length ?part = nat (?b - ?a)" using ab by (simp add: length_change_case rl_end_def)
  then have "length ?t = length ?s" using ab by (auto simp: rl_end_def)
  moreover have "loose base es k (ed2\<lparr>rl_line_buffer := ?t, rl_point := ?b\<rparr>)"
    using ed2 len e(1) by (simp add: loose_def ring_slots_def sound_line_def undo_at_def)
  moreover have "rl_change_case n op ed = Some (ed2\<lparr>rl_line_buffer := ?t, rl_point := ?b\<rparr>)"
    using p(1) ed2(1,2) by (cases "n < 0") (simp_all add: rl_change_case_def Let_def)
  ultimately show ?thesis using ab by (simp add: editing_def in_line_def rl_end_def)
qed

lemma copy_length: "in_line ed i \<Longrightarrow> in_line ed j \<Longrightarrow> rl_copy_text i j ed = Some str \<Longrightarrow> int (length str) = \<bar>i - j\<bar>"
  by (auto simp: rl_copy_text_def in_line_def rl_end_def Let_def min_def max_def split: if_splits)

lemma keeps_swap_words:
  assumes "editing base es k ed" and "0 \<le> a" "a \<le> b" "b \<le> c" "c \<le> d" "d \<le> rl_end ed"
  shows "keeps (swap_words a b c d ed) base es k"
proof -
  have e: "loose base es k ed" using assms by (simp add: editing_def)
  obtain w1 where w1: "rl_copy_text a b ed = Some w1" using copy_in_line [of ed a b] assms by (auto simp: in_line_def min_le_iff_disj)
  obtain w2 where w2: "rl_copy_text c d ed = Some w2" using copy_in_line [of ed c d] assms by (auto simp: in_line_def min_le_iff_disj)
  have len: "int (length w1) = b - a" "int (length w2) = d - c"
    using copy_length [OF _ _ w1] copy_length [OF _ _ w2] assms by (auto simp: in_line_def)
  let ?ed1 = "(rl_begin_undo_group ed)\<lparr>rl_point := c\<rparr>"
  have "keeps (rl_delete_text c d ?ed1 \<bind> (\<lambda>ed2. rl_insert_text w1 ed2 \<bind>
      (\<lambda>ed3. rl_delete_text a b (ed3\<lparr>rl_point := a\<rparr>) \<bind>
      (\<lambda>ed4. rl_insert_text w2 ed4 \<bind> (\<lambda>ed5. Some (rl_end_undo_group (ed5\<lparr>rl_point := d\<rparr>))))))) base es k"
    using e assms(2-) len
    by (intro keeps_delete keeps_insert) (auto simp: editing_def in_line_def)
  then show ?thesis using w1 w2 by (simp add: swap_words_def Let_def)
qed

lemma keeps_transpose_words:
  assumes "editing base es k ed"
  shows "keeps (rl_transpose_words n ed) base es k"
proof -
  have e: "loose base es k ed" "in_line ed (rl_point ed)" using assms by (simp_all add: editing_def)
  obtain p1 where p1: "rl_forward_word n ed = Some (ed\<lparr>rl_point := p1\<rparr>)" "in_line ed p1"
    using word_move(1) [OF e(2)] by blast
  obtain p2 where p2: "rl_backward_word 1 (ed\<lparr>rl_point := p1\<rparr>) = Some (ed\<lparr>rl_point := p2\<rparr>)" "in_line ed p2" "p2 \<le> p1"
    using word_move(2) [of "ed\<lparr>rl_point := p1\<rparr>" 1] p1(2) by (auto simp: in_line_def)
  obtain p3 where p3: "rl_backward_word n (ed\<lparr>rl_point := p2\<rparr>) = Some (ed\<lparr>rl_point := p3\<rparr>)" "in_line ed p3"
    using word_move(2) [of "ed\<lparr>rl_point := p2\<rparr>" n] p2(2) by (auto simp: in_line_def)
  obtain p4 where p4: "rl_forward_word 1 (ed\<lparr>rl_point := p3\<rparr>) = Some (ed\<lparr>rl_point := p4\<rparr>)" "in_line ed p4" "p3 \<le> p4"
    using word_move(1) [of "ed\<lparr>rl_point := p3\<rparr>" 1] p3(2) by (auto simp: in_line_def)
  have "editing base es k (ed\<lparr>rl_point := p4\<rparr>)" using e p4(2) by (simp add: editing_def in_line_def)
  then have "keeps (swap_words p3 p4 p2 p1 (ed\<lparr>rl_point := p4\<rparr>)) base es k" if "\<not> p2 < p4"
    using that p1 p2 p3 p4 by (intro keeps_swap_words) (auto simp: in_line_def)
  then show ?thesis
    using assms p1 p2 p3 p4 by (auto simp: rl_transpose_words_def editing_def)
qed

lemma editing_fix: "loose base es k ed \<Longrightarrow> editing base es k (rl_fix_point b ed)"
  using fix_in_line_range [of ed "rl_point ed"] by (simp add: editing_def in_line_def)

lemma keeps_transpose_chars:
  assumes "editing base es k ed"
  shows "keeps (rl_transpose_chars n ed) base es k"
proof (cases "n = 0 \<or> rl_point ed = 0 \<or> rl_end ed < 2")
  case True
  then show ?thesis using assms by (auto simp: rl_transpose_chars_def)
next
  case False
  have e: "loose base es k ed" "0 \<le> rl_point ed" "rl_point ed \<le> rl_end ed" using assms by (auto simp: editing_def in_line_def)
  let ?p = "(if rl_point ed = rl_end ed then rl_point ed - 1 else rl_point ed) - 1"
  let ?n = "if rl_point ed = rl_end ed then 1 else n"
  let ?ed1 = "(rl_begin_undo_group ed)\<lparr>rl_point := ?p\<rparr>"
  have p: "0 \<le> ?p" "?p + 1 \<le> rl_end ed" using e False by auto
  obtain str where str: "rl_copy_text ?p (?p + 1) ?ed1 = Some str"
    using copy_in_line [of ?ed1 ?p "?p + 1"] p by (auto simp: in_line_def min_le_iff_disj)
  have "keeps (rl_delete_text ?p (?p + 1) ?ed1 \<bind> (\<lambda>ed2.
      rl_insert_text str (rl_fix_point False (ed2\<lparr>rl_point := (if 0 < ?n then min (?p + ?n) (rl_end ed2) else ?p)\<rparr>)) \<bind>
      (\<lambda>ed4. Some (rl_end_undo_group ed4)))) base es k"
    using e p by (intro keeps_delete keeps_last_group keeps_put editing_fix) (auto simp: in_line_def)
  then show ?thesis using str False by (simp add: rl_transpose_chars_def Let_def)
qed

lemma keeps_undo:
  assumes "editing base es k ed"
  shows "keeps (rl_undo_command n ed) base es k"
proof -
  have one: "\<exists>some ed1. rl_do_undo ed = Some (some, ed1) \<and> editing base es k ed1" if e: "editing base es k ed" for ed
  proof -
    obtain as es1 where as: "undo_at base as ed" "\<not> rl_doing_an_undo ed" "hist_at (hist ed) es1 k" "others_kept (- {0}) es es1"
      using e by (auto simp: editing_def loose_def sound_line_def)
    obtain some ed1 bs es2 where r: "rl_do_undo ed = Some (some, ed1)" "rewound base k as es1 ed bs es2 ed1"
      using rl_do_undo_at [OF as(1-3)] by blast
    have "undo_frame ed ed1" using r(2) by (simp add: rewound_def)
    note same = undo_frame_simps [OF this]
    have "0 \<notin> set as"
    proof -
      have "chain hp as p \<Longrightarrow> 0 \<notin> set as" for hp p by (induction as arbitrary: p) auto
      then show ?thesis using as(1) by (auto simp: undo_at_def)
    qed
    then have "others_kept (- {0}) es es2"
      using others_kept_trans [OF as(4), of "set as" es2] r(2) by (auto simp: rewound_def)
    then have "loose base es k ed1"
      using e r(2) as(2) same by (auto simp: editing_def loose_def sound_line_def ring_slots_def rewound_def)
    then show ?thesis using e r by (auto simp: editing_def rewound_def)
  qed
  have "editing base es k ed \<Longrightarrow> keeps (undo_times m ed) base es k" for m ed
  proof (induction m arbitrary: ed)
    case (Suc m)
    then show ?case using one [OF Suc.prems] by auto
  qed simp
  then show ?thesis using assms by (simp add: rl_undo_command_def)
qed

section \<open>Sequences of keys\<close>

text \<open>
  Commands that stay on the line; the mark may not be set before it, and not be exchanged with the
  position while it is behind the end. While the kill ring is null, no empty text may be killed
  (the next kill would append to the ring).
\<close>

definition on_line :: "bool \<times> rl_command \<Rightarrow> editor \<Rightarrow> bool" where
  "on_line key ed =
     (case key of (explicit_arg, c) \<Rightarrow>
        (case c of
           Set_Mark n \<Rightarrow> explicit_arg \<longrightarrow> 0 \<le> n
         | Exchange_Point_And_Mark \<Rightarrow> rl_mark ed \<le> rl_end ed
         | Previous_History n \<Rightarrow> n = 0
         | Next_History n \<Rightarrow> n = 0
         | Beginning_Of_History \<Rightarrow> False
         | End_Of_History \<Rightarrow> False
         | _ \<Rightarrow> True))"

primrec stays_on_line :: "(bool \<times> rl_command) list \<Rightarrow> editor \<Rightarrow> bool" where
  "stays_on_line [] ed = True"
| "stays_on_line (key # keys) ed =
     (on_line key ed \<and>
      (case read_command_key key ed of None \<Rightarrow> True | Some ed1 \<Rightarrow> can_kill ed1 \<and> stays_on_line keys ed1))"

lemma keeps_goes_on: "keeps (map_option snd (goes_on r)) base es k = keeps r base es k"
  by (cases r) (simp_all add: goes_on_def keeps_def)

lemma keeps_run_function:
  assumes "editing base es k ed" and "on_line (rl_explicit_arg ed, c) ed" and ck: "can_kill ed"
  shows "keeps (map_option snd (run_function c ed)) base es k"
proof -
  note e = assms(1)
  have l: "loose base es k ed" "in_line ed (rl_point ed)" "0 \<le> rl_mark ed" using e by (auto simp: editing_def loose_def)
  show ?thesis
  proof (cases c)
    case (Forward_Word n)
    then show ?thesis using word_move(1) [OF l(2), of n] l by (auto simp: keeps_goes_on editing_def in_line_def)
  next
    case (Backward_Word n)
    then show ?thesis using word_move(2) [OF l(2), of n] l by (auto simp: keeps_goes_on editing_def in_line_def)
  next
    case (Set_Mark n)
    then have "loose base es k (rl_set_mark n ed)" "rl_point (rl_set_mark n ed) = rl_point ed" "rl_end (rl_set_mark n ed) = rl_end ed"
      using l assms(2) by (auto simp: rl_set_mark_def rl_set_mark_at_pos_def on_line_def in_line_def)
    then show ?thesis using Set_Mark l by (simp add: keeps_goes_on editing_def in_line_def)
  next
    case Exchange_Point_And_Mark
    then show ?thesis
      using l assms(2) by (auto simp: keeps_goes_on editing_def in_line_def rl_exchange_point_and_mark_def Let_def on_line_def)
  next
    case Beg_Of_Line
    then show ?thesis using l by (simp add: keeps_goes_on rl_beg_of_line_def editing_def in_line_def)
  next
    case End_Of_Line
    then show ?thesis using l by (simp add: keeps_goes_on rl_end_of_line_def editing_def in_line_def)
  qed (use e ck assms(2) in \<open>simp_all add: keeps_goes_on keeps_overwrite keeps_byte keeps_rl_delete keeps_rubout rl_kill_word_def
      rl_backward_kill_word_def keeps_kill_words rl_kill_line_def rl_backward_kill_line_def keeps_kill_line keeps_kill_full_line
      keeps_rubouts keeps_region keeps_copy_words keeps_yank keeps_delete_horizontal_space keeps_change_case
      keeps_transpose_words keeps_transpose_chars keeps_undo rl_get_previous_history_def rl_get_next_history_def on_line_def\<close>)
qed

lemma keeps_key:
  assumes "editing base es k ed" and "on_line key ed" and "can_kill ed"
  shows "keeps (read_command_key key ed) base es k"
proof -
  obtain x c where key: "key = (x, c)" by (cases key)
  let ?ed0 = "ed\<lparr>rl_explicit_arg := x\<rparr>"
  have "editing base es k ?ed0" "on_line (rl_explicit_arg ?ed0, c) ?ed0" "can_kill ?ed0"
    using assms by (simp_all add: editing_def in_line_def key on_line_def split: rl_command.splits)
  then obtain aborted ed1 where run: "run_function c ?ed0 = Some (aborted, ed1)" "editing base es k ed1"
    using keeps_run_function [of base es k ?ed0 c] by (auto simp: keeps_def)
  then show ?thesis
    by (auto simp: read_command_key_def key dispatch_def Let_def editing_def in_line_def)
qed

lemma keeps_keys:
  "editing base es k ed \<Longrightarrow> can_kill ed \<Longrightarrow> stays_on_line keys ed \<Longrightarrow> keeps (read_keys keys ed) base es k"
proof (induction keys arbitrary: ed)
  case (Cons key keys)
  then obtain ed1 where "read_command_key key ed = Some ed1" "editing base es k ed1"
    using keeps_key [of base es k ed key] by (auto simp: keeps_def)
  then show ?case using Cons by simp
qed simp

end
