(* ===== verification/Line_Session.thy ===== *)
theory Line_Session
  imports Line_Commands
begin

text \<open>
  What editing promises from the first key to Enter: edits can be taken back, a recalled history line
  is not changed by editing it, and text killed in one run is yanked back as it was. At the end, the
  states and keys on which the editor fails.
\<close>

section \<open>Lines about to be edited\<close>

text \<open>A line without undo list; the history is in order.\<close>

definition clean_line :: "editor \<Rightarrow> bool" where
  "clean_line ed \<longleftrightarrow>
     rl_undo_list ed = 0 \<and> 0 < next_undo ed \<and> \<not> rl_doing_an_undo ed \<and> in_line ed (rl_point ed) \<and> 0 \<le> rl_mark ed \<and>
     hist_inv (hist ed) \<and> history_offset (hist ed) \<le> history_length (hist ed)"

lemma hist_at_inv:
  assumes "hist_inv h" and "history_offset h \<le> history_length h"
  shows "hist_at h (abs_entries h) (nat (history_offset h))"
  using assms abs_entries_length by (auto simp: hist_at_def hist_inv_def hist_holds_def)

lemma undo_at_start: "rl_undo_list ed = 0 \<Longrightarrow> 0 < next_undo ed \<Longrightarrow> undo_at (rl_line_buffer ed) [] ed"
  by (simp add: undo_at_def)

lemma clean_line_editing:
  assumes "clean_line ed" and "ring_ok ed"
  shows "editing (rl_line_buffer ed) (abs_entries (hist ed)) (nat (history_offset (hist ed))) ed"
proof -
  have "sound_line (rl_line_buffer ed) ed"
    using assms undo_at_start by (auto simp: clean_line_def sound_line_def)
  moreover have "hist_at (hist ed) (abs_entries (hist ed)) (nat (history_offset (hist ed)))"
    using assms hist_at_inv by (simp add: clean_line_def)
  ultimately show ?thesis using assms others_kept_refl by (auto simp: clean_line_def editing_def loose_def ring_ok_def)
qed

text \<open>The undo list brings back the line, and leaves entries without undo list alone.\<close>

lemma editing_reverts:
  assumes "editing base es k ed"
  shows "\<exists>ed1 es1. rl_revert_line ed = Some ed1 \<and> rl_line_buffer ed1 = base \<and> rl_undo_list ed1 = 0 \<and>
    hist_at (hist ed1) es1 k \<and> others_kept (- {0}) es es1"
proof -
  obtain as es1 where as: "undo_at base as ed" "\<not> rl_doing_an_undo ed" "hist_at (hist ed) es1 k" "others_kept (- {0}) es es1"
    using assms by (auto simp: editing_def loose_def sound_line_def)
  have "chain hp as p \<Longrightarrow> set as \<subseteq> - {0}" for hp p by (induction as arbitrary: p) auto
  then have "set as \<subseteq> - {0}" using as(1) by (auto simp: undo_at_def)
  then show ?thesis
    using rl_revert_line_at [OF as(1-3)] others_kept_trans [OF as(4)] by blast
qed

lemma others_kept_eq:
  assumes "others_kept (- {0}) es es1" and "\<forall>e\<in>set es. he_data e = 0"
  shows "es1 = es"
  using assms by (intro nth_equalityI) (auto simp: others_kept_def)

section \<open>Recalling a line\<close>

lemma move_at:
  assumes "hist_at h es k" and "j \<le> length es"
  shows "hist_at (h\<lparr>history_offset := int j\<rparr>) es j"
proof -
  obtain as where h: "hist_holds h as" "abs_entries h = es" using assms(1) by (auto elim: hist_atE)
  have "hist_holds (h\<lparr>history_offset := int j\<rparr>) as"
    using h(1) by (auto simp: hist_holds_def slots_hold_def entry_ok_def split: option.splits)
  moreover from this have "abs_entries (h\<lparr>history_offset := int j\<rparr>) = es" using h by (simp add: abs_entries_holds)
  ultimately show ?thesis using assms(2) unfolding hist_at_def hist_inv_def by auto
qed

lemma entry_of_move [simp]: "entry_of (h\<lparr>history_offset := i\<rparr>) p = entry_of h p"
  by (cases p) (simp_all add: entry_of_def)

definition points_to :: "history \<Rightarrow> slot \<Rightarrow> hist_entry \<Rightarrow> bool" where
  "points_to h p e \<longleftrightarrow> p \<noteq> Null \<and> entry_of h p = Some (Some e)"

lemma previous_at:
  assumes "hist_at h es k"
  shows "\<exists>p. previous_history h = Some (p, h\<lparr>history_offset := int (k - 1)\<rparr>) \<and>
    (if k = 0 then p = Null else points_to h p (es ! (k - 1)))"
proof (cases "k = 0")
  case True
  then show ?thesis using assms by (cases h) (auto simp: previous_history_def hist_at_def)
next
  case False
  obtain as where h: "hist_holds h as" "abs_entries h = es" "history_offset h = int k" "k \<le> length as"
    using assms by (auto elim: hist_atE)
  then have i: "k - 1 < length as" "int k - 1 = int (k - 1)" using False by auto
  have "previous_history h = Some (Entry (as ! (k - 1)), h\<lparr>history_offset := int (k - 1)\<rparr>)"
    using read_slot_nth [OF h(1) i(1)] False unfolding previous_history_def h(3) i(2) by simp
  moreover have "points_to h (Entry (as ! (k - 1))) (es ! (k - 1))"
    using abs_entries_nth [OF h(1) i(1)] by (simp add: points_to_def entry_of_def h(2))
  ultimately show ?thesis using False by auto
qed

lemma previous_entries_at:
  assumes "hist_at h es k"
  shows "\<exists>p. previous_entries n old h = Some (p, h\<lparr>history_offset := int (k - n)\<rparr>) \<and>
    (if k = 0 \<or> n = 0 then p = old else points_to h p (es ! (k - n)))"
  using assms
proof (induction n arbitrary: k old h)
  case 0
  then show ?case by (cases h) (simp add: hist_at_def)
next
  case (Suc n)
  obtain p where prev: "previous_history h = Some (p, h\<lparr>history_offset := int (k - 1)\<rparr>)"
    "if k = 0 then p = Null else points_to h p (es ! (k - 1))"
    using previous_at [OF Suc.prems] by blast
  show ?case
  proof (cases "k = 0")
    case False
    have "hist_at (h\<lparr>history_offset := int (k - 1)\<rparr>) es (k - 1)"
      by (rule move_at [OF Suc.prems]) (use Suc.prems in \<open>auto simp: hist_at_def\<close>)
    from Suc.IH [OF this, of p] show ?thesis
      using prev False by (auto simp: points_to_def split: if_splits)
  qed (use prev in simp)
qed

text \<open>The line of an entry without undo list becomes the current line.\<close>

lemma replace_from_history_at:
  assumes "loose base es k ed" and "points_to (hist ed) p e" and "he_line e = Some line" and "he_data e = 0"
    and "hist_at (hist ed) es k"
  shows "\<exists>ed1. rl_replace_from_history p ed = Some ed1 \<and> loose line es k ed1 \<and> rl_line_buffer ed1 = line \<and>
    history_saved_point ed1 = history_saved_point ed \<and> can_kill ed1 = can_kill ed"
proof -
  let ?ed1 = "rl_fix_point True (ed\<lparr>rl_line_buffer := line\<rparr>)"
  have run: "rl_replace_line line False ed = Some ?ed1" by (simp add: rl_replace_line_def)
  have m: "0 \<le> rl_mark ?ed1"
    using fix_in_line_range [of "(ed\<lparr>rl_line_buffer := line\<rparr>)\<lparr>rl_point := fix_in_line (ed\<lparr>rl_line_buffer := line\<rparr>) (rl_point ed)\<rparr>" "rl_mark ed"]
    by (simp add: rl_fix_point_def Let_def in_line_def)
  have fields: "hist ?ed1 = hist ed" "rl_kill_ring ?ed1 = rl_kill_ring ed" "rl_kill_index ?ed1 = rl_kill_index ed"
    "next_undo ?ed1 = next_undo ed" "rl_doing_an_undo ?ed1 = rl_doing_an_undo ed" "rl_line_buffer ?ed1 = line"
    "history_saved_point ?ed1 = history_saved_point ed" "last_command_was_kill ?ed1 = last_command_was_kill ed"
    by (simp_all add: rl_fix_point_def Let_def)
  have start: "0 < next_undo ed" "\<not> rl_doing_an_undo ed" "ring_slots ed"
    using assms(1) by (auto simp: loose_def sound_line_def undo_at_def)
  have "loose line es k (?ed1\<lparr>rl_undo_list := 0, rl_point := x, rl_mark := y\<rparr>)" if "0 \<le> y" for x y
    using that start assms(5) others_kept_refl fields
      undo_at_start [of "?ed1\<lparr>rl_undo_list := 0, rl_point := x, rl_mark := y\<rparr>"]
    by (auto simp: loose_def sound_line_def ring_slots_def)
  then show ?thesis
    using assms(2-4) run fields by (auto simp: rl_replace_from_history_def points_to_def can_kill_def)
qed

lemma history_set_point_editing:
  assumes "loose base es k ed" and "- 1 \<le> history_saved_point ed"
  shows "editing base es k (history_set_point ed)" "rl_line_buffer (history_set_point ed) = rl_line_buffer ed"
    "can_kill (history_set_point ed) = can_kill ed"
  using assms by (auto simp: history_set_point_def Let_def editing_def in_line_def can_kill_def)

lemma save_rest:
  "hist (note_saved_point ed) = hist ed" "hist (rl_maybe_save_line ed) = hist ed"
  "history_saved_point (rl_maybe_save_line ed) = history_saved_point ed"
  "loose base es k (note_saved_point ed) = loose base es k ed" "loose base es k (rl_maybe_save_line ed) = loose base es k ed"
  "can_kill (note_saved_point ed) = can_kill ed" "can_kill (rl_maybe_save_line ed) = can_kill ed"
  by (simp_all add: note_saved_point_def rl_maybe_save_line_def loose_def sound_line_def undo_at_def ring_slots_def
      can_kill_def)

lemma recall_at:
  assumes ed: "editing base es (length es) ed" and data: "\<forall>e\<in>set es. he_data e = 0" and n: "0 < n" "es \<noteq> []"
    and p: "- 1 \<le> history_saved_point ed"
  defines "k \<equiv> length es - nat n"
  shows "\<exists>ed1. rl_get_previous_history n ed = Some ed1 \<and> he_line (es ! k) = Some (rl_line_buffer ed1) \<and>
    editing (rl_line_buffer ed1) es k ed1 \<and> can_kill ed1 = can_kill ed"
proof -
  have h: "hist_at (hist ed) es (length es)"
    using ed others_kept_eq [OF _ data] by (auto simp: editing_def loose_def)
  have k: "k < length es" using n by (simp add: k_def)
  let ?ed1 = "rl_maybe_save_line (note_saved_point ed)"
  have ed1: "hist ?ed1 = hist ed" "loose base es (length es) ?ed1" "- 1 \<le> history_saved_point ?ed1"
  proof -
    show "hist ?ed1 = hist ed" "loose base es (length es) ?ed1" using ed by (simp_all add: save_rest editing_def)
    show "- 1 \<le> history_saved_point ?ed1"
      using ed p unfolding save_rest by (simp add: note_saved_point_def editing_def in_line_def)
  qed
  obtain c where "current_history (hist ed) = Some c" "entry_of (hist ed) c = Some None"
    using current_entry [OF h] by auto
  then have same: "rl_maybe_replace_line ?ed1 = Some ?ed1" by (simp add: rl_maybe_replace_line_def ed1(1))
  obtain q where q: "previous_entries (nat n) Null (hist ed) = Some (q, (hist ed)\<lparr>history_offset := int k\<rparr>)"
    "points_to (hist ed) q (es ! k)"
    using previous_entries_at [OF h, of "nat n" Null] n by (auto simp: k_def)
  let ?ed2 = "?ed1\<lparr>hist := (hist ed)\<lparr>history_offset := int k\<rparr>\<rparr>"
  have at: "hist_at (hist ?ed2) es k" using move_at [OF h, of k] k by simp
  have "loose base es k ?ed2"
    using ed1(2) at others_kept_refl by (auto simp: loose_def sound_line_def undo_at_def ring_slots_def)
  moreover have "points_to (hist ?ed2) q (es ! k)" using q(2) by (simp add: points_to_def)
  moreover obtain line where line: "he_line (es ! k) = Some line"
  proof -
    obtain as where "hist_holds (hist ed) as" "abs_entries (hist ed) = es" "length es = length as"
      using h by (auto elim: hist_atE)
    then show ?thesis using abs_entries_ok [of "hist ed" as k] k that by auto
  qed
  moreover have "he_data (es ! k) = 0" using data k by simp
  ultimately obtain ed3 where ed3: "rl_replace_from_history q ?ed2 = Some ed3" "loose line es k ed3" "rl_line_buffer ed3 = line"
    "history_saved_point ed3 = history_saved_point ?ed1" "can_kill ed3 = can_kill ?ed2"
    using replace_from_history_at [of base es k ?ed2 q "es ! k" line] at by auto
  have "q \<noteq> Null" using q(2) by (simp add: points_to_def)
  then have "rl_get_previous_history n ed = Some (history_set_point ed3)"
    using n same q(1) ed1(1) ed3(1) by (simp add: rl_get_previous_history_def history_backward_def Let_def)
  then show ?thesis
    using history_set_point_editing [OF ed3(2)] ed1(3) ed3(3-5) line save_rest(6,7) by (auto simp: can_kill_def)
qed

section \<open>Enter\<close>

text \<open>Reverting all lines finds nothing to revert when no entry has an undo list.\<close>

lemma revert_entries_idle:
  assumes "hist_at (hist ed) es k" and "\<forall>e\<in>set es. he_data e = 0" and "k < length es" "points_to (hist ed) p (es ! k)"
    and "k + 1 < fuel"
  shows "\<exists>h. revert_entries fuel p saved ed = Some (saved, ed\<lparr>hist := h\<rparr>) \<and> hist_at h es 0"
  using assms
proof (induction k arbitrary: fuel p ed)
  case 0
  obtain a where a: "p = Entry a" "heap (hist ed) a = Some (es ! 0)"
    using "0.prems"(4) by (cases p) (auto simp: points_to_def entry_of_def bind_eq_Some_conv)
  obtain f where f: "fuel = Suc (Suc f)" using "0.prems"(5) by (cases fuel; cases "fuel - 1") auto
  let ?h = "(hist ed)\<lparr>history_offset := 0\<rparr>"
  have "previous_history (hist ed) = Some (Null, ?h)" using previous_at [OF "0.prems"(1)] by simp
  moreover have "he_data (es ! 0) = 0" using "0.prems"(2,3) by simp
  moreover have "hist_at ?h es 0" using move_at [OF "0.prems"(1), of 0] by simp
  ultimately show ?case using a f by auto
next
  case (Suc k)
  obtain a where a: "p = Entry a" "heap (hist ed) a = Some (es ! Suc k)"
    using Suc.prems(4) by (cases p) (auto simp: points_to_def entry_of_def bind_eq_Some_conv)
  obtain f where f: "fuel = Suc f" "k + 1 < f" using Suc.prems(5) by (cases fuel) auto
  let ?h = "(hist ed)\<lparr>history_offset := int k\<rparr>"
  obtain q where q: "previous_history (hist ed) = Some (q, ?h)" "points_to (hist ed) q (es ! k)"
    using previous_at [OF Suc.prems(1)] by auto
  have at: "hist_at (hist (ed\<lparr>hist := ?h\<rparr>)) es k" using move_at [OF Suc.prems(1), of k] Suc.prems(3) by simp
  have "points_to (hist (ed\<lparr>hist := ?h\<rparr>)) q (es ! k)" using q(2) by (simp add: points_to_def)
  from Suc.IH [OF at Suc.prems(2) _ this f(2)] Suc.prems(3) obtain h where
    "revert_entries f q saved (ed\<lparr>hist := ?h\<rparr>) = Some (saved, ed\<lparr>hist := h\<rparr>)" "hist_at h es 0" by auto
  moreover have "he_data (es ! Suc k) = 0" using Suc.prems(2,3) by simp
  ultimately show ?case using a f(1) q(1) by auto
qed

lemma revert_all_idle:
  assumes h: "hist_at (hist ed) es k" and data: "\<forall>e\<in>set es. he_data e = 0" and k: "k < length es" and "rl_undo_list ed = 0"
  shows "\<exists>ed1. rl_revert_all_lines ed = Some ed1 \<and> rl_line_buffer ed1 = rl_line_buffer ed \<and> rl_undo_list ed1 = 0 \<and>
    hist_at (hist ed1) es k"
proof -
  obtain p where p: "current_history (hist ed) = Some p" "entry_of (hist ed) p = Some (Some (es ! k))" "p \<noteq> Null"
    using current_entry [OF h] k by auto
  have off: "history_offset (hist ed) = int k" "history_length (hist ed) = int (length es)"
    using h by (auto elim!: hist_atE)
  have same: "ed\<lparr>hist := hist ed\<rparr> = ed" by simp
  obtain g where g: "revert_entries (Suc (Suc k)) p 0 ed = Some (0, ed\<lparr>hist := g\<rparr>)" "hist_at g es 0"
    using revert_entries_idle [of ed es k p "Suc (Suc k)" 0] h data k p by (auto simp: points_to_def)
  obtain as where gs: "hist_holds g as" "length es = length as" "history_length g = int (length as)" "abs_entries g = es"
    using g(2) by (auto elim: hist_atE)
  obtain xs where xs: "the_history g = Some xs" using array_of [OF gs(1)] gs(2) k by fastforce
  let ?g = "g\<lparr>history_offset := int k\<rparr>"
  have pos: "snd (history_set_pos (int k) g) = ?g" using xs gs k by (simp add: history_set_pos_def)
  have "hist_at ?g es k" using move_at [OF g(2), of k] k by simp
  moreover have "rl_revert_all_lines ed = rl_replace_line (rl_line_buffer ed) False (ed\<lparr>hist := g, rl_undo_list := 0, hist := ?g\<rparr>)"
    using g(1) p(1) pos off k assms(4) same
    by (simp add: rl_revert_all_lines_def where_history_def Let_def del: revert_entries.simps)
  then have "rl_revert_all_lines ed = Some (rl_fix_point True (ed\<lparr>hist := g, rl_undo_list := 0, hist := ?g, rl_line_buffer := rl_line_buffer ed\<rparr>))"
    by (simp add: rl_replace_line_def)
  ultimately show ?thesis by (simp add: rl_fix_point_def Let_def)
qed

text \<open>Enter on a recalled line: it is returned, and the history is what it was.\<close>

lemma teardown_at:
  assumes ed: "editing base es k ed" and data: "\<forall>e\<in>set es. he_data e = 0" and k: "k < length es" and base: "he_line (es ! k) = Some base"
  shows "\<exists>ed1. readline_internal_teardown ed = Some (rl_line_buffer ed, ed1) \<and> hist_at (hist ed1) es k \<and> rl_undo_list ed1 = 0"
proof -
  have h: "hist_at (hist ed) es k" using ed others_kept_eq [OF _ data] by (auto simp: editing_def loose_def)
  obtain p where p: "current_history (hist ed) = Some p" "entry_of (hist ed) p = Some (Some (es ! k))"
    using current_entry [OF h] k by auto
  obtain ed1 where ed1: "restore_current ed = Some ed1" "rl_line_buffer ed1 = rl_line_buffer ed" "hist_at (hist ed1) es k"
    "rl_undo_list ed1 = 0"
  proof (cases "rl_undo_list ed = 0")
    case True
    then show ?thesis using that [of ed] p h by (simp add: restore_current_def)
  next
    case False
    obtain ed2 where ed2: "rl_revert_line ed = Some ed2" "rl_line_buffer ed2 = base" "rl_undo_list ed2 = 0" "hist_at (hist ed2) es k"
      using editing_reverts [OF ed] others_kept_eq [OF _ data] by blast
    obtain old h1 h2 where r: "replace_history_entry (int k) base 0 (hist ed2) = Some (old, h1)" "old \<noteq> Null"
      "release_entry old h1 = Some h2" "hist_at h2 (set_entry k base 0 es) k"
      using replace_and_release [OF ed2(4) k] by blast
    have "set_entry k base 0 es = es"
    proof -
      have "\<lparr>he_line = Some base, he_timestamp = he_timestamp (es ! k), he_data = 0\<rparr> = es ! k"
        using base data nth_mem [OF k] by (cases "es ! k") auto
      then show ?thesis by (simp add: set_entry_def)
    qed
    moreover have "where_history (hist ed2) = int k" using ed2(4) by (simp add: where_history_def hist_at_def)
    ultimately show ?thesis
      using that [of "ed2\<lparr>hist := h2, rl_line_buffer := rl_line_buffer ed\<rparr>"] False p ed2 r
      by (simp add: restore_current_def)
  qed
  obtain ed2 where "(if revert_all_at_newline ed1 then rl_revert_all_lines ed1 else Some ed1) = Some ed2"
    "rl_line_buffer ed2 = rl_line_buffer ed" "rl_undo_list ed2 = 0" "hist_at (hist ed2) es k"
    using revert_all_idle [OF ed1(3) data k ed1(4)] ed1 by (cases "revert_all_at_newline ed1") auto
  then show ?thesis using ed1(1) by (simp add: readline_internal_teardown_def)
qed

section \<open>Runs of kills\<close>

fun is_kill :: "rl_command \<Rightarrow> bool" where
  "is_kill (Kill_Word n) = True"
| "is_kill (Backward_Kill_Word n) = True"
| "is_kill (Kill_Line n) = True"
| "is_kill (Backward_Kill_Line n) = True"
| "is_kill (Unix_Word_Rubout n) = True"
| "is_kill (Unix_Filename_Rubout n) = True"
| "is_kill Unix_Line_Discard = True"
| "is_kill c = False"

text \<open>Keys that kill, each of them something.\<close>

primrec kill_run :: "(bool \<times> rl_command) list \<Rightarrow> editor \<Rightarrow> bool" where
  "kill_run [] ed = True"
| "kill_run (key # keys) ed =
     (is_kill (snd key) \<and>
      (case read_command_key key ed of None \<Rightarrow> True | Some ed1 \<Rightarrow> rl_end ed1 < rl_end ed \<and> kill_run keys ed1))"

text \<open>The slot the killed text goes to, and the text before and behind the position around it.\<close>

definition killed_from :: "cstring \<Rightarrow> editor \<Rightarrow> bool" where
  "killed_from base ed \<longleftrightarrow>
     (\<exists>b. sound_line b ed) \<and> in_line ed (rl_point ed) \<and> rl_editing_mode ed = emacs_mode \<and> 0 \<le> last_command_was_kill ed \<and>
     (if last_command_was_kill ed = 0 then base = rl_line_buffer ed
      else \<exists>slots. rl_kill_ring ed = Some slots \<and> slots \<noteq> [] \<and> rl_kill_index ed = int (length slots) - 1 \<and>
             base = take (nat (rl_point ed)) (rl_line_buffer ed) @ last slots @ drop (nat (rl_point ed)) (rl_line_buffer ed))"

lemma copy_text_range:
  assumes "i \<le> j" and "j \<le> length (rl_line_buffer ed)"
  shows "rl_copy_text (int i) (int j) ed = Some (take (j - i) (drop i (rl_line_buffer ed)))"
    "rl_copy_text (int j) (int i) ed = Some (take (j - i) (drop i (rl_line_buffer ed)))"
  using assms by (auto simp: rl_copy_text_def Let_def in_line_def rl_end_def min_def max_def nat_diff_distrib)

lemma split_range: "i \<le> j \<Longrightarrow> take i s @ take (j - i) (drop i s) @ drop j s = s"
  by (metis append_take_drop_id drop_drop le_add_diff_inverse2)

text \<open>Where a kill goes: a new slot, or the front or the end of the last one.\<close>

definition kill_joined :: "bool \<Rightarrow> cstring \<Rightarrow> editor \<Rightarrow> cstring" where
  "kill_joined at_end str ed =
     (if last_command_was_kill ed = 0 then str
      else if at_end then last (the (rl_kill_ring ed)) @ str else str @ last (the (rl_kill_ring ed)))"

lemma last_update: "xs \<noteq> [] \<Longrightarrow> last (xs[length xs - 1 := x]) = x"
  by (simp add: last_list_update)

lemma last_slot: "xs \<noteq> [] \<Longrightarrow> xs ! (length xs - Suc 0) = last xs"
  by (simp add: last_conv_nth)

lemma ring_effect:
  assumes "rl_editing_mode ed = emacs_mode" and "last_command_was_kill ed \<noteq> 0 \<Longrightarrow> \<exists>old. rl_kill_ring ed = Some old \<and> old \<noteq> []"
  shows "\<exists>slots. rl_copy_to_kill_ring str at_end ed = Some (ed\<lparr>rl_kill_ring := Some slots, rl_kill_index := int (length slots - 1)\<rparr>) \<and>
    slots \<noteq> [] \<and> last slots = kill_joined at_end str ed"
proof (cases "last_command_was_kill ed = 0")
  case True
  let ?new = "new_kill_slot (rl_kill_ring ed)"
  have "?new \<noteq> []" by (auto simp: new_kill_slot_def split: option.split)
  then show ?thesis
    using True last_update [of ?new str]
    by (intro exI [of _ "?new[length ?new - 1 := str]"]) (simp add: rl_copy_to_kill_ring_def Let_def kill_joined_def)
next
  case False
  then obtain old where old: "rl_kill_ring ed = Some old" "old \<noteq> []" using assms(2) by blast
  show ?thesis
    using False old assms(1) last_update [OF old(2)] last_slot [OF old(2)]
    by (intro exI [of _ "old[length old - 1 := kill_joined at_end str ed]"])
      (simp add: rl_copy_to_kill_ring_def Let_def kill_joined_def)
qed

text \<open>The text around the position, with the killed part put back, stays the same.\<close>

lemma around_kill:
  fixes r :: nat
  assumes "killed_from base ed" and "rl_point ed = int p" and "p \<le> length (rl_line_buffer ed)"
  defines "mid \<equiv> take (max p r - min p r) (drop (min p r) (rl_line_buffer ed))"
  shows "base = take (min p r) (rl_line_buffer ed) @ kill_joined (p < r) mid ed @ drop (max p r) (rl_line_buffer ed)"
proof (cases "last_command_was_kill ed = 0")
  case True
  then show ?thesis
    using assms(1) split_range [of "min p r" "max p r" "rl_line_buffer ed"] by (simp add: killed_from_def kill_joined_def mid_def)
next
  case False
  let ?s = "rl_line_buffer ed"
  have base: "base = take p ?s @ last (the (rl_kill_ring ed)) @ drop p ?s"
    using False assms(1,2) by (auto simp: killed_from_def)
  show ?thesis
  proof (cases "p < r")
    case True
    then have "drop p ?s = take (r - p) (drop p ?s) @ drop r ?s"
      by (metis append_take_drop_id drop_drop le_add_diff_inverse2 less_imp_le)
    then show ?thesis using base True False by (simp add: kill_joined_def mid_def min_def max_def)
  next
    case False': False
    then have "take p ?s = take r ?s @ take (p - r) (drop r ?s)" by (metis le_add_diff_inverse not_less take_add)
    then show ?thesis using base False' False by (auto simp: kill_joined_def mid_def min_def max_def)
  qed
qed

text \<open>One kill between the position and \<open>q\<close>; afterwards the position is at the smaller of the two.\<close>

lemma killed_step:
  assumes ed: "killed_from base ed" and q: "in_line ed q" "q \<noteq> rl_point ed"
  shows "\<exists>ed1. rl_kill_text (rl_point ed) q (ed\<lparr>rl_point := x\<rparr>) = Some ed1 \<and> rl_point ed1 = x \<and>
    last_command_was_kill ed1 = last_command_was_kill ed + 1 \<and>
    (\<forall>m. killed_from base (ed1\<lparr>rl_point := min (rl_point ed) q, rl_mark := m\<rparr>))"
proof -
  let ?s = "rl_line_buffer ed" and ?ed0 = "ed\<lparr>rl_point := x\<rparr>"
  obtain b where b: "sound_line b ed" using ed by (auto simp: killed_from_def)
  obtain p r where pr: "rl_point ed = int p" "q = int r" "p \<le> length ?s" "r \<le> length ?s"
    using ed q(1) by (auto simp: killed_from_def in_line_def rl_end_def intro!: that [of "nat (rl_point ed)" "nat q"])
  let ?i = "min p r" and ?j = "max p r"
  let ?mid = "take (?j - ?i) (drop ?i ?s)"
  have copy: "rl_copy_text (rl_point ed) q ?ed0 = Some ?mid"
    using pr copy_text_range [of ?i ?j ?ed0] by (cases "p \<le> r") (simp_all add: min_def max_def)
  have b0: "sound_line b ?ed0" using b by (simp add: sound_line_def undo_at_def)
  obtain ed1 where ed1: "rl_delete_text (rl_point ed) q ?ed0 = Some ed1" "sound_line b ed1" "edit_frame ?ed0 ed1"
    "rl_line_buffer ed1 = take ?i ?s @ drop ?j ?s" "rl_point ed1 = x"
    using rl_delete_text_ok [OF b0, of "rl_point ed" q] pr by (cases "p \<le> r") (auto simp: min_def max_def)
  have same: "rl_editing_mode ed1 = rl_editing_mode ed" "last_command_was_kill ed1 = last_command_was_kill ed"
    "rl_kill_ring ed1 = rl_kill_ring ed"
    using ed1(3) by (cases ed; cases ed1; simp add: edit_frame_def)+
  have "kill_joined (p < r) ?mid ed1 = kill_joined (p < r) ?mid ed" by (simp add: kill_joined_def same)
  then obtain slots where ring: "rl_copy_to_kill_ring ?mid (rl_point ed < q) ed1 =
      Some (ed1\<lparr>rl_kill_ring := Some slots, rl_kill_index := int (length slots - 1)\<rparr>)" "slots \<noteq> []"
    "last slots = kill_joined (p < r) ?mid ed"
    using ring_effect [of ed1 ?mid "p < r"] ed same pr by (auto simp: killed_from_def split: if_splits)
  let ?ed2 = "count_kill (ed1\<lparr>rl_kill_ring := Some slots, rl_kill_index := int (length slots - 1)\<rparr>)"
  have run: "rl_kill_text (rl_point ed) q ?ed0 = Some ?ed2"
    using q(2) copy ed1(1) ring(1) by (simp add: rl_kill_text_def)
  have i: "int ?i = min (rl_point ed) q" "?i \<le> length ?s" using pr by auto
  have around: "take ?i (rl_line_buffer ed1) = take ?i ?s" "drop ?i (rl_line_buffer ed1) = drop ?j ?s"
    using i(2) by (simp_all add: ed1(4))
  have "killed_from base (?ed2\<lparr>rl_point := int ?i, rl_mark := m\<rparr>)" for m
  proof -
    have "sound_line b (?ed2\<lparr>rl_point := int ?i, rl_mark := m\<rparr>)"
      using ed1(2) by (simp add: sound_line_def undo_at_def count_kill_def)
    moreover have "in_line (?ed2\<lparr>rl_point := int ?i, rl_mark := m\<rparr>) (int ?i)"
      using i ed1(4) by (auto simp: in_line_def rl_end_def count_kill_def)
    moreover have "base = take ?i (rl_line_buffer ed1) @ last slots @ drop ?i (rl_line_buffer ed1)"
      unfolding around ring(3) by (rule around_kill [OF ed pr(1,3)])
    moreover have "int (length slots - 1) = int (length slots) - 1" using ring(2) by (cases slots) auto
    ultimately show ?thesis using ed same ring(2) by (auto simp: killed_from_def count_kill_def)
  qed
  then show ?thesis using run ed1(5) same i(1) by (simp add: count_kill_def)
qed

text \<open>A kill command kills nothing, or the text around the position and the slot still make up \<open>base\<close>.\<close>

definition kills_in :: "cstring \<Rightarrow> editor option \<Rightarrow> editor \<Rightarrow> bool" where
  "kills_in base r ed \<longleftrightarrow>
     (\<exists>ed1. r = Some ed1 \<and>
        (rl_end ed1 = rl_end ed \<or> killed_from base ed1 \<and> last_command_was_kill ed1 = last_command_was_kill ed + 1))"

lemma kills_in_step:
  assumes "killed_from base ed" and "in_line ed q" "q \<noteq> rl_point ed"
    and "\<And>ed1. rl_point ed1 = x \<Longrightarrow> \<exists>m. f ed1 = ed1\<lparr>rl_point := min (rl_point ed) q, rl_mark := m\<rparr>"
  shows "kills_in base (rl_kill_text (rl_point ed) q (ed\<lparr>rl_point := x\<rparr>) \<bind> (\<lambda>ed1. Some (f ed1))) ed"
proof -
  obtain ed1 where ed1: "rl_kill_text (rl_point ed) q (ed\<lparr>rl_point := x\<rparr>) = Some ed1" "rl_point ed1 = x"
    "last_command_was_kill ed1 = last_command_was_kill ed + 1"
    "\<forall>m. killed_from base (ed1\<lparr>rl_point := min (rl_point ed) q, rl_mark := m\<rparr>)"
    using killed_step [OF assms(1-3)] by blast
  obtain m where "f ed1 = ed1\<lparr>rl_point := min (rl_point ed) q, rl_mark := m\<rparr>" using assms(4) [OF ed1(2)] by blast
  then show ?thesis using ed1 by (simp add: kills_in_def)
qed

lemma kills_in_nothing: "rl_end ed1 = rl_end ed \<Longrightarrow> kills_in base (Some ed1) ed"
  by (simp add: kills_in_def)

lemma mark_point_here: "rl_point ed = p \<Longrightarrow> \<exists>m. mark_point ed = ed\<lparr>rl_point := p, rl_mark := m\<rparr>"
  by (cases ed) (simp add: mark_point_def)

lemma mark_point_there: "\<exists>m. mark_point (ed\<lparr>rl_point := p\<rparr>) = ed\<lparr>rl_point := p, rl_mark := m\<rparr>"
  by (cases ed) (simp add: mark_point_def)

lemma kills_in_words:
  assumes "killed_from base ed" and "0 \<le> n"
  shows "kills_in base (kill_words n ed) ed" "kills_in base (backward_kill_words n ed) ed"
proof -
  have i: "in_line ed (rl_point ed)" using assms(1) by (simp add: killed_from_def)
  obtain p where p: "rl_forward_word n ed = Some (ed\<lparr>rl_point := p\<rparr>)" "in_line ed p" "rl_point ed \<le> p"
    using word_move(1) [OF i, of n] assms(2) by auto
  then show "kills_in base (kill_words n ed) ed"
    using mark_point_there
    by (cases "p = rl_point ed")
      (auto simp: kill_words_def Let_def min_absorb1 intro!: kills_in_step [OF assms(1)] kills_in_nothing)
  obtain q where q: "rl_backward_word n ed = Some (ed\<lparr>rl_point := q\<rparr>)" "in_line ed q" "q \<le> rl_point ed"
    using word_move(2) [OF i, of n] assms(2) by auto
  then show "kills_in base (backward_kill_words n ed) ed"
    by (cases "q = rl_point ed")
      (auto simp: backward_kill_words_def Let_def min_absorb2 intro!: kills_in_step [OF assms(1)] kills_in_nothing mark_point_here)
qed

lemma kills_in_line:
  assumes "killed_from base ed"
  shows "kills_in base (kill_to_end ed) ed" "kills_in base (kill_to_start ed) ed" "kills_in base (rl_unix_line_discard ed) ed"
proof -
  have i: "0 \<le> rl_point ed" "rl_point ed \<le> rl_end ed" "in_line ed (rl_end ed)" "in_line ed 0"
    using assms by (auto simp: killed_from_def in_line_def)
  have "kills_in base (rl_kill_text (rl_point ed) (rl_end ed) (ed\<lparr>rl_point := rl_end ed\<rparr>) \<bind>
      (\<lambda>ed1. Some (mark_point (ed1\<lparr>rl_point := rl_point ed\<rparr>)))) ed" if "rl_point ed \<noteq> rl_end ed"
    by (rule kills_in_step [OF assms i(3) that [symmetric]]) (use i mark_point_there in \<open>auto simp: min_absorb1\<close>)
  then show "kills_in base (kill_to_end ed) ed"
    by (simp add: kill_to_end_def rl_end_of_line_def Let_def kills_in_nothing)
  have zero: "kills_in base (rl_kill_text (rl_point ed) 0 (ed\<lparr>rl_point := x\<rparr>) \<bind> (\<lambda>ed1. Some (f ed1))) ed"
    if "rl_point ed \<noteq> 0" "\<And>ed1. rl_point ed1 = x \<Longrightarrow> \<exists>m. f ed1 = ed1\<lparr>rl_point := 0, rl_mark := m\<rparr>" for x f
    by (rule kills_in_step [OF assms i(4) that(1) [symmetric]]) (use i that(2) in \<open>auto simp: min_absorb2\<close>)
  show "kills_in base (kill_to_start ed) ed"
    using zero [of 0 mark_point, OF _ mark_point_here]
    by (auto simp: kill_to_start_def rl_beg_of_line_def Let_def kills_in_nothing)
  show "kills_in base (rl_unix_line_discard ed) ed"
    using zero [of "rl_point ed" "\<lambda>ed1. mark_point (ed1\<lparr>rl_point := 0\<rparr>)"] mark_point_there
    by (auto simp: rl_unix_line_discard_def kills_in_nothing)
qed

lemma kills_in_rubouts:
  assumes "killed_from base ed"
  shows "kills_in base (rl_unix_word_rubout n ed) ed" "kills_in base (rl_unix_filename_rubout n ed) ed"
proof -
  have i: "in_line ed (rl_point ed)" using assms by (simp add: killed_from_def)
  have gone: "kills_in base (do { ed1 \<leftarrow> rl_kill_text (rl_point ed) (int p) (ed\<lparr>rl_point := int p\<rparr>); Some (mark_point ed1) }) ed"
    if p: "p \<le> nat (rl_point ed)" for p :: nat
  proof (cases "int p = rl_point ed")
    case True
    then show ?thesis by (simp add: rl_kill_text_def kills_in_nothing)
  next
    case False
    have "in_line ed (int p)" "min (rl_point ed) (int p) = int p" using p i by (auto simp: in_line_def)
    then show ?thesis by (auto intro!: kills_in_step [OF assms _ False] mark_point_here)
  qed
  show "kills_in base (rl_unix_word_rubout n ed) ed" "kills_in base (rl_unix_filename_rubout n ed) ed"
    using i gone [OF rubouts_le(1)] gone [OF rubouts_le(2)]
    by (simp_all add: rl_unix_word_rubout_def rl_unix_filename_rubout_def Let_def kills_in_nothing)
qed

lemma goes_on_inject [simp]: "goes_on r = goes_on r' \<longleftrightarrow> r = r'"
  by (cases r; cases r') (simp_all add: goes_on_def)

lemma kills_in_function:
  assumes "killed_from base ed" and "is_kill c"
  shows "\<exists>r. run_function c ed = goes_on r \<and> kills_in base r ed"
  using assms(2)
  by (cases c rule: is_kill.cases)
    (simp_all add: rl_kill_word_def rl_backward_kill_word_def rl_kill_line_def rl_backward_kill_line_def
      kills_in_words [OF assms(1)] kills_in_line [OF assms(1)] kills_in_rubouts [OF assms(1)])

lemma kill_key:
  assumes "killed_from base ed" and "kill_run [key] ed"
  shows "\<exists>ed1. read_command_key key ed = Some ed1 \<and> killed_from base ed1 \<and> last_command_was_kill ed1 \<noteq> 0"
proof -
  obtain x c where key: "key = (x, c)" by (cases key)
  let ?ed0 = "ed\<lparr>rl_explicit_arg := x\<rparr>"
  have k0: "killed_from base ?ed0"
    using assms(1) by (simp add: killed_from_def sound_line_def undo_at_def in_line_def)
  obtain r where r: "run_function c ?ed0 = goes_on r" "kills_in base r ?ed0"
    using kills_in_function [OF k0, of c] assms(2) by (auto simp: key)
  then obtain ed1 where ed1: "r = Some ed1"
    "rl_end ed1 = rl_end ed \<or> killed_from base ed1 \<and> last_command_was_kill ed1 = last_command_was_kill ed + 1"
    by (auto simp: kills_in_def)
  let ?last = "if last_command_was_kill ed = last_command_was_kill ed1 then 0 else last_command_was_kill ed1"
  let ?ed2 = "ed1\<lparr>rl_last_func := function_of c, last_command_was_kill := ?last\<rparr>"
  have "read_command_key key ed = Some ?ed2"
    using r(1) ed1(1) by (cases ed1) (simp add: read_command_key_def key dispatch_def goes_on_def)
  moreover from this have "rl_end ed1 < rl_end ed" using assms(2) by (simp add: key rl_end_def)
  moreover have "0 \<le> last_command_was_kill ed" using assms(1) by (simp add: killed_from_def)
  ultimately show ?thesis
    using ed1(2) by (auto simp: killed_from_def sound_line_def undo_at_def in_line_def)
qed

lemma kill_keys:
  assumes "killed_from base ed" and "kill_run keys ed"
  shows "\<exists>ed1. read_keys keys ed = Some ed1 \<and> killed_from base ed1 \<and> (keys \<noteq> [] \<longrightarrow> last_command_was_kill ed1 \<noteq> 0)"
  using assms
proof (induction keys arbitrary: ed)
  case (Cons key keys)
  have "kill_run [key] ed" using Cons.prems(2) by (simp split: option.splits)
  from kill_key [OF Cons.prems(1) this] obtain ed1 where ed1: "read_command_key key ed = Some ed1" "killed_from base ed1"
    "last_command_was_kill ed1 \<noteq> 0" by blast
  moreover have "kill_run keys ed1" using Cons.prems(2) ed1(1) by simp
  ultimately obtain ed2 where "read_keys keys ed1 = Some ed2" "killed_from base ed2"
    "keys \<noteq> [] \<longrightarrow> last_command_was_kill ed2 \<noteq> 0" using Cons.IH by blast
  then show ?case using ed1 by (cases keys) auto
qed simp

lemma yank_kill:
  assumes "killed_from base ed" and "last_command_was_kill ed \<noteq> 0"
  shows "\<exists>ed1. read_command_key (x, Yank) ed = Some ed1 \<and> rl_line_buffer ed1 = base"
proof -
  obtain b slots where b: "sound_line b ed" "in_line ed (rl_point ed)" and slots: "rl_kill_ring ed = Some slots" "slots \<noteq> []"
    "rl_kill_index ed = int (length slots) - 1"
    "base = take (nat (rl_point ed)) (rl_line_buffer ed) @ last slots @ drop (nat (rl_point ed)) (rl_line_buffer ed)"
    using assms by (auto simp: killed_from_def)
  let ?ed0 = "ed\<lparr>rl_explicit_arg := x\<rparr>"
  let ?ed1 = "rl_set_mark_at_pos (rl_point ?ed0) ?ed0"
  have "sound_line b ?ed1" "in_line ?ed1 (rl_point ?ed1)" "rl_line_buffer ?ed1 = rl_line_buffer ed" "rl_point ?ed1 = rl_point ed"
    using b by (simp_all add: rl_set_mark_at_pos_def sound_line_def undo_at_def in_line_def rl_end_def)
  then obtain ed2 where "rl_insert_text (last slots) ?ed1 = Some ed2" "rl_line_buffer ed2 = base"
    using rl_insert_text_ok [of b ?ed1 "last slots"] slots(4) by auto
  moreover have "slots ! nat (rl_kill_index ed) = last slots" "0 \<le> rl_kill_index ed" "rl_kill_index ed < int (length slots)"
    using slots(2,3) by (auto simp: last_conv_nth nat_diff_distrib Suc_le_eq)
  ultimately show ?thesis
    using slots(1) by (simp add: read_command_key_def dispatch_def rl_yank_def Let_def)
qed

section \<open>Sample sessions\<close>

definition new_editor :: "history \<Rightarrow> editor" where
  "new_editor h =
     \<lparr>rl_line_buffer = [], rl_point = 0, rl_mark = 0, rl_undo_list = 0, undo_heap = (\<lambda>_. None), next_undo = 1,
      rl_doing_an_undo = False, rl_undo_group_level = 0, rl_kill_ring = None, rl_kill_index = 0,
      last_command_was_kill = 0, rl_editing_mode = emacs_mode, vi_movement = False, overwrite_mode = False,
      rl_explicit_arg = False, pathname_alphabetic = False, output_meta_chars = False, rl_last_func = No_func,
      hist = using_history h, saved_line = None, history_preserve_point = False, history_saved_point = - 1,
      revert_all_at_newline = False\<rparr>"

definition history_of :: "cstring list \<Rightarrow> history" where
  "history_of ls = foldl (\<lambda>h l. case add_history ''#1'' (Some l) h of Some h1 \<Rightarrow> h1 | None \<Rightarrow> h) fresh_history ls"

definition keys_of :: "rl_command list \<Rightarrow> (bool \<times> rl_command) list" where
  "keys_of cs = map (Pair False) cs"

definition typing :: "cstring \<Rightarrow> rl_command list" where
  "typing s = map (Self_Insert 1) s"

definition sample_editor :: editor where
  "sample_editor = (new_editor (history_of [''ls'', ''pwd'']))
     \<lparr>rl_line_buffer := ''cd src lib'', rl_point := 6, rl_kill_ring := Some [''old'']\<rparr>"

lemma history_of_inv: "hist_inv (history_of ls)"
proof -
  have "hist_inv h \<Longrightarrow> hist_inv (foldl (\<lambda>h l. case add_history ''#1'' (Some l) h of Some h1 \<Rightarrow> h1 | None \<Rightarrow> h) h ls)" for h
  proof (induction ls arbitrary: h)
    case (Cons l ls)
    obtain h1 where "add_history ''#1'' (Some l) h = Some h1" "hist_inv h1"
      using hist_step_refines [OF Cons.prems, of "H_add ''#1'' l"] by (auto simp: refined_at_def done_with_def)
    then show ?case using Cons.IH by simp
  qed simp
  then show ?thesis unfolding history_of_def using fresh_history_inv by blast
qed

lemma using_history_inv: "hist_inv h \<Longrightarrow> hist_inv (using_history h)"
  using hist_step_refines [of h H_using] by (auto simp: refined_at_def)

lemma sample_editor_clean: "clean_line sample_editor" "ring_ok sample_editor"
proof -
  have "hist sample_editor = using_history (history_of [''ls'', ''pwd''])" by (simp add: sample_editor_def new_editor_def)
  then show "clean_line sample_editor"
    using using_history_inv [OF history_of_inv, of "[''ls'', ''pwd'']"]
    by (simp add: clean_line_def sample_editor_def new_editor_def in_line_def rl_end_def using_history_def)
  show "ring_ok sample_editor" by (simp add: ring_ok_def ring_slots_def can_kill_def sample_editor_def new_editor_def)
qed

definition fresh_editor :: editor where
  "fresh_editor = sample_editor\<lparr>rl_kill_ring := None\<rparr>"

lemma fresh_editor_clean: "clean_line fresh_editor" "ring_ok fresh_editor"
  using sample_editor_clean(1)
  by (simp_all add: fresh_editor_def clean_line_def in_line_def rl_end_def ring_ok_def ring_slots_def can_kill_def)
    (simp add: sample_editor_def new_editor_def)

section \<open>Properties\<close>

text \<open>
  C10. Whatever is typed, deleted, killed, yanked, transposed, changed in case or undone, one revert of
  the line brings back the text the editing began with; no command touches a freed undo node or takes the
  position out of the line. The kill ring may be null, as in a fresh shell. Three uses are excluded by
  \<open>stays_on_line\<close>, since they fail: setting the mark with a negative argument, exchanging the position
  with a mark that is behind the end, and killing or copying an empty text while the ring is null. It
  also excludes the moves through the history, which are not edits of this line.
\<close>

theorem edits_revert:
  assumes "clean_line ed" and "ring_ok ed" and "stays_on_line keys ed"
  shows "\<exists>ed1 ed2. read_keys keys ed = Some ed1 \<and> in_line ed1 (rl_point ed1) \<and>
    rl_revert_line ed1 = Some ed2 \<and> rl_line_buffer ed2 = rl_line_buffer ed \<and> rl_undo_list ed2 = 0"
proof -
  obtain ed1 where ed1: "read_keys keys ed = Some ed1"
    "editing (rl_line_buffer ed) (abs_entries (hist ed)) (nat (history_offset (hist ed))) ed1"
    using keeps_keys [OF clean_line_editing [OF assms(1,2)] _ assms(3)] assms(2) by (auto simp: keeps_def ring_ok_def)
  then show ?thesis using editing_reverts [OF ed1(2)] by (auto simp: editing_def)
qed

definition sample_keys :: "(bool \<times> rl_command) list" where
  "sample_keys = keys_of (typing ''xy'' @ [Backward_Kill_Word 1, Yank, Yank_Pop, Change_Case (-1) UpCase,
     Transpose_Words 1, Undo_Command 1, Kill_Full_Line])"

text \<open>The sample line in a fresh shell, where the first kill makes the ring.\<close>

theorem edits_revert_witness:
  "\<exists>ed1 ed2. read_keys sample_keys fresh_editor = Some ed1 \<and> in_line ed1 (rl_point ed1) \<and>
    rl_revert_line ed1 = Some ed2 \<and> rl_line_buffer ed2 = ''cd src lib'' \<and> rl_undo_list ed2 = 0"
proof -
  have "stays_on_line sample_keys fresh_editor" by code_simp
  moreover have "rl_line_buffer fresh_editor = ''cd src lib''"
    by (simp add: fresh_editor_def sample_editor_def)
  ultimately show ?thesis using edits_revert [OF fresh_editor_clean] by simp
qed

text \<open>
  C11. Editing a recalled line does not change the history: after any edits Enter returns the edited
  line, and every entry has its text, time stamp and empty undo list back.
\<close>

theorem recalled_line_restored:
  assumes "clean_line ed" and "ring_ok ed" and "- 1 \<le> history_saved_point ed"
    and "history_offset (hist ed) = history_length (hist ed)"
    and "abs_entries (hist ed) \<noteq> []" and "\<forall>e\<in>set (abs_entries (hist ed)). he_data e = 0" and "0 < n"
  defines "es \<equiv> abs_entries (hist ed)"
  shows "\<exists>ed1. rl_get_previous_history n ed = Some ed1 \<and>
    he_line (es ! (length es - nat n)) = Some (rl_line_buffer ed1) \<and>
    (stays_on_line keys ed1 \<longrightarrow>
      (\<exists>ed2 ed3. read_keys keys ed1 = Some ed2 \<and> readline_internal_teardown ed2 = Some (rl_line_buffer ed2, ed3) \<and>
         abs_entries (hist ed3) = es \<and> rl_undo_list ed3 = 0))"
proof -
  let ?k = "length es - nat n"
  obtain as where h: "hist_holds (hist ed) as" using assms(1) by (auto simp: clean_line_def hist_inv_def)
  then have "nat (history_offset (hist ed)) = length es"
    using assms(4) abs_entries_length [OF h] by (simp add: es_def hist_holds_def)
  then have "editing (rl_line_buffer ed) es (length es) ed"
    using clean_line_editing [OF assms(1,2)] by (simp add: es_def)
  then obtain ed1 where ed1: "rl_get_previous_history n ed = Some ed1" "he_line (es ! ?k) = Some (rl_line_buffer ed1)"
    "editing (rl_line_buffer ed1) es ?k ed1" "can_kill ed1"
    using recall_at [of "rl_line_buffer ed" es ed n] assms(2,3,5-7) by (auto simp: es_def ring_ok_def)
  have "\<exists>ed2 ed3. read_keys keys ed1 = Some ed2 \<and> readline_internal_teardown ed2 = Some (rl_line_buffer ed2, ed3) \<and>
      abs_entries (hist ed3) = es \<and> rl_undo_list ed3 = 0" if stay: "stays_on_line keys ed1"
  proof -
    obtain ed2 where ed2: "read_keys keys ed1 = Some ed2" "editing (rl_line_buffer ed1) es ?k ed2"
      using keeps_keys [OF ed1(3,4) stay] by (auto simp: keeps_def)
    then show ?thesis
      using teardown_at [OF ed2(2) _ _ ed1(2)] assms(5-7) by (fastforce simp: es_def hist_at_def)
  qed
  then show ?thesis using ed1 by blast
qed

theorem recalled_line_restored_witness:
  "\<exists>ed1. rl_get_previous_history 2 sample_editor = Some ed1 \<and> rl_line_buffer ed1 = ''ls'' \<and>
    (\<exists>ed2 ed3. read_keys sample_keys ed1 = Some ed2 \<and> readline_internal_teardown ed2 = Some (rl_line_buffer ed2, ed3) \<and>
       abs_entries (hist ed3) = abs_entries (hist sample_editor))"
proof -
  have es: "abs_entries (hist sample_editor) =
      [\<lparr>he_line = Some ''ls'', he_timestamp = Some ''#1'', he_data = 0\<rparr>, \<lparr>he_line = Some ''pwd'', he_timestamp = Some ''#1'', he_data = 0\<rparr>]"
    by code_simp
  have start: "- 1 \<le> history_saved_point sample_editor" "history_offset (hist sample_editor) = history_length (hist sample_editor)"
    by code_simp+
  have keys: "case rl_get_previous_history 2 sample_editor of None \<Rightarrow> True | Some ed1 \<Rightarrow> stays_on_line sample_keys ed1"
    by code_simp
  show ?thesis
    using recalled_line_restored [OF sample_editor_clean start, of 2 sample_keys] keys by (auto simp: es)
qed

text \<open>
  C12. A run of killing commands, forwards and backwards in any mixture, is yanked back as one piece:
  the line is what it was before the run.
\<close>

theorem kill_run_yanked:
  assumes "clean_line ed" and "rl_editing_mode ed = emacs_mode" and "last_command_was_kill ed = 0"
    and "keys \<noteq> []" and "kill_run keys ed"
  shows "\<exists>ed1 ed2. read_keys keys ed = Some ed1 \<and> read_command_key (x, Yank) ed1 = Some ed2 \<and>
    rl_line_buffer ed2 = rl_line_buffer ed"
proof -
  have "killed_from (rl_line_buffer ed) ed"
    using assms(1-3) undo_at_start [of ed] by (auto simp: killed_from_def clean_line_def sound_line_def)
  then obtain ed1 where "read_keys keys ed = Some ed1" "killed_from (rl_line_buffer ed) ed1" "last_command_was_kill ed1 \<noteq> 0"
    using kill_keys [OF _ assms(5)] assms(4) by blast
  then show ?thesis using yank_kill by blast
qed

theorem kill_run_yanked_witness:
  "\<exists>ed1 ed2. read_keys (keys_of [Kill_Word 1, Unix_Word_Rubout 1, Backward_Kill_Line 1]) sample_editor = Some ed1 \<and>
    read_command_key (False, Yank) ed1 = Some ed2 \<and> rl_line_buffer ed2 = rl_line_buffer sample_editor"
proof -
  have "kill_run (keys_of [Kill_Word 1, Unix_Word_Rubout 1, Backward_Kill_Line 1]) sample_editor" by code_simp
  then show ?thesis
    by (intro kill_run_yanked [OF sample_editor_clean(1)]) (simp_all add: sample_editor_def new_editor_def keys_of_def)
qed

text \<open>What the typed character does to an undo list whose head it joins: nothing but a later end.\<close>

lemma insert_joined:
  assumes "in_line ed (rl_point ed)" "\<not> rl_doing_an_undo ed" "rl_undo_list ed \<noteq> 0"
    and "undo_heap ed (rl_undo_list ed) = Some n" "joins_last [c] (rl_point ed) n"
  shows "\<exists>ed1. rl_insert_text [c] ed = Some ed1 \<and> rl_end ed1 = rl_end ed + 1 \<and> hist ed1 = hist ed \<and>
    rl_undo_list ed1 = rl_undo_list ed"
  using assms by (auto simp: rl_insert_text_def remember_insert_def Let_def rl_end_def in_line_def)

lemma empty_region_kill:
  assumes "rl_mark ed = rl_point ed" "last_command_was_kill ed = 0"
  shows "\<exists>ed1. read_command_key (x, Copy_Region) ed = Some ed1 \<and> last_command_was_kill ed1 = 1 \<and>
    rl_kill_ring ed1 = rl_kill_ring ed \<and> rl_point ed1 = rl_point ed \<and> rl_end ed1 = rl_end ed"
  using assms by (simp add: read_command_key_def dispatch_def goes_on_def rl_copy_region_to_kill_def
      region_kill_internal_def count_kill_def rl_end_def Let_def)

lemma kill_without_ring:
  assumes "rl_kill_ring ed = None" "last_command_was_kill ed \<noteq> 0" "0 \<le> rl_point ed" "rl_point ed < rl_end ed"
  shows "read_command_key (y, Kill_Line 1) ed = None"
proof -
  have "rl_kill_text (rl_point ed) (rl_end ed) (ed\<lparr>rl_explicit_arg := y, rl_point := rl_end ed\<rparr>) = None"
  proof (cases "rl_delete_text (rl_point ed) (rl_end ed) (ed\<lparr>rl_explicit_arg := y, rl_point := rl_end ed\<rparr>)")
    case None
    then show ?thesis using assms(4) by (simp add: rl_kill_text_def)
  next
    case (Some ed1)
    have "rl_kill_ring ed1 = None \<and> last_command_was_kill ed1 \<noteq> 0"
      using Some assms(1,2) by (auto simp: rl_delete_text_def rl_add_undo_def Let_def bind_eq_Some_conv split: if_splits)
    then have "rl_copy_to_kill_ring str b ed1 = None" for str b by (simp add: rl_copy_to_kill_ring_def)
    then show ?thesis using assms(4) Some by (simp add: rl_kill_text_def)
  qed
  then show ?thesis
    using assms(4) by (simp add: read_command_key_def dispatch_def goes_on_def rl_kill_line_def kill_to_end_def
        rl_end_of_line_def rl_end_def Let_def)
qed

text \<open>
  C13. Where the editor fails. (1) A character typed behind an insertion whose undo node is already stored
  with the current history entry joins that node, so that the change is not noticed: when another entry
  is visited the entry keeps its old text, and the edit is lost. (2) Before the first kill, copying an
  empty region counts as a kill, and killing the rest of the line then appends to a ring that does not
  exist. (3) A negative argument below -1 sets the mark before the line; exchanging it with the position
  takes the position out of the line, where every typed character is written. (4) When the mark is behind
  the end, the exchange sets it to -1 and a copy of the region then reads from before the line.
\<close>

theorem editor_failures:
  "(\<forall>n p e. in_line ed (rl_point ed) \<and> \<not> rl_doing_an_undo ed \<and> rl_undo_list ed \<noteq> 0 \<and>
      undo_heap ed (rl_undo_list ed) = Some n \<and> joins_last [c] (rl_point ed) n \<and>
      current_history (hist ed) = Some p \<and> entry_of (hist ed) p = Some (Some e) \<and> he_data e = rl_undo_list ed \<longrightarrow>
      (\<exists>ed1. rl_insert_text [c] ed = Some ed1 \<and> rl_end ed1 = rl_end ed + 1 \<and>
         rl_maybe_replace_line ed1 = Some ed1 \<and> entry_of (hist ed1) p = Some (Some e))) \<and>
   (rl_kill_ring ed = None \<and> last_command_was_kill ed = 0 \<and> rl_mark ed = rl_point ed \<and>
      0 \<le> rl_point ed \<and> rl_point ed < rl_end ed \<longrightarrow>
      (\<exists>ed1. read_command_key (x, Copy_Region) ed = Some ed1 \<and> read_command_key (y, Kill_Line 1) ed1 = None)) \<and>
   (\<forall>m. m < - 1 \<and> \<not> overwrite_mode ed \<and> c \<noteq> NUL \<longrightarrow>
      (\<exists>ed1 ed2. read_command_key (True, Set_Mark m) ed = Some ed1 \<and>
         read_command_key (x, Exchange_Point_And_Mark) ed1 = Some ed2 \<and> rl_point ed2 = m \<and>
         read_command_key (y, Self_Insert 1 c) ed2 = None)) \<and>
   (rl_end ed < rl_mark ed \<and> 0 \<le> rl_point ed \<longrightarrow>
      (\<exists>ed1. read_command_key (x, Exchange_Point_And_Mark) ed = Some ed1 \<and> rl_mark ed1 = - 1 \<and>
         read_command_key (y, Copy_Region) ed1 = None))"
proof (intro conjI)
  show "\<forall>n p e. in_line ed (rl_point ed) \<and> \<not> rl_doing_an_undo ed \<and> rl_undo_list ed \<noteq> 0 \<and>
      undo_heap ed (rl_undo_list ed) = Some n \<and> joins_last [c] (rl_point ed) n \<and>
      current_history (hist ed) = Some p \<and> entry_of (hist ed) p = Some (Some e) \<and> he_data e = rl_undo_list ed \<longrightarrow>
      (\<exists>ed1. rl_insert_text [c] ed = Some ed1 \<and> rl_end ed1 = rl_end ed + 1 \<and>
         rl_maybe_replace_line ed1 = Some ed1 \<and> entry_of (hist ed1) p = Some (Some e))"
    using insert_joined [of ed _ c] by (fastforce simp: rl_maybe_replace_line_def)
  show "rl_kill_ring ed = None \<and> last_command_was_kill ed = 0 \<and> rl_mark ed = rl_point ed \<and>
      0 \<le> rl_point ed \<and> rl_point ed < rl_end ed \<longrightarrow>
      (\<exists>ed1. read_command_key (x, Copy_Region) ed = Some ed1 \<and> read_command_key (y, Kill_Line 1) ed1 = None)"
    using empty_region_kill [of ed x] kill_without_ring [of _ y] by fastforce
  show "\<forall>m. m < - 1 \<and> \<not> overwrite_mode ed \<and> c \<noteq> NUL \<longrightarrow>
      (\<exists>ed1 ed2. read_command_key (True, Set_Mark m) ed = Some ed1 \<and>
         read_command_key (x, Exchange_Point_And_Mark) ed1 = Some ed2 \<and> rl_point ed2 = m \<and>
         read_command_key (y, Self_Insert 1 c) ed2 = None)"
    by (auto simp: read_command_key_def dispatch_def goes_on_def rl_set_mark_def rl_set_mark_at_pos_def
        rl_exchange_point_and_mark_def rl_insert_def rl_insert_char_def rl_insert_text_def typed_text_def
        in_line_def rl_end_def TEXT_COUNT_MAX_def Let_def)
  show "rl_end ed < rl_mark ed \<and> 0 \<le> rl_point ed \<longrightarrow>
      (\<exists>ed1. read_command_key (x, Exchange_Point_And_Mark) ed = Some ed1 \<and> rl_mark ed1 = - 1 \<and>
         read_command_key (y, Copy_Region) ed1 = None)"
    by (auto simp: read_command_key_def dispatch_def goes_on_def rl_exchange_point_and_mark_def
        rl_copy_region_to_kill_def region_kill_internal_def rl_copy_text_def in_line_def rl_end_def Let_def)
qed

text \<open>Concrete states: a fresh shell with a line, and one whose mark was left behind the end.\<close>

definition typed_editor :: editor where
  "typed_editor = (new_editor (history_of [''ls'', ''pwd'']))\<lparr>rl_line_buffer := ''abc''\<rparr>"

definition revisited_editor :: editor where
  "revisited_editor =
     the (read_keys (keys_of [Previous_History 1, Self_Insert 1 CHR ''x'', Previous_History 1, Next_History 1])
       (new_editor (history_of [''ls'', ''pwd''])))"

theorem editor_failures_witness:
  "(\<exists>ed1. rl_insert_text ''y'' revisited_editor = Some ed1 \<and> rl_line_buffer revisited_editor = ''pwdx'' \<and>
      rl_end ed1 = 5 \<and> rl_maybe_replace_line ed1 = Some ed1) \<and>
   (\<exists>ed1. read_command_key (False, Copy_Region) typed_editor = Some ed1 \<and>
      read_command_key (False, Kill_Line 1) ed1 = None) \<and>
   (\<exists>ed1 ed2. read_command_key (True, Set_Mark (- 3)) typed_editor = Some ed1 \<and>
      read_command_key (False, Exchange_Point_And_Mark) ed1 = Some ed2 \<and> rl_point ed2 = - 3 \<and>
      read_command_key (False, Self_Insert 1 CHR ''y'') ed2 = None) \<and>
   (\<exists>ed1. read_command_key (False, Exchange_Point_And_Mark) (typed_editor\<lparr>rl_mark := 5\<rparr>) = Some ed1 \<and>
      rl_mark ed1 = - 1 \<and> read_command_key (False, Copy_Region) ed1 = None)"
proof (intro conjI)
  note line = typed_editor_def new_editor_def rl_end_def
  have v: "in_line revisited_editor (rl_point revisited_editor)" "\<not> rl_doing_an_undo revisited_editor"
    "rl_undo_list revisited_editor \<noteq> 0" "rl_line_buffer revisited_editor = ''pwdx''" "rl_end revisited_editor = 4"
    by code_simp+
  have j: "case undo_heap revisited_editor (rl_undo_list revisited_editor) of None \<Rightarrow> False
      | Some n \<Rightarrow> joins_last ''y'' (rl_point revisited_editor) n" by code_simp
  have h: "case current_history (hist revisited_editor) of None \<Rightarrow> False
      | Some p \<Rightarrow> (case entry_of (hist revisited_editor) p of
           Some (Some e) \<Rightarrow> he_data e = rl_undo_list revisited_editor | _ \<Rightarrow> False)" by code_simp
  from j obtain n where "undo_heap revisited_editor (rl_undo_list revisited_editor) = Some n"
    "joins_last ''y'' (rl_point revisited_editor) n" by (auto split: option.splits)
  moreover from h obtain p e where "current_history (hist revisited_editor) = Some p"
    "entry_of (hist revisited_editor) p = Some (Some e)" "he_data e = rl_undo_list revisited_editor"
    by (auto split: option.splits)
  ultimately show "\<exists>ed1. rl_insert_text ''y'' revisited_editor = Some ed1 \<and> rl_line_buffer revisited_editor = ''pwdx'' \<and>
      rl_end ed1 = 5 \<and> rl_maybe_replace_line ed1 = Some ed1"
    using conjunct1 [OF editor_failures [of revisited_editor "CHR ''y''" False False]] v by fastforce
  show "\<exists>ed1. read_command_key (False, Copy_Region) typed_editor = Some ed1 \<and>
      read_command_key (False, Kill_Line 1) ed1 = None"
    using editor_failures [of typed_editor NUL False False] by (auto simp: line)
  show "\<exists>ed1 ed2. read_command_key (True, Set_Mark (- 3)) typed_editor = Some ed1 \<and>
      read_command_key (False, Exchange_Point_And_Mark) ed1 = Some ed2 \<and> rl_point ed2 = - 3 \<and>
      read_command_key (False, Self_Insert 1 CHR ''y'') ed2 = None"
    using editor_failures [of typed_editor "CHR ''y''" False False] by (auto simp: line)
  show "\<exists>ed1. read_command_key (False, Exchange_Point_And_Mark) (typed_editor\<lparr>rl_mark := 5\<rparr>) = Some ed1 \<and>
      rl_mark ed1 = - 1 \<and> read_command_key (False, Copy_Region) ed1 = None"
    using editor_failures [of "typed_editor\<lparr>rl_mark := 5\<rparr>" NUL False False] by (auto simp: line)
qed

end
