(* ===== verification/Spec2Isabelle.thy ===== *)
theory Spec2Isabelle
  imports Alias_Table Indexed_Array Reader_Loop Bash_History Brace_Expansion Arith_Agreement Test_Builtin Pattern_Meaning Line_Session
begin

text \<open>
  Verification of the C core of the Simple Log Analysis System: the shell under
  \<^verbatim>\<open>src/bash/bash-4.3\<close>, a bash whose command loop reports the first word of every simple command to
  the agent of the system over a Unix socket. The agent, the server and the web interface are C++ and Python programs that
  only exchange messages with it. File names below are relative to \<^verbatim>\<open>src/bash/bash-4.3\<close>.

  \<^bold>\<open>The program.\<close> \<^verbatim>\<open>reader_loop\<close> (\<^verbatim>\<open>eval.c\<close>) reads a command, calls \<^verbatim>\<open>SendCommand\<close>
  (\<^verbatim>\<open>send_command.cpp\<close>) with its first word when it is a simple command, and executes it. On the way in, a line is edited
  (\<^verbatim>\<open>lib/readline\<close>) and entered into the history (\<^verbatim>\<open>bashhist.c\<close> over
  \<^verbatim>\<open>lib/readline/history.c\<close>), and aliases are looked up (\<^verbatim>\<open>alias.c\<close>). Expanding the
  words uses brace expansion (\<^verbatim>\<open>braces.c\<close>), the internal quoting of \<^verbatim>\<open>subst.c\<close>, arrays (\<^verbatim>\<open>array.c\<close>,
  \<^verbatim>\<open>assoc.c\<close> over \<^verbatim>\<open>hashlib.c\<close>) and arithmetic (\<^verbatim>\<open>expr.c\<close>); \<^verbatim>\<open>test\<close> (\<^verbatim>\<open>test.c\<close>) evaluates conditions.
  Values are printed for reuse with \<^verbatim>\<open>lib/sh/shquote.c\<close> and \<^verbatim>\<open>lib/sh/itos.c\<close>.

  \<^bold>\<open>The theories.\<close> Each follows its source file: first the data and the operations under the names
  of the C functions, loops as auxiliary functions named after them; then lemmas; the section
  \<^emph>\<open>Properties\<close> at the end states what the component promises.
  \<^item> \<open>Bash_Prelude\<close>: C strings (lists of characters without the terminator, \<open>c_at\<close> reads NUL behind
    the last), flags, \<open>int\<close> and \<open>intmax_t\<close> with their conversions, shared list lemmas.
  \<^item> \<open>Interfaces\<close>: the contracts as locales: \<open>keyed_store\<close> and \<open>counted_store\<close> (a map under an
    invariant, with its number of entries), \<open>simulated_machine\<close> (operations that simulate those of an
    abstract state). Each is interpreted in the theory of the component that provides it.
  \<^item> \<open>Hash_Table\<close> (\<^verbatim>\<open>hashlib.c\<close>): chains of buckets, the hash function on \<open>32 word\<close>; search, insertion and
    removal implement a map, also after a copy; walking visits every entry once.
  \<^item> \<open>Assoc_Array\<close> (\<^verbatim>\<open>assoc.c\<close>): element operations refine a map; the passes that quote and dequote all
    values; slices; the assignment text reads back.
  \<^item> \<open>Alias_Table\<close> (\<^verbatim>\<open>alias.c\<close>): the table refines a map, sorted listing, expansion of a line.
  \<^item> \<open>Indexed_Array\<close> (\<^verbatim>\<open>array.c\<close>): the ordered list of elements with addresses, so that the roving
    pointer \<^verbatim>\<open>lastref\<close>, which all arrays share, can be stale; its safety is part of the invariant.
  \<^item> \<open>Shell_Quote\<close> (\<^verbatim>\<open>lib/sh/shquote.c\<close>, quoting and word lists of \<^verbatim>\<open>subst.c\<close>): round trips against a
    reader of shell text that knows quotes, operators, tildes, braces and history characters, and the
    size of every output buffer.
  \<^item> \<open>Number_Text\<close> (\<^verbatim>\<open>lib/sh/fmtulong.c\<close>, \<^verbatim>\<open>itos.c\<close>, \<^verbatim>\<open>legal_number\<close>): printing and reading numbers.
  \<^item> \<open>Arith_Lexer\<close>, \<open>Arith_Eval\<close> (\<^verbatim>\<open>expr.c\<close>): the evaluator with its state, values modulo 2^64, errors
    as outcomes. \<open>Arith_Semantics\<close> defines expression trees, their meaning and their text;
    \<open>Arith_Agreement\<close> shows that the evaluator computes the meaning of the text. The variables of the
    shell are a record of operations; the locale \<open>scalar_shell\<close> says what the proof needs of them.
  \<^item> \<open>Test_Builtin\<close> (\<^verbatim>\<open>test.c\<close>): the operators, the descent, the rules for up to four arguments; the
    command computes what its expression means, and always ends.
  \<^item> \<open>Glob_Match\<close> (\<^verbatim>\<open>lib/glob/sm_loop.c\<close>, \<^verbatim>\<open>smatch.c\<close>): the pattern matcher, with positions in place of
    pointers and reads behind the pattern as an outcome. \<open>Glob_Language\<close> defines patterns, their text and
    the language they denote, and shows that the matcher decides it; it ends with samples of where it does not.
  \<^item> \<open>Pattern_Expansion\<close> (\<^verbatim>\<open>subst.c\<close>, \<^verbatim>\<open>lib/glob/gmisc.c\<close>, \<^verbatim>\<open>pathexp.c\<close>): removal and substitution by patterns on
    top of the matcher. \<open>Pattern_Meaning\<close> shows what they compute in terms of the language of the pattern.
  \<^item> \<open>Brace_Expansion\<close> (\<^verbatim>\<open>braces.c\<close>): the scanner, sequences with their 32 and 64 bit arithmetic, and
    the agreement of the expansion with its denotation.
  \<^item> \<open>History_List\<close> (\<^verbatim>\<open>lib/readline/history.c\<close>): slots that point to entries, so that freed and
    uninitialised pointers exist; all operations simulate a bounded list with a position.
  \<^item> \<open>Line_Editor\<close> (\<^verbatim>\<open>lib/readline/undo.c\<close>, \<^verbatim>\<open>kill.c\<close>, \<^verbatim>\<open>text.c\<close>, \<^verbatim>\<open>misc.c\<close>,
    \<^verbatim>\<open>readline.c\<close>): the edited line with its undo list, a chain of nodes in a heap that entries of the
    history share, the kill ring, the mark, and the loop over keys. \<open>Line_Undo\<close> shows that every text
    change is undone by its node; \<open>Line_Commands\<close> that every command keeps the line revertible;
    \<open>Line_Session\<close> has the theorems on whole sessions: revert, recalled lines, runs of kills, failures.
  \<^item> \<open>Bash_History\<close> (\<^verbatim>\<open>bashhist.c\<close>): which lines are kept, in terms of \<open>History_List\<close>.
  \<^item> \<open>Reader_Loop\<close> (\<^verbatim>\<open>eval.c\<close>, \<^verbatim>\<open>sig.c\<close>, \<^verbatim>\<open>send_command.cpp\<close>): the loop as steps over a state with a trace of
    reports and executions; jumps to the top level are outcomes of every routine that can jump. The C++
    calls of \<^verbatim>\<open>SendCommand\<close> return or throw; what leaves its \<open>try\<close> block ends the process. Theorems:
    the trace of any run, of a script, without an agent and without configuration.

  \<^bold>\<open>Loops and fuel.\<close> Loops over strings and lists are structural or have a measure. Fuel appears where
  the code recurses without a bound that Isabelle sees, and the properties show that it is enough: the
  command loop makes at most \<open>3 n + 2\<close> steps on \<open>n\<close> commands and interrupts (\<open>2 n + 2\<close> on a script); the loop of \<^verbatim>\<open>erasedups\<close> one round for each
  entry; the evaluator of arithmetic \<open>length + 6\<close> for each of at most 1025 nested evaluations
  (\<open>evalexp_terminates\<close>); \<^verbatim>\<open>test\<close> four routines for each argument (\<open>test_command_ends\<close>);
  matching of a pattern of length \<open>m\<close> with a string of length \<open>n\<close> at most \<open>(m + 1) (n + 1)\<close> nested calls (\<open>strmatch_ends\<close>);
  undoing one round for each node ever made, since a chain has no node twice; reverting all lines one
  round for each entry before the position.

  \<^bold>\<open>Errors.\<close> Reading or writing outside an object, a freed or uninitialised pointer and an undefined
  shift are outcomes of the model, not excluded by its types; the theorems say when they do not occur,
  and a few say when they do.

  \<^bold>\<open>Arguments of the model.\<close> Code outside the modelled files is an argument of the definitions that
  call it: the parser, the executor and the C++ calls of \<^verbatim>\<open>SendCommand\<close> (options, logger, socket, each
  with its exceptions) for the command loop; variables
  and subscripts for \<^verbatim>\<open>expr.c\<close> and \<^verbatim>\<open>test.c\<close>; \<^verbatim>\<open>pat_subst\<close> and \<^verbatim>\<open>sh_modcase\<close> for the arrays and
  \<^verbatim>\<open>strmatch\<close> for \<^verbatim>\<open>HISTIGNORE\<close>, where nothing depends on what they compute; \<^verbatim>\<open>strcoll\<close> for \<^verbatim>\<open>test\<close> and the matcher; \<^verbatim>\<open>extract_command_subst\<close> for brace expansion; system calls.

  \<^bold>\<open>Not modelled.\<close> Characters are bytes: the multibyte variants are left out. Allocation does not fail.
  Texts of messages are left out. The parser, job control, execution, redirections, variables and
  parameter expansion are not modelled, nor are key maps, completion, searching, the vi commands
  and the display of the line editor, the remaining builtins and the memory allocator; the manifest lists them with the reason.
\<close>

end
